(* ===== verification/Prelude.thy ===== *)
theory Prelude
  imports Main "HOL-Library.AList" "HOL-Library.Sublist"
begin

text \<open>
  Shared vocabulary of the development.

  \<^item> JavaScript's \<open>Map\<close> and plain objects keep their keys in insertion order; they are association
    lists with distinct keys, written with \<open>AList.update\<close> (\<open>Map.set\<close>, \<open>obj[k] = v\<close>: an existing key
    keeps its place, a new one goes last) and \<open>AList.delete\<close> (\<open>Map.delete\<close>, \<open>delete obj[k]\<close>).
  \<^item> An \<open>async\<close> method that can throw is a function from the state to a result and the state it
    leaves behind: effects made before an exception stay, as in the source. \<open>Inl\<close> is the exception.
  \<^item> \<open>preserves P m\<close> says that \<open>m\<close> keeps the invariant \<open>P\<close> whether it returns or throws.
\<close>

section \<open>Association lists as ordered maps\<close>

type_synonym ('k, 'v) omap = "('k \<times> 'v) list"

definition okeys :: "('k, 'v) omap \<Rightarrow> bool" where
  "okeys m \<longleftrightarrow> distinct (map fst m)"

lemma okeys_Nil [simp]: "okeys []"
  by (simp add: okeys_def)

lemma okeys_update [simp, intro]: "okeys m \<Longrightarrow> okeys (AList.update k v m)"
  by (simp add: okeys_def distinct_update)

lemma okeys_delete [simp, intro]: "okeys m \<Longrightarrow> okeys (AList.delete k m)"
  by (simp add: okeys_def distinct_delete)

lemma map_of_update_iff [simp]:
  "map_of (AList.update k v m) k' = (if k' = k then Some v else map_of m k')"
  by (simp add: update_conv')

lemma map_of_delete_iff [simp]:
  "map_of (AList.delete k m) k' = (if k' = k then None else map_of m k')"
  by (simp add: delete_conv')

lemma update_notin: "k \<notin> fst ` set m \<Longrightarrow> AList.update k v m = m @ [(k, v)]"
  by (induction m) auto

lemma okeys_Cons: "okeys (x # m) \<longleftrightarrow> fst x \<notin> fst ` set m \<and> okeys m"
  by (simp add: okeys_def)

text \<open>A weight summed over the entries, and how one update or deletion changes it.\<close>

definition osum :: "('k \<Rightarrow> 'v \<Rightarrow> int) \<Rightarrow> ('k, 'v) omap \<Rightarrow> int" where
  "osum f m = sum_list (map (\<lambda>(k, v). f k v) m)"

lemma osum_Nil [simp]: "osum f [] = 0"
  by (simp add: osum_def)

lemma osum_Cons [simp]: "osum f ((k, v) # m) = f k v + osum f m"
  by (simp add: osum_def)

lemma osum_append [simp]: "osum f (m @ n) = osum f m + osum f n"
  by (simp add: osum_def)

lemma osum_update:
  "osum f (AList.update k v m) =
     osum f m + f k v - (case map_of m k of None \<Rightarrow> 0 | Some w \<Rightarrow> f k w)"
  by (induction m) auto

lemma osum_delete:
  "okeys m \<Longrightarrow> osum f (AList.delete k m) = osum f m - (case map_of m k of None \<Rightarrow> 0 | Some w \<Rightarrow> f k w)"
proof (induction m)
  case Nil
  then show ?case by simp
next
  case (Cons x m)
  obtain j w where x: "x = (j, w)" by fastforce
  show ?case
  proof (cases "j = k")
    case True
    with Cons.prems x have "k \<notin> fst ` set m" by (simp add: okeys_Cons)
    with True x show ?thesis by (simp add: delete_id)
  next
    case False
    with Cons x show ?thesis by (simp add: okeys_Cons)
  qed
qed

lemma osum_cong: "(\<And>k v. (k, v) \<in> set m \<Longrightarrow> f k v = g k v) \<Longrightarrow> osum f m = osum g m"
  by (induction m) auto

lemma osum_zero [simp]: "osum (\<lambda>_ _. 0) m = 0"
  by (induction m) auto

lemma osum_nonneg: "(\<And>k v. (k, v) \<in> set m \<Longrightarrow> 0 \<le> f k v) \<Longrightarrow> 0 \<le> osum f m"
  by (induction m) (auto simp: add_nonneg_nonneg)

lemma okeys_map_of: "okeys m \<Longrightarrow> (k, v) \<in> set m \<longleftrightarrow> map_of m k = Some v"
  by (simp add: okeys_def)

section \<open>Searching lists\<close>

lemma find_append: "find P (xs @ ys) = (case find P xs of None \<Rightarrow> find P ys | Some x \<Rightarrow> Some x)"
  by (induction xs) auto

lemma find_unique: "x \<in> set xs \<Longrightarrow> P x \<Longrightarrow> \<forall>y \<in> set xs. P y \<longrightarrow> y = x \<Longrightarrow> find P xs = Some x"
proof (induction xs)
  case (Cons a xs)
  show ?case
  proof (cases "P a")
    case True
    then have "a = x" using Cons.prems(3) by (metis list.set_intros(1))
    with True show ?thesis by simp
  next
    case False
    then have "x \<in> set xs" using Cons.prems(1,2) by auto
    then have "find P xs = Some x" using Cons.IH Cons.prems(2,3) by (metis list.set_intros(2))
    with False show ?thesis by simp
  qed
qed simp

lemma filter_single:
  "distinct (map f xs) \<Longrightarrow> find (\<lambda>x. f x = k) xs = Some y \<Longrightarrow> filter (\<lambda>x. f x = k) xs = [y]"
proof (induction xs)
  case (Cons x xs)
  show ?case
  proof (cases "f x = k")
    case True
    then have "\<forall>z \<in> set xs. f z \<noteq> k" using Cons.prems(1) by (metis distinct.simps(2) image_eqI list.set_map list.simps(9))
    with True Cons.prems show ?thesis by (simp add: filter_empty_conv)
  qed (use Cons in simp)
qed simp

lemma find_SomeD: "find P xs = Some x \<Longrightarrow> x \<in> set xs \<and> P x"
  by (induction xs) (auto split: if_splits)

text \<open>A loop that assigns \<open>obj[f i] = g i\<close>.\<close>

lemma map_of_fold_update:
  "map_of (fold (\<lambda>i. AList.update (f i) (g i)) xs acc) k =
     (case find (\<lambda>i. f i = k) (rev xs) of Some i \<Rightarrow> Some (g i) | None \<Rightarrow> map_of acc k)"
  by (induction xs arbitrary: acc) (auto simp: find_append split: option.splits)

lemma okeys_fold_update: "okeys acc \<Longrightarrow> okeys (fold (\<lambda>i. AList.update (f i) (g i)) xs acc)"
  by (induction xs arbitrary: acc) auto

lemma fold_update_distinct:
  assumes "distinct (map f xs)" and "\<And>i. i \<in> set xs \<Longrightarrow> f i \<notin> fst ` set acc"
  shows "fold (\<lambda>i. AList.update (f i) (g i)) xs acc = acc @ map (\<lambda>i. (f i, g i)) xs"
  using assms
proof (induction xs arbitrary: acc)
  case (Cons i xs)
  have "AList.update (f i) (g i) acc = acc @ [(f i, g i)]" using Cons.prems(2) by (intro update_notin) simp
  moreover have "fold (\<lambda>i. AList.update (f i) (g i)) xs (acc @ [(f i, g i)]) = (acc @ [(f i, g i)]) @ map (\<lambda>i. (f i, g i)) xs"
  proof (rule Cons.IH)
    fix j assume "j \<in> set xs"
    then have "f j \<noteq> f i" "f j \<notin> fst ` set acc" using Cons.prems by (auto simp: rev_image_eqI)
    then show "f j \<notin> fst ` set (acc @ [(f i, g i)])" by simp
  qed (use Cons.prems in simp)
  ultimately show ?case by simp
qed simp

section \<open>Functions that throw\<close>

text \<open>
  A function without effects that can throw returns a sum. The list combinators evaluate from the left and
  stop at the first exception; \<open>sum_some\<close> and \<open>sum_every\<close> also stop at the first decisive element.
\<close>

definition sbind :: "'e + 'a \<Rightarrow> ('a \<Rightarrow> 'e + 'b) \<Rightarrow> 'e + 'b" where
  "sbind m f = (case m of Inl e \<Rightarrow> Inl e | Inr a \<Rightarrow> f a)"

fun sum_map :: "('a \<Rightarrow> 'e + 'b) \<Rightarrow> 'a list \<Rightarrow> 'e + 'b list" where
  "sum_map f [] = Inr []"
| "sum_map f (x # xs) = sbind (f x) (\<lambda>y. sbind (sum_map f xs) (\<lambda>ys. Inr (y # ys)))"

fun sum_some :: "('a \<Rightarrow> 'e + bool) \<Rightarrow> 'a list \<Rightarrow> 'e + bool" where
  "sum_some f [] = Inr False"
| "sum_some f (x # xs) = sbind (f x) (\<lambda>b. if b then Inr True else sum_some f xs)"

fun sum_every :: "('a \<Rightarrow> 'e + bool) \<Rightarrow> 'a list \<Rightarrow> 'e + bool" where
  "sum_every f [] = Inr True"
| "sum_every f (x # xs) = sbind (f x) (\<lambda>b. if b then sum_every f xs else Inr False)"

fun sum_filter :: "('a \<Rightarrow> 'e + bool) \<Rightarrow> 'a list \<Rightarrow> 'e + 'a list" where
  "sum_filter f [] = Inr []"
| "sum_filter f (x # xs) = sbind (f x) (\<lambda>b. sbind (sum_filter f xs) (\<lambda>ys. Inr (if b then x # ys else ys)))"

lemma sbind_simps [simp]: "sbind (Inr a) f = f a" "sbind (Inl e) f = Inl e"
  by (simp_all add: sbind_def)

lemma sbind_assoc: "sbind (sbind m f) g = sbind m (\<lambda>x. sbind (f x) g)"
  by (cases m) auto

lemma sbind_eq_Inr: "sbind m f = Inr b \<longleftrightarrow> (\<exists>a. m = Inr a \<and> f a = Inr b)"
  by (cases m) auto

lemma sbind_cong [fundef_cong]: "m = m' \<Longrightarrow> (\<And>a. m' = Inr a \<Longrightarrow> f a = f' a) \<Longrightarrow> sbind m f = sbind m' f'"
  by (cases m') auto

lemma sum_map_cong [fundef_cong]: "xs = ys \<Longrightarrow> (\<And>x. x \<in> set ys \<Longrightarrow> f x = g x) \<Longrightarrow> sum_map f xs = sum_map g ys"
  by (induction ys arbitrary: xs) auto

lemma sum_some_cong [fundef_cong]: "xs = ys \<Longrightarrow> (\<And>x. x \<in> set ys \<Longrightarrow> f x = g x) \<Longrightarrow> sum_some f xs = sum_some g ys"
  by (induction ys arbitrary: xs) (auto cong: if_cong)

lemma sum_every_cong [fundef_cong]: "xs = ys \<Longrightarrow> (\<And>x. x \<in> set ys \<Longrightarrow> f x = g x) \<Longrightarrow> sum_every f xs = sum_every g ys"
  by (induction ys arbitrary: xs) (auto cong: if_cong)

lemma sum_filter_cong [fundef_cong]: "xs = ys \<Longrightarrow> (\<And>x. x \<in> set ys \<Longrightarrow> f x = g x) \<Longrightarrow> sum_filter f xs = sum_filter g ys"
  by (induction ys arbitrary: xs) auto

text \<open>Where nothing throws they are the functions of the library.\<close>

lemma sum_map_ok: "(\<And>x. x \<in> set xs \<Longrightarrow> f x = Inr (g x)) \<Longrightarrow> sum_map f xs = Inr (map g xs)"
  by (induction xs) auto

lemma sum_some_ok: "(\<And>x. x \<in> set xs \<Longrightarrow> f x = Inr (g x)) \<Longrightarrow> sum_some f xs = Inr (list_ex g xs)"
  by (induction xs) auto

lemma sum_every_ok: "(\<And>x. x \<in> set xs \<Longrightarrow> f x = Inr (g x)) \<Longrightarrow> sum_every f xs = Inr (list_all g xs)"
  by (induction xs) auto

lemma sum_filter_ok: "(\<And>x. x \<in> set xs \<Longrightarrow> f x = Inr (g x)) \<Longrightarrow> sum_filter f xs = Inr (filter g xs)"
  by (induction xs) auto

section \<open>Methods that throw\<close>

type_synonym ('s, 'e, 'a) amethod = "'s \<Rightarrow> ('e + 'a) \<times> 's"

definition mreturn :: "'a \<Rightarrow> ('s, 'e, 'a) amethod" where
  "mreturn a = (\<lambda>s. (Inr a, s))"

definition mthrow :: "'e \<Rightarrow> ('s, 'e, 'a) amethod" where
  "mthrow e = (\<lambda>s. (Inl e, s))"

definition mbind :: "('s, 'e, 'a) amethod \<Rightarrow> ('a \<Rightarrow> ('s, 'e, 'b) amethod) \<Rightarrow> ('s, 'e, 'b) amethod" where
  "mbind m f = (\<lambda>s. case m s of (Inl e, s') \<Rightarrow> (Inl e, s') | (Inr a, s') \<Rightarrow> f a s')"

definition mcatch :: "('s, 'e, 'a) amethod \<Rightarrow> ('e \<Rightarrow> ('s, 'e, 'a) amethod) \<Rightarrow> ('s, 'e, 'a) amethod" where
  "mcatch m h = (\<lambda>s. case m s of (Inl e, s') \<Rightarrow> h e s' | (Inr a, s') \<Rightarrow> (Inr a, s'))"

text \<open>\<open>mtry m\<close> runs \<open>m\<close> and reports as a value how it ended.\<close>

definition mtry :: "('s, 'e, 'a) amethod \<Rightarrow> ('s, 'e, 'e + 'a) amethod" where
  "mtry m = (\<lambda>s. case m s of (r, s') \<Rightarrow> (Inr r, s'))"

fun mfor :: "'x list \<Rightarrow> ('x \<Rightarrow> ('s, 'e, unit) amethod) \<Rightarrow> ('s, 'e, unit) amethod" where
  "mfor [] f = mreturn ()"
| "mfor (x # xs) f = mbind (f x) (\<lambda>_. mfor xs f)"

lemmas method_defs = mreturn_def mthrow_def mbind_def mcatch_def mtry_def

lemma mreturn_apply [simp]: "mreturn a s = (Inr a, s)"
  by (simp add: mreturn_def)

lemma mthrow_apply [simp]: "mthrow e s = (Inl e, s)"
  by (simp add: mthrow_def)

lemma mbind_Inr [simp]: "m s = (Inr a, s') \<Longrightarrow> mbind m f s = f a s'"
  by (simp add: mbind_def)

lemma mbind_Inl [simp]: "m s = (Inl e, s') \<Longrightarrow> mbind m f s = (Inl e, s')"
  by (simp add: mbind_def)

lemma mcatch_Inr [simp]: "m s = (Inr a, s') \<Longrightarrow> mcatch m h s = (Inr a, s')"
  by (simp add: mcatch_def)

lemma mcatch_Inl [simp]: "m s = (Inl e, s') \<Longrightarrow> mcatch m h s = h e s'"
  by (simp add: mcatch_def)

lemma mtry_apply: "mtry m s = (Inr (fst (m s)), snd (m s))"
  by (simp add: mtry_def split: prod.splits)

section \<open>Invariants of methods\<close>

named_theorems preserves_intros

definition preserves :: "('s \<Rightarrow> bool) \<Rightarrow> ('s, 'e, 'a) amethod \<Rightarrow> bool" where
  "preserves P m \<longleftrightarrow> (\<forall>s. P s \<longrightarrow> P (snd (m s)))"

lemma preservesI: "(\<And>s. P s \<Longrightarrow> P (snd (m s))) \<Longrightarrow> preserves P m"
  by (simp add: preserves_def)

lemma preservesD: "preserves P m \<Longrightarrow> P s \<Longrightarrow> P (snd (m s))"
  by (simp add: preserves_def)

lemma preserves_result: "preserves P m \<Longrightarrow> P s \<Longrightarrow> m s = (r, s') \<Longrightarrow> P s'"
  using preservesD [of P m s] by simp

lemma preserves_mreturn [preserves_intros]: "preserves P (mreturn a)"
  by (simp add: preserves_def)

lemma preserves_mthrow [preserves_intros]: "preserves P (mthrow e)"
  by (simp add: preserves_def)

lemma preserves_mbind [preserves_intros]:
  assumes "preserves P m" and "\<And>a. preserves P (f a)"
  shows "preserves P (mbind m f)"
  using assms by (auto simp: preserves_def mbind_def split: prod.splits sum.splits)

lemma preserves_mcatch [preserves_intros]:
  assumes "preserves P m" and "\<And>e. preserves P (h e)"
  shows "preserves P (mcatch m h)"
  using assms by (auto simp: preserves_def mcatch_def split: prod.splits sum.splits)

lemma preserves_mtry [preserves_intros]: "preserves P m \<Longrightarrow> preserves P (mtry m)"
  by (auto simp: preserves_def mtry_def split: prod.splits)

lemma preserves_mfor [preserves_intros]:
  "(\<And>x. x \<in> set xs \<Longrightarrow> preserves P (f x)) \<Longrightarrow> preserves P (mfor xs f)"
  by (induction xs) (auto intro: preserves_intros)

lemma preserves_if [preserves_intros]:
  "(b \<Longrightarrow> preserves P m) \<Longrightarrow> (\<not> b \<Longrightarrow> preserves P n) \<Longrightarrow> preserves P (if b then m else n)"
  by simp

lemma preserves_case_option [preserves_intros]:
  "(x = None \<Longrightarrow> preserves P m) \<Longrightarrow> (\<And>a. x = Some a \<Longrightarrow> preserves P (f a)) \<Longrightarrow>
   preserves P (case x of None \<Rightarrow> m | Some a \<Rightarrow> f a)"
  by (cases x) auto

lemma preserves_case_sum [preserves_intros]:
  "(\<And>a. x = Inl a \<Longrightarrow> preserves P (f a)) \<Longrightarrow> (\<And>b. x = Inr b \<Longrightarrow> preserves P (g b)) \<Longrightarrow>
   preserves P (case x of Inl a \<Rightarrow> f a | Inr b \<Rightarrow> g b)"
  by (cases x) auto

section \<open>Strings\<close>

definition startsWith :: "string \<Rightarrow> string \<Rightarrow> bool" where
  "startsWith s p \<longleftrightarrow> prefix p s"

lemma startsWith_append [simp]: "startsWith (p @ s) p"
  by (simp add: startsWith_def)

text \<open>\<open>Array.prototype.join\<close>.\<close>

fun join :: "string \<Rightarrow> string list \<Rightarrow> string" where
  "join sep [] = []"
| "join sep [x] = x"
| "join sep (x # y # ys) = x @ sep @ join sep (y # ys)"

lemma join_Cons: "ys \<noteq> [] \<Longrightarrow> join sep (x # ys) = x @ sep @ join sep ys"
  by (cases ys) auto

end
