(* ===== verification/KeyValueStorage.thy ===== *)
theory KeyValueStorage
  imports Prelude
begin

text \<open>
  Key-value storage, the interface \<open>KeyValueStorageInterface\<close> that the cache, the token store, the
  sign-in store and the upload cache are written against.
  Modelled: \<open>InMemoryStorage\<close> (\<open>core/src/storage/InMemoryStorage.ts\<close>), the wrappers
  \<open>KeyValueStorage\<close> and \<open>SyncKeyValueStorage\<close>, and DataStore's \<open>InMemoryStore\<close>
  (\<open>datastore/src/storage/adapter/InMemoryStore.ts\<close>).
  The locale \<open>kv_store\<close> states what a client may rely on; both stores are instances of it.
\<close>

section \<open>InMemoryStorage\<close>

type_synonym 'v kvs = "(string, 'v) omap"

definition ims_length :: "'v kvs \<Rightarrow> nat" where
  "ims_length s = length s"

definition ims_key :: "'v kvs \<Rightarrow> int \<Rightarrow> string option" where
  "ims_key s index =
     (if index > int (ims_length s) - 1 then None
      else if index < 0 then None
      else Some (map fst s ! nat index))"

definition ims_setItem :: "string \<Rightarrow> 'v \<Rightarrow> 'v kvs \<Rightarrow> 'v kvs" where
  "ims_setItem k v s = AList.update k v s"

definition ims_getItem :: "'v kvs \<Rightarrow> string \<Rightarrow> 'v option" where
  "ims_getItem s k = map_of s k"

definition ims_removeItem :: "string \<Rightarrow> 'v kvs \<Rightarrow> 'v kvs" where
  "ims_removeItem k s = AList.delete k s"

definition ims_clear :: "'v kvs \<Rightarrow> 'v kvs" where
  "ims_clear s = []"

section \<open>The wrappers over a platform storage\<close>

datatype storage_error = PlatformNotSupportedError | QuotaExceededError

text \<open>
  The wrapped \<open>Storage\<close> may be absent; \<open>accepts\<close> is the platform's decision to take a write (a browser
  throws \<open>QuotaExceededError\<close> when the origin's quota is used up).
\<close>

definition kv_setItem ::
  "('v kvs \<Rightarrow> string \<Rightarrow> 'v \<Rightarrow> bool) \<Rightarrow> string \<Rightarrow> 'v \<Rightarrow> ('v kvs option, storage_error, unit) amethod" where
  "kv_setItem accepts k v st = (case st of
     None \<Rightarrow> (Inl PlatformNotSupportedError, None)
   | Some s \<Rightarrow> if accepts s k v then (Inr (), Some (ims_setItem k v s))
              else (Inl QuotaExceededError, Some s))"

definition kv_getItem :: "string \<Rightarrow> ('v kvs option, storage_error, 'v option) amethod" where
  "kv_getItem k st = (case st of
     None \<Rightarrow> (Inl PlatformNotSupportedError, None)
   | Some s \<Rightarrow> (Inr (ims_getItem s k), Some s))"

definition kv_removeItem :: "string \<Rightarrow> ('v kvs option, storage_error, unit) amethod" where
  "kv_removeItem k st = (case st of
     None \<Rightarrow> (Inl PlatformNotSupportedError, None)
   | Some s \<Rightarrow> (Inr (), Some (ims_removeItem k s)))"

definition kv_clear :: "('v kvs option, storage_error, unit) amethod" where
  "kv_clear st = (case st of
     None \<Rightarrow> (Inl PlatformNotSupportedError, None)
   | Some s \<Rightarrow> (Inr (), Some (ims_clear s)))"

section \<open>DataStore's InMemoryStore\<close>

definition dst_getAllKeys :: "'v kvs \<Rightarrow> string list" where
  "dst_getAllKeys s = map fst s"

definition dst_setItem :: "string \<Rightarrow> 'v \<Rightarrow> 'v kvs \<Rightarrow> 'v kvs" where
  "dst_setItem k v s = AList.update k v s"

definition dst_getItem :: "'v kvs \<Rightarrow> string \<Rightarrow> 'v option" where
  "dst_getItem s k = map_of s k"

definition dst_removeItem :: "string \<Rightarrow> 'v kvs \<Rightarrow> 'v kvs" where
  "dst_removeItem k s = AList.delete k s"

definition dst_multiGet :: "'v kvs \<Rightarrow> string list \<Rightarrow> (string \<times> 'v option) list" where
  "dst_multiGet s ks = fold (\<lambda>k res. res @ [(k, map_of s k)]) ks []"

definition dst_multiRemove :: "string list \<Rightarrow> 'v kvs \<Rightarrow> 'v kvs" where
  "dst_multiRemove ks s = fold dst_removeItem ks s"

definition dst_multiSet :: "(string \<times> 'v) list \<Rightarrow> 'v kvs \<Rightarrow> 'v kvs" where
  "dst_multiSet entries s = fold (\<lambda>(k, v). dst_setItem k v) entries s"

lemma dst_multiGet_map: "dst_multiGet s ks = map (\<lambda>k. (k, map_of s k)) ks"
proof -
  have "fold (\<lambda>k res. res @ [(k, map_of s k)]) ks acc = acc @ map (\<lambda>k. (k, map_of s k)) ks" for acc
    by (induction ks arbitrary: acc) auto
  then show ?thesis by (simp add: dst_multiGet_def)
qed

section \<open>The interface\<close>

locale kv_store =
  fixes getItem :: "'s \<Rightarrow> string \<Rightarrow> 'v option"
    and setItem :: "string \<Rightarrow> 'v \<Rightarrow> 's \<Rightarrow> 's"
    and removeItem :: "string \<Rightarrow> 's \<Rightarrow> 's"
  assumes get_set: "getItem (setItem k v s) k' = (if k' = k then Some v else getItem s k')"
    and get_remove: "getItem (removeItem k s) k' = (if k' = k then None else getItem s k')"
begin

lemma get_set_same: "getItem (setItem k v s) k = Some v"
  by (simp add: get_set)

lemma get_set_other: "k' \<noteq> k \<Longrightarrow> getItem (setItem k v s) k' = getItem s k'"
  by (simp add: get_set)

lemma get_remove_all:
  "getItem (fold removeItem ks s) k = (if k \<in> set ks then None else getItem s k)"
  by (induction ks arbitrary: s) (auto simp: get_remove)

lemma get_set_all:
  "getItem (fold (\<lambda>(k, v). setItem k v) kvs s) k =
     (case map_of (rev kvs) k of Some v \<Rightarrow> Some v | None \<Rightarrow> getItem s k)"
  by (induction kvs arbitrary: s) (auto simp: get_set map_add_def split: option.splits)

lemma last_write_wins: "getItem (setItem k v (setItem k w s)) j = getItem (setItem k v s) j"
  by (simp add: get_set)

lemma writes_commute:
  "k \<noteq> l \<Longrightarrow> getItem (setItem k v (setItem l w s)) j = getItem (setItem l w (setItem k v s)) j"
  by (simp add: get_set)

end

text \<open>A store whose \<open>clear\<close> drops every key.\<close>

locale clearable_kv_store = kv_store getItem setItem removeItem
  for getItem :: "'s \<Rightarrow> string \<Rightarrow> 'v option" and setItem and removeItem +
  fixes clear :: "'s \<Rightarrow> 's"
  assumes get_clear: "getItem (clear s) k = None"
begin

lemma set_after_clear: "getItem (setItem k v (clear s)) j = (if j = k then Some v else None)"
  by (simp add: get_set get_clear)

end

interpretation ims: clearable_kv_store ims_getItem ims_setItem ims_removeItem ims_clear
  by unfold_locales (simp_all add: ims_getItem_def ims_setItem_def ims_removeItem_def ims_clear_def)

interpretation dst: kv_store dst_getItem dst_setItem dst_removeItem
  by unfold_locales (simp_all add: dst_getItem_def dst_setItem_def dst_removeItem_def)

lemma okeys_ims_setItem [simp]: "okeys s \<Longrightarrow> okeys (ims_setItem k v s)"
  by (simp add: ims_setItem_def)

lemma okeys_ims_removeItem [simp]: "okeys s \<Longrightarrow> okeys (ims_removeItem k s)"
  by (simp add: ims_removeItem_def)

lemmas ims_get [simp] = ims.get_set ims.get_remove ims.get_clear

lemma dst_multiRemove_get:
  "dst_getItem (dst_multiRemove ks s) k = (if k \<in> set ks then None else dst_getItem s k)"
  by (simp add: dst_multiRemove_def dst.get_remove_all)

lemma dst_multiSet_get:
  "dst_getItem (dst_multiSet kvs s) k =
     (case map_of (rev kvs) k of Some v \<Rightarrow> Some v | None \<Rightarrow> dst_getItem s k)"
  by (simp add: dst_multiSet_def dst.get_set_all)

end
