(* ===== verification/CacheHelpers.thy ===== *)
theory CacheHelpers
  imports Prelude "HOL-Library.Word"
begin

text \<open>
  \<open>getByteLength\<close> (\<open>core/src/Cache/utils/cacheHelpers.ts\<close>): the UTF-8 length of a JavaScript string,
  computed from its UTF-16 code units. A JavaScript string is a list of 16-bit words;
  \<open>charCodeAt\<close> out of range is \<open>NaN\<close>, here \<open>None\<close>, and every comparison with \<open>NaN\<close> is false.
  The main result is that the loop agrees with the UTF-8 length of the code points the string encodes.
\<close>

section \<open>The loop\<close>

type_synonym js_string = "16 word list"

definition charCodeAt :: "js_string \<Rightarrow> int \<Rightarrow> nat option" where
  "charCodeAt s i = (if 0 \<le> i \<and> i < int (length s) then Some (unat (s ! nat i)) else None)"

definition extra_bytes :: "nat option \<Rightarrow> nat" where
  "extra_bytes c = (case c of None \<Rightarrow> 0
     | Some charCode \<Rightarrow>
         if charCode > 0x7f \<and> charCode \<le> 0x7ff then 1
         else if charCode > 0x7ff \<and> charCode \<le> 0xffff then 2 else 0)"

definition is_trail_surrogate :: "nat option \<Rightarrow> bool" where
  "is_trail_surrogate c = (case c of None \<Rightarrow> False
     | Some charCode \<Rightarrow> charCode \<ge> 0xdc00 \<and> charCode \<le> 0xdfff)"

function getByteLength_loop :: "js_string \<Rightarrow> int \<Rightarrow> nat \<Rightarrow> nat" where
  "getByteLength_loop s i ret =
     (if i < 0 then ret
      else (let c = charCodeAt s i in
        getByteLength_loop s (if is_trail_surrogate c then i - 2 else i - 1) (ret + extra_bytes c)))"
  by pat_completeness auto
termination
  by (relation "measure (\<lambda>(s, i, ret). nat (i + 1))") auto

declare getByteLength_loop.simps [simp del]

definition getByteLength :: "js_string \<Rightarrow> nat" where
  "getByteLength s = getByteLength_loop s (int (length s)) (length s)"

section \<open>Unicode\<close>

text \<open>Scalar values, their UTF-16 code units and the number of bytes of their UTF-8 encoding.\<close>

definition is_scalar :: "nat \<Rightarrow> bool" where
  "is_scalar cp \<longleftrightarrow> cp < 0xd800 \<or> (0xdfff < cp \<and> cp \<le> 0x10ffff)"

definition utf16_units :: "nat \<Rightarrow> js_string" where
  "utf16_units cp =
     (if cp \<le> 0xffff then [of_nat cp]
      else [of_nat (0xd800 + (cp - 0x10000) div 0x400), of_nat (0xdc00 + (cp - 0x10000) mod 0x400)])"

definition utf8_length :: "nat \<Rightarrow> nat" where
  "utf8_length cp = (if cp \<le> 0x7f then 1 else if cp \<le> 0x7ff then 2 else if cp \<le> 0xffff then 3 else 4)"

definition utf16_encode :: "nat list \<Rightarrow> js_string" where
  "utf16_encode cps = concat (map utf16_units cps)"

section \<open>Correctness\<close>

lemma loop_neg: "getByteLength_loop s (-1) ret = ret"
  by (simp add: getByteLength_loop.simps)

lemma loop_step:
  "0 \<le> i \<Longrightarrow> getByteLength_loop s i ret =
     getByteLength_loop s (if is_trail_surrogate (charCodeAt s i) then i - 2 else i - 1)
       (ret + extra_bytes (charCodeAt s i))"
  by (subst getByteLength_loop.simps) (simp add: Let_def)

lemma charCodeAt_append1: "i < int (length xs) \<Longrightarrow> charCodeAt (xs @ ys) i = charCodeAt xs i"
  by (auto simp: charCodeAt_def nth_append)

lemma loop_append1:
  "i < int (length xs) \<Longrightarrow> getByteLength_loop (xs @ ys) i ret = getByteLength_loop xs i ret"
proof (induction xs i ret rule: getByteLength_loop.induct)
  case (1 xs i ret)
  show ?case
  proof (cases "i < 0")
    case True
    then show ?thesis by (simp add: getByteLength_loop.simps)
  next
    case False
    with 1 show ?thesis by (simp add: loop_step charCodeAt_append1)
  qed
qed

lemma charCodeAt_last: "charCodeAt (xs @ [w]) (int (length xs)) = Some (unat w)"
  by (simp add: charCodeAt_def)

lemma charCodeAt_penultimate: "charCodeAt (xs @ [v, w]) (1 + int (length xs)) = Some (unat w)"
  by (simp add: charCodeAt_def nth_append nat_add_distrib)

text \<open>One code point at the end of the string costs its UTF-8 length beyond its code units.\<close>

lemma unat_of_nat16: "n \<le> 0xffff \<Longrightarrow> unat (of_nat n :: 16 word) = n"
  by (simp add: unat_of_nat take_bit_nat_def)

lemma loop_scalar:
  assumes "is_scalar cp"
  shows "getByteLength_loop (xs @ utf16_units cp) (int (length (xs @ utf16_units cp)) - 1) ret =
         getByteLength_loop xs (int (length xs) - 1) (ret + utf8_length cp - length (utf16_units cp))"
proof (cases "cp \<le> 0xffff")
  case True
  with assms have "\<not> is_trail_surrogate (Some cp)"
    by (auto simp: is_trail_surrogate_def is_scalar_def)
  moreover have "extra_bytes (Some cp) = utf8_length cp - 1"
    using True by (auto simp: extra_bytes_def utf8_length_def)
  moreover have "1 \<le> utf8_length cp" by (simp add: utf8_length_def)
  ultimately show ?thesis using True
    by (simp add: utf16_units_def loop_step charCodeAt_last unat_of_nat16 loop_append1)
next
  case False
  define lo where "lo = 0xdc00 + (cp - 0x10000) mod 0x400"
  define hi :: "16 word" where "hi = of_nat (0xd800 + (cp - 0x10000) div 0x400)"
  have "(cp - 0x10000) mod 0x400 < 0x400" by simp
  then have lo: "0xdc00 \<le> lo" "lo \<le> 0xdfff" by (auto simp: lo_def)
  then have unat_lo: "unat (of_nat lo :: 16 word) = lo" by (simp add: unat_of_nat16)
  have u: "utf16_units cp = [hi, of_nat lo]" using False by (simp add: utf16_units_def hi_def lo_def)
  have "is_trail_surrogate (Some lo)" "extra_bytes (Some lo) = 2"
    using lo by (auto simp: is_trail_surrogate_def extra_bytes_def)
  moreover have "utf8_length cp = 4" using False by (simp add: utf8_length_def)
  ultimately show ?thesis
    by (simp add: u loop_step charCodeAt_penultimate unat_lo loop_append1)
qed

lemma utf16_units_length_le: "length (utf16_units cp) \<le> utf8_length cp"
  by (simp add: utf16_units_def utf8_length_def)

lemma loop_encode:
  assumes "\<forall>cp \<in> set cps. is_scalar cp"
  shows "getByteLength_loop (utf16_encode cps) (int (length (utf16_encode cps)) - 1) ret +
           length (utf16_encode cps) = ret + sum_list (map utf8_length cps)"
  using assms
proof (induction cps arbitrary: ret rule: rev_induct)
  case Nil
  then show ?case by (simp add: utf16_encode_def loop_neg)
next
  case (snoc cp cps)
  let ?r = "ret + utf8_length cp - length (utf16_units cp)"
  have step: "getByteLength_loop (utf16_encode cps @ utf16_units cp)
                (int (length (utf16_encode cps @ utf16_units cp)) - 1) ret =
              getByteLength_loop (utf16_encode cps) (int (length (utf16_encode cps)) - 1) ?r"
    using snoc.prems by (intro loop_scalar) simp
  have e: "utf16_encode (cps @ [cp]) = utf16_encode cps @ utf16_units cp"
    by (simp add: utf16_encode_def)
  have IH: "getByteLength_loop (utf16_encode cps) (int (length (utf16_encode cps)) - 1) ?r +
      length (utf16_encode cps) = ?r + sum_list (map utf8_length cps)"
    using snoc by simp
  show ?case using step IH utf16_units_length_le [of cp] unfolding e by simp
qed

text \<open>
  For every well-formed string, given by the Unicode scalar values it encodes, \<open>getByteLength\<close>
  returns the number of bytes of its UTF-8 encoding: the loop skips the lead surrogate of each pair
  and charges four bytes for it.
\<close>

theorem getByteLength_utf8:
  assumes "\<forall>cp \<in> set cps. is_scalar cp"
  shows "getByteLength (utf16_encode cps) = sum_list (map utf8_length cps)"
proof -
  let ?s = "utf16_encode cps"
  have "charCodeAt ?s (int (length ?s)) = None" by (simp add: charCodeAt_def)
  then have "getByteLength ?s = getByteLength_loop ?s (int (length ?s) - 1) (length ?s)"
    by (simp add: getByteLength_def loop_step is_trail_surrogate_def extra_bytes_def)
  with loop_encode [OF assms, of "length ?s"] show ?thesis by simp
qed

text \<open>The string "a", e-acute, euro sign, emoji: 1 + 2 + 3 + 4 bytes.\<close>

theorem getByteLength_utf8_witness:
  "getByteLength (utf16_encode [0x61, 0xe9, 0x20ac, 0x1f600]) = 10"
  using getByteLength_utf8 [of "[0x61, 0xe9, 0x20ac, 0x1f600]"]
  by (simp add: is_scalar_def utf8_length_def)

text \<open>On ASCII text the byte length is the length.\<close>

lemma loop_ascii:
  "\<forall>c \<in> set s. unat c < 128 \<Longrightarrow> getByteLength_loop s i ret = ret"
proof (induction s i ret rule: getByteLength_loop.induct)
  case (1 s i ret)
  have "\<not> is_trail_surrogate (charCodeAt s i)" "extra_bytes (charCodeAt s i) = 0"
  proof -
    have "0 \<le> i \<Longrightarrow> i < int (length s) \<Longrightarrow> unat (s ! nat i) < 128"
      using "1.prems" nth_mem [of "nat i" s] by force
    then show "\<not> is_trail_surrogate (charCodeAt s i)" "extra_bytes (charCodeAt s i) = 0"
      by (auto simp: is_trail_surrogate_def extra_bytes_def charCodeAt_def)
  qed
  then show ?case
    using 1 by (subst getByteLength_loop.simps) (simp add: Let_def)
qed

lemma getByteLength_ascii: "\<forall>c \<in> set s. unat c < 128 \<Longrightarrow> getByteLength s = length s"
  by (simp add: getByteLength_def loop_ascii)

end
