(* ===== verification/StorageCache.thy ===== *)
theory StorageCache
  imports Complex_Main KeyValueStorage CacheHelpers "HOL-Library.Product_Lexorder"
begin

text \<open>
  The persistent cache: \<open>StorageCacheCommon\<close> with the key enumeration of \<open>StorageCache\<close>
  (\<open>core/src/Cache\<close>). The state is the platform's key-value storage. The cache writes two kinds of
  text, the decimal size counter (\<open>NumText\<close>, where \<open>NumText None\<close> is the text \<open>NaN\<close>) and serialised items
  (\<open>ItemText\<close>, kept in parsed form); \<open>BadText\<close> is a foreign, non-empty text that \<open>JSON.parse\<close> rejects.
  A number that may be \<open>NaN\<close> or \<open>undefined\<close> is an \<open>int option\<close>; both behave alike in the arithmetic
  and the comparisons of the code. The clock is read once per operation. What the
  platform decides (does it take a write, a removal) and \<open>JSON.stringify\<close> are fields of \<open>cache_env\<close>.
  Operations on one instance run to completion one after the other; their interleaving is not modelled.
\<close>

section \<open>Data\<close>

record cache_config =
  keyPrefix :: string
  capacityInBytes :: int
  itemMaxSize :: int
  defaultTTL :: int
  defaultPriority :: int
  warningThreshold :: rat

record 'd cache_item =
  item_key :: string
  item_data :: 'd
  item_timestamp :: int
  item_visitedTime :: int
  item_priority :: int
  item_expires :: int
  item_type :: string
  item_byteSize :: int

datatype 'd sval = NumText "int option" | ItemText "'d cache_item" | BadText

datatype cache_error = NoCacheItem | NullNextNode | NullPreviousNode | SyntaxError | TypeError | StorageFailed

type_synonym 'd store = "'d sval kvs"
type_synonym ('d, 'a) cache_op = "('d store, cache_error, 'a) amethod"

record 'd cache_env =
  now :: int
  acceptsWrite :: "'d store \<Rightarrow> string \<Rightarrow> 'd sval \<Rightarrow> bool"
  acceptsRemove :: "'d store \<Rightarrow> string \<Rightarrow> bool"
  stringify :: "'d cache_item \<Rightarrow> js_string"
  typeOf :: "'d \<Rightarrow> string"

definition currentSizeKey :: string where
  "currentSizeKey = ''CurSize''"

definition getCurrentSizeKey :: "string \<Rightarrow> string" where
  "getCurrentSizeKey p = p @ currentSizeKey"

definition defaultConfig :: cache_config where
  "defaultConfig = \<lparr> keyPrefix = ''aws-amplify-cache'', capacityInBytes = 1048576, itemMaxSize = 210000,
     defaultTTL = 259200000, defaultPriority = 5, warningThreshold = 4 / 5 \<rparr>"

text \<open>\<open>JSON.parse(text).byteSize\<close> and \<open>Number(text)\<close>.\<close>

definition parsed_byteSize :: "'d sval \<Rightarrow> cache_error + int option" where
  "parsed_byteSize v = (case v of ItemText i \<Rightarrow> Inr (Some (item_byteSize i))
     | NumText (Some _) \<Rightarrow> Inr None | NumText None \<Rightarrow> Inl SyntaxError | BadText \<Rightarrow> Inl SyntaxError)"

definition to_Number :: "'d sval \<Rightarrow> int option" where
  "to_Number v = (case v of NumText n \<Rightarrow> n | _ \<Rightarrow> None)"

definition num_plus :: "int option \<Rightarrow> int option \<Rightarrow> int option" where
  "num_plus a b = (case (a, b) of (Some x, Some y) \<Rightarrow> Some (x + y) | _ \<Rightarrow> None)"

definition num_minus :: "int option \<Rightarrow> int option \<Rightarrow> int option" where
  "num_minus a b = (case (a, b) of (Some x, Some y) \<Rightarrow> Some (x - y) | _ \<Rightarrow> None)"

section \<open>The storage underneath\<close>

definition store_get :: "string \<Rightarrow> ('d, 'd sval option) cache_op" where
  "store_get k s = (Inr (ims_getItem s k), s)"

definition store_set :: "'d cache_env \<Rightarrow> string \<Rightarrow> 'd sval \<Rightarrow> ('d, unit) cache_op" where
  "store_set env k v s =
     (if acceptsWrite env s k v then (Inr (), ims_setItem k v s) else (Inl StorageFailed, s))"

definition store_remove :: "'d cache_env \<Rightarrow> string \<Rightarrow> ('d, unit) cache_op" where
  "store_remove env k s =
     (if acceptsRemove env s k then (Inr (), ims_removeItem k s) else (Inl StorageFailed, s))"

section \<open>Configuration\<close>

definition sanitizeConfig :: "cache_config \<Rightarrow> cache_config" where
  "sanitizeConfig c0 =
     (let c1 = (if itemMaxSize c0 > capacityInBytes c0
                then c0\<lparr>itemMaxSize := itemMaxSize defaultConfig\<rparr> else c0);
          c2 = (if defaultPriority c1 > 5 \<or> defaultPriority c1 < 1
                then c1\<lparr>defaultPriority := defaultPriority defaultConfig\<rparr> else c1);
          c3 = (if warningThreshold c2 > 1 \<or> warningThreshold c2 < 0
                then c2\<lparr>warningThreshold := warningThreshold defaultConfig\<rparr> else c2);
          cacheLimit = 5 * 1024 * 1024
      in (if capacityInBytes c3 > cacheLimit
          then c3\<lparr>capacityInBytes := capacityInBytes defaultConfig\<rparr> else c3))"

text \<open>
  A partial configuration, as the constructor and \<open>configure\<close> take it, spread over another one. A
  \<open>keyPrefix\<close> given to \<open>configure\<close> is warned about and spread like the other fields.
\<close>

record config_patch =
  p_keyPrefix :: "string option"
  p_capacityInBytes :: "int option"
  p_itemMaxSize :: "int option"
  p_defaultTTL :: "int option"
  p_defaultPriority :: "int option"
  p_warningThreshold :: "rat option"

definition given :: "'a \<Rightarrow> 'a option \<Rightarrow> 'a" where
  "given d x = (case x of None \<Rightarrow> d | Some y \<Rightarrow> y)"

definition spreadConfig :: "cache_config \<Rightarrow> config_patch \<Rightarrow> cache_config" where
  "spreadConfig c p = \<lparr> keyPrefix = given (keyPrefix c) (p_keyPrefix p),
     capacityInBytes = given (capacityInBytes c) (p_capacityInBytes p),
     itemMaxSize = given (itemMaxSize c) (p_itemMaxSize p),
     defaultTTL = given (defaultTTL c) (p_defaultTTL p),
     defaultPriority = given (defaultPriority c) (p_defaultPriority p),
     warningThreshold = given (warningThreshold c) (p_warningThreshold p) \<rparr>"

definition newCache :: "config_patch option \<Rightarrow> cache_config" where
  "newCache config = sanitizeConfig
     (case config of None \<Rightarrow> defaultConfig | Some p \<Rightarrow> spreadConfig defaultConfig p)"

definition configure :: "cache_config \<Rightarrow> config_patch option \<Rightarrow> cache_config" where
  "configure cfg config =
     sanitizeConfig (case config of None \<Rightarrow> cfg | Some p \<Rightarrow> spreadConfig cfg p)"

section \<open>Size bookkeeping\<close>

definition getCurrentCacheSize :: "'d cache_env \<Rightarrow> cache_config \<Rightarrow> ('d, int option) cache_op" where
  "getCurrentCacheSize env cfg =
     mbind (store_get (getCurrentSizeKey (keyPrefix cfg))) (\<lambda>sz.
       case sz of
         None \<Rightarrow> mbind (store_set env (getCurrentSizeKey (keyPrefix cfg)) (NumText (Some 0)))
                   (\<lambda>_. mreturn (Some 0))
       | Some t \<Rightarrow> mreturn (to_Number t))"

definition increaseCurrentSizeInBytes ::
  "'d cache_env \<Rightarrow> cache_config \<Rightarrow> int option \<Rightarrow> ('d, unit) cache_op" where
  "increaseCurrentSizeInBytes env cfg amount =
     mbind (getCurrentCacheSize env cfg) (\<lambda>sz.
       store_set env (getCurrentSizeKey (keyPrefix cfg)) (NumText (num_plus sz amount)))"

definition decreaseCurrentSizeInBytes ::
  "'d cache_env \<Rightarrow> cache_config \<Rightarrow> int option \<Rightarrow> ('d, unit) cache_op" where
  "decreaseCurrentSizeInBytes env cfg amount =
     mbind (getCurrentCacheSize env cfg) (\<lambda>sz.
       store_set env (getCurrentSizeKey (keyPrefix cfg)) (NumText (num_minus sz amount)))"

definition isCacheFull :: "'d cache_env \<Rightarrow> cache_config \<Rightarrow> int \<Rightarrow> ('d, bool) cache_op" where
  "isCacheFull env cfg itemSize =
     mbind (getCurrentCacheSize env cfg) (\<lambda>cur.
       mreturn (case cur of None \<Rightarrow> False | Some n \<Rightarrow> itemSize + n > capacityInBytes cfg))"

text \<open>With a \<open>NaN\<close> size the comparison is false and the threshold space is returned.\<close>

definition sizeToPop :: "'d cache_env \<Rightarrow> cache_config \<Rightarrow> int \<Rightarrow> ('d, rat) cache_op" where
  "sizeToPop env cfg itemSize =
     mbind (getCurrentCacheSize env cfg) (\<lambda>cur.
       let cacheThresholdSpace = (1 - warningThreshold cfg) * of_int (capacityInBytes cfg)
       in mreturn (case cur of None \<Rightarrow> cacheThresholdSpace
            | Some n \<Rightarrow>
                let spaceItemNeed = of_int (n + itemSize - capacityInBytes cfg)
                in if spaceItemNeed > cacheThresholdSpace then spaceItemNeed else cacheThresholdSpace))"

section \<open>Items\<close>

definition fillCacheItem ::
  "'d cache_env \<Rightarrow> string \<Rightarrow> 'd \<Rightarrow> int \<Rightarrow> int \<Rightarrow> 'd cache_item" where
  "fillCacheItem env key v priority expires =
     (let item0 = \<lparr> item_key = key, item_data = v, item_timestamp = now env, item_visitedTime = now env,
                    item_priority = priority, item_expires = expires, item_type = typeOf env v,
                    item_byteSize = 0 \<rparr>;
          item1 = item0\<lparr>item_byteSize := int (getByteLength (stringify env item0))\<rparr>
      in item1\<lparr>item_byteSize := int (getByteLength (stringify env item1))\<rparr>)"

definition isExpired :: "'d cache_env \<Rightarrow> string \<Rightarrow> ('d, bool) cache_op" where
  "isExpired env key =
     mbind (store_get key) (\<lambda>text.
       case text of
         None \<Rightarrow> mthrow NoCacheItem
       | Some (ItemText i) \<Rightarrow> mreturn (now env \<ge> item_expires i)
       | Some (NumText (Some _)) \<Rightarrow> mreturn False
       | Some (NumText None) \<Rightarrow> mthrow SyntaxError
       | Some BadText \<Rightarrow> mthrow SyntaxError)"

text \<open>The argument \<open>sz\<close> is \<open>None\<close> when the caller omits \<open>size\<close> or passes \<open>undefined\<close>.\<close>

definition removeCacheItem ::
  "'d cache_env \<Rightarrow> cache_config \<Rightarrow> string \<Rightarrow> int option \<Rightarrow> ('d, unit) cache_op" where
  "removeCacheItem env cfg prefixedKey sz =
     mbind (store_get prefixedKey) (\<lambda>item.
       case item of
         None \<Rightarrow> mthrow NoCacheItem
       | Some t \<Rightarrow>
           (case (case sz of Some n \<Rightarrow> Inr (Some n) | None \<Rightarrow> parsed_byteSize t) of
              Inl e \<Rightarrow> mthrow e
            | Inr itemSize \<Rightarrow>
                mbind (decreaseCurrentSizeInBytes env cfg itemSize) (\<lambda>_.
                  mcatch (store_remove env prefixedKey)
                    (\<lambda>_. increaseCurrentSizeInBytes env cfg itemSize))))"

definition updateVisitedTime ::
  "'d cache_env \<Rightarrow> 'd cache_item \<Rightarrow> string \<Rightarrow> ('d, 'd cache_item) cache_op" where
  "updateVisitedTime env item prefixedKey =
     (let item' = item\<lparr>item_visitedTime := now env\<rparr>
      in mbind (store_set env prefixedKey (ItemText item')) (\<lambda>_. mreturn item'))"

definition setCacheItem ::
  "'d cache_env \<Rightarrow> cache_config \<Rightarrow> string \<Rightarrow> 'd cache_item \<Rightarrow> ('d, unit) cache_op" where
  "setCacheItem env cfg prefixedKey item =
     mbind (increaseCurrentSizeInBytes env cfg (Some (item_byteSize item))) (\<lambda>_.
       mcatch (store_set env prefixedKey (ItemText item))
         (\<lambda>_. decreaseCurrentSizeInBytes env cfg (Some (item_byteSize item))))"

section \<open>Keys and eviction\<close>

text \<open>\<open>StorageCache.getAllCacheKeys\<close>: the keys owned by the cache, without the prefix.\<close>

definition getAllCacheKeys :: "cache_config \<Rightarrow> bool \<Rightarrow> 'd store \<Rightarrow> string list" where
  "getAllCacheKeys cfg omitSizeKey s =
     map (drop (length (keyPrefix cfg)))
       (filter (\<lambda>key. \<not> (omitSizeKey \<and> key = getCurrentSizeKey (keyPrefix cfg)) \<and>
                      startsWith key (keyPrefix cfg))
         (map (\<lambda>i. map fst s ! i) [0..<ims_length s]))"

definition clearInvalid_loop ::
  "'d cache_env \<Rightarrow> cache_config \<Rightarrow> string list \<Rightarrow> string list \<Rightarrow> ('d, string list) cache_op" where
  "clearInvalid_loop env cfg keys remaining =
     fold (\<lambda>key m. mbind m (\<lambda>remainingKeys.
         mbind (isExpired env key) (\<lambda>expired.
           if expired then mbind (removeCacheItem env cfg key None) (\<lambda>_. mreturn remainingKeys)
           else mreturn (remainingKeys @ [key]))))
       keys (mreturn remaining)"

definition clearInvalidAndGetRemainingKeys ::
  "'d cache_env \<Rightarrow> cache_config \<Rightarrow> ('d, string list) cache_op" where
  "clearInvalidAndGetRemainingKeys env cfg s =
     clearInvalid_loop env cfg (getAllCacheKeys cfg True s) [] s"

text \<open>
  Eviction order: larger priority number first, then the least recently visited. The comparator of
  the source never answers 0; on ties the engine's insertion order is kept, as \<open>sort_key\<close> does.
  Reading collects the items present under the given keys. Where a text under one of the keys is a bare
  number, the source pushes a number, whose \<open>key\<close> is \<open>undefined\<close>, and removing it throws \<open>NoCacheItem\<close>;
  the model throws it already while reading.
\<close>

definition evict_rank :: "'d cache_item \<Rightarrow> int \<times> int" where
  "evict_rank i = (- item_priority i, item_visitedTime i)"

fun readItems :: "string list \<Rightarrow> 'd store \<Rightarrow> cache_error + 'd cache_item list" where
  "readItems [] s = Inr []"
| "readItems (k # ks) s =
     (case ims_getItem s k of
        None \<Rightarrow> readItems ks s
      | Some (ItemText i) \<Rightarrow> (case readItems ks s of Inl e \<Rightarrow> Inl e | Inr is \<Rightarrow> Inr (i # is))
      | Some (NumText (Some _)) \<Rightarrow> Inl NoCacheItem
      | Some (NumText None) \<Rightarrow> Inl SyntaxError
      | Some BadText \<Rightarrow> Inl SyntaxError)"

fun popOut_loop ::
  "'d cache_env \<Rightarrow> cache_config \<Rightarrow> 'd cache_item list \<Rightarrow> rat \<Rightarrow> ('d, unit) cache_op" where
  "popOut_loop env cfg [] remainedSize = mreturn ()"
| "popOut_loop env cfg (item # items) remainedSize =
     mbind (removeCacheItem env cfg (item_key item) (Some (item_byteSize item))) (\<lambda>_.
       let remained = remainedSize - of_int (item_byteSize item)
       in if remained \<le> 0 then mreturn () else popOut_loop env cfg items remained)"

definition popOutItems ::
  "'d cache_env \<Rightarrow> cache_config \<Rightarrow> string list \<Rightarrow> rat \<Rightarrow> ('d, unit) cache_op" where
  "popOutItems env cfg keys amount s =
     (case readItems keys s of
        Inl e \<Rightarrow> (Inl e, s)
      | Inr items \<Rightarrow> popOut_loop env cfg (sort_key evict_rank items) amount s)"

section \<open>Public operations\<close>

definition cache_removeItem :: "'d cache_env \<Rightarrow> cache_config \<Rightarrow> string \<Rightarrow> ('d, unit) cache_op" where
  "cache_removeItem env cfg key =
     (if key = [] \<or> key = currentSizeKey then mreturn ()
      else let prefixedKey = keyPrefix cfg @ key in
        mcatch (mbind (store_get prefixedKey) (\<lambda>val.
            case val of
              None \<Rightarrow> mreturn ()
            | Some t \<Rightarrow> (case parsed_byteSize t of
                  Inl e \<Rightarrow> mthrow e
                | Inr sz \<Rightarrow> removeCacheItem env cfg prefixedKey sz)))
          (\<lambda>_. mreturn ()))"

text \<open>
  The part of \<open>setItem\<close> inside its \<open>try\<close>: it makes room; the final \<open>return this.setCacheItem(...)\<close> is not
  awaited there, so what it throws is not caught.
\<close>

definition setItem_makeRoom ::
  "'d cache_env \<Rightarrow> cache_config \<Rightarrow> string \<Rightarrow> 'd cache_item \<Rightarrow> ('d, unit) cache_op" where
  "setItem_makeRoom env cfg prefixedKey item =
     mbind (store_get prefixedKey) (\<lambda>val.
     mbind (case val of
              None \<Rightarrow> mreturn ()
            | Some t \<Rightarrow> (case parsed_byteSize t of
                  Inl e \<Rightarrow> mthrow e
                | Inr sz \<Rightarrow> removeCacheItem env cfg prefixedKey sz)) (\<lambda>_.
     mbind (isCacheFull env cfg (item_byteSize item)) (\<lambda>full.
       if full then
         mbind (clearInvalidAndGetRemainingKeys env cfg) (\<lambda>validKeys.
         mbind (isCacheFull env cfg (item_byteSize item)) (\<lambda>stillFull.
           if stillFull then
             mbind (sizeToPop env cfg (item_byteSize item)) (\<lambda>amount.
               popOutItems env cfg validKeys amount)
           else mreturn ()))
       else mreturn ())))"

definition cache_setItem ::
  "'d cache_env \<Rightarrow> cache_config \<Rightarrow> string \<Rightarrow> 'd option \<Rightarrow> int option \<Rightarrow> int option \<Rightarrow> ('d, unit) cache_op" where
  "cache_setItem env cfg key val priority expires =
     (if key = [] \<or> key = currentSizeKey then mreturn ()
      else case val of
        None \<Rightarrow> mreturn ()
      | Some v \<Rightarrow>
          let p = (case priority of Some p \<Rightarrow> p | None \<Rightarrow> defaultPriority cfg);
              e = (case expires of Some e \<Rightarrow> e | None \<Rightarrow> defaultTTL cfg + now env)
          in if p < 1 \<or> p > 5 then mreturn ()
             else let prefixedKey = keyPrefix cfg @ key;
                      item = fillCacheItem env prefixedKey v p e
                  in if item_byteSize item > itemMaxSize cfg then mreturn ()
                     else mbind (mtry (setItem_makeRoom env cfg prefixedKey item)) (\<lambda>r.
                            case r of Inl _ \<Rightarrow> mreturn ()
                                    | Inr _ \<Rightarrow> setCacheItem env cfg prefixedKey item))"

text \<open>
  The options of \<open>getItem\<close>: \<open>callback\<close> is \<open>None\<close> when absent, else the value it computes, where \<open>None\<close>
  is \<open>null\<close>. The result is \<open>None\<close> for \<open>null\<close>.
\<close>

definition cache_getItem ::
  "'d cache_env \<Rightarrow> cache_config \<Rightarrow> string \<Rightarrow> 'd option option \<Rightarrow> int option \<Rightarrow> int option \<Rightarrow>
   ('d, 'd option) cache_op" where
  "cache_getItem env cfg key callback priority expires =
     (if key = [] \<or> key = currentSizeKey then mreturn None
      else let prefixedKey = keyPrefix cfg @ key;
               miss = (case callback of
                   None \<Rightarrow> mreturn None
                 | Some None \<Rightarrow> mreturn None
                 | Some (Some v) \<Rightarrow>
                     mbind (cache_setItem env cfg key (Some v) priority expires) (\<lambda>_. mreturn (Some v)))
           in mcatch (mbind (store_get prefixedKey) (\<lambda>cached.
                case cached of
                  None \<Rightarrow> miss
                | Some t \<Rightarrow>
                    mbind (isExpired env prefixedKey) (\<lambda>expired.
                      if expired then
                        (case parsed_byteSize t of
                           Inl e \<Rightarrow> mthrow e
                         | Inr sz \<Rightarrow> mbind (removeCacheItem env cfg prefixedKey sz) (\<lambda>_. miss))
                      else
                        (case t of
                           ItemText i \<Rightarrow> mbind (updateVisitedTime env i prefixedKey)
                                           (\<lambda>item. mreturn (Some (item_data item)))
                         | _ \<Rightarrow> mthrow TypeError))))
              (\<lambda>_. mreturn None))"

definition cache_clear :: "'d cache_env \<Rightarrow> cache_config \<Rightarrow> ('d, unit) cache_op" where
  "cache_clear env cfg s =
     mcatch (mfor (getAllCacheKeys cfg False s) (\<lambda>key. store_remove env (keyPrefix cfg @ key)))
       (\<lambda>_. mreturn ()) s"

definition cache_getAllKeys :: "cache_config \<Rightarrow> 'd store \<Rightarrow> string list" where
  "cache_getAllKeys cfg s = getAllCacheKeys cfg False s"

end
