(* ===== verification/StorageCacheProofs.thy ===== *)
theory StorageCacheProofs
  imports StorageCache
begin

text \<open>
  Correctness of the cache model: the size counter equals the bytes of the items in the storage after
  every public operation; eviction removes the shortest prefix of the items in eviction order that frees
  the requested space; a stored value is read back; the behaviour when the cache is full.
\<close>

section \<open>The accounting invariant\<close>

abbreviation sizeKey :: "cache_config \<Rightarrow> string" where
  "sizeKey cfg \<equiv> getCurrentSizeKey (keyPrefix cfg)"

definition owns :: "cache_config \<Rightarrow> string \<Rightarrow> bool" where
  "owns cfg k \<longleftrightarrow> startsWith k (keyPrefix cfg) \<and> k \<noteq> sizeKey cfg"

definition item_weight :: "cache_config \<Rightarrow> string \<Rightarrow> 'd sval \<Rightarrow> int" where
  "item_weight cfg k v = (if owns cfg k then (case v of ItemText i \<Rightarrow> item_byteSize i | _ \<Rightarrow> 0) else 0)"

text \<open>The bytes of the items the cache owns.\<close>

definition used :: "cache_config \<Rightarrow> 'd store \<Rightarrow> int" where
  "used cfg s = osum (item_weight cfg) s"

text \<open>
  The counter, when present, is the number of bytes used and nothing is used when it is absent; items
  live under the cache's own keys and carry them; no own key holds a bare number.
\<close>

definition cache_inv :: "cache_config \<Rightarrow> 'd store \<Rightarrow> bool" where
  "cache_inv cfg s \<longleftrightarrow> okeys s \<and>
     (case ims_getItem s (sizeKey cfg) of
        None \<Rightarrow> used cfg s = 0 | Some v \<Rightarrow> v = NumText (Some (used cfg s))) \<and>
     (\<forall>k i. ims_getItem s k = Some (ItemText i) \<longrightarrow> owns cfg k \<and> item_key i = k) \<and>
     (\<forall>k n. ims_getItem s k = Some (NumText n) \<longrightarrow> \<not> owns cfg k)"

text \<open>The invariant together with the absence of the keys \<open>K\<close>, which only \<open>setCacheItem\<close> ends.\<close>

definition inv_without :: "cache_config \<Rightarrow> string set \<Rightarrow> 'd store \<Rightarrow> bool" where
  "inv_without cfg K s \<longleftrightarrow> cache_inv cfg s \<and> sizeKey cfg \<notin> K \<and> (\<forall>k\<in>K. ims_getItem s k = None)"

text \<open>The platform takes every write of the counter and every removal; item writes may still fail.\<close>

definition bookkeeping_ok :: "'d cache_env \<Rightarrow> cache_config \<Rightarrow> bool" where
  "bookkeeping_ok env cfg \<longleftrightarrow>
     (\<forall>s n. acceptsWrite env s (sizeKey cfg) (NumText n)) \<and> (\<forall>s k. acceptsRemove env s k)"

lemma owns_own [simp]: "key \<noteq> currentSizeKey \<Longrightarrow> owns cfg (keyPrefix cfg @ key)"
  by (simp add: owns_def getCurrentSizeKey_def)

lemma owns_sizeKey [simp]: "\<not> owns cfg (sizeKey cfg)"
  by (simp add: owns_def)

lemma own_not_sizeKey [simp]: "key \<noteq> currentSizeKey \<Longrightarrow> keyPrefix cfg @ key \<noteq> sizeKey cfg"
  by (simp add: getCurrentSizeKey_def)

lemma weight_sizeKey [simp]: "item_weight cfg (sizeKey cfg) v = 0"
  by (simp add: item_weight_def)

lemma weight_NumText [simp]: "item_weight cfg k (NumText n) = 0"
  by (simp add: item_weight_def)

lemma weight_BadText [simp]: "item_weight cfg k BadText = 0"
  by (simp add: item_weight_def)

lemma used_set_sizeKey [simp]: "used cfg (ims_setItem (sizeKey cfg) v s) = used cfg s"
  by (simp add: used_def ims_setItem_def osum_update split: option.splits)

lemma used_set:
  "used cfg (ims_setItem k v s) =
     used cfg s + item_weight cfg k v -
     (case ims_getItem s k of None \<Rightarrow> 0 | Some w \<Rightarrow> item_weight cfg k w)"
  by (simp add: used_def ims_setItem_def ims_getItem_def osum_update)

lemma used_remove:
  "okeys s \<Longrightarrow> used cfg (ims_removeItem k s) =
     used cfg s - (case ims_getItem s k of None \<Rightarrow> 0 | Some w \<Rightarrow> item_weight cfg k w)"
  by (simp add: used_def ims_removeItem_def ims_getItem_def osum_delete)

lemma set_set_same [simp]: "ims_setItem k v (ims_setItem k w s) = ims_setItem k v s"
  by (simp add: ims_setItem_def)

lemma cache_inv_okeys: "cache_inv cfg s \<Longrightarrow> okeys s"
  by (simp add: cache_inv_def)

lemma cache_inv_item:
  "cache_inv cfg s \<Longrightarrow> ims_getItem s k = Some (ItemText i) \<Longrightarrow> owns cfg k \<and> item_key i = k"
  by (auto simp: cache_inv_def)

lemma cache_inv_num:
  "cache_inv cfg s \<Longrightarrow> ims_getItem s k = Some (NumText n) \<Longrightarrow> \<not> owns cfg k"
  by (auto simp: cache_inv_def)

text \<open>One entry added, one removed, one replaced by an item of the same size.\<close>

lemma cache_inv_counter:
  assumes "cache_inv cfg s"
  shows "cache_inv cfg (ims_setItem (sizeKey cfg) (NumText (Some (used cfg s))) s)"
  using assms by (auto simp: cache_inv_def)

lemma cache_inv_add:
  assumes "cache_inv cfg s" and "owns cfg (item_key i)" and "ims_getItem s (item_key i) = None"
  shows "cache_inv cfg (ims_setItem (item_key i) (ItemText i)
           (ims_setItem (sizeKey cfg) (NumText (Some (used cfg s + item_byteSize i))) s))"
proof -
  have ne: "item_key i \<noteq> sizeKey cfg" using assms(2) by (auto simp: owns_def)
  show ?thesis using assms ne
    by (auto simp: cache_inv_def used_set item_weight_def split: option.splits)
qed

lemma cache_inv_drop:
  assumes "cache_inv cfg s" and "ims_getItem s k = Some (ItemText i)"
  shows "cache_inv cfg (ims_removeItem k
           (ims_setItem (sizeKey cfg) (NumText (Some (used cfg s - item_byteSize i))) s))"
proof -
  have o: "owns cfg k" and ne: "k \<noteq> sizeKey cfg"
    using cache_inv_item [OF assms] by (auto simp: owns_def)
  have "used cfg (ims_removeItem k (ims_setItem (sizeKey cfg) v s)) = used cfg s - item_byteSize i" for v
    using assms o ne by (simp add: used_remove cache_inv_okeys item_weight_def)
  then show ?thesis using assms ne by (auto simp: cache_inv_def)
qed

lemma cache_inv_replace:
  assumes "cache_inv cfg s" and "ims_getItem s k = Some (ItemText i)"
    and "item_key j = item_key i" and "item_byteSize j = item_byteSize i"
  shows "cache_inv cfg (ims_setItem k (ItemText j) s)"
proof -
  have o: "owns cfg k" and k: "item_key i = k" and ne: "k \<noteq> sizeKey cfg"
    using cache_inv_item [OF assms(1,2)] by (auto simp: owns_def)
  have "used cfg (ims_setItem k (ItemText j) s) = used cfg s"
    using assms o by (simp add: used_set item_weight_def)
  then show ?thesis using assms o k ne by (auto simp: cache_inv_def split: option.splits)
qed

section \<open>The bookkeeping operations compute what they should\<close>

lemmas num_simps [simp] = num_plus_def num_minus_def

lemma getCurrentCacheSize_eq:
  assumes "cache_inv cfg s" and "bookkeeping_ok env cfg"
  obtains s' where "getCurrentCacheSize env cfg s = (Inr (Some (used cfg s)), s')"
    and "s' = s \<or> s' = ims_setItem (sizeKey cfg) (NumText (Some 0)) s \<and> used cfg s = 0"
  using assms
  by (cases "ims_getItem s (sizeKey cfg)")
    (auto simp: getCurrentCacheSize_def mbind_def store_get_def store_set_def cache_inv_def
      bookkeeping_ok_def to_Number_def)

lemma getCurrentCacheSize_inv:
  assumes "cache_inv cfg s" and "bookkeeping_ok env cfg"
  shows "fst (getCurrentCacheSize env cfg s) = Inr (Some (used cfg s))"
    and "cache_inv cfg (snd (getCurrentCacheSize env cfg s))"
    and "used cfg (snd (getCurrentCacheSize env cfg s)) = used cfg s"
    and "k \<noteq> sizeKey cfg \<Longrightarrow> ims_getItem (snd (getCurrentCacheSize env cfg s)) k = ims_getItem s k"
proof -
  obtain s' where r: "getCurrentCacheSize env cfg s = (Inr (Some (used cfg s)), s')"
    and s': "s' = s \<or> s' = ims_setItem (sizeKey cfg) (NumText (Some 0)) s \<and> used cfg s = 0"
    using getCurrentCacheSize_eq assms by blast
  show "fst (getCurrentCacheSize env cfg s) = Inr (Some (used cfg s))" using r by simp
  show "cache_inv cfg (snd (getCurrentCacheSize env cfg s))"
    using r s' assms(1) cache_inv_counter [OF assms(1)] by auto
  show "used cfg (snd (getCurrentCacheSize env cfg s)) = used cfg s" using r s' by auto
  show "k \<noteq> sizeKey cfg \<Longrightarrow> ims_getItem (snd (getCurrentCacheSize env cfg s)) k = ims_getItem s k"
    using r s' by auto
qed

lemma increase_eq:
  assumes "cache_inv cfg s" and "bookkeeping_ok env cfg"
  shows "increaseCurrentSizeInBytes env cfg (Some n) s =
           (Inr (), ims_setItem (sizeKey cfg) (NumText (Some (used cfg s + n))) s)"
proof -
  obtain s' where "getCurrentCacheSize env cfg s = (Inr (Some (used cfg s)), s')"
    and "s' = s \<or> s' = ims_setItem (sizeKey cfg) (NumText (Some 0)) s \<and> used cfg s = 0"
    using getCurrentCacheSize_eq assms by blast
  with assms(2) show ?thesis
    by (auto simp: increaseCurrentSizeInBytes_def store_set_def bookkeeping_ok_def)
qed

lemma decrease_eq:
  assumes "cache_inv cfg s" and "bookkeeping_ok env cfg"
  shows "decreaseCurrentSizeInBytes env cfg (Some n) s =
           (Inr (), ims_setItem (sizeKey cfg) (NumText (Some (used cfg s - n))) s)"
proof -
  obtain s' where "getCurrentCacheSize env cfg s = (Inr (Some (used cfg s)), s')"
    and "s' = s \<or> s' = ims_setItem (sizeKey cfg) (NumText (Some 0)) s \<and> used cfg s = 0"
    using getCurrentCacheSize_eq assms by blast
  with assms(2) show ?thesis
    by (auto simp: decreaseCurrentSizeInBytes_def store_set_def bookkeeping_ok_def)
qed

text \<open>The state after removing an item.\<close>

definition dropped :: "cache_config \<Rightarrow> string \<Rightarrow> 'd cache_item \<Rightarrow> 'd store \<Rightarrow> 'd store" where
  "dropped cfg k i s = ims_removeItem k
     (ims_setItem (sizeKey cfg) (NumText (Some (used cfg s - item_byteSize i))) s)"

lemma removeCacheItem_eq:
  assumes "cache_inv cfg s" and "bookkeeping_ok env cfg"
    and "ims_getItem s k = Some (ItemText i)" and "sz = None \<or> sz = Some (item_byteSize i)"
  shows "removeCacheItem env cfg k sz s = (Inr (), dropped cfg k i s)"
proof -
  have "(case sz of Some n \<Rightarrow> Inr (Some n) | None \<Rightarrow> parsed_byteSize (ItemText i)) =
          Inr (Some (item_byteSize i))"
    using assms(4) by (auto simp: parsed_byteSize_def)
  then show ?thesis
    using assms decrease_eq [OF assms(1,2), of "item_byteSize i"]
    by (auto simp: removeCacheItem_def mbind_def store_get_def mcatch_def store_remove_def
        bookkeeping_ok_def dropped_def split: option.splits)
qed

lemma removeCacheItem_absent:
  "ims_getItem s k = None \<Longrightarrow> removeCacheItem env cfg k sz s = (Inl NoCacheItem, s)"
  by (simp add: removeCacheItem_def mbind_def store_get_def)

lemma dropped_get:
  "j \<noteq> sizeKey cfg \<Longrightarrow> ims_getItem (dropped cfg k i s) j = (if j = k then None else ims_getItem s j)"
  by (simp add: dropped_def)

lemma dropped_inv:
  "cache_inv cfg s \<Longrightarrow> ims_getItem s k = Some (ItemText i) \<Longrightarrow> cache_inv cfg (dropped cfg k i s)"
  by (simp add: dropped_def cache_inv_drop)

lemma dropped_used:
  assumes "cache_inv cfg s" and "ims_getItem s k = Some (ItemText i)"
  shows "used cfg (dropped cfg k i s) = used cfg s - item_byteSize i"
  using assms cache_inv_item [OF assms]
  by (auto simp: dropped_def used_remove cache_inv_okeys item_weight_def owns_def)

lemma inv_without_mono: "inv_without cfg K s \<Longrightarrow> cache_inv cfg s"
  by (simp add: inv_without_def)

lemma inv_without_drop:
  "inv_without cfg K s \<Longrightarrow> ims_getItem s k = Some (ItemText i) \<Longrightarrow> inv_without cfg K (dropped cfg k i s)"
  by (auto simp: inv_without_def dropped_inv) (metis dropped_get)

lemma inv_without_keep:
  assumes "inv_without cfg K s" and "cache_inv cfg s'"
    and "\<And>k. k \<noteq> sizeKey cfg \<Longrightarrow> ims_getItem s' k = ims_getItem s k \<or> ims_getItem s' k = None"
  shows "inv_without cfg K s'"
  unfolding inv_without_def
proof (intro conjI ballI)
  show "cache_inv cfg s'" by fact
  show "sizeKey cfg \<notin> K" using assms(1) by (simp add: inv_without_def)
  fix k
  assume "k \<in> K"
  with assms(1) have "k \<noteq> sizeKey cfg" and "ims_getItem s k = None" by (auto simp: inv_without_def)
  with assms(3) [of k] show "ims_getItem s' k = None" by auto
qed

section \<open>Every private operation keeps the invariant\<close>

lemma getCurrentCacheSize_preserves [preserves_intros]:
  "bookkeeping_ok env cfg \<Longrightarrow> preserves (inv_without cfg K) (getCurrentCacheSize env cfg)"
  by (rule preservesI, rule inv_without_keep, assumption)
    (auto simp: getCurrentCacheSize_inv dest: inv_without_mono)

lemma isCacheFull_preserves [preserves_intros]:
  "bookkeeping_ok env cfg \<Longrightarrow> preserves (inv_without cfg K) (isCacheFull env cfg n)"
  unfolding isCacheFull_def by (intro preserves_intros)

lemma sizeToPop_preserves [preserves_intros]:
  "bookkeeping_ok env cfg \<Longrightarrow> preserves (inv_without cfg K) (sizeToPop env cfg n)"
  unfolding sizeToPop_def Let_def by (intro preserves_intros)

lemma store_get_preserves [preserves_intros]: "preserves P (store_get k)"
  by (simp add: preserves_def store_get_def)

lemma isExpired_same: "snd (isExpired env k s) = s"
  by (auto simp: isExpired_def mbind_def store_get_def split: option.splits sval.splits)

lemma isExpired_True:
  "isExpired env k s = (Inr True, s') \<Longrightarrow>
     s' = s \<and> (\<exists>i. ims_getItem s k = Some (ItemText i) \<and> now env \<ge> item_expires i)"
  by (auto simp: isExpired_def mbind_def store_get_def split: option.splits sval.splits)

lemma removeCacheItem_inv:
  assumes "inv_without cfg K s" and "bookkeeping_ok env cfg"
    and "ims_getItem s k = None \<or>
         (\<exists>i. ims_getItem s k = Some (ItemText i) \<and> (sz = None \<or> sz = Some (item_byteSize i)))"
  shows "inv_without cfg K (snd (removeCacheItem env cfg k sz s))"
  using assms(3)
proof
  assume "ims_getItem s k = None"
  with assms(1) show ?thesis by (simp add: removeCacheItem_absent)
next
  assume "\<exists>i. ims_getItem s k = Some (ItemText i) \<and> (sz = None \<or> sz = Some (item_byteSize i))"
  then obtain i where i: "ims_getItem s k = Some (ItemText i)" "sz = None \<or> sz = Some (item_byteSize i)"
    by blast
  show ?thesis
    using removeCacheItem_eq [OF inv_without_mono [OF assms(1)] assms(2) i] inv_without_drop [OF assms(1) i(1)]
    by simp
qed

lemma clearInvalid_step_preserves:
  assumes "bookkeeping_ok env cfg"
  shows "preserves (inv_without cfg K) (mbind (isExpired env key) (\<lambda>expired.
           if expired then mbind (removeCacheItem env cfg key None) (\<lambda>_. mreturn r)
           else mreturn (r @ [key])))"
proof (rule preservesI)
  fix s :: "'a store"
  assume P: "inv_without cfg K s"
  show "inv_without cfg K (snd (mbind (isExpired env key) (\<lambda>expired.
           if expired then mbind (removeCacheItem env cfg key None) (\<lambda>_. mreturn r)
           else mreturn (r @ [key])) s))"
  proof (cases "isExpired env key s = (Inr True, s)")
    case True
    then have "inv_without cfg K (snd (removeCacheItem env cfg key None s))"
      using isExpired_True [of env key s s] P assms by (intro removeCacheItem_inv) auto
    with True show ?thesis by (auto simp: mbind_def split: prod.splits sum.splits)
  next
    case False
    then show ?thesis using P isExpired_same [of env key s]
      by (auto simp: mbind_def split: prod.splits sum.splits)
  qed
qed

lemma fold_preserves:
  "preserves P m \<Longrightarrow> (\<And>x r. preserves P (f x r)) \<Longrightarrow> preserves P (fold (\<lambda>x m. mbind m (f x)) xs m)"
  by (induction xs arbitrary: m) (auto intro: preserves_mbind)

lemma clearInvalid_loop_preserves:
  "bookkeeping_ok env cfg \<Longrightarrow> preserves (inv_without cfg K) (clearInvalid_loop env cfg keys r)"
  unfolding clearInvalid_loop_def
  by (intro fold_preserves preserves_mreturn clearInvalid_step_preserves)

lemma clearInvalid_preserves [preserves_intros]:
  "bookkeeping_ok env cfg \<Longrightarrow> preserves (inv_without cfg K) (clearInvalidAndGetRemainingKeys env cfg)"
  using clearInvalid_loop_preserves [of env cfg K]
  by (auto simp: preserves_def clearInvalidAndGetRemainingKeys_def)

section \<open>Eviction\<close>

definition item_at :: "'d store \<Rightarrow> string \<Rightarrow> 'd cache_item option" where
  "item_at s k = (case ims_getItem s k of Some (ItemText i) \<Rightarrow> Some i | _ \<Rightarrow> None)"

abbreviation items_at :: "'d store \<Rightarrow> string list \<Rightarrow> 'd cache_item list" where
  "items_at s keys \<equiv> List.map_filter (item_at s) keys"

definition bytes :: "'d cache_item list \<Rightarrow> int" where
  "bytes items = sum_list (map item_byteSize items)"

lemma bytes_simps [simp]: "bytes [] = 0" "bytes (i # is) = item_byteSize i + bytes is"
  by (simp_all add: bytes_def)

lemma item_at_Some: "item_at s k = Some i \<longleftrightarrow> ims_getItem s k = Some (ItemText i)"
  by (auto simp: item_at_def split: option.splits sval.splits)

lemma items_at_Nil [simp]: "items_at s [] = []"
  by (simp add: map_filter_simps)

lemma items_at_Cons [simp]:
  "items_at s (k # keys) = (case item_at s k of None \<Rightarrow> items_at s keys | Some i \<Rightarrow> i # items_at s keys)"
  by (simp add: map_filter_simps)

lemma readItems_result: "readItems keys s = Inr is \<Longrightarrow> is = items_at s keys"
  by (induction keys s arbitrary: "is" rule: readItems.induct)
    (auto simp: item_at_def split: option.splits sval.splits sum.splits)

lemma readItems_all_items:
  "\<forall>k\<in>set keys. \<exists>i. ims_getItem s k = Some (ItemText i) \<Longrightarrow> readItems keys s = Inr (items_at s keys)"
  by (induction keys s rule: readItems.induct) (auto simp: item_at_def)

lemma items_at_present:
  "cache_inv cfg s \<Longrightarrow> i \<in> set (items_at s keys) \<Longrightarrow>
     item_key i \<in> set keys \<and> ims_getItem s (item_key i) = Some (ItemText i)"
proof (induction keys)
  case (Cons k keys)
  show ?case
  proof (cases "item_at s k = Some i")
    case True
    then have "ims_getItem s k = Some (ItemText i)" by (simp add: item_at_Some)
    with cache_inv_item [OF Cons.prems(1) this] show ?thesis by simp
  next
    case False
    with Cons show ?thesis by (auto split: option.splits)
  qed
qed simp

lemma items_at_distinct:
  "cache_inv cfg s \<Longrightarrow> distinct keys \<Longrightarrow> distinct (map item_key (items_at s keys))"
proof (induction keys)
  case Nil
  then show ?case by simp
next
  case (Cons k keys)
  show ?case
  proof (cases "item_at s k")
    case None
    with Cons show ?thesis by simp
  next
    case (Some i)
    then have "item_key i = k" using cache_inv_item [OF Cons.prems(1)] by (simp add: item_at_Some)
    moreover have "k \<notin> item_key ` set (items_at s keys)"
      using items_at_present [OF Cons.prems(1)] Cons.prems(2) by auto
    ultimately show ?thesis using Cons Some by simp
  qed
qed

text \<open>Items that are in the store, each under its key.\<close>

definition stored_items :: "'d store \<Rightarrow> 'd cache_item list \<Rightarrow> bool" where
  "stored_items s items \<longleftrightarrow> distinct (map item_key items) \<and>
     (\<forall>i\<in>set items. ims_getItem s (item_key i) = Some (ItemText i))"

lemma stored_items_dropped:
  assumes "cache_inv cfg s" and "stored_items s (i # items)"
  shows "stored_items (dropped cfg (item_key i) i s) items"
proof -
  have "ims_getItem (dropped cfg (item_key i) i s) (item_key j) = Some (ItemText j)"
    if "j \<in> set items" for j
  proof -
    have j: "ims_getItem s (item_key j) = Some (ItemText j)" "item_key j \<noteq> item_key i"
      using that assms(2) unfolding stored_items_def by (simp, force)
    have "owns cfg (item_key j)" using cache_inv_item [OF assms(1) j(1)] by (rule conjunct1)
    then have "item_key j \<noteq> sizeKey cfg" unfolding owns_def by (rule conjunct2)
    with j show ?thesis by (simp add: dropped_get)
  qed
  with assms(2) show ?thesis by (simp add: stored_items_def)
qed

lemma stored_items_sort:
  "cache_inv cfg s \<Longrightarrow> distinct keys \<Longrightarrow> stored_items s (sort_key f (items_at s keys))"
  unfolding stored_items_def
proof (intro conjI ballI)
  assume "cache_inv cfg s" and "distinct keys"
  then have "distinct (map item_key (items_at s keys))" by (rule items_at_distinct)
  then show "distinct (map item_key (sort_key f (items_at s keys)))" by (simp add: distinct_map)
next
  fix i
  assume "cache_inv cfg s" and "i \<in> set (sort_key f (items_at s keys))"
  then show "ims_getItem s (item_key i) = Some (ItemText i)" by (simp add: items_at_present)
qed

lemma popOut_loop_spec:
  assumes "cache_inv cfg s" and "bookkeeping_ok env cfg" and "stored_items s items"
  shows "\<exists>n s'. popOut_loop env cfg items amount s = (Inr (), s') \<and> n \<le> length items \<and>
           (\<forall>k. k \<noteq> sizeKey cfg \<longrightarrow>
              ims_getItem s' k = (if k \<in> item_key ` set (take n items) then None else ims_getItem s k)) \<and>
           cache_inv cfg s' \<and> used cfg s' = used cfg s - bytes (take n items) \<and>
           (n = length items \<or> amount \<le> of_int (bytes (take n items))) \<and>
           (\<forall>m. 0 < m \<and> m < n \<longrightarrow> of_int (bytes (take m items)) < amount)"
  using assms
proof (induction items arbitrary: s amount)
  case Nil
  then show ?case by (intro exI [of _ 0] exI [of _ s]) simp
next
  case (Cons i items)
  let ?s = "dropped cfg (item_key i) i s"
  have i: "ims_getItem s (item_key i) = Some (ItemText i)"
    using Cons.prems(3) by (simp add: stored_items_def)
  have inv: "cache_inv cfg ?s" and u: "used cfg ?s = used cfg s - item_byteSize i"
    using dropped_inv dropped_used Cons.prems(1) i by blast+
  have r: "removeCacheItem env cfg (item_key i) (Some (item_byteSize i)) s = (Inr (), ?s)"
    using Cons.prems i by (intro removeCacheItem_eq) auto
  show ?case
  proof (cases "amount - of_int (item_byteSize i) \<le> 0")
    case True
    with r show ?thesis using inv u
      by (intro exI [of _ 1] exI [of _ ?s]) (auto simp: dropped_get)
  next
    case False
    obtain n s' where IH: "popOut_loop env cfg items (amount - of_int (item_byteSize i)) ?s = (Inr (), s')"
      "n \<le> length items"
      "\<forall>k. k \<noteq> sizeKey cfg \<longrightarrow>
         ims_getItem s' k = (if k \<in> item_key ` set (take n items) then None else ims_getItem ?s k)"
      "cache_inv cfg s'" "used cfg s' = used cfg ?s - bytes (take n items)"
      "n = length items \<or> amount - of_int (item_byteSize i) \<le> of_int (bytes (take n items))"
      "\<forall>m. 0 < m \<and> m < n \<longrightarrow> of_int (bytes (take m items)) < amount - of_int (item_byteSize i)"
      using Cons.IH [OF inv Cons.prems(2) stored_items_dropped [OF Cons.prems(1,3)],
          of "amount - of_int (item_byteSize i)"]
      by (elim exE conjE) (rule that)
    have early: "of_int (bytes (take m (i # items))) < amount" if "0 < m" "m < Suc n" for m
    proof (cases m)
      case (Suc m')
      then show ?thesis using that IH(7) False by (cases m') auto
    qed (use that in simp)
    show ?thesis
      using IH(1-6) early r False u
      by (intro exI [of _ "Suc n"] exI [of _ s']) (auto simp: dropped_get)
  qed
qed

lemma popOut_loop_inv:
  assumes "inv_without cfg K s" and "bookkeeping_ok env cfg"
    and "\<forall>i\<in>set items. owns cfg (item_key i) \<and>
           (ims_getItem s (item_key i) = None \<or> ims_getItem s (item_key i) = Some (ItemText i))"
  shows "inv_without cfg K (snd (popOut_loop env cfg items amount s))"
  using assms
proof (induction items arbitrary: s amount)
  case (Cons i items)
  show ?case
  proof (cases "ims_getItem s (item_key i)")
    case None
    with Cons.prems show ?thesis by (simp add: mbind_def removeCacheItem_absent)
  next
    case (Some v)
    let ?s = "dropped cfg (item_key i) i s"
    have i: "ims_getItem s (item_key i) = Some (ItemText i)" using Some Cons.prems(3) by auto
    have r: "removeCacheItem env cfg (item_key i) (Some (item_byteSize i)) s = (Inr (), ?s)"
      using Cons.prems i by (intro removeCacheItem_eq) (auto dest: inv_without_mono)
    have "owns cfg (item_key j) \<and>
        (ims_getItem ?s (item_key j) = None \<or> ims_getItem ?s (item_key j) = Some (ItemText j))"
      if "j \<in> set items" for j
    proof -
      have o: "owns cfg (item_key j)" using that Cons.prems(3) by simp
      then have "item_key j \<noteq> sizeKey cfg" unfolding owns_def by (rule conjunct2)
      with o that Cons.prems(3) show ?thesis by (simp add: dropped_get)
    qed
    with Cons.IH [OF inv_without_drop [OF Cons.prems(1) i] Cons.prems(2)] inv_without_drop [OF Cons.prems(1) i]
    show ?thesis using r by (auto simp: Let_def)
  qed
qed simp

lemma popOutItems_preserves [preserves_intros]:
  assumes "bookkeeping_ok env cfg"
  shows "preserves (inv_without cfg K) (popOutItems env cfg keys amount)"
proof (rule preservesI)
  fix s :: "'a store"
  assume s: "inv_without cfg K s"
  show "inv_without cfg K (snd (popOutItems env cfg keys amount s))"
  proof (cases "readItems keys s")
    case (Inl e)
    with s show ?thesis by (simp add: popOutItems_def)
  next
    case (Inr xs)
    then have "xs = items_at s keys" by (rule readItems_result)
    moreover have "\<forall>i\<in>set (sort_key evict_rank (items_at s keys)). owns cfg (item_key i) \<and>
        (ims_getItem s (item_key i) = None \<or> ims_getItem s (item_key i) = Some (ItemText i))"
      using items_at_present [OF inv_without_mono [OF s]] cache_inv_item [OF inv_without_mono [OF s]]
      unfolding set_sort by blast
    ultimately show ?thesis using Inr popOut_loop_inv [OF s assms] by (simp add: popOutItems_def)
  qed
qed

text \<open>
  C24. Eviction frees what it is asked to free and nothing more: given keys under which items are stored,
  \<open>popOutItems\<close> removes exactly the first \<open>n\<close> items in eviction order (larger priority number first, then
  least recently visited), the fewest whose bytes reach the requested amount (all of them when they do
  not), keeps every other entry, lowers the counter by their bytes and keeps the invariant.
\<close>

theorem popOutItems_evicts_shortest_prefix:
  assumes "cache_inv cfg s" and "bookkeeping_ok env cfg" and "distinct keys"
    and "\<forall>k\<in>set keys. \<exists>i. ims_getItem s k = Some (ItemText i)"
  defines "items \<equiv> sort_key evict_rank (items_at s keys)"
  shows "\<exists>n s'. popOutItems env cfg keys amount s = (Inr (), s') \<and> n \<le> length items \<and>
           (\<forall>k. k \<noteq> sizeKey cfg \<longrightarrow>
              ims_getItem s' k = (if k \<in> item_key ` set (take n items) then None else ims_getItem s k)) \<and>
           cache_inv cfg s' \<and> used cfg s' = used cfg s - bytes (take n items) \<and>
           (n = length items \<or> amount \<le> of_int (bytes (take n items))) \<and>
           (\<forall>m. 0 < m \<and> m < n \<longrightarrow> of_int (bytes (take m items)) < amount)"
  using popOut_loop_spec [OF assms(1,2) stored_items_sort [OF assms(1,3)], of evict_rank amount]
    readItems_all_items [OF assms(4)]
  by (simp add: popOutItems_def items_def)

section \<open>Public operations keep the invariant\<close>

lemma decrease_counter:
  "ims_getItem s (sizeKey cfg) = Some (NumText (Some c)) \<Longrightarrow> bookkeeping_ok env cfg \<Longrightarrow>
   decreaseCurrentSizeInBytes env cfg (Some n) s =
     (Inr (), ims_setItem (sizeKey cfg) (NumText (Some (c - n))) s)"
  by (simp add: decreaseCurrentSizeInBytes_def getCurrentCacheSize_def mbind_def store_get_def
      store_set_def to_Number_def bookkeeping_ok_def)

lemma setCacheItem_inv:
  assumes "cache_inv cfg s" and ok: "bookkeeping_ok env cfg"
    and "owns cfg k" and "item_key i = k" and "ims_getItem s k = None"
  shows "cache_inv cfg (snd (setCacheItem env cfg k i s))"
proof -
  let ?s = "ims_setItem (sizeKey cfg) (NumText (Some (used cfg s + item_byteSize i))) s"
  have inc: "increaseCurrentSizeInBytes env cfg (Some (item_byteSize i)) s = (Inr (), ?s)"
    by (rule increase_eq [OF assms(1) ok])
  show ?thesis
  proof (cases "acceptsWrite env ?s k (ItemText i)")
    case True
    then have "snd (setCacheItem env cfg k i s) = ims_setItem k (ItemText i) ?s"
      using inc by (simp add: setCacheItem_def store_set_def)
    with cache_inv_add [OF assms(1), of i] assms(3-5) show ?thesis by simp
  next
    case False
    then have "snd (setCacheItem env cfg k i s) = ims_setItem (sizeKey cfg) (NumText (Some (used cfg s))) s"
      using inc by (simp add: setCacheItem_def store_set_def decrease_counter [OF _ ok])
    with cache_inv_counter [OF assms(1)] show ?thesis by simp
  qed
qed

lemma fillCacheItem_key [simp]: "item_key (fillCacheItem env k v p e) = k"
  by (simp add: fillCacheItem_def Let_def)

lemma fillCacheItem_fields [simp]:
  "item_data (fillCacheItem env k v p e) = v" "item_expires (fillCacheItem env k v p e) = e"
  "item_priority (fillCacheItem env k v p e) = p" "item_visitedTime (fillCacheItem env k v p e) = now env"
  by (simp_all add: fillCacheItem_def Let_def)

text \<open>What \<open>setItem\<close> does to make room, once the old entry is gone.\<close>

lemma makeRoom_rest_preserves:
  "bookkeeping_ok env cfg \<Longrightarrow> preserves (inv_without cfg K)
     (mbind (isCacheFull env cfg n) (\<lambda>full.
       if full then mbind (clearInvalidAndGetRemainingKeys env cfg) (\<lambda>validKeys.
         mbind (isCacheFull env cfg n) (\<lambda>stillFull.
           if stillFull then mbind (sizeToPop env cfg n) (\<lambda>amount. popOutItems env cfg validKeys amount)
           else mreturn ()))
       else mreturn ()))"
  by (intro preserves_intros)

lemma makeRoom_inv:
  assumes "cache_inv cfg s" and ok: "bookkeeping_ok env cfg" and "owns cfg k"
  shows "cache_inv cfg (snd (setItem_makeRoom env cfg k i s))"
    and "fst (setItem_makeRoom env cfg k i s) = Inr () \<Longrightarrow>
         ims_getItem (snd (setItem_makeRoom env cfg k i s)) k = None"
proof -
  have k: "sizeKey cfg \<notin> {k}" using assms(3) by (auto simp: owns_def)
  note rest = preservesD [OF makeRoom_rest_preserves [OF ok, of "{k}" "item_byteSize i"]]
  have "cache_inv cfg (snd (setItem_makeRoom env cfg k i s)) \<and>
      (fst (setItem_makeRoom env cfg k i s) = Inr () \<longrightarrow>
         ims_getItem (snd (setItem_makeRoom env cfg k i s)) k = None)"
  proof (cases "ims_getItem s k")
    case None
    with assms(1) k have "inv_without cfg {k} s" by (simp add: inv_without_def)
    with rest [of s] None show ?thesis
      by (simp add: setItem_makeRoom_def store_get_def mbind_def [of "store_get k"]
          mbind_def [of "mreturn ()"] inv_without_def)
  next
    case (Some v)
    show ?thesis
    proof (cases v)
      case (ItemText j)
      have r: "removeCacheItem env cfg k (Some (item_byteSize j)) s = (Inr (), dropped cfg k j s)"
        using Some ItemText by (intro removeCacheItem_eq [OF assms(1) ok]) auto
      have "inv_without cfg {k} (dropped cfg k j s)"
        using dropped_inv [OF assms(1)] Some ItemText k by (auto simp: inv_without_def dropped_get)
      with rest [of "dropped cfg k j s"] Some ItemText r show ?thesis
        by (simp add: setItem_makeRoom_def store_get_def mbind_def [of "store_get k"] parsed_byteSize_def
            mbind_def [of "removeCacheItem env cfg k (Some (item_byteSize j))"] inv_without_def)
    next
      case (NumText n)
      with Some assms(1,3) show ?thesis using cache_inv_num by blast
    next
      case BadText
      with Some assms(1) show ?thesis
        by (simp add: setItem_makeRoom_def store_get_def mbind_def parsed_byteSize_def)
    qed
  qed
  then show "cache_inv cfg (snd (setItem_makeRoom env cfg k i s))"
    and "fst (setItem_makeRoom env cfg k i s) = Inr () \<Longrightarrow>
         ims_getItem (snd (setItem_makeRoom env cfg k i s)) k = None" by auto
qed

lemma setItem_preserves [preserves_intros]:
  assumes ok: "bookkeeping_ok env cfg"
  shows "preserves (cache_inv cfg) (cache_setItem env cfg key val priority expires)"
proof -
  have "cache_inv cfg (snd (mbind (mtry (setItem_makeRoom env cfg k i))
           (\<lambda>r. case r of Inl _ \<Rightarrow> mreturn () | Inr _ \<Rightarrow> setCacheItem env cfg k i) s))"
    if "cache_inv cfg s" "owns cfg k" "item_key i = k" for s :: "'a store" and k i
    using makeRoom_inv [OF that(1) ok that(2), of i] setCacheItem_inv [OF _ ok that(2,3)]
    by (cases "fst (setItem_makeRoom env cfg k i s)") (auto simp: mbind_def mtry_apply)
  then show ?thesis
    by (auto simp: preserves_def cache_setItem_def Let_def split: option.splits)
qed

lemma removeItem_preserves [preserves_intros]:
  assumes ok: "bookkeeping_ok env cfg"
  shows "preserves (cache_inv cfg) (cache_removeItem env cfg key)"
proof (cases "key = [] \<or> key = currentSizeKey")
  case True
  then show ?thesis by (auto simp: cache_removeItem_def intro: preserves_intros)
next
  case False
  then have o: "owns cfg (keyPrefix cfg @ key)" by simp
  show ?thesis
  proof (rule preservesI)
    fix s :: "'a store"
    assume s: "cache_inv cfg s"
    show "cache_inv cfg (snd (cache_removeItem env cfg key s))"
    proof (cases "ims_getItem s (keyPrefix cfg @ key)")
      case None
      with s False show ?thesis
        by (simp add: cache_removeItem_def Let_def mcatch_def mbind_def store_get_def)
    next
      case (Some v)
      show ?thesis
      proof (cases v)
        case (ItemText j)
        with removeCacheItem_eq [OF s ok, of "keyPrefix cfg @ key" j "Some (item_byteSize j)"]
          dropped_inv [OF s] Some False
        show ?thesis
          by (simp add: cache_removeItem_def Let_def mcatch_def mbind_def store_get_def parsed_byteSize_def)
      next
        case (NumText n)
        with Some s o show ?thesis using cache_inv_num by blast
      next
        case BadText
        with Some s False show ?thesis
          by (simp add: cache_removeItem_def Let_def mcatch_def mbind_def store_get_def parsed_byteSize_def)
      qed
    qed
  qed
qed

lemma store_remove_ok: "bookkeeping_ok env cfg \<Longrightarrow> store_remove env k s = (Inr (), ims_removeItem k s)"
  by (simp add: store_remove_def bookkeeping_ok_def)

lemma mfor_remove:
  "bookkeeping_ok env cfg \<Longrightarrow>
   mfor ks (\<lambda>k. store_remove env (p @ k)) s = (Inr (), fold ims_removeItem (map ((@) p) ks) s)"
  by (induction ks arbitrary: s) (simp_all add: store_remove_ok)

lemma okeys_fold_remove: "okeys s \<Longrightarrow> okeys (fold ims_removeItem ks s)"
  by (induction ks arbitrary: s) auto

lemma getAllCacheKeys_prefixed:
  "map ((@) (keyPrefix cfg)) (getAllCacheKeys cfg False s) =
     filter (\<lambda>key. startsWith key (keyPrefix cfg)) (map fst s)"
proof -
  have "map (\<lambda>i. map fst s ! i) [0..<ims_length s] = map fst s"
    by (rule nth_equalityI) (simp_all add: ims_length_def)
  moreover have "map ((@) p) (map (drop (length p)) (filter (\<lambda>key. startsWith key p) ks)) =
      filter (\<lambda>key. startsWith key p) ks" for p and ks :: "string list"
    by (induction ks) (auto simp: startsWith_def prefix_def)
  ultimately show ?thesis by (simp add: getAllCacheKeys_def)
qed

lemma clear_eq:
  assumes "bookkeeping_ok env cfg"
  shows "cache_clear env cfg s =
           (Inr (), fold ims_removeItem (filter (\<lambda>key. startsWith key (keyPrefix cfg)) (map fst s)) s)"
  using mfor_remove [OF assms, of "getAllCacheKeys cfg False s" "keyPrefix cfg" s]
  by (simp add: cache_clear_def getAllCacheKeys_prefixed)

lemma clear_get:
  assumes "bookkeeping_ok env cfg"
  shows "ims_getItem (snd (cache_clear env cfg s)) k =
           (if startsWith k (keyPrefix cfg) then None else ims_getItem s k)"
proof -
  have "k \<notin> set (map fst s) \<Longrightarrow> ims_getItem s k = None"
    by (simp add: ims_getItem_def map_of_eq_None_iff)
  then show ?thesis by (auto simp: clear_eq [OF assms] ims.get_remove_all)
qed

lemma sizeKey_startsWith [simp]: "startsWith (sizeKey cfg) (keyPrefix cfg)"
  by (simp add: getCurrentSizeKey_def)

lemma used_no_owned: "(\<And>k v. (k, v) \<in> set s \<Longrightarrow> \<not> owns cfg k) \<Longrightarrow> used cfg s = 0"
  using osum_cong [of s "item_weight cfg" "\<lambda>_ _. 0"]
  by (simp add: used_def item_weight_def)

lemma clear_preserves [preserves_intros]:
  assumes ok: "bookkeeping_ok env cfg"
  shows "preserves (cache_inv cfg) (cache_clear env cfg)"
proof (rule preservesI)
  fix s :: "'a store"
  assume s: "cache_inv cfg s"
  let ?s = "snd (cache_clear env cfg s)"
  have okeys: "okeys ?s"
    using cache_inv_okeys [OF s] by (simp add: clear_eq [OF ok] okeys_fold_remove)
  have g: "ims_getItem ?s k = (if startsWith k (keyPrefix cfg) then None else ims_getItem s k)" for k
    by (rule clear_get [OF ok])
  have "\<not> owns cfg k" if "(k, v) \<in> set ?s" for k v
    using that okeys_map_of [OF okeys] g [of k] by (auto simp: ims_getItem_def owns_def split: if_splits)
  then have "used cfg ?s = 0" by (rule used_no_owned)
  then show "cache_inv cfg ?s"
    using s okeys by (auto simp: cache_inv_def g split: if_splits)
qed

lemma getItem_preserves [preserves_intros]:
  assumes ok: "bookkeeping_ok env cfg"
  shows "preserves (cache_inv cfg) (cache_getItem env cfg key callback priority expires)"
proof (cases "key = [] \<or> key = currentSizeKey")
  case True
  then show ?thesis by (auto simp: cache_getItem_def intro: preserves_intros)
next
  case False
  define miss where "miss = (case callback of
                   None \<Rightarrow> mreturn None
                 | Some None \<Rightarrow> mreturn None
                 | Some (Some v) \<Rightarrow>
                     mbind (cache_setItem env cfg key (Some v) priority expires) (\<lambda>_. mreturn (Some v)))"
  have miss: "preserves (cache_inv cfg) miss"
    unfolding miss_def by (intro preserves_intros ok)
  let ?k = "keyPrefix cfg @ key"
  show ?thesis
  proof (rule preservesI)
    fix s :: "'a store"
    assume s: "cache_inv cfg s"
    have drop: "cache_inv cfg (snd (mbind (removeCacheItem env cfg ?k (Some (item_byteSize i))) (\<lambda>_. miss) s))"
      if "ims_getItem s ?k = Some (ItemText i)" for i
      using removeCacheItem_eq [OF s ok that, of "Some (item_byteSize i)"]
        preservesD [OF miss dropped_inv [OF s that]] by simp
    have visit: "cache_inv cfg (snd (mbind (updateVisitedTime env i ?k) (\<lambda>item. mreturn (Some (item_data item))) s))"
      if "ims_getItem s ?k = Some (ItemText i)" for i
      using cache_inv_replace [OF s that, of "i\<lparr>item_visitedTime := now env\<rparr>"] s
      by (auto simp: updateVisitedTime_def Let_def mbind_def store_set_def)
    have body: "cache_inv cfg (snd (mbind (store_get ?k) (\<lambda>cached.
                case cached of
                  None \<Rightarrow> miss
                | Some t \<Rightarrow>
                    mbind (isExpired env ?k) (\<lambda>expired.
                      if expired then
                        (case parsed_byteSize t of
                           Inl e \<Rightarrow> mthrow e
                         | Inr sz \<Rightarrow> mbind (removeCacheItem env cfg ?k sz) (\<lambda>_. miss))
                      else
                        (case t of
                           ItemText i \<Rightarrow> mbind (updateVisitedTime env i ?k)
                                           (\<lambda>item. mreturn (Some (item_data item)))
                         | _ \<Rightarrow> mthrow TypeError))) s))"
    proof (cases "ims_getItem s ?k")
      case None
      with preservesD [OF miss s] show ?thesis by (simp add: mbind_def store_get_def)
    next
      case (Some t)
      show ?thesis
      proof (cases t)
        case (ItemText i)
        with Some drop visit show ?thesis
          by (simp add: mbind_def [of "store_get ?k"] store_get_def mbind_def [of "isExpired env ?k"]
              isExpired_def parsed_byteSize_def)
      next
        case (NumText n)
        with Some False s show ?thesis using cache_inv_num owns_own by blast
      next
        case BadText
        with Some s show ?thesis by (simp add: mbind_def store_get_def isExpired_def)
      qed
    qed
    show "cache_inv cfg (snd (cache_getItem env cfg key callback priority expires s))"
      using body False unfolding cache_getItem_def Let_def miss_def [symmetric]
      by (auto simp: mcatch_def split: prod.splits sum.splits)
  qed
qed

section \<open>Sessions\<close>

datatype 'd cache_request =
    CallSet string "'d option" "int option" "int option"
  | CallGet string "'d option option" "int option" "int option"
  | CallRemove string
  | CallClear

fun cache_call :: "'d cache_env \<Rightarrow> cache_config \<Rightarrow> 'd cache_request \<Rightarrow> 'd store \<Rightarrow> 'd store" where
  "cache_call env cfg (CallSet k v p e) s = snd (cache_setItem env cfg k v p e s)"
| "cache_call env cfg (CallGet k c p e) s = snd (cache_getItem env cfg k c p e s)"
| "cache_call env cfg (CallRemove k) s = snd (cache_removeItem env cfg k s)"
| "cache_call env cfg CallClear s = snd (cache_clear env cfg s)"

text \<open>Each call sees its own environment: the clock moves, the platform may refuse other writes.\<close>

fun cache_session :: "cache_config \<Rightarrow> ('d cache_env \<times> 'd cache_request) list \<Rightarrow> 'd store \<Rightarrow> 'd store" where
  "cache_session cfg [] s = s"
| "cache_session cfg ((env, c) # calls) s = cache_session cfg calls (cache_call env cfg c s)"

lemma cache_call_inv: "bookkeeping_ok env cfg \<Longrightarrow> cache_inv cfg s \<Longrightarrow> cache_inv cfg (cache_call env cfg c s)"
  by (cases c) (auto intro: preservesD setItem_preserves getItem_preserves removeItem_preserves clear_preserves)

lemma cache_session_inv:
  "\<forall>(env, c) \<in> set calls. bookkeeping_ok env cfg \<Longrightarrow> cache_inv cfg s \<Longrightarrow>
     cache_inv cfg (cache_session cfg calls s)"
  by (induction calls arbitrary: s) (auto simp: cache_call_inv)

lemma cache_inv_empty: "cache_inv cfg []"
  by (simp add: cache_inv_def used_def ims_getItem_def)

text \<open>
  C13. The size counter is right after every session: whatever sequence of \<open>setItem\<close>, \<open>getItem\<close>,
  \<open>removeItem\<close> and \<open>clear\<close> runs from an empty storage, with item writes failing at will but counter
  writes and removals succeeding, the cache reports exactly the bytes of the items it holds.
\<close>

theorem cache_size_is_exact:
  assumes "\<forall>(env, c) \<in> set calls. bookkeeping_ok env cfg" and "bookkeeping_ok env cfg"
  shows "fst (getCurrentCacheSize env cfg (cache_session cfg calls [])) =
           Inr (Some (used cfg (cache_session cfg calls [])))"
  using cache_session_inv [OF assms(1) cache_inv_empty] assms(2) by (rule getCurrentCacheSize_inv(1))

text \<open>An environment in which every write is taken; an item costs ten bytes.\<close>

definition demo_env :: "int \<Rightarrow> nat cache_env" where
  "demo_env t = \<lparr> now = t, acceptsWrite = (\<lambda>s k v. True), acceptsRemove = (\<lambda>s k. True),
     stringify = (\<lambda>i. replicate 10 97), typeOf = (\<lambda>v. ''number'') \<rparr>"

lemma demo_env_ok [simp]: "bookkeeping_ok (demo_env t) cfg"
  by (simp add: bookkeeping_ok_def demo_env_def)

theorem cache_size_is_exact_witness:
  "fst (getCurrentCacheSize (demo_env 5) defaultConfig
     (cache_session defaultConfig [(demo_env 1, CallSet ''a'' (Some 7) None None)] [])) =
   Inr (Some (used defaultConfig
     (cache_session defaultConfig [(demo_env 1, CallSet ''a'' (Some 7) None None)] [])))"
  by (rule cache_size_is_exact) simp_all

section \<open>Reading back, and a full cache\<close>

lemma isCacheFull_inv:
  assumes "cache_inv cfg s" and "bookkeeping_ok env cfg"
  shows "isCacheFull env cfg n s =
           (Inr (n + used cfg s > capacityInBytes cfg), snd (getCurrentCacheSize env cfg s))"
  using getCurrentCacheSize_inv(1) [OF assms]
  by (cases "getCurrentCacheSize env cfg s") (auto simp: isCacheFull_def mbind_def)

text \<open>The store without the entry of one key, as \<open>setItem\<close> leaves it before making room.\<close>

definition without_entry :: "cache_config \<Rightarrow> string \<Rightarrow> 'd store \<Rightarrow> 'd store" where
  "without_entry cfg k s = (case item_at s k of None \<Rightarrow> s | Some j \<Rightarrow> dropped cfg k j s)"

lemma without_entry_inv: "cache_inv cfg s \<Longrightarrow> cache_inv cfg (without_entry cfg k s)"
  by (auto simp: without_entry_def item_at_Some dropped_inv split: option.split)

lemma without_entry_get:
  assumes "owns cfg k" and "ims_getItem s k \<noteq> Some BadText" and "cache_inv cfg s"
  shows "ims_getItem (without_entry cfg k s) k = None"
    and "j \<noteq> k \<Longrightarrow> j \<noteq> sizeKey cfg \<Longrightarrow> ims_getItem (without_entry cfg k s) j = ims_getItem s j"
proof -
  have ne: "k \<noteq> sizeKey cfg" using assms(1) unfolding owns_def by (rule conjunct2)
  have "item_at s k = None \<Longrightarrow> ims_getItem s k = None"
    using assms cache_inv_num [OF assms(3)]
    by (auto simp: item_at_def split: option.splits sval.splits)
  then show "ims_getItem (without_entry cfg k s) k = None"
    using ne by (auto simp: without_entry_def dropped_get split: option.split)
  show "j \<noteq> k \<Longrightarrow> j \<noteq> sizeKey cfg \<Longrightarrow> ims_getItem (without_entry cfg k s) j = ims_getItem s j"
    by (auto simp: without_entry_def dropped_get split: option.split)
qed

lemma makeRoom_unfold:
  assumes "cache_inv cfg s" and ok: "bookkeeping_ok env cfg" and "owns cfg k"
    and "ims_getItem s k \<noteq> Some BadText"
  shows "setItem_makeRoom env cfg k i s =
     mbind (isCacheFull env cfg (item_byteSize i)) (\<lambda>full.
       if full then mbind (clearInvalidAndGetRemainingKeys env cfg) (\<lambda>validKeys.
         mbind (isCacheFull env cfg (item_byteSize i)) (\<lambda>stillFull.
           if stillFull then mbind (sizeToPop env cfg (item_byteSize i)) (\<lambda>amount.
             popOutItems env cfg validKeys amount)
           else mreturn ()))
       else mreturn ()) (without_entry cfg k s)"
proof (cases "ims_getItem s k")
  case None
  then show ?thesis
    by (simp add: setItem_makeRoom_def mbind_def [of "store_get k"] store_get_def without_entry_def
        item_at_def mbind_def [of "mreturn ()"])
next
  case (Some v)
  then obtain j where j: "v = ItemText j"
    using assms cache_inv_num [OF assms(1)] by (cases v) auto
  with Some have "removeCacheItem env cfg k (Some (item_byteSize j)) s = (Inr (), dropped cfg k j s)"
    by (intro removeCacheItem_eq [OF assms(1) ok]) auto
  with Some j show ?thesis
    by (simp add: setItem_makeRoom_def mbind_def [of "store_get k"] store_get_def without_entry_def
        item_at_def parsed_byteSize_def
        mbind_def [of "removeCacheItem env cfg k (Some (item_byteSize j))"])
qed

text \<open>
  A value that fits is read back: after \<open>setItem\<close> of a valid key with a priority within 1 to 5, of an
  item no larger than the item limit that fits beside the other entries, \<open>getItem\<close> before the expiry
  returns the value.
\<close>

theorem setItem_then_getItem:
  assumes inv: "cache_inv cfg s" and ok: "bookkeeping_ok env cfg" "bookkeeping_ok env' cfg"
    and "\<forall>s k v. acceptsWrite env s k v" and "\<forall>s k v. acceptsWrite env' s k v"
    and key: "key \<noteq> []" "key \<noteq> currentSizeKey"
    and prio: "1 \<le> p" "p \<le> 5"
    and parsable: "ims_getItem s (keyPrefix cfg @ key) \<noteq> Some BadText"
    and item: "item = fillCacheItem env (keyPrefix cfg @ key) v p e"
    and fits: "item_byteSize item \<le> itemMaxSize cfg"
      "item_byteSize item + used cfg (without_entry cfg (keyPrefix cfg @ key) s) \<le> capacityInBytes cfg"
    and live: "now env' < e"
  shows "fst (cache_getItem env' cfg key None None None
           (snd (cache_setItem env cfg key (Some v) (Some p) (Some e) s))) = Inr (Some v)"
proof -
  let ?k = "keyPrefix cfg @ key"
  let ?s = "without_entry cfg ?k s"
  let ?t = "snd (getCurrentCacheSize env cfg ?s)"
  have o: "owns cfg ?k" and ne: "?k \<noteq> sizeKey cfg" using key by simp_all
  note inv1 = without_entry_inv [OF inv, of ?k]
  have room: "setItem_makeRoom env cfg ?k item s = (Inr (), ?t)"
  proof -
    have "isCacheFull env cfg (item_byteSize item) ?s = (Inr False, ?t)"
      using isCacheFull_inv [OF inv1 ok(1), of "item_byteSize item"] fits(2) by simp
    then show ?thesis
      unfolding makeRoom_unfold [OF inv ok(1) o parsable] by (simp add: mbind_def)
  qed
  have inv2: "cache_inv cfg ?t" by (rule getCurrentCacheSize_inv(2) [OF inv1 ok(1)])
  have "cache_setItem env cfg key (Some v) (Some p) (Some e) s = setCacheItem env cfg ?k item ?t"
    using key prio fits(1) room item by (simp add: cache_setItem_def Let_def mtry_apply mbind_def [of "mtry m" for m])
  moreover have "ims_getItem (snd (setCacheItem env cfg ?k item ?t)) ?k = Some (ItemText item)"
    using increase_eq [OF inv2 ok(1)] assms(4) by (simp add: setCacheItem_def store_set_def)
  ultimately have g: "ims_getItem (snd (cache_setItem env cfg key (Some v) (Some p) (Some e) s)) ?k =
      Some (ItemText item)" by simp
  have "item_expires item = e" "item_data item = v" using item by simp_all
  with g assms(5) key live show ?thesis
    by (simp add: cache_getItem_def Let_def mcatch_def mbind_def store_get_def isExpired_def
        updateVisitedTime_def store_set_def)
qed

theorem setItem_then_getItem_witness:
  "fst (cache_getItem (demo_env 3) defaultConfig ''a'' None None None
     (snd (cache_setItem (demo_env 1) defaultConfig ''a'' (Some 7) (Some 2) (Some 100) []))) = Inr (Some 7)"
proof (rule setItem_then_getItem [where item = "fillCacheItem (demo_env 1) (keyPrefix defaultConfig @ ''a'') 7 2 100"])
  have b: "item_byteSize (fillCacheItem (demo_env 1) k v p e) = 10" for k v p e
    by (simp add: fillCacheItem_def Let_def demo_env_def getByteLength_ascii)
  show "item_byteSize (fillCacheItem (demo_env 1) (keyPrefix defaultConfig @ ''a'') 7 2 100)
      \<le> itemMaxSize defaultConfig"
    by (simp add: b defaultConfig_def)
  show "item_byteSize (fillCacheItem (demo_env 1) (keyPrefix defaultConfig @ ''a'') 7 2 100) +
      used defaultConfig (without_entry defaultConfig (keyPrefix defaultConfig @ ''a'') [])
      \<le> capacityInBytes defaultConfig"
    by (simp add: b without_entry_def item_at_def ims_getItem_def used_def defaultConfig_def)
qed (simp_all add: cache_inv_empty, simp_all add: demo_env_def currentSizeKey_def ims_getItem_def)

lemma fold_mbind_throw:
  "m s = (Inl e, s') \<Longrightarrow> fold (\<lambda>x m. mbind m (f x)) xs m s = (Inl e, s')"
  by (induction xs arbitrary: m) auto

lemma getAllCacheKeys_mem:
  "k \<in> set (getAllCacheKeys cfg True s) \<longleftrightarrow> k \<noteq> currentSizeKey \<and> ims_getItem s (keyPrefix cfg @ k) \<noteq> None"
proof -
  have "map (\<lambda>i. map fst s ! i) [0..<ims_length s] = map fst s"
    by (rule nth_equalityI) (simp_all add: ims_length_def)
  then have "k \<in> set (getAllCacheKeys cfg True s) \<longleftrightarrow>
      (\<exists>key \<in> fst ` set s. key \<noteq> sizeKey cfg \<and> (\<exists>t. key = keyPrefix cfg @ t \<and> k = t))"
    by (auto simp: getAllCacheKeys_def startsWith_def prefix_def image_iff)
  also have "\<dots> \<longleftrightarrow> k \<noteq> currentSizeKey \<and> keyPrefix cfg @ k \<in> fst ` set s"
    by (force simp: getCurrentSizeKey_def)
  finally show ?thesis by (simp add: ims_getItem_def map_of_eq_None_iff)
qed

text \<open>
  A full cache loses the write and the old value. The keys \<open>getAllCacheKeys\<close> returns have their prefix
  cut off and are then looked up as they are; unless such a name happens to exist in the storage, the
  first lookup throws \<open>NoCacheItem\<close>, \<open>setItem\<close> swallows it, no item is evicted, and the entry that was to
  be replaced is gone.
\<close>

theorem setItem_full_cache_loses_entry:
  assumes inv: "cache_inv cfg s" and ok: "bookkeeping_ok env cfg"
    and key: "key \<noteq> []" "key \<noteq> currentSizeKey" and prio: "1 \<le> p" "p \<le> 5"
    and old: "ims_getItem s (keyPrefix cfg @ key) = Some (ItemText old_item)"
    and other: "other \<noteq> key" "other \<noteq> currentSizeKey"
      "ims_getItem s (keyPrefix cfg @ other) = Some (ItemText other_item)"
    and no_alias: "\<forall>k. ims_getItem s (keyPrefix cfg @ k) \<noteq> None \<longrightarrow> ims_getItem s k = None \<and> k \<noteq> sizeKey cfg"
    and item: "item = fillCacheItem env (keyPrefix cfg @ key) v p e"
    and big: "item_byteSize item \<le> itemMaxSize cfg"
      "item_byteSize item + used cfg s - item_byteSize old_item > capacityInBytes cfg"
  shows "\<exists>s'. cache_setItem env cfg key (Some v) (Some p) (Some e) s = (Inr (), s') \<and>
           ims_getItem s' (keyPrefix cfg @ key) = None \<and>
           ims_getItem s' (keyPrefix cfg @ other) = Some (ItemText other_item)"
proof -
  let ?k = "keyPrefix cfg @ key"
  let ?s = "dropped cfg ?k old_item s"
  have s: "without_entry cfg ?k s = ?s" using old by (simp add: without_entry_def item_at_def)
  have o: "owns cfg ?k" "?k \<noteq> sizeKey cfg" "keyPrefix cfg @ other \<noteq> sizeKey cfg" using key other by simp_all
  have inv1: "cache_inv cfg ?s" and u: "used cfg ?s = used cfg s - item_byteSize old_item"
    using dropped_inv [OF inv old] dropped_used [OF inv old] by simp_all
  define t where "t = snd (getCurrentCacheSize env cfg ?s)"
  have full: "isCacheFull env cfg (item_byteSize item) ?s = (Inr True, t)"
    using isCacheFull_inv [OF inv1 ok] big(2) u by (simp add: t_def)
  have t: "ims_getItem t k = (if k = ?k then None else ims_getItem s k)" if "k \<noteq> sizeKey cfg" for k
    using getCurrentCacheSize_inv(4) [OF inv1 ok that] that by (simp add: t_def dropped_get)
  have "other \<in> set (getAllCacheKeys cfg True t)"
    using other o by (simp add: getAllCacheKeys_mem t)
  then obtain k ks where ks: "getAllCacheKeys cfg True t = k # ks" by (cases "getAllCacheKeys cfg True t") auto
  then have "k \<in> set (getAllCacheKeys cfg True t)" by simp
  then have "k \<noteq> currentSizeKey" "ims_getItem t (keyPrefix cfg @ k) \<noteq> None"
    by (simp_all add: getAllCacheKeys_mem)
  then have "ims_getItem s (keyPrefix cfg @ k) \<noteq> None" using t by (auto split: if_splits)
  then have "ims_getItem t k = None" using no_alias t by auto
  then have "clearInvalidAndGetRemainingKeys env cfg t = (Inl NoCacheItem, t)"
    by (simp add: clearInvalidAndGetRemainingKeys_def clearInvalid_loop_def ks isExpired_def
        store_get_def fold_mbind_throw [where e = NoCacheItem and s' = t])
  then have "setItem_makeRoom env cfg ?k item s = (Inl NoCacheItem, t)"
    using makeRoom_unfold [OF inv ok o(1), of item] old full s by simp
  then have "cache_setItem env cfg key (Some v) (Some p) (Some e) s = (Inr (), t)"
    using key prio big(1) item by (simp add: cache_setItem_def Let_def mtry_apply mbind_def [of "mtry m" for m])
  then show ?thesis using t o other by simp
qed

text \<open>
  The witnesses below use a cache of 30 bytes with prefix \<open>p\<close>, holding two items of 10 and 20 bytes.
\<close>

definition small_cfg :: cache_config where
  "small_cfg = defaultConfig\<lparr>keyPrefix := ''p'', capacityInBytes := 30, itemMaxSize := 30\<rparr>"

definition small_item :: "string \<Rightarrow> int \<Rightarrow> int \<Rightarrow> int \<Rightarrow> nat cache_item" where
  "small_item k n p t = \<lparr> item_key = k, item_data = 7, item_timestamp = 1, item_visitedTime = t,
     item_priority = p, item_expires = 100, item_type = ''number'', item_byteSize = n \<rparr>"

definition small_store :: "nat store" where
  "small_store = [(''pCurSize'', NumText (Some 30)), (''pa'', ItemText (small_item ''pa'' 10 2 1)),
     (''pb'', ItemText (small_item ''pb'' 20 3 2))]"

lemmas small_defs = small_cfg_def small_item_def small_store_def defaultConfig_def currentSizeKey_def
  getCurrentSizeKey_def ims_getItem_def

lemma small_inv: "cache_inv small_cfg small_store"
  by (auto simp: small_defs cache_inv_def okeys_def used_def item_weight_def owns_def startsWith_def
      split: if_splits)

theorem popOutItems_evicts_shortest_prefix_witness:
  "\<exists>s'. popOutItems (demo_env 5) small_cfg [''pa'', ''pb''] 6 small_store = (Inr (), s') \<and>
     cache_inv small_cfg s'"
proof -
  have two: "distinct [''pa'', ''pb'']" by simp
  have "\<forall>k\<in>set [''pa'', ''pb'']. \<exists>i. ims_getItem small_store k = Some (ItemText i)"
    by (simp add: small_defs)
  from popOutItems_evicts_shortest_prefix [OF small_inv demo_env_ok two this, of 5 6]
  show ?thesis by (elim exE conjE) (intro exI conjI, assumption+)
qed

theorem setItem_full_cache_loses_entry_witness:
  "\<exists>s'. cache_setItem ((demo_env 5)\<lparr>stringify := \<lambda>i. replicate 15 97\<rparr>) small_cfg ''a'' (Some 8)
           (Some 2) (Some 100) small_store = (Inr (), s') \<and>
     ims_getItem s' (keyPrefix small_cfg @ ''a'') = None \<and>
     ims_getItem s' (keyPrefix small_cfg @ ''b'') = Some (ItemText (small_item ''pb'' 20 3 2))"
  (is "\<exists>s'. cache_setItem ?env _ _ _ _ _ _ = _ \<and> _")
proof (rule setItem_full_cache_loses_entry [OF small_inv])
  have b: "item_byteSize (fillCacheItem ?env k v p e) = 15" for k v p e
    by (simp add: fillCacheItem_def Let_def getByteLength_ascii)
  show "bookkeeping_ok ?env small_cfg" by (simp add: bookkeeping_ok_def demo_env_def)
  show "ims_getItem small_store (keyPrefix small_cfg @ ''a'') = Some (ItemText (small_item ''pa'' 10 2 1))"
    by (simp add: small_defs)
  show "fillCacheItem ?env (keyPrefix small_cfg @ ''a'') 8 2 100 =
      fillCacheItem ?env (keyPrefix small_cfg @ ''a'') 8 2 100" ..
  show "item_byteSize (fillCacheItem ?env (keyPrefix small_cfg @ ''a'') 8 2 100) \<le> itemMaxSize small_cfg"
    unfolding b by (simp add: small_defs)
  show "item_byteSize (fillCacheItem ?env (keyPrefix small_cfg @ ''a'') 8 2 100) +
      used small_cfg small_store - item_byteSize (small_item ''pa'' 10 2 1) > capacityInBytes small_cfg"
    unfolding b by (simp add: small_defs used_def item_weight_def owns_def startsWith_def)
qed (auto simp: small_defs split: if_splits)

section \<open>Configuration\<close>

text \<open>
  However the cache was built and reconfigured, the priority, the threshold and the capacity are in
  their documented ranges, but the item limit may end up above the capacity: exactly when an oversized
  limit is reset to the default of 210000 bytes for a smaller capacity, or when a capacity above 5 MB is
  reset to 1 MB under a limit that was checked against the old capacity. A \<open>keyPrefix\<close> given to
  \<open>configure\<close> replaces the prefix.
\<close>

theorem configure_ranges:
  "1 \<le> defaultPriority (configure cfg (Some p)) \<and> defaultPriority (configure cfg (Some p)) \<le> 5 \<and>
   0 \<le> warningThreshold (configure cfg (Some p)) \<and> warningThreshold (configure cfg (Some p)) \<le> 1 \<and>
   capacityInBytes (configure cfg (Some p)) \<le> 5242880 \<and>
   keyPrefix (configure cfg (Some p)) = given (keyPrefix cfg) (p_keyPrefix p) \<and>
   (let c = spreadConfig cfg p in
      itemMaxSize (configure cfg (Some p)) > capacityInBytes (configure cfg (Some p)) \<longleftrightarrow>
      itemMaxSize c > capacityInBytes c \<and> capacityInBytes c < 210000 \<or>
      itemMaxSize c \<le> capacityInBytes c \<and> capacityInBytes c > 5242880 \<and> itemMaxSize c > 1048576)"
  by (auto simp: configure_def sanitizeConfig_def Let_def defaultConfig_def spreadConfig_def)

end
