(* ===== verification/JsValue.thy ===== *)
theory JsValue
  imports Complex_Main Prelude "HOL-Library.Char_ord" "HOL-Library.List_Lexorder"
begin

text \<open>
  JavaScript values as the data of a model: plain objects keep their own enumerable keys in order, a
  missing key reads as \<open>undefined\<close>. Numbers are finite (\<open>rat\<close>); strings compare by code unit.
  Two objects or arrays are never the same reference here, so \<open>===\<close> is false on them.
  ECMAScript's \<open>Number::toString\<close> and \<open>StringToNumber\<close> are the fields of \<open>js_env\<close>.
\<close>

datatype jsval =
    JUndefined | JNull | JBool bool | JNum rat | JStr string
  | JArr "jsval list" | JObj "(string \<times> jsval) list"
  | JSet "jsval list" | JMap "(string \<times> jsval) list"

datatype js_error = JsTypeError | JsRangeError | JsError string

record js_env =
  numberToString :: "rat \<Rightarrow> string"
  stringToNumber :: "string \<Rightarrow> rat option"

definition isNullOrUndefined :: "jsval \<Rightarrow> bool" where
  "isNullOrUndefined v \<longleftrightarrow> v = JUndefined \<or> v = JNull"

fun is_object :: "jsval \<Rightarrow> bool" where
  "is_object (JArr _) = True"
| "is_object (JObj _) = True"
| "is_object (JSet _) = True"
| "is_object (JMap _) = True"
| "is_object _ = False"

definition field_of :: "(string \<times> jsval) list \<Rightarrow> string \<Rightarrow> jsval" where
  "field_of fs k = (case map_of fs k of None \<Rightarrow> JUndefined | Some v \<Rightarrow> v)"

type_synonym model = "(string \<times> jsval) list"

definition nth_or_undefined :: "jsval list \<Rightarrow> nat \<Rightarrow> jsval" where
  "nth_or_undefined xs i = (if i < length xs then xs ! i else JUndefined)"

fun truthy :: "jsval \<Rightarrow> bool" where
  "truthy JUndefined = False"
| "truthy JNull = False"
| "truthy (JBool b) = b"
| "truthy (JNum n) = (n \<noteq> 0)"
| "truthy (JStr s) = (s \<noteq> [])"
| "truthy _ = True"

definition strict_eq :: "jsval \<Rightarrow> jsval \<Rightarrow> bool" where
  "strict_eq a b \<longleftrightarrow> a = b \<and> \<not> is_object a"

fun js_toString :: "js_env \<Rightarrow> jsval \<Rightarrow> string" where
  "js_toString E JUndefined = ''undefined''"
| "js_toString E JNull = ''null''"
| "js_toString E (JBool b) = (if b then ''true'' else ''false'')"
| "js_toString E (JNum n) = numberToString E n"
| "js_toString E (JStr s) = s"
| "js_toString E (JArr xs) =
     join '','' (map (\<lambda>x. if isNullOrUndefined x then [] else js_toString E x) xs)"
| "js_toString E (JObj _) = ''[object Object]''"
| "js_toString E (JSet _) = ''[object Set]''"
| "js_toString E (JMap _) = ''[object Map]''"

text \<open>\<open>None\<close> is \<open>NaN\<close>.\<close>

fun js_toNumber :: "js_env \<Rightarrow> jsval \<Rightarrow> rat option" where
  "js_toNumber E JUndefined = None"
| "js_toNumber E JNull = Some 0"
| "js_toNumber E (JBool b) = Some (if b then 1 else 0)"
| "js_toNumber E (JNum n) = Some n"
| "js_toNumber E (JStr s) = stringToNumber E s"
| "js_toNumber E v = stringToNumber E (js_toString E v)"

definition to_primitive :: "js_env \<Rightarrow> jsval \<Rightarrow> jsval" where
  "to_primitive E v = (if is_object v then JStr (js_toString E v) else v)"

text \<open>The relational operators, with the string comparison when both sides are strings.\<close>

definition relational ::
  "(string \<Rightarrow> string \<Rightarrow> bool) \<Rightarrow> (rat \<Rightarrow> rat \<Rightarrow> bool) \<Rightarrow> js_env \<Rightarrow> jsval \<Rightarrow> jsval \<Rightarrow> bool" where
  "relational onStrings onNumbers E a b =
     (case (to_primitive E a, to_primitive E b) of
        (JStr s, JStr t) \<Rightarrow> onStrings s t
      | (x, y) \<Rightarrow> (case (js_toNumber E x, js_toNumber E y) of
            (Some m, Some n) \<Rightarrow> onNumbers m n
          | _ \<Rightarrow> False))"

definition js_lt :: "js_env \<Rightarrow> jsval \<Rightarrow> jsval \<Rightarrow> bool" where
  "js_lt = relational (<) (<)"

definition js_le :: "js_env \<Rightarrow> jsval \<Rightarrow> jsval \<Rightarrow> bool" where
  "js_le = relational (\<le>) (\<le>)"

section \<open>Values of one kind\<close>

text \<open>The kinds on which the order of JavaScript is a total order.\<close>

definition num_values :: "jsval set" where
  "num_values = range JNum"

definition str_values :: "jsval set" where
  "str_values = range JStr"

lemma js_lt_num [simp]: "js_lt E (JNum m) (JNum n) \<longleftrightarrow> m < n"
  by (simp add: js_lt_def relational_def to_primitive_def)

lemma js_lt_str [simp]: "js_lt E (JStr s) (JStr t) \<longleftrightarrow> s < t"
  by (simp add: js_lt_def relational_def to_primitive_def)

lemma js_le_num [simp]: "js_le E (JNum m) (JNum n) \<longleftrightarrow> m \<le> n"
  by (simp add: js_le_def relational_def to_primitive_def)

lemma js_le_str [simp]: "js_le E (JStr s) (JStr t) \<longleftrightarrow> s \<le> t"
  by (simp add: js_le_def relational_def to_primitive_def)

lemma js_lt_undefined [simp]: "\<not> js_lt E JUndefined b" "\<not> js_lt E a JUndefined"
  by (auto simp: js_lt_def relational_def to_primitive_def split: jsval.splits option.splits)

lemma js_lt_null [simp]: "\<not> js_lt E JNull JNull"
  by (simp add: js_lt_def relational_def to_primitive_def)

text \<open>On one kind the comparison is a strict total order.\<close>

locale total_values =
  fixes V :: "jsval set" and lt :: "jsval \<Rightarrow> jsval \<Rightarrow> bool"
  assumes irrefl: "x \<in> V \<Longrightarrow> \<not> lt x x"
    and trans: "x \<in> V \<Longrightarrow> y \<in> V \<Longrightarrow> z \<in> V \<Longrightarrow> lt x y \<Longrightarrow> lt y z \<Longrightarrow> lt x z"
    and total: "x \<in> V \<Longrightarrow> y \<in> V \<Longrightarrow> lt x y \<or> x = y \<or> lt y x"
begin

lemma asym: "x \<in> V \<Longrightarrow> y \<in> V \<Longrightarrow> lt x y \<Longrightarrow> \<not> lt y x"
  using irrefl trans by blast

lemma not_lt_trans:
  "x \<in> V \<Longrightarrow> y \<in> V \<Longrightarrow> z \<in> V \<Longrightarrow> \<not> lt y x \<Longrightarrow> \<not> lt z y \<Longrightarrow> \<not> lt z x"
  using total trans asym by metis

end

interpretation nums: total_values num_values "js_lt E"
  by unfold_locales (auto simp: num_values_def)

interpretation strs: total_values str_values "js_lt E"
  by unfold_locales (auto simp: str_values_def)

text \<open>An environment for concrete examples.\<close>

definition demo_js :: js_env where
  "demo_js = \<lparr> numberToString = (\<lambda>n. if n = 1 then ''1'' else ''2''), stringToNumber = (\<lambda>s. None) \<rparr>"

end
