(* ===== verification/Predicates.thy ===== *)
theory Predicates
  imports JsValue
begin

text \<open>
  DataStore's storage predicates: their AST and its evaluation (\<open>validatePredicate\<close>,
  \<open>validatePredicateField\<close> of \<open>datastore/src/util.ts\<close>, \<open>isPredicateObj\<close>, \<open>isPredicateGroup\<close> of \<open>types.ts\<close>),
  the transformation of GraphQL filters to it (\<open>predicates/index.ts\<close>) and back
  (\<open>predicateToGraphQLFilter\<close> and the counting helpers of \<open>sync/utils.ts\<close>).
  An AST node is a plain object tested by the fields it has; \<open>PList\<close> is an array of nodes.
\<close>

section \<open>The AST\<close>

datatype past =
    PNode (node_field: "string option") (node_operator: "string option") (node_operand: jsval)
      (node_type: "string option") (node_predicates: "past list option")
  | PList "past list"

definition PField :: "string \<Rightarrow> string \<Rightarrow> jsval \<Rightarrow> past" where
  "PField f op v = PNode (Some f) (Some op) v None None"

definition PGroup :: "string \<Rightarrow> past list \<Rightarrow> past" where
  "PGroup ty ps = PNode None None JUndefined (Some ty) (Some ps)"

fun isPredicateObj :: "past \<Rightarrow> bool" where
  "isPredicateObj (PNode f _ _ _ _) = (f \<noteq> None)"
| "isPredicateObj (PList _) = False"

fun isPredicateGroup :: "past \<Rightarrow> bool" where
  "isPredicateGroup (PNode _ _ _ ty _) = (ty \<noteq> None)"
| "isPredicateGroup (PList _) = False"

section \<open>Evaluation\<close>

text \<open>The position of a substring, \<open>String.prototype.indexOf\<close>, is only compared with \<open>-1\<close>.\<close>

definition includes_string :: "string \<Rightarrow> string \<Rightarrow> bool" where
  "includes_string s t \<longleftrightarrow> sublist t s"

definition indexOf_found :: "js_env \<Rightarrow> jsval \<Rightarrow> jsval \<Rightarrow> js_error + bool" where
  "indexOf_found E val operand = (case val of
     JStr s \<Rightarrow> Inr (includes_string s (js_toString E operand))
   | JArr xs \<Rightarrow> Inr (list_ex (\<lambda>x. strict_eq x operand) xs)
   | _ \<Rightarrow> Inl JsTypeError)"

definition between_bounds :: "jsval \<Rightarrow> js_error + (jsval \<times> jsval)" where
  "between_bounds operand = (case operand of
     JArr xs \<Rightarrow> Inr (nth_or_undefined xs 0, nth_or_undefined xs 1)
   | JSet xs \<Rightarrow> Inr (nth_or_undefined xs 0, nth_or_undefined xs 1)
   | JStr s \<Rightarrow> Inr (nth_or_undefined (map (\<lambda>c. JStr [c]) s) 0, nth_or_undefined (map (\<lambda>c. JStr [c]) s) 1)
   | JMap kvs \<Rightarrow> Inr (nth_or_undefined (map (\<lambda>(k, v). JArr [JStr k, v]) kvs) 0,
                     nth_or_undefined (map (\<lambda>(k, v). JArr [JStr k, v]) kvs) 1)
   | _ \<Rightarrow> Inl JsTypeError)"

definition validatePredicateField :: "js_env \<Rightarrow> jsval \<Rightarrow> string \<Rightarrow> jsval \<Rightarrow> js_error + bool" where
  "validatePredicateField E val op operand =
     (if op = ''ne'' then Inr (\<not> strict_eq val operand)
      else if op = ''eq'' then Inr (strict_eq val operand)
      else if op = ''le'' then Inr (js_le E val operand)
      else if op = ''lt'' then Inr (js_lt E val operand)
      else if op = ''ge'' then Inr (js_le E operand val)
      else if op = ''gt'' then Inr (js_lt E operand val)
      else if op = ''between'' then
        (case between_bounds operand of
           Inl e \<Rightarrow> Inl e
         | Inr (mn, mx) \<Rightarrow> Inr (js_le E mn val \<and> js_le E val mx))
      else if op = ''beginsWith'' then
        (if isNullOrUndefined val then Inr False
         else (case val of JStr s \<Rightarrow> Inr (startsWith s (js_toString E operand)) | _ \<Rightarrow> Inl JsTypeError))
      else if op = ''contains'' then
        (if isNullOrUndefined val then Inr False else indexOf_found E val operand)
      else if op = ''notContains'' then
        (if isNullOrUndefined val then Inr True
         else (case indexOf_found E val operand of Inl e \<Rightarrow> Inl e | Inr b \<Rightarrow> Inr (\<not> b)))
      else Inr False)"

text \<open>
  \<open>validatePredicate\<close> with the callback of \<open>every\<close> and \<open>some\<close> (\<open>validate_one\<close>), which stop at the first
  decisive element, so that a later element's exception is not raised.
\<close>

definition negated :: "js_error + bool \<Rightarrow> js_error + bool" where
  "negated r = (case r of Inl e \<Rightarrow> Inl e | Inr b \<Rightarrow> Inr (\<not> b))"

function validatePredicate :: "js_env \<Rightarrow> model \<Rightarrow> string \<Rightarrow> past list \<Rightarrow> js_error + bool"
  and validate_every :: "js_env \<Rightarrow> model \<Rightarrow> past list \<Rightarrow> js_error + bool"
  and validate_some :: "js_env \<Rightarrow> model \<Rightarrow> past list \<Rightarrow> js_error + bool"
  and validate_one :: "js_env \<Rightarrow> model \<Rightarrow> past \<Rightarrow> js_error + bool" where
  "validatePredicate E m groupType ps =
     (if ps = [] then Inr True
      else if groupType = ''not'' then negated (validate_every E m ps)
      else if groupType = ''and'' then validate_every E m ps
      else if groupType = ''or'' then validate_some E m ps
      else Inl (JsError ''Invalid group''))"
| "validate_every E m [] = Inr True"
| "validate_every E m (p # ps) = (case validate_one E m p of
     Inl e \<Rightarrow> Inl e | Inr b \<Rightarrow> if b then validate_every E m ps else Inr False)"
| "validate_some E m [] = Inr False"
| "validate_some E m (p # ps) = (case validate_one E m p of
     Inl e \<Rightarrow> Inl e | Inr b \<Rightarrow> if b then Inr True else validate_some E m ps)"
| "validate_one E m (PNode (Some field) op operand ty preds) =
     validatePredicateField E (field_of m field) (case op of None \<Rightarrow> ''undefined'' | Some opr \<Rightarrow> opr) operand"
| "validate_one E m (PNode None op operand (Some ty) (Some preds)) = validatePredicate E m ty preds"
| "validate_one E m (PNode None op operand (Some ty) None) = Inl JsTypeError"
| "validate_one E m (PNode None op operand None preds) = Inl (JsError ''Not a predicate or group'')"
| "validate_one E m (PList ps) = Inl (JsError ''Not a predicate or group'')"
  by pat_completeness auto
termination
  by (relation "measure (\<lambda>x. case x of
        Inl (Inl (E, m, t, ps)) \<Rightarrow> 2 * size_list size ps + 1
      | Inl (Inr (E, m, ps)) \<Rightarrow> 2 * size_list size ps
      | Inr (Inl (E, m, ps)) \<Rightarrow> 2 * size_list size ps
      | Inr (Inr (E, m, p)) \<Rightarrow> 2 * size p)") auto

section \<open>GraphQL filters to ASTs\<close>

definition groupKeys :: "string list" where
  "groupKeys = [''and'', ''or'', ''not'']"

definition comparisonKeys :: "string list" where
  "comparisonKeys = [''eq'', ''ne'', ''gt'', ''lt'', ''ge'', ''le'', ''contains'', ''notContains'', ''beginsWith'', ''between'']"

text \<open>\<open>Object.keys(o).length\<close>; it throws on \<open>null\<close> and \<open>undefined\<close>.\<close>

definition keys_count :: "jsval \<Rightarrow> js_error + nat" where
  "keys_count v = (case v of
     JUndefined \<Rightarrow> Inl JsTypeError | JNull \<Rightarrow> Inl JsTypeError
   | JObj fs \<Rightarrow> Inr (length fs) | JArr xs \<Rightarrow> Inr (length xs) | JStr s \<Rightarrow> Inr (length s) | _ \<Rightarrow> Inr 0)"

fun isValid :: "jsval \<Rightarrow> js_error + bool"
  and all_valid :: "jsval list \<Rightarrow> js_error + bool" where
  "isValid (JArr xs) = all_valid xs"
| "isValid v = (case keys_count v of Inl e \<Rightarrow> Inl e | Inr n \<Rightarrow> Inr (n \<le> 1))"
| "all_valid [] = Inr True"
| "all_valid (x # xs) = (case isValid x of Inl e \<Rightarrow> Inl e | Inr b \<Rightarrow> if b then all_valid xs else Inr False)"

text \<open>\<open>{ field: k, ...sub }\<close>: a field that \<open>sub\<close> has wins; the indices an array would spread are not kept.\<close>

fun with_field :: "string \<Rightarrow> past \<Rightarrow> past" where
  "with_field k (PNode f op v ty ps) = PNode (case f of None \<Rightarrow> Some k | Some g \<Rightarrow> Some g) op v ty ps"
| "with_field k (PList xs) = PNode (Some k) None JUndefined None None"

definition children_of :: "past \<Rightarrow> past list" where
  "children_of p = (case p of PList xs \<Rightarrow> xs | _ \<Rightarrow> [p])"

definition empty_group :: past where
  "empty_group = PGroup ''and'' []"

text \<open>
  A string of one character is its own first element, so that the source recurses until the stack
  overflows.
\<close>

fun transformGraphQLFilterNodeToPredicateAST :: "jsval \<Rightarrow> js_error + past"
  and transform_all :: "jsval list \<Rightarrow> js_error + past list" where
  "transformGraphQLFilterNodeToPredicateAST (JArr xs) =
     (case isValid (JArr xs) of
        Inl e \<Rightarrow> Inl e
      | Inr b \<Rightarrow>
          if \<not> b then Inl (JsError ''Invalid GraphQL Condition or subtree'')
          else (case transform_all xs of Inl e \<Rightarrow> Inl e | Inr ps \<Rightarrow> Inr (PList ps)))"
| "transformGraphQLFilterNodeToPredicateAST (JObj []) = Inr empty_group"
| "transformGraphQLFilterNodeToPredicateAST (JObj [(k, x)]) =
     (if k \<in> set groupKeys then
        (case transformGraphQLFilterNodeToPredicateAST x of
           Inl e \<Rightarrow> Inl e | Inr c \<Rightarrow> Inr (PGroup k (children_of c)))
      else if k \<in> set comparisonKeys then Inr (PNode None (Some k) x None None)
      else (case transformGraphQLFilterNodeToPredicateAST x of
              Inl e \<Rightarrow> Inl e | Inr c \<Rightarrow> Inr (with_field k c)))"
| "transformGraphQLFilterNodeToPredicateAST (JObj (a # b # fs)) =
     Inl (JsError ''Invalid GraphQL Condition or subtree'')"
| "transformGraphQLFilterNodeToPredicateAST (JStr s) =
     (if s = [] then Inr empty_group
      else if length s = 1 then Inl JsRangeError
      else Inl (JsError ''Invalid GraphQL Condition or subtree''))"
| "transformGraphQLFilterNodeToPredicateAST JUndefined = Inl JsTypeError"
| "transformGraphQLFilterNodeToPredicateAST JNull = Inl JsTypeError"
| "transformGraphQLFilterNodeToPredicateAST v = Inr empty_group"
| "transform_all [] = Inr []"
| "transform_all (x # xs) = (case transformGraphQLFilterNodeToPredicateAST x of
     Inl e \<Rightarrow> Inl e
   | Inr p \<Rightarrow> (case transform_all xs of Inl e \<Rightarrow> Inl e | Inr ps \<Rightarrow> Inr (p # ps)))"

text \<open>The predicates DataStore builds for a primary key and for a set of equalities.\<close>

definition createFromFlatEqualities :: "(string \<times> jsval) list \<Rightarrow> js_error + past" where
  "createFromFlatEqualities eqs = transformGraphQLFilterNodeToPredicateAST
     (JObj [(''and'', JArr (map (\<lambda>(k, v). JObj [(k, JObj [(''eq'', v)])]) eqs))])"

definition createForPk :: "string list \<Rightarrow> model \<Rightarrow> js_error + past" where
  "createForPk keyFields m = transformGraphQLFilterNodeToPredicateAST
     (JObj [(''and'', JArr (map (\<lambda>(f, v). JObj [(f, JObj [(''eq'', v)])])
        (zip keyFields (map (field_of m) keyFields))))])"

section \<open>ASTs to GraphQL filters\<close>

definition key_text :: "string option \<Rightarrow> string" where
  "key_text k = (case k of None \<Rightarrow> ''undefined'' | Some s \<Rightarrow> s)"

definition isListType :: "string \<Rightarrow> bool" where
  "isListType ty \<longleftrightarrow> ty = ''and'' \<or> ty = ''or''"

definition has_list_key :: "jsval \<Rightarrow> bool" where
  "has_list_key v = (case v of JObj fs \<Rightarrow> map_of fs ''and'' \<noteq> None \<or> map_of fs ''or'' \<noteq> None | _ \<Rightarrow> False)"

text \<open>The result of \<open>predicateToGraphQLFilter\<close> once the filters of the children are collected.\<close>

definition assemble :: "string \<Rightarrow> bool \<Rightarrow> jsval list \<Rightarrow> jsval" where
  "assemble ty isRoot cs =
     (let isList = isListType ty in
      case cs of
        [c] \<Rightarrow> if isList \<and> \<not> isRoot \<or> isList \<and> isRoot \<and> has_list_key c then c
               else if isList then JObj [(ty, JArr [c])] else JObj [(ty, c)]
      | _ \<Rightarrow> if cs = [] then JObj []
             else if isList then JObj [(ty, JArr cs)] else JObj [(ty, last cs)])"

fun predicateToGraphQLFilter :: "past \<Rightarrow> string list \<Rightarrow> bool \<Rightarrow> jsval" where
  "predicateToGraphQLFilter (PList xs) omit isRoot = JObj []"
| "predicateToGraphQLFilter (PNode f op v ty None) omit isRoot = JObj []"
| "predicateToGraphQLFilter (PNode f op v ty (Some ps)) omit isRoot =
     assemble (key_text ty) isRoot (concat (map (\<lambda>p.
       if isPredicateObj p then
         (case p of
            PNode (Some field) opr operand _ _ \<Rightarrow>
              if field \<in> set omit then [] else [JObj [(field, JObj [(key_text opr, operand)])]]
          | _ \<Rightarrow> [])
       else (let child = predicateToGraphQLFilter p omit False
             in if child = JObj [] then [] else [child])) ps))"

definition predicateToGraphQLCondition :: "past \<Rightarrow> string list \<Rightarrow> jsval" where
  "predicateToGraphQLCondition p keyFields = predicateToGraphQLFilter p keyFields True"

section \<open>Inspecting an AST\<close>

text \<open>
  \<open>stack.pop\<close> takes the last element, \<open>stack.push(...xs)\<close> appends. A group without a \<open>predicates\<close> array,
  on which the spread throws, counts as an empty one.
\<close>

definition node_children :: "past \<Rightarrow> past list" where
  "node_children p = (case p of PNode _ _ _ _ (Some ps) \<Rightarrow> ps | _ \<Rightarrow> [])"

lemma node_children_size: "size_list size (node_children p) < size p"
  by (auto simp: node_children_def split: past.splits option.splits)

lemma size_list_last: "xs \<noteq> [] \<Longrightarrow> size_list f xs = size_list f (butlast xs) + Suc (f (last xs))"
  by (induction xs) auto

function filterFields_loop :: "past list \<Rightarrow> string list \<Rightarrow> string list" where
  "filterFields_loop stack found =
     (if stack = [] then found
      else let current = last stack; rest = butlast stack in
        if isPredicateObj current then
          filterFields_loop rest (case node_field current of
            Some f \<Rightarrow> (if f \<in> set found then found else found @ [f]) | None \<Rightarrow> found)
        else if isPredicateGroup current then filterFields_loop (rest @ node_children current) found
        else filterFields_loop rest found)"
  by pat_completeness auto
termination
  using node_children_size
  by (relation "measure (\<lambda>(stack, found). size_list size stack)")
     (auto simp: size_list_last less_Suc_eq_le less_imp_le)

definition filterFields :: "past \<Rightarrow> string list" where
  "filterFields g = (case g of
     PNode _ _ _ _ (Some ps) \<Rightarrow> filterFields_loop ps [] | _ \<Rightarrow> [])"

function countFilter_loop :: "past list \<Rightarrow> nat \<Rightarrow> nat" where
  "countFilter_loop stack count =
     (if stack = [] then count
      else let current = last stack; rest = butlast stack in
        if isPredicateGroup current then
          countFilter_loop (rest @ node_children current)
            (if node_type current = Some ''or'' \<and> length (node_children current) > 1
             then count + length (node_children current) else count)
        else countFilter_loop rest count)"
  by pat_completeness auto
termination
  using node_children_size
  by (relation "measure (\<lambda>(stack, count). size_list size stack)")
     (auto simp: size_list_last less_Suc_eq_le less_imp_le)

definition countFilterCombinations :: "past \<Rightarrow> nat" where
  "countFilterCombinations g = (case g of
     PNode _ _ _ _ (Some ps) \<Rightarrow>
       (let c = countFilter_loop [g] 0 in if c = 0 then 1 else c)
   | _ \<Rightarrow> 0)"

declare filterFields_loop.simps [simp del] countFilter_loop.simps [simp del]

end
