(* ===== verification/PredicatesProofs.thy ===== *)
theory PredicatesProofs
  imports Predicates
begin

text \<open>
  Correctness of the predicate code: turning a storage predicate into a GraphQL filter (with its
  flattening) and back gives a predicate with the same value on every model, exceptions included; the
  evaluator is Boolean logic; the stack loops over an AST compute what the tree says.
\<close>

section \<open>Predicates that can be written in GraphQL\<close>

text \<open>
  Comparisons over a field whose name is not an operator or a group key, non-empty \<open>and\<close> and \<open>or\<close>
  groups, and \<open>not\<close> over one predicate.
\<close>

fun well_formed :: "past \<Rightarrow> bool" where
  "well_formed (PNode (Some f) (Some op) v None None) \<longleftrightarrow>
     f \<notin> set groupKeys \<and> f \<notin> set comparisonKeys \<and> op \<in> set comparisonKeys"
| "well_formed (PNode None None v (Some ty) (Some ps)) \<longleftrightarrow> v = JUndefined \<and>
     (\<forall>p \<in> set ps. well_formed p) \<and>
     (ty = ''not'' \<and> length ps = 1 \<or> isListType ty \<and> ps \<noteq> [])"
| "well_formed _ \<longleftrightarrow> False"

lemma well_formed_PField [simp]:
  "well_formed (PField f op v) \<longleftrightarrow>
     f \<notin> set groupKeys \<and> f \<notin> set comparisonKeys \<and> op \<in> set comparisonKeys"
  by (simp add: PField_def)

lemma well_formed_PGroup [simp]:
  "well_formed (PGroup ty ps) \<longleftrightarrow> (\<forall>p \<in> set ps. well_formed p) \<and>
     (ty = ''not'' \<and> length ps = 1 \<or> isListType ty \<and> ps \<noteq> [])"
  by (simp add: PGroup_def)

lemma well_formed_induct [consumes 1, case_names field group]:
  assumes "well_formed p"
    and "\<And>f op v. well_formed (PField f op v) \<Longrightarrow> P (PField f op v)"
    and "\<And>ty ps. well_formed (PGroup ty ps) \<Longrightarrow> (\<And>p. p \<in> set ps \<Longrightarrow> P p) \<Longrightarrow> P (PGroup ty ps)"
  shows "P p"
  using assms(1)
proof (induction p rule: well_formed.induct)
  case (1 f op v)
  then show ?case using assms(2) [of f op v] by (simp add: PField_def)
next
  case (2 v ty ps)
  then have "well_formed (PGroup ty ps)" by (simp add: PGroup_def)
  then show ?case using assms(3) [of ty ps] 2 by (simp add: PGroup_def)
qed simp_all

text \<open>The filter a child contributes to its group.\<close>

definition filter_of :: "past \<Rightarrow> jsval" where
  "filter_of p = (if isPredicateObj p then JObj [(key_text (node_field p), JObj [(key_text (node_operator p), node_operand p)])]
     else predicateToGraphQLFilter p [] False)"

lemma filter_of_PField [simp]: "filter_of (PField f op v) = JObj [(f, JObj [(op, v)])]"
  by (simp add: filter_of_def PField_def key_text_def)

lemma filter_of_PGroup: "filter_of (PGroup ty ps) = predicateToGraphQLFilter (PGroup ty ps) [] False"
  by (simp add: filter_of_def PGroup_def)

lemma assemble_cases:
  assumes "cs \<noteq> []"
  shows "(\<exists>c. cs = [c] \<and> isListType ty \<and> assemble ty isRoot cs = c \<and> (isRoot \<longrightarrow> has_list_key c)) \<or>
         isListType ty \<and> assemble ty isRoot cs = JObj [(ty, JArr cs)] \<or>
         \<not> isListType ty \<and> assemble ty isRoot cs = JObj [(ty, last cs)]"
  using assms by (cases cs; cases "tl cs") (auto simp: assemble_def Let_def)

lemma filter_group:
  assumes "\<And>p. p \<in> set ps \<Longrightarrow> well_formed p" and "\<And>p. p \<in> set ps \<Longrightarrow> filter_of p \<noteq> JObj []"
  shows "predicateToGraphQLFilter (PGroup ty ps) [] isRoot = assemble ty isRoot (map filter_of ps)"
proof -
  let ?child = "\<lambda>p. if isPredicateObj p then
         (case p of
            PNode (Some field) opr operand _ _ \<Rightarrow>
              if field \<in> set [] then [] else [JObj [(field, JObj [(key_text opr, operand)])]]
          | _ \<Rightarrow> [])
       else (let child = predicateToGraphQLFilter p [] False
             in if child = JObj [] then [] else [child])"
  have "?child p = [filter_of p]" if p: "p \<in> set ps" for p
    using assms(1) [OF p] assms(2) [OF p]
    by (cases p rule: well_formed.cases) (auto simp: filter_of_def key_text_def Let_def)
  then have "map ?child ps = map (\<lambda>p. [filter_of p]) ps" by simp
  then show ?thesis by (simp only: PGroup_def predicateToGraphQLFilter.simps) (simp add: key_text_def)
qed

lemma assemble_nonempty:
  assumes "cs \<noteq> []" and "\<forall>c \<in> set cs. c \<noteq> JObj []"
  shows "assemble ty isRoot cs \<noteq> JObj []"
  using assemble_cases [OF assms(1), of ty isRoot] assms by auto

lemma filter_nonempty: "well_formed p \<Longrightarrow> filter_of p \<noteq> JObj []"
proof (induction p rule: well_formed_induct)
  case (group ty ps)
  then have "filter_of (PGroup ty ps) = assemble ty False (map filter_of ps)" "map filter_of ps \<noteq> []"
    by (auto simp: filter_of_PGroup filter_group)
  then show ?case using assemble_nonempty [of "map filter_of ps"] group by auto
qed simp

lemmas filter_wf = filter_group [OF _ filter_nonempty]

section \<open>Evaluating the transformed filter\<close>

text \<open>A predicate that is a single node and has the value of \<open>p\<close>.\<close>

definition same_value :: "past \<Rightarrow> past \<Rightarrow> bool" where
  "same_value q p \<longleftrightarrow> (\<forall>E m. validate_one E m q = validate_one E m p) \<and> (\<exists>f op v ty ps. q = PNode f op v ty ps)"

definition becomes :: "jsval \<Rightarrow> past \<Rightarrow> bool" where
  "becomes g p \<longleftrightarrow> (\<exists>k x. g = JObj [(k, x)]) \<and>
     (\<exists>q. transformGraphQLFilterNodeToPredicateAST g = Inr q \<and> same_value q p)"

lemma validate_one_group [simp]: "validate_one E m (PGroup ty ps) = validatePredicate E m ty ps"
  by (simp add: PGroup_def)

lemma validate_single:
  "validatePredicate E m ''and'' [p] = validate_one E m p"
  "validatePredicate E m ''or'' [p] = validate_one E m p"
  "validatePredicate E m ''not'' [p] = negated (validate_one E m p)"
  by (auto simp: negated_def split: sum.splits)

lemma same_value_every:
  "list_all2 same_value qs ps \<Longrightarrow> validate_every E m qs = validate_every E m ps"
  by (induction rule: list_all2_induct) (auto simp: same_value_def split: sum.splits)

lemma same_value_some:
  "list_all2 same_value qs ps \<Longrightarrow> validate_some E m qs = validate_some E m ps"
  by (induction rule: list_all2_induct) (auto simp: same_value_def split: sum.splits)

lemma same_value_group:
  "list_all2 same_value qs ps \<Longrightarrow> same_value (PGroup ty qs) (PGroup ty ps)"
  using same_value_every [of qs ps] same_value_some [of qs ps]
  by (auto simp: same_value_def PGroup_def)

lemma transform_all_becomes:
  "list_all2 becomes gs ps \<Longrightarrow> \<exists>qs. transform_all gs = Inr qs \<and> list_all2 same_value qs ps"
  by (induction rule: list_all2_induct) (fastforce simp: becomes_def)+

lemma all_valid_becomes: "list_all2 becomes gs ps \<Longrightarrow> all_valid gs = Inr True"
  by (induction rule: list_all2_induct) (auto simp: becomes_def keys_count_def)

lemma transform_group:
  assumes "list_all2 becomes gs ps" and "isListType ty"
  shows "becomes (JObj [(ty, JArr gs)]) (PGroup ty ps)"
proof -
  obtain qs where "transform_all gs = Inr qs" "list_all2 same_value qs ps"
    using transform_all_becomes [OF assms(1)] by blast
  then show ?thesis
    using all_valid_becomes [OF assms(1)] assms(2) same_value_group [of qs ps ty]
    by (auto simp: becomes_def groupKeys_def isListType_def children_of_def)
qed

lemma transform_not:
  assumes "becomes g p"
  shows "becomes (JObj [(''not'', g)]) (PGroup ''not'' [p])"
proof -
  obtain q where q: "transformGraphQLFilterNodeToPredicateAST g = Inr q" "same_value q p"
    using assms by (auto simp: becomes_def)
  then have "children_of q = [q]" by (auto simp: same_value_def children_of_def)
  then show ?thesis
    using q same_value_group [of "[q]" "[p]" "''not''"] by (auto simp: becomes_def groupKeys_def)
qed

lemma becomes_single:
  assumes "becomes g p" and "isListType ty"
  shows "becomes g (PGroup ty [p])"
proof -
  have "validate_one E m (PGroup ty [p]) = validate_one E m p" for E m
    using assms(2) validate_single [of E m p] by (auto simp: isListType_def)
  then show ?thesis using assms(1) by (simp add: becomes_def same_value_def)
qed

lemma becomes_assemble:
  assumes "list_all2 becomes cs ps" and "ty = ''not'' \<and> length ps = 1 \<or> isListType ty \<and> ps \<noteq> []"
  shows "becomes (assemble ty isRoot cs) (PGroup ty ps)"
proof -
  have ne: "cs \<noteq> []" using assms by (auto simp: isListType_def)
  from assemble_cases [OF ne, of ty isRoot] show ?thesis
  proof (elim disjE)
    assume "\<exists>c. cs = [c] \<and> isListType ty \<and> assemble ty isRoot cs = c \<and> (isRoot \<longrightarrow> has_list_key c)"
    then obtain c where c0: "cs = [c]" "isListType ty" "assemble ty isRoot cs = c" by blast
    with assms(1) obtain p where c: "cs = [c]" "isListType ty" "assemble ty isRoot cs = c" "ps = [p]" "becomes c p"
      by (cases ps) auto
    show ?thesis unfolding c(3,4) by (rule becomes_single [OF c(5,2)])
  next
    assume "isListType ty \<and> assemble ty isRoot cs = JObj [(ty, JArr cs)]"
    then show ?thesis using transform_group [OF assms(1)] by simp
  next
    assume n: "\<not> isListType ty \<and> assemble ty isRoot cs = JObj [(ty, last cs)]"
    then obtain p where "ps = [p]" "ty = ''not''" using assms(2) by (auto simp: length_Suc_conv)
    with n assms(1) show ?thesis using transform_not by (auto simp: list_all2_Cons2)
  qed
qed

lemma filter_becomes: "well_formed p \<Longrightarrow> becomes (filter_of p) p"
proof (induction p rule: well_formed_induct)
  case (field f op v)
  then have "becomes (JObj [(f, JObj [(op, v)])]) (PField f op v)"
    by (auto simp: becomes_def same_value_def groupKeys_def comparisonKeys_def PField_def)
  then show ?case by simp
next
  case (group ty ps)
  then have "list_all2 becomes (map filter_of ps) ps"
    by (auto simp: list.rel_map intro: list.rel_refl_strong)
  then show ?case
    using becomes_assemble [of "map filter_of ps" ps ty False] group by (simp add: filter_of_PGroup filter_wf)
qed

text \<open>
  C3. Sending a predicate and reading it back keeps its meaning: for a well-formed group,
  \<open>predicateToGraphQLFilter\<close>, which flattens redundant groups, gives a filter that
  \<open>transformGraphQLFilterNodeToPredicateAST\<close> accepts, and the predicate it builds has the same value as the
  original on every model, exceptions included.
\<close>

theorem filter_roundtrip:
  assumes "well_formed (PGroup ty ps)"
  shows "\<exists>q. transformGraphQLFilterNodeToPredicateAST (predicateToGraphQLFilter (PGroup ty ps) [] True) = Inr q \<and>
           (\<forall>E m. validate_one E m q = validatePredicate E m ty ps)"
proof -
  have "list_all2 becomes (map filter_of ps) ps"
    using assms filter_becomes by (auto simp: list.rel_map intro: list.rel_refl_strong)
  then have "becomes (assemble ty True (map filter_of ps)) (PGroup ty ps)"
    using assms by (intro becomes_assemble) auto
  then show ?thesis
    using assms by (auto simp: becomes_def same_value_def filter_wf)
qed

text \<open>\<open>not (or [ and [name = x], age between [32, 64] ])\<close>, whose inner \<open>and\<close> is flattened.\<close>

definition demo_predicate :: past where
  "demo_predicate = PGroup ''or'' [PGroup ''and'' [PField ''name'' ''eq'' (JStr ''Bob'')],
     PField ''age'' ''between'' (JArr [JNum 32, JNum 64])]"

theorem filter_roundtrip_witness:
  "\<exists>q. transformGraphQLFilterNodeToPredicateAST
         (predicateToGraphQLFilter (PGroup ''not'' [demo_predicate]) [] True) = Inr q \<and>
       (\<forall>E m. validate_one E m q = validatePredicate E m ''not'' [demo_predicate])"
  by (rule filter_roundtrip)
     (simp add: demo_predicate_def groupKeys_def comparisonKeys_def isListType_def)

section \<open>The evaluator is Boolean logic\<close>

text \<open>What a predicate says of a model when no comparison raises an exception; empty groups hold.\<close>

fun holds :: "js_env \<Rightarrow> model \<Rightarrow> past \<Rightarrow> bool" where
  "holds E m (PNode (Some f) op v ty ps) \<longleftrightarrow>
     validatePredicateField E (field_of m f) (key_text op) v = Inr True"
| "holds E m (PNode None op v (Some ty) (Some ps)) \<longleftrightarrow>
     ps = [] \<or> ty = ''and'' \<and> (\<forall>p \<in> set ps. holds E m p) \<or> ty = ''or'' \<and> (\<exists>p \<in> set ps. holds E m p) \<or>
     ty = ''not'' \<and> \<not> (\<forall>p \<in> set ps. holds E m p)"
| "holds E m _ \<longleftrightarrow> False"

fun no_exception :: "js_env \<Rightarrow> model \<Rightarrow> past \<Rightarrow> bool" where
  "no_exception E m (PNode (Some f) op v ty ps) \<longleftrightarrow>
     (\<exists>b. validatePredicateField E (field_of m f) (key_text op) v = Inr b)"
| "no_exception E m (PNode None op v (Some ty) (Some ps)) \<longleftrightarrow>
     ty \<in> set groupKeys \<and> (\<forall>p \<in> set ps. no_exception E m p)"
| "no_exception E m _ \<longleftrightarrow> False"

lemma every_holds:
  "\<forall>p \<in> set ps. validate_one E m p = Inr (holds E m p) \<Longrightarrow>
   validate_every E m ps = Inr (\<forall>p \<in> set ps. holds E m p)"
  by (induction ps) auto

lemma some_holds:
  "\<forall>p \<in> set ps. validate_one E m p = Inr (holds E m p) \<Longrightarrow>
   validate_some E m ps = Inr (\<exists>p \<in> set ps. holds E m p)"
  by (induction ps) auto

lemma validate_one_holds: "no_exception E m p \<Longrightarrow> validate_one E m p = Inr (holds E m p)"
proof (induction E m p rule: no_exception.induct)
  case (1 E m f op v ty ps)
  then show ?case by (cases op) (auto simp: key_text_def)
next
  case (2 E m op v ty ps)
  then have "\<forall>p \<in> set ps. validate_one E m p = Inr (holds E m p)" by simp
  then show ?case
    using 2 every_holds [of ps E m] some_holds [of ps E m] by (auto simp: groupKeys_def negated_def)
qed simp_all

text \<open>
  \<open>validatePredicate\<close> decides what the predicate says: a group whose comparisons raise no exception on
  the model evaluates to the conjunction, the disjunction or the negated conjunction of its members (an
  empty group of any type holds).
\<close>

theorem validatePredicate_holds:
  assumes "no_exception E m (PGroup ty ps)"
  shows "validatePredicate E m ty ps = Inr (holds E m (PGroup ty ps))"
  using validate_one_holds [OF assms] by simp

theorem validatePredicate_holds_witness:
  "validatePredicate demo_js [(''name'', JStr ''Ann''), (''age'', JNum 40)] ''not'' [demo_predicate] = Inr False"
proof -
  let ?m = "[(''name'', JStr ''Ann''), (''age'', JNum 40)]"
  have "no_exception demo_js ?m (PGroup ''not'' [demo_predicate])"
    by (simp add: demo_predicate_def PGroup_def PField_def groupKeys_def key_text_def field_of_def
        validatePredicateField_def between_bounds_def)
  from validatePredicate_holds [OF this] show ?thesis
    by (simp add: demo_predicate_def PGroup_def PField_def key_text_def field_of_def
        validatePredicateField_def between_bounds_def nth_or_undefined_def)
qed

text \<open>
  The operators fit together: \<open>ne\<close> and \<open>notContains\<close> negate \<open>eq\<close> and \<open>contains\<close> on every value; on two
  numbers or two strings \<open>gt\<close> negates \<open>le\<close>, \<open>lt\<close> negates \<open>ge\<close> and \<open>between\<close> is \<open>ge\<close> and \<open>le\<close>; a field that is
  missing satisfies none of the four inequalities, whatever the operand.
\<close>

theorem comparison_operators:
  assumes "v \<in> num_values \<and> w \<in> num_values \<and> u \<in> num_values \<or> v \<in> str_values \<and> w \<in> str_values \<and> u \<in> str_values"
  shows "validatePredicateField E x ''ne'' y = negated (validatePredicateField E x ''eq'' y) \<and>
         validatePredicateField E x ''notContains'' y = negated (validatePredicateField E x ''contains'' y) \<and>
         validatePredicateField E v ''gt'' w = negated (validatePredicateField E v ''le'' w) \<and>
         validatePredicateField E v ''lt'' w = negated (validatePredicateField E v ''ge'' w) \<and>
         validatePredicateField E v ''between'' (JArr [w, u]) =
           Inr (validatePredicateField E v ''ge'' w = Inr True \<and> validatePredicateField E v ''le'' u = Inr True) \<and>
         (\<forall>op \<in> {''le'', ''lt'', ''ge'', ''gt''}. validatePredicateField E JUndefined op y = Inr False)"
proof -
  have u: "\<not> js_le E JUndefined y" "\<not> js_le E y JUndefined"
    by (auto simp: js_le_def relational_def to_primitive_def split: jsval.splits option.splits)
  show ?thesis using assms u
    by (auto simp: validatePredicateField_def negated_def num_values_def str_values_def between_bounds_def
        nth_or_undefined_def split: sum.splits)
qed

theorem comparison_operators_witness:
  "validatePredicateField demo_js (JStr ''b'') ''gt'' (JStr ''a'') =
     negated (validatePredicateField demo_js (JStr ''b'') ''le'' (JStr ''a''))"
  using comparison_operators [of "JStr ''b''" "JStr ''a''" "JStr ''a''" demo_js] by (simp add: str_values_def)

section \<open>Inspecting an AST\<close>

fun tree_fields :: "past \<Rightarrow> string set" where
  "tree_fields (PNode (Some f) _ _ _ _) = {f}"
| "tree_fields (PNode None _ _ (Some ty) (Some ps)) = \<Union> (tree_fields ` set ps)"
| "tree_fields _ = {}"

fun or_width :: "past \<Rightarrow> nat" where
  "or_width (PNode f op v (Some ty) (Some ps)) =
     (if ty = ''or'' \<and> length ps > 1 then length ps else 0) + sum_list (map or_width ps)"
| "or_width _ = 0"

lemma stack_split: "xs \<noteq> [] \<Longrightarrow> f ` set xs = insert (f (last xs)) (f ` set (butlast xs))"
  by (cases xs rule: rev_cases) auto

lemma sum_list_stack: "xs \<noteq> [] \<Longrightarrow> sum_list (map f xs) = sum_list (map f (butlast xs)) + (f (last xs) :: nat)"
  by (cases xs rule: rev_cases) auto

lemma filterFields_loop_spec:
  "set (filterFields_loop stack found) = set found \<union> \<Union> (tree_fields ` set stack)"
proof (induction stack found rule: filterFields_loop.induct)
  case (1 stack found)
  show ?case
  proof (cases "stack = []")
    case False
    have "tree_fields (last stack) =
        (if isPredicateObj (last stack) then {the (node_field (last stack))}
         else if isPredicateGroup (last stack) then \<Union> (tree_fields ` set (node_children (last stack))) else {})"
      by (cases "last stack" rule: tree_fields.cases) (auto simp: node_children_def)
    moreover have "isPredicateObj (last stack) \<Longrightarrow> \<exists>f. node_field (last stack) = Some f"
      by (cases "last stack") auto
    ultimately show ?thesis
      using False 1 stack_split [OF False, of tree_fields]
      by (subst filterFields_loop.simps) (auto simp: Let_def split: if_splits)
  qed (simp add: filterFields_loop.simps)
qed

lemma countFilter_loop_spec: "countFilter_loop stack count = count + sum_list (map or_width stack)"
proof (induction stack count rule: countFilter_loop.induct)
  case (1 stack count)
  show ?case
  proof (cases "stack = []")
    case False
    have "or_width (last stack) = (if isPredicateGroup (last stack)
        then (if node_type (last stack) = Some ''or'' \<and> length (node_children (last stack)) > 1
              then length (node_children (last stack)) else 0) +
             sum_list (map or_width (node_children (last stack))) else 0)"
      by (cases "last stack" rule: or_width.cases) (auto simp: node_children_def)
    with False 1 sum_list_stack [OF False, of or_width] show ?thesis
      by (subst countFilter_loop.simps) (auto simp: Let_def)
  qed (simp add: countFilter_loop.simps)
qed

text \<open>
  The stack loops visit the whole tree once: \<open>filterFields\<close> returns exactly the fields compared
  anywhere in the group and \<open>countFilterCombinations\<close> the total width of the \<open>or\<close> groups with more than
  one member, or 1 when there is none.
\<close>

theorem filter_inspection:
  "set (filterFields (PGroup ty ps)) = \<Union> (tree_fields ` set ps) \<and>
   countFilterCombinations (PGroup ty ps) = max 1 (or_width (PGroup ty ps))"
proof -
  have "countFilterCombinations (PGroup ty ps) =
      (if or_width (PGroup ty ps) = 0 then 1 else or_width (PGroup ty ps))"
    by (simp only: PGroup_def countFilterCombinations_def countFilter_loop_spec past.case option.case Let_def)
      simp
  then show ?thesis by (simp add: filterFields_def filterFields_loop_spec PGroup_def max_def del: or_width.simps)
qed

end
