(* ===== verification/DataStoreUtil.thy ===== *)
theory DataStoreUtil
  imports JsValue "HOL-Library.Word"
begin

text \<open>
  Value comparison, sorting, pagination, hexadecimal decoding and the asynchronous list helpers of
  \<open>datastore/src/util.ts\<close>.
\<close>

section \<open>Deep comparison\<close>

text \<open>The own enumerable entries of an object that is not an array; a \<open>Set\<close> or a \<open>Map\<close> has none.\<close>

fun plain_entries :: "jsval \<Rightarrow> (string \<times> jsval) list" where
  "plain_entries (JObj fs) = fs"
| "plain_entries _ = []"

definition is_array :: "jsval \<Rightarrow> bool" where
  "is_array v \<longleftrightarrow> (case v of JArr _ \<Rightarrow> True | _ \<Rightarrow> False)"

definition nullishCompare :: "jsval \<Rightarrow> jsval \<Rightarrow> bool" where
  "nullishCompare a b \<longleftrightarrow> isNullOrUndefined a \<and> isNullOrUndefined b"

text \<open>
  Two arrays are compared by position, and so are two sets, which become arrays; two maps become
  objects. A \<open>Set\<close> or \<open>Map\<close> against another kind of object stays as it is, without entries.
\<close>

definition array_pair :: "jsval \<Rightarrow> jsval \<Rightarrow> (jsval list \<times> jsval list) option" where
  "array_pair a b = (case (a, b) of
     (JArr xs, JArr ys) \<Rightarrow> Some (xs, ys) | (JSet xs, JSet ys) \<Rightarrow> Some (xs, ys) | _ \<Rightarrow> None)"

definition entry_pair :: "jsval \<Rightarrow> jsval \<Rightarrow> (string \<times> jsval) list \<times> (string \<times> jsval) list" where
  "entry_pair a b = (case (a, b) of
     (JMap m, JMap n) \<Rightarrow> (m, n) | _ \<Rightarrow> (plain_entries a, plain_entries b))"

lemma size_field_of: "size (field_of fs k) \<le> size_list (size_prod (\<lambda>_. 0) size) fs"
  by (induction fs) (auto simp: field_of_def)

lemma size_entry_pair:
  assumes "is_object a" and "is_object b" and "entry_pair a b = (fs, gs)"
  shows "size (field_of fs k) + size (field_of gs k) < size a + size b"
proof -
  have n: "size (field_of [] k) = 0" by (simp add: field_of_def)
  have "size (field_of fs k) < size a" "size (field_of gs k) < size b"
    using assms size_field_of [of fs k] size_field_of [of gs k] n
    by (cases a; cases b; auto simp: entry_pair_def)+
  then show ?thesis by simp
qed

lemma size_array_pair:
  assumes "array_pair a b = Some (xs, ys)" and "(x, y) \<in> set (zip xs ys)"
  shows "size x + size y < size a + size b"
proof -
  have "x \<in> set xs" "y \<in> set ys" using assms(2) by (auto dest: set_zip_leftD set_zip_rightD)
  then have "size x < size_list size xs" "size y < size_list size ys"
    by (auto dest: split_list simp: add.commute)
  then show ?thesis using assms(1) by (auto simp: array_pair_def split: jsval.splits)
qed

function valuesEqual :: "bool \<Rightarrow> jsval \<Rightarrow> jsval \<Rightarrow> bool" where
  "valuesEqual nullish a b =
     (if is_object a \<noteq> is_object b then False
      else if \<not> is_object a then (if nullish \<and> nullishCompare a b then True else strict_eq a b)
      else if is_array a \<noteq> is_array b then False
      else (case array_pair a b of
        Some (xs, ys) \<Rightarrow>
          length xs = length ys \<and> (\<forall>(x, y) \<in> set (zip xs ys). valuesEqual nullish x y)
      | None \<Rightarrow>
        (case entry_pair a b of (fs, gs) \<Rightarrow>
          (length fs = length gs \<or> nullish) \<and>
          (\<forall>k \<in> set (map fst (if length fs \<ge> length gs then fs else gs)).
             valuesEqual nullish (field_of fs k) (field_of gs k)))))"
  by pat_completeness auto
termination
  by (relation "measure (\<lambda>(n, a, b). size a + size b)")
     (auto intro: size_array_pair size_entry_pair [OF _ _ sym])

declare valuesEqual.simps [simp del]

definition directedValueEquality :: "model \<Rightarrow> model \<Rightarrow> bool \<Rightarrow> bool" where
  "directedValueEquality fromObject againstObject nullish \<longleftrightarrow>
     list_all (\<lambda>k. valuesEqual nullish (field_of fromObject k) (field_of againstObject k)) (map fst fromObject)"

section \<open>Sorting and pagination\<close>

datatype sort_direction = ASCENDING | DESCENDING

type_synonym sort_predicates = "(string \<times> sort_direction) list"

fun sortCompareFunction :: "js_env \<Rightarrow> sort_predicates \<Rightarrow> model \<Rightarrow> model \<Rightarrow> int" where
  "sortCompareFunction E [] a b = 0"
| "sortCompareFunction E ((field, dir) # ps) a b =
     (let sortMultiplier = (if dir = ASCENDING then 1 else -1)
      in if js_lt E (field_of a field) (field_of b field) then -1 * sortMultiplier
         else if js_lt E (field_of b field) (field_of a field) then 1 * sortMultiplier
         else sortCompareFunction E ps a b)"

text \<open>\<open>Array.prototype.sort\<close> is stable: insertion that puts an element before the first one not below it.\<close>

fun js_insert :: "('a \<Rightarrow> 'a \<Rightarrow> int) \<Rightarrow> 'a \<Rightarrow> 'a list \<Rightarrow> 'a list" where
  "js_insert cmp x [] = [x]"
| "js_insert cmp x (y # ys) = (if cmp x y \<le> 0 then x # y # ys else y # js_insert cmp x ys)"

definition js_sort :: "('a \<Rightarrow> 'a \<Rightarrow> int) \<Rightarrow> 'a list \<Rightarrow> 'a list" where
  "js_sort cmp xs = foldr (js_insert cmp) xs []"

record pagination =
  pg_sort :: "sort_predicates option"
  pg_page :: "int option"
  pg_limit :: "int option"

definition or_zero :: "int option \<Rightarrow> int" where
  "or_zero n = (case n of None \<Rightarrow> 0 | Some i \<Rightarrow> i)"

definition inMemoryPagination :: "js_env \<Rightarrow> model list \<Rightarrow> pagination option \<Rightarrow> model list" where
  "inMemoryPagination E records pagination =
     (case pagination of
        None \<Rightarrow> records
      | Some pg \<Rightarrow>
          if length records > 1 then
            let sorted = (case pg_sort pg of
                   None \<Rightarrow> records
                 | Some sps \<Rightarrow> if sps = [] then records else js_sort (sortCompareFunction E sps) records);
                limit = or_zero (pg_limit pg);
                start = max 0 (or_zero (pg_page pg) * limit);
                stop = (if limit > 0 then start + limit else int (length sorted))
            in take (nat (stop - start)) (drop (nat start) sorted)
          else records)"

section \<open>Hexadecimal\<close>

definition hex_digits :: string where
  "hex_digits = ''0123456789abcdef''"

text \<open>\<open>i.toString(16)\<close> padded to two digits, for \<open>i\<close> below 256.\<close>

definition encodedByte :: "nat \<Rightarrow> string" where
  "encodedByte i = [hex_digits ! (i div 16), hex_digits ! (i mod 16)]"

definition HEX_TO_SHORT :: "(string \<times> nat) list" where
  "HEX_TO_SHORT = map (\<lambda>i. (encodedByte i, i)) [0..<256]"

definition to_lower :: "char \<Rightarrow> char" where
  "to_lower c = (if CHR ''A'' \<le> c \<and> c \<le> CHR ''Z'' then char_of (of_char c + 32 :: nat) else c)"

fun getBytes_loop :: "string \<Rightarrow> js_error + 8 word list" where
  "getBytes_loop [] = Inr []"
| "getBytes_loop [c] = Inl (JsError ''Cannot decode'')"
| "getBytes_loop (a # b # s) =
     (case map_of HEX_TO_SHORT (map to_lower [a, b]) of
        None \<Rightarrow> Inl (JsError ''Cannot decode'')
      | Some n \<Rightarrow> (case getBytes_loop s of Inl e \<Rightarrow> Inl e | Inr ws \<Rightarrow> Inr (of_nat n # ws)))"

definition getBytesFromHex :: "string \<Rightarrow> js_error + 8 word list" where
  "getBytesFromHex encoded =
     (if length encoded mod 2 \<noteq> 0 then Inl (JsError ''Hex encoded strings must have an even number length'')
      else getBytes_loop encoded)"

section \<open>Asynchronous list helpers\<close>

fun asyncSome :: "'i list \<Rightarrow> ('i \<Rightarrow> ('s, 'e, bool) amethod) \<Rightarrow> ('s, 'e, bool) amethod" where
  "asyncSome [] matches = mreturn False"
| "asyncSome (item # items) matches =
     mbind (matches item) (\<lambda>b. if b then mreturn True else asyncSome items matches)"

fun asyncEvery :: "'i list \<Rightarrow> ('i \<Rightarrow> ('s, 'e, bool) amethod) \<Rightarrow> ('s, 'e, bool) amethod" where
  "asyncEvery [] matches = mreturn True"
| "asyncEvery (item # items) matches =
     mbind (matches item) (\<lambda>b. if b then asyncEvery items matches else mreturn False)"

fun asyncFilter_loop ::
  "'i list \<Rightarrow> ('i \<Rightarrow> ('s, 'e, bool) amethod) \<Rightarrow> 'i list \<Rightarrow> ('s, 'e, 'i list) amethod" where
  "asyncFilter_loop [] matches results = mreturn results"
| "asyncFilter_loop (item # items) matches results =
     mbind (matches item) (\<lambda>b. asyncFilter_loop items matches (if b then results @ [item] else results))"

definition asyncFilter :: "'i list \<Rightarrow> ('i \<Rightarrow> ('s, 'e, bool) amethod) \<Rightarrow> ('s, 'e, 'i list) amethod" where
  "asyncFilter items matches = asyncFilter_loop items matches []"

end
