(* ===== verification/DataStoreUtilProofs.thy ===== *)
theory DataStoreUtilProofs
  imports DataStoreUtil "HOL-Library.Multiset"
begin

text \<open>
  Pages partition the stably sorted records; on plain data deep comparison is an equivalence; hexadecimal
  decoding inverts encoding; the asynchronous helpers stop where the source stops.
\<close>

section \<open>Stable sorting\<close>

locale comparator =
  fixes cmp :: "'a \<Rightarrow> 'a \<Rightarrow> int" and A :: "'a set"
  assumes antisym: "a \<in> A \<Longrightarrow> b \<in> A \<Longrightarrow> cmp b a = - cmp a b"
    and le_trans: "a \<in> A \<Longrightarrow> b \<in> A \<Longrightarrow> c \<in> A \<Longrightarrow> cmp a b \<le> 0 \<Longrightarrow> cmp b c \<le> 0 \<Longrightarrow> cmp a c \<le> 0"
begin

lemma refl: "a \<in> A \<Longrightarrow> cmp a a = 0"
  using antisym [of a a] by simp

lemma set_insert: "set (js_insert cmp x xs) = insert x (set xs)"
  by (induction xs) auto

lemma mset_insert: "mset (js_insert cmp x xs) = add_mset x (mset xs)"
  by (induction xs) auto

lemma sorted_insert:
  "x \<in> A \<Longrightarrow> set xs \<subseteq> A \<Longrightarrow> sorted_wrt (\<lambda>a b. cmp a b \<le> 0) xs \<Longrightarrow>
   sorted_wrt (\<lambda>a b. cmp a b \<le> 0) (js_insert cmp x xs)"
proof (induction xs)
  case (Cons y ys)
  show ?case
  proof (cases "cmp x y \<le> 0")
    case True
    then have "\<forall>z \<in> set ys. cmp x z \<le> 0" using Cons.prems le_trans [of x y] by auto
    with True Cons.prems show ?thesis by auto
  next
    case False
    then have "cmp y x \<le> 0" using antisym [of x y] Cons.prems by simp
    with False Cons show ?thesis by (auto simp: set_insert)
  qed
qed simp

text \<open>Elements that compare equal keep their order.\<close>

lemma stable_insert:
  "x \<in> A \<Longrightarrow> a \<in> A \<Longrightarrow> set xs \<subseteq> A \<Longrightarrow>
   filter (\<lambda>y. cmp a y = 0) (js_insert cmp x xs) = filter (\<lambda>y. cmp a y = 0) (x # xs)"
proof (induction xs)
  case (Cons y ys)
  show ?case
  proof (cases "cmp x y \<le> 0")
    case False
    have "\<not> (cmp a x = 0 \<and> cmp a y = 0)"
    proof
      assume e: "cmp a x = 0 \<and> cmp a y = 0"
      then have "cmp x a = 0" using antisym [of a x] Cons.prems by simp
      then have "cmp x y \<le> 0" using le_trans [of x a y] e Cons.prems by simp
      with False show False by simp
    qed
    with False Cons show ?thesis by auto
  qed simp
qed simp

lemma sort_spec:
  "set xs \<subseteq> A \<Longrightarrow> mset (js_sort cmp xs) = mset xs \<and> sorted_wrt (\<lambda>a b. cmp a b \<le> 0) (js_sort cmp xs) \<and>
   (\<forall>a \<in> A. filter (\<lambda>y. cmp a y = 0) (js_sort cmp xs) = filter (\<lambda>y. cmp a y = 0) xs)"
proof (induction xs)
  case Nil
  then show ?case by (simp add: js_sort_def)
next
  case (Cons x xs)
  have s: "js_sort cmp (x # xs) = js_insert cmp x (js_sort cmp xs)" by (simp add: js_sort_def)
  have m: "set (js_sort cmp xs) \<subseteq> A" using Cons by (metis mset_eq_setD set_subset_Cons subset_trans)
  show ?case
    using Cons m by (auto simp: s mset_insert sorted_insert stable_insert)
qed

end

text \<open>Records whose sort fields hold numbers only or strings only, as \<open>K\<close> says for each field.\<close>

definition kinded :: "(string \<Rightarrow> jsval set) \<Rightarrow> sort_predicates \<Rightarrow> bool" where
  "kinded K ps \<longleftrightarrow> (\<forall>(f, d) \<in> set ps. K f = num_values \<or> K f = str_values)"

definition sortable :: "(string \<Rightarrow> jsval set) \<Rightarrow> sort_predicates \<Rightarrow> model set" where
  "sortable K ps = {m. kinded K ps \<and> (\<forall>(f, d) \<in> set ps. field_of m f \<in> K f)}"

lemma kind_order:
  assumes "K = num_values \<or> K = str_values"
  shows "total_values K (js_lt E)"
  using assms nums.total_values_axioms strs.total_values_axioms by auto

lemma compare_antisym:
  assumes "a \<in> sortable K ps" and "b \<in> sortable K ps"
  shows "sortCompareFunction E ps b a = - sortCompareFunction E ps a b"
  using assms
proof (induction ps)
  case (Cons p ps)
  obtain f d where p: "p = (f, d)" by fastforce
  have t: "total_values (K f) (js_lt E)"
    using Cons.prems p by (intro kind_order) (auto simp: sortable_def kinded_def)
  have "sortCompareFunction E ps b a = - sortCompareFunction E ps a b"
    using Cons by (auto simp: kinded_def sortable_def)
  moreover have "field_of a f \<in> K f" "field_of b f \<in> K f"
    using Cons.prems p by (auto simp: sortable_def)
  ultimately show ?case
    using total_values.asym [OF t] p by (auto simp: Let_def)
qed simp

lemma compare_trans:
  assumes "a \<in> sortable K ps" and "b \<in> sortable K ps" and "c \<in> sortable K ps"
    and "sortCompareFunction E ps a b \<le> 0" and "sortCompareFunction E ps b c \<le> 0"
  shows "sortCompareFunction E ps a c \<le> 0"
  using assms
proof (induction ps)
  case (Cons p ps)
  obtain f d where p: "p = (f, d)" by fastforce
  define x where "x = field_of a f"
  define y where "y = field_of b f"
  define z where "z = field_of c f"
  have t: "total_values (K f) (js_lt E)"
    using Cons.prems p by (intro kind_order) (auto simp: sortable_def kinded_def)
  have v: "x \<in> K f" "y \<in> K f" "z \<in> K f"
    using Cons.prems p by (auto simp: sortable_def x_def y_def z_def)
  have IH: "sortCompareFunction E ps a b \<le> 0 \<Longrightarrow> sortCompareFunction E ps b c \<le> 0 \<Longrightarrow>
      sortCompareFunction E ps a c \<le> 0"
    using Cons by (auto simp: kinded_def sortable_def)
  note o = total_values.asym [OF t] total_values.total [OF t] total_values.trans [OF t]
    total_values.irrefl [OF t]
  have c: "sortCompareFunction E (p # ps) a b = (let s = (if d = ASCENDING then 1 else -1) in
      if js_lt E x y then - s else if js_lt E y x then s else sortCompareFunction E ps a b)"
    "sortCompareFunction E (p # ps) b c = (let s = (if d = ASCENDING then 1 else -1) in
      if js_lt E y z then - s else if js_lt E z y then s else sortCompareFunction E ps b c)"
    "sortCompareFunction E (p # ps) a c = (let s = (if d = ASCENDING then 1 else -1) in
      if js_lt E x z then - s else if js_lt E z x then s else sortCompareFunction E ps a c)"
    by (simp_all add: p x_def y_def z_def Let_def)
  show ?case
    using Cons.prems(4,5) IH unfolding c Let_def
    by (cases d) (simp_all split: if_splits; (metis o v))+
qed simp

interpretation records: comparator "sortCompareFunction E ps" "sortable K ps"
  by unfold_locales (use compare_antisym compare_trans in blast)+

section \<open>Pagination\<close>

lemma pages_partition:
  "concat (map (\<lambda>p. take l (drop (p * l) xs)) [0..<n]) = take (n * l) xs"
proof (induction n)
  case (Suc n)
  have "take (n * l) xs @ take l (drop (n * l) xs) = take (n * l + l) xs"
    by (rule take_add [symmetric])
  with Suc show ?case by (simp add: add.commute)
qed simp

definition page_of :: "js_env \<Rightarrow> model list \<Rightarrow> sort_predicates \<Rightarrow> nat \<Rightarrow> nat \<Rightarrow> model list" where
  "page_of E records sps limit page =
     inMemoryPagination E records (Some \<lparr>pg_sort = Some sps, pg_page = Some (int page), pg_limit = Some (int limit)\<rparr>)"

lemma page_of_eq:
  assumes "length records > 1" and "limit > 0" and "sps \<noteq> []"
  shows "page_of E records sps limit page =
    take limit (drop (page * limit) (js_sort (sortCompareFunction E sps) records))"
  using assms by (simp add: page_of_def inMemoryPagination_def Let_def or_zero_def flip: of_nat_mult)

text \<open>
  Pages of a sorted query: on two or more records whose sort fields hold values of one kind each, the
  pages in order are disjoint consecutive pieces of one list, which is a permutation of the records,
  sorted by the comparator, with records that compare equal in their original order. With fewer
  than two records the paging is ignored and every page is the whole result.
\<close>

theorem pagination_spec:
  assumes "set records \<subseteq> sortable K sps" and "sps \<noteq> []" and "limit > 0"
  shows "(length records > 1 \<longrightarrow> (\<exists>sorted.
           (\<forall>n. concat (map (page_of E records sps limit) [0..<n]) = take (n * limit) sorted) \<and>
           mset sorted = mset records \<and> sorted_wrt (\<lambda>a b. sortCompareFunction E sps a b \<le> 0) sorted \<and>
           (\<forall>a \<in> set records. filter (\<lambda>b. sortCompareFunction E sps a b = 0) sorted =
                             filter (\<lambda>b. sortCompareFunction E sps a b = 0) records))) \<and>
         (length records \<le> 1 \<longrightarrow> (\<forall>page. page_of E records sps limit page = records))"
proof (intro conjI impI)
  let ?sorted = "js_sort (sortCompareFunction E sps) records"
  assume "length records > 1"
  then have "map (page_of E records sps limit) [0..<n] =
      map (\<lambda>p. take limit (drop (p * limit) ?sorted)) [0..<n]" for n
    using assms by (simp add: page_of_eq)
  then have "concat (map (page_of E records sps limit) [0..<n]) = take (n * limit) ?sorted" for n
    by (simp only: pages_partition)
  moreover note records.sort_spec [OF assms(1), of E]
  ultimately show "\<exists>sorted.
           (\<forall>n. concat (map (page_of E records sps limit) [0..<n]) = take (n * limit) sorted) \<and>
           mset sorted = mset records \<and> sorted_wrt (\<lambda>a b. sortCompareFunction E sps a b \<le> 0) sorted \<and>
           (\<forall>a \<in> set records. filter (\<lambda>b. sortCompareFunction E sps a b = 0) sorted =
                             filter (\<lambda>b. sortCompareFunction E sps a b = 0) records)"
    using assms(1) by (intro exI [of _ ?sorted]) auto
next
  assume "length records \<le> 1"
  then show "\<forall>page. page_of E records sps limit page = records"
    by (simp add: page_of_def inMemoryPagination_def)
qed

theorem pagination_spec_witness:
  "\<exists>sorted. concat (map (page_of demo_js [[(''a'', JNum 2)], [(''a'', JNum 1)]] [(''a'', ASCENDING)] 1) [0..<2])
       = take 2 sorted \<and> mset sorted = mset [[(''a'', JNum 2)], [(''a'', JNum 1)]]"
proof -
  have "set [[(''a'', JNum 2)], [(''a'', JNum 1)]] \<subseteq> sortable (\<lambda>_. num_values) [(''a'', ASCENDING)]"
    by (simp add: sortable_def kinded_def num_values_def field_of_def)
  from pagination_spec [OF this, of 1 demo_js, THEN conjunct1]
  obtain sorted where "\<forall>n. concat (map (page_of demo_js [[(''a'', JNum 2)], [(''a'', JNum 1)]] [(''a'', ASCENDING)] 1) [0..<n])
       = take (n * 1) sorted" "mset sorted = mset [[(''a'', JNum 2)], [(''a'', JNum 1)]]"
    by auto
  then show ?thesis by (intro exI [of _ sorted]) (metis mult.right_neutral)
qed

section \<open>Deep comparison\<close>

text \<open>
  Plain data: no \<open>undefined\<close> anywhere, objects with distinct keys, no sets or maps. Its canonical form
  has every object's keys in order.
\<close>

fun plain :: "jsval \<Rightarrow> bool" where
  "plain (JArr xs) \<longleftrightarrow> (\<forall>x \<in> set xs. plain x)"
| "plain (JObj fs) \<longleftrightarrow> okeys fs \<and> (\<forall>(k, v) \<in> set fs. plain v)"
| "plain (JSet _) \<longleftrightarrow> False"
| "plain (JMap _) \<longleftrightarrow> False"
| "plain JUndefined \<longleftrightarrow> False"
| "plain _ \<longleftrightarrow> True"

fun canon :: "jsval \<Rightarrow> jsval" where
  "canon (JArr xs) = JArr (map canon xs)"
| "canon (JObj fs) = JObj (sort_key fst (map (\<lambda>(k, v). (k, canon v)) fs))"
| "canon v = v"

lemma inj_on_fst: "okeys xs \<Longrightarrow> inj_on fst (set xs)"
  by (simp add: okeys_def distinct_map)

lemma sort_key_fst_eq:
  fixes xs ys :: "(string \<times> 'a) list"
  assumes "okeys xs" and "okeys ys"
  shows "sort_key fst xs = sort_key fst ys \<longleftrightarrow> set xs = set ys"
proof
  assume "set xs = set ys"
  moreover have "distinct xs" "distinct ys" using assms by (auto simp: okeys_def distinct_map)
  ultimately have "mset xs = mset (sort_key fst ys)" by (simp add: set_eq_iff_mset_eq_distinct)
  then show "sort_key fst xs = sort_key fst ys"
    by (rule sort_key_inj_key_eq) (simp_all add: inj_on_fst assms)
qed (metis set_sort)

lemma okeys_map_snd: "okeys (map (\<lambda>(k, v). (k, f v)) xs) \<longleftrightarrow> okeys xs"
proof -
  have "map fst (map (\<lambda>(k, v). (k, f v)) xs) = map fst xs" by auto
  then show ?thesis unfolding okeys_def by argo
qed

lemma image_graph_eq:
  "(\<lambda>k. (k, F k)) ` A = (\<lambda>k. (k, G k)) ` B \<longleftrightarrow> A = B \<and> (\<forall>k \<in> A. F k = G k)"
  by (auto simp: set_eq_iff image_iff; metis)

lemma set_map_snd_eq:
  assumes "okeys xs" and "okeys ys"
  shows "set (map (\<lambda>(k, v). (k, f v)) xs) = set (map (\<lambda>(k, v). (k, f v)) ys) \<longleftrightarrow>
    fst ` set xs = fst ` set ys \<and> (\<forall>k \<in> fst ` set xs. f (the (map_of xs k)) = f (the (map_of ys k)))"
proof -
  have g: "set (map (\<lambda>(k, v). (k, f v)) zs) = (\<lambda>k. (k, f (the (map_of zs k)))) ` fst ` set zs"
    if "okeys zs" for zs :: "('a \<times> 'b) list"
    using that by (force simp: okeys_def image_iff)
  show ?thesis unfolding g [OF assms(1)] g [OF assms(2)] by (rule image_graph_eq)
qed

lemma canon_object: "is_object (canon v) = is_object v" "is_array (canon v) = is_array v"
  by (cases v; simp add: is_array_def)+

lemma valuesEqual_undefined [simp]: "valuesEqual False v JUndefined \<longleftrightarrow> v = JUndefined"
  by (cases v) (auto simp: valuesEqual.simps [of False] strict_eq_def)

lemma field_of_mem: "okeys fs \<Longrightarrow> k \<in> fst ` set fs \<Longrightarrow> (k, field_of fs k) \<in> set fs"
  by (auto simp: field_of_def okeys_def split: option.splits)

lemma field_of_the: "k \<in> fst ` set fs \<Longrightarrow> field_of fs k = the (map_of fs k)"
  by (force simp: field_of_def dest: map_of_eq_None_iff [THEN iffD1] split: option.splits)

lemma okeys_card: "okeys fs \<Longrightarrow> card (fst ` set fs) = length fs"
  by (metis distinct_card length_map list.set_map okeys_def)

lemma plain_field: "plain (JObj fs) \<Longrightarrow> k \<in> fst ` set fs \<Longrightarrow> plain (field_of fs k)"
  using field_of_mem [of fs k] by auto

lemma valuesEqual_objects:
  assumes "plain (JObj fs)" and "plain (JObj gs)"
  shows "valuesEqual False (JObj fs) (JObj gs) \<longleftrightarrow> fst ` set fs = fst ` set gs \<and>
    (\<forall>k \<in> fst ` set fs. valuesEqual False (field_of fs k) (field_of gs k))"
proof -
  have *: "valuesEqual False (JObj fs) (JObj gs) \<longleftrightarrow> length fs = length gs \<and>
      (\<forall>k \<in> fst ` set fs. valuesEqual False (field_of fs k) (field_of gs k))"
    by (subst valuesEqual.simps) (auto simp: is_array_def array_pair_def entry_pair_def)
  have "fst ` set fs = fst ` set gs"
    if l: "length fs = length gs" and e: "\<forall>k \<in> fst ` set fs. valuesEqual False (field_of fs k) (field_of gs k)"
  proof (rule card_subset_eq)
    show "fst ` set fs \<subseteq> fst ` set gs"
    proof
      fix k assume k: "k \<in> fst ` set fs"
      then have "plain (field_of fs k)" using assms(1) plain_field by blast
      then have "field_of gs k \<noteq> JUndefined" using e k by force
      then show "k \<in> fst ` set gs"
        by (metis field_of_def map_of_eq_None_iff option.simps(4))
    qed
    show "card (fst ` set fs) = card (fst ` set gs)" using l assms by (simp add: okeys_card)
  qed simp
  moreover have "fst ` set fs = fst ` set gs \<Longrightarrow> length fs = length gs"
    using assms by (metis okeys_card plain.simps(2))
  ultimately show ?thesis unfolding * by blast
qed

lemma valuesEqual_primitive: "\<not> is_object a \<Longrightarrow> valuesEqual False a b \<longleftrightarrow> a = b"
proof (cases "is_object b")
  case True
  assume "\<not> is_object a"
  with True show ?thesis by (subst valuesEqual.simps) auto
next
  case False
  assume "\<not> is_object a"
  with False show ?thesis by (subst valuesEqual.simps) (simp add: strict_eq_def)
qed

lemma canon_primitive: "\<not> is_object a \<Longrightarrow> a = canon b \<longleftrightarrow> a = b"
  by (cases b) auto

lemma valuesEqual_canon: "plain a \<Longrightarrow> plain b \<Longrightarrow> valuesEqual False a b \<longleftrightarrow> canon a = canon b"
proof (induction a arbitrary: b rule: plain.induct)
  case (1 xs)
  show ?case
  proof (cases b)
    case (JArr ys)
    have "valuesEqual False (JArr xs) (JArr ys) \<longleftrightarrow> length xs = length ys \<and>
        (\<forall>(x, y) \<in> set (zip xs ys). valuesEqual False x y)"
      by (subst valuesEqual.simps) (simp add: is_array_def array_pair_def)
    also have "\<dots> \<longleftrightarrow> length xs = length ys \<and> (\<forall>(x, y) \<in> set (zip xs ys). canon x = canon y)"
      using 1 JArr by (force dest: set_zip_leftD set_zip_rightD)
    also have "\<dots> \<longleftrightarrow> map canon xs = map canon ys"
      by (auto simp: list_eq_iff_nth_eq set_zip) blast
    finally show ?thesis using JArr by simp
  qed (use 1 in \<open>auto simp: valuesEqual.simps [of False] is_array_def array_pair_def\<close>)
next
  case (2 fs)
  show ?case
  proof (cases b)
    case (JObj gs)
    have "valuesEqual False (field_of fs k) (field_of gs k) \<longleftrightarrow> canon (field_of fs k) = canon (field_of gs k)"
      if k: "k \<in> fst ` set fs" "k \<in> fst ` set gs" for k
    proof (rule "2.IH" [OF field_of_mem refl])
      show "okeys fs" "k \<in> fst ` set fs" "plain (field_of fs k)"
        using "2.prems"(1) k plain_field by auto
      show "plain (field_of gs k)" using "2.prems"(2) JObj k plain_field by blast
    qed
    then have "valuesEqual False (JObj fs) (JObj gs) \<longleftrightarrow> fst ` set fs = fst ` set gs \<and>
        (\<forall>k \<in> fst ` set fs. canon (the (map_of fs k)) = canon (the (map_of gs k)))"
      using valuesEqual_objects [of fs gs] 2 JObj field_of_the by metis
    also have "\<dots> \<longleftrightarrow> canon (JObj fs) = canon (JObj gs)"
      using 2 JObj by (simp add: sort_key_fst_eq okeys_map_snd set_map_snd_eq del: set_map)
    finally show ?thesis using JObj by simp
  qed (use 2 in \<open>auto simp: valuesEqual.simps [of False] is_array_def\<close>)
qed (simp_all add: valuesEqual_primitive canon_primitive)

text \<open>
  On plain data (no \<open>undefined\<close>, no sets or maps) \<open>valuesEqual\<close> is equality up to the order of object
  keys: it holds exactly when the two values have the same canonical form. Hence it is an equivalence
  there.
\<close>

theorem valuesEqual_plain:
  assumes "plain a" and "plain b"
  shows "valuesEqual False a b \<longleftrightarrow> canon a = canon b"
  using assms by (rule valuesEqual_canon)

theorem valuesEqual_plain_witness:
  "valuesEqual False (JObj [(''x'', JNum 1), (''y'', JArr [JNull])]) (JObj [(''y'', JArr [JNull]), (''x'', JNum 1)])"
proof -
  have "plain (JObj [(''x'', JNum 1), (''y'', JArr [JNull])])" "plain (JObj [(''y'', JArr [JNull]), (''x'', JNum 1)])"
    by (simp_all add: okeys_def)
  from valuesEqual_plain [OF this] show ?thesis by simp
qed

text \<open>
  Outside plain data it is not symmetric and identifies different values: an \<open>undefined\<close> field hides
  a key of the other object, in both modes, and a \<open>Set\<close> equals the empty object.
\<close>

theorem valuesEqual_pitfalls:
  "valuesEqual nullish (JObj [(''x'', JUndefined)]) (JObj [(''y'', JNum 5)]) \<and>
   \<not> valuesEqual nullish (JObj [(''y'', JNum 5)]) (JObj [(''x'', JUndefined)]) \<and>
   valuesEqual nullish (JSet [JNum 1]) (JObj [])"
proof -
  have u: "valuesEqual nullish JUndefined JUndefined" "\<not> valuesEqual nullish (JNum 5) JUndefined"
    by (simp_all add: valuesEqual.simps [of nullish JUndefined] valuesEqual.simps [of nullish "JNum 5"]
        strict_eq_def nullishCompare_def isNullOrUndefined_def)
  show ?thesis
    by (subst (1 2 3) valuesEqual.simps)
       (simp add: is_array_def array_pair_def entry_pair_def field_of_def u)
qed

section \<open>Hexadecimal\<close>

definition to_hex :: "8 word list \<Rightarrow> string" where
  "to_hex ws = concat (map (\<lambda>w. encodedByte (unat w)) ws)"

lemma hex_digits_lower: "n < 16 \<Longrightarrow> to_lower (hex_digits ! n) = hex_digits ! n"
proof -
  have "list_all (\<lambda>c. to_lower c = c) hex_digits" by code_simp
  moreover assume "n < 16"
  ultimately show ?thesis by (simp add: list_all_length hex_digits_def)
qed

lemma encodedByte_inj: "i < 256 \<Longrightarrow> j < 256 \<Longrightarrow> encodedByte i = encodedByte j \<Longrightarrow> i = j"
proof -
  assume b: "i < 256" "j < 256" and e: "encodedByte i = encodedByte j"
  have "distinct hex_digits" "length hex_digits = 16" by (simp_all add: hex_digits_def)
  then have "i div 16 = j div 16" "i mod 16 = j mod 16"
    using e b by (auto simp: encodedByte_def nth_eq_iff_index_eq)
  then show "i = j" by (metis div_mult_mod_eq)
qed

lemma hex_table:
  assumes "i < 256"
  shows "map_of HEX_TO_SHORT (map to_lower (encodedByte i)) = Some i"
proof -
  have "map to_lower (encodedByte i) = encodedByte i"
    using assms by (simp add: encodedByte_def hex_digits_lower)
  moreover have "distinct (map fst HEX_TO_SHORT)"
    by (auto simp: HEX_TO_SHORT_def distinct_map comp_def intro!: inj_onI encodedByte_inj)
  ultimately show ?thesis using assms by (auto simp: HEX_TO_SHORT_def map_of_eq_Some_iff)
qed

lemma getBytes_loop_hex: "getBytes_loop (to_hex ws @ s) = (case getBytes_loop s of Inl e \<Rightarrow> Inl e | Inr vs \<Rightarrow> Inr (ws @ vs))"
proof (induction ws)
  case Nil
  then show ?case by (auto simp: to_hex_def split: sum.splits)
next
  case (Cons w ws)
  have "unat w < 256" using unsigned_less [of w] by simp
  then have "map_of HEX_TO_SHORT (map to_lower (encodedByte (unat w))) = Some (unat w)"
    by (rule hex_table)
  then show ?case using Cons by (auto simp: to_hex_def encodedByte_def split: sum.splits)
qed

text \<open>
  Decoding inverts encoding: \<open>getBytesFromHex\<close> of the two-digit lower-case encoding of a
  byte array returns the bytes.
\<close>

theorem getBytesFromHex_roundtrip: "getBytesFromHex (to_hex ws) = Inr ws"
proof -
  have "length (to_hex ws) = 2 * length ws"
    by (induction ws) (auto simp: to_hex_def encodedByte_def)
  then show ?thesis using getBytes_loop_hex [of ws "[]"] by (simp add: getBytesFromHex_def)
qed

section \<open>Asynchronous helpers\<close>

text \<open>On matchers that do not throw they agree with the list functions and stop at the deciding item.\<close>

lemma asyncFilter_loop_eq:
  "(\<And>x s. matches x s = (Inr (P x), s)) \<Longrightarrow> asyncFilter_loop xs matches acc s = (Inr (acc @ filter P xs), s)"
  by (induction xs arbitrary: acc) (auto simp: mbind_def)

lemma asyncSome_append:
  "asyncSome (xs @ ys) matches = mbind (asyncSome xs matches) (\<lambda>b. if b then mreturn True else asyncSome ys matches)"
  by (induction xs) (auto simp: mbind_def fun_eq_iff split: sum.splits prod.splits)

lemma asyncEvery_append:
  "asyncEvery (xs @ ys) matches = mbind (asyncEvery xs matches) (\<lambda>b. if b then asyncEvery ys matches else mreturn False)"
  by (induction xs) (auto simp: mbind_def fun_eq_iff split: sum.splits prod.splits)

text \<open>
  The asynchronous helpers: what they return on a matcher without exceptions is what \<open>some\<close>, \<open>every\<close> and
  \<open>filter\<close> return, and once a prefix of the items has decided, the matcher is not called on the rest: the
  state is the one the prefix left.
\<close>

theorem async_helpers:
  assumes "\<And>x s. pure x s = (Inr (P x), s)"
    and "asyncSome xs matches s = (Inr True, s1)" and "asyncEvery xs matches s = (Inr False, s2)"
  shows "asyncSome zs pure t = (Inr (\<exists>x \<in> set zs. P x), t) \<and> asyncEvery zs pure t = (Inr (\<forall>x \<in> set zs. P x), t) \<and>
         asyncFilter zs pure t = (Inr (filter P zs), t) \<and>
         asyncSome (xs @ ys) matches s = (Inr True, s1) \<and> asyncEvery (xs @ ys) matches s = (Inr False, s2)"
proof -
  have "asyncSome zs pure t = (Inr (\<exists>x \<in> set zs. P x), t)"
    by (induction zs) (auto simp: mbind_def assms(1))
  moreover have "asyncEvery zs pure t = (Inr (\<forall>x \<in> set zs. P x), t)"
    by (induction zs) (auto simp: mbind_def assms(1))
  ultimately show ?thesis
    using assms asyncFilter_loop_eq [of pure P zs "[]" t]
    by (simp add: asyncFilter_def asyncSome_append asyncEvery_append mbind_def)
qed

theorem async_helpers_witness:
  "asyncSome ([5, 1] @ [7]) (\<lambda>x n. (Inr (x = (1::nat)), Suc n)) 0 = (Inr True :: unit + bool, 2)"
  using async_helpers [of "\<lambda>x s. (Inr (x = 1), s)" "\<lambda>x. x = (1::nat)" "[5, 1]" "\<lambda>x n. (Inr (x = (1::nat)), Suc n)" 0 2 1]
  by (simp add: mbind_def)

end
