(* ===== verification/DataStoreKeys.thy ===== *)
theory DataStoreKeys
  imports JsValue
begin

text \<open>
  Keys and indexes of a DataStore schema: the key helpers of \<open>datastore/src/util.ts\<close> (composite keys,
  primary keys, index names, \<open>establishRelationAndKeys\<close>) and the attribute tests of \<open>types.ts\<close>.
  JavaScript sets of field names are lists without duplicates in insertion order.
\<close>

section \<open>The schema\<close>

record model_attribute =
  attr_type :: string
  attr_name :: "string option"
  attr_fields :: "string list option"
  attr_timestamps :: "(string option \<times> string option) option"

record association =
  connectionType :: string
  targetName :: "string option"
  targetNames :: "string list option"
  associatedWith :: "string list option"

record model_field =
  mf_name :: string
  mf_model :: "string option"
  mf_association :: "association option"

record schema_model =
  sm_fields :: "(string \<times> model_field) list"
  sm_attributes :: "model_attribute list option"

type_synonym namespace = "(string \<times> schema_model) list"

text \<open>A target association: one name, or several.\<close>

definition isTargetNameAssociation :: "association option \<Rightarrow> (string + string list) option" where
  "isTargetNameAssociation a = (case a of
     None \<Rightarrow> None
   | Some a \<Rightarrow> (case targetName a of
        Some t \<Rightarrow> if t \<noteq> [] then Some (Inl t) else map_option Inr (targetNames a)
      | None \<Rightarrow> map_option Inr (targetNames a)))"

definition isModelAttributeKey :: "model_attribute \<Rightarrow> bool" where
  "isModelAttributeKey attr \<longleftrightarrow> attr_type attr = ''key'' \<and>
     (case attr_fields attr of None \<Rightarrow> False | Some fs \<Rightarrow> length fs > 0)"

definition isModelAttributePrimaryKey :: "model_attribute \<Rightarrow> bool" where
  "isModelAttributePrimaryKey attr \<longleftrightarrow> isModelAttributeKey attr \<and> attr_name attr = None"

definition isModelAttributeCompositeKey :: "model_attribute \<Rightarrow> bool" where
  "isModelAttributeCompositeKey attr \<longleftrightarrow> isModelAttributeKey attr \<and> attr_name attr \<noteq> None \<and>
     (case attr_fields attr of None \<Rightarrow> False | Some fs \<Rightarrow> length fs > 2)"

definition key_fields :: "model_attribute \<Rightarrow> string list" where
  "key_fields attr = (case attr_fields attr of None \<Rightarrow> [] | Some fs \<Rightarrow> fs)"

section \<open>Composite keys\<close>

text \<open>\<open>new Set(xs)\<close> and the union of two sets, in insertion order.\<close>

definition js_set :: "string list \<Rightarrow> string list" where
  "js_set xs = rev (remdups (rev xs))"

definition js_union :: "string list \<Rightarrow> string list \<Rightarrow> string list" where
  "js_union xs ys = js_set (xs @ ys)"

definition intersects :: "string list \<Rightarrow> string list \<Rightarrow> bool" where
  "intersects xs ys \<longleftrightarrow> list_ex (\<lambda>f. f \<in> set ys) xs"

text \<open>One step of the \<open>reduce\<close>: union with the first set that shares a field, else a new set.\<close>

fun combine_step :: "string list list \<Rightarrow> string list \<Rightarrow> string list list" where
  "combine_step [] s = [s]"
| "combine_step (c # cs) s = (if intersects c s then js_union c s # cs else c # combine_step cs s)"

definition combineIntersecting :: "string list list \<Rightarrow> string list list" where
  "combineIntersecting flds = fold (\<lambda>s combined. combine_step combined (js_set s)) flds []"

definition extractCompositeSortKey :: "model_attribute \<Rightarrow> string list" where
  "extractCompositeSortKey attr = tl (key_fields attr)"

definition processCompositeKeys :: "model_attribute list \<Rightarrow> string list list" where
  "processCompositeKeys attributes =
     combineIntersecting (combineIntersecting
       (map extractCompositeSortKey (filter isModelAttributeCompositeKey attributes)))"

section \<open>Primary keys\<close>

definition ID :: string where
  "ID = ''id''"

definition extractKeyIfExists :: "schema_model option \<Rightarrow> model_attribute option" where
  "extractKeyIfExists m = (case m of None \<Rightarrow> None
     | Some sm \<Rightarrow> (case sm_attributes sm of None \<Rightarrow> None | Some as \<Rightarrow> find isModelAttributeKey as))"

definition extractPrimaryKeyFieldNames :: "schema_model option \<Rightarrow> string list" where
  "extractPrimaryKeyFieldNames m = (case extractKeyIfExists m of
     Some a \<Rightarrow> if isModelAttributePrimaryKey a then key_fields a else [ID]
   | None \<Rightarrow> [ID])"

definition extractPrimaryKeyValues :: "model \<Rightarrow> string list \<Rightarrow> jsval list" where
  "extractPrimaryKeyValues m keyFields = map (field_of m) keyFields"

definition extractPrimaryKeysAndValues :: "model \<Rightarrow> string list \<Rightarrow> model" where
  "extractPrimaryKeysAndValues m keyFields = fold (\<lambda>k acc. AList.update k (field_of m k) acc) keyFields []"

definition isIdManaged :: "schema_model option \<Rightarrow> bool" where
  "isIdManaged m = (case extractKeyIfExists m of
     Some a \<Rightarrow> \<not> isModelAttributePrimaryKey a | None \<Rightarrow> True)"

definition isIdOptionallyManaged :: "schema_model option \<Rightarrow> bool" where
  "isIdOptionallyManaged m = (case extractKeyIfExists m of
     Some a \<Rightarrow> isModelAttributePrimaryKey a \<and> key_fields a \<noteq> [] \<and> hd (key_fields a) = ID
   | None \<Rightarrow> False)"

section \<open>Indexes\<close>

definition IDENTIFIER_KEY_SEPARATOR :: string where
  "IDENTIFIER_KEY_SEPARATOR = ''-''"

text \<open>The \<open>reduce\<close> with its index: the first key starts the name.\<close>

fun indexName_loop :: "string list \<Rightarrow> nat \<Rightarrow> string \<Rightarrow> string" where
  "indexName_loop [] idx prev = prev"
| "indexName_loop (cur # ks) idx prev =
     indexName_loop ks (Suc idx) (if idx = 0 then cur else prev @ IDENTIFIER_KEY_SEPARATOR @ cur)"

definition indexNameFromKeys :: "string list \<Rightarrow> string" where
  "indexNameFromKeys ks = indexName_loop ks 0 []"

definition getIdentifierValue :: "js_env \<Rightarrow> schema_model \<Rightarrow> model \<Rightarrow> string" where
  "getIdentifierValue E sm m = join IDENTIFIER_KEY_SEPARATOR
     (map (\<lambda>f. let v = field_of m f in if isNullOrUndefined v then [] else js_toString E v)
       (extractPrimaryKeyFieldNames (Some sm)))"

definition extractTargetNames :: "string list option \<Rightarrow> string option \<Rightarrow> string list option" where
  "extractTargetNames tNames tName =
     (case tNames of Some ts \<Rightarrow> Some ts
      | None \<Rightarrow> (case tName of Some t \<Rightarrow> Some [t] | None \<Rightarrow> None))"

definition extractTargetNamesFromSrc :: "association option \<Rightarrow> string list option" where
  "extractTargetNamesFromSrc src = (case src of None \<Rightarrow> None
     | Some a \<Rightarrow> extractTargetNames (targetNames a) (targetName a))"

fun keysEqual :: "string list \<Rightarrow> string list \<Rightarrow> bool" where
  "keysEqual keysA keysB =
     (if length keysA \<noteq> length keysB then False
      else list_all (\<lambda>i. keysA ! i = keysB ! i) [0..<length keysA])"

record relation_type =
  fieldName :: string
  modelName :: string
  relationType :: string
  rel_targetName :: "string option"
  rel_targetNames :: "string list option"
  rel_associatedWith :: "string list option"

text \<open>An index: its name, its fields and the option \<open>unique\<close>.\<close>

type_synonym index_entry = "string \<times> string list \<times> bool"

record relationship =
  indexes :: "index_entry list"
  relationTypes :: "relation_type list"

record model_keys =
  primaryKey :: "string list option"
  compositeKeys :: "string list list option"

definition add_index :: "string list \<Rightarrow> index_entry list \<Rightarrow> index_entry list" where
  "add_index flds idxs =
     (if indexNameFromKeys flds \<in> fst ` set idxs then idxs
      else idxs @ [(indexNameFromKeys flds, flds, False)])"

text \<open>A model-typed field without an association makes the destructuring throw.\<close>

definition relation_step :: "model_field \<Rightarrow> relationship \<Rightarrow> js_error + relationship" where
  "relation_step fld r =
     (case mf_model fld of
        None \<Rightarrow> Inr r
      | Some m \<Rightarrow>
        (case mf_association fld of
           None \<Rightarrow> Inl JsTypeError
         | Some a \<Rightarrow>
            let r1 = r\<lparr>relationTypes := relationTypes r @ [\<lparr>fieldName = mf_name fld, modelName = m,
                  relationType = connectionType a, rel_targetName = targetName a,
                  rel_targetNames = targetNames a, rel_associatedWith = associatedWith a\<rparr>]\<rparr>
            in if connectionType a = ''BELONGS_TO''
               then (case extractTargetNamesFromSrc (Some a) of
                       None \<Rightarrow> Inr r1
                     | Some ts \<Rightarrow> Inr (r1\<lparr>indexes := add_index ts (indexes r1)\<rparr>))
               else Inr r1))"

fun relation_fields :: "model_field list \<Rightarrow> relationship \<Rightarrow> js_error + relationship" where
  "relation_fields [] r = Inr r"
| "relation_fields (f # fs) r = (case relation_step f r of Inl e \<Rightarrow> Inl e | Inr r' \<Rightarrow> relation_fields fs r')"

fun key_attributes :: "model_attribute list \<Rightarrow> index_entry list \<Rightarrow> string list option \<Rightarrow>
    index_entry list \<times> string list option" where
  "key_attributes [] idxs pk = (idxs, pk)"
| "key_attributes (a # as) idxs pk =
     (if \<not> isModelAttributeKey a then key_attributes as idxs pk
      else if isModelAttributePrimaryKey a then key_attributes as idxs (Some (key_fields a))
      else key_attributes as (add_index (key_fields a) idxs) pk)"

definition establish_model :: "schema_model \<Rightarrow> js_error + relationship \<times> model_keys" where
  "establish_model sm =
     (case relation_fields (map snd (sm_fields sm)) \<lparr>indexes = [], relationTypes = []\<rparr> of
        Inl e \<Rightarrow> Inl e
      | Inr r \<Rightarrow>
          let (idxs, pk) = (case sm_attributes sm of
                 None \<Rightarrow> (indexes r, None) | Some as \<Rightarrow> key_attributes as (indexes r) None);
              pk' = (case pk of None \<Rightarrow> [ID] | Some p \<Rightarrow> p)
          in Inr (r\<lparr>indexes := idxs @ [(''byPk'', pk', True)]\<rparr>,
                  \<lparr>primaryKey = Some pk', compositeKeys = map_option processCompositeKeys (sm_attributes sm)\<rparr>))"

fun establishRelationAndKeys ::
  "namespace \<Rightarrow> js_error + (string \<times> relationship) list \<times> (string \<times> model_keys) list" where
  "establishRelationAndKeys [] = Inr ([], [])"
| "establishRelationAndKeys ((mKey, sm) # ns) =
     (case establish_model sm of
        Inl e \<Rightarrow> Inl e
      | Inr (r, k) \<Rightarrow>
          (case establishRelationAndKeys ns of
             Inl e \<Rightarrow> Inl e | Inr (rs, ks) \<Rightarrow> Inr ((mKey, r) # rs, (mKey, k) # ks)))"

definition getIndex :: "relation_type list \<Rightarrow> string \<Rightarrow> string option" where
  "getIndex rel src = (case find (\<lambda>r. modelName r = src) rel of
     None \<Rightarrow> None
   | Some r \<Rightarrow> map_option indexNameFromKeys (extractTargetNames (rel_targetNames r) (rel_targetName r)))"

definition getIndexFromAssociation :: "index_entry list \<Rightarrow> string + string list \<Rightarrow> string option" where
  "getIndexFromAssociation idxs src =
     (let name = (case src of Inl s \<Rightarrow> s | Inr ks \<Rightarrow> indexNameFromKeys ks)
      in map_option fst (find (\<lambda>i. fst i = name) idxs))"

definition getIndexKeys :: "(string \<times> model_keys) list \<Rightarrow> string \<Rightarrow> string list" where
  "getIndexKeys ks name = (case map_of ks name of
     None \<Rightarrow> [ID] | Some k \<Rightarrow> (case primaryKey k of None \<Rightarrow> [ID] | Some p \<Rightarrow> p))"

definition getTimestampFields :: "schema_model \<Rightarrow> string \<times> string" where
  "getTimestampFields m =
     (let attr = (case sm_attributes m of None \<Rightarrow> None | Some as \<Rightarrow> find (\<lambda>a. attr_type a = ''model'') as);
          custom = (case attr of None \<Rightarrow> (None, None)
                    | Some a \<Rightarrow> (case attr_timestamps a of None \<Rightarrow> (None, None) | Some t \<Rightarrow> t))
      in (case fst custom of None \<Rightarrow> ''createdAt'' | Some c \<Rightarrow> c,
          case snd custom of None \<Rightarrow> ''updatedAt'' | Some u \<Rightarrow> u))"

end
