(* ===== verification/DataStoreKeysProofs.thy ===== *)
theory DataStoreKeysProofs
  imports DataStoreKeys
begin

text \<open>
  Composite keys are grouped by shared fields, index names identify their keys, and the relationship
  table of a schema lists every key of a model under its name.
\<close>

section \<open>Grouping composite keys\<close>

lemma set_js_set [simp]: "set (js_set xs) = set xs"
  by (simp add: js_set_def)

lemma set_js_union [simp]: "set (js_union xs ys) = set xs \<union> set ys"
  by (simp add: js_union_def)

lemma intersects_iff [simp]: "intersects xs ys \<longleftrightarrow> set xs \<inter> set ys \<noteq> {}"
  by (auto simp: intersects_def list_ex_iff)

definition fields_of_sets :: "string list list \<Rightarrow> string set" where
  "fields_of_sets cs = \<Union> (set ` set cs)"

definition covers :: "string list list \<Rightarrow> string list list \<Rightarrow> bool" where
  "covers cs ss \<longleftrightarrow> (\<forall>s \<in> set ss. \<exists>c \<in> set cs. set s \<subseteq> set c)"

text \<open>Fields connected by a chain of keys that pairwise share a field.\<close>

definition linked :: "string list list \<Rightarrow> (string \<times> string) set" where
  "linked ss = (\<Union>s \<in> set ss. set s \<times> set s)\<^sup>+"

definition cliques :: "(string \<times> string) set \<Rightarrow> string list list \<Rightarrow> bool" where
  "cliques R cs \<longleftrightarrow> (\<forall>c \<in> set cs. set c \<times> set c \<subseteq> R)"

lemma step_fields: "fields_of_sets (combine_step cs s) = fields_of_sets cs \<union> set s"
  by (induction cs s rule: combine_step.induct) (auto simp: fields_of_sets_def)

lemma step_covers: "covers (combine_step cs s) (s # cs)"
  by (induction cs s rule: combine_step.induct) (auto simp: covers_def)

lemma step_cliques:
  assumes "trans R" and "sym R" and "cliques R cs" and "set s \<times> set s \<subseteq> R"
  shows "cliques R (combine_step cs s)"
  using assms(3,4)
proof (induction cs s rule: combine_step.induct)
  case (2 c cs s)
  show ?case
  proof (cases "intersects c s")
    case True
    then obtain f where f: "f \<in> set c" "f \<in> set s" by auto
    have "(a, b) \<in> R" if "a \<in> set c \<union> set s" "b \<in> set c \<union> set s" for a b
    proof -
      have "(a, f) \<in> R" "(f, b) \<in> R" using that f 2 by (auto simp: cliques_def)
      then show ?thesis by (rule transD [OF assms(1)])
    qed
    with True 2 show ?thesis by (auto simp: cliques_def)
  next
    case False
    with 2 show ?thesis by (auto simp: cliques_def)
  qed
qed (simp add: cliques_def)

lemma covers_trans: "covers cs ds \<Longrightarrow> covers ds ss \<Longrightarrow> covers cs ss"
  by (meson covers_def order_trans)

lemma covers_append: "covers cs (ds @ ss) \<longleftrightarrow> covers cs ds \<and> covers cs ss"
  by (auto simp: covers_def)

lemma fields_of_sets_append: "fields_of_sets (ss @ [s]) = fields_of_sets ss \<union> set s"
  by (auto simp: fields_of_sets_def)

lemma linked_sym: "sym (linked ss)"
  unfolding linked_def by (rule sym_trancl) (auto intro: symI)

lemma combine_spec:
  assumes "trans R" and "sym R" and "cliques R ss"
  shows "fields_of_sets (combineIntersecting ss) = fields_of_sets ss \<and>
         covers (combineIntersecting ss) ss \<and> cliques R (combineIntersecting ss)"
  using assms(3)
proof (induction ss rule: rev_induct)
  case Nil
  then show ?case by (simp add: combineIntersecting_def fields_of_sets_def covers_def)
next
  case (snoc s ss)
  let ?cs = "combineIntersecting ss"
  have e: "combineIntersecting (ss @ [s]) = combine_step ?cs (js_set s)"
    by (simp add: combineIntersecting_def)
  have IH: "fields_of_sets ?cs = fields_of_sets ss" "covers ?cs ss" "cliques R ?cs"
    using snoc by (auto simp: cliques_def)
  have "covers (combine_step ?cs (js_set s)) ?cs" "covers (combine_step ?cs (js_set s)) [s]"
    using step_covers [of ?cs "js_set s"] by (auto simp: covers_def)
  moreover have "cliques R (combine_step ?cs (js_set s))"
    using snoc.prems IH by (intro step_cliques assms(1,2)) (auto simp: cliques_def)
  ultimately show ?case
    using IH by (auto simp: e step_fields covers_append fields_of_sets_append intro: covers_trans)
qed

definition pairwise_disjoint :: "string list list \<Rightarrow> bool" where
  "pairwise_disjoint cs \<longleftrightarrow> sorted_wrt (\<lambda>c d. set c \<inter> set d = {}) cs"

lemma combine_disjoint3:
  assumes "length ss \<le> 3"
  shows "pairwise_disjoint (combineIntersecting (combineIntersecting ss))"
proof -
  consider "ss = []" | a where "ss = [a]" | a b where "ss = [a, b]" | a b c where "ss = [a, b, c]"
    using assms by (cases ss; cases "tl ss"; cases "tl (tl ss)"; force)
  then show ?thesis
    by cases (auto simp: combineIntersecting_def pairwise_disjoint_def split: if_splits)
qed

text \<open>The sort keys \<open>processCompositeKeys\<close> is about.\<close>

definition sort_keys :: "model_attribute list \<Rightarrow> string list list" where
  "sort_keys attributes = map extractCompositeSortKey (filter isModelAttributeCompositeKey attributes)"

text \<open>
  Grouping of composite keys: the groups hold exactly the sort-key fields of the model's composite
  keys, every key lies within one group, fields of one group are connected by a chain of overlapping
  keys, and with at most three composite keys the groups are disjoint.
\<close>

theorem processCompositeKeys_groups:
  "fields_of_sets (processCompositeKeys attributes) = fields_of_sets (sort_keys attributes) \<and>
   covers (processCompositeKeys attributes) (sort_keys attributes) \<and>
   cliques (linked (sort_keys attributes)) (processCompositeKeys attributes) \<and>
   (length (sort_keys attributes) > 3 \<or> pairwise_disjoint (processCompositeKeys attributes))"
proof -
  let ?R = "linked (sort_keys attributes)"
  have R: "trans ?R" "sym ?R"
    by (simp_all add: linked_sym) (simp add: linked_def)
  have "cliques ?R (sort_keys attributes)"
    by (auto simp: cliques_def linked_def)
  then show ?thesis
    using combine_spec [OF R, of "sort_keys attributes"]
      combine_spec [OF R, of "combineIntersecting (sort_keys attributes)"]
      combine_disjoint3 [of "sort_keys attributes"] not_le
    by (auto simp: processCompositeKeys_def sort_keys_def [symmetric] intro: covers_trans)
qed

text \<open>
  Two passes do not always merge everything: five composite keys whose sort keys form one chain of
  overlaps are left in two groups that still share the field \<open>d\<close>.
\<close>

definition chain_attributes :: "model_attribute list" where
  "chain_attributes = map (\<lambda>fs. \<lparr>attr_type = ''key'', attr_name = Some (indexNameFromKeys fs), attr_fields = Some fs,
       attr_timestamps = None\<rparr>)
     [[''hk'', ''a'', ''x''], [''hk'', ''b'', ''y''], [''hk'', ''c'', ''d''], [''hk'', ''b'', ''d''], [''hk'', ''a'', ''c'']]"

theorem processCompositeKeys_incomplete:
  "processCompositeKeys chain_attributes = [[''a'', ''x'', ''c'', ''d''], [''b'', ''y'', ''d'']]"
  by (simp add: chain_attributes_def processCompositeKeys_def combineIntersecting_def extractCompositeSortKey_def
      key_fields_def isModelAttributeCompositeKey_def isModelAttributeKey_def intersects_def js_union_def js_set_def
      del: intersects_iff)

section \<open>Index names\<close>

lemma join_prefix: "join sep ((a @ b) # ks) = a @ join sep (b # ks)"
  by (cases ks) auto

lemma indexName_loop_join: "0 < n \<Longrightarrow> indexName_loop ks n prev = join IDENTIFIER_KEY_SEPARATOR (prev # ks)"
proof (induction ks arbitrary: n prev)
  case (Cons k ks)
  then show ?case by (simp add: join_prefix)
qed simp

lemma indexNameFromKeys_join: "indexNameFromKeys ks = join IDENTIFIER_KEY_SEPARATOR ks"
  by (cases ks) (simp_all add: indexNameFromKeys_def indexName_loop_join)

lemma append_sep_cancel:
  assumes "c \<notin> set a" and "c \<notin> set b" and "a @ c # x = b @ c # y"
  shows "a = b \<and> x = y"
  using assms
proof (induction a arbitrary: b)
  case Nil
  then show ?case by (cases b) auto
next
  case (Cons d a)
  then show ?case by (cases b) auto
qed

lemma join_inj:
  assumes "\<forall>k \<in> set ks. c \<notin> set k" and "\<forall>l \<in> set ls. c \<notin> set l" and "ks \<noteq> []" and "ls \<noteq> []"
    and "join [c] ks = join [c] ls"
  shows "ks = ls"
  using assms
proof (induction ks arbitrary: ls)
  case (Cons k ks)
  obtain l ls' where ls: "ls = l # ls'" using Cons.prems by (cases ls) auto
  have c: "c \<notin> set k" "c \<notin> set l" using Cons.prems ls by auto
  show ?case
  proof (cases "ks = [] \<or> ls' = []")
    case True
    then show ?thesis
      using Cons.prems(5) c ls
      by (cases ks; cases ls') (auto simp: join_Cons dest: arg_cong [where f = set])
  next
    case False
    then have "k @ c # join [c] ks = l @ c # join [c] ls'"
      using Cons.prems(5) ls by (simp add: join_Cons)
    from append_sep_cancel [OF c this] show ?thesis
      using Cons.IH [of ls'] Cons.prems False ls by auto
  qed
qed simp

text \<open>
  Index names identify key lists: two non-empty lists of field names without a dash have the same
  name only when they are equal. With dashes they can collide, as they do in the identifier text of a
  record with a composite primary key.
\<close>

theorem indexNameFromKeys_inj:
  assumes "ks \<noteq> []" and "ls \<noteq> []" and "\<forall>k \<in> set ks \<union> set ls. CHR ''-'' \<notin> set k"
  shows "(indexNameFromKeys ks = indexNameFromKeys ls \<longleftrightarrow> ks = ls) \<and>
         indexNameFromKeys [''a-b'', ''c''] = indexNameFromKeys [''a'', ''b-c'']"
  using join_inj [of ks "CHR ''-''" ls] assms by (auto simp: indexNameFromKeys_join IDENTIFIER_KEY_SEPARATOR_def)

theorem indexNameFromKeys_inj_witness:
  "indexNameFromKeys [''id'', ''title''] \<noteq> indexNameFromKeys [''id'']"
  using indexNameFromKeys_inj [of "[''id'', ''title'']" "[''id'']"] by simp

section \<open>The relationship table\<close>

definition has_index :: "index_entry list \<Rightarrow> string list \<Rightarrow> bool" where
  "has_index idxs flds \<longleftrightarrow> indexNameFromKeys flds \<in> fst ` set idxs"

definition named_index :: "index_entry \<Rightarrow> bool" where
  "named_index i \<longleftrightarrow> fst i = indexNameFromKeys (fst (snd i)) \<and> \<not> snd (snd i)"

definition table_ok :: "index_entry list \<Rightarrow> bool" where
  "table_ok idxs \<longleftrightarrow> okeys idxs \<and> list_all named_index idxs"

lemma add_index_ok: "table_ok idxs \<Longrightarrow> table_ok (add_index flds idxs)"
  by (auto simp: table_ok_def add_index_def okeys_def named_index_def)

lemma add_index_has: "has_index (add_index flds idxs) flds"
  "has_index idxs gs \<Longrightarrow> has_index (add_index flds idxs) gs"
  by (auto simp: has_index_def add_index_def)

text \<open>The target names of the \<open>BELONGS_TO\<close> associations.\<close>

definition belongs_to_targets :: "model_field \<Rightarrow> string list option" where
  "belongs_to_targets f = (case (mf_model f, mf_association f) of
     (Some _, Some a) \<Rightarrow> if connectionType a = ''BELONGS_TO'' then extractTargetNamesFromSrc (Some a) else None
   | _ \<Rightarrow> None)"

lemma relation_step_table:
  assumes "relation_step f r = Inr r'" and "table_ok (indexes r)"
  shows "table_ok (indexes r') \<and> (\<forall>gs. has_index (indexes r) gs \<longrightarrow> has_index (indexes r') gs) \<and>
         (\<forall>ts. belongs_to_targets f = Some ts \<longrightarrow> has_index (indexes r') ts)"
  using assms
  by (auto simp: relation_step_def belongs_to_targets_def Let_def add_index_ok add_index_has
      split: option.splits if_splits)

lemma relation_fields_table:
  assumes "relation_fields fs r = Inr r'" and "table_ok (indexes r)"
  shows "table_ok (indexes r') \<and> (\<forall>gs. has_index (indexes r) gs \<longrightarrow> has_index (indexes r') gs) \<and>
         (\<forall>f \<in> set fs. \<forall>ts. belongs_to_targets f = Some ts \<longrightarrow> has_index (indexes r') ts)"
  using assms
proof (induction fs arbitrary: r)
  case (Cons f fs)
  then obtain r1 where r1: "relation_step f r = Inr r1" "relation_fields fs r1 = Inr r'"
    by (auto split: sum.splits)
  note s = relation_step_table [OF r1(1) Cons.prems(2)]
  with Cons.IH [OF r1(2)] show ?case by auto
qed simp

definition last_primary :: "model_attribute list \<Rightarrow> string list option" where
  "last_primary as = map_option key_fields (find isModelAttributePrimaryKey (rev as))"

lemma key_attributes_table:
  assumes "key_attributes as idxs pk = (idxs', pk')" and "table_ok idxs"
  shows "table_ok idxs' \<and> (\<forall>gs. has_index idxs gs \<longrightarrow> has_index idxs' gs) \<and>
         (\<forall>a \<in> set as. isModelAttributeKey a \<and> \<not> isModelAttributePrimaryKey a \<longrightarrow> has_index idxs' (key_fields a)) \<and>
         pk' = (case last_primary as of None \<Rightarrow> pk | Some p \<Rightarrow> Some p)"
  using assms
proof (induction as arbitrary: idxs pk)
  case Nil
  then show ?case by (simp add: last_primary_def)
next
  case (Cons a as)
  have "\<not> isModelAttributeKey a \<Longrightarrow> \<not> isModelAttributePrimaryKey a" by (simp add: isModelAttributePrimaryKey_def)
  with Cons show ?case
    by (auto simp: last_primary_def find_append add_index_ok add_index_has split: if_splits option.splits)
qed

lemma find_filter: "find P xs = (case filter P xs of [] \<Rightarrow> None | x # _ \<Rightarrow> Some x)"
  by (induction xs) auto

lemma last_primary_filter:
  "last_primary as = (case rev (filter isModelAttributePrimaryKey as) of [] \<Rightarrow> None | a # _ \<Rightarrow> Some (key_fields a))"
  by (simp add: last_primary_def find_filter flip: rev_filter split: list.split)

text \<open>
  The table of a model: index names are distinct and each is the name of its fields, every named key
  and every \<open>BELONGS_TO\<close> association has its index, and the last index is \<open>byPk\<close> over the primary key,
  which is the last unnamed key, or \<open>id\<close>.
\<close>

theorem establish_model_table:
  assumes "establish_model sm = Inr (r, k)" and "sm_attributes sm = Some attrs"
  shows "\<exists>idxs pk. indexes r = idxs @ [(''byPk'', pk, True)] \<and> table_ok idxs \<and> primaryKey k = Some pk \<and>
           pk = (case last_primary attrs of None \<Rightarrow> [ID] | Some p \<Rightarrow> p) \<and>
           (\<forall>a \<in> set attrs. isModelAttributeKey a \<and> \<not> isModelAttributePrimaryKey a \<longrightarrow> has_index idxs (key_fields a)) \<and>
           (\<forall>f \<in> set (sm_fields sm). \<forall>ts. belongs_to_targets (snd f) = Some ts \<longrightarrow> has_index idxs ts)"
proof -
  obtain r0 where r0: "relation_fields (map snd (sm_fields sm)) \<lparr>indexes = [], relationTypes = []\<rparr> = Inr r0"
    using assms(1) by (auto simp: establish_model_def split: sum.splits)
  obtain idxs pk0 where ka: "key_attributes attrs (indexes r0) None = (idxs, pk0)" by fastforce
  define pk where "pk = (case pk0 of None \<Rightarrow> [ID] | Some p \<Rightarrow> p)"
  have t0: "table_ok (indexes r0) \<and> (\<forall>f \<in> set (map snd (sm_fields sm)). \<forall>ts. belongs_to_targets f = Some ts \<longrightarrow> has_index (indexes r0) ts)"
    using relation_fields_table [OF r0] by (simp add: table_ok_def)
  note t = key_attributes_table [OF ka conjunct1 [OF t0]]
  have e: "indexes r = idxs @ [(''byPk'', pk, True)]" "primaryKey k = Some pk"
    using assms r0 ka by (auto simp: establish_model_def pk_def Let_def)
  have p: "pk = (case last_primary attrs of None \<Rightarrow> [ID] | Some p \<Rightarrow> p)"
    using t by (auto simp: pk_def split: option.splits)
  show ?thesis
    by (intro exI [of _ idxs] exI [of _ pk]) (use e p t t0 in auto)
qed

definition demo_schema :: schema_model where
  "demo_schema = \<lparr>sm_fields = [(''blog'', \<lparr>mf_name = ''blog'', mf_model = Some ''Blog'',
       mf_association = Some \<lparr>connectionType = ''BELONGS_TO'', targetName = Some ''blogId'', targetNames = None,
         associatedWith = None\<rparr>\<rparr>)],
     sm_attributes = Some [\<lparr>attr_type = ''key'', attr_name = Some ''byTitle'', attr_fields = Some [''title''],
         attr_timestamps = None\<rparr>,
       \<lparr>attr_type = ''key'', attr_name = None, attr_fields = Some [''slug''], attr_timestamps = None\<rparr>]\<rparr>"

lemmas demo_schema_simps = demo_schema_def isModelAttributeKey_def isModelAttributePrimaryKey_def key_fields_def

theorem establish_model_table_witness:
  "\<exists>r k idxs. establish_model demo_schema = Inr (r, k) \<and> indexes r = idxs @ [(''byPk'', [''slug''], True)] \<and>
     table_ok idxs"
proof -
  have "\<not> isl (establish_model demo_schema)" by code_simp
  then obtain r k where rk: "establish_model demo_schema = Inr (r, k)"
    by (cases "establish_model demo_schema") auto
  define attrs where "attrs = the (sm_attributes demo_schema)"
  have a: "sm_attributes demo_schema = Some attrs" "last_primary attrs = Some [''slug'']"
    by (simp_all add: attrs_def demo_schema_simps last_primary_def)
  from establish_model_table [OF rk a(1)] show ?thesis
    using rk a(2) by auto
qed

text \<open>
  The two readings of the primary key agree when the first key attribute is the only unnamed one, or
  when there is no unnamed one. A named key listed first hides the primary key from
  \<open>extractPrimaryKeyFieldNames\<close>, which then answers \<open>id\<close>, and from \<open>isIdManaged\<close>.
\<close>

theorem primary_key_readings:
  assumes "sm_attributes sm = Some attrs" and "length (filter isModelAttributePrimaryKey attrs) \<le> 1"
    and "\<forall>a. find isModelAttributeKey attrs = Some a \<longrightarrow>
           filter isModelAttributePrimaryKey attrs = [] \<or> isModelAttributePrimaryKey a"
  shows "extractPrimaryKeyFieldNames (Some sm) = (case last_primary attrs of None \<Rightarrow> [ID] | Some p \<Rightarrow> p) \<and>
         isIdManaged (Some sm) = (last_primary attrs = None) \<and>
         extractPrimaryKeyFieldNames (Some demo_schema) = [ID] \<and> isIdManaged (Some demo_schema)"
proof -
  have d: "extractPrimaryKeyFieldNames (Some demo_schema) = [ID]" "isIdManaged (Some demo_schema)"
    by (simp_all add: extractPrimaryKeyFieldNames_def extractKeyIfExists_def isIdManaged_def demo_schema_simps)
  let ?ps = "filter isModelAttributePrimaryKey attrs"
  have none: "?ps = []" if "find isModelAttributeKey attrs = None"
    using that by (auto simp: find_None_iff filter_empty_conv isModelAttributePrimaryKey_def)
  have mem: "a \<in> set attrs" if "find isModelAttributeKey attrs = Some a" for a
    using that by (auto simp: find_Some_iff)
  have k: "extractKeyIfExists (Some sm) = find isModelAttributeKey attrs"
    using assms(1) by (simp add: extractKeyIfExists_def)
  have "extractPrimaryKeyFieldNames (Some sm) = (case last_primary attrs of None \<Rightarrow> [ID] | Some p \<Rightarrow> p) \<and>
      isIdManaged (Some sm) = (last_primary attrs = None)"
  proof (cases "?ps")
    case Nil
    then have "\<not> isModelAttributePrimaryKey a" if "find isModelAttributeKey attrs = Some a" for a
      using mem [OF that] by (auto simp: filter_empty_conv)
    with Nil show ?thesis
      by (simp add: extractPrimaryKeyFieldNames_def isIdManaged_def k last_primary_filter split: option.split)
  next
    case (Cons p qs)
    then have p: "?ps = [p]" using assms(2) by simp
    then obtain a where a: "find isModelAttributeKey attrs = Some a" "isModelAttributePrimaryKey a"
      using none assms(3) by (cases "find isModelAttributeKey attrs") auto
    then have "a \<in> set ?ps" using mem by simp
    then have "a = p" using p by simp
    with a p show ?thesis
      by (simp add: extractPrimaryKeyFieldNames_def isIdManaged_def k last_primary_filter)
  qed
  with d show ?thesis by blast
qed

theorem primary_key_readings_witness:
  "extractPrimaryKeyFieldNames (Some (demo_schema\<lparr>sm_attributes := map_option rev (sm_attributes demo_schema)\<rparr>))
     = [''slug'']"
proof -
  let ?sm = "demo_schema\<lparr>sm_attributes := map_option rev (sm_attributes demo_schema)\<rparr>"
  define attrs where "attrs = the (sm_attributes ?sm)"
  have a: "sm_attributes ?sm = Some attrs" "last_primary attrs = Some [''slug'']"
    "length (filter isModelAttributePrimaryKey attrs) \<le> 1"
    "\<forall>a. find isModelAttributeKey attrs = Some a \<longrightarrow>
       filter isModelAttributePrimaryKey attrs = [] \<or> isModelAttributePrimaryKey a"
    by (simp_all add: attrs_def demo_schema_simps last_primary_def)
  from primary_key_readings [OF a(1,3,4)] show ?thesis using a(2) by simp
qed

end
