(* ===== verification/Outbox.thy ===== *)
theory Outbox
  imports DataStoreUtil DataStoreKeys
begin

text \<open>
  The mutation queue of the sync engine, \<open>MutationEventOutbox\<close> (\<open>datastore/src/sync/outbox.ts\<close>), and
  \<open>ModelMerger\<close> (\<open>sync/merger.ts\<close>). The storage underneath keeps records in insertion order by their
  key: saving a known key replaces the record in place, a new one goes last; queries run in that order.
  The texts \<open>data\<close> and \<open>condition\<close> of an event are kept parsed; serialising drops \<open>undefined\<close> members.
  Every operation runs under the storage's lock, so operations are taken one after the other.
\<close>

section \<open>Mutation events\<close>

datatype mutation_type = CreateOp | UpdateOp | DeleteOp

record mutation_event =
  me_id :: string
  me_model :: string
  me_modelId :: string
  me_operation :: mutation_type
  me_data :: model
  me_condition :: model

record outbox =
  inProgress :: "string option"
  queue :: "(string, mutation_event) omap"

definition q_events :: "outbox \<Rightarrow> mutation_event list" where
  "q_events ob = map snd (queue ob)"

definition q_save :: "mutation_event \<Rightarrow> outbox \<Rightarrow> outbox" where
  "q_save ev ob = ob\<lparr>queue := AList.update (me_id ev) ev (queue ob)\<rparr>"

definition q_delete_where :: "(mutation_event \<Rightarrow> bool) \<Rightarrow> outbox \<Rightarrow> outbox" where
  "q_delete_where P ob = ob\<lparr>queue := filter (\<lambda>(k, ev). \<not> P ev) (queue ob)\<rparr>"

section \<open>Merging data\<close>

text \<open>\<open>JSON.parse(JSON.stringify(x))\<close> of a flat object, and the spread of objects.\<close>

definition json_clean :: "model \<Rightarrow> model" where
  "json_clean m = filter (\<lambda>(k, v). v \<noteq> JUndefined) m"

definition spread :: "model \<Rightarrow> model \<Rightarrow> model" where
  "spread a b = fold (\<lambda>(k, v) acc. AList.update k v acc) b a"

definition version_fields :: "string list" where
  "version_fields = [''_version'', ''_lastChangedAt'', ''_deleted'']"

definition user_fields :: "model \<Rightarrow> model" where
  "user_fields m = filter (\<lambda>(k, v). k \<notin> set version_fields) m"

definition mergeUserFields :: "mutation_event \<Rightarrow> mutation_event \<Rightarrow> mutation_event" where
  "mergeUserFields previous current =
     current\<lparr>me_data := json_clean
       (spread (spread (map (\<lambda>f. (f, field_of (me_data previous) f)) version_fields)
          (user_fields (me_data previous))) (user_fields (me_data current)))\<rparr>"

text \<open>With a custom timestamp map that lacks a name, \<open>undefined\<close> is deleted.\<close>

definition timestamp_keys :: "(string \<times> schema_model) list \<Rightarrow> string \<Rightarrow> js_error + (string \<times> string)" where
  "timestamp_keys schema name =
     (case map_of schema name of
        None \<Rightarrow> Inl JsTypeError
      | Some sm \<Rightarrow>
          let attr = (case sm_attributes sm of None \<Rightarrow> None | Some as \<Rightarrow> find (\<lambda>a. attr_type a = ''model'') as)
          in (case attr of
                None \<Rightarrow> Inr (''createdAt'', ''updatedAt'')
              | Some a \<Rightarrow> (case attr_timestamps a of
                    None \<Rightarrow> Inr (''createdAt'', ''updatedAt'')
                  | Some (c, u) \<Rightarrow> Inr (case c of None \<Rightarrow> ''undefined'' | Some k \<Rightarrow> k,
                                       case u of None \<Rightarrow> ''undefined'' | Some k \<Rightarrow> k))))"

definition removeTimestampFields ::
  "(string \<times> schema_model) list \<Rightarrow> string \<Rightarrow> model \<Rightarrow> js_error + model" where
  "removeTimestampFields schema name r =
     (case timestamp_keys schema name of
        Inl e \<Rightarrow> Inl e
      | Inr (c, u) \<Rightarrow> Inr (AList.delete u (AList.delete c r)))"

section \<open>The outbox\<close>

definition pending :: "outbox \<Rightarrow> string \<Rightarrow> mutation_event \<Rightarrow> bool" where
  "pending ob mid ev \<longleftrightarrow> me_modelId ev = mid \<and> Some (me_id ev) \<noteq> inProgress ob"

definition enqueue :: "mutation_event \<Rightarrow> outbox \<Rightarrow> outbox" where
  "enqueue ev ob =
     (let P = pending ob (me_modelId ev)
      in case find P (q_events ob) of
           None \<Rightarrow> q_save ev ob
         | Some first \<Rightarrow>
             if me_operation first = CreateOp then
               (if me_operation ev = DeleteOp then q_delete_where P ob
                else q_save (first\<lparr>me_data := me_data (mergeUserFields first ev)\<rparr>) ob)
             else if me_condition ev = [] then
               q_save (mergeUserFields first ev) (q_delete_where P ob)
             else q_save ev ob)"

definition peek :: "outbox \<Rightarrow> mutation_event option \<times> outbox" where
  "peek ob =
     (case q_events ob of
        [] \<Rightarrow> (None, ob\<lparr>inProgress := None\<rparr>)
      | h # _ \<Rightarrow> (Some h, ob\<lparr>inProgress := Some (me_id h)\<rparr>))"

definition getForModel :: "js_env \<Rightarrow> schema_model \<Rightarrow> model \<Rightarrow> outbox \<Rightarrow> mutation_event list" where
  "getForModel E sm m ob = filter (\<lambda>ev. me_modelId ev = getIdentifierValue E sm m) (q_events ob)"

definition getModelIds :: "outbox \<Rightarrow> string list" where
  "getModelIds ob = js_set (map me_modelId (q_events ob))"

text \<open>
  The reconciled mutations are deleted together and saved again in order, so they go to the end of the
  queue.
\<close>

definition with_version :: "model \<Rightarrow> mutation_event \<Rightarrow> mutation_event" where
  "with_version r ev = ev\<lparr>me_data := json_clean (spread (me_data ev)
     [(''_version'', field_of r ''_version''), (''_lastChangedAt'', field_of r ''_lastChangedAt'')])\<rparr>"

definition syncOutboxVersionsOnDequeue ::
  "js_env \<Rightarrow> (string \<times> schema_model) list \<Rightarrow> model \<Rightarrow> mutation_event option \<Rightarrow> mutation_type \<Rightarrow>
   (outbox, js_error, unit) amethod" where
  "syncOutboxVersionsOnDequeue E schema r head recordOp ob =
     (case head of
        None \<Rightarrow> (Inr (), ob)
      | Some h \<Rightarrow>
          if me_operation h \<noteq> recordOp then (Inr (), ob)
          else (case removeTimestampFields schema (me_model h) (user_fields r) of
              Inl e \<Rightarrow> (Inl e, ob)
            | Inr incomingData \<Rightarrow>
              (case removeTimestampFields schema (me_model h) (user_fields (me_data h)) of
                 Inl e \<Rightarrow> (Inl e, ob)
               | Inr outgoingData \<Rightarrow>
                 if \<not> directedValueEquality outgoingData incomingData True then (Inr (), ob)
                 else (case map_of schema (me_model h) of
                     None \<Rightarrow> (Inl JsTypeError, ob)
                   | Some sm \<Rightarrow>
                     let P = pending ob (getIdentifierValue E sm r);
                         outdated = filter P (q_events ob)
                     in if outdated = [] then (Inr (), ob)
                        else (Inr (), fold q_save (map (with_version r) outdated) (q_delete_where P ob))))))"

definition dequeue ::
  "js_env \<Rightarrow> (string \<times> schema_model) list \<Rightarrow> (model \<times> mutation_type) option \<Rightarrow>
   (outbox, js_error, mutation_event option) amethod" where
  "dequeue E schema r ob =
     (case peek ob of (head, ob1) \<Rightarrow>
        mbind (case r of None \<Rightarrow> mreturn () | Some (m, op) \<Rightarrow> syncOutboxVersionsOnDequeue E schema m head op)
          (\<lambda>_ ob2. (Inr head,
             (case head of None \<Rightarrow> ob2
              | Some h \<Rightarrow> ob2\<lparr>queue := AList.delete (me_id h) (queue ob2)\<rparr>)\<lparr>inProgress := None\<rparr>)) ob1)"

section \<open>Merging records from the service\<close>

datatype op_type = INSERT | UPDATE | DELETE

type_synonym user_store = "(string, model) omap"

definition is_deleted :: "model \<Rightarrow> bool" where
  "is_deleted m \<longleftrightarrow> truthy (field_of m ''_deleted'')"

definition store_save :: "string \<Rightarrow> model \<Rightarrow> user_store \<Rightarrow> op_type \<times> user_store" where
  "store_save k m s = (if map_of s k = None then INSERT else UPDATE, AList.update k m s)"

definition merge ::
  "js_env \<Rightarrow> outbox \<Rightarrow> schema_model \<Rightarrow> model \<Rightarrow> user_store \<Rightarrow> op_type option \<times> user_store" where
  "merge E ob sm m s =
     (let k = getIdentifierValue E sm m
      in if getForModel E sm m ob = [] then
           (if is_deleted m then (Some DELETE, AList.delete k s)
            else (case store_save k m s of (r, s') \<Rightarrow> (Some r, s')))
         else (None, s))"

text \<open>
  \<open>batchSave\<close> on items with different keys: each is deleted or saved and the operation reported, except the
  deletion of a record that is not there.
\<close>

fun batchSave :: "(string \<times> model) list \<Rightarrow> user_store \<Rightarrow> (model \<times> op_type) list \<times> user_store" where
  "batchSave [] s = ([], s)"
| "batchSave ((k, m) # page) s =
     (if is_deleted m then
        (case batchSave page (AList.delete k s) of
           (rs, s') \<Rightarrow> (if map_of s k = None then rs else (m, DELETE) # rs, s'))
      else
        (case store_save k m s of (op, s1) \<Rightarrow>
           (case batchSave page s1 of (rs, s') \<Rightarrow> ((m, op) # rs, s'))))"

definition mergePage ::
  "js_env \<Rightarrow> schema_model \<Rightarrow> model list \<Rightarrow> user_store \<Rightarrow> (model \<times> op_type) list \<times> user_store" where
  "mergePage E sm items s =
     batchSave (fold (\<lambda>item m. AList.update (getIdentifierValue E sm item) item m) items []) s"

end
