(* ===== verification/OutboxProofs.thy ===== *)
theory OutboxProofs
  imports Outbox DataStoreKeysProofs
begin

text \<open>
  The outbox holds at most one mutation per record besides the one in flight, merging loses no field, the
  mutation in flight is never touched, mutations leave in order with the version of the service's answer
  handed on, and records of the service never overwrite a record with a pending mutation.
\<close>

section \<open>The queue as a list of events\<close>

definition q_list :: "outbox \<Rightarrow> mutation_event list \<Rightarrow> bool" where
  "q_list ob evs \<longleftrightarrow> queue ob = map (\<lambda>ev. (me_id ev, ev)) evs \<and> distinct (map me_id evs)"

lemma q_list_events: "q_list ob evs \<Longrightarrow> q_events ob = evs"
  by (simp add: q_list_def q_events_def comp_def)

lemma update_fresh:
  "me_id ev \<notin> me_id ` set evs \<Longrightarrow>
   AList.update (me_id ev) ev (map (\<lambda>ev. (me_id ev, ev)) evs) = map (\<lambda>ev. (me_id ev, ev)) (evs @ [ev])"
  by (induction evs) auto

lemma update_known:
  "me_id ev \<in> me_id ` set evs \<Longrightarrow> distinct (map me_id evs) \<Longrightarrow>
   AList.update (me_id ev) ev (map (\<lambda>ev. (me_id ev, ev)) evs) =
   map (\<lambda>ev. (me_id ev, ev)) (map (\<lambda>e. if me_id e = me_id ev then ev else e) evs)"
proof (induction evs)
  case (Cons e evs)
  show ?case
  proof (cases "me_id e = me_id ev")
    case True
    with Cons.prems have "me_id ev \<notin> me_id ` set evs" by auto
    then have "\<forall>e' \<in> set evs. me_id e' \<noteq> me_id ev" by (metis imageI)
    with True show ?thesis by (simp cong: map_cong)
  next
    case False
    with Cons show ?thesis by auto
  qed
qed simp

lemma q_save_fresh:
  "q_list ob evs \<Longrightarrow> me_id ev \<notin> me_id ` set evs \<Longrightarrow> q_list (q_save ev ob) (evs @ [ev])"
  by (simp add: q_list_def q_save_def update_fresh)

lemma q_save_known:
  assumes "q_list ob evs" and "me_id ev \<in> me_id ` set evs"
  shows "q_list (q_save ev ob) (map (\<lambda>e. if me_id e = me_id ev then ev else e) evs)"
proof -
  have "map me_id (map (\<lambda>e. if me_id e = me_id ev then ev else e) evs) = map me_id evs" by simp
  then show ?thesis
    using assms unfolding q_list_def by (simp add: q_save_def update_known del: map_map)
qed

lemma q_delete_list:
  assumes "q_list ob evs"
  shows "q_list (q_delete_where P ob) (filter (\<lambda>ev. \<not> P ev) evs)"
proof -
  have "filter (\<lambda>(k, ev). \<not> P ev) (map (\<lambda>ev. (me_id ev, ev)) evs) = map (\<lambda>ev. (me_id ev, ev)) (filter (\<lambda>ev. \<not> P ev) evs)"
    by (simp add: filter_map comp_def)
  then show ?thesis
    using assms by (auto simp: q_list_def q_delete_where_def distinct_map inj_on_def)
qed

lemma inProgress_simps [simp]:
  "inProgress (q_save ev ob) = inProgress ob" "inProgress (q_delete_where P ob) = inProgress ob"
  by (simp_all add: q_save_def q_delete_where_def)

lemma q_save_all:
  "q_list ob evs \<Longrightarrow> distinct (map me_id new) \<Longrightarrow> me_id ` set new \<inter> me_id ` set evs = {} \<Longrightarrow>
   q_list (fold q_save new ob) (evs @ new) \<and> inProgress (fold q_save new ob) = inProgress ob"
proof (induction new arbitrary: ob evs)
  case (Cons n new)
  have "q_list (q_save n ob) (evs @ [n])" using Cons.prems by (intro q_save_fresh) auto
  from Cons.IH [OF this] Cons.prems show ?case by auto
qed simp

section \<open>One pending mutation per record\<close>

definition pend :: "string option \<Rightarrow> mutation_event list \<Rightarrow> mutation_event list" where
  "pend ip evs = filter (\<lambda>ev. Some (me_id ev) \<noteq> ip) evs"

definition outbox_ok :: "outbox \<Rightarrow> bool" where
  "outbox_ok ob \<longleftrightarrow> (\<exists>evs. q_list ob evs \<and> distinct (map me_modelId (pend (inProgress ob) evs)) \<and>
     (case inProgress ob of None \<Rightarrow> True | Some i \<Rightarrow> evs \<noteq> [] \<and> me_id (hd evs) = i))"

lemma pend_append: "pend ip (xs @ ys) = pend ip xs @ pend ip ys"
  by (simp add: pend_def)

lemma pend_Nil: "pend ip [] = []"
  by (simp add: pend_def)

lemma pend_Cons: "pend ip (x # xs) = (if Some (me_id x) \<noteq> ip then x # pend ip xs else pend ip xs)"
  by (simp add: pend_def)

lemma find_pending: "find (pending ob mid) evs = find (\<lambda>ev. me_modelId ev = mid) (pend (inProgress ob) evs)"
  by (induction evs) (auto simp: pending_def pend_def)

lemma find_pend_None:
  "find (\<lambda>ev. me_modelId ev = mid) evs = None \<longleftrightarrow> mid \<notin> me_modelId ` set evs"
  by (auto simp: find_None_iff)

lemma merge_fields [simp]:
  "me_id (mergeUserFields p c) = me_id c" "me_modelId (mergeUserFields p c) = me_modelId c"
  "me_operation (mergeUserFields p c) = me_operation c" "me_model (mergeUserFields p c) = me_model c"
  by (simp_all add: mergeUserFields_def)

lemma distinct_filter_model:
  "distinct (map me_modelId evs) \<Longrightarrow> distinct (map me_modelId (filter P evs))"
  by (auto simp: distinct_map inj_on_def)

text \<open>What \<open>enqueue\<close> of an event without a condition and with a new id does to the list.\<close>

definition enqueue_list :: "string option \<Rightarrow> mutation_event \<Rightarrow> mutation_event list \<Rightarrow> mutation_event list" where
  "enqueue_list ip ev evs =
     (let P = (\<lambda>e. me_modelId e = me_modelId ev \<and> Some (me_id e) \<noteq> ip)
      in case find (\<lambda>e. me_modelId e = me_modelId ev) (pend ip evs) of
           None \<Rightarrow> evs @ [ev]
         | Some first \<Rightarrow>
             if me_operation first = CreateOp then
               (if me_operation ev = DeleteOp then filter (\<lambda>e. \<not> P e) evs
                else map (\<lambda>e. if me_id e = me_id first then first\<lparr>me_data := me_data (mergeUserFields first ev)\<rparr> else e) evs)
             else filter (\<lambda>e. \<not> P e) evs @ [mergeUserFields first ev])"

lemma enqueue_list_eq:
  assumes q: "q_list ob evs" and "me_condition ev = []" and new: "me_id ev \<notin> me_id ` set evs"
  shows "q_list (enqueue ev ob) (enqueue_list (inProgress ob) ev evs) \<and> inProgress (enqueue ev ob) = inProgress ob"
proof (cases "find (\<lambda>e. me_modelId e = me_modelId ev) (pend (inProgress ob) evs)")
  case None
  then show ?thesis
    using q_save_fresh [OF q new] q_list_events [OF q] by (simp add: enqueue_def find_pending enqueue_list_def)
next
  case (Some first)
  then have mem: "first \<in> set evs" by (auto simp: find_Some_iff pend_def dest!: nth_mem)
  let ?P = "pending ob (me_modelId ev)"
  let ?u = "first\<lparr>me_data := me_data (mergeUserFields first ev)\<rparr>"
  have "q_list (q_delete_where ?P ob) (filter (\<lambda>e. \<not> ?P e) evs)" by (rule q_delete_list [OF q])
  moreover from this have "q_list (q_save (mergeUserFields first ev) (q_delete_where ?P ob))
      (filter (\<lambda>e. \<not> ?P e) evs @ [mergeUserFields first ev])"
    using new by (intro q_save_fresh) auto
  moreover have "q_list (q_save ?u ob) (map (\<lambda>e. if me_id e = me_id ?u then ?u else e) evs)"
    using mem by (intro q_save_known [OF q]) auto
  ultimately show ?thesis
    using Some assms(2) q_list_events [OF q]
    by (simp add: enqueue_def find_pending enqueue_list_def pending_def Let_def)
qed

lemma find_pend_mem: "find P (pend ip evs) = Some x \<Longrightarrow> x \<in> set evs \<and> P x \<and> Some (me_id x) \<noteq> ip"
  by (induction evs) (auto simp: pend_def split: if_splits)

lemma enqueue_list_ids: "me_id ` set (enqueue_list ip ev evs) \<subseteq> insert (me_id ev) (me_id ` set evs)"
  by (auto simp: enqueue_list_def Let_def split: option.splits if_splits dest!: find_pend_mem)

lemma pend_models_update:
  "me_id u = me_id first \<Longrightarrow> (\<And>e. e \<in> set evs \<Longrightarrow> me_id e = me_id first \<Longrightarrow> me_modelId e = me_modelId u) \<Longrightarrow>
   map me_modelId (pend ip (map (\<lambda>e. if me_id e = me_id first then u else e) evs)) = map me_modelId (pend ip evs)"
  by (induction evs) (auto simp: pend_def)

lemma ids_inj: "distinct (map me_id evs) \<Longrightarrow> e \<in> set evs \<Longrightarrow> e' \<in> set evs \<Longrightarrow> me_id e = me_id e' \<Longrightarrow> e = e'"
  by (auto simp: distinct_map inj_on_def)

lemma enqueue_list_pend:
  assumes d: "distinct (map me_modelId (pend ip evs))" "distinct (map me_id evs)"
  shows "distinct (map me_modelId (pend ip (enqueue_list ip ev evs)))"
proof (cases "find (\<lambda>e. me_modelId e = me_modelId ev) (pend ip evs)")
  case None
  then show ?thesis using d by (simp add: enqueue_list_def pend_append) (auto simp: pend_def find_None_iff)
next
  case (Some first)
  let ?P = "\<lambda>e. me_modelId e = me_modelId ev \<and> Some (me_id e) \<noteq> ip"
  have f: "first \<in> set evs" using Some by (auto simp: find_Some_iff pend_def dest!: nth_mem)
  have "pend ip (filter (\<lambda>e. \<not> ?P e) evs) = filter (\<lambda>e. \<not> ?P e) (pend ip evs)"
    by (simp add: pend_def conj_commute)
  then have "distinct (map me_modelId (pend ip (filter (\<lambda>e. \<not> ?P e) evs)))"
    using distinct_filter_model [OF d(1)] by simp
  moreover have "me_modelId ev \<notin> me_modelId ` set (pend ip (filter (\<lambda>e. \<not> ?P e) evs))"
    by (auto simp: pend_def)
  moreover have "map me_modelId (pend ip (map (\<lambda>e. if me_id e = me_id first
      then first\<lparr>me_data := me_data (mergeUserFields first ev)\<rparr> else e) evs)) = map me_modelId (pend ip evs)"
    using ids_inj [OF d(2) _ f] by (intro pend_models_update) auto
  ultimately show ?thesis
    using Some d by (simp add: enqueue_list_def Let_def pend_append pend_Cons pend_Nil)
qed

lemma enqueue_list_hd:
  assumes "evs \<noteq> []" and "me_id (hd evs) = i"
  shows "enqueue_list (Some i) ev evs \<noteq> [] \<and> me_id (hd (enqueue_list (Some i) ev evs)) = i"
proof -
  obtain h t where "evs = h # t" using assms(1) by (cases evs) auto
  with assms(2) show ?thesis
    by (auto simp: enqueue_list_def Let_def find_Some_iff pend_def split: option.splits)
qed

lemma enqueue_ok:
  assumes "outbox_ok ob" and "me_condition ev = []" and "me_id ev \<notin> me_id ` set (q_events ob)"
  shows "outbox_ok (enqueue ev ob)"
proof -
  obtain evs where evs: "q_list ob evs" "distinct (map me_modelId (pend (inProgress ob) evs))"
      "case inProgress ob of None \<Rightarrow> True | Some i \<Rightarrow> evs \<noteq> [] \<and> me_id (hd evs) = i"
    using assms(1) by (auto simp: outbox_ok_def)
  have e: "q_list (enqueue ev ob) (enqueue_list (inProgress ob) ev evs)" "inProgress (enqueue ev ob) = inProgress ob"
    using enqueue_list_eq [OF evs(1) assms(2)] assms(3) q_list_events [OF evs(1)] by auto
  have "distinct (map me_modelId (pend (inProgress ob) (enqueue_list (inProgress ob) ev evs)))"
    using evs by (intro enqueue_list_pend) (auto simp: q_list_def)
  moreover have "case inProgress ob of None \<Rightarrow> True | Some i \<Rightarrow>
      enqueue_list (inProgress ob) ev evs \<noteq> [] \<and> me_id (hd (enqueue_list (inProgress ob) ev evs)) = i"
    using evs(3) by (auto simp: enqueue_list_hd split: option.splits)
  ultimately show ?thesis using e by (auto simp: outbox_ok_def)
qed

section \<open>Taking mutations out\<close>

lemma peek_list:
  assumes "q_list ob evs"
  shows "peek ob = (case evs of [] \<Rightarrow> (None, ob\<lparr>inProgress := None\<rparr>) | h # _ \<Rightarrow> (Some h, ob\<lparr>inProgress := Some (me_id h)\<rparr>))"
  using q_list_events [OF assms] by (simp add: peek_def)

lemma q_list_inProgress [simp]: "q_list (ob\<lparr>inProgress := x\<rparr>) evs \<longleftrightarrow> q_list ob evs"
  by (simp add: q_list_def)

lemma peek_ok:
  assumes "outbox_ok ob"
  shows "outbox_ok (snd (peek ob))"
proof -
  obtain evs where evs: "q_list ob evs" "distinct (map me_modelId (pend (inProgress ob) evs))"
      "case inProgress ob of None \<Rightarrow> True | Some i \<Rightarrow> evs \<noteq> [] \<and> me_id (hd evs) = i"
    using assms by (auto simp: outbox_ok_def)
  show ?thesis
  proof (cases evs)
    case Nil
    then show ?thesis using evs by (auto simp: outbox_ok_def peek_list [OF evs(1)] pend_def)
  next
    case (Cons h t)
    then have "distinct (map me_modelId (pend (Some (me_id h)) evs))"
      using evs(2,3) distinct_filter_model [of t]
      by (cases "inProgress ob") (auto simp: pend_def)
    then show ?thesis
      using Cons evs(1) by (auto simp: outbox_ok_def peek_list [OF evs(1)] intro: exI [of _ evs])
  qed
qed

text \<open>Whether the answer of the service confirms the mutation that was sent.\<close>

definition confirms :: "(string \<times> schema_model) list \<Rightarrow> model \<Rightarrow> mutation_event \<Rightarrow> mutation_type \<Rightarrow> bool" where
  "confirms schema r h op \<longleftrightarrow> me_operation h = op \<and>
     (\<exists>incoming outgoing. removeTimestampFields schema (me_model h) (user_fields r) = Inr incoming \<and>
        removeTimestampFields schema (me_model h) (user_fields (me_data h)) = Inr outgoing \<and>
        directedValueEquality outgoing incoming True)"

lemma with_version_fields [simp]:
  "me_id (with_version r ev) = me_id ev" "me_modelId (with_version r ev) = me_modelId ev"
  by (simp_all add: with_version_def)

definition synced :: "(mutation_event \<Rightarrow> bool) \<Rightarrow> model \<Rightarrow> mutation_event list \<Rightarrow> mutation_event list" where
  "synced P r evs = filter (\<lambda>e. \<not> P e) evs @ map (with_version r) (filter P evs)"

lemma sync_list:
  assumes q: "q_list ob evs" and s: "map_of schema (me_model h) = Some sm"
  shows "\<exists>ob'. syncOutboxVersionsOnDequeue E schema r (Some h) op ob = (Inr (), ob') \<and>
           inProgress ob' = inProgress ob \<and>
           q_list ob' (if confirms schema r h op then synced (pending ob (getIdentifierValue E sm r)) r evs else evs)"
proof -
  let ?P = "pending ob (getIdentifierValue E sm r)"
  have "\<exists>c u. timestamp_keys schema (me_model h) = Inr (c, u)"
    using s by (cases "case sm_attributes sm of None \<Rightarrow> None | Some as \<Rightarrow> find (\<lambda>a. attr_type a = ''model'') as")
      (auto simp: timestamp_keys_def Let_def split: option.split)
  then obtain inc out where t: "removeTimestampFields schema (me_model h) (user_fields r) = Inr inc"
      "removeTimestampFields schema (me_model h) (user_fields (me_data h)) = Inr out"
    by (auto simp: removeTimestampFields_def)
  show ?thesis
  proof (cases "confirms schema r h op \<and> filter ?P evs \<noteq> []")
    case False
    have "confirms schema r h op \<Longrightarrow> synced ?P r evs = evs"
      using False by (auto simp: synced_def filter_id_conv filter_empty_conv)
    with False q show ?thesis
      by (auto simp: syncOutboxVersionsOnDequeue_def t s confirms_def q_list_events [OF q] Let_def)
  next
    case True
    let ?new = "map (with_version r) (filter ?P evs)"
    have ids: "map me_id ?new = map me_id (filter ?P evs)" by simp
    have d: "distinct (map me_id evs)" using q by (simp add: q_list_def)
    have "q_list (fold q_save ?new (q_delete_where ?P ob)) (synced ?P r evs) \<and>
        inProgress (fold q_save ?new (q_delete_where ?P ob)) = inProgress (q_delete_where ?P ob)"
      unfolding synced_def
    proof (rule q_save_all [OF q_delete_list [OF q]])
      show "distinct (map me_id ?new)" unfolding ids using d by (auto simp: distinct_map inj_on_def)
      show "me_id ` set ?new \<inter> me_id ` set (filter (\<lambda>e. \<not> ?P e) evs) = {}"
        using ids_inj [OF d] by fastforce
    qed
    with True show ?thesis
      by (auto simp: syncOutboxVersionsOnDequeue_def t s confirms_def q_list_events [OF q] Let_def)
  qed
qed

lemma delete_hd:
  assumes "q_list ob evs"
  shows "q_list (ob\<lparr>queue := AList.delete i (queue ob)\<rparr>) (filter (\<lambda>e. me_id e \<noteq> i) evs)"
proof -
  have "AList.delete i (map (\<lambda>ev. (me_id ev, ev)) evs) = map (\<lambda>ev. (me_id ev, ev)) (filter (\<lambda>e. me_id e \<noteq> i) evs)"
    by (induction evs) auto
  then show ?thesis using assms by (auto simp: q_list_def distinct_map inj_on_def)
qed

lemma id_notin: "i \<notin> me_id ` set t \<Longrightarrow> e \<in> set t \<Longrightarrow> me_id e \<noteq> i"
  by (metis imageI)

lemma filter_notin: "i \<notin> me_id ` set t \<Longrightarrow> filter (\<lambda>e. me_id e \<noteq> i) t = t"
  by (simp add: filter_id_conv id_notin)

lemma q_list_Cons: "q_list ob (h # t) \<Longrightarrow> me_id h \<notin> me_id ` set t"
  by (simp add: q_list_def)

definition for_record :: "string \<Rightarrow> mutation_event \<Rightarrow> bool" where
  "for_record k ev \<longleftrightarrow> me_modelId ev = k"

lemma synced_ids: "set (map me_id (synced P r evs)) = set (map me_id evs)"
  by (auto simp: synced_def)

lemma drop_head_synced:
  assumes "me_id h \<notin> me_id ` set t"
  shows "filter (\<lambda>e. me_id e \<noteq> me_id h)
           (synced (\<lambda>e. me_modelId e = k \<and> Some (me_id e) \<noteq> Some (me_id h)) r (h # t)) =
         synced (for_record k) r t"
proof -
  have "e \<in> set t \<Longrightarrow> me_id e \<noteq> me_id h" for e using assms by (rule id_notin)
  then show ?thesis
    by (auto simp: synced_def for_record_def filter_map comp_def cong: filter_cong)
qed

lemma dequeue_eq:
  assumes q: "q_list ob (h # t)" and s: "map_of schema (me_model h) = Some sm"
  shows "\<exists>ob'. dequeue E schema (Some (r, op)) ob = (Inr (Some h), ob') \<and> inProgress ob' = None \<and>
           q_list ob' (if confirms schema r h op then synced (for_record (getIdentifierValue E sm r)) r t else t)"
proof -
  let ?ob1 = "ob\<lparr>inProgress := Some (me_id h)\<rparr>"
  let ?k = "getIdentifierValue E sm r"
  have p: "peek ob = (Some h, ?ob1)" by (simp add: peek_list [OF q])
  have q1: "q_list ?ob1 (h # t)" using q by simp
  have new: "me_id h \<notin> me_id ` set t" using q by (auto simp: q_list_def)
  from sync_list [where E = E and r = r and op = op, OF q1 s] obtain ob2 where
    ob2: "syncOutboxVersionsOnDequeue E schema r (Some h) op ?ob1 = (Inr (), ob2)"
      "q_list ob2 (if confirms schema r h op then synced (pending ?ob1 ?k) r (h # t) else h # t)" by auto
  have "pending ?ob1 ?k = (\<lambda>e. me_modelId e = ?k \<and> Some (me_id e) \<noteq> Some (me_id h))"
    by (simp add: pending_def fun_eq_iff)
  moreover have "filter (\<lambda>e. me_id e \<noteq> me_id h) (h # t) = t"
    using filter_notin [OF new] by simp
  ultimately have "q_list (ob2\<lparr>queue := AList.delete (me_id h) (queue ob2)\<rparr>)
      (if confirms schema r h op then synced (for_record ?k) r t else t)"
    using delete_hd [OF ob2(2), of "me_id h"] drop_head_synced [OF new, of ?k r] by (simp split: if_splits)
  then show ?thesis by (simp add: dequeue_def p mbind_def ob2(1))
qed

lemma dequeue_None: "q_list ob [] \<Longrightarrow> dequeue E schema r ob = (Inr None, ob\<lparr>inProgress := None\<rparr>)"
  by (simp add: dequeue_def peek_list mbind_def syncOutboxVersionsOnDequeue_def split: option.splits)

lemma dequeue_plain:
  assumes "q_list ob (h # t)"
  shows "\<exists>ob'. dequeue E schema None ob = (Inr (Some h), ob') \<and> inProgress ob' = None \<and> q_list ob' t"
proof -
  have "filter (\<lambda>e. me_id e \<noteq> me_id h) (h # t) = t"
    using filter_notin [OF q_list_Cons [OF assms]] by simp
  then show ?thesis
    using delete_hd [OF assms, of "me_id h"] by (simp add: dequeue_def peek_list [OF assms] mbind_def q_list_def)
qed

lemma synced_models: "distinct (map me_modelId evs) \<Longrightarrow> distinct (map me_modelId (synced P r evs))"
  by (auto simp: synced_def distinct_map inj_on_def)

lemma tail_pend_distinct:
  assumes "q_list ob (h # t)" and "distinct (map me_modelId (pend (inProgress ob) (h # t)))"
    and "case inProgress ob of None \<Rightarrow> True | Some i \<Rightarrow> me_id h = i"
  shows "distinct (map me_modelId t)"
proof -
  have "pend (Some (me_id h)) t = t" using filter_notin [OF q_list_Cons [OF assms(1)]] by (simp add: pend_def)
  then show ?thesis using assms(2,3) by (cases "inProgress ob") (auto simp: pend_Cons, simp add: pend_def)
qed

lemma pend_None [simp]: "pend None evs = evs"
  by (simp add: pend_def)

lemma dequeue_ok:
  assumes "outbox_ok ob" and "\<forall>h \<in> set (q_events ob). map_of schema (me_model h) \<noteq> None"
  shows "outbox_ok (snd (dequeue E schema r ob))"
proof -
  obtain evs where evs: "q_list ob evs" "distinct (map me_modelId (pend (inProgress ob) evs))"
      "case inProgress ob of None \<Rightarrow> True | Some i \<Rightarrow> evs \<noteq> [] \<and> me_id (hd evs) = i"
    using assms by (auto simp: outbox_ok_def)
  show ?thesis
  proof (cases evs)
    case Nil
    then show ?thesis using evs by (auto simp: outbox_ok_def dequeue_None)
  next
    case (Cons h t)
    have t: "distinct (map me_modelId t)"
    proof (rule tail_pend_distinct [of ob h t])
      show "case inProgress ob of None \<Rightarrow> True | Some i \<Rightarrow> me_id h = i"
        using evs(3) Cons by (cases "inProgress ob") auto
    qed (use evs Cons in simp_all)
    obtain sm where sm: "map_of schema (me_model h) = Some sm"
      using assms(2) q_list_events [OF evs(1)] Cons by auto
    have ql: "q_list ob (h # t)" using evs(1) Cons by simp
    show ?thesis
    proof (cases r)
      case None
      from dequeue_plain [OF ql, of E schema] obtain ob' where
        "dequeue E schema None ob = (Inr (Some h), ob')" "inProgress ob' = None" "q_list ob' t" by blast
      then show ?thesis using None t by (auto simp: outbox_ok_def)
    next
      case (Some mo)
      obtain m op where mo: "mo = (m, op)" by fastforce
      from dequeue_eq [OF ql sm, of E m op] obtain ob' where
        ob': "dequeue E schema (Some (m, op)) ob = (Inr (Some h), ob')" "inProgress ob' = None"
        "q_list ob' (if confirms schema m h op then synced (for_record (getIdentifierValue E sm m)) m t else t)"
        by blast
      note ob'(2,3)
      moreover have "distinct (map me_modelId
          (if confirms schema m h op then synced (for_record (getIdentifierValue E sm m)) m t else t))"
        using t synced_models by simp
      ultimately have "outbox_ok ob'"
        by (simp only: outbox_ok_def) (intro exI conjI, assumption, simp_all only: pend_None option.case)
      then show ?thesis by (simp add: Some mo ob'(1))
    qed
  qed
qed

section \<open>Sessions\<close>

datatype outbox_call = Enqueue mutation_event | Peek | Dequeue "(model \<times> mutation_type) option"

fun run_call :: "js_env \<Rightarrow> (string \<times> schema_model) list \<Rightarrow> outbox_call \<Rightarrow> outbox \<Rightarrow> outbox" where
  "run_call E schema (Enqueue ev) ob = enqueue ev ob"
| "run_call E schema Peek ob = snd (peek ob)"
| "run_call E schema (Dequeue r) ob = snd (dequeue E schema r ob)"

definition outbox_empty :: outbox where
  "outbox_empty = \<lparr>inProgress = None, queue = []\<rparr>"

definition enqueued :: "outbox_call list \<Rightarrow> mutation_event list" where
  "enqueued calls = concat (map (\<lambda>c. case c of Enqueue ev \<Rightarrow> [ev] | _ \<Rightarrow> []) calls)"

text \<open>The events queued have new ids, known models and no condition.\<close>

definition admissible :: "(string \<times> schema_model) list \<Rightarrow> outbox_call list \<Rightarrow> bool" where
  "admissible schema calls \<longleftrightarrow> distinct (map me_id (enqueued calls)) \<and>
     (\<forall>ev \<in> set (enqueued calls). me_condition ev = [] \<and> map_of schema (me_model ev) \<noteq> None)"

text \<open>Every event of the second queue descends from one of the first or is the new one.\<close>

definition descends :: "mutation_event set \<Rightarrow> mutation_event list \<Rightarrow> bool" where
  "descends A evs \<longleftrightarrow> (\<forall>e \<in> set evs. \<exists>e' \<in> A. me_id e = me_id e' \<and> me_model e = me_model e')"

lemma descends_refl: "set evs \<subseteq> A \<Longrightarrow> descends A evs"
  by (auto simp: descends_def)

lemma descends_append [simp]: "descends A (xs @ ys) \<longleftrightarrow> descends A xs \<and> descends A ys"
  by (auto simp: descends_def)

lemma enqueue_descends: "descends (insert ev (set evs)) (enqueue_list ip ev evs)"
  by (auto simp: descends_def enqueue_list_def Let_def split: option.splits dest!: find_pend_mem)

lemma synced_descends: "descends (set evs) (synced P r evs)"
  by (auto simp: descends_def synced_def with_version_def)

lemma dequeue_descends:
  assumes "q_list ob evs" and "\<forall>h \<in> set evs. map_of schema (me_model h) \<noteq> None"
  shows "descends (set evs) (q_events (snd (dequeue E schema r ob)))"
proof (cases evs)
  case Nil
  with assms show ?thesis by (simp add: dequeue_None q_events_def q_list_def descends_def)
next
  case (Cons h t)
  then have ql: "q_list ob (h # t)" using assms by simp
  obtain sm where sm: "map_of schema (me_model h) = Some sm" using assms(2) Cons by auto
  show ?thesis
  proof (cases r)
    case None
    then show ?thesis
      using dequeue_plain [OF ql, of E schema] Cons by (auto simp: q_list_events intro: descends_refl)
  next
    case (Some mo)
    obtain m op where mo: "mo = (m, op)" by fastforce
    let ?t = "if confirms schema m h op then synced (for_record (getIdentifierValue E sm m)) m t else t"
    obtain ob' where "dequeue E schema (Some (m, op)) ob = (Inr (Some h), ob')" "q_list ob' ?t"
      using dequeue_eq [OF ql sm, of E m op] by blast
    moreover have "descends (set t) ?t" by (simp add: synced_descends descends_refl)
    ultimately show ?thesis using Some mo Cons by (auto simp: q_list_events descends_def)
  qed
qed

lemma session_ok:
  assumes "outbox_ok ob" and "admissible schema calls"
    and "\<forall>e \<in> set (q_events ob). me_id e \<notin> me_id ` set (enqueued calls) \<and> map_of schema (me_model e) \<noteq> None"
  shows "outbox_ok (fold (run_call E schema) calls ob)"
  using assms
proof (induction calls arbitrary: ob)
  case (Cons c calls)
  obtain evs where evs: "q_list ob evs" using Cons.prems(1) by (auto simp: outbox_ok_def)
  have ev: "q_events ob = evs" by (rule q_list_events [OF evs])
  have next_step: "outbox_ok (fold (run_call E schema) calls ob')"
    if "outbox_ok ob'" and "descends (set evs \<union> set (enqueued [c])) (q_events ob')" for ob'
  proof (rule Cons.IH [OF that(1)])
    show "admissible schema calls" using Cons.prems(2) by (auto simp: admissible_def enqueued_def)
    have "e \<in> set evs \<union> set (enqueued [c]) \<Longrightarrow>
        me_id e \<notin> me_id ` set (enqueued calls) \<and> map_of schema (me_model e) \<noteq> None" for e
      using Cons.prems(2,3) ev by (auto simp: admissible_def enqueued_def split: outbox_call.splits)
    with that(2) show "\<forall>e \<in> set (q_events ob'). me_id e \<notin> me_id ` set (enqueued calls) \<and> map_of schema (me_model e) \<noteq> None"
      by (fastforce simp: descends_def)
  qed
  show ?case
  proof (cases c)
    case (Enqueue x)
    have x: "me_condition x = []" "me_id x \<notin> me_id ` set (q_events ob)"
      using Cons.prems Enqueue by (auto simp: admissible_def enqueued_def)
    have "q_events (enqueue x ob) = enqueue_list (inProgress ob) x evs"
      using enqueue_list_eq [OF evs x(1)] x(2) ev q_list_events by auto
    then have "outbox_ok (fold (run_call E schema) calls (enqueue x ob))"
      using enqueue_ok [OF Cons.prems(1) x] enqueue_descends [of x evs "inProgress ob"] Enqueue
      by (intro next_step) (simp_all add: enqueued_def)
    with Enqueue show ?thesis by simp
  next
    case Peek
    have "q_events (snd (peek ob)) = evs"
      using ev by (simp add: peek_list [OF evs] q_events_def split: list.split)
    then have "outbox_ok (fold (run_call E schema) calls (snd (peek ob)))"
      using peek_ok [OF Cons.prems(1)] by (intro next_step) (auto intro: descends_refl)
    with Peek show ?thesis by simp
  next
    case (Dequeue r)
    have known: "\<forall>h \<in> set evs. map_of schema (me_model h) \<noteq> None" using Cons.prems(3) ev by auto
    have "outbox_ok (snd (dequeue E schema r ob))" by (rule dequeue_ok [OF Cons.prems(1)]) (use ev known in simp)
    moreover have "descends (set evs \<union> set (enqueued [c])) (q_events (snd (dequeue E schema r ob)))"
      using dequeue_descends [OF evs known, of E r] by (auto simp: descends_def)
    ultimately have "outbox_ok (fold (run_call E schema) calls (snd (dequeue E schema r ob)))" by (rule next_step)
    with Dequeue show ?thesis by simp
  qed
qed simp

text \<open>
  C6. The outbox coalesces: after every session of unconditional mutations, peeks and dequeues, from an empty
  outbox, the mutations that are not in flight concern different records, all ids are different, and the
  mutation in flight is the first of the queue.
\<close>

theorem outbox_coalesces:
  fixes E :: js_env
  assumes "admissible schema calls"
  defines "ob \<equiv> fold (run_call E schema) calls outbox_empty"
  shows "distinct (map me_modelId (pend (inProgress ob) (q_events ob))) \<and> distinct (map me_id (q_events ob)) \<and>
         (\<forall>i. inProgress ob = Some i \<longrightarrow> q_events ob \<noteq> [] \<and> me_id (hd (q_events ob)) = i)"
proof -
  have "outbox_ok outbox_empty"
    by (auto simp: outbox_ok_def outbox_empty_def q_list_def)
  then have "outbox_ok ob"
    unfolding ob_def by (rule session_ok [OF _ assms(1)]) (simp add: outbox_empty_def q_events_def)
  then obtain evs where evs: "q_list ob evs" "distinct (map me_modelId (pend (inProgress ob) evs))"
      "case inProgress ob of None \<Rightarrow> True | Some i \<Rightarrow> evs \<noteq> [] \<and> me_id (hd evs) = i"
    by (auto simp: outbox_ok_def)
  have "q_events ob = evs" by (rule q_list_events [OF evs(1)])
  moreover have "distinct (map me_id evs)" using evs(1) by (simp add: q_list_def)
  ultimately show ?thesis using evs(2,3) by auto
qed

definition demo_event :: "string \<Rightarrow> mutation_type \<Rightarrow> model \<Rightarrow> mutation_event" where
  "demo_event i op d = \<lparr>me_id = i, me_model = ''Post'', me_modelId = ''p1'', me_operation = op, me_data = d,
     me_condition = []\<rparr>"

definition demo_calls :: "outbox_call list" where
  "demo_calls = [Enqueue (demo_event ''m1'' CreateOp [(''title'', JStr ''a'')]), Peek,
     Enqueue (demo_event ''m2'' UpdateOp [(''title'', JStr ''b'')]),
     Enqueue (demo_event ''m3'' UpdateOp [(''title'', JStr ''c'')])]"

theorem outbox_coalesces_witness:
  "distinct (map me_modelId (pend (inProgress (fold (run_call demo_js [(''Post'', demo_schema)]) demo_calls outbox_empty))
     (q_events (fold (run_call demo_js [(''Post'', demo_schema)]) demo_calls outbox_empty))))"
proof -
  have "admissible [(''Post'', demo_schema)] demo_calls"
    by (simp add: admissible_def enqueued_def demo_calls_def demo_event_def)
  from outbox_coalesces [where E = demo_js, OF this] show ?thesis by (rule conjunct1)
qed

section \<open>Merging loses no field\<close>

lemma map_of_spread:
  "okeys b \<Longrightarrow> map_of (spread a b) k = (case map_of b k of Some v \<Rightarrow> Some v | None \<Rightarrow> map_of a k)"
proof (induction b arbitrary: a)
  case (Cons x b)
  obtain j v where x: "x = (j, v)" by fastforce
  have "map_of b j = None" "okeys b" using Cons.prems x by (auto simp: okeys_Cons map_of_eq_None_iff)
  moreover have "spread a (x # b) = spread (AList.update j v a) b" by (simp add: spread_def x)
  ultimately show ?case using Cons.IH x by (auto split: option.split)
qed (simp add: spread_def)

lemma okeys_spread: "okeys a \<Longrightarrow> okeys (spread a b)"
  by (induction b arbitrary: a) (auto simp: spread_def)

lemma okeys_filter: "okeys m \<Longrightarrow> okeys (filter P m)"
  by (auto simp: okeys_def distinct_map inj_on_def)

lemma map_of_filter_key:
  "map_of (filter (\<lambda>(k, v). P k) m) k = (if P k then map_of m k else None)"
  by (induction m) auto

lemma map_of_clean:
  "okeys m \<Longrightarrow> map_of (json_clean m) k =
     (case map_of m k of None \<Rightarrow> None | Some v \<Rightarrow> if v = JUndefined then None else Some v)"
proof (induction m)
  case (Cons x m)
  obtain j v where x: "x = (j, v)" by fastforce
  have "map_of m j = None" "okeys m" using Cons.prems x by (auto simp: okeys_Cons map_of_eq_None_iff)
  then show ?case using Cons.IH x by (auto simp: json_clean_def)
qed (simp add: json_clean_def)

lemma field_of_clean: "okeys m \<Longrightarrow> field_of (json_clean m) k = field_of m k"
  by (auto simp: field_of_def map_of_clean split: option.split)

lemma field_of_merge:
  assumes "okeys (me_data p)" and "okeys (me_data c)"
  shows "field_of (me_data (mergeUserFields p c)) f =
    (if f \<in> set version_fields then field_of (me_data p) f
     else case map_of (me_data c) f of Some v \<Rightarrow> v | None \<Rightarrow> field_of (me_data p) f)"
proof -
  let ?v = "map (\<lambda>f. (f, field_of (me_data p) f)) version_fields"
  have v: "okeys ?v" by (simp add: version_fields_def okeys_def)
  have u: "okeys (user_fields (me_data p))" "okeys (user_fields (me_data c))"
    using assms by (simp_all add: user_fields_def okeys_filter)
  have m: "map_of ?v f = (if f \<in> set version_fields then Some (field_of (me_data p) f) else None)"
    by (simp add: version_fields_def)
  have um: "map_of (user_fields m) f = (if f \<in> set version_fields then None else map_of m f)" for m
    by (simp add: user_fields_def map_of_filter_key)
  have "field_of (me_data (mergeUserFields p c)) f = field_of (spread (spread ?v (user_fields (me_data p))) (user_fields (me_data c))) f"
    using v by (simp add: mergeUserFields_def field_of_clean okeys_spread)
  also have "\<dots> = (if f \<in> set version_fields then field_of (me_data p) f
     else case map_of (me_data c) f of Some v \<Rightarrow> v | None \<Rightarrow> field_of (me_data p) f)"
    by (simp only: field_of_def [of "spread a b" for a b] map_of_spread [OF u(2)] map_of_spread [OF u(1)] um m)
       (simp add: field_of_def split: option.split)
  finally show ?thesis .
qed



text \<open>Without a condition.\<close>

lemma enqueue_merges_plain:
  assumes ok: "outbox_ok ob" and new: "me_condition ev = []" "me_id ev \<notin> me_id ` set (q_events ob)"
    and first: "find (pending ob (me_modelId ev)) (q_events ob) = Some first"
    and data: "okeys (me_data first)" "okeys (me_data ev)"
  defines "ob' \<equiv> enqueue ev ob"
  shows "filter (\<lambda>e. \<not> pending ob (me_modelId ev) e) (q_events ob') =
           filter (\<lambda>e. \<not> pending ob (me_modelId ev) e) (q_events ob) \<and>
         (if me_operation first = CreateOp \<and> me_operation ev = DeleteOp
          then filter (pending ob (me_modelId ev)) (q_events ob') = []
          else \<exists>e. filter (pending ob (me_modelId ev)) (q_events ob') = [e] \<and>
            me_operation e = (if me_operation first = CreateOp then CreateOp else me_operation ev) \<and>
            (\<forall>f. field_of (me_data e) f = (if f \<in> set version_fields then field_of (me_data first) f
               else case map_of (me_data ev) f of Some v \<Rightarrow> v | None \<Rightarrow> field_of (me_data first) f)))"
proof -
  obtain evs where evs: "q_list ob evs" "distinct (map me_modelId (pend (inProgress ob) evs))"
      "case inProgress ob of None \<Rightarrow> True | Some i \<Rightarrow> evs \<noteq> [] \<and> me_id (hd evs) = i"
    using ok by (auto simp: outbox_ok_def)
  note ev = q_list_events [OF evs(1)]
  let ?P = "pending ob (me_modelId ev)"
  have e': "q_events ob' = enqueue_list (inProgress ob) ev evs"
    using enqueue_list_eq [OF evs(1) new(1)] new(2) ev q_list_events by (auto simp: ob'_def)
  have f: "find (\<lambda>e. me_modelId e = me_modelId ev) (pend (inProgress ob) evs) = Some first"
    using first ev by (simp add: find_pending)
  have P: "?P e \<longleftrightarrow> me_modelId e = me_modelId ev \<and> Some (me_id e) \<noteq> inProgress ob" for e
    by (simp add: pending_def)
  have "filter ?P evs = filter (\<lambda>e. me_modelId e = me_modelId ev) (pend (inProgress ob) evs)"
    by (simp add: pend_def pending_def [abs_def] conj_commute)
  then have single: "filter ?P evs = [first]" using filter_single [OF evs(2) f] by simp
  then have fm: "first \<in> set evs" "?P first" by (metis filter_eq_Cons_iff in_set_conv_decomp, metis filter_eq_ConsD)
  define u where "u = first\<lparr>me_data := me_data (mergeUserFields first ev)\<rparr>"
  define g where "g = (\<lambda>e. if me_id e = me_id first then u else e)"
  have ids: "distinct (map me_id evs)" using evs(1) by (simp add: q_list_def)
  have g: "?P (g e) = ?P e" "\<not> ?P e \<Longrightarrow> g e = e" if "e \<in> set evs" for e
    using ids_inj [OF ids that fm(1)] fm(2) by (auto simp: g_def u_def P)
  have fg: "filter ?P (map g evs) = [u]"
    using single g(1) by (simp add: filter_map comp_def g_def cong: filter_cong)
  have ng: "filter (\<lambda>e. \<not> ?P e) (map g evs) = filter (\<lambda>e. \<not> ?P e) evs"
    using g by (induction evs) auto
  have l: "enqueue_list (inProgress ob) ev evs =
      (if me_operation first = CreateOp then
         (if me_operation ev = DeleteOp then filter (\<lambda>e. \<not> ?P e) evs else map g evs)
       else filter (\<lambda>e. \<not> ?P e) evs @ [mergeUserFields first ev])"
    using f by (simp add: enqueue_list_def P g_def u_def)
  have ip: "Some (me_id ev) \<noteq> inProgress ob"
    using evs(3) new(2) ev by (cases "inProgress ob") (auto dest: hd_in_set)
  then have pm: "?P (mergeUserFields first ev)" by (simp add: P)
  have m: "\<forall>f. field_of (me_data (mergeUserFields first ev)) f = (if f \<in> set version_fields then field_of (me_data first) f
      else case map_of (me_data ev) f of Some v \<Rightarrow> v | None \<Rightarrow> field_of (me_data first) f)"
    by (intro allI field_of_merge data)
  show ?thesis
    unfolding e' l ev using fg ng pm m by (auto simp: u_def)
qed

lemma enqueue_ignores_condition:
  assumes "find (pending ob (me_modelId ev)) (q_events ob) = Some first" "me_operation first = CreateOp"
  shows "enqueue ev ob = enqueue (ev\<lparr>me_condition := []\<rparr>) ob"
  using assms by (simp add: enqueue_def mergeUserFields_def)

text \<open>
  C20. What queueing a mutation does to the pending one of its record, in a consistent outbox (at most one is pending
  besides the mutation in flight). The mutation in flight and the pending mutations of other records stay. A deletion
  cancels a pending creation. A mutation with a condition on a pending one that is not a creation is not merged: both
  are then pending, in their order and unchanged. In all other cases exactly one mutation is pending for the record, a
  creation staying a creation, whose version fields are the earlier one's and whose other fields are the incoming ones
  where given and the earlier ones elsewhere.
\<close>

theorem enqueue_merges:
  assumes ok: "outbox_ok ob" and new: "me_id ev \<notin> me_id ` set (q_events ob)"
    and first: "find (pending ob (me_modelId ev)) (q_events ob) = Some first"
    and data: "okeys (me_data first)" "okeys (me_data ev)"
  shows "filter (\<lambda>e. \<not> pending ob (me_modelId ev) e) (q_events (enqueue ev ob)) =
           filter (\<lambda>e. \<not> pending ob (me_modelId ev) e) (q_events ob) \<and>
         (if me_operation first = CreateOp \<and> me_operation ev = DeleteOp
          then filter (pending ob (me_modelId ev)) (q_events (enqueue ev ob)) = []
          else if me_operation first \<noteq> CreateOp \<and> me_condition ev \<noteq> []
          then filter (pending ob (me_modelId ev)) (q_events (enqueue ev ob)) = [first, ev]
          else \<exists>e. filter (pending ob (me_modelId ev)) (q_events (enqueue ev ob)) = [e] \<and>
            me_operation e = (if me_operation first = CreateOp then CreateOp else me_operation ev) \<and>
            (\<forall>f. field_of (me_data e) f = (if f \<in> set version_fields then field_of (me_data first) f
               else case map_of (me_data ev) f of Some v \<Rightarrow> v | None \<Rightarrow> field_of (me_data first) f)))"
proof (cases "me_operation first \<noteq> CreateOp \<and> me_condition ev \<noteq> []")
  case True
  obtain evs where evs: "q_list ob evs" "distinct (map me_modelId (pend (inProgress ob) evs))"
      "case inProgress ob of None \<Rightarrow> True | Some i \<Rightarrow> evs \<noteq> [] \<and> me_id (hd evs) = i"
    using ok by (auto simp: outbox_ok_def)
  note ev = q_list_events [OF evs(1)]
  have f: "find (\<lambda>e. me_modelId e = me_modelId ev) (pend (inProgress ob) evs) = Some first"
    using first ev by (simp add: find_pending)
  have "filter (pending ob (me_modelId ev)) evs = filter (\<lambda>e. me_modelId e = me_modelId ev) (pend (inProgress ob) evs)"
    by (simp add: pend_def pending_def [abs_def] conj_commute)
  then have single: "filter (pending ob (me_modelId ev)) evs = [first]" using filter_single [OF evs(2) f] by simp
  have ip: "pending ob (me_modelId ev) ev"
    using evs(3) new ev by (cases "inProgress ob") (auto simp: pending_def dest: hd_in_set)
  have "q_list (q_save ev ob) (evs @ [ev])" using q_save_fresh [OF evs(1)] new ev by simp
  then have "q_events (enqueue ev ob) = evs @ [ev]"
    using True first by (simp add: enqueue_def q_list_events)
  then show ?thesis using True single ip ev by simp
next
  case False
  define ev' where "ev' = ev\<lparr>me_condition := []\<rparr>"
  have same: "me_modelId ev' = me_modelId ev" "me_operation ev' = me_operation ev" "me_data ev' = me_data ev" "me_id ev' = me_id ev"
    by (simp_all add: ev'_def)
  have "me_condition ev = [] \<Longrightarrow> ev' = ev" unfolding ev'_def by (cases ev) simp
  then have eq: "enqueue ev ob = enqueue ev' ob"
    using False enqueue_ignores_condition [OF first] unfolding ev'_def [symmetric] by (cases "me_condition ev = []") simp_all
  have "me_condition ev' = []" by (simp add: ev'_def)
  note plain = enqueue_merges_plain [of ob ev' first, unfolded same, folded eq, OF ok this new first data]
  show ?thesis unfolding if_not_P [OF False] by (rule plain)
qed

definition demo_outbox :: outbox where
  "demo_outbox = enqueue (demo_event ''m1'' CreateOp [(''title'', JStr ''a''), (''_version'', JNum 1)]) outbox_empty"

theorem enqueue_merges_witness:
  "\<exists>e. filter (pending demo_outbox ''p1'')
      (q_events (enqueue (demo_event ''m2'' UpdateOp [(''title'', JStr ''b'')]) demo_outbox)) = [e] \<and>
     me_operation e = CreateOp \<and> field_of (me_data e) ''title'' = JStr ''b'' \<and>
     field_of (me_data e) ''_version'' = JNum 1"
proof -
  let ?a = "demo_event ''m1'' CreateOp [(''title'', JStr ''a''), (''_version'', JNum 1)]"
  let ?b = "demo_event ''m2'' UpdateOp [(''title'', JStr ''b'')]"
  have d: "demo_outbox = \<lparr>inProgress = None, queue = [(''m1'', ?a)]\<rparr>"
    by (simp add: demo_outbox_def outbox_empty_def enqueue_def q_events_def q_save_def demo_event_def Let_def)
  have "outbox_ok demo_outbox"
    unfolding outbox_ok_def by (rule exI [of _ "[?a]"]) (simp add: d q_list_def pend_def demo_event_def)
  moreover have "me_id ?b \<notin> me_id ` set (q_events demo_outbox)"
    "find (pending demo_outbox (me_modelId ?b)) (q_events demo_outbox) = Some ?a"
    "okeys (me_data ?a)" "okeys (me_data ?b)"
    by (simp_all add: d q_events_def pending_def demo_event_def okeys_def)
  ultimately show ?thesis
    using enqueue_merges [of demo_outbox ?b ?a] by (auto simp: demo_event_def version_fields_def field_of_def)
qed

section \<open>Order and versions\<close>

text \<open>
  C40. Mutations leave the outbox in order and hand the version on: \<open>dequeue\<close> with the record the service
  answered returns and removes the first mutation; when the answer confirms it (same operation, every
  field sent is in the answer), exactly the queued mutations of that record get the answer's version and
  go to the end, and otherwise nothing else changes.
\<close>

theorem dequeue_order_and_version:
  assumes "outbox_ok ob" and "q_events ob = h # rest" and "map_of schema (me_model h) = Some sm"
  shows "\<exists>ob'. dequeue E schema (Some (r, op)) ob = (Inr (Some h), ob') \<and> inProgress ob' = None \<and>
           q_events ob' = (if confirms schema r h op
              then filter (\<lambda>e. \<not> for_record (getIdentifierValue E sm r) e) rest @
                   map (with_version r) (filter (for_record (getIdentifierValue E sm r)) rest)
              else rest)"
proof -
  obtain evs where "q_list ob evs" using assms(1) by (auto simp: outbox_ok_def)
  with assms(2) have "q_list ob (h # rest)" using q_list_events by auto
  from dequeue_eq [OF this assms(3), of E r op] obtain ob' where
    "dequeue E schema (Some (r, op)) ob = (Inr (Some h), ob')" "inProgress ob' = None"
    "q_list ob' (if confirms schema r h op then synced (for_record (getIdentifierValue E sm r)) r rest else rest)"
    by blast
  then show ?thesis by (intro exI [of _ ob']) (simp add: q_list_events synced_def)
qed

theorem dequeue_order_and_version_witness:
  "\<exists>ob'. dequeue demo_js [(''Post'', demo_schema)] (Some ([], CreateOp)) demo_outbox =
     (Inr (Some (demo_event ''m1'' CreateOp [(''title'', JStr ''a''), (''_version'', JNum 1)])), ob') \<and>
     q_events ob' = []"
proof -
  let ?a = "demo_event ''m1'' CreateOp [(''title'', JStr ''a''), (''_version'', JNum 1)]"
  have d: "demo_outbox = \<lparr>inProgress = None, queue = [(''m1'', ?a)]\<rparr>"
    by (simp add: demo_outbox_def outbox_empty_def enqueue_def q_events_def q_save_def demo_event_def Let_def)
  have "outbox_ok demo_outbox"
    unfolding outbox_ok_def by (rule exI [of _ "[?a]"]) (simp add: d q_list_def pend_def demo_event_def)
  moreover have "q_events demo_outbox = [?a]" by (simp add: d q_events_def)
  moreover have "map_of [(''Post'', demo_schema)] (me_model ?a) = Some demo_schema" by (simp add: demo_event_def)
  ultimately show ?thesis
    using dequeue_order_and_version [of demo_outbox ?a "[]" "[(''Post'', demo_schema)]" demo_schema demo_js "[]" CreateOp]
    by (simp split: if_splits)
qed

section \<open>Merging what the service sends\<close>

lemmas fold_update_map_of = map_of_fold_update [where g = "\<lambda>item. item"]

lemma batchSave_store:
  assumes "okeys page"
  shows "map_of (snd (batchSave page s)) k =
    (case map_of page k of None \<Rightarrow> map_of s k | Some m \<Rightarrow> if is_deleted m then None else Some m)"
  using assms
proof (induction page s rule: batchSave.induct)
  case (2 j m page s)
  have j: "map_of page j = None" "okeys page" using 2 by (auto simp: okeys_Cons map_of_eq_None_iff)
  show ?case
    using 2 j by (auto simp: store_save_def split: prod.splits option.splits)
qed simp

text \<open>
  What the service sends never overwrites local work and arrives as sent last: \<open>merge\<close> leaves the store
  alone while any mutation of the record is queued, and stores or deletes the record otherwise; after
  \<open>mergePage\<close> each record of the page is the last one sent under its identifier, deleted if that one is
  marked so, and all others are as before.
\<close>

theorem merge_records:
  "(if \<exists>ev \<in> set (q_events ob). me_modelId ev = getIdentifierValue E sm m
    then merge E ob sm m s = (None, s)
    else map_of (snd (merge E ob sm m s)) (getIdentifierValue E sm m) = (if is_deleted m then None else Some m) \<and>
         (\<forall>k. k \<noteq> getIdentifierValue E sm m \<longrightarrow> map_of (snd (merge E ob sm m s)) k = map_of s k)) \<and>
   (\<forall>k. map_of (snd (mergePage E sm items s)) k =
     (case find (\<lambda>i. getIdentifierValue E sm i = k) (rev items) of
        None \<Rightarrow> map_of s k | Some i \<Rightarrow> if is_deleted i then None else Some i))"
proof -
  have "map_of (snd (mergePage E sm items s)) k =
     (case find (\<lambda>i. getIdentifierValue E sm i = k) (rev items) of
        None \<Rightarrow> map_of s k | Some i \<Rightarrow> if is_deleted i then None else Some i)" for k
    by (simp add: mergePage_def batchSave_store okeys_fold_update fold_update_map_of split: option.split)
  then show ?thesis
    by (auto simp: merge_def getForModel_def filter_empty_conv store_save_def Let_def)
qed

theorem merge_records_witness:
  "map_of (snd (mergePage demo_js demo_schema
     [[(''id'', JStr ''1''), (''t'', JNum 1)], [(''id'', JStr ''1''), (''t'', JNum 2)]] [])) ''1'' =
   Some [(''id'', JStr ''1''), (''t'', JNum 2)]"
  using merge_records [of outbox_empty demo_js demo_schema "[]" "[]"
      "[[(''id'', JStr ''1''), (''t'', JNum 1)], [(''id'', JStr ''1''), (''t'', JNum 2)]]", THEN conjunct2, rule_format, of "''1''"]
  by (simp add: getIdentifierValue_def extractPrimaryKeyFieldNames_def extractKeyIfExists_def demo_schema_simps
      ID_def field_of_def isNullOrUndefined_def is_deleted_def)

end
