(* ===== verification/AsyncStorageDb.thy ===== *)
theory AsyncStorageDb
  imports KeyValueStorage DataStoreUtil DataStoreKeys Outbox
begin

text \<open>
  \<open>AsyncStorageDatabase\<close> (\<open>datastore/src/storage/adapter/AsyncStorageDatabase.ts\<close>) over DataStore's
  key-value store: records live under \<open>@AmplifyDatastore::store::Data::ulid::id\<close> and an index in memory
  maps each store's identifiers to their ULIDs. The ULID library is the parameter \<open>mk\<close>: \<open>mk store n\<close> is
  the \<open>n\<close>-th ULID of the store's factory. A missing identifier or ULID is \<open>undefined\<close>, which a template
  string renders as text. Records are kept parsed: the texts of \<open>JSON.stringify\<close>, which \<open>JSON.parse\<close> reads back, are left out, so
  a record here has values that survive them (no \<open>undefined\<close>, no number without a text).
\<close>

definition DB_NAME :: string where "DB_NAME = ''@AmplifyDatastore''"
definition COLLECTION :: string where "COLLECTION = ''Collection''"
definition DATA :: string where "DATA = ''Data''"

definition KEY_SEP :: string where
  "KEY_SEP = '':'' @ '':''"

definition undefined_text :: "string option \<Rightarrow> string" where
  "undefined_text s = (case s of None \<Rightarrow> ''undefined'' | Some t \<Rightarrow> t)"

type_synonym collection = "(string option, string) omap"

record asdb =
  db_index :: "(string, collection) omap"
  db_kv :: "model kvs"
  db_ulids :: "string \<Rightarrow> nat"

definition getKeyPrefixForStoreItems :: "string \<Rightarrow> string" where
  "getKeyPrefixForStoreItems store = DB_NAME @ KEY_SEP @ store @ KEY_SEP @ DATA"

definition getKeyForItem :: "string \<Rightarrow> string option \<Rightarrow> string option \<Rightarrow> string" where
  "getKeyForItem store i ulid =
     getKeyPrefixForStoreItems store @ KEY_SEP @ undefined_text ulid @ KEY_SEP @ undefined_text i"

definition getLegacyKeyForItem :: "string \<Rightarrow> string option \<Rightarrow> string" where
  "getLegacyKeyForItem store i = getKeyPrefixForStoreItems store @ KEY_SEP @ undefined_text i"

definition collectionOf :: "asdb \<Rightarrow> string \<Rightarrow> collection" where
  "collectionOf db store = (case map_of (db_index db) store of None \<Rightarrow> [] | Some c \<Rightarrow> c)"

definition set_collection :: "string \<Rightarrow> collection \<Rightarrow> asdb \<Rightarrow> asdb" where
  "set_collection store c db = db\<lparr>db_index := AList.update store c (db_index db)\<rparr>"

definition new_ulid :: "(string \<Rightarrow> nat \<Rightarrow> string) \<Rightarrow> string \<Rightarrow> asdb \<Rightarrow> string \<times> asdb" where
  "new_ulid mk store db =
     (mk store (db_ulids db store), db\<lparr>db_ulids := (db_ulids db)(store := Suc (db_ulids db store))\<rparr>)"

section \<open>Loading the index\<close>

text \<open>\<open>key.split('::')\<close>.\<close>

fun split_key :: "string \<Rightarrow> string list" where
  "split_key [] = [[]]"
| "split_key [c] = [[c]]"
| "split_key (c # d # s) =
     (if c = CHR '':'' \<and> d = CHR '':'' then [] # split_key s
      else (case split_key (d # s) of [] \<Rightarrow> [[c]] | w # ws \<Rightarrow> (c # w) # ws))"

definition part :: "string list \<Rightarrow> nat \<Rightarrow> string option" where
  "part ws i = (if i < length ws then Some (ws ! i) else None)"

text \<open>One key of the loop in \<open>init\<close>; the second component collects the keys of old collection entries.\<close>

definition init_step ::
  "(string \<Rightarrow> nat \<Rightarrow> string) \<Rightarrow> string \<Rightarrow> asdb \<times> string list \<Rightarrow> asdb \<times> string list" where
  "init_step mk key st =
     (case st of (db, old) \<Rightarrow>
       let ws = split_key key; store = undefined_text (part ws 1) in
       if part ws 0 = Some DB_NAME then
         if part ws 2 = Some DATA then
           (case part ws 4 of
              None \<Rightarrow>
                (case new_ulid mk store db of (u, db1) \<Rightarrow>
                  let oldKey = getLegacyKeyForItem store (part ws 3);
                      newKey = getKeyForItem store (part ws 3) (Some u);
                      kv1 = (case dst_getItem (db_kv db1) oldKey of
                               None \<Rightarrow> db_kv db1 | Some item \<Rightarrow> dst_setItem newKey item (db_kv db1));
                      db2 = db1\<lparr>db_kv := dst_removeItem oldKey kv1\<rparr>
                  in (set_collection store (AList.update None u (collectionOf db2 store)) db2, old))
            | Some i \<Rightarrow>
                (set_collection store (AList.update (Some i) (undefined_text (part ws 3)) (collectionOf db store)) db, old))
         else if part ws 2 = Some COLLECTION then (db, old @ [key])
         else (db, old)
       else (db, old))"

definition db_init :: "(string \<Rightarrow> nat \<Rightarrow> string) \<Rightarrow> asdb \<Rightarrow> asdb" where
  "db_init mk db =
     (case fold (init_step mk) (dst_getAllKeys (db_kv db)) (db\<lparr>db_index := []\<rparr>, []) of
        (db1, old) \<Rightarrow> if old \<noteq> [] then db1\<lparr>db_kv := dst_multiRemove old (db_kv db1)\<rparr> else db1)"

section \<open>Records\<close>

text \<open>\<open>save\<close> looks the ULID up under the name of the key's index, not under the identifier.\<close>

definition db_save ::
  "(string \<Rightarrow> nat \<Rightarrow> string) \<Rightarrow> model \<Rightarrow> string \<Rightarrow> string list \<Rightarrow> string \<Rightarrow> asdb \<Rightarrow> asdb" where
  "db_save mk item store keys keyValuesPath db =
     (case (case map_of (collectionOf db store) (Some (indexNameFromKeys keys)) of
              Some u \<Rightarrow> if u = [] then new_ulid mk store db else (u, db)
            | None \<Rightarrow> new_ulid mk store db) of
        (u, db1) \<Rightarrow>
          (set_collection store (AList.update (Some keyValuesPath) u (collectionOf db1 store)) db1)
            \<lparr>db_kv := dst_setItem (getKeyForItem store (Some keyValuesPath) (Some u)) item (db_kv db1)\<rparr>)"

definition db_get :: "string \<Rightarrow> string \<Rightarrow> asdb \<Rightarrow> model option" where
  "db_get keyValuePath store db =
     dst_getItem (db_kv db)
       (getKeyForItem store (Some keyValuePath) (map_of (collectionOf db store) (Some keyValuePath)))"

definition db_delete :: "string \<Rightarrow> string \<Rightarrow> asdb \<Rightarrow> asdb" where
  "db_delete key store db =
     (let itemKey = getKeyForItem store (Some key) (map_of (collectionOf db store) (Some key))
      in (set_collection store (AList.delete (Some key) (collectionOf db store)) db)
           \<lparr>db_kv := dst_removeItem itemKey (db_kv db)\<rparr>)"

definition db_getOne :: "bool \<Rightarrow> string \<Rightarrow> asdb \<Rightarrow> model option" where
  "db_getOne isFirst store db =
     (let c = collectionOf db store;
          entry = (if c = [] then (None, None)
                   else if isFirst then (fst (hd c), Some (snd (hd c))) else (fst (last c), Some (snd (last c))))
      in dst_getItem (db_kv db) (getKeyForItem store (fst entry) (snd entry)))"

text \<open>The counting loop of \<open>getAll\<close>; \<open>stop\<close> is \<open>None\<close> without a limit.\<close>

fun getAll_loop :: "string \<Rightarrow> collection \<Rightarrow> int \<Rightarrow> int option \<Rightarrow> int \<Rightarrow> string list" where
  "getAll_loop store [] start stop count = []"
| "getAll_loop store ((i, u) # c) start stop count =
     (let count1 = count + 1 in
      if count1 \<le> start then getAll_loop store c start stop count1
      else getKeyForItem store i (Some u) #
        (if Some count1 = stop then [] else getAll_loop store c start stop count1))"

definition db_getAll :: "string \<Rightarrow> pagination option \<Rightarrow> asdb \<Rightarrow> model list" where
  "db_getAll store pg db =
     (let page = (case pg of None \<Rightarrow> 0 | Some p \<Rightarrow> or_zero (pg_page p));
          limit = (case pg of None \<Rightarrow> 0 | Some p \<Rightarrow> or_zero (pg_limit p));
          start = max 0 (page * limit);
          stop = (if limit > 0 then Some (start + limit) else None);
          keysForStore = getAll_loop store (collectionOf db store) start stop 0
      in map (\<lambda>(k, v). the v) (filter (\<lambda>(k, v). v \<noteq> None) (dst_multiGet (db_kv db) keysForStore)))"

text \<open>
  \<open>batchSave\<close>: the first loop of the source gives every item its full key, old or new; \<open>itemsMap\<close> keeps the
  last item per key.
\<close>

definition item_path :: "js_env \<Rightarrow> string list \<Rightarrow> model \<Rightarrow> string" where
  "item_path E keys item = join ''#'' (map (\<lambda>f. let v = field_of item f in
     if isNullOrUndefined v then [] else js_toString E v) keys)"

record batch_entry =
  be_key :: string
  be_path :: string
  be_ulid :: string
  be_item :: model

fun batch_entries ::
  "js_env \<Rightarrow> (string \<Rightarrow> nat \<Rightarrow> string) \<Rightarrow> string \<Rightarrow> string list \<Rightarrow> model list \<Rightarrow> asdb \<Rightarrow> batch_entry list \<times> asdb" where
  "batch_entries E mk store keys [] db = ([], db)"
| "batch_entries E mk store keys (item # items) db =
     (let path = item_path E keys item in
      case (case map_of (collectionOf db store) (Some path) of
              Some u \<Rightarrow> if u = [] then new_ulid mk store db else (u, db)
            | None \<Rightarrow> new_ulid mk store db) of
        (u, db1) \<Rightarrow>
          (case batch_entries E mk store keys items db1 of
             (es, db2) \<Rightarrow> (\<lparr>be_key = getKeyForItem store (Some path) (Some u), be_path = path,
                           be_ulid = u, be_item = item\<rparr> # es, db2)))"

definition db_batchSave ::
  "js_env \<Rightarrow> (string \<Rightarrow> nat \<Rightarrow> string) \<Rightarrow> string \<Rightarrow> model list \<Rightarrow> string list \<Rightarrow> asdb \<Rightarrow>
   (model \<times> op_type) list \<times> asdb" where
  "db_batchSave E mk store items keys db =
     (if items = [] then ([], db)
      else case batch_entries E mk store keys items db of (es, db1) \<Rightarrow>
       let itemsMap = fold (\<lambda>e m. AList.update (be_key e) e m) es [];
           toDelete = js_set (map be_key (filter (\<lambda>e. is_deleted (be_item e)) es));
           toSave = js_set (map be_key (filter (\<lambda>e. \<not> is_deleted (be_item e)) es));
           entry = (\<lambda>k. the (map_of itemsMap k));
           existing = map fst (filter (\<lambda>(k, v). v \<noteq> None) (dst_multiGet (db_kv db1) (map be_key es)));
           c1 = fold (\<lambda>k c. AList.delete (Some (be_path (entry k))) c) toDelete (collectionOf db1 store);
           kv1 = dst_multiRemove toDelete (db_kv db1);
           c2 = fold (\<lambda>k c. AList.update (Some (be_path (entry k))) (be_ulid (entry k)) c) toSave c1;
           kv2 = dst_multiSet (map (\<lambda>k. (k, be_item (entry k))) toSave) kv1;
           result = concat (map (\<lambda>k.
             if k \<in> set toDelete \<and> k \<in> set existing then [(be_item (entry k), DELETE)]
             else if k \<in> set toSave then [(be_item (entry k), if k \<in> set existing then UPDATE else INSERT)]
             else []) (map be_key es))
       in (result, (set_collection store c2 db1)\<lparr>db_kv := kv2\<rparr>))"

definition db_clear :: "asdb \<Rightarrow> asdb" where
  "db_clear db = db\<lparr>db_index := [],
     db_kv := dst_multiRemove (filter (\<lambda>k. startsWith k DB_NAME) (dst_getAllKeys (db_kv db))) (db_kv db)\<rparr>"

end
