(* ===== verification/AsyncStorageDbProofs.thy ===== *)
theory AsyncStorageDbProofs
  imports AsyncStorageDb OutboxProofs
begin

text \<open>
  Seen through \<open>get\<close>, the database is a map from identifiers to records per store, which every operation
  updates at the identifiers it names and nowhere else; underneath, \<open>save\<close> leaves stale records behind.
\<close>

section \<open>Keys\<close>

definition no_colon :: "string \<Rightarrow> bool" where
  "no_colon s \<longleftrightarrow> CHR '':'' \<notin> set s"

definition good_ulid :: "string \<Rightarrow> bool" where
  "good_ulid u \<longleftrightarrow> no_colon u \<and> u \<noteq> [] \<and> u \<noteq> ''undefined''"

lemma undefined_text_simps [simp]: "undefined_text (Some s) = s" "undefined_text None = ''undefined''"
  by (simp_all add: undefined_text_def)

lemma key_sep: "KEY_SEP @ s = CHR '':'' # CHR '':'' # s"
  by (simp add: KEY_SEP_def)

lemma no_colon_undefined [simp]: "no_colon ''undefined''"
  by (simp add: no_colon_def)

lemma cut_colon: "no_colon a \<Longrightarrow> no_colon b \<Longrightarrow> a @ CHR '':'' # x = b @ CHR '':'' # y \<Longrightarrow> a = b \<and> x = y"
  unfolding no_colon_def by (rule append_sep_cancel)

lemma getKeyForItem_inj:
  assumes "no_colon s" "no_colon s'" "no_colon (undefined_text u)" "no_colon (undefined_text u')"
  shows "getKeyForItem s i u = getKeyForItem s' i' u' \<longleftrightarrow>
    s = s' \<and> undefined_text u = undefined_text u' \<and> undefined_text i = undefined_text i'"
proof
  assume "getKeyForItem s i u = getKeyForItem s' i' u'"
  then have "s @ CHR '':'' # CHR '':'' # DATA @ CHR '':'' # CHR '':'' # undefined_text u @ CHR '':'' # CHR '':'' # undefined_text i
    = s' @ CHR '':'' # CHR '':'' # DATA @ CHR '':'' # CHR '':'' # undefined_text u' @ CHR '':'' # CHR '':'' # undefined_text i'"
    by (simp add: getKeyForItem_def getKeyPrefixForStoreItems_def key_sep)
  from cut_colon [OF assms(1,2) this] have s: "s = s'"
    and "undefined_text u @ CHR '':'' # CHR '':'' # undefined_text i = undefined_text u' @ CHR '':'' # CHR '':'' # undefined_text i'"
    by simp_all
  from s cut_colon [OF assms(3,4) this(2)]
  show "s = s' \<and> undefined_text u = undefined_text u' \<and> undefined_text i = undefined_text i'" by simp
qed (simp add: getKeyForItem_def)

section \<open>Well-formed databases\<close>

definition asdb_ok :: "asdb \<Rightarrow> bool" where
  "asdb_ok db \<longleftrightarrow>
     (\<forall>s i u. no_colon s \<longrightarrow> map_of (collectionOf db s) i = Some u \<longrightarrow> good_ulid u) \<and>
     (\<forall>s i. no_colon s \<longrightarrow> dst_getItem (db_kv db) (getKeyForItem s (Some i) None) = None)"

definition ulids_ok :: "(string \<Rightarrow> nat \<Rightarrow> string) \<Rightarrow> bool" where
  "ulids_ok mk \<longleftrightarrow> (\<forall>s n. good_ulid (mk s n))"

lemma collection_set [simp]:
  "collectionOf (set_collection s c db) s' = (if s' = s then c else collectionOf db s')"
  by (simp add: collectionOf_def set_collection_def)

lemma collection_kv [simp]:
  "collectionOf (db\<lparr>db_kv := kv\<rparr>) s = collectionOf db s" "collectionOf (db\<lparr>db_ulids := n\<rparr>) s = collectionOf db s"
  by (simp_all add: collectionOf_def)

lemma set_collection_fields [simp]:
  "db_kv (set_collection s c db) = db_kv db" "db_ulids (set_collection s c db) = db_ulids db"
  by (simp_all add: set_collection_def)

lemma good_ulidD: "good_ulid u \<Longrightarrow> no_colon u" "good_ulid u \<Longrightarrow> u \<noteq> ''undefined''"
  by (simp_all add: good_ulid_def)

lemma not_good_undefined [simp]: "\<not> good_ulid ''undefined''"
  by (simp add: good_ulid_def)

text \<open>The ULID that a lookup by \<open>i\<close> gives, whether found or new.\<close>

definition ulid_for :: "(string \<Rightarrow> nat \<Rightarrow> string) \<Rightarrow> string \<Rightarrow> string \<Rightarrow> asdb \<Rightarrow> string \<times> asdb" where
  "ulid_for mk s i db = (case map_of (collectionOf db s) (Some i) of
      Some u \<Rightarrow> if u = [] then new_ulid mk s db else (u, db) | None \<Rightarrow> new_ulid mk s db)"

lemma ulid_for_fields:
  assumes "ulid_for mk s i db = (u, db1)"
  shows "db_kv db1 = db_kv db" "collectionOf db1 s' = collectionOf db s'"
  using assms by (auto simp: ulid_for_def new_ulid_def split: option.splits if_splits)

lemma ulid_for_good:
  "asdb_ok db \<Longrightarrow> ulids_ok mk \<Longrightarrow> no_colon s \<Longrightarrow> ulid_for mk s i db = (u, db1) \<Longrightarrow> good_ulid u"
  by (auto simp: ulid_for_def new_ulid_def asdb_ok_def ulids_ok_def split: option.splits if_splits)

lemma db_get_key:
  assumes "asdb_ok db" and "no_colon s"
  shows "no_colon (undefined_text (map_of (collectionOf db s) (Some i)))"
  using assms by (cases "map_of (collectionOf db s) (Some i)") (auto simp: asdb_ok_def good_ulidD)

lemma save_unfold:
  "db_save mk item s keys path db = (case ulid_for mk s (indexNameFromKeys keys) db of (u, db1) \<Rightarrow>
     (set_collection s (AList.update (Some path) u (collectionOf db1 s)) db1)
       \<lparr>db_kv := dst_setItem (getKeyForItem s (Some path) (Some u)) item (db_kv db1)\<rparr>)"
  by (simp add: db_save_def ulid_for_def)

lemma save_view:
  assumes ok: "asdb_ok db" and mk: "ulids_ok mk" and s: "no_colon s"
  shows "asdb_ok (db_save mk item s keys path db) \<and>
    (\<forall>s' i. no_colon s' \<longrightarrow> db_get i s' (db_save mk item s keys path db) =
       (if s' = s \<and> i = path then Some item else db_get i s' db))"
proof -
  obtain u db1 where u: "ulid_for mk s (indexNameFromKeys keys) db = (u, db1)" by fastforce
  note f = ulid_for_fields [OF u] and g = ulid_for_good [OF ok mk s u]
  have kv: "db_kv (db_save mk item s keys path db) = dst_setItem (getKeyForItem s (Some path) (Some u)) item (db_kv db)"
    and col: "collectionOf (db_save mk item s keys path db) s' =
      (if s' = s then AList.update (Some path) u (collectionOf db s) else collectionOf db s')" for s'
    by (simp_all add: save_unfold u f)
  have ne: "getKeyForItem s' (Some i) None \<noteq> getKeyForItem s (Some path) (Some u)" if "no_colon s'" for s' i
    using g getKeyForItem_inj [of s' s None "Some u" "Some i" "Some path"] that s by (auto simp: good_ulidD)
  have ok': "asdb_ok (db_save mk item s keys path db)"
    using ok g ne by (auto simp: asdb_ok_def col kv dst.get_set split: if_splits)
  moreover have "db_get i s' (db_save mk item s keys path db) =
       (if s' = s \<and> i = path then Some item else db_get i s' db)" if s': "no_colon s'" for s' i
  proof (cases "s' = s \<and> i = path")
    case True
    then show ?thesis by (simp add: db_get_def col kv dst.get_set)
  next
    case False
    have e: "map_of (collectionOf (db_save mk item s keys path db) s') (Some i) = map_of (collectionOf db s') (Some i)"
      using False by (auto simp: col)
    have "getKeyForItem s' (Some i) (map_of (collectionOf db s') (Some i)) \<noteq> getKeyForItem s (Some path) (Some u)"
      using False getKeyForItem_inj [OF s' s db_get_key [OF ok s', of i], of "Some u" "Some i" "Some path"] g
      by (auto simp: good_ulidD)
    then show ?thesis using False by (auto simp: db_get_def e kv dst.get_set)
  qed
  ultimately show ?thesis by blast
qed

lemma delete_view:
  assumes ok: "asdb_ok db" and s: "no_colon s"
  shows "asdb_ok (db_delete path s db) \<and>
    (\<forall>s' i. no_colon s' \<longrightarrow> db_get i s' (db_delete path s db) =
       (if s' = s \<and> i = path then None else db_get i s' db))"
proof -
  let ?k = "getKeyForItem s (Some path) (map_of (collectionOf db s) (Some path))"
  have kv: "db_kv (db_delete path s db) = dst_removeItem ?k (db_kv db)"
    and col: "collectionOf (db_delete path s db) s' =
      (if s' = s then AList.delete (Some path) (collectionOf db s) else collectionOf db s')" for s'
    by (simp_all add: db_delete_def Let_def)
  have ok': "asdb_ok (db_delete path s db)"
    using ok by (auto simp: asdb_ok_def col kv dst.get_remove split: if_splits)
  moreover have "db_get i s' (db_delete path s db) =
       (if s' = s \<and> i = path then None else db_get i s' db)" if s': "no_colon s'" for s' i
  proof (cases "s' = s \<and> i = path")
    case True
    then show ?thesis using ok s by (simp add: db_get_def col kv dst.get_remove asdb_ok_def)
  next
    case False
    have e: "map_of (collectionOf (db_delete path s db) s') (Some i) = map_of (collectionOf db s') (Some i)"
      using False by (auto simp: col)
    have "getKeyForItem s' (Some i) (map_of (collectionOf db s') (Some i)) \<noteq> ?k"
      using False getKeyForItem_inj [OF s' s db_get_key [OF ok s', of i] db_get_key [OF ok s, of path], of "Some i" "Some path"]
      by auto
    then show ?thesis using False by (auto simp: db_get_def e kv dst.get_remove)
  qed
  ultimately show ?thesis by blast
qed

section \<open>Batches\<close>

lemma fold_delete_map_of:
  "map_of (fold (\<lambda>k c. AList.delete (Some (p k)) c) ks c) i = (if i \<in> (\<lambda>k. Some (p k)) ` set ks then None else map_of c i)"
  by (induction ks arbitrary: c) auto

lemma fold_update_other:
  "i \<notin> (\<lambda>k. Some (p k)) ` set ks \<Longrightarrow> map_of (fold (\<lambda>k c. AList.update (Some (p k)) (q k) c) ks c) i = map_of c i"
  by (induction ks arbitrary: c) auto

lemma fold_update_same:
  "k \<in> set ks \<Longrightarrow> inj_on p (set ks) \<Longrightarrow>
   map_of (fold (\<lambda>k c. AList.update (Some (p k)) (q k) c) ks c) (Some (p k)) = Some (q k)"
proof (induction ks arbitrary: c)
  case (Cons j ks)
  show ?case
  proof (cases "k \<in> set ks")
    case True
    then show ?thesis using Cons by simp
  next
    case False
    then have "k = j" "Some (p k) \<notin> (\<lambda>k. Some (p k)) ` set ks"
      using Cons.prems by (auto simp: inj_on_def)
    then show ?thesis by (simp add: fold_update_other)
  qed
qed simp

lemma map_of_rev_graph: "map_of (rev (map (\<lambda>k. (k, f k)) ks)) k = (if k \<in> set ks then Some (f k) else None)"
  by (induction ks) (auto simp: map_add_def split: option.split)



definition entry_ok :: "js_env \<Rightarrow> string \<Rightarrow> string list \<Rightarrow> asdb \<Rightarrow> batch_entry \<Rightarrow> bool" where
  "entry_ok E s keys db e \<longleftrightarrow> be_path e = item_path E keys (be_item e) \<and>
     be_key e = getKeyForItem s (Some (be_path e)) (Some (be_ulid e)) \<and> good_ulid (be_ulid e) \<and>
     (\<forall>u. map_of (collectionOf db s) (Some (be_path e)) = Some u \<longrightarrow> be_ulid e = u)"

lemma asdb_ok_same:
  "asdb_ok db \<Longrightarrow> db_kv db1 = db_kv db \<Longrightarrow> (\<And>s. collectionOf db1 s = collectionOf db s) \<Longrightarrow> asdb_ok db1"
  by (simp add: asdb_ok_def)

lemma batch_entries_ok:
  assumes "asdb_ok db" and "ulids_ok mk" and "no_colon s" and "batch_entries E mk s keys items db = (es, db')"
  shows "db_kv db' = db_kv db \<and> (\<forall>s'. collectionOf db' s' = collectionOf db s') \<and>
         map be_item es = items \<and> list_all (entry_ok E s keys db) es"
  using assms(1,4)
proof (induction items arbitrary: db es db')
  case (Cons item items)
  let ?path = "item_path E keys item"
  obtain u db1 where u: "ulid_for mk s ?path db = (u, db1)" by fastforce
  obtain es1 db2 where b: "batch_entries E mk s keys items db1 = (es1, db2)" by fastforce
  note f = ulid_for_fields [OF u]
  have e: "es = \<lparr>be_key = getKeyForItem s (Some ?path) (Some u), be_path = ?path, be_ulid = u, be_item = item\<rparr> # es1" "db' = db2"
    using Cons.prems(2) u b by (simp_all add: Let_def flip: ulid_for_def)
  have "map_of (collectionOf db s) (Some ?path) = Some v \<Longrightarrow> u = v" for v
    using u Cons.prems(1) assms(3) by (auto simp: ulid_for_def asdb_ok_def good_ulid_def split: if_splits)
  then have "entry_ok E s keys db (hd es)"
    using ulid_for_good [OF Cons.prems(1) assms(2,3) u] by (simp add: e entry_ok_def)
  moreover have "entry_ok E s keys db1 = entry_ok E s keys db" by (simp add: entry_ok_def fun_eq_iff f)
  ultimately show ?case
    using Cons.IH [OF asdb_ok_same [OF Cons.prems(1) f(1,2)] b] e f by simp
qed simp

lemma batchSave_fields:
  assumes b: "batch_entries E mk s keys items db = (es, db1)" and "items \<noteq> []" and d: "distinct (map be_key es)"
  defines "db' \<equiv> snd (db_batchSave E mk s items keys db)"
  defines "del \<equiv> filter (\<lambda>e. is_deleted (be_item e)) es" and "sav \<equiv> filter (\<lambda>e. \<not> is_deleted (be_item e)) es"
  shows "\<exists>p q it. (\<forall>e \<in> set es. p (be_key e) = be_path e \<and> q (be_key e) = be_ulid e \<and> it (be_key e) = be_item e) \<and>
    (\<forall>s'. collectionOf db' s' = (if s' = s then
       fold (\<lambda>k c. AList.update (Some (p k)) (q k) c) (js_set (map be_key sav))
         (fold (\<lambda>k c. AList.delete (Some (p k)) c) (js_set (map be_key del)) (collectionOf db1 s)) else collectionOf db1 s')) \<and>
    db_kv db' = dst_multiSet (map (\<lambda>k. (k, it k)) (js_set (map be_key sav)))
        (dst_multiRemove (js_set (map be_key del)) (db_kv db1))"
proof -
  let ?m = "fold (\<lambda>e m. AList.update (be_key e) e m) es []"
  have m: "map_of ?m (be_key e) = Some e" if "e \<in> set es" for e
  proof -
    have "find (\<lambda>x. be_key x = be_key e) (rev es) = Some e"
      using that d by (intro find_unique) (auto simp: distinct_map inj_on_def)
    then show ?thesis by (simp add: fold_update_map_of)
  qed
  show ?thesis
    by (rule exI [of _ "\<lambda>k. be_path (the (map_of ?m k))"], rule exI [of _ "\<lambda>k. be_ulid (the (map_of ?m k))"],
        rule exI [of _ "\<lambda>k. be_item (the (map_of ?m k))"])
      (use assms(2) m in \<open>simp add: db'_def db_batchSave_def b Let_def del_def sav_def\<close>)
qed

lemma batchSave_view:
  assumes ok: "asdb_ok db" and mk: "ulids_ok mk" and s: "no_colon s"
    and d: "distinct (map (item_path E keys) items)"
  shows "asdb_ok (snd (db_batchSave E mk s items keys db)) \<and>
    (\<forall>s' i. no_colon s' \<longrightarrow> db_get i s' (snd (db_batchSave E mk s items keys db)) =
       (case find (\<lambda>m. item_path E keys m = i) items of
          Some m \<Rightarrow> if s' = s then (if is_deleted m then None else Some m) else db_get i s' db
        | None \<Rightarrow> db_get i s' db))"
proof (cases "items = []")
  case True
  then show ?thesis using ok by (simp add: db_batchSave_def)
next
  case False
  obtain es db1 where b: "batch_entries E mk s keys items db = (es, db1)" by fastforce
  note be = batch_entries_ok [OF ok mk s b]
  have e_ok: "entry_ok E s keys db e" if "e \<in> set es" for e using be that by (simp add: list_all_iff)
  have items: "items = map be_item es" using be by simp
  have paths: "map be_path es = map (item_path E keys) items"
    using e_ok by (simp add: items entry_ok_def)
  have dp: "distinct (map be_path es)" using d paths by simp
  have key_inj: "be_key e = be_key e' \<longleftrightarrow> be_path e = be_path e'" if "e \<in> set es" "e' \<in> set es" for e e'
    using e_ok [OF that(1)] e_ok [OF that(2)] getKeyForItem_inj [OF s s] dp that
    by (auto simp: entry_ok_def good_ulidD distinct_map inj_on_def)
  have dk: "distinct (map be_key es)"
    using dp key_inj by (auto simp: distinct_map inj_on_def)
  define db' where "db' = snd (db_batchSave E mk s items keys db)"
  define del where "del = filter (\<lambda>e. is_deleted (be_item e)) es"
  define sav where "sav = filter (\<lambda>e. \<not> is_deleted (be_item e)) es"
  obtain p q it where pq: "\<forall>e \<in> set es. p (be_key e) = be_path e \<and> q (be_key e) = be_ulid e \<and> it (be_key e) = be_item e"
    and col: "\<And>s'. collectionOf db' s' = (if s' = s then
       fold (\<lambda>k c. AList.update (Some (p k)) (q k) c) (js_set (map be_key sav))
         (fold (\<lambda>k c. AList.delete (Some (p k)) c) (js_set (map be_key del)) (collectionOf db1 s)) else collectionOf db1 s')"
    and kv: "db_kv db' = dst_multiSet (map (\<lambda>k. (k, it k)) (js_set (map be_key sav)))
        (dst_multiRemove (js_set (map be_key del)) (db_kv db1))"
    using batchSave_fields [OF b False dk] unfolding db'_def del_def sav_def by blast
  have get: "dst_getItem (db_kv db') k = (if k \<in> be_key ` set sav then Some (it k)
      else if k \<in> be_key ` set del then None else dst_getItem (db_kv db) k)" for k
    using be by (simp add: kv dst_multiSet_get dst_multiRemove_get map_of_rev_graph)
  have pinj: "inj_on p (set (js_set (map be_key sav)))"
    using pq dp key_inj by (auto simp: inj_on_def sav_def)
  have psav: "(\<lambda>k. Some (p k)) ` set (js_set (map be_key sav)) = (\<lambda>e. Some (be_path e)) ` set sav"
    and pdel: "(\<lambda>k. Some (p k)) ` set (js_set (map be_key del)) = (\<lambda>e. Some (be_path e)) ` set del"
    using pq by (auto simp: image_image sav_def del_def intro!: image_cong)
  have path_inj: "e = e'" if "e \<in> set es" "e' \<in> set es" "be_path e = be_path e'" for e e'
    using that dp by (auto simp: distinct_map inj_on_def)
  have col_sav: "map_of (collectionOf db' s) (Some (be_path e)) = Some (be_ulid e)" if "e \<in> set sav" for e
  proof -
    have "e \<in> set es" using that by (simp add: sav_def)
    then have "p (be_key e) = be_path e" "q (be_key e) = be_ulid e" using pq by auto
    with that show ?thesis
      using fold_update_same [of "be_key e" "js_set (map be_key sav)" p q] pinj by (simp add: col)
  qed
  have col_other: "map_of (collectionOf db' s) i =
      (if i \<in> (\<lambda>e. Some (be_path e)) ` set del then None else map_of (collectionOf db s) i)"
    if "i \<notin> (\<lambda>e. Some (be_path e)) ` set sav" for i
  proof -
    have "map_of (fold (\<lambda>k c. AList.update (Some (p k)) (q k) c) (js_set (map be_key sav)) c) i = map_of c i" for c
      by (rule fold_update_other) (use that in \<open>simp only: psav simp_thms\<close>)
    then show ?thesis using be by (simp only: col fold_delete_map_of pdel if_True refl)
  qed
  have col_ne: "collectionOf db' s' = collectionOf db s'" if "s' \<noteq> s" for s'
    using that be by (simp add: col)
  have key_ne: "getKeyForItem s' (Some i) u \<notin> be_key ` set es"
    if "no_colon s'" "no_colon (undefined_text u)" "s' = s \<Longrightarrow> i \<notin> be_path ` set es" for s' i u
  proof
    assume "getKeyForItem s' (Some i) u \<in> be_key ` set es"
    then obtain e where e: "e \<in> set es" "getKeyForItem s' (Some i) u = be_key e" by auto
    then have "s' = s \<and> i = be_path e"
      using e_ok [OF e(1)] getKeyForItem_inj [OF that(1) s that(2), of "Some (be_ulid e)" "Some i" "Some (be_path e)"]
      by (simp add: entry_ok_def good_ulidD)
    with that(3) e(1) show False by auto
  qed
  have undef_ne: "getKeyForItem s' (Some i) None \<notin> be_key ` set es" if "no_colon s'" for s' i
  proof
    assume "getKeyForItem s' (Some i) None \<in> be_key ` set es"
    then obtain e where e: "e \<in> set es" "getKeyForItem s' (Some i) None = be_key e" by auto
    then have "be_ulid e = ''undefined''"
      using e_ok [OF e(1)] getKeyForItem_inj [OF that s, of None "Some (be_ulid e)" "Some i" "Some (be_path e)"]
      by (simp add: entry_ok_def good_ulidD)
    with e_ok [OF e(1)] show False by (simp add: entry_ok_def)
  qed
  have sub: "set sav \<subseteq> set es" "set del \<subseteq> set es" by (auto simp: sav_def del_def)
  have ok': "asdb_ok db'"
  proof -
    have "good_ulid u" if "no_colon s'" "map_of (collectionOf db' s') i = Some u" for s' i u
    proof (cases "s' = s \<and> i \<in> (\<lambda>e. Some (be_path e)) ` set sav")
      case True
      then obtain e where e: "s' = s" "e \<in> set sav" "i = Some (be_path e)" by auto
      then have "e \<in> set es" using sub(1) by blast
      with e_ok have "good_ulid (be_ulid e)" by (simp add: entry_ok_def)
      with that e col_sav show ?thesis by simp
    next
      case False
      then show ?thesis using that col_other col_ne ok by (cases "s' = s") (auto simp: asdb_ok_def split: if_splits)
    qed
    moreover have "dst_getItem (db_kv db') (getKeyForItem s' (Some i) None) = None" if "no_colon s'" for s' i
      using undef_ne [OF that, of i] ok that sub by (auto simp: get asdb_ok_def)
    ultimately show ?thesis unfolding asdb_ok_def by blast
  qed
  have find_items: "find (\<lambda>m. item_path E keys m = i) items = map_option be_item (find (\<lambda>e. be_path e = i) es)" for i
  proof -
    have "\<forall>e \<in> set es. be_path e = item_path E keys (be_item e)" using e_ok by (simp add: entry_ok_def)
    then have "find (\<lambda>m. item_path E keys m = i) (map be_item es) = map_option be_item (find (\<lambda>e. be_path e = i) es)"
      by (induction es) auto
    then show ?thesis by (simp add: items)
  qed
  have "db_get i s' db' =
       (case find (\<lambda>m. item_path E keys m = i) items of
          Some m \<Rightarrow> if s' = s then (if is_deleted m then None else Some m) else db_get i s' db
        | None \<Rightarrow> db_get i s' db)" if s': "no_colon s'" for s' i
  proof (cases "s' = s \<and> i \<in> be_path ` set es")
    case True
    then obtain e where e: "e \<in> set es" "i = be_path e" by auto
    have fe: "find (\<lambda>e. be_path e = i) es = Some e" using e path_inj by (intro find_unique) auto
    show ?thesis
    proof (cases "is_deleted (be_item e)")
      case False
      then have m: "e \<in> set sav" using e by (simp add: sav_def)
      have k: "getKeyForItem s (Some i) (map_of (collectionOf db' s) (Some i)) = be_key e"
        using e_ok [OF e(1)] col_sav [OF m] e(2) by (simp add: entry_ok_def)
      have "dst_getItem (db_kv db') (be_key e) = Some (be_item e)"
        using m pq e(1) by (simp add: get)
      then have "db_get i s db' = Some (be_item e)" by (simp add: db_get_def k)
      with True False show ?thesis by (simp add: find_items fe)
    next
      case del: True
      then have "Some i \<notin> (\<lambda>e. Some (be_path e)) ` set sav" "Some i \<in> (\<lambda>e. Some (be_path e)) ` set del"
        using e path_inj by (auto simp: sav_def del_def)
      then have "map_of (collectionOf db' s) (Some i) = None" by (simp add: col_other)
      then show ?thesis
        using True ok' s del by (simp add: db_get_def find_items fe asdb_ok_def)
    qed
  next
    case False
    have n: "s' = s \<Longrightarrow> find (\<lambda>e. be_path e = i) es = None" using False by (auto simp: find_None_iff)
    have c: "map_of (collectionOf db' s') (Some i) = map_of (collectionOf db s') (Some i)"
    proof (cases "s' = s")
      case True
      then have "Some i \<notin> (\<lambda>e. Some (be_path e)) ` set sav" "Some i \<notin> (\<lambda>e. Some (be_path e)) ` set del"
        using False sub by blast+
      then show ?thesis using True by (simp add: col_other)
    qed (simp add: col_ne)
    have "getKeyForItem s' (Some i) (map_of (collectionOf db s') (Some i)) \<notin> be_key ` set es"
      using False by (intro key_ne [OF s' db_get_key [OF ok s']]) auto
    then have "db_get i s' db' = db_get i s' db"
      using sub by (auto simp: db_get_def c get)
    then show ?thesis using n by (cases "s' = s") (auto simp: find_items split: option.split)
  qed
  then show ?thesis using ok' unfolding db'_def by blast
qed

section \<open>The database as a map\<close>

text \<open>
  C17. Refinement to a map: on a well-formed database with ULIDs and store names free of colons, \<open>save\<close>,
  \<open>delete\<close> and \<open>batchSave\<close> (of records with different keys) keep it well-formed and change what \<open>get\<close>
  returns exactly as updating, deleting and bulk-updating a map from identifiers to records would, in
  that store and no other.
\<close>

theorem asdb_refines_map:
  assumes "asdb_ok db" and "ulids_ok mk" and "no_colon s" and "no_colon s'"
    and "distinct (map (item_path E keys) items)"
  shows "asdb_ok (db_save mk item s keys path db) \<and> asdb_ok (db_delete path s db) \<and>
         asdb_ok (snd (db_batchSave E mk s items keys db)) \<and>
         db_get i s' (db_save mk item s keys path db) = (if s' = s \<and> i = path then Some item else db_get i s' db) \<and>
         db_get i s' (db_delete path s db) = (if s' = s \<and> i = path then None else db_get i s' db) \<and>
         db_get i s' (snd (db_batchSave E mk s items keys db)) =
           (case find (\<lambda>m. item_path E keys m = i) items of
              Some m \<Rightarrow> if s' = s then (if is_deleted m then None else Some m) else db_get i s' db
            | None \<Rightarrow> db_get i s' db)"
  using save_view [OF assms(1-3)] delete_view [OF assms(1,3)] batchSave_view [OF assms(1-3,5)] assms(4)
  by blast

definition demo_db :: asdb where
  "demo_db = \<lparr>db_index = [], db_kv = [], db_ulids = (\<lambda>_. 0)\<rparr>"

definition demo_ulid :: "string \<Rightarrow> nat \<Rightarrow> string" where
  "demo_ulid s n = replicate (Suc n) (CHR ''U'')"

lemma demo_ulids_ok: "ulids_ok demo_ulid"
  by (auto simp: ulids_ok_def demo_ulid_def good_ulid_def no_colon_def)

lemma demo_db_ok: "asdb_ok demo_db"
  by (simp add: asdb_ok_def demo_db_def collectionOf_def dst_getItem_def)

theorem asdb_refines_map_witness:
  "db_get ''1'' ''Post'' (db_save demo_ulid [(''id'', JStr ''1'')] ''Post'' [''id''] ''1'' demo_db) =
     Some [(''id'', JStr ''1'')]"
  using asdb_refines_map [OF demo_db_ok demo_ulids_ok, of "''Post''" "''Post''" demo_js "[''id'']" "[]"
      "[(''id'', JStr ''1'')]" "''1''" "''1''"] by (simp add: no_colon_def)

section \<open>Reading everything\<close>

lemma getAll_loop_eq:
  assumes "0 \<le> count" and "case stop of None \<Rightarrow> True | Some e \<Rightarrow> start < e \<and> count < e"
  shows "getAll_loop s c start stop count = map (\<lambda>(i, u). getKeyForItem s i (Some u))
    (case stop of None \<Rightarrow> drop (nat (start - count)) c
     | Some e \<Rightarrow> take (nat (e - max start count)) (drop (nat (start - count)) c))"
  using assms
proof (induction c arbitrary: count)
  case Nil
  then show ?case by (simp split: option.split)
next
  case (Cons x c)
  obtain i u where x: "x = (i, u)" by fastforce
  show ?case
  proof (cases "count + 1 \<le> start")
    case True
    then have "nat (start - count) = Suc (nat (start - (count + 1)))" by simp
    moreover have "max start count = max start (count + 1)" using True by simp
    moreover have "getAll_loop s c start stop (count + 1) = map (\<lambda>(i, u). getKeyForItem s i (Some u))
      (case stop of None \<Rightarrow> drop (nat (start - (count + 1))) c
       | Some e \<Rightarrow> take (nat (e - max start (count + 1))) (drop (nat (start - (count + 1))) c))"
      using Cons.prems True by (intro Cons.IH) (auto split: option.splits)
    ultimately show ?thesis using True x by (simp add: Let_def split: option.split)
  next
    case False
    show ?thesis
    proof (cases stop)
      case None
      with False Cons.IH [of "count + 1"] Cons.prems x show ?thesis by (simp add: Let_def)
    next
      case (Some e)
      have n: "nat (e - max start count) = Suc (nat (e - max start (count + 1)))" "max start count = count"
        "max start (count + 1) = count + 1"
        using False Cons.prems Some by auto
      show ?thesis
      proof (cases "count + 1 = e")
        case True
        with False Some x n show ?thesis by (simp add: Let_def)
      next
        case ne: False
        with Cons.IH [of "count + 1"] Cons.prems False Some x n show ?thesis by (simp add: Let_def)
      qed
    qed
  qed
qed

text \<open>The records of a store in the order of its index, for entries that have one.\<close>

definition db_records :: "string \<Rightarrow> collection \<Rightarrow> asdb \<Rightarrow> model list" where
  "db_records s c db = concat (map (\<lambda>(i, u). case dst_getItem (db_kv db) (getKeyForItem s i (Some u)) of
     None \<Rightarrow> [] | Some m \<Rightarrow> [m]) c)"

text \<open>
  \<open>getAll\<close> returns the requested page of the store's index in order: without a limit all records, and
  with one the records of the index entries from \<open>page * limit\<close> on, at most \<open>limit\<close> of them.
\<close>

theorem getAll_pages:
  assumes "limit > 0"
  shows "db_getAll s None db = db_records s (collectionOf db s) db \<and>
         db_getAll s (Some \<lparr>pg_sort = so, pg_page = Some (int page), pg_limit = Some (int limit)\<rparr>) db =
           db_records s (take limit (drop (page * limit) (collectionOf db s))) db"
proof -
  have r: "map (\<lambda>(k, v). the v) (filter (\<lambda>(k, v). v \<noteq> None)
      (dst_multiGet kv (map (\<lambda>(i, u). getKeyForItem s i (Some u)) c))) =
      concat (map (\<lambda>(i, u). case dst_getItem kv (getKeyForItem s i (Some u)) of None \<Rightarrow> [] | Some m \<Rightarrow> [m]) c)"
    for c and kv :: "model kvs"
    by (induction c) (auto simp: dst_multiGet_map dst_getItem_def split: option.splits)
  have "nat (int page * int limit + int limit - int page * int limit) = limit" "nat (int page * int limit) = page * limit"
    by (simp_all flip: of_nat_mult)
  moreover have "max 0 (int page * int limit) = int page * int limit" by simp
  ultimately show ?thesis
    using assms by (simp add: db_getAll_def Let_def or_zero_def getAll_loop_eq r [simplified] db_records_def)
qed

theorem getAll_pages_witness:
  "db_getAll ''Post'' (Some \<lparr>pg_sort = None, pg_page = Some (int 0), pg_limit = Some (int 5)\<rparr>)
     (db_save demo_ulid [(''id'', JStr ''1'')] ''Post'' [''id''] ''1'' demo_db) = [[(''id'', JStr ''1'')]]"
  using getAll_pages [of 5 "''Post''" "db_save demo_ulid [(''id'', JStr ''1'')] ''Post'' [''id''] ''1'' demo_db" None 0]
  by (simp add: db_records_def db_save_def demo_db_def collectionOf_def set_collection_def new_ulid_def dst_setItem_def
      dst_getItem_def)

section \<open>Stale records\<close>

text \<open>
  A deleted record comes back: saving one record twice gives it two ULIDs, so that its first version
  stays in the key-value store; deleting the record removes the second version only, and the next \<open>init\<close>
  indexes the first one again.
\<close>

theorem deleted_record_returns:
  "let v1 = [(''id'', JStr ''1''), (''title'', JStr ''a'')];
       v2 = [(''id'', JStr ''1''), (''title'', JStr ''b'')];
       db1 = db_save demo_ulid v1 ''Post'' [''id''] ''1'' demo_db;
       db2 = db_save demo_ulid v2 ''Post'' [''id''] ''1'' db1;
       db3 = db_delete ''1'' ''Post'' db2
   in db_get ''1'' ''Post'' db3 = None \<and> db_get ''1'' ''Post'' (db_init demo_ulid db3) = Some v1"
  by code_simp

end
