(* ===== verification/BackgroundProcess.thy ===== *)
theory BackgroundProcess
  imports Prelude
begin

text \<open>
  \<open>BackgroundProcessManager\<close> (\<open>core/src/BackgroundProcessManager\<close>) as a step relation. Jobs are
  promises: the environment settles them, and a promise that settled is taken off the registry by a later
  step, as the \<open>then\<close> and \<open>catch\<close> handlers do. The continuations that wait on one closing promise (that of
  \<open>close\<close> and those of pending \<open>open\<close> calls) run in one step. A promise is named by the number of its
  registration; \<open>settled\<close> and \<open>terminated\<close> hold the promises that settled and whose \<open>terminate\<close> was called.
\<close>

datatype manager_state = Open | Closing | Closed

datatype job_kind = FunctionJob | HookJob | CleanerJob

record job =
  job_id :: nat
  job_kind :: job_kind
  job_description :: string

record bpm =
  bpm_state :: manager_state
  bpm_closing :: "nat list option"
  bpm_jobs :: "job list"
  bpm_openers :: nat
  bpm_settled :: "nat set"
  bpm_terminated :: "nat set"
  bpm_next :: nat

definition bpm_init :: bpm where
  "bpm_init = \<lparr>bpm_state = Open, bpm_closing = None, bpm_jobs = [], bpm_openers = 0, bpm_settled = {},
     bpm_terminated = {}, bpm_next = 0\<rparr>"

definition bpm_length :: "bpm \<Rightarrow> nat" where
  "bpm_length m = length (bpm_jobs m)"

definition bpm_pending :: "bpm \<Rightarrow> string list" where
  "bpm_pending m = map job_description (bpm_jobs m)"

definition isOpen :: "bpm \<Rightarrow> bool" where
  "isOpen m \<longleftrightarrow> bpm_state m = Open"

definition isClosing :: "bpm \<Rightarrow> bool" where
  "isClosing m \<longleftrightarrow> bpm_state m = Closing"

definition isClosed :: "bpm \<Rightarrow> bool" where
  "isClosed m \<longleftrightarrow> bpm_state m = Closed"

section \<open>Adding jobs\<close>

text \<open>The argument of \<open>add\<close>; a function job may give back something that is not a promise.\<close>

datatype add_request =
    AddHook string
  | AddFunction bool string
  | AddManager string
  | AddOther string

datatype add_result =
    NotOpen manager_state string "string list"
  | InvalidJob
  | Registered nat
  | PassedThrough

definition closedFailure :: "bpm \<Rightarrow> string \<Rightarrow> add_result option" where
  "closedFailure m description =
     (if isOpen m then None else Some (NotOpen (bpm_state m) description (bpm_pending m)))"

definition registerPromise :: "job_kind \<Rightarrow> string \<Rightarrow> bpm \<Rightarrow> add_result \<times> bpm" where
  "registerPromise k description m =
     (Registered (bpm_next m),
      m\<lparr>bpm_jobs := bpm_jobs m @ [\<lparr>job_id = bpm_next m, job_kind = k, job_description = description\<rparr>],
        bpm_next := Suc (bpm_next m)\<rparr>)"

definition addCleaner :: "string \<Rightarrow> bpm \<Rightarrow> add_result \<times> bpm" where
  "addCleaner description m = registerPromise CleanerJob description m"

definition addFunction :: "bool \<Rightarrow> string \<Rightarrow> bpm \<Rightarrow> add_result \<times> bpm" where
  "addFunction returnsPromise description m =
     (if returnsPromise then registerPromise FunctionJob description m else (PassedThrough, m))"

definition request_description :: "add_request \<Rightarrow> string" where
  "request_description r = (case r of AddHook d \<Rightarrow> d | AddFunction b d \<Rightarrow> d | AddManager d \<Rightarrow> d | AddOther d \<Rightarrow> d)"

definition bpm_add :: "add_request \<Rightarrow> bpm \<Rightarrow> add_result \<times> bpm" where
  "bpm_add r m =
     (case closedFailure m (request_description r) of
        Some e \<Rightarrow> (e, m)
      | None \<Rightarrow> (case r of
          AddHook d \<Rightarrow> registerPromise HookJob d m
        | AddFunction b d \<Rightarrow> addFunction b d m
        | AddManager d \<Rightarrow> addCleaner d m
        | AddOther d \<Rightarrow> (InvalidJob, m)))"

section \<open>Closing and opening\<close>

text \<open>The part of \<open>close\<close> before its \<open>await\<close>; in a state other than \<open>Open\<close> it changes nothing.\<close>

definition bpm_close :: "bpm \<Rightarrow> bpm" where
  "bpm_close m =
     (if isOpen m then
        m\<lparr>bpm_state := Closing,
          bpm_terminated := bpm_terminated m \<union> set (map job_id (bpm_jobs m)),
          bpm_closing := Some (map job_id (bpm_jobs m))\<rparr>
      else m)"

text \<open>\<open>open\<close> waits when closing, else it opens at once.\<close>

definition bpm_open :: "bpm \<Rightarrow> bpm" where
  "bpm_open m =
     (if isClosing m then m\<lparr>bpm_openers := Suc (bpm_openers m)\<rparr> else m\<lparr>bpm_state := Open\<rparr>)"

text \<open>What runs once the closing promise has settled.\<close>

definition bpm_closed :: "bpm \<Rightarrow> bpm" where
  "bpm_closed m =
     (let closed = m\<lparr>bpm_state := Closed\<rparr>
      in if bpm_openers m > 0 then closed\<lparr>bpm_state := Open, bpm_openers := 0\<rparr> else closed)"

definition closing_settled :: "bpm \<Rightarrow> bool" where
  "closing_settled m \<longleftrightarrow> (case bpm_closing m of None \<Rightarrow> False | Some snap \<Rightarrow> list_all (\<lambda>n. n \<in> bpm_settled m) snap)"

definition settle :: "nat \<Rightarrow> bpm \<Rightarrow> bpm" where
  "settle n m = m\<lparr>bpm_settled := insert n (bpm_settled m)\<rparr>"

definition deregister :: "nat \<Rightarrow> bpm \<Rightarrow> bpm" where
  "deregister n m = m\<lparr>bpm_jobs := filter (\<lambda>j. job_id j \<noteq> n) (bpm_jobs m)\<rparr>"

section \<open>Steps\<close>

inductive bstep :: "bpm \<Rightarrow> bpm \<Rightarrow> bool" where
  step_add: "bstep m (snd (bpm_add r m))"
| step_cleaner: "bstep m (snd (addCleaner d m))"
| step_close: "bstep m (bpm_close m)"
| step_open: "bstep m (bpm_open m)"
| step_closed: "isClosing m \<Longrightarrow> closing_settled m \<Longrightarrow> bstep m (bpm_closed m)"
| step_settle: "n < bpm_next m \<Longrightarrow> bstep m (settle n m)"
| step_deregister: "n \<in> bpm_settled m \<Longrightarrow> bstep m (deregister n m)"

inductive_cases bstepE: "bstep m m'"

abbreviation bpm_reachable :: "bpm \<Rightarrow> bool" where
  "bpm_reachable m \<equiv> bstep\<^sup>*\<^sup>* bpm_init m"

end
