(* ===== verification/BackgroundProcessProofs.thy ===== *)
theory BackgroundProcessProofs
  imports BackgroundProcess
begin

text \<open>
  Closing is complete: in every reachable state that is \<open>Closed\<close>, all work that went through \<open>add\<close> as a
  function or a hook has settled; only cleaners, which \<open>addCleaner\<close> registers in any state, can be left.
\<close>

definition registered :: "bpm \<Rightarrow> nat set" where
  "registered m = job_id ` set (bpm_jobs m)"

definition noncleaners :: "bpm \<Rightarrow> nat set" where
  "noncleaners m = job_id ` {j \<in> set (bpm_jobs m). job_kind j \<noteq> CleanerJob}"

text \<open>
  Registrations are numbered below \<open>bpm_next\<close>; a job is only taken off when it has settled; while the
  manager is not open, the closing snapshot holds every registered job but late cleaners, all of it has been
  signalled, and all of it has settled once the state is \<open>Closed\<close>.
\<close>

definition bpm_inv :: "bpm \<Rightarrow> bool" where
  "bpm_inv m \<longleftrightarrow> registered m \<subseteq> {..<bpm_next m} \<and> {..<bpm_next m} \<subseteq> registered m \<union> bpm_settled m \<and>
     (bpm_openers m > 0 \<longrightarrow> bpm_state m = Closing) \<and>
     (bpm_state m \<noteq> Open \<longrightarrow> (\<exists>snap. bpm_closing m = Some snap \<and> noncleaners m \<subseteq> set snap \<and>
        set snap \<subseteq> bpm_terminated m \<and> (bpm_state m = Closed \<longrightarrow> set snap \<subseteq> bpm_settled m)))"

lemma inv_init: "bpm_inv bpm_init"
  by (simp add: bpm_inv_def bpm_init_def registered_def)

lemma inv_register:
  assumes "bpm_inv m" and "k = CleanerJob \<or> isOpen m"
  shows "bpm_inv (snd (registerPromise k d m))"
  using assms
  by (auto simp: image_subset_iff bpm_inv_def registerPromise_def registered_def noncleaners_def isOpen_def lessThan_Suc)

lemma inv_add: "bpm_inv m \<Longrightarrow> bpm_inv (snd (bpm_add r m))"
  by (auto simp: bpm_add_def closedFailure_def addFunction_def addCleaner_def inv_register
      split: add_request.splits)

lemma inv_close: "bpm_inv m \<Longrightarrow> bpm_inv (bpm_close m)"
  by (auto simp: image_subset_iff bpm_inv_def bpm_close_def registered_def noncleaners_def isOpen_def)

lemma inv_open: "bpm_inv m \<Longrightarrow> bpm_inv (bpm_open m)"
  by (auto simp: image_subset_iff bpm_inv_def bpm_open_def registered_def noncleaners_def isClosing_def)

lemma inv_closed: "bpm_inv m \<Longrightarrow> isClosing m \<Longrightarrow> closing_settled m \<Longrightarrow> bpm_inv (bpm_closed m)"
  by (auto simp: image_subset_iff bpm_inv_def bpm_closed_def registered_def noncleaners_def isClosing_def closing_settled_def
      Let_def list_all_iff)

lemma inv_settle: "bpm_inv m \<Longrightarrow> bpm_inv (settle n m)"
  by (auto simp: image_subset_iff bpm_inv_def settle_def registered_def noncleaners_def)

lemma inv_deregister: "bpm_inv m \<Longrightarrow> n \<in> bpm_settled m \<Longrightarrow> bpm_inv (deregister n m)"
  by (auto simp: image_subset_iff bpm_inv_def deregister_def registered_def noncleaners_def)

lemma inv_step: "bstep m m' \<Longrightarrow> bpm_inv m \<Longrightarrow> bpm_inv m'"
  by (erule bstepE) (simp_all add: inv_add inv_close inv_open inv_closed inv_settle inv_deregister
      addCleaner_def inv_register)

lemma inv_reachable: "bpm_reachable m \<Longrightarrow> bpm_inv m"
  by (induction rule: rtranclp_induct) (auto simp: inv_init intro: inv_step)

text \<open>
  A closed manager has no work left: in every reachable \<open>Closed\<close> state each job ever registered has
  settled, except cleaners still on the registry; while it is closing, every function and hook job on the
  registry has received its termination signal.
\<close>

theorem closed_manager_is_done:
  assumes "bpm_reachable m"
  shows "(isClosed m \<longrightarrow> (\<forall>n < bpm_next m. n \<in> bpm_settled m \<or>
            (\<exists>j \<in> set (bpm_jobs m). job_id j = n \<and> job_kind j = CleanerJob))) \<and>
         (isClosing m \<longrightarrow> (\<forall>j \<in> set (bpm_jobs m). job_kind j = CleanerJob \<or> job_id j \<in> bpm_terminated m))"
proof (intro conjI impI allI)
  fix n assume c: "isClosed m" and n: "n < bpm_next m"
  have "noncleaners m \<subseteq> bpm_settled m"
    using inv_reachable [OF assms] c by (auto simp: bpm_inv_def isClosed_def)
  moreover have "n \<in> registered m \<or> n \<in> bpm_settled m"
    using inv_reachable [OF assms] n by (auto simp: bpm_inv_def)
  ultimately show "n \<in> bpm_settled m \<or> (\<exists>j \<in> set (bpm_jobs m). job_id j = n \<and> job_kind j = CleanerJob)"
    by (auto simp: registered_def noncleaners_def)
next
  assume "isClosing m"
  then show "\<forall>j \<in> set (bpm_jobs m). job_kind j = CleanerJob \<or> job_id j \<in> bpm_terminated m"
    using inv_reachable [OF assms] by (auto simp: bpm_inv_def isClosing_def noncleaners_def)
qed

text \<open>A run: a hook is added, the manager closes, the hook settles, the close completes.\<close>

definition demo_closed :: bpm where
  "demo_closed = bpm_closed (settle 0 (bpm_close (snd (bpm_add (AddHook ''sync'') bpm_init))))"

lemma demo_closed_reachable: "bpm_reachable demo_closed"
proof -
  let ?a = "snd (bpm_add (AddHook ''sync'') bpm_init)"
  have "bstep bpm_init ?a" "bstep ?a (bpm_close ?a)" by (rule step_add step_close)+
  moreover have "bstep (bpm_close ?a) (settle 0 (bpm_close ?a))"
    by (rule step_settle) (simp add: bpm_add_def closedFailure_def bpm_init_def isOpen_def registerPromise_def
        bpm_close_def)
  moreover have "bstep (settle 0 (bpm_close ?a)) demo_closed"
    unfolding demo_closed_def
    by (rule step_closed) (simp_all add: bpm_add_def closedFailure_def bpm_init_def isOpen_def isClosing_def
        registerPromise_def bpm_close_def settle_def closing_settled_def)
  ultimately show ?thesis by (meson rtranclp.rtrancl_into_rtrancl rtranclp.rtrancl_refl)
qed

theorem closed_manager_is_done_witness:
  "isClosed demo_closed \<and> bpm_next demo_closed = 1 \<and> 0 \<in> bpm_settled demo_closed"
proof -
  have c: "isClosed demo_closed" "bpm_next demo_closed = 1" "\<forall>j \<in> set (bpm_jobs demo_closed). job_kind j = HookJob"
    by (simp_all add: demo_closed_def bpm_add_def closedFailure_def bpm_init_def isOpen_def isClosed_def
        registerPromise_def bpm_close_def settle_def bpm_closed_def)
  with closed_manager_is_done [OF demo_closed_reachable] show ?thesis by auto
qed

text \<open>
  Adding in a state that is not open: \<open>add\<close> rejects, naming the state and the pending jobs, and leaves
  the manager as it is; \<open>addCleaner\<close> nevertheless registers a job, which in a closed manager never receives a
  termination signal unless the manager is opened again.
\<close>

theorem add_when_not_open:
  assumes "\<not> isOpen m"
  shows "bpm_add r m = (NotOpen (bpm_state m) (request_description r) (bpm_pending m), m) \<and>
         bpm_jobs (snd (addCleaner d m)) = bpm_jobs m @ [\<lparr>job_id = bpm_next m, job_kind = CleanerJob, job_description = d\<rparr>] \<and>
         bpm_state (snd (addCleaner d m)) = bpm_state m \<and> bpm_close (snd (addCleaner d m)) = snd (addCleaner d m)"
  using assms by (auto simp: bpm_add_def closedFailure_def addCleaner_def registerPromise_def bpm_close_def isOpen_def)

theorem add_when_not_open_witness:
  "bpm_add (AddHook ''x'') demo_closed = (NotOpen Closed ''x'' (bpm_pending demo_closed), demo_closed)"
proof -
  have "bpm_state demo_closed = Closed"
    by (simp add: demo_closed_def bpm_add_def closedFailure_def bpm_init_def isOpen_def
        registerPromise_def bpm_close_def settle_def bpm_closed_def)
  then show ?thesis using add_when_not_open [of demo_closed "AddHook ''x''"] by (simp add: isOpen_def request_description_def)
qed

section \<open>Closing can finish\<close>

lemma settle_all:
  assumes "set ns \<subseteq> {..<bpm_next m}"
  shows "bstep\<^sup>*\<^sup>* m (m\<lparr>bpm_settled := bpm_settled m \<union> set ns\<rparr>)"
  using assms
proof (induction ns arbitrary: m)
  case (Cons n ns)
  have "bstep m (settle n m)" using Cons.prems by (intro step_settle) simp
  also have "bstep\<^sup>*\<^sup>* (settle n m) (settle n m\<lparr>bpm_settled := bpm_settled (settle n m) \<union> set ns\<rparr>)"
    using Cons.prems by (intro Cons.IH) (simp add: settle_def)
  also have "settle n m\<lparr>bpm_settled := bpm_settled (settle n m) \<union> set ns\<rparr> = m\<lparr>bpm_settled := bpm_settled m \<union> set (n # ns)\<rparr>"
    by (simp add: settle_def)
  finally show ?case .
qed simp

lemma snapshot_numbered:
  "bpm_reachable m \<Longrightarrow> bpm_closing m = Some snap \<Longrightarrow> set snap \<subseteq> {..<bpm_next m}"
proof (induction arbitrary: snap rule: rtranclp_induct)
  case base
  then show ?case by (simp add: bpm_init_def)
next
  case (step m m')
  have r: "registered m \<subseteq> {..<bpm_next m}" using inv_reachable [OF step.hyps(1)] by (simp add: bpm_inv_def)
  from step.hyps(2) show ?case
    using step.IH step.prems r
    by cases (fastforce simp: bpm_add_def closedFailure_def addFunction_def addCleaner_def registerPromise_def
        bpm_close_def bpm_open_def bpm_closed_def settle_def deregister_def registered_def Let_def
        split: if_splits add_request.splits)+
qed

text \<open>
  Closing can always finish: from every reachable \<open>Closing\<close> state, once the jobs it waits for settle, the
  manager leaves \<open>Closing\<close>, for \<open>Open\<close> when an \<open>open\<close> call is waiting and for \<open>Closed\<close> otherwise.
\<close>

theorem closing_can_finish:
  assumes "bpm_reachable m" and "isClosing m"
  shows "\<exists>m'. bstep\<^sup>*\<^sup>* m m' \<and> bpm_state m' = (if bpm_openers m > 0 then Open else Closed) \<and>
           bpm_openers m' = 0 \<and> bpm_jobs m' = bpm_jobs m"
proof -
  obtain snap where s: "bpm_closing m = Some snap"
    using inv_reachable [OF assms(1)] assms(2) by (auto simp: bpm_inv_def isClosing_def)
  let ?m = "m\<lparr>bpm_settled := bpm_settled m \<union> set snap\<rparr>"
  have "bstep\<^sup>*\<^sup>* m ?m" by (rule settle_all [OF snapshot_numbered [OF assms(1) s]])
  moreover have "bstep ?m (bpm_closed ?m)"
    using assms(2) s by (intro step_closed) (auto simp: isClosing_def closing_settled_def list_all_iff)
  ultimately have "bstep\<^sup>*\<^sup>* m (bpm_closed ?m)" by simp
  then show ?thesis by (intro exI [of _ "bpm_closed ?m"]) (auto simp: bpm_closed_def Let_def)
qed

theorem closing_can_finish_witness:
  "\<exists>m'. bstep\<^sup>*\<^sup>* (bpm_close bpm_init) m' \<and> bpm_state m' = Closed"
proof -
  have "bstep bpm_init (bpm_close bpm_init)" by (rule step_close)
  then have "bpm_reachable (bpm_close bpm_init)" by simp
  moreover have "isClosing (bpm_close bpm_init)" "bpm_openers (bpm_close bpm_init) = 0"
    by (simp_all add: bpm_close_def bpm_init_def isOpen_def isClosing_def)
  ultimately show ?thesis using closing_can_finish [of "bpm_close bpm_init"] by auto
qed

end
