(* ===== verification/QueuedStorage.thy ===== *)
theory QueuedStorage
  imports Prelude
begin

text \<open>
  The IndexedDB-backed event queue \<open>createQueuedStorage\<close> (\<open>core/src/utils/queuedStorage\<close>). IndexedDB is
  modelled as a store of items in key order with a key generator that never goes back; opening it may
  have failed, and then every operation that needs it throws.
\<close>

record queued_item =
  qi_id :: "int option"
  qi_content :: string
  qi_timestamp :: string
  qi_bytesSize :: int

record queued_storage =
  qs_failed :: bool
  qs_items :: "(int \<times> queued_item) list"
  qs_nextKey :: int
  currentBytesSize :: int

datatype idb_error = OpenFailed

type_synonym 'a qs_op = "(queued_storage, idb_error, 'a) amethod"

definition getAddItemBytesSize :: "string \<Rightarrow> string \<Rightarrow> int" where
  "getAddItemBytesSize content timestamp = int (length content) + int (length timestamp) + 8"

text \<open>Opening the database sums up the items of the previous session.\<close>

definition qs_open :: "(int \<times> queued_item) list \<Rightarrow> int \<Rightarrow> queued_storage" where
  "qs_open items nextKey = \<lparr>qs_failed = False, qs_items = items, qs_nextKey = nextKey,
     currentBytesSize = fold (\<lambda>(k, i) n. n + qi_bytesSize i) items 0\<rparr>"

definition getStore :: "unit qs_op" where
  "getStore s = (if qs_failed s then (Inl OpenFailed, s) else (Inr (), s))"

text \<open>\<open>getAll(undefined, n)\<close>: a count of 0 is no limit.\<close>

definition qs_peek :: "nat option \<Rightarrow> queued_item list qs_op" where
  "qs_peek n = mbind getStore (\<lambda>_ s.
     (Inr (map snd (case n of None \<Rightarrow> qs_items s | Some c \<Rightarrow> if c = 0 then qs_items s else take c (qs_items s))), s))"

definition peekAll :: "queued_item list qs_op" where
  "peekAll = qs_peek None"

section \<open>Ranges of keys\<close>

function findRanges_loop :: "int list \<Rightarrow> nat \<Rightarrow> nat \<Rightarrow> (int \<times> int) list \<Rightarrow> (int \<times> int) list" where
  "findRanges_loop nums i rangeLength result =
     (if i > length nums then result
      else if i = length nums \<or> nums ! i - nums ! (i - 1) \<noteq> 1 then
        findRanges_loop nums (Suc i) 1
          (if rangeLength = 1 then result @ [(nums ! (i - rangeLength), nums ! (i - rangeLength))]
           else result @ [(nums ! (i - rangeLength), nums ! (i - 1))])
      else findRanges_loop nums (Suc i) (rangeLength + 1) result)"
  by pat_completeness auto
termination
  by (relation "measure (\<lambda>(nums, i, r, res). Suc (length nums) - i)") auto

declare findRanges_loop.simps [simp del]

text \<open>The loop starts at 1, so that an empty input has no range.\<close>

definition findRanges :: "int list \<Rightarrow> (int \<times> int) list" where
  "findRanges input = findRanges_loop (sort input) 1 1 []"

definition in_ranges :: "(int \<times> int) list \<Rightarrow> int \<Rightarrow> bool" where
  "in_ranges rs k \<longleftrightarrow> list_ex (\<lambda>(l, u). l \<le> k \<and> k \<le> u) rs"

section \<open>Changing the queue\<close>

definition qs_delete :: "queued_item list \<Rightarrow> unit qs_op" where
  "qs_delete items =
     (if items = [] then mreturn ()
      else mbind getStore (\<lambda>_ s.
        let rs = findRanges (List.map_filter qi_id items)
        in (Inr (), s\<lparr>qs_items := filter (\<lambda>(k, i). \<not> in_ranges rs k) (qs_items s),
                      currentBytesSize := fold (\<lambda>i n. n - qi_bytesSize i) items (currentBytesSize s)\<rparr>)))"

definition qs_insert :: "string \<Rightarrow> string \<Rightarrow> unit qs_op" where
  "qs_insert content timestamp = mbind getStore (\<lambda>_ s.
     let sz = getAddItemBytesSize content timestamp;
         k = qs_nextKey s
     in (Inr (), s\<lparr>qs_items := qs_items s @ [(k, \<lparr>qi_id = Some k, qi_content = content, qi_timestamp = timestamp, qi_bytesSize = sz\<rparr>)],
                   qs_nextKey := k + 1, currentBytesSize := currentBytesSize s + sz\<rparr>))"

definition qs_add :: "string \<Rightarrow> string \<Rightarrow> bool \<Rightarrow> unit qs_op" where
  "qs_add content timestamp dequeueBeforeEnqueue =
     mbind (if dequeueBeforeEnqueue then mbind (qs_peek (Some 1)) qs_delete else mreturn ())
       (\<lambda>_. qs_insert content timestamp)"

definition qs_clear :: "unit qs_op" where
  "qs_clear = mbind getStore (\<lambda>_ s. (Inr (), s\<lparr>qs_items := [], currentBytesSize := 0\<rparr>))"

definition isFull :: "int \<Rightarrow> queued_storage \<Rightarrow> bool" where
  "isFull maxBytesSizeInMiB s \<longleftrightarrow> currentBytesSize s \<ge> maxBytesSizeInMiB * 1024 * 1024"

end
