(* ===== verification/QueuedStorageProofs.thy ===== *)
theory QueuedStorageProofs
  imports QueuedStorage
begin

text \<open>
  The ranges of a delete cover exactly the keys asked for, the byte counter is the size of the queued
  items, and the queue is first in, first out.
\<close>

section \<open>Ranges\<close>

definition covered :: "(int \<times> int) list \<Rightarrow> int set" where
  "covered rs = {k. in_ranges rs k}"

lemma covered_append [simp]: "covered (rs @ [(l, u)]) = covered rs \<union> {l..u}"
  by (auto simp: covered_def in_ranges_def)

lemma covered_Nil [simp]: "covered [] = {}"
  by (simp add: covered_def in_ranges_def)

lemma consecutive: "(\<lambda>k. a + int k) ` set [0..<r] = {a..a + int r - 1}"
proof (intro set_eqI iffI)
  fix x assume "x \<in> {a..a + int r - 1}"
  then show "x \<in> (\<lambda>k. a + int k) ` set [0..<r]"
    by (intro image_eqI [of _ _ "nat (x - a)"]) auto
qed auto

lemma loop_covered:
  assumes "0 < r" and "r \<le> i" and "i \<le> length nums"
    and "\<forall>k < r. nums ! (i - r + k) = nums ! (i - r) + int k"
  shows "covered (findRanges_loop nums i r result) = covered result \<union> set (drop (i - r) nums)"
  using assms
proof (induction nums i r result rule: findRanges_loop.induct)
  case (1 nums i r result)
  have "take r (drop (i - r) nums) = map (\<lambda>k. nums ! (i - r + k)) [0..<r]"
    using "1.prems" by (intro nth_equalityI) auto
  also have "\<dots> = map (\<lambda>k. nums ! (i - r) + int k) [0..<r]"
    using "1.prems"(4) by simp
  finally have run: "set (take r (drop (i - r) nums)) = {nums ! (i - r)..nums ! (i - r) + int r - 1}"
    by (simp only: set_map consecutive)
  have split: "set (drop (i - r) nums) = set (take r (drop (i - r) nums)) \<union> set (drop i nums)"
    using 1 append_take_drop_id [of r "drop (i - r) nums"] by (simp flip: set_append)
  have last: "nums ! (i - 1) = nums ! (i - r) + int r - 1"
    using 1 spec [OF "1.prems"(4), of "r - 1"] by (simp add: of_nat_diff)
  show ?case
  proof (cases "i = length nums \<or> nums ! i - nums ! (i - 1) \<noteq> 1")
    case push: True
    define result' where "result' = (if r = 1 then result @ [(nums ! (i - r), nums ! (i - r))]
      else result @ [(nums ! (i - r), nums ! (i - 1))])"
    have r: "covered result' = covered result \<union> set (take r (drop (i - r) nums))"
    proof (cases "r = 1")
      case True
      then show ?thesis unfolding run result'_def by simp
    next
      case False
      then show ?thesis unfolding run result'_def by (simp add: last [unfolded One_nat_def])
    qed
    have step: "findRanges_loop nums i r result = findRanges_loop nums (Suc i) 1 result'"
      using push "1.prems"(3) by (subst findRanges_loop.simps) (simp add: result'_def)
    show ?thesis
    proof (cases "i = length nums")
      case True
      then have "findRanges_loop nums (Suc i) 1 result' = result'" by (simp add: findRanges_loop.simps)
      then have "covered (findRanges_loop nums i r result) = covered result'" by (simp only: step)
      with True r split show ?thesis by simp
    next
      case False
      then have "covered (findRanges_loop nums (Suc i) 1 result') = covered result' \<union> set (drop (Suc i - 1) nums)"
        using "1.prems" push by (intro "1.IH"(1) [folded result'_def]) auto
      with r split show ?thesis by (auto simp: step)
    qed
  next
    case False
    have n: "nums ! (i - r + k) = nums ! (i - r) + int k" if "k < r + 1" for k
    proof (cases "k = r")
      case True
      then show ?thesis using False last "1.prems" by simp
    qed (use that "1.prems"(4) in auto)
    have "covered (findRanges_loop nums (Suc i) (r + 1) result) = covered result \<union> set (drop (Suc i - (r + 1)) nums)"
      using False "1.prems" n by (intro "1.IH"(2)) auto
    moreover have "findRanges_loop nums i r result = findRanges_loop nums (Suc i) (r + 1) result"
      using False "1.prems"(3) by (subst findRanges_loop.simps) simp
    ultimately show ?thesis by simp
  qed
qed

lemma findRanges_covered: "covered (findRanges input) = set input"
proof (cases "input = []")
  case True
  then show ?thesis by (simp add: findRanges_def findRanges_loop.simps)
next
  case False
  then have "1 \<le> length (sort input)" by (cases input) auto
  then show ?thesis
    using loop_covered [of 1 1 "sort input" "[]"] by (simp add: findRanges_def)
qed

lemma in_findRanges: "in_ranges (findRanges input) k \<longleftrightarrow> k \<in> set input"
  using findRanges_covered [of input] by (auto simp: covered_def)

section \<open>The queue\<close>

text \<open>
  Items carry their keys, keys grow and stay below the generator, and the counter is the size of the
  items.
\<close>

definition qs_inv :: "queued_storage \<Rightarrow> bool" where
  "qs_inv s \<longleftrightarrow> sorted_wrt (<) (map fst (qs_items s)) \<and>
     (\<forall>(k, i) \<in> set (qs_items s). qi_id i = Some k \<and> k < qs_nextKey s) \<and>
     currentBytesSize s = (\<Sum>(k, i) \<leftarrow> qs_items s. qi_bytesSize i)"

lemma fold_plus: "fold (\<lambda>(k, i) n. n + qi_bytesSize i) items (m :: int) = m + (\<Sum>(k, i) \<leftarrow> items. qi_bytesSize i)"
  by (induction items arbitrary: m) auto

lemma fold_minus: "fold (\<lambda>i n. n - qi_bytesSize i) items (m :: int) = m - (\<Sum>i \<leftarrow> items. qi_bytesSize i)"
  by (induction items arbitrary: m) auto

lemma open_inv:
  "sorted_wrt (<) (map fst items) \<Longrightarrow> \<forall>(k, i) \<in> set items. qi_id i = Some k \<and> k < nextKey \<Longrightarrow> qs_inv (qs_open items nextKey)"
  by (simp add: qs_inv_def qs_open_def fold_plus)

lemma insert_eq:
  assumes "\<not> qs_failed s"
  shows "qs_insert c t s = (Inr (), s\<lparr>qs_items := qs_items s @ [(qs_nextKey s, \<lparr>qi_id = Some (qs_nextKey s),
      qi_content = c, qi_timestamp = t, qi_bytesSize = getAddItemBytesSize c t\<rparr>)],
      qs_nextKey := qs_nextKey s + 1, currentBytesSize := currentBytesSize s + getAddItemBytesSize c t\<rparr>)"
  using assms by (simp add: qs_insert_def mbind_def getStore_def Let_def)

lemma insert_inv: "qs_inv s \<Longrightarrow> qs_inv (snd (qs_insert c t s))"
proof (cases "qs_failed s")
  case True
  then show "qs_inv s \<Longrightarrow> qs_inv (snd (qs_insert c t s))" by (simp add: qs_insert_def mbind_def getStore_def)
next
  case False
  show "qs_inv s \<Longrightarrow> qs_inv (snd (qs_insert c t s))"
    by (auto simp: insert_eq [OF False] qs_inv_def sorted_wrt_append)
qed

lemma inv_distinct:
  assumes "qs_inv s"
  shows "distinct (map snd (qs_items s))" and "distinct (map fst (qs_items s))"
proof -
  show k: "distinct (map fst (qs_items s))"
    using assms strict_sorted_iff [of "map fst (qs_items s)"] by (auto simp: qs_inv_def)
  have "map (the \<circ> qi_id) (map snd (qs_items s)) = map fst (qs_items s)"
    using assms by (auto simp: qs_inv_def)
  with k show "distinct (map snd (qs_items s))" by (metis distinct_map)
qed

lemma asked_ids:
  assumes "qs_inv s" and "set items \<subseteq> snd ` set (qs_items s)" and "(k, i) \<in> set (qs_items s)"
  shows "in_ranges (findRanges (List.map_filter qi_id items)) k \<longleftrightarrow> i \<in> set items"
proof -
  have ids: "\<forall>(k, i) \<in> set (qs_items s). qi_id i = Some k" using assms(1) by (auto simp: qs_inv_def)
  have "in_ranges (findRanges (List.map_filter qi_id items)) k \<longleftrightarrow> k \<in> set (List.map_filter qi_id items)"
    by (rule in_findRanges)
  also have "\<dots> \<longleftrightarrow> (\<exists>j \<in> set items. qi_id j = Some k)"
    by (force simp: List.map_filter_def)
  also have "\<dots> \<longleftrightarrow> i \<in> set items"
  proof
    assume "\<exists>j \<in> set items. qi_id j = Some k"
    then obtain j where j: "j \<in> set items" "qi_id j = Some k" by blast
    then obtain k' where k': "(k', j) \<in> set (qs_items s)" using assms(2) by auto
    with ids j have "k' = k" by auto
    with k' assms(3) inv_distinct(2) [OF assms(1)] have "i = j" by (metis eq_key_imp_eq_value)
    with j show "i \<in> set items" by simp
  qed (use ids assms(3) in auto)
  finally show ?thesis .
qed

lemma sum_list_split:
  "sum_list (map f xs) = sum_list (map f (filter P xs)) + sum_list (map (f :: 'a \<Rightarrow> int) (filter (\<lambda>x. \<not> P x) xs))"
  by (induction xs) auto

lemma stored_sum:
  assumes "qs_inv s" and "distinct items" and "set items \<subseteq> snd ` set (qs_items s)"
  shows "(\<Sum>(k, i) \<leftarrow> qs_items s. qi_bytesSize i) - (\<Sum>i \<leftarrow> items. qi_bytesSize i)
    = (\<Sum>(k, i) \<leftarrow> filter (\<lambda>(k, i). i \<notin> set items) (qs_items s). qi_bytesSize i)"
proof -
  let ?all = "map snd (qs_items s)"
  let ?in = "filter (\<lambda>i. i \<in> set items) ?all" and ?out = "filter (\<lambda>i. i \<notin> set items) ?all"
  have "set ?in = set items" using assms(3) by auto
  moreover have "distinct ?in" using inv_distinct(1) [OF assms(1)] by (rule distinct_filter)
  ultimately have "sum_list (map qi_bytesSize ?in) = sum_list (map qi_bytesSize items)"
    using assms(2) by (simp only: sum_list_distinct_conv_sum_set)
  moreover have "sum_list (map qi_bytesSize ?all) = sum_list (map qi_bytesSize ?in) + sum_list (map qi_bytesSize ?out)"
    using sum_list_split [of qi_bytesSize ?all "\<lambda>i. i \<in> set items"] by simp
  moreover have "?out = map snd (filter (\<lambda>(k, i). i \<notin> set items) (qs_items s))"
    by (simp add: filter_map comp_def split_def)
  ultimately show ?thesis by (simp add: comp_def split_def)
qed

text \<open>What is deleted when the items given are stored ones.\<close>

lemma delete_eq:
  assumes "qs_inv s" and "\<not> qs_failed s" and "distinct items" and "set items \<subseteq> snd ` set (qs_items s)"
  shows "qs_delete items s = (Inr (), s\<lparr>qs_items := filter (\<lambda>(k, i). i \<notin> set items) (qs_items s),
      currentBytesSize := (\<Sum>(k, i) \<leftarrow> filter (\<lambda>(k, i). i \<notin> set items) (qs_items s). qi_bytesSize i)\<rparr>)"
proof (cases "items = []")
  case True
  with assms(1) show ?thesis by (simp add: qs_delete_def qs_inv_def)
next
  case False
  have "filter (\<lambda>(k, i). \<not> in_ranges (findRanges (List.map_filter qi_id items)) k) (qs_items s)
      = filter (\<lambda>(k, i). i \<notin> set items) (qs_items s)"
    using asked_ids [OF assms(1,4)] by (intro filter_cong) auto
  moreover have "currentBytesSize s = (\<Sum>(k, i) \<leftarrow> qs_items s. qi_bytesSize i)"
    using assms(1) by (simp add: qs_inv_def)
  ultimately show ?thesis
    using False assms(2) stored_sum [OF assms(1,3,4)]
    by (simp add: qs_delete_def mbind_def getStore_def Let_def fold_minus)
qed

lemma stored_step:
  assumes "qs_inv s" and "\<not> qs_failed s" and "distinct items" and "set items \<subseteq> snd ` set (qs_items s)"
  shows "qs_inv (snd (qs_delete items s))"
  using assms(1) sorted_wrt_filter [of "\<lambda>x y. fst x < fst y" "qs_items s" "\<lambda>(k, i). i \<notin> set items"]
  by (auto simp: delete_eq [OF assms] qs_inv_def sorted_wrt_map)

lemma peek_eq:
  assumes "\<not> qs_failed s"
  shows "qs_peek n s = (Inr (map snd (case n of None \<Rightarrow> qs_items s
      | Some c \<Rightarrow> if c = 0 then qs_items s else take c (qs_items s))), s)"
  using assms by (simp add: qs_peek_def mbind_def getStore_def)

lemma peeked_are_stored:
  assumes "qs_inv s" and "\<not> qs_failed s" and "qs_peek n s = (Inr items, s')"
  shows "s' = s" and "distinct items" and "set items \<subseteq> snd ` set (qs_items s)"
  using assms inv_distinct(1) [OF assms(1)]
  by (auto simp: peek_eq take_map [symmetric] dest: in_set_takeD split: option.splits if_splits)

section \<open>The properties\<close>

text \<open>
  The ranges a delete sends to IndexedDB cover exactly the ids of the items, whatever their order and
  however often they repeat: no other stored item is deleted with them.
\<close>

theorem findRanges_exact: "in_ranges (findRanges input) k \<longleftrightarrow> k \<in> set input"
  by (rule in_findRanges)

text \<open>
  Deleting what was peeked removes exactly those items from the queue, keeps the order of the others
  and leaves the byte counter at the size of what is left.
\<close>

theorem delete_peeked:
  assumes "qs_inv s" and "\<not> qs_failed s" and "qs_peek n s = (Inr items, s')"
  shows "fst (qs_delete items s') = Inr () \<and>
    qs_items (snd (qs_delete items s')) = filter (\<lambda>(k, i). i \<notin> set items) (qs_items s) \<and>
    qs_inv (snd (qs_delete items s'))"
  using delete_eq [OF assms(1,2) peeked_are_stored(2,3) [OF assms]]
    stored_step [OF assms(1,2) peeked_are_stored(2,3) [OF assms]] peeked_are_stored(1) [OF assms]
  by simp

text \<open>
  Adding puts the item last under a fresh key and keeps the byte counter exact; with
  \<open>dequeueBeforeEnqueue\<close> the oldest item leaves first, so the queue does not grow.
\<close>

theorem add_is_fifo:
  assumes "qs_inv s" and "\<not> qs_failed s"
  shows "(\<exists>i. qi_content i = c \<and> qi_timestamp i = t \<and> qi_bytesSize i = getAddItemBytesSize c t \<and>
      qs_items (snd (qs_add c t b s)) = (if b then tl (qs_items s) else qs_items s) @ [(qs_nextKey s, i)]) \<and>
    fst (qs_add c t b s) = Inr () \<and> qs_inv (snd (qs_add c t b s))"
proof -
  define s1 where "s1 = (if b then snd (qs_delete (map snd (take 1 (qs_items s))) s) else s)"
  have p: "qs_peek (Some 1) s = (Inr (map snd (take 1 (qs_items s))), s)"
    using assms(2) by (simp add: peek_eq)
  note d = delete_eq [OF assms peeked_are_stored(2,3) [OF assms p]]
  have inv: "qs_inv s1"
    using assms(1) stored_step [OF assms peeked_are_stored(2,3) [OF assms p]] by (simp add: s1_def)
  have "filter (\<lambda>(k, i). i \<notin> set (map snd (take 1 (qs_items s)))) (qs_items s) = tl (qs_items s)"
  proof (cases "qs_items s")
    case (Cons x xs)
    then have "snd y \<noteq> snd x" if "y \<in> set xs" for y
      using that inv_distinct(1) [OF assms(1)] by (metis distinct.simps(2) image_eqI list.set_map list.simps(9))
    with Cons show ?thesis by (auto simp: split_def intro!: filter_True)
  qed simp
  then have s1: "qs_items s1 = (if b then tl (qs_items s) else qs_items s)" "\<not> qs_failed s1" "qs_nextKey s1 = qs_nextKey s"
    using assms(2) d by (simp_all add: s1_def)
  have add: "qs_add c t b s = qs_insert c t s1"
    by (cases b) (simp_all add: qs_add_def mbind_def p [unfolded One_nat_def] d [unfolded One_nat_def] s1_def)
  have "\<exists>i. qi_content i = c \<and> qi_timestamp i = t \<and> qi_bytesSize i = getAddItemBytesSize c t \<and>
      qs_items (snd (qs_add c t b s)) = (if b then tl (qs_items s) else qs_items s) @ [(qs_nextKey s, i)]"
    by (intro exI [of _ "\<lparr>qi_id = Some (qs_nextKey s), qi_content = c, qi_timestamp = t,
       qi_bytesSize = getAddItemBytesSize c t\<rparr>"]) (simp add: add insert_eq [OF s1(2)] s1)
  moreover have "fst (qs_add c t b s) = Inr ()" by (simp add: add insert_eq [OF s1(2)])
  moreover have "qs_inv (snd (qs_add c t b s))" using insert_inv [OF inv] by (simp add: add)
  ultimately show ?thesis by blast
qed

text \<open>A queue of two items of the previous session.\<close>

definition demo_queue :: queued_storage where
  "demo_queue = qs_open
     [(1, \<lparr>qi_id = Some 1, qi_content = ''a'', qi_timestamp = ''t'', qi_bytesSize = 10\<rparr>),
      (3, \<lparr>qi_id = Some 3, qi_content = ''bc'', qi_timestamp = ''t'', qi_bytesSize = 11\<rparr>)] 4"

lemma demo_queue_inv: "qs_inv demo_queue" "\<not> qs_failed demo_queue"
  unfolding demo_queue_def by (rule open_inv) (auto simp: qs_open_def)

text \<open>
  Nothing checks that the items of a delete are still stored: deleting the same batch twice takes its
  size off the counter twice, so the counter goes below zero and \<open>isFull\<close> lets the queue outgrow its
  bound.
\<close>

theorem double_delete_drifts:
  "\<exists>items s. fst (qs_peek (Some 2) demo_queue) = Inr items \<and>
     s = snd (mbind (qs_delete items) (\<lambda>_. qs_delete items) demo_queue) \<and>
     qs_items s = [] \<and> currentBytesSize s = - 21"
proof -
  obtain items where p: "qs_peek (Some 2) demo_queue = (Inr items, demo_queue)"
      "items = map snd (qs_items demo_queue)"
    by (simp add: peek_eq demo_queue_inv demo_queue_def qs_open_def)
  note st = peeked_are_stored(2,3) [OF demo_queue_inv p(1)]
  have 1: "qs_delete items demo_queue = (Inr (), demo_queue\<lparr>qs_items := [], currentBytesSize := 0\<rparr>)"
    using delete_eq [OF demo_queue_inv st] by (simp add: p(2) demo_queue_def qs_open_def)
  show ?thesis
    using p by (intro exI [of _ items]) (simp add: mbind_def 1, simp add: qs_delete_def mbind_def getStore_def
      demo_queue_def qs_open_def fold_minus in_findRanges)
qed

text \<open>The witnesses.\<close>

lemma delete_peeked_witness:
  "qs_items (snd (qs_delete (map snd (take 1 (qs_items demo_queue))) demo_queue))
     = filter (\<lambda>(k, i). i \<notin> set (map snd (take 1 (qs_items demo_queue)))) (qs_items demo_queue)"
  by (rule delete_peeked [OF demo_queue_inv, of "Some 1", THEN conjunct2, THEN conjunct1]) (simp add: peek_eq demo_queue_inv)

lemma add_is_fifo_witness: "qs_inv (snd (qs_add ''c'' ''t'' True demo_queue))"
  by (rule add_is_fifo [OF demo_queue_inv, THEN conjunct2, THEN conjunct2])

end
