(* ===== verification/Retry.thy ===== *)
theory Retry
  imports Prelude Complex_Main
begin

text \<open>
  The two retry loops of \<open>core\<close>: the middleware of the service clients (\<open>clients/middleware/retry\<close>) and
  the \<open>retry\<close> utility used by DataStore and PubSub (\<open>utils/retry\<close>). The world the next handler, the
  timers and the abort signal live in is a type parameter; the middleware context is part of the state.
\<close>

section \<open>Backoff\<close>

definition MAX_DELAY_MS :: real where
  "MAX_DELAY_MS = 5 * 60 * 1000"

text \<open>\<open>None\<close> is \<open>false\<close>; \<open>random\<close> is the value of \<open>Math.random()\<close>.\<close>

definition jitteredBackoff :: "real \<Rightarrow> nat \<Rightarrow> real \<Rightarrow> real option" where
  "jitteredBackoff maxDelayMs attempt random =
     (let delay = 2 ^ attempt * 100 + 100 * random in if delay > maxDelayMs then None else Some delay)"

definition middlewareBackoff :: "nat \<Rightarrow> real \<Rightarrow> real" where
  "middlewareBackoff attempt random =
     (case jitteredBackoff (5 * 60 * 1000) attempt random of None \<Rightarrow> 5 * 60 * 1000 | Some delay \<Rightarrow> delay)"

section \<open>Which failures are retried\<close>

record service_error =
  err_name :: "string option"
  err_code :: "string option"

definition THROTTLING_ERROR_CODES :: "string list" where
  "THROTTLING_ERROR_CODES =
     [''BandwidthLimitExceeded'', ''EC2ThrottledException'', ''LimitExceededException'', ''PriorRequestNotComplete'',
      ''ProvisionedThroughputExceededException'', ''RequestLimitExceeded'', ''RequestThrottled'',
      ''RequestThrottledException'', ''SlowDown'', ''ThrottledException'', ''Throttling'', ''ThrottlingException'',
      ''TooManyRequestsException'']"

definition TIMEOUT_ERROR_CODES :: "string list" where
  "TIMEOUT_ERROR_CODES = [''TimeoutError'', ''RequestTimeout'', ''RequestTimeoutException'']"

definition CLOCK_SKEW_ERROR_CODES :: "string list" where
  "CLOCK_SKEW_ERROR_CODES =
     [''AuthFailure'', ''InvalidSignatureException'', ''RequestExpired'', ''RequestInTheFuture'', ''RequestTimeTooSkewed'',
      ''SignatureDoesNotMatch'', ''BadRequestException'']"

text \<open>\<open>!!errorCode && codes.includes(errorCode)\<close>; the empty string is falsy.\<close>

definition code_in :: "string option \<Rightarrow> string list \<Rightarrow> bool" where
  "code_in errorCode codes = (case errorCode of None \<Rightarrow> False | Some c \<Rightarrow> c \<noteq> [] \<and> c \<in> set codes)"

definition isThrottlingError :: "int option \<Rightarrow> string option \<Rightarrow> bool" where
  "isThrottlingError statusCode errorCode \<longleftrightarrow> statusCode = Some 429 \<or> code_in errorCode THROTTLING_ERROR_CODES"

definition isConnectionError :: "service_error option \<Rightarrow> bool" where
  "isConnectionError error = (case Option.bind error err_name of None \<Rightarrow> False
     | Some n \<Rightarrow> n \<in> set [''NetworkError'', ''ERR_NETWORK''])"

definition isClockSkewError :: "string option \<Rightarrow> bool" where
  "isClockSkewError errorCode = code_in errorCode CLOCK_SKEW_ERROR_CODES"

definition isServerSideError :: "int option \<Rightarrow> string option \<Rightarrow> bool" where
  "isServerSideError statusCode errorCode \<longleftrightarrow>
     (case statusCode of None \<Rightarrow> False | Some c \<Rightarrow> c \<noteq> 0 \<and> c \<in> set [500, 502, 503, 504])
     \<or> code_in errorCode TIMEOUT_ERROR_CODES"

text \<open>The error parser of the client is a parameter; it sees the response, if there is one.\<close>

record http_response =
  statusCode :: int
  body :: string

definition errorCodeOf :: "service_error option \<Rightarrow> string option" where
  "errorCodeOf parsedError = (case parsedError of None \<Rightarrow> None
     | Some e \<Rightarrow> (case err_code e of None \<Rightarrow> err_name e | Some c \<Rightarrow> if c = [] then err_name e else Some c))"

definition getRetryDecider ::
    "(http_response option \<Rightarrow> service_error option) \<Rightarrow> http_response option \<Rightarrow> service_error option \<Rightarrow> bool" where
  "getRetryDecider errorParser response error =
     (let parsedError = (case error of None \<Rightarrow> errorParser response | Some e \<Rightarrow> Some e);
          errorCode = errorCodeOf parsedError;
          status = map_option statusCode response
      in isConnectionError error \<or> isThrottlingError status errorCode \<or> isClockSkewError errorCode
         \<or> isServerSideError status errorCode)"

section \<open>The retry middleware\<close>

text \<open>What a handler returns or throws; only plain objects carry \<open>$metadata\<close>.\<close>

datatype meta_value = MetaNumber nat | MetaString string

record 'b outcome =
  content :: 'b
  is_plain_object :: bool
  metadata :: "(string, meta_value) omap option"

definition addOrIncrementMetadataAttempts :: "nat \<Rightarrow> 'b outcome \<Rightarrow> 'b outcome" where
  "addOrIncrementMetadataAttempts attempts r =
     (if \<not> is_plain_object r then r
      else r\<lparr>metadata := Some (AList.update ''attempts'' (MetaNumber attempts)
             (case metadata r of None \<Rightarrow> [] | Some m \<Rightarrow> m))\<rparr>)"

record 'w retry_state =
  world :: 'w
  attemptsCount :: "nat option"
  isCredentialsExpired :: "bool option"

datatype 'b retry_error = Thrown "'b outcome" | ThrownUndefined | RequestAborted

type_synonym ('b, 'w) handler = "'w retry_state \<Rightarrow> ('b outcome + 'b outcome) \<times> 'w retry_state"

record ('b, 'w) retry_options =
  maxAttempts :: nat
  retryDecider :: "'b outcome option \<Rightarrow> 'b outcome option \<Rightarrow> 'w retry_state \<Rightarrow>
    ('b outcome + (bool \<times> bool)) \<times> 'w retry_state"
  computeDelay :: "nat \<Rightarrow> 'w \<Rightarrow> real \<times> 'w"
  aborted :: "'w \<Rightarrow> bool"
  sleep :: "real \<Rightarrow> 'w \<Rightarrow> 'w"

definition handleTerminal :: "'b outcome option \<Rightarrow> 'b outcome option \<Rightarrow> nat \<Rightarrow> 'b retry_error + 'b outcome" where
  "handleTerminal response error attempts = (case response of
     Some r \<Rightarrow> Inr (addOrIncrementMetadataAttempts attempts r)
   | None \<Rightarrow> (case error of
       Some e \<Rightarrow> Inl (Thrown (addOrIncrementMetadataAttempts attempts e))
     | None \<Rightarrow> Inl ThrownUndefined))"

definition next_count :: "nat option \<Rightarrow> nat \<Rightarrow> nat" where
  "next_count ctx attempts = (let c = (case ctx of None \<Rightarrow> 0 | Some n \<Rightarrow> n) in if c > attempts then c else attempts + 1)"

text \<open>A cancelled sleep returns at once; \<open>sleep\<close> is the timer, which the abort signal may cut short.\<close>

definition cancellableSleep :: "('b, 'w) retry_options \<Rightarrow> real \<Rightarrow> 'w \<Rightarrow> 'w" where
  "cancellableSleep opt delay w = (if aborted opt w then w else sleep opt delay w)"

text \<open>
  One turn of the loop: it returns (or throws), or it goes on with the attempts made, the response and
  error of the last one, and the state.
\<close>

definition retry_turn :: "('b, 'w) retry_options \<Rightarrow> ('b, 'w) handler \<Rightarrow> nat \<Rightarrow> 'w retry_state \<Rightarrow>
    (('b retry_error + 'b outcome) \<times> 'w retry_state) + (nat \<times> 'b outcome option \<times> 'b outcome option \<times> 'w retry_state)" where
  "retry_turn opt handler attempts s =
     (let (res, s1) = handler s;
          response = (case res of Inr r \<Rightarrow> Some r | Inl e \<Rightarrow> None);
          error = (case res of Inr r \<Rightarrow> None | Inl e \<Rightarrow> Some e);
          attempts1 = next_count (attemptsCount s1) attempts;
          (decision, s3) = retryDecider opt response error (s1\<lparr>attemptsCount := Some attempts1\<rparr>)
      in case decision of
           Inl e \<Rightarrow> Inl (Inl (Thrown e), s3)
         | Inr (expired, retryable) \<Rightarrow>
             if retryable then
               (let s4 = s3\<lparr>isCredentialsExpired := Some expired\<rparr>
                in Inr (attempts1, response, error,
                     if \<not> aborted opt (world s4) \<and> attempts1 < maxAttempts opt
                     then (let (delay, w) = computeDelay opt attempts1 (world s4)
                           in s4\<lparr>world := cancellableSleep opt delay w\<rparr>)
                     else s4))
             else Inl (handleTerminal response error attempts1, s3))"

lemma next_count_gt: "attempts < next_count ctx attempts"
  by (auto simp: next_count_def Let_def split: option.splits)

lemma retry_turn_gt: "retry_turn opt handler attempts s = Inr (attempts1, response, error, s') \<Longrightarrow> attempts < attempts1"
  by (auto simp: retry_turn_def Let_def next_count_gt split: prod.splits sum.splits if_splits)

function retry_loop :: "('b, 'w) retry_options \<Rightarrow> ('b, 'w) handler \<Rightarrow> nat \<Rightarrow> 'b outcome option \<Rightarrow> 'b outcome option \<Rightarrow>
    'w retry_state \<Rightarrow> ('b retry_error + 'b outcome) \<times> 'w retry_state" where
  "retry_loop opt handler attempts response error s =
     (if \<not> aborted opt (world s) \<and> attempts < maxAttempts opt then
        (case retry_turn opt handler attempts s of
           Inl returned \<Rightarrow> returned
         | Inr (attempts1, response1, error1, s1) \<Rightarrow> retry_loop opt handler attempts1 response1 error1 s1)
      else if aborted opt (world s) then (Inl RequestAborted, s)
      else (handleTerminal response error attempts, s))"
  by pat_completeness auto
termination
proof (relation "measure (\<lambda>(opt, handler, attempts, response, error, s). maxAttempts opt - attempts)", goal_cases)
  case (2 opt handler attempts response error s x a b c d e f)
  then have "attempts < a" by (auto intro: retry_turn_gt)
  with 2 show ?case by auto
qed simp

declare retry_loop.simps [simp del]

text \<open>\<open>None\<close> is the error \<open>maxAttempts must be greater than 0\<close>, thrown when the middleware is made.\<close>

definition retryMiddleware :: "('b, 'w) retry_options \<Rightarrow> ('b, 'w) handler \<Rightarrow> 'w retry_state \<Rightarrow>
    ('b retry_error + 'b outcome) \<times> 'w retry_state" where
  "retryMiddleware opt handler s =
     retry_loop opt handler (case attemptsCount s of None \<Rightarrow> 0 | Some n \<Rightarrow> n) None None s"

definition retryMiddlewareFactory :: "('b, 'w) retry_options \<Rightarrow>
    (('b, 'w) handler \<Rightarrow> 'w retry_state \<Rightarrow> ('b retry_error + 'b outcome) \<times> 'w retry_state) option" where
  "retryMiddlewareFactory opt = (if maxAttempts opt < 1 then None else Some (retryMiddleware opt))"

section \<open>The retry utility\<close>

record 'v thrown =
  thrown_value :: 'v
  nonRetryable :: bool

text \<open>\<open>None\<close> is a thrown \<open>undefined\<close>.\<close>

definition isNonRetryableError :: "'v thrown option \<Rightarrow> bool" where
  "isNonRetryableError obj = (case obj of None \<Rightarrow> False | Some e \<Rightarrow> nonRetryable e)"

record ('v, 'a, 'w) retry_call =
  functionToRetry :: "'w \<Rightarrow> ('v thrown option + 'a) \<times> 'w"
  delayFn :: "nat \<Rightarrow> 'v thrown option \<Rightarrow> 'w \<Rightarrow> real option \<times> 'w"
  terminated :: "'w \<Rightarrow> bool"
  wait :: "real \<Rightarrow> 'w \<Rightarrow> 'w"

text \<open>
  The end of the background process sets \<open>terminated\<close> in a callback of its own, so the first attempt is always
  made.
\<close>

partial_function (option) retry :: "('v, 'a, 'w) retry_call \<Rightarrow> nat \<Rightarrow> 'v thrown option \<Rightarrow> 'w \<Rightarrow>
    (('v thrown option + 'a) \<times> 'w) option" where
  "retry c attempt lastError w =
     (if 0 < attempt \<and> terminated c w then Some (Inl lastError, w)
      else (case functionToRetry c w of
        (Inr a, w1) \<Rightarrow> Some (Inr a, w1)
      | (Inl err, w1) \<Rightarrow>
          if isNonRetryableError err then Some (Inl err, w1)
          else (case delayFn c (attempt + 1) err w1 of
            (None, w2) \<Rightarrow> Some (Inl err, w2)
          | (Some retryIn, w2) \<Rightarrow>
              if terminated c w2 then Some (Inl err, w2)
              else retry c (attempt + 1) err (wait c retryIn w2))))"

text \<open>\<open>random\<close> draws from the world the number that \<open>Math.random\<close> returns.\<close>

definition jitteredExponentialRetry :: "('w \<Rightarrow> ('v thrown option + 'a) \<times> 'w) \<Rightarrow> real \<Rightarrow> ('w \<Rightarrow> real \<times> 'w) \<Rightarrow>
    ('w \<Rightarrow> bool) \<Rightarrow> (real \<Rightarrow> 'w \<Rightarrow> 'w) \<Rightarrow> 'w \<Rightarrow> (('v thrown option + 'a) \<times> 'w) option" where
  "jitteredExponentialRetry f maxDelayMs random onTerminate waitFor =
     retry \<lparr>functionToRetry = f,
            delayFn = (\<lambda>attempt _ w. case random w of (x, w') \<Rightarrow> (jitteredBackoff maxDelayMs attempt x, w')),
            terminated = onTerminate, wait = waitFor\<rparr> 0 None"

end
