(* ===== verification/RetryProofs.thy ===== *)
theory RetryProofs
  imports Retry
begin

text \<open>
  How often the two retry loops call what they retry, what they return, and which failures they retry.
\<close>

section \<open>The number of calls of the middleware\<close>

text \<open>\<open>calls\<close> counts the calls of the next handler; nothing else in the environment makes one.\<close>

definition counts_calls :: "('w \<Rightarrow> nat) \<Rightarrow> ('b, 'w) retry_options \<Rightarrow> ('b, 'w) handler \<Rightarrow> bool" where
  "counts_calls calls opt handler \<longleftrightarrow>
     (\<forall>s. calls (world (snd (handler s))) = Suc (calls (world s))) \<and>
     (\<forall>r e s. calls (world (snd (retryDecider opt r e s))) = calls (world s)) \<and>
     (\<forall>n w. calls (snd (computeDelay opt n w)) = calls w) \<and>
     (\<forall>d w. calls (sleep opt d w) = calls w)"

lemma calls_sleep:
  "counts_calls calls opt handler \<Longrightarrow> calls (cancellableSleep opt d w) = calls w"
  by (simp add: cancellableSleep_def counts_calls_def)

lemma turn_calls:
  assumes "counts_calls calls opt handler"
  shows "case retry_turn opt handler attempts s of
      Inl (r, s') \<Rightarrow> calls (world s') = Suc (calls (world s))
    | Inr (attempts1, response, error, s') \<Rightarrow> calls (world s') = Suc (calls (world s))"
proof -
  obtain res s1 where h: "handler s = (res, s1)" by fastforce
  define response where "response = (case res of Inr r \<Rightarrow> Some r | Inl e \<Rightarrow> None)"
  define error where "error = (case res of Inr r \<Rightarrow> None | Inl e \<Rightarrow> Some e)"
  define s2 where "s2 = s1\<lparr>attemptsCount := Some (next_count (attemptsCount s1) attempts)\<rparr>"
  obtain d s3 where d: "retryDecider opt response error s2 = (d, s3)" by fastforce
  have "calls (world (snd (handler s))) = Suc (calls (world s))"
    and "calls (world (snd (retryDecider opt response error s2))) = calls (world s2)"
    using assms unfolding counts_calls_def by blast+
  moreover have "world s2 = world s1" by (simp add: s2_def)
  ultimately have c3: "calls (world s3) = Suc (calls (world s))" by (simp add: h d)
  obtain delay w where w: "computeDelay opt (next_count (attemptsCount s1) attempts) (world s3) = (delay, w)" by fastforce
  have "calls (snd (computeDelay opt (next_count (attemptsCount s1) attempts) (world s3))) = calls (world s3)"
    using assms unfolding counts_calls_def by blast
  then have cw: "calls w = Suc (calls (world s))" by (simp add: w c3)
  show ?thesis
    using c3 cw by (cases d) (auto simp: retry_turn_def Let_def h response_def [symmetric] error_def [symmetric]
      s2_def [symmetric] d w calls_sleep [OF assms])
qed

lemma retry_loop_calls:
  assumes "counts_calls calls opt handler"
  shows "calls (world (snd (retry_loop opt handler attempts response error s)))
    \<le> calls (world s) + (maxAttempts opt - attempts)"
  using assms
proof (induction opt handler attempts response error s rule: retry_loop.induct)
  case (1 opt handler attempts response error s)
  show ?case
  proof (cases "\<not> aborted opt (world s) \<and> attempts < maxAttempts opt")
    case False
    then show ?thesis by (subst retry_loop.simps) auto
  next
    case True
    note turn = turn_calls [OF 1(2), where attempts = attempts and s = s]
    show ?thesis
    proof (cases "retry_turn opt handler attempts s")
      case (Inl x)
      then show ?thesis using True turn by (subst retry_loop.simps) (auto split: prod.splits)
    next
      case (Inr x)
      obtain a r e s' where x: "x = (a, r, e, s')" by (cases x) auto
      have "calls (world (snd (retry_loop opt handler a r e s'))) \<le> calls (world s') + (maxAttempts opt - a)"
        by (rule "1.IH" [OF True Inr x [symmetric] refl refl 1(2)])
      moreover have "retry_loop opt handler attempts response error s = retry_loop opt handler a r e s'"
        using True Inr x by (subst retry_loop.simps) simp
      moreover have "calls (world s') = Suc (calls (world s))" using turn Inr x by simp
      moreover have "Suc (maxAttempts opt - a) \<le> maxAttempts opt - attempts"
        using True retry_turn_gt [of opt handler attempts s a r e s'] Inr x by (simp add: Suc_le_eq diff_less_mono2)
      ultimately show ?thesis by simp
    qed
  qed
qed

section \<open>A script of outcomes\<close>

text \<open>
  A service that answers with a script of outcomes: the world counts the requests served and records the
  delays slept; nothing aborts.
\<close>

record service_log =
  served :: nat
  slept :: "real list"

definition scripted :: "(nat \<Rightarrow> 'b outcome + 'b outcome) \<Rightarrow> ('b, service_log) handler" where
  "scripted script s = (script (served (world s)), s\<lparr>world := (world s)\<lparr>served := Suc (served (world s))\<rparr>\<rparr>)"

definition scripted_options :: "nat \<Rightarrow> ('b outcome option \<Rightarrow> 'b outcome option \<Rightarrow> bool) \<Rightarrow> (nat \<Rightarrow> real) \<Rightarrow>
    ('b, service_log) retry_options" where
  "scripted_options n retryable delays =
     \<lparr>maxAttempts = n, retryDecider = (\<lambda>r e s. (Inr (False, retryable r e), s)), computeDelay = (\<lambda>n w. (delays n, w)),
      aborted = (\<lambda>w. False), sleep = (\<lambda>d w. w\<lparr>slept := slept w @ [d]\<rparr>)\<rparr>"

definition response_of :: "'b outcome + 'b outcome \<Rightarrow> 'b outcome option" where
  "response_of res = (case res of Inr r \<Rightarrow> Some r | Inl e \<Rightarrow> None)"

definition error_of :: "'b outcome + 'b outcome \<Rightarrow> 'b outcome option" where
  "error_of res = (case res of Inr r \<Rightarrow> None | Inl e \<Rightarrow> Some e)"

definition scripted_state :: "nat \<Rightarrow> (nat \<Rightarrow> real) \<Rightarrow> bool option \<Rightarrow> nat option \<Rightarrow> nat \<Rightarrow> service_log retry_state" where
  "scripted_state j delays expired ctx k =
     \<lparr>world = \<lparr>served = j, slept = map delays [1..<k]\<rparr>, attemptsCount = ctx, isCredentialsExpired = expired\<rparr>"

text \<open>One turn after \<open>k\<close> attempts.\<close>

lemma scripted_turn:
  assumes "ctx = (if k = 0 then None else Some k)"
  shows "retry_turn (scripted_options n retryable delays) (scripted script) k (scripted_state k delays expired ctx (Suc k)) =
    (let r = response_of (script k); e = error_of (script k)
     in if retryable r e then Inr (Suc k, r, e, scripted_state (Suc k) delays (Some False) (Some (Suc k))
           (if Suc k < n then Suc (Suc k) else Suc k))
        else Inl (handleTerminal r e (Suc k), scripted_state (Suc k) delays expired (Some (Suc k)) (Suc k)))"
  using assms by (simp add: retry_turn_def scripted_def scripted_options_def scripted_state_def next_count_def Let_def
      response_of_def error_of_def cancellableSleep_def)

abbreviation scripted_loop where
  "scripted_loop n retryable delays script \<equiv> retry_loop (scripted_options n retryable delays) (scripted script)"

lemma scripted_cond:
  "\<not> aborted (scripted_options n retryable delays) w" "maxAttempts (scripted_options n retryable delays) = n"
  by (simp_all add: scripted_options_def)

lemma scripted_run:
  assumes "k \<le> m" and "m < n"
    and "\<And>i. k \<le> i \<Longrightarrow> i < m \<Longrightarrow> retryable (response_of (script i)) (error_of (script i))"
    and "\<not> retryable (response_of (script m)) (error_of (script m)) \<or> Suc m = n"
  shows "\<exists>expired'. scripted_loop n retryable delays script k r e
      (scripted_state k delays expired (if k = 0 then None else Some k) (Suc k))
    = (handleTerminal (response_of (script m)) (error_of (script m)) (Suc m),
       scripted_state (Suc m) delays expired' (Some (Suc m)) (Suc m))"
  using assms(1,3)
proof (induction "m - k" arbitrary: k r e expired)
  case 0
  then have km: "k = m" by simp
  let ?st = "scripted_state m delays expired (if m = 0 then None else Some m) (Suc m)"
  have "scripted_loop n retryable delays script m r e ?st
      = (case retry_turn (scripted_options n retryable delays) (scripted script) m ?st of
           Inl returned \<Rightarrow> returned
         | Inr (attempts1, response1, error1, s1) \<Rightarrow> scripted_loop n retryable delays script attempts1 response1 error1 s1)"
    using assms(2) by (subst retry_loop.simps) (simp add: scripted_cond)
  moreover have "scripted_loop n retryable delays script (Suc m) r' e' s' = (handleTerminal r' e' (Suc m), s')"
    if "Suc m = n" for r' e' s'
    using that by (subst retry_loop.simps) (simp add: scripted_cond)
  ultimately show ?case
    using assms(4) unfolding km by (auto simp: scripted_turn Let_def)
next
  case (Suc d)
  then have lt: "k < m" by simp
  let ?st = "scripted_state k delays expired (if k = 0 then None else Some k) (Suc k)"
  let ?r = "response_of (script k)" and ?e = "error_of (script k)"
  have "scripted_loop n retryable delays script k r e ?st = scripted_loop n retryable delays script (Suc k) ?r ?e
      (scripted_state (Suc k) delays (Some False) (if Suc k = 0 then None else Some (Suc k)) (Suc (Suc k)))"
    using assms(2) lt Suc.prems(2) [of k]
    by (subst retry_loop.simps) (simp add: scripted_cond scripted_turn Let_def)
  moreover have "d = m - Suc k" using Suc.hyps(2) by simp
  ultimately show ?case
    using Suc.hyps(1) [of "Suc k"] Suc.prems(2) lt by (metis Suc_leD Suc_leI)
qed

section \<open>The utility\<close>

definition counts_retries :: "('w \<Rightarrow> nat) \<Rightarrow> ('w \<Rightarrow> ('v thrown option + 'a) \<times> 'w) \<Rightarrow> ('w \<Rightarrow> real \<times> 'w) \<Rightarrow>
    (real \<Rightarrow> 'w \<Rightarrow> 'w) \<Rightarrow> bool" where
  "counts_retries calls f random waitFor \<longleftrightarrow>
     (\<forall>w. calls (snd (f w)) = Suc (calls w)) \<and>
     (\<forall>w. calls (snd (random w)) = calls w \<and> 0 \<le> fst (random w)) \<and>
     (\<forall>d w. calls (waitFor d w) = calls w)"

abbreviation jittered_call where
  "jittered_call f maxDelayMs random onTerminate waitFor \<equiv>
     \<lparr>functionToRetry = f,
      delayFn = (\<lambda>attempt _ w. case random w of (x, w') \<Rightarrow> (jitteredBackoff maxDelayMs attempt x, w')),
      terminated = onTerminate, wait = waitFor\<rparr>"

text \<open>What one attempt, the choice of the delay and the wait keep, the retries keep.\<close>

definition call_keeps :: "('w \<Rightarrow> bool) \<Rightarrow> ('v, 'a, 'w) retry_call \<Rightarrow> bool" where
  "call_keeps I c \<longleftrightarrow> (\<forall>w. I w \<longrightarrow> I (snd (functionToRetry c w))) \<and>
     (\<forall>n e w. I w \<longrightarrow> I (snd (delayFn c n e w))) \<and> (\<forall>d w. I w \<longrightarrow> I (wait c d w))"

lemma retry_preserves:
  assumes "retry c k e w = Some y"
  shows "call_keeps I c \<Longrightarrow> I w \<Longrightarrow> I (snd y)"
proof (induction rule: retry.raw_induct [OF _ assms])
  case (1 rec c k e w y)
  obtain res w1 where f: "functionToRetry c w = (res, w1)" by fastforce
  have w1: "I w1" using 1(3,4) f unfolding call_keeps_def by (metis snd_conv)
  show ?case
  proof (cases "\<not> (0 < k \<and> terminated c w) \<and> (\<exists>err. res = Inl err \<and> \<not> isNonRetryableError err)")
    case False
    then have "snd y = w \<or> snd y = w1" using 1(2) by (cases res) (auto simp: f split: if_splits)
    then show ?thesis using 1(4) w1 by auto
  next
    case True
    then obtain err where err: "res = Inl err" "\<not> isNonRetryableError err" by blast
    obtain d w2 where d: "delayFn c (k + 1) err w1 = (d, w2)" by fastforce
    have w2: "I w2" using 1(3) w1 d unfolding call_keeps_def by (metis snd_conv)
    show ?thesis
    proof (cases "d = None \<or> terminated c w2")
      case stop: True
      then show ?thesis using 1(2) True f err d w2 by (auto split: option.splits if_splits)
    next
      case False
      then obtain retryIn where "d = Some retryIn" "\<not> terminated c w2" by auto
      then have "rec c (k + 1) err (wait c retryIn w2) = Some y" using 1(2) True f err d by auto
      moreover have "I (wait c retryIn w2)" using 1(3) w2 unfolding call_keeps_def by blast
      ultimately show ?thesis using 1(1) 1(3) by blast
    qed
  qed
qed

lemma backoff_gives_up:
  assumes "maxDelayMs < 2 ^ N * 100" and "N \<le> attempt" and "0 \<le> x"
  shows "jitteredBackoff maxDelayMs attempt x = None"
proof -
  have "(2 :: real) ^ N \<le> 2 ^ attempt" using assms(2) by simp
  with assms have "maxDelayMs < 2 ^ attempt * 100 + 100 * x" by linarith
  then show ?thesis by (simp add: jitteredBackoff_def Let_def)
qed

lemma retry_ends:
  assumes "counts_retries calls f random waitFor" and "maxDelayMs < 2 ^ N * 100" and "k < N"
  shows "\<exists>r w'. retry (jittered_call f maxDelayMs random onTerminate waitFor) k e w = Some (r, w')
    \<and> calls w' \<le> calls w + (N - k)"
  using assms(3)
proof (induction "N - k" arbitrary: k e w rule: less_induct)
  case less
  let ?c = "jittered_call f maxDelayMs random onTerminate waitFor"
  obtain res w1 where f: "f w = (res, w1)" by fastforce
  obtain x w2 where x: "random w1 = (x, w2)" by fastforce
  have c1: "calls w1 = Suc (calls w)"
    using assms(1) f unfolding counts_retries_def by (metis snd_conv)
  have c2: "calls w2 = Suc (calls w)" and x0: "0 \<le> x"
    using assms(1) x c1 unfolding counts_retries_def by (metis snd_conv, metis fst_conv)
  note unfold = retry.simps [of ?c k e w]
  show ?case
  proof (cases "\<not> (0 < k \<and> onTerminate w) \<and> (\<exists>err. res = Inl err \<and> \<not> isNonRetryableError err)")
    case False
    then show ?thesis using c1 less.prems by (cases res) (auto simp: unfold f)
  next
    case True
    then obtain err where err: "res = Inl err" "\<not> isNonRetryableError err" by blast
    show ?thesis
    proof (cases "jitteredBackoff maxDelayMs (k + 1) x")
      case None
      then show ?thesis using True err c2 less.prems by (auto simp: unfold f x)
    next
      case (Some d)
      then have kN: "k + 1 < N"
        using backoff_gives_up [OF assms(2) _ x0, of "k + 1"] by (cases "N \<le> k + 1") auto
      show ?thesis
      proof (cases "onTerminate w2")
        case stop: True
        then show ?thesis using True err c2 less.prems Some by (auto simp: unfold f x)
      next
        case False
        have "N - (k + 1) < N - k" using kN by simp
        from less.hyps [OF this kN, of err "waitFor d w2"]
        obtain r w' where r: "retry ?c (k + 1) err (waitFor d w2) = Some (r, w')"
          and le: "calls w' \<le> calls (waitFor d w2) + (N - (k + 1))" by blast
        have "calls (waitFor d w2) = calls w2" using assms(1) unfolding counts_retries_def by blast
        with le c2 kN have "calls w' \<le> calls w + (N - k)" by simp
        moreover have "retry ?c k e w = Some (r, w')"
          using True err Some False r by (auto simp: unfold f x)
        ultimately show ?thesis by blast
      qed
    qed
  qed
qed

lemma retry_returns:
  assumes "\<And>w. 0 \<le> fst (random w)" "maxDelayMs < 2 ^ N * 100" "k < N"
  shows "retry (jittered_call f maxDelayMs random onTerminate waitFor) k e w \<noteq> None"
  using assms(3)
proof (induction "N - k" arbitrary: k e w rule: less_induct)
  case less
  obtain res w1 where f: "f w = (res, w1)" by fastforce
  obtain x w2 where x: "random w1 = (x, w2)" by fastforce
  have x0: "0 \<le> x" using assms(1) [of w1] x by simp
  note unfold = retry.simps [of "jittered_call f maxDelayMs random onTerminate waitFor" k e w]
  show ?case
  proof (cases "jitteredBackoff maxDelayMs (k + 1) x")
    case None
    then show ?thesis by (cases res) (auto simp: unfold f x)
  next
    case (Some d)
    then have "k + 1 < N" using backoff_gives_up [OF assms(2) _ x0, of "k + 1"] by (cases "N \<le> k + 1") auto
    then have "retry (jittered_call f maxDelayMs random onTerminate waitFor) (k + 1) err v \<noteq> None" for err v
      using less.hyps [of "k + 1"] by simp
    then show ?thesis using Some by (cases res) (auto simp: unfold f x)
  qed
qed

text \<open>When every call fails in the same way the retries do.\<close>

lemma retry_fails:
  assumes "retry c k e w = Some y"
  shows "(\<And>w. fst (functionToRetry c w) = Inl err) \<Longrightarrow> e = err \<or> k = 0 \<Longrightarrow> fst y = Inl err"
proof (induction rule: retry.raw_induct [OF _ assms])
  case (1 rec c k e w y)
  obtain w1 where f: "functionToRetry c w = (Inl err, w1)" using 1(3) [of w] by (metis prod.collapse)
  obtain d w2 where d: "delayFn c (k + 1) err w1 = (d, w2)" by fastforce
  show ?case
  proof (cases "(0 < k \<and> terminated c w) \<or> isNonRetryableError err \<or> d = None \<or> terminated c w2")
    case True
    then show ?thesis using 1(2,4) f d by (auto split: if_splits option.splits simp: 1(3))
  next
    case False
    then obtain t where "d = Some t" by auto
    then have "rec c (k + 1) err (wait c t w2) = Some y" using 1(2) f d False by (auto split: if_splits)
    then show ?thesis using 1(1) 1(3) by blast
  qed
qed

text \<open>A script for the utility; \<open>rnd i\<close> is the random number drawn after the \<open>i\<close>th call.\<close>

definition scripted_retry :: "(nat \<Rightarrow> 'v thrown option + 'a) \<Rightarrow> (nat \<Rightarrow> real) \<Rightarrow> nat \<Rightarrow> 'v thrown option \<Rightarrow> service_log \<Rightarrow>
    (('v thrown option + 'a) \<times> service_log) option" where
  "scripted_retry script rnd = retry (jittered_call (\<lambda>w. (script (served w), w\<lparr>served := Suc (served w)\<rparr>)) MAX_DELAY_MS
     (\<lambda>w. (rnd (served w), w)) (\<lambda>w. False) (\<lambda>d w. w\<lparr>slept := slept w @ [d]\<rparr>))"

abbreviation slept_after :: "(nat \<Rightarrow> real) \<Rightarrow> nat \<Rightarrow> service_log" where
  "slept_after rnd k \<equiv> \<lparr>served = k, slept = map (\<lambda>i. 2 ^ i * 100 + 100 * rnd i) [1..<k]\<rparr>"

lemma backoff_default:
  assumes "0 \<le> x" and "x < 1"
  shows "jitteredBackoff MAX_DELAY_MS attempt x = (if attempt < 12 then Some (2 ^ attempt * 100 + 100 * x) else None)"
proof (cases "attempt < 12")
  case True
  then have "(2 :: real) ^ attempt \<le> 2 ^ 11" by (intro power_increasing) auto
  with assms have "2 ^ attempt * 100 + 100 * x \<le> MAX_DELAY_MS" by (simp add: MAX_DELAY_MS_def)
  with True show ?thesis by (simp add: jitteredBackoff_def Let_def)
next
  case False
  then have "jitteredBackoff MAX_DELAY_MS attempt x = None"
    using assms by (intro backoff_gives_up [of _ 12]) (auto simp: MAX_DELAY_MS_def)
  with False show ?thesis by simp
qed

lemma scripted_retry_run:
  assumes "\<And>i. 0 \<le> rnd i \<and> rnd i < 1" and "k \<le> m" and "m < 12"
    and "\<And>i. k \<le> i \<Longrightarrow> i < m \<Longrightarrow> \<exists>e. script i = Inl e \<and> \<not> isNonRetryableError e"
    and "\<And>e. script m = Inl e \<Longrightarrow> isNonRetryableError e \<or> m = 11"
  shows "scripted_retry script rnd k e \<lparr>served = k, slept = map (\<lambda>i. 2 ^ i * 100 + 100 * rnd i) [1..<Suc k]\<rparr>
    = Some (script m, \<lparr>served = Suc m, slept = map (\<lambda>i. 2 ^ i * 100 + 100 * rnd i) [1..<Suc m]\<rparr>)"
  using assms(2,4)
proof (induction "m - k" arbitrary: k e)
  case 0
  then have "k = m" by simp
  then show ?case
    using assms(3,5) assms(1) [of "Suc m"]
    by (cases "script m") (auto simp: scripted_retry_def retry.simps backoff_default)
next
  case (Suc d)
  then have lt: "k < m" by simp
  obtain err where err: "script k = Inl err" "\<not> isNonRetryableError err" using Suc.prems(2) [of k] lt by blast
  have "scripted_retry script rnd k e \<lparr>served = k, slept = map (\<lambda>i. 2 ^ i * 100 + 100 * rnd i) [1..<Suc k]\<rparr>
    = scripted_retry script rnd (Suc k) err
        \<lparr>served = Suc k, slept = map (\<lambda>i. 2 ^ i * 100 + 100 * rnd i) [1..<Suc (Suc k)]\<rparr>"
    using lt assms(1) [of "Suc k"] assms(3) err
    unfolding scripted_retry_def by (subst retry.simps) (simp add: backoff_default)
  moreover have "d = m - Suc k" using Suc.hyps(2) by simp
  ultimately show ?case using Suc.hyps(1) [of "Suc k" err] Suc.prems(2) lt by simp
qed

section \<open>The properties\<close>

text \<open>
  The middleware calls the next handler at most \<open>maxAttempts\<close> times, counted from the attempts already
  made in this context, whatever the decider, the timers and the abort signal do.
\<close>

theorem middleware_attempts:
  assumes "counts_calls calls opt handler" and "retryMiddlewareFactory opt = Some middleware"
  shows "calls (world (snd (middleware handler s)))
    \<le> calls (world s) + (maxAttempts opt - (case attemptsCount s of None \<Rightarrow> 0 | Some n \<Rightarrow> n))"
proof -
  have "middleware = retryMiddleware opt"
    using assms(2) by (simp add: retryMiddlewareFactory_def split: if_splits)
  then show ?thesis using retry_loop_calls [OF assms(1)] by (simp add: retryMiddleware_def)
qed

text \<open>
  The middleware returns the first outcome that is not to be retried, or the last one allowed, with
  its number in \<open>$metadata.attempts\<close>; it made that many calls and slept the computed delay between each
  two of them, and not after the last.
\<close>

theorem middleware_result:
  assumes "m < n"
    and "\<And>i. i < m \<Longrightarrow> retryable (response_of (script i)) (error_of (script i))"
    and "\<not> retryable (response_of (script m)) (error_of (script m)) \<or> Suc m = n"
    and "retryMiddleware (scripted_options n retryable delays) (scripted script)
        \<lparr>world = \<lparr>served = 0, slept = []\<rparr>, attemptsCount = None, isCredentialsExpired = None\<rparr> = (result, s)"
  shows "result = handleTerminal (response_of (script m)) (error_of (script m)) (Suc m) \<and>
    world s = \<lparr>served = Suc m, slept = map delays [1..<Suc m]\<rparr> \<and> attemptsCount s = Some (Suc m)"
proof -
  obtain expired' where "retryMiddleware (scripted_options n retryable delays) (scripted script)
        \<lparr>world = \<lparr>served = 0, slept = []\<rparr>, attemptsCount = None, isCredentialsExpired = None\<rparr>
    = (handleTerminal (response_of (script m)) (error_of (script m)) (Suc m),
       scripted_state (Suc m) delays expired' (Some (Suc m)) (Suc m))"
    using scripted_run [of 0 m n retryable script delays None None None] assms(1-3)
    by (auto simp: retryMiddleware_def scripted_state_def)
  then have "result = handleTerminal (response_of (script m)) (error_of (script m)) (Suc m)"
    and "s = scripted_state (Suc m) delays expired' (Some (Suc m)) (Suc m)"
    using assms(4) by (simp_all only: prod.inject)
  then show ?thesis by (simp add: scripted_state_def)
qed

text \<open>
  Once the signal is aborted the middleware makes no further call and throws; a context whose
  attempts are used up makes it throw \<open>undefined\<close> without a call.
\<close>

theorem middleware_refuses:
  "(aborted opt (world s) \<longrightarrow> retryMiddleware opt handler s = (Inl RequestAborted, s)) \<and>
   (\<not> aborted opt (world s) \<and> attemptsCount s = Some n \<and> maxAttempts opt \<le> n \<longrightarrow>
      retryMiddleware opt handler s = (Inl ThrownUndefined, s))"
  by (simp add: retryMiddleware_def retry_loop.simps handleTerminal_def)

text \<open>
  \<open>jitteredExponentialRetry\<close> always returns: if \<open>2 ^ N * 100\<close> exceeds the bound on the delay, after at
  most \<open>N\<close> calls, however the random numbers fall.
\<close>

theorem jitteredExponentialRetry_ends:
  assumes "counts_retries calls f random waitFor" and "maxDelayMs < 2 ^ N * 100" and "0 < N"
  shows "\<exists>r w'. jitteredExponentialRetry f maxDelayMs random onTerminate waitFor w = Some (r, w')
    \<and> calls w' \<le> calls w + N"
  using retry_ends [OF assms, of onTerminate None w] by (simp add: jitteredExponentialRetry_def)

text \<open>
  With the default bound of five minutes the utility returns the first success or non-retryable error
  among its first twelve calls, otherwise the twelfth error, and slept the jittered delay between each two
  calls.
\<close>

theorem retry_script:
  assumes "\<And>i. 0 \<le> rnd i \<and> rnd i < 1" and "m < 12"
    and "\<And>i. i < m \<Longrightarrow> \<exists>e. script i = Inl e \<and> \<not> isNonRetryableError e"
    and "\<And>e. script m = Inl e \<Longrightarrow> isNonRetryableError e \<or> m = 11"
  shows "jitteredExponentialRetry (\<lambda>w. (script (served w), w\<lparr>served := Suc (served w)\<rparr>)) MAX_DELAY_MS
      (\<lambda>w. (rnd (served w), w)) (\<lambda>w. False) (\<lambda>d w. w\<lparr>slept := slept w @ [d]\<rparr>) \<lparr>served = 0, slept = []\<rparr>
    = Some (script m, \<lparr>served = Suc m, slept = map (\<lambda>i. 2 ^ i * 100 + 100 * rnd i) [1..<Suc m]\<rparr>)"
  using scripted_retry_run [where k = 0 and m = m and rnd = rnd and script = script and e = None] assms
  by (simp add: jitteredExponentialRetry_def scripted_retry_def)

text \<open>
  The default decider retries a response with a throttling or server-side status, and any failure
  whose code (or name, where the code is missing or empty) is a throttling, timeout or clock-skew one; a
  thrown error is also retried when it is a network error, whatever its code.
\<close>

theorem retry_decisions:
  "(getRetryDecider errorParser (Some r) None \<longleftrightarrow> statusCode r \<in> {429, 500, 502, 503, 504} \<or>
      errorCodeOf (errorParser (Some r)) \<in> Some ` set (THROTTLING_ERROR_CODES @ CLOCK_SKEW_ERROR_CODES @ TIMEOUT_ERROR_CODES)) \<and>
   (getRetryDecider errorParser None (Some e) \<longleftrightarrow> err_name e \<in> {Some ''NetworkError'', Some ''ERR_NETWORK''} \<or>
      errorCodeOf (Some e) \<in> Some ` set (THROTTLING_ERROR_CODES @ CLOCK_SKEW_ERROR_CODES @ TIMEOUT_ERROR_CODES)) \<and>
   errorCodeOf (Some \<lparr>err_name = n, err_code = Some []\<rparr>) = n"
proof -
  have code: "code_in c THROTTLING_ERROR_CODES \<or> code_in c CLOCK_SKEW_ERROR_CODES \<or> code_in c TIMEOUT_ERROR_CODES
      \<longleftrightarrow> c \<in> Some ` set (THROTTLING_ERROR_CODES @ CLOCK_SKEW_ERROR_CODES @ TIMEOUT_ERROR_CODES)" for c
  proof -
    have "[] \<notin> set (THROTTLING_ERROR_CODES @ CLOCK_SKEW_ERROR_CODES @ TIMEOUT_ERROR_CODES)"
      by (simp add: THROTTLING_ERROR_CODES_def CLOCK_SKEW_ERROR_CODES_def TIMEOUT_ERROR_CODES_def)
    then show ?thesis by (auto simp: code_in_def split: option.splits)
  qed
  have "getRetryDecider errorParser (Some r) None \<longleftrightarrow> statusCode r \<in> {429, 500, 502, 503, 504} \<or>
      errorCodeOf (errorParser (Some r)) \<in> Some ` set (THROTTLING_ERROR_CODES @ CLOCK_SKEW_ERROR_CODES @ TIMEOUT_ERROR_CODES)"
    unfolding code [symmetric]
    by (auto simp: getRetryDecider_def Let_def isConnectionError_def isThrottlingError_def isClockSkewError_def isServerSideError_def)
  moreover have "getRetryDecider errorParser None (Some e) \<longleftrightarrow> err_name e \<in> {Some ''NetworkError'', Some ''ERR_NETWORK''} \<or>
      errorCodeOf (Some e) \<in> Some ` set (THROTTLING_ERROR_CODES @ CLOCK_SKEW_ERROR_CODES @ TIMEOUT_ERROR_CODES)"
    unfolding code [symmetric]
    by (auto simp: getRetryDecider_def Let_def isConnectionError_def isThrottlingError_def isClockSkewError_def
      isServerSideError_def split: option.splits)
  ultimately show ?thesis by (simp add: errorCodeOf_def)
qed

section \<open>The witnesses\<close>

text \<open>A service that fails once and then answers.\<close>

definition demo_outcome :: "nat \<Rightarrow> string outcome" where
  "demo_outcome i = \<lparr>content = ''answer'', is_plain_object = True, metadata = None\<rparr>"

definition demo_script :: "nat \<Rightarrow> string outcome + string outcome" where
  "demo_script i = (if i = 0 then Inl (demo_outcome i) else Inr (demo_outcome i))"

lemma middleware_attempts_witness:
  "served (world (snd (retryMiddleware (scripted_options 3 (\<lambda>r e. r = None) (\<lambda>i. 100)) (scripted demo_script)
     \<lparr>world = \<lparr>served = 0, slept = []\<rparr>, attemptsCount = Some 1, isCredentialsExpired = None\<rparr>))) \<le> 2"
proof -
  have "counts_calls served (scripted_options 3 (\<lambda>r e. r = None) (\<lambda>i. 100)) (scripted demo_script)"
    by (simp add: counts_calls_def scripted_options_def scripted_def)
  moreover have "retryMiddlewareFactory (scripted_options 3 (\<lambda>r (e :: string outcome option). r = None) (\<lambda>i. 100))
      = Some (retryMiddleware (scripted_options 3 (\<lambda>r e. r = None) (\<lambda>i. 100)))"
    by (simp add: retryMiddlewareFactory_def scripted_options_def)
  ultimately show ?thesis
    using middleware_attempts [of served "scripted_options 3 (\<lambda>r e. r = None) (\<lambda>i. 100)" "scripted demo_script" _
      "\<lparr>world = \<lparr>served = 0, slept = []\<rparr>, attemptsCount = Some 1, isCredentialsExpired = None\<rparr>"]
    by (simp add: scripted_options_def)
qed

lemma middleware_result_witness:
  "\<exists>s. retryMiddleware (scripted_options 3 (\<lambda>r e. r = None) (\<lambda>i. 100)) (scripted demo_script)
     \<lparr>world = \<lparr>served = 0, slept = []\<rparr>, attemptsCount = None, isCredentialsExpired = None\<rparr> =
     (Inr (addOrIncrementMetadataAttempts 2 (demo_outcome 1)), s) \<and> world s = \<lparr>served = 2, slept = [100]\<rparr>"
proof -
  obtain result s where run: "retryMiddleware (scripted_options 3 (\<lambda>r e. r = None) (\<lambda>i. 100)) (scripted demo_script)
     \<lparr>world = \<lparr>served = 0, slept = []\<rparr>, attemptsCount = None, isCredentialsExpired = None\<rparr> = (result, s)" by fastforce
  have "result = handleTerminal (response_of (demo_script 1)) (error_of (demo_script 1)) (Suc 1) \<and>
      world s = \<lparr>served = Suc 1, slept = map (\<lambda>i. 100) [1..<Suc 1]\<rparr> \<and> attemptsCount s = Some (Suc 1)"
    by (rule middleware_result [OF _ _ _ run]; auto simp: demo_script_def response_of_def)
  then have r: "result = handleTerminal (response_of (demo_script 1)) (error_of (demo_script 1)) (Suc 1)"
    and w: "world s = \<lparr>served = Suc 1, slept = map (\<lambda>i. 100) [1..<Suc 1]\<rparr>" by blast+
  have "result = Inr (addOrIncrementMetadataAttempts 2 (demo_outcome 1))"
    by (simp add: r demo_script_def response_of_def error_of_def handleTerminal_def numeral_2_eq_2)
  moreover have "world s = \<lparr>served = 2, slept = [100]\<rparr>" by (simp add: w numeral_2_eq_2)
  ultimately show ?thesis using run by blast
qed

lemma middleware_refuses_witness:
  "retryMiddleware (scripted_options 1 (\<lambda>r e. r = None) (\<lambda>i. 100)) (scripted demo_script)
     \<lparr>world = \<lparr>served = 0, slept = []\<rparr>, attemptsCount = Some 1, isCredentialsExpired = None\<rparr> =
   (Inl ThrownUndefined, \<lparr>world = \<lparr>served = 0, slept = []\<rparr>, attemptsCount = Some 1, isCredentialsExpired = None\<rparr>)"
  by (rule middleware_refuses [where n = 1, THEN conjunct2, THEN mp]) (simp add: scripted_options_def)

lemma jitteredExponentialRetry_ends_witness:
  "\<exists>r w'. jitteredExponentialRetry (\<lambda>w. (Inl (Some \<lparr>thrown_value = ''offline'', nonRetryable = False\<rparr>) :: string thrown option + unit, Suc w))
     1000 (\<lambda>w. (1 / 2, w)) (\<lambda>w. False) (\<lambda>d w. w) 0 = Some (r, w') \<and> w' \<le> (0 :: nat) + 4"
  by (rule jitteredExponentialRetry_ends [of "\<lambda>n. n"]) (simp_all add: counts_retries_def)

lemma retry_script_witness:
  "jitteredExponentialRetry (\<lambda>w. ((if served w = 0 then Inl None else Inr 7) :: string thrown option + nat,
      w\<lparr>served := Suc (served w)\<rparr>)) MAX_DELAY_MS
      (\<lambda>w. (1 / 2, w)) (\<lambda>w. False) (\<lambda>d w. w\<lparr>slept := slept w @ [d]\<rparr>) \<lparr>served = 0, slept = []\<rparr>
    = Some (Inr 7, \<lparr>served = 2, slept = [250]\<rparr>)"
  using retry_script [of "\<lambda>i. 1 / 2" 1 "\<lambda>i. (if i = 0 then Inl None else Inr 7) :: string thrown option + nat"]
  by (simp add: isNonRetryableError_def numeral_2_eq_2)

end
