(* ===== verification/Relationship.thy ===== *)
theory Relationship
  imports DataStoreKeys
begin

text \<open>
  \<open>ModelRelationship\<close> (\<open>datastore/src/storage/relationship.ts\<close>): which fields join a model with a related
  one. The object holds the local model, the field and its association, and the remote model the type of
  the field was resolved to when the schema was initialised. Reading an array out of range, or a missing
  \<open>associatedWith\<close>, gives \<open>undefined\<close>, which as a field name is the text \<open>undefined\<close>.
\<close>

record relationship_of =
  localModel :: schema_model
  rel_field :: string
  localAssociation :: association
  remoteName :: string
  remoteDefinition :: schema_model

definition isFieldAssociation :: "schema_model \<Rightarrow> string \<Rightarrow> bool" where
  "isFieldAssociation sm field =
     (case Option.bind (map_of (sm_fields sm) field) mf_association of
        None \<Rightarrow> False | Some a \<Rightarrow> connectionType a \<noteq> [])"

text \<open>A field whose type is not a resolved model makes the first use of the remote model throw.\<close>

definition rel_from :: "namespace \<Rightarrow> schema_model \<Rightarrow> string \<Rightarrow> js_error + relationship_of option" where
  "rel_from ns sm field =
     (case map_of (sm_fields sm) field of
        None \<Rightarrow> Inr None
      | Some fld \<Rightarrow> (case mf_association fld of
          None \<Rightarrow> Inr None
        | Some a \<Rightarrow>
            if connectionType a = [] then Inr None
            else (case mf_model fld of
                None \<Rightarrow> Inl JsTypeError
              | Some m \<Rightarrow> (case map_of ns m of
                  None \<Rightarrow> Inl JsTypeError
                | Some remote \<Rightarrow> Inr (Some \<lparr>localModel = sm, rel_field = field, localAssociation = a,
                                          remoteName = m, remoteDefinition = remote\<rparr>)))))"

text \<open>The constructor itself throws where \<open>from\<close> returns \<open>null\<close>.\<close>

definition newModelRelationship :: "namespace \<Rightarrow> string \<Rightarrow> schema_model \<Rightarrow> string \<Rightarrow> js_error + relationship_of" where
  "newModelRelationship ns name sm field =
     (case rel_from ns sm field of
        Inl e \<Rightarrow> Inl e
      | Inr None \<Rightarrow> Inl (JsError (name @ ''.'' @ field @ '' is not a relationship.''))
      | Inr (Some r) \<Rightarrow> Inr r)"

fun collect_relationships :: "namespace \<Rightarrow> schema_model \<Rightarrow> string list \<Rightarrow> js_error + relationship_of list" where
  "collect_relationships ns sm [] = Inr []"
| "collect_relationships ns sm (f # fs) =
     (case rel_from ns sm f of
        Inl e \<Rightarrow> Inl e
      | Inr r \<Rightarrow> (case collect_relationships ns sm fs of
          Inl e \<Rightarrow> Inl e
        | Inr rs \<Rightarrow> Inr (case r of None \<Rightarrow> rs | Some x \<Rightarrow> x # rs)))"

definition allFrom :: "namespace \<Rightarrow> schema_model \<Rightarrow> js_error + relationship_of list" where
  "allFrom ns sm = collect_relationships ns sm (map fst (sm_fields sm))"

definition rel_type :: "relationship_of \<Rightarrow> string" where
  "rel_type r = connectionType (localAssociation r)"

section \<open>Join fields\<close>

definition localPKFields :: "relationship_of \<Rightarrow> string list" where
  "localPKFields r = extractPrimaryKeyFieldNames (Some (localModel r))"

definition remotePKFields :: "relationship_of \<Rightarrow> string list" where
  "remotePKFields r = extractPrimaryKeyFieldNames (Some (remoteDefinition r))"

text \<open>The fields an association names as targets; an empty \<open>targetName\<close> counts as none.\<close>

definition explicit_targets :: "association \<Rightarrow> string list option" where
  "explicit_targets a =
     (case targetName a of
        Some t \<Rightarrow> if t \<noteq> [] then Some [t] else targetNames a
      | None \<Rightarrow> targetNames a)"

definition localJoinFields :: "relationship_of \<Rightarrow> string list" where
  "localJoinFields r =
     (case explicit_targets (localAssociation r) of Some ts \<Rightarrow> ts | None \<Rightarrow> localPKFields r)"

definition localAssociatedWith :: "relationship_of \<Rightarrow> string list option" where
  "localAssociatedWith r =
     (if rel_type r = ''HAS_MANY'' \<or> rel_type r = ''HAS_ONE''
      then Some (case associatedWith (localAssociation r) of None \<Rightarrow> [''undefined''] | Some fs \<Rightarrow> fs)
      else None)"

definition explicitRemoteAssociation :: "relationship_of \<Rightarrow> association option" where
  "explicitRemoteAssociation r =
     (case localAssociatedWith r of
        Some [f] \<Rightarrow> Option.bind (map_of (sm_fields (remoteDefinition r)) f) mf_association
      | _ \<Rightarrow> None)"

definition remoteJoinFields :: "relationship_of \<Rightarrow> string list" where
  "remoteJoinFields r =
     (case Option.bind (explicitRemoteAssociation r) explicit_targets of
        Some ts \<Rightarrow> ts
      | None \<Rightarrow> (case localAssociatedWith r of Some fs \<Rightarrow> fs | None \<Rightarrow> remotePKFields r))"

definition isComplete :: "relationship_of \<Rightarrow> bool" where
  "isComplete r \<longleftrightarrow> length (localJoinFields r) > 0 \<and> length (remoteJoinFields r) > 0"

section \<open>Foreign keys and queries\<close>

definition name_at :: "string list \<Rightarrow> nat \<Rightarrow> string" where
  "name_at fs i = (if i < length fs then fs ! i else ''undefined'')"

definition createLocalFKObject :: "relationship_of \<Rightarrow> model \<Rightarrow> model" where
  "createLocalFKObject r remote =
     fold (\<lambda>i fk. AList.update (name_at (localJoinFields r) i) (field_of remote (name_at (remoteJoinFields r) i)) fk)
       [0..<length (localJoinFields r)] []"

text \<open>The loop stops with \<open>null\<close> at the first local value that is not there.\<close>

fun query_loop :: "relationship_of \<Rightarrow> model \<Rightarrow> nat list \<Rightarrow> model \<Rightarrow> model option" where
  "query_loop r loc [] query = Some query"
| "query_loop r loc (i # is) query =
     (let localValue = field_of loc (name_at (localJoinFields r) i)
      in if isNullOrUndefined localValue then None
         else query_loop r loc is (AList.update (name_at (remoteJoinFields r) i) localValue query))"

definition createRemoteQueryObject :: "relationship_of \<Rightarrow> model \<Rightarrow> model option" where
  "createRemoteQueryObject r loc = query_loop r loc [0..<length (remoteJoinFields r)] []"

text \<open>
  The setter of a relationship field (\<open>datastore/datastore.ts\<close>) writes the foreign keys; an absent related
  model clears them.
\<close>

definition setRelated :: "relationship_of \<Rightarrow> model option \<Rightarrow> model \<Rightarrow> model" where
  "setRelated r related instance =
     (if \<not> isComplete r then instance
      else fold (\<lambda>i inst. AList.update (name_at (localJoinFields r) i)
             (case related of None \<Rightarrow> JUndefined | Some m \<Rightarrow> field_of m (name_at (remoteJoinFields r) i)) inst)
           [0..<length (localJoinFields r)] instance)"

end
