(* ===== verification/RelationshipProofs.thy ===== *)
theory RelationshipProofs
  imports Relationship
begin

text \<open>
  Setting a related model and querying for it agree, and the two sides of a relationship join over the
  same pairs of fields.
\<close>

lemma name_at_map: "map (name_at fs) [0..<length fs] = fs"
  by (intro nth_equalityI) (auto simp: name_at_def)

lemma field_of_setRelated:
  assumes "isComplete r" and "distinct (localJoinFields r)" and "i < length (localJoinFields r)"
  shows "field_of (setRelated r (Some remote) inst) (name_at (localJoinFields r) i)
    = field_of remote (name_at (remoteJoinFields r) i)"
proof -
  let ?n = "length (localJoinFields r)"
  have "find (\<lambda>j. name_at (localJoinFields r) j = name_at (localJoinFields r) i) (rev [0..<?n]) = Some i"
  proof -
    have "name_at (localJoinFields r) j = name_at (localJoinFields r) i \<longleftrightarrow> j = i" if "j < ?n" for j
      using that assms(2,3) by (simp add: name_at_def nth_eq_iff_index_eq)
    then have "find (\<lambda>j. name_at (localJoinFields r) j = name_at (localJoinFields r) i) (rev [0..<?n])
        = find (\<lambda>j. j = i) (rev [0..<?n])"
      by (intro find_cong) auto
    also have "\<dots> = Some i" using assms(3) by (intro find_unique) auto
    finally show ?thesis .
  qed
  then show ?thesis
    using assms(1) by (simp add: setRelated_def field_of_def map_of_fold_update)
qed

lemma query_loop_eq:
  assumes "\<And>i. i \<in> set is \<Longrightarrow> \<not> isNullOrUndefined (field_of loc (name_at (localJoinFields r) i))"
  shows "query_loop r loc is q =
    Some (fold (\<lambda>i. AList.update (name_at (remoteJoinFields r) i) (field_of loc (name_at (localJoinFields r) i))) is q)"
  using assms by (induction "is" arbitrary: q) (auto simp: Let_def)

lemma query_loop_None:
  assumes "i \<in> set is" and "isNullOrUndefined (field_of loc (name_at (localJoinFields r) i))"
  shows "query_loop r loc is q = None"
  using assms by (induction "is" arbitrary: q) (auto simp: Let_def)

lemma query_object:
  assumes "distinct (remoteJoinFields r)"
  shows "createRemoteQueryObject r loc =
    (if \<exists>i < length (remoteJoinFields r). isNullOrUndefined (field_of loc (name_at (localJoinFields r) i)) then None
     else Some (map (\<lambda>i. (name_at (remoteJoinFields r) i, field_of loc (name_at (localJoinFields r) i)))
            [0..<length (remoteJoinFields r)]))"
proof (cases "\<exists>i < length (remoteJoinFields r). isNullOrUndefined (field_of loc (name_at (localJoinFields r) i))")
  case True
  then show ?thesis by (auto simp: createRemoteQueryObject_def intro!: query_loop_None)
next
  case False
  then have "createRemoteQueryObject r loc =
    Some (fold (\<lambda>i. AList.update (name_at (remoteJoinFields r) i) (field_of loc (name_at (localJoinFields r) i)))
      [0..<length (remoteJoinFields r)] [])"
    unfolding createRemoteQueryObject_def by (intro query_loop_eq) simp
  also have "\<dots> = Some ([] @ map (\<lambda>i. (name_at (remoteJoinFields r) i, field_of loc (name_at (localJoinFields r) i)))
      [0..<length (remoteJoinFields r)])"
    using assms by (intro arg_cong [of _ _ Some] fold_update_distinct) (simp_all add: name_at_map)
  finally show ?thesis using False by simp
qed

text \<open>
  After a related model is assigned to a relationship field, the query for the relation asks for exactly
  the assigned model's values of the remote join fields; where one of them is missing there is no query.
\<close>

theorem setRelated_then_query:
  assumes "length (localJoinFields r) = length (remoteJoinFields r)" and "isComplete r"
    and "distinct (localJoinFields r)" and "distinct (remoteJoinFields r)"
  shows "createRemoteQueryObject r (setRelated r (Some remote) inst) =
    (if list_ex (\<lambda>f. isNullOrUndefined (field_of remote f)) (remoteJoinFields r) then None
     else Some (map (\<lambda>f. (f, field_of remote f)) (remoteJoinFields r)))"
proof -
  let ?n = "length (remoteJoinFields r)"
  have f: "field_of (setRelated r (Some remote) inst) (name_at (localJoinFields r) i) = field_of remote (remoteJoinFields r ! i)"
    if "i < ?n" for i
    using that assms field_of_setRelated [of r i remote inst] by (simp add: name_at_def)
  have "(\<exists>i < ?n. isNullOrUndefined (field_of (setRelated r (Some remote) inst) (name_at (localJoinFields r) i)))
      \<longleftrightarrow> list_ex (\<lambda>f. isNullOrUndefined (field_of remote f)) (remoteJoinFields r)"
    using f by (auto simp: list_ex_length)
  moreover have "map (\<lambda>i. (name_at (remoteJoinFields r) i, field_of (setRelated r (Some remote) inst) (name_at (localJoinFields r) i)))
      [0..<?n] = map (\<lambda>f. (f, field_of remote f)) (remoteJoinFields r)"
    using f assms(1) by (intro nth_equalityI) (simp_all add: name_at_def)
  ultimately show ?thesis by (simp add: query_object [OF assms(4)])
qed

text \<open>
  The two sides of a relationship mirror each other: where the child's \<open>BELONGS_TO\<close> field names its
  target fields and the parent's \<open>HAS_MANY\<close> or \<open>HAS_ONE\<close> field is associated with that field, each side's
  local join fields are the other side's remote ones.
\<close>

theorem relationship_mirror:
  assumes "map_of (sm_fields child) f = Some \<lparr>mf_name = f, mf_model = Some parentName, mf_association = Some a\<rparr>"
    and "connectionType a = ''BELONGS_TO''" and "explicit_targets a = Some ts"
    and "map_of (sm_fields parent) g = Some \<lparr>mf_name = g, mf_model = Some childName, mf_association = Some b\<rparr>"
    and "connectionType b \<in> {''HAS_MANY'', ''HAS_ONE''}" and "explicit_targets b = None" and "associatedWith b = Some [f]"
    and "map_of ns childName = Some child" and "map_of ns parentName = Some parent"
  shows "\<exists>toParent toChild. rel_from ns child f = Inr (Some toParent) \<and> rel_from ns parent g = Inr (Some toChild) \<and>
    localJoinFields toParent = ts \<and> remoteJoinFields toParent = extractPrimaryKeyFieldNames (Some parent) \<and>
    localJoinFields toChild = remoteJoinFields toParent \<and> remoteJoinFields toChild = localJoinFields toParent"
proof -
  define toParent where "toParent = \<lparr>localModel = child, rel_field = f, localAssociation = a, remoteName = parentName, remoteDefinition = parent\<rparr>"
  define toChild where "toChild = \<lparr>localModel = parent, rel_field = g, localAssociation = b, remoteName = childName, remoteDefinition = child\<rparr>"
  have "rel_from ns child f = Inr (Some toParent)" "rel_from ns parent g = Inr (Some toChild)"
    using assms by (auto simp: rel_from_def toParent_def toChild_def)
  moreover have "localJoinFields toParent = ts" "remoteJoinFields toParent = extractPrimaryKeyFieldNames (Some parent)"
    using assms by (simp_all add: toParent_def localJoinFields_def remoteJoinFields_def explicitRemoteAssociation_def
        localAssociatedWith_def rel_type_def remotePKFields_def)
  moreover have "localAssociatedWith toChild = Some [f]"
    using assms(5,7) by (auto simp: toChild_def localAssociatedWith_def rel_type_def)
  then have "localJoinFields toChild = extractPrimaryKeyFieldNames (Some parent)" "remoteJoinFields toChild = ts"
    using assms(1,3,6) by (simp_all add: toChild_def localJoinFields_def remoteJoinFields_def
        explicitRemoteAssociation_def localPKFields_def)
  ultimately show ?thesis by metis
qed

section \<open>Witnesses\<close>

text \<open>A post has many comments; a comment belongs to the post whose key \<open>postId\<close> holds.\<close>

definition post_association :: association where
  "post_association = \<lparr>connectionType = ''BELONGS_TO'', targetName = None, targetNames = Some [''postId''], associatedWith = None\<rparr>"

definition comments_association :: association where
  "comments_association = \<lparr>connectionType = ''HAS_MANY'', targetName = None, targetNames = None, associatedWith = Some [''post'']\<rparr>"

definition demo_comment :: schema_model where
  "demo_comment = \<lparr>sm_fields =
     [(''post'', \<lparr>mf_name = ''post'', mf_model = Some ''Post'', mf_association = Some post_association\<rparr>)],
     sm_attributes = None\<rparr>"

definition demo_post :: schema_model where
  "demo_post = \<lparr>sm_fields =
     [(''comments'', \<lparr>mf_name = ''comments'', mf_model = Some ''Comment'', mf_association = Some comments_association\<rparr>)],
     sm_attributes = None\<rparr>"

definition demo_namespace :: namespace where
  "demo_namespace = [(''Comment'', demo_comment), (''Post'', demo_post)]"

definition demo_relationship :: relationship_of where
  "demo_relationship = \<lparr>localModel = demo_comment, rel_field = ''post'', localAssociation = post_association,
     remoteName = ''Post'', remoteDefinition = demo_post\<rparr>"

lemmas demo_relationship_defs = demo_relationship_def demo_namespace_def demo_comment_def demo_post_def
  post_association_def comments_association_def explicit_targets_def

lemma demo_join_fields: "localJoinFields demo_relationship = [''postId'']" "remoteJoinFields demo_relationship = [''id'']"
  by (simp_all add: localJoinFields_def remoteJoinFields_def explicitRemoteAssociation_def localAssociatedWith_def
      rel_type_def remotePKFields_def extractPrimaryKeyFieldNames_def extractKeyIfExists_def ID_def demo_relationship_defs)

lemma setRelated_then_query_witness:
  "createRemoteQueryObject demo_relationship
     (setRelated demo_relationship (Some [(''id'', JStr ''p1'')]) [(''id'', JStr ''c1'')]) = Some [(''id'', JStr ''p1'')]"
  using setRelated_then_query [of demo_relationship "[(''id'', JStr ''p1'')]" "[(''id'', JStr ''c1'')]"]
  by (simp add: demo_join_fields isComplete_def isNullOrUndefined_def field_of_def)

lemma relationship_mirror_witness:
  "\<exists>toParent toChild. rel_from demo_namespace demo_comment ''post'' = Inr (Some toParent) \<and>
    rel_from demo_namespace demo_post ''comments'' = Inr (Some toChild) \<and>
    localJoinFields toParent = [''postId''] \<and> remoteJoinFields toParent = extractPrimaryKeyFieldNames (Some demo_post) \<and>
    localJoinFields toChild = remoteJoinFields toParent \<and> remoteJoinFields toChild = localJoinFields toParent"
  by (rule relationship_mirror [of demo_comment "''post''" "''Post''" post_association _ demo_post "''comments''" "''Comment''" comments_association])
     (simp_all add: demo_relationship_defs)

end
