(* ===== verification/Conditions.thy ===== *)
theory Conditions
  imports Predicates Relationship
begin

text \<open>
  DataStore's query conditions (\<open>datastore/src/predicates/next.ts\<close>): the tree of field and group conditions
  that a predicate builder makes, its evaluation on an item (\<open>matches\<close>), its optimisation, and \<open>fetch\<close>,
  which queries the storage. The storage is the parameter \<open>query\<close>: the records of a model that satisfy a
  storage predicate. The related items a lazy relationship field loads are the parameter \<open>load\<close>.
\<close>

section \<open>Conditions\<close>

text \<open>
  A group knows the model it is about; with \<open>g_field\<close> it is a condition on the related items of that
  field, and its model is the related one.
\<close>

datatype condition =
    FieldCondition (c_field: string) (c_operator: string) (c_operands: "jsval list")
  | GroupCondition (g_model: string) (g_field: "string option") (g_relationshipType: "string option")
      (g_operator: string) (g_operands: "condition list") (g_isOptimized: bool)

fun is_field :: "condition \<Rightarrow> bool" where
  "is_field (FieldCondition _ _ _) = True"
| "is_field (GroupCondition _ _ _ _ _ _) = False"

text \<open>\<open>None\<close> is a key the table does not have.\<close>

definition negations :: "string \<Rightarrow> string option" where
  "negations = map_of
     [(''and'', ''or''), (''or'', ''and''), (''not'', ''and''), (''eq'', ''ne''), (''ne'', ''eq''), (''gt'', ''le''),
      (''ge'', ''lt''), (''lt'', ''ge''), (''le'', ''gt''), (''contains'', ''notContains''), (''notContains'', ''contains'')]"

definition negation :: "string \<Rightarrow> string" where
  "negation op = (case negations op of None \<Rightarrow> ''undefined'' | Some n \<Rightarrow> n)"

text \<open>The checks of the constructor; \<open>Some\<close> is the message it throws.\<close>

definition check_operands :: "js_env \<Rightarrow> string \<Rightarrow> jsval list \<Rightarrow> string option" where
  "check_operands E op vs =
     (if op = ''between'' then
        (if length vs \<noteq> 2 then Some ''Exactly 2 arguments are required.''
         else if js_lt E (vs ! 1) (vs ! 0) then Some ''The first argument must be less than or equal to the second argument.''
         else None)
      else if length vs \<noteq> 1 then Some ''Exactly 1 argument is required.'' else None)"

definition validate_field :: "js_env \<Rightarrow> string \<Rightarrow> jsval list \<Rightarrow> string option" where
  "validate_field E op vs =
     (if op \<in> set comparisonKeys
      then map_option (\<lambda>e. ''Incorrect usage of `'' @ op @ ''()`: '' @ e) (check_operands E op vs)
      else Some (''Non-existent operator: `'' @ op @ ''()`''))"

definition newFieldCondition :: "js_env \<Rightarrow> string \<Rightarrow> string \<Rightarrow> jsval list \<Rightarrow> js_error + condition" where
  "newFieldCondition E field op vs =
     (case validate_field E op vs of Some msg \<Rightarrow> Inl (JsError msg) | None \<Rightarrow> Inr (FieldCondition field op vs))"

definition operand_at :: "jsval list \<Rightarrow> nat \<Rightarrow> jsval" where
  "operand_at vs i = (if i < length vs then vs ! i else JUndefined)"

section \<open>Negation and optimisation\<close>

text \<open>The opposite of a field condition. The new conditions have as many operands as the operator takes.\<close>

definition negated_field :: "string \<Rightarrow> string \<Rightarrow> string \<Rightarrow> jsval list \<Rightarrow> condition" where
  "negated_field model field op vs =
     (if op = ''between'' then
        GroupCondition model None None ''or''
          [FieldCondition field ''lt'' [operand_at vs 0], FieldCondition field ''gt'' [operand_at vs 1]] False
      else if op = ''beginsWith'' then
        GroupCondition model None None ''not'' [FieldCondition field ''beginsWith'' [operand_at vs 0]] False
      else FieldCondition field (negation op) vs)"

definition negate_operand :: "string \<Rightarrow> bool \<Rightarrow> condition \<Rightarrow> condition" where
  "negate_operand model negateChildren c =
     (case c of FieldCondition f op vs \<Rightarrow> if negateChildren then negated_field model f op vs else c | _ \<Rightarrow> c)"

definition withFieldConditionsOnly :: "string \<Rightarrow> string \<Rightarrow> condition list \<Rightarrow> bool \<Rightarrow> condition" where
  "withFieldConditionsOnly model op operands negate =
     (let negateChildren = (negate \<noteq> (op = ''not''))
      in GroupCondition model None None (if negate then negation op else op)
           (map (negate_operand model negateChildren) (filter is_field operands)) False)"

fun optimized :: "bool \<Rightarrow> condition \<Rightarrow> condition" where
  "optimized preserveNode (FieldCondition f op vs) = FieldCondition f op vs"
| "optimized preserveNode (GroupCondition m f rt op operands opt) =
     (let os = map (\<lambda>c. optimized (op = ''not'') c) operands;
          kept = GroupCondition m f rt op os True
      in if \<not> preserveNode \<and> op \<in> set [''and'', ''or''] \<and> f = None \<and> length os = 1 then
           (case hd os of
              FieldCondition f' op' vs' \<Rightarrow> if op' \<noteq> ''between'' then FieldCondition f' op' vs' else kept
            | g \<Rightarrow> g)
         else kept)"

fun copy_condition :: "condition \<Rightarrow> condition" where
  "copy_condition (FieldCondition f op vs) = FieldCondition f op vs"
| "copy_condition (GroupCondition m f rt op operands opt) =
     GroupCondition m f rt op (map copy_condition operands) False"

section \<open>Storage predicates\<close>

text \<open>The GraphQL style tree; a condition on a related model has none.\<close>

fun toAST :: "condition \<Rightarrow> js_error + jsval" where
  "toAST (FieldCondition f op vs) =
     Inr (JObj [(f, JObj [(op, if op = ''between'' then JArr [operand_at vs 0, operand_at vs 1] else operand_at vs 0)])])"
| "toAST (GroupCondition m f rt op operands opt) =
     (if f \<noteq> None then Inl (JsError ''Nested type conditions are not supported!'')
      else sbind (sum_map toAST operands) (\<lambda>cs. Inr (JObj [(op, JArr cs)])))"

definition toStoragePredicate :: "condition \<Rightarrow> js_error + past" where
  "toStoragePredicate c = sbind (toAST c) transformGraphQLFilterNodeToPredicateAST"

section \<open>Matching an item\<close>

definition field_matches :: "js_env \<Rightarrow> jsval \<Rightarrow> string \<Rightarrow> jsval list \<Rightarrow> js_error + bool" where
  "field_matches E v op vs =
     (let x = operand_at vs 0 in
      if op = ''eq'' then Inr (strict_eq v x)
      else if op = ''ne'' then Inr (\<not> strict_eq v x)
      else if op = ''gt'' then Inr (js_lt E x v)
      else if op = ''ge'' then Inr (js_le E x v)
      else if op = ''lt'' then Inr (js_lt E v x)
      else if op = ''le'' then Inr (js_le E v x)
      else if op = ''contains'' then (if isNullOrUndefined v then Inr False else indexOf_found E v x)
      else if op = ''notContains'' then
        (if \<not> truthy v then Inr True else sbind (indexOf_found E v x) (\<lambda>b. Inr (\<not> b)))
      else if op = ''beginsWith'' then
        (if isNullOrUndefined v then Inr False
         else (case v of JStr s \<Rightarrow> Inr (startsWith s (js_toString E x)) | _ \<Rightarrow> Inl JsTypeError))
      else if op = ''between'' then Inr (js_le E x v \<and> js_le E v (operand_at vs 1))
      else Inl (JsError ''Invalid operator given''))"

text \<open>
  What a relationship field of an item holds: nothing, one item, or a collection to iterate over. An
  exception of loading it is a value too.
\<close>

datatype related = NoItem | OneItem model | Items "model list"

type_synonym loader = "string \<Rightarrow> model \<Rightarrow> string \<Rightarrow> js_error + related"

text \<open>
  \<open>group_matches\<close> is the part of \<open>matches\<close> after the item to check is known; the first argument of
  \<open>matches\<close> is the model the item is of. A collection that is not iterated has none of the fields.
\<close>

fun matches :: "js_env \<Rightarrow> loader \<Rightarrow> string \<Rightarrow> condition \<Rightarrow> model \<Rightarrow> js_error + bool"
  and group_matches :: "js_env \<Rightarrow> loader \<Rightarrow> string \<Rightarrow> string \<Rightarrow> condition list \<Rightarrow> model \<Rightarrow> js_error + bool" where
  "matches E load owner (FieldCondition f op vs) item = field_matches E (field_of item f) op vs"
| "matches E load owner (GroupCondition m f rt op operands opt) item =
     (case f of
        None \<Rightarrow> group_matches E load m op operands item
      | Some field \<Rightarrow> sbind (load owner item field) (\<lambda>r. case r of
            NoItem \<Rightarrow> Inr False
          | OneItem x \<Rightarrow> group_matches E load m op operands x
          | Items xs \<Rightarrow> if rt = Some ''HAS_MANY'' then sum_some (group_matches E load m op operands) xs
                       else group_matches E load m op operands []))"
| "group_matches E load m op operands item =
     (if op = ''or'' then sum_some (\<lambda>c. matches E load m c item) operands
      else if op = ''and'' then sum_every (\<lambda>c. matches E load m c item) operands
      else if op = ''not'' then
        (case operands of
           [c] \<Rightarrow> sbind (matches E load m c item) (\<lambda>b. Inr (\<not> b))
         | _ \<Rightarrow> Inl (JsError ''Invalid arguments! `not()` accepts exactly one predicate expression.''))
      else Inl (JsError ''Invalid group operator!''))"

section \<open>Fetching from the storage\<close>

type_synonym storage_query = "string \<Rightarrow> past option \<Rightarrow> js_error + model list"

definition pkField :: "namespace \<Rightarrow> string \<Rightarrow> string list" where
  "pkField ns m = extractPrimaryKeyFieldNames (map_of ns m)"

text \<open>\<open>JSON.stringify\<close> of the key's values, as the list of these values; \<open>undefined\<close> becomes \<open>null\<close>.\<close>

definition getPKValue :: "string list \<Rightarrow> model \<Rightarrow> jsval list" where
  "getPKValue pk item = map (\<lambda>f. let v = field_of item f in if v = JUndefined then JNull else v) pk"

definition result_index :: "string list \<Rightarrow> model list \<Rightarrow> (jsval list, model) omap" where
  "result_index pk items = fold (\<lambda>item. AList.update (getPKValue pk item) item) items []"

definition intersect_index :: "string list \<Rightarrow> model list \<Rightarrow> (jsval list, model) omap \<Rightarrow> (jsval list, model) omap" where
  "intersect_index pk grp idx = filter (\<lambda>(k, item). k \<in> fst ` set (result_index pk grp)) idx"

definition combine_groups :: "string \<Rightarrow> string list \<Rightarrow> model list list \<Rightarrow> model list" where
  "combine_groups operator pk resultGroups =
     (if operator = ''and'' then
        (case resultGroups of [] \<Rightarrow> []
         | g # gs \<Rightarrow> map snd (fold (intersect_index pk) gs (result_index pk g)))
      else if operator = ''or'' \<or> operator = ''not'' then map snd (result_index pk (concat resultGroups))
      else [])"

text \<open>The candidates of a relationship group: the records that join one of the relatives.\<close>

definition join_condition :: "relationship_of \<Rightarrow> model \<Rightarrow> jsval" where
  "join_condition r relative = JObj [(''and'', JArr (map (\<lambda>i. JObj [(name_at (localJoinFields r) i,
     JObj [(''eq'', field_of relative (name_at (remoteJoinFields r) i))])]) [0..<length (localJoinFields r)]))]"

definition join_predicate :: "relationship_of \<Rightarrow> model list \<Rightarrow> js_error + past" where
  "join_predicate r relatives =
     transformGraphQLFilterNodeToPredicateAST (JObj [(''or'', JArr (map (join_condition r) relatives))])"

definition join_relatives :: "namespace \<Rightarrow> storage_query \<Rightarrow> string \<Rightarrow> string \<Rightarrow> model list \<Rightarrow> js_error + model list" where
  "join_relatives ns query m field relatives =
     sbind (case map_of ns m of None \<Rightarrow> Inr None | Some sm \<Rightarrow> rel_from ns sm field) (\<lambda>r.
       case r of None \<Rightarrow> Inl (JsError ''Missing field metadata.'')
       | Some rel \<Rightarrow> sbind (join_predicate rel relatives) (\<lambda>p. query m (Some p)))"

lemma size_optimized: "size (optimized p c) \<le> size c"
proof (induction p c rule: optimized.induct)
  case (2 p m f rt op operands opt)
  let ?os = "map (\<lambda>c. optimized (op = ''not'') c) operands"
  have le: "size_list size ?os \<le> size_list size operands"
    using 2 by (induction operands) (auto intro: add_mono)
  show ?case
  proof (cases "\<not> p \<and> op \<in> set [''and'', ''or''] \<and> f = None \<and> length ?os = 1")
    case True
    then obtain o1 where o1: "?os = [o1]" by (auto simp: length_Suc_conv)
    then have "size o1 \<le> size_list size operands" using le by simp
    with True o1 le show ?thesis by (cases o1) (simp_all add: Let_def)
  next
    case False
    then have "optimized p (GroupCondition m f rt op operands opt) = GroupCondition m f rt op ?os True"
      by (subst optimized.simps) (simp only: Let_def if_False)
    with le show ?thesis by simp
  qed
qed simp

lemma optimized_root: "optimized True (GroupCondition m f rt op operands opt)
  = GroupCondition m f rt op (map (optimized (op = ''not'')) operands) True"
  by (simp add: Let_def)

text \<open>
  \<open>fetch_groups\<close> is the loop over the child groups; \<open>None\<close> is its early return of the empty list. The
  negation is lost when a group that is not optimised yet starts over, which only a root is.
\<close>

function fetch :: "namespace \<Rightarrow> storage_query \<Rightarrow> condition \<Rightarrow> bool \<Rightarrow> js_error + model list"
  and fetch_groups :: "namespace \<Rightarrow> storage_query \<Rightarrow> string \<Rightarrow> string \<Rightarrow> bool \<Rightarrow> condition list \<Rightarrow>
    js_error + model list list option" where
  "fetch ns query (FieldCondition f op vs) negate = Inl (JsError ''No implementation needed [yet].'')"
| "fetch ns query (GroupCondition m f rt op operands False) negate =
     fetch ns query (optimized True (GroupCondition m f rt op operands False)) False"
| "fetch ns query (GroupCondition m f rt op operands True) negate =
     (let operator = (if negate then negation op else op);
          negateChildren = (negate \<noteq> (op = ''not''))
      in sbind (fetch_groups ns query m operator negateChildren (filter (\<lambda>c. \<not> is_field c) operands)) (\<lambda>early.
         case early of
           None \<Rightarrow> Inr []
         | Some resultGroups \<Rightarrow>
             sbind
               (if filter is_field operands \<noteq> [] then
                  sbind (toStoragePredicate (withFieldConditionsOnly m op operands negateChildren))
                    (\<lambda>p. sbind (query m (Some p)) (\<lambda>rows. Inr (resultGroups @ [rows])))
                else if resultGroups = [] then sbind (query m None) (\<lambda>rows. Inr [rows])
                else Inr resultGroups)
               (\<lambda>groups. Inr (combine_groups operator (pkField ns m) groups))))"
| "fetch_groups ns query m operator negateChildren [] = Inr (Some [])"
| "fetch_groups ns query m operator negateChildren (g # gs) =
     sbind (fetch ns query g negateChildren) (\<lambda>relatives.
       if relatives = [] \<and> operator = ''and'' then Inr None
       else sbind (if relatives = [] then Inr []
                   else case g_field g of
                       None \<Rightarrow> Inr relatives
                     | Some field \<Rightarrow> join_relatives ns query m field relatives)
              (\<lambda>grp. sbind (fetch_groups ns query m operator negateChildren gs)
                 (\<lambda>groups. Inr (map_option (Cons grp) groups))))"
  by pat_completeness auto
termination
proof (relation "measure (\<lambda>x. case x of
      Inl (ns, query, c, negate) \<Rightarrow> 2 * size c + (case c of GroupCondition _ _ _ _ _ False \<Rightarrow> 1 | _ \<Rightarrow> 0)
    | Inr (ns, query, m, operator, negateChildren, gs) \<Rightarrow> 2 * size_list size gs + 1)", goal_cases)
  case (2 ns query m f rt op operands negate)
  have "size (optimized True (GroupCondition m f rt op operands False)) \<le> size (GroupCondition m f rt op operands False)"
    by (rule size_optimized)
  then show ?case unfolding optimized_root by simp
next
  case (3 ns query m f rt op operands negate x xa)
  have "size_list size (filter (\<lambda>c. \<not> is_field c) operands) \<le> size_list size operands"
    by (induction operands) auto
  then show ?case by simp
qed (auto split: condition.splits bool.splits)

section \<open>Loading related records\<close>

text \<open>
  The getter of a relationship field of a stored record (\<open>datastore/datastore.ts\<close>): it queries for the
  records whose join fields equal the record's; the builder turns an operand \<open>undefined\<close> into \<open>null\<close>.
\<close>

definition null_if_undefined :: "jsval \<Rightarrow> jsval" where
  "null_if_undefined v = (if v = JUndefined then JNull else v)"

definition join_query :: "relationship_of \<Rightarrow> model \<Rightarrow> condition" where
  "join_query r item = GroupCondition (remoteName r) None None ''and''
     [GroupCondition (remoteName r) None None ''and''
        (map (\<lambda>i. FieldCondition (name_at (remoteJoinFields r) i) ''eq''
               [null_if_undefined (field_of item (name_at (localJoinFields r) i))]) [0..<length (remoteJoinFields r)]) False] False"

definition load_related :: "namespace \<Rightarrow> storage_query \<Rightarrow> loader" where
  "load_related ns query owner item field =
     sbind (case map_of ns owner of None \<Rightarrow> Inr None | Some sm \<Rightarrow> rel_from ns sm field) (\<lambda>rel.
       case rel of None \<Rightarrow> Inl (JsError ''Missing field metadata.'')
       | Some r \<Rightarrow> sbind (fetch ns query (join_query r item) False) (\<lambda>rows.
           if rel_type r = ''HAS_MANY'' then Inr (Items rows)
           else if length rows > 1 then Inl (JsError ''Data integrity error.'')
           else Inr (case rows of [] \<Rightarrow> NoItem | y # _ \<Rightarrow> OneItem y)))"

end
