(* ===== verification/ConditionsProofs.thy ===== *)
theory ConditionsProofs
  imports Conditions PredicatesProofs
begin

text \<open>
  Field conditions and their negations agree with the storage's evaluation of the predicates made from
  them, for values of the kind the operator is meant for; optimising keeps the meaning of a condition;
  merging the result groups is intersection and union.
\<close>

section \<open>Storage predicates\<close>

definition ast_operand :: "string \<Rightarrow> jsval list \<Rightarrow> jsval" where
  "ast_operand op vs = (if op = ''between'' then JArr [operand_at vs 0, operand_at vs 1] else operand_at vs 0)"

fun node_of :: "condition \<Rightarrow> past" where
  "node_of (FieldCondition f op vs) = PField f op (ast_operand op vs)"
| "node_of (GroupCondition m fo rt op os opt) = PGroup op (map node_of os)"

definition plain_name :: "string \<Rightarrow> bool" where
  "plain_name f \<longleftrightarrow> f \<notin> set groupKeys \<and> f \<notin> set comparisonKeys"

fun ast_wf :: "condition \<Rightarrow> bool" where
  "ast_wf (FieldCondition f op vs) \<longleftrightarrow> plain_name f \<and> op \<in> set comparisonKeys"
| "ast_wf (GroupCondition m fo rt op os opt) \<longleftrightarrow> fo = None \<and> op \<in> set groupKeys \<and> (\<forall>c \<in> set os. ast_wf c)"

lemma transform_leaf:
  "plain_name f \<Longrightarrow> op \<in> set comparisonKeys \<Longrightarrow>
   transformGraphQLFilterNodeToPredicateAST (JObj [(f, JObj [(op, x)])]) = Inr (PField f op x)"
  by (auto simp: plain_name_def groupKeys_def comparisonKeys_def PField_def)

lemma transform_list:
  assumes "list_all2 (\<lambda>g p. (\<exists>k x. g = JObj [(k, x)]) \<and> transformGraphQLFilterNodeToPredicateAST g = Inr p) gs ps"
  shows "all_valid gs = Inr True" and "transform_all gs = Inr ps"
  using assms by (induction rule: list_all2_induct) (auto simp: keys_count_def)

lemma transform_group_list:
  assumes "list_all2 (\<lambda>g p. (\<exists>k x. g = JObj [(k, x)]) \<and> transformGraphQLFilterNodeToPredicateAST g = Inr p) gs ps"
    and "op \<in> set groupKeys"
  shows "transformGraphQLFilterNodeToPredicateAST (JObj [(op, JArr gs)]) = Inr (PGroup op ps)"
  using transform_list [OF assms(1)] assms(2) by (simp add: children_of_def)

lemma transform_AST:
  "ast_wf c \<Longrightarrow> \<exists>k x. toAST c = Inr (JObj [(k, x)]) \<and>
     transformGraphQLFilterNodeToPredicateAST (JObj [(k, x)]) = Inr (node_of c)"
proof (induction c)
  case (FieldCondition f op vs)
  then show ?case by (simp add: transform_leaf ast_operand_def del: transformGraphQLFilterNodeToPredicateAST.simps)
next
  case (GroupCondition m fo rt op os opt)
  define ast where "ast c = (SOME j. toAST c = Inr j \<and> (\<exists>k x. j = JObj [(k, x)]) \<and>
    transformGraphQLFilterNodeToPredicateAST j = Inr (node_of c))" for c
  have ast: "toAST c = Inr (ast c) \<and> (\<exists>k x. ast c = JObj [(k, x)]) \<and>
    transformGraphQLFilterNodeToPredicateAST (ast c) = Inr (node_of c)" if "c \<in> set os" for c
    unfolding ast_def by (rule someI_ex) (use GroupCondition that in \<open>simp; blast\<close>)
  then have "sum_map toAST os = Inr (map ast os)" by (intro sum_map_ok) blast
  moreover have "list_all2 (\<lambda>g p. (\<exists>k x. g = JObj [(k, x)]) \<and> transformGraphQLFilterNodeToPredicateAST g = Inr p)
      (map ast os) (map node_of os)"
    using ast by (auto simp: list.rel_map intro!: list.rel_refl_strong)
  ultimately show ?case
    using GroupCondition.prems transform_group_list [of "map ast os" "map node_of os" op]
    by (simp del: transformGraphQLFilterNodeToPredicateAST.simps)
qed

lemma toStoragePredicate_node: "ast_wf c \<Longrightarrow> toStoragePredicate c = Inr (node_of c)"
  using transform_AST [of c] by (auto simp: toStoragePredicate_def simp del: transformGraphQLFilterNodeToPredicateAST.simps)

lemma validate_every_ok:
  "(\<And>p. p \<in> set ps \<Longrightarrow> validate_one E m p = Inr (P p)) \<Longrightarrow> validate_every E m ps = Inr (list_all P ps)"
  by (induction ps) auto

lemma validate_some_ok:
  "(\<And>p. p \<in> set ps \<Longrightarrow> validate_one E m p = Inr (P p)) \<Longrightarrow> validate_some E m ps = Inr (list_ex P ps)"
  by (induction ps) auto

section \<open>Field conditions\<close>

definition operand_count :: "string \<Rightarrow> jsval list \<Rightarrow> bool" where
  "operand_count op vs \<longleftrightarrow> op \<in> set comparisonKeys \<and> length vs = (if op = ''between'' then 2 else 1)"

lemma newFieldCondition_count: "newFieldCondition E f op vs = Inr c \<Longrightarrow> c = FieldCondition f op vs \<and> operand_count op vs"
  by (auto simp: newFieldCondition_def validate_field_def check_operands_def operand_count_def split: if_splits)

text \<open>Numbers against numbers, strings against strings.\<close>

definition comparable :: "jsval \<Rightarrow> jsval \<Rightarrow> bool" where
  "comparable v x \<longleftrightarrow> (case (v, x) of (JNum _, JNum _) \<Rightarrow> True | (JStr _, JStr _) \<Rightarrow> True | _ \<Rightarrow> False)"

definition searchable :: "jsval \<Rightarrow> bool" where
  "searchable v \<longleftrightarrow> (case v of JStr _ \<Rightarrow> True | JArr _ \<Rightarrow> True | _ \<Rightarrow> isNullOrUndefined v)"

text \<open>
  The values on which a field condition means the same to \<open>matches\<close> and to the storage; under a negation
  also the reversed operator must be the opposite.
\<close>

definition value_ok :: "bool \<Rightarrow> jsval \<Rightarrow> string \<Rightarrow> jsval list \<Rightarrow> bool" where
  "value_ok negate v op vs \<longleftrightarrow>
     (if op \<in> {''gt'', ''ge'', ''lt'', ''le''} then negate \<longrightarrow> comparable v (operand_at vs 0)
      else if op = ''between'' then negate \<longrightarrow> comparable v (operand_at vs 0) \<and> comparable v (operand_at vs 1)
      else if op = ''contains'' then searchable v
      else if op = ''notContains'' then searchable v \<and> v \<noteq> JStr []
      else if op = ''beginsWith'' then (case v of JStr _ \<Rightarrow> True | _ \<Rightarrow> isNullOrUndefined v)
      else True)"

lemma comparable_le: "comparable v x \<Longrightarrow> js_le E v x \<longleftrightarrow> \<not> js_lt E x v"
  by (auto simp: comparable_def not_le split: jsval.splits)

lemma comparable_sym: "comparable v x \<Longrightarrow> comparable x v"
  by (auto simp: comparable_def split: jsval.splits)

lemma found_searchable:
  "searchable v \<Longrightarrow> \<not> isNullOrUndefined v \<Longrightarrow> \<exists>b. indexOf_found E v x = Inr b"
  by (auto simp: searchable_def indexOf_found_def isNullOrUndefined_def split: jsval.splits)

lemma comparisonKeys_cases:
  assumes "op \<in> set comparisonKeys"
  obtains "op = ''eq''" | "op = ''ne''" | "op = ''gt''" | "op = ''ge''" | "op = ''lt''" | "op = ''le''"
    | "op = ''contains''" | "op = ''notContains''" | "op = ''beginsWith''" | "op = ''between''"
  using assms unfolding comparisonKeys_def by (simp only: list.set insert_iff empty_iff simp_thms) (elim disjE)

lemma validate_leaf [simp]:
  "validate_one E m (PField f op x) = validatePredicateField E (field_of m f) op x"
  by (simp add: PField_def)

lemma positive_field:
  assumes "operand_count op vs" and "value_ok False v op vs"
  shows "\<exists>b. field_matches E v op vs = Inr b \<and> validatePredicateField E v op (ast_operand op vs) = Inr b"
proof -
  have "op \<in> set comparisonKeys" using assms(1) by (simp add: operand_count_def)
  then show ?thesis
  proof (cases op rule: comparisonKeys_cases)
    case 7
    then have "searchable v" using assms(2) by (simp add: value_ok_def)
    then show ?thesis using 7 found_searchable [of v E "operand_at vs 0"]
      by (cases "isNullOrUndefined v") (auto simp: field_matches_def validatePredicateField_def ast_operand_def Let_def)
  next
    case 8
    then have "searchable v" "v \<noteq> JStr []" using assms(2) by (simp_all add: value_ok_def)
    then show ?thesis using 8 found_searchable [of v E "operand_at vs 0"]
      by (cases v) (auto simp: field_matches_def validatePredicateField_def ast_operand_def Let_def
          searchable_def isNullOrUndefined_def)
  next
    case 9
    then show ?thesis using assms(2)
      by (auto simp: value_ok_def field_matches_def validatePredicateField_def ast_operand_def Let_def
          isNullOrUndefined_def split: jsval.splits)
  next
    case 10
    then show ?thesis
      by (simp add: field_matches_def validatePredicateField_def ast_operand_def Let_def between_bounds_def
          nth_or_undefined_def)
  qed (simp_all add: field_matches_def validatePredicateField_def ast_operand_def Let_def)
qed

lemma operand_at_single [simp]: "operand_at [x] 0 = x"
  by (simp add: operand_at_def)

lemma negations_simps [simp]:
  "negation ''and'' = ''or''" "negation ''or'' = ''and''" "negation ''not'' = ''and''"
  "negation ''eq'' = ''ne''" "negation ''ne'' = ''eq''" "negation ''gt'' = ''le''" "negation ''ge'' = ''lt''"
  "negation ''lt'' = ''ge''" "negation ''le'' = ''gt''" "negation ''contains'' = ''notContains''"
  "negation ''notContains'' = ''contains''"
  by (simp_all add: negation_def negations_def)

lemma negative_field:
  assumes "operand_count op vs" and "value_ok True (field_of r f) op vs"
  shows "\<exists>b. field_matches E (field_of r f) op vs = Inr b \<and> validate_one E r (node_of (negated_field m f op vs)) = Inr (\<not> b)"
proof -
  let ?v = "field_of r f"
  note defs = negated_field_def field_matches_def validatePredicateField_def ast_operand_def Let_def
  have le: "js_le E ?v x \<longleftrightarrow> \<not> js_lt E x ?v" "js_le E x ?v \<longleftrightarrow> \<not> js_lt E ?v x" if "comparable ?v x" for x
    using comparable_le [OF that] comparable_le [OF comparable_sym [OF that]] by auto
  have "op \<in> set comparisonKeys" using assms(1) by (simp add: operand_count_def)
  then show ?thesis
  proof (cases op rule: comparisonKeys_cases)
    case 7
    then have "searchable ?v" using assms(2) by (simp add: value_ok_def)
    then show ?thesis using 7 found_searchable [of ?v E "operand_at vs 0"]
      by (cases "isNullOrUndefined ?v") (auto simp: defs)
  next
    case 8
    then have "searchable ?v" "?v \<noteq> JStr []" using assms(2) by (simp_all add: value_ok_def)
    then show ?thesis using 8 found_searchable [of ?v E "operand_at vs 0"]
      by (cases ?v) (auto simp: defs searchable_def isNullOrUndefined_def)
  next
    case 9
    then have "?v = JUndefined \<or> ?v = JNull \<or> (\<exists>s. ?v = JStr s)"
      using assms(2) by (auto simp: value_ok_def isNullOrUndefined_def split: jsval.splits)
    then show ?thesis using 9
      by (auto simp: defs validate_single(3) negated_def isNullOrUndefined_def simp del: validatePredicate.simps)
  next
    case 10
    then have "comparable ?v (operand_at vs 0)" "comparable ?v (operand_at vs 1)"
      using assms(2) by (simp_all add: value_ok_def)
    then show ?thesis using 10 by (simp add: defs le)
  qed (use assms(2) in \<open>simp_all add: defs le value_ok_def\<close>)
qed

section \<open>Optimising\<close>

fun same_owner :: "string \<Rightarrow> condition \<Rightarrow> bool" where
  "same_owner owner (FieldCondition f op vs) \<longleftrightarrow> True"
| "same_owner owner (GroupCondition m fo rt op os opt) \<longleftrightarrow> (fo = None \<longrightarrow> m = owner) \<and> (\<forall>c \<in> set os. same_owner m c)"

lemma sum_single: "sum_some f [x] = f x" "sum_every f [x] = f x"
  by (cases "f x"; simp)+

lemma list_two: "x \<in> set [a, b] \<Longrightarrow> (x = a \<Longrightarrow> P) \<Longrightarrow> (x = b \<Longrightarrow> P) \<Longrightarrow> P"
  by auto

lemma group_matches_single:
  "op \<in> set [''and'', ''or''] \<Longrightarrow> group_matches E load m op [c] item = matches E load m c item"
  using sum_single [of "\<lambda>c. matches E load m c item" c] by (elim list_two) (simp_all del: sum_some.simps sum_every.simps)

lemma group_matches_map:
  assumes "\<And>c. c \<in> set os \<Longrightarrow> \<forall>x. matches E load m (h c) x = matches E load m c x"
  shows "group_matches E load m op (map h os) x = group_matches E load m op os x"
proof -
  have "sum_some (\<lambda>c. matches E load m c x) (map h os) = sum_some (\<lambda>c. matches E load m c x) os"
    "sum_every (\<lambda>c. matches E load m c x) (map h os) = sum_every (\<lambda>c. matches E load m c x) os"
    using assms by (induction os) (auto cong: if_cong)
  moreover have "(case map h os of [c] \<Rightarrow> sbind (matches E load m c x) (\<lambda>b. Inr (\<not> b)) | _ \<Rightarrow> Inl z)
      = (case os of [c] \<Rightarrow> sbind (matches E load m c x) (\<lambda>b. Inr (\<not> b)) | _ \<Rightarrow> Inl z)" for z
    using assms by (auto split: list.splits)
  ultimately show ?thesis by (simp only: group_matches.simps)
qed

text \<open>The key lemma is about a group whose operands are replaced by ones that match the same items.\<close>

lemma optimized_same:
  "same_owner owner c \<Longrightarrow> matches E load owner (optimized p c) x = matches E load owner c x"
proof (induction p c arbitrary: owner x rule: optimized.induct)
  case (2 p m f rt op os opt)
  let ?os = "map (optimized (op = ''not'')) os"
  have IH: "\<forall>x. matches E load m (optimized (op = ''not'') c) x = matches E load m c x" if "c \<in> set os" for c
    using 2 that by simp
  have g: "group_matches E load m op ?os = group_matches E load m op os"
    by (rule ext) (rule group_matches_map [OF IH])
  have kept: "matches E load owner (GroupCondition m f rt op ?os True) x = matches E load owner (GroupCondition m f rt op os opt) x"
    by (simp only: matches.simps g)
  show ?case
  proof (cases "\<not> p \<and> op \<in> set [''and'', ''or''] \<and> f = None \<and> length ?os = 1")
    case False
    then have "optimized p (GroupCondition m f rt op os opt) = GroupCondition m f rt op ?os True"
      by (subst optimized.simps) (simp only: Let_def if_False)
    with kept show ?thesis by simp
  next
    case True
    then obtain o1 where o1: "?os = [o1]" by (metis length_0_conv length_Suc_conv One_nat_def)
    have "m = owner" using True "2.prems" by simp
    then have "matches E load owner o1 x = matches E load owner (GroupCondition m f rt op ?os True) x"
      using group_matches_single [of op E load m o1 x] True unfolding o1 by simp
    moreover have "optimized p (GroupCondition m f rt op os opt) \<in> {o1, GroupCondition m f rt op ?os True}"
      using True o1 by (cases o1) (auto simp: Let_def)
    ultimately show ?thesis using kept by auto
  qed
qed simp

section \<open>Merging result groups\<close>

definition pk_unique :: "string list \<Rightarrow> model set \<Rightarrow> bool" where
  "pk_unique pk R \<longleftrightarrow> inj_on (getPKValue pk) R"

lemma result_index_get:
  "map_of (result_index pk items) k = find (\<lambda>item. getPKValue pk item = k) (rev items)"
  by (simp add: result_index_def map_of_fold_update [where g = "\<lambda>x. x"] split: option.splits)

lemma result_index_okeys: "okeys (result_index pk items)"
  by (simp add: result_index_def okeys_fold_update [where g = "\<lambda>x. x"])

lemma result_index_set:
  assumes "pk_unique pk R" and "set items \<subseteq> R"
  shows "set (result_index pk items) = (\<lambda>item. (getPKValue pk item, item)) ` set items"
proof (intro set_eqI)
  fix e :: "jsval list \<times> model"
  obtain k item where e: "e = (k, item)" by fastforce
  have "e \<in> set (result_index pk items) \<longleftrightarrow> find (\<lambda>item. getPKValue pk item = k) (rev items) = Some item"
    by (simp add: e okeys_map_of [OF result_index_okeys] result_index_get)
  also have "\<dots> \<longleftrightarrow> item \<in> set items \<and> getPKValue pk item = k"
  proof
    assume "find (\<lambda>item. getPKValue pk item = k) (rev items) = Some item"
    from find_SomeD [OF this] show "item \<in> set items \<and> getPKValue pk item = k" by simp
  next
    assume *: "item \<in> set items \<and> getPKValue pk item = k"
    show "find (\<lambda>item. getPKValue pk item = k) (rev items) = Some item"
      by (rule find_unique) (use * assms in \<open>auto simp: pk_unique_def inj_on_def\<close>)
  qed
  finally show "e \<in> set (result_index pk items) \<longleftrightarrow> e \<in> (\<lambda>item. (getPKValue pk item, item)) ` set items"
    by (auto simp: e)
qed

lemma intersect_all:
  assumes "pk_unique pk R" and "\<forall>g \<in> set gs. set g \<subseteq> R" and "A \<subseteq> R"
    and "set idx = (\<lambda>item. (getPKValue pk item, item)) ` A"
  shows "set (fold (intersect_index pk) gs idx)
    = (\<lambda>item. (getPKValue pk item, item)) ` {item \<in> A. \<forall>g \<in> set gs. item \<in> set g}"
  using assms
proof (induction gs arbitrary: A idx)
  case Nil
  then show ?case by simp
next
  case (Cons g gs)
  have "set (intersect_index pk g idx) = (\<lambda>item. (getPKValue pk item, item)) ` {item \<in> A. item \<in> set g}"
  proof -
    define K where "K = fst ` set (result_index pk g)"
    have "getPKValue pk x \<in> K \<longleftrightarrow> x \<in> set g" if "x \<in> A" for x
    proof -
      have "K = getPKValue pk ` set g" unfolding K_def
        using result_index_set [OF Cons.prems(1), of g] Cons.prems(2) by (auto simp: image_image)
      moreover have "x \<in> set g" if "getPKValue pk x = getPKValue pk y" "y \<in> set g" for y
        using inj_onD [of "getPKValue pk" R x y] that \<open>x \<in> A\<close> Cons.prems(1-3) by (auto simp: pk_unique_def)
      ultimately show ?thesis by auto
    qed
    then have "{e \<in> set idx. fst e \<in> K} = (\<lambda>item. (getPKValue pk item, item)) ` {item \<in> A. item \<in> set g}"
      unfolding Cons.prems(4) by auto
    then show ?thesis by (simp add: intersect_index_def case_prod_beta K_def)
  qed
  from Cons.IH [OF Cons.prems(1) _ _ this] Cons.prems(2,3) show ?case by (simp add: conj_assoc) blast
qed

lemma combine_and:
  assumes "pk_unique pk R" and "\<forall>g \<in> set groups. set g \<subseteq> R" and "groups \<noteq> []"
  shows "set (combine_groups ''and'' pk groups) = {item \<in> R. \<forall>g \<in> set groups. item \<in> set g}"
proof -
  obtain g gs where g: "groups = g # gs" using assms(3) by (cases groups) auto
  have "set (fold (intersect_index pk) gs (result_index pk g))
      = (\<lambda>item. (getPKValue pk item, item)) ` {item \<in> set g. \<forall>g \<in> set gs. item \<in> set g}"
    using assms by (intro intersect_all [OF assms(1)] result_index_set [OF assms(1)]) (auto simp: g)
  then show ?thesis using assms(2) by (auto simp: combine_groups_def g image_image)
qed

lemma combine_or:
  assumes "pk_unique pk R" and "\<forall>g \<in> set groups. set g \<subseteq> R" and "operator = ''or'' \<or> operator = ''not''"
  shows "set (combine_groups operator pk groups) = {item. \<exists>g \<in> set groups. item \<in> set g}"
proof -
  have "set (result_index pk (concat groups)) = (\<lambda>item. (getPKValue pk item, item)) ` set (concat groups)"
    using assms by (intro result_index_set [OF assms(1)]) auto
  then show ?thesis using assms(3) by (auto simp: combine_groups_def image_image)
qed

end
