(* ===== verification/FetchProofs.thy ===== *)
theory FetchProofs
  imports ConditionsProofs
begin

text \<open>
  What \<open>fetch\<close> returns. \<open>sat\<close> is the meaning of a condition on an item, a relationship field standing for
  the records that join it; the storage is an interface, \<open>predicate_storage\<close>.
\<close>

section \<open>The meaning of a condition\<close>

type_synonym tables = "string \<Rightarrow> model list"

definition relation_of :: "namespace \<Rightarrow> string \<Rightarrow> string \<Rightarrow> relationship_of option" where
  "relation_of ns m field = (case map_of ns m of None \<Rightarrow> None
     | Some sm \<Rightarrow> (case rel_from ns sm field of Inr r \<Rightarrow> r | Inl e \<Rightarrow> None))"

definition joined :: "relationship_of \<Rightarrow> model \<Rightarrow> model \<Rightarrow> bool" where
  "joined r x y \<longleftrightarrow> list_all (\<lambda>i. strict_eq (field_of x (name_at (localJoinFields r) i)) (field_of y (name_at (remoteJoinFields r) i)))
     [0..<length (localJoinFields r)]"

definition joined_records :: "namespace \<Rightarrow> tables \<Rightarrow> string \<Rightarrow> string \<Rightarrow> model \<Rightarrow> model list" where
  "joined_records ns T owner field x =
     (case relation_of ns owner field of None \<Rightarrow> [] | Some r \<Rightarrow> filter (joined r x) (T (remoteName r)))"

fun sat :: "js_env \<Rightarrow> namespace \<Rightarrow> tables \<Rightarrow> string \<Rightarrow> condition \<Rightarrow> model \<Rightarrow> bool"
  and gsat :: "js_env \<Rightarrow> namespace \<Rightarrow> tables \<Rightarrow> string \<Rightarrow> string \<Rightarrow> condition list \<Rightarrow> model \<Rightarrow> bool" where
  "sat E ns T owner (FieldCondition f op vs) x \<longleftrightarrow> field_matches E (field_of x f) op vs = Inr True"
| "sat E ns T owner (GroupCondition m fo rt op os opt) x \<longleftrightarrow>
     (case fo of None \<Rightarrow> gsat E ns T m op os x
      | Some field \<Rightarrow> list_ex (gsat E ns T m op os) (joined_records ns T owner field x))"
| "gsat E ns T m op os x \<longleftrightarrow>
     (if op = ''or'' then list_ex (\<lambda>c. sat E ns T m c x) os
      else if op = ''and'' then list_all (\<lambda>c. sat E ns T m c x) os
      else \<not> list_ex (\<lambda>c. sat E ns T m c x) os)"

declare gsat.simps [simp del] group_matches.simps [simp del]

section \<open>Conditions a storage can answer\<close>

text \<open>
  The fields of the join have plain names; the records on the local side hold \<open>null\<close> rather than nothing
  in them, the storage can answer the query of the getter, and a relation that is not \<open>HAS_MANY\<close> joins at most one record.
\<close>

definition join_node_for :: "relationship_of \<Rightarrow> model \<Rightarrow> past" where
  "join_node_for r x = PGroup ''and'' (map (\<lambda>i. PField (name_at (remoteJoinFields r) i) ''eq''
     (null_if_undefined (field_of x (name_at (localJoinFields r) i)))) [0..<length (remoteJoinFields r)])"

definition join_ok :: "namespace \<Rightarrow> tables \<Rightarrow> (string \<Rightarrow> past \<Rightarrow> bool) \<Rightarrow> string \<Rightarrow> string \<Rightarrow> string \<Rightarrow> string option \<Rightarrow> bool" where
  "join_ok ns T adm owner field m rt \<longleftrightarrow>
     (case relation_of ns owner field of
        None \<Rightarrow> False
      | Some r \<Rightarrow> remoteName r = m \<and> rt = Some (rel_type r) \<and>
          length (localJoinFields r) = length (remoteJoinFields r) \<and>
          list_all plain_name (localJoinFields r) \<and> list_all plain_name (remoteJoinFields r) \<and>
          list_all (\<lambda>x. list_all (\<lambda>f. field_of x f \<noteq> JUndefined) (localJoinFields r)) (T owner) \<and>
          list_all (\<lambda>x. adm m (join_node_for r x)) (T owner) \<and>
          (rel_type r \<noteq> ''HAS_MANY'' \<longrightarrow> list_all (\<lambda>x. length (filter (joined r x) (T m)) \<le> 1) (T owner)))"

text \<open>
  \<open>negate\<close> says whether the condition stands under a negation: then the values must be of a kind on which
  the reversed operator is the opposite, and there is no relationship. A group that acts as an \<open>or\<close> is not
  empty, and \<open>not\<close> has one group.
\<close>

fun cond_ok :: "namespace \<Rightarrow> tables \<Rightarrow> (string \<Rightarrow> past \<Rightarrow> bool) \<Rightarrow> bool \<Rightarrow> string \<Rightarrow> condition \<Rightarrow> bool" where
  "cond_ok ns T adm negate owner (FieldCondition f op vs) \<longleftrightarrow>
     plain_name f \<and> operand_count op vs \<and> list_all (\<lambda>x. value_ok negate (field_of x f) op vs) (T owner)"
| "cond_ok ns T adm negate owner (GroupCondition m fo rt op os opt) \<longleftrightarrow>
     (op = ''not'' \<and> length os = 1 \<and> \<not> is_field (hd os) \<or>
      op = ''and'' \<and> (negate \<longrightarrow> os \<noteq> []) \<or> op = ''or'' \<and> (\<not> negate \<longrightarrow> os \<noteq> [])) \<and>
     (filter is_field os \<noteq> [] \<longrightarrow> adm m (node_of (withFieldConditionsOnly m op os negate))) \<and>
     (case fo of None \<Rightarrow> m = owner | Some field \<Rightarrow> \<not> negate \<and> join_ok ns T adm owner field m rt) \<and>
     (\<forall>c \<in> set os. cond_ok ns T adm (negate \<noteq> (op = ''not'')) m c)"

fun flagged :: "condition \<Rightarrow> bool" where
  "flagged (FieldCondition f op vs) \<longleftrightarrow> True"
| "flagged (GroupCondition m fo rt op os opt) \<longleftrightarrow> opt \<and> (\<forall>c \<in> set os. flagged c)"

lemma flagged_optimized: "flagged (optimized p c)"
proof (induction p c rule: optimized.induct)
  case (2 p m f rt op os opt)
  let ?os = "map (optimized (op = ''not'')) os"
  have os: "\<forall>c \<in> set ?os. flagged c" using 2 by auto
  show ?case
  proof (cases "length ?os = 1")
    case True
    then obtain o1 where o1: "?os = [o1]" by (metis length_0_conv length_Suc_conv One_nat_def)
    with os have "flagged o1" by simp
    with o1 os show ?thesis by (cases o1) (auto simp: Let_def)
  qed (use os in \<open>simp add: Let_def\<close>)
qed simp

section \<open>The storage\<close>

locale predicate_storage =
  fixes E :: js_env and inv :: "'s \<Rightarrow> bool" and tables_of :: "'s \<Rightarrow> tables" and query :: "'s \<Rightarrow> storage_query"
    and adm :: "'s \<Rightarrow> string \<Rightarrow> past \<Rightarrow> bool"
  assumes query_all: "inv s \<Longrightarrow> \<exists>rows. query s m None = Inr rows \<and> set rows = set (tables_of s m)"
    and query_pred: "inv s \<Longrightarrow> adm s m (PGroup ty ps) \<Longrightarrow> ty = ''and'' \<or> ty = ''or'' \<Longrightarrow>
      (\<And>x. x \<in> set (tables_of s m) \<Longrightarrow> validatePredicate E x ty ps = Inr (P x)) \<Longrightarrow>
      \<exists>rows. query s m (Some (PGroup ty ps)) = Inr rows \<and> set rows = {x \<in> set (tables_of s m). P x}"
    and adm_groups: "inv s \<Longrightarrow> (\<And>p. p \<in> set ps \<Longrightarrow> \<not> isPredicateObj p) \<Longrightarrow> adm s m (PGroup ty ps)"

text \<open>Facts that do not depend on the storage.\<close>

lemma validate_group:
  assumes "\<And>p. p \<in> set ps \<Longrightarrow> validate_one E x p = Inr (P p)" and "ty = ''and'' \<or> ty = ''or'' \<and> ps \<noteq> []"
  shows "validatePredicate E x ty ps = Inr (if ty = ''and'' then list_all P ps else list_ex P ps)"
  using assms by (auto simp: validate_every_ok validate_some_ok)

definition join_node :: "relationship_of \<Rightarrow> model \<Rightarrow> past" where
  "join_node r y = PGroup ''and'' (map (\<lambda>i. PField (name_at (localJoinFields r) i) ''eq''
     (field_of y (name_at (remoteJoinFields r) i))) [0..<length (localJoinFields r)])"

lemma join_predicate_node:
  assumes "list_all plain_name (localJoinFields r)"
  shows "join_predicate r ys = Inr (PGroup ''or'' (map (join_node r) ys))"
  unfolding join_predicate_def
proof (rule transform_group_list)
  have "transformGraphQLFilterNodeToPredicateAST (join_condition r y) = Inr (join_node r y)" for y
    unfolding join_condition_def join_node_def
  proof (rule transform_group_list)
    have "plain_name (name_at (localJoinFields r) i)" if "i < length (localJoinFields r)" for i
      using that assms by (simp add: name_at_def list_all_length)
    then show "list_all2 (\<lambda>g p. (\<exists>k x. g = JObj [(k, x)]) \<and> transformGraphQLFilterNodeToPredicateAST g = Inr p)
      (map (\<lambda>i. JObj [(name_at (localJoinFields r) i, JObj [(''eq'', field_of y (name_at (remoteJoinFields r) i))])])
        [0..<length (localJoinFields r)])
      (map (\<lambda>i. PField (name_at (localJoinFields r) i) ''eq'' (field_of y (name_at (remoteJoinFields r) i)))
        [0..<length (localJoinFields r)])"
      by (auto simp: list.rel_map comparisonKeys_def intro!: list.rel_refl_strong transform_leaf
          simp del: transformGraphQLFilterNodeToPredicateAST.simps)
  qed (simp add: groupKeys_def)
  moreover have "\<exists>k x. join_condition r y = JObj [(k, x)]" for y by (simp add: join_condition_def)
  ultimately show "list_all2 (\<lambda>g p. (\<exists>k x. g = JObj [(k, x)]) \<and> transformGraphQLFilterNodeToPredicateAST g = Inr p)
      (map (join_condition r) ys) (map (join_node r) ys)"
    by (auto simp: list.rel_map intro!: list.rel_refl_strong simp del: transformGraphQLFilterNodeToPredicateAST.simps)
qed (simp add: groupKeys_def)

lemma validate_join_node: "validate_one E x (join_node r y) = Inr (joined r x y)"
proof -
  let ?ps = "map (\<lambda>i. PField (name_at (localJoinFields r) i) ''eq'' (field_of y (name_at (remoteJoinFields r) i)))
     [0..<length (localJoinFields r)]"
  have "validate_every E x ?ps = Inr (list_all (\<lambda>p. validate_one E x p = Inr True) ?ps)"
    by (rule validate_every_ok) (auto simp: validatePredicateField_def)
  moreover have "list_all (\<lambda>p. validate_one E x p = Inr True) ?ps \<longleftrightarrow> joined r x y"
    by (auto simp: joined_def list_all_iff validatePredicateField_def)
  ultimately show ?thesis
    by (cases "?ps = []") (simp_all add: join_node_def joined_def)
qed

lemma validate_fields:
  assumes "\<And>c. c \<in> set os \<Longrightarrow> cond_ok ns T adm negate owner c" and "x \<in> set (T owner)" and "c \<in> set (filter is_field os)"
  shows "validate_one E x (node_of (negate_operand m negate c)) = Inr (negate \<noteq> sat E ns T owner c x)"
proof -
  have "is_field c" using assms(3) by simp
  then obtain f op vs where c: "c = FieldCondition f op vs" by (cases c) auto
  have "c \<in> set os" using assms(3) by simp
  from assms(1) [OF this] have *: "operand_count op vs" "value_ok negate (field_of x f) op vs"
    using assms(2) by (auto simp: list_all_iff c)
  show ?thesis
  proof (cases negate)
    case True
    with * negative_field [of op vs x f E m] show ?thesis by (auto simp: c negate_operand_def)
  next
    case False
    with * positive_field [of op vs "field_of x f" E] show ?thesis by (auto simp: c negate_operand_def)
  qed
qed

lemma ast_wf_fields:
  assumes "\<And>c. c \<in> set os \<Longrightarrow> cond_ok ns T adm negate owner c" and "op \<in> set groupKeys" and "op \<noteq> ''not''"
  shows "ast_wf (withFieldConditionsOnly m op os negate)"
proof -
  have "ast_wf (negate_operand m negate c)" if in_os: "c \<in> set os" and fld: "is_field c" for c
  proof -
    obtain f op' vs where c: "c = FieldCondition f op' vs" using fld by (cases c) auto
    then have *: "plain_name f" "op' \<in> set comparisonKeys" using assms(1) [OF in_os] by (auto simp: operand_count_def)
    show ?thesis
    proof (cases negate)
      case True
      have "ast_wf (negated_field m f op' vs)"
        using *(2) by (cases op' rule: comparisonKeys_cases)
          (simp_all add: negated_field_def *(1) groupKeys_def comparisonKeys_def)
      with True show ?thesis by (simp add: negate_operand_def c)
    qed (use * in \<open>simp add: negate_operand_def c\<close>)
  qed
  then show ?thesis
    using assms(2,3) by (auto simp: withFieldConditionsOnly_def Let_def groupKeys_def)
qed

lemma node_of_fields:
  assumes "op = ''and'' \<or> op = ''or''"
  shows "node_of (withFieldConditionsOnly m op os negate)
    = PGroup (if negate then negation op else op) (map (\<lambda>c. node_of (negate_operand m negate c)) (filter is_field os))"
  using assms by (auto simp: withFieldConditionsOnly_def Let_def comp_def)

section \<open>Fetching\<close>

abbreviation fetched :: "js_env \<Rightarrow> namespace \<Rightarrow> tables \<Rightarrow> bool \<Rightarrow> string \<Rightarrow> condition list \<Rightarrow> string \<Rightarrow> model set" where
  "fetched E ns T negate op os m \<equiv> {x \<in> set (T m). negate \<noteq> gsat E ns T m op os x}"

text \<open>What a child adds to its group.\<close>

abbreviation contributes :: "js_env \<Rightarrow> namespace \<Rightarrow> tables \<Rightarrow> bool \<Rightarrow> string \<Rightarrow> condition \<Rightarrow> model set" where
  "contributes E ns T negate m c \<equiv> {x \<in> set (T m). negate \<noteq> sat E ns T m c x}"

definition effective :: "bool \<Rightarrow> string \<Rightarrow> string" where
  "effective negate op = (if negate then negation op else op)"

lemma fetched_children:
  assumes "op = ''not'' \<and> length os = 1 \<or> op = ''and'' \<or> op = ''or''"
  shows "fetched E ns T negate op os m = {x \<in> set (T m).
    if effective negate op = ''and'' then \<forall>c \<in> set os. x \<in> contributes E ns T (negate \<noteq> (op = ''not'')) m c
    else \<exists>c \<in> set os. x \<in> contributes E ns T (negate \<noteq> (op = ''not'')) m c}"
proof (intro Collect_cong conj_cong refl)
  fix x assume x: "x \<in> set (T m)"
  let ?child = "\<lambda>c. x \<in> contributes E ns T (negate \<noteq> (op = ''not'')) m c"
  have child: "?child c \<longleftrightarrow> (negate \<noteq> (op = ''not'')) \<noteq> sat E ns T m c x" for c using x by simp
  from assms consider c where "op = ''not''" "os = [c]" | "op = ''and''" | "op = ''or''"
    by (auto simp: length_Suc_conv)
  then show "(negate \<noteq> gsat E ns T m op os x) = (if effective negate op = ''and'' then \<forall>c \<in> set os. ?child c else \<exists>c \<in> set os. ?child c)"
    unfolding child
    by cases (cases negate; simp add: gsat.simps effective_def list_all_iff list_ex_iff)+
qed

lemma list_all2_image: "list_all2 (\<lambda>g rows. h rows = F g) gs groups \<Longrightarrow> h ` set groups = F ` set gs"
  by (induction rule: list_all2_induct) auto

lemma image_quantifiers:
  assumes "h ` A = F ` B"
  shows "(\<forall>a \<in> A. x \<in> h a) \<longleftrightarrow> (\<forall>b \<in> B. x \<in> F b)" and "(\<exists>a \<in> A. x \<in> h a) \<longleftrightarrow> (\<exists>b \<in> B. x \<in> F b)"
proof -
  have "(\<forall>a \<in> A. x \<in> h a) \<longleftrightarrow> (\<forall>X \<in> h ` A. x \<in> X)" by simp
  then show "(\<forall>a \<in> A. x \<in> h a) \<longleftrightarrow> (\<forall>b \<in> B. x \<in> F b)" unfolding assms by simp
  have "(\<exists>a \<in> A. x \<in> h a) \<longleftrightarrow> (\<exists>X \<in> h ` A. x \<in> X)" by simp
  then show "(\<exists>a \<in> A. x \<in> h a) \<longleftrightarrow> (\<exists>b \<in> B. x \<in> F b)" unfolding assms by simp
qed

declare fetch.simps [simp del]

context predicate_storage
begin

lemma join_rows:
  assumes "inv s" and "join_ok ns (tables_of s) (adm s) m field m' rt"
    and "set relatives = fetched E ns (tables_of s) False op os m'" and "relatives \<noteq> []"
  shows "\<exists>rows. join_relatives ns (query s) m field relatives = Inr rows \<and>
    set rows = contributes E ns (tables_of s) False m (GroupCondition m' (Some field) rt op os opt)"
proof -
  let ?T = "tables_of s"
  obtain r where r: "relation_of ns m field = Some r" using assms(2) by (auto simp: join_ok_def split: option.splits)
  then have rn: "remoteName r = m'" "list_all plain_name (localJoinFields r)" using assms(2) by (auto simp: join_ok_def)
  from r have rel: "(case map_of ns m of None \<Rightarrow> Inr None | Some sm \<Rightarrow> rel_from ns sm field) = Inr (Some r)"
    by (auto simp: relation_of_def split: option.splits sum.splits)
  have "adm s m (PGroup ''or'' (map (join_node r) relatives))"
    by (rule adm_groups [OF assms(1)]) (auto simp: join_node_def PGroup_def)
  moreover have "validatePredicate E x ''or'' (map (join_node r) relatives) = Inr (list_ex (joined r x) relatives)" for x
  proof -
    have "validate_some E x (map (join_node r) relatives)
        = Inr (list_ex (\<lambda>p. validate_one E x p = Inr True) (map (join_node r) relatives))"
      by (rule validate_some_ok) (auto simp only: set_map image_iff validate_join_node)
    then show ?thesis using assms(4) by (simp add: list_ex_iff validate_join_node)
  qed
  ultimately obtain rows where rows: "query s m (Some (PGroup ''or'' (map (join_node r) relatives))) = Inr rows"
      "set rows = {x \<in> set (?T m). list_ex (joined r x) relatives}"
    using query_pred [OF assms(1), of m "''or''" "map (join_node r) relatives" "\<lambda>x. list_ex (joined r x) relatives"] by auto
  have "list_ex (joined r x) relatives \<longleftrightarrow> sat E ns ?T m (GroupCondition m' (Some field) rt op os opt) x" for x
    using assms(3) by (auto simp: list_ex_iff joined_records_def r rn)
  with rows show ?thesis
    by (simp add: join_relatives_def rel join_predicate_node [OF rn(2)])
qed

lemma group_rows:
  assumes "inv s" and "\<And>g. g \<in> set gs \<Longrightarrow> \<not> is_field g \<and> cond_ok ns (tables_of s) (adm s) negate m g"
    and "\<And>g. g \<in> set gs \<Longrightarrow> \<exists>rows. fetch ns (query s) g negate = Inr rows \<and>
      set rows = fetched E ns (tables_of s) negate (g_operator g) (g_operands g) (g_model g)"
  shows "(\<exists>groups. fetch_groups ns (query s) m operator negate gs = Inr (Some groups) \<and>
      list_all2 (\<lambda>g rows. set rows = contributes E ns (tables_of s) negate m g) gs groups)
    \<or> fetch_groups ns (query s) m operator negate gs = Inr None \<and> operator = ''and'' \<and>
      (\<exists>g \<in> set gs. contributes E ns (tables_of s) negate m g = {})"
  using assms(2,3)
proof (induction gs)
  case Nil
  then show ?case by simp
next
  case (Cons g gs)
  let ?T = "tables_of s"
  obtain m' fo rt op os opt where g: "g = GroupCondition m' fo rt op os opt"
    using Cons.prems(1) [of g] by (cases g) auto
  have ok: "cond_ok ns ?T (adm s) negate m g" using Cons.prems(1) by simp
  obtain relatives where rel: "fetch ns (query s) g negate = Inr relatives" "set relatives = fetched E ns ?T negate op os m'"
    using Cons.prems(2) [of g] by (auto simp: g)
  have empty: "contributes E ns ?T negate m g = {}" if "relatives = []"
  proof (cases fo)
    case None
    then show ?thesis using rel(2) that ok by (simp add: g)
  next
    case (Some field)
    have "y \<notin> set (?T m') \<or> \<not> gsat E ns ?T m' op os y" for y
      using rel(2) that ok Some by (auto simp: g)
    moreover have "set (joined_records ns ?T m field x) \<subseteq> set (?T m')" for x
      using ok Some by (auto simp: g join_ok_def joined_records_def split: option.splits)
    ultimately show ?thesis using ok Some by (auto simp: g list_ex_iff)
  qed
  have "\<exists>rows. (if relatives = [] then Inr [] else case g_field g of None \<Rightarrow> Inr relatives
      | Some field \<Rightarrow> join_relatives ns (query s) m field relatives) = Inr rows
    \<and> set rows = contributes E ns ?T negate m g"
  proof (cases "relatives = []")
    case True
    then show ?thesis using empty by simp
  next
    case False
    show ?thesis
    proof (cases fo)
      case None
      then show ?thesis using False rel(2) ok by (simp add: g)
    next
      case (Some field)
      then have "\<not> negate" "join_ok ns ?T (adm s) m field m' rt" using ok by (auto simp: g)
      then show ?thesis
        using join_rows [OF assms(1), of ns m field m' rt relatives op os opt] rel(2) False Some by (simp add: g)
    qed
  qed
  then obtain rows where rows: "(if relatives = [] then Inr [] else case g_field g of None \<Rightarrow> Inr relatives
      | Some field \<Rightarrow> join_relatives ns (query s) m field relatives) = Inr rows"
    "set rows = contributes E ns ?T negate m g" by blast
  show ?case
  proof (cases "relatives = [] \<and> operator = ''and''")
    case True
    then show ?thesis using rel empty by simp
  next
    case False
    have step: "fetch_groups ns (query s) m operator negate (g # gs)
        = sbind (fetch_groups ns (query s) m operator negate gs) (\<lambda>groups. Inr (map_option (Cons rows) groups))"
      by (simp only: fetch_groups.simps rel(1) sbind_simps rows(1) False if_False)
    have "(\<exists>groups. fetch_groups ns (query s) m operator negate gs = Inr (Some groups) \<and>
      list_all2 (\<lambda>g rows. set rows = contributes E ns ?T negate m g) gs groups)
    \<or> fetch_groups ns (query s) m operator negate gs = Inr None \<and> operator = ''and'' \<and>
      (\<exists>g \<in> set gs. contributes E ns ?T negate m g = {})"
      by (rule Cons.IH) (use Cons.prems in auto)
    then show ?thesis
    proof (elim disjE exE conjE)
      fix groups
      assume "fetch_groups ns (query s) m operator negate gs = Inr (Some groups)"
        "list_all2 (\<lambda>g rows. set rows = contributes E ns ?T negate m g) gs groups"
      with rows(2) have "fetch_groups ns (query s) m operator negate (g # gs) = Inr (Some (rows # groups)) \<and>
        list_all2 (\<lambda>g rows. set rows = contributes E ns ?T negate m g) (g # gs) (rows # groups)"
        unfolding step by simp
      then show ?thesis by blast
    next
      assume "fetch_groups ns (query s) m operator negate gs = Inr None" "operator = ''and''"
        "\<exists>g \<in> set gs. contributes E ns ?T negate m g = {}"
      then show ?thesis unfolding step by auto
    qed
  qed
qed

lemma field_rows:
  assumes "inv s" and "\<And>c. c \<in> set os \<Longrightarrow> cond_ok ns (tables_of s) (adm s) negate m c"
    and "op = ''and'' \<or> op = ''or''" and "filter is_field os \<noteq> []"
    and "adm s m (node_of (withFieldConditionsOnly m op os negate))"
  shows "\<exists>rows. sbind (toStoragePredicate (withFieldConditionsOnly m op os negate)) (\<lambda>p. query s m (Some p)) = Inr rows \<and>
    set rows = {x \<in> set (tables_of s m).
      if effective negate op = ''and'' then \<forall>c \<in> set (filter is_field os). x \<in> contributes E ns (tables_of s) negate m c
      else \<exists>c \<in> set (filter is_field os). x \<in> contributes E ns (tables_of s) negate m c}"
proof -
  let ?T = "tables_of s" and ?op = "effective negate op"
  let ?nodes = "map (\<lambda>c. node_of (negate_operand m negate c)) (filter is_field os)"
  have node: "node_of (withFieldConditionsOnly m op os negate) = PGroup ?op ?nodes"
    using node_of_fields [OF assms(3)] by (simp add: effective_def)
  have op: "?op = ''and'' \<or> ?op = ''or''" using assms(3) by (auto simp: effective_def)
  have AST: "toStoragePredicate (withFieldConditionsOnly m op os negate) = Inr (PGroup ?op ?nodes)"
    using assms(3) ast_wf_fields [OF assms(2), where op = op and m = m]
    unfolding node [symmetric] by (intro toStoragePredicate_node) (auto simp: groupKeys_def)
  define P where "P x = (if ?op = ''and'' then list_all (\<lambda>p. validate_one E x p = Inr True) ?nodes
    else list_ex (\<lambda>p. validate_one E x p = Inr True) ?nodes)" for x
  have one: "validate_one E x (node_of (negate_operand m negate c)) = Inr (negate \<noteq> sat E ns ?T m c x)"
    if "x \<in> set (?T m)" "c \<in> set (filter is_field os)" for x c
    using validate_fields [OF assms(2) that] by simp
  have "validatePredicate E x ?op ?nodes = Inr (P x)" if "x \<in> set (?T m)" for x
    unfolding P_def using op assms(4) one [OF that] by (intro validate_group) auto
  then obtain rows where "query s m (Some (PGroup ?op ?nodes)) = Inr rows" "set rows = {x \<in> set (?T m). P x}"
    using query_pred [OF assms(1) _ op, of m ?nodes P] assms(5) unfolding node by blast
  moreover have "P x \<longleftrightarrow> (if ?op = ''and'' then \<forall>c \<in> set (filter is_field os). x \<in> contributes E ns ?T negate m c
      else \<exists>c \<in> set (filter is_field os). x \<in> contributes E ns ?T negate m c)" if "x \<in> set (?T m)" for x
    using that one [OF that] by (auto simp: P_def list_all_iff list_ex_iff)
  ultimately show ?thesis by (auto simp: AST)
qed

lemma fetch_group_rows:
  assumes "inv s" and pk: "pk_unique (pkField ns m) (set (tables_of s m))"
    and ok: "cond_ok ns (tables_of s) (adm s) negate owner (GroupCondition m fo rt op os True)"
    and IH: "\<And>g. g \<in> set os \<Longrightarrow> \<not> is_field g \<Longrightarrow>
      \<exists>rows. fetch ns (query s) g (negate \<noteq> (op = ''not'')) = Inr rows \<and>
        set rows = fetched E ns (tables_of s) (negate \<noteq> (op = ''not'')) (g_operator g) (g_operands g) (g_model g)"
  shows "\<exists>rows. fetch ns (query s) (GroupCondition m fo rt op os True) negate = Inr rows \<and>
    set rows = fetched E ns (tables_of s) negate op os m"
proof -
  let ?T = "tables_of s" and ?R = "set (tables_of s m)" and ?op = "effective negate op"
  define neg' where "neg' = (negate \<noteq> (op = ''not''))"
  define gs where "gs = filter (\<lambda>c. \<not> is_field c) os"
  define fields where "fields = filter is_field os"
  let ?sat = "contributes E ns ?T neg' m"
  have child: "cond_ok ns ?T (adm s) neg' m c" if "c \<in> set os" for c using ok that by (simp add: neg'_def)
  have op: "op = ''not'' \<and> length os = 1 \<or> op = ''and'' \<or> op = ''or''" using ok by auto
  have eff: "?op = ''and'' \<or> ?op = ''or'' \<or> ?op = ''not''" using op by (auto simp: effective_def)
  have os: "set os = set gs \<union> set fields" by (auto simp: gs_def fields_def)
  have spec: "fetched E ns ?T negate op os m
      = {x \<in> ?R. if ?op = ''and'' then \<forall>c \<in> set os. x \<in> ?sat c else \<exists>c \<in> set os. x \<in> ?sat c}"
    unfolding neg'_def by (rule fetched_children [OF op])
  note unfold = fetch.simps(3) [of ns "query s" m fo rt op os negate, folded effective_def neg'_def gs_def fields_def, unfolded Let_def]
  have "(\<exists>groups. fetch_groups ns (query s) m ?op neg' gs = Inr (Some groups) \<and> list_all2 (\<lambda>g rows. set rows = ?sat g) gs groups)
    \<or> fetch_groups ns (query s) m ?op neg' gs = Inr None \<and> ?op = ''and'' \<and> (\<exists>g \<in> set gs. ?sat g = {})"
    by (rule group_rows [OF assms(1)]) (use child IH in \<open>auto simp: gs_def neg'_def\<close>)
  then show ?thesis
  proof (elim disjE exE conjE)
    assume "fetch_groups ns (query s) m ?op neg' gs = Inr None" "?op = ''and''" "\<exists>g \<in> set gs. ?sat g = {}"
    then show ?thesis unfolding spec unfold by (auto simp: os)
  next
    fix groups
    assume groups: "fetch_groups ns (query s) m ?op neg' gs = Inr (Some groups)" "list_all2 (\<lambda>g rows. set rows = ?sat g) gs groups"
    have len: "length groups = length gs" and in_groups: "set ` set groups = ?sat ` set gs"
      using list_all2_lengthD [OF groups(2)] list_all2_image [OF groups(2)] by simp_all
    have and_rows: "set (combine_groups ''and'' (pkField ns m) rs) = {x \<in> ?R. \<forall>g \<in> set rs. x \<in> set g}"
      if "\<forall>g \<in> set rs. set g \<subseteq> ?R" "rs \<noteq> []" for rs
      by (rule combine_and [OF pk that])
    have or_rows: "set (combine_groups ?op (pkField ns m) rs) = {x. \<exists>g \<in> set rs. x \<in> set g}"
      if "\<forall>g \<in> set rs. set g \<subseteq> ?R" "?op \<noteq> ''and''" for rs
      by (rule combine_or [OF pk]) (use that eff in auto)
    have sub: "\<forall>g \<in> set groups. set g \<subseteq> ?R"
    proof
      fix g assume "g \<in> set groups"
      then obtain c where "set g = ?sat c" using in_groups by blast
      then show "set g \<subseteq> ?R" by simp
    qed
    have member: "(\<forall>g \<in> set groups. x \<in> set g) \<longleftrightarrow> (\<forall>g \<in> set gs. x \<in> ?sat g)"
      "(\<exists>g \<in> set groups. x \<in> set g) \<longleftrightarrow> (\<exists>g \<in> set gs. x \<in> ?sat g)" for x
      using image_quantifiers [OF in_groups, of x] by simp_all
    show ?thesis
    proof (cases "fields = []")
      case False
      have nn: "op = ''and'' \<or> op = ''or''" using False ok by (auto simp: fields_def length_Suc_conv)
      then have n: "neg' = negate" by (auto simp: neg'_def)
      have adm: "adm s m (node_of (withFieldConditionsOnly m op os negate))"
        using ok False unfolding fields_def by (simp only: cond_ok.simps) blast
      obtain rows where rows: "sbind (toStoragePredicate (withFieldConditionsOnly m op os neg')) (\<lambda>p. query s m (Some p)) = Inr rows"
        "set rows = {x \<in> ?R. if ?op = ''and'' then \<forall>c \<in> set fields. x \<in> ?sat c else \<exists>c \<in> set fields. x \<in> ?sat c}"
        using field_rows [OF assms(1) child nn False [unfolded fields_def]] adm unfolding n fields_def by blast
      have rs: "\<forall>g \<in> set (groups @ [rows]). set g \<subseteq> ?R" using sub rows(2) by auto
      have "sbind (toStoragePredicate (withFieldConditionsOnly m op os neg')) (\<lambda>p. sbind (query s m (Some p)) (\<lambda>rows. Inr (groups @ [rows])))
          = Inr (groups @ [rows])"
        unfolding sbind_assoc [symmetric] rows(1) by simp
      then have "fetch ns (query s) (GroupCondition m fo rt op os True) negate = Inr (combine_groups ?op (pkField ns m) (groups @ [rows]))"
        unfolding unfold groups(1) using False by simp
      moreover have "set (combine_groups ?op (pkField ns m) (groups @ [rows])) = fetched E ns ?T negate op os m"
      proof (cases "?op = ''and''")
        case True
        show ?thesis unfolding spec using and_rows [OF rs] rows(2) member True by (auto simp: os)
      next
        case False
        show ?thesis unfolding spec or_rows [OF rs False] using rows(2) member False by (auto simp: os)
      qed
      ultimately show ?thesis by blast
    next
      case True
      show ?thesis
      proof (cases "gs = []")
        case no_gs: True
        then have "os = []" using True os by simp
        then have a: "?op = ''and''" using ok by (auto simp: effective_def)
        obtain rows where rows: "query s m None = Inr rows" "set rows = ?R" using query_all [OF assms(1)] by blast
        have "fetch ns (query s) (GroupCondition m fo rt op os True) negate = Inr (combine_groups ?op (pkField ns m) [rows])"
          using groups True no_gs rows(1) by (simp add: unfold)
        moreover have "set (combine_groups ?op (pkField ns m) [rows]) = fetched E ns ?T negate op os m"
          unfolding spec a using and_rows [of "[rows]"] rows(2) \<open>os = []\<close> by simp
        ultimately show ?thesis by blast
      next
        case False
        then have ne: "groups \<noteq> []" using len by auto
        then have "fetch ns (query s) (GroupCondition m fo rt op os True) negate = Inr (combine_groups ?op (pkField ns m) groups)"
          using groups(1) True by (simp add: unfold)
        moreover have "set (combine_groups ?op (pkField ns m) groups) = fetched E ns ?T negate op os m"
        proof (cases "?op = ''and''")
          case a: True
          show ?thesis unfolding spec using and_rows [OF sub ne] member a True by (auto simp: os)
        next
          case a: False
          show ?thesis unfolding spec or_rows [OF sub a] using member a True by (auto simp: os)
        qed
        ultimately show ?thesis by blast
      qed
    qed
  qed
qed

lemma fetch_rows:
  assumes "inv s" and pk: "\<And>m. pk_unique (pkField ns m) (set (tables_of s m))"
    and "cond_ok ns (tables_of s) (adm s) negate owner g" and "flagged g" and "\<not> is_field g"
  shows "\<exists>rows. fetch ns (query s) g negate = Inr rows \<and>
    set rows = fetched E ns (tables_of s) negate (g_operator g) (g_operands g) (g_model g)"
  using assms(3-5)
proof (induction g arbitrary: negate owner)
  case (GroupCondition m fo rt op os opt)
  have "\<exists>rows. fetch ns (query s) g (negate \<noteq> (op = ''not'')) = Inr rows \<and>
        set rows = fetched E ns (tables_of s) (negate \<noteq> (op = ''not'')) (g_operator g) (g_operands g) (g_model g)"
    if g: "g \<in> set os" "\<not> is_field g" for g
    by (rule GroupCondition.IH [OF g(1), of _ m]) (use GroupCondition.prems g in auto)
  moreover have "opt" using GroupCondition.prems(2) by simp
  ultimately show ?case
    using fetch_group_rows [OF assms(1) pk [of m], of negate owner fo rt op os] GroupCondition.prems(1)
    by (simp del: cond_ok.simps)
qed simp

end

section \<open>Matching\<close>

lemma entries_distinct:
  assumes "okeys idx" and "\<And>k x. (k, x) \<in> set idx \<Longrightarrow> k = f x"
  shows "distinct (map snd idx)"
proof -
  have "map f (map snd idx) = map fst idx" using assms(2) by auto
  then have "distinct (map f (map snd idx))" using assms(1) by (simp only: okeys_def)
  then show ?thesis by (simp only: distinct_map)
qed

lemma combine_distinct: "distinct (combine_groups operator pk groups)"
proof -
  have entry: "k = getPKValue pk x" if "(k, x) \<in> set (result_index pk items)" for k x items
    using that find_SomeD by (fastforce simp: okeys_map_of [OF result_index_okeys] result_index_get)
  have "okeys (fold (intersect_index pk) gs idx) \<and> (\<forall>(k, x) \<in> set (fold (intersect_index pk) gs idx). k = getPKValue pk x)"
    if "okeys idx" "\<forall>(k, x) \<in> set idx. k = getPKValue pk x" for gs idx
    using that
  proof (induction gs arbitrary: idx)
    case (Cons g gs)
    have "okeys (intersect_index pk g idx)" "\<forall>(k, x) \<in> set (intersect_index pk g idx). k = getPKValue pk x"
      using Cons.prems by (auto simp: intersect_index_def okeys_def distinct_map_filter)
    then show ?case using Cons.IH by simp
  qed simp
  then have "distinct (map snd (fold (intersect_index pk) gs (result_index pk g)))" for gs g
    using result_index_okeys [of pk g] entry [of _ _ g]
    by (intro entries_distinct [where f = "getPKValue pk"]) blast+
  moreover have "distinct (map snd (result_index pk items))" for items
    using result_index_okeys [of pk items] entry [of _ _ items] by (intro entries_distinct [where f = "getPKValue pk"]) blast+
  ultimately show ?thesis by (auto simp: combine_groups_def split: list.splits)
qed

lemma fetch_distinct: "fetch ns q (GroupCondition m fo rt op os True) negate = Inr rows \<Longrightarrow> distinct rows"
  by (auto simp: fetch.simps(3) Let_def sbind_eq_Inr combine_distinct split: option.splits)

lemma optimized_join_query:
  "optimized True (join_query r x) =
     GroupCondition (remoteName r) None None ''and''
       (if length (remoteJoinFields r) = 1
        then [FieldCondition (name_at (remoteJoinFields r) 0) ''eq'' [null_if_undefined (field_of x (name_at (localJoinFields r) 0))]]
        else [GroupCondition (remoteName r) None None ''and''
          (map (\<lambda>i. FieldCondition (name_at (remoteJoinFields r) i) ''eq''
             [null_if_undefined (field_of x (name_at (localJoinFields r) i))]) [0..<length (remoteJoinFields r)]) True]) True"
  by (simp add: join_query_def Let_def comp_def hd_map)

lemma joined_getter:
  assumes "length (localJoinFields r) = length (remoteJoinFields r)"
    and "list_all (\<lambda>f. field_of x f \<noteq> JUndefined) (localJoinFields r)"
  shows "joined r x y \<longleftrightarrow> list_all (\<lambda>i. strict_eq (field_of y (name_at (remoteJoinFields r) i))
      (null_if_undefined (field_of x (name_at (localJoinFields r) i)))) [0..<length (remoteJoinFields r)]"
proof -
  have "field_of x (name_at (localJoinFields r) i) \<noteq> JUndefined" if "i < length (localJoinFields r)" for i
    using that assms(2) by (simp add: name_at_def list_all_length)
  then show ?thesis
    using assms(1) by (auto simp: joined_def list_all_iff null_if_undefined_def strict_eq_def)
qed

context predicate_storage
begin

lemma join_query_ok:
  assumes "join_ok ns (tables_of s) (adm s) owner field m rt" and "relation_of ns owner field = Some r"
    and "x \<in> set (tables_of s owner)"
  shows "cond_ok ns (tables_of s) (adm s) False m (optimized True (join_query r x))"
proof -
  have r: "remoteName r = m" "list_all plain_name (remoteJoinFields r)" "adm s m (join_node_for r x)"
    using assms by (auto simp: join_ok_def list_all_iff)
  let ?c = "\<lambda>i. FieldCondition (name_at (remoteJoinFields r) i) ''eq'' [null_if_undefined (field_of x (name_at (localJoinFields r) i))]"
  let ?n = "length (remoteJoinFields r)"
  have fld: "cond_ok ns (tables_of s) (adm s) False m (?c i)" if "i < ?n" for i
    using that r(2) by (auto simp: name_at_def list_all_length operand_count_def comparisonKeys_def value_ok_def)
  have node: "node_of (withFieldConditionsOnly m ''and'' (map ?c [0..<?n]) False) = join_node_for r x"
    by (simp add: withFieldConditionsOnly_def Let_def negate_operand_def join_node_for_def ast_operand_def comp_def filter_True)
  show ?thesis
  proof (cases "?n = 1")
    case True
    then show ?thesis using fld [of 0] r(1,3) node by (simp add: optimized_join_query)
  next
    case False
    then show ?thesis using fld r(1,3) node by (simp add: optimized_join_query comp_def)
  qed
qed

lemma load_rows:
  assumes "inv s" and pk: "\<And>m. pk_unique (pkField ns m) (set (tables_of s m))"
    and ok: "join_ok ns (tables_of s) (adm s) owner field m rt" and x: "x \<in> set (tables_of s owner)"
  shows "\<exists>ys. set ys = set (joined_records ns (tables_of s) owner field x) \<and>
    (if rt = Some ''HAS_MANY'' then load_related ns (query s) owner x field = Inr (Items ys)
     else load_related ns (query s) owner x field = Inr (case ys of [] \<Rightarrow> NoItem | y # _ \<Rightarrow> OneItem y) \<and> length ys \<le> 1)"
proof -
  let ?T = "tables_of s"
  obtain r where r: "relation_of ns owner field = Some r" using ok by (auto simp: join_ok_def split: option.splits)
  then have rel: "(case map_of ns owner of None \<Rightarrow> Inr None | Some sm \<Rightarrow> rel_from ns sm field) = Inr (Some r)"
    by (auto simp: relation_of_def split: option.splits sum.splits)
  have o: "remoteName r = m" "rt = Some (rel_type r)" "length (localJoinFields r) = length (remoteJoinFields r)"
      "list_all (\<lambda>f. field_of x f \<noteq> JUndefined) (localJoinFields r)"
      "rel_type r \<noteq> ''HAS_MANY'' \<Longrightarrow> length (filter (joined r x) (?T m)) \<le> 1"
    using ok x by (auto simp: join_ok_def r list_all_iff)
  let ?q = "optimized True (join_query r x)"
  have "\<exists>rows. fetch ns (query s) ?q False = Inr rows \<and>
      set rows = fetched E ns ?T False (g_operator ?q) (g_operands ?q) (g_model ?q)"
    by (rule fetch_rows [OF assms(1) pk join_query_ok [OF ok r x] flagged_optimized]) (simp add: optimized_join_query)
  then obtain rows where rows: "fetch ns (query s) ?q False = Inr rows"
      "set rows = fetched E ns ?T False (g_operator ?q) (g_operands ?q) (g_model ?q)" by blast
  have "gsat E ns ?T m (g_operator ?q) (g_operands ?q) y \<longleftrightarrow> joined r x y" for y
    unfolding joined_getter [OF o(3,4)]
    by (auto simp: optimized_join_query gsat.simps list_all_iff field_matches_def Let_def)
  then have set_rows: "set rows = set (joined_records ns ?T owner field x)"
    using rows(2) by (auto simp: joined_records_def r o(1) optimized_join_query)
  have d: "distinct rows" using rows(1) by (auto simp: optimized_join_query intro: fetch_distinct)
  have q: "fetch ns (query s) (join_query r x) False = Inr rows"
    using rows(1) by (simp add: join_query_def fetch.simps(2))
  have len: "length rows \<le> 1" if "rel_type r \<noteq> ''HAS_MANY''"
  proof -
    have "card (set rows) \<le> length (filter (joined r x) (?T m))"
      using set_rows by (simp add: joined_records_def r o(1)) (metis card_length set_filter)
    then show ?thesis using d o(5) [OF that] by (simp add: distinct_card)
  qed
  show ?thesis
    using set_rows len by (cases "rel_type r = ''HAS_MANY''") (auto intro!: exI [of _ rows] simp: load_related_def rel q o(2))
qed

lemma matches_sat:
  assumes "inv s" and pk: "\<And>m. pk_unique (pkField ns m) (set (tables_of s m))"
    and "cond_ok ns (tables_of s) (adm s) negate owner c" and "x \<in> set (tables_of s owner)"
  shows "matches E (load_related ns (query s)) owner c x = Inr (sat E ns (tables_of s) owner c x)"
  using assms(3,4)
proof (induction c arbitrary: negate owner x)
  case (FieldCondition f op vs)
  then have *: "operand_count op vs" "value_ok negate (field_of x f) op vs" by (auto simp: list_all_iff)
  have "\<exists>b. field_matches E (field_of x f) op vs = Inr b"
  proof (cases negate)
    case True
    with * have "value_ok True (field_of x f) op vs" by simp
    from negative_field [OF *(1) this] show ?thesis by blast
  next
    case False
    with * have "value_ok False (field_of x f) op vs" by simp
    from positive_field [OF *(1) this] show ?thesis by blast
  qed
  then show ?case by auto
next
  case (GroupCondition m fo rt op os opt)
  let ?T = "tables_of s" and ?load = "load_related ns (query s)"
  have child: "matches E ?load m c y = Inr (sat E ns ?T m c y)" if "c \<in> set os" "y \<in> set (?T m)" for c y
    by (rule GroupCondition.IH [OF that(1), where negate = "negate \<noteq> (op = ''not'')"])
       (use GroupCondition.prems(1) that in simp_all)
  have op: "op = ''not'' \<and> length os = 1 \<or> op = ''and'' \<or> op = ''or''" using GroupCondition.prems(1) by auto
  have g: "group_matches E ?load m op os y = Inr (gsat E ns ?T m op os y)" if "y \<in> set (?T m)" for y
  proof -
    have sums: "sum_some (\<lambda>c. matches E ?load m c y) os = Inr (list_ex (\<lambda>c. sat E ns ?T m c y) os)"
      "sum_every (\<lambda>c. matches E ?load m c y) os = Inr (list_all (\<lambda>c. sat E ns ?T m c y) os)"
      by (rule sum_some_ok sum_every_ok; rule child; use that in simp)+
    from op consider c where "op = ''not''" "os = [c]" | "op = ''and''" | "op = ''or''"
      by (auto simp: length_Suc_conv)
    then show ?thesis by cases (simp_all add: sums gsat.simps group_matches.simps child that)
  qed
  show ?case
  proof (cases fo)
    case None
    then have "m = owner" using GroupCondition.prems(1) by simp
    then show ?thesis using GroupCondition.prems(2) g None by (simp)
  next
    case (Some field)
    then have ok: "join_ok ns ?T (adm s) owner field m rt" using GroupCondition.prems(1) by simp
    have sub: "set (joined_records ns ?T owner field x) \<subseteq> set (?T m)"
      using ok by (auto simp: join_ok_def joined_records_def split: option.splits)
    obtain ys where ys: "set ys = set (joined_records ns ?T owner field x)"
      "if rt = Some ''HAS_MANY'' then ?load owner x field = Inr (Items ys)
       else ?load owner x field = Inr (case ys of [] \<Rightarrow> NoItem | y # _ \<Rightarrow> OneItem y) \<and> length ys \<le> 1"
      using load_rows [OF assms(1) pk ok GroupCondition.prems(2)] by blast
    have sat: "sat E ns ?T owner (GroupCondition m fo rt op os opt) x \<longleftrightarrow> list_ex (gsat E ns ?T m op os) ys"
      using ys(1) by (simp add: Some list_ex_iff)
    have each: "group_matches E ?load m op os y = Inr (gsat E ns ?T m op os y)" if "y \<in> set ys" for y
      using that ys(1) sub g by auto
    show ?thesis
    proof (cases "rt = Some ''HAS_MANY''")
      case True
      have "sum_some (group_matches E ?load m op os) ys = Inr (list_ex (gsat E ns ?T m op os) ys)"
        by (rule sum_some_ok) (rule each)
      then show ?thesis unfolding sat using ys(2) True by (simp add: Some)
    next
      case False
      with ys(2) consider "ys = []" | y where "ys = [y]" by (cases ys) auto
      then show ?thesis unfolding sat using ys(2) False each
        by cases (simp_all add: Some)
    qed
  qed
qed

text \<open>What a query returns is what matches.\<close>

theorem fetch_matches:
  assumes "inv s" and pk: "\<And>m. pk_unique (pkField ns m) (set (tables_of s m))"
    and "same_owner m c" and "c = GroupCondition m None rt op os False"
    and ok: "cond_ok ns (tables_of s) (adm s) False m (optimized True c)"
  shows "\<exists>rows. fetch ns (query s) c False = Inr rows \<and> distinct rows \<and>
    set rows = {x \<in> set (tables_of s m). matches E (load_related ns (query s)) m c x = Inr True} \<and>
    (\<forall>x \<in> set (tables_of s m). \<exists>b. matches E (load_related ns (query s)) m c x = Inr b)"
proof -
  let ?c = "optimized True c"
  have c: "?c = GroupCondition m None rt op (map (optimized (op = ''not'')) os) True"
    by (simp add: assms(4) optimized_root)
  have "\<not> is_field ?c" by (simp add: c)
  from fetch_rows [OF assms(1) pk ok flagged_optimized this]
  obtain rows where rows: "fetch ns (query s) ?c False = Inr rows"
      "set rows = fetched E ns (tables_of s) False (g_operator ?c) (g_operands ?c) (g_model ?c)" by blast
  have m: "matches E (load_related ns (query s)) m c x = Inr (sat E ns (tables_of s) m ?c x)" if "x \<in> set (tables_of s m)" for x
    using matches_sat [OF assms(1) pk ok that] optimized_same [OF assms(3)] by simp
  have "fetch ns (query s) c False = Inr rows" using rows(1) by (simp add: assms(4) fetch.simps(2) optimized_root)
  moreover have "distinct rows" using rows(1) unfolding c by (rule fetch_distinct)
  moreover have "set rows = {x \<in> set (tables_of s m). matches E (load_related ns (query s)) m c x = Inr True}"
    using rows(2) m by (auto simp: c)
  ultimately show ?thesis using m by blast
qed

end

section \<open>Rewriting conditions\<close>

lemma copy_same: "matches E load owner (copy_condition c) x = matches E load owner c x"
proof (induction c arbitrary: owner x)
  case (GroupCondition m f rt op os opt)
  have g: "group_matches E load m op (map copy_condition os) = group_matches E load m op os"
    by (rule ext) (rule group_matches_map, simp add: GroupCondition.IH)
  show ?case by (simp only: copy_condition.simps matches.simps g)
qed simp

lemma copy_AST: "toAST (copy_condition c) = toAST c"
proof (induction c)
  case (GroupCondition m f rt op os opt)
  then have "sum_map toAST (map copy_condition os) = sum_map toAST os" by (induction os) auto
  then show ?case by simp
qed simp

text \<open>
  Copying a condition and optimising it keep what it means: on every item the evaluation gives the same
  answer, or throws the same error; a copy has the same tree for the storage, and every group of an optimised
  condition is marked as optimised.
\<close>

theorem condition_rewrites:
  assumes "same_owner owner c"
  shows "matches E load owner (optimized p c) x = matches E load owner c x \<and>
    matches E load owner (copy_condition c) x = matches E load owner c x \<and>
    toStoragePredicate (copy_condition c) = toStoragePredicate c \<and> flagged (optimized p c)"
  using optimized_same [OF assms] copy_same copy_AST flagged_optimized by (simp add: toStoragePredicate_def)

theorem condition_rewrites_witness:
  "matches demo_js (\<lambda>m x f. Inr NoItem) ''Post'' (optimized True (GroupCondition ''Post'' None None ''and''
     [FieldCondition ''id'' ''eq'' [JNull]] False)) [] =
   matches demo_js (\<lambda>m x f. Inr NoItem) ''Post'' (GroupCondition ''Post'' None None ''and''
     [FieldCondition ''id'' ''eq'' [JNull]] False) []"
  using condition_rewrites [of "''Post''" "GroupCondition ''Post'' None None ''and'' [FieldCondition ''id'' ''eq'' [JNull]] False"
      demo_js "\<lambda>m x f. Inr NoItem" True "[]"] by simp

end
