(* ===== verification/StorageAdapter.thy ===== *)
theory StorageAdapter
  imports AsyncStorageDb Conditions
begin

text \<open>
  The AsyncStorage adapter of DataStore (\<open>datastore/src/storage/adapter/StorageAdapterBase.ts\<close> and
  \<open>AsyncStorageAdapter.ts\<close>) over the database. A model instance is the record of its fields, which
  instantiating it again or copying it with an empty update keeps; the constructor of a model is its name,
  and the models of one namespace are the adapter's schema.
\<close>

record adapter_env =
  ae_js :: js_env
  ae_ulid :: "string \<Rightarrow> nat \<Rightarrow> string"
  ae_namespace :: string
  ae_models :: namespace
  ae_keys :: "(string \<times> model_keys) list"

definition getStorename :: "string \<Rightarrow> string \<Rightarrow> string" where
  "getStorename ns name = ns @ ''_'' @ name"

definition getStorenameForModel :: "adapter_env \<Rightarrow> string \<Rightarrow> string" where
  "getStorenameForModel A m = getStorename (ae_namespace A) m"

definition index_keys :: "adapter_env \<Rightarrow> string \<Rightarrow> string list" where
  "index_keys A m = getIndexKeys (ae_keys A) m"

definition getIndexKeyValuesFromModel :: "adapter_env \<Rightarrow> string \<Rightarrow> model \<Rightarrow> jsval list" where
  "getIndexKeyValuesFromModel A m x = extractPrimaryKeyValues x (index_keys A m)"

text \<open>\<open>Array.prototype.join\<close> with the separator of primary key values.\<close>

definition join_values :: "js_env \<Rightarrow> jsval list \<Rightarrow> string" where
  "join_values E vs = join ''#'' (map (\<lambda>v. if isNullOrUndefined v then [] else js_toString E v) vs)"

definition getIndexKeyValuesPath :: "adapter_env \<Rightarrow> string \<Rightarrow> model \<Rightarrow> string" where
  "getIndexKeyValuesPath A m x = join_values (ae_js A) (getIndexKeyValuesFromModel A m x)"

definition get_by_values :: "adapter_env \<Rightarrow> string \<Rightarrow> jsval list \<Rightarrow> asdb \<Rightarrow> model option" where
  "get_by_values A store keyArr db = db_get (join_values (ae_js A) keyArr) store db"

definition initDb :: "adapter_env \<Rightarrow> model kvs \<Rightarrow> asdb" where
  "initDb A kv = db_init (ae_ulid A) \<lparr>db_index = [], db_kv = kv, db_ulids = (\<lambda>_. 0)\<rparr>"

section \<open>Saving\<close>

text \<open>
  The traversal makes a copy of the instance with a function that does nothing and yields it with the name of its model; a list of
  one entry needs no sorting. The copy is taken to be the instance: the saves of this model are of instances on which the
  checks and conversions of a copy (\<open>ModelClass\<close>) change nothing, with every field of the schema and no JSON text that parses
  to a text (\<open>json_text_is_parsed_twice\<close> is the exception of the code). The same holds for the instances made of records that are read.
\<close>

definition traverseModel :: "string \<Rightarrow> model \<Rightarrow> (string \<times> model) list" where
  "traverseModel m x = [(m, x)]"

record connection =
  cn_store :: string
  cn_item :: model
  cn_keys :: "string list"

definition saveMetadata :: "adapter_env \<Rightarrow> string \<Rightarrow> model \<Rightarrow> string \<times> connection list \<times> jsval list" where
  "saveMetadata A m x =
     (getStorenameForModel A m,
      map (\<lambda>(name, item). \<lparr>cn_store = getStorename (ae_namespace A) name, cn_item = item, cn_keys = index_keys A name\<rparr>)
        (traverseModel m x),
      getIndexKeyValuesFromModel A m x)"

text \<open>A condition is a predicate AST; only a group has members to check.\<close>

definition validateSaveCondition :: "js_env \<Rightarrow> past option \<Rightarrow> model option \<Rightarrow> js_error + unit" where
  "validateSaveCondition E condition fromDB =
     (case (condition, fromDB) of
        (Some (PNode f op v ty (Some ps)), Some x) \<Rightarrow>
          sbind (validatePredicate E x (undefined_text ty) ps) (\<lambda>isValid.
            if isValid then Inr () else Inl (JsError ''Conditional update failed''))
      | (Some p, Some x) \<Rightarrow> Inl JsTypeError
      | _ \<Rightarrow> Inr ())"

definition same_values :: "jsval list \<Rightarrow> jsval list \<Rightarrow> bool" where
  "same_values vs ws \<longleftrightarrow> list_all2 strict_eq vs ws"

fun save_connections :: "adapter_env \<Rightarrow> jsval list \<Rightarrow> connection list \<Rightarrow> asdb \<Rightarrow> (model \<times> op_type) list \<times> asdb" where
  "save_connections A modelKeyValues [] db = ([], db)"
| "save_connections A modelKeyValues (c # cs) db =
     (let itemKeyValues = map (field_of (cn_item c)) (cn_keys c);
          opType = (if get_by_values A (cn_store c) itemKeyValues db \<noteq> None then UPDATE else INSERT)
      in if same_values itemKeyValues modelKeyValues \<or> opType = INSERT then
           (case save_connections A modelKeyValues cs
               (db_save (ae_ulid A) (cn_item c) (cn_store c) (cn_keys c) (join_values (ae_js A) itemKeyValues) db) of
              (result, db1) \<Rightarrow> ((cn_item c, opType) # result, db1))
         else save_connections A modelKeyValues cs db)"

definition a_save :: "adapter_env \<Rightarrow> string \<Rightarrow> model \<Rightarrow> past option \<Rightarrow> asdb \<Rightarrow> js_error + (model \<times> op_type) list \<times> asdb" where
  "a_save A m x condition db =
     (case saveMetadata A m x of (storeName, connections, modelKeyValues) \<Rightarrow>
       sbind (validateSaveCondition (ae_js A) condition (get_by_values A storeName modelKeyValues db)) (\<lambda>_.
         Inr (save_connections A modelKeyValues connections db)))"

text \<open>Every item is traversed and found again by its own key path.\<close>

definition batch_instance :: "adapter_env \<Rightarrow> string \<Rightarrow> model \<Rightarrow> js_error + model" where
  "batch_instance A m item =
     (case find (\<lambda>(name, x). keysEqual [getIndexKeyValuesPath A name x] [getIndexKeyValuesPath A m item]) (traverseModel m item) of
        None \<Rightarrow> Inl JsTypeError | Some (name, x) \<Rightarrow> Inr x)"

definition a_batchSave :: "adapter_env \<Rightarrow> string \<Rightarrow> model list \<Rightarrow> asdb \<Rightarrow> js_error + (model \<times> op_type) list \<times> asdb" where
  "a_batchSave A m items db =
     (if items = [] then Inr ([], db)
      else sbind (sum_map (batch_instance A m) items) (\<lambda>batch.
        Inr (db_batchSave (ae_js A) (ae_ulid A) (getStorename (ae_namespace A) m) batch (index_keys A m) db)))"

section \<open>Queries\<close>

definition key_equality :: "string \<Rightarrow> past \<Rightarrow> bool" where
  "key_equality key p = (case p of
     PNode (Some f) (Some op) v ty ps \<Rightarrow> f = key \<and> op = ''eq'' \<and> \<not> isNullOrUndefined v | _ \<Rightarrow> False)"

text \<open>The equalities are collected whatever the type of the group is.\<close>

definition keyValueFromPredicate :: "past list \<Rightarrow> string list \<Rightarrow> jsval list option" where
  "keyValueFromPredicate predicateObjs keyPath =
     (if length predicateObjs \<noteq> length keyPath then None
      else let keyValues = concat (map (\<lambda>key. case find (key_equality key) predicateObjs of
                 None \<Rightarrow> [] | Some p \<Rightarrow> [node_operand p]) keyPath)
           in if length keyValues = length keyPath then Some keyValues else None)"

text \<open>The group type and the members of a predicate; \<open>Some\<close> values as key give a query by key.\<close>

definition queryMetadata :: "adapter_env \<Rightarrow> string \<Rightarrow> past option \<Rightarrow>
    js_error + jsval list option \<times> (string \<times> past list) option" where
  "queryMetadata A m predicate =
     (case predicate of
        None \<Rightarrow> Inr (None, None)
      | Some (PNode f op v ty (Some ps)) \<Rightarrow> Inr (keyValueFromPredicate ps (index_keys A m), Some (undefined_text ty, ps))
      | Some p \<Rightarrow> Inl JsTypeError)"

definition filterOnPredicate :: "adapter_env \<Rightarrow> string \<Rightarrow> string \<Rightarrow> past list \<Rightarrow> asdb \<Rightarrow> js_error + model list" where
  "filterOnPredicate A storeName ty ps db =
     sum_filter (\<lambda>x. validatePredicate (ae_js A) x ty ps) (db_getAll storeName None db)"

definition has_sort :: "pagination option \<Rightarrow> bool" where
  "has_sort pg = (case pg of None \<Rightarrow> False | Some p \<Rightarrow> pg_sort p \<noteq> None)"

definition has_limit :: "pagination option \<Rightarrow> bool" where
  "has_limit pg = (case pg of None \<Rightarrow> False | Some p \<Rightarrow> or_zero (pg_limit p) \<noteq> 0)"

definition a_query :: "adapter_env \<Rightarrow> string \<Rightarrow> past option \<Rightarrow> pagination option \<Rightarrow> asdb \<Rightarrow> js_error + model list" where
  "a_query A m predicate pg db =
     sbind (queryMetadata A m predicate) (\<lambda>(queryByKey, predicates).
       let storeName = getStorenameForModel A m in
       case queryByKey of
         Some keyValues \<Rightarrow> Inr (case get_by_values A storeName keyValues db of None \<Rightarrow> [] | Some x \<Rightarrow> [x])
       | None \<Rightarrow>
           (case predicates of
              Some (ty, ps) \<Rightarrow> sbind (filterOnPredicate A storeName ty ps db) (\<lambda>filtered.
                Inr (inMemoryPagination (ae_js A) filtered pg))
            | None \<Rightarrow>
                if has_sort pg \<or> has_limit pg
                then Inr (inMemoryPagination (ae_js A) (db_getAll storeName None db) pg)
                else Inr (db_getAll storeName None db)))"

definition a_queryOne :: "adapter_env \<Rightarrow> string \<Rightarrow> bool \<Rightarrow> asdb \<Rightarrow> model option" where
  "a_queryOne A m isFirst db = db_getOne isFirst (getStorenameForModel A m) db"

definition adapter_query :: "adapter_env \<Rightarrow> asdb \<Rightarrow> storage_query" where
  "adapter_query A db m p = a_query A m p None db"

section \<open>Deleting\<close>

text \<open>
  The traversal collects the records of a cascade before anything is deleted. It follows the records, so it
  may never end; \<open>None\<close> is running out of \<open>fuel\<close>. A queue entry is the name of a model and its records,
  the store name being \<open>getStorename\<close> of that name.
\<close>

type_synonym delete_queue = "(string \<times> model list) list"

definition obind :: "('e + 'a) option \<Rightarrow> ('a \<Rightarrow> ('e + 'b) option) \<Rightarrow> ('e + 'b) option" where
  "obind x f = (case x of None \<Rightarrow> None | Some (Inl e) \<Rightarrow> Some (Inl e) | Some (Inr a) \<Rightarrow> f a)"

fun ofold :: "('b \<Rightarrow> 'a \<Rightarrow> ('e + 'a) option) \<Rightarrow> 'b list \<Rightarrow> 'a \<Rightarrow> ('e + 'a) option" where
  "ofold f [] acc = Some (Inr acc)"
| "ofold f (x # xs) acc = obind (f x acc) (ofold f xs)"

definition cascadingRelationTypes :: "string list" where
  "cascadingRelationTypes = [''HAS_ONE'', ''HAS_MANY'']"

definition cascading_relations :: "adapter_env \<Rightarrow> string \<Rightarrow> js_error + relationship_of list" where
  "cascading_relations A m =
     (case map_of (ae_models A) m of
        None \<Rightarrow> Inl JsTypeError
      | Some sm \<Rightarrow> sbind (allFrom (ae_models A) sm) (\<lambda>rs.
          Inr (filter (\<lambda>r. rel_type r \<in> set cascadingRelationTypes) rs)))"

text \<open>The related records of one record; \<open>None\<close> when the join values are not there.\<close>

definition relatedRecords :: "adapter_env \<Rightarrow> asdb \<Rightarrow> relationship_of \<Rightarrow> model \<Rightarrow> js_error + model list option" where
  "relatedRecords A db r x =
     (case createRemoteQueryObject r x of
        None \<Rightarrow> Inr None
      | Some queryObject \<Rightarrow> sbind (createFromFlatEqualities queryObject) (\<lambda>p.
          sbind (a_query A (remoteName r) (Some p) None db) (\<lambda>rows. Inr (Some rows))))"

fun deleteTraverse :: "adapter_env \<Rightarrow> asdb \<Rightarrow> nat \<Rightarrow> string \<Rightarrow> model list \<Rightarrow> delete_queue \<Rightarrow> (js_error + delete_queue) option" where
  "deleteTraverse A db 0 m models deleteQueue = None"
| "deleteTraverse A db (Suc fuel) m models deleteQueue =
     obind (ofold (\<lambda>x q. obind (Some (cascading_relations A m)) (\<lambda>relationships.
              ofold (\<lambda>r q'. obind (Some (relatedRecords A db r x)) (\<lambda>related. case related of
                       None \<Rightarrow> Some (Inr q')
                     | Some rows \<Rightarrow> deleteTraverse A db fuel (remoteName r) rows q')) relationships q))
            models deleteQueue)
       (\<lambda>q. Some (Inr (q @ [(m, models)])))"

text \<open>The items of a queue are instances, which are objects and know their model.\<close>

definition deleteItem :: "adapter_env \<Rightarrow> delete_queue \<Rightarrow> asdb \<Rightarrow> asdb" where
  "deleteItem A deleteQueue db =
     fold (\<lambda>(m, items) d. fold (\<lambda>x d'. db_delete (getIndexKeyValuesPath A m x) (getStorename (ae_namespace A) m) d') items d)
       deleteQueue db"

definition queue_items :: "delete_queue \<Rightarrow> (string \<times> model) list" where
  "queue_items q = concat (map (\<lambda>(m, items). map (Pair m) items) q)"

definition delete_all :: "adapter_env \<Rightarrow> nat \<Rightarrow> string \<Rightarrow> model list \<Rightarrow> asdb \<Rightarrow> (js_error + (model list \<times> (string \<times> model) list) \<times> asdb) option" where
  "delete_all A fuel m models db =
     obind (deleteTraverse A db fuel m models []) (\<lambda>q. Some (Inr ((models, queue_items q), deleteItem A q db)))"

text \<open>Deleting by constructor takes a predicate, deleting an instance a condition on the stored record.\<close>

definition a_delete_where :: "adapter_env \<Rightarrow> nat \<Rightarrow> string \<Rightarrow> past option \<Rightarrow> asdb \<Rightarrow>
    (js_error + (model list \<times> (string \<times> model) list) \<times> asdb) option" where
  "a_delete_where A fuel m condition db =
     obind (Some (a_query A m condition None db)) (\<lambda>models. delete_all A fuel m models db)"

definition a_delete :: "adapter_env \<Rightarrow> nat \<Rightarrow> string \<Rightarrow> model \<Rightarrow> past option \<Rightarrow> asdb \<Rightarrow>
    (js_error + (model list \<times> (string \<times> model) list) \<times> asdb) option" where
  "a_delete A fuel m x condition db =
     (case condition of
        None \<Rightarrow> delete_all A fuel m [x] db
      | Some p \<Rightarrow>
          (case get_by_values A (getStorenameForModel A m) (getIndexKeyValuesFromModel A m x) db of
             None \<Rightarrow> Some (Inr (([x], []), db))
           | Some fromDB \<Rightarrow> obind (Some (validateSaveCondition (ae_js A) (Some p) (Some fromDB)))
               (\<lambda>_. delete_all A fuel m [x] db)))"

definition a_clear :: "asdb \<Rightarrow> asdb" where
  "a_clear db = db_clear db"

end
