(* ===== verification/StorageFacade.thy ===== *)
theory StorageFacade
  imports StorageAdapter
begin

text \<open>
  \<open>StorageClass\<close> and \<open>ExclusiveStorage\<close> (\<open>datastore/src/storage/storage.ts\<close>) over the AsyncStorage adapter: they
  initialise the adapter on first use and publish every change as a message. The messages published so far
  stand for the subject \<open>pushStream\<close>, which delivers them as they come and nothing after its completion.
  Operations run one after the other, as the mutex makes them. An operation that throws keeps what it
  has changed before.
\<close>

type_synonym mutator = string

record message =
  msg_model :: string
  msg_opType :: op_type
  msg_element :: model
  msg_mutator :: "mutator option"
  msg_condition :: "past option"
  msg_savedElement :: "model option"

record storage =
  st_initialized :: bool
  st_setUp :: bool
  st_db :: asdb
  st_pushed :: "message list"
  st_completed :: bool

definition push :: "message \<Rightarrow> storage \<Rightarrow> storage" where
  "push msg st = (if st_completed st then st else st\<lparr>st_pushed := st_pushed st @ [msg]\<rparr>)"

definition newStorage :: "model kvs \<Rightarrow> storage" where
  "newStorage kv = \<lparr>st_initialized = False, st_setUp = False,
     st_db = \<lparr>db_index = [], db_kv = kv, db_ulids = (\<lambda>_. 0)\<rparr>, st_pushed = [], st_completed = False\<rparr>"

text \<open>The set-up of the adapter, which a second call skips until the adapter is cleared.\<close>

definition setUp :: "adapter_env \<Rightarrow> storage \<Rightarrow> storage" where
  "setUp A st = (if st_setUp st then st else st\<lparr>st_setUp := True, st_db := initDb A (db_kv (st_db st))\<rparr>)"

definition st_init :: "adapter_env \<Rightarrow> storage \<Rightarrow> storage" where
  "st_init A st = (if st_initialized st then st else setUp A (st\<lparr>st_initialized := True\<rparr>))"

section \<open>Mutation input\<close>

text \<open>The patches of an instance are the first components of their paths; the source is the instance before.\<close>

type_synonym patches = "string option list \<times> model"

definition patched_keys :: "schema_model \<Rightarrow> string \<Rightarrow> string list" where
  "patched_keys sm field =
     (case isTargetNameAssociation (Option.bind (map_of (sm_fields sm) field) mf_association) of
        None \<Rightarrow> [field] | Some (Inl t) \<Rightarrow> [t] | Some (Inr ts) \<Rightarrow> ts)"

text \<open>One changed key: its value, then all the fields of the composite keys it is part of.\<close>

definition put_original :: "model \<Rightarrow> string list \<Rightarrow> model \<Rightarrow> model" where
  "put_original orig fs acc = fold (\<lambda>f. AList.update f (field_of orig f)) fs acc"

definition put_changed :: "string list list \<Rightarrow> model \<Rightarrow> model \<Rightarrow> string \<Rightarrow> model \<Rightarrow> model" where
  "put_changed cks source orig key acc =
     (if valuesEqual False (field_of source key) (field_of orig key) then acc
      else fold (\<lambda>fieldSet a. if key \<in> set fieldSet then put_original orig fieldSet a else a) cks
             (AList.update key (null_if_undefined (field_of orig key)) acc))"

definition metadata_fields :: "string list" where
  "metadata_fields = [''id'', ''_version'', ''_lastChangedAt'', ''_deleted'']"

definition keys_of_model :: "adapter_env \<Rightarrow> string \<Rightarrow> string list \<times> string list list" where
  "keys_of_model A m = (case map_of (ae_keys A) m of
     None \<Rightarrow> ([], [])
   | Some k \<Rightarrow> (case primaryKey k of None \<Rightarrow> [] | Some pk \<Rightarrow> pk, case compositeKeys k of None \<Rightarrow> [] | Some ck \<Rightarrow> ck))"

definition getChangedFieldsInput :: "adapter_env \<Rightarrow> string \<Rightarrow> model \<Rightarrow> patches option \<Rightarrow> js_error + model option" where
  "getChangedFieldsInput A m orig patchesTuple =
     (case patchesTuple of
        None \<Rightarrow> Inr None
      | Some (updatedFields, source) \<Rightarrow>
          (case map_of (ae_models A) m of
             None \<Rightarrow> Inl JsTypeError
           | Some sm \<Rightarrow>
               (case keys_of_model A m of (pk, cks) \<Rightarrow>
                 let updated = fold (put_changed cks source orig)
                       (concat (map (\<lambda>f. patched_keys sm (undefined_text f)) updatedFields)) []
                 in Inr (if updated = [] then None
                         else Some (put_original orig metadata_fields (put_original orig pk updated))))))"

section \<open>Saving and deleting\<close>

text \<open>
  The messages of a save: none when no user field was changed, which for an instance without
  patches is always so; a save of the merger (with a \<open>mutator\<close>) publishes the stored element.
\<close>

fun save_messages :: "adapter_env \<Rightarrow> string \<Rightarrow> past option \<Rightarrow> mutator option \<Rightarrow> patches option \<Rightarrow>
    (model \<times> op_type) list \<Rightarrow> storage \<Rightarrow> (js_error + unit) \<times> storage" where
  "save_messages A m condition mutator patchesTuple [] st = (Inr (), st)"
| "save_messages A m condition mutator patchesTuple ((savedElement, opType) # rest) st =
     (case (if mutator \<noteq> None then Inr (Some savedElement)
            else if opType = UPDATE \<or> opType = INSERT then getChangedFieldsInput A m savedElement patchesTuple
            else Inr (Some savedElement)) of
        Inl e \<Rightarrow> (Inl e, st)
      | Inr None \<Rightarrow> save_messages A m condition mutator patchesTuple rest st
      | Inr (Some element) \<Rightarrow> save_messages A m condition mutator patchesTuple rest
          (push \<lparr>msg_model = m, msg_opType = opType, msg_element = element, msg_mutator = mutator,
                 msg_condition = condition, msg_savedElement = Some savedElement\<rparr> st))"

definition st_save :: "adapter_env \<Rightarrow> string \<Rightarrow> model \<Rightarrow> past option \<Rightarrow> mutator option \<Rightarrow> patches option \<Rightarrow> storage \<Rightarrow>
    (js_error + (model \<times> op_type) list) \<times> storage" where
  "st_save A m x condition mutator patchesTuple st =
     (let st1 = st_init A st in
      case a_save A m x condition (st_db st1) of
        Inl e \<Rightarrow> (Inl e, st1)
      | Inr (result, db) \<Rightarrow>
          (case save_messages A m condition mutator patchesTuple result (st1\<lparr>st_db := db\<rparr>) of
             (Inl e, st2) \<Rightarrow> (Inl e, st2)
           | (Inr _, st2) \<Rightarrow> (Inr result, st2)))"

text \<open>
  The condition is attached to the message of every deleted record that has the identifier of one of the
  models to delete, read with the definition of the deleted model.
\<close>

definition delete_message :: "js_env \<Rightarrow> schema_model \<Rightarrow> bool \<Rightarrow> model list \<Rightarrow> past option \<Rightarrow> mutator option \<Rightarrow> string \<times> model \<Rightarrow> message" where
  "delete_message E sm byInstance models condition mutator d =
     \<lparr>msg_model = fst d, msg_opType = DELETE, msg_element = snd d, msg_mutator = mutator,
      msg_condition = (if byInstance \<and> getIdentifierValue E sm (snd d) \<in> set (map (getIdentifierValue E sm) models)
        then condition else None),
      msg_savedElement = None\<rparr>"

definition st_delete :: "adapter_env \<Rightarrow> nat \<Rightarrow> string \<Rightarrow> model option \<Rightarrow> past option \<Rightarrow> mutator option \<Rightarrow> storage \<Rightarrow>
    ((js_error + model list \<times> (string \<times> model) list) \<times> storage) option" where
  "st_delete A fuel m inst condition mutator st =
     (let st1 = st_init A st in
      case (case inst of None \<Rightarrow> a_delete_where A fuel m condition (st_db st1)
            | Some x \<Rightarrow> a_delete A fuel m x condition (st_db st1)) of
        None \<Rightarrow> None
      | Some (Inl e) \<Rightarrow> Some (Inl e, st1)
      | Some (Inr ((models, deleted), db)) \<Rightarrow>
          (case map_of (ae_models A) m of
             None \<Rightarrow> Some (Inl JsTypeError, st1\<lparr>st_db := db\<rparr>)
           | Some sm \<Rightarrow> Some (Inr (models, deleted),
               fold (\<lambda>d. push (delete_message (ae_js A) sm (inst \<noteq> None) models condition mutator d)) deleted
                 (st1\<lparr>st_db := db\<rparr>))))"

definition st_query :: "adapter_env \<Rightarrow> string \<Rightarrow> past option \<Rightarrow> pagination option \<Rightarrow> storage \<Rightarrow> (js_error + model list) \<times> storage" where
  "st_query A m predicate pg st = (let st1 = st_init A st in (a_query A m predicate pg (st_db st1), st1))"

definition st_queryOne :: "adapter_env \<Rightarrow> string \<Rightarrow> bool \<Rightarrow> storage \<Rightarrow> model option \<times> storage" where
  "st_queryOne A m isFirst st = (let st1 = st_init A st in (a_queryOne A m isFirst (st_db st1), st1))"

definition st_batchSave :: "adapter_env \<Rightarrow> string \<Rightarrow> model list \<Rightarrow> mutator option \<Rightarrow> storage \<Rightarrow>
    (js_error + (model \<times> op_type) list) \<times> storage" where
  "st_batchSave A m items mutator st =
     (let st1 = st_init A st in
      case a_batchSave A m items (st_db st1) of
        Inl e \<Rightarrow> (Inl e, st1)
      | Inr (result, db) \<Rightarrow> (Inr result,
          fold (\<lambda>(element, opType). push \<lparr>msg_model = m, msg_opType = opType, msg_element = element, msg_mutator = mutator,
                  msg_condition = None, msg_savedElement = None\<rparr>) result (st1\<lparr>st_db := db\<rparr>)))"

definition st_clear :: "bool \<Rightarrow> storage \<Rightarrow> storage" where
  "st_clear completeObservable st =
     (let st1 = st\<lparr>st_initialized := False, st_setUp := False, st_db := a_clear (st_db st)\<rparr>
      in if completeObservable then st1\<lparr>st_completed := True\<rparr> else st1)"

section \<open>Observing\<close>

text \<open>
  Which messages an observer receives, without their mutator. A predicate is tested on the element of the message;
  it is ignored when everything is observed. \<open>Inl\<close> is an exception of the filter, which ends the subscription.
\<close>

definition observed :: "js_env \<Rightarrow> string option \<Rightarrow> past option \<Rightarrow> mutator option \<Rightarrow> message \<Rightarrow> js_error + bool" where
  "observed E modelConstructor predicate skipOwn msg =
     (if skipOwn \<noteq> None \<and> msg_mutator msg = skipOwn then Inr False
      else (case modelConstructor of
          None \<Rightarrow> Inr True
        | Some m \<Rightarrow>
            if m \<noteq> msg_model msg then Inr False
            else (case predicate of
                Some (PNode f op v (Some ty) (Some ps)) \<Rightarrow>
                  if ty \<noteq> [] then validatePredicate E (msg_element msg) ty ps else Inr True
              | _ \<Rightarrow> Inr True)))"

fun observe :: "js_env \<Rightarrow> string option \<Rightarrow> past option \<Rightarrow> mutator option \<Rightarrow> message list \<Rightarrow> message list \<times> js_error option" where
  "observe E modelConstructor predicate skipOwn [] = ([], None)"
| "observe E modelConstructor predicate skipOwn (msg # msgs) =
     (case observed E modelConstructor predicate skipOwn msg of
        Inl e \<Rightarrow> ([], Some e)
      | Inr b \<Rightarrow> (case observe E modelConstructor predicate skipOwn msgs of
          (xs, e) \<Rightarrow> (if b then msg\<lparr>msg_mutator := None\<rparr> # xs else xs, e)))"

section \<open>Exclusive storage\<close>

text \<open>Every operation is passed on under the mutex, except that a batch is saved outside it and without the mutator.\<close>

definition ex_batchSave :: "adapter_env \<Rightarrow> string \<Rightarrow> model list \<Rightarrow> mutator option \<Rightarrow> storage \<Rightarrow>
    (js_error + (model \<times> op_type) list) \<times> storage" where
  "ex_batchSave A m items mutator st = st_batchSave A m items None st"

definition ex_clear :: "storage \<Rightarrow> storage" where
  "ex_clear st = st_clear True st"

end
