(* ===== verification/StorageAdapterProofs.thy ===== *)
theory StorageAdapterProofs
  imports StorageAdapter AsyncStorageDbProofs DataStoreKeysProofs RelationshipProofs FetchProofs
begin

text \<open>
  The adapter as a storage of predicates: its queries return the records that satisfy the predicate, the
  interface \<open>predicate_storage\<close> on which \<open>fetch\<close> is correct. Then saving and the cascade of a deletion.
\<close>

section \<open>Well-formed storages\<close>

definition model_names :: "adapter_env \<Rightarrow> string set" where
  "model_names A = fst ` set (ae_models A)"

text \<open>Both readings of the primary key agree and give a key of several distinct fields.\<close>

definition env_ok :: "adapter_env \<Rightarrow> bool" where
  "env_ok A \<longleftrightarrow> ulids_ok (ae_ulid A) \<and> no_colon (ae_namespace A) \<and> fst ` set (ae_keys A) \<subseteq> model_names A \<and>
     (\<forall>m \<in> model_names A. no_colon m \<and> index_keys A m = pkField (ae_models A) m \<and>
        index_keys A m \<noteq> [] \<and> distinct (index_keys A m))"

definition key_text_value :: "jsval \<Rightarrow> bool" where
  "key_text_value v \<longleftrightarrow> (case v of JStr s \<Rightarrow> CHR ''#'' \<notin> set s | _ \<Rightarrow> False)"

definition keyed :: "adapter_env \<Rightarrow> string \<Rightarrow> model \<Rightarrow> bool" where
  "keyed A m x \<longleftrightarrow> list_all key_text_value (getIndexKeyValuesFromModel A m x)"

definition index_ok :: "collection \<Rightarrow> bool" where
  "index_ok c \<longleftrightarrow> distinct (map fst c) \<and> None \<notin> fst ` set c"

text \<open>Every record is stored under its own key path, which has strings without the separator; nothing else is stored.\<close>

definition storage_ok :: "adapter_env \<Rightarrow> asdb \<Rightarrow> bool" where
  "storage_ok A db \<longleftrightarrow> env_ok A \<and> asdb_ok db \<and>
     (\<forall>m. m \<notin> model_names A \<longrightarrow> collectionOf db (getStorenameForModel A m) = []) \<and>
     (\<forall>m \<in> model_names A. index_ok (collectionOf db (getStorenameForModel A m)) \<and>
        (\<forall>i x. db_get i (getStorenameForModel A m) db = Some x \<longrightarrow> i = getIndexKeyValuesPath A m x \<and> keyed A m x))"

definition table :: "adapter_env \<Rightarrow> asdb \<Rightarrow> string \<Rightarrow> model list" where
  "table A db m = db_getAll (getStorenameForModel A m) None db"

definition admissible :: "adapter_env \<Rightarrow> asdb \<Rightarrow> string \<Rightarrow> past \<Rightarrow> bool" where
  "admissible A db m p \<longleftrightarrow> (case p of
     PNode _ _ _ ty (Some ps) \<Rightarrow> (case keyValueFromPredicate ps (index_keys A m) of
         None \<Rightarrow> True | Some vs \<Rightarrow> ty = Some ''and'' \<and> m \<in> model_names A \<and> list_all key_text_value vs)
   | _ \<Rightarrow> True)"

lemma storename_no_colon: "env_ok A \<Longrightarrow> m \<in> model_names A \<Longrightarrow> no_colon (getStorenameForModel A m)"
  by (auto simp: env_ok_def no_colon_def getStorenameForModel_def getStorename_def)

lemma storename_inj [simp]: "getStorename ns m = getStorename ns m' \<longleftrightarrow> m = m'"
  by (simp add: getStorename_def)

lemma getAll_set:
  assumes "asdb_ok db" and "no_colon s" and "index_ok (collectionOf db s)"
  shows "set (db_getAll s None db) = {x. \<exists>i. db_get i s db = Some x}"
proof -
  have all: "db_getAll s None db = db_records s (collectionOf db s) db" using getAll_pages [of 1] by simp
  have entry: "(Some i, u) \<in> set (collectionOf db s) \<longleftrightarrow> map_of (collectionOf db s) (Some i) = Some u" for i u
    using assms(3) by (simp add: index_ok_def)
  have some: "\<exists>i. j = Some i" if "(j, u) \<in> set (collectionOf db s)" for j u
    using assms(3) that by (cases j) (force simp: index_ok_def)+
  have get: "db_get i s db = Some x \<longleftrightarrow> (\<exists>u. map_of (collectionOf db s) (Some i) = Some u \<and>
      dst_getItem (db_kv db) (getKeyForItem s (Some i) (Some u)) = Some x)" for i x
    using assms(1,2) by (cases "map_of (collectionOf db s) (Some i)") (auto simp: db_get_def asdb_ok_def)
  have "x \<in> set (db_records s (collectionOf db s) db) \<longleftrightarrow>
      (\<exists>j u. (j, u) \<in> set (collectionOf db s) \<and> dst_getItem (db_kv db) (getKeyForItem s j (Some u)) = Some x)" for x
    by (force simp: db_records_def split: option.splits)
  then show ?thesis unfolding all using some by (auto simp: get simp flip: entry) (metis some)
qed

lemma table_iff:
  assumes "storage_ok A db" and "m \<in> model_names A"
  shows "x \<in> set (table A db m) \<longleftrightarrow> db_get (getIndexKeyValuesPath A m x) (getStorenameForModel A m) db = Some x"
    and "x \<in> set (table A db m) \<Longrightarrow> keyed A m x"
  using assms getAll_set [of db "getStorenameForModel A m"] storename_no_colon [of A m]
  by (auto simp: storage_ok_def table_def)

lemma table_unknown: "storage_ok A db \<Longrightarrow> m \<notin> model_names A \<Longrightarrow> table A db m = []"
  using getAll_pages [of 1 "getStorenameForModel A m" db] by (auto simp: storage_ok_def table_def db_records_def)

lemma storage_env: "storage_ok A db \<Longrightarrow> env_ok A"
  by (simp add: storage_ok_def)

lemma index_keys_ok:
  assumes "env_ok A"
  shows "index_keys A m \<noteq> []" and "index_keys A m = pkField (ae_models A) m" and "distinct (index_keys A m)"
proof -
  have "index_keys A m \<noteq> [] \<and> index_keys A m = pkField (ae_models A) m \<and> distinct (index_keys A m)"
  proof (cases "m \<in> model_names A")
    case True
    then show ?thesis using assms unfolding env_ok_def by metis
  next
    case False
    then have "m \<notin> fst ` set (ae_keys A)" using assms by (auto simp: env_ok_def)
    then have "map_of (ae_keys A) m = None" by (simp add: map_of_eq_None_iff)
    moreover have "map_of (ae_models A) m = None" using False by (simp add: map_of_eq_None_iff model_names_def)
    ultimately show ?thesis
      by (simp add: index_keys_def getIndexKeys_def pkField_def extractPrimaryKeyFieldNames_def extractKeyIfExists_def)
  qed
  then show "index_keys A m \<noteq> []" "index_keys A m = pkField (ae_models A) m" "distinct (index_keys A m)" by blast+
qed

section \<open>Key values and paths\<close>

lemma key_text_valueD: "key_text_value v \<Longrightarrow> \<exists>s. v = JStr s \<and> CHR ''#'' \<notin> set s"
  by (cases v) (auto simp: key_text_value_def)

lemma join_values_inj:
  assumes "list_all key_text_value vs" and "list_all key_text_value ws" and "vs \<noteq> []" and "ws \<noteq> []"
  shows "join_values E vs = join_values E ws \<longleftrightarrow> vs = ws"
proof
  define t where "t v = (if isNullOrUndefined v then [] else js_toString E v)" for v
  have t: "CHR ''#'' \<notin> set (t v)" "JStr (t v) = v" if "key_text_value v" for v
    using key_text_valueD [OF that] by (auto simp: isNullOrUndefined_def t_def)
  have seps: "\<forall>k \<in> set (map t us). CHR ''#'' \<notin> set k" if "list_all key_text_value us" for us
    using that t(1) by (auto simp: list_all_iff)
  assume "join_values E vs = join_values E ws"
  then have "join [CHR ''#''] (map t vs) = join [CHR ''#''] (map t ws)" by (simp add: join_values_def t_def [abs_def])
  then have eq: "map t vs = map t ws"
    using join_inj [OF seps [OF assms(1)] seps [OF assms(2)]] assms(3,4) by simp
  have texts: "map JStr (map t us) = us" if "list_all key_text_value us" for us
    using that t(2) by (simp add: list_all_iff map_idI)
  show "vs = ws" using texts [OF assms(1)] texts [OF assms(2)] eq by metis
qed simp

text \<open>The values of a record, as a query by them finds it.\<close>

lemma get_by_values_iff:
  assumes ok: "storage_ok A db" and m: "m \<in> model_names A" and vs: "list_all key_text_value vs" "vs \<noteq> []"
  shows "get_by_values A (getStorenameForModel A m) vs db = Some x \<longleftrightarrow>
    x \<in> set (table A db m) \<and> getIndexKeyValuesFromModel A m x = vs"
proof -
  have ne: "getIndexKeyValuesFromModel A m x \<noteq> []"
    using index_keys_ok(1) [OF storage_env [OF ok]] by (simp add: getIndexKeyValuesFromModel_def extractPrimaryKeyValues_def)
  show ?thesis
  proof
    assume g: "get_by_values A (getStorenameForModel A m) vs db = Some x"
    then have "join_values (ae_js A) vs = getIndexKeyValuesPath A m x" "keyed A m x"
      using ok m by (auto simp: storage_ok_def get_by_values_def)
    then show "x \<in> set (table A db m) \<and> getIndexKeyValuesFromModel A m x = vs"
      using g join_values_inj [OF vs(1) _ vs(2) ne] table_iff(1) [OF ok m]
      by (auto simp: getIndexKeyValuesPath_def get_by_values_def keyed_def)
  next
    assume "x \<in> set (table A db m) \<and> getIndexKeyValuesFromModel A m x = vs"
    then show "get_by_values A (getStorenameForModel A m) vs db = Some x"
      using table_iff(1) [OF ok m] by (auto simp: get_by_values_def getIndexKeyValuesPath_def)
  qed
qed

lemma table_pk_unique: "storage_ok A db \<Longrightarrow> pk_unique (pkField (ae_models A) m) (set (table A db m))"
proof (cases "m \<in> model_names A")
  case True
  assume ok: "storage_ok A db"
  have pk: "getPKValue (pkField (ae_models A) m) x = getIndexKeyValuesFromModel A m x" if "keyed A m x" for x
    using that index_keys_ok(2) [OF storage_env [OF ok], of m]
    by (auto simp: getPKValue_def getIndexKeyValuesFromModel_def extractPrimaryKeyValues_def keyed_def list_all_iff
        key_text_value_def Let_def)
  show ?thesis unfolding pk_unique_def
  proof (rule inj_onI)
    fix x y assume xy: "x \<in> set (table A db m)" "y \<in> set (table A db m)"
      "getPKValue (pkField (ae_models A) m) x = getPKValue (pkField (ae_models A) m) y"
    then have "getIndexKeyValuesPath A m x = getIndexKeyValuesPath A m y"
      using pk table_iff(2) [OF ok True] by (simp add: getIndexKeyValuesPath_def)
    then show "x = y" using xy table_iff(1) [OF ok True] by simp
  qed
qed (simp add: table_unknown pk_unique_def)

section \<open>Queries\<close>

lemma key_equalityD: "key_equality k p \<Longrightarrow> \<exists>ty ps. p = PNode (Some k) (Some ''eq'') (node_operand p) ty ps"
  by (cases p) (auto simp: key_equality_def split: option.splits)

text \<open>A query by key: the members of the group are the equalities on the key fields, and nothing else.\<close>

lemma keyValueFromPredicate_Some:
  assumes "keyValueFromPredicate ps keys = Some vs" and "distinct keys"
  shows "length vs = length keys" and "set ps = (\<lambda>k. the (find (key_equality k) ps)) ` set keys"
    and "k \<in> set keys \<Longrightarrow> \<exists>p. find (key_equality k) ps = Some p"
    and "vs = map (\<lambda>k. node_operand (the (find (key_equality k) ps))) keys"
proof -
  let ?found = "\<lambda>k. case find (key_equality k) ps of None \<Rightarrow> [] | Some p \<Rightarrow> [node_operand p]"
  have len: "length ps = length keys" and vs: "vs = concat (map ?found keys)" "length vs = length keys"
    using assms(1) by (auto simp: keyValueFromPredicate_def Let_def split: if_splits)
  have short: "length (concat (map ?found ks)) \<le> length ks" for ks
  proof (induction ks)
    case (Cons k ks)
    then show ?case by (cases "find (key_equality k) ps") auto
  qed simp
  have all: "\<forall>k \<in> set ks. find (key_equality k) ps \<noteq> None" if "length (concat (map ?found ks)) = length ks" for ks
    using that
  proof (induction ks)
    case (Cons k ks)
    then show ?case using short [of ks] by (cases "find (key_equality k) ps") auto
  qed simp
  have found: "\<exists>p. find (key_equality k) ps = Some p" if "k \<in> set keys" for k
    using all [of keys] vs that by auto
  then show "k \<in> set keys \<Longrightarrow> \<exists>p. find (key_equality k) ps = Some p" .
  show "length vs = length keys" by (rule vs(2))
  have "concat (map ?found ks) = map (\<lambda>k. node_operand (the (find (key_equality k) ps))) ks" if "set ks \<subseteq> set keys" for ks
    using that by (induction ks) (auto dest!: found)
  then show "vs = map (\<lambda>k. node_operand (the (find (key_equality k) ps))) keys" using vs(1) by simp
  let ?p = "\<lambda>k. the (find (key_equality k) ps)"
  have in_ps: "?p k \<in> set ps \<and> key_equality k (?p k)" if "k \<in> set keys" for k
    using found [OF that] find_SomeD by fastforce
  have "inj_on ?p (set keys)"
  proof (rule inj_onI)
    fix k k' assume "k \<in> set keys" "k' \<in> set keys" "?p k = ?p k'"
    then show "k = k'" using in_ps [of k] in_ps [of k'] by (metis key_equalityD option.inject past.inject(1))
  qed
  then have "card (?p ` set keys) = length ps" using len assms(2) by (simp add: card_image distinct_card)
  moreover have "?p ` set keys \<subseteq> set ps" using in_ps by auto
  ultimately show "set ps = ?p ` set keys"
    by (metis List.finite_set card_length card_seteq)
qed

lemma validate_key_equality:
  "key_equality k p \<Longrightarrow> validate_one E x p = Inr (strict_eq (field_of x k) (node_operand p))"
  by (cases p) (auto simp: key_equality_def validatePredicateField_def split: option.splits)

lemma validate_by_key:
  assumes "keyValueFromPredicate ps keys = Some vs" and "distinct keys" and "keys \<noteq> []" and "list_all key_text_value vs"
  shows "validatePredicate E x ''and'' ps = Inr (map (field_of x) keys = vs)"
proof -
  let ?p = "\<lambda>k. the (find (key_equality k) ps)"
  note kv = keyValueFromPredicate_Some [OF assms(1,2)]
  have each: "validate_one E x (?p k) = Inr (strict_eq (field_of x k) (node_operand (?p k)))" if "k \<in> set keys" for k
  proof -
    have "key_equality k (?p k)" using kv(3) [OF that] find_SomeD by fastforce
    then show ?thesis by (rule validate_key_equality)
  qed
  have "validate_every E x ps = Inr (list_all (\<lambda>p. validate_one E x p = Inr True) ps)"
    by (rule validate_every_ok) (auto simp: kv(2) each)
  moreover have "list_all (\<lambda>p. validate_one E x p = Inr True) ps \<longleftrightarrow> (\<forall>k \<in> set keys. strict_eq (field_of x k) (node_operand (?p k)))"
    by (simp add: list_all_iff kv(2) each)
  moreover have "strict_eq (field_of x k) (node_operand (?p k)) \<longleftrightarrow> field_of x k = node_operand (?p k)" if "k \<in> set keys" for k
  proof -
    have "key_text_value (node_operand (?p k))" using assms(4) that by (simp add: list_all_iff kv(4))
    then show ?thesis by (auto simp: strict_eq_def dest!: key_text_valueD)
  qed
  ultimately have "validate_every E x ps = Inr (\<forall>k \<in> set keys. field_of x k = node_operand (?p k))" by simp
  moreover have "(\<forall>k \<in> set keys. field_of x k = node_operand (?p k)) \<longleftrightarrow> map (field_of x) keys = vs"
    unfolding kv(4) by auto
  moreover have "ps \<noteq> []" using kv(2) assms(3) by auto
  ultimately show ?thesis by simp
qed

lemma adapter_query_all: "adapter_query A db m None = Inr (table A db m)"
  by (simp add: adapter_query_def a_query_def queryMetadata_def table_def has_sort_def has_limit_def)

text \<open>A query returns the records that satisfy the predicate, in the order of the index.\<close>

lemma adapter_query_pred:
  assumes ok: "storage_ok A db" and adm: "admissible A db m (PGroup ty ps)"
    and P: "\<And>x. x \<in> set (table A db m) \<Longrightarrow> validatePredicate (ae_js A) x ty ps = Inr (P x)"
  shows "\<exists>rows. adapter_query A db m (Some (PGroup ty ps)) = Inr rows \<and> set rows = {x \<in> set (table A db m). P x}"
proof (cases "keyValueFromPredicate ps (index_keys A m)")
  case None
  have "sum_filter (\<lambda>x. validatePredicate (ae_js A) x ty ps) (table A db m) = Inr (filter P (table A db m))"
    by (rule sum_filter_ok) (rule P)
  then show ?thesis
    by (auto simp: adapter_query_def a_query_def queryMetadata_def PGroup_def None filterOnPredicate_def
        inMemoryPagination_def simp flip: table_def)
next
  case (Some vs)
  note keys = index_keys_ok [OF storage_env [OF ok], of m]
  have a: "ty = ''and''" "m \<in> model_names A" "list_all key_text_value vs"
    using adm by (auto simp: admissible_def PGroup_def Some)
  have "vs \<noteq> []" using keyValueFromPredicate_Some(1) [OF Some keys(3)] keys(1) by auto
  note by_key = get_by_values_iff [OF ok a(2,3) this]
  have "P x \<longleftrightarrow> getIndexKeyValuesFromModel A m x = vs" if "x \<in> set (table A db m)" for x
    using P [OF that] validate_by_key [OF Some keys(3,1) a(3), of "ae_js A" x]
    by (simp add: a(1) getIndexKeyValuesFromModel_def extractPrimaryKeyValues_def)
  then have "{x \<in> set (table A db m). P x} = {x. get_by_values A (getStorenameForModel A m) vs db = Some x}"
    using by_key by blast
  then show ?thesis
    by (cases "get_by_values A (getStorenameForModel A m) vs db")
      (auto simp: adapter_query_def a_query_def queryMetadata_def PGroup_def Some)
qed

text \<open>
  A query by key never looks at the type of its group: an \<open>or\<close> of equalities on all the key fields, or a
  \<open>not\<close>, returns what the \<open>and\<close> of them returns.
\<close>

lemma key_query_any_type:
  assumes ok: "storage_ok A db" and "m \<in> model_names A"
    and kv: "keyValueFromPredicate ps (index_keys A m) = Some vs" and "list_all key_text_value vs"
  shows "\<exists>rows. a_query A m (Some (PGroup ty ps)) pg db = Inr rows \<and>
    set rows = {x \<in> set (table A db m). validatePredicate (ae_js A) x ''and'' ps = Inr True}"
proof -
  note keys = index_keys_ok [OF storage_env [OF ok], of m]
  have "vs \<noteq> []" using keyValueFromPredicate_Some(1) [OF kv keys(3)] keys(1) by auto
  note by_key = get_by_values_iff [OF ok assms(2,4) this]
  have "{x \<in> set (table A db m). validatePredicate (ae_js A) x ''and'' ps = Inr True}
      = {x. get_by_values A (getStorenameForModel A m) vs db = Some x}"
    unfolding validate_by_key [OF kv keys(3,1) assms(4)] using by_key
    by (auto simp: getIndexKeyValuesFromModel_def extractPrimaryKeyValues_def)
  then show ?thesis
    by (cases "get_by_values A (getStorenameForModel A m) vs db") (auto simp: a_query_def queryMetadata_def PGroup_def kv)
qed

lemma admissible_groups:
  assumes "storage_ok A db" and "\<And>p. p \<in> set ps \<Longrightarrow> \<not> isPredicateObj p"
  shows "admissible A db m (PGroup ty ps)"
proof (cases "keyValueFromPredicate ps (index_keys A m)")
  case (Some vs)
  note keys = index_keys_ok [OF storage_env [OF assms(1)], of m]
  obtain k where k: "k \<in> set (index_keys A m)" using keys(1) by (cases "index_keys A m") auto
  then obtain p where "find (key_equality k) ps = Some p" using keyValueFromPredicate_Some(3) [OF Some keys(3)] by blast
  then have "p \<in> set ps" "key_equality k p" by (auto dest: find_SomeD)
  then have "p \<in> set ps \<and> isPredicateObj p" by (auto dest!: key_equalityD) (metis isPredicateObj.simps(1) option.distinct(1))
  then show ?thesis using assms(2) by blast
qed (simp add: admissible_def PGroup_def)

interpretation adapter: predicate_storage "ae_js A" "storage_ok A" "table A" "adapter_query A" "admissible A"
  by unfold_locales (auto simp: adapter_query_all intro: adapter_query_pred admissible_groups)

section \<open>What the operations keep\<close>

lemma index_ok_update: "index_ok c \<Longrightarrow> index_ok (AList.update (Some i) u c)"
  by (auto simp: index_ok_def distinct_update dom_update)

lemma index_ok_delete: "index_ok c \<Longrightarrow> index_ok (AList.delete i c)"
  by (auto simp: index_ok_def delete_keys distinct_removeAll simp flip: set_map)

lemma empty_storage: "env_ok A \<Longrightarrow> storage_ok A \<lparr>db_index = [], db_kv = [], db_ulids = n\<rparr>"
  by (simp add: storage_ok_def asdb_ok_def collectionOf_def dst_getItem_def db_get_def index_ok_def)

lemma path_iff:
  assumes "env_ok A" and "keyed A m x" and "keyed A m y"
  shows "getIndexKeyValuesPath A m x = getIndexKeyValuesPath A m y \<longleftrightarrow>
    getIndexKeyValuesFromModel A m x = getIndexKeyValuesFromModel A m y"
  unfolding getIndexKeyValuesPath_def
  using assms index_keys_ok(1) [OF assms(1), of m]
  by (intro join_values_inj) (auto simp: keyed_def getIndexKeyValuesFromModel_def extractPrimaryKeyValues_def)

text \<open>
  A change of the database that keeps the index well-formed and stores, in each store of a model, only
  records under their own path.
\<close>

lemma storage_okI:
  assumes "env_ok A" and "asdb_ok db"
    and "\<And>m. m \<notin> model_names A \<Longrightarrow> collectionOf db (getStorenameForModel A m) = []"
    and "\<And>m. m \<in> model_names A \<Longrightarrow> index_ok (collectionOf db (getStorenameForModel A m))"
    and "\<And>m i x. m \<in> model_names A \<Longrightarrow> db_get i (getStorenameForModel A m) db = Some x \<Longrightarrow>
      i = getIndexKeyValuesPath A m x \<and> keyed A m x"
  shows "storage_ok A db"
  using assms unfolding storage_ok_def by blast

lemma storage_save:
  fixes keys :: "string list"
  assumes ok: "storage_ok A db" and m: "m \<in> model_names A" and x: "keyed A m x"
  defines "db' \<equiv> db_save (ae_ulid A) x (getStorenameForModel A m) keys (getIndexKeyValuesPath A m x) db"
  shows "storage_ok A db'" and "y \<in> set (table A db' m') \<longleftrightarrow>
    (if m' = m then y = x \<or> y \<in> set (table A db m) \<and> getIndexKeyValuesFromModel A m y \<noteq> getIndexKeyValuesFromModel A m x
     else y \<in> set (table A db m'))"
proof -
  let ?s = "getStorenameForModel A m"
  have env: "env_ok A" "ulids_ok (ae_ulid A)" "asdb_ok db" "no_colon ?s"
    using ok storename_no_colon [OF storage_env [OF ok] m] by (auto simp: storage_ok_def env_ok_def)
  note view = save_view [OF env(3,2,4), of x keys "getIndexKeyValuesPath A m x", folded db'_def]
  have get: "db_get i (getStorenameForModel A n) db' =
      (if n = m \<and> i = getIndexKeyValuesPath A m x then Some x else db_get i (getStorenameForModel A n) db)"
    if "n \<in> model_names A" for n i
    using view storename_no_colon [OF env(1) that] by (auto simp: getStorenameForModel_def)
  have coll: "\<exists>u. collectionOf db' s = (if s = ?s then AList.update (Some (getIndexKeyValuesPath A m x)) u (collectionOf db s)
      else collectionOf db s)" for s
    by (auto simp: db'_def save_unfold ulid_for_fields split: prod.split)
  have idx: "index_ok (collectionOf db' (getStorenameForModel A n))" if "n \<in> model_names A" for n
  proof -
    have "index_ok (collectionOf db (getStorenameForModel A n))" using ok that by (simp add: storage_ok_def)
    then show ?thesis using coll [of "getStorenameForModel A n"] index_ok_update by (auto split: if_splits)
  qed
  show ok': "storage_ok A db'"
  proof (rule storage_okI)
    show "collectionOf db' (getStorenameForModel A n) = []" if "n \<notin> model_names A" for n
      using coll [of "getStorenameForModel A n"] m that ok by (auto simp: storage_ok_def getStorenameForModel_def)
    show "i = getIndexKeyValuesPath A n y \<and> keyed A n y"
      if "n \<in> model_names A" "db_get i (getStorenameForModel A n) db' = Some y" for n i y
      using that get [OF that(1)] ok x by (auto simp: storage_ok_def split: if_splits)
  qed (use env view idx in auto)
  show "y \<in> set (table A db' m') \<longleftrightarrow>
    (if m' = m then y = x \<or> y \<in> set (table A db m) \<and> getIndexKeyValuesFromModel A m y \<noteq> getIndexKeyValuesFromModel A m x
     else y \<in> set (table A db m'))"
  proof (cases "m' \<in> model_names A")
    case True
    show ?thesis
    proof (cases "m' = m")
      case m': True
      have new: "y \<in> set (table A db' m) \<longleftrightarrow>
          (if getIndexKeyValuesPath A m y = getIndexKeyValuesPath A m x then y = x else y \<in> set (table A db m))"
        unfolding table_iff(1) [OF ok' m] table_iff(1) [OF ok m] get [OF m] by auto
      show ?thesis
      proof (cases "y \<in> set (table A db m)")
        case True
        with path_iff [OF env(1) table_iff(2) [OF ok m True] x] show ?thesis unfolding m' new by auto
      qed (use new m' in auto)
    next
      case False
      then show ?thesis using table_iff(1) [OF ok True] table_iff(1) [OF ok' True] get [OF True] by auto
    qed
  next
    case False
    then have "m' \<noteq> m" using m by auto
    then show ?thesis using table_unknown [OF ok False] table_unknown [OF ok' False] by simp
  qed
qed

lemma storage_delete:
  assumes ok: "storage_ok A db" and m: "m \<in> model_names A" and x: "keyed A m x"
  defines "db' \<equiv> db_delete (getIndexKeyValuesPath A m x) (getStorenameForModel A m) db"
  shows "storage_ok A db'" and "y \<in> set (table A db' m') \<longleftrightarrow>
    y \<in> set (table A db m') \<and> (m' = m \<longrightarrow> getIndexKeyValuesFromModel A m y \<noteq> getIndexKeyValuesFromModel A m x)"
proof -
  let ?s = "getStorenameForModel A m"
  have env: "env_ok A" "asdb_ok db" "no_colon ?s"
    using ok storename_no_colon [OF storage_env [OF ok] m] by (auto simp: storage_ok_def)
  note view = delete_view [OF env(2,3), of "getIndexKeyValuesPath A m x", folded db'_def]
  have get: "db_get i (getStorenameForModel A n) db' =
      (if n = m \<and> i = getIndexKeyValuesPath A m x then None else db_get i (getStorenameForModel A n) db)"
    if "n \<in> model_names A" for n i
    using view storename_no_colon [OF env(1) that] by (auto simp: getStorenameForModel_def)
  have coll: "collectionOf db' s = (if s = ?s then AList.delete (Some (getIndexKeyValuesPath A m x)) (collectionOf db s)
      else collectionOf db s)" for s
    by (simp add: db'_def db_delete_def Let_def)
  show ok': "storage_ok A db'"
  proof (rule storage_okI)
    show "collectionOf db' (getStorenameForModel A n) = []" if "n \<notin> model_names A" for n
      using m that ok by (auto simp: coll storage_ok_def getStorenameForModel_def)
    show "index_ok (collectionOf db' (getStorenameForModel A n))" if "n \<in> model_names A" for n
      using that ok by (auto simp: coll storage_ok_def index_ok_delete)
    show "i = getIndexKeyValuesPath A n y \<and> keyed A n y"
      if "n \<in> model_names A" "db_get i (getStorenameForModel A n) db' = Some y" for n i y
      using that get [OF that(1)] ok by (auto simp: storage_ok_def split: if_splits)
  qed (use env view in auto)
  show "y \<in> set (table A db' m') \<longleftrightarrow>
    y \<in> set (table A db m') \<and> (m' = m \<longrightarrow> getIndexKeyValuesFromModel A m y \<noteq> getIndexKeyValuesFromModel A m x)"
  proof (cases "m' \<in> model_names A")
    case True
    have new: "y \<in> set (table A db' m') \<longleftrightarrow> y \<in> set (table A db m') \<and>
        (m' = m \<longrightarrow> getIndexKeyValuesPath A m y \<noteq> getIndexKeyValuesPath A m x)"
      unfolding table_iff(1) [OF ok' True] table_iff(1) [OF ok True] get [OF True] by auto
    show ?thesis
    proof (cases "y \<in> set (table A db m')")
      case y: True
      with path_iff [OF env(1) _ x] table_iff(2) [OF ok True y] show ?thesis unfolding new by auto
    qed (use new in auto)
  qed (simp add: table_unknown [OF ok] table_unknown [OF ok'])
qed

section \<open>Querying, saving\<close>

text \<open>
  C4. On a well-formed storage (\<open>storage_ok\<close>: every record under its own key, of strings without the separator) a
  DataStore query for a condition that the storage can answer (\<open>cond_ok\<close>, of the optimised condition) returns, without
  repetition, exactly the stored records on which evaluating the condition record by record gives true; and for such a
  condition that evaluation never throws. The query goes through all layers: the condition tree of a predicate is
  optimised, its groups are fetched one by one from the adapter and joined over the relationships.

  The conditions a storage can answer: a \<open>not\<close> has one group below it and no condition on related records; an \<open>or\<close> is not
  empty, nor an \<open>and\<close> below a \<open>not\<close>; equalities on all fields of the primary key stand under \<open>and\<close> and compare with
  strings without the separator. In every stored record, a field compared below a \<open>not\<close> by order is a number against numbers or
  a string against strings; a field that is searched holds a string, for \<open>contains\<close> and \<open>notContains\<close> also a list, or nothing,
  and for \<open>notContains\<close> not the empty string; the fields of a join are not missing, and a relation other than
  \<open>HAS_MANY\<close> joins at most one record. These hypotheses cannot be dropped altogether: \<open>query_and_match_differ\<close> and
  \<open>or_over_composite_key\<close> in \<open>QueryPitfalls\<close> are conditions outside them on which the query and the evaluation differ.
\<close>

theorem datastore_query_matches:
  assumes "storage_ok A db" and "same_owner m c" and "c = GroupCondition m None rt op os False"
    and "cond_ok (ae_models A) (table A db) (admissible A db) False m (optimized True c)"
  shows "\<exists>rows. fetch (ae_models A) (adapter_query A db) c False = Inr rows \<and> distinct rows \<and>
    set rows = {x \<in> set (table A db m). matches (ae_js A) (load_related (ae_models A) (adapter_query A db)) m c x = Inr True} \<and>
    list_all (\<lambda>x. \<exists>b. matches (ae_js A) (load_related (ae_models A) (adapter_query A db)) m c x = Inr b) (table A db m)"
  using adapter.fetch_matches [OF assms(1) table_pk_unique [OF assms(1)] assms(2-4)] unfolding list_all_iff by blast

lemma stored_by_key:
  assumes "storage_ok A db" and "m \<in> model_names A" and "keyed A m x"
  shows "get_by_values A (getStorenameForModel A m) (getIndexKeyValuesFromModel A m x) db =
    find (\<lambda>y. getIndexKeyValuesFromModel A m y = getIndexKeyValuesFromModel A m x) (table A db m)"
proof -
  let ?vs = "getIndexKeyValuesFromModel A m x" and ?g = "get_by_values A (getStorenameForModel A m) (getIndexKeyValuesFromModel A m x) db"
  have vs: "list_all key_text_value ?vs" "?vs \<noteq> []"
    using assms(3) index_keys_ok(1) [OF storage_env [OF assms(1)]]
    by (simp_all add: keyed_def getIndexKeyValuesFromModel_def extractPrimaryKeyValues_def)
  note iff = get_by_values_iff [OF assms(1,2) vs]
  show ?thesis
  proof (cases ?g)
    case None
    then show ?thesis using iff by (metis (mono_tags, lifting) find_None_iff option.distinct(1))
  next
    case (Some y)
    then have "find (\<lambda>y. getIndexKeyValuesFromModel A m y = ?vs) (table A db m) \<noteq> None" using iff by (auto simp: find_None_iff)
    then obtain z where z: "find (\<lambda>y. getIndexKeyValuesFromModel A m y = ?vs) (table A db m) = Some z" by blast
    then have "?g = Some z" using iff find_SomeD [OF z] by simp
    then show ?thesis using z by simp
  qed
qed

lemma same_key_values: "keyed A m x \<Longrightarrow> same_values (getIndexKeyValuesFromModel A m x) (getIndexKeyValuesFromModel A m x)"
  by (auto simp: same_values_def keyed_def strict_eq_def list_all_iff intro!: list.rel_refl_strong dest!: key_text_valueD)

lemma a_save_unfold:
  assumes "keyed A m x"
  shows "a_save A m x condition db =
    sbind (validateSaveCondition (ae_js A) condition (get_by_values A (getStorenameForModel A m) (getIndexKeyValuesFromModel A m x) db))
      (\<lambda>_. Inr ([(x, if get_by_values A (getStorenameForModel A m) (getIndexKeyValuesFromModel A m x) db \<noteq> None then UPDATE else INSERT)],
        db_save (ae_ulid A) x (getStorenameForModel A m) (index_keys A m) (getIndexKeyValuesPath A m x) db))"
  using same_key_values [OF assms]
  by (simp add: a_save_def saveMetadata_def traverseModel_def getStorenameForModel_def getIndexKeyValuesPath_def
      getIndexKeyValuesFromModel_def extractPrimaryKeyValues_def Let_def)

text \<open>
  C18. Saving an instance replaces the stored record of its primary key, or adds it, reports which of the two it did,
  touches no other record and keeps the storage well-formed. With a condition, the stored record must satisfy it:
  otherwise the save fails and nothing changes.
\<close>

theorem save_replaces_by_key:
  assumes ok: "storage_ok A db" and m: "m \<in> model_names A" and x: "keyed A m x"
    and old: "find (\<lambda>y. getIndexKeyValuesFromModel A m y = getIndexKeyValuesFromModel A m x) (table A db m) = old"
    and cond: "condition = None \<or> old = None \<or>
      (condition = Some (PGroup ty ps) \<and> validatePredicate (ae_js A) (the old) ty ps = Inr valid)"
  shows "if condition \<noteq> None \<and> old \<noteq> None \<and> \<not> valid then a_save A m x condition db = Inl (JsError ''Conditional update failed'')
    else \<exists>db'. a_save A m x condition db = Inr ([(x, if old \<noteq> None then UPDATE else INSERT)], db') \<and> storage_ok A db' \<and>
      (\<forall>n. set (table A db' n) = (if n = m then insert x {y \<in> set (table A db m).
        getIndexKeyValuesFromModel A m y \<noteq> getIndexKeyValuesFromModel A m x} else set (table A db n)))"
proof -
  have stored: "get_by_values A (getStorenameForModel A m) (getIndexKeyValuesFromModel A m x) db = old"
    using stored_by_key [OF ok m x] old by simp
  have check: "validateSaveCondition (ae_js A) condition old =
      (if condition \<noteq> None \<and> old \<noteq> None \<and> \<not> valid then Inl (JsError ''Conditional update failed'') else Inr ())"
  proof (cases "condition = None \<or> old = None")
    case True
    then show ?thesis by (cases condition) (auto simp: validateSaveCondition_def split: past.split option.split)
  next
    case False
    then obtain y where y: "old = Some y" by auto
    with cond False have "condition = Some (PGroup ty ps) \<and> validatePredicate (ae_js A) y ty ps = Inr valid"
      by (auto simp del: validatePredicate.simps)
    with y have "old = Some y" "condition = Some (PGroup ty ps)" "validatePredicate (ae_js A) y ty ps = Inr valid" by blast+
    then show ?thesis by (simp add: validateSaveCondition_def PGroup_def del: validatePredicate.simps)
  qed
  note save = storage_save [OF ok m x, where keys = "index_keys A m"]
  show ?thesis
  proof (cases "condition \<noteq> None \<and> old \<noteq> None \<and> \<not> valid")
    case True
    then show ?thesis unfolding a_save_unfold [OF x] stored check by simp
  next
    case False
    let ?db' = "db_save (ae_ulid A) x (getStorenameForModel A m) (index_keys A m) (getIndexKeyValuesPath A m x) db"
    have "a_save A m x condition db = Inr ([(x, if old \<noteq> None then UPDATE else INSERT)], ?db')"
      unfolding a_save_unfold [OF x] stored check using False by simp
    moreover have "set (table A ?db' n) = (if n = m then insert x {y \<in> set (table A db m).
        getIndexKeyValuesFromModel A m y \<noteq> getIndexKeyValuesFromModel A m x} else set (table A db n))" for n
      using save(2) by auto
    ultimately show ?thesis using save(1) False by simp
  qed
qed

section \<open>Witnesses\<close>

definition demo_adapter :: adapter_env where
  "demo_adapter = \<lparr>ae_js = demo_js, ae_ulid = demo_ulid, ae_namespace = ''user'', ae_models = demo_namespace, ae_keys = []\<rparr>"

definition post1 :: model where "post1 = [(''id'', JStr ''p1'')]"
definition comment1 :: model where "comment1 = [(''id'', JStr ''c1''), (''postId'', JStr ''p1'')]"

definition demo_saved :: "string \<Rightarrow> model \<Rightarrow> asdb \<Rightarrow> asdb" where
  "demo_saved m x db = db_save demo_ulid x (getStorenameForModel demo_adapter m) [ID] (getIndexKeyValuesPath demo_adapter m x) db"

definition demo_stored :: asdb where
  "demo_stored = demo_saved ''Comment'' comment1 (demo_saved ''Post'' post1 demo_db)"

lemma demo_adapter_ok: "env_ok demo_adapter"
  by (auto simp: env_ok_def demo_adapter_def demo_ulids_ok no_colon_def model_names_def index_keys_def getIndexKeys_def
      pkField_def extractPrimaryKeyFieldNames_def extractKeyIfExists_def demo_relationship_defs)

lemma demo_names: "model_names demo_adapter = {''Comment'', ''Post''}"
  by (simp add: model_names_def demo_adapter_def demo_namespace_def)

lemma demo_keys: "index_keys demo_adapter m = [ID]" "pkField demo_namespace m = [ID]"
  using index_keys_ok(2) [OF demo_adapter_ok, of m] by (simp_all add: index_keys_def getIndexKeys_def demo_adapter_def)

lemma demo_key_values: "getIndexKeyValuesFromModel demo_adapter m x = [field_of x ID]"
  by (simp add: getIndexKeyValuesFromModel_def extractPrimaryKeyValues_def demo_keys)

lemma demo_keyed: "keyed demo_adapter m post1" "keyed demo_adapter m comment1"
  by (simp_all add: keyed_def demo_key_values field_of_def ID_def post1_def comment1_def key_text_value_def)

lemma demo_stored_ok: "storage_ok demo_adapter demo_stored"
  "set (table demo_adapter demo_stored m) = (if m = ''Post'' then {post1} else if m = ''Comment'' then {comment1} else {})"
proof -
  have empty: "storage_ok demo_adapter demo_db" using empty_storage [OF demo_adapter_ok] by (simp add: demo_db_def)
  have none: "set (table demo_adapter demo_db m) = {}" for m
    by (simp add: table_def demo_db_def db_getAll_def collectionOf_def dst_multiGet_def)
  have ulid: "ae_ulid demo_adapter = demo_ulid" by (simp add: demo_adapter_def)
  note one = storage_save [OF empty, where m = "''Post''" and x = post1 and keys = "[ID]", unfolded ulid demo_names, folded demo_saved_def, OF _ demo_keyed(1)]
  have ok1: "storage_ok demo_adapter (demo_saved ''Post'' post1 demo_db)" using one(1) by simp
  note two = storage_save [OF ok1, where m = "''Comment''" and x = comment1 and keys = "[ID]", unfolded ulid demo_names, folded demo_saved_def, OF _ demo_keyed(2)]
  show "storage_ok demo_adapter demo_stored" using two(1) by (simp add: demo_stored_def)
  have "y \<in> set (table demo_adapter demo_stored m) \<longleftrightarrow> m = ''Post'' \<and> y = post1 \<or> m = ''Comment'' \<and> y = comment1" for y
    using two(2) [of y m] one(2) [of y m] one(2) [of y "''Comment''"] none by (auto simp: demo_stored_def)
  then show "set (table demo_adapter demo_stored m) = (if m = ''Post'' then {post1} else if m = ''Comment'' then {comment1} else {})"
    unfolding set_eq_iff by auto
qed


text \<open>The posts with a comment of the identifier \<open>c1\<close>.\<close>

definition demo_condition :: condition where
  "demo_condition = GroupCondition ''Post'' None None ''and''
     [GroupCondition ''Comment'' (Some ''comments'') (Some ''HAS_MANY'') ''and'' [FieldCondition ID ''eq'' [JStr ''c1'']] False] False"

definition demo_comments :: relationship_of where
  "demo_comments = \<lparr>localModel = demo_post, rel_field = ''comments'', localAssociation = comments_association,
     remoteName = ''Comment'', remoteDefinition = demo_comment\<rparr>"

lemma demo_comments_joins:
  "relation_of demo_namespace ''Post'' ''comments'' = Some demo_comments" "rel_type demo_comments = ''HAS_MANY''"
  "localJoinFields demo_comments = [''id'']" "remoteJoinFields demo_comments = [''postId'']" "remoteName demo_comments = ''Comment''"
  by (simp_all add: relation_of_def rel_from_def demo_comments_def rel_type_def localJoinFields_def remoteJoinFields_def
      explicitRemoteAssociation_def localAssociatedWith_def localPKFields_def extractPrimaryKeyFieldNames_def
      extractKeyIfExists_def ID_def demo_relationship_defs)

lemma demo_tables:
  "list_all P (table demo_adapter demo_stored ''Post'') \<longleftrightarrow> P post1" "list_all P (table demo_adapter demo_stored ''Comment'') \<longleftrightarrow> P comment1"
  using demo_stored_ok(2) [of "''Post''"] demo_stored_ok(2) [of "''Comment''"] by (simp_all add: list_all_iff)

lemma admissible_other_key: "field_of_key \<noteq> ID \<Longrightarrow> admissible demo_adapter db m (PGroup ty [PField field_of_key op v])"
  by (simp add: admissible_def PGroup_def PField_def keyValueFromPredicate_def demo_keys key_equality_def)

lemma admissible_id: "m \<in> model_names demo_adapter \<Longrightarrow> key_text_value v \<Longrightarrow> admissible demo_adapter db m (PGroup ''and'' [PField ID op v])"
  by (simp add: admissible_def PGroup_def PField_def keyValueFromPredicate_def demo_keys key_equality_def)

lemma demo_condition_ok:
  "cond_ok demo_namespace (table demo_adapter demo_stored) (admissible demo_adapter demo_stored) False ''Post'' (optimized True demo_condition)"
proof -
  have "join_ok demo_namespace (table demo_adapter demo_stored) (admissible demo_adapter demo_stored) ''Post'' ''comments'' ''Comment''
      (Some ''HAS_MANY'')"
    by (simp add: join_ok_def demo_comments_joins demo_tables plain_name_def groupKeys_def comparisonKeys_def post1_def
        field_of_def name_at_def join_node_for_def admissible_other_key ID_def)
  moreover have "admissible demo_adapter demo_stored ''Comment''
      (node_of (withFieldConditionsOnly ''Comment'' ''and'' [FieldCondition ID ''eq'' [JStr ''c1'']] False))"
    using admissible_id [of "''Comment''" "JStr ''c1''" demo_stored "''eq''"]
    by (simp add: withFieldConditionsOnly_def negate_operand_def demo_names key_text_value_def ast_operand_def)
  ultimately show ?thesis
    by (simp add: demo_condition_def Let_def plain_name_def groupKeys_def comparisonKeys_def ID_def operand_count_def
        value_ok_def list_all_iff del: node_of.simps)
qed

theorem datastore_query_matches_witness:
  "\<exists>rows. fetch demo_namespace (adapter_query demo_adapter demo_stored) demo_condition False = Inr rows \<and> set rows \<subseteq> {post1}"
proof -
  have A: "ae_models demo_adapter = demo_namespace" by (simp add: demo_adapter_def)
  have "same_owner ''Post'' demo_condition" by (simp add: demo_condition_def)
  from datastore_query_matches [OF demo_stored_ok(1) this demo_condition_def, unfolded A, OF demo_condition_ok]
  show ?thesis using demo_stored_ok(2) [of "''Post''"] by auto
qed

lemma demo_old:
  obtains old where "find (\<lambda>y. getIndexKeyValuesFromModel demo_adapter ''Post'' y = getIndexKeyValuesFromModel demo_adapter ''Post'' post1)
      (table demo_adapter demo_stored ''Post'') = Some old"
proof -
  have "find (\<lambda>y. getIndexKeyValuesFromModel demo_adapter ''Post'' y = getIndexKeyValuesFromModel demo_adapter ''Post'' post1)
      (table demo_adapter demo_stored ''Post'') \<noteq> None"
    using demo_stored_ok(2) [of "''Post''"] by (simp add: find_None_iff)
  then show ?thesis using that by blast
qed

lemma demo_save: "\<exists>db'. a_save demo_adapter ''Post'' post1 None demo_stored = Inr ([(post1, UPDATE)], db')"
proof -
  obtain old where "find (\<lambda>y. getIndexKeyValuesFromModel demo_adapter ''Post'' y = getIndexKeyValuesFromModel demo_adapter ''Post'' post1)
      (table demo_adapter demo_stored ''Post'') = Some old" by (rule demo_old)
  then have "get_by_values demo_adapter (getStorenameForModel demo_adapter ''Post'')
      (getIndexKeyValuesFromModel demo_adapter ''Post'' post1) demo_stored = Some old"
    using stored_by_key [OF demo_stored_ok(1) _ demo_keyed(1), of "''Post''"] by (simp add: demo_names)
  then show ?thesis by (simp add: a_save_unfold [OF demo_keyed(1)] validateSaveCondition_def)
qed

theorem save_replaces_by_key_witness:
  "\<exists>db'. a_save demo_adapter ''Post'' post1 None demo_stored = Inr ([(post1, UPDATE)], db') \<and> storage_ok demo_adapter db'"
proof -
  obtain old where old: "find (\<lambda>y. getIndexKeyValuesFromModel demo_adapter ''Post'' y = getIndexKeyValuesFromModel demo_adapter ''Post'' post1)
      (table demo_adapter demo_stored ''Post'') = Some old" by (rule demo_old)
  show ?thesis
    using save_replaces_by_key [OF demo_stored_ok(1) _ demo_keyed(1) old, of None] by (auto simp: demo_names)
qed

end
