(* ===== verification/CascadeProofs.thy ===== *)
theory CascadeProofs
  imports StorageAdapterProofs
begin

text \<open>
  The cascade of a deletion: which records \<open>deleteTraverse\<close> queues, when it ends, and what is left. A record
  is written with the name of its model; \<open>cascades\<close> is one step from a record to a related one.
\<close>

section \<open>Cascades\<close>

definition joins_to :: "relationship_of \<Rightarrow> model \<Rightarrow> model \<Rightarrow> bool" where
  "joins_to r x y \<longleftrightarrow> (case createRemoteQueryObject r x of
     None \<Rightarrow> False | Some q \<Rightarrow> list_all (\<lambda>(k, v). strict_eq (field_of y k) v) q)"

definition cascades :: "adapter_env \<Rightarrow> asdb \<Rightarrow> string \<times> model \<Rightarrow> string \<times> model \<Rightarrow> bool" where
  "cascades A db p p' \<longleftrightarrow> (case cascading_relations A (fst p) of
     Inl e \<Rightarrow> False
   | Inr rs \<Rightarrow> list_ex (\<lambda>r. remoteName r = fst p' \<and> snd p' \<in> set (table A db (fst p')) \<and> joins_to r (snd p) (snd p')) rs)"

definition cascade_set :: "adapter_env \<Rightarrow> asdb \<Rightarrow> string \<Rightarrow> model list \<Rightarrow> (string \<times> model) set" where
  "cascade_set A db m xs = {p. \<exists>x \<in> set xs. rtranclp (cascades A db) (m, x) p}"

text \<open>The values a record joins others by are strings that a key path can hold, or nothing.\<close>

definition join_values_ok :: "relationship_of \<Rightarrow> model \<Rightarrow> bool" where
  "join_values_ok r x \<longleftrightarrow> list_all (\<lambda>i. let v = field_of x (name_at (localJoinFields r) i)
     in isNullOrUndefined v \<or> key_text_value v) [0..<length (remoteJoinFields r)]"

definition cascade_ready :: "adapter_env \<Rightarrow> string \<Rightarrow> model \<Rightarrow> bool" where
  "cascade_ready A m x \<longleftrightarrow> (case cascading_relations A m of
     Inl e \<Rightarrow> False
   | Inr rs \<Rightarrow> list_all (\<lambda>r. remoteName r \<in> model_names A \<and> distinct (remoteJoinFields r) \<and>
       list_all plain_name (remoteJoinFields r) \<and> join_values_ok r x) rs)"

definition cascade_ok :: "adapter_env \<Rightarrow> asdb \<Rightarrow> bool" where
  "cascade_ok A db \<longleftrightarrow> list_all (\<lambda>m. list_all (cascade_ready A m) (table A db m)) (map fst (ae_models A))"

definition queue_set :: "delete_queue \<Rightarrow> (string \<times> model) set" where
  "queue_set q = {(n, y). \<exists>ys. (n, ys) \<in> set q \<and> y \<in> set ys}"

lemma queue_set_simps [simp]:
  "queue_set [] = {}" "queue_set (a @ b) = queue_set a \<union> queue_set b"
  "queue_set [(n, ys)] = Pair n ` set ys" "queue_set (concat qs) = (\<Union>q \<in> set qs. queue_set q)"
  by (auto simp: queue_set_def)

lemma cascade_ok_ready: "cascade_ok A db \<Longrightarrow> m \<in> model_names A \<Longrightarrow> x \<in> set (table A db m) \<Longrightarrow> cascade_ready A m x"
  by (auto simp: cascade_ok_def list_all_iff model_names_def)

section \<open>The related records\<close>

lemma flat_equalities:
  assumes "list_all plain_name (map fst q)"
  shows "createFromFlatEqualities q = Inr (PGroup ''and'' (map (\<lambda>(k, v). PField k ''eq'' v) q))"
  unfolding createFromFlatEqualities_def
proof (rule transform_group_list)
  show "list_all2 (\<lambda>g p. (\<exists>k x. g = JObj [(k, x)]) \<and> transformGraphQLFilterNodeToPredicateAST g = Inr p)
      (map (\<lambda>(k, v). JObj [(k, JObj [(''eq'', v)])]) q) (map (\<lambda>(k, v). PField k ''eq'' v) q)"
    using assms
    by (auto simp: list.rel_map list_all_iff comparisonKeys_def intro!: list.rel_refl_strong transform_leaf
        simp del: transformGraphQLFilterNodeToPredicateAST.simps)
qed (simp add: groupKeys_def)

lemma validate_equalities:
  "validatePredicate E y ''and'' (map (\<lambda>(k, v). PField k ''eq'' v) q) = Inr (list_all (\<lambda>(k, v). strict_eq (field_of y k) v) q)"
proof -
  have "validate_every E y (map (\<lambda>(k, v). PField k ''eq'' v) q)
      = Inr (list_all (\<lambda>p. strict_eq (field_of y (the (node_field p))) (node_operand p)) (map (\<lambda>(k, v). PField k ''eq'' v) q))"
    by (rule validate_every_ok) (auto simp: validatePredicateField_def PField_def)
  then show ?thesis by (auto simp: list_all_iff PField_def)
qed

lemma related_records:
  assumes ok: "storage_ok A db" and r: "remoteName r \<in> model_names A" "distinct (remoteJoinFields r)"
    "list_all plain_name (remoteJoinFields r)" "join_values_ok r x"
  shows "\<exists>found. relatedRecords A db r x = Inr found \<and>
    set (case found of None \<Rightarrow> [] | Some rows \<Rightarrow> rows) = {y \<in> set (table A db (remoteName r)). joins_to r x y}"
proof (cases "createRemoteQueryObject r x")
  case None
  then show ?thesis by (simp add: relatedRecords_def joins_to_def)
next
  case (Some q)
  from query_object [OF r(2), of x] Some have q: "q = map (\<lambda>i. (name_at (remoteJoinFields r) i, field_of x (name_at (localJoinFields r) i)))
      [0..<length (remoteJoinFields r)]" and there: "\<And>i. i < length (remoteJoinFields r) \<Longrightarrow>
      \<not> isNullOrUndefined (field_of x (name_at (localJoinFields r) i))"
    by (auto split: if_splits)
  have texts: "list_all (\<lambda>(k, v). key_text_value v) q"
    using r(4) there by (auto simp: q join_values_ok_def list_all_iff Let_def)
  have plain: "list_all plain_name (map fst q)"
    using r(3) by (simp add: q list_all_length name_at_def)
  let ?ps = "map (\<lambda>(k, v). PField k ''eq'' v) q"
  have "admissible A db (remoteName r) (PGroup ''and'' ?ps)"
  proof (cases "keyValueFromPredicate ?ps (index_keys A (remoteName r))")
    case kv: (Some vs)
    note spec = keyValueFromPredicate_Some [OF kv index_keys_ok(3) [OF storage_env [OF ok]]]
    have "key_text_value v" if "v \<in> set vs" for v
    proof -
      from that spec(4) obtain k where k: "k \<in> set (index_keys A (remoteName r))"
        "v = node_operand (the (find (key_equality k) ?ps))" by auto
      from spec(3) [OF k(1)] obtain p where p: "find (key_equality k) ?ps = Some p" by blast
      then have "p \<in> set ?ps" using find_SomeD by fast
      then obtain a b where "(a, b) \<in> set q" "p = PField a ''eq'' b" by auto
      then show ?thesis using texts k(2) p by (auto simp: list_all_iff PField_def)
    qed
    then show ?thesis using r(1) by (simp add: admissible_def PGroup_def kv list_all_iff)
  qed (simp add: admissible_def PGroup_def)
  from adapter_query_pred [OF ok this validate_equalities]
  obtain rows where "a_query A (remoteName r) (Some (PGroup ''and'' ?ps)) None db = Inr rows"
      "set rows = {y \<in> set (table A db (remoteName r)). list_all (\<lambda>(k, v). strict_eq (field_of y k) v) q}"
    by (auto simp: adapter_query_def)
  then show ?thesis using flat_equalities [OF plain] by (simp add: relatedRecords_def Some joins_to_def)
qed

section \<open>The traversal\<close>

lemma obind_simps [simp]:
  "obind None f = None" "obind (Some (Inl e)) f = Some (Inl e)" "obind (Some (Inr a)) f = f a"
  by (simp_all add: obind_def)

lemma ofold_not_None: "(\<And>x q. x \<in> set xs \<Longrightarrow> f x q \<noteq> None) \<Longrightarrow> ofold f xs q \<noteq> None"
  by (induction xs arbitrary: q) (auto simp: obind_def split: option.split sum.split)

text \<open>Steps that only append to the accumulator.\<close>

lemma ofold_append:
  assumes "\<And>x q r. x \<in> set xs \<Longrightarrow> f x q = Some r \<Longrightarrow> \<exists>new. r = Inr (q @ new) \<and> P x new" and "ofold f xs q = Some r"
  shows "\<exists>news. r = Inr (q @ concat news) \<and> list_all2 P xs news"
  using assms
proof (induction xs arbitrary: q)
  case Nil
  then show ?case by auto
next
  case (Cons x xs)
  obtain r1 where r1: "f x q = Some r1" using Cons.prems(2) by (cases "f x q") auto
  with Cons.prems(1) [of x q r1] obtain new where new: "r1 = Inr (q @ new)" "P x new" by auto
  with Cons.prems(2) r1 have "ofold f xs (q @ new) = Some r" by simp
  with Cons.IH [of "q @ new"] Cons.prems(1) obtain news where "r = Inr ((q @ new) @ concat news)" "list_all2 P xs news"
    by auto
  with new(2) show ?case by (intro exI [of _ "new # news"]) simp
qed

lemma list_all2_UN: "list_all2 (\<lambda>x new. queue_set new = F x) xs news \<Longrightarrow> (\<Union>n \<in> set news. queue_set n) = (\<Union>x \<in> set xs. F x)"
  by (induction rule: list_all2_induct) auto

lemma list_all2_In: "list_all2 P xs ys \<Longrightarrow> x \<in> set xs \<Longrightarrow> \<exists>y. P x y"
  by (induction rule: list_all2_induct) auto

definition no_chain :: "adapter_env \<Rightarrow> asdb \<Rightarrow> nat \<Rightarrow> string \<Rightarrow> model list \<Rightarrow> bool" where
  "no_chain A db n m xs \<longleftrightarrow> (\<forall>x \<in> set xs. \<forall>p. \<not> (cascades A db ^^ n) (m, x) p)"

definition traverse_relation :: "adapter_env \<Rightarrow> asdb \<Rightarrow> nat \<Rightarrow> model \<Rightarrow> relationship_of \<Rightarrow> delete_queue \<Rightarrow> (js_error + delete_queue) option" where
  "traverse_relation A db fuel x r q = obind (Some (relatedRecords A db r x)) (\<lambda>related. case related of
     None \<Rightarrow> Some (Inr q) | Some rows \<Rightarrow> deleteTraverse A db fuel (remoteName r) rows q)"

definition traverse_record :: "adapter_env \<Rightarrow> asdb \<Rightarrow> nat \<Rightarrow> string \<Rightarrow> model \<Rightarrow> delete_queue \<Rightarrow> (js_error + delete_queue) option" where
  "traverse_record A db fuel m x q = obind (Some (cascading_relations A m)) (\<lambda>rs. ofold (traverse_relation A db fuel x) rs q)"

lemma traverse_unfold: "deleteTraverse A db (Suc fuel) m xs q =
    obind (ofold (traverse_record A db fuel m) xs q) (\<lambda>q'. Some (Inr (q' @ [(m, xs)])))"
  by (simp add: traverse_record_def [abs_def] traverse_relation_def [abs_def])

declare deleteTraverse.simps(2) [simp del]

definition next_records :: "adapter_env \<Rightarrow> asdb \<Rightarrow> relationship_of \<Rightarrow> model \<Rightarrow> (string \<times> model) set" where
  "next_records A db r x = {(n, y). n = remoteName r \<and> y \<in> set (table A db n) \<and> joins_to r x y}"

lemma cascades_next:
  "cascading_relations A m = Inr rs \<Longrightarrow> cascades A db (m, x) p \<longleftrightarrow> (\<exists>r \<in> set rs. p \<in> next_records A db r x)"
  by (auto simp: cascades_def next_records_def list_ex_iff)

text \<open>What a record stands for without itself.\<close>

lemma cascade_set_unfold: "cascade_set A db m xs = Pair m ` set xs \<union> (\<Union>x \<in> set xs. {p. tranclp (cascades A db) (m, x) p})"
  by (auto simp: cascade_set_def Nitpick.rtranclp_unfold)

lemma cascade_step:
  assumes "cascading_relations A m = Inr rs"
  shows "{p. tranclp (cascades A db) (m, x) p}
    = (\<Union>r \<in> set rs. {p. \<exists>p1 \<in> next_records A db r x. rtranclp (cascades A db) p1 p})"
proof (intro set_eqI iffI)
  fix p assume "p \<in> {p. tranclp (cascades A db) (m, x) p}"
  then show "p \<in> (\<Union>r \<in> set rs. {p. \<exists>p1 \<in> next_records A db r x. rtranclp (cascades A db) p1 p})"
  proof
    assume "tranclp (cascades A db) (m, x) p"
    then obtain p1 where p1: "cascades A db (m, x) p1" "rtranclp (cascades A db) p1 p" by (auto dest: tranclpD)
    from p1(1) obtain r where "r \<in> set rs" "p1 \<in> next_records A db r x" unfolding cascades_next [OF assms] by blast
    with p1(2) show ?thesis by blast
  qed
next
  fix p assume "p \<in> (\<Union>r \<in> set rs. {p. \<exists>p1 \<in> next_records A db r x. rtranclp (cascades A db) p1 p})"
  then obtain r p1 where "r \<in> set rs" "p1 \<in> next_records A db r x" "rtranclp (cascades A db) p1 p" by blast
  then show "p \<in> {p. tranclp (cascades A db) (m, x) p}"
  proof -
    have "cascades A db (m, x) p1" unfolding cascades_next [OF assms] using \<open>r \<in> set rs\<close> \<open>p1 \<in> _\<close> by blast
    then have "tranclp (cascades A db) (m, x) p" using \<open>rtranclp _ p1 p\<close> by (rule rtranclp_into_tranclp2)
    then show ?thesis by simp
  qed
qed

lemma ready_relation:
  assumes "cascade_ready A m x" and "storage_ok A db"
  obtains rs where "cascading_relations A m = Inr rs" and
    "\<And>r. r \<in> set rs \<Longrightarrow> remoteName r \<in> model_names A \<and> (\<exists>found. relatedRecords A db r x = Inr found \<and>
       Pair (remoteName r) ` set (case found of None \<Rightarrow> [] | Some rows \<Rightarrow> rows) = next_records A db r x)"
proof -
  obtain rs where rs: "cascading_relations A m = Inr rs"
    "\<And>r. r \<in> set rs \<Longrightarrow> remoteName r \<in> model_names A \<and> distinct (remoteJoinFields r) \<and>
       list_all plain_name (remoteJoinFields r) \<and> join_values_ok r x"
    using assms(1) by (auto simp: cascade_ready_def list_all_iff split: sum.splits)
  show ?thesis
  proof (rule that [OF rs(1)])
    fix r assume r: "r \<in> set rs"
    from rs(2) [OF this] related_records [OF assms(2), of r x]
    show "remoteName r \<in> model_names A \<and> (\<exists>found. relatedRecords A db r x = Inr found \<and>
       Pair (remoteName r) ` set (case found of None \<Rightarrow> [] | Some rows \<Rightarrow> rows) = next_records A db r x)"
      by (auto simp: next_records_def)
  qed
qed

lemma next_ready:
  assumes "cascade_ok A db" and "remoteName r \<in> model_names A" and "Pair (remoteName r) ` set rows = next_records A db r x"
  shows "\<forall>y \<in> set rows. cascade_ready A (remoteName r) y"
proof
  fix y assume "y \<in> set rows"
  then have "(remoteName r, y) \<in> next_records A db r x" using assms(3) by blast
  then show "cascade_ready A (remoteName r) y" using cascade_ok_ready [OF assms(1,2)] by (simp add: next_records_def)
qed

lemma traverse_returns:
  assumes ok: "storage_ok A db" "cascade_ok A db"
  shows "\<forall>x \<in> set xs. cascade_ready A m x \<Longrightarrow> no_chain A db n m xs \<Longrightarrow> deleteTraverse A db (Suc n) m xs q \<noteq> None"
proof (induction n arbitrary: m xs q)
  case 0
  then have "xs = []" by (auto simp: no_chain_def)
  then show ?case by (simp add: traverse_unfold)
next
  case (Suc n)
  have "traverse_record A db (Suc n) m x q \<noteq> None" if x: "x \<in> set xs" for x q
  proof -
    obtain rs where rs: "cascading_relations A m = Inr rs"
      "\<And>r. r \<in> set rs \<Longrightarrow> remoteName r \<in> model_names A \<and> (\<exists>found. relatedRecords A db r x = Inr found \<and>
         Pair (remoteName r) ` set (case found of None \<Rightarrow> [] | Some rows \<Rightarrow> rows) = next_records A db r x)"
      using ready_relation [OF _ ok(1)] Suc.prems(1) x by metis
    have "traverse_relation A db (Suc n) x r q \<noteq> None" if r: "r \<in> set rs" for r q
    proof -
      obtain found where found: "relatedRecords A db r x = Inr found"
        "Pair (remoteName r) ` set (case found of None \<Rightarrow> [] | Some rows \<Rightarrow> rows) = next_records A db r x"
        and rn: "remoteName r \<in> model_names A" using rs(2) [OF r] by blast
      show ?thesis
      proof (cases found)
        case (Some rows)
        have nxt: "Pair (remoteName r) ` set rows = next_records A db r x" using found(2) Some by simp
        have "no_chain A db n (remoteName r) rows" unfolding no_chain_def
        proof (intro ballI allI notI)
          fix y p assume "y \<in> set rows" "(cascades A db ^^ n) (remoteName r, y) p"
          moreover have "cascades A db (m, x) (remoteName r, y)"
            using calculation(1) nxt r by (auto simp: cascades_next [OF rs(1)])
          ultimately have "(cascades A db ^^ Suc n) (m, x) p" by (metis relpowp_Suc_I2)
          then show False using Suc.prems(2) x unfolding no_chain_def by blast
        qed
        then show ?thesis
          using Suc.IH [OF next_ready [OF ok(2) rn nxt]] found(1) Some by (simp add: traverse_relation_def)
      qed (simp add: traverse_relation_def found(1))
    qed
    then have "ofold (traverse_relation A db (Suc n) x) rs q \<noteq> None" by (rule ofold_not_None)
    then show ?thesis by (simp add: traverse_record_def rs(1))
  qed
  then have "ofold (traverse_record A db (Suc n) m) xs q \<noteq> None" by (rule ofold_not_None)
  then show ?case by (auto simp: traverse_unfold obind_def split: option.split sum.split)
qed

text \<open>A traversal that returns queued the whole cascade, and followed every chain to its end.\<close>

lemma traverse_result:
  assumes ok: "storage_ok A db" "cascade_ok A db"
  shows "\<forall>x \<in> set xs. cascade_ready A m x \<Longrightarrow> deleteTraverse A db n m xs q = Some res \<Longrightarrow>
    \<exists>new. res = Inr (q @ new) \<and> queue_set new = cascade_set A db m xs \<and> no_chain A db n m xs"
proof (induction n arbitrary: m xs q res)
  case (Suc n)
  have relation: "\<exists>new. r1 = Inr (q @ new) \<and> (queue_set new = {p. \<exists>p1 \<in> next_records A db r x. rtranclp (cascades A db) p1 p}
      \<and> (\<forall>p1 \<in> next_records A db r x. \<forall>p. \<not> (cascades A db ^^ n) p1 p))"
    if rn: "remoteName r \<in> model_names A" and found: "relatedRecords A db r x = Inr found"
      "Pair (remoteName r) ` set (case found of None \<Rightarrow> [] | Some rows \<Rightarrow> rows) = next_records A db r x"
      and r1: "traverse_relation A db n x r q = Some r1" for x r q r1 found
  proof (cases found)
    case None
    then show ?thesis using found r1 by (auto simp: traverse_relation_def simp flip: found(2))
  next
    case (Some rows)
    have nxt: "Pair (remoteName r) ` set rows = next_records A db r x" using found(2) Some by simp
    have "deleteTraverse A db n (remoteName r) rows q = Some r1" using r1 found(1) Some by (simp add: traverse_relation_def)
    from Suc.IH [OF next_ready [OF ok(2) rn nxt] this]
    show ?thesis unfolding cascade_set_def no_chain_def nxt [symmetric] by auto
  qed
  have each: "\<exists>new. r1 = Inr (q @ new) \<and> (queue_set new = {p. tranclp (cascades A db) (m, x) p}
      \<and> (\<forall>p. \<not> (cascades A db ^^ Suc n) (m, x) p))"
    if x: "x \<in> set xs" and r1: "traverse_record A db n m x q = Some r1" for x q r1
  proof -
    obtain rs where rs: "cascading_relations A m = Inr rs"
      "\<And>r. r \<in> set rs \<Longrightarrow> remoteName r \<in> model_names A \<and> (\<exists>found. relatedRecords A db r x = Inr found \<and>
         Pair (remoteName r) ` set (case found of None \<Rightarrow> [] | Some rows \<Rightarrow> rows) = next_records A db r x)"
      using ready_relation [OF _ ok(1)] Suc.prems(1) x by metis
    define P where "P r new \<longleftrightarrow> queue_set new = {p. \<exists>p1 \<in> next_records A db r x. rtranclp (cascades A db) p1 p}
      \<and> (\<forall>p1 \<in> next_records A db r x. \<forall>p. \<not> (cascades A db ^^ n) p1 p)" for r new
    have "ofold (traverse_relation A db n x) rs q = Some r1" using r1 by (simp add: traverse_record_def rs(1))
    moreover have "\<exists>new. r2 = Inr (q1 @ new) \<and> P r new"
      if "r \<in> set rs" "traverse_relation A db n x r q1 = Some r2" for r q1 r2
    proof -
      from rs(2) [OF that(1)] obtain found where "remoteName r \<in> model_names A" "relatedRecords A db r x = Inr found"
        "Pair (remoteName r) ` set (case found of None \<Rightarrow> [] | Some rows \<Rightarrow> rows) = next_records A db r x" by blast
      from relation [OF this that(2)] show ?thesis unfolding P_def .
    qed
    ultimately obtain news where news: "r1 = Inr (q @ concat news)" "list_all2 P rs news"
      using ofold_append [where P = P and f = "traverse_relation A db n x" and xs = rs] by blast
    have "queue_set (concat news) = {p. tranclp (cascades A db) (m, x) p}"
      unfolding cascade_step [OF rs(1)] queue_set_simps
      by (rule list_all2_UN) (rule list_all2_mono [OF news(2)], simp add: P_def)
    moreover have "\<not> (cascades A db ^^ n) p1 p" if "r \<in> set rs" "p1 \<in> next_records A db r x" for r p1 p
    proof -
      obtain new where "P r new" using list_all2_In [OF news(2) \<open>r \<in> set rs\<close>] by blast
      then show ?thesis using that(2) unfolding P_def by blast
    qed
    then have "\<not> (cascades A db ^^ Suc n) (m, x) p" for p
      using relpowp_Suc_D2 [of n "cascades A db" "(m, x)" p] unfolding cascades_next [OF rs(1)] by blast
    ultimately show ?thesis using news(1) by blast
  qed
  obtain r1 where r1: "ofold (traverse_record A db n m) xs q = Some r1" "res = sbind r1 (\<lambda>q'. Inr (q' @ [(m, xs)]))"
    using Suc.prems(2) by (auto simp: traverse_unfold obind_def split: option.splits sum.splits)
  define P where "P x new \<longleftrightarrow> queue_set new = {p. tranclp (cascades A db) (m, x) p}
      \<and> (\<forall>p. \<not> (cascades A db ^^ Suc n) (m, x) p)" for x new
  obtain news where news: "r1 = Inr (q @ concat news)" "list_all2 P xs news"
    using ofold_append [OF _ r1(1), where P = P] each unfolding P_def by blast
  have "queue_set (concat news) = (\<Union>x \<in> set xs. {p. tranclp (cascades A db) (m, x) p})"
    unfolding queue_set_simps by (rule list_all2_UN) (rule list_all2_mono [OF news(2)], simp add: P_def)
  then have "queue_set (concat news @ [(m, xs)]) = cascade_set A db m xs" by (auto simp: cascade_set_unfold)
  moreover have "no_chain A db (Suc n) m xs" unfolding no_chain_def
    using list_all2_In [OF news(2)] unfolding P_def by blast
  ultimately show ?case using r1(2) news(1) by (intro exI [of _ "concat news @ [(m, xs)]"]) simp
qed simp

section \<open>When the traversal ends\<close>

definition all_records :: "adapter_env \<Rightarrow> asdb \<Rightarrow> (string \<times> model) list" where
  "all_records A db = concat (map (\<lambda>m. map (Pair m) (table A db m)) (map fst (ae_models A)))"

definition acyclic_from :: "adapter_env \<Rightarrow> asdb \<Rightarrow> string \<Rightarrow> model \<Rightarrow> bool" where
  "acyclic_from A db m x \<longleftrightarrow> (\<forall>p. rtranclp (cascades A db) (m, x) p \<longrightarrow> \<not> tranclp (cascades A db) p p)"

lemma cascades_stored: "storage_ok A db \<Longrightarrow> cascades A db p p' \<Longrightarrow> p' \<in> set (all_records A db)"
proof -
  assume ok: "storage_ok A db" and c: "cascades A db p p'"
  then have y: "snd p' \<in> set (table A db (fst p'))" by (auto simp: cascades_def list_ex_iff split: sum.splits)
  then have "fst p' \<in> model_names A" using table_unknown [OF ok] by fastforce
  then show ?thesis using y by (cases p') (auto simp: all_records_def model_names_def)
qed

lemma reached_stored: "storage_ok A db \<Longrightarrow> tranclp (cascades A db) p p' \<Longrightarrow> p' \<in> set (all_records A db)"
  by (erule tranclp.cases) (simp_all add: cascades_stored)

lemma chain_bound:
  assumes ok: "storage_ok A db"
  shows "(\<And>p1. rtranclp (cascades A db) p p1 \<Longrightarrow> \<not> tranclp (cascades A db) p1 p1) \<Longrightarrow> (cascades A db ^^ n) p p' \<Longrightarrow>
    n \<le> card {p1. tranclp (cascades A db) p p1}"
proof (induction n arbitrary: p)
  case (Suc n)
  let ?R = "cascades A db"
  obtain p1 where p1: "?R p p1" "(?R ^^ n) p1 p'" using relpowp_Suc_D2 [OF Suc.prems(2)] by blast
  have "\<not> tranclp ?R p2 p2" if "rtranclp ?R p1 p2" for p2
    using Suc.prems(1) p1(1) that by (meson converse_rtranclp_into_rtranclp)
  from Suc.IH [OF this p1(2)] have n: "n \<le> card {p2. tranclp ?R p1 p2}" .
  have sub: "{p2. tranclp ?R p1 p2} \<subset> {p2. tranclp ?R p p2}"
  proof (rule psubsetI)
    show "{p2. tranclp ?R p1 p2} \<subseteq> {p2. tranclp ?R p p2}"
    proof clarify
      fix a b assume "tranclp ?R p1 (a, b)"
      then show "tranclp ?R p (a, b)" using p1(1) by (rule tranclp_trans [OF tranclp.r_into_trancl, rotated])
    qed
    have "p1 \<in> {p2. tranclp ?R p p2}" using p1(1) by (simp add: tranclp.r_into_trancl)
    moreover have "p1 \<notin> {p2. tranclp ?R p1 p2}" using Suc.prems(1) [OF r_into_rtranclp, OF p1(1)] by simp
    ultimately show "{p2. tranclp ?R p1 p2} \<noteq> {p2. tranclp ?R p p2}" by (rule_tac notI) simp
  qed
  have "{p2. tranclp ?R p p2} \<subseteq> set (all_records A db)" using reached_stored [OF ok] by blast
  then have "finite {p2. tranclp ?R p p2}" by (rule finite_subset) simp
  from psubset_card_mono [OF this sub] n show ?case by simp
qed simp

lemma acyclic_no_chain:
  assumes "storage_ok A db" and "list_all (acyclic_from A db m) xs" and "n > length (all_records A db)"
  shows "no_chain A db n m xs"
proof -
  let ?T = "\<lambda>x. {p1. tranclp (cascades A db) (m, x) p1}"
  have "?T x \<subseteq> set (all_records A db)" for x using reached_stored [OF assms(1)] by blast
  then have card: "card (?T x) \<le> length (all_records A db)" for x
    by (meson List.finite_set card_length card_mono le_trans)
  show ?thesis unfolding no_chain_def
  proof (intro ballI allI notI)
    fix x p assume x: "x \<in> set xs" "(cascades A db ^^ n) (m, x) p"
    then have "acyclic_from A db m x" using assms(2) by (simp add: list_all_iff)
    then have "n \<le> card (?T x)" using chain_bound [OF assms(1) _ x(2)] unfolding acyclic_from_def by blast
    then show False using card [of x] assms(3) by simp
  qed
qed

lemma cyclic_chain:
  assumes "\<not> acyclic_from A db m x"
  shows "\<exists>p. (cascades A db ^^ n) (m, x) p"
proof -
  let ?R = "cascades A db"
  have "\<exists>p. (?R ^^ n) a p" if "rtranclp ?R a c" "tranclp ?R c c" for a c
    using that(1)
  proof (induction n arbitrary: a)
    case (Suc n)
    have "tranclp ?R a c" using Suc.prems that(2) by (rule rtranclp_tranclp_tranclp)
    then obtain b where "?R a b" "rtranclp ?R b c" by (auto dest: tranclpD)
    with Suc.IH [of b] show ?case by (meson relpowp_Suc_I2)
  qed (auto intro: relpowp_0_I)
  then show ?thesis using assms unfolding acyclic_from_def by blast
qed

lemma delete_cycle_never_ends:
  assumes "storage_ok A db" and "cascade_ok A db" and "cascade_ready A m x" and "\<not> acyclic_from A db m x"
  shows "deleteTraverse A db fuel m [x] [] = None"
proof (rule ccontr)
  assume "deleteTraverse A db fuel m [x] [] \<noteq> None"
  then obtain res where res: "deleteTraverse A db fuel m [x] [] = Some res" by blast
  obtain p where "(cascades A db ^^ fuel) (m, x) p" using cyclic_chain [OF assms(4)] by blast
  then show False using traverse_result [OF assms(1,2) _ res] assms(3) unfolding no_chain_def by (cases p) auto
qed

text \<open>
  C21. Deleting a record ends if and only if no record of its cascade leads back to itself; then a recursion
  deeper by two than the number of stored records is enough. On a cycle the traversal never returns.
\<close>

theorem delete_traversal_ends:
  assumes "storage_ok A db" and "cascade_ok A db" and "cascade_ready A m x"
  shows "((\<exists>fuel. deleteTraverse A db fuel m [x] [] \<noteq> None) \<longleftrightarrow> acyclic_from A db m x) \<and>
    (acyclic_from A db m x \<longrightarrow> deleteTraverse A db (length (all_records A db) + 2) m [x] [] \<noteq> None)"
proof -
  have "deleteTraverse A db (Suc (Suc (length (all_records A db)))) m [x] [] \<noteq> None" if "acyclic_from A db m x"
    by (rule traverse_returns [OF assms(1,2)]) (use assms(3) acyclic_no_chain [OF assms(1), of m "[x]"] that in auto)
  then show ?thesis using delete_cycle_never_ends [OF assms] by (metis add_2_eq_Suc')
qed

section \<open>What a deletion leaves\<close>

lemma delete_items:
  assumes "\<And>x. x \<in> set xs \<Longrightarrow> keyed A m x" and "m \<in> model_names A" and "storage_ok A db"
  defines "db' \<equiv> fold (\<lambda>x d. db_delete (getIndexKeyValuesPath A m x) (getStorename (ae_namespace A) m) d) xs db"
  shows "storage_ok A db' \<and> (\<forall>n y. y \<in> set (table A db' n) \<longleftrightarrow> y \<in> set (table A db n) \<and>
    (n = m \<longrightarrow> (\<forall>x \<in> set xs. getIndexKeyValuesFromModel A m y \<noteq> getIndexKeyValuesFromModel A m x)))"
  using assms(1,3) unfolding db'_def
proof (induction xs arbitrary: db)
  case (Cons x xs)
  have x: "keyed A m x" using Cons.prems(1) by simp
  note step = storage_delete [OF Cons.prems(2) assms(2) x]
  from Cons.IH [OF _ step(1)] Cons.prems(1) step(2) show ?case by (auto simp: getStorenameForModel_def)
qed simp

lemma delete_queue_items:
  assumes "\<And>m x. (m, x) \<in> queue_set q \<Longrightarrow> keyed A m x" and "\<And>m ys. (m, ys) \<in> set q \<Longrightarrow> m \<in> model_names A" and "storage_ok A db"
  shows "storage_ok A (deleteItem A q db) \<and> (\<forall>n y. y \<in> set (table A (deleteItem A q db) n) \<longleftrightarrow> y \<in> set (table A db n) \<and>
    (\<forall>x. (n, x) \<in> queue_set q \<longrightarrow> getIndexKeyValuesFromModel A n y \<noteq> getIndexKeyValuesFromModel A n x))"
  using assms
proof (induction q arbitrary: db)
  case (Cons e q)
  obtain m ys where e: "e = (m, ys)" by (cases e)
  have ys: "keyed A m y" if "y \<in> set ys" for y using Cons.prems(1) [of m y] that by (auto simp: e queue_set_def)
  have m: "m \<in> model_names A" using Cons.prems(2) [of m ys] by (simp add: e)
  note step = delete_items [OF ys m Cons.prems(3)]
  let ?d = "fold (\<lambda>x d. db_delete (getIndexKeyValuesPath A m x) (getStorename (ae_namespace A) m) d) ys db"
  have un: "deleteItem A (e # q) db = deleteItem A q ?d" by (simp add: deleteItem_def e)
  have set: "queue_set (e # q) = Pair m ` set ys \<union> queue_set q" by (auto simp: e queue_set_def)
  have ok: "storage_ok A ?d" using step by simp
  have tab: "y \<in> set (table A ?d n) \<longleftrightarrow> y \<in> set (table A db n) \<and>
      (n = m \<longrightarrow> (\<forall>x \<in> set ys. getIndexKeyValuesFromModel A m y \<noteq> getIndexKeyValuesFromModel A m x))" for n y
    using step by simp
  have rest: "keyed A k x" if "(k, x) \<in> queue_set q" for k x using Cons.prems(1) that by (auto simp: queue_set_def)
  have names: "k \<in> model_names A" if "(k, zs) \<in> set q" for k zs using Cons.prems(2) that by auto
  show ?case unfolding un set using Cons.IH [OF rest names ok] tab by auto
qed (simp add: deleteItem_def)

text \<open>The records of a cascade are keyed, and the queue names models of the schema.\<close>

lemma cascade_set_stored:
  assumes "storage_ok A db" and "(n, y) \<in> cascade_set A db m xs"
  shows "n = m \<and> y \<in> set xs \<or> n \<in> model_names A \<and> y \<in> set (table A db n)"
proof -
  from assms(2) obtain x where x: "x \<in> set xs" "(m, x) = (n, y) \<or> tranclp (cascades A db) (m, x) (n, y)"
    by (auto simp: cascade_set_def Nitpick.rtranclp_unfold)
  then show ?thesis using reached_stored [OF assms(1), of "(m, x)" "(n, y)"] by (auto simp: all_records_def model_names_def)
qed

lemma ofold_keeps:
  assumes "\<And>x q q'. x \<in> set xs \<Longrightarrow> N q \<Longrightarrow> f x q = Some (Inr q') \<Longrightarrow> N q'" and "N q" and "ofold f xs q = Some (Inr q1)"
  shows "N q1"
  using assms
proof (induction xs arbitrary: q)
  case (Cons x xs)
  obtain q2 where q2: "f x q = Some (Inr q2)" "ofold f xs q2 = Some (Inr q1)"
    using Cons.prems(3) by (auto simp: obind_def split: option.splits sum.splits)
  have "N q2" using Cons.prems(1) [OF _ Cons.prems(2) q2(1)] by simp
  show ?case by (rule Cons.IH [OF _ \<open>N q2\<close> q2(2)]) (use Cons.prems(1) in auto)
qed simp

lemma traverse_names:
  assumes ok: "storage_ok A db" "cascade_ok A db"
  shows "m \<in> model_names A \<Longrightarrow> \<forall>x \<in> set xs. cascade_ready A m x \<Longrightarrow> list_all (\<lambda>e. fst e \<in> model_names A) q \<Longrightarrow>
    deleteTraverse A db n m xs q = Some (Inr q') \<Longrightarrow> list_all (\<lambda>e. fst e \<in> model_names A) q'"
proof (induction n arbitrary: m xs q q')
  case (Suc n)
  let ?N = "\<lambda>q. list_all (\<lambda>e. fst e \<in> model_names A) q"
  obtain q1 where q1: "ofold (traverse_record A db n m) xs q = Some (Inr q1)" "q' = q1 @ [(m, xs)]"
    using Suc.prems(4) by (auto simp: traverse_unfold obind_def split: option.splits sum.splits)
  have "?N q3" if x: "x \<in> set xs" "?N q2" "traverse_record A db n m x q2 = Some (Inr q3)" for x q2 q3
  proof -
    obtain rs where rs: "cascading_relations A m = Inr rs"
      "\<And>r. r \<in> set rs \<Longrightarrow> remoteName r \<in> model_names A \<and> (\<exists>found. relatedRecords A db r x = Inr found \<and>
         Pair (remoteName r) ` set (case found of None \<Rightarrow> [] | Some rows \<Rightarrow> rows) = next_records A db r x)"
      using ready_relation [OF _ ok(1)] Suc.prems(2) x(1) by metis
    have step: "?N q5" if "r \<in> set rs" "?N q4" "traverse_relation A db n x r q4 = Some (Inr q5)" for r q4 q5
    proof -
      from rs(2) [OF that(1)] obtain found where found: "remoteName r \<in> model_names A" "relatedRecords A db r x = Inr found"
        "Pair (remoteName r) ` set (case found of None \<Rightarrow> [] | Some rows \<Rightarrow> rows) = next_records A db r x" by blast
      show ?thesis
      proof (cases found)
        case (Some rows)
        have "Pair (remoteName r) ` set rows = next_records A db r x" using found(3) Some by simp
        from Suc.IH [OF found(1) next_ready [OF ok(2) found(1) this] that(2)] that(3)
        show ?thesis by (simp add: traverse_relation_def found(2) Some)
      qed (use that found in \<open>simp add: traverse_relation_def\<close>)
    qed
    have "ofold (traverse_relation A db n x) rs q2 = Some (Inr q3)" using x(3) by (simp add: traverse_record_def rs(1))
    from ofold_keeps [where N = "list_all (\<lambda>e. fst e \<in> model_names A)", OF step x(2) this] show ?thesis .
  qed
  from ofold_keeps [where N = "list_all (\<lambda>e. fst e \<in> model_names A)", OF this Suc.prems(3) q1(1)] show ?case using q1(2) Suc.prems(1) by simp
qed simp

lemma table_same_key:
  assumes "storage_ok A db" and "m \<in> model_names A" and "x \<in> set (table A db m)" and "y \<in> set (table A db m)"
    and "getIndexKeyValuesFromModel A m x = getIndexKeyValuesFromModel A m y"
  shows "x = y"
proof -
  have "Some x = Some y"
    using assms(3-5) unfolding table_iff(1) [OF assms(1,2)] getIndexKeyValuesPath_def by metis
  then show ?thesis by simp
qed

text \<open>Deleting records of a model, whichever way they were found.\<close>

lemma delete_all_cascades:
  assumes ok: "storage_ok A db" and co: "cascade_ok A db" and m: "m \<in> model_names A" and xs: "list_all (keyed A m) xs"
    and ready: "list_all (cascade_ready A m) xs" and acyclic: "list_all (acyclic_from A db m) xs"
    and fuel: "fuel \<ge> length (all_records A db) + 2"
  shows "\<exists>deleted db'. delete_all A fuel m xs db = Some (Inr ((xs, deleted), db')) \<and> storage_ok A db' \<and>
    set deleted = cascade_set A db m xs \<and>
    (\<forall>n. set (table A db' n) = {y. y \<in> set (table A db n) \<and> (n, y) \<notin> cascade_set A db m xs \<and>
        \<not> (n = m \<and> getIndexKeyValuesFromModel A m y \<in> getIndexKeyValuesFromModel A m ` set xs)}) \<and>
    (\<forall>p n y. p \<in> cascade_set A db m xs \<and> y \<in> set (table A db' n) \<longrightarrow> \<not> cascades A db p (n, y))"
proof -
  let ?C = "cascade_set A db m xs"
  obtain n where n: "fuel = Suc n" "n > length (all_records A db)" using fuel by (cases fuel) auto
  have all: "\<forall>y \<in> set xs. cascade_ready A m y" using ready by (simp add: list_all_iff)
  obtain res where "deleteTraverse A db fuel m xs [] = Some res"
    using traverse_returns [OF ok co all acyclic_no_chain [OF ok acyclic n(2)], of "[]"] n(1) by auto
  with traverse_result [OF ok co all this] obtain q where q: "deleteTraverse A db fuel m xs [] = Some (Inr q)"
    "queue_set q = ?C" by auto
  have names: "k \<in> model_names A" if "(k, zs) \<in> set q" for k zs
    using traverse_names [OF ok co m all _ q(1)] that by (auto simp: list_all_iff)
  have stored: "k = m \<and> y \<in> set xs \<or> k \<in> model_names A \<and> y \<in> set (table A db k)" if "(k, y) \<in> ?C" for k y
    using cascade_set_stored [OF ok that] .
  have keyed: "keyed A k y" if "(k, y) \<in> queue_set q" for k y
    using stored [of k y] that q(2) xs table_iff(2) [OF ok] by (auto simp: list_all_iff)
  have del: "storage_ok A (deleteItem A q db) \<and> (\<forall>n y. y \<in> set (table A (deleteItem A q db) n) \<longleftrightarrow> y \<in> set (table A db n) \<and>
      (\<forall>x. (n, x) \<in> queue_set q \<longrightarrow> getIndexKeyValuesFromModel A n y \<noteq> getIndexKeyValuesFromModel A n x))"
    by (rule delete_queue_items) (use keyed names ok in blast)+
  have same: "(\<forall>z. (k, z) \<in> ?C \<longrightarrow> getIndexKeyValuesFromModel A k y \<noteq> getIndexKeyValuesFromModel A k z) \<longleftrightarrow>
      (k, y) \<notin> ?C \<and> \<not> (k = m \<and> getIndexKeyValuesFromModel A m y \<in> getIndexKeyValuesFromModel A m ` set xs)"
    if y: "y \<in> set (table A db k)" for k y
  proof -
    have xs_in: "(m, x) \<in> ?C" if "x \<in> set xs" for x using that by (auto simp: cascade_set_def)
    have "z = y" if "z \<in> set (table A db k)" "getIndexKeyValuesFromModel A k y = getIndexKeyValuesFromModel A k z" "k \<in> model_names A" for z
      using table_same_key [OF ok that(3,1) y] that(2) by simp
    then have same_key: "z = y \<or> k = m \<and> z \<in> set xs"
      if "(k, z) \<in> ?C" "getIndexKeyValuesFromModel A k y = getIndexKeyValuesFromModel A k z" for z
      using stored [OF that(1)] that(2) by blast
    show ?thesis
    proof (intro iffI conjI notI)
      assume L: "\<forall>z. (k, z) \<in> ?C \<longrightarrow> getIndexKeyValuesFromModel A k y \<noteq> getIndexKeyValuesFromModel A k z"
      show False if "(k, y) \<in> ?C" using L that by blast
      show False if "k = m \<and> getIndexKeyValuesFromModel A m y \<in> getIndexKeyValuesFromModel A m ` set xs"
        using L that xs_in by auto
    next
      assume R: "(k, y) \<notin> ?C \<and> \<not> (k = m \<and> getIndexKeyValuesFromModel A m y \<in> getIndexKeyValuesFromModel A m ` set xs)"
      show "\<forall>z. (k, z) \<in> ?C \<longrightarrow> getIndexKeyValuesFromModel A k y \<noteq> getIndexKeyValuesFromModel A k z"
        using R same_key by blast
    qed
  qed
  let ?db' = "deleteItem A q db"
  have tab: "set (table A ?db' k) = {y. y \<in> set (table A db k) \<and> (k, y) \<notin> ?C \<and>
      \<not> (k = m \<and> getIndexKeyValuesFromModel A m y \<in> getIndexKeyValuesFromModel A m ` set xs)}" for k
    using del same [where k = k] unfolding q(2) by blast
  have closed: "p' \<in> ?C" if "p \<in> ?C" "cascades A db p p'" for p p'
    using that by (auto simp: cascade_set_def intro: rtranclp.rtrancl_into_rtrancl)
  have "set (queue_items q) = queue_set q" by (force simp: queue_items_def queue_set_def image_iff)
  then have "set (queue_items q) = ?C" by (simp only: q(2))
  moreover have "delete_all A fuel m xs db = Some (Inr ((xs, queue_items q), ?db'))"
    by (simp add: delete_all_def q(1))
  moreover have "\<forall>p k y. p \<in> ?C \<and> y \<in> set (table A ?db' k) \<longrightarrow> \<not> cascades A db p (k, y)"
    using closed tab by blast
  ultimately show ?thesis using del tab by blast
qed

lemma a_delete_instance: "a_delete A fuel m x None db = delete_all A fuel m [x] db"
  by (simp add: a_delete_def)

text \<open>
  C14. Deleting a record deletes its whole cascade and nothing else: the records reached over its relations
  of type \<open>HAS_ONE\<close> and \<open>HAS_MANY\<close> are reported, they are exactly what the storage loses besides
  the stored version of the record, and no record is left that belonged to a deleted one.
\<close>

theorem delete_cascades:
  assumes "storage_ok A db" and "cascade_ok A db" and "m \<in> model_names A" and "keyed A m x"
    and "cascade_ready A m x" and "acyclic_from A db m x" and "fuel \<ge> length (all_records A db) + 2"
  shows "\<exists>deleted db'. a_delete A fuel m x None db = Some (Inr (([x], deleted), db')) \<and> storage_ok A db' \<and>
    set deleted = cascade_set A db m [x] \<and>
    (\<forall>n. set (table A db' n) = {y. y \<in> set (table A db n) \<and> (n, y) \<notin> cascade_set A db m [x] \<and>
        \<not> (n = m \<and> getIndexKeyValuesFromModel A m y = getIndexKeyValuesFromModel A m x)}) \<and>
    (\<forall>p n y. p \<in> cascade_set A db m [x] \<and> y \<in> set (table A db' n) \<longrightarrow> \<not> cascades A db p (n, y))"
  using delete_all_cascades [of A db m "[x]" fuel] assms by (simp add: a_delete_instance)

text \<open>
  Deleting by a predicate deletes the records that satisfy it with their cascades: it reports the former as
  matched and all of them as deleted, and no record that satisfies the predicate, and no record that
  belonged to a deleted one, is left.
\<close>

theorem delete_where_cascades:
  assumes ok: "storage_ok A db" "cascade_ok A db" "m \<in> model_names A" and adm: "admissible A db m (PGroup ty ps)"
    and P: "\<And>x. x \<in> set (table A db m) \<Longrightarrow> validatePredicate (ae_js A) x ty ps = Inr (P x)"
    and acyclic: "\<And>x. x \<in> set (table A db m) \<Longrightarrow> P x \<Longrightarrow> acyclic_from A db m x"
    and fuel: "fuel \<ge> length (all_records A db) + 2"
  shows "\<exists>found deleted db'. a_delete_where A fuel m (Some (PGroup ty ps)) db = Some (Inr ((found, deleted), db')) \<and>
    storage_ok A db' \<and> set found = {x \<in> set (table A db m). P x} \<and> set deleted = cascade_set A db m found \<and>
    (\<forall>n. set (table A db' n) = {y. y \<in> set (table A db n) \<and> (n, y) \<notin> set deleted}) \<and>
    (\<forall>p n y. p \<in> set deleted \<and> y \<in> set (table A db' n) \<longrightarrow> \<not> cascades A db p (n, y))"
proof -
  obtain found where found: "a_query A m (Some (PGroup ty ps)) None db = Inr found" "set found = {x \<in> set (table A db m). P x}"
    using adapter_query_pred [OF ok(1) adm P] by (auto simp: adapter_query_def)
  then have "list_all (keyed A m) found" "list_all (cascade_ready A m) found" "list_all (acyclic_from A db m) found"
    using table_iff(2) [OF ok(1,3)] cascade_ok_ready [OF ok(2,3)] acyclic by (auto simp: list_all_iff)
  from delete_all_cascades [OF ok this fuel] obtain deleted db' where d:
    "delete_all A fuel m found db = Some (Inr ((found, deleted), db'))" "storage_ok A db'" "set deleted = cascade_set A db m found"
    "\<forall>n. set (table A db' n) = {y. y \<in> set (table A db n) \<and> (n, y) \<notin> cascade_set A db m found \<and>
        \<not> (n = m \<and> getIndexKeyValuesFromModel A m y \<in> getIndexKeyValuesFromModel A m ` set found)}"
    "\<forall>p n y. p \<in> cascade_set A db m found \<and> y \<in> set (table A db' n) \<longrightarrow> \<not> cascades A db p (n, y)"
    by (elim exE conjE) (rule that)
  have "(m, y) \<in> cascade_set A db m found"
    if y: "y \<in> set (table A db m)" "getIndexKeyValuesFromModel A m y \<in> getIndexKeyValuesFromModel A m ` set found" for y
  proof -
    from y(2) obtain x where x: "x \<in> set found" "getIndexKeyValuesFromModel A m y = getIndexKeyValuesFromModel A m x" by auto
    then have "x \<in> set (table A db m)" unfolding found(2) by blast
    then have "x = y" using table_same_key [OF ok(1,3) _ y(1)] x(2) by simp
    then show ?thesis using x(1) by (auto simp: cascade_set_def)
  qed
  then have tab: "\<forall>n. set (table A db' n) = {y. y \<in> set (table A db n) \<and> (n, y) \<notin> set deleted}"
    using d(4) unfolding d(3) by blast
  have run: "a_delete_where A fuel m (Some (PGroup ty ps)) db = Some (Inr ((found, deleted), db'))"
    by (simp add: a_delete_where_def found(1) d(1))
  have orphans: "\<forall>p n y. p \<in> set deleted \<and> y \<in> set (table A db' n) \<longrightarrow> \<not> cascades A db p (n, y)"
    using d(5) unfolding d(3) .
  show ?thesis
    by (rule exI [of _ found], rule exI [of _ deleted], rule exI [of _ db']) (intro conjI run d(2) found(2) d(3) tab orphans)
qed

text \<open>
  With a condition, the deletion of an instance checks the stored record of its key: without one it
  deletes nothing and reports so, a record that fails the condition makes it throw before anything is
  deleted, and one that satisfies it is deleted as without a condition.
\<close>

theorem delete_on_condition:
  assumes "storage_ok A db" and "m \<in> model_names A" and "keyed A m x"
  shows "a_delete A fuel m x (Some (PGroup ty ps)) db =
    (case find (\<lambda>y. getIndexKeyValuesFromModel A m y = getIndexKeyValuesFromModel A m x) (table A db m) of
       None \<Rightarrow> Some (Inr (([x], []), db))
     | Some y \<Rightarrow> (case validatePredicate (ae_js A) y ty ps of
           Inl e \<Rightarrow> Some (Inl e)
         | Inr b \<Rightarrow> if b then a_delete A fuel m x None db else Some (Inl (JsError ''Conditional update failed''))))"
  unfolding a_delete_def stored_by_key [OF assms]
  by (auto simp: validateSaveCondition_def PGroup_def simp del: validatePredicate.simps split: option.split sum.split)

section \<open>Witnesses\<close>

lemma demo_cascading:
  "cascading_relations demo_adapter ''Post'' = Inr [demo_comments]" "cascading_relations demo_adapter ''Comment'' = Inr []"
  by (simp_all add: cascading_relations_def allFrom_def rel_from_def demo_adapter_def demo_comments_def rel_type_def
      cascadingRelationTypes_def demo_relationship_defs)

lemma demo_ready: "cascade_ready demo_adapter ''Post'' post1" "cascade_ready demo_adapter ''Comment'' comment1"
  by (simp_all add: cascade_ready_def demo_cascading demo_comments_joins demo_names plain_name_def groupKeys_def
      comparisonKeys_def join_values_ok_def name_at_def post1_def field_of_def key_text_value_def)

lemma demo_cascade_ok: "cascade_ok demo_adapter demo_stored"
proof -
  have "map fst (ae_models demo_adapter) = [''Comment'', ''Post'']" by (simp add: demo_adapter_def demo_namespace_def)
  then show ?thesis by (simp add: cascade_ok_def demo_tables demo_ready)
qed

lemma demo_steps: "cascades demo_adapter db p p' \<Longrightarrow> fst p = ''Post'' \<and> fst p' = ''Comment''"
proof -
  assume c: "cascades demo_adapter db p p'"
  then have "fst p \<in> model_names demo_adapter"
    by (auto simp: cascades_def cascading_relations_def model_names_def image_iff split: sum.splits option.splits
        dest!: map_of_SomeD intro: rev_bexI)
  with c show ?thesis by (auto simp: cascades_def demo_names demo_cascading demo_comments_joins)
qed

lemma demo_acyclic: "acyclic_from demo_adapter db m x"
proof -
  have "tranclp (cascades demo_adapter db) p p' \<Longrightarrow> fst p = ''Post'' \<and> fst p' = ''Comment''" for p p'
    by (induction rule: tranclp_induct) (auto dest: demo_steps)
  then show ?thesis unfolding acyclic_from_def by fastforce
qed

theorem delete_traversal_ends_witness:
  "deleteTraverse demo_adapter demo_stored (length (all_records demo_adapter demo_stored) + 2) ''Post'' [post1] [] \<noteq> None"
  using delete_traversal_ends [OF demo_stored_ok(1) demo_cascade_ok demo_ready(1)] demo_acyclic by blast

theorem delete_cascades_witness:
  "\<exists>deleted db'. a_delete demo_adapter (length (all_records demo_adapter demo_stored) + 2) ''Post'' post1 None demo_stored =
     Some (Inr (([post1], deleted), db')) \<and> table demo_adapter db' ''Comment'' = []"
proof -
  have "cascades demo_adapter demo_stored (''Post'', post1) (''Comment'', comment1)"
    using demo_stored_ok(2) [of "''Comment''"]
    by (simp add: cascades_def demo_cascading demo_comments_joins joins_to_def createRemoteQueryObject_def name_at_def
        post1_def comment1_def field_of_def isNullOrUndefined_def strict_eq_def)
  then have "(''Comment'', comment1) \<in> cascade_set demo_adapter demo_stored ''Post'' [post1]"
    by (auto simp: cascade_set_def)
  moreover have "set (table demo_adapter demo_stored ''Comment'') = {comment1}"
    using demo_stored_ok(2) [of "''Comment''"] by simp
  ultimately show ?thesis
    using delete_cascades [OF demo_stored_ok(1) demo_cascade_ok _ demo_keyed(1) demo_ready(1) demo_acyclic order_refl]
    by (simp add: demo_names) (metis (no_types, lifting) Collect_empty_eq empty_iff insert_iff set_empty)
qed

theorem delete_on_condition_witness:
  "a_delete demo_adapter 3 ''Post'' post1 (Some (PGroup ''and'' [PField ''id'' ''eq'' (JStr ''p2'')])) demo_stored =
     Some (Inl (JsError ''Conditional update failed''))"
proof -
  let ?f = "find (\<lambda>y. getIndexKeyValuesFromModel demo_adapter ''Post'' y = getIndexKeyValuesFromModel demo_adapter ''Post'' post1)
      (table demo_adapter demo_stored ''Post'')"
  have "?f \<noteq> None" using demo_stored_ok(2) [of "''Post''"] by (simp add: find_None_iff)
  then obtain y where y: "?f = Some y" by blast
  then have "y = post1" using find_SomeD [OF y] demo_stored_ok(2) [of "''Post''"] by simp
  then show ?thesis
    using delete_on_condition [OF demo_stored_ok(1) _ demo_keyed(1), of "''Post''" 3 "''and''" "[PField ''id'' ''eq'' (JStr ''p2'')]"] y
    by (simp add: demo_names PField_def validatePredicateField_def field_of_def post1_def strict_eq_def)
qed

theorem delete_where_cascades_witness:
  "\<exists>found deleted db'. a_delete_where demo_adapter (length (all_records demo_adapter demo_stored) + 2) ''Post''
     (Some (PGroup ''and'' [PField ''id'' ''eq'' (JStr ''p1'')])) demo_stored = Some (Inr ((found, deleted), db')) \<and> set found = {post1}"
proof -
  have m: "''Post'' \<in> model_names demo_adapter" by (simp add: demo_names)
  have adm: "admissible demo_adapter demo_stored ''Post'' (PGroup ''and'' [PField ''id'' ''eq'' (JStr ''p1'')])"
    using admissible_id [OF m, of "JStr ''p1''" demo_stored "''eq''"] by (simp add: key_text_value_def ID_def)
  have tab: "x \<in> set (table demo_adapter demo_stored ''Post'') \<longleftrightarrow> x = post1" for x
    using demo_stored_ok(2) [of "''Post''"] by simp
  have P: "validatePredicate (ae_js demo_adapter) x ''and'' [PField ''id'' ''eq'' (JStr ''p1'')] = Inr True"
    if "x \<in> set (table demo_adapter demo_stored ''Post'')" for x
    using that by (simp add: tab PField_def validatePredicateField_def field_of_def post1_def strict_eq_def)
  from delete_where_cascades [where P = "\<lambda>x. True", OF demo_stored_ok(1) demo_cascade_ok m adm P demo_acyclic order_refl]
  obtain found deleted db' where "a_delete_where demo_adapter (length (all_records demo_adapter demo_stored) + 2) ''Post''
     (Some (PGroup ''and'' [PField ''id'' ''eq'' (JStr ''p1'')])) demo_stored = Some (Inr ((found, deleted), db'))"
    "set found = {x \<in> set (table demo_adapter demo_stored ''Post''). True}" by blast
  then show ?thesis by (simp add: tab)
qed

end
