(* ===== verification/StorageFacadeProofs.thy ===== *)
theory StorageFacadeProofs
  imports StorageFacade CascadeProofs
begin

text \<open>
  What the storage publishes: the input of an update mutation, the messages of saves and deletions, and what
  observers receive of them.
\<close>

section \<open>The input of an update\<close>

definition changed :: "model \<Rightarrow> model \<Rightarrow> string \<Rightarrow> bool" where
  "changed source orig k \<longleftrightarrow> \<not> valuesEqual False (field_of source k) (field_of orig k)"

definition along_with :: "string list list \<Rightarrow> string list \<Rightarrow> string \<Rightarrow> bool" where
  "along_with cks ks f \<longleftrightarrow> list_ex (\<lambda>fs. f \<in> set fs \<and> list_ex (\<lambda>k. k \<in> set fs) ks) cks"

lemma map_of_put_original: "map_of (put_original orig fs acc) f = (if f \<in> set fs then Some (field_of orig f) else map_of acc f)"
  unfolding put_original_def by (induction fs arbitrary: acc) (auto simp: update_conv)

lemma map_of_put_changed:
  "map_of (put_changed cks source orig k acc) f =
     (if \<not> changed source orig k then map_of acc f
      else if along_with cks [k] f then Some (field_of orig f)
      else if f = k then Some (null_if_undefined (field_of orig k)) else map_of acc f)"
proof -
  have "map_of (fold (\<lambda>fs a. if k \<in> set fs then put_original orig fs a else a) cks acc) f =
      (if along_with cks [k] f then Some (field_of orig f) else map_of acc f)" for acc
    by (induction cks arbitrary: acc) (auto simp: along_with_def map_of_put_original)
  then show ?thesis by (simp add: put_changed_def changed_def update_conv)
qed

lemma map_of_changed_fields:
  "map_of (fold (put_changed cks source orig) ks []) f =
     (let touched = filter (changed source orig) ks in
      if along_with cks touched f then Some (field_of orig f)
      else if f \<in> set touched then Some (null_if_undefined (field_of orig f)) else None)"
proof (induction ks rule: rev_induct)
  case (snoc k ks)
  have more: "along_with cks (ts @ [k]) g \<longleftrightarrow> along_with cks ts g \<or> along_with cks [k] g" for ts g
    by (auto simp: along_with_def list_ex_iff)
  have self: "along_with cks ts k \<Longrightarrow> along_with cks [k] k" for ts by (auto simp: along_with_def list_ex_iff)
  show ?case by (auto simp: map_of_put_changed snoc Let_def more dest: self)
qed (simp add: along_with_def list_ex_iff)

lemma field_of_map_of: "field_of m f = (case map_of m f of None \<Rightarrow> JUndefined | Some v \<Rightarrow> v)"
  by (simp add: field_of_def)

text \<open>
  An update is sent if and only if a patched field changed its value. It holds the identifying and
  internal fields, the primary key and every composite key a changed field is part of, as stored; a changed
  field outside these keys with \<open>null\<close> for a removed value; and no other field.
\<close>

theorem changed_fields_input:
  fixes fs :: "string option list" and source orig :: model
  assumes sm: "map_of (ae_models A) m = Some sm" and ks: "keys_of_model A m = (pk, cks)"
  defines "touched \<equiv> filter (changed source orig) (concat (map (\<lambda>f. patched_keys sm (undefined_text f)) fs))"
  shows "if touched = [] then getChangedFieldsInput A m orig (Some (fs, source)) = Inr None
    else \<exists>input. getChangedFieldsInput A m orig (Some (fs, source)) = Inr (Some input) \<and>
      (\<forall>f. field_of input f =
        (if f \<in> set metadata_fields \<or> f \<in> set pk \<or> along_with cks touched f then field_of orig f
         else if f \<in> set touched then null_if_undefined (field_of orig f) else JUndefined))"
proof -
  define updated where "updated = fold (put_changed cks source orig) (concat (map (\<lambda>f. patched_keys sm (undefined_text f)) fs)) []"
  have fields: "map_of updated f = (if along_with cks touched f then Some (field_of orig f)
      else if f \<in> set touched then Some (null_if_undefined (field_of orig f)) else None)" for f
    by (simp add: updated_def map_of_changed_fields touched_def)
  have result: "getChangedFieldsInput A m orig (Some (fs, source)) = Inr (if updated = [] then None
      else Some (put_original orig metadata_fields (put_original orig pk updated)))"
    by (simp add: getChangedFieldsInput_def sm ks updated_def Let_def)
  show ?thesis
  proof (cases "touched = []")
    case True
    then have "map_of updated f = None" for f by (simp add: fields along_with_def list_ex_iff)
    then have "fst (hd updated) \<notin> fst ` set updated" by (simp add: map_of_eq_None_iff)
    then have "updated = []" by (cases updated) auto
    then show ?thesis using True result by simp
  next
    case False
    then have "map_of updated (hd touched) \<noteq> None" by (simp add: fields)
    then have "updated \<noteq> []" by auto
    then show ?thesis using False by (simp add: result field_of_map_of map_of_put_original fields)
  qed
qed

text \<open>A cleared field of a composite key is sent as \<open>undefined\<close>, which serialising drops, not as \<open>null\<close>.\<close>

lemma cleared_key_field_is_undefined:
  assumes "map_of (ae_models A) m = Some sm" and "keys_of_model A m = (pk, cks)" and "patched_keys sm f = [f]"
    and "changed source orig f" and "field_of orig f = JUndefined" and "fs \<in> set cks" and "f \<in> set fs"
  shows "\<exists>input. getChangedFieldsInput A m orig (Some ([Some f], source)) = Inr (Some input) \<and> field_of input f = JUndefined"
proof -
  have "along_with cks [f] f" using assms(6,7) by (auto simp: along_with_def list_ex_iff)
  then show ?thesis
    using changed_fields_input [OF assms(1,2), of source orig "[Some f]"] assms(3-5) by (auto split: if_splits)
qed

section \<open>Messages\<close>

lemma pushed_fold: "\<not> st_completed st \<Longrightarrow> st_pushed (fold (\<lambda>d. push (g d)) ds st) = st_pushed st @ map g ds
    \<and> \<not> st_completed (fold (\<lambda>d. push (g d)) ds st) \<and> st_db (fold (\<lambda>d. push (g d)) ds st) = st_db st"
  by (induction ds arbitrary: st) (auto simp: push_def)

text \<open>
  Deleting an instance from an open storage publishes one unconditional deletion per record of its cascade,
  in the order of the queue, for records the storage no longer has and none of whose related records is left.
\<close>

theorem delete_publishes_cascade:
  assumes st: "st_initialized st" "\<not> st_completed st" and ok: "storage_ok A (st_db st)" "cascade_ok A (st_db st)"
    and m: "m \<in> model_names A" "keyed A m x" "cascade_ready A m x" "acyclic_from A (st_db st) m x"
    and sm: "map_of (ae_models A) m = Some sm" and fuel: "fuel \<ge> length (all_records A (st_db st)) + 2"
  shows "\<exists>deleted st'. st_delete A fuel m (Some x) None mutator st = Some (Inr ([x], deleted), st') \<and>
    st_pushed st' = st_pushed st @ map (\<lambda>d. \<lparr>msg_model = fst d, msg_opType = DELETE, msg_element = snd d,
      msg_mutator = mutator, msg_condition = None, msg_savedElement = None\<rparr>) deleted \<and>
    set deleted = cascade_set A (st_db st) m [x] \<and> storage_ok A (st_db st') \<and>
    (\<forall>p n y. p \<in> set deleted \<and> y \<in> set (table A (st_db st') n) \<longrightarrow> \<not> cascades A (st_db st) p (n, y))"
proof -
  obtain deleted db' where d: "a_delete A fuel m x None (st_db st) = Some (Inr (([x], deleted), db'))"
    "storage_ok A db'" "set deleted = cascade_set A (st_db st) m [x]"
    "\<forall>p n y. p \<in> cascade_set A (st_db st) m [x] \<and> y \<in> set (table A db' n) \<longrightarrow> \<not> cascades A (st_db st) p (n, y)"
    using delete_all_cascades [of A "st_db st" m "[x]" fuel] ok m fuel by (auto simp: a_delete_instance)
  have init: "st_init A st = st" using st(1) by (simp add: st_init_def)
  let ?msg = "\<lambda>d. \<lparr>msg_model = fst d, msg_opType = DELETE, msg_element = snd d,
      msg_mutator = mutator, msg_condition = None, msg_savedElement = None\<rparr>"
  let ?st' = "fold (\<lambda>d. push (?msg d)) deleted (st\<lparr>st_db := db'\<rparr>)"
  have msg: "delete_message (ae_js A) sm b models None mutator = ?msg" for b models
    by (rule ext) (simp add: delete_message_def)
  have "st_delete A fuel m (Some x) None mutator st = Some (Inr ([x], deleted), ?st')"
    unfolding st_delete_def Let_def init by (simp add: d(1) sm msg)
  moreover have "st_pushed ?st' = st_pushed st @ map ?msg deleted" "st_db ?st' = db'"
    using pushed_fold [of "st\<lparr>st_db := db'\<rparr>" ?msg deleted] st(2) by simp_all
  ultimately show ?thesis using d(2-4) by fastforce
qed

text \<open>
  The condition of a deletion goes to every record of the cascade whose identifier reads like the deleted
  instance's, whatever its model is.
\<close>

lemma cascade_message_condition:
  assumes "getIdentifierValue E sm (snd d) = getIdentifierValue E sm x"
  shows "msg_condition (delete_message E sm True [x] condition mutator d) = condition"
  using assms by (simp add: delete_message_def)

section \<open>Observers\<close>

text \<open>
  A save of the application, observed: the observer of its model gets exactly one message, with the changed
  fields, and none when nothing changed; an observer that skips the saving mutator gets none, and an
  observer of another model gets none. A save of the merger publishes the stored record itself.
\<close>

theorem save_is_observed:
  fixes mutator :: "mutator option"
  assumes st: "st_initialized st" "\<not> st_completed st"
    and save: "a_save A m x condition (st_db st) = Inr ([(x, opType)], db)" and op: "opType \<noteq> DELETE"
    and input: "getChangedFieldsInput A m x patchesTuple = Inr input"
  defines "element \<equiv> (if mutator \<noteq> None then Some x else input)"
  shows "\<exists>st'. st_save A m x condition mutator patchesTuple st = (Inr [(x, opType)], st') \<and> st_db st' = db \<and>
    (\<exists>news. st_pushed st' = st_pushed st @ news \<and>
      map msg_element (fst (observe E (Some m) None skipOwn news)) =
        (if skipOwn \<noteq> None \<and> mutator = skipOwn then [] else case element of None \<Rightarrow> [] | Some e \<Rightarrow> [e]) \<and>
      (m' \<noteq> m \<longrightarrow> fst (observe E (Some m') predicate skipOwn news) = []))"
proof -
  have init: "st_init A st = st" using st(1) by (simp add: st_init_def)
  have el: "(if mutator \<noteq> None then Inr (Some x)
      else if opType = UPDATE \<or> opType = INSERT then getChangedFieldsInput A m x patchesTuple else Inr (Some x)) = Inr element"
    using op input by (cases opType) (auto simp: element_def)
  let ?msg = "\<lambda>e. \<lparr>msg_model = m, msg_opType = opType, msg_element = e, msg_mutator = mutator,
                 msg_condition = condition, msg_savedElement = Some x\<rparr>"
  define news where "news = (case element of None \<Rightarrow> [] | Some e \<Rightarrow> [?msg e])"
  have "st_save A m x condition mutator patchesTuple st = (Inr [(x, opType)], st\<lparr>st_db := db, st_pushed := st_pushed st @ news\<rparr>)"
    using el st(2) by (cases element) (simp_all add: st_save_def init save push_def news_def)
  moreover have "map msg_element (fst (observe E (Some m) None skipOwn news)) =
        (if skipOwn \<noteq> None \<and> mutator = skipOwn then [] else case element of None \<Rightarrow> [] | Some e \<Rightarrow> [e])"
    by (cases element) (simp_all add: news_def observed_def)
  moreover have "m' \<noteq> m \<Longrightarrow> fst (observe E (Some m') predicate skipOwn news) = []"
    by (cases element) (simp_all add: news_def observed_def)
  ultimately show ?thesis by fastforce
qed

text \<open>A batch saved through the exclusive storage reaches the observers that skip its mutator.\<close>

lemma exclusive_batch_loses_mutator:
  assumes "st_initialized st" and "\<not> st_completed st" and "a_batchSave A m items (st_db st) = Inr (result, db)"
  shows "\<exists>st' news. ex_batchSave A m items mutator st = (Inr result, st') \<and> st_pushed st' = st_pushed st @ news \<and>
    fst (observe E None None (Some own) news) = news \<and> map msg_element news = map fst result"
proof -
  let ?msg = "\<lambda>(element, opType). \<lparr>msg_model = m, msg_opType = opType, msg_element = element, msg_mutator = None,
                  msg_condition = None, msg_savedElement = None\<rparr>"
  have init: "st_init A st = st" using assms(1) by (simp add: st_init_def)
  have eq: "(\<lambda>(element, opType). push \<lparr>msg_model = m, msg_opType = opType, msg_element = element, msg_mutator = None,
                  msg_condition = None, msg_savedElement = None\<rparr>) = (\<lambda>d. push (?msg d))"
    by (rule ext) (simp split: prod.split)
  let ?st' = "fold (\<lambda>d. push (?msg d)) result (st\<lparr>st_db := db\<rparr>)"
  have "ex_batchSave A m items mutator st = (Inr result, ?st')"
    by (simp add: ex_batchSave_def st_batchSave_def init assms(3) eq)
  moreover have "st_pushed ?st' = st_pushed st @ map ?msg result"
    using pushed_fold [of "st\<lparr>st_db := db\<rparr>" ?msg result] assms(2) by simp
  moreover have "fst (observe E None None (Some own) (map ?msg result)) = map ?msg result"
    by (induction result) (auto simp: observed_def split: prod.split)
  moreover have "map msg_element (map ?msg result) = map fst result" by (induction result) auto
  ultimately show ?thesis by blast
qed

section \<open>Witnesses\<close>

definition demo_storage :: storage where
  "demo_storage = \<lparr>st_initialized = True, st_setUp = True, st_db = demo_stored, st_pushed = [], st_completed = False\<rparr>"

definition titled :: model where
  "titled = [(''id'', JStr ''p1''), (''title'', JStr ''new'')]"

lemma demo_storage_fields [simp]: "st_initialized demo_storage" "\<not> st_completed demo_storage" "st_db demo_storage = demo_stored"
    "st_pushed demo_storage = []"
  by (simp_all add: demo_storage_def)

lemma demo_model: "map_of (ae_models demo_adapter) ''Post'' = Some demo_post" "keys_of_model demo_adapter m = ([], [])"
  by (simp_all add: demo_adapter_def demo_namespace_def keys_of_model_def)

lemma title_key: "patched_keys demo_post ''title'' = [''title'']"
  by (simp add: patched_keys_def demo_post_def isTargetNameAssociation_def)

lemma title_changed: "changed [] titled ''title''"
  by (simp add: changed_def titled_def field_of_def valuesEqual.simps strict_eq_def)

theorem changed_fields_input_witness:
  "\<exists>input. getChangedFieldsInput demo_adapter ''Post'' titled (Some ([Some ''title''], [])) = Inr (Some input) \<and>
     field_of input ''title'' = JStr ''new'' \<and> field_of input ''id'' = JStr ''p1'' \<and> field_of input ''other'' = JUndefined"
proof -
  have touched: "filter (changed [] titled) (concat (map (\<lambda>f. patched_keys demo_post (undefined_text f)) [Some ''title''])) = [''title'']"
    by (simp add: title_key title_changed)
  from changed_fields_input [OF demo_model, of "[]" titled "[Some ''title'']"]
  obtain input where input: "getChangedFieldsInput demo_adapter ''Post'' titled (Some ([Some ''title''], [])) = Inr (Some input)"
    "\<forall>f. field_of input f = (if f \<in> set metadata_fields then field_of titled f
         else if f \<in> set [''title''] then null_if_undefined (field_of titled f) else JUndefined)"
    unfolding touched by (auto simp: along_with_def)
  moreover have "field_of titled ''title'' = JStr ''new''" "field_of titled ''id'' = JStr ''p1''"
    by (simp_all add: titled_def field_of_def)
  ultimately show ?thesis by (auto simp: metadata_fields_def null_if_undefined_def)
qed

theorem delete_publishes_cascade_witness:
  "\<exists>deleted st'. st_delete demo_adapter (length (all_records demo_adapter demo_stored) + 2) ''Post'' (Some post1) None None demo_storage =
     Some (Inr ([post1], deleted), st') \<and> length (st_pushed st') = length deleted"
proof -
  have m: "''Post'' \<in> model_names demo_adapter" by (simp add: demo_names)
  from delete_publishes_cascade [OF demo_storage_fields(1,2), unfolded demo_storage_fields(3,4),
      OF demo_stored_ok(1) demo_cascade_ok m demo_keyed(1) demo_ready(1) demo_acyclic demo_model(1) order_refl, of None]
  obtain deleted st' where d: "st_delete demo_adapter (length (all_records demo_adapter demo_stored) + 2) ''Post'' (Some post1) None None
      demo_storage = Some (Inr ([post1], deleted), st')"
    and "st_pushed st' = [] @ map (\<lambda>d. \<lparr>msg_model = fst d, msg_opType = DELETE, msg_element = snd d,
      msg_mutator = None, msg_condition = None, msg_savedElement = None\<rparr>) deleted" by blast
  then have "length (st_pushed st') = length deleted" by simp
  with d show ?thesis by blast
qed

theorem save_is_observed_witness:
  "\<exists>st'. st_save demo_adapter ''Post'' post1 None None None demo_storage = (Inr [(post1, UPDATE)], st')"
proof -
  obtain db' where db': "a_save demo_adapter ''Post'' post1 None demo_stored = Inr ([(post1, UPDATE)], db')"
    using demo_save by blast
  have "getChangedFieldsInput demo_adapter ''Post'' post1 None = Inr None" by (simp add: getChangedFieldsInput_def)
  from save_is_observed [OF demo_storage_fields(1,2), unfolded demo_storage_fields(3,4), OF db' op_type.distinct(5) this]
  have "\<exists>st'. st_save demo_adapter ''Post'' post1 None None None demo_storage = (Inr [(post1, UPDATE)], st') \<and> st_db st' = db'"
    by metis
  then show ?thesis by blast
qed

end
