(* ===== verification/PredicateBuilder.thy ===== *)
theory PredicateBuilder
  imports ConditionsProofs
begin

text \<open>
  The predicate builder of DataStore (\<open>recursivePredicateFor\<close> and \<open>predicateFor\<close> in
  \<open>datastore/src/predicates/next.ts\<close>): the object a customer's predicate gets, with \<open>and\<close>, \<open>or\<close>, \<open>not\<close> and a
  getter per field. A link holds the query built so far and the group that grows, its tail, here by the path
  of operand positions from the root. Every step works on a copy. What a predicate returns is looked
  up by its key; here it is the condition itself.
\<close>

section \<open>Links\<close>

record link =
  lk_model :: string
  lk_recursive :: bool
  lk_field :: "string option"
  lk_query :: condition
  lk_tail :: "nat list"

definition recursivePredicateFor :: "string \<Rightarrow> bool \<Rightarrow> string option \<Rightarrow> link" where
  "recursivePredicateFor m allowRecursion field = \<lparr>lk_model = m, lk_recursive = allowRecursion, lk_field = field,
     lk_query = GroupCondition m field None ''and'' [] False, lk_tail = []\<rparr>"

definition predicateFor :: "string \<Rightarrow> link" where
  "predicateFor m = recursivePredicateFor m False None"

definition internals :: "link \<Rightarrow> condition" where
  "internals l = lk_query l"

text \<open>\<open>operands.push\<close> on the group a path leads to.\<close>

fun push_operand :: "nat list \<Rightarrow> condition \<Rightarrow> condition \<Rightarrow> condition" where
  "push_operand path new (FieldCondition f op vs) = FieldCondition f op vs"
| "push_operand [] new (GroupCondition m f rt op os opt) = GroupCondition m f rt op (os @ [new]) opt"
| "push_operand (i # path) new (GroupCondition m f rt op os opt) =
     (if i < length os then GroupCondition m f rt op (os[i := push_operand path new (os ! i)]) opt
      else GroupCondition m f rt op os opt)"

fun operand_path :: "nat list \<Rightarrow> condition \<Rightarrow> condition option" where
  "operand_path [] c = Some c"
| "operand_path (i # path) (FieldCondition f op vs) = None"
| "operand_path (i # path) (GroupCondition m f rt op os opt) =
     (if i < length os then operand_path path (os ! i) else None)"

definition tail_length :: "link \<Rightarrow> nat" where
  "tail_length l = (case operand_path (lk_tail l) (lk_query l) of
     Some (GroupCondition m f rt op os opt) \<Rightarrow> length os | _ \<Rightarrow> 0)"

definition link_push :: "link \<Rightarrow> condition \<Rightarrow> condition" where
  "link_push l new = push_operand (lk_tail l) new (copy_condition (lk_query l))"

text \<open>\<open>and\<close> and \<open>or\<close> take the conditions their callback returns, \<open>not\<close> takes one.\<close>

definition link_group :: "link \<Rightarrow> string \<Rightarrow> condition list \<Rightarrow> condition" where
  "link_group l op children = link_push l (GroupCondition (lk_model l) (lk_field l) None op children False)"

definition link_not :: "link \<Rightarrow> condition \<Rightarrow> condition" where
  "link_not l child = link_push l (GroupCondition (lk_model l) (lk_field l) None ''not'' [child] False)"

text \<open>A getter on the link: of a value field or of a relationship.\<close>

definition field_definition :: "namespace \<Rightarrow> link \<Rightarrow> string \<Rightarrow> model_field option" where
  "field_definition ns l f = Option.bind (map_of ns (lk_model l)) (\<lambda>sm. map_of (sm_fields sm) f)"

definition link_field :: "js_env \<Rightarrow> namespace \<Rightarrow> link \<Rightarrow> string \<Rightarrow> string \<Rightarrow> jsval list \<Rightarrow> js_error + condition" where
  "link_field E ns l f op vs =
     (case field_definition ns l f of
        None \<Rightarrow> Inl JsTypeError
      | Some def \<Rightarrow>
          if mf_association def \<noteq> None \<or> op \<notin> set comparisonKeys then Inl JsTypeError
          else sbind (newFieldCondition E f op (map null_if_undefined vs)) (\<lambda>c. Inr (link_push l c)))"

definition link_related :: "namespace \<Rightarrow> link \<Rightarrow> string \<Rightarrow> js_error + link" where
  "link_related ns l f =
     (case field_definition ns l f of
        None \<Rightarrow> Inl JsTypeError
      | Some def \<Rightarrow>
          (case mf_association def of
             None \<Rightarrow> Inl JsTypeError
           | Some a \<Rightarrow>
               if \<not> lk_recursive l then Inl (JsError ''Predication on releated models is not supported in this context.'')
               else if connectionType a \<in> {''BELONGS_TO'', ''HAS_ONE'', ''HAS_MANY''} then
                 (case mf_model def of
                    None \<Rightarrow> Inl (JsError ''Related model metadata is missing. This is a bug! Please report it.'')
                  | Some m \<Rightarrow> Inr \<lparr>lk_model = m, lk_recursive = True, lk_field = None,
                      lk_query = link_push l (GroupCondition m (Some f) (Some (connectionType a)) ''and'' [] False),
                      lk_tail = lk_tail l @ [tail_length l]\<rparr>)
               else Inl (JsError ''Related model definition doesn't have a typedef. This is a bug! Please report it.'')))"

section \<open>What can be built\<close>

text \<open>
  The links a predicate on \<open>m\<close> can reach, and the conditions it can return: a link itself is one too.
\<close>

inductive built_link :: "js_env \<Rightarrow> namespace \<Rightarrow> string \<Rightarrow> link \<Rightarrow> bool"
  and built :: "js_env \<Rightarrow> namespace \<Rightarrow> string \<Rightarrow> condition \<Rightarrow> bool" for E ns where
  Seed: "built_link E ns m (recursivePredicateFor m r None)"
| Related: "built_link E ns m l \<Longrightarrow> link_related ns l f = Inr l' \<Longrightarrow> built_link E ns m l'"
| Link: "built_link E ns m l \<Longrightarrow> built E ns m (internals l)"
| Field: "built_link E ns m l \<Longrightarrow> link_field E ns l f op vs = Inr c \<Longrightarrow> built E ns m c"
| Group: "built_link E ns m l \<Longrightarrow> op = ''and'' \<or> op = ''or'' \<Longrightarrow> (\<And>c. c \<in> set cs \<Longrightarrow> built E ns (lk_model l) c) \<Longrightarrow>
    built E ns m (link_group l op cs)"
| Not: "built_link E ns m l \<Longrightarrow> built E ns (lk_model l) c \<Longrightarrow> built E ns m (link_not l c)"

text \<open>
  Well-typed conditions over the model \<open>owner\<close>: field conditions are on its value fields with as many
  operands as the operator takes; groups without a field are on the same model, groups with one on the
  model its relationship leads to; \<open>not\<close> has one operand, a group.
\<close>

fun well_typed :: "namespace \<Rightarrow> string \<Rightarrow> condition \<Rightarrow> bool" where
  "well_typed ns owner (FieldCondition f op vs) \<longleftrightarrow> operand_count op vs \<and> list_all (\<lambda>v. v \<noteq> JUndefined) vs \<and>
     (case Option.bind (map_of ns owner) (\<lambda>sm. map_of (sm_fields sm) f) of
        None \<Rightarrow> False | Some def \<Rightarrow> mf_association def = None)"
| "well_typed ns owner (GroupCondition m fo rt op os opt) \<longleftrightarrow>
     (op = ''and'' \<or> op = ''or'' \<or> op = ''not'' \<and> length os = 1 \<and> \<not> is_field (hd os)) \<and>
     (case fo of
        None \<Rightarrow> m = owner \<and> rt = None
      | Some field \<Rightarrow> op = ''and'' \<and>
          (case Option.bind (map_of ns owner) (\<lambda>sm. map_of (sm_fields sm) field) of
             None \<Rightarrow> False
           | Some def \<Rightarrow> mf_model def = Some m \<and> rt \<noteq> None \<and> rt = map_option connectionType (mf_association def))) \<and>
     (\<forall>c \<in> set os. well_typed ns m c)"

section \<open>Growing the tail\<close>

lemma is_field_copy [simp]: "is_field (copy_condition c) = is_field c"
  by (cases c) simp_all

lemma is_field_push [simp]: "is_field (push_operand p new c) = is_field c"
  by (cases "(p, new, c)" rule: push_operand.cases) simp_all

lemma well_typed_copy: "well_typed ns owner c \<Longrightarrow> well_typed ns owner (copy_condition c)"
proof (induction c arbitrary: owner)
  case (GroupCondition m fo rt op os opt)
  then have "hd (map copy_condition os) = copy_condition (hd os)" if "op = ''not''" using that by (cases os) auto
  with GroupCondition show ?case by auto
qed simp

lemma path_copy: "operand_path p (copy_condition c) = map_option copy_condition (operand_path p c)"
  by (induction p c rule: operand_path.induct) auto

lemma ex_False [simp]: "Ex Not"
  by (rule exI [of _ False]) simp

text \<open>Where a tail is: the group it names, an \<open>and\<close> over the model of the link.\<close>

definition tail_at :: "nat list \<Rightarrow> condition \<Rightarrow> string \<Rightarrow> bool" where
  "tail_at p q m \<longleftrightarrow> (\<exists>fo rt os opt. operand_path p q = Some (GroupCondition m fo rt ''and'' os opt))"

lemma push_well_typed:
  assumes "well_typed ns owner q" and "operand_path p q = Some (GroupCondition m fo rt ''and'' os opt)" and "well_typed ns m new"
  shows "well_typed ns owner (push_operand p new q)"
  using assms(1,2)
proof (induction p q arbitrary: owner rule: operand_path.induct)
  case (1 c)
  then show ?case using assms(3) by auto
next
  case (3 i path m' f' rt' op' os' opt')
  then have i: "i < length os'" and sub: "operand_path path (os' ! i) = Some (GroupCondition m fo rt ''and'' os opt)"
    by (auto split: if_splits)
  have all: "\<forall>c \<in> set os'. well_typed ns m' c" using 3 by simp
  then have new: "well_typed ns m' (push_operand path new (os' ! i))" using 3(1) [OF i _ sub] i by simp
  have "\<forall>c \<in> set (os'[i := push_operand path new (os' ! i)]). well_typed ns m' c"
    using all new by (auto dest: set_update_subset_insert [THEN subsetD])
  moreover have "\<not> is_field (hd (os'[i := push_operand path new (os' ! i)]))" if "length os' = 1" "\<not> is_field (hd os')"
    using that i by (cases os') auto
  ultimately show ?case using 3(2) i by auto
qed simp

lemma push_path:
  assumes "operand_path p q = Some (GroupCondition m fo rt op os opt)"
  shows "operand_path (p @ [length os]) (push_operand p new q) = Some new"
  using assms
proof (induction p q rule: operand_path.induct)
  case (1 c)
  then show ?case by simp
next
  case (3 i path m' f' rt' op' os' opt')
  then show ?case by (auto split: if_splits)
qed simp

lemma push_root:
  "\<not> is_field q \<Longrightarrow> \<exists>os opt. push_operand p new (copy_condition q) = GroupCondition (g_model q) (g_field q) (g_relationshipType q) (g_operator q) os opt"
  by (cases q; cases p) auto

section \<open>Every predicate is well typed\<close>

definition link_inv :: "namespace \<Rightarrow> string \<Rightarrow> link \<Rightarrow> bool" where
  "link_inv ns m l \<longleftrightarrow> well_typed ns m (lk_query l) \<and> tail_at (lk_tail l) (lk_query l) (lk_model l) \<and> lk_field l = None \<and>
     (\<exists>os opt. lk_query l = GroupCondition m None None ''and'' os opt)"

definition result_inv :: "namespace \<Rightarrow> string \<Rightarrow> condition \<Rightarrow> bool" where
  "result_inv ns m c \<longleftrightarrow> well_typed ns m c \<and> (\<exists>os opt. c = GroupCondition m None None ''and'' os opt)"

lemma link_push_inv:
  assumes "link_inv ns m l" and "well_typed ns (lk_model l) new"
  shows "result_inv ns m (link_push l new)"
proof -
  obtain fo rt os where tail: "operand_path (lk_tail l) (copy_condition (lk_query l)) = Some (GroupCondition (lk_model l) fo rt ''and'' os False)"
    using assms(1) by (auto simp: link_inv_def tail_at_def path_copy)
  have "well_typed ns m (link_push l new)"
    unfolding link_push_def using assms by (intro push_well_typed [OF _ tail]) (auto simp: link_inv_def well_typed_copy)
  moreover have "\<exists>os opt. link_push l new = GroupCondition m None None ''and'' os opt"
    using assms(1) push_root [of "lk_query l" "lk_tail l" new] by (auto simp: link_inv_def link_push_def)
  ultimately show ?thesis by (simp add: result_inv_def)
qed

lemma related_inv:
  assumes "link_inv ns m l" and "link_related ns l f = Inr l'"
  shows "link_inv ns m l'"
proof -
  obtain def a m' where d: "field_definition ns l f = Some def" "mf_association def = Some a" "mf_model def = Some m'"
    "l' = \<lparr>lk_model = m', lk_recursive = True, lk_field = None,
       lk_query = link_push l (GroupCondition m' (Some f) (Some (connectionType a)) ''and'' [] False),
       lk_tail = lk_tail l @ [tail_length l]\<rparr>"
    using assms(2) by (auto simp: link_related_def split: option.splits if_splits)
  let ?new = "GroupCondition m' (Some f) (Some (connectionType a)) ''and'' [] False"
  have "well_typed ns (lk_model l) ?new" using d by (simp add: field_definition_def)
  from link_push_inv [OF assms(1) this] have q: "result_inv ns m (link_push l ?new)" .
  obtain fo rt os opt where tail: "operand_path (lk_tail l) (lk_query l) = Some (GroupCondition (lk_model l) fo rt ''and'' os opt)"
    using assms(1) by (auto simp: link_inv_def tail_at_def)
  then have "operand_path (lk_tail l) (copy_condition (lk_query l))
      = Some (GroupCondition (lk_model l) fo rt ''and'' (map copy_condition os) False)"
    by (simp add: path_copy)
  from push_path [OF this, of ?new] tail have "tail_at (lk_tail l @ [tail_length l]) (link_push l ?new) m'"
    by (simp add: tail_at_def tail_length_def link_push_def)
  with q show ?thesis by (simp add: link_inv_def d(4) result_inv_def)
qed

lemma built_link_inv: "built_link E ns m l \<Longrightarrow> link_inv ns m l"
  and built_inv: "built E ns m c \<Longrightarrow> result_inv ns m c"
proof (induction rule: built_link_built.inducts)
  case (Seed m r)
  then show ?case by (simp add: recursivePredicateFor_def link_inv_def tail_at_def)
next
  case (Related m l f l')
  then show ?case using related_inv by blast
next
  case (Link m l)
  then show ?case by (simp add: internals_def link_inv_def result_inv_def)
next
  case (Field m l f op vs c)
  then have l: "link_inv ns m l" and c: "link_field E ns l f op vs = Inr c" by simp_all
  from c obtain fc where fc: "newFieldCondition E f op (map null_if_undefined vs) = Inr fc" "c = link_push l fc"
    by (auto simp: link_field_def sbind_eq_Inr split: option.splits if_splits)
  have "well_typed ns (lk_model l) fc"
    using newFieldCondition_count [OF fc(1)] c
    by (auto simp: link_field_def field_definition_def list_all_iff null_if_undefined_def split: option.splits if_splits)
  then show ?case using link_push_inv [OF l] fc(2) by simp
next
  case (Group m l op cs)
  then have l: "link_inv ns m l" by simp
  have "well_typed ns (lk_model l) (GroupCondition (lk_model l) (lk_field l) None op cs False)"
    using Group by (auto simp: link_inv_def result_inv_def)
  then show ?case using link_push_inv [OF l] by (simp add: link_group_def)
next
  case (Not m l c)
  then have l: "link_inv ns m l" by simp
  have "well_typed ns (lk_model l) (GroupCondition (lk_model l) (lk_field l) None ''not'' [c] False)"
    using Not by (auto simp: link_inv_def result_inv_def)
  then show ?case using link_push_inv [OF l] by (simp add: link_not_def)
qed

lemma well_typed_same_owner: "well_typed ns owner c \<Longrightarrow> same_owner owner c"
  by (induction c arbitrary: owner) (auto split: option.splits)

text \<open>
  C25. Whatever a predicate does with the builder, the condition it returns is well typed: an \<open>and\<close> group
  over the model it was given, in which field conditions test value fields of the model their group is
  about with the right number of operands, groups follow the relationships of the schema, and every
  \<open>not\<close> has exactly one group under it; the evaluation and the storage can rely on it.
\<close>

theorem built_well_typed:
  assumes "built E ns m c"
  shows "well_typed ns m c \<and> same_owner m c \<and> (\<exists>os opt. c = GroupCondition m None None ''and'' os opt)"
  using built_inv [OF assms] well_typed_same_owner by (auto simp: result_inv_def)

definition rated_post :: namespace where
  "rated_post = [(''Post'', \<lparr>sm_fields = [(''rating'', \<lparr>mf_name = ''rating'', mf_model = None, mf_association = None\<rparr>)],
     sm_attributes = None\<rparr>)]"

theorem built_well_typed_witness:
  "well_typed rated_post ''Post'' (link_not (recursivePredicateFor ''Post'' True None)
     (GroupCondition ''Post'' None None ''and'' [FieldCondition ''rating'' ''gt'' [JNum 4]] False))"
proof -
  let ?l = "recursivePredicateFor ''Post'' True None"
  have l: "built_link demo_js rated_post ''Post'' ?l" by (rule Seed)
  have "link_field demo_js rated_post ?l ''rating'' ''gt'' [JNum 4]
      = Inr (GroupCondition ''Post'' None None ''and'' [FieldCondition ''rating'' ''gt'' [JNum 4]] False)"
    by (simp add: link_field_def field_definition_def recursivePredicateFor_def rated_post_def comparisonKeys_def
        newFieldCondition_def validate_field_def check_operands_def null_if_undefined_def link_push_def)
  from Field [OF l this] have "built demo_js rated_post ''Post''
      (GroupCondition ''Post'' None None ''and'' [FieldCondition ''rating'' ''gt'' [JNum 4]] False)" .
  then have "built demo_js rated_post ''Post'' (link_not ?l
      (GroupCondition ''Post'' None None ''and'' [FieldCondition ''rating'' ''gt'' [JNum 4]] False))"
    by (intro Not [OF l]) (simp add: recursivePredicateFor_def)
  from built_well_typed [OF this] show ?thesis by blast
qed

end
