(* ===== verification/QueryPitfalls.thy ===== *)
theory QueryPitfalls
  imports CascadeProofs PredicateBuilder
begin

text \<open>
  Where a query and the evaluation of its condition on the records part, evaluated on a small storage: the
  cases that the theorem on queries excludes by its hypotheses. And deletions that never end.
\<close>

section \<open>A storage with a post and two comments\<close>

definition value_field :: "string \<Rightarrow> string \<times> model_field" where
  "value_field f = (f, \<lparr>mf_name = f, mf_model = None, mf_association = None\<rparr>)"

definition blog :: namespace where
  "blog = [(''Post'', \<lparr>sm_fields = [value_field ''id'', value_field ''rating'',
       (''comments'', \<lparr>mf_name = ''comments'', mf_model = Some ''Comment'', mf_association = Some comments_association\<rparr>)],
       sm_attributes = None\<rparr>),
     (''Comment'', \<lparr>sm_fields = [value_field ''id'',
       (''post'', \<lparr>mf_name = ''post'', mf_model = Some ''Post'', mf_association = Some post_association\<rparr>)], sm_attributes = None\<rparr>)]"

definition blog_adapter :: adapter_env where
  "blog_adapter = demo_adapter\<lparr>ae_models := blog\<rparr>"

definition comment2 :: model where
  "comment2 = [(''id'', JStr ''c2''), (''postId'', JStr ''p1'')]"

definition two_comments :: asdb where
  "two_comments = demo_saved ''Comment'' comment2 demo_stored"

definition found_posts :: "js_error + condition \<Rightarrow> js_error + model list" where
  "found_posts c = sbind c (\<lambda>c. fetch blog (adapter_query blog_adapter two_comments) c False)"

definition post_matches :: "js_error + condition \<Rightarrow> js_error + bool" where
  "post_matches c = sbind c (\<lambda>c. matches demo_js (load_related blog (adapter_query blog_adapter two_comments)) ''Post'' c post1)"

text \<open>Predicates as a customer writes them: no comment is \<open>c1\<close>; any of no conditions; the rating is not above 4.\<close>

definition seed :: link where
  "seed = recursivePredicateFor ''Post'' True None"

definition no_c1 :: "js_error + condition" where
  "no_c1 = sbind (link_related blog seed ''comments'') (\<lambda>l. sbind (link_field demo_js blog l ''id'' ''eq'' [JStr ''c1'']) (\<lambda>c.
     Inr (link_not seed c)))"

definition any_of_none :: "js_error + condition" where
  "any_of_none = Inr (link_group seed ''or'' [])"

definition not_above :: "js_error + condition" where
  "not_above = sbind (link_field demo_js blog seed ''rating'' ''gt'' [JNum 4]) (\<lambda>c. Inr (link_not seed c))"

text \<open>
  Three queries that do not return the records on which their condition holds. Negating a condition on related
  records asks for a related record that fails it, so a post with another comment than \<open>c1\<close> is
  found although it has the comment \<open>c1\<close>. A disjunction of nothing returns every record. A negated comparison
  reverses the operator and misses a record without the field.
\<close>

theorem query_and_match_differ:
  "found_posts no_c1 = Inr [post1] \<and> post_matches no_c1 = Inr False \<and>
   found_posts any_of_none = Inr [post1] \<and> post_matches any_of_none = Inr False \<and>
   found_posts not_above = Inr [] \<and> post_matches not_above = Inr True"
proof -
  have "found_posts no_c1 = Inr [post1]" by code_simp
  moreover have "post_matches no_c1 = Inr False" by code_simp
  moreover have "found_posts any_of_none = Inr [post1]" by code_simp
  moreover have "post_matches any_of_none = Inr False" by code_simp
  moreover have "found_posts not_above = Inr []" by code_simp
  moreover have "post_matches not_above = Inr True" by code_simp
  ultimately show ?thesis by blast
qed

section \<open>Composite keys\<close>

text \<open>A model whose primary key has two fields.\<close>

definition composite_adapter :: adapter_env where
  "composite_adapter = demo_adapter\<lparr>ae_models := [(''City'', \<lparr>sm_fields = [], sm_attributes =
       Some [\<lparr>attr_type = ''key'', attr_name = None, attr_fields = Some [''country'', ''name''], attr_timestamps = None\<rparr>]\<rparr>)],
     ae_keys := [(''City'', \<lparr>primaryKey = Some [''country'', ''name''], compositeKeys = Some []\<rparr>)]\<rparr>"

definition city :: model where
  "city = [(''country'', JStr ''de''), (''name'', JStr ''Ulm'')]"

definition one_city :: asdb where
  "one_city = (case a_save composite_adapter ''City'' city None demo_db of Inr (r, db) \<Rightarrow> db | Inl e \<Rightarrow> demo_db)"

definition de_or_bonn :: "past list" where
  "de_or_bonn = [PField ''country'' ''eq'' (JStr ''de''), PField ''name'' ''eq'' (JStr ''Bonn'')]"

lemma or_over_composite_key:
  "a_query composite_adapter ''City'' (Some (PGroup ''or'' de_or_bonn)) None one_city = Inr [] \<and>
   validatePredicate demo_js city ''or'' de_or_bonn = Inr True \<and>
   a_query composite_adapter ''City'' None None one_city = Inr [city]"
proof -
  have "a_query composite_adapter ''City'' (Some (PGroup ''or'' de_or_bonn)) None one_city = Inr []" by code_simp
  moreover have "validatePredicate demo_js city ''or'' de_or_bonn = Inr True" by code_simp
  moreover have "a_query composite_adapter ''City'' None None one_city = Inr [city]" by code_simp
  ultimately show ?thesis by blast
qed

section \<open>Records that own themselves\<close>

lemma self_owned_never_deleted:
  assumes "storage_ok A db" and "cascade_ok A db" and "cascade_ready A m x" and "cascades A db (m, x) (m, x)"
  shows "a_delete A fuel m x None db = None"
proof -
  have "\<not> acyclic_from A db m x"
    using assms(4) unfolding acyclic_from_def by (meson rtranclp.rtrancl_refl tranclp.r_into_trancl)
  then have "deleteTraverse A db fuel m [x] [] = None" using delete_cycle_never_ends [OF assms(1-3)] by blast
  then show ?thesis by (simp add: a_delete_def delete_all_def)
qed

end
