(* ===== verification/Mutex.thy ===== *)
theory Mutex
  imports Prelude
begin

text \<open>
  The mutex of \<open>core/src/Mutex/Mutex.ts\<close>, under which DataStore's exclusive storage runs its operations. A
  ticket stands for the \<open>resolve\<close> function of a promise in the queue; calling it is the first component of
  the result of \<open>dispatchNext\<close>. The workers are the callbacks of \<open>runExclusive\<close>.
\<close>

section \<open>The mutex\<close>

record mutex =
  mx_queue :: "nat list"
  mx_pending :: bool

definition newMutex :: mutex where
  "newMutex = \<lparr>mx_queue = [], mx_pending = False\<rparr>"

definition isLocked :: "mutex \<Rightarrow> bool" where
  "isLocked mx = mx_pending mx"

definition dispatchNext :: "mutex \<Rightarrow> nat option \<times> mutex" where
  "dispatchNext mx =
     (case mx_queue mx of
        [] \<Rightarrow> (None, mx\<lparr>mx_pending := False\<rparr>)
      | t # ts \<Rightarrow> (Some t, mx\<lparr>mx_pending := True, mx_queue := ts\<rparr>))"

definition acquire :: "nat \<Rightarrow> mutex \<Rightarrow> nat option \<times> mutex" where
  "acquire ticket mx =
     (let mx1 = mx\<lparr>mx_queue := mx_queue mx @ [ticket]\<rparr>
      in if \<not> mx_pending mx1 then dispatchNext mx1 else (None, mx1))"

section \<open>Workers\<close>

text \<open>How a callback ends: it throws at once, or its promise resolves or rejects.\<close>

datatype ('e, 'x) outcome = Throws 'e | Resolves 'x | Rejects 'e

fun worker_end :: "('e, 'x) outcome \<Rightarrow> mutex \<Rightarrow> ('e + 'x) \<times> nat option \<times> mutex" where
  "worker_end (Throws e) mx = (case dispatchNext mx of (n, mx1) \<Rightarrow> (Inl e, n, mx1))"
| "worker_end (Resolves x) mx = (case dispatchNext mx of (n, mx1) \<Rightarrow> (Inr x, n, mx1))"
| "worker_end (Rejects e) mx = (case dispatchNext mx of (n, mx1) \<Rightarrow> (Inl e, n, mx1))"

text \<open>
  The runs of \<open>runExclusive\<close>: what was requested, started and settled, in order, and which callbacks run.
\<close>

record ('e, 'x) exclusive =
  ex_mutex :: mutex
  ex_requested :: "nat list"
  ex_started :: "nat list"
  ex_running :: "nat list"
  ex_settled :: "(nat \<times> ('e + 'x)) list"

definition idle :: "('e, 'x) exclusive" where
  "idle = \<lparr>ex_mutex = newMutex, ex_requested = [], ex_started = [], ex_running = [], ex_settled = []\<rparr>"

definition granted :: "nat option \<Rightarrow> nat list" where
  "granted n = (case n of None \<Rightarrow> [] | Some t \<Rightarrow> [t])"

definition start_next :: "nat option \<times> mutex \<Rightarrow> ('e, 'x) exclusive \<Rightarrow> ('e, 'x) exclusive" where
  "start_next r s = s\<lparr>ex_mutex := snd r, ex_started := ex_started s @ granted (fst r), ex_running := ex_running s @ granted (fst r)\<rparr>"

definition request :: "nat \<Rightarrow> ('e, 'x) exclusive \<Rightarrow> ('e, 'x) exclusive" where
  "request t s = start_next (acquire t (ex_mutex s)) (s\<lparr>ex_requested := ex_requested s @ [t]\<rparr>)"

definition finish :: "nat \<Rightarrow> ('e, 'x) outcome \<Rightarrow> ('e, 'x) exclusive \<Rightarrow> ('e, 'x) exclusive" where
  "finish t oc s = (case worker_end oc (ex_mutex s) of (res, n, mx) \<Rightarrow>
     start_next (n, mx) (s\<lparr>ex_running := remove1 t (ex_running s), ex_settled := ex_settled s @ [(t, res)]\<rparr>))"

inductive ex_step :: "('e, 'x) exclusive \<Rightarrow> ('e, 'x) exclusive \<Rightarrow> bool" where
  Request: "t \<notin> set (ex_requested s) \<Longrightarrow> ex_step s (request t s)"
| Finish: "t \<in> set (ex_running s) \<Longrightarrow> ex_step s (finish t oc s)"

inductive reachable :: "('e, 'x) exclusive \<Rightarrow> bool" where
  Idle: "reachable idle"
| Step: "reachable s \<Longrightarrow> ex_step s s' \<Longrightarrow> reachable s'"

inductive_cases ex_stepE: "ex_step s s'"

section \<open>Exclusion and order\<close>

definition exclusive_inv :: "('e, 'x) exclusive \<Rightarrow> bool" where
  "exclusive_inv s \<longleftrightarrow> ex_requested s = ex_started s @ mx_queue (ex_mutex s) \<and>
     ex_started s = map fst (ex_settled s) @ ex_running s \<and> length (ex_running s) \<le> 1 \<and>
     (mx_pending (ex_mutex s) \<longleftrightarrow> ex_running s \<noteq> []) \<and> (mx_queue (ex_mutex s) \<noteq> [] \<longrightarrow> mx_pending (ex_mutex s)) \<and>
     distinct (ex_requested s)"

lemma worker_end_dispatch: "\<exists>res. worker_end oc mx = (res, dispatchNext mx)"
  by (cases oc) (auto split: prod.split)

lemma request_inv: "exclusive_inv s \<Longrightarrow> t \<notin> set (ex_requested s) \<Longrightarrow> exclusive_inv (request t s)"
  by (auto simp: exclusive_inv_def request_def start_next_def acquire_def dispatchNext_def granted_def Let_def
      simp del: set_map split: list.splits)

lemma finish_inv:
  assumes "exclusive_inv s" and "t \<in> set (ex_running s)"
  shows "exclusive_inv (finish t oc s)"
proof -
  obtain res where res: "worker_end oc (ex_mutex s) = (res, dispatchNext (ex_mutex s))" using worker_end_dispatch by blast
  have "ex_running s = [t]" using assms by (cases "ex_running s") (auto simp: exclusive_inv_def)
  with assms show ?thesis
    by (auto simp: finish_def res exclusive_inv_def start_next_def dispatchNext_def granted_def simp del: set_map split: list.splits)
qed

lemma reachable_inv: "reachable s \<Longrightarrow> exclusive_inv s"
  by (induction rule: reachable.induct)
    (auto simp: request_inv finish_inv elim!: ex_stepE, simp add: exclusive_inv_def idle_def newMutex_def)

text \<open>
  C38. At any time at most one callback runs, and the mutex is locked exactly while one does; callbacks start
  in the order they were requested, one when the one before it has settled, and nobody waits while
  the mutex is free.
\<close>

theorem mutex_exclusive:
  assumes "reachable s"
  shows "length (ex_running s) \<le> 1 \<and> (isLocked (ex_mutex s) \<longleftrightarrow> ex_running s \<noteq> []) \<and>
    ex_requested s = map fst (ex_settled s) @ ex_running s @ mx_queue (ex_mutex s) \<and>
    (\<not> isLocked (ex_mutex s) \<longrightarrow> map fst (ex_settled s) = ex_requested s)"
  using reachable_inv [OF assms] by (auto simp: exclusive_inv_def isLocked_def)

text \<open>The running callback ends, again and again.\<close>

fun finish_all :: "('e, 'x) outcome list \<Rightarrow> ('e, 'x) exclusive \<Rightarrow> ('e, 'x) exclusive" where
  "finish_all [] s = s"
| "finish_all (oc # ocs) s = (case ex_running s of [] \<Rightarrow> s | t # _ \<Rightarrow> finish_all ocs (finish t oc s))"

lemma finish_running:
  assumes "exclusive_inv s" and "ex_running s = t # ts"
  shows "exclusive_inv (finish t oc s)" and "ex_requested (finish t oc s) = ex_requested s"
    and "length (ex_running (finish t oc s) @ mx_queue (ex_mutex (finish t oc s))) + 1 = length (ex_running s @ mx_queue (ex_mutex s))"
proof -
  obtain res where res: "worker_end oc (ex_mutex s) = (res, dispatchNext (ex_mutex s))" using worker_end_dispatch by blast
  show "exclusive_inv (finish t oc s)" by (rule finish_inv [OF assms(1)]) (simp add: assms(2))
  show "ex_requested (finish t oc s) = ex_requested s" by (simp add: finish_def res start_next_def split: prod.split)
  show "length (ex_running (finish t oc s) @ mx_queue (ex_mutex (finish t oc s))) + 1 = length (ex_running s @ mx_queue (ex_mutex s))"
    using assms by (auto simp: finish_def res start_next_def dispatchNext_def granted_def exclusive_inv_def split: list.splits)
qed

lemma finish_all_settles:
  assumes "exclusive_inv s" and "length ocs = length (ex_running s @ mx_queue (ex_mutex s))"
  shows "let s' = finish_all ocs s in exclusive_inv s' \<and> ex_requested s' = ex_requested s \<and> ex_running s' = []"
  using assms
proof (induction ocs arbitrary: s)
  case Nil
  then show ?case by simp
next
  case (Cons oc ocs)
  show ?case
  proof (cases "ex_running s")
    case Nil
    then show ?thesis using Cons.prems by (auto simp: exclusive_inv_def)
  next
    case (Cons t ts)
    note f = finish_running [OF \<open>exclusive_inv s\<close> Cons, of oc]
    have "length ocs = length (ex_running (finish t oc s) @ mx_queue (ex_mutex (finish t oc s)))"
      using f(3) Cons.prems(2) by simp
    from Cons.IH [OF f(1) this] show ?thesis using f(2) Cons by (simp add: Let_def)
  qed
qed

text \<open>
  However the callbacks end, also by throwing, everyone is served: when the running callback ends
  again and again, once per waiting request, the mutex is free and every request is settled, in order.
\<close>

theorem mutex_serves_everyone:
  assumes "reachable s" and "length ocs = length (ex_running s @ mx_queue (ex_mutex s))"
  shows "ex_running (finish_all ocs s) = [] \<and> \<not> isLocked (ex_mutex (finish_all ocs s)) \<and>
    map fst (ex_settled (finish_all ocs s)) = ex_requested s"
  using finish_all_settles [OF reachable_inv [OF assms(1)] assms(2)]
  by (auto simp: Let_def exclusive_inv_def isLocked_def)

text \<open>
  The function that releases the mutex does not know whether it was called before: called twice it starts
  the next callback while another one runs.
\<close>

lemma double_release_overlaps:
  "let s = request 3 (request 2 (request 1 idle)) :: (nat, nat) exclusive;
       s1 = finish 1 (Resolves 0) s;
       s2 = start_next (dispatchNext (ex_mutex s1)) s1
   in ex_running s1 = [2] \<and> ex_running s2 = [2, 3]"
  by (simp add: request_def idle_def newMutex_def acquire_def start_next_def dispatchNext_def granted_def finish_def Let_def)

lemma demo_reachable: "reachable (request 2 (request 1 (idle :: (nat, nat) exclusive)))"
  by (rule reachable.Step [OF reachable.Step [OF reachable.Idle ex_step.Request] ex_step.Request])
     (simp_all add: idle_def request_def start_next_def)

theorem mutex_exclusive_witness:
  "length (ex_running (request 2 (request 1 (idle :: (nat, nat) exclusive)))) \<le> 1"
  using mutex_exclusive [OF demo_reachable] by blast

theorem mutex_serves_everyone_witness:
  "map fst (ex_settled (finish_all [Throws 0, Resolves 0] (request 2 (request 1 (idle :: (nat, nat) exclusive))))) = [1, 2]"
  using mutex_serves_everyone [OF demo_reachable, of "[Throws 0, Resolves 0]"]
  by (simp add: request_def idle_def newMutex_def acquire_def start_next_def dispatchNext_def granted_def Let_def)

end
