(* ===== verification/MultipartUpload.thy ===== *)
theory MultipartUpload
  imports Complex_Main KeyValueStorage
begin

text \<open>
  Multipart uploads to S3 (\<open>storage/src/providers/s3/apis/internal/uploadData\<close>): the size and the cutting of
  parts, the executors that upload them concurrently from one shared generator, the check of the
  completed parts, the cache of resumable uploads, and the task object that controls a transfer
  (\<open>utils/transferTask.ts\<close>). Data is a list of bytes; sizes are exact, the largest object being far below the
  integers a JavaScript number holds.
\<close>

section \<open>Parts\<close>

definition MiB :: nat where "MiB = 1024 * 1024"
definition TiB :: nat where "TiB = 1024 * 1024 * MiB"
definition DEFAULT_PART_SIZE :: nat where "DEFAULT_PART_SIZE = 5 * MiB"
definition MAX_OBJECT_SIZE :: nat where "MAX_OBJECT_SIZE = 5 * TiB"
definition MAX_PARTS_COUNT :: nat where "MAX_PARTS_COUNT = 10000"
definition DEFAULT_QUEUE_SIZE :: nat where "DEFAULT_QUEUE_SIZE = 4"

text \<open>\<open>Math.ceil(a / b)\<close>.\<close>

definition ceil_div :: "nat \<Rightarrow> nat \<Rightarrow> nat" where
  "ceil_div a b = (a + b - 1) div b"

lemma ceil_div_gt: "0 < b \<Longrightarrow> ceil_div a b > n \<longleftrightarrow> a > n * b"
proof -
  assume b: "0 < b"
  have "ceil_div a b > n \<longleftrightarrow> Suc n * b \<le> a + b - 1"
    unfolding ceil_div_def using b by (simp add: less_eq_div_iff_mult_less_eq Suc_le_eq [symmetric])
  then show ?thesis using b by (simp add: algebra_simps) linarith
qed

text \<open>The loop ends because a part size of the total size gives one part.\<close>

function part_size_loop :: "nat \<Rightarrow> nat \<Rightarrow> nat" where
  "part_size_loop totalSize partSize =
     (if 0 < partSize \<and> ceil_div totalSize partSize > MAX_PARTS_COUNT
      then part_size_loop totalSize (partSize * 2) else partSize)"
  by auto
termination
proof (relation "measure (\<lambda>(t, p). t - p)", simp, goal_cases)
  case (1 t p)
  then have "MAX_PARTS_COUNT * p < t" using ceil_div_gt [of p MAX_PARTS_COUNT t] by simp
  then have "p < t" by (simp add: MAX_PARTS_COUNT_def)
  then show ?case using 1 by (simp add: diff_less_mono2)
qed

declare part_size_loop.simps [simp del]

definition calculatePartSize :: "nat option \<Rightarrow> nat" where
  "calculatePartSize totalSize =
     (case totalSize of
        None \<Rightarrow> DEFAULT_PART_SIZE
      | Some t \<Rightarrow> if t = 0 then DEFAULT_PART_SIZE else part_size_loop t DEFAULT_PART_SIZE)"

record 'b part_to_upload =
  pt_number :: nat
  pt_data :: "'b list"
  pt_size :: nat

text \<open>\<open>buffer.slice(start, end)\<close>.\<close>

definition slice :: "'b list \<Rightarrow> nat \<Rightarrow> nat \<Rightarrow> 'b list" where
  "slice buffer start stop = take (stop - start) (drop start buffer)"

function chunks_loop :: "'b list \<Rightarrow> nat \<Rightarrow> nat \<Rightarrow> nat \<Rightarrow> nat \<Rightarrow> nat \<Rightarrow> nat \<Rightarrow> 'b part_to_upload list" where
  "chunks_loop buffer byteOffset byteLength partSize partNumber startByte endByte =
     (if 0 < partSize \<and> endByte < byteLength + byteOffset then
        \<lparr>pt_number = partNumber, pt_data = slice buffer startByte endByte, pt_size = partSize\<rparr>
          # chunks_loop buffer byteOffset byteLength partSize (partNumber + 1) endByte (endByte + partSize)
      else [\<lparr>pt_number = partNumber, pt_data = slice buffer startByte (byteLength + byteOffset),
             pt_size = byteLength + byteOffset - startByte\<rparr>])"
  by auto
termination
  by (relation "measure (\<lambda>(bu, off, len, ps, n, s, e). len + off - e)") auto

declare chunks_loop.simps [simp del]

definition chunk_helper :: "'b list \<Rightarrow> nat \<Rightarrow> nat \<Rightarrow> nat \<Rightarrow> 'b part_to_upload list" where
  "chunk_helper buffer byteOffset byteLength partSize =
     chunks_loop buffer byteOffset byteLength partSize 1 byteOffset (byteOffset + min partSize byteLength)"

text \<open>The payloads: a blob, a view of a buffer, a buffer, a text (given by its bytes), nothing at all, or something else.\<close>

datatype 'b payload = PNone | PBlob "'b list" | PView "'b list" nat nat | PBuffer "'b list" | PText "'b list" | POther

datatype upload_error = InvalidUploadSource | ObjectIsTooLarge | IntegrityError

fun getDataChunker :: "'b payload \<Rightarrow> nat option \<Rightarrow> upload_error + 'b part_to_upload list" where
  "getDataChunker (PBlob bytes) totalSize = Inr (chunk_helper bytes 0 (length bytes) (calculatePartSize totalSize))"
| "getDataChunker (PView buffer off len) totalSize = Inr (chunk_helper buffer off len (calculatePartSize totalSize))"
| "getDataChunker (PBuffer bytes) totalSize = Inr (chunk_helper bytes 0 (length bytes) (calculatePartSize totalSize))"
| "getDataChunker (PText bytes) totalSize =
     Inr (chunk_helper bytes 0 (length bytes) (calculatePartSize (Some (length bytes))))"
| "getDataChunker PNone totalSize = Inl InvalidUploadSource"
| "getDataChunker POther totalSize = Inl InvalidUploadSource"

fun byteLength :: "'b payload \<Rightarrow> nat option" where
  "byteLength PNone = Some 0"
| "byteLength (PBlob bytes) = Some (length bytes)"
| "byteLength (PView buffer off len) = Some len"
| "byteLength (PBuffer bytes) = Some (length bytes)"
| "byteLength (PText bytes) = Some (length bytes)"
| "byteLength POther = None"

text \<open>Which upload \<open>uploadData\<close> starts: \<open>True\<close> for a multipart one.\<close>

definition uploadData :: "'b payload \<Rightarrow> upload_error + bool" where
  "uploadData data =
     (case byteLength data of
        None \<Rightarrow> Inl InvalidUploadSource
      | Some n \<Rightarrow> if n > MAX_OBJECT_SIZE then Inl ObjectIsTooLarge else Inr (n > DEFAULT_PART_SIZE))"

section \<open>Completed parts\<close>

text \<open>\<open>sort\<close> by part number is stable, like \<open>sort_key\<close>.\<close>

record uploaded_part =
  up_number :: nat
  up_eTag :: string

definition sortUploadParts :: "uploaded_part list \<Rightarrow> uploaded_part list" where
  "sortUploadParts parts = sort_key up_number parts"

definition validateCompletedParts :: "uploaded_part list \<Rightarrow> nat \<Rightarrow> upload_error + unit" where
  "validateCompletedParts completedParts totalSize =
     (let partsExpected = ceil_div totalSize (calculatePartSize (Some totalSize));
          sorted = sortUploadParts completedParts
      in if length completedParts \<noteq> partsExpected \<or>
            \<not> list_all (\<lambda>i. up_number (sorted ! i) = i + 1) [0..<length sorted]
         then Inl IntegrityError else Inr ())"

section \<open>Executors\<close>

text \<open>
  The executors of one upload take parts from one generator. An executor asks for the next part, skips it
  when it was uploaded before, and waits for the answer of the service otherwise. A \<open>for\<close> loop that is left
  early, by \<open>break\<close> or by an exception, closes the generator, which then gives nobody a part any more.
\<close>

datatype 'b executor = Ready | Uploading "'b part_to_upload" | Done | Failed

record 'b upload =
  ul_generator :: "'b part_to_upload list"
  ul_executors :: "'b executor list"
  ul_completed :: "uploaded_part list"
  ul_transferred :: "nat list"
  ul_aborted :: bool
  ul_known :: "nat set"

definition start_executors :: "'b part_to_upload list \<Rightarrow> uploaded_part list \<Rightarrow> 'b upload" where
  "start_executors parts completedParts =
     \<lparr>ul_generator = parts, ul_executors = replicate DEFAULT_QUEUE_SIZE Ready, ul_completed = completedParts,
      ul_transferred = replicate DEFAULT_QUEUE_SIZE 0, ul_aborted = False, ul_known = up_number ` set completedParts\<rparr>"

text \<open>One turn of the loop of executor \<open>i\<close>, and the answers to its upload.\<close>

definition next_part :: "nat \<Rightarrow> 'b upload \<Rightarrow> 'b upload" where
  "next_part i u =
     (case ul_generator u of
        [] \<Rightarrow> u\<lparr>ul_executors := (ul_executors u)[i := Done]\<rparr>
      | p # ps \<Rightarrow>
          if ul_aborted u then u\<lparr>ul_generator := [], ul_executors := (ul_executors u)[i := Done]\<rparr>
          else if pt_number p \<in> ul_known u then
            u\<lparr>ul_generator := ps, ul_transferred := (ul_transferred u)[i := ul_transferred u ! i + pt_size p]\<rparr>
          else u\<lparr>ul_generator := ps, ul_executors := (ul_executors u)[i := Uploading p]\<rparr>)"

definition part_uploaded :: "nat \<Rightarrow> 'b part_to_upload \<Rightarrow> string \<Rightarrow> 'b upload \<Rightarrow> 'b upload" where
  "part_uploaded i p eTag u =
     u\<lparr>ul_executors := (ul_executors u)[i := Ready],
       ul_transferred := (ul_transferred u)[i := ul_transferred u ! i + pt_size p],
       ul_completed := ul_completed u @ [\<lparr>up_number = pt_number p, up_eTag = eTag\<rparr>]\<rparr>"

definition part_failed :: "nat \<Rightarrow> 'b upload \<Rightarrow> 'b upload" where
  "part_failed i u = u\<lparr>ul_executors := (ul_executors u)[i := Failed], ul_generator := []\<rparr>"

inductive executor_step :: "'b upload \<Rightarrow> 'b upload \<Rightarrow> bool" where
  Next: "i < length (ul_executors u) \<Longrightarrow> ul_executors u ! i = Ready \<Longrightarrow> executor_step u (next_part i u)"
| Uploaded: "i < length (ul_executors u) \<Longrightarrow> ul_executors u ! i = Uploading p \<Longrightarrow>
    executor_step u (part_uploaded i p eTag u)"
| Fail: "i < length (ul_executors u) \<Longrightarrow> ul_executors u ! i = Uploading p \<Longrightarrow> executor_step u (part_failed i u)"

text \<open>The abort signal may be set at any time, by pausing or by cancelling the upload.\<close>

definition abort_upload :: "'b upload \<Rightarrow> 'b upload" where
  "abort_upload u = u\<lparr>ul_aborted := True\<rparr>"

inductive upload_step :: "'b upload \<Rightarrow> 'b upload \<Rightarrow> bool" where
  Turn: "executor_step u v \<Longrightarrow> upload_step u v"
| Abort: "upload_step u (abort_upload u)"

text \<open>What the tracker reports: the sum over the executors.\<close>

definition getTransferredBytes :: "nat list \<Rightarrow> nat" where
  "getTransferredBytes transferredBytesPerListener = fold (\<lambda>b acc. acc + b) transferredBytesPerListener 0"

section \<open>Resumable uploads\<close>

record file_metadata =
  fm_bucket :: string
  fm_fileName :: string
  fm_key :: string
  fm_uploadId :: string
  fm_finalCrc32 :: "string option"
  fm_lastTouched :: int

datatype uploads_text = UploadsText "(string, file_metadata) omap" | BadUploadsText

definition ONE_HOUR :: int where "ONE_HOUR = 1000 * 60 * 60"
definition UPLOADS_STORAGE_KEY :: string where "UPLOADS_STORAGE_KEY = ''__uploadInProgress''"

definition listCachedUploadTasks :: "uploads_text kvs \<Rightarrow> (string, file_metadata) omap" where
  "listCachedUploadTasks kv = (case ims_getItem kv UPLOADS_STORAGE_KEY of
     Some (UploadsText m) \<Rightarrow> m | _ \<Rightarrow> [])"

definition cacheMultipartUpload :: "int \<Rightarrow> string \<Rightarrow> file_metadata \<Rightarrow> uploads_text kvs \<Rightarrow> uploads_text kvs" where
  "cacheMultipartUpload now cacheKey fm kv =
     ims_setItem UPLOADS_STORAGE_KEY
       (UploadsText (AList.update cacheKey (fm\<lparr>fm_lastTouched := now\<rparr>) (listCachedUploadTasks kv))) kv"

definition removeCachedUpload :: "string \<Rightarrow> uploads_text kvs \<Rightarrow> uploads_text kvs" where
  "removeCachedUpload cacheKey kv =
     ims_setItem UPLOADS_STORAGE_KEY (UploadsText (AList.delete cacheKey (listCachedUploadTasks kv))) kv"

text \<open>\<open>listParts\<close> asks the service for the parts of an upload; \<open>None\<close> is a failed request.\<close>

definition findCachedUploadParts :: "(string \<Rightarrow> uploaded_part list option) \<Rightarrow> int \<Rightarrow> string \<Rightarrow> uploads_text kvs \<Rightarrow>
    (uploaded_part list \<times> string \<times> string option) option \<times> uploads_text kvs" where
  "findCachedUploadParts listParts now cacheKey kv =
     (let cachedUploads = listCachedUploadTasks kv in
      case map_of cachedUploads cacheKey of
        None \<Rightarrow> (None, kv)
      | Some fm \<Rightarrow>
          if fm_lastTouched fm < now - ONE_HOUR then (None, kv)
          else let kv1 = ims_setItem UPLOADS_STORAGE_KEY
                     (UploadsText (AList.update cacheKey (fm\<lparr>fm_lastTouched := now\<rparr>) cachedUploads)) kv
               in case listParts (fm_uploadId fm) of
                    Some parts \<Rightarrow> (Some (parts, fm_uploadId fm, fm_finalCrc32 fm), kv1)
                  | None \<Rightarrow> (None, removeCachedUpload cacheKey kv1))"

text \<open>
  The key of an upload in the cache. The texts of numbers are a parameter; no access level means the access
  rules of the second generation.
\<close>

datatype access_level = Guest | Protected | Private

record file_info =
  fi_name :: string
  fi_type :: string
  fi_lastModified :: nat

definition octet_stream :: string where "octet_stream = ''application/octet-stream''"

definition level_text :: "access_level option \<Rightarrow> string" where
  "level_text accessLevel = (case accessLevel of None \<Rightarrow> ''custom'' | Some Guest \<Rightarrow> ''public''
     | Some Protected \<Rightarrow> ''protected'' | Some Private \<Rightarrow> ''private'')"

definition getUploadsCacheKey :: "(nat \<Rightarrow> string) \<Rightarrow> file_info option \<Rightarrow> nat \<Rightarrow> string option \<Rightarrow> string \<Rightarrow>
    access_level option \<Rightarrow> string \<Rightarrow> string \<Rightarrow> string" where
  "getUploadsCacheKey num file totalSize contentType bucket accessLevel key optionsHash =
     (let resolvedContentType = (case contentType of Some c \<Rightarrow> c
            | None \<Rightarrow> (case file of Some f \<Rightarrow> fi_type f | None \<Rightarrow> octet_stream));
          baseId = optionsHash @ ''_'' @ num totalSize @ ''_'' @ resolvedContentType @ ''_'' @ bucket @ ''_'' @
            level_text accessLevel @ ''_'' @ key
      in case file of Some f \<Rightarrow> fi_name f @ ''_'' @ num (fi_lastModified f) @ ''_'' @ baseId | None \<Rightarrow> baseId)"

record upload_input =
  ui_file :: "file_info option"
  ui_size :: nat
  ui_contentType :: "string option"
  ui_bucket :: string
  ui_accessLevel :: "access_level option"
  ui_key :: string
  ui_optionsHash :: string

text \<open>
  \<open>startUpload\<close> gives the content type with its default to the cache when it looks an upload up, and the content
  type of the options as it is when it makes the key to forget it by.
\<close>

definition load_key :: "(nat \<Rightarrow> string) \<Rightarrow> upload_input \<Rightarrow> string" where
  "load_key num inp = getUploadsCacheKey num (ui_file inp) (ui_size inp)
     (Some (case ui_contentType inp of None \<Rightarrow> octet_stream | Some c \<Rightarrow> c))
     (ui_bucket inp) (ui_accessLevel inp) (ui_key inp) (ui_optionsHash inp)"

definition uploadCacheKey :: "(nat \<Rightarrow> string) \<Rightarrow> upload_input \<Rightarrow> string option" where
  "uploadCacheKey num inp =
     (if ui_size inp = 0 then None
      else Some (getUploadsCacheKey num (ui_file inp) (ui_size inp) (ui_contentType inp)
        (ui_bucket inp) (ui_accessLevel inp) (ui_key inp) (ui_optionsHash inp)))"

text \<open>
  \<open>createMultipartUpload\<close> of the service gives the identifier of the new upload, \<open>getCombinedCrc32\<close> the checksum
  when the option asks for it. Without a cache nothing is looked up or stored.
\<close>

definition loadOrCreateMultipartUpload :: "(string \<Rightarrow> uploaded_part list option) \<Rightarrow> string \<Rightarrow> string option \<Rightarrow> int \<Rightarrow>
    (nat \<Rightarrow> string) \<Rightarrow> upload_input \<Rightarrow> uploads_text kvs option \<Rightarrow>
    (string \<times> uploaded_part list \<times> string option) \<times> uploads_text kvs option" where
  "loadOrCreateMultipartUpload listParts newId crc32 now num inp cache =
     (case (case cache of None \<Rightarrow> (None, None)
            | Some kv \<Rightarrow> (case findCachedUploadParts listParts now (load_key num inp) kv of (r, kv1) \<Rightarrow> (r, Some kv1))) of
        (Some (parts, uploadId, finalCrc32), cache1) \<Rightarrow> ((uploadId, parts, finalCrc32), cache1)
      | (None, cache1) \<Rightarrow>
          ((newId, [], crc32),
           map_option (cacheMultipartUpload now (load_key num inp)
             \<lparr>fm_bucket = ui_bucket inp,
              fm_fileName = (case ui_file inp of Some f \<Rightarrow> fi_name f | None \<Rightarrow> []),
              fm_key = ui_key inp, fm_uploadId = newId, fm_finalCrc32 = crc32, fm_lastTouched = now\<rparr>) cache1))"

text \<open>The end of \<open>startUpload\<close>, and the first thing a cancellation does.\<close>

definition forgetUpload :: "(nat \<Rightarrow> string) \<Rightarrow> upload_input \<Rightarrow> uploads_text kvs option \<Rightarrow> uploads_text kvs option" where
  "forgetUpload num inp cache =
     (case (cache, uploadCacheKey num inp) of
        (Some kv, Some k) \<Rightarrow> Some (removeCachedUpload k kv)
      | _ \<Rightarrow> cache)"

section \<open>Transfer tasks\<close>

datatype task_state = IN_PROGRESS | PAUSED | CANCELED | SUCCESS | ERROR

text \<open>The handlers a task calls, in order.\<close>

datatype task_call = CallCancel "string option" | CallPause | CallResume

record task =
  tk_state :: task_state
  tk_multipart :: bool
  tk_message :: "string option"
  tk_calls :: "task_call list"

definition createUploadTask :: "bool \<Rightarrow> task" where
  "createUploadTask isMultipartUpload =
     \<lparr>tk_state = IN_PROGRESS, tk_multipart = isMultipartUpload, tk_message = None, tk_calls = []\<rparr>"

definition task_cancel :: "string option \<Rightarrow> task \<Rightarrow> task" where
  "task_cancel msg tk =
     (if tk_state tk = CANCELED \<or> tk_state tk = ERROR \<or> tk_state tk = SUCCESS then tk
      else tk\<lparr>tk_state := CANCELED, tk_message := msg, tk_calls := tk_calls tk @ [CallCancel msg]\<rparr>)"

definition task_pause :: "task \<Rightarrow> task" where
  "task_pause tk =
     (if \<not> tk_multipart tk \<or> tk_state tk \<noteq> IN_PROGRESS then tk
      else tk\<lparr>tk_state := PAUSED, tk_calls := tk_calls tk @ [CallPause]\<rparr>)"

definition task_resume :: "task \<Rightarrow> task" where
  "task_resume tk =
     (if \<not> tk_multipart tk \<or> tk_state tk \<noteq> PAUSED then tk
      else tk\<lparr>tk_state := IN_PROGRESS, tk_calls := tk_calls tk @ [CallResume]\<rparr>)"

text \<open>The end of the job: its result, or an error with its message, which may be the error of a cancellation.\<close>

datatype job_end = JobDone | JobError bool string

definition job_settled :: "job_end \<Rightarrow> task \<Rightarrow> string option \<times> task" where
  "job_settled e tk =
     (case e of
        JobDone \<Rightarrow> (None, tk\<lparr>tk_state := SUCCESS\<rparr>)
      | JobError isCancel msg \<Rightarrow>
          (let tk1 = (if isCancel then tk\<lparr>tk_state := CANCELED\<rparr> else tk);
               msg1 = (if isCancel then (case tk_message tk of None \<Rightarrow> msg | Some m \<Rightarrow> m) else msg)
           in (Some msg1, tk1\<lparr>tk_state := ERROR\<rparr>)))"

end
