(* ===== verification/MultipartUploadProofs.thy ===== *)
theory MultipartUploadProofs
  imports MultipartUpload "HOL-Library.Multiset"
begin

text \<open>
  What a multipart upload guarantees: the parts cut the data without gap or overlap and are at most ten thousand,
  the concurrent executors upload every part once, the check of the completed parts accepts exactly the complete
  uploads, and the cache of resumable uploads and the task object keep their promises.
\<close>

section \<open>Parts\<close>

lemma ceil_div_bounds:
  assumes "0 < b"
  shows "a \<le> ceil_div a b * b" "0 < a \<Longrightarrow> (ceil_div a b - 1) * b < a"
proof -
  show "a \<le> ceil_div a b * b" using ceil_div_gt [OF assms, of "ceil_div a b" a] by simp
  assume "0 < a"
  then have "0 < ceil_div a b" using ceil_div_gt [OF assms, of 0 a] by simp
  then show "(ceil_div a b - 1) * b < a" using ceil_div_gt [OF assms, of "ceil_div a b - 1" a] by simp
qed

lemma ceil_div_step: "0 < b \<Longrightarrow> ceil_div (a + b) b = Suc (ceil_div a b)"
  unfolding ceil_div_def using div_add_self2 [of b "a + b - 1"] by (simp add: algebra_simps)

lemma ceil_div_small: "0 < a \<Longrightarrow> a \<le> b \<Longrightarrow> ceil_div a b = 1"
  unfolding ceil_div_def by (rule div_nat_eqI) auto

lemma ceil_div_mono: "a \<le> b \<Longrightarrow> ceil_div a n \<le> ceil_div b n"
  unfolding ceil_div_def by (rule div_le_mono) simp

lemma part_size_loop_bounds:
  "0 < p \<Longrightarrow> ceil_div t (part_size_loop t p) \<le> MAX_PARTS_COUNT \<and> p \<le> part_size_loop t p"
proof (induction t p rule: part_size_loop.induct)
  case (1 t p)
  show ?case
  proof (cases "ceil_div t p > MAX_PARTS_COUNT")
    case True
    then have "part_size_loop t p = part_size_loop t (p * 2)" using 1 by (simp add: part_size_loop.simps [of t p])
    then show ?thesis using 1 True by simp
  next
    case False
    then have "part_size_loop t p = p" by (simp add: part_size_loop.simps [of t p])
    then show ?thesis using False by simp
  qed
qed

lemma part_size_positive: "0 < calculatePartSize t"
proof -
  have d: "0 < DEFAULT_PART_SIZE" by (simp add: DEFAULT_PART_SIZE_def MiB_def)
  show ?thesis
    using part_size_loop_bounds [OF d, of "the t"] d by (auto simp: calculatePartSize_def split: option.splits)
qed

definition parts_of :: "'b list \<Rightarrow> nat \<Rightarrow> nat \<Rightarrow> nat \<Rightarrow> 'b part_to_upload list \<Rightarrow> bool" where
  "parts_of bytes len partSize n ps \<longleftrightarrow>
     concat (map pt_data ps) = bytes \<and> map pt_number ps = [n..<n + length ps] \<and>
     length ps = max 1 (ceil_div len partSize) \<and>
     list_all (\<lambda>p. pt_size p = length (pt_data p) \<and> pt_size p \<le> partSize) ps \<and>
     list_all (\<lambda>p. pt_size p = partSize) (butlast ps)"

lemma slice_split: "s \<le> e \<Longrightarrow> e \<le> t \<Longrightarrow> slice b s e @ slice b e t = slice b s t"
proof -
  assume le: "s \<le> e" "e \<le> t"
  then have "take (t - s) (drop s b) = take ((e - s) + (t - e)) (drop s b)" by simp
  then show ?thesis using le by (simp only: slice_def take_add drop_drop) simp
qed

lemma length_slice: "e \<le> length b \<Longrightarrow> length (slice b s e) = e - s"
  by (simp add: slice_def)

lemma parts_of_Cons:
  assumes "parts_of bytes len partSize (Suc n) ps" "0 < len" "ps \<noteq> []"
    "length d = partSize" "0 < partSize"
  shows "parts_of (d @ bytes) (len + partSize) partSize n (\<lparr>pt_number = n, pt_data = d, pt_size = partSize\<rparr> # ps)"
proof -
  have "0 < ceil_div len partSize" using assms ceil_div_gt [of partSize 0 len] by simp
  then have "max 1 (ceil_div (len + partSize) partSize) = Suc (max 1 (ceil_div len partSize))"
    using assms by (simp add: ceil_div_step)
  moreover have "[n..<n + Suc (length ps)] = n # map pt_number ps"
    using assms(1) upt_conv_Cons [of n "n + Suc (length ps)"] by (simp add: parts_of_def)
  ultimately show ?thesis using assms unfolding parts_of_def by simp
qed

lemma chunks_loop_parts:
  assumes "0 < partSize" "off + len \<le> length b" "s \<le> len + off"
    "e = s + partSize \<or> (e = len + off \<and> e - s \<le> partSize)"
  shows "parts_of (slice b s (len + off)) (len + off - s) partSize n (chunks_loop b off len partSize n s e)"
  using assms
proof (induction b off len partSize n s e rule: chunks_loop.induct)
  case (1 b off len ps n s e)
  show ?case
  proof (cases "e < len + off")
    case True
    let ?rest = "chunks_loop b off len ps (n + 1) e (e + ps)"
    have e: "e = s + ps" using 1 True by auto
    have rest: "parts_of (slice b e (len + off)) (len + off - e) ps (Suc n) ?rest"
      using 1 True by simp
    have "parts_of (slice b s e @ slice b e (len + off)) (len + off - e + ps) ps n
        (\<lparr>pt_number = n, pt_data = slice b s e, pt_size = ps\<rparr> # ?rest)"
    proof (rule parts_of_Cons [OF rest])
      show "?rest \<noteq> []" by (simp add: chunks_loop.simps)
      show "length (slice b s e) = ps" using 1 True e by (simp add: length_slice)
    qed (use 1 True in simp_all)
    moreover have "chunks_loop b off len ps n s e = \<lparr>pt_number = n, pt_data = slice b s e, pt_size = ps\<rparr> # ?rest"
      using 1 True by (subst chunks_loop.simps) simp
    ultimately show ?thesis using True e by (simp add: slice_split algebra_simps)
  next
    case False
    have last: "chunks_loop b off len ps n s e =
        [\<lparr>pt_number = n, pt_data = slice b s (len + off), pt_size = len + off - s\<rparr>]"
      using False by (subst chunks_loop.simps) simp
    have small: "len + off - s \<le> ps" using 1 False by auto
    have "max 1 (ceil_div (len + off - s) ps) = 1"
      using small by (cases "len + off - s = 0") (simp_all add: ceil_div_small, use 1 in \<open>simp add: ceil_div_def\<close>)
    then show ?thesis using 1 small by (simp add: last parts_of_def length_slice)
  qed
qed

lemma chunk_helper_parts:
  assumes "0 < partSize" "off + len \<le> length b"
  shows "parts_of (slice b off (off + len)) len partSize 1 (chunk_helper b off len partSize)"
  using chunks_loop_parts [OF assms, of off "off + min partSize len" 1]
  unfolding chunk_helper_def by (auto simp: add.commute min_def)

text \<open>The bytes of a payload, and a payload whose view lies inside its buffer.\<close>

fun payload_bytes :: "'b payload \<Rightarrow> 'b list" where
  "payload_bytes (PBlob bytes) = bytes"
| "payload_bytes (PView buffer off len) = slice buffer off (off + len)"
| "payload_bytes (PBuffer bytes) = bytes"
| "payload_bytes (PText bytes) = bytes"
| "payload_bytes _ = []"

fun payload_ok :: "'b payload \<Rightarrow> bool" where
  "payload_ok (PView buffer off len) = (off + len \<le> length buffer)"
| "payload_ok PNone = False"
| "payload_ok POther = False"
| "payload_ok _ = True"

lemma slice_all: "slice b 0 (length b) = b"
  by (simp add: slice_def)

lemma chunker_parts:
  assumes "payload_ok data" "byteLength data = Some n"
  obtains ps where "getDataChunker data (Some n) = Inr ps"
    "parts_of (payload_bytes data) n (calculatePartSize (Some n)) 1 ps"
  using chunk_helper_parts [OF part_size_positive] assms
  by (cases data) (force simp: slice_all dest: spec [of _ 0])+

lemma ceil_parts_bound: "ceil_div n (calculatePartSize (Some n)) \<le> MAX_PARTS_COUNT"
proof (cases "n = 0")
  case True
  then show ?thesis by (simp add: calculatePartSize_def ceil_div_def DEFAULT_PART_SIZE_def MiB_def)
next
  case False
  have "0 < DEFAULT_PART_SIZE" by (simp add: DEFAULT_PART_SIZE_def MiB_def)
  from part_size_loop_bounds [OF this, of n] False show ?thesis by (simp add: calculatePartSize_def)
qed

text \<open>
  C26. The data of an upload is cut into at most ten thousand parts, numbered from one, that follow each other
  without gap or overlap; every part but the last has the calculated size, and the last is not larger.
\<close>

theorem data_is_cut_into_parts:
  assumes "payload_ok data" "byteLength data = Some n"
  shows "\<exists>ps. getDataChunker data (Some n) = Inr ps \<and> concat (map pt_data ps) = payload_bytes data \<and>
    map pt_number ps = [1..<Suc (length ps)] \<and> 1 \<le> length ps \<and> length ps \<le> MAX_PARTS_COUNT \<and>
    length ps = max 1 (ceil_div n (calculatePartSize (Some n))) \<and>
    list_all (\<lambda>p. pt_size p = length (pt_data p) \<and> pt_size p \<le> calculatePartSize (Some n)) ps \<and>
    list_all (\<lambda>p. pt_size p = calculatePartSize (Some n)) (butlast ps)"
proof -
  obtain ps where ps: "getDataChunker data (Some n) = Inr ps"
    and parts: "parts_of (payload_bytes data) n (calculatePartSize (Some n)) 1 ps"
    using chunker_parts [OF assms] by blast
  have "length ps \<le> MAX_PARTS_COUNT"
    using parts ceil_parts_bound [of n] by (simp add: parts_of_def MAX_PARTS_COUNT_def)
  then show ?thesis using ps parts by (intro exI [of _ ps]) (simp add: parts_of_def)
qed

theorem data_is_cut_into_parts_witness:
  "payload_ok (PView ''xabcdefx'' 1 6) \<and> byteLength (PView ''xabcdefx'' 1 6) = Some 6 \<and>
   (\<exists>ps. getDataChunker (PView ''xabcdefx'' 1 6) (Some 6) = Inr ps \<and> concat (map pt_data ps) = ''abcdef'')"
  using data_is_cut_into_parts [of "PView ''xabcdefx'' 1 6" 6] by (auto simp: slice_def)

section \<open>Completed parts\<close>

lemma sorted_numbers:
  assumes "length xs = n"
  shows "list_all (\<lambda>i. xs ! i = i + 1) [0..<n] \<longleftrightarrow> xs = [1..<Suc n]"
proof
  assume "list_all (\<lambda>i. xs ! i = i + 1) [0..<n]"
  then have "\<And>i. i < n \<Longrightarrow> xs ! i = i + 1" by (simp add: list_all_iff)
  then show "xs = [1..<Suc n]" using assms by (intro nth_equalityI) (simp_all del: upt_Suc)
qed (simp add: list_all_iff del: upt_Suc)

lemma sorted_mset_upt:
  fixes xs :: "nat list"
  assumes "sorted xs" "mset xs = mset [1..<Suc n]"
  shows "xs = [1..<Suc n]"
  using assms properties_for_sort by (metis sorted_upt)

lemma sortUploadParts_numbers:
  "sorted (map up_number (sortUploadParts parts))"
  "mset (map up_number (sortUploadParts parts)) = mset (map up_number parts)"
  "length (sortUploadParts parts) = length parts"
  by (simp_all add: sortUploadParts_def)

lemma validateCompletedParts_iff:
  "validateCompletedParts parts t = Inr () \<longleftrightarrow>
     mset (map up_number parts) = mset [1..<Suc (ceil_div t (calculatePartSize (Some t)))]"
  (is "_ \<longleftrightarrow> _ = mset [1..<Suc ?n]")
proof -
  let ?xs = "map up_number (sortUploadParts parts)"
  have numbers: "list_all (\<lambda>i. up_number (sortUploadParts parts ! i) = i + 1) [0..<length (sortUploadParts parts)] \<longleftrightarrow>
      ?xs = [1..<Suc (length parts)]"
    using sorted_numbers [of ?xs "length parts"] by (simp add: list_all_iff sortUploadParts_numbers(3))
  have v: "validateCompletedParts parts t = Inr () \<longleftrightarrow> length parts = ?n \<and> ?xs = [1..<Suc (length parts)]"
    unfolding validateCompletedParts_def Let_def numbers by simp
  show ?thesis
  proof
    assume "validateCompletedParts parts t = Inr ()"
    then have "?xs = [1..<Suc ?n]" using v by simp
    then show "mset (map up_number parts) = mset [1..<Suc ?n]"
      using sortUploadParts_numbers(2) [of parts] by metis
  next
    assume m: "mset (map up_number parts) = mset [1..<Suc ?n]"
    then have "length (map up_number parts) = length [1..<Suc ?n]" by (metis size_mset)
    then have len: "length parts = ?n" by simp
    have "?xs = [1..<Suc ?n]"
      using m sortUploadParts_numbers by (intro sorted_mset_upt) simp_all
    then show "validateCompletedParts parts t = Inr ()" using v len by simp
  qed
qed

section \<open>Executors\<close>

text \<open>The part numbers an upload accounts for: completed, in flight, and those the generator still holds.\<close>

fun in_flight :: "'b executor \<Rightarrow> nat multiset" where
  "in_flight (Uploading p) = {#pt_number p#}"
| "in_flight _ = {#}"

fun flight_size :: "'b executor \<Rightarrow> nat" where
  "flight_size (Uploading p) = pt_size p"
| "flight_size _ = 0"

definition fresh_parts :: "nat set \<Rightarrow> 'b part_to_upload list \<Rightarrow> nat multiset" where
  "fresh_parts known ps = mset (filter (\<lambda>n. n \<notin> known) (map pt_number ps))"

definition accounted :: "'b upload \<Rightarrow> nat multiset" where
  "accounted u = mset (map up_number (ul_completed u)) + sum_list (map in_flight (ul_executors u)) +
     fresh_parts (ul_known u) (ul_generator u)"

definition accounted_bytes :: "'b upload \<Rightarrow> nat" where
  "accounted_bytes u = sum_list (ul_transferred u) + sum_list (map flight_size (ul_executors u)) +
     sum_list (map pt_size (ul_generator u))"

definition undisturbed :: "'b upload \<Rightarrow> bool" where
  "undisturbed u \<longleftrightarrow> \<not> ul_aborted u \<and> Failed \<notin> set (ul_executors u)"

definition upload_inv :: "'b upload \<Rightarrow> 'b upload \<Rightarrow> bool" where
  "upload_inv u0 u \<longleftrightarrow>
     ul_known u = ul_known u0 \<and> accounted u \<subseteq># accounted u0 \<and>
     length (ul_transferred u) = length (ul_executors u) \<and>
     length (ul_executors u) = length (ul_executors u0) \<and>
     (undisturbed u \<longrightarrow> accounted u = accounted u0 \<and> accounted_bytes u = accounted_bytes u0 \<and>
        (Done \<in> set (ul_executors u) \<longrightarrow> ul_generator u = []))"

lemma sum_list_list_update:
  fixes f :: "'a \<Rightarrow> 'c::comm_monoid_add"
  shows "i < length xs \<Longrightarrow> sum_list (map f (xs[i := x])) + f (xs ! i) = sum_list (map f xs) + f x"
proof (induction xs arbitrary: i)
  case (Cons y ys)
  then show ?case by (cases i) (simp_all add: ac_simps)
qed simp

lemma sum_list_zero_update:
  fixes f :: "'a \<Rightarrow> 'c::comm_monoid_add"
  shows "i < length xs \<Longrightarrow> f (xs ! i) = 0 \<Longrightarrow> sum_list (map f (xs[i := x])) = sum_list (map f xs) + f x"
  using sum_list_list_update [of i xs f x] by simp

lemma sum_list_drop_update:
  fixes f :: "'a \<Rightarrow> 'c::comm_monoid_add"
  shows "i < length xs \<Longrightarrow> f x = 0 \<Longrightarrow> sum_list (map f xs) = sum_list (map f (xs[i := x])) + f (xs ! i)"
  using sum_list_list_update [of i xs f x] by simp

lemma sum_list_add_at: "i < length (xs :: nat list) \<Longrightarrow> sum_list (xs[i := xs ! i + k]) = sum_list xs + k"
  using sum_list_list_update [of i xs "\<lambda>x. x" "xs ! i + k"] by simp

lemma fresh_parts_Cons:
  "fresh_parts K (p # ps) = (if pt_number p \<in> K then {#} else {#pt_number p#}) + fresh_parts K ps"
  by (simp add: fresh_parts_def)

lemma kept_in_update: "y \<in> set xs \<Longrightarrow> xs ! i \<noteq> y \<Longrightarrow> y \<in> set (xs[i := x])"
  by (metis in_set_conv_nth length_list_update nth_list_update_neq)

lemma new_in_update: "y \<in> set (xs[i := x]) \<Longrightarrow> y \<noteq> x \<Longrightarrow> y \<in> set xs"
  by (meson insertE set_update_subset_insert subsetD)

lemma undisturbed_next:
  assumes "ul_executors u ! i = Ready" "undisturbed (next_part i u)"
  shows "undisturbed u"
proof -
  have "ul_executors u ! i \<noteq> Failed" using assms by simp
  then show ?thesis using assms(2) kept_in_update [of Failed "ul_executors u" i]
    by (auto simp: undisturbed_def next_part_def split: list.splits if_splits)
qed

lemma next_keeps_inv:
  assumes inv: "upload_inv u0 u" and i: "i < length (ul_executors u)" and ready: "ul_executors u ! i = Ready"
  shows "upload_inv u0 (next_part i u)"
proof -
  have zero: "in_flight (ul_executors u ! i) = 0" "flight_size (ul_executors u ! i) = 0" using ready by simp_all
  note upd = sum_list_zero_update [where f = in_flight, OF i zero(1)]
    sum_list_zero_update [where f = flight_size, OF i zero(2)]
  show ?thesis
  proof (cases "ul_generator u")
    case Nil
    then have n: "next_part i u = u\<lparr>ul_executors := (ul_executors u)[i := Done]\<rparr>" by (simp add: next_part_def)
    have "accounted (next_part i u) = accounted u" "accounted_bytes (next_part i u) = accounted_bytes u"
      by (simp_all add: n accounted_def accounted_bytes_def upd)
    then show ?thesis using inv undisturbed_next [OF ready] Nil by (simp add: upload_inv_def n)
  next
    case (Cons p ps)
    consider (ab) "ul_aborted u" | (known) "\<not> ul_aborted u" "pt_number p \<in> ul_known u"
      | (new) "\<not> ul_aborted u" "pt_number p \<notin> ul_known u" by blast
    then show ?thesis
    proof cases
      case ab
      then have n: "next_part i u = u\<lparr>ul_generator := [], ul_executors := (ul_executors u)[i := Done]\<rparr>"
        using Cons by (simp add: next_part_def)
      have "accounted (next_part i u) \<subseteq># accounted u"
        by (simp add: n accounted_def upd fresh_parts_def)
      moreover have "\<not> undisturbed (next_part i u)" using ab by (simp add: n undisturbed_def)
      ultimately show ?thesis using inv by (simp add: upload_inv_def n) (meson subset_mset.order_trans)
    next
      case known
      then have n: "next_part i u = u\<lparr>ul_generator := ps,
          ul_transferred := (ul_transferred u)[i := ul_transferred u ! i + pt_size p]\<rparr>"
        using Cons by (simp add: next_part_def)
      have "i < length (ul_transferred u)" using inv i by (simp add: upload_inv_def)
      then have "accounted (next_part i u) = accounted u" "accounted_bytes (next_part i u) = accounted_bytes u"
        using Cons known by (simp_all add: n accounted_def accounted_bytes_def fresh_parts_Cons sum_list_add_at)
      then show ?thesis using inv undisturbed_next [OF ready] Cons by (auto simp: upload_inv_def n)
    next
      case new
      then have n: "next_part i u = u\<lparr>ul_generator := ps, ul_executors := (ul_executors u)[i := Uploading p]\<rparr>"
        using Cons by (simp add: next_part_def)
      have "accounted (next_part i u) = accounted u" "accounted_bytes (next_part i u) = accounted_bytes u"
        using Cons new by (simp_all add: n accounted_def accounted_bytes_def fresh_parts_Cons upd)
      then show ?thesis using inv undisturbed_next [OF ready] Cons
        by (auto simp: upload_inv_def n dest: new_in_update)
    qed
  qed
qed

lemma uploaded_keeps_inv:
  assumes inv: "upload_inv u0 u" and i: "i < length (ul_executors u)" and up: "ul_executors u ! i = Uploading p"
  shows "upload_inv u0 (part_uploaded i p eTag u)"
proof -
  note drop = sum_list_drop_update [OF i, of in_flight Ready] sum_list_drop_update [OF i, of flight_size Ready]
  have t: "i < length (ul_transferred u)" using inv i by (simp add: upload_inv_def)
  have "accounted (part_uploaded i p eTag u) = accounted u"
    "accounted_bytes (part_uploaded i p eTag u) = accounted_bytes u"
    using drop up t by (simp_all add: part_uploaded_def accounted_def accounted_bytes_def sum_list_add_at)
  moreover have "undisturbed (part_uploaded i p eTag u) \<Longrightarrow> undisturbed u"
    using up kept_in_update [of Failed "ul_executors u" i] by (auto simp: undisturbed_def part_uploaded_def)
  ultimately show ?thesis using inv by (auto simp: upload_inv_def part_uploaded_def dest: new_in_update)
qed

lemma failed_keeps_inv:
  assumes inv: "upload_inv u0 u" and i: "i < length (ul_executors u)" and up: "ul_executors u ! i = Uploading p"
  shows "upload_inv u0 (part_failed i u)"
proof -
  have "accounted (part_failed i u) \<subseteq># accounted u"
    using sum_list_drop_update [OF i, of in_flight Failed]
    by (simp add: part_failed_def accounted_def fresh_parts_def)
  moreover have "\<not> undisturbed (part_failed i u)"
    using i by (simp add: undisturbed_def part_failed_def set_update_memI)
  ultimately show ?thesis using inv by (simp add: upload_inv_def part_failed_def) (meson subset_mset.order_trans)
qed

lemma upload_inv_refl: "length (ul_transferred u) = length (ul_executors u) \<Longrightarrow> Done \<notin> set (ul_executors u) \<Longrightarrow> upload_inv u u"
  by (simp add: upload_inv_def)

lemma turn_keeps_inv: "executor_step u v \<Longrightarrow> upload_inv u0 u \<Longrightarrow> upload_inv u0 v"
  by (induction rule: executor_step.induct) (simp_all add: next_keeps_inv uploaded_keeps_inv failed_keeps_inv)

lemma abort_keeps_inv: "upload_inv u0 u \<Longrightarrow> upload_inv u0 (abort_upload u)"
proof -
  assume inv: "upload_inv u0 u"
  have "accounted (abort_upload u) = accounted u" by (simp add: abort_upload_def accounted_def)
  then show "upload_inv u0 (abort_upload u)" using inv by (simp add: upload_inv_def undisturbed_def abort_upload_def)
qed

lemma steps_keep_inv: "upload_step\<^sup>*\<^sup>* u v \<Longrightarrow> upload_inv u0 u \<Longrightarrow> upload_inv u0 v"
  by (induction rule: rtranclp_induct) (auto elim!: upload_step.cases intro: turn_keeps_inv abort_keeps_inv)

lemma start_inv: "upload_inv (start_executors ps cs) (start_executors ps cs)"
  by (rule upload_inv_refl) (simp_all add: start_executors_def)

lemma start_accounted:
  "accounted (start_executors ps cs) = mset (map up_number cs) + fresh_parts (up_number ` set cs) ps"
  "accounted_bytes (start_executors ps cs) = sum_list (map pt_size ps)"
  by (simp_all add: accounted_def accounted_bytes_def start_executors_def DEFAULT_QUEUE_SIZE_def numeral_eq_Suc)

text \<open>The numbers of the parts in flight.\<close>

fun flight_number :: "'b executor \<Rightarrow> nat list" where
  "flight_number (Uploading p) = [pt_number p]"
| "flight_number _ = []"

definition flight_numbers :: "'b upload \<Rightarrow> nat list" where
  "flight_numbers u = concat (map flight_number (ul_executors u))"

lemma mset_flight_numbers: "mset (flight_numbers u) = sum_list (map in_flight (ul_executors u))"
proof -
  have "mset (concat (map flight_number es)) = sum_list (map in_flight es)" for es :: "'b executor list"
  proof (induction es)
    case (Cons e es)
    then show ?case by (cases e) simp_all
  qed simp
  then show ?thesis by (simp add: flight_numbers_def)
qed

lemma start_distinct:
  assumes "distinct (map pt_number ps)" "distinct (map up_number cs)"
  shows "distinct (map up_number cs @ filter (\<lambda>n. n \<notin> up_number ` set cs) (map pt_number ps))"
  using assms by auto

lemma distinct_subset_mset:
  assumes "distinct xs" "mset ys \<subseteq># mset xs"
  shows "distinct ys"
proof -
  obtain zs where "mset zs = mset xs - mset ys" using ex_mset by blast
  then have "mset (ys @ zs) = mset xs" using assms(2) by simp
  then have "distinct (ys @ zs)" using assms(1) mset_eq_imp_distinct_iff by blast
  then show ?thesis by simp
qed

text \<open>
  C27. Whatever the interleaving of the executors, and whether parts fail or the upload is aborted: no part is
  uploaded twice, and none is in flight twice or after it was completed.
\<close>

theorem parts_are_uploaded_once:
  assumes "distinct (map pt_number ps)" "distinct (map up_number cs)" "upload_step\<^sup>*\<^sup>* (start_executors ps cs) u"
  shows "distinct (map up_number (ul_completed u) @ flight_numbers u)"
proof -
  let ?start = "map up_number cs @ filter (\<lambda>n. n \<notin> up_number ` set cs) (map pt_number ps)"
  have "accounted u \<subseteq># mset ?start"
    using steps_keep_inv [OF assms(3) start_inv] by (simp add: upload_inv_def start_accounted fresh_parts_def)
  moreover have "mset (map up_number (ul_completed u) @ flight_numbers u) \<subseteq># accounted u"
    by (simp add: accounted_def mset_flight_numbers)
  ultimately show ?thesis using start_distinct [OF assms(1,2)] distinct_subset_mset subset_mset.order_trans by blast
qed

lemma ended_accounted:
  assumes "upload_inv u0 u" "set (ul_executors u) = {Done}" "\<not> ul_aborted u"
  shows "mset (map up_number (ul_completed u)) = accounted u0" "sum_list (ul_transferred u) = accounted_bytes u0"
proof -
  have "undisturbed u" using assms by (simp add: undisturbed_def)
  then have eq: "accounted u = accounted u0" "accounted_bytes u = accounted_bytes u0" "ul_generator u = []"
    using assms by (simp_all add: upload_inv_def)
  have zero: "sum_list (map in_flight (replicate n Done)) = {#}" "sum_list (map flight_size (replicate n Done)) = 0"
    for n by (induction n) simp_all
  have "ul_executors u = replicate (length (ul_executors u)) Done" using assms by (intro replicate_eqI) auto
  then have "sum_list (map in_flight (ul_executors u)) = {#}" "sum_list (map flight_size (ul_executors u)) = 0"
    using zero by metis+
  then show "mset (map up_number (ul_completed u)) = accounted u0" "sum_list (ul_transferred u) = accounted_bytes u0"
    using eq by (simp_all add: accounted_def accounted_bytes_def fresh_parts_def del: sum_list_eq_0_iff)
qed

lemma known_and_fresh:
  assumes "distinct xs" "distinct ns" "set xs \<subseteq> set ns"
  shows "mset xs + mset (filter (\<lambda>n. n \<notin> set xs) ns) = mset ns"
proof -
  have "mset (filter (\<lambda>n. n \<in> set xs) ns) = mset xs"
    using assms by (intro set_eq_iff_mset_eq_distinct [THEN iffD1]) auto
  then show ?thesis using multiset_partition [of "mset ns" "\<lambda>n. n \<in> set xs"] by simp
qed

lemma transferred_sum: "getTransferredBytes ts = sum_list ts"
proof -
  have "fold (\<lambda>b acc. acc + b) ts a = a + sum_list ts" for a by (induction ts arbitrary: a) simp_all
  then show ?thesis by (simp add: getTransferredBytes_def)
qed

lemma parts_sizes: "parts_of bytes len k n ps \<Longrightarrow> sum_list (map pt_size ps) = length bytes"
  unfolding parts_of_def length_concat by (auto simp: list_all_iff length_concat intro!: arg_cong [of _ _ sum_list])

text \<open>
  C29. An upload whose executors all end, without a failed part and without an abort, has uploaded every part:
  the completed parts pass the check that precedes the completion of the upload, sorted they are numbered from
  one, and the progress reported is the size of the data. A resumed upload, which starts with some of the parts
  completed, ends the same way.
\<close>

theorem complete_upload_passes:
  assumes "payload_ok data" "byteLength data = Some n" "0 < n" "getDataChunker data (Some n) = Inr ps"
    "distinct (map up_number cs)" "up_number ` set cs \<subseteq> {1..length ps}"
    "upload_step\<^sup>*\<^sup>* (start_executors ps cs) u" "set (ul_executors u) = {Done}" "\<not> ul_aborted u"
  shows "validateCompletedParts (ul_completed u) n = Inr () \<and>
    map up_number (sortUploadParts (ul_completed u)) = [1..<Suc (length ps)] \<and>
    getTransferredBytes (ul_transferred u) = n"
proof -
  obtain ps' where ps': "getDataChunker data (Some n) = Inr ps'"
    and "parts_of (payload_bytes data) n (calculatePartSize (Some n)) 1 ps'"
    using chunker_parts [OF assms(1,2)] by blast
  then have parts: "parts_of (payload_bytes data) n (calculatePartSize (Some n)) 1 ps" using assms(4) by simp
  have len: "length ps = ceil_div n (calculatePartSize (Some n))"
    using parts ceil_div_gt [OF part_size_positive [of "Some n"], of 0 n] assms(3) by (simp add: parts_of_def max_def)
  have numbers: "map pt_number ps = [1..<Suc (length ps)]" using parts by (simp add: parts_of_def)
  note ended = ended_accounted [OF steps_keep_inv [OF assms(7) start_inv] assms(8,9)]
  have "mset (map up_number (ul_completed u)) = mset [1..<Suc (length ps)]"
    using ended(1) known_and_fresh [of "map up_number cs" "map pt_number ps"] assms(5,6)
    by (simp add: start_accounted fresh_parts_def numbers del: upt_Suc) (simp add: atLeastLessThanSuc_atLeastAtMost)
  then have all: "validateCompletedParts (ul_completed u) n = Inr ()"
    "map up_number (sortUploadParts (ul_completed u)) = [1..<Suc (length ps)]"
    using sortUploadParts_numbers by (auto simp only: validateCompletedParts_iff len intro!: sorted_mset_upt)
  have "length (payload_bytes data) = n"
    using assms(1,2) by (cases data) (auto simp: length_slice)
  then have "getTransferredBytes (ul_transferred u) = n"
    using ended(2) parts_sizes [OF parts] by (simp add: transferred_sum start_accounted)
  then show ?thesis using all by simp
qed

text \<open>A run on a small upload: one executor uploads the only part, then all end.\<close>

definition demo_parts :: "char part_to_upload list" where
  "demo_parts = [\<lparr>pt_number = 1, pt_data = ''ab'', pt_size = 2\<rparr>]"

definition demo_uploaded :: "char upload" where
  "demo_uploaded = part_uploaded 0 (hd demo_parts) ''tag'' (next_part 0 (start_executors demo_parts []))"

definition demo_ended :: "char upload" where
  "demo_ended = next_part 3 (next_part 2 (next_part 1 (next_part 0 demo_uploaded)))"

lemmas demo_upload_simps = demo_parts_def demo_uploaded_def demo_ended_def start_executors_def next_part_def
  part_uploaded_def DEFAULT_QUEUE_SIZE_def numeral_eq_Suc

lemma demo_run:
  "upload_step\<^sup>*\<^sup>* (start_executors demo_parts []) demo_uploaded"
  "upload_step\<^sup>*\<^sup>* (start_executors demo_parts []) demo_ended"
proof -
  have next_turn: "upload_step\<^sup>*\<^sup>* v u \<Longrightarrow> i < length (ul_executors u) \<Longrightarrow> ul_executors u ! i = Ready \<Longrightarrow>
      upload_step\<^sup>*\<^sup>* v (next_part i u)" for i and u v :: "char upload"
    by (meson executor_step.Next upload_step.Turn rtranclp.rtrancl_into_rtrancl)
  have uploaded_turn: "upload_step\<^sup>*\<^sup>* v u \<Longrightarrow> i < length (ul_executors u) \<Longrightarrow> ul_executors u ! i = Uploading p \<Longrightarrow>
      upload_step\<^sup>*\<^sup>* v (part_uploaded i p t u)" for i p t and u v :: "char upload"
    by (meson executor_step.Uploaded upload_step.Turn rtranclp.rtrancl_into_rtrancl)
  have "upload_step\<^sup>*\<^sup>* (start_executors demo_parts []) (next_part 0 (start_executors demo_parts []))"
    by (rule next_turn) (simp_all add: demo_upload_simps)
  then show uploaded: "upload_step\<^sup>*\<^sup>* (start_executors demo_parts []) demo_uploaded"
    unfolding demo_uploaded_def by (rule uploaded_turn) (simp_all add: demo_upload_simps)
  show "upload_step\<^sup>*\<^sup>* (start_executors demo_parts []) demo_ended"
    unfolding demo_ended_def
    by (intro next_turn uploaded) (simp_all add: demo_upload_simps)
qed

lemma demo_chunks: "getDataChunker (PText ''ab'') (Some 2) = Inr demo_parts"
  by (simp add: calculatePartSize_def part_size_loop.simps DEFAULT_PART_SIZE_def MiB_def ceil_div_def
      MAX_PARTS_COUNT_def chunk_helper_def chunks_loop.simps slice_def demo_parts_def)

theorem parts_are_uploaded_once_witness:
  "distinct (map pt_number demo_parts) \<and> upload_step\<^sup>*\<^sup>* (start_executors demo_parts []) demo_uploaded \<and>
   distinct (map up_number (ul_completed demo_uploaded) @ flight_numbers demo_uploaded)"
  using parts_are_uploaded_once [of demo_parts "[]" demo_uploaded] demo_run(1) by (simp add: demo_parts_def)

theorem complete_upload_passes_witness:
  "ul_completed demo_ended = [\<lparr>up_number = 1, up_eTag = ''tag''\<rparr>] \<and>
   validateCompletedParts (ul_completed demo_ended) 2 = Inr ()"
proof -
  have "set (ul_executors demo_ended) = {Done}" "\<not> ul_aborted demo_ended"
    by (simp_all add: demo_upload_simps)
  then have "validateCompletedParts (ul_completed demo_ended) 2 = Inr ()"
    using complete_upload_passes [of "PText ''ab''" 2 demo_parts "[]" demo_ended] demo_run(2) demo_chunks by simp
  then show ?thesis by (simp add: demo_upload_simps)
qed

section \<open>The executors end\<close>

fun executor_work :: "'b executor \<Rightarrow> nat" where
  "executor_work Ready = 1"
| "executor_work (Uploading p) = 2"
| "executor_work Done = 0"
| "executor_work Failed = 0"

definition upload_work :: "'b upload \<Rightarrow> nat" where
  "upload_work u = 2 * length (ul_generator u) + sum_list (map executor_work (ul_executors u))"

lemma executor_step_work: "executor_step u v \<Longrightarrow> upload_work v < upload_work u"
proof (induction rule: executor_step.induct)
  case (Next i u)
  note upd = sum_list_list_update [OF Next(1), of executor_work]
  show ?case using Next(2) upd [of Done] upd [of "Uploading p" for p]
    by (auto simp: upload_work_def next_part_def split: list.splits)
next
  case (Uploaded i u p eTag)
  then show ?case using sum_list_list_update [OF Uploaded(1), of executor_work Ready]
    by (simp add: upload_work_def part_uploaded_def)
next
  case (Fail i u p)
  then show ?case using sum_list_list_update [OF Fail(1), of executor_work Failed]
    by (simp add: upload_work_def part_failed_def)
qed

lemma executor_steps_work: "(executor_step ^^ k) u v \<Longrightarrow> k + upload_work v \<le> upload_work u"
proof (induction k arbitrary: v)
  case (Suc k)
  then obtain w where "(executor_step ^^ k) u w" "executor_step w v" by auto
  then show ?case using Suc.IH [of w] executor_step_work [of w v] by simp
qed simp

lemma stuck_executors:
  assumes "\<nexists>v. executor_step u v"
  shows "set (ul_executors u) \<subseteq> {Done, Failed}"
proof
  fix e assume "e \<in> set (ul_executors u)"
  then obtain i where "i < length (ul_executors u)" "ul_executors u ! i = e" by (auto simp: in_set_conv_nth)
  then show "e \<in> {Done, Failed}" using assms by (cases e) (blast intro: executor_step.intros)+
qed

text \<open>
  The executors of an upload end: after at most two turns for every part and one for every executor none can
  go on, and then each of them is done or has failed.
\<close>

theorem executors_end:
  assumes "(executor_step ^^ k) (start_executors ps cs) u"
  shows "k \<le> 2 * length ps + DEFAULT_QUEUE_SIZE \<and>
    ((\<exists>v. executor_step u v) \<or> set (ul_executors u) \<subseteq> {Done, Failed})"
  using executor_steps_work [OF assms] stuck_executors [of u]
  by (auto simp: upload_work_def start_executors_def DEFAULT_QUEUE_SIZE_def numeral_eq_Suc)

theorem executors_end_witness:
  "(executor_step ^^ 1) (start_executors demo_parts []) (next_part 0 (start_executors demo_parts [])) \<and>
   1 \<le> 2 * length demo_parts + DEFAULT_QUEUE_SIZE"
proof -
  have "(executor_step ^^ 1) (start_executors demo_parts []) (next_part 0 (start_executors demo_parts []))"
    unfolding relpowp_1 by (rule executor_step.Next) (simp_all add: demo_upload_simps)
  then show ?thesis using executors_end by blast
qed

section \<open>Resuming an upload\<close>

lemma list_after_cache:
  "listCachedUploadTasks (cacheMultipartUpload now k fm kv) =
     AList.update k (fm\<lparr>fm_lastTouched := now\<rparr>) (listCachedUploadTasks kv)"
  by (simp add: listCachedUploadTasks_def cacheMultipartUpload_def ims_getItem_def ims_setItem_def update_conv')

lemma list_after_remove:
  "listCachedUploadTasks (removeCachedUpload k kv) = AList.delete k (listCachedUploadTasks kv)"
  by (simp add: listCachedUploadTasks_def removeCachedUpload_def ims_getItem_def ims_setItem_def update_conv')

lemma list_after_set:
  "listCachedUploadTasks (ims_setItem UPLOADS_STORAGE_KEY (UploadsText m) kv) = m"
  by (simp add: listCachedUploadTasks_def ims_getItem_def ims_setItem_def update_conv')

text \<open>The uploads the cache knows, as a map.\<close>

definition cached :: "uploads_text kvs \<Rightarrow> string \<Rightarrow> file_metadata option" where
  "cached kv = map_of (listCachedUploadTasks kv)"

lemma cached_simps [simp]:
  "cached (cacheMultipartUpload now k fm kv) = (cached kv)(k \<mapsto> fm\<lparr>fm_lastTouched := now\<rparr>)"
  "cached (removeCachedUpload k kv) = (cached kv)(k := None)"
  "cached (ims_setItem UPLOADS_STORAGE_KEY (UploadsText m) kv) = map_of m"
  by (simp_all add: cached_def list_after_cache list_after_remove list_after_set update_conv' delete_conv')

lemma find_cached:
  "findCachedUploadParts listParts now k kv =
     (case cached kv k of
        None \<Rightarrow> (None, kv)
      | Some fm \<Rightarrow>
          if fm_lastTouched fm < now - ONE_HOUR then (None, kv)
          else (case listParts (fm_uploadId fm) of
                  Some parts \<Rightarrow> (Some (parts, fm_uploadId fm, fm_finalCrc32 fm), cacheMultipartUpload now k fm kv)
                | None \<Rightarrow> (None, removeCachedUpload k (cacheMultipartUpload now k fm kv))))"
  by (simp add: findCachedUploadParts_def cacheMultipartUpload_def cached_def Let_def split: option.split)

text \<open>
  An upload that was started with a cache is continued by a later call with the same input while the cache
  was touched within the hour and the service still lists its parts: same identifier and checksum, the parts
  already uploaded, and the hour starts again.
\<close>

theorem upload_is_resumed:
  assumes "loadOrCreateMultipartUpload listParts newId crc t0 num inp (Some kv) = ((uploadId, parts0, crc0), Some kv1)"
    "t1 \<le> t0 + ONE_HOUR" "listParts1 uploadId = Some parts"
  shows "\<exists>fm kv2. cached kv1 (load_key num inp) = Some fm \<and>
    loadOrCreateMultipartUpload listParts1 newId1 crc1 t1 num inp (Some kv1) = ((uploadId, parts, crc0), Some kv2) \<and>
    cached kv2 = (cached kv1)(load_key num inp \<mapsto> fm\<lparr>fm_lastTouched := t1\<rparr>)"
proof -
  have "\<exists>fm. cached kv1 (load_key num inp) = Some fm \<and> fm_uploadId fm = uploadId \<and> fm_finalCrc32 fm = crc0 \<and>
      fm_lastTouched fm = t0"
    using assms(1) unfolding loadOrCreateMultipartUpload_def find_cached
    by (auto split: option.splits if_splits)
  then show ?thesis using assms(2,3) by (auto simp: loadOrCreateMultipartUpload_def find_cached)
qed

definition demo_input :: upload_input where
  "demo_input = \<lparr>ui_file = None, ui_size = 6, ui_contentType = None, ui_bucket = ''b'', ui_accessLevel = None,
     ui_key = ''k'', ui_optionsHash = ''h''\<rparr>"

theorem upload_is_resumed_witness:
  "loadOrCreateMultipartUpload (\<lambda>_. None) ''id1'' None 0 (\<lambda>_. ''n'') demo_input (Some []) =
     ((''id1'', [], None), Some (cacheMultipartUpload 0 (load_key (\<lambda>_. ''n'') demo_input)
        \<lparr>fm_bucket = ''b'', fm_fileName = [], fm_key = ''k'', fm_uploadId = ''id1'', fm_finalCrc32 = None, fm_lastTouched = 0\<rparr> [])) \<and>
   (\<exists>kv2. loadOrCreateMultipartUpload (\<lambda>i. if i = ''id1'' then Some [\<lparr>up_number = 1, up_eTag = ''t''\<rparr>] else None) ''id2'' None 10
       (\<lambda>_. ''n'') demo_input (Some (cacheMultipartUpload 0 (load_key (\<lambda>_. ''n'') demo_input)
        \<lparr>fm_bucket = ''b'', fm_fileName = [], fm_key = ''k'', fm_uploadId = ''id1'', fm_finalCrc32 = None, fm_lastTouched = 0\<rparr> []))
     = ((''id1'', [\<lparr>up_number = 1, up_eTag = ''t''\<rparr>], None), Some kv2))"
  (is "?load = ((_, _, _), Some ?kv1) \<and> _")
proof -
  have load: "?load = ((''id1'', [], None), Some ?kv1)"
    by (simp add: loadOrCreateMultipartUpload_def find_cached cached_def listCachedUploadTasks_def ims_getItem_def
        demo_input_def)
  then show ?thesis
    using upload_is_resumed [OF load, of 10 "\<lambda>i. if i = ''id1'' then Some [\<lparr>up_number = 1, up_eTag = ''t''\<rparr>] else None"
        "[\<lparr>up_number = 1, up_eTag = ''t''\<rparr>]"] by (auto simp: ONE_HOUR_def)
qed

text \<open>
Otherwise a new upload is started and replaces the old one in the cache: when nothing is cached, when the
  entry was last touched more than an hour ago, and when the service does not list its parts any more.
\<close>

theorem upload_is_started_anew:
  assumes "\<And>fm. cached kv (load_key num inp) = Some fm \<Longrightarrow>
    fm_lastTouched fm < now - ONE_HOUR \<or> listParts (fm_uploadId fm) = None"
  shows "\<exists>kv1 fm. loadOrCreateMultipartUpload listParts newId crc now num inp (Some kv) = ((newId, [], crc), Some kv1) \<and>
    cached kv1 = (cached kv)(load_key num inp \<mapsto> fm) \<and> fm_uploadId fm = newId \<and> fm_lastTouched fm = now"
proof -
  let ?fm = "\<lparr>fm_bucket = ui_bucket inp, fm_fileName = (case ui_file inp of Some f \<Rightarrow> fi_name f | None \<Rightarrow> []),
    fm_key = ui_key inp, fm_uploadId = newId, fm_finalCrc32 = crc, fm_lastTouched = now\<rparr>"
  show ?thesis
    using assms unfolding loadOrCreateMultipartUpload_def find_cached
    by (cases "cached kv (load_key num inp)") (auto intro!: exI [of _ ?fm])
qed

theorem upload_is_started_anew_witness:
  "cached [] (load_key (\<lambda>_. ''n'') demo_input) = None \<and>
   (\<exists>kv1. loadOrCreateMultipartUpload (\<lambda>_. None) ''id1'' None 0 (\<lambda>_. ''n'') demo_input (Some []) =
     ((''id1'', [], None), Some kv1))"
proof -
  have none: "cached [] (load_key (\<lambda>_. ''n'') demo_input) = None"
    by (simp add: cached_def listCachedUploadTasks_def ims_getItem_def)
  then show ?thesis
    using upload_is_started_anew [of "[]" "\<lambda>_. ''n''" demo_input 0 "\<lambda>_. None" "''id1''" None] by auto
qed

text \<open>
  A finished upload is forgotten when the content type of the options, or its default, is the one the cache was
  asked with; a file with a type of its own and no content type in the options stays in the cache.
\<close>

lemma finished_upload_is_forgotten:
  assumes "ui_size inp \<noteq> 0" "ui_contentType inp \<noteq> None \<or> ui_file inp = None"
  shows "\<exists>kv1. forgetUpload num inp (Some kv) = Some kv1 \<and> cached kv1 = (cached kv)(load_key num inp := None)"
  using assms by (auto simp: forgetUpload_def uploadCacheKey_def load_key_def getUploadsCacheKey_def split: option.splits)

lemma finished_file_stays_cached:
  assumes "ui_size inp \<noteq> 0" "ui_contentType inp = None" "ui_file inp = Some f" "fi_type f \<noteq> octet_stream"
  shows "\<exists>kv1. forgetUpload num inp (Some kv) = Some kv1 \<and>
    cached kv1 (load_key num inp) = cached kv (load_key num inp)"
  using assms by (auto simp: forgetUpload_def uploadCacheKey_def load_key_def getUploadsCacheKey_def Let_def)

section \<open>Transfer tasks\<close>

text \<open>
  What can happen to the task of an upload: its user cancels, pauses or resumes it, and the job settles once.
\<close>

datatype task_event = Cancelled "string option" | Paused | Resumed | Settled job_end

fun task_turn :: "task_event \<Rightarrow> task \<Rightarrow> task" where
  "task_turn (Cancelled msg) tk = task_cancel msg tk"
| "task_turn Paused tk = task_pause tk"
| "task_turn Resumed tk = task_resume tk"
| "task_turn (Settled e) tk = snd (job_settled e tk)"

text \<open>
  The protocol of the handlers: \<open>onPause\<close> and \<open>onResume\<close> alternate, only for a multipart upload, and nothing
  follows \<open>onCancel\<close>.
\<close>

datatype phase = Running | Halted | Stopped

fun drive :: "bool \<Rightarrow> task_call \<Rightarrow> phase option \<Rightarrow> phase option" where
  "drive mp CallPause ph = (if mp \<and> ph = Some Running then Some Halted else None)"
| "drive mp CallResume ph = (if mp \<and> ph = Some Halted then Some Running else None)"
| "drive mp (CallCancel msg) ph = (if ph = Some Running \<or> ph = Some Halted then Some Stopped else None)"

definition protocol :: "bool \<Rightarrow> task_call list \<Rightarrow> phase option" where
  "protocol mp cs = fold (drive mp) cs (Some Running)"

lemma protocol_snoc: "protocol mp (cs @ [c]) = drive mp c (protocol mp cs)"
  by (simp add: protocol_def)

definition task_inv :: "bool \<Rightarrow> task \<Rightarrow> bool" where
  "task_inv mp tk \<longleftrightarrow> tk_multipart tk = mp \<and> protocol mp (tk_calls tk) \<noteq> None \<and>
     (tk_state tk = IN_PROGRESS \<longrightarrow> protocol mp (tk_calls tk) = Some Running) \<and>
     (tk_state tk = PAUSED \<longrightarrow> protocol mp (tk_calls tk) = Some Halted)"

lemma task_turn_inv: "task_inv mp tk \<Longrightarrow> task_inv mp (task_turn e tk)"
proof (cases e)
  case (Cancelled msg)
  then show "task_inv mp tk \<Longrightarrow> task_inv mp (task_turn e tk)"
    by (cases "tk_state tk") (auto simp: task_inv_def task_cancel_def protocol_snoc)
qed (auto simp: task_inv_def task_pause_def task_resume_def job_settled_def protocol_snoc split: job_end.splits)

lemma task_run_inv: "task_inv mp tk \<Longrightarrow> task_inv mp (fold task_turn es tk)"
  by (induction es arbitrary: tk) (auto intro: task_turn_inv)

text \<open>
  Whatever the user and the job do and in whatever order, the handlers of an upload are called by the
  protocol: pause and resume in alternation and for multipart uploads only, cancel at most once, nothing after it.
\<close>

theorem handlers_are_called_in_order:
  "protocol mp (tk_calls (fold task_turn es (createUploadTask mp))) \<noteq> None"
proof -
  have "task_inv mp (createUploadTask mp)" by (simp add: task_inv_def createUploadTask_def protocol_def)
  then have "task_inv mp (fold task_turn es (createUploadTask mp))" by (rule task_run_inv)
  then show ?thesis by (simp add: task_inv_def)
qed

text \<open>The error of a cancellation has the message of the caller, but the task ends in the state of an error.\<close>

lemma cancelled_task_ends_in_error:
  "job_settled (JobError True m) (task_cancel msg (createUploadTask mp)) =
     (Some (case msg of None \<Rightarrow> m | Some t \<Rightarrow> t), (task_cancel msg (createUploadTask mp))\<lparr>tk_state := ERROR\<rparr>)"
  by (simp add: job_settled_def task_cancel_def createUploadTask_def split: option.split)

end
