(* ===== verification/MutationProcessor.thy ===== *)
theory MutationProcessor
  imports Outbox Retry
begin

text \<open>
  The mutation processor of the sync engine (\<open>datastore/src/sync/processors/mutation.ts\<close>): it takes the head of
  the outbox, sends it to the service, with another authorization mode or later again when that fails, handles
  conflicts, and drops or confirms the mutation. The service, the conflict handler of the application and time
  are the parameter \<open>mp_env\<close>, whose functions act on a world of their own. While a request is under way, other
  code may pause the processor or enqueue mutations: \<open>mp_meanwhile\<close>.
\<close>

section \<open>Requests and answers\<close>

record gql_variables =
  gv_input :: model
  gv_condition :: "model option option"

text \<open>A mutation with its operation, model and mode of authorization, or the query of one record by \<open>id\<close>.\<close>

datatype gql_request =
  Mutate mutation_type string gql_variables "string option"
| GetById string jsval "string option"

record gql_error =
  ge_message :: string
  ge_errorType :: "string option"
  ge_code :: "string option"
  ge_data :: "model option"

text \<open>A failed request: the first error of the service's answer, or an error of the client, as text.\<close>

datatype gql_failure = ServiceError gql_error | ClientError string

datatype conflict_answer = RetryWith model | DISCARD | HandlerThrows

text \<open>
  What the processor reads of a model definition beside the keys: the names of the primary key, the fields with
  their \<open>isReadOnly\<close>, and the owner fields named by the rules of its auth attribute, if it has one.
\<close>

record input_field = model_field +
  mf_isReadOnly :: bool

record input_schema =
  is_primaryKey :: "string list option"
  is_fields :: "input_field list"
  is_ownerRules :: "string list option"

record meanwhile =
  mw_paused :: bool
  mw_enqueued :: "mutation_event list"

record 'w mp_env =
  mp_js :: js_env
  mp_schema :: "(string \<times> schema_model) list"
  mp_inputs :: "string \<Rightarrow> input_schema"
  mp_authModes :: "string \<Rightarrow> mutation_type \<Rightarrow> string list"
  mp_token :: "string option \<Rightarrow> 'w \<Rightarrow> (string + unit) \<times> 'w"
  mp_graphql :: "gql_request \<Rightarrow> 'w \<Rightarrow> (gql_failure + model option) \<times> 'w"
  mp_meanwhile :: "'w \<Rightarrow> meanwhile"
  mp_conflictHandler :: "model \<Rightarrow> model option \<Rightarrow> op_type \<Rightarrow> nat \<Rightarrow> 'w \<Rightarrow> conflict_answer \<times> 'w"
  mp_closing :: "'w \<Rightarrow> bool"
  mp_random :: "'w \<Rightarrow> real \<times> 'w"
  mp_wait :: "real \<Rightarrow> 'w \<Rightarrow> 'w"

record processor_event =
  pe_operation :: mutation_type
  pe_model :: string
  pe_record :: "model option"
  pe_hasMore :: bool

datatype process_name = SyncProcess | MutateProcess

record 'w mp_state =
  mp_outbox :: outbox
  mp_processing :: bool
  mp_ready :: bool
  mp_next :: "processor_event list"
  mp_reports :: "(process_name \<times> string option) list"
  mp_world :: 'w

definition with_world :: "'w \<Rightarrow> 'w mp_state \<Rightarrow> 'w mp_state" where
  "with_world w s = s\<lparr>mp_world := w\<rparr>"

definition report :: "process_name \<Rightarrow> string option \<Rightarrow> 'w mp_state \<Rightarrow> 'w mp_state" where
  "report p msg s = s\<lparr>mp_reports := mp_reports s @ [(p, msg)]\<rparr>"

text \<open>A request, and what happened while it was under way.\<close>

definition graphql :: "'w mp_env \<Rightarrow> gql_request \<Rightarrow> 'w mp_state \<Rightarrow> (gql_failure + model option) \<times> 'w mp_state" where
  "graphql E req s =
     (case mp_graphql E req (mp_world s) of (answer, w) \<Rightarrow>
        (answer, s\<lparr>mp_world := w, mp_processing := (mp_processing s \<and> \<not> mw_paused (mp_meanwhile E w)),
                   mp_outbox := fold enqueue (mw_enqueued (mp_meanwhile E w)) (mp_outbox s)\<rparr>))"

section \<open>The variables of a mutation\<close>

definition ownerFields :: "input_schema \<Rightarrow> string list" where
  "ownerFields sch = (case is_ownerRules sch of None \<Rightarrow> [''owner''] | Some fs \<Rightarrow> filter (\<lambda>f. f \<noteq> []) fs)"

definition deleteInput :: "input_schema \<Rightarrow> model \<Rightarrow> model" where
  "deleteInput sch parsedData =
     (case is_primaryKey sch of
        Some (pk # pks) \<Rightarrow> fold (\<lambda>f. AList.update f (field_of parsedData f)) (pk # pks) []
      | _ \<Rightarrow> [(ID, field_of parsedData ID)])"

definition mutation_field :: "input_schema \<Rightarrow> mutation_type \<Rightarrow> model \<Rightarrow> input_field \<Rightarrow> model \<Rightarrow> model" where
  "mutation_field sch operation parsedData f acc =
     (if mf_isReadOnly f then acc
      else if mf_name f \<in> set (ownerFields sch) \<and> field_of parsedData (mf_name f) = JNull then acc
      else if mf_model f \<noteq> None then
        (if isTargetNameAssociation (mf_association f) \<noteq> None \<and>
            map_option connectionType (mf_association f) = Some ''BELONGS_TO'' then
           (case extractTargetNamesFromSrc (mf_association f) of
              None \<Rightarrow> acc
            | Some ts \<Rightarrow> fold (\<lambda>t. AList.update t (field_of parsedData t)) ts acc)
         else acc)
      else if operation = UpdateOp \<and> map_of parsedData (mf_name f) = None then acc
      else AList.update (mf_name f) (field_of parsedData (mf_name f)) acc)"

definition createQueryVariables :: "input_schema \<Rightarrow> mutation_type \<Rightarrow> model \<Rightarrow> model \<Rightarrow> gql_variables" where
  "createQueryVariables sch operation data condition =
     (let version = field_of data ''_version'';
          parsedData = AList.delete ''_version'' data;
          mutationInput = (if operation = DeleteOp then deleteInput sch parsedData
            else fold (mutation_field sch operation parsedData) (is_fields sch) [])
      in \<lparr>gv_input = AList.update ''_version'' version mutationInput,
          gv_condition = (if operation = CreateOp then None
            else Some (if condition = [] then None else Some condition))\<rparr>)"

fun opTypeFromTransformerOperation :: "mutation_type \<Rightarrow> op_type" where
  "opTypeFromTransformerOperation CreateOp = INSERT"
| "opTypeFromTransformerOperation DeleteOp = DELETE"
| "opTypeFromTransformerOperation UpdateOp = UPDATE"

fun operationFromOpType :: "op_type \<Rightarrow> mutation_type" where
  "operationFromOpType INSERT = CreateOp"
| "operationFromOpType UPDATE = UpdateOp"
| "operationFromOpType DELETE = DeleteOp"

text \<open>
  The mutation event of a record; it keeps the given identifier. Fields of the type \<open>AWSJSON\<close> are not told apart
  here: their values count as the texts they are sent as.
\<close>

definition createMutationInstance :: "js_env \<Rightarrow> schema_model \<Rightarrow> op_type \<Rightarrow> string \<Rightarrow> model \<Rightarrow> model \<Rightarrow> string \<Rightarrow> mutation_event" where
  "createMutationInstance J sm opType name element condition i =
     \<lparr>me_id = i, me_model = name, me_modelId = getIdentifierValue J sm element,
      me_operation = operationFromOpType opType, me_data = json_clean element, me_condition = condition\<rparr>"

section \<open>Sending one mutation\<close>

definition MAX_ATTEMPTS :: nat where "MAX_ATTEMPTS = 10"

text \<open>\<open>NoAnswer\<close> is the empty tuple, an answer without a result.\<close>

datatype mutation_answer = Answer "model option" | NoAnswer

type_synonym failure = "string option thrown option"

definition plain_error :: "string option \<Rightarrow> failure" where
  "plain_error msg = Some \<lparr>thrown_value = msg, nonRetryable = False\<rparr>"

definition nonRetryableError :: "string \<Rightarrow> failure" where
  "nonRetryableError msg = Some \<lparr>thrown_value = Some msg, nonRetryable = True\<rparr>"

text \<open>The record of the service is asked for and stands for the answer; a failure here has no message of its own.\<close>

definition discard :: "'w mp_env \<Rightarrow> mutation_event \<Rightarrow> string option \<Rightarrow> gql_variables \<Rightarrow> 'w mp_state \<Rightarrow>
    (failure + mutation_answer) \<times> 'w mp_state" where
  "discard E ev mode vars s =
     (case mp_token E mode (mp_world s) of
        (Inl msg, w) \<Rightarrow> (Inl (plain_error (Some msg)), with_world w s)
      | (Inr _, w) \<Rightarrow>
          (case graphql E (GetById (me_model ev) (field_of (gv_input vars) ID) mode) (with_world w s) of
             (Inr r, s1) \<Rightarrow> (Inr (Answer r), s1)
           | (Inl (ClientError msg), s1) \<Rightarrow> (Inl (plain_error (Some msg)), s1)
           | (Inl (ServiceError _), s1) \<Rightarrow> (Inl (plain_error None), s1)))"

text \<open>The event that the conflict handler's record replaces the head of the queue with.\<close>

definition save_resolution :: "'w mp_env \<Rightarrow> mutation_event \<Rightarrow> model \<Rightarrow> 'w mp_state \<Rightarrow> 'w mp_state" where
  "save_resolution E ev m s =
     (case map_of (mp_schema E) (me_model ev) of
        None \<Rightarrow> s
      | Some sm \<Rightarrow> s\<lparr>mp_outbox := q_save (createMutationInstance (mp_js E) sm
            (opTypeFromTransformerOperation (me_operation ev)) (me_model ev) m (me_condition ev) (me_id ev)) (mp_outbox s)\<rparr>)"

function attempt_loop :: "'w mp_env \<Rightarrow> mutation_event \<Rightarrow> string option \<Rightarrow> gql_variables \<Rightarrow> nat \<Rightarrow> 'w mp_state \<Rightarrow>
    (failure + mutation_answer) \<times> 'w mp_state" where
  "attempt_loop E ev mode vars attempt s =
     (case graphql E (Mutate (me_operation ev) (me_model ev) vars mode) s of
        (Inr r, s1) \<Rightarrow> (Inr (Answer r), s1)
      | (Inl (ClientError msg), s1) \<Rightarrow> (Inl (nonRetryableError msg), s1)
      | (Inl (ServiceError err), s1) \<Rightarrow>
          if ge_errorType err = Some ''Unauthorized'' then (Inl (nonRetryableError ''Unauthorized''), s1)
          else if ge_message err = ''Network Error'' \<or> ge_code err = Some ''ERR_NETWORK'' then
            (if \<not> mp_processing s1 then (Inl (nonRetryableError ''Offline''), s1)
             else (Inl (plain_error (Some ''Network Error'')), s1))
          else if ge_errorType err = Some ''ConflictUnhandled'' then
            (if attempt + 1 > MAX_ATTEMPTS then discard E ev mode vars s1
             else case mp_conflictHandler E (gv_input vars) (ge_data err)
                      (opTypeFromTransformerOperation (me_operation ev)) (attempt + 1) (mp_world s1) of
                    (HandlerThrows, w) \<Rightarrow> attempt_loop E ev mode vars (attempt + 1) (with_world w s1)
                  | (DISCARD, w) \<Rightarrow> discard E ev mode vars (with_world w s1)
                  | (RetryWith m, w) \<Rightarrow>
                      (Inl (nonRetryableError ''RetryMutation''), save_resolution E ev m (with_world w s1)))
          else (Inr (case ge_data err of None \<Rightarrow> NoAnswer | Some d \<Rightarrow> Answer (Some d)),
                report MutateProcess (Some (ge_message err)) s1))"
  by pat_completeness auto
termination
  by (relation "measure (\<lambda>(E, ev, mode, vars, attempt, s). MAX_ATTEMPTS - attempt)") auto

declare attempt_loop.simps [simp del]

definition send_once :: "'w mp_env \<Rightarrow> mutation_event \<Rightarrow> string option \<Rightarrow> 'w mp_state \<Rightarrow>
    (failure + mutation_answer) \<times> 'w mp_state" where
  "send_once E ev mode s =
     (case mp_token E mode (mp_world s) of
        (Inl msg, w) \<Rightarrow> (Inl (plain_error (Some msg)), with_world w s)
      | (Inr _, w) \<Rightarrow> attempt_loop E ev mode
          (createQueryVariables (mp_inputs E (me_model ev)) (me_operation ev) (me_data ev) (me_condition ev)) 0
          (with_world w s))"

section \<open>Retrying\<close>

definition MAX_RETRY_DELAY_MS :: real where "MAX_RETRY_DELAY_MS = 5 * 60 * 1000"

definition safeJitteredBackoff :: "nat \<Rightarrow> failure \<Rightarrow> real \<Rightarrow> real option" where
  "safeJitteredBackoff attempt err random =
     (case jitteredBackoff MAX_RETRY_DELAY_MS attempt random of
        None \<Rightarrow> if map_option thrown_value err = Some (Some ''Network Error'') then Some MAX_RETRY_DELAY_MS else None
      | Some delay \<Rightarrow> Some delay)"

definition retry_mutation :: "'w mp_env \<Rightarrow> mutation_event \<Rightarrow> string option \<Rightarrow>
    (string option, mutation_answer, 'w mp_state) retry_call" where
  "retry_mutation E ev mode =
     \<lparr>functionToRetry = send_once E ev mode,
      delayFn = (\<lambda>attempt err s. case mp_random E (mp_world s) of
         (x, w) \<Rightarrow> (safeJitteredBackoff attempt err x, with_world w s)),
      terminated = (\<lambda>s. mp_closing E (mp_world s)),
      wait = (\<lambda>d s. with_world (mp_wait E d (mp_world s)) s)\<rparr>"

definition jitteredRetry :: "'w mp_env \<Rightarrow> mutation_event \<Rightarrow> string option \<Rightarrow> 'w mp_state \<Rightarrow>
    ((failure + mutation_answer) \<times> 'w mp_state) option" where
  "jitteredRetry E ev mode s = retry (retry_mutation E ev mode) 0 None s"

text \<open>The modes of authorization one after the other; the last failure is reported and thrown.\<close>

fun authModeRetry :: "'w mp_env \<Rightarrow> mutation_event \<Rightarrow> string option \<Rightarrow> string list \<Rightarrow> 'w mp_state \<Rightarrow>
    ((failure + mutation_answer) \<times> 'w mp_state) option" where
  "authModeRetry E ev mode rest s =
     (case jitteredRetry E ev mode s of
        None \<Rightarrow> None
      | Some (Inr a, s1) \<Rightarrow> Some (Inr a, s1)
      | Some (Inl err, s1) \<Rightarrow>
          (case rest of
             [] \<Rightarrow> Some (Inl err, case err of None \<Rightarrow> s1 | Some t \<Rightarrow> report SyncProcess (thrown_value t) s1)
           | m # ms \<Rightarrow> authModeRetry E ev (Some m) ms s1))"

definition send_head :: "'w mp_env \<Rightarrow> mutation_event \<Rightarrow> 'w mp_state \<Rightarrow> ((failure + mutation_answer) \<times> 'w mp_state) option" where
  "send_head E ev s =
     (case mp_authModes E (me_model ev) (me_operation ev) of
        [] \<Rightarrow> authModeRetry E ev None [] s
      | m # ms \<Rightarrow> authModeRetry E ev (Some m) ms s)"

section \<open>Draining the outbox\<close>

definition mp_dequeue :: "'w mp_env \<Rightarrow> (model \<times> mutation_type) option \<Rightarrow> 'w mp_state \<Rightarrow> (js_error + unit) \<times> 'w mp_state" where
  "mp_dequeue E r s =
     (case dequeue (mp_js E) (mp_schema E) r (mp_outbox s) of
        (Inl e, ob) \<Rightarrow> (Inl e, s\<lparr>mp_outbox := ob\<rparr>)
      | (Inr _, ob) \<Rightarrow> (Inr (), s\<lparr>mp_outbox := ob\<rparr>))"

definition is_signal :: "string option thrown \<Rightarrow> bool" where
  "is_signal t \<longleftrightarrow> thrown_value t \<in> {Some ''Offline'', Some ''RetryMutation''}"

text \<open>
  What follows the sending of the head: a signal leaves the queue as it is, any other failure and an empty answer
  drop the mutation, an answer confirms it and is published. A thrown \<open>undefined\<close> breaks the loop off.
\<close>

definition settle_head :: "'w mp_env \<Rightarrow> mutation_event \<Rightarrow> failure + mutation_answer \<Rightarrow> 'w mp_state \<Rightarrow>
    (js_error + unit) \<times> 'w mp_state" where
  "settle_head E head outcome s =
     (case outcome of
        Inl None \<Rightarrow> (Inl JsTypeError, s)
      | Inl (Some t) \<Rightarrow> if is_signal t then (Inr (), s) else mp_dequeue E None s
      | Inr NoAnswer \<Rightarrow> mp_dequeue E None s
      | Inr (Answer r) \<Rightarrow>
          (case mp_dequeue E (map_option (\<lambda>m. (m, me_operation head)) r) s of
             (Inl e, s1) \<Rightarrow> (Inl e, s1)
           | (Inr _, s1) \<Rightarrow>
               (case peek (mp_outbox s1) of (h, ob) \<Rightarrow>
                  (Inr (), s1\<lparr>mp_outbox := ob,
                     mp_next := (if mp_ready s1 then mp_next s1 @ [\<lparr>pe_operation = me_operation head,
                        pe_model = me_model head, pe_record = r, pe_hasMore = (h \<noteq> None)\<rparr>] else mp_next s1)\<rparr>))))"

definition mp_pause :: "'w mp_state \<Rightarrow> 'w mp_state" where
  "mp_pause s = s\<lparr>mp_processing := False\<rparr>"

partial_function (option) drain :: "'w mp_env \<Rightarrow> 'w mp_state \<Rightarrow> ((js_error + unit) \<times> 'w mp_state) option" where
  "drain E s =
     (if \<not> mp_processing s \<or> mp_closing E (mp_world s) then Some (Inr (), mp_pause s)
      else (case peek (mp_outbox s) of
        (None, ob) \<Rightarrow> Some (Inr (), mp_pause (s\<lparr>mp_outbox := ob\<rparr>))
      | (Some head, ob) \<Rightarrow>
          (case send_head E head (s\<lparr>mp_outbox := ob\<rparr>) of
             None \<Rightarrow> None
           | Some (outcome, s1) \<Rightarrow>
               (case settle_head E head outcome s1 of
                  (Inl e, s2) \<Rightarrow> Some (Inl e, s2)
                | (Inr _, s2) \<Rightarrow> drain E s2))))"

definition resume :: "'w mp_env \<Rightarrow> 'w mp_state \<Rightarrow> ((js_error + unit) \<times> 'w mp_state) option" where
  "resume E s =
     (if mp_closing E (mp_world s) \<or> mp_processing s \<or> \<not> mp_ready s then Some (Inr (), s)
      else drain E (s\<lparr>mp_processing := True\<rparr>))"

definition mp_start :: "'w mp_env \<Rightarrow> 'w mp_state \<Rightarrow> ((js_error + unit) \<times> 'w mp_state) option" where
  "mp_start E s = resume E (s\<lparr>mp_ready := True\<rparr>)"

definition removeObserver :: "'w mp_state \<Rightarrow> 'w mp_state" where
  "removeObserver s = s\<lparr>mp_ready := False\<rparr>"

end
