(* ===== verification/MutationProcessorProofs.thy ===== *)
theory MutationProcessorProofs
  imports MutationProcessor OutboxProofs RetryProofs "HOL-Library.Multiset"
begin

text \<open>
  What the mutation processor guarantees: a mutation leaves the outbox only when it was answered or given up, an
  outage or a pause keeps it, the loop empties the outbox, conflicts end, and the variables of a mutation hold
  what the service takes.
\<close>

section \<open>Facts on the steps of sending\<close>

text \<open>
  An invariant of the requests, of the world and of the reports is kept by all that is done to send a mutation.
\<close>

locale sending_invariant =
  fixes E :: "'w mp_env" and I :: "'w mp_state \<Rightarrow> bool"
  assumes world: "I s \<Longrightarrow> I (with_world w s)"
    and reported: "I s \<Longrightarrow> I (report p msg s)"
    and requested: "I s \<Longrightarrow> I (snd (graphql E req s))"
    and resolved: "I s \<Longrightarrow> I (save_resolution E ev m s)"
begin

lemma requested_as: "graphql E req s = (r, s1) \<Longrightarrow> I s \<Longrightarrow> I s1"
  using requested by (metis snd_conv)

lemma discard_keeps: "I s \<Longrightarrow> I (snd (discard E ev mode vars s))"
  unfolding discard_def
  by (auto split: prod.splits sum.splits gql_failure.splits intro: world dest: requested_as)

lemma attempt_keeps: "I s \<Longrightarrow> I (snd (attempt_loop E ev mode vars attempt s))"
proof (induction "MAX_ATTEMPTS - attempt" arbitrary: attempt s rule: less_induct)
  case less
  obtain r s1 where g: "graphql E (Mutate (me_operation ev) (me_model ev) vars mode) s = (r, s1)" by fastforce
  note s1 = requested_as [OF g less.prems]
  have again: "\<not> MAX_ATTEMPTS < attempt + 1 \<Longrightarrow> I (snd (attempt_loop E ev mode vars (attempt + 1) (with_world w s1)))" for w
    using less.hyps [of "attempt + 1"] world [OF s1] by simp
  show ?case
    using again s1
    by (auto simp: attempt_loop.simps [of E ev mode vars attempt s] g
        split: sum.splits gql_failure.splits option.splits prod.splits conflict_answer.splits
        intro: discard_keeps reported resolved world)
qed

lemma send_once_keeps: "I s \<Longrightarrow> I (snd (send_once E ev mode s))"
  unfolding send_once_def by (auto split: prod.splits sum.splits intro: attempt_keeps world)

lemma jitteredRetry_keeps: "jitteredRetry E ev mode s = Some (r, s1) \<Longrightarrow> I s \<Longrightarrow> I s1"
proof -
  assume run: "jitteredRetry E ev mode s = Some (r, s1)" and s: "I s"
  from retry_preserves [OF run [unfolded jitteredRetry_def], of I] s show "I s1"
    by (auto simp: call_keeps_def retry_mutation_def send_once_keeps world split: prod.splits)
qed

lemma authModeRetry_keeps: "authModeRetry E ev mode rest s = Some (r, s1) \<Longrightarrow> I s \<Longrightarrow> I s1"
proof (induction rest arbitrary: mode s)
  case Nil
  obtain r' s' where j: "jitteredRetry E ev mode s = Some (r', s')"
    using Nil.prems(1) by (cases "jitteredRetry E ev mode s") auto
  have "I s'" by (rule jitteredRetry_keeps [OF j Nil.prems(2)])
  then show ?case using Nil.prems(1) by (auto simp: j split: sum.splits option.splits intro: reported)
next
  case (Cons m ms)
  obtain r' s' where j: "jitteredRetry E ev mode s = Some (r', s')"
    using Cons.prems(1) by (cases "jitteredRetry E ev mode s") auto
  have "I s'" by (rule jitteredRetry_keeps [OF j Cons.prems(2)])
  then show ?case using Cons.prems(1) Cons.IH by (cases r') (auto simp: j)
qed

lemma send_head_keeps: "send_head E ev s = Some (r, s1) \<Longrightarrow> I s \<Longrightarrow> I s1"
  unfolding send_head_def by (cases "mp_authModes E (me_model ev) (me_operation ev)")
    (auto dest: authModeRetry_keeps simp del: authModeRetry.simps)

end

text \<open>The queue keeps its events under their ids; the observer and what it received do not change.\<close>

definition queue_ok :: "outbox \<Rightarrow> bool" where
  "queue_ok ob \<longleftrightarrow> (\<exists>evs. q_list ob evs)"

lemma q_save_ok: "queue_ok ob \<Longrightarrow> queue_ok (q_save ev ob)"
  unfolding queue_ok_def using q_save_fresh q_save_known by blast

lemma enqueue_queue_ok: "queue_ok ob \<Longrightarrow> queue_ok (enqueue ev ob)"
proof -
  assume ok: "queue_ok ob"
  then have "queue_ok (q_delete_where P ob)" for P unfolding queue_ok_def using q_delete_list by blast
  then show ?thesis using ok by (auto simp: enqueue_def Let_def q_save_ok split: option.split)
qed

lemma enqueue_all_ok: "queue_ok ob \<Longrightarrow> queue_ok (fold enqueue evs ob)"
  by (induction evs arbitrary: ob) (auto intro: enqueue_queue_ok)

lemma with_world_simps [simp]:
  "mp_outbox (with_world w s) = mp_outbox s" "mp_processing (with_world w s) = mp_processing s"
  "mp_next (with_world w s) = mp_next s" "mp_ready (with_world w s) = mp_ready s"
  "mp_reports (with_world w s) = mp_reports s" "mp_world (with_world w s) = w"
  by (simp_all add: with_world_def)

lemma with_world_again [simp]: "with_world w (with_world v s) = with_world w s"
  by (simp add: with_world_def)

lemma retry_mutation_simps [simp]:
  "functionToRetry (retry_mutation E ev mode) = send_once E ev mode"
  "delayFn (retry_mutation E ev mode) n err s =
     (case mp_random E (mp_world s) of (x, w) \<Rightarrow> (safeJitteredBackoff n err x, with_world w s))"
  "terminated (retry_mutation E ev mode) s = mp_closing E (mp_world s)"
  "wait (retry_mutation E ev mode) d s = with_world (mp_wait E d (mp_world s)) s"
  by (simp_all add: retry_mutation_def)

lemma report_simps [simp]:
  "mp_outbox (report p m s) = mp_outbox s" "mp_processing (report p m s) = mp_processing s"
  "mp_next (report p m s) = mp_next s" "mp_ready (report p m s) = mp_ready s" "mp_world (report p m s) = mp_world s"
  by (simp_all add: report_def)

lemma resolution_simps [simp]:
  "mp_processing (save_resolution E ev m s) = mp_processing s" "mp_next (save_resolution E ev m s) = mp_next s"
  "mp_ready (save_resolution E ev m s) = mp_ready s" "mp_world (save_resolution E ev m s) = mp_world s"
  by (simp_all add: save_resolution_def split: option.split)

lemma resolution_queue_ok: "queue_ok (mp_outbox s) \<Longrightarrow> queue_ok (mp_outbox (save_resolution E ev m s))"
  by (simp add: save_resolution_def q_save_ok split: option.split)

lemma graphql_simps [simp]:
  "mp_next (snd (graphql E req s)) = mp_next s" "mp_ready (snd (graphql E req s)) = mp_ready s"
  "mp_reports (snd (graphql E req s)) = mp_reports s"
  "mp_processing (snd (graphql E req s)) \<longleftrightarrow>
     mp_processing s \<and> \<not> mw_paused (mp_meanwhile E (mp_world (snd (graphql E req s))))"
  "mp_outbox (snd (graphql E req s)) =
     fold enqueue (mw_enqueued (mp_meanwhile E (mp_world (snd (graphql E req s))))) (mp_outbox s)"
  by (simp_all add: graphql_def split: prod.split)

interpretation queue_kept: sending_invariant E "\<lambda>s. queue_ok (mp_outbox s)" for E
  by unfold_locales (simp_all add: enqueue_all_ok resolution_queue_ok)

interpretation running: sending_invariant E "\<lambda>s. (\<forall>w. \<not> mw_paused (mp_meanwhile E w)) \<longrightarrow> mp_processing s" for E
  by unfold_locales simp_all

interpretation observer: sending_invariant E "\<lambda>s. mp_next s = n \<and> mp_ready s = r" for E n r
  by unfold_locales simp_all

section \<open>The loop leaves nothing behind\<close>

lemma mp_dequeue_simps:
  "mp_dequeue E r s = (x, s1) \<Longrightarrow>
     mp_processing s1 = mp_processing s \<and> mp_next s1 = mp_next s \<and> mp_ready s1 = mp_ready s \<and> mp_world s1 = mp_world s"
  by (auto simp: mp_dequeue_def split: prod.splits sum.splits)

lemma settle_processing: "settle_head E head outcome s = (x, s1) \<Longrightarrow> mp_processing s1 = mp_processing s"
  by (auto simp: settle_head_def split: sum.splits option.splits mutation_answer.splits if_splits prod.splits
      dest: mp_dequeue_simps)

lemma peek_none: "peek ob = (None, ob') \<Longrightarrow> q_events ob' = []"
  by (auto simp: peek_def q_events_def split: list.splits)

lemma drain_exit:
  assumes "drain E s = Some y"
  shows "(\<forall>w. \<not> mw_paused (mp_meanwhile E w)) \<Longrightarrow> mp_processing s \<Longrightarrow> fst y = Inr () \<Longrightarrow>
    q_events (mp_outbox (snd y)) = [] \<or> mp_closing E (mp_world (snd y))"
proof (induction rule: drain.raw_induct [OF _ assms])
  case (1 rec E s y)
  show ?case
  proof (cases "mp_closing E (mp_world s)")
    case True
    then show ?thesis using 1(2,4) by (auto simp: mp_pause_def)
  next
    case False
    note body = 1(2) [simplified 1(4) False, simplified]
    obtain h ob where p: "peek (mp_outbox s) = (h, ob)" by fastforce
    show ?thesis
    proof (cases h)
      case None
      then show ?thesis using body p peek_none by (auto simp: mp_pause_def)
    next
      case (Some head)
      obtain outcome s1 where send: "send_head E head (s\<lparr>mp_outbox := ob\<rparr>) = Some (outcome, s1)"
        using body p Some by (auto split: option.splits)
      have "mp_processing s1" using running.send_head_keeps [OF send] 1(3,4) by simp
      obtain x s2 where settle: "settle_head E head outcome s1 = (x, s2)" by fastforce
      have s2: "mp_processing s2" using settle_processing [OF settle] \<open>mp_processing s1\<close> by simp
      show ?thesis
      proof (cases x)
        case (Inl e)
        then show ?thesis using body p Some send settle 1(5) by auto
      next
        case (Inr u)
        then have "rec E s2 = Some y" using body p Some send settle by auto
        then show ?thesis using 1(1) [OF _ 1(3) s2 1(5)] by blast
      qed
    qed
  qed
qed

text \<open>
  C7. When nobody pauses the processor and it is not being stopped, its loop returns only with an empty outbox:
  whatever the service answers, and whatever is enqueued while a request is under way, no mutation is left behind.
\<close>

theorem drain_leaves_nothing:
  assumes "\<And>w. \<not> mw_paused (mp_meanwhile E w)" "mp_processing s" "drain E s = Some (Inr (), s')"
  shows "q_events (mp_outbox s') = [] \<or> mp_closing E (mp_world s')"
  using drain_exit [OF assms(3)] assms(1,2) by simp

section \<open>A service that answers\<close>

definition answers :: "'w mp_env \<Rightarrow> bool" where
  "answers E \<longleftrightarrow> (\<forall>req w. \<exists>m. fst (mp_graphql E req w) = Inr (Some m)) \<and> (\<forall>mode w. fst (mp_token E mode w) = Inr ()) \<and>
     (\<forall>w. mp_meanwhile E w = \<lparr>mw_paused = False, mw_enqueued = []\<rparr>) \<and> (\<forall>w. \<not> mp_closing E w)"

lemma answers_attempt:
  assumes "answers E"
  shows "\<exists>m w. attempt_loop E ev mode vars n s = (Inr (Answer (Some m)), with_world w s)"
proof -
  let ?req = "Mutate (me_operation ev) (me_model ev) vars mode"
  obtain r w where g: "mp_graphql E ?req (mp_world s) = (r, w)" by fastforce
  obtain m where "r = Inr (Some m)" using assms g unfolding answers_def by (metis fst_conv)
  then show ?thesis using assms g
    by (auto simp: attempt_loop.simps [of E ev mode vars n s] graphql_def answers_def with_world_def)
qed

lemma answers_send_once: "answers E \<Longrightarrow> \<exists>m w. send_once E ev mode s = (Inr (Answer (Some m)), with_world w s)"
proof -
  assume E: "answers E"
  obtain t w where t: "mp_token E mode (mp_world s) = (t, w)" by fastforce
  have "t = Inr ()" using E t unfolding answers_def by (metis fst_conv)
  then show ?thesis
    using answers_attempt [OF E, of ev mode _ 0 "with_world w s"] t by (fastforce simp: send_once_def with_world_def)
qed

lemma answers_auth: "answers E \<Longrightarrow> \<exists>m w. authModeRetry E ev mode rest s = Some (Inr (Answer (Some m)), with_world w s)"
proof -
  assume E: "answers E"
  obtain m w where "send_once E ev mode s = (Inr (Answer (Some m)), with_world w s)"
    using answers_send_once [OF E] by blast
  then have "jitteredRetry E ev mode s = Some (Inr (Answer (Some m)), with_world w s)"
    by (simp add: jitteredRetry_def retry_mutation_def retry.simps)
  then show ?thesis by (cases rest) auto
qed

lemma answers_send: "answers E \<Longrightarrow> \<exists>m w. send_head E ev s = Some (Inr (Answer (Some m)), with_world w s)"
  unfolding send_head_def using answers_auth by (cases "mp_authModes E (me_model ev) (me_operation ev)") auto

definition event_key :: "mutation_event \<Rightarrow> string \<times> mutation_type" where
  "event_key ev = (me_model ev, me_operation ev)"

lemma with_version_key [simp]: "event_key (with_version r ev) = event_key ev"
  by (simp add: event_key_def with_version_def)

lemma mset_filter_split: "mset (map f (filter (\<lambda>e. \<not> P e) xs)) + mset (map f (filter P xs)) = mset (map f xs)"
  by (induction xs) auto

lemma synced_keys: "mset (map event_key (synced P r evs)) = mset (map event_key evs)"
proof -
  have "map event_key (map (with_version r) xs) = map event_key xs" for xs by simp
  then show ?thesis unfolding synced_def using mset_filter_split [of event_key P evs] by (simp del: map_map)
qed

lemma settle_answer:
  assumes q: "q_list (mp_outbox s) (h # t)" and known: "\<forall>e \<in> set (h # t). map_of (mp_schema E) (me_model e) \<noteq> None"
  shows "\<exists>s1 t'. settle_head E h (Inr (Answer (Some m))) s = (Inr (), s1) \<and> q_list (mp_outbox s1) t' \<and>
    length t' = length t \<and> mset (map event_key t') = mset (map event_key t) \<and>
    mp_processing s1 = mp_processing s \<and> mp_ready s1 = mp_ready s \<and> mp_world s1 = mp_world s \<and>
    (mp_ready s \<longrightarrow> mp_next s1 = mp_next s @ [\<lparr>pe_operation = me_operation h, pe_model = me_model h,
       pe_record = Some m, pe_hasMore = (t \<noteq> [])\<rparr>])"
proof -
  obtain sm where sm: "map_of (mp_schema E) (me_model h) = Some sm" using known by auto
  obtain ob' where d: "dequeue (mp_js E) (mp_schema E) (Some (m, me_operation h)) (mp_outbox s) = (Inr (Some h), ob')"
    and q': "q_list ob' (if confirms (mp_schema E) m h (me_operation h)
      then synced (for_record (getIdentifierValue (mp_js E) sm m)) m t else t)" (is "q_list ob' ?t")
    using dequeue_eq [OF q sm] by blast
  have len: "length ?t = length t"
  proof -
    have "length (synced P r t) = length t" for P r
      using arg_cong [OF synced_keys [of P r t], of size] by simp
    then show ?thesis by simp
  qed
  have keys: "mset (map event_key ?t) = mset (map event_key t)" using synced_keys by (auto simp del: mset_map)
  obtain h' ob'' where p: "peek ob' = (h', ob'')" by fastforce
  have h': "(h' \<noteq> None) = (t \<noteq> [])"
    using p peek_list [OF q'] len by (auto split: list.splits)
  have "q_list ob'' ?t"
    using p peek_list [OF q'] q' by (auto split: list.splits)
  then show ?thesis
    using d p h' len keys
    by (intro exI [of _ "s\<lparr>mp_outbox := ob'', mp_next := (if mp_ready s then mp_next s @ [\<lparr>pe_operation = me_operation h,
        pe_model = me_model h, pe_record = Some m, pe_hasMore = (h' \<noteq> None)\<rparr>] else mp_next s)\<rparr>"] exI [of _ ?t])
      (simp add: settle_head_def mp_dequeue_def)
qed

lemma answers_drain:
  assumes E: "answers E" and "q_list (mp_outbox s) evs" "\<forall>e \<in> set evs. map_of (mp_schema E) (me_model e) \<noteq> None"
    "mp_processing s" "mp_ready s"
  shows "\<exists>s' es. drain E s = Some (Inr (), s') \<and> q_events (mp_outbox s') = [] \<and> \<not> mp_processing s' \<and>
    mp_next s' = mp_next s @ es \<and> map pe_hasMore es = replicate (length evs - 1) True @ (if evs = [] then [] else [False]) \<and>
    mset (map (\<lambda>e. (pe_model e, pe_operation e)) es) = mset (map event_key evs)"
  using assms(2-)
proof (induction evs arbitrary: s rule: length_induct)
  case (1 evs)
  have open_: "\<not> mp_closing E (mp_world s)" using E by (simp add: answers_def)
  show ?case
  proof (cases evs)
    case Nil
    have p: "peek (mp_outbox s) = (None, (mp_outbox s)\<lparr>inProgress := None\<rparr>)"
      using peek_list [OF 1(2)] Nil by simp
    have "drain E s = Some (Inr (), mp_pause (s\<lparr>mp_outbox := (mp_outbox s)\<lparr>inProgress := None\<rparr>\<rparr>))"
      using 1 open_ p by (simp add: drain.simps)
    then show ?thesis using Nil 1(2) by (simp add: mp_pause_def q_events_def q_list_def)
  next
    case (Cons h t)
    let ?s = "s\<lparr>mp_outbox := (mp_outbox s)\<lparr>inProgress := Some (me_id h)\<rparr>\<rparr>"
    have p: "peek (mp_outbox s) = (Some h, mp_outbox ?s)" using peek_list [OF 1(2)] Cons by simp
    obtain m w where send: "send_head E h ?s = Some (Inr (Answer (Some m)), with_world w ?s)"
      using answers_send [OF E] by blast
    have q: "q_list (mp_outbox (with_world w ?s)) (h # t)" using 1(2) Cons by simp
    have known: "\<forall>e \<in> set (h # t). map_of (mp_schema E) (me_model e) \<noteq> None" using 1(3) Cons by simp
    obtain s1 t' where settle: "settle_head E h (Inr (Answer (Some m))) (with_world w ?s) = (Inr (), s1)"
      and q': "q_list (mp_outbox s1) t'" and len: "length t' = length t"
      and keys: "mset (map event_key t') = mset (map event_key t)"
      and kept: "mp_processing s1" "mp_ready s1"
      and pub: "mp_next s1 = mp_next s @ [\<lparr>pe_operation = me_operation h, pe_model = me_model h,
        pe_record = Some m, pe_hasMore = (t \<noteq> [])\<rparr>]"
      using settle_answer [OF q known, of m] 1(4,5) by auto
    have models: "fst ` set (map event_key t') = fst ` set (map event_key t)" using keys by (metis set_mset_mset)
    have known': "\<forall>e \<in> set t'. map_of (mp_schema E) (me_model e) \<noteq> None"
    proof
      fix e assume "e \<in> set t'"
      then have "me_model e \<in> fst ` set (map event_key t')" by (force simp: event_key_def)
      then obtain e' where "e' \<in> set t" "me_model e = me_model e'" using models by (auto simp: event_key_def)
      then show "map_of (mp_schema E) (me_model e) \<noteq> None" using known by auto
    qed
    obtain s' es where rest: "drain E s1 = Some (Inr (), s')" "q_events (mp_outbox s') = []" "\<not> mp_processing s'"
      "mp_next s' = mp_next s1 @ es"
      "map pe_hasMore es = replicate (length t' - 1) True @ (if t' = [] then [] else [False])"
      "mset (map (\<lambda>e. (pe_model e, pe_operation e)) es) = mset (map event_key t')"
      using 1(1) [THEN spec, THEN mp, THEN spec, THEN mp, OF _ q', THEN mp, OF _ known', THEN mp, OF _ kept(1), THEN mp,
          OF _ kept(2)] len Cons by auto
    have "drain E s = drain E s1"
      using 1(4) open_ p send settle by (subst drain.simps) simp
    moreover have "t' = [] \<longleftrightarrow> t = []" using len by auto
    ultimately show ?thesis
      using rest pub len keys Cons
      by (intro exI [of _ s'] exI [of _ "\<lparr>pe_operation = me_operation h, pe_model = me_model h,
          pe_record = Some m, pe_hasMore = (t \<noteq> [])\<rparr> # es"])
        (cases t, auto simp: event_key_def [of h] Suc_diff_le)
  qed
qed

text \<open>
  C8. With a service that answers, resuming the processor empties the outbox: every mutation is sent and confirmed
  once, its answer is published, and only the last publication says that nothing is left.
\<close>

theorem resume_confirms_everything:
  assumes "answers E" "q_list (mp_outbox s) evs" "\<forall>e \<in> set evs. map_of (mp_schema E) (me_model e) \<noteq> None"
    "\<not> mp_processing s" "mp_ready s"
  shows "\<exists>s' es. resume E s = Some (Inr (), s') \<and> q_events (mp_outbox s') = [] \<and> \<not> mp_processing s' \<and>
    mp_next s' = mp_next s @ es \<and> map pe_hasMore es = replicate (length evs - 1) True @ (if evs = [] then [] else [False]) \<and>
    mset (map (\<lambda>e. (pe_model e, pe_operation e)) es) = mset (map event_key evs)"
proof -
  have "resume E s = drain E (s\<lparr>mp_processing := True\<rparr>)"
    using assms(1,4,5) by (simp add: resume_def answers_def)
  then show ?thesis using answers_drain [OF assms(1), of "s\<lparr>mp_processing := True\<rparr>" evs] assms(2,3,5) by simp
qed

section \<open>Outages and pauses\<close>

definition network_error :: "gql_error \<Rightarrow> bool" where
  "network_error e \<longleftrightarrow> ge_errorType e \<noteq> Some ''Unauthorized'' \<and>
     (ge_message e = ''Network Error'' \<or> ge_code e = Some ''ERR_NETWORK'')"

definition undisturbed_env :: "'w mp_env \<Rightarrow> bool" where
  "undisturbed_env E \<longleftrightarrow> (\<forall>mode w. mp_token E mode w = (Inr (), w)) \<and>
     (\<forall>w. mp_meanwhile E w = \<lparr>mw_paused = False, mw_enqueued = []\<rparr>) \<and> (\<forall>w. \<not> mp_closing E w)"

text \<open>A network that is down for the first \<open>n\<close> requests; the world counts the requests.\<close>

definition outage :: "nat \<Rightarrow> gql_error \<Rightarrow> model \<Rightarrow> nat mp_env \<Rightarrow> bool" where
  "outage n e r E \<longleftrightarrow> network_error e \<and> undisturbed_env E \<and>
     (\<forall>req w. mp_graphql E req w = (if w < n then Inl (ServiceError e) else Inr (Some r), Suc w)) \<and>
     (\<forall>w. snd (mp_random E w) = w) \<and> (\<forall>d w. mp_wait E d w = w)"

lemma safe_backoff_network: "safeJitteredBackoff k (plain_error (Some ''Network Error'')) x \<noteq> None"
  by (simp add: safeJitteredBackoff_def plain_error_def split: option.split)

lemma outage_send:
  assumes "outage n e r E" "mp_processing s"
  shows "send_once E ev mode s =
    ((if mp_world s < n then Inl (plain_error (Some ''Network Error'')) else Inr (Answer (Some r))), with_world (Suc (mp_world s)) s)"
  using assms
  by (simp add: outage_def undisturbed_env_def network_error_def send_once_def attempt_loop.simps graphql_def with_world_def)

lemma outage_retry:
  assumes o: "outage n e r E"
  shows "mp_processing s \<Longrightarrow> mp_world s \<le> n \<Longrightarrow>
    retry (retry_mutation E ev mode) k err s = Some (Inr (Answer (Some r)), with_world (Suc n) s)"
proof (induction "n - mp_world s" arbitrary: k err s)
  case 0
  then have "mp_world s = n" by simp
  then show ?case using outage_send [OF o, of s ev mode] 0 o
    by (subst retry.simps) (simp add: outage_def undisturbed_env_def)
next
  case (Suc d)
  let ?s1 = "with_world (Suc (mp_world s)) s"
  obtain x where x: "mp_random E (Suc (mp_world s)) = (x, Suc (mp_world s))"
    using o unfolding outage_def by (metis prod.collapse)
  obtain t where t: "safeJitteredBackoff (k + 1) (plain_error (Some ''Network Error'')) x = Some t"
    using safe_backoff_network by blast
  have down: "mp_world s < n" using Suc.hyps(2) by simp
  have "retry (retry_mutation E ev mode) k err s = retry (retry_mutation E ev mode) (k + 1) (plain_error (Some ''Network Error'')) ?s1"
    using outage_send [OF o, of s ev mode] Suc.prems down o x t
    by (subst retry.simps) (simp add: outage_def undisturbed_env_def plain_error_def isNonRetryableError_def)
  also have "\<dots> = Some (Inr (Answer (Some r)), with_world (Suc n) ?s1)"
    using Suc.hyps(1) [of ?s1] Suc.hyps(2) Suc.prems by simp
  finally show ?case by (simp add: with_world_def)
qed

text \<open>
  C33. A mutation survives an outage of any length: while the processor is not paused, network errors are retried
  for ever, and the first request after the outage is answered.
\<close>

theorem mutation_survives_outage:
  assumes "outage n e r E" "mp_processing s" "mp_world s = 0"
  shows "send_head E ev s = Some (Inr (Answer (Some r)), with_world (Suc n) s)"
proof -
  have "authModeRetry E ev mode rest s = Some (Inr (Answer (Some r)), with_world (Suc n) s)" for mode rest
    using outage_retry [OF assms(1,2)] assms(3) by (cases rest) (simp_all add: jitteredRetry_def)
  then show ?thesis by (simp add: send_head_def split: list.split)
qed

text \<open>The network is down, and the processor is paused while a request is under way.\<close>

definition offline :: "'w mp_env \<Rightarrow> bool" where
  "offline E \<longleftrightarrow> (\<forall>req w. \<exists>e. fst (mp_graphql E req w) = Inl (ServiceError e) \<and> network_error e) \<and>
     (\<forall>mode w. mp_token E mode w = (Inr (), w)) \<and> (\<forall>w. mp_meanwhile E w = \<lparr>mw_paused = True, mw_enqueued = []\<rparr>)"

definition same_outbox :: "'w mp_state \<Rightarrow> 'w mp_state \<Rightarrow> bool" where
  "same_outbox s s1 \<longleftrightarrow> mp_outbox s1 = mp_outbox s \<and> mp_next s1 = mp_next s \<and> \<not> mp_processing s1"

lemma offline_send:
  assumes "offline E"
  shows "\<exists>s1. send_once E ev mode s = (Inl (nonRetryableError ''Offline''), s1) \<and> same_outbox s s1"
proof -
  let ?vars = "createQueryVariables (mp_inputs E (me_model ev)) (me_operation ev) (me_data ev) (me_condition ev)"
  obtain a w where g: "mp_graphql E (Mutate (me_operation ev) (me_model ev) ?vars mode) (mp_world s) = (a, w)" by fastforce
  obtain e where e: "a = Inl (ServiceError e)" "network_error e" using assms g unfolding offline_def by (metis fst_conv)
  show ?thesis using assms g e
    by (auto simp: offline_def send_once_def attempt_loop.simps graphql_def with_world_def network_error_def same_outbox_def)
qed

lemma offline_retry:
  assumes "offline E"
  shows "\<exists>s1. jitteredRetry E ev mode s = Some (Inl (nonRetryableError ''Offline''), s1) \<and> same_outbox s s1"
  using offline_send [OF assms, of ev mode s]
  by (auto simp: jitteredRetry_def retry_mutation_def retry.simps nonRetryableError_def isNonRetryableError_def)

lemma offline_auth:
  assumes "offline E"
  shows "\<exists>s1. authModeRetry E ev mode rest s = Some (Inl (nonRetryableError ''Offline''), s1) \<and> same_outbox s s1"
proof (induction rest arbitrary: mode s)
  case Nil
  obtain s1 where "jitteredRetry E ev mode s = Some (Inl (nonRetryableError ''Offline''), s1)" "same_outbox s s1"
    using offline_retry [OF assms] by blast
  then show ?case by (auto simp: nonRetryableError_def same_outbox_def)
next
  case (Cons m ms)
  obtain s1 where s1: "jitteredRetry E ev mode s = Some (Inl (nonRetryableError ''Offline''), s1)" "same_outbox s s1"
    using offline_retry [OF assms] by blast
  obtain s2 where "authModeRetry E ev (Some m) ms s1 = Some (Inl (nonRetryableError ''Offline''), s2)" "same_outbox s1 s2"
    using Cons.IH by blast
  then show ?case using s1 by (auto simp: same_outbox_def)
qed

text \<open>
  Going offline loses nothing: when the network is down and the processor is paused, the loop stops with the
  queue as it was and publishes nothing, whatever modes of authorization are left to try.
\<close>

theorem offline_keeps_the_queue:
  assumes "offline E" "\<not> mp_closing E (mp_world s)" "mp_processing s" "q_events (mp_outbox s) \<noteq> []"
  shows "\<exists>s'. drain E s = Some (Inr (), s') \<and> queue (mp_outbox s') = queue (mp_outbox s) \<and>
    mp_next s' = mp_next s \<and> \<not> mp_processing s'"
proof -
  obtain h ob where p: "peek (mp_outbox s) = (Some h, ob)" "queue ob = queue (mp_outbox s)"
    using assms(4) by (cases "q_events (mp_outbox s)") (auto simp: peek_def)
  obtain s1 where s1: "send_head E h (s\<lparr>mp_outbox := ob\<rparr>) = Some (Inl (nonRetryableError ''Offline''), s1)"
    "same_outbox (s\<lparr>mp_outbox := ob\<rparr>) s1"
    using offline_auth [OF assms(1)] unfolding send_head_def
    by (cases "mp_authModes E (me_model h) (me_operation h)") fastforce+
  have "drain E s = drain E s1"
    using assms(2,3) p s1 by (subst drain.simps) (simp add: settle_head_def nonRetryableError_def is_signal_def)
  also have "\<dots> = Some (Inr (), mp_pause s1)" using s1(2) by (simp add: drain.simps same_outbox_def)
  finally show ?thesis using s1(2) p(2) by (simp add: same_outbox_def mp_pause_def)
qed

section \<open>Conflicts\<close>

definition conflict_error :: "gql_error \<Rightarrow> bool" where
  "conflict_error e \<longleftrightarrow> ge_errorType e = Some ''ConflictUnhandled'' \<and> ge_message e \<noteq> ''Network Error'' \<and>
     ge_code e \<noteq> Some ''ERR_NETWORK''"

text \<open>A service that rejects every mutation with a conflict, and a handler that always throws; the world is the log.\<close>

definition stubborn :: "gql_error \<Rightarrow> model \<Rightarrow> gql_request list mp_env \<Rightarrow> bool" where
  "stubborn e r E \<longleftrightarrow> conflict_error e \<and> undisturbed_env E \<and>
     (\<forall>req w. mp_graphql E req w =
        ((case req of Mutate _ _ _ _ \<Rightarrow> Inl (ServiceError e) | GetById _ _ _ \<Rightarrow> Inr (Some r)), w @ [req])) \<and>
     (\<forall>l m opn k w. mp_conflictHandler E l m opn k w = (HandlerThrows, w))"

lemma stubborn_graphql:
  assumes "stubborn e r E"
  shows "graphql E (Mutate opn m vars mode) s = (Inl (ServiceError e), with_world (mp_world s @ [Mutate opn m vars mode]) s)"
    "graphql E (GetById m i mode) s = (Inr (Some r), with_world (mp_world s @ [GetById m i mode]) s)"
  using assms by (simp_all add: stubborn_def undisturbed_env_def graphql_def with_world_def)

lemma stubborn_loop:
  assumes "stubborn e r E"
  shows "n \<le> MAX_ATTEMPTS \<Longrightarrow> attempt_loop E ev mode vars n s =
    (Inr (Answer (Some r)), with_world (mp_world s @
       replicate (Suc (MAX_ATTEMPTS - n)) (Mutate (me_operation ev) (me_model ev) vars mode) @
       [GetById (me_model ev) (field_of (gv_input vars) ID) mode]) s)"
proof (induction "MAX_ATTEMPTS - n" arbitrary: n s)
  case 0
  then show ?case using assms stubborn_graphql [OF assms]
    by (subst attempt_loop.simps) (simp add: stubborn_def conflict_error_def undisturbed_env_def discard_def)
next
  case (Suc d)
  let ?req = "Mutate (me_operation ev) (me_model ev) vars mode"
  have less: "\<not> MAX_ATTEMPTS < n + 1" "MAX_ATTEMPTS - n = Suc (MAX_ATTEMPTS - (n + 1))" using Suc.hyps(2) by simp_all
  have "attempt_loop E ev mode vars n s = attempt_loop E ev mode vars (n + 1) (with_world (mp_world s @ [?req]) s)"
    using assms less(1) stubborn_graphql [OF assms]
    by (subst attempt_loop.simps) (simp add: stubborn_def conflict_error_def)
  then show ?case using Suc.hyps(1) [of "n + 1" "with_world (mp_world s @ [?req]) s"] Suc.hyps(2) less by simp
qed

text \<open>
  A conflict ends: when the handler of the application fails each time, the mutation is sent eleven times, and
  then the record of the service is fetched and stands for the answer.
\<close>

theorem conflicts_end:
  assumes "stubborn e r E" "vars = createQueryVariables (mp_inputs E (me_model ev)) (me_operation ev) (me_data ev) (me_condition ev)"
  shows "send_once E ev mode s = (Inr (Answer (Some r)), with_world (mp_world s @
       replicate 11 (Mutate (me_operation ev) (me_model ev) vars mode) @
       [GetById (me_model ev) (field_of (gv_input vars) ID) mode]) s)"
proof -
  have "mp_token E mode (mp_world s) = (Inr (), mp_world s)" using assms(1) by (simp add: stubborn_def undisturbed_env_def)
  then show ?thesis using stubborn_loop [OF assms(1), of 0 ev mode vars s]
    by (simp add: send_once_def assms(2) [symmetric] with_world_def MAX_ATTEMPTS_def numeral_eq_Suc)
qed

text \<open>The service reports a conflict, and the handler gives a record to retry with.\<close>

definition resolving :: "gql_error \<Rightarrow> model \<Rightarrow> 'w mp_env \<Rightarrow> bool" where
  "resolving e m E \<longleftrightarrow> conflict_error e \<and> undisturbed_env E \<and>
     (\<forall>req w. fst (mp_graphql E req w) = Inl (ServiceError e)) \<and>
     (\<forall>l rm opn k w. fst (mp_conflictHandler E l rm opn k w) = RetryWith m)"

lemma resolving_send:
  assumes "resolving e m E"
  shows "\<exists>w. send_once E ev mode s = (Inl (nonRetryableError ''RetryMutation''), save_resolution E ev m (with_world w s))"
proof -
  let ?vars = "createQueryVariables (mp_inputs E (me_model ev)) (me_operation ev) (me_data ev) (me_condition ev)"
  let ?req = "Mutate (me_operation ev) (me_model ev) ?vars mode"
  obtain w1 where g: "mp_graphql E ?req (mp_world s) = (Inl (ServiceError e), w1)"
    using assms unfolding resolving_def by (metis prod.collapse)
  obtain w2 where h: "mp_conflictHandler E (gv_input ?vars) (ge_data e) (opTypeFromTransformerOperation (me_operation ev)) 1 w1
      = (RetryWith m, w2)"
    using assms unfolding resolving_def by (metis prod.collapse)
  have s1: "graphql E ?req (with_world (mp_world s) s) = (Inl (ServiceError e), with_world w1 s)"
    using g assms by (simp add: graphql_def resolving_def undisturbed_env_def with_world_def)
  then show ?thesis using h assms
    by (auto simp: send_once_def attempt_loop.simps [of _ _ _ _ 0] resolving_def conflict_error_def undisturbed_env_def MAX_ATTEMPTS_def)
qed

lemma resolving_head:
  assumes "resolving e m E" "mp_authModes E (me_model ev) (me_operation ev) \<in> {[], [mode]}"
  shows "\<exists>w. send_head E ev s = Some (Inl (nonRetryableError ''RetryMutation''),
    report SyncProcess (Some ''RetryMutation'') (save_resolution E ev m (with_world w s)))"
proof -
  have "\<exists>w. authModeRetry E ev md [] s = Some (Inl (nonRetryableError ''RetryMutation''),
      report SyncProcess (Some ''RetryMutation'') (save_resolution E ev m (with_world w s)))" for md
    using resolving_send [OF assms(1), of ev md s]
    by (auto simp: jitteredRetry_def retry.simps nonRetryableError_def isNonRetryableError_def)
  then show ?thesis using assms(2) by (auto simp: send_head_def)
qed

text \<open>
  A resolved conflict keeps its place: the record of the conflict handler replaces the data of the mutation in
  flight, under the same id, operation and condition, and the loop goes on with it at the head of the queue.
\<close>

theorem conflict_is_resolved_in_place:
  assumes "resolving e m E" "mp_authModes E (me_model h) (me_operation h) \<in> {[], [mode]}"
    "q_list (mp_outbox s) (h # t)" "map_of (mp_schema E) (me_model h) = Some sm"
    "mp_processing s"
  shows "\<exists>s' h'. drain E s = drain E s' \<and> q_list (mp_outbox s') (h' # t) \<and> mp_processing s' \<and>
    me_id h' = me_id h \<and> me_model h' = me_model h \<and> me_operation h' = me_operation h \<and> me_condition h' = me_condition h \<and>
    me_data h' = json_clean m \<and> me_modelId h' = getIdentifierValue (mp_js E) sm m"
proof -
  let ?ob = "(mp_outbox s)\<lparr>inProgress := Some (me_id h)\<rparr>"
  let ?h' = "createMutationInstance (mp_js E) sm (opTypeFromTransformerOperation (me_operation h)) (me_model h) m
    (me_condition h) (me_id h)"
  obtain w where send: "send_head E h (s\<lparr>mp_outbox := ?ob\<rparr>) = Some (Inl (nonRetryableError ''RetryMutation''),
      report SyncProcess (Some ''RetryMutation'') (save_resolution E h m (with_world w (s\<lparr>mp_outbox := ?ob\<rparr>))))"
      (is "_ = Some (_, ?s1)")
    using resolving_head [OF assms(1,2)] by blast
  have notin: "me_id h \<notin> me_id ` set t" using assms(3) by (rule q_list_Cons)
  have "q_list (q_save ?h' ?ob) (map (\<lambda>e. if me_id e = me_id ?h' then ?h' else e) (h # t))"
    by (rule q_save_known) (use assms(3) in \<open>simp_all add: createMutationInstance_def\<close>)
  moreover have "map (\<lambda>e. if me_id e = me_id h then ?h' else e) t = t"
    using notin by (intro map_idI) (metis imageI)
  ultimately have q: "q_list (mp_outbox ?s1) (?h' # t)"
    using assms(4) by (simp add: save_resolution_def createMutationInstance_def)
  have "drain E s = drain E ?s1"
    using assms(1,5) send peek_list [OF assms(3)]
    by (subst drain.simps) (simp add: settle_head_def nonRetryableError_def is_signal_def resolving_def undisturbed_env_def)
  moreover have "mp_processing ?s1" using assms(5) by simp
  moreover have "operationFromOpType (opTypeFromTransformerOperation opn) = opn" for opn by (cases opn) simp_all
  ultimately show ?thesis using q
    by (intro exI [of _ ?s1] exI [of _ ?h']) (simp add: createMutationInstance_def)
qed

text \<open>
  The signal that a conflict was resolved does not only restart the loop: the error handler of the application is
  called with it, and with a second mode of authorization the mutation is first sent again as it was.
\<close>

lemma resolution_is_reported:
  assumes "resolving e m E" "mp_authModes E (me_model ev) (me_operation ev) \<in> {[], [mode]}"
  shows "\<exists>x s1. send_head E ev s = Some (x, s1) \<and> mp_reports s1 = mp_reports s @ [(SyncProcess, Some ''RetryMutation'')]"
proof -
  have "mp_reports (save_resolution E ev m (with_world w s)) = mp_reports s" for w
    by (simp add: save_resolution_def split: option.split)
  then show ?thesis using resolving_head [OF assms, of s] by (auto simp: report_def)
qed

lemma second_mode_sends_stale_data:
  assumes "conflict_error e" "undisturbed_env E"
    "\<And>req w. mp_graphql E req w = (Inl (ServiceError e), w @ [req])"
    "\<And>l rm opn k w. mp_conflictHandler E l rm opn k w = (RetryWith m, w)"
    "mp_authModes E (me_model ev) (me_operation ev) = [a, b]"
    "vars = createQueryVariables (mp_inputs E (me_model ev)) (me_operation ev) (me_data ev) (me_condition ev)"
  shows "\<exists>x s1. send_head E ev s = Some (x, s1) \<and>
    mp_world s1 = mp_world s @ [Mutate (me_operation ev) (me_model ev) vars (Some a), Mutate (me_operation ev) (me_model ev) vars (Some b)]"
proof -
  have once: "send_once E ev mode s = (Inl (nonRetryableError ''RetryMutation''), save_resolution E ev m
      (with_world (mp_world s @ [Mutate (me_operation ev) (me_model ev) vars mode]) s))" for mode s
    using assms(1-4)
    by (simp add: send_once_def attempt_loop.simps [of _ _ _ _ 0] undisturbed_env_def conflict_error_def graphql_def
        assms(6) [symmetric] MAX_ATTEMPTS_def) (simp add: with_world_def)
  have retried: "jitteredRetry E ev mode s = Some (Inl (nonRetryableError ''RetryMutation''), save_resolution E ev m
      (with_world (mp_world s @ [Mutate (me_operation ev) (me_model ev) vars mode]) s))" for mode s
    by (simp add: jitteredRetry_def retry.simps once nonRetryableError_def isNonRetryableError_def)
  show ?thesis by (simp add: send_head_def assms(5) retried nonRetryableError_def)
qed

section \<open>The variables of a mutation\<close>

text \<open>The fields a mutation writes: keys for a deletion, and otherwise the writable fields and the foreign keys.\<close>

definition field_input :: "input_schema \<Rightarrow> mutation_type \<Rightarrow> model \<Rightarrow> input_field \<Rightarrow> string set" where
  "field_input sch opn data f =
     (if mf_isReadOnly f \<or> mf_name f \<in> set (ownerFields sch) \<and> field_of data (mf_name f) = JNull then {}
      else if mf_model f = None then (if opn = UpdateOp \<and> map_of data (mf_name f) = None then {} else {mf_name f})
      else if isTargetNameAssociation (mf_association f) \<noteq> None \<and>
          map_option connectionType (mf_association f) = Some ''BELONGS_TO''
      then (case extractTargetNamesFromSrc (mf_association f) of None \<Rightarrow> {} | Some ts \<Rightarrow> set ts) else {})"

definition input_fields :: "input_schema \<Rightarrow> mutation_type \<Rightarrow> model \<Rightarrow> string set" where
  "input_fields sch opn data =
     (if opn = DeleteOp then (case is_primaryKey sch of Some (k # ks) \<Rightarrow> set (k # ks) | _ \<Rightarrow> {ID})
      else \<Union>f \<in> set (is_fields sch). field_input sch opn data f)"

lemma map_of_fold_fields:
  "map_of (fold (\<lambda>t. AList.update t (g t)) ts acc) k = (if k \<in> set ts then Some (g k) else map_of acc k)"
  by (induction ts arbitrary: acc) auto

definition takes :: "(string \<Rightarrow> jsval) \<Rightarrow> string set \<Rightarrow> model \<Rightarrow> bool" where
  "takes g K m \<longleftrightarrow> (\<forall>k. map_of m k = (if k \<in> K then Some (g k) else None))"

lemma takes_delete: "takes (field_of data) (input_fields sch DeleteOp data) (deleteInput sch data)"
  by (auto simp: takes_def input_fields_def deleteInput_def map_of_fold_fields split: option.split list.split)

lemma takes_none: "takes g K acc \<Longrightarrow> takes g (K \<union> {}) acc"
  by simp

lemma takes_one: "takes g K acc \<Longrightarrow> takes g (insert k K) (AList.update k (g k) acc)"
  by (auto simp: takes_def)

lemma takes_more: "takes g K acc \<Longrightarrow> takes g (K \<union> set ts) (fold (\<lambda>t. AList.update t (g t)) ts acc)"
  by (auto simp: takes_def map_of_fold_fields)

lemma takes_field:
  "takes (field_of data) K acc \<Longrightarrow>
   takes (field_of data) (K \<union> field_input sch opn data f) (mutation_field sch opn data f acc)"
  unfolding field_input_def mutation_field_def
  by (simp add: takes_one takes_more split: option.split) auto

lemma takes_fields:
  "takes (field_of data) K acc \<Longrightarrow>
   takes (field_of data) (K \<union> (\<Union>f \<in> set fs. field_input sch opn data f)) (fold (mutation_field sch opn data) fs acc)"
proof (induction fs arbitrary: K acc)
  case (Cons f fs)
  show ?case using Cons.IH [OF takes_field [OF Cons.prems]] by (simp add: Un_assoc)
qed simp

text \<open>
  The input of a mutation has exactly the key fields of a deletion, or the writable fields of the record (for
  an update only the changed ones, which the data holds) with the keys of the records it belongs to, each with the
  value of the data, and the version the mutation is based on. A creation carries no condition.
\<close>

theorem mutation_input:
  "(\<forall>k. map_of (gv_input (createQueryVariables sch opn data condition)) k =
      (if k = ''_version'' then Some (field_of data k)
       else if k \<in> input_fields sch opn (AList.delete ''_version'' data) then Some (field_of data k) else None)) \<and>
    (gv_condition (createQueryVariables sch opn data condition) = None \<longleftrightarrow> opn = CreateOp)"
proof -
  let ?parsed = "AList.delete ''_version'' data"
  have "takes (field_of ?parsed) (input_fields sch opn ?parsed)
      (if opn = DeleteOp then deleteInput sch ?parsed else fold (mutation_field sch opn ?parsed) (is_fields sch) [])"
  proof (cases "opn = DeleteOp")
    case False
    have "takes (field_of ?parsed) {} []" by (simp add: takes_def)
    from takes_fields [OF this] False show ?thesis by (simp add: input_fields_def)
  qed (simp add: takes_delete)
  then show ?thesis
    by (auto simp: createQueryVariables_def Let_def takes_def field_of_def)
qed

text \<open>
  The record a conflict is given up for is asked for by \<open>id\<close>: for a model whose primary key has other fields the
  request names no record.
\<close>

lemma custom_key_discard_names_no_record:
  assumes "is_primaryKey sch = Some [''sku'']"
  shows "field_of (gv_input (createQueryVariables sch DeleteOp data condition)) ID = JUndefined"
  using assms by (simp add: createQueryVariables_def deleteInput_def ID_def field_of_def)

section \<open>Concrete runs\<close>

definition demo_inputs :: input_schema where
  "demo_inputs = \<lparr>is_primaryKey = Some [''id''],
     is_fields = [\<lparr>mf_name = ''id'', mf_model = None, mf_association = None, mf_isReadOnly = False\<rparr>,
                  \<lparr>mf_name = ''title'', mf_model = None, mf_association = None, mf_isReadOnly = False\<rparr>],
     is_ownerRules = None\<rparr>"

definition demo_mp_env :: "(gql_request \<Rightarrow> 'w \<Rightarrow> (gql_failure + model option) \<times> 'w) \<Rightarrow> bool \<Rightarrow> conflict_answer \<Rightarrow> 'w mp_env" where
  "demo_mp_env g paused answer =
     \<lparr>mp_js = demo_js, mp_schema = [(''Post'', demo_schema)], mp_inputs = (\<lambda>_. demo_inputs), mp_authModes = (\<lambda>_ _. []),
      mp_token = (\<lambda>_ w. (Inr (), w)), mp_graphql = g,
      mp_meanwhile = (\<lambda>_. \<lparr>mw_paused = paused, mw_enqueued = []\<rparr>),
      mp_conflictHandler = (\<lambda>_ _ _ _ w. (answer, w)), mp_closing = (\<lambda>_. False), mp_random = (\<lambda>w. (1 / 2, w)),
      mp_wait = (\<lambda>_ w. w)\<rparr>"

definition demo_mutation :: mutation_event where
  "demo_mutation = \<lparr>me_id = ''m1'', me_model = ''Post'', me_modelId = ''p1'', me_operation = UpdateOp,
     me_data = [(''id'', JStr ''p1''), (''title'', JStr ''a'')], me_condition = []\<rparr>"

definition demo_state :: "bool \<Rightarrow> 'w \<Rightarrow> 'w mp_state" where
  "demo_state processing w = \<lparr>mp_outbox = \<lparr>inProgress = None, queue = [(''m1'', demo_mutation)]\<rparr>,
     mp_processing = processing, mp_ready = True, mp_next = [], mp_reports = [], mp_world = w\<rparr>"

definition demo_conflict :: gql_error where
  "demo_conflict = \<lparr>ge_message = ''Conflict'', ge_errorType = Some ''ConflictUnhandled'', ge_code = None, ge_data = None\<rparr>"

lemma demo_conflict_is_conflict: "conflict_error demo_conflict"
  by (simp add: conflict_error_def demo_conflict_def)

definition demo_network :: gql_error where
  "demo_network = \<lparr>ge_message = ''Network Error'', ge_errorType = None, ge_code = None, ge_data = None\<rparr>"

definition demo_record :: model where "demo_record = [(''id'', JStr ''p1'')]"

lemma demo_mutation_queue: "q_list (mp_outbox (demo_state b w)) [demo_mutation]"
  by (simp add: q_list_def demo_state_def demo_mutation_def)

lemma demo_known: "map_of (mp_schema (demo_mp_env g b a)) (me_model demo_mutation) = Some demo_schema"
  by (simp add: demo_mp_env_def demo_mutation_def)

abbreviation demo_answering :: "unit mp_env" where
  "demo_answering \<equiv> demo_mp_env (\<lambda>_ w. (Inr (Some demo_record), w)) False DISCARD"

lemma demo_answers: "answers demo_answering"
  by (simp add: answers_def demo_mp_env_def)

theorem resume_confirms_everything_witness:
  "\<exists>s' es. resume demo_answering (demo_state False ()) = Some (Inr (), s') \<and> q_events (mp_outbox s') = [] \<and>
     mp_next s' = es \<and> map pe_hasMore es = [False]"
  using resume_confirms_everything [OF demo_answers demo_mutation_queue, of False "()"]
  by (auto simp: demo_known demo_state_def)

theorem drain_leaves_nothing_witness:
  "\<exists>s'. drain demo_answering (demo_state True ()) = Some (Inr (), s') \<and> q_events (mp_outbox s') = []"
proof -
  obtain s' where s': "drain demo_answering (demo_state True ()) = Some (Inr (), s')"
    using answers_drain [OF demo_answers demo_mutation_queue, of True "()"] by (auto simp: demo_known demo_state_def)
  then have "q_events (mp_outbox s') = [] \<or> mp_closing demo_answering (mp_world s')"
    by (rule drain_leaves_nothing [rotated 2]) (simp_all add: demo_mp_env_def demo_state_def)
  then show ?thesis using s' by (simp add: demo_mp_env_def)
qed

abbreviation demo_outage :: "nat mp_env" where
  "demo_outage \<equiv> demo_mp_env (\<lambda>_ w. (if w < 7 then Inl (ServiceError demo_network) else Inr (Some demo_record), Suc w)) False DISCARD"

theorem mutation_survives_outage_witness:
  "send_head demo_outage demo_mutation (demo_state True 0) = Some (Inr (Answer (Some demo_record)), with_world 8 (demo_state True 0))"
proof -
  have "outage 7 demo_network demo_record demo_outage"
    by (simp add: outage_def network_error_def demo_network_def undisturbed_env_def demo_mp_env_def)
  from mutation_survives_outage [OF this, of "demo_state True 0" demo_mutation] show ?thesis
    by (simp add: demo_state_def)
qed

theorem offline_keeps_the_queue_witness:
  "\<exists>s'. drain (demo_mp_env (\<lambda>_ w. (Inl (ServiceError demo_network), w)) True DISCARD) (demo_state True ()) = Some (Inr (), s') \<and>
     queue (mp_outbox s') = [(''m1'', demo_mutation)]"
  using offline_keeps_the_queue [of "demo_mp_env (\<lambda>_ w. (Inl (ServiceError demo_network), w)) True DISCARD" "demo_state True ()"]
  by (auto simp: offline_def network_error_def demo_network_def demo_mp_env_def demo_state_def q_events_def)

abbreviation demo_stubborn :: "gql_request list mp_env" where
  "demo_stubborn \<equiv> demo_mp_env (\<lambda>req w. ((case req of Mutate _ _ _ _ \<Rightarrow> Inl (ServiceError demo_conflict)
     | GetById _ _ _ \<Rightarrow> Inr (Some demo_record)), w @ [req])) False HandlerThrows"

theorem conflicts_end_witness:
  "\<exists>s1. send_once demo_stubborn demo_mutation None (demo_state True []) = (Inr (Answer (Some demo_record)), s1) \<and>
     length (mp_world s1) = 12"
proof -
  have "stubborn demo_conflict demo_record demo_stubborn"
    by (simp add: stubborn_def demo_conflict_is_conflict undisturbed_env_def demo_mp_env_def)
  from conflicts_end [OF this refl, of demo_mutation None "demo_state True []"] show ?thesis
    by (intro exI conjI, assumption) (simp add: demo_state_def)
qed

theorem conflict_is_resolved_in_place_witness:
  "\<exists>s' h'. drain (demo_mp_env (\<lambda>_ w. (Inl (ServiceError demo_conflict), w)) False (RetryWith demo_record)) (demo_state True ()) =
     drain (demo_mp_env (\<lambda>_ w. (Inl (ServiceError demo_conflict), w)) False (RetryWith demo_record)) s' \<and>
     q_list (mp_outbox s') [h'] \<and> me_id h' = ''m1'' \<and> me_data h' = demo_record"
proof -
  let ?E = "demo_mp_env (\<lambda>_ w. (Inl (ServiceError demo_conflict), w)) False (RetryWith demo_record) :: unit mp_env"
  have "resolving demo_conflict demo_record ?E"
    by (simp add: resolving_def conflict_error_def demo_conflict_def undisturbed_env_def demo_mp_env_def)
  then have "\<exists>s' h'. drain ?E (demo_state True ()) = drain ?E s' \<and> q_list (mp_outbox s') (h' # []) \<and> mp_processing s' \<and>
      me_id h' = me_id demo_mutation \<and> me_model h' = me_model demo_mutation \<and> me_operation h' = me_operation demo_mutation \<and>
      me_condition h' = me_condition demo_mutation \<and> me_data h' = json_clean demo_record \<and>
      me_modelId h' = getIdentifierValue (mp_js ?E) demo_schema demo_record"
    by (rule conflict_is_resolved_in_place [where mode = undefined, OF _ _ demo_mutation_queue demo_known])
      (simp_all add: demo_mp_env_def demo_state_def)
  then show ?thesis by (auto simp: demo_mutation_def demo_record_def json_clean_def)
qed

end
