(* ===== verification/SchemaOrder.thy ===== *)
theory SchemaOrder
  imports DataStoreKeys
begin

text \<open>
  The order of the models of a namespace, computed when DataStore gets its schema (\<open>initSchema\<close> in
  \<open>datastore/src/datastore/datastore.ts\<close>): a model comes after the models it belongs to. The synchronisation of the
  models follows this order.
\<close>

section \<open>The order\<close>

text \<open>The models a model belongs to, itself left out.\<close>

definition connectedModels :: "string \<Rightarrow> schema_model \<Rightarrow> string list" where
  "connectedModels name sm =
     map (\<lambda>(k, f). the (mf_model f))
       (filter (\<lambda>(k, f). map_option connectionType (mf_association f) = Some ''BELONGS_TO'' \<and>
          mf_model f \<noteq> None \<and> mf_model f \<noteq> Some name) (sm_fields sm))"

definition modelAssociations :: "namespace \<Rightarrow> (string, string list) omap" where
  "modelAssociations ns = map (\<lambda>(name, sm). (name, connectedModels name sm)) ns"

text \<open>One pass over the models that are left: the result grows while the pass goes on.\<close>

definition order_step :: "string \<times> string list \<Rightarrow> (string, string list) omap \<Rightarrow> (string, string list) omap" where
  "order_step a result =
     (if list_all (\<lambda>p. map_of result p \<noteq> None) (snd a) then AList.update (fst a) (snd a) result else result)"

definition order_round :: "(string, string list) omap \<Rightarrow> (string, string list) omap \<Rightarrow> (string, string list) omap" where
  "order_round assocs result = fold order_step assocs result"

text \<open>\<open>None\<close> is the error that the models are not topologically sortable.\<close>

fun order_loop :: "nat \<Rightarrow> (string, string list) omap \<Rightarrow> (string, string list) omap \<Rightarrow> (string, string list) omap option" where
  "order_loop 0 assocs result = Some result"
| "order_loop (Suc count) assocs result =
     (if assocs = [] then Some result
      else if count = 0 then None
      else let result1 = order_round assocs result
           in order_loop count (filter (\<lambda>(m, ps). map_of result1 m = None) assocs) result1)"

definition modelTopologicalOrdering :: "namespace \<Rightarrow> (string, string list) omap option" where
  "modelTopologicalOrdering ns = order_loop 1000 (modelAssociations ns) []"

section \<open>Parents come first\<close>

definition parents_first :: "(string, string list) omap \<Rightarrow> bool" where
  "parents_first r \<longleftrightarrow> (\<forall>i < length r. set (snd (r ! i)) \<subseteq> fst ` set (take i r))"

lemma parents_first_snoc: "parents_first (r @ [a]) \<longleftrightarrow> parents_first r \<and> set (snd a) \<subseteq> fst ` set r"
  by (auto simp: parents_first_def nth_append less_Suc_eq)

text \<open>The models of the result and those left are the models of the schema, with their parents.\<close>

definition ordered_part :: "(string, string list) omap \<Rightarrow> (string, string list) omap \<Rightarrow> bool" where
  "ordered_part all r \<longleftrightarrow> okeys r \<and> set r \<subseteq> set all \<and> parents_first r"

lemma order_step_new:
  assumes "list_all (\<lambda>p. map_of r p \<noteq> None) ps" "m \<notin> fst ` set r"
  shows "order_step (m, ps) r = r @ [(m, ps)]" "set ps \<subseteq> fst ` set r"
proof -
  show "order_step (m, ps) r = r @ [(m, ps)]" using assms by (simp add: order_step_def update_notin)
  show "set ps \<subseteq> fst ` set r" using assms(1) by (force simp: list_all_iff map_of_eq_None_iff)
qed

lemma order_step_old:
  assumes "ordered_part all r" "(m, ps) \<in> set all" "okeys all" "m \<in> fst ` set r"
  shows "order_step (m, ps) r = r"
proof -
  obtain qs where qs: "map_of r m = Some qs" using assms(4) by (metis map_of_eq_None_iff not_None_eq)
  then have "(m, qs) \<in> set all" using assms(1) map_of_SomeD by (fastforce simp: ordered_part_def)
  then have "qs = ps" using assms(2,3) okeys_map_of by (metis option.inject)
  then have "AList.update m ps r = r" using qs by (metis update_triv)
  then show ?thesis by (simp add: order_step_def)
qed

lemma order_step_part:
  assumes "ordered_part all r" "a \<in> set all" "okeys all"
  shows "ordered_part all (order_step a r) \<and> set r \<subseteq> set (order_step a r)"
proof -
  obtain m ps where a: "a = (m, ps)" by fastforce
  consider (new) "list_all (\<lambda>p. map_of r p \<noteq> None) ps" "m \<notin> fst ` set r" | (old) "m \<in> fst ` set r"
    | (wait) "\<not> list_all (\<lambda>p. map_of r p \<noteq> None) ps" by blast
  then show ?thesis
  proof cases
    case new
    note n = order_step_new [OF new]
    show ?thesis using assms n(2) new(2) unfolding a n(1)
      by (auto simp: ordered_part_def parents_first_snoc okeys_def)
  next
    case old
    then show ?thesis using order_step_old [OF assms(1) _ assms(3)] assms a by simp
  next
    case wait
    then have "order_step a r = r" by (simp add: order_step_def a)
    then show ?thesis using assms(1) by simp
  qed
qed

lemma order_round_part:
  "ordered_part all r \<Longrightarrow> okeys all \<Longrightarrow> set assocs \<subseteq> set all \<Longrightarrow>
   ordered_part all (order_round assocs r) \<and> set r \<subseteq> set (order_round assocs r)"
proof (induction assocs arbitrary: r)
  case (Cons a assocs)
  have step: "ordered_part all (order_step a r)" "set r \<subseteq> set (order_step a r)"
    using order_step_part [OF Cons.prems(1) _ Cons.prems(2)] Cons.prems(3) by auto
  show ?case using Cons.IH [OF step(1) Cons.prems(2)] step(2) Cons.prems(3) by (auto simp: order_round_def)
qed (simp add: order_round_def)

lemma order_round_adds:
  assumes "ordered_part all r" "okeys all" "set assocs \<subseteq> set all" "(m, ps) \<in> set assocs" "set ps \<subseteq> fst ` set r"
  shows "m \<in> fst ` set (order_round assocs r)"
  using assms
proof (induction assocs arbitrary: r)
  case (Cons a assocs)
  have step: "ordered_part all (order_step a r)" "set r \<subseteq> set (order_step a r)"
    using order_step_part [OF Cons.prems(1) _ Cons.prems(2)] Cons.prems(3) by auto
  show ?case
  proof (cases "a = (m, ps)")
    case True
    have "list_all (\<lambda>p. map_of r p \<noteq> None) ps" using Cons.prems(5) by (auto simp: list_all_iff map_of_eq_None_iff)
    then have "m \<in> fst ` set (order_step a r)"
      using True order_step_new(1) [of r ps m] by (cases "m \<in> fst ` set r") (use step(2) in auto)
    then show ?thesis
      using order_round_part [OF step(1) Cons.prems(2), of assocs] Cons.prems(3)
      by (fastforce simp: order_round_def)
  next
    case False
    then show ?thesis using Cons.IH [OF step(1) Cons.prems(2)] Cons.prems(3-5) step(2)
      by (fastforce simp: order_round_def)
  qed
qed simp

definition models_left :: "(string, string list) omap \<Rightarrow> (string, string list) omap \<Rightarrow> (string, string list) omap" where
  "models_left all r = filter (\<lambda>(m, ps). map_of r m = None) all"

lemma left_after_round:
  assumes "ordered_part all r" "okeys all" "r1 = order_round (models_left all r) r"
  shows "filter (\<lambda>(m, ps). map_of r1 m = None) (models_left all r) = models_left all r1"
proof -
  have "set r \<subseteq> set r1" "okeys r1"
    using order_round_part [OF assms(1,2), of "models_left all r"] assms(3)
    by (auto simp: models_left_def ordered_part_def)
  then have "map_of r1 m = None \<Longrightarrow> map_of r m = None" for m
    unfolding map_of_eq_None_iff by (meson image_mono subsetD)
  then show ?thesis unfolding models_left_def filter_filter by (intro filter_cong) auto
qed

lemma left_Nil:
  assumes "models_left all r = []" "ordered_part all r" "okeys all"
  shows "fst ` set r = fst ` set all"
proof
  show "fst ` set r \<subseteq> fst ` set all" using assms(2) by (auto simp: ordered_part_def)
  show "fst ` set all \<subseteq> fst ` set r"
  proof
    fix m assume "m \<in> fst ` set all"
    then obtain ps where "(m, ps) \<in> set all" by auto
    then have "map_of r m \<noteq> None" using assms(1) by (auto simp: models_left_def filter_empty_conv)
    then show "m \<in> fst ` set r" by (metis map_of_eq_None_iff)
  qed
qed

lemma order_loop_more:
  assumes "ordered_part all r" "okeys all" "models_left all r \<noteq> []"
  shows "order_loop (Suc (Suc c)) (models_left all r) r =
    order_loop (Suc c) (models_left all (order_round (models_left all r) r)) (order_round (models_left all r) r)"
proof -
  have "order_loop (Suc (Suc c)) (models_left all r) r =
      order_loop (Suc c) (filter (\<lambda>(m, ps). map_of (order_round (models_left all r) r) m = None) (models_left all r))
        (order_round (models_left all r) r)"
    using assms(3) by (subst order_loop.simps(2)) (simp only: Let_def if_False nat.distinct simp_thms)
  then show ?thesis by (simp only: left_after_round [OF assms(1,2) refl])
qed

lemma order_loop_sound:
  assumes "okeys all"
  shows "ordered_part all r \<Longrightarrow> order_loop (Suc c) (models_left all r) r = Some r' \<Longrightarrow>
    ordered_part all r' \<and> fst ` set r' = fst ` set all"
proof (induction c arbitrary: r)
  case 0
  then show ?case using left_Nil [OF _ 0(1) assms] by (auto split: if_splits)
next
  case (Suc c)
  let ?r1 = "order_round (models_left all r) r"
  have sub: "set (models_left all r) \<subseteq> set all" by (auto simp: models_left_def)
  show ?case
  proof (cases "models_left all r = []")
    case True
    then show ?thesis using Suc.prems left_Nil [OF True Suc.prems(1) assms] by simp
  next
    case False
    then have "order_loop (Suc c) (models_left all ?r1) ?r1 = Some r'"
      using Suc.prems(2) order_loop_more [OF Suc.prems(1) assms False] by simp
    then show ?thesis using Suc.IH order_round_part [OF Suc.prems(1) assms sub] by blast
  qed
qed

text \<open>A ranking of the models: every model belongs to models of the schema of a smaller rank.\<close>

definition ranked :: "(string, string list) omap \<Rightarrow> (string \<Rightarrow> nat) \<Rightarrow> bool" where
  "ranked all rank \<longleftrightarrow> (\<forall>(m, ps) \<in> set all. \<forall>p \<in> set ps. p \<in> fst ` set all \<and> rank p < rank m)"

lemma round_shrinks:
  assumes "okeys all" "ordered_part all r" "ranked all rank" "models_left all r \<noteq> []"
  shows "length (models_left all (order_round (models_left all r) r)) < length (models_left all r)"
proof -
  let ?left = "models_left all r" and ?r1 = "order_round (models_left all r) r"
  have sub: "set ?left \<subseteq> set all" by (auto simp: models_left_def)
  obtain a where a: "a \<in> set ?left" "\<forall>b \<in> set ?left. rank (fst a) \<le> rank (fst b)"
    using ex_min_if_finite [of "(\<lambda>b. rank (fst b)) ` set ?left"] assms(4) by (auto simp: not_less)
  obtain m ps where m: "a = (m, ps)" by fastforce
  have "set ps \<subseteq> fst ` set r"
  proof
    fix p assume p: "p \<in> set ps"
    then obtain qs where qs: "(p, qs) \<in> set all" "rank p < rank m"
      using assms(3) a(1) sub m by (fastforce simp: ranked_def)
    then have "(p, qs) \<notin> set ?left" using a(2) m by fastforce
    then have "map_of r p \<noteq> None" using qs(1) by (auto simp: models_left_def)
    then show "p \<in> fst ` set r" by (metis map_of_eq_None_iff)
  qed
  then have "m \<in> fst ` set ?r1" using order_round_adds [OF assms(2,1) sub] a(1) m by blast
  then have "map_of ?r1 m \<noteq> None" by (metis map_of_eq_None_iff)
  then have "length (filter (\<lambda>(m, ps). map_of ?r1 m = None) ?left) < length ?left"
    using a(1) m by (intro length_filter_less [of a]) auto
  then show ?thesis by (simp only: left_after_round [OF assms(2,1) refl])
qed

lemma order_loop_complete:
  assumes "okeys all" "ranked all rank"
  shows "ordered_part all r \<Longrightarrow> length (models_left all r) \<le> c \<Longrightarrow> order_loop (Suc c) (models_left all r) r \<noteq> None"
proof (induction c arbitrary: r)
  case (Suc c)
  let ?r1 = "order_round (models_left all r) r"
  have sub: "set (models_left all r) \<subseteq> set all" by (auto simp: models_left_def)
  show ?case
  proof (cases "models_left all r = []")
    case False
    have "length (models_left all ?r1) \<le> c"
      using round_shrinks [OF assms(1) Suc.prems(1) assms(2) False] Suc.prems(2) by simp
    then have "order_loop (Suc c) (models_left all ?r1) ?r1 \<noteq> None"
      using Suc.IH order_round_part [OF Suc.prems(1) assms(1) sub] by blast
    then show ?thesis using order_loop_more [OF Suc.prems(1) assms(1) False] by simp
  qed simp
qed simp

lemma left_all: "models_left all [] = all"
  by (simp add: models_left_def case_prod_beta)

lemma start_part: "ordered_part all []"
  by (simp add: ordered_part_def parents_first_def)

lemma associations_okeys: "distinct (map fst ns) \<Longrightarrow> okeys (modelAssociations ns)"
  by (simp add: okeys_def modelAssociations_def case_prod_beta comp_def)

lemma ordering_sound:
  assumes "distinct (map fst ns)" "modelTopologicalOrdering ns = Some r"
  shows "ordered_part (modelAssociations ns) r" "fst ` set r = fst ` set (modelAssociations ns)"
  using order_loop_sound [OF associations_okeys [OF assms(1)] start_part, of 999 r] assms(2)
  by (simp_all add: modelTopologicalOrdering_def left_all del: order_loop.simps)

lemma ordered_all:
  assumes "ordered_part all r" "fst ` set r = fst ` set all" "okeys all"
  shows "set r = set all"
proof
  show "set r \<subseteq> set all" using assms(1) by (simp add: ordered_part_def)
  show "set all \<subseteq> set r"
  proof
    fix a assume a: "a \<in> set all"
    then have "fst a \<in> fst ` set r" using assms(2) by blast
    then obtain qs where qs: "(fst a, qs) \<in> set r" by auto
    then have "(fst a, qs) \<in> set all" using assms(1) by (auto simp: ordered_part_def)
    then have "qs = snd a" using a assms(3) okeys_map_of [of all "fst a" qs] okeys_map_of [of all "fst a" "snd a"] by simp
    then show "a \<in> set r" using qs by simp
  qed
qed

lemma parents_first_ranked:
  assumes "okeys r" "parents_first r"
  shows "ranked r (\<lambda>m. length (takeWhile (\<lambda>a. fst a \<noteq> m) r))"
  unfolding ranked_def
proof (clarify)
  fix m ps p assume a: "(m, ps) \<in> set r" "p \<in> set ps"
  then obtain i where i: "i < length r" "r ! i = (m, ps)" by (metis in_set_conv_nth)
  then have "p \<in> fst ` set (take i r)" using assms(2) a(2) by (force simp: parents_first_def)
  then obtain j where j: "j < i" "fst (r ! j) = p" by (force simp: in_set_conv_nth)
  have pos: "length (takeWhile (\<lambda>a. fst a \<noteq> fst (r ! k)) r) = k" if "k < length r" for k
  proof -
    have "fst (r ! l) \<noteq> fst (r ! k)" if "l < k" for l
    proof -
      have "map fst r ! l \<noteq> map fst r ! k"
        using assms(1) that \<open>k < length r\<close> by (simp add: okeys_def nth_eq_iff_index_eq del: nth_map)
      then show ?thesis using that \<open>k < length r\<close> by simp
    qed
    then have "takeWhile (\<lambda>a. fst a \<noteq> fst (r ! k)) r = take k r"
      using that by (intro takeWhile_eq_take_P_nth) auto
    then show ?thesis using that by simp
  qed
  have "j < length r" using i j by simp
  then have "p \<in> fst ` set r" using j(2) nth_mem by blast
  then show "p \<in> fst ` set r \<and> length (takeWhile (\<lambda>a. fst a \<noteq> p) r) < length (takeWhile (\<lambda>a. fst a \<noteq> m) r)"
    using pos [OF i(1)] pos [OF \<open>j < length r\<close>] i j by simp
qed

text \<open>
  The order has every model once, each after all the models it belongs to.
\<close>

theorem models_follow_parents:
  assumes "distinct (map fst ns)" "modelTopologicalOrdering ns = Some r"
  shows "distinct (map fst r) \<and> set r = set (modelAssociations ns) \<and> parents_first r"
  using ordering_sound [OF assms] ordered_all [OF ordering_sound [OF assms] associations_okeys [OF assms(1)]]
  by (simp add: ordered_part_def okeys_def)

text \<open>
  C36. For a schema of up to 999 models the order exists exactly when the models can be ranked: every model a
  model belongs to is in the schema, and belonging is not circular. Otherwise the schema is refused.
\<close>

theorem model_order_exists:
  assumes "distinct (map fst ns)" "length ns \<le> 999"
  shows "modelTopologicalOrdering ns \<noteq> None \<longleftrightarrow> (\<exists>rank. ranked (modelAssociations ns) rank)"
proof
  assume "modelTopologicalOrdering ns \<noteq> None"
  then obtain r where r: "modelTopologicalOrdering ns = Some r" by blast
  note sound = ordering_sound [OF assms(1) r]
  have "ranked r (\<lambda>m. length (takeWhile (\<lambda>a. fst a \<noteq> m) r))"
    using sound(1) by (intro parents_first_ranked) (simp_all add: ordered_part_def)
  then have "ranked (modelAssociations ns) (\<lambda>m. length (takeWhile (\<lambda>a. fst a \<noteq> m) r))"
    by (simp only: ranked_def ordered_all [OF sound associations_okeys [OF assms(1)]])
  then show "\<exists>rank. ranked (modelAssociations ns) rank" by blast
next
  assume "\<exists>rank. ranked (modelAssociations ns) rank"
  then obtain rank where "ranked (modelAssociations ns) rank" by blast
  from order_loop_complete [OF associations_okeys [OF assms(1)] this start_part, of 999] assms(2)
  show "modelTopologicalOrdering ns \<noteq> None"
    by (simp add: modelTopologicalOrdering_def left_all modelAssociations_def del: order_loop.simps)
qed

text \<open>A schema of two models, the child first, and one whose models belong to each other.\<close>

definition demo_child :: schema_model where
  "demo_child = \<lparr>sm_fields = [(''post'', \<lparr>mf_name = ''post'', mf_model = Some ''Post'',
     mf_association = Some \<lparr>connectionType = ''BELONGS_TO'', targetName = Some ''postId'', targetNames = None, associatedWith = None\<rparr>\<rparr>)],
     sm_attributes = None\<rparr>"

definition demo_parent :: schema_model where
  "demo_parent = \<lparr>sm_fields = [], sm_attributes = None\<rparr>"

lemma demo_ordering:
  "modelTopologicalOrdering [(''Comment'', demo_child), (''Post'', demo_parent)] = Some [(''Post'', []), (''Comment'', [''Post''])]"
proof -
  have "order_loop (Suc (Suc (Suc c))) (modelAssociations [(''Comment'', demo_child), (''Post'', demo_parent)]) [] =
      Some [(''Post'', []), (''Comment'', [''Post''])]" for c
    by (simp add: order_round_def order_step_def modelAssociations_def connectedModels_def demo_child_def demo_parent_def Let_def)
  from this [of 997] show ?thesis by (simp add: modelTopologicalOrdering_def)
qed

theorem models_follow_parents_witness:
  "parents_first [(''Post'', []), (''Comment'', [''Post''])]"
  using models_follow_parents [OF _ demo_ordering] by simp

theorem model_order_exists_witness:
  "\<exists>rank. ranked (modelAssociations [(''Comment'', demo_child), (''Post'', demo_parent)]) rank"
  using model_order_exists [of "[(''Comment'', demo_child), (''Post'', demo_parent)]"] demo_ordering by simp

end
