(* ===== verification/SyncProcessor.thy ===== *)
theory SyncProcessor
  imports Outbox Retry SchemaOrder Predicates
begin

text \<open>
  The sync processor (\<open>datastore/src/sync/processors/sync.ts\<close>) fetches the records of every model page by page:
  which failures of a request are retried, which count as missing authorization, what is kept of a partial
  answer, the modes of authorization, the loop over the pages of one model, and the order in which the models are
  fetched. The service, time and the end of the background processes are the parameter \<open>sync_env\<close>; the tokens of
  pages are a type of their own.
\<close>

section \<open>Errors\<close>

text \<open>An error of the service, which may wrap another one; the status is that of its metadata.\<close>

datatype service_err = ServiceErr "string option" "string option" "nat option" "service_err option"

fun err_message :: "service_err \<Rightarrow> string option" where "err_message (ServiceErr m t st e) = m"
fun err_type :: "service_err \<Rightarrow> string option" where "err_type (ServiceErr m t st e) = t"

fun resolveServiceErrorStatusCode :: "service_err \<Rightarrow> nat option" where
  "resolveServiceErrorStatusCode (ServiceErr m t st e) =
     (if st \<noteq> None \<and> st \<noteq> Some 0 then st
      else (case e of None \<Rightarrow> None | Some o1 \<Rightarrow> resolveServiceErrorStatusCode o1))"

text \<open>The data of an answer: items, some of them missing, the token of the next page and the time it was read at.\<close>

record 't sync_data =
  sd_items :: "model option list option"
  sd_nextToken :: "'t option"
  sd_startedAt :: "int option"

text \<open>What a request throws: an error with a message, or an answer with errors and perhaps data.\<close>

record 't sync_failure =
  sf_message :: "string option"
  sf_errors :: "service_err list option"
  sf_data :: "'t sync_data option"

definition clientSideAuthErrors :: "string list" where
  "clientSideAuthErrors = [''No api-key configured'', ''No current user'', ''No credentials'', ''No federated jwt'',
     ''No auth token specified'']"

definition nonempty :: "string option \<Rightarrow> bool" where
  "nonempty t \<longleftrightarrow> t \<noteq> None \<and> t \<noteq> Some []"

definition getClientSideAuthError :: "'t sync_failure \<Rightarrow> string option" where
  "getClientSideAuthError err =
     (if nonempty (sf_message err) then find (\<lambda>c. includes_string (the (sf_message err)) c) clientSideAuthErrors else None)"

text \<open>The texts of numbers are given by the environment of JavaScript.\<close>

definition forbidden_text :: "js_env \<Rightarrow> string option \<Rightarrow> nat option \<Rightarrow> string" where
  "forbidden_text J msg status =
     (case msg of Some m \<Rightarrow> m
      | None \<Rightarrow> ''Request failed with status code '' @
          (case status of None \<Rightarrow> ''null'' | Some n \<Rightarrow> numberToString J (of_nat n)))"

definition getForbiddenError :: "js_env \<Rightarrow> 't sync_failure \<Rightarrow> string option" where
  "getForbiddenError J err =
     (case sf_errors err of
        Some es \<Rightarrow>
          (case find (\<lambda>e. resolveServiceErrorStatusCode e \<in> {Some 401, Some 403}) es of
             None \<Rightarrow> None
           | Some e \<Rightarrow> Some (forbidden_text J (err_message e) (resolveServiceErrorStatusCode e)))
      | None \<Rightarrow> if nonempty (sf_message err) then sf_message err else None)"

definition not_authorized :: "js_env \<Rightarrow> 't sync_failure \<Rightarrow> string option" where
  "not_authorized J err =
     (case getClientSideAuthError err of
        Some m \<Rightarrow> Some m
      | None \<Rightarrow> if nonempty (getForbiddenError J err) then getForbiddenError J err else None)"

section \<open>One request\<close>

record 't sync_page =
  sp_items :: "model list"
  sp_nextToken :: "'t option"
  sp_startedAt :: "int option"

definition opResultDefaults :: "'t sync_page" where
  "opResultDefaults = \<lparr>sp_items = [], sp_nextToken = None, sp_startedAt = None\<rparr>"

record 't sync_variables =
  sv_limit :: int
  sv_nextToken :: "'t option"
  sv_lastSync :: "int option"

record ('t, 'w) sync_env =
  sy_js :: js_env
  sy_readAuthModes :: "string \<Rightarrow> string list"
  sy_token :: "string option \<Rightarrow> 'w \<Rightarrow> (string + unit) \<times> 'w"
  sy_graphql :: "string \<Rightarrow> string option \<Rightarrow> 't sync_variables \<Rightarrow> 'w \<Rightarrow> ('t sync_failure + 't sync_page) \<times> 'w"
  sy_closing :: "'w \<Rightarrow> bool"
  sy_random :: "'w \<Rightarrow> real \<times> 'w"
  sy_wait :: "real \<Rightarrow> 'w \<Rightarrow> 'w"
  sy_maxRecordsToSync :: int
  sy_pageSize :: int

text \<open>What the processor does beside its answer: calls of the error handler, and the notice of partial data.\<close>

datatype sync_report = HandledError "string option" | NonApplicableData "service_err list"

type_synonym 'w sync_state = "sync_report list \<times> 'w"

definition error_of_text :: "string \<Rightarrow> 't sync_failure" where
  "error_of_text msg = \<lparr>sf_message = Some msg, sf_errors = None, sf_data = None\<rparr>"

text \<open>What is done with a failed request: give up, keep what came, or throw it again, to be retried.\<close>

definition sync_failed :: "js_env \<Rightarrow> 't sync_failure \<Rightarrow> sync_report list \<Rightarrow>
    ('t sync_failure thrown option + 't sync_page) \<times> sync_report list" where
  "sync_failed J err reports =
     (case not_authorized J err of
        Some msg \<Rightarrow> (Inl (Some \<lparr>thrown_value = error_of_text msg, nonRetryable = True\<rparr>), reports)
      | None \<Rightarrow>
          (let items = Option.bind (sf_data err) sd_items;
               errs = (case sf_errors err of None \<Rightarrow> [] | Some es \<Rightarrow> es);
               otherErrors = filter (\<lambda>e. err_type e \<noteq> Some ''Unauthorized'') errs;
               reports1 = (if items \<noteq> None \<and> otherErrors \<noteq> []
                 then reports @ map (\<lambda>e. HandledError (err_message e)) otherErrors @ [NonApplicableData otherErrors]
                 else reports);
               kept = (case items of None \<Rightarrow> [] | Some is \<Rightarrow> map the (filter (\<lambda>i. i \<noteq> None) is))
           in if list_ex (\<lambda>e. err_type e = Some ''Unauthorized'') errs then
                (Inl (Some \<lparr>thrown_value = error_of_text ''[object Object]'', nonRetryable = True\<rparr>),
                 reports1 @ [HandledError (sf_message err)])
              else if kept \<noteq> [] then
                (Inr \<lparr>sp_items = kept, sp_nextToken = Option.bind (sf_data err) sd_nextToken,
                      sp_startedAt = Option.bind (sf_data err) sd_startedAt\<rparr>, reports1)
              else (Inl (Some \<lparr>thrown_value = err, nonRetryable = False\<rparr>), reports1)))"

definition sync_request :: "('t, 'w) sync_env \<Rightarrow> string \<Rightarrow> string option \<Rightarrow> 't sync_variables \<Rightarrow> 'w sync_state \<Rightarrow>
    ('t sync_failure thrown option + 't sync_page) \<times> 'w sync_state" where
  "sync_request E model mode vars s =
     (case sy_token E mode (snd s) of
        (Inl msg, w) \<Rightarrow> (case sync_failed (sy_js E) (error_of_text msg) (fst s) of (r, reports) \<Rightarrow> (r, (reports, w)))
      | (Inr _, w) \<Rightarrow>
          (case sy_graphql E model mode vars w of
             (Inr page, w1) \<Rightarrow> (Inr page, (fst s, w1))
           | (Inl err, w1) \<Rightarrow> (case sync_failed (sy_js E) err (fst s) of (r, reports) \<Rightarrow> (r, (reports, w1)))))"

definition sync_jitteredRetry :: "('t, 'w) sync_env \<Rightarrow> string \<Rightarrow> string option \<Rightarrow> 't sync_variables \<Rightarrow> 'w sync_state \<Rightarrow>
    (('t sync_failure thrown option + 't sync_page) \<times> 'w sync_state) option" where
  "sync_jitteredRetry E model mode vars =
     jitteredExponentialRetry (sync_request E model mode vars) MAX_DELAY_MS
       (\<lambda>s. case sy_random E (snd s) of (x, w) \<Rightarrow> (x, (fst s, w)))
       (\<lambda>s. sy_closing E (snd s)) (\<lambda>d s. (fst s, sy_wait E d (snd s)))"

text \<open>
  The modes of authorization one after the other. A model the user may not read has no records; any other failure
  of the last mode is thrown.
\<close>

fun sync_authModeRetry :: "('t, 'w) sync_env \<Rightarrow> string \<Rightarrow> 't sync_variables \<Rightarrow> string option \<Rightarrow> string list \<Rightarrow> 'w sync_state \<Rightarrow>
    (('t sync_failure option + 't sync_page) \<times> 'w sync_state) option" where
  "sync_authModeRetry E model vars mode rest s =
     (if sy_closing E (snd s)
      then Some (Inl (Some (error_of_text ''sync.retreievePage termination was requested. Exiting.'')), s)
      else (case sync_jitteredRetry E model mode vars s of
        None \<Rightarrow> None
      | Some (Inr page, s1) \<Rightarrow> Some (Inr page, s1)
      | Some (Inl err, s1) \<Rightarrow>
          (case rest of
             [] \<Rightarrow>
               (if Option.bind (map_option thrown_value err) (not_authorized (sy_js E)) \<noteq> None
                then Some (Inr opResultDefaults, s1)
                else Some (Inl (map_option thrown_value err), s1))
           | m # ms \<Rightarrow> sync_authModeRetry E model vars (Some m) ms s1)))"

definition retrievePage :: "('t, 'w) sync_env \<Rightarrow> string \<Rightarrow> 't sync_variables \<Rightarrow> 'w sync_state \<Rightarrow>
    (('t sync_failure option + 't sync_page) \<times> 'w sync_state) option" where
  "retrievePage E model vars s =
     (case sy_readAuthModes E model of
        [] \<Rightarrow> sync_authModeRetry E model vars None [] s
      | m # ms \<Rightarrow> sync_authModeRetry E model vars (Some m) ms s)"

section \<open>The pages of one model\<close>

record 't page_cursor =
  pc_nextToken :: "'t option"
  pc_startedAt :: "int option"
  pc_received :: int

definition first_page :: "'t page_cursor" where
  "first_page = \<lparr>pc_nextToken = None, pc_startedAt = None, pc_received = 0\<rparr>"

record sync_event =
  se_model :: string
  se_items :: "model list"
  se_done :: bool
  se_startedAt :: "int option"
  se_isFullSync :: bool

definition isFullSync :: "int option \<Rightarrow> bool" where
  "isFullSync lastSync \<longleftrightarrow> lastSync = None \<or> lastSync = Some 0"

text \<open>
  One turn of the loop: the event it sends, where the loop stands, and the state. A failed page is reported and
  counts as empty; \<open>done\<close> is set for it first and then overwritten, as for every page.
\<close>

definition sync_turn :: "('t, 'w) sync_env \<Rightarrow> string \<Rightarrow> int option \<Rightarrow> 't page_cursor \<Rightarrow> 'w sync_state \<Rightarrow>
    (sync_event \<times> 't page_cursor \<times> 'w sync_state) option" where
  "sync_turn E model lastSync c s =
     (let limit = min (sy_maxRecordsToSync E - pc_received c) (sy_pageSize E) in
      case retrievePage E model \<lparr>sv_limit = limit, sv_nextToken = pc_nextToken c, sv_lastSync = lastSync\<rparr> s of
        None \<Rightarrow> None
      | Some (result, s1) \<Rightarrow>
          (let (items, nextToken, startedAt, s2) =
             (case result of
                Inr page \<Rightarrow> (sp_items page, sp_nextToken page, sp_startedAt page, s1)
              | Inl err \<Rightarrow> ([], pc_nextToken c, pc_startedAt c, (fst s1 @ [HandledError (Option.bind err sf_message)], snd s1)));
             received = pc_received c + int (length items);
             finished = (nextToken = None \<or> received \<ge> sy_maxRecordsToSync E)
           in Some (\<lparr>se_model = model, se_items = items, se_done = finished, se_startedAt = startedAt,
                      se_isFullSync = isFullSync lastSync\<rparr>,
                    \<lparr>pc_nextToken = nextToken, pc_startedAt = startedAt, pc_received = received\<rparr>, s2)))"

text \<open>The loop, with the events sent so far.\<close>

partial_function (option) sync_model :: "('t, 'w) sync_env \<Rightarrow> string \<Rightarrow> int option \<Rightarrow> 't page_cursor \<Rightarrow> sync_event list \<Rightarrow>
    'w sync_state \<Rightarrow> (sync_event list \<times> 'w sync_state) option" where
  "sync_model E model lastSync c evs s =
     (if sy_closing E (snd s) then Some (evs, s)
      else (case sync_turn E model lastSync c s of
        None \<Rightarrow> None
      | Some (ev, c1, s1) \<Rightarrow>
          if se_done ev then Some (evs @ [ev], s1)
          else sync_model E model lastSync c1 (evs @ [ev]) s1))"

section \<open>The models of a schema\<close>

text \<open>
  All models start at once, in their order, and each waits for the promises of the models it belongs to, of those
  that have started before it. A model that is not synchronised has no promise.
\<close>

datatype 't model_sync = Waiting | Fetching "'t page_cursor" | Fetched

record ('t, 'w) sync_run =
  sr_models :: "(string, 't model_sync) omap"
  sr_events :: "sync_event list"
  sr_state :: "'w sync_state"

definition sync_start :: "(string, string list) omap \<Rightarrow> (string \<Rightarrow> bool) \<Rightarrow> 'w sync_state \<Rightarrow> ('t, 'w) sync_run" where
  "sync_start topOrder syncable s =
     \<lparr>sr_models = map (\<lambda>(m, ps). (m, Waiting)) (filter (\<lambda>(m, ps). syncable m) topOrder), sr_events = [], sr_state = s\<rparr>"

definition parents_fetched :: "('t, 'w) sync_run \<Rightarrow> string \<Rightarrow> string list \<Rightarrow> bool" where
  "parents_fetched r m ps \<longleftrightarrow>
     list_all (\<lambda>p. map_of (takeWhile (\<lambda>(n, st). n \<noteq> m) (sr_models r)) p \<in> {None, Some Fetched}) ps"

inductive sync_step :: "('t, 'w) sync_env \<Rightarrow> (string, string list) omap \<Rightarrow> (string \<Rightarrow> int option) \<Rightarrow>
    ('t, 'w) sync_run \<Rightarrow> ('t, 'w) sync_run \<Rightarrow> bool" for E topOrder lastSync where
  Begin: "map_of (sr_models r) m = Some Waiting \<Longrightarrow> map_of topOrder m = Some ps \<Longrightarrow> parents_fetched r m ps \<Longrightarrow>
    sync_step E topOrder lastSync r (r\<lparr>sr_models := AList.update m (Fetching first_page) (sr_models r)\<rparr>)"
| Page: "map_of (sr_models r) m = Some (Fetching c) \<Longrightarrow> \<not> sy_closing E (snd (sr_state r)) \<Longrightarrow>
    sync_turn E m (lastSync m) c (sr_state r) = Some (ev, c1, s1) \<Longrightarrow>
    sync_step E topOrder lastSync r (r\<lparr>sr_models := AList.update m (if se_done ev then Fetched else Fetching c1) (sr_models r),
      sr_events := sr_events r @ [ev], sr_state := s1\<rparr>)"
| Close: "map_of (sr_models r) m = Some (Fetching c) \<Longrightarrow> sy_closing E (snd (sr_state r)) \<Longrightarrow>
    sync_step E topOrder lastSync r (r\<lparr>sr_models := AList.update m Fetched (sr_models r)\<rparr>)"

end
