(* ===== verification/SyncEngine.thy ===== *)
theory SyncEngine
  imports SyncProcessor MutationProcessor
begin

text \<open>
  The sync engine (\<open>datastore/src/sync/index.ts\<close>): what it keeps of every model between runs, when the next
  synchronisation is a full one, how a page of the service is merged beside the queue of mutations, what a local
  change, an answer to a mutation and a change of the connection do. Only the models of the user's namespace are
  synchronised, so models are known by their names. The handler of a page runs while it holds the storage, and the
  handlers of one model run in the order of their pages.
\<close>

section \<open>Metadata of the models\<close>

record model_metadata =
  mm_lastSync :: "int option"
  mm_lastFullSync :: "int option"
  mm_fullSyncInterval :: int
  mm_lastSyncPredicate :: "string option"

text \<open>One record for every model; saving a changed copy replaces the record it was read from.\<close>

type_synonym metadata_store = "(string, model_metadata) omap"

definition setup_model :: "int \<Rightarrow> string \<Rightarrow> string option \<Rightarrow> metadata_store \<Rightarrow> metadata_store" where
  "setup_model interval m lastSyncPredicate mds =
     (case map_of mds m of
        None \<Rightarrow> AList.update m \<lparr>mm_lastSync = None, mm_lastFullSync = None, mm_fullSyncInterval = interval,
                  mm_lastSyncPredicate = lastSyncPredicate\<rparr> mds
      | Some md \<Rightarrow>
          (let prev = (if nonempty (mm_lastSyncPredicate md) then mm_lastSyncPredicate md else None);
               md1 = md\<lparr>mm_fullSyncInterval := interval\<rparr>
           in AList.update m
                (if prev \<noteq> lastSyncPredicate
                 then md1\<lparr>mm_lastSync := None, mm_lastFullSync := None, mm_lastSyncPredicate := lastSyncPredicate\<rparr>
                 else md1) mds))"

text \<open>The models of the schema with the texts of their sync predicates.\<close>

definition setupModels :: "int \<Rightarrow> (string \<times> string option) list \<Rightarrow> metadata_store \<Rightarrow> metadata_store" where
  "setupModels interval models mds = fold (\<lambda>(m, p). setup_model interval m p) models mds"

definition syncFrom :: "int \<Rightarrow> model_metadata \<Rightarrow> int option" where
  "syncFrom now md =
     (case mm_lastFullSync md of
        None \<Rightarrow> Some 0
      | Some t \<Rightarrow> if t = 0 \<or> t + mm_fullSyncInterval md < now then Some 0 else mm_lastSync md)"

definition getModelsMetadataWithNextFullSync :: "int \<Rightarrow> metadata_store \<Rightarrow> (string, int option) omap" where
  "getModelsMetadataWithNextFullSync now mds = map (\<lambda>(m, md). (m, syncFrom now md)) mds"

section \<open>Merging a page\<close>

record sync_counts =
  sc_new :: nat
  sc_updated :: nat
  sc_deleted :: nat

definition no_counts :: sync_counts where
  "no_counts = \<lparr>sc_new = 0, sc_updated = 0, sc_deleted = 0\<rparr>"

definition count_op :: "op_type \<Rightarrow> sync_counts \<Rightarrow> sync_counts" where
  "count_op opType c =
     (case opType of
        INSERT \<Rightarrow> c\<lparr>sc_new := sc_new c + 1\<rparr>
      | UPDATE \<Rightarrow> c\<lparr>sc_updated := sc_updated c + 1\<rparr>
      | DELETE \<Rightarrow> c\<lparr>sc_deleted := sc_deleted c + 1\<rparr>)"

definition merge_one :: "js_env \<Rightarrow> outbox \<Rightarrow> schema_model \<Rightarrow> model \<Rightarrow> op_type list \<times> user_store \<Rightarrow> op_type list \<times> user_store" where
  "merge_one J ob sm item acc =
     (case merge J ob sm item (snd acc) of
        (None, s) \<Rightarrow> (fst acc, s)
      | (Some opType, s) \<Rightarrow> (fst acc @ [opType], s))"

definition merge_items :: "js_env \<Rightarrow> outbox \<Rightarrow> schema_model \<Rightarrow> model list \<Rightarrow> user_store \<Rightarrow> op_type list \<times> user_store" where
  "merge_items J ob sm items s =
     (let inOutbox = (\<lambda>item. getIdentifierValue J sm item \<in> set (getModelIds ob));
          oneByOne = filter inOutbox items;
          page = filter (\<lambda>item. \<not> inOutbox item) items
      in case fold (merge_one J ob sm) oneByOne ([], s) of
           (ops, s1) \<Rightarrow> (case mergePage J sm page s1 of (rs, s2) \<Rightarrow> (ops @ map snd rs, s2)))"

section \<open>The engine\<close>

datatype control_message =
    ModelSynced string bool sync_counts
  | SyncQueriesReady
  | SyncQueriesStarted "string list"
  | OutboxMutationEnqueued string model
  | OutboxMutationProcessed string model
  | OutboxStatus bool

text \<open>Of the variables of a round an outer \<open>None\<close> is \<open>undefined\<close>, an inner one \<open>null\<close>.\<close>

record engine =
  en_outbox :: outbox
  en_store :: "string \<Rightarrow> user_store"
  en_metadata :: metadata_store
  en_synced :: "(string, bool) omap"
  en_messages :: "control_message list"
  en_resumed :: nat
  en_counts :: "(string, sync_counts) omap"
  en_paginating :: "string list"
  en_lastStartedAt :: "int option option"
  en_lastFullSyncStartedAt :: "int option option"
  en_syncInterval :: "int option"
  en_begun :: int
  en_syncDuration :: "int option"

text \<open>A round starts with the models that have metadata, and what it asks for.\<close>

definition sync_round :: "int \<Rightarrow> engine \<Rightarrow> (string, int option) omap \<times> engine" where
  "sync_round now e =
     (let modelLastSync = getModelsMetadataWithNextFullSync now (en_metadata e)
      in (modelLastSync,
          e\<lparr>en_counts := [], en_paginating := map fst modelLastSync, en_lastStartedAt := None,
            en_lastFullSyncStartedAt := None, en_syncInterval := None, en_begun := 0, en_syncDuration := None,
            en_messages := en_messages e @ [SyncQueriesStarted (map fst modelLastSync)]\<rparr>))"

text \<open>\<open>Math.max\<close> takes \<open>null\<close> for zero.\<close>

definition null_as_zero :: "int option \<Rightarrow> int" where
  "null_as_zero t = (case t of None \<Rightarrow> 0 | Some n \<Rightarrow> n)"

definition later_of :: "int option option \<Rightarrow> int option \<Rightarrow> int option" where
  "later_of a b = (case a of None \<Rightarrow> b | Some t \<Rightarrow> Some (max (null_as_zero t) (null_as_zero b)))"

definition begin_model :: "int \<Rightarrow> sync_event \<Rightarrow> engine \<Rightarrow> engine" where
  "begin_model now ev e =
     (if map_of (en_counts e) (se_model ev) \<noteq> None then e
      else e\<lparr>en_counts := AList.update (se_model ev) no_counts (en_counts e), en_begun := now,
             en_lastStartedAt := Some (later_of (en_lastStartedAt e) (se_startedAt ev))\<rparr>)"

definition merge_event :: "js_env \<Rightarrow> (string \<Rightarrow> schema_model) \<Rightarrow> sync_event \<Rightarrow> engine \<Rightarrow> engine" where
  "merge_event J sms ev e =
     (let m = se_model ev in
      case merge_items J (en_outbox e) (sms m) (se_items ev) (en_store e m) of
        (ops, s) \<Rightarrow>
          e\<lparr>en_store := (en_store e)(m := s),
            en_counts := AList.update m (fold count_op ops (the (map_of (en_counts e) m))) (en_counts e)\<rparr>)"

definition complete_model :: "int \<Rightarrow> sync_event \<Rightarrow> (engine, js_error, unit) amethod" where
  "complete_model now ev e =
     (let m = se_model ev in
      case map_of (en_metadata e) m of
        None \<Rightarrow> (Inl JsTypeError, e)
      | Some md \<Rightarrow>
          (let md1 = md\<lparr>mm_lastSync := se_startedAt ev,
                 mm_lastFullSync := (if se_isFullSync ev then se_startedAt ev else mm_lastFullSync md)\<rparr>;
               full = (case en_lastFullSyncStartedAt e of
                 None \<Rightarrow> mm_lastFullSync md
               | Some t \<Rightarrow> later_of (Some t) (if se_isFullSync ev then se_startedAt ev else mm_lastFullSync md));
               paginating = filter (\<lambda>n. n \<noteq> m) (en_paginating e);
               e1 = e\<lparr>en_syncInterval := Some (mm_fullSyncInterval md), en_lastFullSyncStartedAt := Some full,
                 en_metadata := AList.update m md1 (en_metadata e), en_synced := AList.update m True (en_synced e),
                 en_paginating := paginating,
                 en_messages := en_messages e @ [ModelSynced m (se_isFullSync ev) (the (map_of (en_counts e) m))]\<rparr>
           in (Inr (), if paginating = []
                 then e1\<lparr>en_syncDuration := Some (now - en_begun e), en_messages := en_messages e1 @ [SyncQueriesReady]\<rparr>
                 else e1)))"

definition handle_page :: "js_env \<Rightarrow> (string \<Rightarrow> schema_model) \<Rightarrow> int \<Rightarrow> int \<Rightarrow> sync_event \<Rightarrow> (engine, js_error, unit) amethod" where
  "handle_page J sms now later ev e =
     (let e1 = merge_event J sms ev (begin_model now ev e)
      in if se_done ev then complete_model later ev e1 else (Inr (), e1))"

text \<open>How long the engine sleeps after a round; \<open>None\<close> is not a number.\<close>

definition msNextFullSync :: "engine \<Rightarrow> int option" where
  "msNextFullSync e =
     (case (en_syncInterval e, en_syncDuration e) of
        (Some interval, Some duration) \<Rightarrow>
          (case en_lastFullSyncStartedAt e of
             Some (Some t) \<Rightarrow>
               if t = 0 then Some (interval - duration)
               else map_option (\<lambda>s. t + interval - (null_as_zero s + duration)) (en_lastStartedAt e)
           | _ \<Rightarrow> Some (interval - duration))
      | _ \<Rightarrow> None)"

section \<open>Changes\<close>

text \<open>A local change of a model that is synchronised is queued, and sent when the device is online.\<close>

definition on_storage_event :: "js_env \<Rightarrow> (string \<Rightarrow> schema_model) \<Rightarrow> bool \<Rightarrow> op_type \<Rightarrow> string \<Rightarrow> model \<Rightarrow> model \<Rightarrow> string \<Rightarrow>
    engine \<Rightarrow> engine" where
  "on_storage_event J sms online opType m element condition newId e =
     e\<lparr>en_outbox := enqueue (createMutationInstance J (sms m) opType m element condition newId) (en_outbox e),
       en_messages := en_messages e @ [OutboxMutationEnqueued m element, OutboxStatus False],
       en_resumed := en_resumed e + (if online then 1 else 0)\<rparr>"

text \<open>A record of the service, the answer to a mutation or an item of a subscription.\<close>

definition merge_record :: "js_env \<Rightarrow> (string \<Rightarrow> schema_model) \<Rightarrow> string \<Rightarrow> model \<Rightarrow> engine \<Rightarrow> engine" where
  "merge_record J sms m item e =
     e\<lparr>en_store := (en_store e)(m := snd (merge J (en_outbox e) (sms m) item (en_store e m)))\<rparr>"

definition on_mutation_processed :: "js_env \<Rightarrow> (string \<Rightarrow> schema_model) \<Rightarrow> string \<Rightarrow> model \<Rightarrow> bool \<Rightarrow> engine \<Rightarrow> engine" where
  "on_mutation_processed J sms m item hasMore e =
     (merge_record J sms m item e)\<lparr>en_messages := en_messages e @ [OutboxMutationProcessed m item, OutboxStatus (\<not> hasMore)]\<rparr>"

text \<open>A sync is scheduled when the connection comes back after a disruption.\<close>

datatype connection_state = Connected | ConnectionDisrupted | OtherState

record disruption =
  connectionDisrupted :: bool
  scheduledSyncs :: nat

definition on_connection_state :: "connection_state \<Rightarrow> disruption \<Rightarrow> disruption" where
  "on_connection_state c d =
     (case c of
        ConnectionDisrupted \<Rightarrow> d\<lparr>connectionDisrupted := True\<rparr>
      | Connected \<Rightarrow> d\<lparr>connectionDisrupted := False,
            scheduledSyncs := scheduledSyncs d + (if connectionDisrupted d then 1 else 0)\<rparr>
      | OtherState \<Rightarrow> d)"

end
