(* ===== verification/SyncProcessorProofs.thy ===== *)
theory SyncProcessorProofs
  imports SyncProcessor RetryProofs
begin

text \<open>
  What the sync processor fetches: every record of a model once and in order, up to the limit; what is kept of a
  partial answer; parents before children, without a deadlock; and the page that fails for ever.
\<close>

section \<open>A service that answers\<close>

text \<open>
  The service holds a list of records for every model; the tokens are positions in it. Of a request for no more
  than \<open>l\<close> records it answers the next \<open>l\<close>, and a token when there are more.
\<close>

definition serve :: "model list \<Rightarrow> int \<Rightarrow> nat sync_variables \<Rightarrow> nat sync_page" where
  "serve records t v =
     (let pos = (case sv_nextToken v of None \<Rightarrow> 0 | Some n \<Rightarrow> n); l = nat (sv_limit v)
      in \<lparr>sp_items = take l (drop pos records),
          sp_nextToken = (if pos + l < length records then Some (pos + l) else None), sp_startedAt = Some t\<rparr>)"

definition serving :: "(string \<Rightarrow> model list) \<Rightarrow> int \<Rightarrow> (nat, 'w) sync_env \<Rightarrow> bool" where
  "serving records t E \<longleftrightarrow> (\<forall>m mode v w. sy_graphql E m mode v w = (Inr (serve (records m) t v), w)) \<and>
     (\<forall>mode w. sy_token E mode w = (Inr (), w)) \<and> (\<forall>w. \<not> sy_closing E w)"

lemma serving_page:
  assumes "serving records t E"
  shows "retrievePage E m v s = Some (Inr (serve (records m) t v), s)"
proof -
  have "sync_jitteredRetry E m mode v s = Some (Inr (serve (records m) t v), s)" for mode
    using assms
    by (simp add: serving_def sync_jitteredRetry_def jitteredExponentialRetry_def retry.simps sync_request_def)
  then have "sync_authModeRetry E m v mode rest s = Some (Inr (serve (records m) t v), s)" for mode rest
    using assms by (cases rest) (simp_all add: serving_def)
  then show ?thesis by (simp add: retrievePage_def split: list.split)
qed

text \<open>Where the loop stands after \<open>pos\<close> records.\<close>

definition cursor_at :: "nat \<Rightarrow> nat page_cursor \<Rightarrow> bool" where
  "cursor_at pos c \<longleftrightarrow> (case pc_nextToken c of None \<Rightarrow> 0 | Some n \<Rightarrow> n) = pos \<and> pc_received c = int pos"

definition page_limit :: "('t, 'w) sync_env \<Rightarrow> nat \<Rightarrow> nat" where
  "page_limit E pos = nat (min (sy_maxRecordsToSync E - int pos) (sy_pageSize E))"

lemma serving_turn:
  assumes "serving records t E" "cursor_at pos c" "pos \<le> length (records m)"
  shows "\<exists>c1. sync_turn E m lastSync c s =
    Some (\<lparr>se_model = m, se_items = take (page_limit E pos) (drop pos (records m)),
        se_done = (length (records m) \<le> pos + page_limit E pos \<or> sy_maxRecordsToSync E \<le> int (pos + page_limit E pos)),
        se_startedAt = Some t, se_isFullSync = isFullSync lastSync\<rparr>, c1, s) \<and>
    (pos + page_limit E pos < length (records m) \<longrightarrow> cursor_at (pos + page_limit E pos) c1)"
proof -
  let ?l = "page_limit E pos"
  have l: "nat (min (sy_maxRecordsToSync E - pc_received c) (sy_pageSize E)) = ?l"
    using assms(2) by (simp add: cursor_at_def page_limit_def)
  have page: "retrievePage E m \<lparr>sv_limit = min (sy_maxRecordsToSync E - pc_received c) (sy_pageSize E),
      sv_nextToken = pc_nextToken c, sv_lastSync = lastSync\<rparr> s =
      Some (Inr \<lparr>sp_items = take ?l (drop pos (records m)),
        sp_nextToken = (if pos + ?l < length (records m) then Some (pos + ?l) else None), sp_startedAt = Some t\<rparr>, s)"
    using serving_page [OF assms(1)] assms(2) l by (simp add: serve_def cursor_at_def Let_def)
  show ?thesis
  proof (cases "pos + ?l < length (records m)")
    case True
    then have "length (take ?l (drop pos (records m))) = ?l" by simp
    then show ?thesis using True page assms(2) by (simp add: sync_turn_def Let_def cursor_at_def)
  next
    case False
    then show ?thesis using page by (simp add: sync_turn_def Let_def)
  qed
qed

lemma serving_model:
  assumes "serving records t E" "0 < sy_pageSize E"
  shows "cursor_at pos c \<Longrightarrow> pos \<le> length (records m) \<Longrightarrow> int pos \<le> sy_maxRecordsToSync E \<Longrightarrow>
    \<exists>es. sync_model E m lastSync c evs s = Some (evs @ es, s) \<and>
      concat (map se_items es) = take (nat (sy_maxRecordsToSync E) - pos) (drop pos (records m)) \<and>
      map se_done es = replicate (length es - 1) False @ [True] \<and>
      list_all (\<lambda>e. se_model e = m \<and> se_startedAt e = Some t \<and> int (length (se_items e)) \<le> sy_pageSize E) es"
proof (induction "length (records m) - pos" arbitrary: pos c evs rule: less_induct)
  case less
  let ?l = "page_limit E pos"
  obtain c1 where turn: "sync_turn E m lastSync c s =
    Some (\<lparr>se_model = m, se_items = take ?l (drop pos (records m)),
        se_done = (length (records m) \<le> pos + ?l \<or> sy_maxRecordsToSync E \<le> int (pos + ?l)),
        se_startedAt = Some t, se_isFullSync = isFullSync lastSync\<rparr>, c1, s)" (is "_ = Some (?e, _, _)")
    and c1: "pos + ?l < length (records m) \<Longrightarrow> cursor_at (pos + ?l) c1"
    using serving_turn [OF assms(1) less.prems(1,2)] by blast
  have l: "int (pos + ?l) \<le> sy_maxRecordsToSync E" "int ?l \<le> sy_pageSize E"
    using less.prems(3) assms(2) by (auto simp: page_limit_def)
  have ok: "\<not> sy_closing E (snd s)" using assms(1) by (simp add: serving_def)
  have size: "int (length (take ?l (drop pos (records m)))) \<le> sy_pageSize E" using l(2) by simp
  show ?case
  proof (cases "se_done ?e")
    case True
    then have "take ?l (drop pos (records m)) = take (nat (sy_maxRecordsToSync E) - pos) (drop pos (records m))"
    proof (cases "length (records m) \<le> pos + ?l")
      case True
      have "?l \<le> nat (sy_maxRecordsToSync E) - pos" using l(1) by simp
      then show ?thesis using True by simp
    next
      case False
      then have "sy_maxRecordsToSync E = int (pos + ?l)" using True l(1) by simp
      then have "nat (sy_maxRecordsToSync E) - pos = ?l" by (simp only: nat_int)
      then show ?thesis by simp
    qed
    then show ?thesis using True turn ok size
      by (intro exI [of _ "[?e]"]) (subst sync_model.simps, simp)
  next
    case False
    then have more: "pos + ?l < length (records m)" "int (pos + ?l) < sy_maxRecordsToSync E" by simp_all
    then have "0 < ?l" using assms(2) by (auto simp: page_limit_def min_def split: if_splits)
    then have "length (records m) - (pos + ?l) < length (records m) - pos" using more by simp
    from less.hyps [OF this c1 [OF more(1)], of "evs @ [?e]"] more l(1)
    obtain es where es: "sync_model E m lastSync c1 (evs @ [?e]) s = Some ((evs @ [?e]) @ es, s)"
      "concat (map se_items es) = take (nat (sy_maxRecordsToSync E) - (pos + ?l)) (drop (pos + ?l) (records m))"
      "map se_done es = replicate (length es - 1) False @ [True]"
      "list_all (\<lambda>e. se_model e = m \<and> se_startedAt e = Some t \<and> int (length (se_items e)) \<le> sy_pageSize E) es"
      by auto
    have "sync_model E m lastSync c evs s = Some (evs @ (?e # es), s)"
      using turn ok False es(1) by (subst sync_model.simps) simp
    moreover have "concat (map se_items (?e # es)) = take (nat (sy_maxRecordsToSync E) - pos) (drop pos (records m))"
    proof -
      have "nat (sy_maxRecordsToSync E) - pos = ?l + (nat (sy_maxRecordsToSync E) - (pos + ?l))" using more(2) by simp
      then show ?thesis using es(2) by (simp only: take_add drop_drop) (simp add: add.commute)
    qed
    moreover have "map se_done (?e # es) = replicate (length (?e # es) - 1) False @ [True]"
    proof -
      have "es \<noteq> []" using es(3) by auto
      then obtain n where "length es = Suc n" by (cases es) auto
      then show ?thesis using es(3) False by simp
    qed
    ultimately show ?thesis using es(4) size by (intro exI [of _ "?e # es"]) simp
  qed
qed

text \<open>
  Synchronising a model fetches the records of the service once, in order, up to the limit, in pages of at most
  the given size, all but the last sent as unfinished; the loop ends.
\<close>

theorem sync_fetches_records:
  assumes "serving records t E" "0 < sy_pageSize E" "0 \<le> sy_maxRecordsToSync E"
  shows "\<exists>es. sync_model E m lastSync first_page [] s = Some (es, s) \<and>
    concat (map se_items es) = take (nat (sy_maxRecordsToSync E)) (records m) \<and>
    map se_done es = replicate (length es - 1) False @ [True] \<and>
    list_all (\<lambda>e. se_model e = m \<and> se_startedAt e = Some t \<and> int (length (se_items e)) \<le> sy_pageSize E) es"
  using serving_model [OF assms(1,2), of 0 first_page m lastSync "[]" s] assms(3)
  by (simp add: cursor_at_def first_page_def)

section \<open>A page that fails\<close>

lemma failing_turn:
  assumes "retrievePage E m \<lparr>sv_limit = min (sy_maxRecordsToSync E - pc_received c) (sy_pageSize E),
      sv_nextToken = pc_nextToken c, sv_lastSync = lastSync\<rparr> s = Some (Inl err, s1)"
    "pc_nextToken c \<noteq> None" "pc_received c < sy_maxRecordsToSync E"
  shows "sync_turn E m lastSync c s = Some (\<lparr>se_model = m, se_items = [], se_done = False,
    se_startedAt = pc_startedAt c, se_isFullSync = isFullSync lastSync\<rparr>, c, (fst s1 @ [HandledError (Option.bind err sf_message)], snd s1))"
  using assms by (simp add: sync_turn_def Let_def)

lemma jittered_returns:
  assumes "\<And>w. 0 \<le> fst (sy_random E w)"
  shows "sync_jitteredRetry E m mode v s \<noteq> None"
proof -
  have "\<And>s. 0 \<le> fst (case sy_random E (snd s) of (x, w) \<Rightarrow> (x, (fst s, w)))"
    using assms by (simp add: case_prod_beta)
  then show ?thesis unfolding sync_jitteredRetry_def jitteredExponentialRetry_def
    by (rule retry_returns [where N = 12]) (simp_all add: MAX_DELAY_MS_def)
qed

lemma retrievePage_returns:
  assumes "\<And>w. 0 \<le> fst (sy_random E w)"
  shows "retrievePage E m v s \<noteq> None"
proof -
  have "sync_authModeRetry E m v mode rest s \<noteq> None" for mode rest s
  proof (induction rest arbitrary: mode s)
    case Nil
    then show ?case using jittered_returns [OF assms, of m mode v s] by (auto split: option.splits sum.splits)
  next
    case (Cons a rest)
    then show ?case using jittered_returns [OF assms, of m mode v s] by (auto split: sum.splits)
  qed
  then show ?thesis by (auto simp: retrievePage_def split: list.splits)
qed

text \<open>An answer without data because the network failed.\<close>

definition network_failure :: "'t sync_failure" where
  "network_failure = \<lparr>sf_message = None, sf_errors = Some [ServiceErr (Some ''Network Error'') None None None], sf_data = None\<rparr>"

lemma network_failure_retried:
  "sync_failed J network_failure reports = (Inl (Some \<lparr>thrown_value = network_failure, nonRetryable = False\<rparr>), reports)"
  "not_authorized J network_failure = None"
  by (simp_all add: sync_failed_def not_authorized_def getClientSideAuthError_def getForbiddenError_def nonempty_def
      network_failure_def)

definition fails_at :: "('t, 'w) sync_env \<Rightarrow> string \<Rightarrow> 't option \<Rightarrow> bool" where
  "fails_at E m token \<longleftrightarrow> (\<forall>mode v w. sv_nextToken v = token \<longrightarrow> fst (sy_graphql E m mode v w) = Inl network_failure) \<and>
     (\<forall>mode w. fst (sy_token E mode w) = Inr ()) \<and> (\<forall>w. \<not> sy_closing E w) \<and> (\<forall>w. 0 \<le> fst (sy_random E w))"

lemma failing_jittered:
  assumes "fails_at E m (sv_nextToken v)"
  shows "\<exists>s1. sync_jitteredRetry E m mode v s = Some (Inl (Some \<lparr>thrown_value = network_failure, nonRetryable = False\<rparr>), s1)"
proof -
  have "fst (sync_request E m mode v s) = Inl (Some \<lparr>thrown_value = network_failure, nonRetryable = False\<rparr>)" for s
  proof -
    obtain w where "sy_token E mode (snd s) = (Inr (), w)" using assms unfolding fails_at_def by (metis prod.collapse)
    moreover obtain w1 where "sy_graphql E m mode v w = (Inl network_failure, w1)"
      using assms unfolding fails_at_def by (metis prod.collapse)
    ultimately show ?thesis by (simp add: sync_request_def network_failure_retried)
  qed
  moreover obtain y where y: "sync_jitteredRetry E m mode v s = Some y"
    using jittered_returns [of E m mode v s] assms by (auto simp: fails_at_def)
  ultimately have "fst y = Inl (Some \<lparr>thrown_value = network_failure, nonRetryable = False\<rparr>)"
    using retry_fails [OF y [unfolded sync_jitteredRetry_def jitteredExponentialRetry_def]] by simp
  then show ?thesis using y by (metis prod.collapse)
qed

lemma failing_page:
  assumes "fails_at E m (sv_nextToken v)"
  shows "\<exists>s1. retrievePage E m v s = Some (Inl (Some network_failure), s1)"
proof -
  have "\<exists>s1. sync_authModeRetry E m v mode rest s = Some (Inl (Some network_failure), s1)" for mode rest s
  proof (induction rest arbitrary: mode s)
    case Nil
    obtain s1 where "sync_jitteredRetry E m mode v s = Some (Inl (Some \<lparr>thrown_value = network_failure, nonRetryable = False\<rparr>), s1)"
      using failing_jittered [OF assms] by blast
    then show ?case using assms by (simp add: fails_at_def network_failure_retried)
  next
    case (Cons a rest)
    obtain s1 where "sync_jitteredRetry E m mode v s = Some (Inl (Some \<lparr>thrown_value = network_failure, nonRetryable = False\<rparr>), s1)"
      using failing_jittered [OF assms] by blast
    then show ?case using assms Cons [of "Some a" s1] by (simp add: fails_at_def)
  qed
  then show ?thesis by (simp add: retrievePage_def split: list.split)
qed

text \<open>
  The comment in the loop promises that a model that fails counts as done. When the network fails at a page after
  the first one, and stays away, the loop never ends: it asks for the same page for ever.
\<close>

theorem failing_page_is_asked_for_ever:
  assumes "fails_at E m (pc_nextToken c)" "pc_nextToken c \<noteq> None" "pc_received c < sy_maxRecordsToSync E"
  shows "sync_model E m lastSync c evs s = None"
proof (rule ccontr)
  assume "sync_model E m lastSync c evs s \<noteq> None"
  then obtain y where y: "sync_model E m lastSync c evs s = Some y" by blast
  have "\<lbrakk>fails_at E m (pc_nextToken c); pc_nextToken c \<noteq> None; pc_received c < sy_maxRecordsToSync E\<rbrakk> \<Longrightarrow> False"
  proof (induction rule: sync_model.raw_induct [OF _ y])
    case (1 rec E m lastSync c evs s y)
    let ?v = "\<lparr>sv_limit = min (sy_maxRecordsToSync E - pc_received c) (sy_pageSize E),
        sv_nextToken = pc_nextToken c, sv_lastSync = lastSync\<rparr>"
    obtain s1 where "retrievePage E m ?v s = Some (Inl (Some network_failure), s1)"
      using failing_page [of E m ?v s] 1(3) by auto
    note turn = failing_turn [OF this 1(4,5)]
    have "\<not> sy_closing E (snd s)" using 1(3) by (simp add: fails_at_def)
    then show ?case using 1(1) [OF _ 1(3-5)] 1(2) turn by simp
  qed
  then show False using assms by blast
qed

section \<open>Modes of authorization\<close>

text \<open>The service answers the modes that are allowed, and the world is the list of the modes asked with.\<close>

definition asks :: "(string option \<Rightarrow> bool) \<Rightarrow> 't sync_page \<Rightarrow> 't sync_failure \<Rightarrow> ('t, string option list) sync_env \<Rightarrow> bool" where
  "asks allowed page err E \<longleftrightarrow>
     (\<forall>m mode v w. sy_graphql E m mode v w = (if allowed mode then Inr page else Inl err, w @ [mode])) \<and>
     (\<forall>mode w. sy_token E mode w = (Inr (), w)) \<and> (\<forall>w. \<not> sy_closing E w)"

lemma not_authorized_text:
  fixes err :: "'t sync_failure"
  assumes "not_authorized J err = Some msg"
  shows "not_authorized J (error_of_text msg :: 't sync_failure) \<noteq> None"
proof -
  have "msg \<noteq> []"
    using assms by (auto simp: not_authorized_def getClientSideAuthError_def nonempty_def clientSideAuthErrors_def find_Some_iff
        split: option.splits if_splits)
  then show ?thesis
    by (simp add: not_authorized_def getForbiddenError_def error_of_text_def nonempty_def split: option.split)
qed

lemma asked_once:
  assumes "asks allowed page err E" "not_authorized (sy_js E) err = Some msg"
  shows "sync_jitteredRetry E m mode v (reports, w) =
    Some (if allowed mode then Inr page else Inl (Some \<lparr>thrown_value = error_of_text msg, nonRetryable = True\<rparr>),
          (reports, w @ [mode]))"
  using assms by (simp add: asks_def sync_jitteredRetry_def jitteredExponentialRetry_def retry.simps sync_request_def
      sync_failed_def isNonRetryableError_def)

definition asked :: "(string option \<Rightarrow> bool) \<Rightarrow> string option list \<Rightarrow> string option list" where
  "asked allowed modes = takeWhile (\<lambda>a. \<not> allowed a) modes @ take 1 (dropWhile (\<lambda>a. \<not> allowed a) modes)"

lemma modes_asked:
  assumes "asks allowed page err E" "not_authorized (sy_js E) err = Some msg"
  shows "sync_authModeRetry E m v mode rest (reports, w) =
    Some (Inr (if list_ex allowed (mode # map Some rest) then page else opResultDefaults),
          (reports, w @ asked allowed (mode # map Some rest)))"
proof (induction rest arbitrary: mode w)
  case Nil
  show ?case using asked_once [OF assms, of m mode v reports w] assms(1) not_authorized_text [OF assms(2)]
    by (auto simp: asks_def asked_def)
next
  case (Cons a rest)
  show ?case using asked_once [OF assms, of m mode v reports w] assms(1) Cons [of "Some a" "w @ [mode]"]
    by (simp add: asks_def asked_def)
qed

text \<open>
  The modes of authorization are tried in their order, each once, until the service answers; a refusal is never
  asked again with the same mode, and a model that no mode may read has no records.
\<close>

theorem modes_are_tried_in_order:
  assumes "asks allowed page err E" "not_authorized (sy_js E) err = Some msg"
    "modes = (if sy_readAuthModes E m = [] then [None] else map Some (sy_readAuthModes E m))"
  shows "retrievePage E m v (reports, w) =
    Some (Inr (if list_ex allowed modes then page else opResultDefaults),
          (reports, w @ takeWhile (\<lambda>a. \<not> allowed a) modes @ take 1 (dropWhile (\<lambda>a. \<not> allowed a) modes)))"
  using modes_asked [OF assms(1,2)] assms(3)
  by (simp add: retrievePage_def asked_def split: list.split)

text \<open>Examples: a service with one record for every model, and one whose second page cannot be had.\<close>

definition demo_sync_env :: "(nat, unit) sync_env" where
  "demo_sync_env = \<lparr>sy_js = demo_js, sy_readAuthModes = (\<lambda>m. []), sy_token = (\<lambda>mode w. (Inr (), w)),
     sy_graphql = (\<lambda>m mode v w. (Inr (serve [[(''id'', JStr m)]] 5 v), w)), sy_closing = (\<lambda>w. False),
     sy_random = (\<lambda>w. (0, w)), sy_wait = (\<lambda>d w. w), sy_maxRecordsToSync = 10, sy_pageSize = 2\<rparr>"

lemma demo_serving: "serving (\<lambda>m. [[(''id'', JStr m)]]) 5 demo_sync_env"
  by (simp add: serving_def demo_sync_env_def)

theorem sync_fetches_records_witness:
  "\<exists>es. sync_model demo_sync_env ''Post'' None first_page [] ([], ()) = Some (es, ([], ())) \<and>
    concat (map se_items es) = [[(''id'', JStr ''Post'')]]"
  using sync_fetches_records [OF demo_serving, of "''Post''" None "([], ())"] by (auto simp: demo_sync_env_def)

theorem failing_page_is_asked_for_ever_witness:
  "sync_model (demo_sync_env\<lparr>sy_graphql := (\<lambda>m mode v w. (Inl network_failure, w))\<rparr>) ''Post'' None
     \<lparr>pc_nextToken = Some 2, pc_startedAt = Some 5, pc_received = 2\<rparr> [] ([], ()) = None"
  by (rule failing_page_is_asked_for_ever) (simp_all add: fails_at_def demo_sync_env_def)

theorem modes_are_tried_in_order_witness:
  "\<exists>s1. retrievePage
     \<lparr>sy_js = demo_js, sy_readAuthModes = (\<lambda>m. [''apiKey'', ''userPool'', ''iam'']), sy_token = (\<lambda>mode w. (Inr (), w)),
      sy_graphql = (\<lambda>m mode v w. (if mode = Some ''userPool'' then Inr opResultDefaults
        else Inl (error_of_text ''No api-key configured'' :: nat sync_failure), w @ [mode])), sy_closing = (\<lambda>w. False),
      sy_random = (\<lambda>w. (0, w)), sy_wait = (\<lambda>d w. w), sy_maxRecordsToSync = 10, sy_pageSize = 2\<rparr>
     ''Post'' \<lparr>sv_limit = 1, sv_nextToken = None, sv_lastSync = None\<rparr> ([], []) = Some (s1, ([], [Some ''apiKey'', Some ''userPool'']))"
  by (subst modes_are_tried_in_order [where allowed = "\<lambda>a. a = Some ''userPool''" and page = opResultDefaults
        and err = "error_of_text ''No api-key configured''" and msg = "''No api-key configured''", OF _ _ refl])
    (simp_all add: asks_def not_authorized_def getClientSideAuthError_def error_of_text_def nonempty_def
      clientSideAuthErrors_def includes_string_def)

end
