(* ===== verification/SyncRunProofs.thy ===== *)
theory SyncRunProofs
  imports SyncProcessorProofs
begin

text \<open>
  The models of a schema synchronised side by side: a model waits for the models it belongs to, no run gets stuck,
  every run ends, and when it has ended every record of the service has been sent, however the models interleave.
\<close>

section \<open>Parents before children\<close>

text \<open>The models of a run are those of the order that are synchronised, and stay in their order.\<close>

lemma map_fst_update: "map_of xs k = Some w \<Longrightarrow> map fst (AList.update k v xs) = map fst xs"
  by (induction xs) (auto split: if_splits)

lemma step_names: "sync_step E T lastSync r r' \<Longrightarrow> map fst (sr_models r') = map fst (sr_models r)"
  by (induction rule: sync_step.induct) (simp_all add: map_fst_update)

lemma run_names:
  "(sync_step E T lastSync)\<^sup>*\<^sup>* (sync_start T syncable s) r \<Longrightarrow> map fst (sr_models r) = filter syncable (map fst T)"
proof (induction rule: rtranclp_induct)
  case base
  show ?case by (induction T) (auto simp: sync_start_def)
qed (simp add: step_names)

lemma earlier_parent:
  assumes "okeys T" "parents_first T" "map fst ms = filter syncable (map fst T)"
    "map_of T m = Some ps" "map_of ms m = Some st" "p \<in> set ps"
  shows "map_of (takeWhile (\<lambda>(n, st). n \<noteq> m) ms) p = map_of ms p" "p \<noteq> m" "syncable p \<Longrightarrow> map_of ms p \<noteq> None"
proof -
  obtain i where i: "i < length T" "T ! i = (m, ps)" using assms(4) by (metis in_set_conv_nth map_of_SomeD)
  define A where "A = take i T"
  define B where "B = drop (Suc i) T"
  have T: "T = A @ (m, ps) # B" using id_take_nth_drop [OF i(1)] i(2) by (simp add: A_def B_def)
  have p: "p \<in> fst ` set A" using assms(2,6) i by (force simp: parents_first_def A_def)
  have m: "m \<notin> fst ` set A" using assms(1) unfolding T okeys_def by simp
  then show "p \<noteq> m" using p by blast
  have "m \<in> set (map fst ms)" using assms(5) map_of_SomeD by force
  then have "syncable m" using assms(3) by simp
  have "map fst ms = filter syncable (map fst A) @ m # filter syncable (map fst B)"
    using assms(3) \<open>syncable m\<close> unfolding T by simp
  then obtain A' st' B' where ms: "ms = A' @ (m, st') # B'" "map fst A' = filter syncable (map fst A)"
    by (auto simp: map_eq_append_conv map_eq_Cons_conv)
  have m': "m \<notin> fst ` set A'" using m ms(2) by (metis filter_is_subset list.set_map subsetD)
  have before: "takeWhile (\<lambda>(n, st). n \<noteq> m) ms = A'"
    unfolding ms(1) using m' by (subst takeWhile_append2) (force, simp)
  have A': "syncable p \<Longrightarrow> p \<in> fst ` set A'" using p arg_cong [OF ms(2), of set] by auto
  show "map_of (takeWhile (\<lambda>(n, st). n \<noteq> m) ms) p = map_of ms p"
  proof (cases "syncable p")
    case True
    then obtain v where "map_of A' p = Some v" using A' by (metis map_of_eq_None_iff not_None_eq)
    then show ?thesis using before by (simp add: ms(1) map_add_def split: option.split)
  next
    case False
    have "p \<notin> fst ` set ms" using arg_cong [OF assms(3), of set] False by auto
    then have "map_of ms p = None" "map_of A' p = None" using ms(1) by (auto simp: map_of_eq_None_iff)
    then show ?thesis using before by simp
  qed
  show "syncable p \<Longrightarrow> map_of ms p \<noteq> None" using A' ms(1) by (auto simp: map_of_eq_None_iff)
qed


text \<open>Of every model that has started the parents have been fetched, and the events tell the same.\<close>

definition fetched_after :: "sync_event list \<Rightarrow> nat \<Rightarrow> string \<Rightarrow> bool" where
  "fetched_after es i p \<longleftrightarrow> (\<exists>j < i. se_model (es ! j) = p \<and> se_done (es ! j)) \<and> (\<forall>j < length es. se_model (es ! j) = p \<longrightarrow> j < i)"

definition events_ordered :: "(string, string list) omap \<Rightarrow> (string \<Rightarrow> bool) \<Rightarrow> sync_event list \<Rightarrow> bool" where
  "events_ordered T syncable es \<longleftrightarrow> (\<forall>i < length es. \<forall>ps. map_of T (se_model (es ! i)) = Some ps \<longrightarrow>
     (\<forall>p \<in> set ps. syncable p \<longrightarrow> fetched_after es i p))"

definition sync_inv :: "(string, string list) omap \<Rightarrow> (string \<Rightarrow> bool) \<Rightarrow> (string, 't model_sync) omap \<Rightarrow> sync_event list \<Rightarrow> bool" where
  "sync_inv T syncable ms es \<longleftrightarrow> map fst ms = filter syncable (map fst T) \<and>
     (\<forall>m st ps. map_of ms m = Some st \<longrightarrow> st \<noteq> Waiting \<longrightarrow> map_of T m = Some ps \<longrightarrow>
        (\<forall>p \<in> set ps. syncable p \<longrightarrow> map_of ms p = Some Fetched)) \<and>
     (\<forall>e \<in> set es. \<exists>st. map_of ms (se_model e) = Some st \<and> st \<noteq> Waiting) \<and>
     (\<forall>m. map_of ms m = Some Fetched \<longrightarrow> (\<exists>e \<in> set es. se_model e = m \<and> se_done e)) \<and>
     events_ordered T syncable es"

lemma sync_invD:
  assumes "sync_inv T syncable ms es"
  shows "map fst ms = filter syncable (map fst T)"
    "\<And>m st ps p. map_of ms m = Some st \<Longrightarrow> st \<noteq> Waiting \<Longrightarrow> map_of T m = Some ps \<Longrightarrow> p \<in> set ps \<Longrightarrow> syncable p \<Longrightarrow>
      map_of ms p = Some Fetched"
    "\<And>e. e \<in> set es \<Longrightarrow> \<exists>st. map_of ms (se_model e) = Some st \<and> st \<noteq> Waiting"
    "\<And>m. map_of ms m = Some Fetched \<Longrightarrow> \<exists>e \<in> set es. se_model e = m \<and> se_done e"
    "events_ordered T syncable es"
  using assms unfolding sync_inv_def by blast+

lemma sync_invI:
  assumes "map fst ms = filter syncable (map fst T)"
    "\<And>m st ps p. map_of ms m = Some st \<Longrightarrow> st \<noteq> Waiting \<Longrightarrow> map_of T m = Some ps \<Longrightarrow> p \<in> set ps \<Longrightarrow> syncable p \<Longrightarrow>
      map_of ms p = Some Fetched"
    "\<And>e. e \<in> set es \<Longrightarrow> \<exists>st. map_of ms (se_model e) = Some st \<and> st \<noteq> Waiting"
    "\<And>m. map_of ms m = Some Fetched \<Longrightarrow> \<exists>e \<in> set es. se_model e = m \<and> se_done e"
    "events_ordered T syncable es"
  shows "sync_inv T syncable ms es"
  using assms unfolding sync_inv_def by blast

lemma events_ordered_snoc:
  assumes "events_ordered T syncable es"
    "\<And>ps p. map_of T (se_model e) = Some ps \<Longrightarrow> p \<in> set ps \<Longrightarrow> syncable p \<Longrightarrow>
      p \<noteq> se_model e \<and> (\<exists>d \<in> set es. se_model d = p \<and> se_done d)"
    "\<And>d ps p. d \<in> set es \<Longrightarrow> map_of T (se_model d) = Some ps \<Longrightarrow> p \<in> set ps \<Longrightarrow> syncable p \<Longrightarrow> p \<noteq> se_model e"
  shows "events_ordered T syncable (es @ [e])"
  unfolding events_ordered_def
proof (intro allI impI ballI)
  fix i ps p assume i: "i < length (es @ [e])" "map_of T (se_model ((es @ [e]) ! i)) = Some ps" "p \<in> set ps" "syncable p"
  show "fetched_after (es @ [e]) i p"
  proof (cases "i < length es")
    case True
    then have old: "fetched_after es i p" and "p \<noteq> se_model e"
      using assms(1) assms(3) [OF nth_mem [OF True]] i by (auto simp: events_ordered_def nth_append)
    then show ?thesis using True unfolding fetched_after_def by (auto simp: nth_append less_Suc_eq)
  next
    case False
    then have "i = length es" using i(1) by simp
    then have p: "p \<noteq> se_model e" "\<exists>d \<in> set es. se_model d = p \<and> se_done d" using assms(2) i by auto
    then obtain j where "j < length es" "se_model (es ! j) = p" "se_done (es ! j)" by (metis in_set_conv_nth)
    then have "\<exists>j < i. se_model ((es @ [e]) ! j) = p \<and> se_done ((es @ [e]) ! j)"
      using \<open>i = length es\<close> by (intro exI [of _ j]) (simp add: nth_append)
    moreover have "j < i" if "j < length (es @ [e])" "se_model ((es @ [e]) ! j) = p" for j
      using that p(1) \<open>i = length es\<close> by (cases "j = i") auto
    ultimately show ?thesis by (simp add: fetched_after_def)
  qed
qed

lemma sync_turn_model: "sync_turn E m lastSync c s = Some (ev, c1, s1) \<Longrightarrow> se_model ev = m"
  by (auto simp: sync_turn_def Let_def split: option.splits prod.splits)

lemma sync_step_inv:
  assumes "okeys T" "parents_first T" "\<And>w. \<not> sy_closing E w"
  shows "sync_step E T lastSync r r' \<Longrightarrow> sync_inv T syncable (sr_models r) (sr_events r) \<Longrightarrow> sync_inv T syncable (sr_models r') (sr_events r')"
proof (induction rule: sync_step.induct)
  case (Begin r m ps)
  have names: "map fst (sr_models r) = filter syncable (map fst T)" using Begin(4) by (simp add: sync_inv_def)
  note early = earlier_parent [OF assms(1,2) names Begin(2,1)]
  have "map_of (sr_models r) p = Some Fetched" if "p \<in> set ps" "syncable p" for p
    using early(1,3) [OF that(1)] Begin(3) that by (auto simp: parents_fetched_def list_all_iff)
  note parents = this
  note inv = sync_invD [OF Begin(4)]
  let ?ms = "AList.update m (Fetching first_page) (sr_models r)"
  have keep: "map_of ?ms p = Some Fetched \<longleftrightarrow> map_of (sr_models r) p = Some Fetched" for p
    using Begin(1) by (auto simp: update_conv)
  have "map_of (sr_models r) p = Some Fetched"
    if "map_of ?ms n = Some st" "st \<noteq> Waiting" "map_of T n = Some qs" "p \<in> set qs" "syncable p" for n st qs p
    using that inv(2) [of n st qs p] parents [of p] Begin(2) by (cases "n = m") (auto simp: update_conv)
  moreover have "\<exists>st. map_of ?ms (se_model e) = Some st \<and> st \<noteq> Waiting" if "e \<in> set (sr_events r)" for e
    using inv(3) [OF that] by (cases "se_model e = m") (auto simp: update_conv)
  ultimately have "sync_inv T syncable ?ms (sr_events r)"
    using inv(4,5) map_fst_update [OF Begin(1)] names keep by (intro sync_invI) simp_all
  then show ?case by simp
next
  case (Page r m c ev c1 s1)
  have ev: "se_model ev = m" using sync_turn_model [OF Page(3)] .
  have names: "map fst (sr_models r) = filter syncable (map fst T)"
    and started: "\<And>n st ps p. map_of (sr_models r) n = Some st \<Longrightarrow> st \<noteq> Waiting \<Longrightarrow> map_of T n = Some ps \<Longrightarrow> p \<in> set ps \<Longrightarrow>
        syncable p \<Longrightarrow> map_of (sr_models r) p = Some Fetched"
    and events: "\<And>e. e \<in> set (sr_events r) \<Longrightarrow> \<exists>st. map_of (sr_models r) (se_model e) = Some st \<and> st \<noteq> Waiting"
    and ended: "\<And>n. map_of (sr_models r) n = Some Fetched \<Longrightarrow> \<exists>e \<in> set (sr_events r). se_model e = n \<and> se_done e"
    and ord: "events_ordered T syncable (sr_events r)"
    using sync_invD [OF Page(4)] by blast+
  let ?st = "if se_done ev then Fetched else Fetching c1"
  have m: "map_of (sr_models r) m \<noteq> Some Fetched" using Page(1) by simp
  have ordered: "events_ordered T syncable (sr_events r @ [ev])"
  proof (rule events_ordered_snoc [OF ord])
    fix ps p assume p: "map_of T (se_model ev) = Some ps" "p \<in> set ps" "syncable p"
    then have "map_of (sr_models r) p = Some Fetched" using started [OF Page(1)] ev by simp
    then show "p \<noteq> se_model ev \<and> (\<exists>d \<in> set (sr_events r). se_model d = p \<and> se_done d)" using ended m ev by auto
  next
    fix d ps p assume d: "d \<in> set (sr_events r)" "map_of T (se_model d) = Some ps" "p \<in> set ps" "syncable p"
    then show "p \<noteq> se_model ev" using events [OF d(1)] started m ev by metis
  qed
  have kept: "map_of (AList.update m ?st (sr_models r)) p = Some Fetched" if "map_of (sr_models r) p = Some Fetched" for p
    using that m by (auto simp: update_conv)
  have sent: "\<exists>e \<in> set (sr_events r @ [ev]). se_model e = n \<and> se_done e"
    if "map_of (AList.update m ?st (sr_models r)) n = Some Fetched" for n
    using that ended [of n] ev by (cases "n = m") (auto simp: update_conv split: if_splits)
  have begun: "\<exists>st. map_of (AList.update m ?st (sr_models r)) (se_model e) = Some st \<and> st \<noteq> Waiting"
    if "e \<in> set (sr_events r @ [ev])" for e
    using that events [of e] ev by (cases "se_model e = m") (auto simp: update_conv)
  have parents: "map_of (AList.update m ?st (sr_models r)) p = Some Fetched"
    if "map_of (AList.update m ?st (sr_models r)) n = Some st" "st \<noteq> Waiting" "map_of T n = Some ps" "p \<in> set ps" "syncable p"
    for n st ps p
    using that started [of n st ps p] started [OF Page(1)] kept [of p] by (cases "n = m") (auto simp: update_conv)
  have all: "map fst (AList.update m ?st (sr_models r)) = filter syncable (map fst T)"
    using map_fst_update [OF Page(1)] names by simp
  have "sync_inv T syncable (AList.update m ?st (sr_models r)) (sr_events r @ [ev])"
    by (rule sync_invI [OF all _ _ _ ordered]) (rule parents begun sent; assumption)+
  then show ?case by simp
next
  case (Close r m c)
  then show ?case using assms(3) by simp
qed

lemma start_waiting: "map_of (sr_models (sync_start T syncable s)) n = Some st \<Longrightarrow> st = Waiting"
  unfolding sync_start_def by (induction T) (auto split: if_splits)

lemma parents_before_children:
  assumes "okeys T" "parents_first T" "\<And>w. \<not> sy_closing E w"
    "(sync_step E T lastSync)\<^sup>*\<^sup>* (sync_start T syncable s) r"
    "i < length (sr_events r)" "map_of T (se_model (sr_events r ! i)) = Some ps" "p \<in> set ps" "syncable p"
  shows "fetched_after (sr_events r) i p"
proof -
  have "sync_inv T syncable (sr_models r) (sr_events r)"
    using assms(4)
  proof (induction rule: rtranclp_induct)
    case base
    show ?case using run_names [OF rtranclp.rtrancl_refl, of T syncable s]
      by (intro sync_invI) (auto simp: events_ordered_def dest: start_waiting, auto simp: sync_start_def)
  qed (rule sync_step_inv [OF assms(1-3)])
  then show ?thesis using assms(5-8) by (simp add: sync_inv_def events_ordered_def)
qed

text \<open>
  C16. However the models interleave, when a page of a model is sent the last page of every model it belongs to, by the
  schema, has been sent before it, and none of theirs comes after it.
\<close>

theorem parents_are_sent_first:
  assumes "distinct (map fst ns)" "modelTopologicalOrdering ns = Some T" "\<And>w. \<not> sy_closing E w"
    "(sync_step E T lastSync)\<^sup>*\<^sup>* (sync_start T syncable s) r"
    "i < length (sr_events r)" "map_of ns (se_model (sr_events r ! i)) = Some sm"
    "p \<in> set (connectedModels (se_model (sr_events r ! i)) sm)" "syncable p"
  shows "(\<exists>j < i. se_model (sr_events r ! j) = p \<and> se_done (sr_events r ! j)) \<and>
    (\<forall>j < length (sr_events r). se_model (sr_events r ! j) = p \<longrightarrow> j < i)"
proof -
  let ?m = "se_model (sr_events r ! i)"
  have T: "distinct (map fst T)" "set T = set (modelAssociations ns)" "parents_first T"
    using models_follow_parents [OF assms(1,2)] by blast+
  have "(?m, connectedModels ?m sm) \<in> set T"
    using map_of_SomeD [OF assms(6)] by (force simp: T(2) modelAssociations_def)
  then have "map_of T ?m = Some (connectedModels ?m sm)" using T(1) by simp
  from parents_before_children [OF _ T(3) assms(3-5) this assms(7,8)] T(1)
  show ?thesis by (simp add: fetched_after_def okeys_def)
qed

section \<open>No run gets stuck\<close>

lemma sync_turn_returns:
  assumes "\<And>w. 0 \<le> fst (sy_random E w)"
  shows "sync_turn E m lastSync c s \<noteq> None"
  using retrievePage_returns [OF assms] by (auto simp: sync_turn_def Let_def case_prod_beta split: option.splits)

lemma run_has_order:
  assumes "(sync_step E T lastSync)\<^sup>*\<^sup>* (sync_start T syncable s) r" "map_of (sr_models r) m = Some st"
  shows "\<exists>ps. map_of T m = Some ps"
proof -
  have "m \<in> set (map fst (sr_models r))" using map_of_SomeD [OF assms(2)] by force
  then show ?thesis using run_names [OF assms(1)] by (cases "map_of T m") (auto simp: map_of_eq_None_iff)
qed

lemma run_can_go_on:
  assumes "\<And>w. 0 \<le> fst (sy_random E w)" "(sync_step E T lastSync)\<^sup>*\<^sup>* (sync_start T syncable s) r"
    "map_of (sr_models r) m = Some st" "st \<noteq> Fetched"
  shows "\<exists>r'. sync_step E T lastSync r r'"
proof -
  have "\<exists>a \<in> set (sr_models r). map_of (sr_models r) (fst a) \<noteq> Some Fetched"
    using assms(3,4) map_of_SomeD [OF assms(3)] by force
  from split_list_first_prop [OF this]
  obtain as a bs where a: "sr_models r = as @ a # bs" "map_of (sr_models r) (fst a) \<noteq> Some Fetched"
    "\<And>b. b \<in> set as \<Longrightarrow> map_of (sr_models r) (fst b) = Some Fetched"
    by blast
  obtain st1 where st1: "map_of (sr_models r) (fst a) = Some st1"
    using a(1) by (cases "map_of (sr_models r) (fst a)") (auto simp: map_of_eq_None_iff)
  obtain ps where ps: "map_of T (fst a) = Some ps" using run_has_order [OF assms(2) st1] by blast
  show ?thesis
  proof (cases st1)
    case Waiting
    have "fst b \<noteq> fst a" if "b \<in> set as" for b using a(2) a(3) [OF that] by metis
    then have tw: "takeWhile (\<lambda>(n, st). n \<noteq> fst a) (sr_models r) = as"
      by (simp add: a(1) case_prod_beta)
    have "map_of as p \<in> {None, Some Fetched}" for p
    proof (cases "map_of as p")
      case (Some v)
      then have "map_of (sr_models r) p = Some v" by (simp add: a(1) map_add_def split: option.split)
      moreover have "map_of (sr_models r) p = Some Fetched" using a(3) [OF map_of_SomeD [OF Some]] by simp
      ultimately show ?thesis using Some by simp
    qed simp
    then have "parents_fetched r (fst a) ps" by (simp add: parents_fetched_def tw list_all_iff)
    then show ?thesis using sync_step.Begin st1 ps Waiting by blast
  next
    case (Fetching c)
    obtain ev c1 s1 where "sync_turn E (fst a) (lastSync (fst a)) c (sr_state r) = Some (ev, c1, s1)"
      using sync_turn_returns [OF assms(1), of "fst a" "lastSync (fst a)" c "sr_state r"] by fastforce
    note page = sync_step.Page [where r = r and m = "fst a" and lastSync = lastSync, OF _ _ this] and close = sync_step.Close
    show ?thesis
    proof (cases "sy_closing E (snd (sr_state r))")
      case True
      then show ?thesis using close [of r "fst a" c E T lastSync] st1 Fetching by blast
    next
      case False
      then show ?thesis using page [where topOrder = T] st1 Fetching by blast
    qed
  next
    case Fetched
    then show ?thesis using st1 a(2) by simp
  qed
qed

text \<open>
  C28. The models never wait for each other in a circle: as long as a model has not been fetched some model can go
  on, whatever the service answers.
\<close>

theorem sync_never_stuck:
  assumes "\<And>w. 0 \<le> fst (sy_random E w)" "(sync_step E T lastSync)\<^sup>*\<^sup>* (sync_start T syncable s) r"
    "map_of (sr_models r) m = Some st" "st \<noteq> Fetched"
  shows "\<exists>r'. sync_step E T lastSync r r'"
  by (rule run_can_go_on [OF assms])

section \<open>Every run sends everything\<close>

definition items_of :: "string \<Rightarrow> sync_event list \<Rightarrow> model list" where
  "items_of m es = concat (map se_items (filter (\<lambda>e. se_model e = m) es))"

lemma items_of_snoc: "items_of m (es @ [e]) = items_of m es @ (if se_model e = m then se_items e else [])"
  by (simp add: items_of_def)

text \<open>How far a model has come in its records.\<close>

definition progress_ok :: "model list \<Rightarrow> int \<Rightarrow> nat model_sync option \<Rightarrow> model list \<Rightarrow> bool" where
  "progress_ok rs limit st sent \<longleftrightarrow>
     (case st of
        None \<Rightarrow> sent = []
      | Some Waiting \<Rightarrow> sent = []
      | Some (Fetching c) \<Rightarrow> (\<exists>pos. cursor_at pos c \<and> (pos = 0 \<or> pos < length rs) \<and> int pos \<le> limit \<and> sent = take pos rs)
      | Some Fetched \<Rightarrow> sent = take (nat limit) rs)"

definition steps_left :: "(string \<Rightarrow> model list) \<Rightarrow> string \<Rightarrow> nat model_sync \<Rightarrow> int" where
  "steps_left records m st =
     (case st of
        Waiting \<Rightarrow> int (length (records m)) + 2
      | Fetching c \<Rightarrow> int (length (records m)) + 1 - int (case pc_nextToken c of None \<Rightarrow> 0 | Some n \<Rightarrow> n)
      | Fetched \<Rightarrow> 0)"

lemma page_progress:
  assumes "serving records t E" "0 < sy_pageSize E" "cursor_at pos c" "pos = 0 \<or> pos < length (records m)"
    "int pos \<le> sy_maxRecordsToSync E" "sync_turn E m lastSync c s = Some (ev, c1, s1)"
  shows "progress_ok (records m) (sy_maxRecordsToSync E) (Some (if se_done ev then Fetched else Fetching c1))
      (take pos (records m) @ se_items ev)"
    "steps_left records m (if se_done ev then Fetched else Fetching c1) < steps_left records m (Fetching c)"
proof -
  let ?l = "page_limit E pos"
  have pos: "pos \<le> length (records m)" using assms(4) by auto
  have ev: "se_items ev = take ?l (drop pos (records m))"
    "se_done ev \<longleftrightarrow> length (records m) \<le> pos + ?l \<or> sy_maxRecordsToSync E \<le> int (pos + ?l)"
    "pos + ?l < length (records m) \<Longrightarrow> cursor_at (pos + ?l) c1"
    using serving_turn [OF assms(1,3) pos, of lastSync s] assms(6) by auto
  have l: "int (pos + ?l) \<le> sy_maxRecordsToSync E" using assms(2,5) by (auto simp: page_limit_def)
  have sent: "take pos (records m) @ se_items ev = take (pos + ?l) (records m)" by (simp add: ev(1) take_add)
  have c: "(case pc_nextToken c of None \<Rightarrow> 0 | Some n \<Rightarrow> n) = pos" using assms(3) by (simp add: cursor_at_def)
  show "progress_ok (records m) (sy_maxRecordsToSync E) (Some (if se_done ev then Fetched else Fetching c1))
      (take pos (records m) @ se_items ev)"
  proof (cases "se_done ev")
    case True
    then consider "length (records m) \<le> pos + ?l" | "sy_maxRecordsToSync E = int (pos + ?l)" using ev(2) l by linarith
    then have "take (pos + ?l) (records m) = take (nat (sy_maxRecordsToSync E)) (records m)"
    proof cases
      case 1
      moreover have "pos + ?l \<le> nat (sy_maxRecordsToSync E)" using l by simp
      ultimately show ?thesis by simp
    next
      case 2
      then show ?thesis by (simp only: nat_int)
    qed
    then show ?thesis using True sent by (simp add: progress_ok_def)
  next
    case False
    then have "pos + ?l < length (records m)" using ev(2) by simp
    then show ?thesis using False sent l ev(3) by (auto simp: progress_ok_def)
  qed
  show "steps_left records m (if se_done ev then Fetched else Fetching c1) < steps_left records m (Fetching c)"
  proof (cases "se_done ev")
    case True
    then show ?thesis using pos c by (simp add: steps_left_def)
  next
    case False
    then have more: "pos + ?l < length (records m)" "int (pos + ?l) < sy_maxRecordsToSync E" using ev(2) by simp_all
    then have "0 < ?l" using assms(2) by (auto simp: page_limit_def min_def split: if_splits)
    moreover have "(case pc_nextToken c1 of None \<Rightarrow> 0 | Some n \<Rightarrow> n) = pos + ?l" using ev(3) [OF more(1)] by (simp add: cursor_at_def)
    ultimately show ?thesis using False c by (simp add: steps_left_def)
  qed
qed

abbreviation progress :: "(string \<Rightarrow> model list) \<Rightarrow> (nat, 'w) sync_env \<Rightarrow> (nat, 'w) sync_run \<Rightarrow> bool" where
  "progress records E r \<equiv> \<forall>m. progress_ok (records m) (sy_maxRecordsToSync E) (map_of (sr_models r) m) (items_of m (sr_events r))"

lemma sync_step_progress:
  assumes "serving records t E" "0 < sy_pageSize E" "0 \<le> sy_maxRecordsToSync E"
  shows "sync_step E T lastSync r r' \<Longrightarrow> progress records E r \<Longrightarrow>
    progress records E r' \<and> osum (steps_left records) (sr_models r') < osum (steps_left records) (sr_models r)"
proof (induction rule: sync_step.induct)
  case (Begin r m ps)
  have "progress_ok (records m) (sy_maxRecordsToSync E) (Some (Fetching first_page)) (items_of m (sr_events r))"
    using Begin(4) [rule_format, of m] Begin(1) assms(3) by (simp add: progress_ok_def cursor_at_def first_page_def)
  then show ?case using Begin by (auto simp: update_conv osum_update steps_left_def first_page_def)
next
  case (Page r m c ev c1 s1)
  obtain pos where pos: "cursor_at pos c" "pos = 0 \<or> pos < length (records m)" "int pos \<le> sy_maxRecordsToSync E"
    "items_of m (sr_events r) = take pos (records m)"
    using Page(4) [rule_format, of m] Page(1) by (auto simp: progress_ok_def)
  note page = page_progress [OF assms(1,2) pos(1-3) Page(3)]
  have ev: "se_model ev = m" using sync_turn_model [OF Page(3)] .
  have "progress_ok (records n) (sy_maxRecordsToSync E)
      (map_of (AList.update m (if se_done ev then Fetched else Fetching c1) (sr_models r)) n) (items_of n (sr_events r @ [ev]))" for n
    using page(1) Page(4) [rule_format, of n] pos(4) ev by (cases "n = m") (auto simp: update_conv items_of_snoc)
  then show ?case using page(2) Page(1) by (simp add: osum_update)
next
  case (Close r m c)
  then show ?case using assms(1) by (simp add: serving_def)
qed

lemma progress_start:
  assumes "r = sync_start T syncable s"
  shows "progress records E r"
proof
  fix m
  have sent: "items_of m (sr_events r) = []" by (simp add: items_of_def sync_start_def assms)
  show "progress_ok (records m) (sy_maxRecordsToSync E) (map_of (sr_models r) m) (items_of m (sr_events r))"
  proof (cases "map_of (sr_models r) m")
    case None
    show ?thesis unfolding progress_ok_def None sent by simp
  next
    case (Some st)
    then have "st = Waiting" using start_waiting assms by blast
    then show ?thesis using Some sent by (simp add: progress_ok_def)
  qed
qed

lemma run_progress:
  assumes "serving records t E" "0 < sy_pageSize E" "0 \<le> sy_maxRecordsToSync E"
    "(sync_step E T lastSync ^^ n) (sync_start T syncable s) r"
  shows "progress records E r \<and>
    int n + osum (steps_left records) (sr_models r) \<le> osum (steps_left records) (sr_models (sync_start T syncable s))"
  using assms(4)
proof (induction n arbitrary: r)
  case 0
  then have "r = sync_start T syncable s" by simp
  then show ?case using progress_start [of r T syncable s records E] by simp
next
  case (Suc n)
  then obtain r1 where r1: "(sync_step E T lastSync ^^ n) (sync_start T syncable s) r1" "sync_step E T lastSync r1 r"
    by auto
  then show ?case using Suc.IH [OF r1(1)] sync_step_progress [OF assms(1-3) r1(2)] by force
qed

lemma steps_left_nonneg:
  assumes "progress_ok (records m) limit (Some st) sent"
  shows "0 \<le> steps_left records m st"
  using assms by (cases st) (auto simp: progress_ok_def steps_left_def cursor_at_def)

lemma steps_at_start:
  "osum (steps_left records) (sr_models (sync_start T syncable s)) =
     (\<Sum>(m, ps)\<leftarrow>filter (\<lambda>(m, ps). syncable m) T. int (length (records m)) + 2)"
  by (induction T) (auto simp: sync_start_def steps_left_def)

text \<open>
  With a service that answers every run ends: it has at most as many steps as the models have records, and two
  more for every model.
\<close>

theorem sync_run_ends:
  assumes "serving records t E" "0 < sy_pageSize E" "0 \<le> sy_maxRecordsToSync E" "okeys T"
    "(sync_step E T lastSync ^^ n) (sync_start T syncable s) r"
  shows "int n \<le> (\<Sum>(m, ps)\<leftarrow>filter (\<lambda>(m, ps). syncable m) T. int (length (records m)) + 2)"
proof -
  note run = run_progress [OF assms(1-3,5)]
  have "(sync_step E T lastSync)\<^sup>*\<^sup>* (sync_start T syncable s) r" using assms(5) by (rule relpowp_imp_rtranclp)
  then have names: "okeys (sr_models r)" using run_names assms(4) unfolding okeys_def by (metis distinct_filter)
  have "0 \<le> osum (steps_left records) (sr_models r)"
  proof (rule osum_nonneg)
    fix m st assume "(m, st) \<in> set (sr_models r)"
    then have "map_of (sr_models r) m = Some st" using names okeys_map_of by metis
    then show "0 \<le> steps_left records m st" using run steps_left_nonneg by metis
  qed
  then show ?thesis using run unfolding steps_at_start by linarith
qed

lemma final_all_fetched:
  assumes "\<And>w. 0 \<le> fst (sy_random E w)" "(sync_step E T lastSync)\<^sup>*\<^sup>* (sync_start T syncable s) r"
    "\<And>r'. \<not> sync_step E T lastSync r r'" "m \<in> fst ` set T" "syncable m"
  shows "map_of (sr_models r) m = Some Fetched"
proof -
  have "m \<in> set (map fst (sr_models r))" using run_names [OF assms(2)] assms(4,5) by auto
  then obtain st where "map_of (sr_models r) m = Some st" by (cases "map_of (sr_models r) m") (auto simp: map_of_eq_None_iff)
  then show ?thesis using run_can_go_on [OF assms(1,2)] assms(3) by metis
qed

text \<open>
  C11. However the models interleave, when a run has ended every record of every synchronised model has been sent
  once and in order, up to the limit.
\<close>

theorem sync_run_sends_everything:
  assumes "serving records t E" "0 < sy_pageSize E" "0 \<le> sy_maxRecordsToSync E" "\<And>w. 0 \<le> fst (sy_random E w)"
    "(sync_step E T lastSync)\<^sup>*\<^sup>* (sync_start T syncable s) r" "\<And>r'. \<not> sync_step E T lastSync r r'"
    "m \<in> fst ` set T" "syncable m"
  shows "items_of m (sr_events r) = take (nat (sy_maxRecordsToSync E)) (records m)"
proof -
  obtain n where "(sync_step E T lastSync ^^ n) (sync_start T syncable s) r" using assms(5) rtranclp_imp_relpowp by metis
  then have "progress records E r" using run_progress [OF assms(1-3)] by blast
  then have "progress_ok (records m) (sy_maxRecordsToSync E) (map_of (sr_models r) m) (items_of m (sr_events r))" by simp
  then show ?thesis using final_all_fetched [OF assms(4-8)] by (simp add: progress_ok_def)
qed

section \<open>A run\<close>

abbreviation demo_order :: "(string, string list) omap" where
  "demo_order \<equiv> [(''Post'', []), (''Comment'', [''Post''])]"

abbreviation demo_page :: "string \<Rightarrow> sync_event" where
  "demo_page m \<equiv> \<lparr>se_model = m, se_items = [[(''id'', JStr m)]], se_done = True, se_startedAt = Some 5, se_isFullSync = True\<rparr>"

abbreviation demo_run :: "(nat, unit) sync_run" where
  "demo_run \<equiv> \<lparr>sr_models = [(''Post'', Fetched), (''Comment'', Fetched)],
     sr_events = [demo_page ''Post'', demo_page ''Comment''], sr_state = ([], ())\<rparr>"

lemma demo_turn: "\<exists>c1. sync_turn demo_sync_env m None first_page ([], ()) = Some (demo_page m, c1, ([], ()))"
proof -
  have "cursor_at 0 (first_page :: nat page_cursor)" by (simp add: cursor_at_def first_page_def)
  from serving_turn [OF demo_serving this, of m None "([], ())"]
  show ?thesis by (auto simp: page_limit_def demo_sync_env_def isFullSync_def)
qed

lemma demo_runs: "(sync_step demo_sync_env demo_order (\<lambda>m. None) ^^ 4) (sync_start demo_order (\<lambda>m. True) ([], ())) demo_run"
proof -
  let ?step = "sync_step demo_sync_env demo_order (\<lambda>m. None)"
  obtain c1 c2 where c: "sync_turn demo_sync_env ''Post'' None first_page ([], ()) = Some (demo_page ''Post'', c1, ([], ()))"
    "sync_turn demo_sync_env ''Comment'' None first_page ([], ()) = Some (demo_page ''Comment'', c2, ([], ()))"
    using demo_turn by blast
  have going: "\<not> sy_closing demo_sync_env ()" by (simp add: demo_sync_env_def)
  let ?r0 = "\<lparr>sr_models = [(''Post'', Waiting), (''Comment'', Waiting)], sr_events = [], sr_state = ([], ())\<rparr>"
  let ?r1 = "\<lparr>sr_models = [(''Post'', Fetching first_page), (''Comment'', Waiting)], sr_events = [], sr_state = ([], ())\<rparr>"
  let ?r2 = "\<lparr>sr_models = [(''Post'', Fetched), (''Comment'', Waiting)], sr_events = [demo_page ''Post''], sr_state = ([], ())\<rparr>"
  let ?r3 = "\<lparr>sr_models = [(''Post'', Fetched), (''Comment'', Fetching first_page)], sr_events = [demo_page ''Post''], sr_state = ([], ())\<rparr>"
  have "?step ?r0 ?r1" using sync_step.Begin [of ?r0 "''Post''" demo_order "[]"] by (simp add: parents_fetched_def)
  moreover have "?step ?r1 ?r2"
    using sync_step.Page [of ?r1 "''Post''" first_page demo_sync_env "\<lambda>m. None" "demo_page ''Post''" c1 "([], ())"] c(1) going by simp
  moreover have "?step ?r2 ?r3" using sync_step.Begin [of ?r2 "''Comment''" demo_order "[''Post'']"] by (simp add: parents_fetched_def)
  moreover have "?step ?r3 demo_run"
    using sync_step.Page [of ?r3 "''Comment''" first_page demo_sync_env "\<lambda>m. None" "demo_page ''Comment''" c2 "([], ())"] c(2) going by simp
  ultimately show ?thesis by (auto simp: sync_start_def numeral_eq_Suc relcompp_apply)
qed

theorem parents_are_sent_first_witness:
  "\<exists>j < 1. se_model (sr_events demo_run ! j) = ''Post'' \<and> se_done (sr_events demo_run ! j)"
  using parents_are_sent_first [OF _ demo_ordering _ relpowp_imp_rtranclp [OF demo_runs], of 1 demo_child "''Post''"]
  by (simp add: demo_sync_env_def connectedModels_def demo_child_def)

theorem sync_never_stuck_witness:
  "\<exists>r'. sync_step demo_sync_env demo_order (\<lambda>m. None) (sync_start demo_order (\<lambda>m. True) ([], ())) r'"
  by (rule sync_never_stuck [where m = "''Comment''" and st = Waiting, OF _ rtranclp.rtrancl_refl])
    (simp_all add: demo_sync_env_def sync_start_def)

theorem sync_run_ends_witness: "(4 :: int) \<le> 6"
  using sync_run_ends [OF demo_serving _ _ _ demo_runs] by (simp add: demo_sync_env_def okeys_def)

lemma demo_final: "\<not> sync_step demo_sync_env demo_order (\<lambda>m. None) demo_run r'"
  by (auto elim!: sync_step.cases split: if_splits)

theorem sync_run_sends_everything_witness: "items_of ''Comment'' (sr_events demo_run) = [[(''id'', JStr ''Comment'')]]"
  using sync_run_sends_everything [OF demo_serving _ _ _ relpowp_imp_rtranclp [OF demo_runs] demo_final, of "''Comment''"]
  by (simp add: demo_sync_env_def)

end
