(* ===== verification/SyncEngineProofs.thy ===== *)
theory SyncEngineProofs
  imports SyncEngine SyncRunProofs OutboxProofs
begin

text \<open>
  The sync engine with the sync processor, the queue of mutations and the merger: what the store holds after a
  synchronisation, local changes that a page of the service never overwrites, and which synchronisation is next.
\<close>

section \<open>Merging beside the queue\<close>

lemma getForModel_Nil: "getForModel J sm item ob = [] \<longleftrightarrow> getIdentifierValue J sm item \<notin> set (getModelIds ob)"
  by (auto simp: getForModel_def getModelIds_def filter_empty_conv image_iff)

lemma merge_one_queued:
  "getIdentifierValue J sm item \<in> set (getModelIds ob) \<Longrightarrow> merge_one J ob sm item acc = acc"
  by (simp add: merge_one_def merge_def getForModel_Nil Let_def)

lemma fold_merge_queued:
  "(\<And>item. item \<in> set items \<Longrightarrow> getIdentifierValue J sm item \<in> set (getModelIds ob)) \<Longrightarrow>
   fold (merge_one J ob sm) items acc = acc"
  by (induction items) (simp_all add: merge_one_queued)

text \<open>What a list of records makes of the record under \<open>k\<close>: the last one sent under it counts.\<close>

definition sent_record :: "js_env \<Rightarrow> schema_model \<Rightarrow> model list \<Rightarrow> string \<Rightarrow> model option \<Rightarrow> model option" where
  "sent_record J sm items k old =
     (case find (\<lambda>i. getIdentifierValue J sm i = k) (rev items) of
        None \<Rightarrow> old | Some i \<Rightarrow> if is_deleted i then None else Some i)"

lemma sent_record_append: "sent_record J sm (xs @ ys) k old = sent_record J sm ys k (sent_record J sm xs k old)"
  by (simp add: sent_record_def find_append split: option.split)

lemma sent_record_Nil [simp]: "sent_record J sm [] k old = old"
  by (simp add: sent_record_def)

lemma mergePage_store: "map_of (snd (mergePage J sm items s)) k = sent_record J sm items k (map_of s k)"
  by (simp add: mergePage_def batchSave_store okeys_fold_update fold_update_map_of sent_record_def split: option.split)

lemma find_filter_rev:
  assumes "\<And>i. P i \<Longrightarrow> Q i"
  shows "find P (rev (filter Q items)) = find P (rev items)"
  using assms by (induction items) (auto simp: find_append split: option.split)

lemma find_filter_rev_None:
  assumes "\<And>i. P i \<Longrightarrow> \<not> Q i"
  shows "find P (rev (filter Q items)) = None"
  using assms by (auto simp: find_None_iff)

lemma merge_items_store:
  "map_of (snd (merge_items J ob sm items s)) k =
     (if k \<in> set (getModelIds ob) then map_of s k else sent_record J sm items k (map_of s k))"
proof -
  let ?in = "\<lambda>item. getIdentifierValue J sm item \<in> set (getModelIds ob)"
  have "fold (merge_one J ob sm) (filter ?in items) ([], s) = ([], s)" by (rule fold_merge_queued) simp
  then have "map_of (snd (merge_items J ob sm items s)) k = sent_record J sm (filter (\<lambda>i. \<not> ?in i) items) k (map_of s k)"
    by (simp add: merge_items_def case_prod_beta mergePage_store Let_def)
  also have "\<dots> = (if k \<in> set (getModelIds ob) then map_of s k else sent_record J sm items k (map_of s k))"
  proof (cases "k \<in> set (getModelIds ob)")
    case True
    then have "find (\<lambda>i. getIdentifierValue J sm i = k) (rev (filter (\<lambda>i. \<not> ?in i) items)) = None"
      by (intro find_filter_rev_None) simp
    then show ?thesis using True by (simp add: sent_record_def)
  next
    case False
    then have "find (\<lambda>i. getIdentifierValue J sm i = k) (rev (filter (\<lambda>i. \<not> ?in i) items)) =
        find (\<lambda>i. getIdentifierValue J sm i = k) (rev items)"
      by (intro find_filter_rev) auto
    then show ?thesis using False by (simp add: sent_record_def)
  qed
  finally show ?thesis .
qed

lemma begin_model_frame [simp]:
  "en_outbox (begin_model now ev e) = en_outbox e" "en_store (begin_model now ev e) = en_store e"
  "en_metadata (begin_model now ev e) = en_metadata e" "en_paginating (begin_model now ev e) = en_paginating e"
  by (simp_all add: begin_model_def)

lemma merge_event_frame [simp]:
  "en_outbox (merge_event J sms ev e) = en_outbox e" "en_metadata (merge_event J sms ev e) = en_metadata e"
  "en_paginating (merge_event J sms ev e) = en_paginating e"
  "en_store (merge_event J sms ev e) =
     (en_store e)(se_model ev := snd (merge_items J (en_outbox e) (sms (se_model ev)) (se_items ev) (en_store e (se_model ev))))"
  by (simp_all add: merge_event_def case_prod_beta Let_def)

lemma complete_model_frame [simp]:
  "en_outbox (snd (complete_model now ev e)) = en_outbox e" "en_store (snd (complete_model now ev e)) = en_store e"
  by (auto simp: complete_model_def Let_def split: option.split)

lemma handle_page_frame [simp]:
  "en_outbox (snd (handle_page J sms now later ev e)) = en_outbox e"
  "en_store (snd (handle_page J sms now later ev e)) =
     (en_store e)(se_model ev := snd (merge_items J (en_outbox e) (sms (se_model ev)) (se_items ev) (en_store e (se_model ev))))"
  by (simp_all add: handle_page_def Let_def)

lemma handle_page_metadata:
  "map_of (en_metadata (snd (handle_page J sms now later ev e))) m =
     (if se_done ev \<and> m = se_model ev then
        map_option (\<lambda>md. md\<lparr>mm_lastSync := se_startedAt ev,
          mm_lastFullSync := (if se_isFullSync ev then se_startedAt ev else mm_lastFullSync md)\<rparr>) (map_of (en_metadata e) m)
      else map_of (en_metadata e) m)"
  by (auto simp: handle_page_def complete_model_def Let_def update_conv split: option.split)

text \<open>The handler for a list of events; the times do not matter to the store and the metadata.\<close>

definition handle_pages :: "js_env \<Rightarrow> (string \<Rightarrow> schema_model) \<Rightarrow> int \<Rightarrow> sync_event list \<Rightarrow> engine \<Rightarrow> engine" where
  "handle_pages J sms now evs e = fold (\<lambda>ev e. snd (handle_page J sms now now ev e)) evs e"

lemma handle_pages_simps [simp]:
  "handle_pages J sms now [] e = e"
  "handle_pages J sms now (ev # evs) e = handle_pages J sms now evs (snd (handle_page J sms now now ev e))"
  by (simp_all add: handle_pages_def)

lemma handle_pages_outbox [simp]: "en_outbox (handle_pages J sms now evs e) = en_outbox e"
  by (induction evs arbitrary: e) simp_all

lemma handle_pages_store:
  "map_of (en_store (handle_pages J sms now evs e) m) k =
     (if k \<in> set (getModelIds (en_outbox e)) then map_of (en_store e m) k
      else sent_record J (sms m) (items_of m evs) k (map_of (en_store e m) k))"
proof (induction evs arbitrary: e)
  case (Cons ev evs)
  show ?case
  proof (cases "se_model ev = m")
    case True
    then show ?thesis using Cons by (simp add: merge_items_store items_of_def sent_record_append)
  next
    case False
    then show ?thesis using Cons by (simp add: items_of_def)
  qed
qed (simp add: items_of_def)

text \<open>
  However many pages of the service arrive, of the records of a model the one with a queued mutation stays as it
  is, and any other is the last one sent under its key, deleted if that one is marked so.
\<close>

theorem pages_are_merged:
  "map_of (en_store (handle_pages J sms now evs e) m) k =
     (if \<exists>ev \<in> set (q_events (en_outbox e)). me_modelId ev = k then map_of (en_store e m) k
      else case find (\<lambda>i. getIdentifierValue J (sms m) i = k) (rev (items_of m evs)) of
             None \<Rightarrow> map_of (en_store e m) k | Some i \<Rightarrow> if is_deleted i then None else Some i)"
  by (auto simp: handle_pages_store getModelIds_def sent_record_def image_iff)

section \<open>A local change\<close>

lemma in_update: "(k, v) \<in> set (AList.update k v xs)"
  by (induction xs) auto

text \<open>
  A queued deletion is in the queue like any other change, unless it cancels a creation that is still pending; then at most
  the mutation in flight remains for the record.
\<close>

definition cancels :: "mutation_event \<Rightarrow> outbox \<Rightarrow> bool" where
  "cancels ev ob \<longleftrightarrow> me_operation ev = DeleteOp \<and>
     (case find (pending ob (me_modelId ev)) (q_events ob) of None \<Rightarrow> False | Some first \<Rightarrow> me_operation first = CreateOp)"

lemma enqueued_in_queue:
  assumes "\<not> cancels ev ob"
  shows "me_modelId ev \<in> me_modelId ` set (q_events (enqueue ev ob))"
proof -
  have saved: "ev' \<in> set (q_events (q_save ev' ob'))" for ev' ob'
    using imageI [OF in_update [of "me_id ev'" ev' "queue ob'"], of snd] by (simp add: q_save_def q_events_def)
  show ?thesis
  proof (cases "find (pending ob (me_modelId ev)) (q_events ob)")
    case None
    then show ?thesis using saved by (simp add: enqueue_def Let_def)
  next
    case (Some first)
    then have "me_modelId first = me_modelId ev" by (auto simp: find_Some_iff pending_def)
    then have ids: "me_modelId (first\<lparr>me_data := d\<rparr>) = me_modelId ev" "me_modelId (mergeUserFields first ev) = me_modelId ev" for d
      by (simp_all add: mergeUserFields_def)
    have "\<not> (me_operation first = CreateOp \<and> me_operation ev = DeleteOp)" using assms Some by (auto simp: cancels_def)
    then have "\<exists>ev' ob'. enqueue ev ob = q_save ev' ob' \<and> me_modelId ev' = me_modelId ev"
      unfolding enqueue_def Let_def Some option.case using ids by (auto intro: exI)
    then obtain ev' ob' where "enqueue ev ob = q_save ev' ob'" "me_modelId ev' = me_modelId ev" by blast
    then show ?thesis using imageI [OF saved [of ev' ob'], of me_modelId] by simp
  qed
qed

lemma cancelled_in_queue:
  assumes "cancels ev ob"
  shows "me_modelId ev \<in> me_modelId ` set (q_events (enqueue ev ob)) \<longleftrightarrow>
    (\<exists>x \<in> set (q_events ob). me_modelId x = me_modelId ev \<and> inProgress ob = Some (me_id x))"
proof -
  obtain first where "find (pending ob (me_modelId ev)) (q_events ob) = Some first" "me_operation first = CreateOp" "me_operation ev = DeleteOp"
    using assms by (auto simp: cancels_def split: option.splits)
  then have "enqueue ev ob = q_delete_where (pending ob (me_modelId ev)) ob" by (simp add: enqueue_def)
  then have "q_events (enqueue ev ob) = filter (\<lambda>x. \<not> pending ob (me_modelId ev) x) (q_events ob)"
    by (simp add: q_delete_where_def q_events_def filter_map comp_def case_prod_unfold)
  then show ?thesis unfolding image_iff by (simp only: set_filter pending_def) force
qed

text \<open>
  C10. No page of the service, whatever it holds, touches a record whose local change (a creation, an update or a deletion)
  is queued. The one change that is not queued is a deletion that cancels a creation still pending, with no mutation of the
  record in flight: then nothing is left to be sent, and the record becomes what the pages say.
\<close>

theorem local_change_survives_sync:
  fixes J :: js_env and sms :: "string \<Rightarrow> schema_model" and m :: string and element :: model
  defines "k \<equiv> getIdentifierValue J (sms m) element"
  shows "map_of (en_store (handle_pages J sms now evs (on_storage_event J sms online opType m element condition i e)) m) k =
    (if cancels (createMutationInstance J (sms m) opType m element condition i) (en_outbox e) \<and>
        \<not> (\<exists>x \<in> set (q_events (en_outbox e)). me_modelId x = k \<and> inProgress (en_outbox e) = Some (me_id x))
     then sent_record J (sms m) (items_of m evs) k (map_of (en_store e m) k)
     else map_of (en_store e m) k)"
proof -
  let ?ev = "createMutationInstance J (sms m) opType m element condition i"
  have k: "me_modelId ?ev = k" by (simp add: k_def createMutationInstance_def)
  have "k \<in> set (getModelIds (en_outbox (on_storage_event J sms online opType m element condition i e))) \<longleftrightarrow>
      \<not> cancels ?ev (en_outbox e) \<or> (\<exists>x \<in> set (q_events (en_outbox e)). me_modelId x = k \<and> inProgress (en_outbox e) = Some (me_id x))"
    using enqueued_in_queue [of ?ev "en_outbox e"] cancelled_in_queue [of ?ev "en_outbox e"] unfolding k
    by (auto simp: on_storage_event_def getModelIds_def)
  moreover have "en_store (on_storage_event J sms online opType m element condition i e) = en_store e"
    by (simp add: on_storage_event_def)
  ultimately show ?thesis by (auto simp: handle_pages_store)
qed

section \<open>After a synchronisation\<close>

lemma handle_pages_metadata:
  assumes "map_of (en_metadata e) m = Some md" "map se_done evs = replicate (length evs - 1) False @ [True]"
    "list_all (\<lambda>ev. se_model ev = m \<and> se_startedAt ev = Some t \<and> se_isFullSync ev = full) evs"
  shows "map_of (en_metadata (handle_pages J sms now evs e)) m =
    Some (md\<lparr>mm_lastSync := Some t, mm_lastFullSync := (if full then Some t else mm_lastFullSync md)\<rparr>)"
  using assms
proof (induction evs arbitrary: e)
  case (Cons ev evs)
  show ?case
  proof (cases evs)
    case Nil
    then show ?thesis using Cons.prems by (simp add: handle_page_metadata)
  next
    case (Cons ev' evs')
    then have "\<not> se_done ev" "map se_done evs = replicate (length evs - 1) False @ [True]"
      using Cons.prems(2) by simp_all
    moreover have "map_of (en_metadata (snd (handle_page J sms now now ev e))) m = Some md"
      using Cons.prems(1) \<open>\<not> se_done ev\<close> by (simp add: handle_page_metadata)
    ultimately show ?thesis using Cons.IH Cons.prems(3) by simp
  qed
qed simp

lemma sync_turn_full: "sync_turn E m lastSync c s = Some (ev, c1, s1) \<Longrightarrow> se_isFullSync ev = isFullSync lastSync"
  by (auto simp: sync_turn_def Let_def split: option.splits prod.splits)

lemma sync_model_full:
  assumes "sync_model E m lastSync c evs s = Some y"
  shows "\<exists>es. fst y = evs @ es \<and> list_all (\<lambda>ev. se_model ev = m \<and> se_isFullSync ev = isFullSync lastSync) es"
proof (induction rule: sync_model.raw_induct [OF _ assms])
  case (1 rec E m lastSync c evs s y)
  show ?case
  proof (cases "sy_closing E (snd s)")
    case True
    then show ?thesis using 1(2) by auto
  next
    case False
    obtain ev c1 s1 where t: "sync_turn E m lastSync c s = Some (ev, c1, s1)"
      using 1(2) False by (auto split: option.splits)
    note ev = sync_turn_model [OF t] sync_turn_full [OF t]
    show ?thesis
    proof (cases "se_done ev")
      case True
      then show ?thesis using 1(2) False t ev by auto
    next
      case more: False
      then have "rec E m lastSync c1 (evs @ [ev]) s1 = Some y" using 1(2) False t by simp
      from 1(1) [OF this] obtain es where es: "fst y = (evs @ [ev]) @ es"
        "list_all (\<lambda>ev. se_model ev = m \<and> se_isFullSync ev = isFullSync lastSync) es" by blast
      then show ?thesis using ev by (intro exI [of _ "ev # es"]) simp
    qed
  qed
qed

text \<open>What is synchronised of a service that answers, as the events tell it.\<close>

lemma served_events:
  assumes "serving records t E" "0 < sy_pageSize E" "0 \<le> sy_maxRecordsToSync E"
  obtains es where "sync_model E m lastSync first_page [] s = Some (es, s)"
    "items_of m es = take (nat (sy_maxRecordsToSync E)) (records m)"
    "map se_done es = replicate (length es - 1) False @ [True]"
    "list_all (\<lambda>e. se_model e = m \<and> se_startedAt e = Some t \<and> se_isFullSync e = isFullSync lastSync) es"
proof -
  obtain es where es: "sync_model E m lastSync first_page [] s = Some (es, s)"
    "concat (map se_items es) = take (nat (sy_maxRecordsToSync E)) (records m)"
    "map se_done es = replicate (length es - 1) False @ [True]"
    "list_all (\<lambda>e. se_model e = m \<and> se_startedAt e = Some t \<and> int (length (se_items e)) \<le> sy_pageSize E) es"
    using serving_model [OF assms(1,2), of 0 first_page m lastSync "[]" s] assms(3)
    by (auto simp: cursor_at_def first_page_def)
  have "filter (\<lambda>e. se_model e = m) es = es" using es(4) by (simp add: list_all_iff)
  then have "items_of m es = take (nat (sy_maxRecordsToSync E)) (records m)" using es(2) by (simp add: items_of_def)
  moreover have "list_all (\<lambda>e. se_model e = m \<and> se_startedAt e = Some t \<and> se_isFullSync e = isFullSync lastSync) es"
    using sync_model_full [OF es(1)] es(4) by (auto simp: list_all_iff)
  ultimately show ?thesis using that es(1,3) by blast
qed

text \<open>
  C5. Processor, engine and store together: when a model has been synchronised with a service that answers, the store
  holds every record the service has sent, of several under one key the last, none that is marked deleted; the
  records with queued mutations are as they were.
\<close>

theorem sync_mirrors_service:
  assumes "serving records t E" "0 < sy_pageSize E" "0 \<le> sy_maxRecordsToSync E"
  shows "\<exists>es. sync_model E m lastSync first_page [] s = Some (es, s) \<and>
    (\<forall>k. map_of (en_store (handle_pages J sms now es e) m) k =
      (if k \<in> set (getModelIds (en_outbox e)) then map_of (en_store e m) k
       else sent_record J (sms m) (take (nat (sy_maxRecordsToSync E)) (records m)) k (map_of (en_store e m) k)))"
proof -
  obtain es where "sync_model E m lastSync first_page [] s = Some (es, s)"
    "items_of m es = take (nat (sy_maxRecordsToSync E)) (records m)"
    using served_events [OF assms, of m lastSync s] by metis
  then show ?thesis by (intro exI [of _ es]) (simp add: handle_pages_store)
qed

text \<open>
  A model that has been synchronised in full at the time \<open>t\<close> is asked for the changes since \<open>t\<close> until its interval
  has passed, and in full afterwards.
\<close>

theorem next_round_asks_for_changes:
  assumes "serving records t E" "0 < sy_pageSize E" "0 \<le> sy_maxRecordsToSync E" "isFullSync lastSync"
    "map_of (en_metadata e) m = Some md" "t \<noteq> 0"
  shows "\<exists>es. sync_model E m lastSync first_page [] s = Some (es, s) \<and>
    map_of (fst (sync_round later (handle_pages J sms now es e))) m =
      Some (Some (if t + mm_fullSyncInterval md < later then 0 else t))"
proof -
  obtain es where es: "sync_model E m lastSync first_page [] s = Some (es, s)"
    and "items_of m es = take (nat (sy_maxRecordsToSync E)) (records m)"
    and done_last: "map se_done es = replicate (length es - 1) False @ [True]"
    and events: "list_all (\<lambda>e. se_model e = m \<and> se_startedAt e = Some t \<and> se_isFullSync e = isFullSync lastSync) es"
    by (rule served_events [OF assms(1-3), of m lastSync s])
  have "map_of (en_metadata (handle_pages J sms now es e)) m = Some (md\<lparr>mm_lastSync := Some t, mm_lastFullSync := Some t\<rparr>)"
    using handle_pages_metadata [OF assms(5) done_last events] assms(4) by simp
  then show ?thesis using es assms(6)
    by (intro exI [of _ es]) (simp add: sync_round_def getModelsMetadataWithNextFullSync_def map_of_map syncFrom_def case_prod_beta)
qed

text \<open>
  C23. A synchronisation that failed is not taken for one that found nothing: when the network is away at the first
  page, nothing changes in the store, and the next round asks for the model in full.
\<close>

theorem failed_sync_starts_over:
  assumes "fails_at E m None" "map_of (en_metadata e) m = Some md"
  shows "\<exists>es s1. sync_model E m lastSync first_page [] s = Some (es, s1) \<and>
    en_store (handle_pages J sms now es e) m = en_store e m \<and>
    (\<exists>from. map_of (fst (sync_round later (handle_pages J sms now es e))) m = Some from \<and> isFullSync from)"
proof -
  let ?v = "\<lparr>sv_limit = min (sy_maxRecordsToSync E - 0) (sy_pageSize E), sv_nextToken = None, sv_lastSync = lastSync\<rparr>"
  obtain s1 where s1: "retrievePage E m ?v s = Some (Inl (Some network_failure), s1)"
    using failing_page [of E m ?v s] assms(1) by auto
  let ?ev = "\<lparr>se_model = m, se_items = [], se_done = True, se_startedAt = None, se_isFullSync = isFullSync lastSync\<rparr>"
  have "\<exists>c s2. sync_turn E m lastSync first_page s = Some (?ev, c, s2)"
    using s1 by (simp add: sync_turn_def first_page_def Let_def)
  then obtain c s2 where turn: "sync_turn E m lastSync first_page s = Some (?ev, c, s2)" by blast
  have run: "sync_model E m lastSync first_page [] s = Some ([?ev], s2)"
    using turn assms(1) by (subst sync_model.simps) (simp add: fails_at_def)
  have "map_of (en_metadata (handle_pages J sms now [?ev] e)) m =
      Some (md\<lparr>mm_lastSync := None, mm_lastFullSync := (if isFullSync lastSync then None else mm_lastFullSync md)\<rparr>)"
    using assms(2) by (simp add: handle_page_metadata)
  moreover have "isFullSync (syncFrom later (md\<lparr>mm_lastSync := None, mm_lastFullSync := f\<rparr>))" for f
    by (simp add: syncFrom_def isFullSync_def split: option.split)
  ultimately have "\<exists>from. map_of (fst (sync_round later (handle_pages J sms now [?ev] e))) m = Some from \<and> isFullSync from"
    by (simp add: sync_round_def getModelsMetadataWithNextFullSync_def map_of_map case_prod_beta)
  moreover have "en_store (handle_pages J sms now [?ev] e) m = en_store e m"
    by (simp add: merge_items_def mergePage_def)
  ultimately show ?thesis using run by (intro exI [of _ "[?ev]"] exI [of _ s2]) (rule conjI, assumption, rule conjI)
qed

section \<open>Starting\<close>

lemma setup_model_other [simp]: "m \<noteq> n \<Longrightarrow> map_of (setup_model interval n p mds) m = map_of mds m"
  by (simp add: setup_model_def update_conv Let_def split: option.split)

lemma setupModels_other: "m \<notin> fst ` set models \<Longrightarrow> map_of (setupModels interval models mds) m = map_of mds m"
proof (induction models arbitrary: mds)
  case (Cons a models)
  then show ?case by (cases a) (simp add: setupModels_def)
qed (simp add: setupModels_def)

lemma setupModels_one:
  assumes "distinct (map fst models)" "(m, p) \<in> set models"
  shows "map_of (setupModels interval models mds) m = map_of (setup_model interval m p mds) m"
  using assms
proof (induction models arbitrary: mds)
  case (Cons a models)
  obtain n q where a: "a = (n, q)" by fastforce
  have fold: "setupModels interval (a # models) mds = setupModels interval models (setup_model interval n q mds)"
    by (simp add: setupModels_def a)
  show ?case
  proof (cases "n = m")
    case True
    then have "m \<notin> fst ` set models" using Cons.prems(1) a by simp
    moreover have "q = p" using True Cons.prems a \<open>m \<notin> fst ` set models\<close> by force
    ultimately show ?thesis using fold True by (simp add: setupModels_other)
  next
    case False
    then have "map_of (setup_model interval n q mds) m = map_of mds m" by simp
    then have "map_of (setup_model interval m p (setup_model interval n q mds)) m = map_of (setup_model interval m p mds) m"
      by (simp add: setup_model_def update_conv Let_def split: option.split)
    then show ?thesis using Cons fold False a by simp
  qed
qed simp

text \<open>
  A start asks for a model in full when it is new or its sync expression has changed, however recent the last
  synchronisation is; otherwise it goes on from the last synchronisation, with the interval of the new configuration.
\<close>

theorem changed_expression_starts_over:
  assumes "distinct (map fst models)" "(m, p) \<in> set models" "p \<noteq> Some []"
  shows "map_of (getModelsMetadataWithNextFullSync now (setupModels interval models mds)) m =
    Some (case map_of mds m of
      None \<Rightarrow> Some 0
    | Some md \<Rightarrow> if (if mm_lastSyncPredicate md = Some [] then None else mm_lastSyncPredicate md) \<noteq> p then Some 0
                else syncFrom now (md\<lparr>mm_fullSyncInterval := interval\<rparr>))"
  by (auto simp: getModelsMetadataWithNextFullSync_def map_of_map case_prod_beta setupModels_one [OF assms(1,2)]
      setup_model_def update_conv syncFrom_def nonempty_def Let_def split: option.split)

section \<open>Between the rounds\<close>

text \<open>
  After the full synchronisation of a schema with a single model, made because the interval had passed, the time
  to the next round is computed from the full synchronisation before it: it is negative, and the engine starts again
  at once.
\<close>

theorem single_model_is_synced_twice:
  assumes "en_paginating e = [m]" "en_counts e = []" "en_lastStartedAt e = None" "en_lastFullSyncStartedAt e = None"
    "map_of (en_metadata e) m = Some md" "mm_lastFullSync md = Some t0" "t0 \<noteq> 0" "t0 + mm_fullSyncInterval md < t"
    "se_model ev = m" "se_done ev" "se_startedAt ev = Some t" "now \<le> later"
  shows "\<exists>ms. msNextFullSync (snd (handle_page J sms now later ev e)) = Some ms \<and> ms < 0"
  using assms
  by (simp add: handle_page_def complete_model_def begin_model_def merge_event_def case_prod_beta Let_def
      msNextFullSync_def later_of_def null_as_zero_def)

text \<open>A disruption leads to one sync when the connection is back, however often it is reported.\<close>

lemma disruption_schedules_one_sync:
  assumes "set cs \<subseteq> {ConnectionDisrupted, OtherState}"
  shows "scheduledSyncs (fold on_connection_state (cs @ [Connected]) d) =
    scheduledSyncs d + (if connectionDisrupted d \<or> ConnectionDisrupted \<in> set cs then 1 else 0)"
  using assms
proof (induction cs arbitrary: d)
  case (Cons c cs)
  then show ?case by (cases c) (auto simp: on_connection_state_def)
qed (simp add: on_connection_state_def)

section \<open>Examples\<close>

definition demo_engine :: engine where
  "demo_engine = \<lparr>en_outbox = \<lparr>inProgress = None, queue = []\<rparr>, en_store = (\<lambda>m. []),
     en_metadata = [(''Post'', \<lparr>mm_lastSync = Some 3, mm_lastFullSync = Some 3, mm_fullSyncInterval = 10,
       mm_lastSyncPredicate = None\<rparr>)],
     en_synced = [], en_messages = [], en_resumed = 0, en_counts = [], en_paginating = [''Post''], en_lastStartedAt = None,
     en_lastFullSyncStartedAt = None, en_syncInterval = None, en_begun = 0, en_syncDuration = None\<rparr>"

theorem local_change_survives_sync_witness:
  "map_of (en_store (handle_pages demo_js (\<lambda>m. demo_schema) 0
      [\<lparr>se_model = ''Post'', se_items = [[(''id'', JStr ''1'')]], se_done = True, se_startedAt = Some 1, se_isFullSync = True\<rparr>]
      (on_storage_event demo_js (\<lambda>m. demo_schema) True DELETE ''Post'' [(''id'', JStr ''1'')] [] ''e'' demo_engine)) ''Post'')
    (getIdentifierValue demo_js demo_schema [(''id'', JStr ''1'')]) = None"
  by (subst local_change_survives_sync) (simp_all add: demo_engine_def cancels_def q_events_def)

theorem sync_mirrors_service_witness:
  "\<exists>es. sync_model demo_sync_env ''Post'' None first_page [] ([], ()) = Some (es, ([], ())) \<and>
    map_of (en_store (handle_pages demo_js (\<lambda>m. demo_schema) 0 es demo_engine) ''Post'')
      (getIdentifierValue demo_js demo_schema [(''id'', JStr ''Post'')]) = Some [(''id'', JStr ''Post'')]"
proof -
  obtain es where es: "sync_model demo_sync_env ''Post'' None first_page [] ([], ()) = Some (es, ([], ()))"
    "\<forall>k. map_of (en_store (handle_pages demo_js (\<lambda>m. demo_schema) 0 es demo_engine) ''Post'') k =
      (if k \<in> set (getModelIds (en_outbox demo_engine)) then map_of (en_store demo_engine ''Post'') k
       else sent_record demo_js demo_schema (take (nat (sy_maxRecordsToSync demo_sync_env)) [[(''id'', JStr ''Post'')]]) k
         (map_of (en_store demo_engine ''Post'') k))"
    using sync_mirrors_service [OF demo_serving, of "''Post''" None "([], ())" demo_js "\<lambda>m. demo_schema" 0 demo_engine]
    by (auto simp: demo_sync_env_def)
  have "is_deleted [(''id'', JStr ''Post'')] = False" by (simp add: is_deleted_def field_of_def)
  then show ?thesis using es
    by (intro exI [of _ es]) (simp add: demo_engine_def getModelIds_def q_events_def sent_record_def demo_sync_env_def)
qed

theorem next_round_asks_for_changes_witness:
  "\<exists>es. sync_model demo_sync_env ''Post'' None first_page [] ([], ()) = Some (es, ([], ())) \<and>
    map_of (fst (sync_round 20 (handle_pages demo_js (\<lambda>m. demo_schema) 0 es demo_engine))) ''Post'' = Some (Some 0)"
  using next_round_asks_for_changes [OF demo_serving, of None demo_engine "''Post''"
      "\<lparr>mm_lastSync = Some 3, mm_lastFullSync = Some 3, mm_fullSyncInterval = 10, mm_lastSyncPredicate = None\<rparr>"
      "([], ())" 20 demo_js "\<lambda>m. demo_schema" 0]
  by (simp add: demo_sync_env_def isFullSync_def) (simp add: demo_engine_def)

theorem failed_sync_starts_over_witness:
  "\<exists>es s1. sync_model (demo_sync_env\<lparr>sy_graphql := (\<lambda>m mode v w. (Inl network_failure, w))\<rparr>) ''Post'' (Some 3) first_page [] ([], ()) = Some (es, s1) \<and>
    (\<exists>from. map_of (fst (sync_round 5 (handle_pages demo_js (\<lambda>m. demo_schema) 0 es demo_engine))) ''Post'' = Some from \<and> isFullSync from)"
proof -
  have "fails_at (demo_sync_env\<lparr>sy_graphql := (\<lambda>m mode v w. (Inl network_failure, w))\<rparr>) ''Post'' None"
    by (simp add: fails_at_def demo_sync_env_def)
  from failed_sync_starts_over [OF this, of demo_engine] show ?thesis by (simp add: demo_engine_def) blast
qed

theorem changed_expression_starts_over_witness:
  "map_of (getModelsMetadataWithNextFullSync 5 (setupModels 10 [(''Post'', Some ''p'')] (en_metadata demo_engine))) ''Post'' = Some (Some 0)"
  by (subst changed_expression_starts_over [where p = "Some ''p''"]) (simp_all add: demo_engine_def)

theorem single_model_is_synced_twice_witness:
  "\<exists>ms. msNextFullSync (snd (handle_page demo_js (\<lambda>m. demo_schema) 20 21
      \<lparr>se_model = ''Post'', se_items = [], se_done = True, se_startedAt = Some 20, se_isFullSync = True\<rparr> demo_engine)) = Some ms \<and> ms < 0"
  by (rule single_model_is_synced_twice [where m = "''Post''" and t = 20 and ?t0.0 = 3
      and md = "\<lparr>mm_lastSync = Some 3, mm_lastFullSync = Some 3, mm_fullSyncInterval = 10, mm_lastSyncPredicate = None\<rparr>"]) (simp_all add: demo_engine_def)

end
