(* ===== verification/ScalarTypes.thy ===== *)
theory ScalarTypes
  imports JsValue
begin

text \<open>
  The scalar types of GraphQL: which JavaScript type their values have (\<open>getJSType\<close> in \<open>datastore/src/types.ts\<close>) and
  the patterns their texts must match (\<open>isAWSDate\<close> and so on in \<open>datastore/src/util.ts\<close>). The patterns are regular
  expressions with their language; they are matched by derivatives. \<open>JSON.parse\<close> and the constructor of URLs are
  parameters.
\<close>

section \<open>Regular expressions\<close>

datatype rx = RNone | REps | RChar "char \<Rightarrow> bool" | RSeq rx rx | RAlt rx rx | RStar rx

fun nullable :: "rx \<Rightarrow> bool" where
  "nullable RNone = False"
| "nullable REps = True"
| "nullable (RChar p) = False"
| "nullable (RSeq a b) = (nullable a \<and> nullable b)"
| "nullable (RAlt a b) = (nullable a \<or> nullable b)"
| "nullable (RStar a) = True"

fun deriv :: "char \<Rightarrow> rx \<Rightarrow> rx" where
  "deriv c RNone = RNone"
| "deriv c REps = RNone"
| "deriv c (RChar p) = (if p c then REps else RNone)"
| "deriv c (RSeq a b) = (if nullable a then RAlt (RSeq (deriv c a) b) (deriv c b) else RSeq (deriv c a) b)"
| "deriv c (RAlt a b) = RAlt (deriv c a) (deriv c b)"
| "deriv c (RStar a) = RSeq (deriv c a) (RStar a)"

definition rx_match :: "rx \<Rightarrow> string \<Rightarrow> bool" where
  "rx_match r s = nullable (fold deriv s r)"

text \<open>The texts of a pattern.\<close>

inductive in_rx :: "rx \<Rightarrow> string \<Rightarrow> bool" where
  "in_rx REps []"
| "p c \<Longrightarrow> in_rx (RChar p) [c]"
| "in_rx a s \<Longrightarrow> in_rx b t \<Longrightarrow> in_rx (RSeq a b) (s @ t)"
| "in_rx a s \<Longrightarrow> in_rx (RAlt a b) s"
| "in_rx b s \<Longrightarrow> in_rx (RAlt a b) s"
| "in_rx (RStar a) []"
| "in_rx a s \<Longrightarrow> in_rx (RStar a) t \<Longrightarrow> in_rx (RStar a) (s @ t)"

inductive_cases in_rx_elims: "in_rx RNone s" "in_rx REps s" "in_rx (RChar p) s" "in_rx (RAlt a b) s"
inductive_cases in_seqE: "in_rx (RSeq a b) s"

lemma in_RNone [simp]: "\<not> in_rx RNone s" by (auto elim: in_rx_elims)
lemma in_REps [simp]: "in_rx REps s \<longleftrightarrow> s = []" by (auto elim: in_rx_elims intro: in_rx.intros)
lemma in_RChar [simp]: "in_rx (RChar p) s \<longleftrightarrow> (\<exists>c. s = [c] \<and> p c)" by (auto elim: in_rx_elims intro: in_rx.intros)
lemma in_RSeq: "in_rx (RSeq a b) s \<longleftrightarrow> (\<exists>t u. s = t @ u \<and> in_rx a t \<and> in_rx b u)"
proof
  assume "in_rx (RSeq a b) s"
  then show "\<exists>t u. s = t @ u \<and> in_rx a t \<and> in_rx b u" by (cases rule: in_rx.cases) auto
qed (auto intro: in_rx.intros)
lemma in_RAlt [simp]: "in_rx (RAlt a b) s \<longleftrightarrow> in_rx a s \<or> in_rx b s" by (auto elim: in_rx_elims intro: in_rx.intros)

lemma nullable_in: "nullable r \<longleftrightarrow> in_rx r []"
  by (induction r) (auto simp: in_RSeq intro: in_rx.intros)

lemma star_Cons:
  assumes "in_rx (RStar a) s" "s = c # w"
  shows "\<exists>t u. w = t @ u \<and> in_rx a (c # t) \<and> in_rx (RStar a) u"
  using assms
proof (induction "RStar a" s arbitrary: w rule: in_rx.induct)
  case (7 s t)
  then show ?case by (cases s) auto
qed simp_all

lemma deriv_in: "in_rx (deriv c r) w \<longleftrightarrow> in_rx r (c # w)"
proof (induction r arbitrary: w)
  case (RSeq a b)
  have "in_rx (RSeq a b) (c # w) \<longleftrightarrow> (\<exists>t u. w = t @ u \<and> in_rx a (c # t) \<and> in_rx b u) \<or> (in_rx a [] \<and> in_rx b (c # w))"
    by (auto simp: in_RSeq Cons_eq_append_conv)
  then show ?case using RSeq by (auto simp: in_RSeq nullable_in)
next
  case (RStar a)
  show ?case
  proof
    assume "in_rx (deriv c (RStar a)) w"
    then obtain t u where "w = t @ u" "in_rx a (c # t)" "in_rx (RStar a) u" using RStar by (auto simp: in_RSeq)
    then show "in_rx (RStar a) (c # w)" using in_rx.intros(7) [of a "c # t" u] by simp
  next
    assume "in_rx (RStar a) (c # w)"
    then show "in_rx (deriv c (RStar a)) w" using star_Cons RStar by (auto simp: in_RSeq)
  qed
qed auto

theorem rx_match_iff: "rx_match r s \<longleftrightarrow> in_rx r s"
  unfolding rx_match_def by (induction s arbitrary: r) (simp_all add: nullable_in deriv_in)

section \<open>Patterns\<close>

definition rx_char :: "char \<Rightarrow> rx" where
  "rx_char c = RChar (\<lambda>x. x = c)"

fun rx_seq :: "rx list \<Rightarrow> rx" where
  "rx_seq [] = REps"
| "rx_seq [r] = r"
| "rx_seq (r # rs) = RSeq r (rx_seq rs)"

fun rx_alts :: "rx list \<Rightarrow> rx" where
  "rx_alts [] = RNone"
| "rx_alts [r] = r"
| "rx_alts (r # rs) = RAlt r (rx_alts rs)"

definition rx_opt :: "rx \<Rightarrow> rx" where
  "rx_opt r = RAlt r REps"

definition rx_plus :: "rx \<Rightarrow> rx" where
  "rx_plus r = RSeq r (RStar r)"

fun rx_times :: "nat \<Rightarrow> rx \<Rightarrow> rx" where
  "rx_times 0 r = REps"
| "rx_times (Suc n) r = RSeq r (rx_times n r)"

text \<open>Between \<open>m\<close> and \<open>m + n\<close> times.\<close>

fun rx_between :: "nat \<Rightarrow> nat \<Rightarrow> rx \<Rightarrow> rx" where
  "rx_between 0 0 r = REps"
| "rx_between 0 (Suc n) r = rx_opt (RSeq r (rx_between 0 n r))"
| "rx_between (Suc m) n r = RSeq r (rx_between m n r)"

definition in_range :: "char \<Rightarrow> char \<Rightarrow> char \<Rightarrow> bool" where
  "in_range a b c \<longleftrightarrow> (of_char a :: nat) \<le> of_char c \<and> of_char c \<le> (of_char b :: nat)"

definition is_digit :: "char \<Rightarrow> bool" where "is_digit = in_range (CHR ''0'') (CHR ''9'')"
definition is_hex :: "char \<Rightarrow> bool" where
  "is_hex c \<longleftrightarrow> is_digit c \<or> in_range (CHR ''A'') (CHR ''F'') c \<or> in_range (CHR ''a'') (CHR ''f'') c"
definition is_alnum :: "char \<Rightarrow> bool" where
  "is_alnum c \<longleftrightarrow> is_digit c \<or> in_range (CHR ''A'') (CHR ''Z'') c \<or> in_range (CHR ''a'') (CHR ''z'') c"

text \<open>Of the characters of one byte \<open>\s\<close> stands for tab, line feed, vertical tab, form feed, return, blank and the
  no-break space, and the dot for any but the ends of a line.\<close>

definition is_space :: "char \<Rightarrow> bool" where
  "is_space c \<longleftrightarrow> (of_char c :: nat) \<in> {9, 10, 11, 12, 13, 32, 160}"
definition not_line_end :: "char \<Rightarrow> bool" where
  "not_line_end c \<longleftrightarrow> (of_char c :: nat) \<notin> {10, 13}"

abbreviation digit :: rx where "digit \<equiv> RChar is_digit"

definition rx_zone :: rx where
  "rx_zone = rx_opt (RAlt (rx_char CHR ''Z'') (rx_seq [RChar (\<lambda>c. c \<in> {CHR ''+'', CHR ''-''}), rx_times 2 digit, rx_char CHR '':'',
     rx_times 2 digit, RAlt REps (rx_seq [rx_char CHR '':'', rx_times 2 digit])]))"

definition rx_date :: rx where
  "rx_date = rx_seq [rx_times 4 digit, rx_char CHR ''-'', rx_times 2 digit, rx_char CHR ''-'', rx_times 2 digit]"

definition rx_time :: rx where
  "rx_time = rx_seq [rx_times 2 digit, rx_char CHR '':'', rx_times 2 digit,
     rx_opt (rx_seq [rx_char CHR '':'', rx_times 2 digit, rx_opt (rx_seq [RChar not_line_end, rx_plus digit])])]"

definition isAWSDate :: "string \<Rightarrow> bool" where "isAWSDate = rx_match (rx_seq [rx_date, rx_zone])"
definition isAWSTime :: "string \<Rightarrow> bool" where "isAWSTime = rx_match (rx_seq [rx_time, rx_zone])"
definition isAWSDateTime :: "string \<Rightarrow> bool" where
  "isAWSDateTime = rx_match (rx_seq [rx_date, rx_char CHR ''T'', rx_time, rx_zone])"

definition isAWSTimestamp :: "js_env \<Rightarrow> rat \<Rightarrow> bool" where
  "isAWSTimestamp J n = rx_match (rx_plus digit) (numberToString J n)"

definition rx_label :: rx where
  "rx_label = RSeq (RChar is_alnum)
     (rx_opt (RSeq (rx_between 0 61 (RChar (\<lambda>c. is_alnum c \<or> c = CHR ''-''))) (RChar is_alnum)))"

definition isAWSEmail :: "string \<Rightarrow> bool" where
  "isAWSEmail = rx_match (rx_seq [rx_plus (RChar (\<lambda>c. is_alnum c \<or> c \<in> set ''.!#$%&*+/=?^_{|}~-'' \<or> (of_char c :: nat) \<in> {39, 96})),
     rx_char CHR ''@'', rx_label, RStar (RSeq (rx_char CHR ''.'') rx_label)])"

definition isAWSPhone :: "string \<Rightarrow> bool" where
  "isAWSPhone = rx_match (rx_seq [rx_opt (rx_char CHR ''+''), digit, rx_plus (RChar (\<lambda>c. is_digit c \<or> is_space c \<or> c = CHR ''-''))])"

text \<open>The two ways an octet is written are the same texts in another order.\<close>

definition rx_octet4 :: rx where
  "rx_octet4 = rx_alts [digit, RSeq (RChar (in_range CHR ''1'' CHR ''9'')) digit, RSeq (rx_char CHR ''1'') (rx_times 2 digit),
     rx_seq [rx_char CHR ''2'', RChar (in_range CHR ''0'' CHR ''4''), digit],
     rx_seq [rx_char CHR ''2'', rx_char CHR ''5'', RChar (in_range CHR ''0'' CHR ''5'')]]"

definition rx_octet6 :: rx where
  "rx_octet6 = rx_alts [rx_seq [rx_char CHR ''2'', rx_char CHR ''5'', RChar (in_range CHR ''0'' CHR ''5'')],
     rx_seq [rx_char CHR ''2'', RChar (in_range CHR ''0'' CHR ''4''), digit],
     rx_seq [rx_char CHR ''1'', digit, digit], RSeq (rx_opt (RChar (in_range CHR ''1'' CHR ''9''))) digit]"

definition rx_ipv4 :: rx where
  "rx_ipv4 = RSeq (rx_times 3 (RSeq rx_octet4 (rx_char CHR ''.''))) rx_octet4"

definition rx_mapped4 :: rx where
  "rx_mapped4 = RSeq rx_octet6 (rx_times 3 (RSeq (rx_char CHR ''.'') rx_octet6))"

definition rx_group6 :: rx where "rx_group6 = rx_between 1 3 (RChar is_hex)"

text \<open>The alternatives with \<open>n\<close> groups before the colons: groups, an IPv4 address, or nothing after them.\<close>

definition rx_ipv6_case :: "nat \<Rightarrow> rx" where
  "rx_ipv6_case n = RSeq (rx_times n (RSeq rx_group6 (rx_char CHR '':'')))
     (rx_alts [rx_between 1 (6 - n) (RSeq (rx_char CHR '':'') rx_group6),
       rx_seq [rx_between 0 (5 - n) (RSeq (rx_char CHR '':'') rx_group6), rx_char CHR '':'', rx_mapped4],
       rx_char CHR '':''])"

definition rx_ipv6 :: rx where
  "rx_ipv6 = RSeq (rx_alts ([RSeq (rx_times 7 (RSeq rx_group6 (rx_char CHR '':''))) (RAlt rx_group6 (rx_char CHR '':'')),
      RSeq (rx_times 6 (RSeq rx_group6 (rx_char CHR '':'')))
        (rx_alts [RSeq (rx_char CHR '':'') rx_group6, rx_mapped4, rx_char CHR '':''])] @
      map rx_ipv6_case [5, 4, 3, 2, 1] @
      [RSeq (rx_char CHR '':'') (rx_alts [rx_between 1 6 (RSeq (rx_char CHR '':'') rx_group6),
        rx_seq [rx_between 0 5 (RSeq (rx_char CHR '':'') rx_group6), rx_char CHR '':'', rx_mapped4], rx_char CHR '':''])]))
     (rx_opt (RSeq (rx_char CHR ''%'') (rx_plus (RChar not_line_end))))"

definition isAWSIPAddress :: "string \<Rightarrow> bool" where
  "isAWSIPAddress = rx_match (RAlt rx_ipv4 rx_ipv6)"

end
