(* ===== verification/ModelValidation.thy ===== *)
theory ModelValidation
  imports ScalarTypes DataStoreKeys
begin

text \<open>
  What a field of a model may hold (\<open>validateModelFields\<close> and \<open>castInstanceType\<close> in
  \<open>datastore/src/datastore/datastore.ts\<close>, the scalar types in \<open>types.ts\<close>). The parser of JSON and the constructor of
  URLs are fields of \<open>validation_env\<close>; a thrown error is one of \<open>field_error\<close>.
\<close>

section \<open>Definitions of fields\<close>

datatype field_type = ScalarType string | EnumType string | ModelType string | NonModelType string

record field_def =
  fd_name :: string
  fd_type :: field_type
  fd_isRequired :: bool
  fd_isArray :: bool
  fd_isArrayNullable :: bool
  fd_isReadOnly :: bool

text \<open>
  A model has a plural name, a type that is not a model has none. Of a field for a related model the pairs of local
  and remote join fields are known, \<open>None\<close> when the relationship is not complete.
\<close>

record type_def =
  td_name :: string
  td_pluralName :: "string option"
  td_fields :: "(string, field_def) omap"
  td_attributes :: "model_attribute list option"
  td_syncable :: bool
  td_relations :: "(string, (string \<times> string) list option) omap"

record validation_env =
  ve_js :: js_env
  ve_json :: "string \<Rightarrow> jsval option"
  ve_url :: "string \<Rightarrow> bool"

definition isSchemaModelWithAttributes :: "type_def \<Rightarrow> bool" where
  "isSchemaModelWithAttributes td \<longleftrightarrow> td_pluralName td \<noteq> None \<and> td_attributes td \<noteq> None"

text \<open>The helpers on keys and timestamps look at the attributes only.\<close>

definition attribute_schema :: "type_def \<Rightarrow> schema_model" where
  "attribute_schema td = \<lparr>sm_fields = [], sm_attributes = td_attributes td\<rparr>"

definition key_schema :: "type_def \<Rightarrow> schema_model option" where
  "key_schema td = Some (attribute_schema td)"

text \<open>
  The names that count as timestamps are the keys of the object \<open>getTimestampFields\<close> returns, which are the default
  names; custom names are its values.
\<close>

definition isTimestampField :: "type_def \<Rightarrow> string \<Rightarrow> bool" where
  "isTimestampField td name \<longleftrightarrow> isSchemaModelWithAttributes td \<and>
     (let (createdAt, updatedAt) = getTimestampFields (attribute_schema td)
      in name = ''createdAt'' \<and> createdAt \<noteq> [] \<or> name = ''updatedAt'' \<and> updatedAt \<noteq> [])"

section \<open>Types of values\<close>

fun js_typeof :: "jsval \<Rightarrow> string" where
  "js_typeof JUndefined = ''undefined''"
| "js_typeof (JBool b) = ''boolean''"
| "js_typeof (JNum n) = ''number''"
| "js_typeof (JStr s) = ''string''"
| "js_typeof _ = ''object''"

definition scalar_types :: "string list" where
  "scalar_types = [''ID'', ''String'', ''Int'', ''Float'', ''Boolean'', ''AWSDate'', ''AWSTime'', ''AWSDateTime'', ''AWSTimestamp'',
     ''AWSEmail'', ''AWSJSON'', ''AWSURL'', ''AWSPhone'', ''AWSIPAddress'']"

definition getJSType :: "string \<Rightarrow> string" where
  "getJSType scalar =
     (if scalar = ''Boolean'' then ''boolean''
      else if scalar \<in> {''Int'', ''Float'', ''AWSTimestamp''} then ''number''
      else if scalar = ''AWSJSON'' then ''object''
      else ''string'')"

text \<open>
  The function for a scalar type, on the text of the value: \<open>exec\<close> and \<open>JSON.parse\<close> convert their argument.
\<close>

definition getValidationFunction :: "validation_env \<Rightarrow> string \<Rightarrow> (jsval \<Rightarrow> bool) option" where
  "getValidationFunction V scalar =
     map_option (\<lambda>f v. f (js_toString (ve_js V) v))
       (map_of [(''AWSDate'', isAWSDate), (''AWSTime'', isAWSTime), (''AWSDateTime'', isAWSDateTime),
          (''AWSTimestamp'', rx_match (rx_plus digit)), (''AWSEmail'', isAWSEmail), (''AWSJSON'', \<lambda>t. ve_json V t \<noteq> None),
          (''AWSURL'', ve_url V), (''AWSPhone'', isAWSPhone), (''AWSIPAddress'', isAWSIPAddress)] scalar)"

section \<open>Validation\<close>

datatype field_error =
    RequiredField string | EmptyKey string | NotAnArray string | WrongElements string | InvalidElements string
  | WrongType string | InvalidValue string | InvalidJSON string | ThrownTypeError

fun first_error :: "('a \<Rightarrow> field_error option) \<Rightarrow> 'a list \<Rightarrow> field_error option" where
  "first_error f [] = None"
| "first_error f (x # xs) = (case f x of None \<Rightarrow> first_error f xs | Some e \<Rightarrow> Some e)"

lemma first_error_cong [fundef_cong]:
  "xs = ys \<Longrightarrow> (\<And>x. x \<in> set ys \<Longrightarrow> f x = g x) \<Longrightarrow> first_error f xs = first_error g ys"
  by (induction ys arbitrary: xs) (auto split: option.split)

lemma first_error_None: "first_error f xs = None \<longleftrightarrow> (\<forall>x \<in> set xs. f x = None)"
  by (induction xs) (auto split: option.split)

text \<open>Elements of an array; the methods of arrays are missing on other values, which throws.\<close>

definition check_elements :: "validation_env \<Rightarrow> field_def \<Rightarrow> string \<Rightarrow> jsval list \<Rightarrow> field_error option" where
  "check_elements V fd scalar es =
     (if list_ex (\<lambda>e. if isNullOrUndefined e then fd_isRequired fd else js_typeof e \<noteq> getJSType scalar) es
      then Some (WrongElements (fd_name fd))
      else case getValidationFunction V scalar of
             None \<Rightarrow> None
           | Some f \<Rightarrow> if list_all (\<lambda>e. if isNullOrUndefined e then \<not> fd_isRequired fd else f e) es then None
                       else Some (InvalidElements (fd_name fd)))"

definition check_scalar :: "validation_env \<Rightarrow> field_def \<Rightarrow> string \<Rightarrow> jsval \<Rightarrow> field_error option" where
  "check_scalar V fd scalar v =
     (if scalar = ''AWSJSON'' \<and> js_typeof v = getJSType scalar then None
      else if scalar = ''AWSJSON'' \<and> js_typeof v = ''string'' then
        (case v of JStr s \<Rightarrow> if ve_json V s = None then Some (InvalidJSON (fd_name fd)) else None | _ \<Rightarrow> None)
      else if fd_isArray fd then
        (case v of
           JArr es \<Rightarrow> check_elements V fd scalar es
         | _ \<Rightarrow> if \<not> fd_isArrayNullable fd then Some (NotAnArray (fd_name fd))
                else if isNullOrUndefined v then None
                else Some ThrownTypeError)
      else if \<not> fd_isRequired fd \<and> v = JUndefined then None
      else if js_typeof v \<noteq> getJSType scalar \<and> v \<noteq> JNull then Some (WrongType (fd_name fd))
      else case getValidationFunction V scalar of
             None \<Rightarrow> None
           | Some f \<Rightarrow> if isNullOrUndefined v \<or> f v then None else Some (InvalidValue (fd_name fd)))"

text \<open>The guards before the type is looked at.\<close>

definition check_presence :: "type_def \<Rightarrow> string \<Rightarrow> field_def \<Rightarrow> jsval \<Rightarrow> field_error option" where
  "check_presence td k fd v =
     (if ((\<not> fd_isArray fd \<and> fd_isRequired fd) \<or> (fd_isArray fd \<and> \<not> fd_isArrayNullable fd)) \<and>
         \<not> isTimestampField td (fd_name fd) \<and> isNullOrUndefined v then Some (RequiredField (fd_name fd))
      else if isSchemaModelWithAttributes td \<and> \<not> isIdManaged (key_schema td) \<and>
              k \<in> set (extractPrimaryKeyFieldNames (key_schema td)) \<and> v = JStr [] then Some (EmptyKey k)
      else None)"

text \<open>A member of a value; only plain objects have members here besides the length of arrays.\<close>

fun member :: "jsval \<Rightarrow> string \<Rightarrow> jsval" where
  "member (JObj fs) k = field_of fs k"
| "member (JArr es) k = (if k = ''length'' then JNum (of_nat (length es)) else JUndefined)"
| "member v k = JUndefined"

lemma size_member: "js_typeof v = ''object'' \<Longrightarrow> v \<noteq> JNull \<Longrightarrow> size (member v k) < size v"
proof (cases v)
  case (JObj fs)
  show ?thesis
  proof (cases "map_of fs k")
    case (Some w)
    then have "(k, w) \<in> set fs" by (rule map_of_SomeD)
    then have "size w < Suc (size_list (size_prod (\<lambda>x. 0) size) fs)"
      using size_list_estimation' [of "(k, w)" fs "size w" "size_prod (\<lambda>x. 0) size"] by simp
    then show ?thesis using JObj Some by (simp add: field_of_def)
  qed (simp add: JObj field_of_def)
qed auto

lemma typeof_undefined [simp]: "js_typeof v = ''undefined'' \<longleftrightarrow> v = JUndefined"
  by (cases v) simp_all

lemma size_element: "item \<in> set es \<Longrightarrow> size item < size (JArr es)"
  using size_list_estimation' [of item es "size item" size] by simp

function validateModelFields :: "validation_env \<Rightarrow> (string, type_def) omap \<Rightarrow> type_def \<Rightarrow> string \<Rightarrow> jsval \<Rightarrow> field_error option" where
  "validateModelFields V nonModels td k v =
     (case map_of (td_fields td) k of
        None \<Rightarrow> None
      | Some fd \<Rightarrow>
          (case check_presence td k fd v of
             Some e \<Rightarrow> Some e
           | None \<Rightarrow>
               (case fd_type fd of
                  ScalarType scalar \<Rightarrow> if scalar \<in> set scalar_types then check_scalar V fd scalar v else None
                | NonModelType n \<Rightarrow>
                    if isNullOrUndefined v then None
                    else if fd_isArray fd then
                      (case v of
                         JArr items \<Rightarrow>
                           first_error (\<lambda>item.
                             if (isNullOrUndefined item \<and> fd_isRequired fd) \<or> js_typeof item \<notin> {''object'', ''undefined''}
                             then Some (WrongElements (fd_name fd))
                             else if isNullOrUndefined item then None
                             else case map_of nonModels n of
                                    None \<Rightarrow> Some ThrownTypeError
                                  | Some sub \<Rightarrow> first_error (\<lambda>sk. validateModelFields V nonModels sub sk (member item sk)) (map fst (td_fields sub)))
                             items
                       | _ \<Rightarrow> Some (NotAnArray (fd_name fd)))
                    else if js_typeof v \<noteq> ''object'' then Some (WrongType (fd_name fd))
                    else (case map_of nonModels n of
                            None \<Rightarrow> Some ThrownTypeError
                          | Some sub \<Rightarrow> first_error (\<lambda>sk. validateModelFields V nonModels sub sk (member v sk)) (map fst (td_fields sub)))
                | _ \<Rightarrow> None)))"
  by pat_completeness auto
termination
proof (relation "measure (\<lambda>(V, nonModels, td, k, v). size v)", goal_cases)
  case 1
  show ?case by simp
next
  case (2 V nonModels td k v fd n items item sub sk)
  then have "size (member item sk) < size item" by (intro size_member) (auto simp: isNullOrUndefined_def)
  also have "size item < size (JArr items)" using 2 by (intro size_element) simp
  finally show ?case using 2 by simp
next
  case (3 V nonModels td k v fd n sub sk)
  then show ?case using size_member [of v sk] by (auto simp: isNullOrUndefined_def)
qed

declare validateModelFields.simps [simp del]

text \<open>Values that come as texts or numbers are converted to what the field holds.\<close>

definition castInstanceType :: "validation_env \<Rightarrow> type_def \<Rightarrow> string \<Rightarrow> jsval \<Rightarrow> jsval" where
  "castInstanceType V td k v =
     (case map_of (td_fields td) k of
        None \<Rightarrow> v
      | Some fd \<Rightarrow>
          (let parsed = (case v of
               JStr s \<Rightarrow>
                 if fd_isArray fd \<or> fd_type fd = ScalarType ''AWSJSON'' \<or>
                    (case fd_type fd of NonModelType n \<Rightarrow> True | ModelType m \<Rightarrow> True | _ \<Rightarrow> False)
                 then ve_json V s else None
             | _ \<Rightarrow> None)
           in case parsed of
                Some w \<Rightarrow> w
              | None \<Rightarrow>
                  (case v of JNum n \<Rightarrow> if fd_type fd = ScalarType ''Boolean'' then JBool (n \<noteq> 0) else v | _ \<Rightarrow> v)))"

end
