(* ===== verification/ModelClass.thy ===== *)
theory ModelClass
  imports ModelValidation
begin

text \<open>
  Instances of models (\<open>createModelClass\<close> in \<open>datastore/src/datastore/datastore.ts\<close>): their construction from an
  object of the application or of DataStore itself, the copies \<open>copyOf\<close> makes, and the patches that remember what has
  been set. An instance is immutable: each operation returns a new one. Drafts and patches are those of the library
  Immer, which is a parameter.
\<close>

section \<open>Drafts and patches\<close>

text \<open>
  A patch has a path into the object and the value that is set there, \<open>JUndefined\<close> when it removes something. An
  object \<open>immer\<close> has the functions of Immer that DataStore uses: the draft \<open>produce\<close> makes of an object, the
  object it was made of (\<open>original\<close>), the fields it has at present, the assignment \<open>draft[k] = v\<close>, the patches that
  are reported when the draft is finished, and \<open>applyPatches\<close> on a draft. The function an application gives to \<open>copyOf\<close>
  is any function on drafts: it may also change nested objects and arrays in place.
\<close>

datatype path_step = Key string | Index nat

datatype patch_op = Add | Replace | Remove

record patch =
  pa_op :: patch_op
  pa_path :: "path_step list"
  pa_value :: jsval

record 'd immer =
  im_draft :: "model \<Rightarrow> 'd"
  im_original :: "'d \<Rightarrow> model"
  im_current :: "'d \<Rightarrow> model"
  im_set :: "string \<Rightarrow> jsval \<Rightarrow> 'd \<Rightarrow> 'd"
  im_patches :: "'d \<Rightarrow> patch list"
  im_apply :: "patch list \<Rightarrow> 'd \<Rightarrow> 'd"

text \<open>
  A field for a related model has a setter, which sets the join fields. The class of the value, which the setter checks
  when the value has metadata, is not part of it here.
\<close>

definition set_field :: "'d immer \<Rightarrow> type_def \<Rightarrow> string \<Rightarrow> jsval \<Rightarrow> 'd \<Rightarrow> 'd" where
  "set_field I td k v draft =
     (case map_of (td_relations td) k of
        None \<Rightarrow> im_set I k v draft
      | Some None \<Rightarrow> draft
      | Some (Some joins) \<Rightarrow>
          if js_typeof v \<notin> {''object'', ''undefined''} then draft
          else fold (\<lambda>(localField, remoteField). im_set I localField (member v remoteField)) joins draft)"

definition mergePatches :: "'d immer \<Rightarrow> model \<Rightarrow> patch list \<Rightarrow> patch list \<Rightarrow> patch list" where
  "mergePatches I originalSource oldPatches newPatches =
     (let patchesToMerge = oldPatches @ newPatches
      in im_patches I (im_apply I patchesToMerge (im_draft I originalSource)))"

text \<open>The patches of an object start with the name of a field.\<close>

definition patch_key :: "patch \<Rightarrow> string option" where
  "patch_key p = (case pa_path p of Key k # _ \<Rightarrow> Some k | _ \<Rightarrow> None)"

section \<open>Checks\<close>

datatype model_error = FieldError field_error | ReadOnly string

fun initializeInstance :: "'d immer \<Rightarrow> validation_env \<Rightarrow> (string, type_def) omap \<Rightarrow> type_def \<Rightarrow> model \<Rightarrow> 'd \<Rightarrow> field_error + 'd" where
  "initializeInstance I V nonModels td [] draft = Inr draft"
| "initializeInstance I V nonModels td ((k, v) # init) draft =
     (let parsedValue = castInstanceType V td k v
      in case validateModelFields V nonModels td k parsedValue of
           Some e \<Rightarrow> Inl e
         | None \<Rightarrow> initializeInstance I V nonModels td init (set_field I td k parsedValue draft))"

text \<open>
  A field for a related model is taken as defined: its getter returns a promise or a collection. (After it has
  been set to \<open>null\<close> on the same draft it reads as undefined and is set again; that case is left out.)
\<close>

definition normalize_field :: "'d immer \<Rightarrow> type_def \<Rightarrow> string \<Rightarrow> 'd \<Rightarrow> 'd" where
  "normalize_field I td k draft =
     (if map_of (td_relations td) k = None \<and> field_of (im_current I draft) k = JUndefined then im_set I k JNull draft else draft)"

definition normalize :: "'d immer \<Rightarrow> type_def \<Rightarrow> 'd \<Rightarrow> 'd" where
  "normalize I td draft = fold (\<lambda>(k, fd). normalize_field I td k) (td_fields td) draft"

definition is_read_only :: "type_def \<Rightarrow> string \<Rightarrow> bool" where
  "is_read_only td k \<longleftrightarrow> (case map_of (td_fields td) k of None \<Rightarrow> False | Some fd \<Rightarrow> fd_isReadOnly fd)"

definition checkReadOnlyPropertyOnCreate :: "type_def \<Rightarrow> model \<Rightarrow> string option" where
  "checkReadOnlyPropertyOnCreate td draft = find (is_read_only td) (map fst draft)"

text \<open>The name of the first field that makes it throw; a patch is looked at by the head of its path and its value.\<close>

fun checkReadOnlyPropertyOnUpdate :: "type_def \<Rightarrow> patch list \<Rightarrow> string option" where
  "checkReadOnlyPropertyOnUpdate td [] = None"
| "checkReadOnlyPropertyOnUpdate td (p # patches) =
     (case patch_key p of
        None \<Rightarrow> checkReadOnlyPropertyOnUpdate td patches
      | Some key \<Rightarrow>
          if \<not> truthy (pa_value p) then checkReadOnlyPropertyOnUpdate td patches
          else if is_read_only td key then Some key
          else checkReadOnlyPropertyOnUpdate td patches)"

section \<open>Construction\<close>

text \<open>
  \<open>internal\<close> says that DataStore itself made the object the instance is initialised with; \<open>newId\<close> is the identifier
  that would be drawn. The patches are those of the fields that were set, before the others become \<open>null\<close>.
\<close>

definition assign_id :: "'d immer \<Rightarrow> type_def \<Rightarrow> bool \<Rightarrow> string \<Rightarrow> model \<Rightarrow> 'd \<Rightarrow> 'd" where
  "assign_id I td internal newId init draft =
     (if isIdManaged (key_schema td) then
        im_set I ID (if internal \<and> \<not> isNullOrUndefined (field_of init ID) then field_of init ID else JStr newId) draft
      else if isIdOptionallyManaged (key_schema td) then
        im_set I ID (if truthy (field_of (im_current I draft) ID) then field_of (im_current I draft) ID else JStr newId) draft
      else draft)"

definition assign_metadata :: "'d immer \<Rightarrow> type_def \<Rightarrow> bool \<Rightarrow> model \<Rightarrow> 'd \<Rightarrow> 'd" where
  "assign_metadata I td internal init draft =
     (if td_syncable td
      then fold (\<lambda>k. im_set I k (if internal then field_of init k else JUndefined))
             [''_version'', ''_lastChangedAt'', ''_deleted''] draft
      else draft)"

definition construct :: "'d immer \<Rightarrow> validation_env \<Rightarrow> (string, type_def) omap \<Rightarrow> type_def \<Rightarrow> bool \<Rightarrow> string \<Rightarrow> model \<Rightarrow>
    model_error + (model \<times> patch list)" where
  "construct I V nonModels td internal newId init =
     (case initializeInstance I V nonModels td init (im_draft I []) of
        Inl e \<Rightarrow> Inl (FieldError e)
      | Inr draft \<Rightarrow>
          (let draft1 = assign_id I td internal newId init draft
           in case (if internal then None else checkReadOnlyPropertyOnCreate td (im_current I draft1)) of
                Some k \<Rightarrow> Inl (ReadOnly k)
              | None \<Rightarrow>
                  (let draft2 = assign_metadata I td internal init draft1;
                       baseInstance = im_current I draft2;
                       normalized = im_current I (normalize I td (im_draft I baseInstance))
                   in Inr (normalized, im_patches I draft2))))"

section \<open>Copies\<close>

text \<open>
  The function \<open>f\<close> of the application changes the draft. What it gives is checked as converted, but kept as it is.
  \<open>existing\<close> are the patches the source has had, with the instance they start from.
\<close>

definition copy_draft :: "'d immer \<Rightarrow> type_def \<Rightarrow> model \<Rightarrow> ('d \<Rightarrow> 'd) \<Rightarrow> 'd" where
  "copy_draft I td source f =
     fold (\<lambda>key. im_set I key (field_of source key)) (extractPrimaryKeyFieldNames (key_schema td)) (f (im_draft I source))"

definition copyOf :: "'d immer \<Rightarrow> validation_env \<Rightarrow> (string, type_def) omap \<Rightarrow> type_def \<Rightarrow> (patch list \<times> model) option \<Rightarrow> model \<Rightarrow>
    ('d \<Rightarrow> 'd) \<Rightarrow> model_error + (model \<times> (patch list \<times> model))" where
  "copyOf I V nonModels td existing source f =
     (let draft = copy_draft I td source f
      in case first_error (\<lambda>(k, v). validateModelFields V nonModels td k (castInstanceType V td k v)) (im_current I draft) of
           Some e \<Rightarrow> Inl (FieldError e)
         | None \<Rightarrow>
             (let draft1 = normalize I td draft;
                  m = im_current I draft1;
                  patches = im_patches I draft1
              in if patches \<noteq> [] \<or> existing \<noteq> None then
                   (let (newPatches, base) =
                      (case existing of
                         Some (existingPatches, existingSource) \<Rightarrow> (mergePatches I existingSource existingPatches patches, existingSource)
                       | None \<Rightarrow> (patches, source))
                    in case checkReadOnlyPropertyOnUpdate td newPatches of
                         Some k \<Rightarrow> Inl (ReadOnly k)
                       | None \<Rightarrow> Inr (m, (newPatches, base)))
                 else Inr (m, ([], source))))"

section \<open>The version of the code generator\<close>

fun split_dots :: "string \<Rightarrow> string list" where
  "split_dots [] = [[]]"
| "split_dots (c # cs) = (if c = CHR ''.'' then [] # split_dots cs else (c # hd (split_dots cs)) # tl (split_dots cs))"

definition checkSchemaCodegenVersion :: "js_env \<Rightarrow> string \<Rightarrow> bool" where
  "checkSchemaCodegenVersion J codegenVersion =
     (case split_dots codegenVersion of
        major # minor # rest \<Rightarrow> stringToNumber J major = Some 3 \<and> (case stringToNumber J minor of None \<Rightarrow> False | Some n \<Rightarrow> n \<ge> 2)
      | _ \<Rightarrow> False)"

end
