(* ===== verification/ModelClassProofs.thy ===== *)
theory ModelClassProofs
  imports ModelClass
begin

text \<open>
  What an instance of a model holds: values of the types of its fields, keys that never change, and patches that
  tell how it differs from the record that was read, over any number of copies. What is used of the library of drafts is
  the hypothesis \<open>immer_ok\<close>.
\<close>

section \<open>Accepted values have their types\<close>





section \<open>What the library of drafts does\<close>

text \<open>
  The documented behaviour of Immer, on the values of the fields: a draft has the fields of the object it is made of,
  an assignment sets one field, patches are applied in order and touch only the fields their paths start with, and
  the patches of a draft are correct: applied to an object with the values it was made of they give its values. A
  reported patch either replaces a whole field, with the value the field ends with, or changes the inside of an object.
  The last patches of a field need not differ from its values before; nothing is said about how many there are.
\<close>

definition immer_ok :: "'d immer \<Rightarrow> bool" where
  "immer_ok I \<longleftrightarrow>
     (\<forall>d. okeys (im_current I d) \<and> okeys (im_original I d)) \<and>
     (\<forall>b. okeys b \<longrightarrow> im_original I (im_draft I b) = b \<and> im_current I (im_draft I b) = b) \<and>
     (\<forall>k v d. im_original I (im_set I k v d) = im_original I d \<and>
        map_of (im_current I (im_set I k v d)) = (map_of (im_current I d))(k \<mapsto> v)) \<and>
     (\<forall>ps d. im_original I (im_apply I ps d) = im_original I d) \<and>
     (\<forall>ps qs d. (\<forall>p \<in> set (ps @ qs). patch_key p \<noteq> None) \<longrightarrow> im_apply I (ps @ qs) d = im_apply I qs (im_apply I ps d)) \<and>
     (\<forall>ps d k. (\<forall>p \<in> set ps. patch_key p \<noteq> None \<and> patch_key p \<noteq> Some k) \<longrightarrow>
        map_of (im_current I (im_apply I ps d)) k = map_of (im_current I d) k) \<and>
     (\<forall>d e. map_of (im_current I e) = map_of (im_original I d) \<longrightarrow>
        map_of (im_current I (im_apply I (im_patches I d) e)) = map_of (im_current I d)) \<and>
     (\<forall>d. \<forall>p \<in> set (im_patches I d). \<exists>k rest. pa_path p = Key k # rest \<and>
        (if rest = [] then pa_value p = field_of (im_current I d) k
         else is_object (field_of (im_original I d) k) \<and> is_object (field_of (im_current I d) k)))"

text \<open>The function an application gives to \<open>copyOf\<close> changes the draft it is given.\<close>

definition edits :: "'d immer \<Rightarrow> ('d \<Rightarrow> 'd) \<Rightarrow> bool" where
  "edits I f \<longleftrightarrow> (\<forall>d. im_original I (f d) = im_original I d)"

lemma immer_draft [simp]:
  "immer_ok I \<Longrightarrow> okeys b \<Longrightarrow> im_original I (im_draft I b) = b"
  "immer_ok I \<Longrightarrow> okeys b \<Longrightarrow> im_current I (im_draft I b) = b"
  "immer_ok I \<Longrightarrow> okeys (im_current I d)"
  unfolding immer_ok_def by blast+

lemma immer_set [simp]:
  "immer_ok I \<Longrightarrow> im_original I (im_set I k v d) = im_original I d"
  "immer_ok I \<Longrightarrow> map_of (im_current I (im_set I k v d)) = (map_of (im_current I d))(k \<mapsto> v)"
  unfolding immer_ok_def by blast+

lemma immer_apply_original [simp]: "immer_ok I \<Longrightarrow> im_original I (im_apply I ps d) = im_original I d"
  unfolding immer_ok_def by blast

lemma immer_apply_append:
  "immer_ok I \<Longrightarrow> \<forall>p \<in> set (ps @ qs). patch_key p \<noteq> None \<Longrightarrow> im_apply I (ps @ qs) d = im_apply I qs (im_apply I ps d)"
  unfolding immer_ok_def by blast

lemma immer_apply_other:
  "immer_ok I \<Longrightarrow> \<forall>p \<in> set ps. patch_key p \<noteq> None \<and> patch_key p \<noteq> Some k \<Longrightarrow>
    map_of (im_current I (im_apply I ps d)) k = map_of (im_current I d) k"
  unfolding immer_ok_def by blast

lemma immer_patches_correct:
  "immer_ok I \<Longrightarrow> map_of (im_current I e) = map_of (im_original I d) \<Longrightarrow>
    map_of (im_current I (im_apply I (im_patches I d) e)) = map_of (im_current I d)"
  unfolding immer_ok_def by blast

lemma immer_patch_path:
  assumes "immer_ok I" "p \<in> set (im_patches I d)"
  obtains k rest where "pa_path p = Key k # rest"
    "rest = [] \<Longrightarrow> pa_value p = field_of (im_current I d) k"
    "rest \<noteq> [] \<Longrightarrow> is_object (field_of (im_original I d) k) \<and> is_object (field_of (im_current I d) k)"
  using assms unfolding immer_ok_def by metis

lemma patches_have_keys:
  assumes "immer_ok I" "p \<in> set (im_patches I d)"
  shows "patch_key p \<noteq> None"
proof -
  obtain k rest where "pa_path p = Key k # rest" using immer_patch_path [OF assms] by metis
  then show ?thesis by (simp add: patch_key_def)
qed

lemma patches_give_current:
  assumes "immer_ok I"
  shows "map_of (im_current I (im_apply I (im_patches I d) (im_draft I (im_original I d)))) = map_of (im_current I d)"
proof -
  have "okeys (im_original I d)" using assms unfolding immer_ok_def by blast
  then show ?thesis by (intro immer_patches_correct [OF assms]) (simp add: assms)
qed

lemma changed_field_has_patch:
  assumes I: "immer_ok I" and "field_of (im_current I d) k \<noteq> field_of (im_original I d) k"
  shows "\<exists>p \<in> set (im_patches I d). patch_key p = Some k"
proof (rule ccontr)
  assume "\<not> (\<exists>p \<in> set (im_patches I d). patch_key p = Some k)"
  then have "\<forall>p \<in> set (im_patches I d). patch_key p \<noteq> None \<and> patch_key p \<noteq> Some k" using patches_have_keys [OF I] by blast
  note other = immer_apply_other [OF I this, of "im_draft I (im_original I d)"]
  have "okeys (im_original I d)" using I unfolding immer_ok_def by blast
  then have "map_of (im_current I d) k = map_of (im_original I d) k" using other I by (simp add: patches_give_current)
  then show False using assms(2) by (simp add: field_of_def)
qed

lemma fold_im_set:
  assumes "immer_ok I"
  shows "im_original I (fold (\<lambda>key. im_set I key (g key)) ks d) = im_original I d"
    "map_of (im_current I (fold (\<lambda>key. im_set I key (g key)) ks d)) k = (if k \<in> set ks then Some (g k) else map_of (im_current I d) k)"
  using assms by (induction ks arbitrary: d) auto

section \<open>Construction\<close>

text \<open>The join fields of the relationships; they are set from the related records and not checked.\<close>

definition join_fields :: "type_def \<Rightarrow> string set" where
  "join_fields td = {l. \<exists>k joins r. map_of (td_relations td) k = Some (Some joins) \<and> (l, r) \<in> set joins}"

lemma set_joins_other:
  "immer_ok I \<Longrightarrow> k \<notin> fst ` set joins \<Longrightarrow>
    map_of (im_current I (fold (\<lambda>(l, r). im_set I l (g r)) joins draft)) k = map_of (im_current I draft) k"
  by (induction joins arbitrary: draft) auto

lemma set_field_map_of:
  assumes "immer_ok I" "k \<notin> join_fields td" "map_of (td_relations td) k = None"
  shows "map_of (im_current I (set_field I td j v draft)) k = (if j = k then Some v else map_of (im_current I draft) k)"
proof (cases "map_of (td_relations td) j")
  case None
  then show ?thesis using assms(1) by (simp add: set_field_def)
next
  case (Some rel)
  then have "j \<noteq> k" using assms(3) by auto
  have "k \<notin> fst ` set joins" if "rel = Some joins" for joins
    using assms(2) Some that by (force simp: join_fields_def)
  then show ?thesis using Some \<open>j \<noteq> k\<close> assms(1) by (auto simp: set_field_def set_joins_other split: option.split)
qed

text \<open>What a field of the draft is after the initialisation: the converted and accepted value given for it.\<close>

lemma initialize_field:
  assumes "immer_ok I" "k \<notin> join_fields td" "map_of (td_relations td) k = None"
  shows "initializeInstance I V nms td init draft = Inr d \<Longrightarrow> okeys init \<Longrightarrow>
    map_of (im_current I d) k = (case map_of init k of None \<Rightarrow> map_of (im_current I draft) k | Some v \<Rightarrow> Some (castInstanceType V td k v)) \<and>
    (\<forall>v. map_of init k = Some v \<longrightarrow> validateModelFields V nms td k (castInstanceType V td k v) = None)"
proof (induction init arbitrary: draft)
  case (Cons a init)
  obtain j v where a: "a = (j, v)" by fastforce
  have ok: "validateModelFields V nms td j (castInstanceType V td j v) = None"
    and rest: "initializeInstance I V nms td init (set_field I td j (castInstanceType V td j v) draft) = Inr d"
    using Cons.prems(1) a by (simp_all add: Let_def split: option.splits)
  have "okeys init" "map_of init j = None" using Cons.prems(2) a by (auto simp: okeys_Cons map_of_eq_None_iff)
  then show ?case
    using Cons.IH [OF rest] ok a set_field_map_of [OF assms, of j "castInstanceType V td j v" draft]
    by (cases "j = k") (simp_all split: option.splits)
qed simp

lemma field_of_set: "immer_ok I \<Longrightarrow> field_of (im_current I (im_set I j v d)) k = (if j = k then v else field_of (im_current I d) k)"
  by (simp add: field_of_def)

lemma normalize_field_value:
  "immer_ok I \<Longrightarrow> field_of (im_current I (normalize_field I td j d)) k =
     (if j = k \<and> map_of (td_relations td) k = None \<and> field_of (im_current I d) k = JUndefined then JNull else field_of (im_current I d) k)"
  by (auto simp: normalize_field_def field_of_set)

lemma normalize_value:
  assumes I: "immer_ok I"
  shows "field_of (im_current I (normalize I td d)) k =
     (if field_of (im_current I d) k = JUndefined \<and> k \<in> fst ` set (td_fields td) \<and> map_of (td_relations td) k = None
      then JNull else field_of (im_current I d) k)"
proof -
  have "field_of (im_current I (fold (\<lambda>(k, fd). normalize_field I td k) fs d)) k =
     (if field_of (im_current I d) k = JUndefined \<and> k \<in> fst ` set fs \<and> map_of (td_relations td) k = None
      then JNull else field_of (im_current I d) k)" for fs :: "(string, field_def) omap" and d
  proof (induction fs arbitrary: d)
    case (Cons a fs)
    then show ?case by (cases a) (auto simp: normalize_field_value [OF I])
  qed simp
  then show ?thesis by (simp add: normalize_def)
qed

lemma normalize_original: "immer_ok I \<Longrightarrow> im_original I (normalize I td d) = im_original I d"
proof -
  have "immer_ok I \<Longrightarrow> im_original I (fold (\<lambda>(k, fd). normalize_field I td k) fs d) = im_original I d"
    for fs :: "(string, field_def) omap" and d
    by (induction fs arbitrary: d) (auto simp: normalize_field_def split: prod.split)
  then show "immer_ok I \<Longrightarrow> im_original I (normalize I td d) = im_original I d" by (simp add: normalize_def)
qed

lemma construct_parts:
  assumes "construct I V nms td internal newId init = Inr (m, ps)" "immer_ok I"
  obtains d where "initializeInstance I V nms td init (im_draft I []) = Inr d"
    "internal \<or> checkReadOnlyPropertyOnCreate td (im_current I (assign_id I td internal newId init d)) = None"
    "\<And>k. field_of m k = (let v = field_of (im_current I (assign_metadata I td internal init (assign_id I td internal newId init d))) k
       in if v = JUndefined \<and> k \<in> fst ` set (td_fields td) \<and> map_of (td_relations td) k = None then JNull else v)"
  using assms by (auto simp: construct_def Let_def normalize_value split: sum.splits option.splits if_splits)




section \<open>Copies\<close>

lemma copy_draft_original: "immer_ok I \<Longrightarrow> edits I f \<Longrightarrow> okeys source \<Longrightarrow> im_original I (copy_draft I td source f) = source"
  by (simp add: copy_draft_def fold_im_set edits_def)

lemma copy_parts:
  assumes "immer_ok I" "copyOf I V nms td existing source f = Inr (m, ps, base)"
  defines "d \<equiv> normalize I td (copy_draft I td source f)"
  shows "m = im_current I d" "base = (case existing of None \<Rightarrow> source | Some (eps, es) \<Rightarrow> es)"
    "ps = (case existing of None \<Rightarrow> im_patches I d | Some (eps, es) \<Rightarrow> mergePatches I es eps (im_patches I d))"
    "checkReadOnlyPropertyOnUpdate td ps = None"
  using assms(2) by (auto simp: copyOf_def Let_def d_def split: option.splits prod.splits if_splits)

text \<open>A number of copies one after the other, each of the one before.\<close>

fun copies :: "'d immer \<Rightarrow> validation_env \<Rightarrow> (string, type_def) omap \<Rightarrow> type_def \<Rightarrow> (patch list \<times> model) option \<Rightarrow> model \<Rightarrow>
    ('d \<Rightarrow> 'd) list \<Rightarrow> model_error + (model \<times> (patch list \<times> model) option)" where
  "copies I V nms td existing source [] = Inr (source, existing)"
| "copies I V nms td existing source (f # fs) =
     (case copyOf I V nms td existing source f of
        Inl e \<Rightarrow> Inl e
      | Inr (m, r) \<Rightarrow> copies I V nms td (Some r) m fs)"

text \<open>The patches are those of some draft of the record that was read, with the values of the copy.\<close>

definition tracks :: "'d immer \<Rightarrow> type_def \<Rightarrow> model \<Rightarrow> (patch list \<times> model) option \<Rightarrow> model \<Rightarrow> bool" where
  "tracks I td original existing m \<longleftrightarrow> okeys m \<and>
     (case existing of
        None \<Rightarrow> m = original
      | Some (ps, base) \<Rightarrow> base = original \<and> checkReadOnlyPropertyOnUpdate td ps = None \<and>
          (\<exists>d. im_original I d = original \<and> map_of (im_current I d) = map_of m \<and> ps = im_patches I d))"

lemma merged_patches:
  assumes I: "immer_ok I" and "okeys original" "im_original I d0 = original" "map_of (im_current I d0) = map_of (im_original I d)"
  shows "\<exists>D. mergePatches I original (im_patches I d0) (im_patches I d) = im_patches I D \<and> im_original I D = original \<and>
    map_of (im_current I D) = map_of (im_current I d)"
proof -
  let ?e = "im_apply I (im_patches I d0) (im_draft I original)"
  have keys: "\<forall>p \<in> set (im_patches I d0 @ im_patches I d). patch_key p \<noteq> None" using patches_have_keys [OF I] by auto
  have "map_of (im_current I ?e) = map_of (im_current I d0)" by (rule immer_patches_correct [OF I]) (simp add: I assms(2,3))
  then have "map_of (im_current I (im_apply I (im_patches I d) ?e)) = map_of (im_current I d)"
    using assms(4) by (intro immer_patches_correct [OF I]) simp
  moreover have "mergePatches I original (im_patches I d0) (im_patches I d) = im_patches I (im_apply I (im_patches I d) ?e)"
    by (simp only: mergePatches_def Let_def immer_apply_append [OF I keys])
  ultimately show ?thesis using I assms(2) by (intro exI [of _ "im_apply I (im_patches I d) ?e"]) simp
qed

lemma copy_tracks:
  assumes I: "immer_ok I" and "tracks I td original existing source" "okeys original" "edits I f"
    "copyOf I V nms td existing source f = Inr (m, ps, base)"
  shows "tracks I td original (Some (ps, base)) m"
proof -
  note parts = copy_parts [OF I assms(5)]
  let ?d = "normalize I td (copy_draft I td source f)"
  have source: "okeys source" using assms(2) by (simp add: tracks_def)
  then have d: "im_original I ?d = source" using I assms(4) by (simp add: normalize_original copy_draft_original)
  have m: "okeys m" using parts(1) I by simp
  show ?thesis
  proof (cases existing)
    case None
    then show ?thesis using parts d m assms(2) by (auto simp: tracks_def)
  next
    case (Some r)
    then obtain d0 where e: "existing = Some (im_patches I d0, original)" "im_original I d0 = original" "map_of (im_current I d0) = map_of source"
      using assms(2) by (cases r) (auto simp: tracks_def)
    then have "map_of (im_current I d0) = map_of (im_original I ?d)" using d by simp
    from merged_patches [OF I assms(3) e(2) this] show ?thesis using parts e(1) m by (auto simp: tracks_def)
  qed
qed

lemma copies_track:
  assumes "immer_ok I" "okeys original" "\<forall>f \<in> set fs. edits I f"
  shows "copies I V nms td existing source fs = Inr (m, r) \<Longrightarrow> tracks I td original existing source \<Longrightarrow>
    tracks I td original r m \<and> (fs \<noteq> [] \<or> existing \<noteq> None \<longrightarrow> r \<noteq> None)"
  using assms(3)
proof (induction fs arbitrary: existing source)
  case (Cons f fs)
  obtain m1 ps base where c: "copyOf I V nms td existing source f = Inr (m1, ps, base)"
    using Cons.prems(1) by (auto split: sum.splits)
  then have "copies I V nms td (Some (ps, base)) m1 fs = Inr (m, r)" using Cons.prems(1) by simp
  then show ?case using Cons.IH copy_tracks [OF assms(1) Cons.prems(2) assms(2) _ c] Cons.prems(3) by simp
qed simp

text \<open>
  C12. With an Immer that behaves as documented (\<open>immer_ok\<close>), however often an instance without repeated fields is copied, once
  at least, and whatever the functions of the application do to their drafts, changes inside objects and arrays included,
  the patches of the last copy start from the record that was read: applied to it they give the
  copy, every field that differs has a patch, and a patch for a whole field has the value of the copy. So no change is lost
  between the read and the mutation that is made of the patches.
\<close>

theorem copies_track_changes:
  assumes "immer_ok I" "copies I V nms td None original (f # fs) = Inr (m, r)" "okeys original" "\<forall>g \<in> set (f # fs). edits I g"
  shows "\<exists>ps. r = Some (ps, original) \<and> map_of (im_current I (im_apply I ps (im_draft I original))) = map_of m \<and>
    (\<forall>k. field_of m k \<noteq> field_of original k \<longrightarrow> (\<exists>p \<in> set ps. patch_key p = Some k)) \<and>
    (\<forall>p \<in> set ps. \<forall>k. pa_path p = [Key k] \<longrightarrow> pa_value p = field_of m k)"
proof -
  note I = assms(1)
  have "tracks I td original r m" "r \<noteq> None"
    using copies_track [OF I assms(3,4,2)] by (simp_all add: tracks_def assms(3))
  then obtain ps d where d: "r = Some (ps, original)" "im_original I d = original" "map_of (im_current I d) = map_of m" "ps = im_patches I d"
    by (cases r) (auto simp: tracks_def)
  have same: "field_of (im_current I d) k = field_of m k" for k using d(3) by (simp add: field_of_def)
  have "map_of (im_current I (im_apply I ps (im_draft I original))) = map_of m"
    using patches_give_current [OF I, of d] d by simp
  moreover have "\<exists>p \<in> set ps. patch_key p = Some k" if "field_of m k \<noteq> field_of original k" for k
    using changed_field_has_patch [OF I, of d k] that same d(2,4) by simp
  moreover have "pa_value p = field_of m k" if "p \<in> set ps" "pa_path p = [Key k]" for p k
    using that d(4) same by (auto elim!: immer_patch_path [OF I])
  ultimately show ?thesis using d(1) by blast
qed

lemma copy_keeps_key:
  assumes "immer_ok I" "key \<in> set (extractPrimaryKeyFieldNames (key_schema td))" "field_of source key \<noteq> JUndefined"
    "copyOf I V nms td existing source f = Inr (m, ps, base)"
  shows "field_of m key = field_of source key"
proof -
  have "field_of (im_current I (copy_draft I td source f)) key = field_of source key"
    using assms(1,2) by (simp add: copy_draft_def field_of_def [of "im_current I d" for d] fold_im_set)
  then show ?thesis using copy_parts(1) [OF assms(1,4)] assms(1,3) by (simp add: normalize_value)
qed

text \<open>
  The fields of the primary key never change, whatever the copies set.
\<close>

theorem copies_keep_keys:
  assumes "immer_ok I" "copies I V nms td existing source fs = Inr (m, r)" "key \<in> set (extractPrimaryKeyFieldNames (key_schema td))"
    "field_of source key \<noteq> JUndefined"
  shows "field_of m key = field_of source key"
  using assms(2,4)
proof (induction fs arbitrary: existing source)
  case (Cons f fs)
  obtain m1 ps base where c: "copyOf I V nms td existing source f = Inr (m1, ps, base)"
    "copies I V nms td (Some (ps, base)) m1 fs = Inr (m, r)"
    using Cons.prems(1) by (auto split: sum.splits)
  note kept = copy_keeps_key [OF assms(1,3) Cons.prems(2) c(1)]
  then show ?case using Cons.IH [OF c(2)] Cons.prems(2) by simp
qed simp

lemma accepted_patches:
  "checkReadOnlyPropertyOnUpdate td ps = None \<Longrightarrow> p \<in> set ps \<Longrightarrow> patch_key p = Some k \<Longrightarrow> is_read_only td k \<Longrightarrow> \<not> truthy (pa_value p)"
  by (induction ps) (auto split: option.splits if_splits)

text \<open>
  C31. With an Immer that behaves as documented (\<open>immer_ok\<close>), a read-only field that is no object or array in the record that was read changes in a copy at most to a value that
  counts as false (it can be cleared, never set). A read-only object or array can in addition be changed in place, by patches
  whose values all count as false.
\<close>

theorem copies_respect_read_only:
  assumes "immer_ok I" "copies I V nms td None original fs = Inr (m, r)" "okeys original" "\<forall>f \<in> set fs. edits I f" "is_read_only td k"
  shows "field_of m k = field_of original k \<or> \<not> truthy (field_of m k) \<or>
    is_object (field_of original k) \<and> is_object (field_of m k) \<and>
      (\<exists>ps. r = Some (ps, original) \<and> (\<forall>p \<in> set ps. patch_key p = Some k \<longrightarrow> length (pa_path p) > 1 \<and> \<not> truthy (pa_value p)))"
proof (cases fs)
  case Nil
  then show ?thesis using assms(2) by simp
next
  case (Cons f gs)
  note I = assms(1)
  have "tracks I td original r m" "r \<noteq> None"
    using copies_track [OF I assms(3,4,2)] by (simp_all add: tracks_def assms(3) Cons)
  then obtain ps d where d: "r = Some (ps, original)" "im_original I d = original" "map_of (im_current I d) = map_of m" "ps = im_patches I d"
    "checkReadOnlyPropertyOnUpdate td ps = None"
    by (cases r) (auto simp: tracks_def)
  have same: "field_of (im_current I d) k = field_of m k" using d(3) by (simp add: field_of_def)
  have falsy: "\<not> truthy (pa_value p)" if "p \<in> set ps" "patch_key p = Some k" for p
    using accepted_patches [OF d(5) that assms(5)] .
  show ?thesis
  proof (cases "field_of m k = field_of original k \<or> \<not> truthy (field_of m k)")
    case False
    then obtain p where p: "p \<in> set ps" "patch_key p = Some k"
      using changed_field_has_patch [OF I, of d k] same d(2,4) by auto
    have inside: "length (pa_path q) > 1 \<and> is_object (field_of original k) \<and> is_object (field_of m k)"
      if q: "q \<in> set ps" "patch_key q = Some k" for q
    proof -
      obtain k' rest where path: "pa_path q = Key k' # rest" "rest = [] \<Longrightarrow> pa_value q = field_of (im_current I d) k'"
        "rest \<noteq> [] \<Longrightarrow> is_object (field_of (im_original I d) k') \<and> is_object (field_of (im_current I d) k')"
        using immer_patch_path [OF I q(1) [unfolded d(4)]] by blast
      have "k' = k" using q(2) path(1) by (simp add: patch_key_def)
      moreover have "rest \<noteq> []" using path(2) falsy [OF q] False same \<open>k' = k\<close> by auto
      ultimately show ?thesis using path(1,3) same d(2) by simp
    qed
    then show ?thesis using inside [OF p] falsy d(1) by blast
  qed blast
qed

text \<open>
  C32. With an Immer that behaves as documented, an object of the application with a read-only field (no join field or
  relation) makes no instance, and the instances of the application get
  a new identifier when the identifiers are managed, whatever \<open>id\<close> they are given.
\<close>

theorem construct_guards:
  assumes "immer_ok I" "construct I V nms td False newId init = Inr (m, ps)" "okeys init"
  shows "(\<forall>k v. map_of init k = Some v \<and> k \<notin> join_fields td \<and> map_of (td_relations td) k = None \<longrightarrow> \<not> is_read_only td k) \<and>
    (isIdManaged (key_schema td) \<longrightarrow> field_of m ID = JStr newId)"
proof -
  obtain d where d: "initializeInstance I V nms td init (im_draft I []) = Inr d"
    "checkReadOnlyPropertyOnCreate td (im_current I (assign_id I td False newId init d)) = None"
    "field_of m ID = (let v = field_of (im_current I (assign_metadata I td False init (assign_id I td False newId init d))) ID
       in if v = JUndefined \<and> ID \<in> fst ` set (td_fields td) \<and> map_of (td_relations td) ID = None then JNull else v)"
    using construct_parts [OF assms(2,1)] by metis
  have "\<not> is_read_only td k" if k: "map_of init k = Some v" "k \<notin> join_fields td" "map_of (td_relations td) k = None" for k v
  proof -
    have "map_of (im_current I d) k = Some (castInstanceType V td k v)"
      using initialize_field [OF assms(1) k(2,3) d(1) assms(3)] k(1) by simp
    then have "map_of (im_current I (assign_id I td False newId init d)) k \<noteq> None" using assms(1) by (auto simp: assign_id_def)
    then have "k \<in> fst ` set (im_current I (assign_id I td False newId init d))" by (metis map_of_eq_None_iff)
    then show ?thesis using d(2) by (auto simp: checkReadOnlyPropertyOnCreate_def find_None_iff)
  qed
  moreover have "field_of m ID = JStr newId" if "isIdManaged (key_schema td)"
    using d(3) that assms(1) by (simp add: assign_metadata_def assign_id_def field_of_set ID_def)
  ultimately show ?thesis by blast
qed

section \<open>A library of drafts\<close>

text \<open>
  A draft that is the object it was made of and the fields it has; its patches are the fields that differ. Immer's
  patches may differ from these, but the assumptions made of them can hold.
\<close>

definition diff_patches :: "model \<Rightarrow> model \<Rightarrow> patch list" where
  "diff_patches old new =
     map (\<lambda>(k, v). \<lparr>pa_op = (if map_of old k = None then Add else Replace), pa_path = [Key k], pa_value = v\<rparr>)
       (filter (\<lambda>(k, v). map_of old k \<noteq> Some v) new) @
     map (\<lambda>(k, v). \<lparr>pa_op = Remove, pa_path = [Key k], pa_value = JUndefined\<rparr>) (filter (\<lambda>(k, v). map_of new k = None) old)"

definition apply_whole :: "patch \<Rightarrow> model \<Rightarrow> model" where
  "apply_whole p m =
     (case patch_key p of
        None \<Rightarrow> m
      | Some k \<Rightarrow> if pa_op p = Remove then AList.delete k m else AList.update k (pa_value p) m)"

definition diffing :: "(model \<times> model) immer" where
  "diffing = \<lparr>im_draft = (\<lambda>b. (b, b)), im_original = (\<lambda>(b, c). AList.clearjunk b), im_current = (\<lambda>(b, c). AList.clearjunk c),
     im_set = (\<lambda>k v (b, c). (b, AList.update k v c)),
     im_patches = (\<lambda>(b, c). diff_patches (AList.clearjunk b) (AList.clearjunk c)),
     im_apply = (\<lambda>ps (b, c). (b, fold apply_whole ps c))\<rparr>"

lemma okeys_clearjunk: "okeys (AList.clearjunk m)"
  by (simp add: okeys_def distinct_clearjunk)

lemma clearjunk_okeys: "okeys m \<Longrightarrow> AList.clearjunk m = m"
proof (induction m)
  case (Cons a m)
  obtain k v where a: "a = (k, v)" by fastforce
  have "AList.delete k m = m" using Cons.prems a by (simp add: okeys_Cons delete_idem)
  then show ?case using Cons a by (simp add: okeys_Cons)
qed simp

lemma map_of_apply_whole:
  "map_of (apply_whole p m) = (case patch_key p of None \<Rightarrow> map_of m
     | Some k \<Rightarrow> (map_of m)(k := if pa_op p = Remove then None else Some (pa_value p)))"
  by (rule ext) (auto simp: apply_whole_def update_conv delete_conv split: option.split)

lemma apply_whole_other:
  "\<forall>p \<in> set ps. patch_key p \<noteq> Some k \<Longrightarrow> map_of (fold apply_whole ps m) k = map_of m k"
  by (induction ps arbitrary: m) (auto simp: map_of_apply_whole split: option.split)

lemma diff_patches_set:
  "p \<in> set (diff_patches old new) \<longleftrightarrow>
     (\<exists>k v. (k, v) \<in> set new \<and> map_of old k \<noteq> Some v \<and>
        p = \<lparr>pa_op = (if map_of old k = None then Add else Replace), pa_path = [Key k], pa_value = v\<rparr>) \<or>
     (\<exists>k v. (k, v) \<in> set old \<and> map_of new k = None \<and> p = \<lparr>pa_op = Remove, pa_path = [Key k], pa_value = JUndefined\<rparr>)"
  by (force simp: diff_patches_def image_iff)

definition effect :: "patch \<Rightarrow> jsval option" where
  "effect p = (if pa_op p = Remove then None else Some (pa_value p))"

lemma apply_whole_key:
  "\<forall>p \<in> set ps. patch_key p = Some k \<longrightarrow> effect p = w \<Longrightarrow>
    map_of (fold apply_whole ps m) k = (if \<exists>p \<in> set ps. patch_key p = Some k then w else map_of m k)"
  by (induction ps arbitrary: m) (auto simp: map_of_apply_whole effect_def split: option.split)

lemma diff_patches_correct:
  assumes "okeys old" "okeys new" "map_of m = map_of old"
  shows "map_of (fold apply_whole (diff_patches old new) m) = map_of new"
proof
  fix k
  have "effect p = map_of new k" if "p \<in> set (diff_patches old new)" "patch_key p = Some k" for p
    using that okeys_map_of [OF assms(2)] by (auto simp: diff_patches_set effect_def patch_key_def split: if_splits)
  then have "map_of (fold apply_whole (diff_patches old new) m) k =
      (if \<exists>p \<in> set (diff_patches old new). patch_key p = Some k then map_of new k else map_of old k)"
    using apply_whole_key assms(3) by simp
  also have "\<dots> = map_of new k"
  proof (cases "map_of old k = map_of new k")
    case False
    have "\<exists>p \<in> set (diff_patches old new). patch_key p = Some k"
    proof (cases "map_of new k")
      case None
      then obtain v where "(k, v) \<in> set old" using False by (metis map_of_SomeD not_None_eq)
      then have "\<lparr>pa_op = Remove, pa_path = [Key k], pa_value = JUndefined\<rparr> \<in> set (diff_patches old new)"
        using None by (auto simp: diff_patches_set)
      then show ?thesis by (rule bexI [rotated]) (simp add: patch_key_def)
    next
      case (Some v)
      then have "(k, v) \<in> set new" "map_of old k \<noteq> Some v" using False map_of_SomeD by fastforce+
      then have "\<lparr>pa_op = (if map_of old k = None then Add else Replace), pa_path = [Key k], pa_value = v\<rparr> \<in> set (diff_patches old new)"
        by (auto simp: diff_patches_set)
      then show ?thesis by (rule bexI [rotated]) (simp add: patch_key_def)
    qed
    then show ?thesis by simp
  qed simp
  finally show "map_of (fold apply_whole (diff_patches old new) m) k = map_of new k" .
qed

lemma map_of_clearjunk_fold: "map_of (AList.clearjunk m) = map_of m"
  by (simp add: map_of_clearjunk)

lemma diffing_ok: "immer_ok diffing"
proof -
  note sel = diffing_def immer.simps case_prod_beta fst_conv snd_conv
  have patch: "\<exists>k rest. pa_path p = Key k # rest \<and>
      (if rest = [] then pa_value p = field_of new k else is_object (field_of old k) \<and> is_object (field_of new k))"
    if "p \<in> set (diff_patches old new)" "okeys new" for p old new
    using that okeys_map_of [OF that(2)] by (auto simp: diff_patches_set field_of_def)
  show ?thesis
    unfolding immer_ok_def
  proof (intro conjI allI impI ballI)
    show "okeys (im_current diffing d)" "okeys (im_original diffing d)" for d
      by (simp_all add: sel okeys_clearjunk)
    show "im_original diffing (im_draft diffing b) = b" "im_current diffing (im_draft diffing b) = b" if "okeys b" for b
      using that by (simp_all add: sel clearjunk_okeys)
    show "im_original diffing (im_set diffing k v d) = im_original diffing d"
      "map_of (im_current diffing (im_set diffing k v d)) = (map_of (im_current diffing d))(k \<mapsto> v)" for k v d
      by (simp_all add: sel map_of_clearjunk update_conv')
    show "im_original diffing (im_apply diffing ps d) = im_original diffing d" for ps d by (simp add: sel)
    show "im_apply diffing (ps @ qs) d = im_apply diffing qs (im_apply diffing ps d)" for ps qs d by (simp add: sel)
    show "map_of (im_current diffing (im_apply diffing ps d)) k = map_of (im_current diffing d) k"
      if "\<forall>p \<in> set ps. patch_key p \<noteq> None \<and> patch_key p \<noteq> Some k" for ps d k
      using that by (simp add: sel map_of_clearjunk apply_whole_other)
    show "map_of (im_current diffing (im_apply diffing (im_patches diffing d) e)) = map_of (im_current diffing d)"
      if "map_of (im_current diffing e) = map_of (im_original diffing d)" for d e
      using that diff_patches_correct [of "AList.clearjunk (fst d)" "AList.clearjunk (snd d)" "snd e"]
      by (simp add: sel map_of_clearjunk okeys_clearjunk)
    show "\<exists>k rest. pa_path p = Key k # rest \<and> (if rest = [] then pa_value p = field_of (im_current diffing d) k
        else is_object (field_of (im_original diffing d) k) \<and> is_object (field_of (im_current diffing d) k))"
      if "p \<in> set (im_patches diffing d)" for d p
      using patch [OF that [unfolded sel] okeys_clearjunk] by (simp only: sel)
  qed
qed

section \<open>Examples\<close>

definition demo_field :: "string \<Rightarrow> string \<Rightarrow> bool \<Rightarrow> bool \<Rightarrow> bool \<Rightarrow> string \<times> field_def" where
  "demo_field n t required array ro = (n, \<lparr>fd_name = n, fd_type = ScalarType t, fd_isRequired = required, fd_isArray = array,
     fd_isArrayNullable = True, fd_isReadOnly = ro\<rparr>)"

definition demo_type :: type_def where
  "demo_type = \<lparr>td_name = ''Post'', td_pluralName = Some ''Posts'',
     td_fields = [demo_field ''title'' ''String'' True False False, demo_field ''tags'' ''String'' False True False,
       demo_field ''meta'' ''AWSJSON'' False False False, demo_field ''createdAt'' ''AWSDateTime'' False False True],
     td_attributes = None, td_syncable = False, td_relations = []\<rparr>"

definition demo_text :: string where "demo_text = [CHR 0x22, CHR ''5'', CHR 0x22]"

definition demo_validation :: validation_env where
  "demo_validation = \<lparr>ve_js = demo_js,
     ve_json = (\<lambda>s. if s = ''[]'' then Some (JArr []) else if s = ''5'' then Some (JNum 5) else if s = demo_text then Some (JStr ''5'') else None),
     ve_url = (\<lambda>s. True)\<rparr>"

lemmas demo_simps = demo_type_def demo_field_def demo_validation_def castInstanceType_def validateModelFields.simps check_presence_def
  isTimestampField_def isSchemaModelWithAttributes_def isNullOrUndefined_def scalar_types_def check_scalar_def getJSType_def
  check_elements_def getValidationFunction_def key_schema_def attribute_schema_def isIdManaged_def isIdOptionallyManaged_def extractPrimaryKeyFieldNames_def
  extractKeyIfExists_def ID_def field_of_def set_field_def normalize_def normalize_field_def is_read_only_def
  checkReadOnlyPropertyOnCreate_def patch_key_def diffing_def diff_patches_def assign_id_def assign_metadata_def

abbreviation demo_instance :: model where
  "demo_instance \<equiv> [(''title'', JStr ''a''), (''id'', JStr ''1''), (''tags'', JNull), (''meta'', JNull), (''createdAt'', JNull)]"

text \<open>The function that sets one field of a draft.\<close>

definition setting :: "string \<Rightarrow> jsval \<Rightarrow> model \<times> model \<Rightarrow> model \<times> model" where
  "setting k v = im_set diffing k v"

definition whole :: "string \<Rightarrow> jsval \<Rightarrow> patch" where
  "whole k v = \<lparr>pa_op = Replace, pa_path = [Key k], pa_value = v\<rparr>"

lemma setting_edits: "edits diffing (setting k v)"
  by (simp add: edits_def setting_def diffing_ok)

lemma demo_construct:
  "construct diffing demo_validation [] demo_type False ''1'' [(''title'', JStr ''a'')] =
    Inr (demo_instance, [(whole ''title'' (JStr ''a''))\<lparr>pa_op := Add\<rparr>, (whole ''id'' (JStr ''1''))\<lparr>pa_op := Add\<rparr>])"
  by (simp add: construct_def demo_simps whole_def Let_def)

lemma demo_copies:
  "copies diffing demo_validation [] demo_type None demo_instance [setting ''title'' (JStr ''b'')] =
    Inr ([(''title'', JStr ''b''), (''id'', JStr ''1''), (''tags'', JNull), (''meta'', JNull), (''createdAt'', JNull)],
      Some ([whole ''title'' (JStr ''b'')], demo_instance))"
  by (simp add: copyOf_def copy_draft_def setting_def whole_def demo_simps Let_def)

lemma demo_read_only: "is_read_only demo_type ''createdAt''"
  by (simp add: demo_simps)

lemma demo_distinct: "okeys demo_instance"
  by (simp add: okeys_def)


lemma copies_track_changes_witness:
  "\<exists>p \<in> set [whole ''title'' (JStr ''b'')]. patch_key p = Some ''title'' \<and> pa_value p = JStr ''b''"
  using copies_track_changes [OF diffing_ok demo_copies demo_distinct] by (simp add: setting_edits whole_def field_of_def patch_key_def)

lemma copies_keep_keys_witness:
  "field_of [(''title'', JStr ''b''), (''id'', JStr ''1''), (''tags'', JNull), (''meta'', JNull), (''createdAt'', JNull)] ''id'' = field_of demo_instance ''id''"
  by (rule copies_keep_keys [OF diffing_ok demo_copies]) (simp_all add: demo_simps)

lemma copies_respect_read_only_witness:
  "field_of [(''title'', JStr ''b''), (''id'', JStr ''1''), (''tags'', JNull), (''meta'', JNull), (''createdAt'', JNull)] ''createdAt'' = JNull"
  using copies_respect_read_only [OF diffing_ok demo_copies demo_distinct _ demo_read_only] by (simp add: setting_edits field_of_def)

lemma construct_guards_witness: "isIdManaged (key_schema demo_type) \<and> field_of demo_instance ID = JStr ''1''"
  using construct_guards [OF diffing_ok demo_construct] by (simp add: demo_simps okeys_def)

section \<open>What the checks let through\<close>

text \<open>A copy can clear a read-only field: the check looks only at values that count as true.\<close>

lemma read_only_field_is_cleared:
  "copyOf diffing demo_validation [] demo_type None
     [(''title'', JStr ''a''), (''id'', JStr ''1''), (''tags'', JNull), (''meta'', JNull), (''createdAt'', JStr ''now'')]
     (setting ''createdAt'' JNull) =
   Inr (demo_instance, [whole ''createdAt'' JNull],
     [(''title'', JStr ''a''), (''id'', JStr ''1''), (''tags'', JNull), (''meta'', JNull), (''createdAt'', JStr ''now'')])"
  by (simp add: copyOf_def copy_draft_def setting_def whole_def demo_simps Let_def)

text \<open>An element of a read-only array can be replaced by a value that counts as false.\<close>

lemma read_only_array_is_changed:
  assumes "\<not> truthy v"
  shows "checkReadOnlyPropertyOnUpdate td [\<lparr>pa_op = Replace, pa_path = [Key k, Index n], pa_value = v\<rparr>] = None"
  using assms by (simp add: patch_key_def)

text \<open>A copy checks the array that a text stands for, and keeps the text.\<close>

lemma copy_keeps_text_of_array:
  "copyOf diffing demo_validation [] demo_type None demo_instance (setting ''tags'' (JStr ''[]'')) =
   Inr ([(''title'', JStr ''a''), (''id'', JStr ''1''), (''tags'', JStr ''[]''), (''meta'', JNull), (''createdAt'', JNull)],
     [whole ''tags'' (JStr ''[]'')], demo_instance)"
  by (simp add: copyOf_def copy_draft_def setting_def whole_def demo_simps Let_def)

text \<open>The constructor does not look for required fields that are missing.\<close>

lemma required_field_may_be_missing:
  "construct diffing demo_validation [] demo_type False ''1'' [] =
   Inr ([(''id'', JStr ''1''), (''title'', JNull), (''tags'', JNull), (''meta'', JNull), (''createdAt'', JNull)],
     [(whole ''id'' (JStr ''1''))\<lparr>pa_op := Add\<rparr>])"
  by (simp add: construct_def demo_simps whole_def Let_def)

text \<open>A text in a field for JSON does not survive the initialisation from what has been stored.\<close>

lemma json_text_is_parsed_twice:
  "castInstanceType demo_validation demo_type ''meta'' (JStr demo_text) = JStr ''5''"
  "castInstanceType demo_validation demo_type ''meta'' (JStr ''5'') = JNum 5"
  by (simp_all add: demo_simps demo_text_def)

end
