(* ===== verification/JsNumber.thy ===== *)
theory JsNumber
  imports "HOL-Library.Word" "HOL-Library.Log_Nat"
begin

text \<open>
  JavaScript numbers as far as integer algorithms use them: the bitwise operators, which convert their operands to
  32 bits, and arithmetic, which rounds to a significand of 53 bits. Infinities, subnormal numbers and NaN do not occur.
\<close>

unbundle bit_operations_syntax

section \<open>Bitwise operators\<close>

definition toInt32 :: "int \<Rightarrow> int" where
  "toInt32 x = signed_take_bit 31 x"

definition js_and :: "int \<Rightarrow> int \<Rightarrow> int" where
  "js_and x y = toInt32 x AND toInt32 y"

definition js_or :: "int \<Rightarrow> int \<Rightarrow> int" where
  "js_or x y = toInt32 x OR toInt32 y"

definition js_xor :: "int \<Rightarrow> int \<Rightarrow> int" where
  "js_xor x y = toInt32 x XOR toInt32 y"

definition js_shl :: "int \<Rightarrow> nat \<Rightarrow> int" where
  "js_shl x n = toInt32 (push_bit (n mod 32) (toInt32 x))"

definition js_shr :: "int \<Rightarrow> nat \<Rightarrow> int" where
  "js_shr x n = drop_bit (n mod 32) (toInt32 x)"

definition js_ushr :: "int \<Rightarrow> nat \<Rightarrow> int" where
  "js_ushr x n = drop_bit (n mod 32) (take_bit 32 x)"

lemma toInt32_id [simp]: "- (2 ^ 31) \<le> x \<Longrightarrow> x < 2 ^ 31 \<Longrightarrow> toInt32 x = x"
  unfolding toInt32_def by (rule signed_take_bit_int_eq_self) simp_all

lemma toInt32_mod: "toInt32 x mod 2 ^ k = x mod 2 ^ k" if "k \<le> 32"
proof -
  have "take_bit k (signed_take_bit 31 x) = take_bit k x" using that by (simp add: take_bit_signed_take_bit)
  then show ?thesis by (simp add: toInt32_def take_bit_eq_mod)
qed

lemma mask_low: "(x :: int) AND (2 ^ k - 1) = x mod 2 ^ k"
  by (simp add: take_bit_eq_mod [symmetric] take_bit_eq_mask mask_eq_exp_minus_1)

lemma js_and_mask: "js_and x (2 ^ k - 1) = x mod 2 ^ k" if "k \<le> 31"
proof -
  have "(2 :: int) ^ k \<le> 2 ^ 31" using that by (intro power_increasing) simp_all
  moreover have "0 < (2 :: int) ^ k" by simp
  ultimately have "toInt32 (2 ^ k - 1) = 2 ^ k - 1" by (intro toInt32_id) linarith+
  then show ?thesis using that by (simp add: js_and_def mask_low toInt32_mod)
qed

lemma js_shr_div: "js_shr x n = x div 2 ^ n" if "- (2 ^ 31) \<le> x" "x < 2 ^ 31" "n < 32"
  using that by (simp add: js_shr_def drop_bit_eq_div)

lemma js_ushr_div: "js_ushr x n = x div 2 ^ n" if "0 \<le> x" "x < 2 ^ 32" "n < 32"
  using that by (simp add: js_ushr_def drop_bit_eq_div take_bit_eq_mod)

lemma js_shl_mult: "js_shl x n = x * 2 ^ n" if "- (2 ^ 31) \<le> x * 2 ^ n" "x * 2 ^ n < 2 ^ 31" "n < 32"
proof -
  have "- (2 ^ 31) \<le> x \<and> x < 2 ^ 31"
  proof (cases "x < 0")
    case True
    then have "x * 2 ^ n \<le> x * 1" by (intro mult_left_mono_neg) simp_all
    then show ?thesis using True that by linarith
  next
    case False
    then have "x * 1 \<le> x * 2 ^ n" by (intro mult_left_mono) simp_all
    then show ?thesis using False that by linarith
  qed
  then show ?thesis using that by (simp add: js_shl_def push_bit_eq_mult)
qed

lemma js_shl_mod: "js_shl x n mod 2 ^ k = x * 2 ^ n mod 2 ^ k" if "k \<le> 32" "n < 32"
proof -
  have "js_shl x n mod 2 ^ k = (toInt32 x * 2 ^ n) mod 2 ^ k" using that by (simp add: js_shl_def push_bit_eq_mult toInt32_mod)
  also have "\<dots> = (toInt32 x mod 2 ^ k) * 2 ^ n mod 2 ^ k" by (simp add: mod_mult_left_eq)
  also have "\<dots> = x * 2 ^ n mod 2 ^ k" using that by (simp add: toInt32_mod mod_mult_left_eq)
  finally show ?thesis .
qed

lemma or_disjoint: "(x :: int) OR (y * 2 ^ n) = x + y * 2 ^ n" if "0 \<le> x" "x < 2 ^ n"
proof -
  have "x AND push_bit n y = 0"
  proof (rule bit_eqI)
    fix i
    have "take_bit n x = x" using that by (simp add: take_bit_int_eq_self)
    then have "bit x i \<Longrightarrow> i < n" by (metis bit_take_bit_iff)
    then show "bit (x AND push_bit n y) i = bit 0 i" by (auto simp: bit_and_iff bit_push_bit_iff)
  qed
  then show ?thesis using plus_and_or [of x "push_bit n y"] by (simp add: push_bit_eq_mult)
qed

lemma js_or_add: "js_or x (y * 2 ^ n) = x + y * 2 ^ n" if "0 \<le> x" "x < 2 ^ n" "0 \<le> y" "y * 2 ^ n < 2 ^ 31" "n \<le> 31"
proof -
  have "(2 :: int) ^ n \<le> 2 ^ 31" using that(5) by (intro power_increasing) simp_all
  then have "toInt32 x = x" using that by (intro toInt32_id) linarith+
  moreover have "toInt32 (y * 2 ^ n) = y * 2 ^ n" using that by (intro toInt32_id) (auto intro: order_trans [of _ 0])
  ultimately show ?thesis using that by (simp add: js_or_def or_disjoint)
qed

section \<open>Rounding\<close>

definition exponent :: "rat \<Rightarrow> int" where
  "exponent x =
     (let (n, d) = quotient_of x; e = int (floorlog 2 (nat n)) - int (floorlog 2 (nat d))
      in if 2 powi e \<le> x then e else e - 1)"

definition round_even :: "rat \<Rightarrow> int" where
  "round_even x =
     (let f = \<lfloor>x\<rfloor>; r = x - of_int f
      in if r < 1 / 2 then f else if 1 / 2 < r then f + 1 else if even f then f else f + 1)"

definition ulp :: "rat \<Rightarrow> rat" where
  "ulp x = 2 powi (exponent \<bar>x\<bar> - 52)"

definition fl :: "rat \<Rightarrow> rat" where
  "fl x = (if x = 0 then 0 else of_int (round_even (x / ulp x)) * ulp x)"

text \<open>Sums and products of integers.\<close>

definition num :: "int \<Rightarrow> int" where
  "num z = \<lfloor>fl (of_int z)\<rfloor>"

lemma powi_nat: "2 powi (int n) = (2 :: rat) ^ n"
  by (simp add: power_int_def)

lemma powi_pos [simp]: "0 < (2 :: rat) powi e"
  by simp

lemma powi_less: "(2 :: rat) powi a < 2 powi b \<Longrightarrow> a < b"
  by (rule ccontr) (use power_int_increasing [of b a "2 :: rat"] in auto)

lemma floorlog_powi:
  assumes "0 < m"
  shows "2 powi (int (floorlog 2 (nat m)) - 1) \<le> (of_int m :: rat)" "of_int m < (2 :: rat) powi int (floorlog 2 (nat m))"
proof -
  have l: "0 < floorlog 2 (nat m)" using assms floorlog_eq_zero_iff [of 2 "nat m"] by auto
  have "2 ^ (floorlog 2 (nat m) - 1) \<le> nat m" "nat m < 2 ^ floorlog 2 (nat m)"
    using floorlog_bounds [of "nat m" 2] assms by auto
  then have "int (2 ^ (floorlog 2 (nat m) - 1)) \<le> int (nat m)" "int (nat m) < int (2 ^ floorlog 2 (nat m))"
    by (simp_all only: of_nat_le_iff of_nat_less_iff)
  then have "2 ^ (floorlog 2 (nat m) - 1) \<le> m" "m < 2 ^ floorlog 2 (nat m)" using assms by simp_all
  then have le: "(of_int (2 ^ (floorlog 2 (nat m) - 1)) :: rat) \<le> of_int m" "(of_int m :: rat) < of_int (2 ^ floorlog 2 (nat m))"
    by (simp_all only: of_int_le_iff of_int_less_iff)
  have "int (floorlog 2 (nat m)) - 1 = int (floorlog 2 (nat m) - 1)" using l by simp
  then show "2 powi (int (floorlog 2 (nat m)) - 1) \<le> (of_int m :: rat)" using le(1) by (simp only: powi_nat of_int_power of_int_numeral)
  show "of_int m < (2 :: rat) powi int (floorlog 2 (nat m))" using le(2) by (simp only: powi_nat of_int_power of_int_numeral)
qed

lemma exponent_bounds: "2 powi exponent x \<le> x \<and> x < 2 powi (exponent x + 1)" if "0 < x"
proof -
  obtain n d where q: "quotient_of x = (n, d)" by fastforce
  have d: "0 < d" and x: "x = of_int n / of_int d" using quotient_of_denom_pos [OF q] quotient_of_div [OF q] by simp_all
  then have n: "0 < n" using that by (simp add: zero_less_divide_iff)
  define a b where a_b_def: "a = floorlog 2 (nat n)" "b = floorlog 2 (nat d)"
  note bounds = floorlog_powi [OF n, folded a_b_def] floorlog_powi [OF d, folded a_b_def]
  have "2 powi (int a - int b - 1) \<le> x"
  proof -
    have "2 powi (int a - int b - 1) * of_int d \<le> 2 powi (int a - int b - 1) * (2 :: rat) powi int b"
      using bounds(4) by (intro mult_left_mono less_imp_le) simp_all
    also have "\<dots> = 2 powi (int a - 1)" by (subst power_int_add [symmetric]) simp_all
    also have "\<dots> \<le> of_int n" by (rule bounds(1))
    finally show ?thesis using d by (simp add: x pos_le_divide_eq)
  qed
  moreover have "x < 2 powi (int a - int b + 1)"
  proof -
    have "of_int n < (2 :: rat) powi int a" by (rule bounds(2))
    also have "(2 :: rat) powi int a = 2 powi (int a - int b + 1) * 2 powi (int b - 1)" by (subst power_int_add [symmetric]) simp_all
    also have "\<dots> \<le> 2 powi (int a - int b + 1) * of_int d" using bounds(3) by (intro mult_left_mono) simp_all
    finally show ?thesis using d by (simp add: x pos_divide_less_eq)
  qed
  ultimately show ?thesis unfolding exponent_def q Let_def by (auto simp: a_b_def [symmetric])
qed

lemma round_even_near: "\<bar>of_int (round_even x) - x\<bar> \<le> 1 / 2"
proof -
  define r where "r = x - of_int \<lfloor>x\<rfloor>"
  have x: "x = of_int \<lfloor>x\<rfloor> + r" and r: "0 \<le> r" "r < 1" unfolding r_def by linarith+
  have "round_even x = \<lfloor>x\<rfloor> \<and> r \<le> 1 / 2 \<or> round_even x = \<lfloor>x\<rfloor> + 1 \<and> 1 / 2 \<le> r"
    unfolding round_even_def Let_def r_def [symmetric] by auto
  then show ?thesis
  proof
    assume "round_even x = \<lfloor>x\<rfloor> \<and> r \<le> 1 / 2"
    then have "of_int (round_even x) - x = - r" "r \<le> 1 / 2" unfolding r_def by simp_all
    then show ?thesis using r(1) by simp
  next
    assume "round_even x = \<lfloor>x\<rfloor> + 1 \<and> 1 / 2 \<le> r"
    then have "of_int (round_even x) - x = 1 - r" "1 / 2 \<le> r" unfolding r_def by simp_all
    then show ?thesis using r(2) by simp
  qed
qed

lemma round_even_ge: "of_int z \<le> x \<Longrightarrow> z \<le> round_even x"
proof -
  assume "of_int z \<le> x"
  then have "z \<le> \<lfloor>x\<rfloor>" by (simp add: le_floor_iff)
  then show ?thesis by (auto simp: round_even_def Let_def)
qed

lemma round_even_int [simp]: "round_even (of_int z) = z"
  by (simp add: round_even_def)

lemma fl_error: "\<bar>fl x - x\<bar> \<le> ulp x / 2"
proof (cases "x = 0")
  case False
  have u: "0 < ulp x" by (simp add: ulp_def)
  have "fl x - x = (of_int (round_even (x / ulp x)) - x / ulp x) * ulp x" using u False by (simp add: fl_def field_simps)
  then have "\<bar>fl x - x\<bar> = \<bar>of_int (round_even (x / ulp x)) - x / ulp x\<bar> * ulp x" using u by (simp add: abs_mult)
  also have "\<dots> \<le> 1 / 2 * ulp x" using round_even_near u by (intro mult_right_mono) simp_all
  finally show ?thesis by simp
qed (simp add: fl_def ulp_def)

lemma fl_error_relative: "\<bar>fl x - x\<bar> \<le> x / 2 ^ 53" if "0 < x"
proof -
  have "ulp x / 2 = 2 powi exponent x / 2 ^ 53"
    using that by (simp add: ulp_def power_int_diff)
  also have "\<dots> \<le> x / 2 ^ 53" using exponent_bounds [OF that] by (simp add: divide_right_mono)
  finally show ?thesis using fl_error [of x] by linarith
qed

lemma fl_error_below: "\<bar>fl x - x\<bar> \<le> 2 ^ k / 2 ^ 54" if "0 < x" "x < 2 ^ k"
proof -
  have "(2 :: rat) powi exponent x < 2 powi int k" using exponent_bounds [OF that(1)] that(2) powi_nat by (metis le_less_trans)
  then have "exponent x < int k" by (rule powi_less)
  then have "(2 :: rat) powi (exponent x + 1) \<le> 2 powi int k" by (intro power_int_increasing) simp_all
  then have "ulp x \<le> 2 ^ k / 2 ^ 53" using that by (simp add: ulp_def power_int_diff power_int_add powi_nat field_simps)
  then show ?thesis using fl_error [of x] by (simp add: field_simps)
qed

text \<open>Integers of up to 53 bits are not rounded, and nothing above such an integer is rounded to below it.\<close>

lemma ulp_divides:
  assumes "0 < x" "x < 2 ^ 53"
  obtains k where "1 = of_int k * ulp x"
proof -
  have "(2 :: rat) powi exponent x < 2 powi 53" using exponent_bounds [OF assms(1)] assms(2) by (simp add: power_int_def)
  then have "exponent x < 53" by (rule powi_less)
  then have "1 = of_int (2 ^ nat (52 - exponent x)) * ulp x"
    using assms(1) by (simp add: ulp_def powi_nat [symmetric] power_int_add [symmetric])
  then show thesis by (rule that)
qed

lemma fl_ge: "of_int z \<le> fl x" if "of_int z \<le> x" "0 \<le> z" "z \<le> 2 ^ 53"
proof (cases "0 < x \<and> x < 2 ^ 53")
  case True
  then obtain k where k: "1 = of_int k * ulp x" using ulp_divides by blast
  have u: "0 < ulp x" by (simp add: ulp_def)
  have "of_int (z * k) \<le> x / ulp x" using that(1) u k by (simp add: pos_le_divide_eq mult.assoc)
  then have "z * k \<le> round_even (x / ulp x)" by (rule round_even_ge)
  then have "of_int (z * k) * ulp x \<le> of_int (round_even (x / ulp x)) * ulp x" using u by (intro mult_right_mono) (simp_all only: of_int_le_iff)
  moreover have "of_int (z * k) * ulp x = of_int z" using k by (simp add: mult.assoc)
  ultimately show ?thesis using True by (simp only: fl_def) simp
next
  case False
  show ?thesis
  proof (cases "x = 0")
    case True
    then show ?thesis using that by (simp add: fl_def)
  next
    case nonzero: False
    then have x: "2 ^ 53 \<le> x" using False that by auto
    then have e: "2 powi exponent x \<le> x" "0 < x" using exponent_bounds [of x] by auto
    have "(2 :: rat) powi 53 < 2 powi (exponent x + 1)" using exponent_bounds [OF e(2)] x by (simp add: power_int_def)
    then have "53 < exponent x + 1" by (rule powi_less)
    then have big: "2 powi 53 \<le> (2 :: rat) powi exponent x" by (intro power_int_increasing) simp_all
    have u: "0 < ulp x" "ulp x = 2 powi exponent x / 2 ^ 52" using e(2) by (simp_all add: ulp_def power_int_diff)
    have "of_int (2 ^ 52) * ulp x \<le> x" using e(1) u(2) by simp
    then have "of_int (2 ^ 52) \<le> x / ulp x" using u(1) by (simp only: pos_le_divide_eq)
    then have "2 ^ 52 \<le> round_even (x / ulp x)" by (rule round_even_ge)
    then have "of_int (2 ^ 52) * ulp x \<le> of_int (round_even (x / ulp x)) * ulp x" using u(1) by (intro mult_right_mono) (simp_all only: of_int_le_iff)
    then have "of_int (2 ^ 52) * ulp x \<le> fl x" using nonzero by (simp only: fl_def if_False)
    then have "2 powi exponent x \<le> fl x" using u(2) by simp
    moreover have "of_int z \<le> (2 ^ 53 :: rat)" using that(3) by (metis of_int_le_iff of_int_numeral of_int_power)
    ultimately show ?thesis using big by (simp add: power_int_def)
  qed
qed

lemma exponent_abs: "ulp (- x) = ulp x"
  by (simp add: ulp_def)

lemma fl_int: "fl (of_int z) = of_int z" if "\<bar>z\<bar> < 2 ^ 53"
proof (cases "z = 0")
  case False
  have "\<bar>of_int z :: rat\<bar> < 2 ^ 53" using that by (metis of_int_abs of_int_less_iff of_int_numeral of_int_power)
  then obtain k where k: "1 = of_int k * ulp \<bar>of_int z\<bar>" using ulp_divides [of "\<bar>of_int z\<bar>"] False by auto
  then have k: "1 = of_int k * ulp (of_int z)" by (simp add: ulp_def)
  have u: "0 < ulp (of_int z)" by (simp add: ulp_def)
  have "of_int z / ulp (of_int z) = of_int (z * k)" using k u by (simp add: divide_eq_eq mult.assoc)
  then have "fl (of_int z) = of_int (z * k) * ulp (of_int z)" using False by (simp only: fl_def round_even_int) simp
  also have "\<dots> = of_int z * (of_int k * ulp (of_int z))" by simp
  finally show ?thesis using k by simp
qed (simp add: fl_def)

lemma num_id [simp]: "\<bar>z\<bar> < 2 ^ 53 \<Longrightarrow> num z = z"
  by (simp add: num_def fl_int)

end
