(* ===== verification/BigInteger.thy ===== *)
theory BigInteger
  imports JsNumber "HOL-Library.Monad_Syntax"
begin

text \<open>
  Integers of any size (\<open>auth/src/providers/cognito/utils/srp/BigInteger/BigInteger.ts\<close>): arrays of digits of 26, 28
  or 30 bits, the routines that multiply a number by a digit with the bitwise operators or with floating-point numbers,
  addition, multiplication, division with estimated quotient digits, texts, and modular powers.

  A method \<open>x.fooTo(a, r)\<close> overwrites the object \<open>r\<close>; here it takes the old value of \<open>r\<close> and returns the new one. The
  calls in which \<open>r\<close> is also an operand read each digit before they overwrite it, so an operand is its old value.
  Positions of an array behind the digits in use keep what has been written there. Loops that need not end are
  partial functions.
\<close>

section \<open>The engine\<close>

datatype am_engine = AM1 | AM2 | AM3

fun dbits :: "am_engine \<Rightarrow> nat" where
  "dbits AM1 = 26"
| "dbits AM2 = 30"
| "dbits AM3 = 28"

definition DM :: "am_engine \<Rightarrow> int" where "DM e = js_shl 1 (dbits e) - 1"
definition DV :: "am_engine \<Rightarrow> int" where "DV e = js_shl 1 (dbits e)"
definition BI_FP :: nat where "BI_FP = 52"
definition FV :: rat where "FV = 2 ^ BI_FP"
definition F1 :: "am_engine \<Rightarrow> nat" where "F1 e = BI_FP - dbits e"
definition F2 :: "am_engine \<Rightarrow> nat" where "F2 e = 2 * dbits e - BI_FP"

definition j_lm :: bool where
  "j_lm \<longleftrightarrow> js_and 0xdeadbeefcafe 0xffffff = 0xefcafe"

text \<open>\<open>None\<close>: there is no object \<open>navigator\<close>.\<close>

definition choose_engine :: "string option \<Rightarrow> am_engine" where
  "choose_engine appName =
     (case appName of
        None \<Rightarrow> AM3
      | Some n \<Rightarrow>
          if j_lm \<and> n = ''Microsoft Internet Explorer'' then AM2
          else if j_lm \<and> n \<noteq> ''Netscape'' then AM1
          else AM3)"

section \<open>Multiplication by a digit\<close>

text \<open>
  \<open>am\<close> adds \<open>x\<close> times the digits \<open>a\<close> from \<open>i\<close> on to the digits \<open>w\<close> from \<open>j\<close> on, \<open>n\<close> digits with first carry \<open>c\<close>; the
  results are the digits and the last carry.
\<close>

type_synonym digits = "nat \<Rightarrow> int"

text \<open>The body of each loop, from a digit of both arrays and the carry to a digit and the next carry.\<close>

definition am1_body :: "int \<Rightarrow> int \<Rightarrow> int \<Rightarrow> int \<Rightarrow> int \<times> int" where
  "am1_body x a w c = (let v = num (num (num (x * a) + w) + c) in (js_and v 0x3ffffff, v div 0x4000000))"

definition am2_body :: "int \<Rightarrow> int \<Rightarrow> int \<Rightarrow> int \<Rightarrow> int \<Rightarrow> int \<times> int" where
  "am2_body xl xh a w c =
     (let l = js_and a 0x7fff;
          h = js_shr a 15;
          m = num (num (xh * l) + num (h * xl));
          l' = num (num (num (num (xl * l) + js_shl (js_and m 0x7fff) 15) + w) + js_and c 0x3fffffff);
          c' = num (num (num (js_ushr l' 30 + js_ushr m 15) + num (xh * h)) + js_ushr c 30)
      in (js_and l' 0x3fffffff, c'))"

definition am3_body :: "int \<Rightarrow> int \<Rightarrow> int \<Rightarrow> int \<Rightarrow> int \<Rightarrow> int \<times> int" where
  "am3_body xl xh a w c =
     (let l = js_and a 0x3fff;
          h = js_shr a 14;
          m = num (num (xh * l) + num (h * xl));
          l' = num (num (num (num (xl * l) + js_shl (js_and m 0x3fff) 14) + w) + c);
          c' = num (num (js_shr l' 28 + js_shr m 14) + num (xh * h))
      in (js_and l' 0xfffffff, c'))"

fun am_loop :: "(int \<Rightarrow> int \<Rightarrow> int \<Rightarrow> int \<times> int) \<Rightarrow> digits \<Rightarrow> nat \<Rightarrow> digits \<Rightarrow> nat \<Rightarrow> int \<Rightarrow> nat \<Rightarrow> digits \<times> int" where
  "am_loop body a i w j c 0 = (w, c)"
| "am_loop body a i w j c (Suc n) = (let (v, c') = body (a i) (w j) c in am_loop body a (Suc i) (w(j := v)) (Suc j) c' n)"

definition am1 :: "digits \<Rightarrow> nat \<Rightarrow> int \<Rightarrow> digits \<Rightarrow> nat \<Rightarrow> int \<Rightarrow> nat \<Rightarrow> digits \<times> int" where
  "am1 a i x w j c n = am_loop (am1_body x) a i w j c n"

definition am2 :: "digits \<Rightarrow> nat \<Rightarrow> int \<Rightarrow> digits \<Rightarrow> nat \<Rightarrow> int \<Rightarrow> nat \<Rightarrow> digits \<times> int" where
  "am2 a i x w j c n = am_loop (am2_body (js_and x 0x7fff) (js_shr x 15)) a i w j c n"

definition am3 :: "digits \<Rightarrow> nat \<Rightarrow> int \<Rightarrow> digits \<Rightarrow> nat \<Rightarrow> int \<Rightarrow> nat \<Rightarrow> digits \<times> int" where
  "am3 a i x w j c n = am_loop (am3_body (js_and x 0x3fff) (js_shr x 14)) a i w j c n"

fun am :: "am_engine \<Rightarrow> digits \<Rightarrow> nat \<Rightarrow> int \<Rightarrow> digits \<Rightarrow> nat \<Rightarrow> int \<Rightarrow> nat \<Rightarrow> digits \<times> int" where
  "am AM1 = am1"
| "am AM2 = am2"
| "am AM3 = am3"

section \<open>Numbers\<close>

text \<open>The sign \<open>s\<close> is 0 or -1 and stands for all digits from \<open>t\<close> on, as in the two's complement.\<close>

record bigint =
  bi_s :: int
  bi_t :: nat
  bi_d :: digits

definition nbi :: bigint where
  "nbi = \<lparr>bi_s = 0, bi_t = 0, bi_d = (\<lambda>i. 0)\<rparr>"

definition copyTo :: "bigint \<Rightarrow> bigint \<Rightarrow> bigint" where
  "copyTo x r = r\<lparr>bi_d := fold (\<lambda>i d. d(i := bi_d x i)) (rev [0..<bi_t x]) (bi_d r), bi_t := bi_t x, bi_s := bi_s x\<rparr>"

definition fromInt :: "am_engine \<Rightarrow> int \<Rightarrow> bigint \<Rightarrow> bigint" where
  "fromInt e x r =
     (let r1 = r\<lparr>bi_t := 1, bi_s := if x < 0 then - 1 else 0\<rparr>
      in if 0 < x then r1\<lparr>bi_d := (bi_d r1)(0 := x)\<rparr>
         else if x < - 1 then r1\<lparr>bi_d := (bi_d r1)(0 := x + DV e)\<rparr>
         else r1\<lparr>bi_t := 0\<rparr>)"

definition nbv :: "am_engine \<Rightarrow> int \<Rightarrow> bigint" where
  "nbv e i = fromInt e i nbi"

fun clamp_loop :: "int \<Rightarrow> digits \<Rightarrow> nat \<Rightarrow> nat" where
  "clamp_loop c d 0 = 0"
| "clamp_loop c d (Suc t) = (if d t = c then clamp_loop c d t else Suc t)"

definition clamp :: "am_engine \<Rightarrow> bigint \<Rightarrow> bigint" where
  "clamp e x = x\<lparr>bi_t := clamp_loop (js_and (bi_s x) (DM e)) (bi_d x) (bi_t x)\<rparr>"

section \<open>Addition and comparison\<close>

text \<open>One digit after the other: \<open>c += f(i); r[i] = c & DM; c >>= DB\<close>.\<close>

fun carry_loop :: "am_engine \<Rightarrow> (nat \<Rightarrow> int) \<Rightarrow> nat list \<Rightarrow> int \<Rightarrow> digits \<Rightarrow> digits \<times> int" where
  "carry_loop e f [] c d = (d, c)"
| "carry_loop e f (i # js) c d =
     (let v = c + f i in carry_loop e f js (js_shr v (dbits e)) (d(i := js_and v (DM e))))"

definition subTo :: "am_engine \<Rightarrow> bigint \<Rightarrow> bigint \<Rightarrow> bigint \<Rightarrow> bigint" where
  "subTo e x a r =
     (let m = min (bi_t a) (bi_t x);
          (d1, c1) = carry_loop e (\<lambda>i. bi_d x i - bi_d a i) [0..<m] 0 (bi_d r);
          (d2, c2) =
            (if bi_t a < bi_t x then
               let (d, c) = carry_loop e (bi_d x) [m..<bi_t x] (c1 - bi_s a) d1 in (d, c + bi_s x)
             else
               let (d, c) = carry_loop e (\<lambda>i. - bi_d a i) [m..<bi_t a] (c1 + bi_s x) d1 in (d, c - bi_s a));
          i = max (bi_t a) (bi_t x);
          r1 = r\<lparr>bi_s := if c2 < 0 then - 1 else 0\<rparr>;
          r2 = (if c2 < - 1 then r1\<lparr>bi_d := d2(i := DV e + c2), bi_t := Suc i\<rparr>
                else if 0 < c2 then r1\<lparr>bi_d := d2(i := c2), bi_t := Suc i\<rparr>
                else r1\<lparr>bi_d := d2, bi_t := i\<rparr>)
      in clamp e r2)"

definition addTo :: "am_engine \<Rightarrow> bigint \<Rightarrow> bigint \<Rightarrow> bigint \<Rightarrow> bigint" where
  "addTo e x a r =
     (let m = min (bi_t a) (bi_t x);
          (d1, c1) = carry_loop e (\<lambda>i. bi_d x i + bi_d a i) [0..<m] 0 (bi_d r);
          (d2, c2) =
            (if bi_t a < bi_t x then
               let (d, c) = carry_loop e (bi_d x) [m..<bi_t x] (c1 + bi_s a) d1 in (d, c + bi_s x)
             else
               let (d, c) = carry_loop e (bi_d a) [m..<bi_t a] (c1 + bi_s x) d1 in (d, c + bi_s a));
          i = max (bi_t a) (bi_t x);
          r1 = r\<lparr>bi_s := if c2 < 0 then - 1 else 0\<rparr>;
          r2 = (if 0 < c2 then r1\<lparr>bi_d := d2(i := c2), bi_t := Suc i\<rparr>
                else if c2 < - 1 then r1\<lparr>bi_d := d2(i := DV e + c2), bi_t := Suc i\<rparr>
                else r1\<lparr>bi_d := d2, bi_t := i\<rparr>)
      in clamp e r2)"

definition ZERO :: "am_engine \<Rightarrow> bigint" where "ZERO e = nbv e 0"
definition ONE :: "am_engine \<Rightarrow> bigint" where "ONE e = nbv e 1"

definition negate :: "am_engine \<Rightarrow> bigint \<Rightarrow> bigint" where
  "negate e x = subTo e (ZERO e) x nbi"

definition bn_abs :: "am_engine \<Rightarrow> bigint \<Rightarrow> bigint" where
  "bn_abs e x = (if bi_s x < 0 then negate e x else x)"

fun compare_digits :: "digits \<Rightarrow> digits \<Rightarrow> nat \<Rightarrow> int" where
  "compare_digits d a 0 = 0"
| "compare_digits d a (Suc i) = (let r = d i - a i in if r \<noteq> 0 then r else compare_digits d a i)"

definition compareTo :: "bigint \<Rightarrow> bigint \<Rightarrow> int" where
  "compareTo x a =
     (let r = bi_s x - bi_s a
      in if r \<noteq> 0 then r
         else let r = int (bi_t x) - int (bi_t a)
              in if r \<noteq> 0 then (if bi_s x < 0 then - r else r)
                 else compare_digits (bi_d x) (bi_d a) (bi_t x))"

definition bn_equals :: "bigint \<Rightarrow> bigint \<Rightarrow> bool" where
  "bn_equals x a \<longleftrightarrow> compareTo x a = 0"

section \<open>Texts\<close>

datatype radix = Radix2 | Radix4 | Radix8 | Radix16 | Radix32

fun radix_bits :: "radix \<Rightarrow> nat" where
  "radix_bits Radix16 = 4"
| "radix_bits Radix8 = 3"
| "radix_bits Radix2 = 1"
| "radix_bits Radix32 = 5"
| "radix_bits Radix4 = 2"

text \<open>Other radices throw.\<close>

definition radix_of :: "int \<Rightarrow> radix option" where
  "radix_of b = map_of [(16, Radix16), (8, Radix8), (2, Radix2), (32, Radix32), (4, Radix4)] b"

definition BI_RM :: string where
  "BI_RM = ''0123456789abcdefghijklmnopqrstuvwxyz''"

definition int2char :: "int \<Rightarrow> string" where
  "int2char n = (if 0 \<le> n \<and> n < 36 then [BI_RM ! nat n] else [])"

definition intAt :: "char \<Rightarrow> int" where
  "intAt c =
     (let n = int (of_char c)
      in if 48 \<le> n \<and> n < 58 then n - 48
         else if 97 \<le> n \<and> n < 123 then n - 97 + 10
         else if 65 \<le> n \<and> n < 91 then n - 65 + 10
         else - 1)"

text \<open>The text from its end.\<close>

fun fromString_loop :: "am_engine \<Rightarrow> nat \<Rightarrow> string \<Rightarrow> bool \<Rightarrow> nat \<Rightarrow> bigint \<Rightarrow> bigint \<times> bool" where
  "fromString_loop e k [] mi sh r = (r, mi)"
| "fromString_loop e k (c # cs) mi sh r =
     (let x = intAt c; t = bi_t r; d = bi_d r
      in if x < 0 then fromString_loop e k cs (if c = CHR ''-'' then True else mi) sh r
         else
           (let r1 = (if sh = 0 then r\<lparr>bi_d := d(t := x), bi_t := Suc t\<rparr>
                 else if dbits e < sh + k then
                   r\<lparr>bi_d := d(t - 1 := js_or (d (t - 1)) (js_shl (js_and x (js_shl 1 (dbits e - sh) - 1)) sh),
                        t := js_shr x (dbits e - sh)), bi_t := Suc t\<rparr>
                 else r\<lparr>bi_d := d(t - 1 := js_or (d (t - 1)) (js_shl x sh))\<rparr>);
                sh1 = sh + k
            in fromString_loop e k cs False (if dbits e \<le> sh1 then sh1 - dbits e else sh1) r1))"

definition fromString :: "am_engine \<Rightarrow> string \<Rightarrow> radix \<Rightarrow> bigint \<Rightarrow> bigint" where
  "fromString e s b r =
     (let (r1, mi) = fromString_loop e (radix_bits b) (rev s) False 0 (r\<lparr>bi_t := 0, bi_s := 0\<rparr>);
          r2 = clamp e r1
      in if mi then subTo e (ZERO e) r2 r2 else r2)"

definition new_BigInteger :: "am_engine \<Rightarrow> string \<Rightarrow> int \<Rightarrow> bigint option" where
  "new_BigInteger e a b = map_option (\<lambda>rx. fromString e a rx nbi) (radix_of b)"

definition digit_at :: "digits \<Rightarrow> int \<Rightarrow> int" where
  "digit_at d i = (if i < 0 then 0 else d (nat i))"

function toString_loop :: "am_engine \<Rightarrow> radix \<Rightarrow> digits \<Rightarrow> int \<Rightarrow> int \<Rightarrow> bool \<Rightarrow> string \<Rightarrow> bool \<times> string" where
  "toString_loop e b dg i p m r =
     (if i < 0 then (m, r)
      else
        (let k = int (radix_bits b);
             d = (if p < k then
                    js_or (js_shl (js_and (digit_at dg i) (js_shl 1 (nat p) - 1)) (nat (k - p)))
                      (js_shr (digit_at dg (i - 1)) (nat (p + int (dbits e) - k)))
                  else js_and (js_shr (digit_at dg i) (nat (p - k))) (js_shl 1 (radix_bits b) - 1));
             m1 = (m \<or> 0 < d);
             r1 = (if m1 then r @ int2char d else r)
         in if p < k then toString_loop e b dg (i - 1) (p + int (dbits e) - k) m1 r1
            else if p - k \<le> 0 then toString_loop e b dg (i - 1) (p - k + int (dbits e)) m1 r1
            else toString_loop e b dg i (p - k) m1 r1))"
  by pat_completeness auto
termination
proof (relation "measures [\<lambda>(e, b, dg, i, p, m, r). nat (i + 1), \<lambda>(e, b, dg, i, p, m, r). nat p]", goal_cases)
  case (4 e b dg i p m r k d m1 r1)
  have "0 < k" using 4(2) by (cases b) simp_all
  then show ?case using 4 by auto
qed auto

declare toString_loop.simps [simp del]

text \<open>The digits of a number that is not negative.\<close>

definition digits_text :: "am_engine \<Rightarrow> radix \<Rightarrow> bigint \<Rightarrow> string" where
  "digits_text e b x =
     (let i = int (bi_t x);
          p = int (dbits e) - i * int (dbits e) mod int (radix_bits b);
          d = js_shr (digit_at (bi_d x) (i - 1)) (nat p);
          (m, r) = (if p < int (dbits e) \<and> 0 < d then (True, int2char d) else (False, []));
          (m1, r1) = (if 0 < i then toString_loop e b (bi_d x) (i - 1) p m r else (False, []))
      in if m1 then r1 else ''0'')"

definition bn_toString :: "am_engine \<Rightarrow> radix \<Rightarrow> bigint \<Rightarrow> string" where
  "bn_toString e b x = (if bi_s x < 0 then ''-'' @ digits_text e b (negate e x) else digits_text e b x)"

section \<open>Bits and shifts\<close>

definition nbits :: "int \<Rightarrow> nat" where
  "nbits x =
     (let (x, r) = (let t = js_ushr x 16 in if t \<noteq> 0 then (t, 1 + 16) else (x, 1));
          (x, r) = (let t = js_shr x 8 in if t \<noteq> 0 then (t, r + 8) else (x, r));
          (x, r) = (let t = js_shr x 4 in if t \<noteq> 0 then (t, r + 4) else (x, r));
          (x, r) = (let t = js_shr x 2 in if t \<noteq> 0 then (t, r + 2) else (x, r))
      in if js_shr x 1 \<noteq> 0 then r + 1 else r)"

definition bitLength :: "am_engine \<Rightarrow> bigint \<Rightarrow> nat" where
  "bitLength e x =
     (if bi_t x = 0 then 0
      else dbits e * (bi_t x - 1) + nbits (js_xor (bi_d x (bi_t x - 1)) (js_and (bi_s x) (DM e))))"

text \<open>Division shifts by a negative number when the dividend is a zero that is not in normal form.\<close>

definition dLShiftTo :: "bigint \<Rightarrow> int \<Rightarrow> bigint \<Rightarrow> bigint" where
  "dLShiftTo x n r =
     (let d1 = fold (\<lambda>i d. if int i + n < 0 then d else d(nat (int i + n) := bi_d x i)) (rev [0..<bi_t x]) (bi_d r);
          d2 = fold (\<lambda>i d. d(i := 0)) (rev [0..<nat n]) d1
      in r\<lparr>bi_d := d2, bi_t := nat (int (bi_t x) + n), bi_s := bi_s x\<rparr>)"

definition dRShiftTo :: "bigint \<Rightarrow> nat \<Rightarrow> bigint \<Rightarrow> bigint" where
  "dRShiftTo x n r =
     r\<lparr>bi_d := fold (\<lambda>i d. d(i - n := bi_d x i)) [n..<bi_t x] (bi_d r), bi_t := bi_t x - n, bi_s := bi_s x\<rparr>"

fun lShift_digit :: "am_engine \<Rightarrow> bigint \<Rightarrow> nat \<Rightarrow> nat \<Rightarrow> nat \<Rightarrow> digits \<times> int \<Rightarrow> digits \<times> int" where
  "lShift_digit e x bs ds i (d, c) =
     (let cbs = dbits e - bs
      in (d(i + ds + 1 := js_or (js_shr (bi_d x i) cbs) c), js_shl (js_and (bi_d x i) (js_shl 1 cbs - 1)) bs))"

definition lShiftTo :: "am_engine \<Rightarrow> bigint \<Rightarrow> nat \<Rightarrow> bigint \<Rightarrow> bigint" where
  "lShiftTo e x n r =
     (let bs = n mod dbits e;
          ds = n div dbits e;
          (d1, c) = fold (lShift_digit e x bs ds) (rev [0..<bi_t x]) (bi_d r, js_and (js_shl (bi_s x) bs) (DM e));
          d2 = fold (\<lambda>i d. d(i := 0)) (rev [0..<ds]) d1
      in clamp e (r\<lparr>bi_d := d2(ds := c), bi_t := bi_t x + ds + 1, bi_s := bi_s x\<rparr>))"

definition rShift_digit :: "am_engine \<Rightarrow> bigint \<Rightarrow> nat \<Rightarrow> nat \<Rightarrow> nat \<Rightarrow> digits \<Rightarrow> digits" where
  "rShift_digit e x bs ds i d =
     d(i - ds - 1 := js_or (d (i - ds - 1)) (js_shl (js_and (bi_d x i) (js_shl 1 bs - 1)) (dbits e - bs)),
       i - ds := js_shr (bi_d x i) bs)"

definition rShiftTo :: "am_engine \<Rightarrow> bigint \<Rightarrow> nat \<Rightarrow> bigint \<Rightarrow> bigint" where
  "rShiftTo e x n r =
     (let r1 = r\<lparr>bi_s := bi_s x\<rparr>;
          ds = n div dbits e
      in if bi_t x \<le> ds then r1\<lparr>bi_t := 0\<rparr>
         else
           (let bs = n mod dbits e;
                d1 = fold (rShift_digit e x bs ds) [ds + 1..<bi_t x] ((bi_d r)(0 := js_shr (bi_d x ds) bs));
                d2 = (if 0 < bs then
                        d1(bi_t x - ds - 1 := js_or (d1 (bi_t x - ds - 1)) (js_shl (js_and (bi_s x) (js_shl 1 bs - 1)) (dbits e - bs)))
                      else d1)
            in clamp e (r1\<lparr>bi_d := d2, bi_t := bi_t x - ds\<rparr>)))"

section \<open>Multiplication\<close>

definition mult_digit :: "am_engine \<Rightarrow> bigint \<Rightarrow> bigint \<Rightarrow> nat \<Rightarrow> digits \<Rightarrow> digits" where
  "mult_digit e x y i d = (let (d', c) = am e (bi_d x) 0 (bi_d y i) d i 0 (bi_t x) in d'(i + bi_t x := c))"

definition multiplyTo :: "am_engine \<Rightarrow> bigint \<Rightarrow> bigint \<Rightarrow> bigint \<Rightarrow> bigint" where
  "multiplyTo e z a r =
     (let x = bn_abs e z;
          y = bn_abs e a;
          d0 = fold (\<lambda>i d. d(i := 0)) (rev [0..<bi_t x]) (bi_d r);
          d1 = fold (mult_digit e x y) [0..<bi_t y] d0;
          r1 = clamp e (r\<lparr>bi_d := d1, bi_t := bi_t x + bi_t y, bi_s := 0\<rparr>)
      in if bi_s z \<noteq> bi_s a then subTo e (ZERO e) r1 r1 else r1)"

definition square_step :: "am_engine \<Rightarrow> bigint \<Rightarrow> nat \<Rightarrow> digits \<Rightarrow> digits" where
  "square_step e x i d =
     (let (d1, c) = am e (bi_d x) i (bi_d x i) d (2 * i) 0 1;
          (d2, c2) = am e (bi_d x) (i + 1) (num (2 * bi_d x i)) d1 (2 * i + 1) c (bi_t x - i - 1);
          h = d1 (i + bi_t x) + c2
      in if DV e \<le> h then d2(i + bi_t x := h - DV e, i + bi_t x + 1 := 1) else d2(i + bi_t x := h))"

definition squareTo :: "am_engine \<Rightarrow> bigint \<Rightarrow> bigint \<Rightarrow> bigint" where
  "squareTo e z r =
     (let x = bn_abs e z;
          t = 2 * bi_t x;
          d0 = fold (\<lambda>i d. d(i := 0)) (rev [0..<t]) (bi_d r);
          d1 = fold (square_step e x) [0..<bi_t x - 1] d0;
          d2 = (if 0 < t then
                  let i = bi_t x - 1; (d', c) = am e (bi_d x) i (bi_d x i) d1 (2 * i) 0 1 in d'(t - 1 := d1 (t - 1) + c)
                else d1)
      in clamp e (r\<lparr>bi_d := d2, bi_t := t, bi_s := 0\<rparr>))"

end
