(* ===== verification/ModularArithmetic.thy ===== *)
theory ModularArithmetic
  imports BigInteger
begin

text \<open>
  Division and modular powers of \<open>BigInteger.ts\<close>. Division estimates each digit of the quotient with floating-point
  numbers and corrects estimates that are too large; powers take windows of the exponent and Montgomery's reduction.
\<close>

section \<open>Division\<close>

text \<open>\<open>while (r[i] < --qd) r.subTo(t, r)\<close>\<close>

partial_function (option) div_correct :: "am_engine \<Rightarrow> nat \<Rightarrow> bigint \<Rightarrow> int \<Rightarrow> bigint \<Rightarrow> bigint option" where
  "div_correct e i t qd r =
     (if bi_d r i < qd - 1 then div_correct e i t (qd - 1) (subTo e r t r) else Some r)"

text \<open>The estimate of a digit from the two highest digits of the rest.\<close>

definition quotient_digit :: "am_engine \<Rightarrow> int \<Rightarrow> rat \<Rightarrow> rat \<Rightarrow> int \<Rightarrow> int \<Rightarrow> int" where
  "quotient_digit e y0 d1 d2 ri ri1 =
     (if ri = y0 then DM e
      else \<lfloor>fl (fl (of_int ri * d1) + fl (of_int (num (ri1 + js_shl 1 (F2 e))) * d2))\<rfloor>)"

text \<open>The loop over the digits of the quotient; \<open>y\<close> is the complement of the divisor, of \<open>ys\<close> digits.\<close>

fun div_loop :: "am_engine \<Rightarrow> int \<Rightarrow> rat \<Rightarrow> rat \<Rightarrow> bigint \<Rightarrow> nat \<Rightarrow> nat \<Rightarrow> nat \<Rightarrow> bigint \<times> bigint \<Rightarrow> (bigint \<times> bigint) option" where
  "div_loop e y0 d1 d2 y ys i 0 (r, t) = Some (r, t)"
| "div_loop e y0 d1 d2 y ys i (Suc j) (r, t) =
     (let i1 = i - 1;
          qd = quotient_digit e y0 d1 d2 (bi_d r i1) (bi_d r (i1 - 1));
          (d, c) = am e (bi_d y) 0 qd (bi_d r) j 0 ys;
          r1 = r\<lparr>bi_d := d(i1 := bi_d r i1 + c)\<rparr>
      in if bi_d r1 i1 < qd then
           (let t1 = dLShiftTo y (int j) t
            in do {
              r2 \<leftarrow> div_correct e i1 t1 qd (subTo e r1 t1 r1);
              div_loop e y0 d1 d2 y ys i1 j (r2, t1)
            })
         else div_loop e y0 d1 d2 y ys i1 j (r1, t))"

text \<open>The first two digits of the divisor as a floating-point number.\<close>

definition divisor_top :: "am_engine \<Rightarrow> bigint \<Rightarrow> int" where
  "divisor_top e y =
     (let ys = bi_t y
      in num (num (bi_d y (ys - 1) * js_shl 1 (F1 e)) + (if 1 < ys then js_shr (bi_d y (ys - 2)) (F2 e) else 0)))"

definition pad :: "nat \<Rightarrow> bigint \<Rightarrow> bigint" where
  "pad n x = x\<lparr>bi_d := fold (\<lambda>i d. d(i := 0)) [bi_t x..<n] (bi_d x), bi_t := max (bi_t x) n\<rparr>"

text \<open>
  \<open>q\<close> and \<open>r\<close> are the objects for quotient and remainder, \<open>None\<close> for \<open>null\<close>; \<open>divRemTo\<close> returns what becomes of them.
\<close>

definition divRemTo :: "am_engine \<Rightarrow> bigint \<Rightarrow> bigint \<Rightarrow> bigint option \<Rightarrow> bigint option \<Rightarrow> (bigint option \<times> bigint option) option" where
  "divRemTo e x m q r =
     (let pm = bn_abs e m; pt = bn_abs e x
      in if bi_t pm = 0 then Some (q, r)
         else if bi_t pt < bi_t pm then Some (map_option (fromInt e 0) q, map_option (copyTo x) r)
         else
           (let r0 = (case r of None \<Rightarrow> nbi | Some r \<Rightarrow> r);
                nsh = dbits e - nbits (bi_d pm (bi_t pm - 1));
                (y, r1) = (if 0 < nsh then (lShiftTo e pm nsh nbi, lShiftTo e pt nsh r0) else (copyTo pm nbi, copyTo pt r0));
                ys = bi_t y;
                y0 = bi_d y (ys - 1)
            in if y0 = 0 then Some (q, map_option (\<lambda>_. r1) r)
               else
                 (let yt = of_int (divisor_top e y);
                      d1 = fl (FV / yt);
                      d2 = fl (of_int (js_shl 1 (F1 e)) / yt);
                      i = bi_t r1;
                      j = int i - int ys;
                      t1 = dLShiftTo y j (case q of None \<Rightarrow> nbi | Some q \<Rightarrow> q);
                      r2 = (if 0 \<le> compareTo r1 t1 then
                              let r' = r1\<lparr>bi_d := (bi_d r1)(i := 1), bi_t := Suc i\<rparr> in subTo e r' t1 r'
                            else r1);
                      t2 = dLShiftTo (ONE e) (int ys) t1;
                      y1 = pad ys (subTo e t2 y y)
                  in do {
                    (r3, t3) \<leftarrow> div_loop e y0 d1 d2 y1 ys i (nat j) (r2, t2);
                    let q1 = (let q' = dRShiftTo r3 ys t3 in if bi_s x \<noteq> bi_s m then subTo e (ZERO e) q' q' else q');
                    let r4 = clamp e (r3\<lparr>bi_t := ys\<rparr>);
                    let r5 = (if 0 < nsh then rShiftTo e r4 nsh r4 else r4);
                    let r6 = (if bi_s x < 0 then subTo e (ZERO e) r5 r5 else r5);
                    Some (map_option (\<lambda>_. q1) q, map_option (\<lambda>_. r6) r)
                  })))"

definition remainder_of :: "(bigint option \<times> bigint option) \<Rightarrow> bigint \<Rightarrow> bigint" where
  "remainder_of qr r = (case snd qr of None \<Rightarrow> r | Some r' \<Rightarrow> r')"

definition bn_mod :: "am_engine \<Rightarrow> bigint \<Rightarrow> bigint \<Rightarrow> bigint option" where
  "bn_mod e x a =
     do {
       qr \<leftarrow> divRemTo e (bn_abs e x) a None (Some nbi);
       let r = remainder_of qr nbi;
       Some (if bi_s x < 0 \<and> 0 < compareTo r (ZERO e) then subTo e a r r else r)
     }"

definition bn_divide :: "am_engine \<Rightarrow> bigint \<Rightarrow> bigint \<Rightarrow> bigint option" where
  "bn_divide e x a =
     do {
       qr \<leftarrow> divRemTo e x a (Some nbi) None;
       Some (case fst qr of None \<Rightarrow> nbi | Some q \<Rightarrow> q)
     }"

definition bn_add :: "am_engine \<Rightarrow> bigint \<Rightarrow> bigint \<Rightarrow> bigint" where "bn_add e x a = addTo e x a nbi"
definition bn_subtract :: "am_engine \<Rightarrow> bigint \<Rightarrow> bigint \<Rightarrow> bigint" where "bn_subtract e x a = subTo e x a nbi"
definition bn_multiply :: "am_engine \<Rightarrow> bigint \<Rightarrow> bigint \<Rightarrow> bigint" where "bn_multiply e x a = multiplyTo e x a nbi"

section \<open>Montgomery's reduction\<close>

text \<open>The remainder of two numbers has the sign of the first.\<close>

definition js_rem :: "int \<Rightarrow> int \<Rightarrow> int" where
  "js_rem x y = sgn x * (\<bar>x\<bar> mod \<bar>y\<bar>)"

definition invDigit :: "am_engine \<Rightarrow> bigint \<Rightarrow> int" where
  "invDigit e b =
     (if bi_t b < 1 then 0
      else
        (let x = bi_d b 0
         in if js_and x 1 = 0 then 0
            else
              (let y = js_and x 3;
                   y = js_and (num (y * num (2 - num (js_and x 0xf * y)))) 0xf;
                   y = js_and (num (y * num (2 - num (js_and x 0xff * y)))) 0xff;
                   y = js_and (num (y * (2 - js_and (num (js_and x 0xffff * y)) 0xffff))) 0xffff;
                   y = js_rem (num (y * (2 - js_rem (num (x * y)) (DV e)))) (DV e)
               in if 0 < y then DV e - y else - y)))"

record montgomery =
  mo_m :: bigint
  mo_mp :: int
  mo_mpl :: int
  mo_mph :: int
  mo_um :: int
  mo_mt2 :: nat

definition new_Montgomery :: "am_engine \<Rightarrow> bigint \<Rightarrow> montgomery" where
  "new_Montgomery e m =
     (let mp = invDigit e m
      in \<lparr>mo_m = m, mo_mp = mp, mo_mpl = js_and mp 0x7fff, mo_mph = js_shr mp 15, mo_um = js_shl 1 (dbits e - 15) - 1,
          mo_mt2 = 2 * bi_t m\<rparr>)"

text \<open>\<open>while (x[j] >= DV) { x[j] -= DV; x[++j]++ }\<close>\<close>

partial_function (option) propagate :: "am_engine \<Rightarrow> nat \<Rightarrow> digits \<Rightarrow> digits option" where
  "propagate e j d = (if DV e \<le> d j then propagate e (Suc j) (d(j := d j - DV e, Suc j := d (Suc j) + 1)) else Some d)"

definition reduction_digit :: "am_engine \<Rightarrow> montgomery \<Rightarrow> int \<Rightarrow> int" where
  "reduction_digit e z xi =
     (let j = js_and xi 0x7fff
      in js_and (num (num (j * mo_mpl z) +
           js_shl (js_and (num (num (j * mo_mph z) + num (js_shr xi 15 * mo_mpl z))) (mo_um z)) 15)) (DM e))"

fun reduce_loop :: "am_engine \<Rightarrow> montgomery \<Rightarrow> nat list \<Rightarrow> digits \<Rightarrow> digits option" where
  "reduce_loop e z [] d = Some d"
| "reduce_loop e z (i # js) d =
     (let t = bi_t (mo_m z);
          u0 = reduction_digit e z (d i);
          (d1, c) = am e (bi_d (mo_m z)) 0 u0 d i 0 t
      in do {
        d2 \<leftarrow> propagate e (i + t) (d1(i + t := d (i + t) + c));
        reduce_loop e z js d2
      })"

definition reduce :: "am_engine \<Rightarrow> montgomery \<Rightarrow> bigint \<Rightarrow> bigint option" where
  "reduce e z x =
     (let x1 = pad (mo_mt2 z + 1) x
      in do {
        d \<leftarrow> reduce_loop e z [0..<bi_t (mo_m z)] (bi_d x1);
        let x2 = clamp e (x1\<lparr>bi_d := d\<rparr>);
        let x3 = dRShiftTo x2 (bi_t (mo_m z)) x2;
        Some (if 0 \<le> compareTo x3 (mo_m z) then subTo e x3 (mo_m z) x3 else x3)
      })"

definition convert :: "am_engine \<Rightarrow> montgomery \<Rightarrow> bigint \<Rightarrow> bigint option" where
  "convert e z x =
     (let r1 = dLShiftTo (bn_abs e x) (int (bi_t (mo_m z))) nbi
      in do {
        qr \<leftarrow> divRemTo e r1 (mo_m z) None (Some r1);
        let r2 = remainder_of qr r1;
        Some (if bi_s x < 0 \<and> 0 < compareTo r2 (ZERO e) then subTo e (mo_m z) r2 r2 else r2)
      })"

definition revert :: "am_engine \<Rightarrow> montgomery \<Rightarrow> bigint \<Rightarrow> bigint option" where
  "revert e z x = reduce e z (copyTo x nbi)"

definition sqrTo :: "am_engine \<Rightarrow> montgomery \<Rightarrow> bigint \<Rightarrow> bigint \<Rightarrow> bigint option" where
  "sqrTo e z x r = reduce e z (squareTo e x r)"

definition mulTo :: "am_engine \<Rightarrow> montgomery \<Rightarrow> bigint \<Rightarrow> bigint \<Rightarrow> bigint \<Rightarrow> bigint option" where
  "mulTo e z x y r = reduce e z (multiplyTo e x y r)"

section \<open>Modular powers\<close>

definition window_bits :: "nat \<Rightarrow> nat" where
  "window_bits i = (if i < 18 then 1 else if i < 48 then 3 else if i < 144 then 4 else if i < 768 then 5 else 6)"

text \<open>The odd powers: \<open>g[n] = g2 * g[n - 2]\<close> for \<open>n = 3, 5, ...\<close>\<close>

fun odd_powers :: "am_engine \<Rightarrow> montgomery \<Rightarrow> bigint \<Rightarrow> nat list \<Rightarrow> (nat \<Rightarrow> bigint) \<Rightarrow> (nat \<Rightarrow> bigint) option" where
  "odd_powers e z g2 [] g = Some g"
| "odd_powers e z g2 (n # ns) g =
     do {
       p \<leftarrow> mulTo e z g2 (g (n - 2)) nbi;
       odd_powers e z g2 ns (g(n := p))
     }"

definition power_table :: "am_engine \<Rightarrow> montgomery \<Rightarrow> nat \<Rightarrow> bigint \<Rightarrow> (nat \<Rightarrow> bigint) option" where
  "power_table e z k x =
     do {
       g1 \<leftarrow> convert e z x;
       let g = (\<lambda>_. nbi)(1 := g1);
       if 1 < k then
         do {
           g2 \<leftarrow> sqrTo e z g1 nbi;
           odd_powers e z g2 (filter odd [3..<2 ^ k]) g
         }
       else Some g
     }"

text \<open>\<open>k\<close> bits of the exponent from bit \<open>i\<close> of digit \<open>j\<close> downwards.\<close>

definition window :: "am_engine \<Rightarrow> bigint \<Rightarrow> nat \<Rightarrow> int \<Rightarrow> int \<Rightarrow> int" where
  "window e ex k j i =
     (let k1 = int k - 1; ej = digit_at (bi_d ex) j
      in if k1 \<le> i then js_and (js_shr ej (nat (i - k1))) (js_shl 1 k - 1)
         else
           (let w = js_shl (js_and ej (js_shl 1 (nat (i + 1)) - 1)) (nat (k1 - i))
            in if 0 < j then js_or w (js_shr (digit_at (bi_d ex) (j - 1)) (nat (int (dbits e) + i - k1))) else w))"

partial_function (option) strip_zeros :: "int \<Rightarrow> int \<Rightarrow> (int \<times> int) option" where
  "strip_zeros w n = (if js_and w 1 = 0 then strip_zeros (js_shr w 1) (n - 1) else Some (w, n))"

text \<open>\<open>n\<close> squarings, two at a time; the objects \<open>r\<close> and \<open>r2\<close> take turns.\<close>

fun square_pairs :: "am_engine \<Rightarrow> montgomery \<Rightarrow> nat \<Rightarrow> bigint \<times> bigint \<Rightarrow> (bigint \<times> bigint) option" where
  "square_pairs e z (Suc (Suc n)) (r, r2) =
     do {
       r2' \<leftarrow> sqrTo e z r r2;
       r' \<leftarrow> sqrTo e z r2' r;
       square_pairs e z n (r', r2')
     }"
| "square_pairs e z (Suc 0) (r, r2) = do { r2' \<leftarrow> sqrTo e z r r2; Some (r, r2') }"
| "square_pairs e z 0 (r, r2) = Some (r2, r)"

text \<open>Zeros of the exponent after a window: one squaring each.\<close>

partial_function (option) skip_zeros ::
  "am_engine \<Rightarrow> montgomery \<Rightarrow> bigint \<Rightarrow> int \<Rightarrow> int \<Rightarrow> bigint \<Rightarrow> bigint \<Rightarrow> (int \<times> int \<times> bigint \<times> bigint) option" where
  "skip_zeros e z ex j i r r2 =
     (if 0 \<le> j \<and> js_and (digit_at (bi_d ex) j) (js_shl 1 (nat i)) = 0 then
        do {
          r2' \<leftarrow> sqrTo e z r r2;
          (if i - 1 < 0 then skip_zeros e z ex (j - 1) (int (dbits e) - 1) r2' r
           else skip_zeros e z ex j (i - 1) r2' r)
        }
      else Some (j, i, r, r2))"

partial_function (option) power_loop ::
  "am_engine \<Rightarrow> montgomery \<Rightarrow> bigint \<Rightarrow> nat \<Rightarrow> (nat \<Rightarrow> bigint) \<Rightarrow> int \<Rightarrow> int \<Rightarrow> bool \<Rightarrow> bigint \<Rightarrow> bigint \<Rightarrow> bigint option" where
  "power_loop e z ex k g j i is1 r r2 =
     (if j < 0 then Some r
      else do {
        (w, n) \<leftarrow> strip_zeros (window e ex k j i) (int k);
        let (j1, i1) = (if i - n < 0 then (j - 1, i - n + int (dbits e)) else (j, i - n));
        (r', r2') \<leftarrow>
          (if is1 then Some (copyTo (g (nat w)) r, r2)
           else do {
             (ra, rb) \<leftarrow> square_pairs e z (nat n) (r, r2);
             rc \<leftarrow> mulTo e z rb (g (nat w)) ra;
             Some (rc, rb)
           });
        (j2, i2, r'', r2'') \<leftarrow> skip_zeros e z ex j1 i1 r' r2';
        power_loop e z ex k g j2 i2 False r'' r2''
      })"

text \<open>The result, and whether the callback is called with it.\<close>

definition modPow :: "am_engine \<Rightarrow> bigint \<Rightarrow> bigint \<Rightarrow> bigint \<Rightarrow> (bool \<times> bigint) option" where
  "modPow e x ex m =
     (let i = bitLength e ex; r = nbv e 1; z = new_Montgomery e m
      in if i = 0 then Some (False, r)
         else
           (let k = window_bits i; j = int (bi_t ex) - 1
            in do {
              g \<leftarrow> power_table e z k x;
              p \<leftarrow> power_loop e z ex k g j (int (nbits (digit_at (bi_d ex) j)) - 1) True r nbi;
              result \<leftarrow> revert e z p;
              Some (True, result)
            }))"

end
