(* ===== verification/BigIntegerEstimate.thy ===== *)
theory BigIntegerEstimate
  imports ModularArithmetic
begin

text \<open>
  The quotient digit that division estimates with floating-point numbers: with digits of 28 or 30 bits it is never
  below the digit of the quotient, and never above the base, whatever the rounding does.
\<close>

lemma fl_0 [simp]: "fl 0 = 0"
  by (simp add: fl_def)

lemma fl_bounds:
  assumes "0 \<le> x"
  shows "x - x / 2 ^ 53 \<le> fl x" "fl x \<le> x + x / 2 ^ 53" "0 \<le> fl x"
proof -
  have "x = 0 \<or> \<bar>fl x - x\<bar> \<le> x / 2 ^ 53" using fl_error_relative [of x] assms by (cases "x = 0") auto
  then show "x - x / 2 ^ 53 \<le> fl x" "fl x \<le> x + x / 2 ^ 53" by (auto simp: abs_if split: if_splits)
  then show "0 \<le> fl x" using assms by (simp add: field_simps)
qed

lemma fl_bound_below: "0 \<le> x \<Longrightarrow> x < 2 ^ k \<Longrightarrow> x - 2 ^ k / 2 ^ 54 \<le> fl x"
proof (cases "x = 0")
  case False
  assume "0 \<le> x" "x < 2 ^ k"
  then have "\<bar>fl x - x\<bar> \<le> 2 ^ k / 2 ^ 54" using False by (intro fl_error_below) simp_all
  then show ?thesis by (auto simp: abs_if split: if_splits)
qed simp

text \<open>
  The estimate over the rational numbers: \<open>yt\<close> are the top 52 bits of the divisor, \<open>y0\<close> is its top digit, \<open>ri\<close> and
  \<open>ri1\<close> are the top digits of the rest, \<open>2 ^ k\<close> is the base.
\<close>

definition estimate_ok :: "nat \<Rightarrow> rat \<Rightarrow> rat \<Rightarrow> rat \<Rightarrow> rat \<Rightarrow> rat \<Rightarrow> rat \<Rightarrow> bool" where
  "estimate_ok k f1 f2 y0 yt ri ri1 \<longleftrightarrow>
     2 ^ k = f1 * f2 \<and> 2 ^ k * f1 = 2 ^ 52 \<and> 0 < f1 \<and> 1 \<le> f2 \<and>
     y0 * f1 \<le> yt \<and> 2 ^ 51 \<le> yt \<and> yt < 2 ^ 52 \<and> 2 ^ 27 \<le> y0 \<and>
     0 \<le> ri \<and> ri + 1 \<le> y0 \<and> 0 \<le> ri1 \<and> ri1 + 1 \<le> 2 ^ k \<and>
     3 * (2 ^ k * 2 ^ k) + 12 * 2 ^ k \<le> (f2 - 1) * 2 ^ 54 \<and> f2 \<le> 2 ^ 8 \<and> 2 ^ k \<le> (2 ^ 30 :: rat)"

definition coeff1 :: "rat \<Rightarrow> rat" where "coeff1 yt = 2 ^ 52 / yt"
definition coeff2 :: "rat \<Rightarrow> rat \<Rightarrow> rat" where "coeff2 f1 yt = f1 / yt"

lemma estimateD:
  assumes "estimate_ok k f1 f2 y0 yt ri ri1"
  shows "2 ^ k = f1 * f2" "2 ^ k * f1 = 2 ^ 52" "0 < f1" "1 \<le> f2"
    "y0 * f1 \<le> yt" "2 ^ 51 \<le> yt" "yt < 2 ^ 52" "2 ^ 27 \<le> y0"
    "0 \<le> ri" "ri + 1 \<le> y0" "0 \<le> ri1" "ri1 + 1 \<le> 2 ^ k"
    "3 * (2 ^ k * 2 ^ k) + 12 * 2 ^ k \<le> (f2 - 1) * 2 ^ 54" "f2 \<le> 2 ^ 8" "2 ^ k \<le> (2 ^ 30 :: rat)" "0 < yt"
proof -
  have "(0 :: rat) < 2 ^ 51" by simp
  then show "0 < yt" using assms unfolding estimate_ok_def by linarith
qed (use assms [unfolded estimate_ok_def] in blast)+

lemma c1_bounds:
  assumes E: "estimate_ok k f1 f2 y0 yt ri ri1"
  shows "0 < coeff1 yt" "y0 * coeff1 yt \<le> 2 ^ k"
proof -
  note E' = E and E = estimateD [OF E]
  show "0 < coeff1 yt" using E(16) by (simp add: coeff1_def)
  have "y0 * f1 * 2 ^ k \<le> yt * 2 ^ k" using E(5) by (intro mult_right_mono) simp_all
  then have "y0 * (2 ^ k * f1) \<le> 2 ^ k * yt" by (simp only: mult.commute mult.left_commute)
  then have "y0 * 2 ^ 52 \<le> 2 ^ k * yt" unfolding E(2) .
  then show "y0 * coeff1 yt \<le> 2 ^ k" using E(16) by (simp add: coeff1_def pos_divide_le_eq)
qed

lemma c2_bounds:
  assumes E: "estimate_ok k f1 f2 y0 yt ri ri1"
  shows "0 < coeff2 f1 yt" "(ri1 + f2) * coeff2 f1 yt \<le> 3"
proof -
  note E' = E and E = estimateD [OF E]
  show "0 < coeff2 f1 yt" using E(16) E(3) by (simp add: coeff2_def)
  have "(ri1 + f2) * f1 \<le> (2 ^ k + f2) * f1" using E(12) E(3) by (intro mult_right_mono) simp_all
  also have "\<dots> = 2 ^ 52 + 2 ^ k" unfolding distrib_right E(2) unfolding E(1) by simp
  also have "\<dots> \<le> 3 * 2 ^ 51" using E(15) by simp
  also have "\<dots> \<le> 3 * yt" using E(6) by simp
  finally show "(ri1 + f2) * coeff2 f1 yt \<le> 3" using E(16) by (simp add: coeff2_def pos_divide_le_eq)
qed

lemma ri_c1:
  assumes E: "estimate_ok k f1 f2 y0 yt ri ri1"
  shows "ri * coeff1 yt \<le> 2 ^ k - coeff1 yt"
proof -
  note E' = E and E = estimateD [OF E]
  have "(ri + 1) * coeff1 yt \<le> y0 * coeff1 yt" using E(10) c1_bounds(1) [OF E'] by (intro mult_right_mono) simp_all
  then show ?thesis using c1_bounds(2) [OF E'] by (simp add: distrib_right)
qed

lemma c1_ge:
  assumes E: "estimate_ok k f1 f2 y0 yt ri ri1"
  shows "1 \<le> coeff1 yt" "coeff1 yt \<le> 2"
  by (insert estimateD [OF E], simp_all add: coeff1_def coeff2_def pos_le_divide_eq pos_divide_le_eq field_simps)

lemma high_part:
  assumes E: "estimate_ok k f1 f2 y0 yt ri ri1"
  shows "ri * coeff1 yt - 3 * 2 ^ k / 2 ^ 54 \<le> fl (ri * fl (coeff1 yt))"
proof -
  note E' = E and E = estimateD [OF E]
  have d: "coeff1 yt - coeff1 yt / 2 ^ 53 \<le> fl (coeff1 yt)" "fl (coeff1 yt) \<le> coeff1 yt + coeff1 yt / 2 ^ 53" using fl_bounds [of "coeff1 yt"] c1_bounds(1) [OF E'] by simp_all
  have "ri * fl (coeff1 yt) \<le> ri * (coeff1 yt + coeff1 yt / 2 ^ 53)" using d(2) E(9) by (rule mult_left_mono)
  also have "\<dots> = ri * coeff1 yt + ri * coeff1 yt / 2 ^ 53" by (simp add: distrib_left)
  also have "\<dots> < 2 ^ k" using ri_c1 [OF E'] c1_ge [OF E'] E(15) by simp
  finally have lt: "ri * fl (coeff1 yt) < 2 ^ k" .
  have "ri * (coeff1 yt - coeff1 yt / 2 ^ 53) \<le> ri * fl (coeff1 yt)" using d(1) E(9) by (rule mult_left_mono)
  then have "ri * coeff1 yt - ri * coeff1 yt / 2 ^ 53 \<le> ri * fl (coeff1 yt)" by (simp add: right_diff_distrib)
  then have low: "ri * coeff1 yt - 2 ^ k / 2 ^ 53 \<le> ri * fl (coeff1 yt)" using ri_c1 [OF E'] c1_ge [OF E'] by simp
  have "0 \<le> ri * fl (coeff1 yt)" using E(9) fl_bounds(3) [of "coeff1 yt"] c1_bounds(1) [OF E'] by simp
  then show ?thesis using fl_bound_below [OF _ lt] low by simp
qed

lemma low_part:
  assumes E: "estimate_ok k f1 f2 y0 yt ri ri1"
  shows "(ri1 + f2) * coeff2 f1 yt - 12 / 2 ^ 54 \<le> fl ((ri1 + f2) * fl (coeff2 f1 yt))"
proof -
  note E' = E and E = estimateD [OF E]
  have n: "0 \<le> ri1 + f2" using E(11) E(4) by simp
  have d: "coeff2 f1 yt - coeff2 f1 yt / 2 ^ 53 \<le> fl (coeff2 f1 yt)" "0 \<le> fl (coeff2 f1 yt)" using fl_bounds [of "coeff2 f1 yt"] c2_bounds(1) [OF E'] by simp_all
  have "(ri1 + f2) * (coeff2 f1 yt - coeff2 f1 yt / 2 ^ 53) \<le> (ri1 + f2) * fl (coeff2 f1 yt)" using d(1) n by (rule mult_left_mono)
  then have e: "(ri1 + f2) * coeff2 f1 yt - (ri1 + f2) * coeff2 f1 yt / 2 ^ 53 \<le> (ri1 + f2) * fl (coeff2 f1 yt)"
    by (simp only: right_diff_distrib times_divide_eq_right)
  have "0 \<le> (ri1 + f2) * fl (coeff2 f1 yt)" using n d(2) by simp
  note r = fl_bounds(1) [OF this]
  have "(ri1 + f2) * coeff2 f1 yt * (1 - 1 / 2 ^ 53) * (1 - 1 / 2 ^ 53) \<le> (ri1 + f2) * fl (coeff2 f1 yt) * (1 - 1 / 2 ^ 53)"
  proof (rule mult_right_mono)
    show "(ri1 + f2) * coeff2 f1 yt * (1 - 1 / 2 ^ 53) \<le> (ri1 + f2) * fl (coeff2 f1 yt)" using e by (simp only: right_diff_distrib mult_1_right times_divide_eq_right)
  qed simp
  also have "\<dots> \<le> fl ((ri1 + f2) * fl (coeff2 f1 yt))" using r by (simp add: right_diff_distrib)
  also have "(ri1 + f2) * coeff2 f1 yt * (1 - 1 / 2 ^ 53) * (1 - 1 / 2 ^ 53) =
      (ri1 + f2) * coeff2 f1 yt * ((1 - 1 / 2 ^ 53) * (1 - 1 / 2 ^ 53))" by (simp only: mult.assoc)
  finally have f: "(ri1 + f2) * coeff2 f1 yt * ((1 - 1 / 2 ^ 53) * (1 - 1 / 2 ^ 53)) \<le> fl ((ri1 + f2) * fl (coeff2 f1 yt))" .
  define v w where "v = (ri1 + f2) * coeff2 f1 yt" "w = fl ((ri1 + f2) * fl (coeff2 f1 yt))"
  have "0 \<le> v" "v \<le> 3" "v * ((1 - 1 / 2 ^ 53) * (1 - 1 / 2 ^ 53)) \<le> w"
    using f n c2_bounds [OF E'] by (simp_all only: v_w_def [symmetric]) (simp add: v_w_def)
  then show ?thesis unfolding v_w_def [symmetric] by simp
qed

lemma exact_sum:
  assumes E: "estimate_ok k f1 f2 y0 yt ri ri1"
  shows "ri * coeff1 yt + (ri1 + f2) * coeff2 f1 yt = (ri * 2 ^ k + ri1 + f2) * f1 / yt"
  by (insert estimateD [OF E], simp_all add: coeff1_def coeff2_def pos_le_divide_eq pos_divide_le_eq field_simps)

lemma never_below:
  assumes E: "estimate_ok k f1 f2 y0 yt ri ri1" and below: "q * yt < (ri * 2 ^ k + ri1 + 1) * f1"
  shows "q \<le> fl (ri * fl (coeff1 yt)) + fl ((ri1 + f2) * fl (coeff2 f1 yt))"
proof -
  note E' = E and E = estimateD [OF E]
  have "q < (ri * 2 ^ k + ri1 + 1) * f1 / yt" using below E(16) by (simp add: pos_less_divide_eq)
  also have "\<dots> = (ri * 2 ^ k + ri1 + f2) * f1 / yt - (f2 - 1) * f1 / yt" using E(16) by (simp add: field_simps)
  finally have q: "q < ri * coeff1 yt + (ri1 + f2) * coeff2 f1 yt - (f2 - 1) * f1 / yt" unfolding exact_sum [OF E'] .
  have "(3 * 2 ^ k + 12) * 2 ^ k \<le> (f2 - 1) * 2 ^ 54" using E(13) by (simp add: algebra_simps)
  then have "(3 * 2 ^ k + 12) * (2 ^ k * f1) \<le> (f2 - 1) * 2 ^ 54 * f1"
    using E(3) mult_right_mono [of "(3 * 2 ^ k + 12) * 2 ^ k" "(f2 - 1) * 2 ^ 54" f1] by (simp add: mult.assoc)
  then have "(3 * 2 ^ k + 12) * 2 ^ 52 \<le> (f2 - 1) * f1 * 2 ^ 54" unfolding E(2) by (simp add: mult.assoc mult.commute)
  moreover have "(3 * 2 ^ k + 12) * yt \<le> (3 * 2 ^ k + 12) * 2 ^ 52" using E(7) by (intro mult_left_mono) simp_all
  ultimately have "(3 * 2 ^ k + 12) * yt \<le> (f2 - 1) * f1 * 2 ^ 54" by (rule order_trans [rotated])
  then have "(3 * 2 ^ k + 12) / 2 ^ 54 \<le> (f2 - 1) * f1 / yt" using E(16) by (simp add: field_simps)
  then show ?thesis using q high_part [OF E'] low_part [OF E'] by (simp add: add_divide_distrib)
qed

lemma never_above:
  assumes E: "estimate_ok k f1 f2 y0 yt ri ri1"
  shows "fl (fl (ri * fl (coeff1 yt)) + fl ((ri1 + f2) * fl (coeff2 f1 yt))) < 2 ^ k + 1"
proof -
  note E' = E and E = estimateD [OF E]
  define eps :: rat where "eps = 1 + 1 / 2 ^ 53"
  have up: "fl x \<le> x * eps" if "0 \<le> x" for x using fl_bounds(2) [OF that] by (simp add: eps_def distrib_left)
  have e: "1 \<le> eps" by (simp add: eps_def)
  have n: "0 \<le> ri1 + f2" using E(11) E(4) by simp
  have one: "fl (ri * fl (coeff1 yt)) \<le> ri * coeff1 yt * eps * eps"
  proof -
    have "0 \<le> ri * fl (coeff1 yt)" using E(9) fl_bounds(3) [of "coeff1 yt"] c1_bounds(1) [OF E'] by simp
    then have "fl (ri * fl (coeff1 yt)) \<le> ri * fl (coeff1 yt) * eps" by (rule up)
    also have "\<dots> \<le> ri * (coeff1 yt * eps) * eps" using up [of "coeff1 yt"] c1_bounds(1) [OF E'] E(9) e by (intro mult_right_mono mult_left_mono) simp_all
    finally show ?thesis by (simp add: mult.assoc)
  qed
  have two: "fl ((ri1 + f2) * fl (coeff2 f1 yt)) \<le> (ri1 + f2) * coeff2 f1 yt * eps * eps"
  proof -
    have "0 \<le> (ri1 + f2) * fl (coeff2 f1 yt)" using n fl_bounds(3) [of "coeff2 f1 yt"] c2_bounds(1) [OF E'] by simp
    then have "fl ((ri1 + f2) * fl (coeff2 f1 yt)) \<le> (ri1 + f2) * fl (coeff2 f1 yt) * eps" by (rule up)
    also have "\<dots> \<le> (ri1 + f2) * (coeff2 f1 yt * eps) * eps" using up [of "coeff2 f1 yt"] c2_bounds(1) [OF E'] n e by (intro mult_right_mono mult_left_mono) simp_all
    finally show ?thesis by (simp add: mult.assoc)
  qed
  define s where "s = fl (ri * fl (coeff1 yt)) + fl ((ri1 + f2) * fl (coeff2 f1 yt))"
  have "0 \<le> ri * fl (coeff1 yt)" "0 \<le> (ri1 + f2) * fl (coeff2 f1 yt)"
    using E(9) n fl_bounds(3) [of "coeff1 yt"] fl_bounds(3) [of "coeff2 f1 yt"] c1_bounds(1) [OF E'] c2_bounds(1) [OF E'] by simp_all
  then have "0 \<le> s" using fl_bounds(3) by (simp add: s_def)
  then have "fl s \<le> s * eps" by (rule up)
  also have "\<dots> \<le> ((ri * coeff1 yt + (ri1 + f2) * coeff2 f1 yt) * eps * eps) * eps"
    using one two e by (intro mult_right_mono) (simp_all add: s_def distrib_right)
  also have "\<dots> = (ri * coeff1 yt + (ri1 + f2) * coeff2 f1 yt) * (eps * eps * eps)" by (simp add: mult.assoc)
  finally have fls: "fl s \<le> (ri * coeff1 yt + (ri1 + f2) * coeff2 f1 yt) * (eps * eps * eps)" .
  have "(ri * 2 ^ k + ri1 + f2) * f1 \<le> (y0 * 2 ^ k - 1 + f2) * f1"
  proof (rule mult_right_mono)
    have "(ri + 1) * 2 ^ k \<le> y0 * 2 ^ k" using E(10) by (intro mult_right_mono) simp_all
    then show "ri * 2 ^ k + ri1 + f2 \<le> y0 * 2 ^ k - 1 + f2" using E(12) by (simp add: distrib_right)
  qed (use E(3) in simp)
  also have "\<dots> \<le> (2 ^ k + 1 / 2 ^ 19) * (y0 * f1)"
  proof -
    have "f2 - 1 \<le> y0 / 2 ^ 19" using E(14,8) by simp
    then have "(f2 - 1) * f1 \<le> y0 / 2 ^ 19 * f1" using E(3) by (intro mult_right_mono) simp_all
    then show ?thesis by (simp add: algebra_simps)
  qed
  also have "\<dots> \<le> (2 ^ k + 1 / 2 ^ 19) * yt" using E(5) by (intro mult_left_mono) simp_all
  finally have "ri * coeff1 yt + (ri1 + f2) * coeff2 f1 yt \<le> 2 ^ k + 1 / 2 ^ 19" unfolding exact_sum [OF E'] using E(16) by (simp add: pos_divide_le_eq)
  then have "fl s \<le> (2 ^ k + 1 / 2 ^ 19) * (eps * eps * eps)" using e by (intro order_trans [OF fls] mult_right_mono) simp_all
  also have "eps * eps * eps \<le> 1 + 1 / 2 ^ 51" by (simp add: eps_def)
  then have "(2 ^ k + 1 / 2 ^ 19) * (eps * eps * eps) \<le> (2 ^ k + 1 / 2 ^ 19) * (1 + 1 / 2 ^ 51)" by (intro mult_left_mono) simp_all
  also have "\<dots> < 2 ^ k + 1" using E(15) by (simp add: distrib_left distrib_right)
  finally show ?thesis by (simp add: s_def)
qed

end
