(* ===== verification/BigIntegerProofs.thy ===== *)
theory BigIntegerProofs
  imports BigInteger
begin

text \<open>
  What the operations on numbers compute: the value \<open>bn_val\<close> of a number, the numbers \<open>bn_ok\<close> that are kept in normal
  form, and for each operation the integer operation it implements. No rounding and no wrap-around changes a result.
\<close>

section \<open>Digits and values\<close>

abbreviation base :: "am_engine \<Rightarrow> int" where
  "base e \<equiv> 2 ^ dbits e"

definition dsum :: "am_engine \<Rightarrow> digits \<Rightarrow> nat \<Rightarrow> int" where
  "dsum e d n = (\<Sum>i<n. d i * base e ^ i)"

definition digits_ok :: "am_engine \<Rightarrow> digits \<Rightarrow> nat \<Rightarrow> bool" where
  "digits_ok e d n \<longleftrightarrow> (\<forall>i<n. 0 \<le> d i \<and> d i < base e)"

definition bn_val :: "am_engine \<Rightarrow> bigint \<Rightarrow> int" where
  "bn_val e x = dsum e (bi_d x) (bi_t x) + bi_s x * base e ^ bi_t x"

definition bn_ok :: "am_engine \<Rightarrow> bigint \<Rightarrow> bool" where
  "bn_ok e x \<longleftrightarrow> bi_s x \<in> {0, - 1} \<and> digits_ok e (bi_d x) (bi_t x) \<and>
     (0 < bi_t x \<longrightarrow> bi_d x (bi_t x - 1) \<noteq> bi_s x mod base e)"

lemma dbits_bounds: "26 \<le> dbits e" "dbits e \<le> 30"
  by (cases e; simp)+

lemma base_bounds: "2 ^ 26 \<le> base e" "base e \<le> 2 ^ 30" "0 < base e" "1 < base e"
  by (cases e; simp)+

lemma DV_base: "DV e = base e"
  by (cases e) (simp_all add: DV_def js_shl_mult)

lemma DM_base: "DM e = base e - 1"
  by (cases e) (simp_all add: DM_def js_shl_mult)

lemma and_DM: "js_and v (DM e) = v mod base e"
  using js_and_mask [of "dbits e" v] dbits_bounds [of e] by (simp add: DM_base)

lemma dsum_0 [simp]: "dsum e d 0 = 0"
  by (simp add: dsum_def)

lemma dsum_Suc: "dsum e d (Suc n) = dsum e d n + d n * base e ^ n"
  by (simp add: dsum_def)

lemma dsum_first: "dsum e d (Suc n) = d 0 + base e * dsum e (\<lambda>i. d (Suc i)) n"
  unfolding dsum_def by (subst sum.lessThan_Suc_shift) (simp add: sum_distrib_left ac_simps)

lemma dsum_split: "dsum e d (m + n) = dsum e d m + base e ^ m * dsum e (\<lambda>i. d (m + i)) n"
  by (induction n) (simp_all add: dsum_Suc power_add algebra_simps)

lemma dsum_cong: "(\<And>i. i < n \<Longrightarrow> d i = d' i) \<Longrightarrow> dsum e d n = dsum e d' n"
  by (simp add: dsum_def)

lemma dsum_zero: "(\<And>i. i < n \<Longrightarrow> d i = 0) \<Longrightarrow> dsum e d n = 0"
  by (simp add: dsum_def)

lemma digits_ok_mono: "digits_ok e d n \<Longrightarrow> m \<le> n \<Longrightarrow> digits_ok e d m"
  by (simp add: digits_ok_def)

lemma digits_okD: "digits_ok e d n \<Longrightarrow> i < n \<Longrightarrow> 0 \<le> d i" "digits_ok e d n \<Longrightarrow> i < n \<Longrightarrow> d i < base e"
  by (simp_all add: digits_ok_def)

lemma digits_okI: "(\<And>i. i < n \<Longrightarrow> 0 \<le> d i \<and> d i < base e) \<Longrightarrow> digits_ok e d n"
  by (simp add: digits_ok_def)

lemma digits_ok_Suc: "digits_ok e d (Suc n) \<longleftrightarrow> digits_ok e d n \<and> 0 \<le> d n \<and> d n < base e"
  by (auto simp: digits_ok_def less_Suc_eq)

lemma dsum_bounds: "digits_ok e d n \<Longrightarrow> 0 \<le> dsum e d n \<and> dsum e d n < base e ^ n"
proof (induction n)
  case (Suc n)
  then have d: "0 \<le> d n" "d n \<le> base e - 1" "0 \<le> dsum e d n" "dsum e d n < base e ^ n" by (simp_all add: digits_ok_Suc)
  have "d n * base e ^ n \<le> (base e - 1) * base e ^ n" using d by (intro mult_right_mono) simp_all
  then show ?case using d by (simp add: dsum_Suc algebra_simps)
qed simp

lemma dsum_inj: "digits_ok e d n \<Longrightarrow> digits_ok e d' n \<Longrightarrow> dsum e d n = dsum e d' n \<Longrightarrow> i < n \<Longrightarrow> d i = d' i"
proof (induction n arbitrary: i)
  case (Suc n)
  note b = dsum_bounds [of e d n] dsum_bounds [of e d' n]
  have ok: "digits_ok e d n" "digits_ok e d' n" using Suc.prems by (simp_all add: digits_ok_Suc)
  have "dsum e d (Suc n) div base e ^ n = d n" "dsum e d' (Suc n) div base e ^ n = d' n"
    using b ok by (simp_all add: dsum_Suc)
  then have eq: "d n = d' n" using Suc.prems(3) by simp
  then have "dsum e d n = dsum e d' n" using Suc.prems(3) by (simp add: dsum_Suc)
  then show ?case using Suc.IH ok eq Suc.prems(4) by (cases "i = n") auto
qed simp

section \<open>Multiplication by a digit\<close>

lemma split_mult:
  fixes x a :: int
  shows "x * a = (x mod K) * (a mod K) + ((x div K) * (a mod K) + (a div K) * (x mod K)) * K + (x div K) * (a div K) * (K * K)"
proof -
  have "x * a = (x div K * K + x mod K) * (a div K * K + a mod K)" by simp
  also have "\<dots> = (x mod K) * (a mod K) + ((x div K) * (a mod K) + (a div K) * (x mod K)) * K + (x div K) * (a div K) * (K * K)"
    by (simp only: algebra_simps)
  finally show ?thesis .
qed

lemma mult_div_mod: "m * K = m div K * (K * K) + m mod K * (K :: int)"
proof -
  have "(m div K * K + m mod K) * K = m div K * (K * K) + m mod K * K" by (simp only: distrib_right mult.assoc)
  then show ?thesis by (simp only: div_mult_mod_eq)
qed

lemma mult_bound: "0 \<le> x \<Longrightarrow> x \<le> m \<Longrightarrow> 0 \<le> y \<Longrightarrow> y \<le> n \<Longrightarrow> 0 \<le> x * y \<and> x * y \<le> m * (n :: int)"
  by (simp add: mult_mono)

lemma div_mod_parts:
  fixes r :: int
  assumes "v = r + q * B" "0 < B"
  shows "v div B = r div B + q" "v mod B = r mod B"
  using assms by simp_all

lemma div_less_if: "v < q * B \<Longrightarrow> 0 < B \<Longrightarrow> v div B < (q :: int)"
proof (rule ccontr)
  assume a: "v < q * B" "0 < B" "\<not> v div B < q"
  then have "q * B \<le> v div B * B" by simp
  also have "\<dots> \<le> v" using div_mult_mod_eq [of v B] a(2) pos_mod_sign [of B v] by linarith
  finally show False using a(1) by simp
qed

lemma am1_exact:
  assumes "0 \<le> x" "x \<le> 2 * 2 ^ 26 - 2" "0 \<le> a" "a < 2 ^ 26" "0 \<le> w" "w < 2 ^ 26" "0 \<le> c" "c \<le> 2 * 2 ^ 26 - 2"
  shows "am1_body x a w c = ((x * a + w + c) mod 2 ^ 26, (x * a + w + c) div 2 ^ 26)"
proof -
  have p: "0 \<le> x * a" "x * a \<le> (2 * 2 ^ 26 - 2) * (2 ^ 26 - 1)" using mult_bound [of x "2 * 2 ^ 26 - 2" a "2 ^ 26 - 1"] assms by simp_all
  have n: "num (x * a) = x * a" "num (x * a + w) = x * a + w" "num (x * a + w + c) = x * a + w + c"
    using p assms by (intro num_id; simp)+
  have m: "(0x3ffffff :: int) = 2 ^ 26 - 1" "(0x4000000 :: int) = 2 ^ 26" by simp_all
  show ?thesis unfolding am1_body_def Let_def n m by (subst js_and_mask) simp_all
qed

lemma am3_exact:
  assumes "0 \<le> x" "x \<le> 2 * 2 ^ 28 - 2" "0 \<le> a" "a < 2 ^ 28" "0 \<le> w" "w < 2 ^ 28" "0 \<le> c" "c \<le> 2 * 2 ^ 28 - 2"
  shows "am3_body (js_and x 0x3fff) (js_shr x 14) a w c = ((x * a + w + c) mod 2 ^ 28, (x * a + w + c) div 2 ^ 28)"
proof -
  define K :: int where "K = 2 ^ 14"
  define xl xh l h where d: "xl = x mod K" "xh = x div K" "l = a mod K" "h = a div K"
  define m where "m = xh * l + h * xl"
  have parts: "js_and x 0x3fff = xl" "js_shr x 14 = xh" "js_and a 0x3fff = l" "js_shr a 14 = h"
    unfolding d K_def using js_and_mask [of 14 x] js_and_mask [of 14 a] assms by (simp_all add: js_shr_div)
  have r: "0 \<le> xl" "xl \<le> 2 ^ 14 - 1" "0 \<le> xh" "xh \<le> 2 ^ 15 - 1" "0 \<le> l" "l \<le> 2 ^ 14 - 1" "0 \<le> h" "h \<le> 2 ^ 14 - 1"
    unfolding d K_def using assms by simp_all
  note b = mult_bound [OF r(3,4,5,6)] mult_bound [OF r(7,8,1,2)] mult_bound [OF r(1,2,5,6)] mult_bound [OF r(3,4,7,8)]
  have m: "num (num (xh * l) + num (h * xl)) = m" using b by (simp add: m_def)
  have mb: "0 \<le> m" "m < 2 ^ 31" using b by (simp_all add: m_def)
  have "js_and m 0x3fff = m mod K" "0 \<le> m mod K" "m mod K < 2 ^ 14" using js_and_mask [of 14 m] by (simp_all add: K_def)
  then have ml: "js_shl (js_and m 0x3fff) 14 = m mod K * K" by (simp add: K_def js_shl_mult)
  have mh: "js_shr m 14 = m div K" unfolding K_def using mb by (subst js_shr_div) simp_all
  define l' where "l' = xl * l + m mod K * K + w + c"
  have lb: "0 \<le> m mod K * K" "m mod K * K \<le> (2 ^ 14 - 1) * 2 ^ 14" unfolding K_def by simp_all
  have l': "num (num (num (num (xl * l) + m mod K * K) + w) + c) = l'" using b lb assms by (simp add: l'_def)
  have l'b: "0 \<le> l'" "l' < 2 ^ 31" using b lb assms by (simp_all add: l'_def)
  have lh: "js_shr l' 28 = l' div 2 ^ 28" using l'b by (subst js_shr_div) simp_all
  have k28: "(0xfffffff :: int) = 2 ^ 28 - 1" by simp
  have ll: "js_and l' 0xfffffff = l' mod 2 ^ 28" unfolding k28 by (subst js_and_mask) simp_all
  have mdiv: "0 \<le> m div K" "m div K \<le> 2 ^ 17" "0 \<le> l' div 2 ^ 28" "l' div 2 ^ 28 \<le> 2 ^ 3" using mb l'b by (simp_all add: K_def)
  have c': "num (num (l' div 2 ^ 28 + m div K) + num (xh * h)) = l' div 2 ^ 28 + m div K + xh * h"
    using b mdiv by simp
  have "x * a + w + c = l' + (m div K + xh * h) * 2 ^ 28"
    using split_mult [of x a K, folded d, folded m_def] mult_div_mod [of m K] by (simp add: l'_def K_def algebra_simps)
  note whole = div_mod_parts [OF this]
  show ?thesis using whole unfolding am3_body_def Let_def parts m ml mh l' lh ll c' by simp
qed

lemma am2_exact:
  assumes "0 \<le> x" "x \<le> 2 * 2 ^ 30 - 2" "0 \<le> a" "a < 2 ^ 30" "0 \<le> w" "w < 2 ^ 30" "0 \<le> c" "c \<le> 2 * 2 ^ 30 - 2"
  shows "am2_body (js_and x 0x7fff) (js_shr x 15) a w c = ((x * a + w + c) mod 2 ^ 30, (x * a + w + c) div 2 ^ 30)"
proof -
  define K :: int where "K = 2 ^ 15"
  define xl xh l h where d: "xl = x mod K" "xh = x div K" "l = a mod K" "h = a div K"
  define m where "m = xh * l + h * xl"
  have parts: "js_and x 0x7fff = xl" "js_shr x 15 = xh" "js_and a 0x7fff = l" "js_shr a 15 = h"
    unfolding d K_def using js_and_mask [of 15 x] js_and_mask [of 15 a] assms by (simp_all add: js_shr_div)
  have r: "0 \<le> xl" "xl \<le> 2 ^ 15 - 1" "0 \<le> xh" "xh \<le> 2 ^ 16 - 1" "0 \<le> l" "l \<le> 2 ^ 15 - 1" "0 \<le> h" "h \<le> 2 ^ 15 - 1"
    unfolding d K_def using assms by simp_all
  note b = mult_bound [OF r(3,4,5,6)] mult_bound [OF r(7,8,1,2)] mult_bound [OF r(1,2,5,6)] mult_bound [OF r(3,4,7,8)]
  have m: "num (num (xh * l) + num (h * xl)) = m" using b by (simp add: m_def)
  have mb: "0 \<le> m" "m < 2 ^ 32" using b by (simp_all add: m_def)
  have "js_and m 0x7fff = m mod K" "0 \<le> m mod K" "m mod K < 2 ^ 15" using js_and_mask [of 15 m] by (simp_all add: K_def)
  then have ml: "js_shl (js_and m 0x7fff) 15 = m mod K * K" by (simp add: K_def js_shl_mult)
  have mh: "js_ushr m 15 = m div K" unfolding K_def using mb by (subst js_ushr_div) simp_all
  have k30: "(0x3fffffff :: int) = 2 ^ 30 - 1" by simp
  have cl: "js_and c 0x3fffffff = c mod 2 ^ 30" unfolding k30 by (subst js_and_mask) simp_all
  have ch: "js_ushr c 30 = c div 2 ^ 30" using assms by (subst js_ushr_div) simp_all
  define cm where "cm = c mod 2 ^ 30"
  have cm: "0 \<le> cm" "cm < 2 ^ 30" by (simp_all add: cm_def)
  define l' where "l' = xl * l + m mod K * K + w + cm"
  have lb: "0 \<le> m mod K * K" "m mod K * K \<le> (2 ^ 15 - 1) * 2 ^ 15" unfolding K_def by simp_all
  have l': "num (num (num (num (xl * l) + m mod K * K) + w) + cm) = l'" using b lb cm assms by (simp add: l'_def)
  have l'b: "0 \<le> l'" "l' < 2 ^ 32" using b lb cm assms by (simp_all add: l'_def)
  have lh: "js_ushr l' 30 = l' div 2 ^ 30" using l'b by (subst js_ushr_div) simp_all
  have ll: "js_and l' 0x3fffffff = l' mod 2 ^ 30" unfolding k30 by (subst js_and_mask) simp_all
  have mdiv: "0 \<le> m div K" "m div K \<le> 2 ^ 17" "0 \<le> l' div 2 ^ 30" "l' div 2 ^ 30 \<le> 2 ^ 3" "0 \<le> c div 2 ^ 30" "c div 2 ^ 30 \<le> 2 ^ 3"
    using mb l'b assms by (simp_all add: K_def)
  have c': "num (num (num (l' div 2 ^ 30 + m div K) + num (xh * h)) + c div 2 ^ 30) = l' div 2 ^ 30 + m div K + xh * h + c div 2 ^ 30"
    using b mdiv by simp
  have "x * a + w + c = l' + (m div K + xh * h + c div 2 ^ 30) * 2 ^ 30"
    using split_mult [of x a K, folded d, folded m_def] mult_div_mod [of m K] div_mult_mod_eq [of c "2 ^ 30", folded cm_def]
    by (simp add: l'_def K_def algebra_simps)
  note whole = div_mod_parts [OF this]
  show ?thesis using whole unfolding am2_body_def Let_def parts m ml mh cl [folded cm_def] l' lh ll ch c' by simp
qed

text \<open>The three routines compute the same: the digits and the carry of the sum.\<close>

definition am_body :: "am_engine \<Rightarrow> int \<Rightarrow> int \<Rightarrow> int \<Rightarrow> int \<Rightarrow> int \<times> int" where
  "am_body e x a w c = ((x * a + w + c) mod base e, (x * a + w + c) div base e)"

lemma am_body_carry:
  assumes "0 \<le> x" "x \<le> 2 * base e - 2" "0 \<le> a" "a < base e" "0 \<le> w" "w < base e" "0 \<le> c" "c \<le> 2 * base e - 2"
  shows "0 \<le> (x * a + w + c) div base e" "(x * a + w + c) div base e \<le> 2 * base e - 2"
    "x \<le> base e \<Longrightarrow> c \<le> base e \<Longrightarrow> (x * a + w + c) div base e \<le> base e"
proof -
  have p: "0 \<le> x * a" "x * a \<le> (2 * base e - 2) * (base e - 1)" using mult_bound [of x "2 * base e - 2" a "base e - 1"] assms by simp_all
  show "0 \<le> (x * a + w + c) div base e" using p assms by (simp add: pos_imp_zdiv_nonneg_iff)
  have "x * a + w + c < (2 * base e - 1) * base e" using p assms base_bounds(4) [of e] by (simp add: algebra_simps)
  then have "(x * a + w + c) div base e < 2 * base e - 1" by (rule div_less_if) simp
  then show "(x * a + w + c) div base e \<le> 2 * base e - 2" by simp
  assume "x \<le> base e" "c \<le> base e"
  moreover have "x * a \<le> base e * (base e - 1)" using mult_bound [of x "base e" a "base e - 1"] assms calculation by simp
  ultimately have "x * a + w + c < (base e + 1) * base e" using assms by (simp add: algebra_simps)
  then have "(x * a + w + c) div base e < base e + 1" by (rule div_less_if) simp
  then show "(x * a + w + c) div base e \<le> base e" by simp
qed

lemma am_loop_cong:
  assumes "\<And>k c. k < n \<Longrightarrow> 0 \<le> c \<Longrightarrow> c \<le> m \<Longrightarrow> body (a (i + k)) (w (j + k)) c = body' (a (i + k)) (w (j + k)) c"
    "\<And>k c. k < n \<Longrightarrow> 0 \<le> c \<Longrightarrow> c \<le> m \<Longrightarrow> 0 \<le> snd (body' (a (i + k)) (w (j + k)) c) \<and> snd (body' (a (i + k)) (w (j + k)) c) \<le> m"
    "0 \<le> c" "c \<le> m"
  shows "am_loop body a i w j c n = am_loop body' a i w j c n"
  using assms
proof (induction n arbitrary: i w j c)
  case (Suc n)
  obtain v c' where b: "body' (a i) (w j) c = (v, c')" by fastforce
  then have eq: "body (a i) (w j) c = (v, c')" "0 \<le> c'" "c' \<le> m" using Suc.prems(1,2) [of 0 c] Suc.prems(3,4) by simp_all
  have "am_loop body a (Suc i) (w(j := v)) (Suc j) c' n = am_loop body' a (Suc i) (w(j := v)) (Suc j) c' n"
    using Suc.prems(1,2) [of "Suc k" for k] eq(2,3) by (intro Suc.IH) simp_all
  then show ?case using b eq by simp
qed simp

lemma am_is_loop:
  assumes "0 \<le> x" "x \<le> 2 * base e - 2" "\<And>k. k < n \<Longrightarrow> 0 \<le> a (i + k) \<and> a (i + k) < base e"
    "\<And>k. k < n \<Longrightarrow> 0 \<le> w (j + k) \<and> w (j + k) < base e" "0 \<le> c" "c \<le> 2 * base e - 2"
  shows "am e a i x w j c n = am_loop (am_body e x) a i w j c n"
proof -
  have carry: "0 \<le> snd (am_body e x (a (i + k)) (w (j + k)) c) \<and> snd (am_body e x (a (i + k)) (w (j + k)) c) \<le> 2 * base e - 2"
    if "k < n" "0 \<le> c" "c \<le> 2 * base e - 2" for k c
    using am_body_carry [OF assms(1,2)] assms(3,4) [OF that(1)] that by (simp add: am_body_def)
  show ?thesis
  proof (cases e)
    case AM1
    show ?thesis unfolding AM1 am.simps am1_def
      by (rule am_loop_cong [where m = "2 * base e - 2"]) (use AM1 assms carry am1_exact in \<open>simp_all add: am_body_def\<close>)
  next
    case AM2
    show ?thesis unfolding AM2 am.simps am2_def
      by (rule am_loop_cong [where m = "2 * base e - 2"]) (use AM2 assms carry am2_exact in \<open>simp_all add: am_body_def\<close>)
  next
    case AM3
    show ?thesis unfolding AM3 am.simps am3_def
      by (rule am_loop_cong [where m = "2 * base e - 2"]) (use AM3 assms carry am3_exact in \<open>simp_all add: am_body_def\<close>)
  qed
qed

definition kept_outside :: "nat \<Rightarrow> nat \<Rightarrow> digits \<Rightarrow> digits \<Rightarrow> bool" where
  "kept_outside m n d d' \<longleftrightarrow> (\<forall>k. k < m \<or> n \<le> k \<longrightarrow> d' k = d k)"

lemma kept_outsideD: "kept_outside m n d d' \<Longrightarrow> k < m \<or> n \<le> k \<Longrightarrow> d' k = d k"
  by (auto simp: kept_outside_def)

lemma am_loop_spec:
  assumes "0 \<le> x" "x \<le> 2 * base e - 2" "digits_ok e (\<lambda>k. a (i + k)) n" "digits_ok e (\<lambda>k. w (j + k)) n" "0 \<le> c" "c \<le> 2 * base e - 2"
    "am_loop (am_body e x) a i w j c n = (w', c')"
  shows "dsum e (\<lambda>k. w' (j + k)) n + c' * base e ^ n = dsum e (\<lambda>k. w (j + k)) n + x * dsum e (\<lambda>k. a (i + k)) n + c \<and>
    kept_outside j (j + n) w w' \<and> digits_ok e (\<lambda>k. w' (j + k)) n \<and> 0 \<le> c' \<and> c' \<le> 2 * base e - 2 \<and>
    (x \<le> base e \<longrightarrow> c \<le> base e \<longrightarrow> c' \<le> base e)"
  using assms(3-)
proof (induction n arbitrary: i w j c)
  case 0
  then show ?case by (simp add: kept_outside_def digits_ok_def)
next
  case (Suc n)
  define v q where vq: "v = (x * a i + w j + c) mod base e" "q = (x * a i + w j + c) div base e"
  have ai: "0 \<le> a i" "a i < base e" "0 \<le> w j" "w j < base e"
    using Suc.prems(1,2) by (auto simp: digits_ok_def dest: spec [of _ 0])
  note carry = am_body_carry [OF assms(1,2) ai Suc.prems(3,4), folded vq]
  have "am_body e x (a i) (w j) c = (v, q)" by (simp add: am_body_def vq)
  then have run: "am_loop (am_body e x) a (Suc i) (w(j := v)) (Suc j) q n = (w', c')" using Suc.prems(5) by simp
  have ok: "digits_ok e (\<lambda>k. a (Suc i + k)) n" "digits_ok e (\<lambda>k. (w(j := v)) (Suc j + k)) n"
    using Suc.prems(1,2) by (auto simp: digits_ok_def dest: spec [of _ "Suc _"])
  note IH = Suc.IH [OF ok carry(1,2) run]
  have wj: "w' j = v" using IH by (auto simp: kept_outside_def)
  have sum: "v + base e * q = x * a i + w j + c" by (simp add: vq)
  have "dsum e (\<lambda>k. w' (j + k)) (Suc n) + c' * base e ^ Suc n = v + base e * (dsum e (\<lambda>k. w' (Suc j + k)) n + c' * base e ^ n)"
    by (simp add: dsum_first wj algebra_simps)
  also have "\<dots> = v + base e * (dsum e (\<lambda>k. w (Suc j + k)) n + x * dsum e (\<lambda>k. a (Suc i + k)) n + q)"
    using IH by simp
  also have "\<dots> = dsum e (\<lambda>k. w (j + k)) (Suc n) + x * dsum e (\<lambda>k. a (i + k)) (Suc n) + c"
    using sum by (simp add: dsum_first algebra_simps)
  finally have total: "dsum e (\<lambda>k. w' (j + k)) (Suc n) + c' * base e ^ Suc n =
    dsum e (\<lambda>k. w (j + k)) (Suc n) + x * dsum e (\<lambda>k. a (i + k)) (Suc n) + c" .
  have "kept_outside j (j + Suc n) w w'" using IH by (auto simp: kept_outside_def)
  moreover have "digits_ok e (\<lambda>k. w' (j + k)) (Suc n)"
  proof (rule digits_okI)
    fix k assume "k < Suc n"
    then show "0 \<le> w' (j + k) \<and> w' (j + k) < base e"
      using IH wj base_bounds(3) [of e] by (cases k) (auto simp: digits_ok_def vq)
  qed
  ultimately show ?case using total IH carry(3) by blast
qed

lemma am_spec:
  assumes "0 \<le> x" "x \<le> 2 * base e - 2" "digits_ok e (\<lambda>k. a (i + k)) n" "digits_ok e (\<lambda>k. w (j + k)) n" "0 \<le> c" "c \<le> 2 * base e - 2"
    "am e a i x w j c n = (w', c')"
  shows "dsum e (\<lambda>k. w' (j + k)) n + c' * base e ^ n = dsum e (\<lambda>k. w (j + k)) n + x * dsum e (\<lambda>k. a (i + k)) n + c"
    "kept_outside j (j + n) w w'" "digits_ok e (\<lambda>k. w' (j + k)) n" "0 \<le> c'" "c' \<le> 2 * base e - 2"
    "x \<le> base e \<Longrightarrow> c \<le> base e \<Longrightarrow> c' \<le> base e"
proof -
  have "am_loop (am_body e x) a i w j c n = (w', c')"
    using assms(7) am_is_loop [of x e n a i w j c] assms(1-6) by (simp add: digits_ok_def)
  note spec = am_loop_spec [OF assms(1-6) this]
  show "dsum e (\<lambda>k. w' (j + k)) n + c' * base e ^ n = dsum e (\<lambda>k. w (j + k)) n + x * dsum e (\<lambda>k. a (i + k)) n + c"
    "kept_outside j (j + n) w w'" "digits_ok e (\<lambda>k. w' (j + k)) n" "0 \<le> c'" "c' \<le> 2 * base e - 2"
    "x \<le> base e \<Longrightarrow> c \<le> base e \<Longrightarrow> c' \<le> base e" using spec by simp_all
qed

section \<open>Normal form\<close>

definition bn_raw :: "am_engine \<Rightarrow> bigint \<Rightarrow> bool" where
  "bn_raw e x \<longleftrightarrow> bi_s x \<in> {0, - 1} \<and> digits_ok e (bi_d x) (bi_t x)"

lemma bn_ok_raw: "bn_ok e x \<Longrightarrow> bn_raw e x"
  by (simp add: bn_ok_def bn_raw_def)

lemma clamp_loop_spec:
  assumes "s \<in> {0, - 1}"
  shows "clamp_loop (s mod base e) d t \<le> t \<and>
    (0 < clamp_loop (s mod base e) d t \<longrightarrow> d (clamp_loop (s mod base e) d t - 1) \<noteq> s mod base e) \<and>
    dsum e d (clamp_loop (s mod base e) d t) + s * base e ^ clamp_loop (s mod base e) d t = dsum e d t + s * base e ^ t \<and>
    (\<forall>i. clamp_loop (s mod base e) d t \<le> i \<and> i < t \<longrightarrow> d i = s mod base e)"
proof (induction t)
  case (Suc t)
  have "(s mod base e) * base e ^ t + s * base e ^ Suc t = s * base e ^ t"
    using assms base_bounds(4) [of e] by (auto simp: zmod_minus1 algebra_simps)
  then show ?case using Suc by (auto simp: dsum_Suc less_Suc_eq)
qed simp

lemma clamp_spec:
  assumes "bn_raw e x"
  shows "bn_ok e (clamp e x)" "bn_val e (clamp e x) = bn_val e x" "bi_t (clamp e x) \<le> bi_t x" "bi_d (clamp e x) = bi_d x"
    "bi_s (clamp e x) = bi_s x" "\<And>i. bi_t (clamp e x) \<le> i \<Longrightarrow> i < bi_t x \<Longrightarrow> bi_d x i = bi_s x mod base e"
  using clamp_loop_spec [of "bi_s x" e "bi_d x" "bi_t x"] assms digits_ok_mono [of e "bi_d x" "bi_t x"]
  by (auto simp: clamp_def bn_ok_def bn_raw_def bn_val_def and_DM)

lemma val_bounds:
  assumes "bn_raw e x"
  shows "bi_s x = 0 \<Longrightarrow> 0 \<le> bn_val e x \<and> bn_val e x < base e ^ bi_t x"
    "bi_s x = - 1 \<Longrightarrow> - (base e ^ bi_t x) \<le> bn_val e x \<and> bn_val e x < 0"
  using dsum_bounds [of e "bi_d x" "bi_t x"] assms by (simp_all add: bn_val_def bn_raw_def)

lemma val_sign: "bn_raw e x \<Longrightarrow> bi_s x = (if bn_val e x < 0 then - 1 else 0)"
  using val_bounds [of e x] by (auto simp: bn_raw_def)

lemma val_length:
  assumes "bn_ok e x" "0 < bi_t x"
  shows "bi_s x = 0 \<Longrightarrow> base e ^ (bi_t x - 1) \<le> bn_val e x" "bi_s x = - 1 \<Longrightarrow> bn_val e x < - (base e ^ (bi_t x - 1))"
proof -
  obtain t where t: "bi_t x = Suc t" using assms(2) by (cases "bi_t x") simp_all
  have d: "0 \<le> bi_d x t" "bi_d x t < base e" "bi_d x t \<noteq> bi_s x mod base e" "digits_ok e (bi_d x) t"
    using assms(1) t by (auto simp: bn_ok_def digits_ok_Suc)
  note b = dsum_bounds [OF d(4)]
  {
    assume s: "bi_s x = 0"
    then have "bn_val e x = dsum e (bi_d x) t + bi_d x t * base e ^ t" by (simp add: bn_val_def dsum_Suc t)
    moreover have "1 * base e ^ t \<le> bi_d x t * base e ^ t" using d s by (intro mult_right_mono) simp_all
    ultimately have "base e ^ t \<le> bn_val e x" using b by linarith
    then show "base e ^ (bi_t x - 1) \<le> bn_val e x" by (simp add: t)
  next
    assume s: "bi_s x = - 1"
    then have "bi_d x t \<noteq> base e - 1" using d(3) base_bounds(4) [of e] by (simp add: zmod_minus1)
    then have "bi_d x t * base e ^ t \<le> (base e - 2) * base e ^ t" using d by (intro mult_right_mono) simp_all
    moreover have "bn_val e x = dsum e (bi_d x) t + bi_d x t * base e ^ t - base e * base e ^ t" using s by (simp add: bn_val_def dsum_Suc t)
    ultimately have "bn_val e x < - (base e ^ t)" using b by (simp add: algebra_simps)
    then show "bn_val e x < - (base e ^ (bi_t x - 1))" by (simp add: t)
  }
qed

lemma val_nbv:
  assumes "- base e < i" "i < base e"
  shows "bn_ok e (nbv e i)" "bn_val e (nbv e i) = i"
  using assms base_bounds(4) [of e]
  by (auto simp: nbv_def fromInt_def Let_def nbi_def bn_ok_def bn_val_def digits_ok_def dsum_Suc DV_base zmod_minus1)

lemma ZERO_spec [simp]: "bn_ok e (ZERO e)" "bn_val e (ZERO e) = 0" "bi_t (ZERO e) = 0" "bi_s (ZERO e) = 0"
  using val_nbv [of e 0] base_bounds(3) [of e] by (simp_all add: ZERO_def) (simp_all add: nbv_def fromInt_def Let_def)

lemma ONE_spec [simp]: "bn_ok e (ONE e)" "bn_val e (ONE e) = 1"
  using val_nbv [of e 1] base_bounds(4) [of e] by (simp_all add: ONE_def)

end
