(* ===== verification/BigIntegerSums.thy ===== *)
theory BigIntegerSums
  imports BigIntegerProofs
begin

text \<open>Sums, differences and comparisons of numbers: what they are as integers, with every result in normal form.\<close>

section \<open>Carries\<close>

lemma div_between: "L * B \<le> v \<Longrightarrow> v < (U + 1) * B \<Longrightarrow> 0 < B \<Longrightarrow> L \<le> v div B \<and> v div B \<le> (U :: int)"
  using div_less_if [of v "U + 1" B] zdiv_mono1 [of "L * B" v B] by simp

text \<open>The carry stays between \<open>L\<close> and \<open>U\<close>, and what is added stays within 32 bits.\<close>

lemma carry_loop_spec:
  assumes "\<And>k. k < n \<Longrightarrow> L * base e \<le> L + f (m + k) \<and> U + f (m + k) < (U + 1) * base e" "- 2 \<le> L" "U \<le> 1" "L \<le> c" "c \<le> U"
    "carry_loop e f [m..<m + n] c d = (d', c')"
  shows "dsum e (\<lambda>k. d' (m + k)) n + c' * base e ^ n = dsum e (\<lambda>k. f (m + k)) n + c \<and> kept_outside m (m + n) d d' \<and>
    digits_ok e (\<lambda>k. d' (m + k)) n \<and> L \<le> c' \<and> c' \<le> U"
  using assms(1,4-)
proof (induction n arbitrary: m c d)
  case 0
  then show ?case by (simp add: kept_outside_def digits_ok_def)
next
  case (Suc n)
  define v where "v = c + f m"
  have f: "L * base e \<le> L + f m" "U + f m < (U + 1) * base e" using Suc.prems(1) [of 0] by simp_all
  then have v: "L * base e \<le> v" "v < (U + 1) * base e" using Suc.prems(2,3) by (simp_all add: v_def)
  have "- 2 * base e \<le> L * base e" "(U + 1) * base e \<le> 2 * base e" using assms(2,3) by (intro mult_right_mono; simp)+
  moreover have "2 * base e \<le> 2 ^ 31" using base_bounds(2) [of e] by simp
  ultimately have small: "- (2 ^ 31) \<le> v" "v < 2 ^ 31" using v by linarith+
  note q = div_between [OF v base_bounds(3)]
  have shift: "js_shr v (dbits e) = v div base e" using small dbits_bounds [of e] by (intro js_shr_div) simp_all
  have "[m..<m + Suc n] = m # [Suc m..<Suc m + n]" using upt_rec by simp
  then have run: "carry_loop e f [Suc m..<Suc m + n] (v div base e) (d(m := v mod base e)) = (d', c')"
    using Suc.prems(4) by (simp add: v_def [symmetric] shift and_DM)
  note IH = Suc.IH [OF _ conjunct1 [OF q] conjunct2 [OF q] run]
  have IH: "dsum e (\<lambda>k. d' (Suc m + k)) n + c' * base e ^ n = dsum e (\<lambda>k. f (Suc m + k)) n + v div base e \<and>
    kept_outside (Suc m) (Suc m + n) (d(m := v mod base e)) d' \<and> digits_ok e (\<lambda>k. d' (Suc m + k)) n \<and> L \<le> c' \<and> c' \<le> U"
    using Suc.prems(1) [of "Suc k" for k] by (intro IH) simp
  then have dm: "d' m = v mod base e" by (auto simp: kept_outside_def)
  have "dsum e (\<lambda>k. d' (m + k)) (Suc n) + c' * base e ^ Suc n = v mod base e + base e * (dsum e (\<lambda>k. d' (Suc m + k)) n + c' * base e ^ n)"
    by (simp add: dsum_first dm algebra_simps)
  also have "\<dots> = v mod base e + base e * (v div base e) + base e * dsum e (\<lambda>k. f (Suc m + k)) n"
    using IH by (simp add: algebra_simps)
  also have "\<dots> = dsum e (\<lambda>k. f (m + k)) (Suc n) + c" by (simp add: dsum_first v_def)
  finally have total: "dsum e (\<lambda>k. d' (m + k)) (Suc n) + c' * base e ^ Suc n = dsum e (\<lambda>k. f (m + k)) (Suc n) + c" .
  have "kept_outside m (m + Suc n) d d'" using IH by (auto simp: kept_outside_def)
  moreover have "digits_ok e (\<lambda>k. d' (m + k)) (Suc n)"
  proof (rule digits_okI)
    fix k assume "k < Suc n"
    then show "0 \<le> d' (m + k) \<and> d' (m + k) < base e"
      using IH dm base_bounds(3) [of e] by (cases k) (auto simp: digits_ok_def)
  qed
  ultimately show ?case using total IH by blast
qed

text \<open>Two loops one after the other, as the sums and differences have them.\<close>

lemma carry_loops:
  assumes "carry_loop e f [0..<m] 0 d = (d1, c1)" "carry_loop e g [m..<m + n] (c1 + s) d1 = (d2, c2)"
    "\<And>k. k < m \<Longrightarrow> L * base e \<le> L + f k \<and> U + f k < (U + 1) * base e" "- 2 \<le> L" "U \<le> 1" "L \<le> 0" "0 \<le> U"
    "\<And>k. k < n \<Longrightarrow> L' * base e \<le> L' + g (m + k) \<and> U' + g (m + k) < (U' + 1) * base e" "- 2 \<le> L'" "U' \<le> 1" "L' \<le> L + s" "U + s \<le> U'"
  shows "dsum e d2 (m + n) + c2 * base e ^ (m + n) = dsum e f m + base e ^ m * (dsum e (\<lambda>k. g (m + k)) n + s) \<and>
    digits_ok e d2 (m + n) \<and> kept_outside 0 (m + n) d d2 \<and> L' \<le> c2 \<and> c2 \<le> U'"
proof -
  have first: "dsum e d1 m + c1 * base e ^ m = dsum e f m \<and> kept_outside 0 m d d1 \<and> digits_ok e d1 m \<and> L \<le> c1 \<and> c1 \<le> U"
    using carry_loop_spec [of m L e f 0 U 0 d d1 c1] assms(1,3-7) by simp
  have second: "dsum e (\<lambda>k. d2 (m + k)) n + c2 * base e ^ n = dsum e (\<lambda>k. g (m + k)) n + (c1 + s) \<and> kept_outside m (m + n) d1 d2 \<and>
    digits_ok e (\<lambda>k. d2 (m + k)) n \<and> L' \<le> c2 \<and> c2 \<le> U'"
    using carry_loop_spec [of n L' e g m U' "c1 + s" d1 d2 c2] assms(2,8-12) first by simp
  have low: "dsum e d2 m = dsum e d1 m" using second by (intro dsum_cong) (simp add: kept_outside_def)
  have "dsum e d2 (m + n) + c2 * base e ^ (m + n) = dsum e d1 m + base e ^ m * (dsum e (\<lambda>k. d2 (m + k)) n + c2 * base e ^ n)"
    by (simp add: dsum_split low power_add algebra_simps)
  also have "\<dots> = dsum e d1 m + base e ^ m * (dsum e (\<lambda>k. g (m + k)) n + (c1 + s))" using second by simp
  also have "\<dots> = (dsum e d1 m + c1 * base e ^ m) + base e ^ m * (dsum e (\<lambda>k. g (m + k)) n + s)" by (simp add: algebra_simps)
  finally have total: "dsum e d2 (m + n) + c2 * base e ^ (m + n) = dsum e f m + base e ^ m * (dsum e (\<lambda>k. g (m + k)) n + s)"
    using first by simp
  moreover have "digits_ok e d2 (m + n)"
  proof (rule digits_okI)
    fix i assume "i < m + n"
    then show "0 \<le> d2 i \<and> d2 i < base e"
      using first second by (cases "i < m") (auto simp: digits_ok_def kept_outside_def dest: spec [of _ "i - m"])
  qed
  moreover have "kept_outside 0 (m + n) d d2" using first second by (simp add: kept_outside_def)
  ultimately show ?thesis using second by simp
qed

text \<open>The last carry becomes the sign or a further digit.\<close>

lemma finish_spec:
  assumes "digits_ok e d i" "- 2 \<le> c" "c \<le> 2"
    "y = (let r1 = r\<lparr>bi_s := if c < 0 then - 1 else 0\<rparr>
      in if c < - 1 then r1\<lparr>bi_d := d(i := DV e + c), bi_t := Suc i\<rparr>
         else if 0 < c then r1\<lparr>bi_d := d(i := c), bi_t := Suc i\<rparr>
         else r1\<lparr>bi_d := d, bi_t := i\<rparr>)"
  shows "bn_ok e (clamp e y)" "bn_val e (clamp e y) = dsum e d i + c * base e ^ i"
proof -
  have "digits_ok e (d(i := q)) (Suc i)" if "0 \<le> q" "q < base e" for q
    using assms(1) that by (auto simp: digits_ok_def less_Suc_eq)
  moreover have "dsum e (d(i := q)) i = dsum e d i" for q by (rule dsum_cong) simp
  ultimately have "bn_raw e y \<and> bn_val e y = dsum e d i + c * base e ^ i"
    using assms base_bounds(1) [of e] by (auto simp: bn_raw_def bn_val_def dsum_Suc DV_base Let_def algebra_simps)
  then show "bn_ok e (clamp e y)" "bn_val e (clamp e y) = dsum e d i + c * base e ^ i" using clamp_spec(1,2) [of e y] by simp_all
qed

section \<open>Sums and differences\<close>

lemma dsum_minus: "dsum e (\<lambda>i. d i - d' i) n = dsum e d n - dsum e d' n"
  by (simp add: dsum_def sum_subtractf algebra_simps)

lemma dsum_plus: "dsum e (\<lambda>i. d i + d' i) n = dsum e d n + dsum e d' n"
  by (simp add: dsum_def sum.distrib algebra_simps)

lemma dsum_neg: "dsum e (\<lambda>i. - d i) n = - dsum e d n"
  by (simp add: dsum_def sum_negf)

lemma raw_split:
  assumes "bn_raw e x" "bi_t x = m + n"
  shows "bn_val e x = dsum e (bi_d x) m + base e ^ m * dsum e (\<lambda>k. bi_d x (m + k)) n + bi_s x * base e ^ (m + n)"
  using assms by (simp add: bn_val_def dsum_split)

lemma raw_digit: "bn_raw e x \<Longrightarrow> k < bi_t x \<Longrightarrow> 0 \<le> bi_d x k \<and> bi_d x k < base e"
  by (simp add: bn_raw_def digits_ok_def)

lemma raw_sign: "bn_raw e x \<Longrightarrow> - 1 \<le> bi_s x \<and> bi_s x \<le> 0"
  by (auto simp: bn_raw_def)

theorem subTo_spec:
  assumes "bn_raw e x" "bn_raw e a"
  shows "bn_ok e (subTo e x a r)" "bn_val e (subTo e x a r) = bn_val e x - bn_val e a"
proof -
  define m n where "m = min (bi_t a) (bi_t x)" "n = max (bi_t a) (bi_t x) - m"
  have i: "max (bi_t a) (bi_t x) = m + n" by (simp add: m_n_def)
  obtain d1 c1 where one: "carry_loop e (\<lambda>i. bi_d x i - bi_d a i) [0..<m] 0 (bi_d r) = (d1, c1)" by fastforce
  have lt: "k < bi_t x \<and> k < bi_t a" if "k < m" for k using that by (simp add: m_n_def)
  have first: "- 1 * base e \<le> - 1 + (bi_d x k - bi_d a k) \<and> 0 + (bi_d x k - bi_d a k) < (0 + 1) * base e" if "k < m" for k
    using raw_digit [OF assms(1), of k] raw_digit [OF assms(2), of k] lt [OF that] by simp
  note s = raw_sign [OF assms(1)] raw_sign [OF assms(2)]
  show "bn_ok e (subTo e x a r)" "bn_val e (subTo e x a r) = bn_val e x - bn_val e a"
  proof (atomize (full), cases "bi_t a < bi_t x")
    case True
    then have t: "bi_t x = m + n" "bi_t a = m" by (simp_all add: m_n_def)
    obtain d2 c2 where two: "carry_loop e (bi_d x) [m..<m + n] (c1 + - bi_s a) d1 = (d2, c2)" by fastforce
    have "k < n \<Longrightarrow> - 1 * base e \<le> - 1 + bi_d x (m + k) \<and> 1 + bi_d x (m + k) < (1 + 1) * base e" for k
      using raw_digit [OF assms(1), of "m + k"] t base_bounds(4) [of e] by simp
    note loops = carry_loops [OF one two first _ _ _ _ this]
    then have loops: "dsum e d2 (m + n) + c2 * base e ^ (m + n) =
        dsum e (\<lambda>i. bi_d x i - bi_d a i) m + base e ^ m * (dsum e (\<lambda>k. bi_d x (m + k)) n + - bi_s a) \<and>
      digits_ok e d2 (m + n) \<and> kept_outside 0 (m + n) (bi_d r) d2 \<and> - 1 \<le> c2 \<and> c2 \<le> 1"
      using s by simp
    have "subTo e x a r = clamp e (let r1 = r\<lparr>bi_s := if c2 + bi_s x < 0 then - 1 else 0\<rparr>
      in if c2 + bi_s x < - 1 then r1\<lparr>bi_d := d2(m + n := DV e + (c2 + bi_s x)), bi_t := Suc (m + n)\<rparr>
         else if 0 < c2 + bi_s x then r1\<lparr>bi_d := d2(m + n := c2 + bi_s x), bi_t := Suc (m + n)\<rparr>
         else r1\<lparr>bi_d := d2, bi_t := m + n\<rparr>)"
      using one two True t i by (simp add: subTo_def Let_def m_n_def(1) [symmetric])
    note finish = finish_spec [of e d2 "m + n" "c2 + bi_s x" _ r, OF _ _ _ refl, folded this]
    have "bn_val e x - bn_val e a = dsum e d2 (m + n) + (c2 + bi_s x) * base e ^ (m + n)"
      using raw_split [OF assms(1) t(1)] t(2) conjunct1 [OF loops] by (simp add: bn_val_def [of e a] dsum_minus algebra_simps)
    then show "bn_ok e (subTo e x a r) \<and> bn_val e (subTo e x a r) = bn_val e x - bn_val e a" using finish loops s by simp
  next
    case False
    then have t: "bi_t a = m + n" "bi_t x = m" by (simp_all add: m_n_def)
    obtain d2 c2 where two: "carry_loop e (\<lambda>i. - bi_d a i) [m..<m + n] (c1 + bi_s x) d1 = (d2, c2)" by fastforce
    have "k < n \<Longrightarrow> - 2 * base e \<le> - 2 + - bi_d a (m + k) \<and> 0 + - bi_d a (m + k) < (0 + 1) * base e" for k
      using raw_digit [OF assms(2), of "m + k"] t base_bounds(4) [of e] by simp
    note loops = carry_loops [OF one two first _ _ _ _ this]
    then have loops: "dsum e d2 (m + n) + c2 * base e ^ (m + n) =
        dsum e (\<lambda>i. bi_d x i - bi_d a i) m + base e ^ m * (dsum e (\<lambda>k. - bi_d a (m + k)) n + bi_s x) \<and>
      digits_ok e d2 (m + n) \<and> kept_outside 0 (m + n) (bi_d r) d2 \<and> - 2 \<le> c2 \<and> c2 \<le> 0"
      using s by simp
    have "subTo e x a r = clamp e (let r1 = r\<lparr>bi_s := if c2 - bi_s a < 0 then - 1 else 0\<rparr>
      in if c2 - bi_s a < - 1 then r1\<lparr>bi_d := d2(m + n := DV e + (c2 - bi_s a)), bi_t := Suc (m + n)\<rparr>
         else if 0 < c2 - bi_s a then r1\<lparr>bi_d := d2(m + n := c2 - bi_s a), bi_t := Suc (m + n)\<rparr>
         else r1\<lparr>bi_d := d2, bi_t := m + n\<rparr>)"
      using one two False t i by (simp add: subTo_def Let_def m_n_def(1) [symmetric])
    note finish = finish_spec [of e d2 "m + n" "c2 - bi_s a" _ r, OF _ _ _ refl, folded this]
    have "bn_val e x - bn_val e a = dsum e d2 (m + n) + (c2 - bi_s a) * base e ^ (m + n)"
      using raw_split [OF assms(2) t(1)] t(2) conjunct1 [OF loops] by (simp add: bn_val_def [of e x] dsum_minus dsum_neg algebra_simps)
    then show "bn_ok e (subTo e x a r) \<and> bn_val e (subTo e x a r) = bn_val e x - bn_val e a" using finish loops s by simp
  qed
qed

theorem addTo_spec:
  assumes "bn_raw e x" "bn_raw e a"
  shows "bn_ok e (addTo e x a r)" "bn_val e (addTo e x a r) = bn_val e x + bn_val e a"
proof -
  define m n where "m = min (bi_t a) (bi_t x)" "n = max (bi_t a) (bi_t x) - m"
  have i: "max (bi_t a) (bi_t x) = m + n" by (simp add: m_n_def)
  obtain d1 c1 where one: "carry_loop e (\<lambda>i. bi_d x i + bi_d a i) [0..<m] 0 (bi_d r) = (d1, c1)" by fastforce
  have lt: "k < bi_t x \<and> k < bi_t a" if "k < m" for k using that by (simp add: m_n_def)
  have first: "0 * base e \<le> 0 + (bi_d x k + bi_d a k) \<and> 1 + (bi_d x k + bi_d a k) < (1 + 1) * base e" if "k < m" for k
    using raw_digit [OF assms(1), of k] raw_digit [OF assms(2), of k] lt [OF that] by simp
  note s = raw_sign [OF assms(1)] raw_sign [OF assms(2)]
  have rest: "- 1 * base e \<le> - 1 + bi_d y k \<and> 1 + bi_d y k < (1 + 1) * base e" if "bn_raw e y" "k < bi_t y" for y k
    using raw_digit [OF that] base_bounds(4) [of e] by simp
  define form where "form d2 c = (let r1 = r\<lparr>bi_s := if c < 0 then - 1 else 0\<rparr>
      in if c < - 1 then r1\<lparr>bi_d := d2(m + n := DV e + c), bi_t := Suc (m + n)\<rparr>
         else if 0 < c then r1\<lparr>bi_d := d2(m + n := c), bi_t := Suc (m + n)\<rparr>
         else r1\<lparr>bi_d := d2, bi_t := m + n\<rparr>)" for d2 c
  note finish = finish_spec [OF _ _ _ form_def]
  show "bn_ok e (addTo e x a r)" "bn_val e (addTo e x a r) = bn_val e x + bn_val e a"
  proof (atomize (full), cases "bi_t a < bi_t x")
    case True
    then have t: "bi_t x = m + n" "bi_t a = m" by (simp_all add: m_n_def)
    obtain d2 c2 where two: "carry_loop e (bi_d x) [m..<m + n] (c1 + bi_s a) d1 = (d2, c2)" by fastforce
    have "k < n \<Longrightarrow> - 1 * base e \<le> - 1 + bi_d x (m + k) \<and> 1 + bi_d x (m + k) < (1 + 1) * base e" for k
      using rest [OF assms(1)] t by simp
    note loops = carry_loops [OF one two first _ _ _ _ this]
    then have loops: "dsum e d2 (m + n) + c2 * base e ^ (m + n) =
        dsum e (\<lambda>i. bi_d x i + bi_d a i) m + base e ^ m * (dsum e (\<lambda>k. bi_d x (m + k)) n + bi_s a) \<and>
      digits_ok e d2 (m + n) \<and> kept_outside 0 (m + n) (bi_d r) d2 \<and> - 1 \<le> c2 \<and> c2 \<le> 1"
      using s by simp
    have sum: "addTo e x a r = clamp e (form d2 (c2 + bi_s x))"
      using one two True t i by (simp add: addTo_def form_def Let_def m_n_def(1) [symmetric])
    have "bn_val e x + bn_val e a = dsum e d2 (m + n) + (c2 + bi_s x) * base e ^ (m + n)"
      using raw_split [OF assms(1) t(1)] t(2) conjunct1 [OF loops] by (simp add: bn_val_def [of e a] dsum_plus algebra_simps)
    then show "bn_ok e (addTo e x a r) \<and> bn_val e (addTo e x a r) = bn_val e x + bn_val e a"
      unfolding sum using finish loops s by simp
  next
    case False
    then have t: "bi_t a = m + n" "bi_t x = m" by (simp_all add: m_n_def)
    obtain d2 c2 where two: "carry_loop e (bi_d a) [m..<m + n] (c1 + bi_s x) d1 = (d2, c2)" by fastforce
    have "k < n \<Longrightarrow> - 1 * base e \<le> - 1 + bi_d a (m + k) \<and> 1 + bi_d a (m + k) < (1 + 1) * base e" for k
      using rest [OF assms(2)] t by simp
    note loops = carry_loops [OF one two first _ _ _ _ this]
    then have loops: "dsum e d2 (m + n) + c2 * base e ^ (m + n) =
        dsum e (\<lambda>i. bi_d x i + bi_d a i) m + base e ^ m * (dsum e (\<lambda>k. bi_d a (m + k)) n + bi_s x) \<and>
      digits_ok e d2 (m + n) \<and> kept_outside 0 (m + n) (bi_d r) d2 \<and> - 1 \<le> c2 \<and> c2 \<le> 1"
      using s by simp
    have sum: "addTo e x a r = clamp e (form d2 (c2 + bi_s a))"
      using one two False t i by (simp add: addTo_def form_def Let_def m_n_def(1) [symmetric])
    have "bn_val e x + bn_val e a = dsum e d2 (m + n) + (c2 + bi_s a) * base e ^ (m + n)"
      using raw_split [OF assms(2) t(1)] t(2) conjunct1 [OF loops] by (simp add: bn_val_def [of e x] dsum_plus algebra_simps)
    then show "bn_ok e (addTo e x a r) \<and> bn_val e (addTo e x a r) = bn_val e x + bn_val e a"
      unfolding sum using finish loops s by simp
  qed
qed

lemma negate_spec: "bn_raw e x \<Longrightarrow> bn_ok e (negate e x)" "bn_raw e x \<Longrightarrow> bn_val e (negate e x) = - bn_val e x"
  unfolding negate_def using subTo_spec [OF bn_ok_raw [OF ZERO_spec(1)]] by simp_all

lemma abs_spec:
  assumes "bn_ok e x"
  shows "bn_ok e (bn_abs e x)" "bn_val e (bn_abs e x) = \<bar>bn_val e x\<bar>" "bi_s (bn_abs e x) = 0"
proof -
  note raw = bn_ok_raw [OF assms]
  show ok: "bn_ok e (bn_abs e x)" using negate_spec(1) [OF raw] assms by (simp add: bn_abs_def)
  show val: "bn_val e (bn_abs e x) = \<bar>bn_val e x\<bar>" using negate_spec(2) [OF raw] val_sign [OF raw] by (simp add: bn_abs_def split: if_splits)
  show "bi_s (bn_abs e x) = 0" using val_sign [OF bn_ok_raw [OF ok]] val by simp
qed

section \<open>Comparison\<close>

lemma compare_digits_spec:
  "digits_ok e d n \<Longrightarrow> digits_ok e a n \<Longrightarrow> sgn (compare_digits d a n) = sgn (dsum e d n - dsum e a n)"
proof (induction n)
  case (Suc n)
  then have ok: "digits_ok e d n" "digits_ok e a n" by (simp_all add: digits_ok_Suc)
  note b = dsum_bounds [OF ok(1)] dsum_bounds [OF ok(2)]
  have p: "0 < base e ^ n" by simp
  have diff: "dsum e d (Suc n) - dsum e a (Suc n) = (d n - a n) * base e ^ n + (dsum e d n - dsum e a n)"
    by (simp add: dsum_Suc algebra_simps)
  consider "d n = a n" | "a n + 1 \<le> d n" | "d n + 1 \<le> a n" by linarith
  then show ?case
  proof cases
    case 1
    then show ?thesis using Suc.IH ok by (simp add: dsum_Suc)
  next
    case 2
    then have "1 * base e ^ n \<le> (d n - a n) * base e ^ n" by (intro mult_right_mono) simp_all
    then have "0 < dsum e d (Suc n) - dsum e a (Suc n)" using b diff by linarith
    then show ?thesis using 2 by simp
  next
    case 3
    then have "1 * base e ^ n \<le> (a n - d n) * base e ^ n" by (intro mult_right_mono) simp_all
    then have "dsum e d (Suc n) - dsum e a (Suc n) < 0" using b diff by (simp only: left_diff_distrib) linarith
    then show ?thesis using 3 by simp
  qed
qed simp

lemma longer_is_larger:
  assumes "bn_ok e x" "bn_ok e a" "bi_s x = bi_s a" "bi_t a < bi_t x"
  shows "if bi_s x < 0 then bn_val e x < bn_val e a else bn_val e a < bn_val e x"
proof -
  have pow: "base e ^ bi_t a \<le> base e ^ (bi_t x - 1)" using assms(4) base_bounds(4) [of e] by (intro power_increasing) simp_all
  have t: "0 < bi_t x" using assms(4) by simp
  note b = val_length [OF assms(1) t] val_bounds [OF bn_ok_raw [OF assms(2)]]
  have "bi_s x = 0 \<or> bi_s x = - 1" using assms(1) by (auto simp: bn_ok_def)
  then show ?thesis
  proof
    assume "bi_s x = 0"
    then have "bn_val e a < bn_val e x" using b(1,3) pow assms(3) by linarith
    then show ?thesis using \<open>bi_s x = 0\<close> by simp
  next
    assume "bi_s x = - 1"
    then have "bn_val e x < bn_val e a" using b(2,4) pow assms(3) by linarith
    then show ?thesis using \<open>bi_s x = - 1\<close> by simp
  qed
qed

theorem compareTo_spec:
  assumes "bn_ok e x" "bn_ok e a"
  shows "sgn (compareTo x a) = sgn (bn_val e x - bn_val e a)"
proof -
  note s = val_sign [OF bn_ok_raw [OF assms(1)]] val_sign [OF bn_ok_raw [OF assms(2)]]
  consider "bi_s x \<noteq> bi_s a" | "bi_s x = bi_s a" "bi_t a < bi_t x" | "bi_s x = bi_s a" "bi_t x < bi_t a"
    | "bi_s x = bi_s a" "bi_t x = bi_t a" by linarith
  then show ?thesis
  proof cases
    case 1
    then show ?thesis using s by (auto simp: compareTo_def split: if_splits)
  next
    case 2
    then show ?thesis using longer_is_larger [OF assms 2] by (auto simp: compareTo_def Let_def split: if_splits)
  next
    case 3
    then show ?thesis using longer_is_larger [OF assms(2,1)] by (auto simp: compareTo_def Let_def split: if_splits)
  next
    case 4
    then have "compareTo x a = compare_digits (bi_d x) (bi_d a) (bi_t x)" by (simp add: compareTo_def)
    moreover have "bn_val e x - bn_val e a = dsum e (bi_d x) (bi_t x) - dsum e (bi_d a) (bi_t x)" using 4 by (simp add: bn_val_def)
    ultimately show ?thesis using compare_digits_spec [of e "bi_d x" "bi_t x" "bi_d a"] assms 4 by (simp add: bn_ok_def)
  qed
qed

lemma compareTo_order:
  assumes "bn_ok e x" "bn_ok e a"
  shows "0 \<le> compareTo x a \<longleftrightarrow> bn_val e a \<le> bn_val e x" "0 < compareTo x a \<longleftrightarrow> bn_val e a < bn_val e x"
    "bn_equals x a \<longleftrightarrow> bn_val e x = bn_val e a"
  using compareTo_spec [OF assms] unfolding bn_equals_def
  by (auto simp: sgn_if split: if_splits)

end
