(* ===== verification/BigIntegerProducts.thy ===== *)
theory BigIntegerProducts
  imports BigIntegerSums
begin

text \<open>Copies, shifts and products of numbers, and the number of bits.\<close>

section \<open>Stored digits\<close>

lemma fold_store:
  "fold (\<lambda>i d. d(i + m := f i)) (rev [0..<n]) d = (\<lambda>k. if m \<le> k \<and> k < m + n then f (k - m) else d k)"
  by (induction n arbitrary: d) (auto simp: fun_eq_iff)

lemma fold_copy: "fold (\<lambda>i d. d(i := f i)) (rev [0..<n]) d = (\<lambda>k. if k < n then f k else d k)"
  using fold_store [of 0 f n d] by (simp add: fun_eq_iff)

lemma fold_copy_up: "fold (\<lambda>i d. d(i := f i)) [m..<n] d = (\<lambda>k. if m \<le> k \<and> k < n then f k else d k)"
proof (induction n)
  case (Suc n)
  then show ?case by (cases "m \<le> n") (auto simp: fun_eq_iff)
qed (simp add: fun_eq_iff)

lemma fold_down: "fold (\<lambda>i d. d(i - m := f i)) [m..<m + n] d = (\<lambda>k. if k < n then f (k + m) else d k)"
  by (induction n) (auto simp: fun_eq_iff add.commute)

lemma copyTo_spec:
  "bi_s (copyTo x r) = bi_s x" "bi_t (copyTo x r) = bi_t x" "k < bi_t x \<Longrightarrow> bi_d (copyTo x r) k = bi_d x k"
  by (simp_all add: copyTo_def fold_copy)

text \<open>Numbers that agree in the digits in use are the same.\<close>

lemma val_cong:
  assumes "bi_s x = bi_s y" "bi_t x = bi_t y" "\<And>k. k < bi_t y \<Longrightarrow> bi_d x k = bi_d y k"
  shows "bn_val e x = bn_val e y" "bn_raw e x = bn_raw e y" "bn_ok e x = bn_ok e y"
  using assms dsum_cong [of "bi_t y" "bi_d x" "bi_d y" e] by (auto simp: bn_val_def bn_raw_def bn_ok_def digits_ok_def)

lemma copyTo_val: "bn_val e (copyTo x r) = bn_val e x" "bn_ok e (copyTo x r) = bn_ok e x"
  by (rule val_cong; simp add: copyTo_spec)+

lemma fromInt_zero: "bn_ok e (fromInt e 0 r)" "bn_val e (fromInt e 0 r) = 0"
  by (simp_all add: fromInt_def Let_def bn_ok_def bn_val_def digits_ok_def)

section \<open>Shifts by digits\<close>

lemma nat_sum: "nat (int i + int n) = i + n"
  by (simp flip: of_nat_add)

lemma dLShift_digits:
  "bi_d (dLShiftTo x (int n) r) = (\<lambda>k. if k < n then 0 else if k < n + bi_t x then bi_d x (k - n) else bi_d r k)"
  "bi_t (dLShiftTo x (int n) r) = bi_t x + n" "bi_s (dLShiftTo x (int n) r) = bi_s x"
proof -
  have "(\<lambda>i d. if int i + int n < 0 then d else d(nat (int i + int n) := bi_d x i)) = (\<lambda>i d. d(i + n := bi_d x i))"
    by (auto simp: fun_eq_iff nat_sum)
  then show "bi_d (dLShiftTo x (int n) r) = (\<lambda>k. if k < n then 0 else if k < n + bi_t x then bi_d x (k - n) else bi_d r k)"
    unfolding dLShiftTo_def Let_def by (simp only:) (auto simp: fold_store fold_copy fun_eq_iff)
  show "bi_t (dLShiftTo x (int n) r) = bi_t x + n" "bi_s (dLShiftTo x (int n) r) = bi_s x"
    by (simp_all add: dLShiftTo_def Let_def nat_sum)
qed

lemma dLShift_spec:
  assumes "bn_raw e x"
  shows "bn_raw e (dLShiftTo x (int n) r)" "bn_val e (dLShiftTo x (int n) r) = bn_val e x * base e ^ n"
    "bn_ok e x \<Longrightarrow> 0 < bi_t x \<or> n = 0 \<Longrightarrow> bn_ok e (dLShiftTo x (int n) r)"
proof -
  have "dsum e (bi_d (dLShiftTo x (int n) r)) (n + bi_t x) = base e ^ n * dsum e (bi_d x) (bi_t x)"
    by (simp add: dsum_split dLShift_digits dsum_zero cong: dsum_cong)
  then show "bn_val e (dLShiftTo x (int n) r) = bn_val e x * base e ^ n"
    by (simp add: bn_val_def dLShift_digits(2,3) add.commute power_add algebra_simps)
  show "bn_raw e (dLShiftTo x (int n) r)"
    using assms base_bounds(3) [of e] by (auto simp: bn_raw_def digits_ok_def dLShift_digits)
  then show "bn_ok e (dLShiftTo x (int n) r)" if "bn_ok e x" "0 < bi_t x \<or> n = 0"
    using that by (auto simp: bn_raw_def bn_ok_def dLShift_digits)
qed

lemma dRShift_digits:
  "bi_d (dRShiftTo x n r) = (\<lambda>k. if k < bi_t x - n then bi_d x (k + n) else bi_d r k)"
  "bi_t (dRShiftTo x n r) = bi_t x - n" "bi_s (dRShiftTo x n r) = bi_s x"
proof -
  have "[n..<bi_t x] = [n..<n + (bi_t x - n)]" by (cases "n \<le> bi_t x") simp_all
  then show "bi_d (dRShiftTo x n r) = (\<lambda>k. if k < bi_t x - n then bi_d x (k + n) else bi_d r k)"
    by (simp only: dRShiftTo_def fold_down) simp
  show "bi_t (dRShiftTo x n r) = bi_t x - n" "bi_s (dRShiftTo x n r) = bi_s x" by (simp_all add: dRShiftTo_def)
qed

lemma dRShift_spec:
  assumes "bn_raw e x"
  shows "bn_raw e (dRShiftTo x n r)" "bn_val e (dRShiftTo x n r) = bn_val e x div base e ^ n"
    "bn_ok e x \<Longrightarrow> bn_ok e (dRShiftTo x n r)"
proof -
  show raw: "bn_raw e (dRShiftTo x n r)" using assms by (auto simp: bn_raw_def digits_ok_def dRShift_digits)
  show "bn_ok e (dRShiftTo x n r)" if "bn_ok e x"
    using that raw by (auto simp: bn_raw_def bn_ok_def dRShift_digits)
  show "bn_val e (dRShiftTo x n r) = bn_val e x div base e ^ n"
  proof (cases "n \<le> bi_t x")
    case True
    then obtain m where m: "bi_t x = n + m" using le_Suc_ex by blast
    have "dsum e (bi_d (dRShiftTo x n r)) m = dsum e (\<lambda>k. bi_d x (n + k)) m"
      by (rule dsum_cong) (simp add: dRShift_digits m add.commute)
    moreover have "dsum e (bi_d x) (n + m) = dsum e (bi_d x) n + base e ^ n * dsum e (\<lambda>k. bi_d x (n + k)) m" by (rule dsum_split)
    ultimately have "bn_val e x = dsum e (bi_d x) n + bn_val e (dRShiftTo x n r) * base e ^ n"
      by (simp add: bn_val_def dRShift_digits(2,3) m power_add algebra_simps)
    moreover have "dsum e (bi_d x) n div base e ^ n = 0"
      using dsum_bounds [OF digits_ok_mono, of e "bi_d x" "n + m" n] assms m by (simp add: bn_raw_def)
    ultimately show ?thesis by simp
  next
    case False
    have pow: "base e ^ bi_t x \<le> base e ^ n" using False base_bounds(4) [of e] by (intro power_increasing) simp_all
    have "bi_s x = 0 \<or> bi_s x = - 1" using assms by (auto simp: bn_raw_def)
    then have "bn_val e x div base e ^ n = bi_s x"
    proof
      assume "bi_s x = 0"
      then show ?thesis using val_bounds(1) [OF assms] pow by simp
    next
      assume s: "bi_s x = - 1"
      then have "- (base e ^ n) \<le> bn_val e x" "bn_val e x < 0" using val_bounds(2) [OF assms] pow by linarith+
      then have "bn_val e x div base e ^ n = - 1" by (intro int_div_pos_eq [where r = "bn_val e x + base e ^ n"]) simp_all
      then show ?thesis using s by simp
    qed
    then show ?thesis using False by (simp add: bn_val_def dRShift_digits(2,3))
  qed
qed

section \<open>Shifts by bits\<close>

lemma shift_parts:
  fixes bs :: nat
  assumes "bs < dbits e" "0 \<le> x" "x < base e"
  shows "js_shr x (dbits e - bs) = x div 2 ^ (dbits e - bs)" "js_and x (js_shl 1 (dbits e - bs) - 1) = x mod 2 ^ (dbits e - bs)"
    "js_shl (x mod 2 ^ (dbits e - bs)) bs = x mod 2 ^ (dbits e - bs) * 2 ^ bs"
    "0 \<le> x mod 2 ^ (dbits e - bs) * 2 ^ bs" "x mod 2 ^ (dbits e - bs) * 2 ^ bs < base e" "x div 2 ^ (dbits e - bs) < 2 ^ bs"
    "x * 2 ^ bs = x div 2 ^ (dbits e - bs) * base e + x mod 2 ^ (dbits e - bs) * 2 ^ bs"
proof -
  define k where "k = dbits e - bs"
  have k: "dbits e = k + bs" "k \<le> 30" "0 < k" using assms(1) dbits_bounds [of e] by (simp_all add: k_def)
  have B: "base e = 2 ^ k * 2 ^ bs" by (simp add: k(1) power_add)
  have x31: "x < 2 ^ 31" using assms(3) base_bounds(2) [of e] by simp
  show "js_shr x (dbits e - bs) = x div 2 ^ (dbits e - bs)"
    unfolding k_def [symmetric] using assms(2) x31 k by (intro js_shr_div) simp_all
  have "(2 :: int) ^ k \<le> 2 ^ 30" using k by (intro power_increasing) simp_all
  then have "(2 :: int) ^ k < 2 ^ 31" by simp
  moreover have "- (2 ^ 31) \<le> (2 :: int) ^ k" by (rule order_trans [of _ 0]) simp_all
  ultimately have "js_shl 1 k = 2 ^ k" using k js_shl_mult [of 1 k] by simp
  then show "js_and x (js_shl 1 (dbits e - bs) - 1) = x mod 2 ^ (dbits e - bs)"
    unfolding k_def [symmetric] using k by (simp add: js_and_mask)
  have low: "0 \<le> x mod 2 ^ k" "x mod 2 ^ k < 2 ^ k" by simp_all
  then have lb: "0 \<le> x mod 2 ^ k * 2 ^ bs" "x mod 2 ^ k * 2 ^ bs < base e" unfolding B by simp_all
  then show "0 \<le> x mod 2 ^ (dbits e - bs) * 2 ^ bs" "x mod 2 ^ (dbits e - bs) * 2 ^ bs < base e" by (simp_all add: k_def)
  show "js_shl (x mod 2 ^ (dbits e - bs)) bs = x mod 2 ^ (dbits e - bs) * 2 ^ bs"
    unfolding k_def [symmetric] using lb base_bounds(2) [of e] assms(1) dbits_bounds [of e]
    by (intro js_shl_mult) (auto intro: order_trans [of _ 0])
  show "x div 2 ^ (dbits e - bs) < 2 ^ bs"
    unfolding k_def [symmetric] using assms(3) B by (intro div_less_if) (simp_all add: mult.commute)
  have "x * 2 ^ bs = (x div 2 ^ k * 2 ^ k + x mod 2 ^ k) * 2 ^ bs" by (simp only: div_mult_mod_eq)
  also have "\<dots> = x div 2 ^ k * base e + x mod 2 ^ k * 2 ^ bs" by (simp only: B distrib_right mult.assoc)
  finally show "x * 2 ^ bs = x div 2 ^ (dbits e - bs) * base e + x mod 2 ^ (dbits e - bs) * 2 ^ bs" by (simp only: k_def)
qed


text \<open>The loop of a shift to the left, from the highest digit downwards.\<close>

lemma lShift_loop:
  assumes "bs < dbits e" "digits_ok e (bi_d x) n" "c = c0 * 2 ^ bs" "0 \<le> c" "c < base e"
    "fold (lShift_digit e x bs ds) (rev [0..<n]) (d, c) = (d', c')"
  shows "c' + base e * dsum e (\<lambda>k. d' (ds + 1 + k)) n = 2 ^ bs * dsum e (bi_d x) n + c * base e ^ n \<and>
    digits_ok e (\<lambda>k. d' (ds + 1 + k)) n \<and> kept_outside (ds + 1) (ds + 1 + n) d d' \<and> 0 \<le> c' \<and> c' < base e"
  using assms(2-)
proof (induction n arbitrary: d c c0)
  case 0
  then show ?case by (simp add: kept_outside_def digits_ok_def)
next
  case (Suc n)
  define hi lo where hl: "hi = bi_d x n div 2 ^ (dbits e - bs)" "lo = bi_d x n mod 2 ^ (dbits e - bs)"
  have x: "0 \<le> bi_d x n" "bi_d x n < base e" and ok: "digits_ok e (bi_d x) n" using Suc.prems(1) by (simp_all add: digits_ok_Suc)
  note parts = shift_parts [OF assms(1) x, folded hl]
  have hi: "0 \<le> hi" "hi < 2 ^ bs" using x parts(6) by (simp_all add: hl pos_imp_zdiv_nonneg_iff)
  have c0: "0 \<le> c0" using Suc.prems(2,3) by (simp add: zero_le_mult_iff)
  have "js_or hi c = hi + c"
    unfolding Suc.prems(2) using hi c0 Suc.prems(2,4) base_bounds(2) [of e] assms(1) dbits_bounds [of e] by (intro js_or_add) simp_all
  then have "lShift_digit e x bs ds n (d, c) = (d(n + ds + 1 := hi + c), lo * 2 ^ bs)" using parts(1,2,3) by (simp add: Let_def)
  then have run: "fold (lShift_digit e x bs ds) (rev [0..<n]) (d(n + ds + 1 := hi + c), lo * 2 ^ bs) = (d', c')"
    using Suc.prems(5) by (simp del: lShift_digit.simps)
  note IH = Suc.IH [OF ok refl parts(4,5) run]
  have sum: "hi + c < base e"
  proof -
    have "base e = 2 ^ (dbits e - bs) * 2 ^ bs" using assms(1) by (simp add: power_add [symmetric])
    then have "c0 * 2 ^ bs < 2 ^ (dbits e - bs) * 2 ^ bs" using Suc.prems(2,4) by simp
    then have "(c0 + 1) * 2 ^ bs \<le> 2 ^ (dbits e - bs) * 2 ^ bs" by (intro mult_right_mono) simp_all
    then show ?thesis using hi(2) Suc.prems(2) \<open>base e = _\<close> by (simp add: algebra_simps)
  qed
  have top: "d' (ds + 1 + n) = hi + c" using IH by (auto simp: kept_outside_def add.commute)
  have "c' + base e * dsum e (\<lambda>k. d' (ds + 1 + k)) (Suc n) =
      (c' + base e * dsum e (\<lambda>k. d' (ds + 1 + k)) n) + (hi + c) * (base e * base e ^ n)"
    by (simp only: dsum_Suc top) (simp add: algebra_simps)
  also have "\<dots> = 2 ^ bs * dsum e (bi_d x) n + (hi * base e + lo * 2 ^ bs) * base e ^ n + c * base e ^ Suc n"
    using IH by (simp add: algebra_simps)
  also have "\<dots> = 2 ^ bs * dsum e (bi_d x) (Suc n) + c * base e ^ Suc n" unfolding parts(7) [symmetric] by (simp add: dsum_Suc algebra_simps)
  finally have total: "c' + base e * dsum e (\<lambda>k. d' (ds + 1 + k)) (Suc n) = 2 ^ bs * dsum e (bi_d x) (Suc n) + c * base e ^ Suc n" .
  have "digits_ok e (\<lambda>k. d' (ds + 1 + k)) (Suc n)" using IH top hi(1) Suc.prems(3) sum by (simp add: digits_ok_Suc)
  moreover have "kept_outside (ds + 1) (ds + 1 + Suc n) d d'" using IH by (auto simp: kept_outside_def)
  ultimately show ?case using total IH by blast
qed

lemma fold_zero: "fold (\<lambda>i d. d(i := 0)) (rev [0..<n]) d = (\<lambda>k. if k < n then 0 else d k)"
  using fold_copy [of "\<lambda>_. 0" n d] by simp

theorem lShiftTo_spec:
  assumes "bn_raw e x"
  shows "bn_ok e (lShiftTo e x n r)" "bn_val e (lShiftTo e x n r) = bn_val e x * 2 ^ n"
proof -
  define bs ds where b: "bs = n mod dbits e" "ds = n div dbits e"
  define t s where t: "t = bi_t x" "s = bi_s x"
  have bs: "bs < dbits e" using dbits_bounds [of e] by (simp add: b)
  define c where "c = (s * 2 ^ bs) mod base e"
  have c: "js_and (js_shl s bs) (DM e) = c"
    unfolding c_def and_DM using bs dbits_bounds [of e] by (intro js_shl_mod) simp_all
  have s: "s = 0 \<or> s = - 1" using assms by (auto simp: t bn_raw_def)
  have B: "base e = 2 ^ (dbits e - bs) * 2 ^ bs" using bs by (simp add: power_add [symmetric])
  have c0: "c = (s * 1 mod 2 ^ (dbits e - bs)) * 2 ^ bs" unfolding c_def B by (metis mult.commute mult.right_neutral mult_mod_right)
  have carry: "c + s * base e = s * 2 ^ bs"
  proof (rule disjE [OF s])
    assume "s = - 1"
    moreover have "(2 :: int) ^ bs < base e" using bs by (intro power_strict_increasing) simp_all
    ultimately have "c = base e - 2 ^ bs" unfolding c_def by (intro int_mod_pos_eq [where q = "- 1"]) simp_all
    then show ?thesis using \<open>s = - 1\<close> by simp
  qed (simp add: c_def)
  obtain d1 c1 where run: "fold (lShift_digit e x bs ds) (rev [0..<t]) (bi_d r, c) = (d1, c1)" by fastforce
  have dok: "digits_ok e (bi_d x) t" using assms by (simp add: t bn_raw_def)
  note loop = lShift_loop [OF bs dok c0 _ _ run]
  have loop: "c1 + base e * dsum e (\<lambda>k. d1 (ds + 1 + k)) t = 2 ^ bs * dsum e (bi_d x) t + c * base e ^ t"
    "digits_ok e (\<lambda>k. d1 (ds + 1 + k)) t" "0 \<le> c1" "c1 < base e"
    using loop base_bounds(3) [of e] by (simp_all add: c_def)
  define D where "D = (\<lambda>k. if k < ds then 0 else if k = ds then c1 else d1 k)"
  define y where "y = r\<lparr>bi_d := D, bi_t := t + ds + 1, bi_s := s\<rparr>"
  have upd: "(fold (\<lambda>i d. d(i := 0)) (rev [0..<ds]) d1)(ds := c1) = D" unfolding fold_zero D_def by (auto simp: fun_eq_iff)
  have res: "lShiftTo e x n r = clamp e y"
    unfolding lShiftTo_def Let_def b [symmetric] t [symmetric] c run prod.case y_def
    by (simp add: upd)
  have sum: "dsum e D (ds + Suc t) = base e ^ ds * (c1 + base e * dsum e (\<lambda>k. d1 (ds + 1 + k)) t)"
  proof -
    have "dsum e D ds = 0" by (rule dsum_zero) (simp add: D_def)
    moreover have "dsum e (\<lambda>i. D (ds + Suc i)) t = dsum e (\<lambda>k. d1 (ds + 1 + k)) t" by (rule dsum_cong) (simp add: D_def)
    ultimately show ?thesis by (simp only: dsum_split dsum_first) (simp add: D_def)
  qed
  have "bn_raw e y"
  proof -
    have "0 \<le> D k \<and> D k < base e" if "k < t + ds + 1" for k
      using loop(2-4) base_bounds(3) [of e] that by (auto simp: D_def digits_ok_def dest: spec [of _ "k - ds - 1"])
    then show ?thesis using s by (auto simp: bn_raw_def digits_ok_def y_def)
  qed
  moreover have "bn_val e y = bn_val e x * 2 ^ n"
  proof -
    have "bn_val e y = dsum e D (ds + Suc t) + s * base e ^ (ds + Suc t)" by (simp add: bn_val_def y_def add.commute)
    also have "\<dots> = base e ^ ds * (2 ^ bs * dsum e (bi_d x) t + c * base e ^ t) + s * base e ^ (ds + Suc t)"
      by (simp only: sum loop(1))
    also have "\<dots> = base e ^ ds * (2 ^ bs * dsum e (bi_d x) t + (c + s * base e) * base e ^ t)"
      by (simp add: power_add algebra_simps)
    also have "\<dots> = (base e ^ ds * 2 ^ bs) * (dsum e (bi_d x) t + s * base e ^ t)" unfolding carry by (simp add: algebra_simps)
    also have "base e ^ ds * 2 ^ bs = 2 ^ n"
      by (simp add: power_mult [symmetric] power_add [symmetric] b)
    finally show ?thesis by (simp add: bn_val_def t)
  qed
  ultimately show "bn_ok e (lShiftTo e x n r)" "bn_val e (lShiftTo e x n r) = bn_val e x * 2 ^ n"
    unfolding res using clamp_spec(1,2) [of e y] by simp_all
qed


text \<open>The loop of a shift to the right, from the lowest digit upwards.\<close>

lemma low_mask: "js_and x (js_shl 1 bs - 1) = x mod 2 ^ bs" if "bs \<le> 30"
proof -
  have "(2 :: int) ^ bs \<le> 2 ^ 30" using that by (intro power_increasing) simp_all
  then have "(2 :: int) ^ bs < 2 ^ 31" by simp
  moreover have "- (2 ^ 31) \<le> (2 :: int) ^ bs" by (rule order_trans [of _ 0]) simp_all
  ultimately have "js_shl 1 bs = 2 ^ bs" using that js_shl_mult [of 1 bs] by simp
  then show ?thesis using that by (simp add: js_and_mask)
qed

lemma rShift_parts:
  assumes "bs < dbits e" "0 \<le> hi" "hi < 2 ^ (dbits e - bs)" "0 \<le> lo" "lo < 2 ^ bs"
  shows "js_or hi (js_shl lo (dbits e - bs)) = hi + lo * 2 ^ (dbits e - bs)" "hi + lo * 2 ^ (dbits e - bs) < base e"
proof -
  define k where "k = dbits e - bs"
  have k: "dbits e = bs + k" "k \<le> 30" "0 < k" using assms(1) dbits_bounds [of e] by (simp_all add: k_def)
  have B: "base e = 2 ^ bs * 2 ^ k" by (simp add: k(1) power_add)
  have "(lo + 1) * 2 ^ k \<le> 2 ^ bs * 2 ^ k" using assms(5) by (intro mult_right_mono) simp_all
  then have b: "lo * 2 ^ k + 2 ^ k \<le> base e" unfolding B by (simp only: distrib_right mult_1)
  have "0 < (2 :: int) ^ k" by simp
  then have "lo * 2 ^ k < base e" using b by linarith
  then have l: "lo * 2 ^ k < 2 ^ 31" using base_bounds(2) [of e] by simp
  have l0: "0 \<le> lo * 2 ^ k" using assms(4) by simp
  then have "js_shl lo k = lo * 2 ^ k" using l k by (intro js_shl_mult) (auto intro: order_trans [of _ 0])
  then show "js_or hi (js_shl lo (dbits e - bs)) = hi + lo * 2 ^ (dbits e - bs)"
    unfolding k_def [symmetric] using assms(2-4) l k by (simp add: js_or_add k_def [symmetric])
  show "hi + lo * 2 ^ (dbits e - bs) < base e" using b assms(3) by (simp add: k_def [symmetric])
qed

lemma rShift_loop:
  assumes "bs < dbits e" "digits_ok e (\<lambda>k. bi_d x (ds + k)) (Suc n)" "d 0 = js_shr (bi_d x ds) bs"
    "fold (rShift_digit e x bs ds) [ds + 1..<ds + 1 + n] d = d'"
  shows "bi_d x ds mod 2 ^ bs + 2 ^ bs * dsum e d' (Suc n) = dsum e (\<lambda>k. bi_d x (ds + k)) (Suc n) \<and>
    digits_ok e d' (Suc n) \<and> d' n < 2 ^ (dbits e - bs)"
  using assms(2,4)
proof (induction n arbitrary: d')
  case 0
  have x: "0 \<le> bi_d x ds" "bi_d x ds < base e" using 0(1) by (simp_all add: digits_ok_def)
  have shr: "js_shr (bi_d x ds) bs = bi_d x ds div 2 ^ bs"
    using x base_bounds(2) [of e] assms(1) dbits_bounds [of e] by (intro js_shr_div) simp_all
  have B: "base e = 2 ^ (dbits e - bs) * 2 ^ bs" using assms(1) by (simp add: power_add [symmetric])
  have "bi_d x ds div 2 ^ bs < 2 ^ (dbits e - bs)" using x(2) unfolding B by (intro div_less_if) simp_all
  moreover from this have "bi_d x ds div 2 ^ bs < base e" by (rule order.strict_trans2) (intro power_increasing, simp_all)
  ultimately show ?case using 0(2) assms(3) x shr by (simp add: dsum_Suc digits_ok_def pos_imp_zdiv_nonneg_iff)
next
  case (Suc n)
  define d1 where "d1 = fold (rShift_digit e x bs ds) [ds + 1..<ds + 1 + n] d"
  have ok: "digits_ok e (\<lambda>k. bi_d x (ds + k)) (Suc n)" using Suc.prems(1) by (rule digits_ok_mono) simp
  note IH = Suc.IH [OF ok d1_def [symmetric]]
  define hi lo where hl: "hi = bi_d x (ds + Suc n) div 2 ^ bs" "lo = bi_d x (ds + Suc n) mod 2 ^ bs"
  have x: "0 \<le> bi_d x (ds + Suc n)" "bi_d x (ds + Suc n) < base e" using digits_okD [OF Suc.prems(1), of "Suc n"] by simp_all
  have shr: "js_shr (bi_d x (ds + Suc n)) bs = hi"
    unfolding hl using x base_bounds(2) [of e] assms(1) dbits_bounds [of e] by (intro js_shr_div) simp_all
  have mask: "js_and (bi_d x (ds + Suc n)) (js_shl 1 bs - 1) = lo"
    unfolding hl using assms(1) dbits_bounds [of e] by (intro low_mask) simp
  have lo: "0 \<le> lo" "lo < 2 ^ bs" by (simp_all add: hl)
  have dn: "0 \<le> d1 n" "d1 n < 2 ^ (dbits e - bs)" using IH by (simp_all add: digits_ok_def)
  note parts = rShift_parts [OF assms(1) dn lo]
  have "[ds + 1..<ds + 1 + Suc n] = [ds + 1..<ds + 1 + n] @ [ds + Suc n]" by simp
  then have "d' = rShift_digit e x bs ds (ds + Suc n) d1" using Suc.prems(2) by (simp only: d1_def fold_append) simp
  then have d': "d' = d1(n := d1 n + lo * 2 ^ (dbits e - bs), Suc n := hi)" by (simp only: rShift_digit_def shr mask) (simp add: parts(1))
  have B: "base e = 2 ^ (dbits e - bs) * 2 ^ bs" using assms(1) by (simp add: power_add [symmetric])
  have hib: "0 \<le> hi" "hi < 2 ^ (dbits e - bs)" using x by (simp_all add: hl pos_imp_zdiv_nonneg_iff) (intro div_less_if, simp_all only: B, simp_all)
  have le: "(2 :: int) ^ (dbits e - bs) \<le> base e" by (intro power_increasing) simp_all
  have low: "dsum e d' n = dsum e d1 n" by (rule dsum_cong) (simp add: d')
  have "bi_d x ds mod 2 ^ bs + 2 ^ bs * dsum e d' (Suc (Suc n)) =
      (bi_d x ds mod 2 ^ bs + 2 ^ bs * dsum e d1 (Suc n)) + (hi * 2 ^ bs + lo) * base e ^ Suc n"
    unfolding dsum_Suc low by (simp add: d' B algebra_simps)
  also have "hi * 2 ^ bs + lo = bi_d x (ds + Suc n)" by (simp only: hl div_mult_mod_eq)
  finally have "bi_d x ds mod 2 ^ bs + 2 ^ bs * dsum e d' (Suc (Suc n)) = dsum e (\<lambda>k. bi_d x (ds + k)) (Suc (Suc n))"
    using IH by (simp add: dsum_Suc)
  moreover have "digits_ok e d' (Suc (Suc n))"
    using IH hib(1) order.strict_trans2 [OF hib(2) le] parts(2) dn lo by (auto simp: digits_ok_def d' less_Suc_eq)
  ultimately show ?case using hib unfolding d' by (simp del: fun_upd_apply) simp
qed

theorem rShiftTo_spec:
  assumes "bn_raw e x"
  shows "bn_ok e (rShiftTo e x n r)" "bn_val e (rShiftTo e x n r) = bn_val e x div 2 ^ n"
proof -
  define bs ds where b: "bs = n mod dbits e" "ds = n div dbits e"
  have bs: "bs < dbits e" using dbits_bounds [of e] by (simp add: b)
  have s: "bi_s x = 0 \<or> bi_s x = - 1" using assms by (auto simp: bn_raw_def)
  have pow: "2 ^ n = base e ^ ds * (2 :: int) ^ bs"
    by (simp add: power_mult [symmetric] power_add [symmetric] b)
  show "bn_ok e (rShiftTo e x n r)" "bn_val e (rShiftTo e x n r) = bn_val e x div 2 ^ n"
  proof (atomize (full), cases "bi_t x \<le> ds")
    case True
    have "base e ^ bi_t x \<le> base e ^ ds" using True base_bounds(4) [of e] by (intro power_increasing) simp_all
    also have "\<dots> \<le> 2 ^ n" unfolding pow by (simp add: mult_le_cancel_left1)
    finally have le: "base e ^ bi_t x \<le> 2 ^ n" .
    have "bn_val e x div 2 ^ n = bi_s x"
      using s
    proof
      assume "bi_s x = 0"
      then show ?thesis using val_bounds(1) [OF assms] le by simp
    next
      assume s: "bi_s x = - 1"
      then have "- (2 ^ n) \<le> bn_val e x" "bn_val e x < 0" using val_bounds(2) [OF assms] le by linarith+
      then have "bn_val e x div 2 ^ n = - 1" by (intro int_div_pos_eq [where r = "bn_val e x + 2 ^ n"]) simp_all
      then show ?thesis using s by simp
    qed
    then show "bn_ok e (rShiftTo e x n r) \<and> bn_val e (rShiftTo e x n r) = bn_val e x div 2 ^ n"
      using True s by (auto simp: rShiftTo_def Let_def b bn_ok_def bn_val_def digits_ok_def)
  next
    case False
    then obtain m where t: "bi_t x = ds + Suc m" using that [of "bi_t x - ds - 1"] by simp
    define d1 where "d1 = fold (rShift_digit e x bs ds) [ds + 1..<ds + 1 + m] ((bi_d r)(0 := js_shr (bi_d x ds) bs))"
    have dok: "digits_ok e (\<lambda>k. bi_d x (ds + k)) (Suc m)" using assms by (auto simp: bn_raw_def digits_ok_def t)
    note loop = rShift_loop [OF bs dok _ d1_def [symmetric]]
    then have loop: "bi_d x ds mod 2 ^ bs + 2 ^ bs * dsum e d1 (Suc m) = dsum e (\<lambda>k. bi_d x (ds + k)) (Suc m)"
      "digits_ok e d1 (Suc m)" "d1 m < 2 ^ (dbits e - bs)" by simp_all
    define top where "top = bi_s x mod 2 ^ bs"
    define d2 where "d2 = d1(m := d1 m + top * 2 ^ (dbits e - bs))"
    have mask: "js_and (bi_s x) (js_shl 1 bs - 1) = top"
      unfolding top_def using bs dbits_bounds [of e] by (intro low_mask) simp
    have d1m: "0 \<le> d1 m" using loop(2) by (simp add: digits_ok_def)
    have tb: "0 \<le> top" "top < 2 ^ bs" by (simp_all add: top_def)
    note parts = rShift_parts [OF bs d1m loop(3) tb]
    define y where "y = r\<lparr>bi_s := bi_s x, bi_d := d2, bi_t := Suc m\<rparr>"
    have upd: "(if 0 < bs then d1(m := js_or (d1 m) (js_shl (js_and (bi_s x) (js_shl 1 bs - 1)) (dbits e - bs))) else d1) = d2"
      using parts(1) tb by (auto simp: d2_def mask)
    have idx: "[ds + 1..<bi_t x] = [ds + 1..<ds + 1 + m]" "bi_t x - ds - 1 = m" "bi_t x - ds = Suc m" using t by simp_all
    have res: "rShiftTo e x n r = clamp e y"
      unfolding rShiftTo_def Let_def b [symmetric] idx d1_def [symmetric] y_def using False upd by (cases "0 < bs") simp_all
    have "digits_ok e d2 (Suc m)" using loop(2) parts(2) d1m tb by (auto simp: d2_def digits_ok_def)
    then have raw: "bn_raw e y" using s by (auto simp: bn_raw_def y_def)
    have low: "dsum e d2 m = dsum e d1 m" by (rule dsum_cong) (simp add: d2_def)
    have B: "base e = 2 ^ (dbits e - bs) * 2 ^ bs" using bs by (simp add: power_add [symmetric])
    have sign: "top + 2 ^ bs * bi_s x = bi_s x"
      using s by (auto simp: top_def zmod_minus1)
    have "bi_d x ds mod 2 ^ bs + 2 ^ bs * bn_val e y =
        dsum e (\<lambda>k. bi_d x (ds + k)) (Suc m) + (top + 2 ^ bs * bi_s x) * base e ^ Suc m"
      unfolding loop(1) [symmetric] by (simp add: bn_val_def y_def dsum_Suc low) (simp add: d2_def B algebra_simps)
    then have up: "bi_d x ds mod 2 ^ bs + 2 ^ bs * bn_val e y = dsum e (\<lambda>k. bi_d x (ds + k)) (Suc m) + bi_s x * base e ^ Suc m"
      unfolding sign .
    define rest where "rest = dsum e (bi_d x) ds + base e ^ ds * (bi_d x ds mod 2 ^ bs)"
    have "bn_val e x = dsum e (bi_d x) ds + base e ^ ds * (dsum e (\<lambda>k. bi_d x (ds + k)) (Suc m) + bi_s x * base e ^ Suc m)"
      by (simp only: bn_val_def t dsum_split power_add) (simp add: algebra_simps)
    then have whole: "bn_val e x = 2 ^ n * bn_val e y + rest" unfolding up [symmetric] pow rest_def by (simp add: algebra_simps)
    have rb: "0 \<le> rest" "rest < 2 ^ n"
    proof -
      have db: "0 \<le> dsum e (bi_d x) ds" "dsum e (bi_d x) ds < base e ^ ds"
        using dsum_bounds [OF digits_ok_mono, of e "bi_d x" "bi_t x" ds] assms t by (simp_all add: bn_raw_def)
      have "base e ^ ds * (bi_d x ds mod 2 ^ bs) \<le> base e ^ ds * (2 ^ bs - 1)" by (intro mult_left_mono) simp_all
      then show "rest < 2 ^ n" using db unfolding rest_def pow by (simp add: right_diff_distrib)
      show "0 \<le> rest" using db by (simp add: rest_def)
    qed
    have "bn_val e x div 2 ^ n = bn_val e y" using whole rb by simp
    then show "bn_ok e (rShiftTo e x n r) \<and> bn_val e (rShiftTo e x n r) = bn_val e x div 2 ^ n"
      unfolding res using clamp_spec(1,2) [OF raw] by simp
  qed
qed


section \<open>Products\<close>

lemma mult_step:
  assumes "digits_ok e dx tx" "0 \<le> y" "y < base e" "digits_ok e d (i + tx)" "am e dx 0 y d i 0 tx = (d', c)"
  shows "dsum e (d'(i + tx := c)) (Suc i + tx) = dsum e d (i + tx) + y * dsum e dx tx * base e ^ i"
    "digits_ok e (d'(i + tx := c)) (Suc i + tx)"
proof -
  have y: "y \<le> 2 * base e - 2" using assms(3) base_bounds(4) [of e] by simp
  have w: "digits_ok e (\<lambda>k. d (i + k)) tx" using assms(4) by (simp add: digits_ok_def)
  have "digits_ok e (\<lambda>k. dx (0 + k)) tx" using assms(1) by simp
  note amd = am_spec [OF assms(2) y this w _ _ assms(5)]
  have amd: "dsum e (\<lambda>k. d' (i + k)) tx + c * base e ^ tx = dsum e (\<lambda>k. d (i + k)) tx + y * dsum e dx tx"
    "kept_outside i (i + tx) d d'" "digits_ok e (\<lambda>k. d' (i + k)) tx" "0 \<le> c"
    using amd base_bounds(4) [of e] by simp_all
  have c: "c < base e"
  proof -
    have "c * base e ^ tx \<le> dsum e (\<lambda>k. d (i + k)) tx + y * dsum e dx tx" using amd(1) dsum_bounds [OF amd(3)] by linarith
    also have "\<dots> < base e ^ tx + y * base e ^ tx"
      using dsum_bounds [OF w] dsum_bounds [OF assms(1)] assms(2) by (intro add_less_le_mono mult_left_mono) simp_all
    also have "\<dots> = (y + 1) * base e ^ tx" by (simp add: algebra_simps)
    also have "\<dots> \<le> base e * base e ^ tx" using assms(3) by (intro mult_right_mono) simp_all
    finally show ?thesis by simp
  qed
  have low: "dsum e d' i = dsum e d i" using amd(2) by (intro dsum_cong) (simp add: kept_outside_def)
  have keep: "dsum e (d'(i + tx := c)) (i + tx) = dsum e d' (i + tx)" by (rule dsum_cong) simp
  have "dsum e (d'(i + tx := c)) (Suc i + tx) = dsum e d i + base e ^ i * (dsum e (\<lambda>k. d' (i + k)) tx + c * base e ^ tx)"
    unfolding add_Suc dsum_Suc keep unfolding dsum_split low by (simp add: power_add algebra_simps)
  also have "\<dots> = dsum e d (i + tx) + y * dsum e dx tx * base e ^ i" unfolding amd(1) dsum_split by (simp add: algebra_simps)
  finally show "dsum e (d'(i + tx := c)) (Suc i + tx) = dsum e d (i + tx) + y * dsum e dx tx * base e ^ i" .
  have "0 \<le> d' k \<and> d' k < base e" if "k < i + tx" for k
    using amd(2,3) assms(4) that by (cases "k < i") (auto simp: digits_ok_def kept_outside_def dest: spec [of _ "k - i"])
  then show "digits_ok e (d'(i + tx := c)) (Suc i + tx)" using amd(4) c by (auto simp: digits_ok_def less_Suc_eq)
qed

lemma mult_loop:
  assumes "digits_ok e (bi_d x) (bi_t x)" "digits_ok e (bi_d y) n" "digits_ok e d (bi_t x)" "d' = fold (mult_digit e x y) [0..<n] d"
  shows "dsum e d' (n + bi_t x) = dsum e d (bi_t x) + dsum e (bi_d y) n * dsum e (bi_d x) (bi_t x) \<and> digits_ok e d' (n + bi_t x)"
  using assms(2,4)
proof (induction n arbitrary: d')
  case 0
  then show ?case using assms(3) by simp
next
  case (Suc n)
  define d1 where "d1 = fold (mult_digit e x y) [0..<n] d"
  have dy: "digits_ok e (bi_d y) n" "0 \<le> bi_d y n" "bi_d y n < base e" using Suc.prems(1) by (simp_all add: digits_ok_Suc)
  note IH = Suc.IH [OF dy(1) d1_def]
  obtain d2 c where run: "am e (bi_d x) 0 (bi_d y n) d1 n 0 (bi_t x) = (d2, c)" by fastforce
  have "d' = mult_digit e x y n d1" using Suc.prems(2) by (simp add: d1_def)
  then have d': "d' = d2(n + bi_t x := c)" unfolding mult_digit_def run by simp
  note step = mult_step [OF assms(1) dy(2,3) conjunct2 [OF IH] run, folded d']
  then show ?case using IH by (simp add: dsum_Suc algebra_simps)
qed

lemma sign_change:
  assumes "bn_ok e x" "bn_val e x = \<bar>v\<bar>" "neg \<longleftrightarrow> v < 0 \<or> v = 0 \<and> neg"
  shows "bn_ok e (if neg then subTo e (ZERO e) x x else x)" "bn_val e (if neg then subTo e (ZERO e) x x else x) = v"
  using assms subTo_spec [OF bn_ok_raw [OF ZERO_spec(1)] bn_ok_raw [OF assms(1)], of x] by (auto simp: abs_if split: if_splits)

theorem multiplyTo_spec:
  assumes "bn_ok e z" "bn_ok e a"
  shows "bn_ok e (multiplyTo e z a r)" "bn_val e (multiplyTo e z a r) = bn_val e z * bn_val e a"
proof -
  define x y where xy: "x = bn_abs e z" "y = bn_abs e a"
  note ax = abs_spec [OF assms(1), folded xy] and ay = abs_spec [OF assms(2), folded xy]
  define d0 where "d0 = fold (\<lambda>i d. d(i := 0)) (rev [0..<bi_t x]) (bi_d r)"
  define d1 where "d1 = fold (mult_digit e x y) [0..<bi_t y] d0"
  have zero: "digits_ok e d0 (bi_t x)" "dsum e d0 (bi_t x) = 0"
    using base_bounds(3) [of e] by (auto simp: d0_def fold_zero digits_ok_def intro: dsum_zero)
  have ok: "digits_ok e (bi_d x) (bi_t x)" "digits_ok e (bi_d y) (bi_t y)" using ax ay by (simp_all add: bn_ok_def)
  note loop = mult_loop [OF ok zero(1) d1_def]
  define p where "p = r\<lparr>bi_d := d1, bi_t := bi_t x + bi_t y, bi_s := 0\<rparr>"
  have raw: "bn_raw e p" using loop by (simp add: bn_raw_def p_def add.commute)
  have val: "bn_val e p = \<bar>bn_val e z * bn_val e a\<bar>"
    using loop zero ax ay by (simp add: bn_val_def p_def add.commute abs_mult mult.commute)
  note c = clamp_spec(1,2) [OF raw]
  have neg: "bi_s z \<noteq> bi_s a \<longleftrightarrow> bn_val e z * bn_val e a < 0 \<or> bn_val e z * bn_val e a = 0 \<and> bi_s z \<noteq> bi_s a"
    using val_sign [OF bn_ok_raw [OF assms(1)]] val_sign [OF bn_ok_raw [OF assms(2)]] by (auto simp: mult_less_0_iff)
  have "multiplyTo e z a r = (if bi_s z \<noteq> bi_s a then subTo e (ZERO e) (clamp e p) (clamp e p) else clamp e p)"
    unfolding multiplyTo_def Let_def xy [symmetric] d0_def [symmetric] p_def d1_def by (rule refl)
  then show "bn_ok e (multiplyTo e z a r)" "bn_val e (multiplyTo e z a r) = bn_val e z * bn_val e a"
    using sign_change [OF c(1) _ neg] c(2) val by simp_all
qed

end
