(* ===== verification/BigIntegerSquares.thy ===== *)
theory BigIntegerSquares
  imports BigIntegerProducts
begin

text \<open>Squares of numbers, and the number of bits of a number.\<close>

section \<open>Squares\<close>

text \<open>What the digits from \<open>i\<close> on contribute.\<close>

definition tail_val :: "am_engine \<Rightarrow> digits \<Rightarrow> nat \<Rightarrow> nat \<Rightarrow> int" where
  "tail_val e d i t = base e ^ i * dsum e (\<lambda>k. d (i + k)) (t - i)"

lemma tail_step: "i < t \<Longrightarrow> tail_val e d i t = d i * base e ^ i + tail_val e d (Suc i) t"
proof -
  assume "i < t"
  then obtain m where t: "t = i + Suc m" using that [of "t - i - 1"] by (metis Suc_diff_Suc add_diff_cancel_left' less_imp_add_positive nat_add_left_cancel_less plus_1_eq_Suc)
  have "t - i = Suc m" "t - Suc i = m" using t by simp_all
  then show ?thesis by (simp only: tail_val_def dsum_first) (simp add: algebra_simps)
qed

lemma power_double: "(b :: int) ^ (2 * i) = b ^ i * b ^ i" "(b :: int) ^ (2 * i + 1) = b * (b ^ i * b ^ i)"
  by (metis mult_2 power_add) (metis Suc_eq_plus1 mult_2 power_Suc power_add)

lemma dsum_change: "j < n \<Longrightarrow> (\<And>k. k \<noteq> j \<Longrightarrow> d' k = d k) \<Longrightarrow> dsum e d' n = dsum e d n + (d' j - d j) * base e ^ j"
proof (induction n)
  case (Suc n)
  show ?case
  proof (cases "j = n")
    case True
    then have "dsum e d' n = dsum e d n" using Suc.prems(2) by (intro dsum_cong) simp
    then show ?thesis using True by (simp add: dsum_Suc algebra_simps)
  next
    case False
    then show ?thesis using Suc by (simp add: dsum_Suc)
  qed
qed simp

lemma am_one:
  assumes "0 \<le> x" "x < base e" "0 \<le> a i" "a i < base e" "0 \<le> w j" "w j < base e" "am e a i x w j 0 1 = (w', c)"
  shows "w' j + c * base e = w j + x * a i" "\<And>k. k \<noteq> j \<Longrightarrow> w' k = w k" "0 \<le> w' j" "w' j < base e" "0 \<le> c" "c \<le> base e - 1"
proof -
  have b: "x \<le> 2 * base e - 2" "digits_ok e (\<lambda>k. a (i + k)) 1" "digits_ok e (\<lambda>k. w (j + k)) 1" "(0 :: int) \<le> 2 * base e - 2"
    using assms base_bounds(4) [of e] by (auto simp: digits_ok_def)
  note amd = am_spec [OF assms(1) b(1-3) order_refl b(4) assms(7)]
  show sum: "w' j + c * base e = w j + x * a i" using amd(1) by (simp add: dsum_Suc)
  show "w' k = w k" if "k \<noteq> j" for k using amd(2) that by (cases "k < j") (auto simp: kept_outside_def)
  show w': "0 \<le> w' j" "w' j < base e" using amd(3) by (simp_all add: digits_ok_def)
  show "0 \<le> c" by (rule amd(4))
  have "x * a i \<le> (base e - 1) * (base e - 1)" using assms by (intro mult_mono) simp_all
  then have "c * base e \<le> base e - 1 + (base e - 1) * (base e - 1)" using sum w' assms(6) by linarith
  also have "\<dots> < base e * base e" using base_bounds(4) [of e] by (simp add: algebra_simps)
  finally show "c \<le> base e - 1" using base_bounds(3) [of e] by simp
qed

text \<open>
  Before step \<open>i\<close> the array holds the products of the digits up to \<open>i\<close>, a carry of at most one, and zeros behind it.
\<close>

definition square_inv :: "am_engine \<Rightarrow> digits \<Rightarrow> nat \<Rightarrow> nat \<Rightarrow> digits \<Rightarrow> bool" where
  "square_inv e x t i d \<longleftrightarrow> digits_ok e d (i + t + 1) \<and> d (i + t) \<in> {0, 1} \<and> (\<forall>k. i + t < k \<and> k < 2 * t \<longrightarrow> d k = 0) \<and>
     dsum e d (i + t + 1) + (tail_val e x i t)\<^sup>2 = (dsum e x t)\<^sup>2"

lemma square_step_inv:
  assumes "digits_ok e (bi_d x) (bi_t x)" "square_inv e (bi_d x) (bi_t x) i d" "Suc i < bi_t x"
  shows "square_inv e (bi_d x) (bi_t x) (Suc i) (square_step e x i d)"
proof -
  define t n where tn: "t = bi_t x" "n = t - i - 1"
  have t: "t = Suc i + n" "0 < n" using assms(3) by (simp_all add: tn)
  note inv = assms(2) [unfolded square_inv_def, folded tn]
  define X where "X = bi_d x"
  have xi: "0 \<le> X i" "X i < base e" using assms(1,3) by (simp_all add: X_def digits_ok_def)
  obtain d1 c where one: "am e X i (X i) d (2 * i) 0 1 = (d1, c)" by fastforce
  have d2i: "0 \<le> d (2 * i)" "d (2 * i) < base e" using inv t by (simp_all add: digits_ok_def)
  note one = am_one [OF xi xi d2i one] one
  have num: "num (2 * X i) = 2 * X i" using xi base_bounds(2) [of e] by simp
  obtain d2 c2 where two: "am e X (i + 1) (2 * X i) d1 (2 * i + 1) c n = (d2, c2)" by fastforce
  have two_x: "0 \<le> 2 * X i" "2 * X i \<le> 2 * base e - 2" using xi by simp_all
  have rest: "digits_ok e (\<lambda>k. X (i + 1 + k)) n" using assms(1) t by (auto simp: X_def digits_ok_def tn)
  have d1ok: "digits_ok e (\<lambda>k. d1 (2 * i + 1 + k)) n" using inv t by (auto simp: digits_ok_def one(2))
  have cb: "c \<le> 2 * base e - 2" using one(6) base_bounds(4) [of e] by simp
  note amd = am_spec [OF two_x rest d1ok one(5) cb two]
  have top: "d1 (i + t) = d (i + t)" using t by (simp add: one(2))
  have dt: "0 \<le> d (i + t)" "d (i + t) \<le> 1" using inv by auto
  define h where "h = d (i + t) + c2"
  have h: "0 \<le> h" "h \<le> 2 * base e - 1" using amd(4,5) dt by (simp_all add: h_def)
  define d3 where "d3 = (if base e \<le> h then d2(i + t := h - base e, i + t + 1 := 1) else d2(i + t := h))"
  have step: "square_step e x i d = d3"
    unfolding square_step_def Let_def X_def [symmetric] tn(1) [symmetric] one(7) prod.case num tn(2) [symmetric] two d3_def h_def top DV_base ..
  have keep: "d2 k = d1 k" if "k < 2 * i + 1 \<or> i + t \<le> k" for k
    using amd(2) that t by (auto simp: kept_outside_def)
  have d3_low: "d3 k = d2 k" if "k < i + t" for k using that by (simp add: d3_def)
  have d3_high: "d3 k = d k" if "i + t + 1 < k" for k using that keep [of k] one(2) [of k] t by (simp add: d3_def)
  have carry: "d3 (i + t) + d3 (i + t + 1) * base e = h"
    using keep [of "i + t + 1"] one(2) [of "i + t + 1"] t inv by (simp add: d3_def tn)
  have nxt: "d3 (i + t + 1) \<in> {0, 1}"
    using keep [of "i + t + 1"] one(2) [of "i + t + 1"] t inv by (simp add: d3_def tn)
  have "digits_ok e d3 (Suc i + t + 1)"
  proof (rule digits_okI)
    fix k assume k: "k < Suc i + t + 1"
    consider "k < 2 * i" | "k = 2 * i" | "2 * i < k" "k < i + t" | "k = i + t" | "k = i + t + 1" using k t by linarith
    then show "0 \<le> d3 k \<and> d3 k < base e"
    proof cases
      case 1
      then show ?thesis using d3_low [of k] keep [of k] one(2) [of k] inv t by (simp add: digits_ok_def)
    next
      case 2
      then show ?thesis using d3_low [of k] keep [of k] one(3,4) t by simp
    next
      case 3
      then show ?thesis using d3_low [of k] amd(3) t by (auto simp: digits_ok_def dest: spec [of _ "k - 2 * i - 1"])
    next
      case 4
      then show ?thesis using h base_bounds(3) [of e] by (simp add: d3_def)
    next
      case 5
      then show ?thesis using nxt base_bounds(4) [of e] by auto
    qed
  qed
  moreover have "\<forall>k. Suc i + t < k \<and> k < 2 * t \<longrightarrow> d3 k = 0" using d3_high inv by simp
  moreover have "dsum e d3 (Suc i + t + 1) + (tail_val e X (Suc i) t)\<^sup>2 = (dsum e X t)\<^sup>2"
  proof -
    have it: "i + t = 2 * i + 1 + n" using t by simp
    have low: "dsum e d3 (i + t) = dsum e d2 (i + t)" by (rule dsum_cong) (simp add: d3_low)
    have "dsum e d3 (Suc i + t + 1) = dsum e d2 (i + t) + h * base e ^ (i + t)"
      unfolding carry [symmetric] by (simp add: dsum_Suc low algebra_simps)
    also have "\<dots> = dsum e d2 (2 * i + 1) + base e ^ (2 * i + 1) * (dsum e (\<lambda>k. d2 (2 * i + 1 + k)) n + c2 * base e ^ n) + d (i + t) * base e ^ (i + t)"
      unfolding it dsum_split by (simp add: h_def it power_add algebra_simps)
    also have "\<dots> = dsum e d1 (2 * i + 1) + base e ^ (2 * i + 1) * (dsum e (\<lambda>k. d1 (2 * i + 1 + k)) n + 2 * X i * dsum e (\<lambda>k. X (i + 1 + k)) n + c)
        + d (i + t) * base e ^ (i + t)"
      unfolding amd(1) using dsum_cong [of "2 * i + 1" d2 d1 e] keep by simp
    also have "\<dots> = dsum e d1 (i + t) + base e ^ (2 * i + 1) * (2 * X i * dsum e (\<lambda>k. X (i + 1 + k)) n + c) + d (i + t) * base e ^ (i + t)"
      unfolding it dsum_split by (simp add: algebra_simps)
    also have "dsum e d1 (i + t) = dsum e d (i + t) + (d1 (2 * i) - d (2 * i)) * base e ^ (2 * i)"
      using one(2) t by (intro dsum_change) simp_all
    also have "dsum e d (i + t) + (d1 (2 * i) - d (2 * i)) * base e ^ (2 * i) +
        base e ^ (2 * i + 1) * (2 * X i * dsum e (\<lambda>k. X (i + 1 + k)) n + c) + d (i + t) * base e ^ (i + t) =
      dsum e d (i + t + 1) + (d1 (2 * i) + c * base e - d (2 * i)) * base e ^ (2 * i) +
        2 * X i * dsum e (\<lambda>k. X (i + 1 + k)) n * base e ^ (2 * i + 1)"
      by (simp add: dsum_Suc algebra_simps)
    also have "d1 (2 * i) + c * base e - d (2 * i) = X i * X i" using one(1) by simp
    finally have sum: "dsum e d3 (Suc i + t + 1) =
      dsum e d (i + t + 1) + X i * X i * base e ^ (2 * i) + 2 * X i * dsum e (\<lambda>k. X (i + 1 + k)) n * base e ^ (2 * i + 1)" .
    have tails: "tail_val e X i t = X i * base e ^ i + tail_val e X (Suc i) t" "tail_val e X (Suc i) t = base e ^ Suc i * dsum e (\<lambda>k. X (i + 1 + k)) n"
      using tail_step [of i t e X] t by (simp_all add: tail_val_def)
    have powers: "base e ^ (2 * i) = base e ^ i * base e ^ i" "base e ^ (2 * i + 1) = base e * (base e ^ i * base e ^ i)"
      by (rule power_double)+
    have "(tail_val e X i t)\<^sup>2 = X i * X i * base e ^ (2 * i) + 2 * X i * dsum e (\<lambda>k. X (i + 1 + k)) n * base e ^ (2 * i + 1) +
        (tail_val e X (Suc i) t)\<^sup>2"
      unfolding tails(1) power2_sum unfolding tails(2) powers by (simp add: power2_eq_square algebra_simps)
    then show ?thesis using inv sum by (simp add: X_def)
  qed
  ultimately show ?thesis using nxt unfolding square_inv_def step tn(1) [symmetric] X_def [symmetric] by simp
qed

theorem squareTo_spec:
  assumes "bn_ok e z"
  shows "bn_ok e (squareTo e z r)" "bn_val e (squareTo e z r) = (bn_val e z)\<^sup>2"
proof -
  define x t where xt: "x = bn_abs e z" "t = bi_t x"
  note ax = abs_spec [OF assms, folded xt(1)]
  have xok: "digits_ok e (bi_d x) t" using ax(1) by (simp add: bn_ok_def xt(2))
  have xval: "dsum e (bi_d x) t = \<bar>bn_val e z\<bar>" using ax by (simp add: bn_val_def xt(2))
  define d0 where "d0 = fold (\<lambda>i d. d(i := 0)) (rev [0..<2 * t]) (bi_d r)"
  have d0: "d0 k = 0" if "k < 2 * t" for k using that by (simp add: d0_def fold_zero)
  define d1 where "d1 = fold (square_step e x) [0..<t - 1] d0"
  define d2 where "d2 = (if 0 < 2 * t then
      let i = t - 1; (d', c) = am e (bi_d x) i (bi_d x i) d1 (2 * i) 0 1 in d'(2 * t - 1 := d1 (2 * t - 1) + c) else d1)"
  define y where "y = r\<lparr>bi_d := d2, bi_t := 2 * t, bi_s := 0\<rparr>"
  have res: "squareTo e z r = clamp e y"
    unfolding squareTo_def Let_def xt(1) [symmetric] xt(2) [symmetric] d0_def [symmetric] d1_def [symmetric] y_def d2_def by (rule refl)
  have "digits_ok e d2 (2 * t) \<and> dsum e d2 (2 * t) = (bn_val e z)\<^sup>2"
  proof (cases t)
    case 0
    then show ?thesis using xval by (simp add: d2_def digits_ok_def)
  next
    case (Suc m)
    have start: "square_inv e (bi_d x) t 0 d0"
      using d0 Suc base_bounds(3) [of e] by (auto simp: square_inv_def digits_ok_def tail_val_def intro: dsum_zero)
    have "n \<le> m \<Longrightarrow> square_inv e (bi_d x) t n (fold (square_step e x) [0..<n] d0)" for n
    proof (induction n)
      case (Suc n)
      then show ?case using square_step_inv [of e x n "fold (square_step e x) [0..<n] d0"] xok \<open>t = Suc m\<close> by (simp add: xt(2))
    qed (simp add: start)
    from this [of m] have inv: "square_inv e (bi_d x) t m d1" by (simp add: d1_def Suc)
    have xm: "0 \<le> bi_d x m" "bi_d x m < base e" using xok by (simp_all add: digits_ok_def Suc)
    have dm: "0 \<le> d1 (2 * m)" "d1 (2 * m) < base e" using inv by (simp_all add: square_inv_def digits_ok_def Suc)
    obtain d' c where run: "am e (bi_d x) m (bi_d x m) d1 (2 * m) 0 1 = (d', c)" by fastforce
    note one = am_one [OF xm xm dm run]
    have d2: "d2 = d'(2 * m + 1 := d1 (2 * m + 1) + c)" unfolding d2_def Let_def using run Suc by simp
    have mt: "m + t = 2 * m + 1" "2 * t = Suc (Suc (2 * m))" using Suc by simp_all
    have top: "0 \<le> d1 (2 * m + 1)" using inv by (auto simp: square_inv_def mt)
    have low: "dsum e d2 (2 * m) = dsum e d1 (2 * m)" by (rule dsum_cong) (simp add: d2 one(2))
    have "dsum e d2 (2 * t) = dsum e d1 (2 * m) + (d' (2 * m) + c * base e) * base e ^ (2 * m) + d1 (2 * m + 1) * base e ^ (2 * m + 1)"
      unfolding mt(2) dsum_Suc low by (simp add: d2 algebra_simps)
    also have "\<dots> = dsum e d1 (m + t + 1) + bi_d x m * bi_d x m * base e ^ (2 * m)"
      unfolding one(1) mt by (simp add: dsum_Suc algebra_simps)
    also have "bi_d x m * bi_d x m * base e ^ (2 * m) = (tail_val e (bi_d x) m t)\<^sup>2"
      by (simp add: tail_val_def Suc dsum_Suc power2_eq_square mult_2 power_add)
    also have "dsum e d1 (m + t + 1) + (tail_val e (bi_d x) m t)\<^sup>2 = (dsum e (bi_d x) t)\<^sup>2" using inv by (simp add: square_inv_def)
    finally have val: "dsum e d2 (2 * t) = (bn_val e z)\<^sup>2" by (simp add: xval)
    have "(dsum e (bi_d x) t)\<^sup>2 < (base e ^ t)\<^sup>2" using dsum_bounds [OF xok] by (intro power_strict_mono) simp_all
    also have "(base e ^ t)\<^sup>2 = base e * base e ^ (2 * m + 1)" unfolding power_double Suc by (simp add: power2_eq_square)
    finally have "dsum e d2 (2 * t) < base e * base e ^ (2 * m + 1)" using val xval by simp
    moreover have dlow: "digits_ok e d2 (2 * m + 1)"
      using inv one(2-4) by (auto simp: digits_ok_def square_inv_def d2 less_Suc_eq Suc)
    then have "0 \<le> dsum e d2 (2 * m + 1)" using dsum_bounds by blast
    moreover have "dsum e d2 (2 * t) = dsum e d2 (2 * m + 1) + d2 (2 * m + 1) * base e ^ (2 * m + 1)" using dsum_Suc [of e d2 "2 * m + 1"] mt(2) by simp
    ultimately have "d2 (2 * m + 1) * base e ^ (2 * m + 1) < base e * base e ^ (2 * m + 1)" by linarith
    then have "d2 (2 * m + 1) < base e" by simp
    moreover have "0 \<le> d2 (2 * m + 1)" using top one(5) by (simp add: d2)
    ultimately have "digits_ok e d2 (2 * t)" using dlow unfolding mt(2) by (simp add: digits_ok_Suc)
    then show ?thesis using val by simp
  qed
  then have "bn_raw e y" "bn_val e y = (bn_val e z)\<^sup>2" by (simp_all add: bn_raw_def bn_val_def y_def)
  then show "bn_ok e (squareTo e z r)" "bn_val e (squareTo e z r) = (bn_val e z)\<^sup>2" unfolding res using clamp_spec(1,2) by simp_all
qed

section \<open>The number of bits\<close>

text \<open>\<open>x\<close> is what is left of \<open>X\<close> after \<open>r - 1\<close> bits have been dropped; it has at most \<open>k\<close> bits.\<close>

definition bits_inv :: "int \<Rightarrow> nat \<Rightarrow> int \<times> nat \<Rightarrow> bool" where
  "bits_inv X k xr \<longleftrightarrow> (case xr of (x, r) \<Rightarrow> 0 < x \<and> x < 2 ^ k \<and> 1 \<le> r \<and> 2 ^ (r - 1) * x \<le> X \<and> X < 2 ^ (r - 1) * (x + 1))"

lemma bits_stage:
  assumes "bits_inv X (k + k) (x, r)" "t = x div 2 ^ k"
  shows "bits_inv X k (if t \<noteq> 0 then (t, r + k) else (x, r))"
proof (cases "t = 0")
  case True
  then have "x < 2 ^ k" using assms by (auto simp: bits_inv_def zdiv_eq_0_iff)
  then show ?thesis using assms True by (simp add: bits_inv_def)
next
  case False
  have x: "0 < x" "x < 2 ^ k * 2 ^ k" "1 \<le> r" "2 ^ (r - 1) * x \<le> X" "X < 2 ^ (r - 1) * (x + 1)"
    using assms(1) by (simp_all add: bits_inv_def power_add)
  have "0 \<le> t" using x(1) by (simp add: assms(2) pos_imp_zdiv_nonneg_iff)
  moreover have "t < 2 ^ k" unfolding assms(2) using x(2) by (intro div_less_if) simp_all
  ultimately have t: "0 < t" "t < 2 ^ k" using False by linarith+
  have split: "t * 2 ^ k \<le> x" "x + 1 \<le> (t + 1) * 2 ^ k"
  proof -
    have "t * 2 ^ k + x mod 2 ^ k = x" "0 \<le> x mod 2 ^ k" "x mod 2 ^ k < 2 ^ k" by (simp_all only: assms(2) div_mult_mod_eq) simp_all
    then show "t * 2 ^ k \<le> x" "x + 1 \<le> (t + 1) * 2 ^ k" unfolding distrib_right by linarith+
  qed
  have pow: "(2 :: int) ^ (r + k - 1) = 2 ^ (r - 1) * 2 ^ k" using x(3) by (simp add: power_add [symmetric])
  have "2 ^ (r - 1) * (t * 2 ^ k) \<le> 2 ^ (r - 1) * x" "2 ^ (r - 1) * (x + 1) \<le> 2 ^ (r - 1) * ((t + 1) * 2 ^ k)"
    using split by (intro mult_left_mono; simp)+
  then have "2 ^ (r + k - 1) * t \<le> X" "X < 2 ^ (r + k - 1) * (t + 1)" unfolding pow mult.assoc mult.commute [of "2 ^ k"] using x(4,5) by linarith+
  then show ?thesis using t x(3) False by (simp add: bits_inv_def)
qed

lemma nbits_spec:
  assumes "0 < x" "x < 2 ^ 31"
  shows "1 \<le> nbits x" "2 ^ (nbits x - 1) \<le> x" "x < 2 ^ nbits x"
proof -
  have start: "bits_inv x (16 + 16) (x, 1)" using assms by (simp add: bits_inv_def)
  obtain x1 r1 where one: "(x1, r1) = (let t = js_ushr x 16 in if t \<noteq> 0 then (t, 1 + 16) else (x, 1 :: nat))" by (metis surj_pair)
  have shr: "js_ushr x 16 = x div 2 ^ 16" using assms by (intro js_ushr_div) simp_all
  have "bits_inv x 16 (x1, r1)" unfolding one Let_def shr by (rule bits_stage [OF start refl])
  then have inv1: "bits_inv x (8 + 8) (x1, r1)" by (simp add: numeral_2_eq_2)
  obtain x2 r2 where two: "(x2, r2) = (let t = js_shr x1 8 in if t \<noteq> 0 then (t, r1 + 8) else (x1, r1))" by (metis surj_pair)
  have shr: "js_shr x1 8 = x1 div 2 ^ 8" using inv1 by (intro js_shr_div) (simp_all add: bits_inv_def)
  have "bits_inv x 8 (x2, r2)" unfolding two Let_def shr by (rule bits_stage [OF inv1 refl])
  then have inv2: "bits_inv x (4 + 4) (x2, r2)" by (simp add: numeral_2_eq_2)
  obtain x3 r3 where three: "(x3, r3) = (let t = js_shr x2 4 in if t \<noteq> 0 then (t, r2 + 4) else (x2, r2))" by (metis surj_pair)
  have shr: "js_shr x2 4 = x2 div 2 ^ 4" using inv2 by (intro js_shr_div) (simp_all add: bits_inv_def)
  have "bits_inv x 4 (x3, r3)" unfolding three Let_def shr by (rule bits_stage [OF inv2 refl])
  then have inv3: "bits_inv x (2 + 2) (x3, r3)" by simp
  obtain x4 r4 where four: "(x4, r4) = (let t = js_shr x3 2 in if t \<noteq> 0 then (t, r3 + 2) else (x3, r3))" by (metis surj_pair)
  have shr: "js_shr x3 2 = x3 div 2 ^ 2" using inv3 by (intro js_shr_div) (simp_all add: bits_inv_def)
  have "bits_inv x 2 (x4, r4)" unfolding four Let_def shr by (rule bits_stage [OF inv3 refl])
  then have inv4: "bits_inv x (1 + 1) (x4, r4)" by (simp add: numeral_2_eq_2)
  have "js_shr x4 1 = x4 div 2 ^ 1" using inv4 by (intro js_shr_div) (simp_all add: bits_inv_def)
  then have inv5: "bits_inv x 1 (if js_shr x4 1 \<noteq> 0 then (js_shr x4 1, r4 + 1) else (x4, r4))" using bits_stage [OF inv4, of "js_shr x4 1"] by simp
  have "nbits x = (if js_shr x4 1 \<noteq> 0 then r4 + 1 else r4)"
    unfolding nbits_def Let_def by (simp add: one [unfolded Let_def, symmetric] two [unfolded Let_def, symmetric]
      three [unfolded Let_def, symmetric] four [unfolded Let_def, symmetric])
  then obtain v where v: "bits_inv x 1 (v, nbits x)" using inv5 by (cases "js_shr x4 1 = 0") simp_all
  then have "v = 1" by (simp add: bits_inv_def)
  then have "bits_inv x 1 (1, nbits x)" using v by simp
  then have b: "1 \<le> nbits x" "2 ^ (nbits x - 1) \<le> x" "x < 2 * 2 ^ (nbits x - 1)" by (simp_all add: bits_inv_def)
  then show "1 \<le> nbits x" "2 ^ (nbits x - 1) \<le> x" "x < 2 ^ nbits x" by (cases "nbits x"; simp)+
qed

text \<open>The bit length of a number that is not negative.\<close>

theorem bitLength_spec:
  assumes "bn_ok e x" "0 < bn_val e x"
  shows "1 \<le> bitLength e x" "2 ^ (bitLength e x - 1) \<le> bn_val e x" "bn_val e x < 2 ^ bitLength e x"
proof -
  have s: "bi_s x = 0" using val_sign [OF bn_ok_raw [OF assms(1)]] assms(2) by simp
  obtain t where t: "bi_t x = Suc t" using assms(2) s by (cases "bi_t x") (simp_all add: bn_val_def)
  define top where "top = bi_d x t"
  have top: "0 < top" "top < base e" "digits_ok e (bi_d x) t"
    using assms(1) s t by (auto simp: bn_ok_def digits_ok_Suc top_def order_less_le)
  have t31: "top < 2 ^ 31" using top(2) base_bounds(2) [of e] by simp
  have "js_xor top (js_and 0 (DM e)) = top" using top t31 by (simp add: js_xor_def and_DM)
  then have len: "bitLength e x = dbits e * t + nbits top" by (simp add: bitLength_def t s top_def)
  note nb = nbits_spec [OF top(1) t31]
  note low = dsum_bounds [OF top(3)]
  have val: "bn_val e x = dsum e (bi_d x) t + top * base e ^ t" using s t by (simp add: bn_val_def dsum_Suc top_def)
  have "2 ^ (nbits top - 1) * base e ^ t \<le> top * base e ^ t" using nb by (intro mult_right_mono) simp_all
  moreover have "bitLength e x - 1 = dbits e * t + (nbits top - 1)" using nb(1) by (simp add: len)
  then have "2 ^ (bitLength e x - 1) = base e ^ t * 2 ^ (nbits top - 1)" by (simp only: power_add power_mult)
  ultimately show "2 ^ (bitLength e x - 1) \<le> bn_val e x" using low unfolding val by (simp only: mult.commute) linarith
  have "(top + 1) * base e ^ t \<le> 2 ^ nbits top * base e ^ t" using nb by (intro mult_right_mono) simp_all
  moreover have "2 ^ bitLength e x = base e ^ t * 2 ^ nbits top" by (simp only: len power_add power_mult)
  ultimately show "bn_val e x < 2 ^ bitLength e x" using low unfolding val by (simp only: distrib_right mult_1 mult.commute) linarith
  show "1 \<le> bitLength e x" using nb(1) by (simp add: len)
qed

end
