(* ===== verification/BigIntegerDivision.thy ===== *)
theory BigIntegerDivision
  imports BigIntegerEstimate BigIntegerSquares
begin

text \<open>
  Division computes the quotient and the remainder, rounded towards zero: each estimated digit is corrected to the
  digit of the quotient. The theorem is for digits of 28 and 30 bits; with 26 bits the estimate has no bits to spare.
\<close>

section \<open>Estimated digits\<close>

lemma div_times_le: "0 < b \<Longrightarrow> v div b * b \<le> (v :: int)"
  using div_mult_mod_eq [of v b] pos_mod_sign [of b v] by linarith

lemma F_facts:
  assumes "e \<noteq> AM1"
  shows "dbits e = F1 e + F2 e" "F1 e + dbits e = 52" "js_shl 1 (F1 e) = 2 ^ F1 e" "js_shl 1 (F2 e) = 2 ^ F2 e" "F2 e \<le> 8" "28 \<le> dbits e"
    "3 * (2 ^ dbits e * 2 ^ dbits e) + 12 * 2 ^ dbits e \<le> (2 ^ F2 e - 1) * (2 ^ 54 :: rat)"
  using assms by (cases e; simp add: F1_def F2_def BI_FP_def js_shl_mult)+

definition second_digit :: "bigint \<Rightarrow> int" where
  "second_digit y = (if 1 < bi_t y then bi_d y (bi_t y - 2) else 0)"

lemma divisor_top_spec:
  assumes "e \<noteq> AM1" "bn_raw e y" "bi_s y = 0" "0 < bi_t y" "2 ^ (dbits e - 1) \<le> bi_d y (bi_t y - 1)"
  shows "divisor_top e y = bi_d y (bi_t y - 1) * 2 ^ F1 e + second_digit y div 2 ^ F2 e"
    "bi_d y (bi_t y - 1) * 2 ^ F1 e \<le> divisor_top e y" "divisor_top e y < 2 ^ 52" "2 ^ 51 \<le> divisor_top e y"
    "divisor_top e y * 2 ^ F2 e * base e ^ (bi_t y - 1) \<le> bn_val e y * base e"
proof -
  note F = F_facts [OF assms(1)]
  obtain t where t: "bi_t y = Suc t" using assms(4) by (cases "bi_t y") simp_all
  define y0 y1 where y: "y0 = bi_d y t" "y1 = second_digit y"
  have y0: "2 ^ (dbits e - 1) \<le> y0" "y0 < base e" using assms(2,5) by (simp_all add: y t bn_raw_def digits_ok_Suc)
  have y1: "0 \<le> y1" "y1 < base e"
    using raw_digit [OF assms(2), of "t - 1"] base_bounds(3) [of e] by (auto simp: y second_digit_def t)
  have p52: "base e * 2 ^ F1 e = 2 ^ 52" using F(2) by (simp add: power_add [symmetric] add.commute)
  have half: "2 ^ (dbits e - 1) * 2 ^ F1 e = (2 :: int) ^ 51"
  proof -
    have "dbits e - 1 + F1 e = 51" using F(2) dbits_bounds [of e] by linarith
    then show ?thesis by (simp only: power_add [symmetric])
  qed
  define q where "q = y1 div 2 ^ F2 e"
  have B: "base e = 2 ^ F1 e * 2 ^ F2 e" by (simp add: F(1) power_add)
  have q: "0 \<le> q" "q < 2 ^ F1 e" unfolding q_def using y1 by (simp add: pos_imp_zdiv_nonneg_iff) (intro div_less_if, use y1 B in simp_all)
  have shr: "(if 1 < bi_t y then js_shr (bi_d y (bi_t y - 2)) (F2 e) else 0) = q"
  proof (cases "1 < bi_t y")
    case True
    then have "bi_d y (bi_t y - 2) = y1" by (simp add: y second_digit_def)
    then show ?thesis using True y1 base_bounds(2) [of e] F(5) by (simp add: q_def js_shr_div)
  qed (simp add: q_def y second_digit_def)
  have "(y0 + 1) * 2 ^ F1 e \<le> base e * 2 ^ F1 e" using y0 by (intro mult_right_mono) simp_all
  then have top: "y0 * 2 ^ F1 e + q < 2 ^ 52" using q unfolding p52 by (simp add: distrib_right)
  have low: "2 ^ (dbits e - 1) * 2 ^ F1 e \<le> y0 * 2 ^ F1 e" using y0 by (intro mult_right_mono) simp_all
  then have n: "0 \<le> y0 * 2 ^ F1 e" "2 ^ 51 \<le> y0 * 2 ^ F1 e" unfolding half by simp_all
  show eq: "divisor_top e y = bi_d y (bi_t y - 1) * 2 ^ F1 e + second_digit y div 2 ^ F2 e"
    unfolding divisor_top_def Let_def shr F(3) using top n q(1) by (simp add: y [symmetric] t q_def [symmetric])
  then have eq: "divisor_top e y = y0 * 2 ^ F1 e + q" by (simp add: y t q_def)
  show "bi_d y (bi_t y - 1) * 2 ^ F1 e \<le> divisor_top e y" "divisor_top e y < 2 ^ 52" "2 ^ 51 \<le> divisor_top e y"
    using eq top n q(1) by (simp_all add: y t)
  have "q * 2 ^ F2 e \<le> y1" unfolding q_def by (rule div_times_le) simp
  then have "divisor_top e y * 2 ^ F2 e \<le> y0 * base e + y1" unfolding eq B by (simp add: algebra_simps)
  then have "divisor_top e y * 2 ^ F2 e * base e ^ t \<le> (y0 * base e + y1) * base e ^ t" by (intro mult_right_mono) simp_all
  also have "\<dots> \<le> bn_val e y * base e"
  proof -
    have "bn_val e y = dsum e (bi_d y) t + y0 * base e ^ t" using assms(3) by (simp add: bn_val_def t dsum_Suc y)
    moreover have "y1 * base e ^ t \<le> dsum e (bi_d y) t * base e"
    proof (cases t)
      case 0
      then show ?thesis by (simp add: y second_digit_def t)
    next
      case (Suc m)
      have "0 \<le> dsum e (bi_d y) m" using dsum_bounds [OF digits_ok_mono, of e "bi_d y" "bi_t y" m] assms(2) t Suc by (simp add: bn_raw_def)
      then show ?thesis using Suc by (simp add: y second_digit_def t dsum_Suc algebra_simps)
    qed
    ultimately show ?thesis by (simp add: algebra_simps)
  qed
  finally show "divisor_top e y * 2 ^ F2 e * base e ^ (bi_t y - 1) \<le> bn_val e y * base e" by (simp add: t)
qed

lemma quotient_digit_spec:
  assumes "e \<noteq> AM1" "y0 * 2 ^ F1 e \<le> yt" "2 ^ 51 \<le> yt" "yt < 2 ^ 52" "2 ^ (dbits e - 1) \<le> y0" "y0 < base e"
    "0 \<le> ri" "ri \<le> y0" "0 \<le> ri1" "ri1 < base e" "0 \<le> q" "q < base e" "q * yt < (ri * base e + ri1 + 1) * 2 ^ F1 e"
  shows "q \<le> quotient_digit e y0 (fl (FV / of_int yt)) (fl (of_int (js_shl 1 (F1 e)) / of_int yt)) ri ri1"
    "quotient_digit e y0 (fl (FV / of_int yt)) (fl (of_int (js_shl 1 (F1 e)) / of_int yt)) ri ri1 \<le> base e"
proof -
  note F = F_facts [OF assms(1)]
  define p where "p = fl (of_int ri * fl (FV / of_int yt)) +
      fl (of_int (num (ri1 + js_shl 1 (F2 e))) * fl (of_int (js_shl 1 (F1 e)) / of_int yt))"
  have "q \<le> \<lfloor>fl p\<rfloor> \<and> \<lfloor>fl p\<rfloor> \<le> base e" if "ri \<noteq> y0"
  proof -
    define R :: "int \<Rightarrow> rat" where "R = of_int"
    have "(2 :: int) ^ 27 \<le> 2 ^ (dbits e - 1)" using F(6) by (intro power_increasing) simp_all
    then have y27: "2 ^ 27 \<le> y0" using assms(5) by simp
    have "(2 :: rat) ^ F2 e \<le> 2 ^ 8" using F(5) by (intro power_increasing) simp_all
    moreover have "(2 :: rat) ^ dbits e \<le> 2 ^ 30" using dbits_bounds [of e] by (intro power_increasing) simp_all
    moreover have "(2 :: rat) ^ dbits e = 2 ^ F1 e * 2 ^ F2 e" by (simp add: F(1) power_add)
    moreover have "(2 :: rat) ^ dbits e * 2 ^ F1 e = 2 ^ 52" using F(2) by (simp add: power_add [symmetric] add.commute)
    moreover have "R y0 * 2 ^ F1 e \<le> R yt" "2 ^ 51 \<le> R yt" "R yt < 2 ^ 52" "2 ^ 27 \<le> R y0"
      using assms(2-4) y27 unfolding R_def by (metis of_int_le_iff of_int_less_iff of_int_mult of_int_numeral of_int_power)+
    moreover have "0 \<le> R ri" "R ri + 1 \<le> R y0" "0 \<le> R ri1" "R ri1 + 1 \<le> 2 ^ dbits e"
    proof -
      have "of_int (ri + 1) \<le> R y0" unfolding R_def of_int_le_iff using assms(8) that by simp
      then show "R ri + 1 \<le> R y0" by (simp add: R_def)
      have "of_int (ri1 + 1) \<le> (of_int (base e) :: rat)" unfolding of_int_le_iff using assms(10) by simp
      then show "R ri1 + 1 \<le> 2 ^ dbits e" by (simp add: R_def)
    qed (use assms(7,9) in \<open>simp_all add: R_def\<close>)
    ultimately have ok: "estimate_ok (dbits e) (2 ^ F1 e) (2 ^ F2 e) (R y0) (R yt) (R ri) (R ri1)"
      unfolding estimate_ok_def using F(7) by simp
    have "(2 :: int) ^ F2 e \<le> 2 ^ 8" using F(5) by (intro power_increasing) simp_all
    then have n: "num (ri1 + 2 ^ F2 e) = ri1 + 2 ^ F2 e" using assms(9,10) base_bounds(2) [of e] by simp
    have p: "p = fl (R ri * fl (coeff1 (R yt))) + fl ((R ri1 + 2 ^ F2 e) * fl (coeff2 (2 ^ F1 e) (R yt)))"
      unfolding p_def F(3,4) n by (simp add: R_def FV_def BI_FP_def coeff1_def coeff2_def)
    have "R (q * yt) < R ((ri * base e + ri1 + 1) * 2 ^ F1 e)" unfolding R_def of_int_less_iff by (rule assms(13))
    then have "R q * R yt < (R ri * 2 ^ dbits e + R ri1 + 1) * 2 ^ F1 e" by (simp add: R_def)
    note low = never_below [OF ok this, folded p]
    have "q \<le> 2 ^ 53" using assms(12) base_bounds(2) [of e] by simp
    then have "of_int q \<le> fl p" using low assms(11) unfolding R_def by (intro fl_ge) simp_all
    moreover have "fl p < of_int (base e + 1)" using never_above [OF ok, folded p] by simp
    ultimately show ?thesis by (simp add: le_floor_iff floor_le_iff floor_less_iff)
  qed
  then show "q \<le> quotient_digit e y0 (fl (FV / of_int yt)) (fl (of_int (js_shl 1 (F1 e)) / of_int yt)) ri ri1"
    "quotient_digit e y0 (fl (FV / of_int yt)) (fl (of_int (js_shl 1 (F1 e)) / of_int yt)) ri ri1 \<le> base e"
    using assms(12) by (auto simp: quotient_digit_def p_def DM_base)
qed

end
