(* ===== verification/DivisionProofs.thy ===== *)
theory DivisionProofs
  imports BigIntegerDivision
begin

text \<open>The loop over the digits of a quotient, and division as a whole.\<close>

section \<open>One digit\<close>

lemma length_from_val:
  assumes "bn_ok e x" "0 \<le> bn_val e x" "base e ^ n \<le> bn_val e x" "bn_val e x < base e ^ Suc n"
  shows "bi_t x = Suc n" "bi_s x = 0"
proof -
  note raw = bn_ok_raw [OF assms(1)]
  show s: "bi_s x = 0" using val_sign [OF raw] assms(2) by simp
  have pos: "0 < bn_val e x" by (rule less_le_trans [OF _ assms(3)]) simp
  have t: "0 < bi_t x"
  proof (rule ccontr)
    assume "\<not> 0 < bi_t x"
    then show False using pos s by (simp add: bn_val_def)
  qed
  have "base e ^ (bi_t x - 1) < base e ^ Suc n" using val_length(1) [OF assms(1) t s] assms(4) by (rule le_less_trans)
  then have "bi_t x - 1 < Suc n" using base_bounds(4) [of e] power_less_imp_less_exp by blast
  moreover have "base e ^ n < base e ^ bi_t x" using assms(3) val_bounds(1) [OF raw s] by linarith
  then have "n < bi_t x" using base_bounds(4) [of e] power_less_imp_less_exp by blast
  ultimately show "bi_t x = Suc n" by simp
qed

text \<open>
  \<open>R\<close> is the rest before the digit, \<open>D\<close> the shifted divisor and \<open>P\<close> the place of the digit; after \<open>p\<close> subtractions the
  array has the digit \<open>h\<close> with \<open>low\<close> below it.
\<close>

lemma top_digit:
  fixes R D P :: int
  assumes "0 \<le> low" "low < P" "low + h * P = R - p * D + p * P" "q = R div D" "q \<le> p" "0 < D" "D \<le> P"
  shows "q \<le> h" "h \<le> p" "h < p \<longleftrightarrow> q < p" "p = q \<Longrightarrow> h = q \<and> low = R - q * D"
proof -
  define rest where "rest = R - q * D"
  have rest: "0 \<le> rest" "rest < D" using assms(4,6) by (simp_all add: rest_def minus_div_mult_eq_mod)
  have eq: "low + h * P = rest - (p - q) * D + p * P" using assms(3) by (simp add: rest_def algebra_simps)
  have P: "0 < P" using assms by simp
  have "(p - q) * D \<le> (p - q) * P" using assms(5,7) by (intro mult_left_mono) simp_all
  then have "q * P \<le> low + h * P" using eq rest by (simp add: algebra_simps)
  then have "q * P < (h + 1) * P" using assms(2) by (simp add: distrib_right)
  then show q: "q \<le> h" using P by simp
  have less: "h < p" if "q < p"
  proof -
    have "1 * D \<le> (p - q) * D" using that assms(6) by (intro mult_right_mono) simp_all
    then have "h * P < p * P" using eq rest assms(1) by linarith
    then show ?thesis using P by simp
  qed
  have eqs: "h = q \<and> low = rest" if "p = q"
  proof -
    have e: "low + h * P = rest + q * P" using eq that by simp
    have "rest < P" using rest assms(7) by simp
    then have "(low + h * P) div P = h" "(rest + q * P) div P = q" using assms(1,2) rest P by simp_all
    then show ?thesis using e by simp
  qed
  show "h \<le> p" "h < p \<longleftrightarrow> q < p" using less eqs assms(5) q by (cases "q < p"; auto)+
  show "p = q \<Longrightarrow> h = q \<and> low = R - q * D" using eqs by (simp add: rest_def)
qed

lemma digit_value:
  fixes R D P :: int
  assumes "q = R div D" "q \<le> p" "p \<le> b" "0 < D" "D \<le> P" "q < b"
  shows "q * P \<le> R - p * D + p * P" "R - p * D + p * P < b * P"
proof -
  define rest where "rest = R - q * D"
  have rest: "0 \<le> rest" "rest < D" using assms(1,4) by (simp_all add: rest_def minus_div_mult_eq_mod)
  have eq: "R - p * D + p * P = rest - (p - q) * D + p * P" by (simp add: rest_def algebra_simps)
  have "(p - q) * D \<le> (p - q) * P" using assms(2,5) by (intro mult_left_mono) simp_all
  then show "q * P \<le> R - p * D + p * P" unfolding eq using rest by (simp add: algebra_simps)
  show "R - p * D + p * P < b * P"
  proof (cases "q < p")
    case True
    have "1 * D \<le> (p - q) * D" using True assms(4) by (intro mult_right_mono) simp_all
    moreover have "p * P \<le> b * P" using assms(3-5) by (intro mult_right_mono) simp_all
    ultimately show ?thesis unfolding eq using rest by linarith
  next
    case False
    then have "p = q" using assms(2) by simp
    moreover have "(q + 1) * P \<le> b * P" using assms(4-6) by (intro mult_right_mono) simp_all
    ultimately show ?thesis unfolding eq using rest assms(5) by (simp add: distrib_right)
  qed
qed

text \<open>The array while a digit is corrected: \<open>qv\<close> are the digits of the quotient so far, from place \<open>i + 1\<close> on.\<close>

definition correcting :: "am_engine \<Rightarrow> nat \<Rightarrow> nat \<Rightarrow> int \<Rightarrow> int \<Rightarrow> int \<Rightarrow> int \<Rightarrow> bigint \<Rightarrow> bool" where
  "correcting e i T qv R D p r \<longleftrightarrow> bn_raw e r \<and> bi_s r = 0 \<and> bi_t r = T \<and>
     bn_val e r = qv * base e ^ Suc i + (R - p * D + p * base e ^ i)"

lemma split_value:
  assumes "digits_ok e d T" "Suc i \<le> T" "dsum e d T = qv * base e ^ Suc i + w" "0 \<le> w" "w < base e ^ Suc i"
  shows "dsum e d (Suc i) = w" "dsum e (\<lambda>k. d (Suc i + k)) (T - Suc i) = qv"
proof -
  have "dsum e d T = dsum e d (Suc i + (T - Suc i))" using assms(2) by simp
  then have split: "dsum e d T = dsum e d (Suc i) + base e ^ Suc i * dsum e (\<lambda>k. d (Suc i + k)) (T - Suc i)" by (simp only: dsum_split)
  note low = dsum_bounds [OF digits_ok_mono [OF assms(1,2)]]
  have pos: "0 < base e ^ Suc i" by simp
  have "dsum e d T div base e ^ Suc i = dsum e (\<lambda>k. d (Suc i + k)) (T - Suc i)" unfolding split using low pos by simp
  moreover have "dsum e d T div base e ^ Suc i = qv" unfolding assms(3) using assms(4,5) by simp
  ultimately show "dsum e (\<lambda>k. d (Suc i + k)) (T - Suc i) = qv" by simp
  then show "dsum e d (Suc i) = w" using split assms(3) by simp
qed

lemma correcting_digits:
  assumes "correcting e i T qv R D p r" "Suc i \<le> T" "q = R div D" "0 \<le> q" "q < base e" "q \<le> p" "p \<le> base e" "0 < D" "D \<le> base e ^ i"
  shows "dsum e (bi_d r) (Suc i) = R - p * D + p * base e ^ i" "dsum e (\<lambda>k. bi_d r (Suc i + k)) (T - Suc i) = qv"
    "bi_d r i < p \<longleftrightarrow> q < p" "p = q \<Longrightarrow> bi_d r i = q \<and> dsum e (bi_d r) i = R - q * D"
proof -
  note c = assms(1) [unfolded correcting_def]
  have ok: "digits_ok e (bi_d r) T" using c by (auto simp: bn_raw_def)
  note w = digit_value [OF assms(3,6,7,8,9,5)]
  have "0 \<le> q * base e ^ i" using assms(4) by simp
  then have w: "0 \<le> R - p * D + p * base e ^ i" "R - p * D + p * base e ^ i < base e ^ Suc i" using w by simp_all
  have "dsum e (bi_d r) T = qv * base e ^ Suc i + (R - p * D + p * base e ^ i)" using c by (auto simp: bn_val_def)
  note s = split_value [OF ok assms(2) this w]
  then show "dsum e (bi_d r) (Suc i) = R - p * D + p * base e ^ i" "dsum e (\<lambda>k. bi_d r (Suc i + k)) (T - Suc i) = qv" by simp_all
  have "digits_ok e (bi_d r) i" using ok by (rule digits_ok_mono) (use assms(2) in simp)
  note low = dsum_bounds [OF this]
  have "dsum e (bi_d r) i + bi_d r i * base e ^ i = R - p * D + p * base e ^ i" using s(1) by (simp add: dsum_Suc)
  note td = top_digit [OF conjunct1 [OF low] conjunct2 [OF low] this assms(3,6,8,9)]
  show "bi_d r i < p \<longleftrightarrow> q < p" "p = q \<Longrightarrow> bi_d r i = q \<and> dsum e (bi_d r) i = R - q * D" using td(3,4) by simp_all
qed

lemma correcting_step:
  assumes "correcting e i T qv R D p r" "Suc i \<le> T" "q = R div D" "0 \<le> q" "q < base e" "q \<le> p - 1" "p \<le> base e" "0 < D" "D \<le> base e ^ i"
    "bn_raw e t" "bn_val e t = base e ^ i - D" "base e ^ (T - 1) \<le> qv * base e ^ Suc i + q * base e ^ i" "(qv + 1) * base e ^ Suc i \<le> base e ^ T"
  shows "correcting e i T qv R D (p - 1) (subTo e r t r)"
proof -
  note c = assms(1) [unfolded correcting_def]
  have raw: "bn_raw e r" using c by simp
  note sub = subTo_spec [OF raw assms(10), of r]
  have val: "bn_val e (subTo e r t r) = qv * base e ^ Suc i + (R - (p - 1) * D + (p - 1) * base e ^ i)"
    using sub(2) c assms(11) by (simp add: algebra_simps)
  have "p - 1 \<le> base e" using assms(7) by simp
  note w = digit_value [OF assms(3,6) this assms(8,9,5)]
  have low: "base e ^ (T - 1) \<le> bn_val e (subTo e r t r)" using w(1) assms(12) unfolding val by simp
  have T: "T = Suc (T - 1)" using assms(2) by simp
  have "bn_val e (subTo e r t r) < base e ^ T" using w(2) assms(13) unfolding val by (simp add: distrib_right)
  then have up: "bn_val e (subTo e r t r) < base e ^ Suc (T - 1)" using T by simp
  have "0 \<le> bn_val e (subTo e r t r)" by (rule order_trans [OF _ low]) simp
  from length_from_val [OF sub(1) this low up] show ?thesis using val bn_ok_raw [OF sub(1)] T by (simp add: correcting_def)
qed

lemma correcting_loop:
  assumes "correcting e i T qv R D p r" "Suc i \<le> T" "q = R div D" "0 \<le> q" "q < base e" "q \<le> p" "p \<le> base e" "0 < D" "D \<le> base e ^ i"
    "bn_raw e t" "bn_val e t = base e ^ i - D" "base e ^ (T - 1) \<le> qv * base e ^ Suc i + q * base e ^ i" "(qv + 1) * base e ^ Suc i \<le> base e ^ T"
  shows "\<exists>r'. div_correct e i t (p + 1) r = Some r' \<and> correcting e i T qv R D q r'"
  using assms(1,6,7)
proof (induction "nat (p - q)" arbitrary: p r)
  case 0
  then have "p = q" by simp
  moreover have "\<not> bi_d r i < p"
    using correcting_digits(3) [OF 0(2) assms(2-5) 0(3,4) assms(8,9)] \<open>p = q\<close> by simp
  ultimately show ?case using 0(2) by (subst div_correct.simps) simp
next
  case (Suc n)
  then have lt: "q < p" by linarith
  then have less: "bi_d r i < p" using correcting_digits(3) [OF Suc(3) assms(2-5) Suc(4,5) assms(8,9)] by simp
  have "q \<le> p - 1" using lt by simp
  note step = correcting_step [OF Suc(3) assms(2-5) this Suc(5) assms(8-13)]
  have "n = nat (p - 1 - q)" "p - 1 \<le> base e" using Suc(2,5) lt by simp_all
  from Suc(1) [OF this(1) step \<open>q \<le> p - 1\<close> this(2)] show ?case using less by (subst div_correct.simps) simp
qed

section \<open>The loop\<close>

text \<open>
  \<open>M\<close> is the divisor, of \<open>ys\<close> digits, and \<open>V\<close> the dividend; \<open>j\<close> digits of the quotient are still to be found, the others
  stand in the array from place \<open>j + ys\<close> on.
\<close>

definition dividing :: "am_engine \<Rightarrow> nat \<Rightarrow> int \<Rightarrow> int \<Rightarrow> nat \<Rightarrow> nat \<Rightarrow> bigint \<Rightarrow> bool" where
  "dividing e ys M V T j r \<longleftrightarrow> bi_s r = 0 \<and> bi_t r = T \<and> j + ys \<le> T \<and> digits_ok e (bi_d r) T \<and>
     dsum e (bi_d r) (j + ys) < M * base e ^ j \<and>
     V = dsum e (\<lambda>k. bi_d r (j + ys + k)) (T - (j + ys)) * (M * base e ^ j) + dsum e (bi_d r) (j + ys) \<and>
     (if j + ys < T then bi_d r (T - 1) \<noteq> 0 else base e ^ (j + ys - 1) \<le> dsum e (bi_d r) (j + ys))"

definition complement_of :: "am_engine \<Rightarrow> nat \<Rightarrow> int \<Rightarrow> bigint \<Rightarrow> bool" where
  "complement_of e ys M y \<longleftrightarrow> bn_raw e y \<and> bi_s y = 0 \<and> bi_t y = ys \<and> bn_val e y = base e ^ ys - M"

text \<open>What the loop needs to know about the estimates.\<close>

definition estimates :: "am_engine \<Rightarrow> nat \<Rightarrow> int \<Rightarrow> int \<Rightarrow> rat \<Rightarrow> rat \<Rightarrow> bool" where
  "estimates e ys M y0 d1 d2 \<longleftrightarrow>
     (\<forall>d j. digits_ok e d (Suc j + ys) \<longrightarrow> dsum e d (Suc j + ys) < M * base e ^ Suc j \<longrightarrow>
        dsum e d (Suc j + ys) div (M * base e ^ j) \<le> quotient_digit e y0 d1 d2 (d (j + ys)) (d (j + ys - 1)) \<and>
        quotient_digit e y0 d1 d2 (d (j + ys)) (d (j + ys - 1)) \<le> base e)"

lemma am_digit:
  assumes "complement_of e ys M y" "digits_ok e d (Suc (j + ys))" "0 \<le> p" "p \<le> base e" "am e (bi_d y) 0 p d j 0 ys = (d', c)"
  shows "dsum e d' (j + ys) + (d (j + ys) + c) * base e ^ (j + ys) =
      dsum e d (Suc (j + ys)) - p * (M * base e ^ j) + p * base e ^ (j + ys)"
    "digits_ok e d' (j + ys)" "\<And>k. j + ys \<le> k \<Longrightarrow> d' k = d k" "0 \<le> c"
proof -
  note y = assms(1) [unfolded complement_of_def]
  have w: "digits_ok e (\<lambda>k. d (j + k)) ys" using assms(2) by (simp add: digits_ok_def)
  have a: "digits_ok e (\<lambda>k. bi_d y (0 + k)) ys" using y by (auto simp: bn_raw_def)
  have p: "p \<le> 2 * base e - 2" using assms(4) base_bounds(1) [of e] by simp
  have z: "(0 :: int) \<le> 2 * base e - 2" using base_bounds(4) [of e] by simp
  note spec = am_spec [OF assms(3) p a w order_refl z assms(5)]
  show keep: "d' k = d k" if "j + ys \<le> k" for k using spec(2) that by (simp add: kept_outside_def)
  show "0 \<le> c" by (rule spec(4))
  have low: "dsum e d' j = dsum e d j" using spec(2) by (intro dsum_cong) (simp add: kept_outside_def)
  have ysum: "dsum e (bi_d y) ys = base e ^ ys - M" using y by (auto simp: bn_val_def)
  have "dsum e d' (j + ys) + (d (j + ys) + c) * base e ^ (j + ys) =
      dsum e d j + base e ^ j * (dsum e (\<lambda>k. d' (j + k)) ys + c * base e ^ ys) + d (j + ys) * base e ^ (j + ys)"
    unfolding dsum_split low by (simp add: power_add algebra_simps)
  also have "\<dots> = dsum e d (Suc (j + ys)) + base e ^ j * (p * (base e ^ ys - M))"
    unfolding spec(1) by (simp add: dsum_Suc dsum_split ysum algebra_simps)
  also have "\<dots> = dsum e d (Suc (j + ys)) - p * (M * base e ^ j) + p * base e ^ (j + ys)"
    by (simp add: power_add algebra_simps)
  finally show "dsum e d' (j + ys) + (d (j + ys) + c) * base e ^ (j + ys) =
      dsum e d (Suc (j + ys)) - p * (M * base e ^ j) + p * base e ^ (j + ys)" .
  show "digits_ok e d' (j + ys)"
  proof (rule digits_okI)
    fix k assume "k < j + ys"
    then show "0 \<le> d' k \<and> d' k < base e"
      using spec(2,3) assms(2) by (cases "k < j") (auto simp: digits_ok_def kept_outside_def dest: HOL.spec [of _ "k - j"])
  qed
qed

lemma next_state:
  assumes "dividing e ys M V T (Suc j) r" "0 < M" "M \<le> base e ^ ys" "R = dsum e (bi_d r) (Suc (j + ys))" "q = R div (M * base e ^ j)"
    "bi_s r' = 0" "bi_t r' = T" "digits_ok e (bi_d r') T" "dsum e (bi_d r') (j + ys) = R - q * (M * base e ^ j)" "bi_d r' (j + ys) = q"
    "dsum e (\<lambda>k. bi_d r' (Suc (j + ys) + k)) (T - Suc (j + ys)) = dsum e (\<lambda>k. bi_d r (Suc (j + ys) + k)) (T - Suc (j + ys))"
    "base e ^ (T - 1) \<le> dsum e (bi_d r') T"
  shows "dividing e ys M V T j r'"
proof -
  note d = assms(1) [unfolded dividing_def, simplified]
  define i where "i = j + ys"
  have D: "0 < M * base e ^ j" using assms(2) by simp
  have i: "i < T" using d by (simp add: i_def)
  then have split: "T - i = Suc (T - Suc i)" by simp
  have low: "R - q * (M * base e ^ j) < M * base e ^ j" unfolding assms(5) using D by (simp add: minus_div_mult_eq_mod)
  have quot: "dsum e (\<lambda>k. bi_d r' (i + k)) (T - i) = q + base e * dsum e (\<lambda>k. bi_d r (Suc i + k)) (T - Suc i)"
    unfolding split dsum_first using assms(10,11) by (simp add: i_def)
  have "V = dsum e (\<lambda>k. bi_d r (Suc i + k)) (T - Suc i) * (M * base e ^ Suc j) + R" using d assms(4) by (simp add: i_def)
  then have V: "V = dsum e (\<lambda>k. bi_d r' (i + k)) (T - i) * (M * base e ^ j) + (R - q * (M * base e ^ j))"
    unfolding quot by (simp add: algebra_simps)
  have top: "bi_d r' (T - 1) \<noteq> 0"
  proof
    assume z: "bi_d r' (T - 1) = 0"
    obtain t where t: "T = Suc t" using i by (cases T) simp_all
    have "digits_ok e (bi_d r') t" using assms(8) t by (simp add: digits_ok_Suc)
    then have "dsum e (bi_d r') T < base e ^ (T - 1)" using dsum_bounds z t by (simp add: dsum_Suc)
    then show False using assms(12) by simp
  qed
  show ?thesis unfolding dividing_def i_def [symmetric] using assms(6-9) i low V top by (simp add: i_def [symmetric])
qed

theorem div_loop_spec:
  assumes "complement_of e ys M y" "estimates e ys M y0 d1 d2" "0 < M" "M \<le> base e ^ ys"
    "dividing e ys M V T j r"
  shows "\<exists>r' t'. div_loop e y0 d1 d2 y ys (j + ys) j (r, t) = Some (r', t') \<and> dividing e ys M V T 0 r'"
  using assms(5)
proof (induction j arbitrary: r t)
  case 0
  then show ?case by simp
next
  case (Suc j)
  define i D R q where d: "i = j + ys" "D = M * base e ^ j" "R = dsum e (bi_d r) (Suc (j + ys))" "q = R div D"
  note div = Suc.prems [unfolded dividing_def, simplified, folded d(1)]
  have T: "Suc i \<le> T" using div by simp
  have ok: "digits_ok e (bi_d r) (Suc i)" using div digits_ok_mono T by blast
  have D: "0 < D" "D \<le> base e ^ i" using assms(3,4) mult_right_mono [of M "base e ^ ys" "base e ^ j"] by (simp_all add: d power_add mult.commute)
  have R: "0 \<le> R" "R < base e * D" using dsum_bounds [OF ok] div by (simp_all add: d ac_simps)
  have q: "0 \<le> q" "q < base e" using R D div_less_if [of R "base e" D] by (simp_all add: d(4) pos_imp_zdiv_nonneg_iff)
  define p where "p = quotient_digit e y0 d1 d2 (bi_d r i) (bi_d r (i - 1))"
  have "dsum e (bi_d r) (Suc j + ys) < M * base e ^ Suc j" using div by (simp add: d)
  then have p: "q \<le> p" "p \<le> base e"
    using assms(2) [unfolded estimates_def, rule_format, of "bi_d r" j] ok by (simp_all add: p_def d)
  have p0: "0 \<le> p" using p(1) q(1) by simp
  obtain d' c where run: "am e (bi_d y) 0 p (bi_d r) j 0 ys = (d', c)" by fastforce
  have Ri: "dsum e (bi_d r) (Suc i) = R" by (simp add: d)
  note am = am_digit [OF assms(1) ok [unfolded d(1)] p0 p(2) run, folded d(1), folded d(2), unfolded Ri]
  define h where "h = bi_d r i + c"
  define r1 where "r1 = r\<lparr>bi_d := d'(i := h)\<rparr>"
  note low = dsum_bounds [OF am(2)]
  note td = top_digit [OF conjunct1 [OF low] conjunct2 [OF low] am(1) [folded h_def] d(4) p(1) D]
  define qv where "qv = dsum e (\<lambda>k. bi_d r (Suc i + k)) (T - Suc i)"
  have high: "dsum e (\<lambda>k. bi_d r1 (Suc i + k)) (T - Suc i) = qv"
    unfolding qv_def by (rule dsum_cong) (simp add: r1_def am(3))
  have keep: "dsum e (bi_d r1) i = dsum e d' i" by (rule dsum_cong) (simp add: r1_def)
  have total: "dsum e (bi_d r1) T = qv * base e ^ Suc i + (R - p * D + p * base e ^ i)"
  proof -
    have "dsum e (bi_d r1) T = dsum e (bi_d r1) (Suc i + (T - Suc i))" using T by simp
    also have "\<dots> = dsum e d' i + h * base e ^ i + base e ^ Suc i * qv" by (simp only: dsum_split high dsum_Suc keep) (simp add: r1_def)
    finally show ?thesis using am(1) [folded h_def] by simp
  qed
  have qvb: "0 \<le> qv" "(qv + 1) * base e ^ Suc i \<le> base e ^ T"
  proof -
    have ho: "digits_ok e (\<lambda>k. bi_d r (Suc i + k)) (T - Suc i)" using div by (auto simp: digits_ok_def)
    note b = dsum_bounds [OF ho, folded qv_def]
    show "0 \<le> qv" using b by simp
    have "(qv + 1) * base e ^ Suc i \<le> base e ^ (T - Suc i) * base e ^ Suc i" using b by (intro mult_right_mono) simp_all
    also have "\<dots> = base e ^ (T - Suc i + Suc i)" by (simp only: power_add)
    finally show "(qv + 1) * base e ^ Suc i \<le> base e ^ T" using T by simp
  qed
  have lower: "base e ^ (T - 1) \<le> qv * base e ^ Suc i + q * base e ^ i"
  proof (cases "Suc i < T")
    case True
    then obtain m where m: "T = Suc i + Suc m" using that [of "T - Suc i - 1"] by (metis Suc_diff_Suc diff_Suc_1 le_add_diff_inverse less_or_eq_imp_le)
    have "bi_d r (Suc i + m) \<noteq> 0" "0 \<le> bi_d r (Suc i + m)" using div True m by (simp_all add: digits_ok_def)
    then have top: "1 * base e ^ m \<le> bi_d r (Suc i + m) * base e ^ m" by (intro mult_right_mono) simp_all
    have "digits_ok e (\<lambda>k. bi_d r (Suc i + k)) m" using div m by (auto simp: digits_ok_def)
    then have "0 \<le> dsum e (\<lambda>k. bi_d r (Suc i + k)) m" using dsum_bounds by blast
    moreover have "qv = dsum e (\<lambda>k. bi_d r (Suc i + k)) m + bi_d r (Suc i + m) * base e ^ m" by (simp add: qv_def m dsum_Suc)
    ultimately have "base e ^ m \<le> qv" using top by linarith
    then have "base e ^ m * base e ^ Suc i \<le> qv * base e ^ Suc i" by (intro mult_right_mono) simp_all
    moreover have "base e ^ (T - 1) = base e ^ m * base e ^ Suc i" by (simp add: m power_add mult.commute)
    moreover have "0 \<le> q * base e ^ i" using q by simp
    ultimately show ?thesis by linarith
  next
    case False
    then have Ti: "T = Suc i" using T by simp
    have "base e ^ i \<le> R" using div Ti by (simp add: d)
    then have "D div D \<le> R div D" using D by (intro zdiv_mono1) simp_all
    then have "1 \<le> q" using D by (simp add: d(4))
    then have "1 * base e ^ i \<le> q * base e ^ i" by (intro mult_right_mono) simp_all
    moreover have "0 \<le> qv * base e ^ Suc i" using qvb(1) by simp
    moreover have "base e ^ (T - 1) = base e ^ i" by (simp add: Ti)
    ultimately show ?thesis by linarith
  qed
  note nxt = next_state [OF Suc.prems assms(3,4) d(3) d(4) [unfolded d(2)], folded d(1), folded d(2)]
  have r1: "bi_s r1 = 0" "bi_t r1 = T" "bi_d r1 i = h" using div by (simp_all add: r1_def)
  have c0: "0 \<le> h" using am(4) digits_okD(1) [OF ok, of i] by (simp add: h_def)
  have small: "digits_ok e (bi_d r1) T" if "h < base e"
  proof (rule digits_okI)
    fix k assume "k < T"
    then show "0 \<le> bi_d r1 k \<and> bi_d r1 k < base e"
      using am(2,3) c0 that div by (cases k i rule: linorder_cases) (auto simp: r1_def digits_ok_def)
  qed
  have unfold: "div_loop e y0 d1 d2 y ys (Suc j + ys) (Suc j) (r, t) =
      (if h < p then
         (let t1 = dLShiftTo y (int j) t in Option.bind (div_correct e i t1 p (subTo e r1 t1 r1)) (\<lambda>r2. div_loop e y0 d1 d2 y ys i j (r2, t1)))
       else div_loop e y0 d1 d2 y ys i j (r1, t))"
    using run by (simp add: d(1) p_def r1_def h_def Let_def)
  have rest: "0 \<le> R - q * D" unfolding d(4) using D(1) by (simp add: minus_div_mult_eq_mod)
  show ?case
  proof (cases "h < p")
    case False
    then have pq: "p = q" "h = q" "dsum e d' i = R - q * D" using td by auto
    have "base e ^ (T - 1) \<le> dsum e (bi_d r1) T" unfolding total pq(1) using lower rest by linarith
    then have "dividing e ys M V T j r1"
      using r1 small pq q(2) keep high by (intro nxt) (simp_all add: qv_def)
    then show ?thesis using Suc.IH [of r1 t] unfold False by (simp add: d(1))
  next
    case True
    then have lt: "q < p" using td(3) by simp
    define t1 where "t1 = dLShiftTo y (int j) t"
    have yc: "bn_raw e y" "bn_val e y = base e ^ ys - M" using assms(1) by (simp_all add: complement_of_def)
    note shift = dLShift_spec(1,2) [OF yc(1), of j t, folded t1_def]
    have tv: "bn_val e t1 = base e ^ i - D" using shift(2) yc(2) by (simp add: d power_add algebra_simps)
    have raw1: "bn_raw e r1" using small True p(2) r1 by (simp add: bn_raw_def)
    have "correcting e i T qv R D p r1" using raw1 r1 total by (simp add: correcting_def bn_val_def)
    from correcting_step [OF this T d(4) q(1,2) _ p(2) D shift(1) tv lower qvb(2)] lt
    have start: "correcting e i T qv R D (p - 1) (subTo e r1 t1 r1)" by simp
    have pb: "p - 1 \<le> base e" "q \<le> p - 1" using p(2) lt by simp_all
    obtain r2 where r2: "div_correct e i t1 p (subTo e r1 t1 r1) = Some r2" "correcting e i T qv R D q r2"
      using correcting_loop [OF start T d(4) q(1,2) pb(2,1) D shift(1) tv lower qvb(2)] by auto
    note digits = correcting_digits [OF r2(2) T d(4) q(1,2) order_refl _ D]
    have "q \<le> base e" using q(2) by simp
    note digits = digits [OF this]
    note c2 = r2(2) [unfolded correcting_def]
    have "dsum e (bi_d r2) T = qv * base e ^ Suc i + (R - q * D + q * base e ^ i)" using c2 by (auto simp: bn_val_def)
    then have "base e ^ (T - 1) \<le> dsum e (bi_d r2) T" using rest lower by linarith
    moreover have "bi_s r2 = 0" "bi_t r2 = T" "digits_ok e (bi_d r2) T" using c2 by (auto simp: bn_raw_def)
    ultimately have "dividing e ys M V T j r2" using digits by (intro nxt) (simp_all add: qv_def)
    then show ?thesis using Suc.IH [of r2 t1] unfold True r2(1) by (simp add: d(1) t1_def [symmetric])
  qed
qed

section \<open>The estimates are good enough\<close>

lemma top_of_value:
  assumes "bn_raw e y" "bi_s y = 0" "bi_t y = Suc t"
  shows "bi_d y t * base e ^ t \<le> bn_val e y" "bn_val e y < (bi_d y t + 1) * base e ^ t"
proof -
  have "digits_ok e (bi_d y) t" using assms(1,3) digits_ok_mono [of e "bi_d y" "Suc t" t] by (simp add: bn_raw_def)
  note dsum_bounds [OF this]
  then show "bi_d y t * base e ^ t \<le> bn_val e y" "bn_val e y < (bi_d y t + 1) * base e ^ t"
    using assms(2,3) by (simp_all add: bn_val_def dsum_Suc distrib_right)
qed

lemma estimates_hold:
  assumes "e \<noteq> AM1" "bn_raw e y" "bi_s y = 0" "bi_t y = Suc t" "2 ^ (dbits e - 1) \<le> bi_d y t"
  shows "estimates e (Suc t) (bn_val e y) (bi_d y t) (fl (FV / of_int (divisor_top e y))) (fl (of_int (js_shl 1 (F1 e)) / of_int (divisor_top e y)))"
  unfolding estimates_def
proof (intro allI impI)
  fix d j
  assume ok: "digits_ok e d (Suc j + Suc t)" and less: "dsum e d (Suc j + Suc t) < bn_val e y * base e ^ Suc j"
  define n M R q where d: "n = j + t" "M = bn_val e y" "R = dsum e d (Suc (Suc n))" "q = R div (M * base e ^ j)"
  have top: "2 ^ (dbits e - 1) \<le> bi_d y (bi_t y - 1)" "0 < bi_t y" using assms(4,5) by simp_all
  note dt = divisor_top_spec [OF assms(1-3) top(2,1)]
  note val = top_of_value [OF assms(2-4), folded d(2)]
  have y0: "bi_d y t < base e" "0 < bi_d y t"
    using raw_digit [OF assms(2), of t] assms(4,5) zero_less_power [of "2 :: int" "dbits e - 1"] by (auto simp del: zero_less_power)
  then have "0 < bi_d y t * base e ^ t" by simp
  then have M: "0 < M" using val(1) by linarith
  then have D: "0 < M * base e ^ j" by simp
  have R: "R = dsum e d n + d n * base e ^ n + d (Suc n) * base e ^ Suc n" "R < M * base e ^ Suc j" using less by (simp_all add: d dsum_Suc)
  have "digits_ok e d n" using ok by (rule digits_ok_mono) (simp add: d)
  note low = dsum_bounds [OF this]
  have rr: "0 \<le> d n" "d n < base e" "0 \<le> d (Suc n)" "d (Suc n) < base e" using ok by (simp_all add: d digits_ok_def)
  have "0 \<le> d n * base e ^ n" using rr by simp
  then have "d (Suc n) * base e ^ Suc n \<le> R" using R(1) low by linarith
  moreover have "M * base e ^ Suc j < (bi_d y t + 1) * base e ^ t * base e ^ Suc j" using val(2) by (intro mult_strict_right_mono) simp_all
  moreover have "(bi_d y t + 1) * base e ^ t * base e ^ Suc j = (bi_d y t + 1) * base e ^ Suc n" by (simp add: d power_add algebra_simps)
  ultimately have "d (Suc n) * base e ^ Suc n < (bi_d y t + 1) * base e ^ Suc n" using R(2) by linarith
  then have ri: "d (Suc n) \<le> bi_d y t" by simp
  have q0: "0 \<le> q" using low rr D R(1) by (simp add: d(4) pos_imp_zdiv_nonneg_iff)
  have qB: "q < base e" using R(2) D div_less_if [of R "base e" "M * base e ^ j"] by (simp add: d(4) ac_simps)
  have upper: "R < (d (Suc n) * base e + d n + 1) * base e ^ n" using low R(1) by (simp add: algebra_simps)
  have "q * (divisor_top e y * 2 ^ F2 e * base e ^ t) * base e ^ j \<le> q * (M * base e) * base e ^ j"
    using dt(5) q0 assms(4) by (intro mult_right_mono mult_left_mono) (simp_all add: d)
  also have "\<dots> = q * (M * base e ^ j) * base e" by (simp add: ac_simps)
  also have "\<dots> \<le> R * base e" unfolding d(4) using D by (intro mult_right_mono div_times_le) simp_all
  also have "\<dots> < (d (Suc n) * base e + d n + 1) * base e ^ n * base e" using upper by (intro mult_strict_right_mono) simp_all
  finally have "(q * divisor_top e y * 2 ^ F2 e) * base e ^ n < ((d (Suc n) * base e + d n + 1) * base e) * base e ^ n"
    by (simp add: d(1) power_add ac_simps)
  then have "q * divisor_top e y * 2 ^ F2 e < (d (Suc n) * base e + d n + 1) * base e" by simp
  moreover have "base e = 2 ^ F1 e * 2 ^ F2 e" using F_facts(1) [OF assms(1)] by (simp add: power_add)
  then have "(d (Suc n) * base e + d n + 1) * base e = (d (Suc n) * base e + d n + 1) * 2 ^ F1 e * 2 ^ F2 e" by simp
  ultimately have "(q * divisor_top e y) * 2 ^ F2 e < ((d (Suc n) * base e + d n + 1) * 2 ^ F1 e) * 2 ^ F2 e" by linarith
  then have "q * divisor_top e y < (d (Suc n) * base e + d n + 1) * 2 ^ F1 e" by simp
  note qd = quotient_digit_spec [OF assms(1) dt(2,4,3) top(1) _ rr(3) _ rr(1,2) q0 qB this]
  show "dsum e d (Suc j + Suc t) div (bn_val e y * base e ^ j)
         \<le> quotient_digit e (bi_d y t) (fl (FV / of_int (divisor_top e y))) (fl (of_int (js_shl 1 (F1 e)) / of_int (divisor_top e y)))
            (d (j + Suc t)) (d (j + Suc t - 1)) \<and>
        quotient_digit e (bi_d y t) (fl (FV / of_int (divisor_top e y))) (fl (of_int (js_shl 1 (F1 e)) / of_int (divisor_top e y)))
            (d (j + Suc t)) (d (j + Suc t - 1)) \<le> base e"
    using qd y0 ri assms(4) by (simp add: d)
qed

section \<open>Division\<close>

lemma normalised:
  assumes "bn_ok e m" "bi_s m = 0" "bi_t m = Suc t" "n = dbits e - nbits (bi_d m t)" "bn_ok e y" "bn_val e y = bn_val e m * 2 ^ n"
  shows "bi_t y = Suc t" "bi_s y = 0" "2 ^ (dbits e - 1) \<le> bi_d y t" "bn_val e y < base e ^ Suc t" "base e ^ Suc t \<le> 2 * bn_val e y"
proof -
  define b where "b = nbits (bi_d m t)"
  note raw = bn_ok_raw [OF assms(1)]
  have top: "0 < bi_d m t" "bi_d m t < base e" using raw_digit [OF raw, of t] assms(1-3) by (auto simp: bn_ok_def order_less_le)
  have "bi_d m t < 2 ^ 31" using top(2) base_bounds(2) [of e] by simp
  note nb = nbits_spec [OF top(1) this, folded b_def]
  have "2 ^ (b - 1) < (2 :: int) ^ dbits e" using nb(2) top(2) by linarith
  then have b: "b \<le> dbits e" using nb(1) power_less_imp_less_exp [of "2 :: int" "b - 1" "dbits e"] by simp
  have n: "dbits e - 1 = n + (b - 1)" "dbits e = n + b" using assms(4) nb(1) b by (simp_all add: b_def)
  note val = top_of_value [OF raw assms(2,3)]
  have "2 ^ (b - 1) * base e ^ t \<le> bi_d m t * base e ^ t" using nb(2) by (intro mult_right_mono) simp_all
  then have "2 ^ (b - 1) * base e ^ t \<le> bn_val e m" using val(1) by linarith
  then have "2 ^ (b - 1) * base e ^ t * 2 ^ n \<le> bn_val e m * 2 ^ n" by (intro mult_right_mono) simp_all
  then have low: "2 ^ (dbits e - 1) * base e ^ t \<le> bn_val e y" unfolding n(1) power_add assms(6) by (simp add: ac_simps)
  have "(bi_d m t + 1) * base e ^ t \<le> 2 ^ b * base e ^ t" using nb(3) by (intro mult_right_mono) simp_all
  then have "bn_val e m < 2 ^ b * base e ^ t" using val(2) by linarith
  then have "bn_val e m * 2 ^ n < 2 ^ b * base e ^ t * 2 ^ n" by (intro mult_strict_right_mono) simp_all
  moreover have "base e ^ Suc t = 2 ^ b * base e ^ t * 2 ^ n" by (simp add: n(2) power_add)
  ultimately show up: "bn_val e y < base e ^ Suc t" unfolding assms(6) by simp
  have "1 * base e ^ t \<le> 2 ^ (dbits e - 1) * base e ^ t" by (intro mult_right_mono) simp_all
  then have pow: "base e ^ t \<le> bn_val e y" using low by linarith
  have "0 \<le> bn_val e y" by (rule order_trans [OF _ pow]) simp
  note len = length_from_val [OF assms(5) this pow up]
  then show "bi_t y = Suc t" "bi_s y = 0" by simp_all
  have "2 ^ (dbits e - 1) * base e ^ t < (bi_d y t + 1) * base e ^ t" using low top_of_value(2) [OF bn_ok_raw [OF assms(5)] len(2,1)] by linarith
  then have "(2 :: int) ^ (dbits e - 1) < bi_d y t + 1" by simp
  then show "2 ^ (dbits e - 1) \<le> bi_d y t" by linarith
  have "dbits e = Suc (dbits e - 1)" using n nb(1) by simp
  then have "base e ^ Suc t = 2 * (2 ^ (dbits e - 1) * base e ^ t)" by (metis mult.assoc power_Suc)
  then show "base e ^ Suc t \<le> 2 * bn_val e y" using low by linarith
qed

lemma pad_spec:
  assumes "bn_raw e x" "bi_s x = 0" "bi_t x \<le> n"
  shows "bn_raw e (pad n x)" "bn_val e (pad n x) = bn_val e x" "bi_t (pad n x) = n" "bi_s (pad n x) = 0"
proof -
  have d: "bi_d (pad n x) = (\<lambda>k. if bi_t x \<le> k \<and> k < n then 0 else bi_d x k)"
    unfolding pad_def fold_copy_up by simp
  show t: "bi_t (pad n x) = n" "bi_s (pad n x) = 0" using assms by (simp_all add: pad_def)
  show "bn_raw e (pad n x)" using assms base_bounds(3) [of e] by (auto simp: bn_raw_def t d digits_ok_def)
  obtain k where k: "n = bi_t x + k" using assms(3) le_Suc_ex by blast
  have "dsum e (bi_d (pad n x)) (bi_t x) = dsum e (bi_d x) (bi_t x)" by (rule dsum_cong) (simp add: d)
  moreover have "dsum e (\<lambda>i. bi_d (pad n x) (bi_t x + i)) k = 0" by (rule dsum_zero) (simp only: d, simp add: k)
  ultimately have "dsum e (bi_d (pad n x)) (bi_t x + k) = dsum e (bi_d x) (bi_t x)" unfolding dsum_split by simp
  then show "bn_val e (pad n x) = bn_val e x" using assms t by (simp add: bn_val_def k)
qed

text \<open>The complement of the normalised divisor.\<close>

lemma complement:
  assumes "bn_ok e y" "bi_s y = 0" "bi_t y = Suc t" "0 < bn_val e y" "bn_val e y < base e ^ Suc t"
  shows "complement_of e (Suc t) (bn_val e y) (pad (Suc t) (subTo e (dLShiftTo (ONE e) (int (Suc t)) z) y y))"
proof -
  note one = dLShift_spec(1,2) [OF bn_ok_raw [OF ONE_spec(1)], of e "Suc t" z]
  note sub = subTo_spec [OF one(1) bn_ok_raw [OF assms(1)], of y]
  define w where "w = subTo e (dLShiftTo (ONE e) (int (Suc t)) z) y y"
  have val: "bn_val e w = base e ^ Suc t - bn_val e y" using sub(2) one(2) by (simp add: w_def)
  have s: "bi_s w = 0" using val_sign [OF bn_ok_raw [OF sub(1)]] val assms(5) by (simp add: w_def)
  have "bi_t w \<le> Suc t"
  proof (rule ccontr)
    assume "\<not> bi_t w \<le> Suc t"
    then have "0 < bi_t w" "Suc t \<le> bi_t w - 1" by simp_all
    then have "base e ^ Suc t \<le> bn_val e w"
      using val_length(1) [OF sub(1) [folded w_def] _ s] power_increasing [of "Suc t" "bi_t w - 1" "base e"] base_bounds(4) [of e] by (meson less_imp_le order_trans)
    then show False using val assms(4) by simp
  qed
  note pad_spec [OF bn_ok_raw [OF sub(1) [folded w_def]] s this]
  then show ?thesis using val by (simp add: complement_of_def w_def)
qed

text \<open>The first step takes the divisor off once when it fits.\<close>

lemma first_step:
  assumes "bn_ok e y" "bi_s y = 0" "bi_t y = Suc t" "bn_val e y < base e ^ Suc t" "base e ^ Suc t \<le> 2 * bn_val e y"
    "bn_ok e r" "bi_s r = 0" "bi_t r = j + Suc t" "t1 = dLShiftTo y (int j) z"
    "r2 = (if 0 \<le> compareTo r t1 then let r' = r\<lparr>bi_d := (bi_d r)(bi_t r := 1), bi_t := Suc (bi_t r)\<rparr> in subTo e r' t1 r' else r)"
  shows "\<exists>T. dividing e (Suc t) (bn_val e y) (bn_val e r) T j r2"
proof -
  define i M where d: "i = j + Suc t" "M = bn_val e y"
  note shift = dLShift_spec [OF bn_ok_raw [OF assms(1)], of j z, folded assms(9) d(2)]
  have ok1: "bn_ok e t1" using shift(3) assms(1,3) by simp
  note raw = bn_ok_raw [OF assms(6)]
  have rv: "bn_val e r = dsum e (bi_d r) i" "digits_ok e (bi_d r) i" using raw assms(7,8) by (simp_all add: bn_val_def bn_raw_def d)
  have up: "bn_val e r < base e ^ i" "base e ^ (i - 1) \<le> bn_val e r"
    using val_bounds(1) [OF raw assms(7)] val_length(1) [OF assms(6) _ assms(7)] assms(8) by (simp_all add: d)
  have "M * base e ^ j \<le> base e ^ Suc t * base e ^ j" "base e ^ Suc t * base e ^ j \<le> 2 * M * base e ^ j"
    using assms(4,5) by (intro mult_right_mono; simp add: d)+
  moreover have "base e ^ i = base e ^ Suc t * base e ^ j" by (simp only: d(1) power_add mult.commute)
  ultimately have M: "M * base e ^ j \<le> base e ^ i" "base e ^ i \<le> 2 * (M * base e ^ j)" by simp_all
  note cmp = compareTo_order(1) [OF assms(6) ok1, unfolded shift(2)]
  show ?thesis
  proof (cases "M * base e ^ j \<le> bn_val e r")
    case False
    then have r2: "r2 = r" using cmp assms(10) by simp
    have "dividing e (Suc t) M (bn_val e r) i j r2"
      unfolding r2 dividing_def using False rv up assms(7,8) by (simp add: d(1))
    then show ?thesis unfolding d(2) by blast
  next
    case True
    define r' where "r' = r\<lparr>bi_d := (bi_d r)(i := 1), bi_t := Suc i\<rparr>"
    have r2: "r2 = subTo e r' t1 r'" using True cmp assms(10) assms(8) by (simp add: r'_def d(1) Let_def)
    have ok: "digits_ok e (bi_d r') (Suc i)" using rv(2) base_bounds(4) [of e] by (auto simp: r'_def digits_ok_def)
    have same: "dsum e (bi_d r') i = dsum e (bi_d r) i" by (rule dsum_cong) (simp add: r'_def)
    have r': "bi_t r' = Suc i" "bi_s r' = 0" "bi_d r' i = 1" using assms(7) by (simp_all add: r'_def)
    then have raw': "bn_raw e r'" "bn_val e r' = bn_val e r + base e ^ i"
      using ok same rv(1) by (simp_all only: bn_raw_def bn_val_def dsum_Suc) simp_all
    note sub = subTo_spec [OF raw'(1) shift(1), of r', folded r2]
    define rest where "rest = bn_val e r - M * base e ^ j"
    have val: "bn_val e r2 = base e ^ i + rest" using sub(2) raw'(2) shift(2) by (simp add: rest_def)
    have rest: "0 \<le> rest" "rest < M * base e ^ j" "rest < base e ^ i" using True up M by (simp_all add: rest_def)
    have "2 * base e ^ i \<le> base e * base e ^ i" using base_bounds(4) [of e] by (intro mult_right_mono) simp_all
    then have top: "bn_val e r2 < base e ^ Suc i" unfolding power_Suc using val rest by linarith
    have low: "base e ^ i \<le> bn_val e r2" using val rest by simp
    have "0 \<le> bn_val e r2" by (rule order_trans [OF _ low]) simp
    note len = length_from_val [OF sub(1) this low top]
    have ok2: "digits_ok e (bi_d r2) (Suc i)" using bn_ok_raw [OF sub(1)] len by (simp add: bn_raw_def)
    have "dsum e (bi_d r2) (Suc i) = 1 * base e ^ i + rest" using val len by (simp add: bn_val_def)
    then have sum: "dsum e (bi_d r2) i + bi_d r2 i * base e ^ i = 1 * base e ^ i + rest" by (simp only: dsum_Suc)
    note lo = dsum_bounds [OF digits_ok_mono [OF ok2, of i]]
    have P: "0 < base e ^ i" by simp
    have "(dsum e (bi_d r2) i + bi_d r2 i * base e ^ i) div base e ^ i = bi_d r2 i" using lo P by simp
    moreover have "(1 * base e ^ i + rest) div base e ^ i = 1" using rest P by simp
    ultimately have one: "bi_d r2 i = 1" using sum by simp
    then have "dsum e (bi_d r2) i = rest" using sum by simp
    then have "dividing e (Suc t) M (bn_val e r) (Suc i) j r2"
      unfolding dividing_def d(1) [symmetric] using one len ok2 rest by (simp add: rest_def dsum_Suc dsum_zero)
    then show ?thesis unfolding d(2) by blast
  qed
qed

text \<open>
  Quotient and remainder are rounded towards zero; an object is returned where the caller passes one.
\<close>

definition delivers :: "am_engine \<Rightarrow> int \<Rightarrow> bigint option \<Rightarrow> bigint option \<Rightarrow> bool" where
  "delivers e v q q' \<longleftrightarrow> (q' = None \<longleftrightarrow> q = None) \<and> (\<forall>b. q' = Some b \<longrightarrow> bn_ok e b \<and> bn_val e b = v)"

lemma delivers_map: "bn_ok e b \<Longrightarrow> bn_val e b = v \<Longrightarrow> delivers e v q (map_option (\<lambda>_. b) q)"
  by (auto simp: delivers_def)

lemma scaled_parts:
  fixes x m :: int
  assumes "0 \<le> x" "0 < m" "x * 2 ^ n = high * (m * 2 ^ n) + low" "0 \<le> low" "low < m * 2 ^ n"
  shows "high = x div m" "low div 2 ^ n = x mod m"
proof -
  have "(high * (m * 2 ^ n) + low) div (m * 2 ^ n) = high + low div (m * 2 ^ n)" using assms(2) by (intro div_mult_self3) simp
  then have "high = (x * 2 ^ n) div (m * 2 ^ n)" unfolding assms(3) using assms(4,5) by (simp add: div_pos_pos_trivial)
  then show high: "high = x div m" by simp
  have "low = (x mod m) * 2 ^ n" using assms(3) unfolding high minus_mult_div_eq_mod [symmetric] by (simp add: algebra_simps)
  then show "low div 2 ^ n = x mod m" by simp
qed

lemma quotient_sign: "0 < b \<Longrightarrow> (if (x < 0) \<noteq> (m < 0) then - (\<bar>x\<bar> div b) else \<bar>x\<bar> div b) = sgn x * sgn m * (\<bar>x\<bar> div (b :: int))" if "m \<noteq> 0"
  using that by (cases x "0 :: int" rule: linorder_cases; cases m "0 :: int" rule: linorder_cases; simp)

lemma remainder_sign: "(if x < 0 then - (\<bar>x\<bar> mod b) else \<bar>x\<bar> mod b) = sgn x * (\<bar>x\<bar> mod (b :: int))"
  by (cases x "0 :: int" rule: linorder_cases; simp)

lemma subTo_negate:
  assumes "bn_raw e x"
  shows "bn_ok e (subTo e (ZERO e) x r)" "bn_val e (subTo e (ZERO e) x r) = - bn_val e x"
  using subTo_spec [OF bn_ok_raw [OF ZERO_spec(1)] assms] by simp_all

theorem divRemTo_spec:
  assumes "e \<noteq> AM1" "bn_ok e x" "bn_ok e m" "bn_val e m \<noteq> 0"
  shows "\<exists>q' r'. divRemTo e x m q r = Some (q', r') \<and>
    delivers e (sgn (bn_val e x) * sgn (bn_val e m) * (\<bar>bn_val e x\<bar> div \<bar>bn_val e m\<bar>)) q q' \<and>
    delivers e (sgn (bn_val e x) * (\<bar>bn_val e x\<bar> mod \<bar>bn_val e m\<bar>)) r r'"
proof -
  define pm pt where p: "pm = bn_abs e m" "pt = bn_abs e x"
  note pm = abs_spec [OF assms(3), folded p] and pt = abs_spec [OF assms(2), folded p]
  have sx: "bi_s x < 0 \<longleftrightarrow> bn_val e x < 0" "bi_s x \<noteq> bi_s m \<longleftrightarrow> (bn_val e x < 0) \<noteq> (bn_val e m < 0)"
    using val_sign [OF bn_ok_raw [OF assms(2)]] val_sign [OF bn_ok_raw [OF assms(3)]] by auto
  have "bi_t pm \<noteq> 0"
  proof
    assume "bi_t pm = 0"
    then have "bn_val e pm = 0" using pm(3) by (simp add: bn_val_def)
    then show False using pm(2) assms(4) by simp
  qed
  then obtain t where t: "bi_t pm = Suc t" using not0_implies_Suc by blast
  show ?thesis
  proof (cases "bi_t pt < bi_t pm")
    case True
    have run: "divRemTo e x m q r = Some (map_option (fromInt e 0) q, map_option (copyTo x) r)"
      unfolding divRemTo_def Let_def p [symmetric] using True t by simp
    have lt: "\<bar>bn_val e x\<bar> < \<bar>bn_val e m\<bar>" using longer_is_larger [OF pm(1) pt(1) _ True] pm pt by simp
    then have "\<bar>bn_val e x\<bar> div \<bar>bn_val e m\<bar> = 0" "sgn (bn_val e x) * (\<bar>bn_val e x\<bar> mod \<bar>bn_val e m\<bar>) = bn_val e x"
      by (simp_all add: sgn_mult_abs)
    then show ?thesis unfolding run using copyTo_val [of e x] assms(2) fromInt_zero by (auto simp: delivers_def)
  next
    case False
    then have tpt: "Suc t \<le> bi_t pt" using t by simp
    define n where "n = dbits e - nbits (bi_d pm t)"
    define r0 where "r0 = (case r of None \<Rightarrow> nbi | Some r \<Rightarrow> r)"
    define y where "y = (if 0 < n then lShiftTo e pm n nbi else copyTo pm nbi)"
    define r1 where "r1 = (if 0 < n then lShiftTo e pt n r0 else copyTo pt r0)"
    have y: "bn_ok e y" "bn_val e y = bn_val e pm * 2 ^ n"
      using lShiftTo_spec [OF bn_ok_raw [OF pm(1)], of n nbi] copyTo_val [of e pm nbi] pm(1) by (auto simp: y_def)
    have r1: "bn_ok e r1" "bn_val e r1 = bn_val e pt * 2 ^ n"
      using lShiftTo_spec [OF bn_ok_raw [OF pt(1)], of n r0] copyTo_val [of e pt r0] pt(1) by (auto simp: r1_def)
    note norm = normalised [OF pm(1,3) t n_def y]
    have pos: "0 < bn_val e pm" "0 \<le> bn_val e pt" using pm(2) pt(2) assms(4) by simp_all
    then have ypos: "0 < bn_val e y" using y(2) by simp
    have y0: "bi_d y t \<noteq> 0" using norm(3) zero_less_power [of "2 :: int" "dbits e - 1"] by (auto simp del: zero_less_power)
    have "0 \<le> bn_val e r1" unfolding r1(2) using pos(2) by (intro mult_nonneg_nonneg) simp_all
    then have rs: "bi_s r1 = 0" using val_sign [OF bn_ok_raw [OF r1(1)]] by simp
    have "base e ^ (bi_t pt - 1) \<le> bn_val e pt" using tpt by (intro val_length(1) [OF pt(1) _ pt(3)]) simp
    moreover have "bn_val e pt * 1 \<le> bn_val e pt * 2 ^ n" using pos(2) by (intro mult_left_mono) simp_all
    moreover have "bn_val e r1 < base e ^ bi_t r1" using val_bounds(1) [OF bn_ok_raw [OF r1(1)] rs] by simp
    ultimately have "base e ^ (bi_t pt - 1) < base e ^ bi_t r1" using r1(2) by linarith
    then have "bi_t pt - 1 < bi_t r1" using base_bounds(4) [of e] power_less_imp_less_exp by blast
    then have "bi_t r1 = bi_t r1 - Suc t + Suc t" using tpt by simp
    then obtain j where j: "bi_t r1 = j + Suc t" by blast
    define t1 where "t1 = dLShiftTo y (int j) (case q of None \<Rightarrow> nbi | Some q \<Rightarrow> q)"
    define r2 where "r2 = (if 0 \<le> compareTo r1 t1 then let r' = r1\<lparr>bi_d := (bi_d r1)(bi_t r1 := 1), bi_t := Suc (bi_t r1)\<rparr> in subTo e r' t1 r' else r1)"
    from first_step [OF y(1) norm(2,1,4,5) r1(1) rs j t1_def r2_def]
    obtain T where start: "dividing e (Suc t) (bn_val e y) (bn_val e r1) T j r2" by blast
    define t2 where "t2 = dLShiftTo (ONE e) (int (Suc t)) t1"
    define y1 where "y1 = pad (Suc t) (subTo e t2 y y)"
    have comp: "complement_of e (Suc t) (bn_val e y) y1" unfolding y1_def t2_def by (rule complement [OF y(1) norm(2,1) ypos norm(4)])
    define d1 d2 where dd: "d1 = fl (FV / of_int (divisor_top e y))" "d2 = fl (of_int (js_shl 1 (F1 e)) / of_int (divisor_top e y))"
    note est = estimates_hold [OF assms(1) bn_ok_raw [OF y(1)] norm(2,1,3), folded dd]
    from div_loop_spec [OF comp est ypos less_imp_le [OF norm(4)] start]
    obtain r3 t3 where loop: "div_loop e (bi_d y t) d1 d2 y1 (Suc t) (j + Suc t) j (r2, t2) = Some (r3, t3)"
      and fin: "dividing e (Suc t) (bn_val e y) (bn_val e r1) T 0 r3" by blast
    note f = fin [unfolded dividing_def, simplified]
    define q' where "q' = dRShiftTo r3 (Suc t) t3"
    define q1 where "q1 = (if bi_s x \<noteq> bi_s m then subTo e (ZERO e) q' q' else q')"
    define r4 where "r4 = clamp e (r3\<lparr>bi_t := Suc t\<rparr>)"
    define r5 where "r5 = (if 0 < n then rShiftTo e r4 n r4 else r4)"
    define r6 where "r6 = (if bi_s x < 0 then subTo e (ZERO e) r5 r5 else r5)"
    have pair: "(if 0 < n then (lShiftTo e pm n nbi, lShiftTo e pt n r0) else (copyTo pm nbi, copyTo pt r0)) = (y, r1)"
      by (simp add: y_def r1_def)
    have ij: "int (j + Suc t) - int (Suc t) = int j" "nat (int j) = j" "Suc t \<noteq> 0" "Suc t - 1 = t" by simp_all
    have r2': "r2 = (if 0 \<le> compareTo r1 t1 then subTo e (r1\<lparr>bi_d := (bi_d r1)(j + Suc t := 1), bi_t := Suc (j + Suc t)\<rparr>) t1
        (r1\<lparr>bi_d := (bi_d r1)(j + Suc t := 1), bi_t := Suc (j + Suc t)\<rparr>) else r1)"
      by (simp only: r2_def Let_def j)
    have run: "divRemTo e x m q r = Some (map_option (\<lambda>_. q1) q, map_option (\<lambda>_. r6) r)"
      unfolding divRemTo_def p [symmetric] using False y0
      by (simp only: Let_def t ij(3,4) if_False n_def [symmetric] r0_def [symmetric] pair prod.case norm(1) j ij(1,2) dd [symmetric]
          t1_def [symmetric] r2' [symmetric] t2_def [symmetric] y1_def [symmetric] loop bind.bind_lunit split_def fst_conv snd_conv
          q'_def [symmetric] q1_def [symmetric] r4_def [symmetric] r5_def [symmetric] r6_def [symmetric])
    define high low where hl: "high = dsum e (\<lambda>k. bi_d r3 (Suc t + k)) (T - Suc t)" "low = dsum e (bi_d r3) (Suc t)"
    have V: "\<bar>bn_val e x\<bar> * 2 ^ n = high * (\<bar>bn_val e m\<bar> * 2 ^ n) + low" "low < \<bar>bn_val e m\<bar> * 2 ^ n"
      using f r1(2) y(2) pm(2) pt(2) by (simp_all add: hl)
    have ok: "digits_ok e (bi_d r3) (Suc t)" using f digits_ok_mono by blast
    then have low: "0 \<le> low" "low < base e ^ Suc t" using dsum_bounds by (simp_all only: hl)
    have "0 < \<bar>bn_val e m\<bar>" using assms(4) by simp
    note parts = scaled_parts [OF abs_ge_zero this V(1) low(1) V(2)]
    have raw3: "bn_raw e r3" using f by (auto simp: bn_raw_def)
    have T: "Suc t + (T - Suc t) = T" using f by simp
    have "dsum e (bi_d r3) (Suc t + (T - Suc t)) = low + base e ^ Suc t * high" unfolding dsum_split by (simp only: hl)
    then have "bn_val e r3 = low + high * base e ^ Suc t" using f unfolding T by (auto simp: bn_val_def)
    then have "bn_val e r3 div base e ^ Suc t = high" using low by simp
    then have q': "bn_raw e q'" "bn_val e q' = high" unfolding q'_def using dRShift_spec [OF raw3] by simp_all
    have okq: "bn_ok e q'"
    proof (cases "Suc t < T")
      case True
      then have "bi_d r3 (T - 1) \<noteq> 0" "Suc (T - 2) = T - 1" using f by simp_all
      then show ?thesis using True q'(1) f by (auto simp: bn_ok_def bn_raw_def q'_def dRShift_digits)
    next
      case False
      then show ?thesis using q'(1) f by (auto simp: bn_ok_def bn_raw_def q'_def dRShift_digits)
    qed
    have q1: "bn_ok e q1" "bn_val e q1 = sgn (bn_val e x) * sgn (bn_val e m) * (\<bar>bn_val e x\<bar> div \<bar>bn_val e m\<bar>)"
      using okq q' subTo_negate [OF q'(1), of q'] quotient_sign [OF assms(4), of "\<bar>bn_val e m\<bar>" "bn_val e x"] assms(4)
      unfolding q1_def sx(2) parts(1) by (simp_all split: if_splits)
    have "bn_raw e (r3\<lparr>bi_t := Suc t\<rparr>)" "bn_val e (r3\<lparr>bi_t := Suc t\<rparr>) = low" using f ok by (simp_all add: bn_raw_def bn_val_def hl)
    then have r4: "bn_ok e r4" "bn_val e r4 = low" using clamp_spec [of e "r3\<lparr>bi_t := Suc t\<rparr>"] by (simp_all add: r4_def)
    have r5: "bn_ok e r5" "bn_val e r5 = \<bar>bn_val e x\<bar> mod \<bar>bn_val e m\<bar>"
      using rShiftTo_spec [OF bn_ok_raw [OF r4(1)], of n r4] r4 parts(2) by (auto simp: r5_def)
    have "bn_ok e r6" "bn_val e r6 = sgn (bn_val e x) * (\<bar>bn_val e x\<bar> mod \<bar>bn_val e m\<bar>)"
      using r5 subTo_negate [OF bn_ok_raw [OF r5(1)], of r5] remainder_sign [of "bn_val e x" "\<bar>bn_val e m\<bar>"]
      unfolding r6_def sx(1) by (simp_all split: if_splits)
    with q1 run show ?thesis by (auto simp: delivers_def)
  qed
qed

end
