(* ===== verification/MontgomeryProofs.thy ===== *)
theory MontgomeryProofs
  imports DivisionProofs
begin

text \<open>Remainders, and Montgomery's reduction: it divides by a power of the base without estimating digits.\<close>

section \<open>Remainders\<close>

lemma delivers_Some: "delivers e v (Some b) q' \<Longrightarrow> \<exists>b'. q' = Some b' \<and> bn_ok e b' \<and> bn_val e b' = v"
  by (cases q') (auto simp: delivers_def)

lemma delivers_None: "delivers e v None q' \<Longrightarrow> q' = None"
  by (simp add: delivers_def)

theorem bn_mod_spec:
  assumes "e \<noteq> AM1" "bn_ok e x" "bn_ok e m" "0 < bn_val e m"
  shows "\<exists>r. bn_mod e x m = Some r \<and> bn_ok e r \<and> bn_val e r = bn_val e x mod bn_val e m"
proof -
  note abs = abs_spec [OF assms(2)]
  have "bn_val e m \<noteq> 0" using assms(4) by simp
  from divRemTo_spec [OF assms(1) abs(1) assms(3) this, of None "Some nbi"] obtain r where
    r: "divRemTo e (bn_abs e x) m None (Some nbi) = Some (None, Some r)" "bn_ok e r"
      "bn_val e r = sgn \<bar>bn_val e x\<bar> * (\<bar>bn_val e x\<bar> mod \<bar>bn_val e m\<bar>)"
    using delivers_Some delivers_None unfolding abs(2) by (metis abs_abs)
  have rv: "bn_val e r = \<bar>bn_val e x\<bar> mod bn_val e m" using r(3) assms(4) by (cases "bn_val e x = 0") simp_all
  note sub = subTo_spec [OF bn_ok_raw [OF assms(3)] bn_ok_raw [OF r(2)], of r]
  have cmp: "0 < compareTo r (ZERO e) \<longleftrightarrow> 0 < bn_val e r" using compareTo_order(2) [OF r(2) ZERO_spec(1)] by simp
  have sx: "bi_s x < 0 \<longleftrightarrow> bn_val e x < 0" using val_sign [OF bn_ok_raw [OF assms(2)]] by auto
  have neg: "(- v) mod m = (if v mod m = 0 then 0 else m - v mod m)" for v m :: int by (rule zmod_zminus1_eq_if)
  have nn: "0 \<le> bn_val e r" using rv assms(4) by simp
  show ?thesis
  proof (cases "bn_val e x < 0 \<and> 0 < bn_val e r")
    case True
    then have "bn_val e (subTo e m r r) = bn_val e x mod bn_val e m"
      using neg [of "- bn_val e x" "bn_val e m"] sub(2) rv by (simp split: if_splits)
    then show ?thesis using True sub(1) r(1) cmp sx by (simp add: bn_mod_def remainder_of_def Let_def)
  next
    case False
    then have "bn_val e r = bn_val e x mod bn_val e m"
      using neg [of "- bn_val e x" "bn_val e m"] rv nn by (cases "bn_val e x < 0") (simp_all split: if_splits)
    then show ?thesis using False r(1,2) cmp sx by (auto simp: bn_mod_def remainder_of_def Let_def)
  qed
qed

theorem bn_divide_spec:
  assumes "e \<noteq> AM1" "bn_ok e x" "bn_ok e m" "bn_val e m \<noteq> 0"
  shows "\<exists>q. bn_divide e x m = Some q \<and> bn_ok e q \<and>
    bn_val e q = sgn (bn_val e x) * sgn (bn_val e m) * (\<bar>bn_val e x\<bar> div \<bar>bn_val e m\<bar>)"
proof -
  from divRemTo_spec [OF assms, of "Some nbi" None] obtain q where
    "divRemTo e x m (Some nbi) None = Some (Some q, None)" "bn_ok e q"
    "bn_val e q = sgn (bn_val e x) * sgn (bn_val e m) * (\<bar>bn_val e x\<bar> div \<bar>bn_val e m\<bar>)"
    using delivers_Some delivers_None by metis
  then show ?thesis by (simp add: bn_divide_def)
qed

section \<open>The inverse of the lowest digit\<close>

lemma double_inverse:
  fixes x y N M w y' :: int
  assumes "N dvd x * y - 1" "M dvd N * N" "M dvd w - x * y" "M dvd y' - y * (2 - w)"
  shows "M dvd x * y' - 1"
proof -
  have "x * y' - 1 = x * (y' - y * (2 - w)) - (x * y - 1) * (x * y - 1) - x * y * (w - x * y)" by (simp add: algebra_simps)
  moreover have "M dvd (x * y - 1) * (x * y - 1)" using assms(1,2) by (meson dvd_trans mult_dvd_mono)
  ultimately show ?thesis using assms(3,4) by (simp add: dvd_diff dvd_mult)
qed

lemma num_product: "\<bar>a\<bar> \<le> A \<Longrightarrow> \<bar>b\<bar> \<le> B \<Longrightarrow> A * B < 2 ^ 53 \<Longrightarrow> num (a * b) = a * b"
proof -
  assume "\<bar>a\<bar> \<le> A" "\<bar>b\<bar> \<le> B" "A * B < 2 ^ 53"
  moreover from this have "0 \<le> A" by linarith
  ultimately have "\<bar>a * b\<bar> < 2 ^ 53" using mult_mono [of "\<bar>a\<bar>" A "\<bar>b\<bar>" B] unfolding abs_mult by linarith
  then show "num (a * b) = a * b" by simp
qed

lemma two_minus: "\<bar>2 - a * b\<bar> \<le> A * B + 2" if "0 \<le> a" "a \<le> A" "0 \<le> b" "b \<le> (B :: int)"
proof -
  have "0 \<le> a * b" "a * b \<le> A * B" using that by (simp, intro mult_mono) simp_all
  then show ?thesis by linarith
qed

lemma js_rem_dvd: "m dvd js_rem v m - v"
proof -
  have "m dvd \<bar>v\<bar> mod \<bar>m\<bar> - \<bar>v\<bar>" by (metis abs_dvd_iff dvd_refl dvd_minus_mod dvd_diff_commute)
  then have "m dvd sgn v * (\<bar>v\<bar> mod \<bar>m\<bar> - \<bar>v\<bar>)" by simp
  moreover have "sgn v * (\<bar>v\<bar> mod \<bar>m\<bar> - \<bar>v\<bar>) = js_rem v m - v" by (simp add: js_rem_def right_diff_distrib sgn_mult_abs)
  ultimately show ?thesis by simp
qed

lemma js_rem_bound: "0 < m \<Longrightarrow> \<bar>js_rem v m\<bar> < m"
  by (simp add: js_rem_def abs_mult abs_sgn_eq)

lemma js_rem_mod: "0 \<le> v \<Longrightarrow> 0 < m \<Longrightarrow> js_rem v m = v mod m"
  by (cases "v = 0") (simp_all add: js_rem_def)

lemma mask_bits: "js_and v 1 = v mod 2" "js_and v 3 = v mod 4" "js_and v 15 = v mod 16" "js_and v 255 = v mod 256"
  "js_and v 65535 = v mod 65536" "js_and v 32767 = v mod 32768"
  using js_and_mask [of 1 v] js_and_mask [of 2 v] js_and_mask [of 4 v] js_and_mask [of 8 v] js_and_mask [of 16 v] js_and_mask [of 15 v]
  by simp_all

lemma mod_below: "0 < k \<Longrightarrow> k dvd v mod k - (v :: int)"
  by (metis dvd_minus_mod dvd_diff_commute)

lemma times_mod: "k dvd (x mod k) * y - x * (y :: int)" if "0 < k"
  using dvd_mult2 [OF mod_below [OF that, of x], of y] by (simp add: left_diff_distrib)

theorem invDigit_spec:
  assumes "0 < bi_t b" "odd (bi_d b 0)" "0 \<le> bi_d b 0" "bi_d b 0 < base e"
  shows "base e dvd bi_d b 0 * invDigit e b + 1" "0 \<le> invDigit e b" "invDigit e b < base e"
proof -
  define x y1 where d1: "x = bi_d b 0" "y1 = x mod 4"
  define y2 where "y2 = (y1 * (2 - x mod 16 * y1)) mod 16"
  define y3 where "y3 = (y2 * (2 - x mod 256 * y2)) mod 256"
  define y4 where "y4 = (y3 * (2 - x mod 65536 * y3 mod 65536)) mod 65536"
  define y5 where "y5 = js_rem (y4 * (2 - x * y4 mod base e)) (base e)"
  have x: "odd x" "0 \<le> x" "x < base e" "x \<le> 2 ^ 30" using assms base_bounds(2) [of e] by (simp_all add: d1)
  have "y1 = 1 \<or> y1 = 3" using x(1) unfolding d1(2) by presburger
  moreover have "4 dvd y1 - x" unfolding d1(2) by (rule mod_below) simp
  ultimately have i1: "4 dvd x * y1 - 1" by presburger
  have i2: "16 dvd x * y2 - 1"
    by (rule double_inverse [OF i1 _ times_mod]) (simp_all add: y2_def mod_below)
  have i3: "256 dvd x * y3 - 1"
    by (rule double_inverse [OF i2 _ times_mod]) (simp_all add: y3_def mod_below)
  have i4: "65536 dvd x * y4 - 1"
  proof (rule double_inverse [OF i3])
    have "65536 dvd x mod 65536 * y3 mod 65536 - x mod 65536 * y3" "65536 dvd x mod 65536 * y3 - x * y3" by (intro mod_below times_mod; simp)+
    from dvd_add [OF this] show "65536 dvd x mod 65536 * y3 mod 65536 - x * y3" by simp
  qed (simp_all add: y4_def mod_below)
  have "base e dvd 2 ^ 32" using dbits_bounds [of e] by (intro le_imp_power_dvd) simp
  then have i5: "base e dvd x * y5 - 1"
    by (intro double_inverse [OF i4 _ mod_below]) (simp_all add: y5_def js_rem_dvd)
  have b: "0 \<le> y1" "y1 < 4" "0 \<le> y2" "y2 < 16" "0 \<le> y3" "y3 < 256" "0 \<le> y4" "y4 < 65536"
    by (simp_all add: d1 y2_def y3_def y4_def)
  have m: "0 \<le> x mod k" "x mod k < k" if "0 < k" for k using that by simp_all
  have n2: "num (x mod 16 * y1) = x mod 16 * y1" using m [of 16] b by (intro num_product [of _ 16 _ 4]) simp_all
  have p2: "\<bar>2 - x mod 16 * y1\<bar> \<le> 16 * 4 + 2" using m [of 16] b by (intro two_minus) simp_all
  have n3: "num (x mod 256 * y2) = x mod 256 * y2" using m [of 256] b by (intro num_product [of _ 256 _ 16]) simp_all
  have p3: "\<bar>2 - x mod 256 * y2\<bar> \<le> 256 * 16 + 2" using m [of 256] b by (intro two_minus) simp_all
  have n4: "num (x mod 65536 * y3) = x mod 65536 * y3" using m [of 65536] b by (intro num_product [of _ 65536 _ 256]) simp_all
  have p4: "\<bar>2 - x mod 65536 * y3 mod 65536\<bar> \<le> 65536" 
    unfolding abs_le_iff using pos_mod_bound [of 65536 "x mod 65536 * y3"] pos_mod_sign [of 65536 "x mod 65536 * y3"] by linarith
  have n5: "num (x * y4) = x * y4" using x b by (intro num_product [of _ "2 ^ 30" _ 65536]) simp_all
  have q5: "js_rem (x * y4) (base e) = x * y4 mod base e" using x(2) b by (intro js_rem_mod) simp_all
  have p5: "\<bar>2 - x * y4 mod base e\<bar> \<le> 2 ^ 30"
    unfolding abs_le_iff using pos_mod_bound [of "base e" "x * y4"] pos_mod_sign [of "base e" "x * y4"] base_bounds [of e] by linarith
  have inv: "invDigit e b = (if 0 < y5 then base e - y5 else - y5)"
  proof -
    have s2: "num (2 - x mod 16 * y1) = 2 - x mod 16 * y1" "num (y1 * (2 - x mod 16 * y1)) = y1 * (2 - x mod 16 * y1)"
      using p2 b by (simp, intro num_product [of _ 4 _ "16 * 4 + 2"]) simp_all
    have s3: "num (2 - x mod 256 * y2) = 2 - x mod 256 * y2" "num (y2 * (2 - x mod 256 * y2)) = y2 * (2 - x mod 256 * y2)"
      using p3 b by (simp, intro num_product [of _ 16 _ "256 * 16 + 2"]) simp_all
    have s4: "num (y3 * (2 - x mod 65536 * y3 mod 65536)) = y3 * (2 - x mod 65536 * y3 mod 65536)"
      using p4 b by (intro num_product [of _ 256 _ 65536]) simp_all
    have s5: "num (y4 * (2 - x * y4 mod base e)) = y4 * (2 - x * y4 mod base e)"
      using p5 b by (intro num_product [of _ 65536 _ "2 ^ 30"]) simp_all
    have "x mod 2 \<noteq> 0" using x(1) by presburger
    then show ?thesis
      unfolding invDigit_def d1(1) [symmetric] Let_def mask_bits DV_base d1(2) [symmetric] n2 s2 y2_def [symmetric] n3 s3 y3_def [symmetric]
        n4 s4 y4_def [symmetric] n5 q5 s5 y5_def [symmetric] using assms(1) by simp
  qed
  have y5: "\<bar>y5\<bar> < base e" unfolding y5_def by (rule js_rem_bound) simp
  have "y5 \<noteq> 0" using i5 base_bounds(4) [of e] by (auto dest: zdvd_imp_le)
  then show "0 \<le> invDigit e b" "invDigit e b < base e" using y5 by (simp_all add: inv abs_less_iff)
  show "base e dvd bi_d b 0 * invDigit e b + 1"
  proof (cases "0 < y5")
    case True
    have "base e dvd x * base e - (x * y5 - 1)" by (rule dvd_diff [OF dvd_triv_right i5])
    then show ?thesis using True by (simp add: inv d1 algebra_simps)
  next
    case False
    have "base e dvd - (x * y5 - 1)" using i5 by (simp only: dvd_minus_iff)
    then show ?thesis using False by (simp add: inv d1 algebra_simps)
  qed
qed

section \<open>The digits of the reduction\<close>

lemma reduction_digit_spec:
  assumes "z = new_Montgomery e m" "0 \<le> invDigit e m" "invDigit e m < base e" "0 \<le> xi" "xi < base e"
  shows "base e dvd reduction_digit e z xi - xi * invDigit e m" "0 \<le> reduction_digit e z xi" "reduction_digit e z xi < base e"
proof -
  define mp j h l k where d: "mp = invDigit e m" "j = xi mod 2 ^ 15" "h = xi div 2 ^ 15" "l = mp mod 2 ^ 15" "k = mp div 2 ^ 15"
  define v where "v = j * k + h * l"
  define w where "w = v mod 2 ^ (dbits e - 15)"
  have small: "xi < 2 ^ 30" "mp < 2 ^ 30" "0 \<le> mp" using assms base_bounds(2) [of e] by (simp_all add: d)
  have b: "0 \<le> j" "j < 2 ^ 15" "0 \<le> l" "l < 2 ^ 15" "0 \<le> h" "h < 2 ^ 15" "0 \<le> k" "k < 2 ^ 15"
    using small assms(4) by (simp_all add: d pos_imp_zdiv_nonneg_iff div_less_if)
  have prod: "0 \<le> a * c \<and> a * c \<le> 2 ^ 30" if "0 \<le> a" "a < 2 ^ 15" "0 \<le> c" "c < 2 ^ 15" for a c :: int
    using mult_mono [of a "2 ^ 15" c "2 ^ 15"] that by simp
  note pr = prod [OF b(1,2,3,4)] prod [OF b(1,2,7,8)] prod [OF b(5,6,3,4)]
  have parts: "mo_mpl z = l" "mo_mph z = k" "mo_um z = 2 ^ (dbits e - 15) - 1"
    using small dbits_bounds [of e] js_shl_mult [of 1 "dbits e - 15"] power_strict_increasing [of "dbits e - 15" 31 "2 :: int"] zero_le_power [of "2 :: int" "dbits e - 15"]
    by (simp_all add: assms(1) new_Montgomery_def Let_def d mask_bits js_shr_div del: zero_le_power)
  have w: "0 \<le> w" "w < 2 ^ (dbits e - 15)" by (simp_all add: w_def)
  have pd: "(2 :: int) ^ dbits e = 2 ^ (dbits e - 15) * 2 ^ 15" unfolding power_add [symmetric] using dbits_bounds [of e] by simp
  have "w * 2 ^ 15 < 2 ^ (dbits e - 15) * 2 ^ 15" using w by (intro mult_strict_right_mono) simp_all
  then have wb: "0 \<le> w * 2 ^ 15" "w * 2 ^ 15 < 2 ^ 30" using w base_bounds(2) [of e] unfolding pd by simp_all
  have shl: "js_shl (js_and (num (num (j * k) + num (h * l))) (mo_um z)) 15 = w * 2 ^ 15"
  proof -
    have "num (num (j * k) + num (h * l)) = v" using pr by (simp add: v_def)
    then show ?thesis using wb dbits_bounds [of e] by (simp add: parts(3) js_and_mask w_def [symmetric] js_shl_mult)
  qed
  have u: "reduction_digit e z xi = (j * l + w * 2 ^ 15) mod base e"
  proof -
    have "js_and xi 32767 = j" "js_shr xi 15 = h" using small assms(4) by (simp_all add: d mask_bits js_shr_div)
    moreover have "num (num (j * l) + w * 2 ^ 15) = j * l + w * 2 ^ 15" using pr wb by simp
    ultimately show ?thesis unfolding reduction_digit_def Let_def by (simp only: parts(1,2) shl and_DM)
  qed
  show "0 \<le> reduction_digit e z xi" "reduction_digit e z xi < base e" by (simp_all add: u)
  have xm: "xi * mp = (j + h * 2 ^ 15) * (l + k * 2 ^ 15)" by (simp add: d)
  have f1: "base e dvd (w - v) * 2 ^ 15" unfolding pd w_def by (intro mult_dvd_mono mod_below) simp_all
  have "base e dvd 2 ^ 30" using dbits_bounds [of e] by (intro le_imp_power_dvd) simp
  then have f2: "base e dvd h * k * 2 ^ 30" by (rule dvd_mult)
  have f3: "base e dvd reduction_digit e z xi - (j * l + w * 2 ^ 15)" unfolding u by (rule mod_below) simp
  have "base e dvd (reduction_digit e z xi - (j * l + w * 2 ^ 15)) + (w - v) * 2 ^ 15 - h * k * 2 ^ 30" by (rule dvd_diff [OF dvd_add [OF f3 f1] f2])
  then show "base e dvd reduction_digit e z xi - xi * invDigit e m" unfolding d(1) [symmetric] xm v_def by (simp add: algebra_simps)
qed

section \<open>Carries\<close>

lemma propagate_spec:
  assumes "j < n" "\<And>k. k < n \<Longrightarrow> k \<noteq> j \<Longrightarrow> 0 \<le> d k \<and> d k < base e" "0 \<le> d j" "d j < 2 * base e" "dsum e d n < base e ^ n"
  shows "\<exists>d'. propagate e j d = Some d' \<and> digits_ok e d' n \<and> dsum e d' n = dsum e d n \<and> (\<forall>k < j. d' k = d k)"
  using assms
proof (induction "n - j" arbitrary: j d)
  case (Suc c)
  show ?case
  proof (cases "base e \<le> d j")
    case False
    then have "0 \<le> d k \<and> d k < base e" if "k < n" for k using Suc.prems(2,3) that by (cases "k = j") simp_all
    then have "digits_ok e d n" by (rule digits_okI)
    then show ?thesis using False by (subst propagate.simps) (simp add: DV_base)
  next
    case True
    have sum: "dsum e d n = dsum e d j + base e ^ j * dsum e (\<lambda>k. d (j + k)) (n - j)" for d
      using dsum_split [of e d j "n - j"] Suc.prems(1) by simp
    have "digits_ok e d j" using Suc.prems(1,2) by (simp add: digits_ok_def)
    note low = dsum_bounds [OF this]
    have next_: "Suc j < n"
    proof (rule ccontr)
      assume "\<not> Suc j < n"
      then have n: "n = Suc j" using Suc.prems(1) by simp
      have "base e * base e ^ j \<le> d j * base e ^ j" using True by (intro mult_right_mono) simp_all
      moreover have "dsum e d j + d j * base e ^ j < base e * base e ^ j" using Suc.prems(5) by (simp add: n dsum_Suc)
      ultimately show False using low by linarith
    qed
    define d' where "d' = d(j := d j - base e, Suc j := d (Suc j) + 1)"
    have nj: "n - j = Suc (Suc (n - Suc (Suc j)))" using next_ by simp
    have "dsum e (\<lambda>k. d' (j + k)) (n - j) = dsum e (\<lambda>k. d (j + k)) (n - j)"
      unfolding nj dsum_first by (simp add: d'_def algebra_simps)
    moreover have "dsum e d' j = dsum e d j" by (rule dsum_cong) (simp add: d'_def)
    ultimately have same: "dsum e d' n = dsum e d n" unfolding sum by simp
    have "d (Suc j) < base e" "0 \<le> d (Suc j)" using Suc.prems(2) [OF next_] by simp_all
    moreover have "d j - base e < base e" using Suc.prems(4) by simp
    ultimately have ok: "0 \<le> d' k \<and> d' k < base e" if "k < n" "k \<noteq> Suc j" for k
      using that True Suc.prems(2,3) by (simp add: d'_def)
    have top: "0 \<le> d' (Suc j)" "d' (Suc j) < 2 * base e"
      using \<open>d (Suc j) < base e\<close> \<open>0 \<le> d (Suc j)\<close> base_bounds(4) [of e] by (simp_all add: d'_def)
    have "c = n - Suc j" using Suc(2) by simp
    from Suc(1) [OF this next_, of d'] ok top same Suc.prems(5) obtain d2 where
      d2: "propagate e (Suc j) d' = Some d2" "digits_ok e d2 n" "dsum e d2 n = dsum e d n" "\<forall>k < Suc j. d2 k = d' k" by auto
    have "propagate e j d = Some d2" using True d2(1) by (subst propagate.simps) (simp add: DV_base d'_def)
    moreover have "\<forall>k < j. d2 k = d k" using d2(4) by (simp add: d'_def)
    ultimately show ?thesis using d2 by blast
  qed
qed simp

section \<open>The reduction\<close>

text \<open>Moduli are positive and odd.\<close>

definition modulus :: "am_engine \<Rightarrow> bigint \<Rightarrow> bool" where
  "modulus e m \<longleftrightarrow> bn_ok e m \<and> 0 < bn_val e m \<and> odd (bn_val e m)"

lemma modulusD:
  assumes "modulus e m"
  shows "bn_ok e m" "bi_s m = 0" "0 < bi_t m" "odd (bi_d m 0)" "0 \<le> bi_d m 0" "bi_d m 0 < base e" "base e dvd bn_val e m - bi_d m 0"
    "0 < bn_val e m" "bn_val e m < base e ^ bi_t m" "digits_ok e (bi_d m) (bi_t m)" "dsum e (bi_d m) (bi_t m) = bn_val e m"
proof -
  show ok: "bn_ok e m" "0 < bn_val e m" using assms by (simp_all add: modulus_def)
  note raw = bn_ok_raw [OF ok(1)]
  show s: "bi_s m = 0" using val_sign [OF raw] ok(2) by simp
  show v: "dsum e (bi_d m) (bi_t m) = bn_val e m" "bn_val e m < base e ^ bi_t m" using s val_bounds(1) [OF raw] by (simp_all add: bn_val_def)
  show t: "0 < bi_t m" using v(1) ok(2) by (cases "bi_t m") simp_all
  show "digits_ok e (bi_d m) (bi_t m)" using raw by (simp add: bn_raw_def)
  show "0 \<le> bi_d m 0" "bi_d m 0 < base e" using raw_digit [OF raw t] by simp_all
  obtain n where "bi_t m = Suc n" using t by (cases "bi_t m") simp_all
  then have eq: "bn_val e m = bi_d m 0 + base e * dsum e (\<lambda>i. bi_d m (Suc i)) n" using v(1) by (simp add: dsum_first)
  then show "base e dvd bn_val e m - bi_d m 0" by simp
  have "even (base e)" using dbits_bounds [of e] by simp
  then show "odd (bi_d m 0)" using assms eq by (simp add: modulus_def)
qed

definition reducing :: "am_engine \<Rightarrow> int \<Rightarrow> int \<Rightarrow> nat \<Rightarrow> nat \<Rightarrow> digits \<Rightarrow> bool" where
  "reducing e M V n i d \<longleftrightarrow> digits_ok e d n \<and> base e ^ i dvd dsum e d n \<and>
     (\<exists>U. 0 \<le> U \<and> U < base e ^ i \<and> dsum e d n = V + M * U)"

lemma low_digits_zero:
  assumes "digits_ok e d n" "base e ^ i dvd dsum e d n" "i < n"
  shows "dsum e d n = base e ^ i * (d i + base e * dsum e (\<lambda>k. d (Suc i + k)) (n - Suc i))"
proof -
  define rest where "rest = dsum e (\<lambda>k. d (i + k)) (n - i)"
  have sum: "dsum e d n = dsum e d i + base e ^ i * rest" unfolding rest_def using dsum_split [of e d i "n - i"] assms(3) by simp
  have "base e ^ i dvd dsum e d i" using assms(2) unfolding sum by (simp add: dvd_add_left_iff)
  moreover have "digits_ok e d i" using assms(1,3) digits_ok_mono by simp
  note low = dsum_bounds [OF this]
  ultimately have "dsum e d i = 0" using zdvd_imp_le [of "base e ^ i" "dsum e d i"] by linarith
  moreover have "n - i = Suc (n - Suc i)" using assms(3) by simp
  then have "rest = d i + base e * dsum e (\<lambda>k. d (Suc i + k)) (n - Suc i)" unfolding rest_def by (simp only: dsum_first) simp
  ultimately show ?thesis using sum by simp
qed

lemma reduce_step:
  assumes "modulus e m" "z = new_Montgomery e m" "t = bi_t m" "n = 2 * t + 1" "0 \<le> V" "V < bn_val e m * base e ^ t" "i < t"
    "reducing e (bn_val e m) V n i d" "am e (bi_d m) 0 (reduction_digit e z (d i)) d i 0 t = (d1, c)"
  shows "\<exists>d2. propagate e (i + t) (d1(i + t := d (i + t) + c)) = Some d2 \<and> reducing e (bn_val e m) V n (Suc i) d2"
proof -
  define M u where d: "M = bn_val e m" "u = reduction_digit e z (d i)"
  note mo = modulusD [OF assms(1), folded d(1), folded assms(3)]
  obtain U where U: "0 \<le> U" "U < base e ^ i" "dsum e d n = V + M * U" and ok: "digits_ok e d n" and dvd: "base e ^ i dvd dsum e d n"
    using assms(8) by (auto simp: reducing_def d)
  have i: "i < n" "i + t < n" using assms(4,7) by simp_all
  have di: "0 \<le> d i" "d i < base e" using ok i digits_okD by simp_all
  note inv = invDigit_spec [OF mo(3) [unfolded assms(3)] mo(4-6)]
  note u = reduction_digit_spec [OF assms(2) inv(2,3) di, folded d(2)]
  have a: "digits_ok e (\<lambda>k. bi_d m (0 + k)) t" "digits_ok e (\<lambda>k. d (i + k)) t" using mo(10) ok i by (auto simp: digits_ok_def)
  have ub: "u \<le> 2 * base e - 2" "(0 :: int) \<le> 2 * base e - 2" "u \<le> base e" "0 \<le> base e" using u(3) base_bounds(4) [of e] by simp_all
  note am = am_spec [OF u(2) ub(1) a order_refl ub(2) assms(9) [folded d(2)]]
  have c: "0 \<le> c" "c \<le> base e" using am(4,6) ub by simp_all
  define d' where "d' = d1(i + t := d (i + t) + c)"
  have keep: "d1 k = d k" if "k < i \<or> i + t \<le> k" for k using kept_outsideD [OF am(2)] that by simp
  have ok1: "0 \<le> d' k \<and> d' k < base e" if "k < n" "k \<noteq> i + t" for k
    using that keep [of k] digits_okD [OF ok, of k] digits_okD [OF am(3), of "k - i"] by (cases "k < i \<or> i + t \<le> k") (auto simp: d'_def)
  have top: "0 \<le> d' (i + t)" "d' (i + t) < 2 * base e" using c digits_okD [OF ok i(2)] by (simp_all add: d'_def)
  have sum: "dsum e f n = dsum e f i + base e ^ i * (dsum e (\<lambda>k. f (i + k)) t + base e ^ t * (f (i + t) + base e * dsum e (\<lambda>k. f (Suc (i + t) + k)) (n - Suc (i + t))))" for f
  proof -
    have "n = i + (t + Suc (n - Suc (i + t)))" using i by simp
    then have "dsum e f n = dsum e f (i + (t + Suc (n - Suc (i + t))))" by simp
    then show ?thesis by (simp only: dsum_split dsum_first) (simp add: add.assoc)
  qed
  have parts: "dsum e d' i = dsum e d i" "dsum e (\<lambda>k. d' (i + k)) t = dsum e (\<lambda>k. d1 (i + k)) t"
    "dsum e (\<lambda>k. d' (Suc (i + t) + k)) (n - Suc (i + t)) = dsum e (\<lambda>k. d (Suc (i + t) + k)) (n - Suc (i + t))" "d' (i + t) = d (i + t) + c"
    by (rule dsum_cong, use keep in \<open>simp add: d'_def\<close>)+ (simp add: d'_def)
  have "dsum e (\<lambda>k. d1 (i + k)) t = dsum e (\<lambda>k. d (i + k)) t + u * M - c * base e ^ t"
    using am(1) mo(11) by (simp add: d(1) assms(3))
  then have new: "dsum e d' n = dsum e d n + u * M * base e ^ i"
    unfolding sum parts by (simp only:) (simp add: algebra_simps)
  define U' where "U' = U + u * base e ^ i"
  have "(u + 1) * base e ^ i \<le> base e * base e ^ i" using u(3) by (intro mult_right_mono) simp_all
  then have U': "0 \<le> U'" "U' < base e ^ Suc i" "dsum e d' n = V + M * U'"
    using U u(2) unfolding new by (simp_all add: U'_def algebra_simps)
  have "base e ^ Suc i \<le> base e ^ t" using assms(7) base_bounds(4) [of e] by (intro power_increasing) simp_all
  then have "M * U' \<le> M * base e ^ t" using U' mo(8) by (intro mult_left_mono) simp_all
  then have "dsum e d' n < 2 * (M * base e ^ t)" using U'(3) assms(6) by (simp add: d(1))
  also have "\<dots> \<le> base e * (base e ^ t * base e ^ t)" using mo(8,9) base_bounds(4) [of e] by (intro mult_mono) simp_all
  finally have "dsum e d' n < base e ^ n" by (simp add: assms(4) mult_2 power_add)
  from propagate_spec [OF i(2) ok1 top this] obtain d2 where
    d2: "propagate e (i + t) d' = Some d2" "digits_ok e d2 n" "dsum e d2 n = dsum e d' n" by blast
  have "base e dvd d i + u * M"
  proof -
    have "base e dvd d i * (bi_d m 0 * invDigit e m + 1)" using inv(1) by (rule dvd_mult)
    moreover have "base e dvd (u - d i * invDigit e m) * bi_d m 0" using u(1) by (rule dvd_mult2)
    moreover have "base e dvd u * (M - bi_d m 0)" using mo(7) by (rule dvd_mult)
    ultimately have "base e dvd d i * (bi_d m 0 * invDigit e m + 1) + (u - d i * invDigit e m) * bi_d m 0 + u * (M - bi_d m 0)" by (intro dvd_add)
    then show ?thesis by (simp add: algebra_simps)
  qed
  then have "base e dvd (d i + base e * dsum e (\<lambda>k. d (Suc i + k)) (n - Suc i)) + u * M"
    by (metis add.assoc add.commute dvd_add dvd_triv_left)
  then have "base e * base e ^ i dvd ((d i + base e * dsum e (\<lambda>k. d (Suc i + k)) (n - Suc i)) + u * M) * base e ^ i" by (rule mult_dvd_mono) simp
  then have "base e ^ Suc i dvd dsum e d' n" unfolding new low_digits_zero [OF ok dvd i(1)] by (simp add: algebra_simps)
  then show ?thesis using d2 U' by (auto simp: reducing_def d'_def d(1))
qed

lemma reduce_loop_spec:
  assumes "modulus e m" "z = new_Montgomery e m" "t = bi_t m" "n = 2 * t + 1" "0 \<le> V" "V < bn_val e m * base e ^ t" "i \<le> t"
    "reducing e (bn_val e m) V n i d"
  shows "\<exists>d'. reduce_loop e z [i..<t] d = Some d' \<and> reducing e (bn_val e m) V n t d'"
  using assms(7,8)
proof (induction "t - i" arbitrary: i d)
  case 0
  then show ?case by simp
next
  case (Suc k)
  then have lt: "i < t" by simp
  have mz: "mo_m z = m" by (simp add: assms(2) new_Montgomery_def Let_def)
  obtain d1 c where run: "am e (bi_d m) 0 (reduction_digit e z (d i)) d i 0 t = (d1, c)" by fastforce
  from reduce_step [OF assms(1-6) lt Suc.prems(2) run] obtain d2 where
    d2: "propagate e (i + t) (d1(i + t := d (i + t) + c)) = Some d2" "reducing e (bn_val e m) V n (Suc i) d2" by blast
  have "k = t - Suc i" "Suc i \<le> t" using Suc(2) lt by simp_all
  from Suc(1) [OF this d2(2)] show ?case
    using d2(1) run by (simp add: upt_conv_Cons [OF lt] mz assms(3) [symmetric] Let_def)
qed

lemma wide_enough:
  assumes "bn_ok e x" "0 \<le> bn_val e x" "bn_val e x < base e ^ n"
  shows "bi_t x \<le> n" "bi_s x = 0"
proof -
  show s: "bi_s x = 0" using val_sign [OF bn_ok_raw [OF assms(1)]] assms(2) by simp
  show "bi_t x \<le> n"
  proof (cases "bi_t x")
    case (Suc k)
    then have "base e ^ k < base e ^ n" using val_length(1) [OF assms(1) _ s] assms(3) by simp
    then show ?thesis using Suc base_bounds(4) [of e] power_less_imp_less_exp by (metis Suc_leI)
  qed simp
qed

text \<open>\<open>reduce\<close> divides by \<open>base ^ t\<close> modulo \<open>m\<close>.\<close>

theorem reduce_spec:
  assumes "modulus e m" "z = new_Montgomery e m" "bn_ok e x" "0 \<le> bn_val e x" "bn_val e x < bn_val e m * base e ^ bi_t m"
  shows "\<exists>r. reduce e z x = Some r \<and> bn_ok e r \<and> 0 \<le> bn_val e r \<and> bn_val e r < bn_val e m \<and>
    bn_val e m dvd bn_val e r * base e ^ bi_t m - bn_val e x"
proof -
  define t M n where d: "t = bi_t m" "M = bn_val e m" "n = 2 * t + 1"
  note mo = modulusD [OF assms(1), folded d]
  have mz: "mo_m z = m" "mo_mt2 z + 1 = n" by (simp_all add: assms(2) new_Montgomery_def Let_def d)
  have "M * base e ^ t \<le> base e ^ t * base e ^ t" using mo(9) by (intro mult_right_mono) simp_all
  also have "\<dots> = base e ^ (t + t)" by (simp only: power_add)
  finally have "bn_val e x < base e ^ (t + t)" using assms(5) unfolding d by linarith
  note wide = wide_enough [OF assms(3,4) this]
  define x1 where "x1 = pad n x"
  have "bi_t x \<le> n" using wide(1) by (simp add: d(3))
  note pad = pad_spec [OF bn_ok_raw [OF assms(3)] wide(2) this, folded x1_def]
  have d1: "digits_ok e (bi_d x1) n" "dsum e (bi_d x1) n = bn_val e x" using pad by (simp_all add: bn_raw_def bn_val_def)
  have "\<exists>U. 0 \<le> U \<and> U < (1 :: int) \<and> bn_val e x = bn_val e x + M * U" by (rule exI [of _ 0]) simp
  then have "reducing e M (bn_val e x) n 0 (bi_d x1)" using d1 by (simp add: reducing_def)
  from reduce_loop_spec [OF assms(1,2) d(1) d(3) assms(4) assms(5) [folded d(1)] le0 this [unfolded d(2)], folded d(2)]
  obtain d' where run: "reduce_loop e z [0..<t] (bi_d x1) = Some d'" and red: "reducing e M (bn_val e x) n t d'" by blast
  from red obtain U where U: "0 \<le> U" "U < base e ^ t" "dsum e d' n = bn_val e x + M * U" and ok: "digits_ok e d' n" and dvd: "base e ^ t dvd dsum e d' n"
    by (auto simp: reducing_def)
  define x2 where "x2 = clamp e (x1\<lparr>bi_d := d'\<rparr>)"
  have "bn_raw e (x1\<lparr>bi_d := d'\<rparr>)" "bn_val e (x1\<lparr>bi_d := d'\<rparr>) = bn_val e x + M * U" using pad ok U(3) by (simp_all add: bn_raw_def bn_val_def)
  then have x2: "bn_ok e x2" "bn_val e x2 = bn_val e x + M * U" using clamp_spec [of e "x1\<lparr>bi_d := d'\<rparr>"] by (simp_all add: x2_def)
  define x3 where "x3 = dRShiftTo x2 t x2"
  have x3: "bn_ok e x3" "bn_val e x3 = (bn_val e x + M * U) div base e ^ t" using dRShift_spec [OF bn_ok_raw [OF x2(1)]] x2 by (simp_all add: x3_def)
  have eq: "bn_val e x3 * base e ^ t = bn_val e x + M * U" using dvd unfolding U(3) x3(2) by simp
  have "0 \<le> M * U" using U(1) mo(8) by simp
  then have "0 \<le> bn_val e x3 * base e ^ t" unfolding eq using assms(4) by simp
  then have nn: "0 \<le> bn_val e x3" using mult_right_le_imp_le [of 0 "base e ^ t" "bn_val e x3"] by simp
  have "M * U \<le> M * base e ^ t" using U mo(8) by (intro mult_left_mono) simp_all
  then have "bn_val e x3 * base e ^ t < 2 * M * base e ^ t" unfolding eq using assms(5) by (simp add: d)
  then have up: "bn_val e x3 < 2 * M" by simp
  define r where "r = (if 0 \<le> compareTo x3 m then subTo e x3 m x3 else x3)"
  have red: "reduce e z x = Some r"
    unfolding reduce_def Let_def mz d(1) [symmetric] x1_def [symmetric] run by (simp add: x2_def x3_def r_def)
  note sub = subTo_spec [OF bn_ok_raw [OF x3(1)] bn_ok_raw [OF mo(1)], of x3, folded d]
  note cmp = compareTo_order(1) [OF x3(1) mo(1), folded d]
  show ?thesis
  proof (cases "M \<le> bn_val e x3")
    case True
    then have "bn_val e r = bn_val e x3 - M" using sub(2) cmp by (simp add: r_def)
    then have "bn_val e r * base e ^ t - bn_val e x = M * (U - base e ^ t)" using eq by (simp add: left_diff_distrib right_diff_distrib)
    then show ?thesis using True red cmp sub up by (simp add: r_def d [symmetric])
  next
    case False
    then have "bn_val e r * base e ^ t - bn_val e x = M * U" using cmp eq by (simp add: r_def)
    then show ?thesis using False red cmp x3(1) nn by (simp add: r_def d [symmetric])
  qed
qed

end
