(* ===== verification/ModPowProofs.thy ===== *)
theory ModPowProofs
  imports MontgomeryProofs
begin

text \<open>
  Modular powers: numbers are kept multiplied by a power of the base, the exponent is read in windows from the highest
  bit downwards.
\<close>

section \<open>Residues\<close>

text \<open>\<open>x\<close> stands for \<open>v\<close> modulo \<open>m\<close>.\<close>

definition residue :: "am_engine \<Rightarrow> bigint \<Rightarrow> int \<Rightarrow> bigint \<Rightarrow> bool" where
  "residue e m v x \<longleftrightarrow> bn_ok e x \<and> 0 \<le> bn_val e x \<and> bn_val e x < bn_val e m \<and> bn_val e m dvd bn_val e x - v * base e ^ bi_t m"

lemma residueD:
  assumes "residue e m v x"
  shows "bn_ok e x" "0 \<le> bn_val e x" "bn_val e x < bn_val e m" "bn_val e m dvd bn_val e x - v * base e ^ bi_t m"
  using assms by (simp_all add: residue_def)

lemma cancel_base:
  assumes "modulus e m" "bn_val e m dvd v * base e ^ n"
  shows "bn_val e m dvd v"
proof -
  have "coprime (bn_val e m) 2" using assms(1) by (simp add: modulus_def coprime_right_2_iff_odd)
  then have "coprime (bn_val e m) (base e ^ n)" by simp
  then show ?thesis using assms(2) by (simp add: coprime_dvd_mult_left_iff)
qed

lemma reduce_product:
  assumes "modulus e m" "z = new_Montgomery e m" "bn_ok e p" "bn_val e p = bn_val e x * bn_val e y" "residue e m v x" "residue e m w y"
  shows "\<exists>r. reduce e z p = Some r \<and> residue e m (v * w) r"
proof -
  define B M where d: "B = base e ^ bi_t m" "M = bn_val e m"
  note x = residueD [OF assms(5), folded d] and y = residueD [OF assms(6), folded d] and mo = modulusD [OF assms(1), folded d]
  have "bn_val e x * bn_val e y \<le> M * bn_val e y" using x y by (intro mult_right_mono) simp_all
  moreover have "M * bn_val e y < M * B" using y(3) mo(8,9) by (intro mult_strict_left_mono) linarith+
  ultimately have "bn_val e p < M * B" unfolding assms(4) by linarith
  moreover have "0 \<le> bn_val e p" unfolding assms(4) using x y by simp
  ultimately have "bn_val e p < M * B" "0 \<le> bn_val e p" by simp_all
  from reduce_spec [OF assms(1-3) this(2)] this(1) obtain r where
    r: "reduce e z p = Some r" "bn_ok e r" "0 \<le> bn_val e r" "bn_val e r < M" "M dvd bn_val e r * B - bn_val e p" by (auto simp: d)
  from dvd_add [OF r(5) dvd_add [OF dvd_mult2 [OF x(4), of "bn_val e y"] dvd_mult [OF y(4), of "v * B"]]] have "M dvd (bn_val e r - v * w * B) * B" unfolding assms(4) by (simp add: algebra_simps)
  then have "M dvd bn_val e r - v * w * B" unfolding d by (rule cancel_base [OF assms(1)])
  then show ?thesis using r by (auto simp: residue_def d)
qed

lemma mulTo_residue:
  assumes "modulus e m" "z = new_Montgomery e m" "residue e m v x" "residue e m w y"
  shows "\<exists>r'. mulTo e z x y r = Some r' \<and> residue e m (v * w) r'"
  unfolding mulTo_def using assms residueD(1) by (intro reduce_product) (auto intro!: multiplyTo_spec)

lemma sqrTo_residue:
  assumes "modulus e m" "z = new_Montgomery e m" "residue e m v x"
  shows "\<exists>r'. sqrTo e z x r = Some r' \<and> residue e m (v * v) r'"
  unfolding sqrTo_def using assms squareTo_spec [OF residueD(1) [OF assms(3)], of r] by (intro reduce_product) (auto simp: power2_eq_square)

section \<open>Zero\<close>

lemma zero_has_no_digits:
  assumes "bn_ok e x" "bn_val e x = 0"
  shows "bi_t x = 0"
proof -
  have s: "bi_s x = 0" using val_sign [OF bn_ok_raw [OF assms(1)]] assms(2) by simp
  show ?thesis
    using val_length(1) [OF assms(1) _ s] assms(2) zero_less_power [of "base e" "bi_t x - 1"] base_bounds(4) [of e]
    by (auto simp del: zero_less_power)
qed

lemma lShift_zero: "lShiftTo e \<lparr>bi_s = 0, bi_t = n, bi_d = (\<lambda>i. 0)\<rparr> k \<lparr>bi_s = 0, bi_t = n', bi_d = (\<lambda>i. 0)\<rparr> = \<lparr>bi_s = 0, bi_t = 0, bi_d = (\<lambda>i. 0)\<rparr>"
proof -
  have zero: "js_shl 0 i = 0" "js_shr 0 i = 0" "js_and 0 b = 0" "js_or 0 0 = 0" for i b by (simp_all add: js_shl_def js_shr_def js_and_def js_or_def)
  have "fold (lShift_digit e \<lparr>bi_s = 0, bi_t = n, bi_d = (\<lambda>i. 0)\<rparr> bs ds) is ((\<lambda>i. 0), 0) = ((\<lambda>i. 0), 0)" for bs ds "is"
    by (induction "is") (simp_all add: zero Let_def fun_upd_idem)
  moreover have "fold (\<lambda>i d. d(i := 0)) is (\<lambda>i. 0) = (\<lambda>i. 0 :: int)" for "is" :: "nat list"
    by (induction "is") (simp_all add: fun_upd_idem)
  moreover have "clamp_loop 0 (\<lambda>i. 0) t = 0" for t by (induction t) simp_all
  ultimately show ?thesis by (simp add: lShiftTo_def zero Let_def clamp_def fun_upd_idem)
qed



lemma one_minus_empty:
  assumes "bi_t y = Suc t" "bi_s y = 0"
  shows "subTo e \<lparr>bi_s = 0, bi_t = Suc 0, bi_d = (\<lambda>i. 0)(0 := 1)\<rparr> (dLShiftTo y (- int (Suc t)) z)
      \<lparr>bi_s = 0, bi_t = Suc 0, bi_d = (\<lambda>i. 0)(0 := 1)\<rparr> = \<lparr>bi_s = 0, bi_t = Suc 0, bi_d = (\<lambda>i. 0)(0 := 1)\<rparr>"
proof -
  have "bi_t (dLShiftTo y (- int (Suc t)) z) = 0" "bi_s (dLShiftTo y (- int (Suc t)) z) = 0"
    using assms by (simp_all add: dLShiftTo_def Let_def)
  moreover have "js_shr 1 (dbits e) = 0" using dbits_bounds [of e] by (simp add: js_shr_div)
  moreover have "(1 :: int) mod base e = 1" using base_bounds(4) [of e] by (intro mod_pos_pos_trivial) simp_all
  ultimately show ?thesis by (simp add: subTo_def and_DM Let_def clamp_def fun_upd_idem)
qed

text \<open>A zero with as many digits as the divisor: the loop over the quotient does not run, and the rest is cut to 0.\<close>

lemma divRemTo_zero_digits:
  assumes "bn_ok e m" "bi_s m = 0" "bi_t m = Suc t" "z = \<lparr>bi_s = 0, bi_t = Suc t, bi_d = (\<lambda>i. 0)\<rparr>"
  shows "\<exists>r. divRemTo e z m None (Some z) = Some (None, Some r) \<and> bn_ok e r \<and> bn_val e r = 0"
proof -
  define n where "n = dbits e - nbits (bi_d m t)"
  define y where "y = (if 0 < n then lShiftTo e m n nbi else copyTo m nbi)"
  define one where "one = \<lparr>bi_s = 0, bi_t = Suc 0, bi_d = ((\<lambda>i. 0)(0 := 1) :: digits)\<rparr>"
  define r2 where "r2 = (if 0 < n then one else z)"
  have abs: "bn_abs e m = m" "bn_abs e z = z" using assms(2,4) by (simp_all add: bn_abs_def)
  have y: "bn_ok e y" "bn_val e y = bn_val e m * 2 ^ n"
    using lShiftTo_spec [OF bn_ok_raw [OF assms(1)], of n nbi] copyTo_val [of e m nbi] assms(1) by (auto simp: y_def)
  note norm = normalised [OF assms(1-3) n_def y]
  have y0: "0 < bi_d y t" using norm(3) zero_less_power [of "2 :: int" "dbits e - 1"] by (auto simp del: zero_less_power)
  have copy: "copyTo z z = z"
  proof -
    have "fold (\<lambda>i d. d(i := bi_d z i)) is (\<lambda>i. 0) = (\<lambda>i. 0)" for "is" by (induction "is") (simp_all add: assms(4) fun_upd_idem)
    then show ?thesis by (simp add: copyTo_def assms(4) fun_upd_idem)
  qed
  have pair: "(if 0 < n then (lShiftTo e m n nbi, lShiftTo e z n z) else (copyTo m nbi, copyTo z z)) = (y, if 0 < n then z\<lparr>bi_t := 0\<rparr> else z)"
    by (simp add: y_def copy) (simp add: assms(4) lShift_zero)
  have first: "(if 0 \<le> compareTo r1 t1 then let r' = r1\<lparr>bi_d := (bi_d r1)(i := 1), bi_t := Suc i\<rparr> in subTo e r' t1 r' else r1) = r2"
    if "r1 = (if 0 < n then z\<lparr>bi_t := 0\<rparr> else z)" "i = bi_t r1" "t1 = dLShiftTo y (int i - int (Suc t)) nbi" for r1 t1 i
  proof (cases "0 < n")
    case True
    then have t1: "r1 = \<lparr>bi_s = 0, bi_t = 0, bi_d = (\<lambda>i. 0)\<rparr>" "i = 0" "t1 = dLShiftTo y (- int (Suc t)) nbi" using that by (simp_all add: assms(4))
    then have "bi_t t1 = 0" "bi_s t1 = 0" using norm(1,2) by (simp_all add: dLShiftTo_def Let_def)
    then have "compareTo r1 t1 = 0" by (simp add: compareTo_def t1(1))
    then show ?thesis using one_minus_empty [OF norm(1,2), of e nbi] True by (simp add: t1 r2_def one_def Let_def)
  next
    case False
    then have t1: "r1 = z" "t1 = dLShiftTo y 0 nbi" using that by (simp_all add: assms(4))
    have "compareTo r1 t1 < 0" using y0 norm(1,2) by (simp add: t1 compareTo_def Let_def dLShift_digits [of y 0 nbi, simplified] assms(4))
    then show ?thesis using False by (simp add: r2_def t1(1))
  qed
  define r1 i t1 where r1: "r1 = (if 0 < n then z\<lparr>bi_t := 0\<rparr> else z)" "i = bi_t r1" "t1 = dLShiftTo y (int i - int (Suc t)) nbi"
  have j: "nat (int i - int (Suc t)) = 0" by (simp add: r1(1,2) assms(4))
  define r4 where "r4 = clamp e (r2\<lparr>bi_t := Suc t\<rparr>)"
  define r5 where "r5 = (if 0 < n then rShiftTo e r4 n r4 else r4)"
  have "bi_t m \<noteq> 0" "\<not> bi_t z < bi_t m" "\<not> bi_s z < 0" "Suc t - 1 = t" "bi_d y t \<noteq> 0" using assms(2-4) y0 by simp_all
  then have run: "divRemTo e z m None (Some z) = Some (None, Some r5)"
    unfolding divRemTo_def abs using first [OF r1]
    by (simp only: Let_def assms(3) if_False option.case n_def [symmetric] pair prod.case norm(1) r1 [symmetric] j div_loop.simps
        bind.bind_lunit split_def fst_conv snd_conv option.map r4_def [symmetric] r5_def [symmetric])
  have digits: "bn_raw e (r2\<lparr>bi_t := Suc t\<rparr>)" "bn_val e (r2\<lparr>bi_t := Suc t\<rparr>) = (if 0 < n then 1 else 0)"
    using base_bounds(4) [of e] by (auto simp: r2_def one_def assms(4) bn_raw_def bn_val_def digits_ok_def dsum_zero dsum_first)
  have r4: "bn_ok e r4" "bn_val e r4 = (if 0 < n then 1 else 0)" using clamp_spec [OF digits(1)] digits(2) by (simp_all add: r4_def)
  have "(1 :: int) div 2 ^ n = 0" if "0 < n" using that one_less_power [of "2 :: int" n] by (intro div_pos_pos_trivial) simp_all
  then have "bn_ok e r5" "bn_val e r5 = 0" using rShiftTo_spec [OF bn_ok_raw [OF r4(1)], of n r4] r4 by (auto simp: r5_def)
  with run show ?thesis by blast
qed

section \<open>Montgomery form\<close>

lemma convert_nonzero:
  assumes "e \<noteq> AM1" "modulus e m" "z = new_Montgomery e m" "bn_ok e x" "bn_val e x \<noteq> 0"
  shows "\<exists>r. convert e z x = Some r \<and> residue e m (bn_val e x) r"
proof -
  define B M where d: "B = base e ^ bi_t m" "M = bn_val e m"
  note mo = modulusD [OF assms(2), folded d] and abs = abs_spec [OF assms(4)]
  have mz: "mo_m z = m" by (simp add: assms(3) new_Montgomery_def Let_def)
  have "0 < bi_t (bn_abs e x)" using abs(2,3) assms(5) by (cases "bi_t (bn_abs e x)") (simp_all add: bn_val_def)
  define r1 where "r1 = dLShiftTo (bn_abs e x) (int (bi_t m)) nbi"
  have r1: "bn_ok e r1" "bn_val e r1 = \<bar>bn_val e x\<bar> * B"
    using dLShift_spec [OF bn_ok_raw [OF abs(1)], of "bi_t m" nbi] abs \<open>0 < bi_t (bn_abs e x)\<close> by (simp_all add: r1_def d)
  have pos: "0 < bn_val e r1" unfolding r1(2) using assms(5) by (simp add: d)
  have "M \<noteq> 0" using mo(8) by simp
  from divRemTo_spec [OF assms(1) r1(1) mo(1) this [unfolded d], of None "Some r1"] obtain r2 where
    r2: "divRemTo e r1 m None (Some r1) = Some (None, Some r2)" "bn_ok e r2" "bn_val e r2 = bn_val e r1 mod M"
    using delivers_Some delivers_None pos mo(8) unfolding d
    by (metis abs_of_pos mult_1 sgn_pos)
  define r3 where "r3 = (if bi_s x < 0 \<and> 0 < compareTo r2 (ZERO e) then subTo e m r2 r2 else r2)"
  have conv: "convert e z x = Some r3" by (simp add: convert_def Let_def mz r1_def [symmetric] r2(1) remainder_of_def r3_def)
  have sx: "bi_s x < 0 \<longleftrightarrow> bn_val e x < 0" using val_sign [OF bn_ok_raw [OF assms(4)]] by auto
  have cmp: "0 < compareTo r2 (ZERO e) \<longleftrightarrow> 0 < bn_val e r2" using compareTo_order(2) [OF r2(2) ZERO_spec(1)] by simp
  note sub = subTo_spec [OF bn_ok_raw [OF mo(1)] bn_ok_raw [OF r2(2)], of r2, folded d]
  have b2: "0 \<le> bn_val e r2" "bn_val e r2 < M" using mo(8) by (simp_all add: r2(3))
  have dvd2: "M dvd bn_val e r2 - \<bar>bn_val e x\<bar> * B" unfolding r2(3) r1(2) by (rule mod_below [OF mo(8)])
  have "residue e m (bn_val e x) r3"
  proof (cases "bn_val e x < 0")
    case False
    then have "r3 = r2" "\<bar>bn_val e x\<bar> = bn_val e x" by (simp_all add: r3_def sx)
    then show ?thesis using r2(2) b2 dvd2 by (simp add: residue_def d)
  next
    case True
    then have absx: "\<bar>bn_val e x\<bar> = - bn_val e x" by simp
    show ?thesis
    proof (cases "0 < bn_val e r2")
      case True
      then have "r3 = subTo e m r2 r2" using \<open>bn_val e x < 0\<close> by (simp add: r3_def sx cmp)
      then have r3: "bn_ok e r3" "bn_val e r3 = M - bn_val e r2" using sub by simp_all
      have "bn_val e r3 - bn_val e x * B = M - (bn_val e r2 - \<bar>bn_val e x\<bar> * B)" by (simp add: r3 absx)
      then have "M dvd bn_val e r3 - bn_val e x * B" using dvd_diff [OF dvd_refl dvd2] by simp
      then show ?thesis using r3 True b2 by (simp add: residue_def d [symmetric])
    next
      case False
      then have "bn_val e r2 = 0" using b2 by simp
      moreover from this have "M dvd bn_val e x * B" using dvd2 absx by simp
      moreover have "r3 = r2" using False by (simp add: r3_def cmp)
      ultimately show ?thesis using r2(2) mo(8) by (simp add: residue_def d [symmetric])
    qed
  qed
  with conv show ?thesis by blast
qed

lemma convert_residue:
  assumes "e \<noteq> AM1" "modulus e m" "z = new_Montgomery e m" "bn_ok e x"
  shows "\<exists>r. convert e z x = Some r \<and> residue e m (bn_val e x) r"
proof (cases "bn_val e x = 0")
  case True
  note mo = modulusD [OF assms(2)]
  from mo(3) obtain t where t: "bi_t m = Suc t" by (cases "bi_t m") simp_all
  have mz: "mo_m z = m" by (simp add: assms(3) new_Montgomery_def Let_def)
  have s: "bi_s x = 0" using val_sign [OF bn_ok_raw [OF assms(4)]] True by simp
  have "dLShiftTo (bn_abs e x) (int (bi_t m)) nbi = \<lparr>bi_s = 0, bi_t = Suc t, bi_d = (\<lambda>i. 0)\<rparr>"
    using s t zero_has_no_digits [OF assms(4) True] by (intro bigint.equality) (simp_all add: bn_abs_def dLShift_digits del: of_nat_Suc, auto simp: nbi_def)
  then show ?thesis using divRemTo_zero_digits [OF mo(1,2) t refl] s True mo(8)
    by (auto simp: convert_def mz Let_def remainder_of_def residue_def)
qed (use assms convert_nonzero in blast)

lemma revert_residue:
  assumes "modulus e m" "z = new_Montgomery e m" "residue e m v x"
  shows "\<exists>r. revert e z x = Some r \<and> bn_ok e r \<and> bn_val e r = v mod bn_val e m"
proof -
  define B M where d: "B = base e ^ bi_t m" "M = bn_val e m"
  note x = residueD [OF assms(3), folded d] and mo = modulusD [OF assms(1), folded d]
  have "M * 1 \<le> M * B" using mo(8,9) by (intro mult_left_mono) linarith+
  then have "bn_val e x < M * B" using x(3) by simp
  with reduce_spec [OF assms(1,2), of "copyTo x nbi", folded d] x copyTo_val [of e x nbi] obtain r where
    r: "revert e z x = Some r" "bn_ok e r" "0 \<le> bn_val e r" "bn_val e r < M" "M dvd bn_val e r * B - bn_val e x" by (auto simp: revert_def)
  have "M dvd (bn_val e r - v) * B" using dvd_add [OF r(5) x(4)] by (simp add: algebra_simps)
  then have "M dvd bn_val e r - v" unfolding d by (rule cancel_base [OF assms(1)])
  then have "bn_val e r mod M = v mod M" by (simp add: mod_eq_dvd_iff)
  then show ?thesis using r by (auto simp: d)
qed

lemma copy_residue: "residue e m v (copyTo x r) = residue e m v x"
  by (simp add: residue_def copyTo_val)

section \<open>The table of odd powers\<close>

lemma odd_powers_spec:
  assumes "modulus e m" "z = new_Montgomery e m" "residue e m (x * x) g2" "3 \<le> j" "\<And>n. odd n \<Longrightarrow> n < j \<Longrightarrow> residue e m (x ^ n) (g n)"
  shows "\<exists>g'. odd_powers e z g2 (filter odd [j..<N]) g = Some g' \<and> (\<forall>n. odd n \<longrightarrow> n < max j N \<longrightarrow> residue e m (x ^ n) (g' n))"
  using assms(4,5)
proof (induction "N - j" arbitrary: j g)
  case 0
  then show ?case by (simp add: max_absorb1)
next
  case (Suc c)
  then have lt: "j < N" "c = N - Suc j" "3 \<le> Suc j" by simp_all
  show ?case
  proof (cases "odd j")
    case False
    then have "residue e m (x ^ n) (g n)" if "odd n" "n < Suc j" for n using that Suc.prems(2) [of n] by (cases "n = j") auto
    from Suc(1) [OF lt(2,3) this] False lt show ?thesis by (simp add: upt_conv_Cons max_def)
  next
    case True
    have "residue e m (x ^ (j - 2)) (g (j - 2))" using True Suc.prems by (intro Suc.prems(2)) auto
    from mulTo_residue [OF assms(1-3) this] obtain p where p: "mulTo e z g2 (g (j - 2)) nbi = Some p" "residue e m (x * x * x ^ (j - 2)) p" by blast
    have "j = Suc (Suc (j - 2))" using Suc.prems(1) by simp
    then have "x * x * x ^ (j - 2) = x ^ j" by (metis mult.assoc power_Suc)
    then have new: "residue e m (x ^ n) ((g(j := p)) n)" if "odd n" "n < Suc j" for n using that p(2) Suc.prems(2) [of n] by (cases "n = j") auto
    from Suc(1) [OF lt(2,3) new] True lt p(1) show ?thesis by (simp add: upt_conv_Cons max_def fun_upd_def)
  qed
qed

lemma power_table_spec:
  assumes "e \<noteq> AM1" "modulus e m" "z = new_Montgomery e m" "bn_ok e x" "1 \<le> k"
  shows "\<exists>g. power_table e z k x = Some g \<and> (\<forall>n. odd n \<longrightarrow> n < 2 ^ k \<longrightarrow> residue e m (bn_val e x ^ n) (g n))"
proof -
  define v where "v = bn_val e x"
  from convert_residue [OF assms(1-4)] obtain g1 where g1: "convert e z x = Some g1" "residue e m v g1" by (auto simp: v_def)
  show ?thesis
  proof (cases "1 < k")
    case False
    then have "k = 1" using assms(5) by simp
    moreover have "residue e m (v ^ n) (((\<lambda>_. nbi)(1 := g1)) n)" if "odd n" "n < 2" for n
    proof -
      have "n = 1" using that by presburger
      then show ?thesis using g1(2) by simp
    qed
    ultimately show ?thesis using g1(1) by (auto simp: power_table_def v_def)
  next
    case True
    from sqrTo_residue [OF assms(2,3) g1(2)] obtain g2 where g2: "sqrTo e z g1 nbi = Some g2" "residue e m (v * v) g2" by blast
    have one: "n = 1" if "odd n" "n < 3" for n :: nat using that by presburger
    have "residue e m (v ^ n) (((\<lambda>_. nbi)(1 := g1)) n)" if "odd n" "n < 3" for n using one [OF that] g1(2) by simp
    from odd_powers_spec [OF assms(2,3) g2(2) order_refl this, of "2 ^ k"] obtain g where
      g: "odd_powers e z g2 (filter odd [3..<2 ^ k]) ((\<lambda>_. nbi)(1 := g1)) = Some g" "\<forall>n. odd n \<longrightarrow> n < max 3 (2 ^ k) \<longrightarrow> residue e m (v ^ n) (g n)" by blast
    have "power_table e z k x = Some g" using True g1(1) g2(1) g(1) by (simp add: power_table_def Let_def)
    then show ?thesis using g(2) by (auto simp: v_def)
  qed
qed

section \<open>Windows of the exponent\<close>

lemma digit_bits:
  assumes "bn_ok e ex" "bn_val e ex = int N" "j < bi_t ex"
  shows "bi_d ex j = int (take_bit (dbits e) (drop_bit (dbits e * j) N))"
proof -
  have s: "bi_s ex = 0" using val_sign [OF bn_ok_raw [OF assms(1)]] assms(2) by simp
  define rest where "rest = dsum e (\<lambda>k. bi_d ex (Suc j + k)) (bi_t ex - Suc j)"
  have ok: "digits_ok e (bi_d ex) (bi_t ex)" using bn_ok_raw [OF assms(1)] by (simp add: bn_raw_def)
  have "dsum e (bi_d ex) (Suc j + (bi_t ex - Suc j)) = dsum e (bi_d ex) j + bi_d ex j * base e ^ j + base e ^ Suc j * rest"
    unfolding dsum_split rest_def dsum_Suc ..
  then have eq: "int N = dsum e (bi_d ex) j + base e ^ j * (bi_d ex j + base e * rest)"
    using assms(2,3) s by (simp add: bn_val_def algebra_simps)
  have "digits_ok e (bi_d ex) j" using ok assms(3) digits_ok_mono by simp
  note low = dsum_bounds [OF this]
  have "int N div base e ^ j = bi_d ex j + base e * rest" unfolding eq using low by simp
  moreover have "(bi_d ex j + base e * rest) mod base e = bi_d ex j" using digits_okD [OF ok assms(3)] by simp
  ultimately have "bi_d ex j = int N div base e ^ j mod base e" by simp
  then show ?thesis by (simp add: take_bit_eq_mod drop_bit_eq_div power_mult of_nat_mod of_nat_div)
qed

text \<open>\<open>P\<close> bits are left when the next one is bit \<open>i\<close> of digit \<open>j\<close>.\<close>

definition position :: "am_engine \<Rightarrow> nat \<Rightarrow> int \<Rightarrow> int \<Rightarrow> bool" where
  "position e P j i \<longleftrightarrow> 0 \<le> i \<and> i < int (dbits e) \<and> int P = j * int (dbits e) + i + 1"

lemma position_end: "position e P j i \<Longrightarrow> j < 0 \<longleftrightarrow> P = 0"
proof -
  assume p: "position e P j i"
  have "j * int (dbits e) \<le> - int (dbits e)" if "j < 0" using mult_right_mono [of j "- 1" "int (dbits e)"] that by simp
  moreover have "0 \<le> j * int (dbits e)" if "0 \<le> j" using that by simp
  ultimately show "j < 0 \<longleftrightarrow> P = 0" using p unfolding position_def by (cases "j < 0") linarith+
qed

definition window_of :: "nat \<Rightarrow> nat \<Rightarrow> nat \<Rightarrow> nat" where
  "window_of N P k = (if k \<le> P then take_bit k (drop_bit (P - k) N) else push_bit (k - P) (take_bit P N))"

lemma js_or_nat: "x < 2 ^ 31 \<Longrightarrow> y < 2 ^ 31 \<Longrightarrow> js_or (int x) (int y) = int (x OR y)"
  by (simp add: js_or_def or_nat_def)

lemma shl_one: "n \<le> 30 \<Longrightarrow> js_shl 1 n = 2 ^ n"
  using power_increasing [of n 30 "2 :: int"] by (intro js_shl_mult [of 1 n, simplified]) (auto intro: order_trans [of _ 0])

lemma window_spec:
  assumes "bn_ok e ex" "bn_val e ex = int N" "position e P j i" "0 \<le> j" "j < int (bi_t ex)" "1 \<le> k" "k \<le> 6"
  shows "window e ex k j i = int (window_of N P k)"
proof -
  define a b where d: "a = nat j" "b = nat i"
  have ab: "j = int a" "i = int b" using assms(3,4) by (simp_all add: d position_def)
  have "int P = int (a * dbits e + b + 1)" using assms(3) by (simp add: ab position_def)
  then have "P = a * dbits e + b + 1" by (simp only: of_nat_eq_iff)
  moreover have "b < dbits e" using assms(3) by (simp add: ab position_def)
  ultimately have b: "b < dbits e" "P = a * dbits e + b + 1" by simp_all
  have db: "26 \<le> dbits e" "dbits e \<le> 30" by (rule dbits_bounds)+
  have dig: "digit_at (bi_d ex) j = int (take_bit (dbits e) (drop_bit (dbits e * a) N))"
    using digit_bits [OF assms(1,2), of a] assms(5) by (simp add: digit_at_def ab)
  define E where "E = take_bit (dbits e) (drop_bit (dbits e * a) N)"
  have "E < 2 ^ dbits e" by (simp add: E_def)
  moreover have "(2 :: nat) ^ dbits e \<le> 2 ^ 30" using db by (intro power_increasing) simp_all
  ultimately have E: "E < 2 ^ 30" by simp
  have shr: "js_shr (int x) n = int (drop_bit n x)" if "x < 2 ^ 30" "n < 32" for x n
    using that by (simp add: js_shr_div drop_bit_eq_div of_nat_div)
  have msk: "js_and (int x) (js_shl 1 n - 1) = int (take_bit n x)" if "n \<le> 30" for x n
    using that by (simp add: shl_one js_and_mask take_bit_eq_mod of_nat_mod)
  show ?thesis
  proof (cases "k - 1 \<le> b")
    case True
    have kP: "k \<le> P" "P - k = dbits e * a + (b + 1 - k)" using True b(2) assms(6) by (simp_all add: mult.commute)
 have le: "int k - 1 \<le> int b" using True assms(6) by linarith
    have "nat (int b - (int k - 1)) = b + 1 - k" using True assms(6) by simp
    then have "window e ex k j i = int (take_bit k (drop_bit (b + 1 - k) E))"
      using le assms(6,7) b db E unfolding window_def Let_def dig [folded E_def] by (simp add: ab shr msk)
    also have "take_bit k (drop_bit (b + 1 - k) E) = take_bit k (drop_bit (P - k) N)"
      unfolding kP(2) E_def by (rule bit_eqI) (use True b assms(6) in \<open>auto simp: bit_take_bit_iff bit_drop_bit_eq ac_simps\<close>)
    finally show ?thesis using kP(1) by (simp add: window_of_def)
  next
    case False
    define c where "c = k - 1 - b"
    have c: "k = b + 1 + c" "nat (int k - 1 - int b) = c" "1 \<le> c" using False by (simp_all add: c_def)
    have lo: "js_and (int E) (js_shl 1 (nat (i + 1)) - 1) = int (take_bit (b + 1) E)"
      using b db msk [of "b + 1" E] by (simp add: ab nat_add_distrib)
    have "take_bit (b + 1) E * 2 ^ c < 2 ^ (b + 1) * 2 ^ c" by (rule mult_strict_right_mono [OF take_bit_nat_less_exp]) simp
    also have "\<dots> = 2 ^ k" by (simp only: c(1) power_add)
    also have "\<dots> \<le> 2 ^ 6" using assms(7) by (intro power_increasing) simp_all
    finally have wb: "take_bit (b + 1) E * 2 ^ c < 2 ^ 6" .
    then have "int (take_bit (b + 1) E * 2 ^ c) < int (2 ^ 6)" by (simp only: of_nat_less_iff)
    then have wi: "int (take_bit (b + 1) E) * 2 ^ c < 2 ^ 6" by (simp only: of_nat_mult of_nat_power of_nat_numeral)
    have "js_shl (int (take_bit (b + 1) E)) c = int (take_bit (b + 1) E) * 2 ^ c"
      using wi c assms(7) by (intro js_shl_mult) (auto intro: order_trans [of _ 0])
    then have w: "js_shl (int (take_bit (b + 1) E)) c = int (push_bit c (take_bit (b + 1) E))" by (simp add: push_bit_eq_mult)
    have win: "window e ex k j i =
        (if 0 < j then js_or (int (push_bit c (take_bit (b + 1) E))) (js_shr (digit_at (bi_d ex) (j - 1)) (nat (int (dbits e) + i - (int k - 1))))
         else int (push_bit c (take_bit (b + 1) E)))"
    proof -
      have "\<not> int k - 1 \<le> int b" using False by linarith
      then show ?thesis unfolding window_def Let_def dig [folded E_def] lo by (simp only: ab c(2) w if_False)
    qed
    show ?thesis
    proof (cases a)
      case 0
      then have "push_bit c (take_bit (b + 1) E) = push_bit (k - P) (take_bit P N)"
        using b c(1) unfolding E_def by (simp add: take_bit_take_bit min_def)
      moreover have "\<not> k \<le> P" using 0 b c by simp
      ultimately show ?thesis unfolding win window_of_def using 0 by (simp add: ab)
    next
      case (Suc a')
      have cD: "c \<le> dbits e" using c assms(7) db by simp
      have PS: "P - k = dbits e * a' + (dbits e - c)" "k \<le> P" using b(2) c(1) cD Suc by (simp_all add: mult.commute)
      define E1 where "E1 = take_bit (dbits e) (drop_bit (dbits e * a') N)"
      have "digit_at (bi_d ex) (j - 1) = int E1"
        using digit_bits [OF assms(1,2), of a'] assms(5) by (simp add: digit_at_def ab Suc E1_def)
      moreover have "E1 < 2 ^ dbits e" by (simp add: E1_def)
      then have "E1 < 2 ^ 30" using \<open>(2 :: nat) ^ dbits e \<le> 2 ^ 30\<close> by simp
      moreover have "nat (int (dbits e) + i - (int k - 1)) = dbits e - c" using c b assms(7) db by (simp add: ab)
      moreover have "drop_bit (dbits e - c) E1 \<le> E1" by (simp add: drop_bit_eq_div)
      ultimately have "window e ex k j i = int (push_bit c (take_bit (b + 1) E) OR drop_bit (dbits e - c) E1)"
        unfolding win using Suc wb db by (simp add: ab shr js_or_nat push_bit_eq_mult [symmetric] del: of_nat_or_eq of_nat_push_bit)
      also have "push_bit c (take_bit (b + 1) E) OR drop_bit (dbits e - c) E1 = take_bit k (drop_bit (P - k) N)"
        proof (rule bit_eqI)
        fix n
        have up: "dbits e * a + (n - c) = dbits e * a' + (dbits e - c) + n" if "c \<le> n" using that cD by (simp add: Suc)
        show "bit (push_bit c (take_bit (b + 1) E) OR drop_bit (dbits e - c) E1) n = bit (take_bit k (drop_bit (P - k) N)) n"
        proof (cases "c \<le> n")
          case True
          have "bit E (n - c) = (n - c < dbits e \<and> bit N (dbits e * a' + (dbits e - c) + n))"
            unfolding E_def bit_take_bit_iff bit_drop_bit_eq comp_apply up [OF True] ..
          moreover have "\<not> dbits e - c + n < dbits e" using True cD by linarith
          then have "\<not> bit (drop_bit (dbits e - c) E1) n" unfolding E1_def bit_drop_bit_eq comp_apply bit_take_bit_iff by blast
          moreover have "n - c < b + 1 \<longleftrightarrow> n < k" "n - c < b + 1 \<Longrightarrow> n - c < dbits e" using True b(1) c(1) by linarith+
          ultimately show ?thesis using True unfolding PS(1)
            by (auto simp: bit_or_iff bit_push_bit_iff bit_take_bit_iff bit_drop_bit_eq)
        next
          case False
          then have "dbits e - c + n < dbits e" "n < k" using cD c(1) by linarith+
          then show ?thesis using False unfolding PS(1)
            by (auto simp: bit_or_iff bit_push_bit_iff bit_take_bit_iff bit_drop_bit_eq E1_def ac_simps)
        qed
      qed
      finally show ?thesis using PS(2) by (simp add: window_of_def)
    qed
  qed
qed

lemma strip_zeros_spec:
  assumes "0 < w" "w < 2 ^ 31"
  shows "\<exists>d. odd (w div 2 ^ d) \<and> 2 ^ d dvd w \<and> strip_zeros (int w) n = Some (int (w div 2 ^ d), n - int d)"
  using assms
proof (induction w arbitrary: n rule: less_induct)
  case (less w)
  show ?case
  proof (cases "odd w")
    case True
    then have "int w mod 2 \<noteq> 0" by presburger
    then have "strip_zeros (int w) n = Some (int w, n)" by (subst strip_zeros.simps) (simp add: mask_bits)
    then show ?thesis using True by (intro exI [of _ 0]) simp
  next
    case False
    then have even: "int w mod 2 = 0" "0 < w div 2" "w div 2 < w" using less.prems by (auto simp: even_iff_mod_2_eq_zero elim!: evenE)
    have "w div 2 < 2 ^ 31" using less.prems(2) even(3) by (rule less_trans [rotated])
    from less.IH [OF even(3,2) this, of "n - 1"] obtain d where
      d: "odd (w div 2 div 2 ^ d)" "2 ^ d dvd w div 2" "strip_zeros (int (w div 2)) (n - 1) = Some (int (w div 2 div 2 ^ d), n - 1 - int d)" by auto
    have shr: "js_shr (int w) 1 = int (w div 2)" using less.prems by (simp add: js_shr_div of_nat_div)
    have "strip_zeros (int w) n = Some (int (w div 2 ^ Suc d), n - int (Suc d))"
      using even(1) d(3) by (subst strip_zeros.simps) (simp add: mask_bits shr [simplified] div_mult2_eq)
    moreover have "2 ^ Suc d dvd w" using d(2) False by (auto elim!: evenE)
    ultimately show ?thesis using d(1) by (intro exI [of _ "Suc d"]) (simp add: div_mult2_eq)
  qed
qed

lemma window_bounds:
  assumes "1 \<le> k" "0 < P" "bit N (P - 1)"
  shows "0 < window_of N P k" "window_of N P k < 2 ^ k"
proof -
  have "bit (window_of N P k) (k - 1)" using assms by (auto simp: window_of_def bit_take_bit_iff bit_drop_bit_eq bit_push_bit_iff)
  then show "0 < window_of N P k" by (metis bit_0_eq bot_apply bot_bool_def gr0I)
  show "window_of N P k < 2 ^ k"
  proof (cases "k \<le> P")
    case False
    then have "take_bit P N * 2 ^ (k - P) < 2 ^ P * 2 ^ (k - P)" by (intro mult_strict_right_mono take_bit_nat_less_exp) simp
    also have "\<dots> = 2 ^ k" using False by (simp add: power_add [symmetric])
    finally show ?thesis using False by (simp add: window_of_def push_bit_eq_mult)
  qed (simp add: window_of_def)
qed

text \<open>An odd window takes the value of the bits it covers.\<close>

lemma window_stripped:
  assumes "1 \<le> k" "0 < P" "bit N (P - 1)" "w = window_of N P k" "odd (w div 2 ^ d)" "2 ^ d dvd w"
  shows "d < k" "k - d \<le> P" "w div 2 ^ d = take_bit (k - d) (drop_bit (P - (k - d)) N)"
proof -
  have wk: "w < 2 ^ k" and "0 < w" using window_bounds [OF assms(1-3)] by (simp_all add: assms(4))
  then have "2 ^ d \<le> w" using assms(6) by (intro dvd_imp_le)
  then have "(2 :: nat) ^ d < 2 ^ k" using wk by (rule le_less_trans)
  then show dk: "d < k" by (simp only: power_strict_increasing_iff [of "2 :: nat"])
  have div: "w div 2 ^ d = drop_bit d (window_of N P k)" by (simp add: drop_bit_eq_div assms(4))
  have "k - d \<le> P \<and> w div 2 ^ d = take_bit (k - d) (drop_bit (P - (k - d)) N)"
  proof (cases "k \<le> P")
    case True
    then have "P - (k - d) = P - k + d" using dk by simp
    then show ?thesis using True dk unfolding div window_of_def by (simp add: drop_bit_take_bit add.commute)
  next
    case False
    have "k - P \<le> d"
    proof (rule ccontr)
      assume "\<not> k - P \<le> d"
      then have c: "k - P = Suc (k - P - d - 1) + d" by simp
      have "w = take_bit P N * 2 ^ (k - P)" using False assms(4) by (simp add: window_of_def push_bit_eq_mult)
      then have "w = (take_bit P N * 2 ^ Suc (k - P - d - 1)) * 2 ^ d" using c by (metis mult.assoc power_add)
      then have "w div 2 ^ d = take_bit P N * 2 ^ Suc (k - P - d - 1)" by simp
      then show False using assms(5) by simp
    qed
    moreover from this have "drop_bit d (push_bit (k - P) (take_bit P N)) = drop_bit (d - (k - P)) (take_bit P N)"
      by (intro bit_eqI) (auto simp: bit_drop_bit_eq bit_push_bit_iff)
    moreover have "d - (k - P) = P - (k - d)" "P - (P - (k - d)) = k - d" using False dk \<open>k - P \<le> d\<close> by simp_all
    ultimately show ?thesis using False unfolding div window_of_def by (simp add: drop_bit_take_bit)
  qed
  then show "k - d \<le> P" "w div 2 ^ d = take_bit (k - d) (drop_bit (P - (k - d)) N)" by simp_all
qed

lemma more_bits:
  assumes "n \<le> P"
  shows "N div 2 ^ (P - n) = N div 2 ^ P * 2 ^ n + take_bit n (drop_bit (P - n) (N :: nat))"
proof -
  have "(2 :: nat) ^ P = 2 ^ (P - n) * 2 ^ n" unfolding power_add [symmetric] using assms by simp
  then have "N div 2 ^ P = N div 2 ^ (P - n) div 2 ^ n" by (simp only: div_mult2_eq)
  then show ?thesis by (simp only: take_bit_eq_mod drop_bit_eq_div div_mult_mod_eq)
qed

section \<open>The loops\<close>

lemma square_pairs_spec:
  assumes "modulus e m" "z = new_Montgomery e m" "residue e m v r"
  shows "\<exists>ra rb. square_pairs e z n (r, r2) = Some (ra, rb) \<and> residue e m (v ^ (2 ^ n)) rb"
  using assms(3)
proof (induction n arbitrary: v r r2 rule: nat_induct2)
  case 0
  then show ?case by simp
next
  case 1
  then show ?case using sqrTo_residue [OF assms(1,2) 1, of r2] by (auto simp: power2_eq_square)
next
  case (step n)
  from sqrTo_residue [OF assms(1,2) step.prems, of r2] obtain a where a: "sqrTo e z r r2 = Some a" "residue e m (v * v) a" by blast
  from sqrTo_residue [OF assms(1,2) a(2), of r] obtain b where b: "sqrTo e z a r = Some b" "residue e m (v * v * (v * v)) b" by blast
  have "v * v * (v * v) = v ^ 4" by (simp add: power4_eq_xxxx)
  then have "(v * v * (v * v)) ^ (2 ^ n) = v ^ (2 ^ (n + 2))" by (simp add: power_mult [symmetric] mult.commute)
  with step.IH [OF b(2), of a] show ?case using a(1) b(1) by (simp add: eval_nat_numeral)
qed

definition exponent_ok :: "am_engine \<Rightarrow> bigint \<Rightarrow> nat \<Rightarrow> nat \<Rightarrow> int \<Rightarrow> int \<Rightarrow> bool" where
  "exponent_ok e ex N P j i \<longleftrightarrow> bn_ok e ex \<and> bn_val e ex = int N \<and> position e P j i \<and> j < int (bi_t ex)"

lemma bit_test:
  assumes "exponent_ok e ex N P j i" "0 \<le> j"
  shows "js_and (digit_at (bi_d ex) j) (js_shl 1 (nat i)) = 0 \<longleftrightarrow> \<not> bit N (P - 1)"
proof -
  obtain a b where ab: "j = int a" "i = int b" using assms by (metis exponent_ok_def position_def zero_le_imp_eq_int)
  have p: "b < dbits e" "int P = int (a * dbits e + b + 1)" "a < bi_t ex" using assms(1) by (simp_all add: exponent_ok_def position_def ab)
  then have P: "P - 1 = dbits e * a + b" by (simp only: of_nat_eq_iff) (simp add: mult.commute)
  define E where "E = take_bit (dbits e) (drop_bit (dbits e * a) N)"
  have dig: "digit_at (bi_d ex) j = int E" using digit_bits [of e ex N a] assms(1) p(3) by (simp add: digit_at_def ab E_def exponent_ok_def)
  have "(2 :: nat) ^ dbits e \<le> 2 ^ 30" using dbits_bounds [of e] by (intro power_increasing) simp_all
  moreover have "E < 2 ^ dbits e" by (simp add: E_def)
  ultimately have E: "int E < 2 ^ 31" by simp
  have "b \<le> 29" using p(1) dbits_bounds [of e] by simp
  then have "(2 :: int) ^ b \<le> 2 ^ 29" by (intro power_increasing) simp_all
  then have "toInt32 (2 ^ b) = 2 ^ b" by (intro toInt32_id) (auto intro: order_trans [of _ 0])
  then have "js_and (int E) (js_shl 1 b) = int E AND 2 ^ b" using E \<open>b \<le> 29\<close> by (simp add: js_and_def shl_one)
  moreover have "int E AND 2 ^ b = 0 \<longleftrightarrow> \<not> bit (int E) b" by (rule and_exp_eq_0_iff_not_bit)
  moreover have "bit (int E) b \<longleftrightarrow> bit N (P - 1)" unfolding P using p(1) by (simp add: bit_of_nat_iff_bit E_def bit_take_bit_iff bit_drop_bit_eq)
  ultimately show ?thesis by (simp add: dig) (simp add: ab)
qed

lemma step_down:
  assumes "exponent_ok e ex N P j i" "0 < P" "n \<le> P" "n \<le> dbits e"
    "j' = (if i - int n < 0 then j - 1 else j)" "i' = (if i - int n < 0 then i - int n + int (dbits e) else i - int n)"
  shows "exponent_ok e ex N (P - n) j' i'"
  using assms by (auto simp: exponent_ok_def position_def of_nat_diff algebra_simps)

lemma skip_zeros_spec:
  assumes "modulus e m" "z = new_Montgomery e m" "exponent_ok e ex N P j i" "residue e m (x ^ (N div 2 ^ P)) r"
  shows "\<exists>P' j' i' r' r2'. skip_zeros e z ex j i r r2 = Some (j', i', r', r2') \<and> P' \<le> P \<and> exponent_ok e ex N P' j' i' \<and>
    (0 < P' \<longrightarrow> bit N (P' - 1)) \<and> residue e m (x ^ (N div 2 ^ P')) r'"
  using assms(3,4)
proof (induction P arbitrary: j i r r2)
  case 0
  then have "j < 0" using position_end unfolding exponent_ok_def by blast
  then show ?case using 0 by (subst skip_zeros.simps) auto
next
  case (Suc P)
  then have j: "0 \<le> j" using position_end unfolding exponent_ok_def by (metis nat.distinct(1) not_le)
  show ?case
  proof (cases "bit N P")
    case True
    then have "skip_zeros e z ex j i r r2 = Some (j, i, r, r2)" using bit_test [OF Suc.prems(1) j] by (subst skip_zeros.simps) simp
    then show ?thesis using Suc.prems True by (intro exI [of _ "Suc P"]) auto
  next
    case False
    from sqrTo_residue [OF assms(1,2) Suc.prems(2), of r2] obtain a where
      a: "sqrTo e z r r2 = Some a" "residue e m (x ^ (N div 2 ^ Suc P) * x ^ (N div 2 ^ Suc P)) a" by blast
    have "even (drop_bit P N)" using False by (simp add: bit_iff_odd_drop_bit)
    then have "take_bit 1 (drop_bit P N) = 0" by (simp add: take_bit_eq_mod even_iff_mod_2_eq_zero)
    then have "N div 2 ^ P = N div 2 ^ Suc P + N div 2 ^ Suc P" using more_bits [of 1 "Suc P" N] by simp
    then have res: "residue e m (x ^ (N div 2 ^ P)) a" using a(2) by (simp only: power_add)
    define j' i' where ji: "j' = (if i - int 1 < 0 then j - 1 else j)" "i' = (if i - int 1 < 0 then i - int 1 + int (dbits e) else i - int 1)"
    have "1 \<le> dbits e" using dbits_bounds [of e] by simp
    from step_down [OF Suc.prems(1) _ _ this ji] have "exponent_ok e ex N P j' i'" by simp
    from Suc.IH [OF this res, of r] obtain P' j2 i2 r' r2' where
      IH: "skip_zeros e z ex j' i' a r = Some (j2, i2, r', r2')" "P' \<le> P" "exponent_ok e ex N P' j2 i2"
        "0 < P' \<longrightarrow> bit N (P' - 1)" "residue e m (x ^ (N div 2 ^ P')) r'" by blast
    have z: "js_and (digit_at (bi_d ex) j) (js_shl 1 (nat i)) = 0" using bit_test [OF Suc.prems(1) j] False by simp
    have i0: "i - 1 < 0 \<Longrightarrow> i - 1 + int (dbits e) = int (dbits e) - 1" using Suc.prems(1) by (simp add: exponent_ok_def position_def)
    have "skip_zeros e z ex j i r r2 = Some (j2, i2, r', r2')"
      using IH(1) z j a(1) i0 unfolding ji by (subst skip_zeros.simps) (simp split: if_splits)
    then show ?thesis using IH by (intro exI [of _ P']) auto
  qed
qed

text \<open>One turn of the loop: a window, and the zeros behind it.\<close>

lemma power_turn:
  assumes "modulus e m" "z = new_Montgomery e m" "exponent_ok e ex N P j i" "0 < P" "bit N (P - 1)" "1 \<le> k" "k \<le> 6"
    "\<forall>n. odd n \<longrightarrow> n < 2 ^ k \<longrightarrow> residue e m (x ^ n) (g n)"
    "if is1 then N div 2 ^ P = 0 else residue e m (x ^ (N div 2 ^ P)) r"
  shows "\<exists>P' j' i' r' r2'. P' < P \<and> exponent_ok e ex N P' j' i' \<and> (0 < P' \<longrightarrow> bit N (P' - 1)) \<and>
    residue e m (x ^ (N div 2 ^ P')) r' \<and> power_loop e z ex k g j i is1 r r2 = power_loop e z ex k g j' i' False r' r2'"
proof -
  have pos: "position e P j i" "bn_ok e ex" "bn_val e ex = int N" "j < int (bi_t ex)" using assms(3) by (simp_all add: exponent_ok_def)
  have j: "0 \<le> j" using position_end [OF pos(1)] assms(4) by linarith
  define w where "w = window_of N P k"
  note win = window_spec [OF pos(2,3,1) j pos(4) assms(6,7), folded w_def]
  have "(2 :: nat) ^ k \<le> 2 ^ 6" using assms(7) by (intro power_increasing) simp_all
  then have w: "0 < w" "w < 2 ^ 31" using window_bounds [OF assms(6,4,5)] by (simp_all add: w_def)
  from strip_zeros_spec [OF w, of "int k"] obtain d where
    d: "odd (w div 2 ^ d)" "2 ^ d dvd w" "strip_zeros (int w) (int k) = Some (int (w div 2 ^ d), int k - int d)" by blast
  note ws = window_stripped [OF assms(6,4,5) w_def d(1,2)]
  define n w' where nw: "n = k - d" "w' = w div 2 ^ d"
  have sz: "strip_zeros (window e ex k j i) (int k) = Some (int w', int n)" using d(3) ws(1) by (simp add: win nw of_nat_diff)
  have n: "n \<le> P" "n \<le> dbits e" "0 < n" using ws(1,2) assms(7) dbits_bounds [of e] by (simp_all add: nw)
  have bits: "N div 2 ^ (P - n) = N div 2 ^ P * 2 ^ n + w'" using more_bits [OF n(1), of N] ws(3) by (simp add: nw)
  have "w' < 2 ^ n" using ws(3) by (simp add: nw)
  also have "\<dots> \<le> 2 ^ k" by (intro power_increasing) (simp_all add: nw)
  finally have g: "residue e m (x ^ w') (g w')" using assms(8) d(1) by (simp add: nw)
  define j1 i1 where ji: "j1 = (if i - int n < 0 then j - 1 else j)" "i1 = (if i - int n < 0 then i - int n + int (dbits e) else i - int n)"
  note down = step_down [OF assms(3,4) n(1,2) ji]
  define body where "body = (if is1 then Some (copyTo (g w') r, r2)
       else do { (ra, rb) \<leftarrow> square_pairs e z n (r, r2); rc \<leftarrow> mulTo e z rb (g w') ra; Some (rc, rb) })"
  have "\<exists>ra rb. body = Some (ra, rb) \<and> residue e m (x ^ (N div 2 ^ (P - n))) ra"
  proof (cases is1)
    case True
    then have "N div 2 ^ (P - n) = w'" using bits assms(9) by simp
    then show ?thesis using True g by (simp add: body_def copy_residue)
  next
    case False
    with assms(9) have "residue e m (x ^ (N div 2 ^ P)) r" by simp
    from square_pairs_spec [OF assms(1,2) this, of n r2] obtain ra rb where
      sq: "square_pairs e z n (r, r2) = Some (ra, rb)" "residue e m ((x ^ (N div 2 ^ P)) ^ (2 ^ n)) rb" by blast
    from mulTo_residue [OF assms(1,2) sq(2) g, of ra] obtain rc where
      rc: "mulTo e z rb (g w') ra = Some rc" "residue e m ((x ^ (N div 2 ^ P)) ^ (2 ^ n) * x ^ w') rc" by blast
    have "(x ^ (N div 2 ^ P)) ^ (2 ^ n) * x ^ w' = x ^ (N div 2 ^ (P - n))" unfolding bits by (simp add: power_mult power_add)
    then show ?thesis using False sq(1) rc by (simp add: body_def)
  qed
  then obtain ra rb where b: "body = Some (ra, rb)" "residue e m (x ^ (N div 2 ^ (P - n))) ra" by blast
  from skip_zeros_spec [OF assms(1,2) down b(2), of rb] obtain P' j2 i2 r' r2' where
    s: "skip_zeros e z ex j1 i1 ra rb = Some (j2, i2, r', r2')" "P' \<le> P - n" "exponent_ok e ex N P' j2 i2"
      "0 < P' \<longrightarrow> bit N (P' - 1)" "residue e m (x ^ (N div 2 ^ P')) r'" by blast
  have split: "(if i - int n < 0 then (j - 1, i - int n + int (dbits e)) else (j, i - int n)) = (j1, i1)" by (simp add: ji)
  have "power_loop e z ex k g j i is1 r r2 = power_loop e z ex k g j2 i2 False r' r2'"
  proof -
    have "\<not> j < 0" using j by simp
    then have "power_loop e z ex k g j i is1 r r2 = Option.bind body (\<lambda>(r', r2'). Option.bind (skip_zeros e z ex j1 i1 r' r2')
        (\<lambda>(j2, i2, r'', r2''). power_loop e z ex k g j2 i2 False r'' r2''))"
      by (subst power_loop.simps) (simp only: sz bind.bind_lunit prod.case Let_def split nat_int body_def if_False)
    then show ?thesis by (simp add: b(1) s(1))
  qed
  moreover have "P' < P" using s(2) n assms(4) by simp
  ultimately show ?thesis using s(3-5) by blast
qed

lemma power_loop_spec:
  assumes "modulus e m" "z = new_Montgomery e m" "exponent_ok e ex N P j i" "0 < P \<longrightarrow> bit N (P - 1)" "1 \<le> k" "k \<le> 6"
    "\<forall>n. odd n \<longrightarrow> n < 2 ^ k \<longrightarrow> residue e m (x ^ n) (g n)" "residue e m (x ^ (N div 2 ^ P)) r"
  shows "\<exists>r'. power_loop e z ex k g j i False r r2 = Some r' \<and> residue e m (x ^ N) r'"
  using assms(3,4,8)
proof (induction P arbitrary: j i r r2 rule: less_induct)
  case (less P)
  show ?case
  proof (cases "P = 0")
    case True
    then have "j < 0" using position_end less.prems(1) unfolding exponent_ok_def by blast
    then show ?thesis using less.prems(3) True by (subst power_loop.simps) simp
  next
    case False
    then have P: "0 < P" "bit N (P - 1)" using less.prems(2) by simp_all
    have r: "if False then N div 2 ^ P = 0 else residue e m (x ^ (N div 2 ^ P)) r" using less.prems(3) by simp
    from power_turn [OF assms(1,2) less.prems(1) P assms(5-7) r, of r2] obtain P' j' i' r' r2' where
      t: "P' < P" "exponent_ok e ex N P' j' i'" "0 < P' \<longrightarrow> bit N (P' - 1)" "residue e m (x ^ (N div 2 ^ P')) r'"
        "power_loop e z ex k g j i False r r2 = power_loop e z ex k g j' i' False r' r2'" by blast
    show ?thesis unfolding t(5) by (rule less.IH [OF t(1-4)])
  qed
qed

section \<open>Modular powers\<close>

lemma window_bits_bounds: "1 \<le> window_bits i" "window_bits i \<le> 6"
  by (simp_all add: window_bits_def)

theorem modPow_spec:
  assumes "e \<noteq> AM1" "bn_ok e x" "bn_ok e ex" "0 < bn_val e ex" "modulus e m"
  shows "\<exists>r. modPow e x ex m = Some (True, r) \<and> bn_ok e r \<and> bn_val e r = bn_val e x ^ nat (bn_val e ex) mod bn_val e m"
proof -
  define N P z k j i where d: "N = nat (bn_val e ex)" "P = bitLength e ex" "z = new_Montgomery e m" "k = window_bits P"
    "j = int (bi_t ex) - 1" "i = int (nbits (digit_at (bi_d ex) j)) - 1"
  have N: "bn_val e ex = int N" using assms(4) by (simp add: d)
  note len = bitLength_spec [OF assms(3,4), folded d(2)]
  have s: "bi_s ex = 0" using val_sign [OF bn_ok_raw [OF assms(3)]] assms(4) by simp
  obtain t where t: "bi_t ex = Suc t" using assms(4) s by (cases "bi_t ex") (simp_all add: bn_val_def)
  define top where "top = bi_d ex t"
  have top: "0 < top" "top < base e"
    using assms(3) s t by (auto simp: bn_ok_def digits_ok_Suc top_def order_less_le)
  have t31: "top < 2 ^ 31" using top(2) base_bounds(2) [of e] by simp
  note nb = nbits_spec [OF top(1) t31]
  have "js_xor top (js_and 0 (DM e)) = top" using top t31 by (simp add: js_xor_def and_DM)
  then have P: "P = dbits e * t + nbits top" by (simp add: d(2) bitLength_def t s top_def)
  have dig: "digit_at (bi_d ex) j = top" by (simp add: d t digit_at_def top_def)
  have "2 ^ (nbits top - 1) < (2 :: int) ^ dbits e" using nb(2) top(2) by linarith
  then have nbd: "nbits top - 1 < dbits e" using power_less_imp_less_exp [of "2 :: int"] by simp
  have ex: "exponent_ok e ex N P j i"
    using nb(1) nbd assms(3) N unfolding exponent_ok_def position_def d(5,6) dig [unfolded d(5)] by (simp add: t P of_nat_diff)
  have "2 ^ (P - 1) \<le> int N" "int N < 2 ^ P" using len N by simp_all
  then have NP: "2 ^ (P - 1) \<le> N" "N < 2 ^ P" by (simp_all flip: of_nat_le_iff of_nat_less_iff)
  have P0: "0 < P" using len by simp
  have bitP: "bit N (P - 1)"
  proof -
    have "N div 2 ^ (P - 1) = 1"
    proof (rule div_nat_eqI)
      have "2 ^ P = 2 * (2 :: nat) ^ (P - 1)" using P0 by (cases P) simp_all
      then show "N < 2 ^ (P - 1) * Suc 1" "2 ^ (P - 1) * 1 \<le> N" using NP by simp_all
    qed
    then show ?thesis by (simp add: bit_iff_odd)
  qed
  note kb = window_bits_bounds [of P, folded d(4)]
  from power_table_spec [OF assms(1,5) d(3) assms(2) kb(1)] obtain g where
    g: "power_table e z k x = Some g" "\<forall>n. odd n \<longrightarrow> n < 2 ^ k \<longrightarrow> residue e m (bn_val e x ^ n) (g n)" by blast
  have start: "if True then N div 2 ^ P = 0 else residue e m (bn_val e x ^ (N div 2 ^ P)) (nbv e 1)" using NP(2) by simp
  from power_turn [OF assms(5) d(3) ex P0 bitP kb g(2) start, of nbi] obtain P' j' i' r' r2' where
    turn: "exponent_ok e ex N P' j' i'" "0 < P' \<longrightarrow> bit N (P' - 1)" "residue e m (bn_val e x ^ (N div 2 ^ P')) r'"
      "power_loop e z ex k g j i True (nbv e 1) nbi = power_loop e z ex k g j' i' False r' r2'" by blast
  from power_loop_spec [OF assms(5) d(3) turn(1,2) kb g(2) turn(3), of r2'] obtain p where
    p: "power_loop e z ex k g j i True (nbv e 1) nbi = Some p" "residue e m (bn_val e x ^ N) p" unfolding turn(4) by blast
  from revert_residue [OF assms(5) d(3) p(2)] obtain r where
    r: "revert e z p = Some r" "bn_ok e r" "bn_val e r = bn_val e x ^ N mod bn_val e m" by blast
  have "modPow e x ex m = Some (True, r)"
    unfolding modPow_def Let_def d(2) [symmetric] d(3) [symmetric] d(4) [symmetric] d(5) [symmetric] d(6) [symmetric]
    using P0 g(1) p(1) r(1) by simp
  then show ?thesis using r by (simp add: d(1))
qed

end
