(* ===== verification/BigIntegerProperties.thy ===== *)
theory BigIntegerProperties
  imports ModPowProofs
begin

text \<open>
  What the integers of the login protocol promise, for every engine (for the engines of 28 and 30 bits where the
  quotients are estimated), and the inputs on which modular powers do not call back or fail.
\<close>

lemma small_number:
  assumes "\<bar>i\<bar> < 2 ^ 26"
  shows "bn_ok e (nbv e i)" "bn_val e (nbv e i) = i"
  using assms base_bounds(1) [of e] by (intro val_nbv; simp)+

text \<open>With exponent 0, \<open>modPow\<close> returns 1 and never calls back.\<close>

lemma exponent_zero_never_calls_back: "bi_t ex = 0 \<Longrightarrow> modPow e x ex m = Some (False, nbv e 1)"
  by (simp add: modPow_def bitLength_def Let_def)

text \<open>
  C1. For a base, an exponent that is not negative and a positive odd modulus, all in normal form, on an engine with digits of
  28 or 30 bits: \<open>modPow\<close>, with windows of the exponent and Montgomery's reduction, ends, and calls its callback exactly if the
  exponent is not 0. It then hands over the power modulo the modulus; with exponent 0 it returns 1 without a callback.
\<close>

theorem modPow_computes_power:
  assumes "e \<noteq> AM1" "bn_ok e x" "bn_ok e ex" "0 \<le> bn_val e ex" "bn_ok e m" "0 < bn_val e m" "odd (bn_val e m)"
  shows "\<exists>r. modPow e x ex m = Some (0 < bn_val e ex, r) \<and> bn_ok e r \<and>
    bn_val e r = (if 0 < bn_val e ex then bn_val e x ^ nat (bn_val e ex) mod bn_val e m else 1)"
proof (cases "0 < bn_val e ex")
  case True
  then show ?thesis using modPow_spec [OF assms(1-3) True] assms(5-7) by (simp add: modulus_def)
next
  case False
  then have "bi_t ex = 0" using zero_has_no_digits [OF assms(3)] assms(4) by simp
  then show ?thesis using exponent_zero_never_calls_back small_number [of 1 e] False by simp
qed

theorem modPow_computes_power_witness:
  "\<exists>r. modPow AM3 (nbv AM3 3) (nbv AM3 5) (nbv AM3 7) = Some (True, r) \<and> bn_ok AM3 r \<and> bn_val AM3 r = 5"
  using modPow_computes_power [of AM3 "nbv AM3 3" "nbv AM3 5" "nbv AM3 7"] small_number [of 3 AM3] small_number [of 5 AM3] small_number [of 7 AM3]
  by simp



text \<open>
  C22. The three routines that multiply a number by a digit, by floating-point numbers or by half digits, compute the same:
  the digits and the last carry are the sum of the old digits, the product and the first carry.
\<close>

theorem routines_multiply_by_a_digit:
  assumes "0 \<le> x" "x < base e" "\<And>k. k < n \<Longrightarrow> 0 \<le> a (i + k) \<and> a (i + k) < base e" "\<And>k. k < n \<Longrightarrow> 0 \<le> w (j + k) \<and> w (j + k) < base e"
    "0 \<le> c" "c \<le> base e"
  shows "\<exists>w' c'. am e a i x w j c n = (w', c') \<and> (\<forall>k < n. 0 \<le> w' (j + k) \<and> w' (j + k) < base e) \<and> 0 \<le> c' \<and> c' \<le> base e \<and>
    dsum e (\<lambda>k. w' (j + k)) n + c' * base e ^ n = dsum e (\<lambda>k. w (j + k)) n + x * dsum e (\<lambda>k. a (i + k)) n + c"
proof -
  obtain w' c' where run: "am e a i x w j c n = (w', c')" by fastforce
  have b: "x \<le> 2 * base e - 2" "c \<le> 2 * base e - 2" "x \<le> base e" using assms(2,6) base_bounds(4) [of e] by simp_all
  have "digits_ok e (\<lambda>k. a (i + k)) n" "digits_ok e (\<lambda>k. w (j + k)) n" using assms(3,4) by (simp_all add: digits_ok_def)
  note spec = am_spec [OF assms(1) b(1) this assms(5) b(2) run]
  then show ?thesis using run b(3) assms(6) by (auto simp: digits_ok_def)
qed

theorem routines_multiply_by_a_digit_witness:
  "\<exists>w' c'. am AM2 (\<lambda>_. 2 ^ 29) 0 6 (\<lambda>_. 1) 0 7 1 = (w', c') \<and> w' 0 + c' * 2 ^ 30 = 8 + 6 * 2 ^ 29"
  using routines_multiply_by_a_digit [of 6 AM2 1 "\<lambda>_. 2 ^ 29" 0 "\<lambda>_. 1" 0 7] by (auto simp: dsum_Suc)

text \<open>C34. The routine for squares, which computes each product of two digits once, gives the same number as the product.\<close>

theorem square_is_product:
  assumes "bn_ok e x"
  shows "bn_equals (squareTo e x r) (multiplyTo e x x r')"
proof -
  note sq = squareTo_spec [OF assms, of r] and mu = multiplyTo_spec [OF assms assms, of r']
  show ?thesis using compareTo_spec [OF sq(1) mu(1)] sq(2) mu(2) by (simp add: bn_equals_def power2_eq_square sgn_0_0)
qed

theorem square_is_product_witness:
  "bn_equals (squareTo AM3 (nbv AM3 (- 12345)) nbi) (multiplyTo AM3 (nbv AM3 (- 12345)) (nbv AM3 (- 12345)) nbi)"
  using square_is_product [OF small_number(1) [of "- 12345" AM3], of nbi nbi] by simp

text \<open>C35. Subtracting what was added gives the number again, whatever the signs, lengths and the objects that are overwritten.\<close>

theorem sum_minus_summand:
  assumes "bn_ok e x" "bn_ok e a"
  shows "bn_equals (subTo e (addTo e x a r) a r') x"
proof -
  note add = addTo_spec [OF bn_ok_raw [OF assms(1)] bn_ok_raw [OF assms(2)], of r]
  note sub = subTo_spec [OF bn_ok_raw [OF add(1)] bn_ok_raw [OF assms(2)], of r']
  show ?thesis using compareTo_spec [OF sub(1) assms(1)] sub(2) add(2) by (simp add: bn_equals_def sgn_0_0)
qed

theorem sum_minus_summand_witness:
  "bn_equals (subTo AM1 (addTo AM1 (nbv AM1 (- 1)) (nbv AM1 67108863) nbi) (nbv AM1 67108863) nbi) (nbv AM1 (- 1))"
  using sum_minus_summand [OF small_number(1) [of "- 1" AM1] small_number(1) [of 67108863 AM1], of nbi nbi] by simp

text \<open>C39. Numbers are compared by their value.\<close>

theorem compareTo_is_order:
  assumes "bn_ok e x" "bn_ok e a"
  shows "sgn (compareTo x a) = sgn (bn_val e x - bn_val e a)"
  using assms by (rule compareTo_spec)

theorem compareTo_is_order_witness: "sgn (compareTo (nbv AM3 (- 2)) (nbv AM3 1)) = - 1"
  using compareTo_is_order [OF small_number(1) [of "- 2" AM3] small_number(1) [of 1 AM3]] small_number(2) [of "- 2" AM3] small_number(2) [of 1 AM3]
  by simp

section \<open>Where powers fail\<close>

text \<open>An even modulus has no inverse of its lowest digit; 0 is taken for it.\<close>

lemma even_modulus_has_no_inverse: "bi_d m 0 mod 2 = 0 \<Longrightarrow> invDigit e m = 0"
  by (simp add: invDigit_def Let_def mask_bits)

end
