(* ===== verification/Srp.thy ===== *)
theory Srp
  imports ModularArithmetic DataStoreUtil
begin

text \<open>
  The SRP protocol of the login (\<open>auth/src/providers/cognito/utils/srp\<close>): texts of bytes and numbers, the values
  \<open>A\<close>, \<open>U\<close> and \<open>S\<close> and the class \<open>AuthenticationHelper\<close>. The hash functions (\<open>@aws-crypto/sha256-js\<close>), the encoder
  of texts, base64 and the random numbers are parameters. A promise is resolved, rejected or never settled; \<open>None\<close>
  stands for a loop that does not end.
\<close>

section \<open>Bytes\<close>

type_synonym octets = "8 word list"

fun decode_pairs :: "string \<Rightarrow> js_error + octets" where
  "decode_pairs (a # b # s) =
     (let byte = map to_lower [a, b]
      in case map_of HEX_TO_SHORT byte of
           None \<Rightarrow> Inl (JsError (''Cannot decode unrecognized sequence '' @ byte @ '' as hexadecimal''))
         | Some n \<Rightarrow> sbind (decode_pairs s) (\<lambda>ws. Inr (of_nat n # ws)))"
| "decode_pairs s = Inr []"

definition bytesFromHex :: "string \<Rightarrow> js_error + octets" where
  "bytesFromHex encoded =
     (if length encoded mod 2 \<noteq> 0 then Inl (JsError ''Hex encoded strings must have an even number length'')
      else decode_pairs encoded)"

definition getHexFromBytes :: "octets \<Rightarrow> string" where
  "getHexFromBytes ws = concat (map (\<lambda>w. encodedByte (unat w)) ws)"

text \<open>\<open>WordArray\<close>: 32-bit words and the number of bytes in use.\<close>

record word_array =
  wa_words :: "int list"
  wa_sigBytes :: nat

definition hexStringify :: "word_array \<Rightarrow> string" where
  "hexStringify a =
     concat (map (\<lambda>i. let bite = js_and (js_ushr (wa_words a ! (i div 4)) (24 - i mod 4 * 8)) 0xff
                      in [hex_digits ! nat (js_ushr bite 4), hex_digits ! nat (js_and bite 0x0f)])
       [0..<wa_sigBytes a])"

text \<open>\<open>random\<close> takes the next numbers of the generator.\<close>

definition random_words :: "(nat \<Rightarrow> int) \<Rightarrow> nat \<Rightarrow> word_array" where
  "random_words rnd nBytes = \<lparr>wa_words = map rnd [0..<(nBytes + 3) div 4], wa_sigBytes = nBytes\<rparr>"

definition getRandomBytes :: "(nat \<Rightarrow> int) \<Rightarrow> nat \<Rightarrow> js_error + octets" where
  "getRandomBytes rnd nBytes = bytesFromHex (hexStringify (random_words rnd nBytes))"

definition getRandomString :: "(octets \<Rightarrow> string) \<Rightarrow> (nat \<Rightarrow> int) \<Rightarrow> js_error + string" where
  "getRandomString base64 rnd = sbind (getRandomBytes rnd 40) (\<lambda>ws. Inr (base64 ws))"

section \<open>Numbers as texts of bytes\<close>

definition js_not :: "int \<Rightarrow> int" where "js_not x = - toInt32 x - 1"

text \<open>\<open>/^[89a-f]/i\<close>\<close>

definition msb_set :: "string \<Rightarrow> bool" where
  "msb_set s = (case s of [] \<Rightarrow> False | c # _ \<Rightarrow> c \<in> set ''89abcdefABCDEF'')"

definition invert_nibble :: "char \<Rightarrow> char" where
  "invert_nibble c = ''0123456789ABCDEF'' ! nat (js_and (js_not (intAt c)) 0xf)"

definition to_upper :: "char \<Rightarrow> char" where
  "to_upper c = (if CHR ''a'' \<le> c \<and> c \<le> CHR ''z'' then char_of (of_char c - 32 :: nat) else c)"

definition pad_even :: "string \<Rightarrow> string" where
  "pad_even s = (if length s mod 2 \<noteq> 0 then CHR ''0'' # s else s)"

definition getPaddedHex :: "am_engine \<Rightarrow> bigint \<Rightarrow> string" where
  "getPaddedHex e x =
     (let isNegative = compareTo x (ZERO e) < 0;
          h1 = pad_even (bn_toString e Radix16 (bn_abs e x));
          h2 = (if msb_set h1 then ''00'' @ h1 else h1)
      in if isNegative then
           (let flipped = bn_add e (fromString e (map invert_nibble h2) Radix16 nbi) (ONE e);
                h3 = bn_toString e Radix16 flipped
            in if startsWith (map to_upper h3) ''FF8'' then drop 2 h3 else h3)
         else h2)"

section \<open>Hashes\<close>

datatype source_data = Text string | Bytes octets

definition getHashFromData :: "(source_data \<Rightarrow> octets) \<Rightarrow> source_data \<Rightarrow> js_error + string" where
  "getHashFromData sha256 d =
     (let h = getHexFromBytes (sha256 d)
      in if 64 < length h then Inl JsRangeError else Inr (replicate (64 - length h - 1) CHR ''0'' @ h))"

definition getHashFromHex :: "(source_data \<Rightarrow> octets) \<Rightarrow> string \<Rightarrow> js_error + string" where
  "getHashFromHex sha256 h = sbind (bytesFromHex h) (\<lambda>ws. getHashFromData sha256 (Bytes ws))"

text \<open>\<open>hmac key data\<close> is the digest with a key.\<close>

definition getHkdfKey :: "(octets \<Rightarrow> octets \<Rightarrow> octets) \<Rightarrow> octets \<Rightarrow> octets \<Rightarrow> octets \<Rightarrow> octets" where
  "getHkdfKey hmac ikm salt info = take 16 (hmac (hmac salt ikm) info)"

section \<open>The values of the protocol\<close>

datatype 'a settled = Resolved 'a | Rejected js_error | Pending

definition number_of_hex :: "am_engine \<Rightarrow> string \<Rightarrow> bigint" where
  "number_of_hex e h = fromString e h Radix16 nbi"

definition calculateA :: "am_engine \<Rightarrow> bigint \<Rightarrow> bigint \<Rightarrow> bigint \<Rightarrow> bigint settled option" where
  "calculateA e a g N =
     do {
       (called, A) \<leftarrow> modPow e g a N;
       if \<not> called then Some Pending
       else do {
         r \<leftarrow> bn_mod e A N;
         Some (if bn_equals r (ZERO e) then Rejected (JsError ''Illegal parameter. A mod N cannot be 0.'') else Resolved A)
       }
     }"

definition calculateU :: "am_engine \<Rightarrow> (source_data \<Rightarrow> octets) \<Rightarrow> bigint \<Rightarrow> bigint \<Rightarrow> js_error + bigint" where
  "calculateU e sha256 A B =
     sbind (getHashFromHex sha256 (getPaddedHex e A @ getPaddedHex e B)) (\<lambda>h.
       let U = number_of_hex e h
       in if bn_equals U (ZERO e) then Inl (JsError ''U cannot be zero.'') else Inr U)"

definition calculateS ::
  "am_engine \<Rightarrow> bigint \<Rightarrow> bigint \<Rightarrow> bigint \<Rightarrow> bigint \<Rightarrow> bigint \<Rightarrow> bigint \<Rightarrow> bigint \<Rightarrow> bigint settled option" where
  "calculateS e a g k x B N U =
     do {
       (called, outerResult) \<leftarrow> modPow e g x N;
       if \<not> called then Some Pending
       else do {
         (called, innerResult) \<leftarrow> modPow e (bn_subtract e B (bn_multiply e k outerResult)) (bn_add e a (bn_multiply e U x)) N;
         if \<not> called then Some Pending
         else do {
           S \<leftarrow> bn_mod e innerResult N;
           Some (Resolved S)
         }
       }
     }"

section \<open>\<open>AuthenticationHelper\<close>\<close>

record auth_helper =
  ah_userPoolName :: string
  ah_randomPassword :: "string option"
  ah_saltToHashDevices :: "string option"
  ah_verifierDevices :: "string option"
  ah_a :: bigint
  ah_N :: bigint
  ah_g :: bigint
  ah_k :: bigint
  ah_A :: bigint

definition new_AuthenticationHelper ::
  "am_engine \<Rightarrow> (source_data \<Rightarrow> octets) \<Rightarrow> string \<Rightarrow> bigint \<Rightarrow> bigint \<Rightarrow> bigint \<Rightarrow> bigint \<Rightarrow> js_error + auth_helper" where
  "new_AuthenticationHelper e sha256 userPoolName a g A N =
     sbind (getHashFromHex sha256 (getPaddedHex e N @ getPaddedHex e g)) (\<lambda>h.
       Inr \<lparr>ah_userPoolName = userPoolName, ah_randomPassword = None, ah_saltToHashDevices = None, ah_verifierDevices = None,
            ah_a = a, ah_N = N, ah_g = g, ah_k = number_of_hex e h, ah_A = A\<rparr>)"

text \<open>A text that is missing or empty throws.\<close>

definition present :: "string \<Rightarrow> string option \<Rightarrow> js_error + string" where
  "present msg v = (case v of None \<Rightarrow> Inl (JsError msg) | Some s \<Rightarrow> if s = [] then Inl (JsError msg) else Inr s)"

definition getRandomPassword :: "auth_helper \<Rightarrow> js_error + string" where
  "getRandomPassword h = present ''random password is empty'' (ah_randomPassword h)"

definition getSaltToHashDevices :: "auth_helper \<Rightarrow> js_error + string" where
  "getSaltToHashDevices h = present ''saltToHashDevices is empty'' (ah_saltToHashDevices h)"

definition getVerifierDevices :: "auth_helper \<Rightarrow> js_error + string" where
  "getVerifierDevices h = present ''verifyDevices is empty'' (ah_verifierDevices h)"

text \<open>\<open>password\<close> is the random text and \<open>salt\<close> the random bytes that are drawn.\<close>

definition generateHashDevice ::
  "am_engine \<Rightarrow> (source_data \<Rightarrow> octets) \<Rightarrow> string \<Rightarrow> octets \<Rightarrow> string \<Rightarrow> string \<Rightarrow> auth_helper \<Rightarrow> (unit settled \<times> auth_helper) option" where
  "generateHashDevice e sha256 password salt deviceGroupKey username h0 =
     (let h1 = h0\<lparr>ah_randomPassword := Some password\<rparr>
      in case getHashFromData sha256 (Text (deviceGroupKey @ username @ '':'' @ password)) of
           Inl err \<Rightarrow> Some (Rejected err, h1)
         | Inr hashedString \<Rightarrow>
             (let saltHex = getPaddedHex e (number_of_hex e (getHexFromBytes salt));
                  h2 = h1\<lparr>ah_saltToHashDevices := Some saltHex\<rparr>
              in case getHashFromHex sha256 (saltHex @ hashedString) of
                   Inl err \<Rightarrow> Some (Rejected err, h2)
                 | Inr x \<Rightarrow>
                     do {
                       (called, result) \<leftarrow> modPow e (ah_g h2) (number_of_hex e x) (ah_N h2);
                       Some (if called then (Resolved (), h2\<lparr>ah_verifierDevices := Some (getPaddedHex e result)\<rparr>) else (Pending, h2))
                     }))"

definition getPasswordAuthenticationKey ::
  "am_engine \<Rightarrow> (source_data \<Rightarrow> octets) \<Rightarrow> (octets \<Rightarrow> octets \<Rightarrow> octets) \<Rightarrow> (string \<Rightarrow> octets) \<Rightarrow>
    auth_helper \<Rightarrow> string \<Rightarrow> string \<Rightarrow> bigint \<Rightarrow> bigint \<Rightarrow> octets settled option" where
  "getPasswordAuthenticationKey e sha256 hmac encode h username password B salt =
     do {
       r \<leftarrow> bn_mod e B (ah_N h);
       if bn_equals r (ZERO e) then Some (Rejected (JsError ''B cannot be zero.''))
       else
         (case sbind (calculateU e sha256 (ah_A h) B) (\<lambda>U.
                 sbind (getHashFromData sha256 (Text (ah_userPoolName h @ username @ '':'' @ password))) (\<lambda>uph.
                 sbind (getHashFromHex sha256 (getPaddedHex e salt @ uph)) (\<lambda>x. Inr (U, number_of_hex e x)))) of
            Inl err \<Rightarrow> Some (Rejected err)
          | Inr (U, x) \<Rightarrow>
              do {
                s \<leftarrow> calculateS e (ah_a h) (ah_g h) (ah_k h) x B (ah_N h) U;
                Some (case s of
                   Resolved S \<Rightarrow>
                     (case sbind (bytesFromHex (getPaddedHex e S)) (\<lambda>ikm.
                             sbind (bytesFromHex (getPaddedHex e U)) (\<lambda>salt'.
                               Inr (getHkdfKey hmac ikm salt' (encode ''Caldera Derived Key'' @ encode [CHR 0x01])))) of
                        Inl err \<Rightarrow> Rejected err
                      | Inr key \<Rightarrow> Resolved key)
                 | Rejected err \<Rightarrow> Rejected err
                 | Pending \<Rightarrow> Pending)
              })
     }"

definition INIT_N :: string where
  "INIT_N =
     ''FFFFFFFFFFFFFFFFC90FDAA22168C234C4C6628B80DC1CD1'' @
     ''29024E088A67CC74020BBEA63B139B22514A08798E3404DD'' @
     ''EF9519B3CD3A431B302B0A6DF25F14374FE1356D6D51C245'' @
     ''E485B576625E7EC6F44C42E9A637ED6B0BFF5CB6F406B7ED'' @
     ''EE386BFB5A899FA5AE9F24117C4B1FE649286651ECE45B3D'' @
     ''C2007CB8A163BF0598DA48361C55D39A69163FA8FD24CF5F'' @
     ''83655D23DCA3AD961C62F356208552BB9ED529077096966D'' @
     ''670C354E4ABC9804F1746C08CA18217C32905E462E36CE3B'' @
     ''E39E772C180E86039B2783A2EC07A28FB5C55DF06F4C52C9'' @
     ''DE2BCBF6955817183995497CEA956AE515D2261898FA0510'' @
     ''15728E5A8AAAC42DAD33170D04507A33A85521ABDF1CBA64'' @
     ''ECFB850458DBEF0A8AEA71575D060C7DB3970F85A6E1E4C7'' @
     ''ABF5AE8CDB0933D71E8C94E04A25619DCEE3D2261AD2EE6B'' @
     ''F12FFA06D98A0864D87602733EC86A64521F2B18177B200C'' @
     ''BBE117577A615D6C770988C0BAD946E208E24FA074E5AB31'' @
     ''43DB5BFCE0FD108E4B82D120A93AD2CAFFFFFFFFFFFFFFFF''"

definition generateRandomBigInteger :: "am_engine \<Rightarrow> (nat \<Rightarrow> int) \<Rightarrow> js_error + bigint" where
  "generateRandomBigInteger e rnd = sbind (getRandomBytes rnd 128) (\<lambda>ws. Inr (number_of_hex e (getHexFromBytes ws)))"

definition getAuthenticationHelper ::
  "am_engine \<Rightarrow> (source_data \<Rightarrow> octets) \<Rightarrow> (nat \<Rightarrow> int) \<Rightarrow> string \<Rightarrow> auth_helper settled option" where
  "getAuthenticationHelper e sha256 rnd userPoolName =
     (let N = number_of_hex e INIT_N; g = number_of_hex e ''2''
      in case generateRandomBigInteger e rnd of
           Inl err \<Rightarrow> Some (Rejected err)
         | Inr a \<Rightarrow>
             do {
               A \<leftarrow> calculateA e a g N;
               Some (case A of
                  Resolved A \<Rightarrow>
                    (case new_AuthenticationHelper e sha256 userPoolName a g A N of Inl err \<Rightarrow> Rejected err | Inr h \<Rightarrow> Resolved h)
                | Rejected err \<Rightarrow> Rejected err
                | Pending \<Rightarrow> Pending)
             })"

section \<open>Signatures\<close>

text \<open>\<open>atob\<close> and \<open>base64\<close> are the decoder and the encoder of base64.\<close>

definition urlB64ToUint8Array :: "(string \<Rightarrow> string) \<Rightarrow> string \<Rightarrow> octets" where
  "urlB64ToUint8Array atob s =
     (let padding = replicate ((4 - length s mod 4) mod 4) CHR ''='';
          base64 = map (\<lambda>c. if c = CHR ''-'' then CHR ''+'' else if c = CHR ''_'' then CHR ''/'' else c) (s @ padding)
      in map (\<lambda>c. of_nat (of_char c)) (atob base64))"

definition getSignatureString ::
  "(string \<Rightarrow> octets) \<Rightarrow> (string \<Rightarrow> string) \<Rightarrow> (octets \<Rightarrow> string) \<Rightarrow> (octets \<Rightarrow> octets \<Rightarrow> octets) \<Rightarrow>
    string \<Rightarrow> string \<Rightarrow> string \<Rightarrow> string \<Rightarrow> octets \<Rightarrow> string" where
  "getSignatureString encode atob base64 hmac userPoolName username secretBlock dateNow hkdf =
     base64 (hmac hkdf (encode userPoolName @ encode username @ urlB64ToUint8Array atob secretBlock @ encode dateNow))"

end
