(* ===== verification/BigIntegerTexts.thy ===== *)
theory BigIntegerTexts
  imports ModPowProofs
begin

text \<open>
  Numbers as texts: the radix is a power of two, but its bits need not divide the bits of a digit, so a character can
  lie on two digits.
\<close>

section \<open>Reading\<close>

definition digit_chars :: "nat \<Rightarrow> string \<Rightarrow> bool" where
  "digit_chars k s \<longleftrightarrow> (\<forall>c \<in> set s. 0 \<le> intAt c \<and> intAt c < 2 ^ k)"

definition text_value :: "nat \<Rightarrow> string \<Rightarrow> int" where
  "text_value k s = foldl (\<lambda>v c. v * 2 ^ k + intAt c) 0 s"

lemma text_value_snoc: "text_value k (s @ [c]) = text_value k s * 2 ^ k + intAt c"
  by (simp add: text_value_def)

lemma text_value_Nil [simp]: "text_value k [] = 0"
  by (simp add: text_value_def)

lemma text_value_append: "text_value k (s @ s') = text_value k s * 2 ^ (k * length s') + text_value k s'"
  by (induction s' rule: rev_induct)
    (simp_all add: text_value_snoc power_add distrib_right del: append_assoc add: append_assoc [symmetric])

lemma text_value_bounds: "digit_chars k s \<Longrightarrow> 0 \<le> text_value k s \<and> text_value k s < 2 ^ (k * length s)"
proof (induction s rule: rev_induct)
  case (snoc c s)
  then have c: "0 \<le> intAt c" "intAt c < 2 ^ k" and s: "0 \<le> text_value k s" "text_value k s < 2 ^ (k * length s)" by (auto simp: digit_chars_def)
  have "(text_value k s + 1) * 2 ^ k \<le> 2 ^ (k * length s) * 2 ^ k" using s by (intro mult_right_mono) simp_all
  then show ?case using c s by (simp add: text_value_snoc power_add distrib_right mult.commute)
qed simp

lemma radix_bits_range: "1 \<le> radix_bits b" "radix_bits b \<le> 5"
  by (cases b; simp)+

text \<open>\<open>q\<close> bits have been read, with the value \<open>V\<close>.\<close>

definition reading :: "am_engine \<Rightarrow> nat \<Rightarrow> int \<Rightarrow> bigint \<Rightarrow> bool" where
  "reading e q V r \<longleftrightarrow> bi_s r = 0 \<and> digits_ok e (bi_d r) (bi_t r) \<and> dsum e (bi_d r) (bi_t r) = V \<and> V < 2 ^ q \<and>
     q \<le> bi_t r * dbits e \<and> bi_t r * dbits e < q + dbits e"

lemma fromString_step:
  assumes "reading e q V r" "0 \<le> intAt c" "intAt c < 2 ^ k" "1 \<le> k" "k \<le> 5" "sh = q mod dbits e"
  shows "\<exists>r'. fromString_loop e k (c # cs) mi sh r = fromString_loop e k cs False ((q + k) mod dbits e) r' \<and>
    reading e (q + k) (V + 2 ^ q * intAt c) r'"
proof -
  define x t d D where d: "x = intAt c" "t = bi_t r" "d = bi_d r" "D = dbits e"
  have D: "26 \<le> D" "D \<le> 30" using dbits_bounds by (simp_all add: d)
  have r: "bi_s r = 0" "digits_ok e d t" "dsum e d t = V" "V < 2 ^ q" "q \<le> t * D" "t * D < q + D" using assms(1) by (simp_all add: reading_def d)
  have x: "0 \<le> x" "x < 2 ^ k" using assms(2,3) by (simp_all add: d)
  have "(2 :: int) ^ k \<le> 2 ^ 5" using assms(5) by (intro power_increasing) simp_all
  then have x5: "x < 32" using x by simp
  have xb: "x < base e" using x5 base_bounds(1) [of e] by simp
  have "x * 2 ^ q < 2 ^ k * 2 ^ q" using x(2) by (intro mult_strict_right_mono) simp_all
  moreover have "(x + 1) * 2 ^ q \<le> 2 ^ k * 2 ^ q" using x(2) by (intro mult_right_mono) simp_all
  ultimately have new: "V + 2 ^ q * x < 2 ^ (q + k)" using r(4) by (simp add: power_add algebra_simps)
  have sh: "sh < D" using assms(6) D by (simp add: d)
  have shmod: "(q + k) mod D = (if D \<le> sh + k then sh + k - D else sh + k)"
  proof -
    have "(q + k) mod D = (sh + k) mod D" using assms(6) by (simp add: d mod_add_left_eq)
    then show ?thesis using sh D assms(5) by (simp add: mod_if)
  qed
  show ?thesis
  proof (cases "sh = 0")
    case True
    then have "D dvd q" using assms(6) by (simp add: d mod_eq_0_iff_dvd)
    then obtain u where u: "q = D * u" by (rule dvdE)
    have "u \<le> t" "t < Suc u" using r(5,6) D unfolding u by (simp_all add: mult.commute)
      (metis add.commute mult.commute mult_Suc_right mult_less_cancel1)
    then have q: "q = t * D" by (simp add: u mult.commute)
    define r' where "r' = r\<lparr>bi_d := d(t := x), bi_t := Suc t\<rparr>"
    have loop: "fromString_loop e k (c # cs) mi sh r = fromString_loop e k cs False ((q + k) mod D) r'"
      using True x shmod by (simp add: d [symmetric] r'_def Let_def)
    have "dsum e (d(t := x)) t = dsum e d t" by (rule dsum_cong) simp
    moreover have "base e ^ t = 2 ^ q" by (simp add: q d power_mult [symmetric] mult.commute)
    ultimately have sum: "dsum e (d(t := x)) (Suc t) = V + 2 ^ q * x" using r(3) by (simp add: dsum_Suc)
    have "digits_ok e (d(t := x)) (Suc t)" using r(2) x(1) xb by (auto simp: digits_ok_def less_Suc_eq)
    then have "reading e (q + k) (V + 2 ^ q * x) r'"
      using r(1) new sum q D assms(4,5) unfolding reading_def r'_def by (simp add: d(4) [symmetric])
    then show ?thesis using loop by (auto simp: d)
  next
    case False
    have "0 < q" using False assms(6) by (cases q) simp_all
    then have "0 < t" using r(5) by (cases t) simp_all
    then obtain u where u: "t = Suc u" by (cases t) simp_all
    define v where "v = q - u * D"
    have q: "q = u * D + v" "v \<le> D" "0 < v" using r(5,6) by (simp_all add: u v_def)
    have "v \<noteq> D" using False assms(6) q(1) by (auto simp: d)
    then have v: "v = sh" "q = u * D + sh" using q assms(6) by (simp_all add: d)
    have pow: "(2 :: int) ^ q = base e ^ u * 2 ^ sh" by (simp add: v(2) d power_add power_mult [symmetric] mult.commute)
    have low: "0 \<le> dsum e d u" "0 \<le> d u" "digits_ok e d u" using r(2) dsum_bounds digits_ok_mono [of e d t u] by (simp_all add: u digits_ok_Suc)
    have V: "V = dsum e d u + d u * base e ^ u" using r(3) by (simp add: u dsum_Suc)
    have "d u * base e ^ u < 2 ^ sh * base e ^ u" using r(4) low(1) unfolding V pow by (simp only: mult.commute)
    then have du: "d u < 2 ^ sh" by simp
    show ?thesis
    proof (cases "D < sh + k")
      case True
      define s where "s = D - sh"
      define lo hi where lh: "lo = x mod 2 ^ s" "hi = x div 2 ^ s"
      have s: "s \<le> 5" "D = sh + s" using True sh assms(5) by (simp_all add: s_def)
      have x': "x = lo + hi * 2 ^ s" unfolding lh by (simp only: mod_mult_div_eq mod_div_mult_eq)
      have lo: "0 \<le> lo" "lo < 2 ^ s" and hi: "0 \<le> hi" using x by (simp_all add: lh pos_imp_zdiv_nonneg_iff)
      have "hi * 1 \<le> hi * 2 ^ s" using hi by (intro mult_left_mono) simp_all
      then have "hi \<le> x" using x' lo by simp
      note hi = hi this
      have B: "base e = 2 ^ sh * 2 ^ s" using s by (simp add: d power_add)
      have "(lo + 1) * 2 ^ sh \<le> 2 ^ s * 2 ^ sh" using lo by (intro mult_right_mono) simp_all
      then have "lo * 2 ^ sh + 2 ^ sh \<le> base e" unfolding B by (simp add: distrib_right mult.commute)
      then have top: "d u + lo * 2 ^ sh < base e" "lo * 2 ^ sh < base e" using du low(2) by linarith+
      have b31: "base e < 2 ^ 31" using base_bounds(2) [of e] by simp
      have lo31: "lo * 2 ^ sh < 2 ^ 31" "0 \<le> lo * 2 ^ sh" using top b31 lo by simp_all
      have "js_shl (js_and x (js_shl 1 s - 1)) sh = lo * 2 ^ sh"
        using s(1) lo31 sh D by (simp add: shl_one js_and_mask lh(1) [symmetric] js_shl_mult)
      moreover have "js_or (d u) (lo * 2 ^ sh) = d u + lo * 2 ^ sh" using du low lo lo31 sh D by (intro js_or_add) simp_all
      moreover have "js_shr x s = hi" using s(1) x x5 by (simp add: js_shr_div lh)
      moreover define r' where "r' = r\<lparr>bi_d := d(u := d u + lo * 2 ^ sh, t := hi), bi_t := Suc t\<rparr>"
      ultimately have loop: "fromString_loop e k (c # cs) mi sh r = fromString_loop e k cs False ((q + k) mod D) r'"
        using False True x shmod by (simp add: d [symmetric] r'_def Let_def s_def u)
      have keep: "dsum e (d(u := d u + lo * 2 ^ sh, Suc u := hi)) u = dsum e d u" by (rule dsum_cong) simp
      have "dsum e (d(u := d u + lo * 2 ^ sh, Suc u := hi)) (Suc (Suc u)) = dsum e d u + (d u + lo * 2 ^ sh) * base e ^ u + hi * (base e * base e ^ u)"
        by (simp add: dsum_Suc keep del: fun_upd_apply) simp
      also have "\<dots> = V + 2 ^ q * x" unfolding x' V pow unfolding B by (simp add: algebra_simps)
      finally have sum: "dsum e (d(u := d u + lo * 2 ^ sh, Suc u := hi)) (Suc (Suc u)) = V + 2 ^ q * x" .
      have "digits_ok e (d(u := d u + lo * 2 ^ sh, Suc u := hi)) (Suc (Suc u))"
        using low top lo hi xb by (auto simp: digits_ok_def less_Suc_eq)
      then have "reading e (q + k) (V + 2 ^ q * x) r'"
        using r(1) new sum True D assms(5) sh unfolding reading_def r'_def by (simp add: u d(4) [symmetric] v(2))
      then show ?thesis using loop by (auto simp: d)
    next
      case le: False
      have "x * 2 ^ sh \<le> (2 ^ k - 1) * 2 ^ sh" using x by (intro mult_right_mono) simp_all
      then have "x * 2 ^ sh + 2 ^ sh \<le> 2 ^ (sh + k)" by (simp add: power_add algebra_simps)
      also have "\<dots> \<le> 2 ^ D" using le by (intro power_increasing) simp_all
      finally have top: "d u + x * 2 ^ sh < base e" "x * 2 ^ sh < base e" using du low by (simp_all add: d)
      have b31: "base e < 2 ^ 31" using base_bounds(2) [of e] by simp
      have x31: "x * 2 ^ sh < 2 ^ 31" "0 \<le> x * 2 ^ sh" using top b31 x by simp_all
      have "js_shl x sh = x * 2 ^ sh" using x31 sh D by (intro js_shl_mult) simp_all
      moreover have "js_or (d u) (x * 2 ^ sh) = d u + x * 2 ^ sh" using du low x x31 sh D by (intro js_or_add) simp_all
      moreover define r' where "r' = r\<lparr>bi_d := d(u := d u + x * 2 ^ sh)\<rparr>"
      ultimately have loop: "fromString_loop e k (c # cs) mi sh r = fromString_loop e k cs False ((q + k) mod D) r'"
        using False le x shmod by (simp add: d [symmetric] r'_def Let_def u)
      have keep: "dsum e (d(u := d u + x * 2 ^ sh)) u = dsum e d u" by (rule dsum_cong) simp
      have sum: "dsum e (d(u := d u + x * 2 ^ sh)) (Suc u) = V + 2 ^ q * x"
        unfolding V pow by (simp add: dsum_Suc keep algebra_simps del: fun_upd_apply) (simp add: algebra_simps)
      have "digits_ok e (d(u := d u + x * 2 ^ sh)) (Suc u)" using low top x by (auto simp: digits_ok_def less_Suc_eq)
      then have "reading e (q + k) (V + 2 ^ q * x) r'"
        using r(1) new sum le D assms(4,5) q unfolding reading_def r'_def by (simp add: d(2) [symmetric] u d(4) [symmetric] v(2))
      then show ?thesis using loop by (auto simp: d)
    qed
  qed
qed

lemma fromString_loop_spec:
  assumes "digit_chars k cs" "1 \<le> k" "k \<le> 5" "reading e q V r"
  shows "\<exists>r'. fromString_loop e k (cs @ ds) mi (q mod dbits e) r =
      fromString_loop e k ds (mi \<and> cs = []) ((q + k * length cs) mod dbits e) r' \<and>
    reading e (q + k * length cs) (V + 2 ^ q * text_value k (rev cs)) r'"
  using assms(1,4)
proof (induction cs arbitrary: q V r mi)
  case (Cons c cs)
  then have c: "0 \<le> intAt c" "intAt c < 2 ^ k" "digit_chars k cs" by (simp_all add: digit_chars_def)
  from fromString_step [OF Cons.prems(2) c(1,2) assms(2,3) refl, of "cs @ ds" mi] obtain r1 where
    r1: "fromString_loop e k (c # cs @ ds) mi (q mod dbits e) r = fromString_loop e k (cs @ ds) False ((q + k) mod dbits e) r1"
      "reading e (q + k) (V + 2 ^ q * intAt c) r1" by blast
  have "V + 2 ^ q * intAt c + 2 ^ (q + k) * text_value k (rev cs) = V + 2 ^ q * text_value k (rev (c # cs))"
    by (simp add: text_value_snoc power_add algebra_simps)
  with Cons.IH [OF c(3) r1(2), of False] r1(1) show ?case by (auto simp: add.assoc)
qed auto

lemma read_digits:
  assumes "digit_chars (radix_bits b) s"
  shows "bn_ok e (fromString e s b r)" "bn_val e (fromString e s b r) = text_value (radix_bits b) s"
    "bn_ok e (fromString e (CHR ''-'' # s) b r)" "bn_val e (fromString e (CHR ''-'' # s) b r) = - text_value (radix_bits b) s"
proof -
  define k r0 where d: "k = radix_bits b" "r0 = r\<lparr>bi_t := 0, bi_s := 0\<rparr>"
  note k = radix_bits_range [of b, folded d]
  have start: "reading e 0 0 r0" using dbits_bounds [of e] by (simp add: reading_def d digits_ok_def)
  have "digit_chars k (rev s)" using assms by (simp add: digit_chars_def d)
  note run = fromString_loop_spec [OF this k start]
  note minus = subTo_spec [OF bn_ok_raw [OF ZERO_spec(1)]]
  have clamped: "bn_ok e (clamp e r1)" "bn_val e (clamp e r1) = text_value k s" if "reading e n (0 + 2 ^ 0 * text_value k (rev (rev s))) r1" for n r1
  proof -
    have "bn_raw e r1" "bn_val e r1 = text_value k s" using that by (simp_all add: reading_def bn_raw_def bn_val_def)
    then show "bn_ok e (clamp e r1)" "bn_val e (clamp e r1) = text_value k s" using clamp_spec [of e r1] by simp_all
  qed
  from run [of "[]" False] obtain r1 where
    r1: "fromString_loop e k (rev s) False 0 r0 = (r1, False)" "reading e (0 + k * length (rev s)) (0 + 2 ^ 0 * text_value k (rev (rev s))) r1" by auto
  have "fromString e s b r = clamp e r1" using r1(1) by (simp add: fromString_def d Let_def)
  then show "bn_ok e (fromString e s b r)" "bn_val e (fromString e s b r) = text_value (radix_bits b) s" using clamped [OF r1(2)] by (simp_all add: d)
  have dash: "intAt (CHR ''-'') = - 1" by (simp add: intAt_def)
  from run [of "[CHR ''-'']" False] obtain r2 where
    r2: "fromString_loop e k (rev s @ [CHR ''-'']) False 0 r0 = (r2, True)" "reading e (0 + k * length (rev s)) (0 + 2 ^ 0 * text_value k (rev (rev s))) r2"
    using dash by auto
  have "fromString e (CHR ''-'' # s) b r = subTo e (ZERO e) (clamp e r2) (clamp e r2)" using r2(1) by (simp add: fromString_def d Let_def)
  then show "bn_ok e (fromString e (CHR ''-'' # s) b r)" "bn_val e (fromString e (CHR ''-'' # s) b r) = - text_value (radix_bits b) s"
    using clamped [OF r2(2)] minus [OF bn_ok_raw, of e "clamp e r2" "clamp e r2"] by (simp_all add: d)
qed

section \<open>Writing\<close>

definition digit_char :: "nat \<Rightarrow> char" where
  "digit_char n = BI_RM ! n"

text \<open>The text of a number without leading zeros.\<close>

function number_text :: "nat \<Rightarrow> nat \<Rightarrow> string" where
  "number_text k n = (if n < 2 ^ k \<or> k = 0 then [digit_char n] else number_text k (n div 2 ^ k) @ [digit_char (n mod 2 ^ k)])"

  by pat_completeness auto
termination
proof (relation "measure snd")
  fix k n :: nat
  assume "\<not> (n < 2 ^ k \<or> k = 0)"
  moreover from this have "1 < (2 :: nat) ^ k" by (intro one_less_power) simp_all
  ultimately have "n div 2 ^ k < n" by (intro div_less_dividend) linarith+
  then show "((k, n div 2 ^ k), k, n) \<in> measure snd" by simp
qed simp

declare number_text.simps [simp del]

lemma BI_RM_values: "length BI_RM = 36" "map intAt BI_RM = map int [0..<36]"
  by (simp_all add: BI_RM_def intAt_def upt_rec)

lemma digit_chars_32: "intAt (digit_char n) = int n" if "n < 32"
proof -
  have "intAt (digit_char n) = map intAt BI_RM ! n" using that by (simp add: digit_char_def BI_RM_values(1))
  then show ?thesis using that by (simp add: BI_RM_values(2))
qed

lemma below_32: "n < 2 ^ k \<Longrightarrow> k \<le> 5 \<Longrightarrow> n < (32 :: nat)"
  using power_increasing [of k 5 "2 :: nat"] by simp

lemma number_text_spec:
  assumes "1 \<le> k" "k \<le> 5"
  shows "digit_chars k (number_text k n)" "text_value k (number_text k n) = int n" "number_text k n \<noteq> []"
proof -
  have "digit_chars k (number_text k n) \<and> text_value k (number_text k n) = int n \<and> number_text k n \<noteq> []"
    using assms
  proof (induction k n rule: number_text.induct)
    case (1 k n)
    have last: "intAt (digit_char (n mod 2 ^ k)) = int (n mod 2 ^ k)" using 1(3) by (intro digit_chars_32 below_32 [of _ k]) simp_all
    show ?case
    proof (cases "n < 2 ^ k")
      case True
      then show ?thesis using last by (subst (1 2 3) number_text.simps) (simp add: digit_chars_def text_value_def)
    next
      case False
      have IH: "digit_chars k (number_text k (n div 2 ^ k))" "text_value k (number_text k (n div 2 ^ k)) = int (n div 2 ^ k)"
        using 1 False by simp_all
      have "int (n div 2 ^ k * 2 ^ k + n mod 2 ^ k) = int n" by (simp only: div_mult_mod_eq)
      then have "int (n div 2 ^ k) * 2 ^ k + int (n mod 2 ^ k) = int n" by (simp only: of_nat_add of_nat_mult of_nat_power of_nat_numeral)
      moreover have "int (n mod 2 ^ k) < 2 ^ k" by (simp add: of_nat_mod)
      ultimately show ?thesis using False IH last 1(2)
        by (subst (1 2 3) number_text.simps) (auto simp: digit_chars_def text_value_snoc)
    qed
  qed
  then show "digit_chars k (number_text k n)" "text_value k (number_text k n) = int n" "number_text k n \<noteq> []" by simp_all
qed

lemma int2char_digit: "n < 32 \<Longrightarrow> int2char (int n) = [digit_char n]"
  by (simp add: int2char_def digit_char_def)

text \<open>One turn of the loop takes the next character; \<open>Q\<close> bits are left.\<close>

lemma toString_turn:
  assumes "bn_ok e x" "bn_val e x = int N" "position e Q i (p - 1)" "i < int (bi_t x)" "k = radix_bits b" "k dvd Q" "0 < Q"
    "m \<longleftrightarrow> 0 < N div 2 ^ Q" "r = (if m then number_text k (N div 2 ^ Q) else [])"
  shows "\<exists>i' p' m' r'. toString_loop e b (bi_d x) i p m r = toString_loop e b (bi_d x) i' p' m' r' \<and>
    position e (Q - k) i' (p' - 1) \<and> i' < int (bi_t x) \<and> (m' \<longleftrightarrow> 0 < N div 2 ^ (Q - k)) \<and>
    r' = (if m' then number_text k (N div 2 ^ (Q - k)) else [])"
proof -
  note k = radix_bits_range [of b, folded assms(5)]
  have db: "26 \<le> dbits e" "dbits e \<le> 30" by (rule dbits_bounds)+
  have kQ: "k \<le> Q" using assms(6,7) by (rule dvd_imp_le)
  have i: "0 \<le> i" using position_end [OF assms(3)] assms(7) by linarith
  have p: "0 < p" "p \<le> int (dbits e)" "int Q = i * int (dbits e) + p" using assms(3) by (simp_all add: position_def)
  define d where "d = take_bit k (drop_bit (Q - k) N)"
  have "k \<le> 6" using k(2) by simp
  from window_spec [OF assms(1-3) i assms(4) k(1) this] have win: "window e x k i (p - 1) = int d" using kQ by (simp add: window_of_def d_def)
  have d32: "d < 32" unfolding d_def by (rule below_32 [OF take_bit_nat_less_exp k(2)])
  define N' where "N' = N div 2 ^ (Q - k)"
  have N': "N' = N div 2 ^ Q * 2 ^ k + d" unfolding N'_def d_def by (rule more_bits [OF kQ])
  have dk: "d < 2 ^ k" by (simp add: d_def)
  define m1 where "m1 \<longleftrightarrow> m \<or> 0 < int d"
  define r1 where "r1 = (if m1 then r @ int2char (int d) else r)"
  have m1: "m1 \<longleftrightarrow> 0 < N'" unfolding m1_def assms(8) N' by auto
  have r1: "r1 = (if m1 then number_text k N' else [])"
  proof (cases "0 < N div 2 ^ Q")
    case True
    then have "1 * 2 ^ k \<le> N div 2 ^ Q * 2 ^ k" by (intro mult_right_mono) simp_all
    then have "\<not> N' < 2 ^ k" unfolding N' by linarith
    moreover have "N' div 2 ^ k = N div 2 ^ Q" "N' mod 2 ^ k = d" unfolding N' using dk by simp_all
    ultimately have "number_text k N' = number_text k (N div 2 ^ Q) @ [digit_char d]" using k(1) by (subst number_text.simps) simp
    then show ?thesis using True assms(8,9) m1 N' by (simp add: r1_def int2char_digit [OF d32])
  next
    case False
    then have "N' = d" unfolding N' by simp
    then show ?thesis using False assms(8,9) m1 dk by (simp add: r1_def int2char_digit [OF d32] number_text.simps)
  qed
  have k0: "\<not> i < 0" using i by simp
  have next_state: ?thesis if "toString_loop e b (bi_d x) i p m r = toString_loop e b (bi_d x) i2 p2 m1 r1" "position e (Q - k) i2 (p2 - 1)" "i2 \<le> i" for i2 p2
    by (rule exI [of _ i2], rule exI [of _ p2], rule exI [of _ m1], rule exI [of _ r1])
      (use that assms(4) m1 r1 in \<open>simp add: N'_def\<close>)
  show ?thesis
  proof (cases "p < int k")
    case True
    have i1: "0 < i"
    proof (rule ccontr)
      assume "\<not> 0 < i"
      then show False using True p(3) kQ i by simp
    qed
    have "js_or (js_shl (js_and (digit_at (bi_d x) i) (js_shl 1 (nat p) - 1)) (nat (int k - p)))
        (js_shr (digit_at (bi_d x) (i - 1)) (nat (p + int (dbits e) - int k))) = int d"
      using win True i1 p(1) unfolding window_def Let_def by (simp add: algebra_simps)
    then have "toString_loop e b (bi_d x) i p m r = toString_loop e b (bi_d x) (i - 1) (p + int (dbits e) - int k) m1 r1"
      using True k0 by (subst toString_loop.simps) (simp add: assms(5) [symmetric] m1_def r1_def Let_def)
    moreover have "position e (Q - k) (i - 1) (p + int (dbits e) - int k - 1)"
      using True p db k kQ by (simp add: position_def of_nat_diff algebra_simps)
    ultimately show ?thesis by (rule next_state) linarith
  next
    case False
    have eqd: "js_and (js_shr (digit_at (bi_d x) i) (nat (p - int k))) (js_shl 1 k - 1) = int d"
      using win False unfolding window_def Let_def by (simp add: algebra_simps)
    have run: "toString_loop e b (bi_d x) i p m r =
        (if p - int k \<le> 0 then toString_loop e b (bi_d x) (i - 1) (p - int k + int (dbits e)) m1 r1
         else toString_loop e b (bi_d x) i (p - int k) m1 r1)"
      by (subst toString_loop.simps) (simp only: Let_def assms(5) [symmetric] k0 False eqd if_False m1_def r1_def)
    show ?thesis
    proof (cases "p - int k \<le> 0")
      case True
      then have at: "position e (Q - k) (i - 1) (p - int k + int (dbits e) - 1)"
        using False p db kQ by (simp add: position_def of_nat_diff algebra_simps)
      have "toString_loop e b (bi_d x) i p m r = toString_loop e b (bi_d x) (i - 1) (p - int k + int (dbits e)) m1 r1" using run True by simp
      then show ?thesis using at by (rule next_state) linarith
    next
      case gt: False
      then have at: "position e (Q - k) i (p - int k - 1)"
        using p db kQ k by (simp add: position_def of_nat_diff algebra_simps)
      have "toString_loop e b (bi_d x) i p m r = toString_loop e b (bi_d x) i (p - int k) m1 r1" using run gt by simp
      then show ?thesis using at by (rule next_state) (rule order_refl)
    qed
  qed
qed

lemma toString_loop_spec:
  assumes "bn_ok e x" "bn_val e x = int N" "position e Q i (p - 1)" "i < int (bi_t x)" "k = radix_bits b" "k dvd Q"
    "m \<longleftrightarrow> 0 < N div 2 ^ Q" "r = (if m then number_text k (N div 2 ^ Q) else [])"
  shows "toString_loop e b (bi_d x) i p m r = (0 < N, if 0 < N then number_text k N else [])"
  using assms(3,4,6-8)
proof (induction Q arbitrary: i p m r rule: less_induct)
  case (less Q)
  show ?case
  proof (cases "Q = 0")
    case True
    then have "i < 0" using position_end [OF less.prems(1)] by simp
    then show ?thesis using less.prems(4,5) True by (subst toString_loop.simps) simp
  next
    case False
    then have Q: "0 < Q" by simp
    from toString_turn [OF assms(1,2) less.prems(1,2) assms(5) less.prems(3) Q less.prems(4,5)] obtain i' p' m' r' where
      t: "toString_loop e b (bi_d x) i p m r = toString_loop e b (bi_d x) i' p' m' r'" "position e (Q - k) i' (p' - 1)" "i' < int (bi_t x)"
        "m' \<longleftrightarrow> 0 < N div 2 ^ (Q - k)" "r' = (if m' then number_text k (N div 2 ^ (Q - k)) else [])" by blast
    have "Q - k < Q" using Q radix_bits_range [of b] by (simp add: assms(5))
    moreover have dvd: "k dvd Q - k" using less.prems(3) by (simp add: dvd_diff_nat)
    ultimately show ?thesis unfolding t(1) by (intro less.IH [OF _ t(2,3) dvd t(4,5)])
  qed
qed

lemma digits_text_spec:
  assumes "bn_ok e x" "bn_val e x = int N"
  shows "digits_text e b x = number_text (radix_bits b) N"
proof -
  define k t where d: "k = radix_bits b" "t = bi_t x"
  note k = radix_bits_range [of b, folded d]
  have db: "26 \<le> dbits e" "dbits e \<le> 30" by (rule dbits_bounds)+
  have s: "bi_s x = 0" using val_sign [OF bn_ok_raw [OF assms(1)]] assms(2) by simp
  have zero: "number_text k 0 = ''0''" by (simp add: number_text.simps digit_char_def BI_RM_def)
  show ?thesis
  proof (cases t)
    case 0
    then have "N = 0" using assms(2) s by (simp add: bn_val_def d)
    then show ?thesis using 0 zero by (simp add: digits_text_def Let_def d split: prod.split)
  next
    case (Suc u)
    define c where "c = t * dbits e mod k"
    define p where "p = dbits e - c"
    have c: "c < k" using k by (simp add: c_def)
    then have p: "0 < p" "p \<le> dbits e" "c = dbits e - p" using k db by (simp_all add: p_def)
    define Q where "Q = u * dbits e + p"
    have "Q = t * dbits e - c" using c k db by (simp add: Q_def p_def Suc)
    then have dvd: "k dvd Q" by (simp add: c_def dvd_minus_mod)
    have pos: "position e Q (int u) (int p - 1)" using p by (simp add: position_def Q_def)
    have pc: "int (dbits e) - int t * int (dbits e) mod int k = int p"
    proof -
      have "int p = int (dbits e) - int c" using c k db by (simp add: p_def)
      then show ?thesis by (simp add: c_def of_nat_mod)
    qed
    have top: "bi_d x u = int (take_bit (dbits e) (drop_bit (dbits e * u) N))" using digit_bits [OF assms, of u] Suc d by simp
    have "int N < 2 ^ (t * dbits e)" using val_bounds(1) [OF bn_ok_raw [OF assms(1)] s] assms(2) by (simp add: d power_mult [symmetric] mult.commute)
    then have Nt: "N < 2 ^ (t * dbits e)" by (metis of_nat_less_iff of_nat_numeral of_nat_power)
    then have "N div 2 ^ (dbits e * u) < 2 ^ dbits e" using Suc by (simp add: less_mult_imp_div_less power_add mult.commute)
    then have top: "bi_d x u = int (N div 2 ^ (dbits e * u))" using top by (simp add: take_bit_nat_eq_self drop_bit_eq_div)
    define h where "h = N div 2 ^ Q"
    have div: "N div 2 ^ (dbits e * u) div 2 ^ p = h" unfolding h_def Q_def by (simp only: power_add div_mult2_eq mult.commute [of "dbits e"])
    have "bi_d x u < base e" using raw_digit [OF bn_ok_raw [OF assms(1)], of u] Suc d by simp
    moreover have "base e < 2 ^ 31" using base_bounds(2) [of e] by simp
    ultimately have "int (N div 2 ^ (dbits e * u)) < 2 ^ 31" unfolding top by (rule less_trans)
    then have "js_shr (int (N div 2 ^ (dbits e * u))) p = int (N div 2 ^ (dbits e * u)) div 2 ^ p"
      using p db by (intro js_shr_div) simp_all
    then have "js_shr (bi_d x u) p = int h" unfolding top div [symmetric] by (simp only: of_nat_div of_nat_power of_nat_numeral)
    then have shr: "js_shr (digit_at (bi_d x) (int t - 1)) p = int h" by (simp add: digit_at_def Suc)
    have h: "h < 2 ^ c"
    proof -
      have "t * dbits e = Q + c" using p(3) p(2) by (simp add: Q_def Suc)
      then show ?thesis using Nt by (simp add: h_def less_mult_imp_div_less power_add mult.commute)
    qed
    have hk: "h < 2 ^ k" by (rule less_le_trans [OF h]) (use c in simp)
    have h0: "p = dbits e \<Longrightarrow> h = 0" using h p(3) by simp
    have h32: "h < 32" by (rule below_32 [OF hk k(2)])
    define m r where mr: "m \<longleftrightarrow> 0 < h" "r = (if m then number_text k h else [])"
    have start: "(if int p < int (dbits e) \<and> 0 < js_shr (digit_at (bi_d x) (int t - 1)) p then (True, int2char (js_shr (digit_at (bi_d x) (int t - 1)) p)) else (False, [])) = (m, r)"
      using h0 hk p(2) by (auto simp: shr mr int2char_digit [OF h32] number_text.simps)
    have "int u < int (bi_t x)" using Suc d by simp
    from toString_loop_spec [OF assms pos this d(1) dvd mr(1) [unfolded h_def] mr(2) [unfolded h_def]]
    have loop: "toString_loop e b (bi_d x) (int u) (int p) m r = (0 < N, if 0 < N then number_text k N else [])" .
    have "int t - 1 = int u" "0 < int t" using Suc by simp_all
    then show ?thesis unfolding digits_text_def Let_def d(2) [symmetric] d(1) [symmetric] pc nat_int start
      using loop zero by simp
  qed
qed

theorem bn_toString_spec:
  assumes "bn_ok e x"
  shows "bn_toString e b x = (if bn_val e x < 0 then CHR ''-'' # number_text (radix_bits b) (nat (- bn_val e x)) else number_text (radix_bits b) (nat (bn_val e x)))"
proof -
  have s: "bi_s x < 0 \<longleftrightarrow> bn_val e x < 0" using val_sign [OF bn_ok_raw [OF assms]] by auto
  note neg = negate_spec [OF bn_ok_raw [OF assms]]
  show ?thesis
    using digits_text_spec [OF assms, of "nat (bn_val e x)" b] digits_text_spec [OF neg(1), of "nat (- bn_val e x)" b] neg(2)
    by (simp add: bn_toString_def s)
qed

text \<open>The text of a number in any supported radix is read back as the number.\<close>

lemma read_text:
  assumes "bn_ok e x"
  shows "bn_ok e (fromString e (bn_toString e b x) b r)" "bn_val e (fromString e (bn_toString e b x) b r) = bn_val e x"
proof -
  note k = radix_bits_range [of b]
  note t = number_text_spec [OF k]
  show "bn_ok e (fromString e (bn_toString e b x) b r)" "bn_val e (fromString e (bn_toString e b x) b r) = bn_val e x"
    using read_digits [OF t(1)] t(2) by (simp_all add: bn_toString_spec [OF assms])
qed

end
