(* ===== verification/SrpProofs.thy ===== *)
theory SrpProofs
  imports Srp BigIntegerTexts DataStoreUtilProofs
begin

text \<open>
  Texts of bytes and numbers are read back as what was written, the padded text of a number is its two's complement,
  and client and server compute the same secret.
\<close>

section \<open>Bytes\<close>

lemma decode_encoded: "decode_pairs (getHexFromBytes ws @ s) = sbind (decode_pairs s) (\<lambda>vs. Inr (ws @ vs))"
proof (induction ws)
  case Nil
  then show ?case by (simp add: getHexFromBytes_def sbind_def split: sum.split)
next
  case (Cons w ws)
  have "unat w < 256" using unsigned_less [of w] by simp
  then have "map_of HEX_TO_SHORT (map to_lower (encodedByte (unat w))) = Some (unat w)" by (rule hex_table)
  then show ?case using Cons by (auto simp: getHexFromBytes_def encodedByte_def sbind_def Let_def split: sum.split)
qed

lemma length_getHexFromBytes: "length (getHexFromBytes ws) = 2 * length ws"
  by (induction ws) (simp_all add: getHexFromBytes_def encodedByte_def)

lemma decoded_bytes: "bytesFromHex (getHexFromBytes ws) = Inr ws"
  using decode_encoded [of ws "[]"] by (simp add: bytesFromHex_def length_getHexFromBytes sbind_def)

text \<open>The bytes that are drawn are the bytes of the random words, the highest first.\<close>

definition word_byte :: "(nat \<Rightarrow> int) \<Rightarrow> nat \<Rightarrow> 8 word" where
  "word_byte rnd i = of_int (rnd (i div 4) div 2 ^ (24 - i mod 4 * 8))"

lemma random_bytes:
  assumes "\<And>i. 0 \<le> rnd i \<and> rnd i < 2 ^ 32"
  shows "getRandomBytes rnd n = Inr (map (word_byte rnd) [0..<n])"
proof -
  have one: "[hex_digits ! nat (js_ushr v 4), hex_digits ! nat (js_and v 15)] = encodedByte (unat (word_byte rnd i))"
    if "i < n" "v = js_and (js_ushr (map rnd [0..<(n + 3) div 4] ! (i div 4)) (24 - i mod 4 * 8)) 255" for i v
  proof -
    have "i div 4 < (n + 3) div 4" using that(1) by linarith
    then have nth: "map rnd [0..<(n + 3) div 4] ! (i div 4) = rnd (i div 4)" by simp
    define u where "u = rnd (i div 4) div 2 ^ (24 - i mod 4 * 8)"
    have "js_ushr (rnd (i div 4)) (24 - i mod 4 * 8) = u" using assms [of "i div 4"] by (simp add: u_def js_ushr_div)
    then have v: "v = u mod 256" using js_and_mask [of 8 u] by (simp add: that(2) nth)
    then have b: "0 \<le> v" "v < 256" by simp_all
    have "uint (word_byte rnd i) = v" by (simp add: word_byte_def u_def [symmetric] uint_word_of_int v)
    then have un: "unat (word_byte rnd i) = nat v" by (simp only: unat_eq_nat_uint)
    have "js_ushr v 4 = v div 16" "js_and v 15 = v mod 16" using b js_and_mask [of 4 v] by (simp_all add: js_ushr_div)
    then show ?thesis using b by (simp add: encodedByte_def un nat_div_distrib nat_mod_distrib)
  qed
  have "map (\<lambda>i. let bite = js_and (js_ushr (map rnd [0..<(n + 3) div 4] ! (i div 4)) (24 - i mod 4 * 8)) 255
              in [hex_digits ! nat (js_ushr bite 4), hex_digits ! nat (js_and bite 15)]) [0..<n]
      = map (\<lambda>w. encodedByte (unat w)) (map (word_byte rnd) [0..<n])"
    by (simp add: Let_def one)
  then have "hexStringify (random_words rnd n) = getHexFromBytes (map (word_byte rnd) [0..<n])"
    by (simp only: hexStringify_def random_words_def word_array.simps getHexFromBytes_def)
  then show ?thesis by (simp add: getRandomBytes_def decoded_bytes)
qed

section \<open>Hexadecimal numbers\<close>

lemma number_of_hex_spec:
  assumes "digit_chars 4 h"
  shows "bn_ok e (number_of_hex e h)" "bn_val e (number_of_hex e h) = text_value 4 h"
  using read_digits(1,2) [of Radix16 h] assms by (simp_all add: number_of_hex_def)

lemma digit_chars_append [simp]: "digit_chars k (s @ s') \<longleftrightarrow> digit_chars k s \<and> digit_chars k s'"
  by (auto simp: digit_chars_def)

lemma digit_chars_Cons [simp]: "digit_chars k (c # s) \<longleftrightarrow> 0 \<le> intAt c \<and> intAt c < 2 ^ k \<and> digit_chars k s"
  by (auto simp: digit_chars_def)

lemma text_value_Cons: "text_value k (c # s) = intAt c * 2 ^ (k * length s) + text_value k s"
  using text_value_append [of k "[c]" s] by (simp add: text_value_def)

lemma intAt_zero [simp]: "intAt (CHR ''0'') = 0"
  by (simp add: intAt_def)

lemma hex_char_cases:
  assumes "0 \<le> intAt c" "intAt c < 16"
  shows "c \<in> set ''0123456789abcdefABCDEF''"
proof -
  define n where "n = (of_char c :: nat)"
  have c: "c = char_of n" by (simp add: n_def)
  have "n \<in> {48..<58} \<or> n \<in> {97..<103} \<or> n \<in> {65..<71}"
    using assms by (auto simp: intAt_def Let_def n_def split: if_splits)
  then have "n \<in> set ([48..<58] @ [97..<103] @ [65..<71])" unfolding set_append set_upt by blast
  then have "c \<in> set (map char_of ([48..<58] @ [97..<103] @ [65..<71]))" unfolding c set_map by (rule imageI)
  moreover have "map char_of ([48..<58] @ [97..<103] @ [65..<71 :: nat]) = ''0123456789abcdefABCDEF''" by code_simp
  ultimately show ?thesis by simp
qed

lemma hex_table_22:
  assumes "0 \<le> intAt c" "intAt c < 16"
  shows "c \<in> set ''89abcdefABCDEF'' \<longleftrightarrow> 8 \<le> intAt c" "intAt (to_upper c) = intAt c" "to_lower c = hex_digits ! nat (intAt c)"
proof -
  have "list_all (\<lambda>c. (c \<in> set ''89abcdefABCDEF'' \<longleftrightarrow> 8 \<le> intAt c) \<and> intAt (to_upper c) = intAt c \<and> to_lower c = hex_digits ! nat (intAt c))
      ''0123456789abcdefABCDEF''"
    by code_simp
  then show "c \<in> set ''89abcdefABCDEF'' \<longleftrightarrow> 8 \<le> intAt c" "intAt (to_upper c) = intAt c" "to_lower c = hex_digits ! nat (intAt c)"
    using hex_char_cases [OF assms] unfolding list_all_iff by blast+
qed

lemma hex_value_Cons: "text_value 4 (c # s) = intAt c * 16 ^ length s + text_value 4 s"
  by (simp add: text_value_Cons power_mult)

lemma msb_set_Cons: "digit_chars 4 (c # s) \<Longrightarrow> msb_set (c # s) \<longleftrightarrow> 8 \<le> intAt c"
  using hex_table_22(1) [of c] by (simp add: msb_set_def)

text \<open>The value of the first half of the texts has the highest bit clear.\<close>

lemma msb_set_value:
  assumes "digit_chars 4 h" "h \<noteq> []"
  shows "msb_set h \<longleftrightarrow> 8 * 16 ^ (length h - 1) \<le> text_value 4 h"
proof -
  obtain c s where h: "h = c # s" using assms(2) by (cases h) simp_all
  have "digit_chars 4 s" using assms(1) h by simp
  note low = text_value_bounds [OF this]
  have val: "text_value 4 h = intAt c * 16 ^ length s + text_value 4 s" by (simp add: h hex_value_Cons)
  have low: "0 \<le> text_value 4 s" "text_value 4 s < 16 ^ length s" using low by (simp_all add: power_mult)
  have msb: "msb_set h \<longleftrightarrow> 8 \<le> intAt c" using msb_set_Cons assms(1) h by simp
  show ?thesis
  proof (cases "8 \<le> intAt c")
    case True
    then have "8 * 16 ^ length s \<le> intAt c * 16 ^ length s" by (intro mult_right_mono) simp_all
    then have "8 * 16 ^ length s \<le> text_value 4 h" using val low(1) by linarith
    then show ?thesis using True msb by (simp add: h)
  next
    case False
    then have "(intAt c + 1) * 16 ^ length s \<le> 8 * 16 ^ length s" by (intro mult_right_mono) simp_all
    then have "intAt c * 16 ^ length s + 16 ^ length s \<le> 8 * 16 ^ length s" by (simp only: distrib_right mult_1)
    then have "text_value 4 h < 8 * 16 ^ length s" using val low(2) by linarith
    then show ?thesis using False msb by (simp add: h)
  qed
qed

definition twos_value :: "string \<Rightarrow> int" where
  "twos_value h = text_value 4 h - (if msb_set h then 16 ^ length h else 0)"

lemma pad_even_odd: "pad_even s = (if odd (length s) then CHR ''0'' # s else s)"
  by (simp add: pad_even_def odd_iff_mod_2_eq_one)

text \<open>The padded text of a number that is not negative.\<close>

lemma padded_text:
  assumes "h1 = pad_even (number_text 4 n)" "h2 = (if msb_set h1 then ''00'' @ h1 else h1)"
  shows "digit_chars 4 h2" "text_value 4 h2 = int n" "even (length h2)" "\<not> msb_set h2" "h2 \<noteq> []"
proof -
  have t: "digit_chars 4 (number_text 4 n)" "text_value 4 (number_text 4 n) = int n" "number_text 4 n \<noteq> []" by (simp_all add: number_text_spec)
  have h1: "digit_chars 4 h1" "text_value 4 h1 = int n" "even (length h1)" "h1 \<noteq> []"
    using t unfolding assms(1) pad_even_odd by (auto simp: text_value_Cons)
  then show "digit_chars 4 h2" "text_value 4 h2 = int n" "even (length h2)" "h2 \<noteq> []" unfolding assms(2) by (auto simp: text_value_Cons)
  show "\<not> msb_set h2" unfolding assms(2) by (auto simp: msb_set_def)
qed

lemma intAt_upper_digits: "k < 16 \<Longrightarrow> intAt (''0123456789ABCDEF'' ! k) = int k"
proof -
  assume k: "k < 16"
  have "map intAt ''0123456789ABCDEF'' = map int [0..<16]" by (simp add: intAt_def upt_rec)
  moreover have "intAt (''0123456789ABCDEF'' ! k) = map intAt ''0123456789ABCDEF'' ! k" by (rule nth_map [symmetric]) (use k in simp)
  ultimately show ?thesis using k by (simp del: nth_Cons' list.map)
qed

lemma inverted_nibble:
  assumes "0 \<le> intAt c" "intAt c < 16"
  shows "intAt (invert_nibble c) = 15 - intAt c"
proof -
  have "js_not (intAt c) = - intAt c - 1" using assms by (simp add: js_not_def)
  then have "js_and (js_not (intAt c)) 15 = (- intAt c - 1) mod 16" using js_and_mask [of 4] by simp
  also have "- intAt c - 1 = 15 - intAt c + (- 1) * 16" by simp
  also have "\<dots> mod 16 = (15 - intAt c) mod 16" by (rule mod_mult_self1)
  also have "\<dots> = 15 - intAt c" using assms by simp
  finally show ?thesis using assms by (simp add: invert_nibble_def intAt_upper_digits del: nth_Cons')
qed

lemma inverted_text:
  assumes "digit_chars 4 h"
  shows "digit_chars 4 (map invert_nibble h)" "text_value 4 (map invert_nibble h) = 16 ^ length h - 1 - text_value 4 h"
  using assms by (induction h) (simp_all add: inverted_nibble hex_value_Cons algebra_simps)

lemma number_text_lower_bound:
  assumes "1 \<le> k" "k \<le> 5" "0 < n"
  shows "2 ^ (k * (length (number_text k n) - 1)) \<le> int n"
  using assms
proof (induction k n rule: number_text.induct)
  case (1 k n)
  show ?case
  proof (cases "n < 2 ^ k")
    case True
    then show ?thesis using 1(4) by (subst number_text.simps) simp
  next
    case False
    then have pos: "0 < n div 2 ^ k" by (simp add: div_greater_zero_iff)
    have "0 < length (number_text k (n div 2 ^ k))" using number_text_spec(3) 1(2,3) by simp
    then have len: "length (number_text k n) - 1 = Suc (length (number_text k (n div 2 ^ k)) - 1)"
      using False 1(2) by (subst number_text.simps) simp
    have "2 ^ (k * (length (number_text k (n div 2 ^ k)) - 1)) \<le> int (n div 2 ^ k)" using 1 False pos by simp
    then have "2 ^ (k * (length (number_text k (n div 2 ^ k)) - 1)) * 2 ^ k \<le> int (n div 2 ^ k) * 2 ^ k" by (intro mult_right_mono) simp_all
    also have "int (n div 2 ^ k) * 2 ^ k \<le> int n"
    proof -
      have "n div 2 ^ k * 2 ^ k \<le> n" by simp
      then have "int (n div 2 ^ k * 2 ^ k) \<le> int n" by (simp only: of_nat_le_iff)
      then show ?thesis by (simp only: of_nat_mult of_nat_power of_nat_numeral)
    qed
    finally show ?thesis unfolding len by (simp add: power_add mult.commute)
  qed
qed

lemma number_text_length:
  assumes "16 ^ m \<le> int n" "int n < 16 ^ Suc m"
  shows "length (number_text 4 n) = Suc m"
proof -
  have "0 < int n" by (rule less_le_trans [OF _ assms(1)]) simp
  then have "0 < n" by simp
  define l where "l = length (number_text 4 n)"
  have t: "digit_chars 4 (number_text 4 n)" "text_value 4 (number_text 4 n) = int n" "number_text 4 n \<noteq> []" by (simp_all add: number_text_spec)
  have "0 < l" using t(3) by (simp add: l_def)
  have "16 ^ (l - 1) \<le> int n" using number_text_lower_bound [of 4 n] \<open>0 < n\<close> by (simp add: l_def power_mult)
  then have "(16 :: int) ^ (l - 1) < 16 ^ Suc m" using assms(2) by (rule le_less_trans)
  then have "l - 1 < Suc m" by (rule power_less_imp_less_exp [rotated]) simp
  moreover have "int n < 16 ^ l" using text_value_bounds [OF t(1)] t(2) by (simp add: l_def power_mult)
  then have "(16 :: int) ^ m < 16 ^ l" using assms(1) by linarith
  then have "m < l" by (rule power_less_imp_less_exp [rotated]) simp
  ultimately show ?thesis using \<open>0 < l\<close> by (simp add: l_def)
qed

lemma upper_prefix:
  assumes "digit_chars 4 h" "startsWith (map to_upper h) ''FF8''"
  obtains a b c s where "h = a # b # c # s" "intAt a = 15" "intAt b = 15" "intAt c = 8"
proof -
  from assms(2) obtain s' where "map to_upper h = ''FF8'' @ s'" by (auto simp: startsWith_def prefix_def)
  then obtain a b c s where h: "h = a # b # c # s" "to_upper a = CHR ''F''" "to_upper b = CHR ''F''" "to_upper c = CHR ''8''"
    by (auto simp: map_eq_Cons_conv)
  have d: "0 \<le> intAt a" "intAt a < 16" "0 \<le> intAt b" "intAt b < 16" "0 \<le> intAt c" "intAt c < 16" using assms(1) h(1) by simp_all
  have "intAt a = intAt (CHR ''F'')" "intAt b = intAt (CHR ''F'')" "intAt c = intAt (CHR ''8'')"
    using hex_table_22(2) [OF d(1,2)] hex_table_22(2) [OF d(3,4)] hex_table_22(2) [OF d(5,6)] h(2-4) by simp_all
  then show thesis using that h(1) by (simp add: intAt_def)
qed

theorem getPaddedHex_spec:
  assumes "bn_ok e x"
  shows "twos_value (getPaddedHex e x) = bn_val e x" "even (length (getPaddedHex e x))" "digit_chars 4 (getPaddedHex e x)"
proof -
  define n where "n = nat \<bar>bn_val e x\<bar>"
  define h1 where "h1 = pad_even (number_text 4 n)"
  define h2 where "h2 = (if msb_set h1 then ''00'' @ h1 else h1)"
  note abs = abs_spec [OF assms]
  have "bn_toString e Radix16 (bn_abs e x) = number_text 4 n" using bn_toString_spec [OF abs(1), of Radix16] abs(2) by (simp add: n_def)
  then have h: "(let h1 = pad_even (bn_toString e Radix16 (bn_abs e x)) in if msb_set h1 then ''00'' @ h1 else h1) = h2"
    by (simp add: h1_def h2_def Let_def)
  note t = padded_text [OF h1_def h2_def]
  have neg: "compareTo x (ZERO e) < 0 \<longleftrightarrow> bn_val e x < 0"
    using compareTo_spec [OF assms ZERO_spec(1)] by (simp add: sgn_if split: if_splits)
  have "twos_value (getPaddedHex e x) = bn_val e x \<and> even (length (getPaddedHex e x)) \<and> digit_chars 4 (getPaddedHex e x)"
  proof (cases "bn_val e x < 0")
    case False
    then have "getPaddedHex e x = h2" using h neg by (simp add: getPaddedHex_def Let_def)
    then show ?thesis using t False by (simp add: twos_value_def n_def)
  next
    case True
    then have n: "bn_val e x = - int n" "0 < n" by (simp_all add: n_def)
    define L where "L = length h2"
    have L: "0 < L" "even L" using t by (simp_all add: L_def)
    then obtain l where l: "L = Suc l" by (cases L) simp_all
    have small: "int n < 8 * 16 ^ l" using msb_set_value [OF t(1,5)] t(2,4) by (simp add: L_def [symmetric] l not_le)
    note inv = inverted_text [OF t(1), folded L_def]
    define flipped where "flipped = bn_add e (fromString e (map invert_nibble h2) Radix16 nbi) (ONE e)"
    have f: "bn_ok e flipped" "bn_val e flipped = 16 ^ L - int n"
      using addTo_spec [OF bn_ok_raw bn_ok_raw [OF ONE_spec(1)]] read_digits(1,2) [of Radix16 "map invert_nibble h2" e nbi] inv t(2)
      by (simp_all add: flipped_def bn_add_def)
    define w h3 where wh: "w = nat (16 ^ L - int n)" "h3 = number_text 4 w"
    have w: "int w = 16 ^ L - int n" "8 * 16 ^ l < int w" using small n(2) by (simp_all add: wh l)
    have "bn_val e flipped = int w" using f(2) w(1) by simp
    then have out: "bn_toString e Radix16 flipped = h3" using bn_toString_spec [OF f(1), of Radix16] by (simp add: wh(2))
    have "length h3 = L" unfolding wh(2) l by (rule number_text_length) (use w n(2) l in simp_all)
    note len = this
    have h3: "digit_chars 4 h3" "text_value 4 h3 = int w" "h3 \<noteq> []" by (simp_all add: wh number_text_spec)
    have msb: "msb_set h3" using msb_set_value [OF h3(1,3)] w(2) h3(2) by (simp add: len l)
    have run: "getPaddedHex e x = (if startsWith (map to_upper h3) ''FF8'' then drop 2 h3 else h3)"
      using h neg True unfolding getPaddedHex_def Let_def by (simp add: flipped_def [symmetric] out)
    show ?thesis
    proof (cases "startsWith (map to_upper h3) ''FF8''")
      case False
      then show ?thesis using run msb h3 len L w(1) n(1) by (simp add: twos_value_def)
    next
      case ff8: True
      from upper_prefix [OF h3(1) this] obtain a b c s where s: "h3 = a # b # c # s" "intAt a = 15" "intAt b = 15" "intAt c = 8" .
      then have g: "getPaddedHex e x = c # s" using run ff8 by simp
      have cs: "digit_chars 4 (c # s)" using h3(1) s(1) by simp
      then have "msb_set (c # s)" using msb_set_Cons s(4) by simp
      moreover have "L = Suc (Suc (length (c # s)))" using len s(1) by simp
      then have "(16 :: int) ^ L = 256 * 16 ^ length (c # s)" "even (length (c # s))" using L(2) by simp_all
      moreover have "int w = 15 * (16 * 16 ^ length (c # s)) + 15 * 16 ^ length (c # s) + text_value 4 (c # s)"
        using h3(2) unfolding s(1) hex_value_Cons [of a] hex_value_Cons [of b] s(2,3) by simp
      ultimately show ?thesis using g cs w(1) n(1) by (simp add: twos_value_def)
    qed
  qed
  then show "twos_value (getPaddedHex e x) = bn_val e x" "even (length (getPaddedHex e x))" "digit_chars 4 (getPaddedHex e x)" by simp_all
qed

text \<open>Texts of hexadecimal digits of even length are decoded.\<close>

lemma decode_pairs_ok:
  assumes "digit_chars 4 h"
  shows "\<exists>ws. decode_pairs h = Inr ws"
  using assms
proof (induction h rule: decode_pairs.induct)
  case (1 a b s)
  then have d: "0 \<le> intAt a" "intAt a < 16" "0 \<le> intAt b" "intAt b < 16" "digit_chars 4 s" by simp_all
  define i where "i = 16 * nat (intAt a) + nat (intAt b)"
  have "nat (intAt a) < 16" "nat (intAt b) < 16" using d by simp_all
  then have "i < 256" "i div 16 = nat (intAt a)" "i mod 16 = nat (intAt b)" by (simp_all add: i_def)
  then have eq: "encodedByte i = map to_lower [a, b]"
    using hex_table_22(3) [OF d(1,2)] hex_table_22(3) [OF d(3,4)] by (simp add: encodedByte_def)
  have "distinct (map fst HEX_TO_SHORT)" by (auto simp: HEX_TO_SHORT_def distinct_map comp_def intro!: inj_onI encodedByte_inj)
  then have "map_of HEX_TO_SHORT (map to_lower [a, b]) = Some i"
    unfolding eq [symmetric] using \<open>i < 256\<close> by (auto simp: HEX_TO_SHORT_def map_of_eq_Some_iff)
  moreover obtain ws where "decode_pairs s = Inr ws" using 1(1) [OF refl _ d(5)] calculation by blast
  ultimately show ?case by (simp add: sbind_def Let_def)
qed simp_all

lemma bytesFromHex_ok: "digit_chars 4 h \<Longrightarrow> even (length h) \<Longrightarrow> \<exists>ws. bytesFromHex h = Inr ws"
  using decode_pairs_ok [of h] by (simp add: bytesFromHex_def)

section \<open>The protocol\<close>

text \<open>Client and server compute the same power.\<close>

lemma same_secret:
  fixes g N :: int
  assumes "B = (k * (g ^ x mod N) + g ^ b) mod N"
  shows "(B - k * (g ^ x mod N)) ^ (a + u * x) mod N = ((g ^ a mod N) * (g ^ x mod N) ^ u) ^ b mod N"
proof -
  have "(B - k * (g ^ x mod N)) mod N = (k * (g ^ x mod N) + g ^ b - k * (g ^ x mod N)) mod N" unfolding assms by (simp add: mod_diff_left_eq)
  then have base: "(B - k * (g ^ x mod N)) mod N = g ^ b mod N" by simp
  have "(B - k * (g ^ x mod N)) ^ (a + u * x) mod N = (g ^ b) ^ (a + u * x) mod N" by (metis base power_mod)
  also have "(g ^ b) ^ (a + u * x) = (g ^ a * (g ^ x) ^ u) ^ b" by (simp only: power_mult [symmetric] power_add [symmetric]) (simp add: algebra_simps)
  also have "\<dots> mod N = (g ^ a * (g ^ x) ^ u mod N) ^ b mod N" by (simp only: power_mod)
  also have "g ^ a * (g ^ x) ^ u mod N = (g ^ a mod N) * (g ^ x mod N) ^ u mod N"
  proof -
    have "(g ^ a mod N) * (g ^ x mod N) ^ u mod N = (g ^ a mod N) * ((g ^ x mod N) ^ u mod N) mod N" by (simp only: mod_mult_right_eq)
    also have "\<dots> = (g ^ a mod N) * ((g ^ x) ^ u mod N) mod N" by (simp only: power_mod)
    finally show ?thesis by (simp only: mod_mult_eq)
  qed
  finally show ?thesis by (simp only: power_mod)
qed

text \<open>\<open>N\<close> is odd and positive, and the numbers of the client are in normal form.\<close>

lemma calculateA_spec:
  assumes "e \<noteq> AM1" "modulus e N" "bn_ok e g" "bn_ok e a" "0 < bn_val e a"
  shows "\<exists>A. bn_ok e A \<and> bn_val e A = bn_val e g ^ nat (bn_val e a) mod bn_val e N \<and>
    calculateA e a g N = Some (if bn_val e A = 0 then Rejected (JsError ''Illegal parameter. A mod N cannot be 0.'') else Resolved A)"
proof -
  note N = modulusD [OF assms(2)]
  from modPow_spec [OF assms(1,3-5,2)] obtain A where
    A: "modPow e g a N = Some (True, A)" "bn_ok e A" "bn_val e A = bn_val e g ^ nat (bn_val e a) mod bn_val e N" by blast
  from bn_mod_spec [OF assms(1) A(2) N(1,8)] obtain r where
    r: "bn_mod e A N = Some r" "bn_ok e r" "bn_val e r = bn_val e A mod bn_val e N" by blast
  have "bn_val e r = bn_val e A" using r(3) A(3) by simp
  then have "bn_equals r (ZERO e) \<longleftrightarrow> bn_val e A = 0" using compareTo_spec [OF r(2) ZERO_spec(1)] by (auto simp: bn_equals_def sgn_0_0 sgn_if split: if_splits)
  then show ?thesis using A r(1) by (intro exI [of _ A]) (simp add: calculateA_def)
qed

theorem calculateS_spec:
  assumes "e \<noteq> AM1" "modulus e N" "bn_ok e g" "bn_ok e a" "0 < bn_val e a" "bn_ok e x" "0 < bn_val e x"
    "bn_ok e k" "bn_ok e U" "0 \<le> bn_val e U" "bn_ok e B" "v = bn_val e g ^ nat (bn_val e x) mod bn_val e N"
  shows "\<exists>S. calculateS e a g k x B N U = Some (Resolved S) \<and> bn_ok e S \<and>
    bn_val e S = (bn_val e B - bn_val e k * v) ^ (nat (bn_val e a) + nat (bn_val e U) * nat (bn_val e x)) mod bn_val e N"
proof -
  note N = modulusD [OF assms(2)]
  from modPow_spec [OF assms(1,3,6,7,2)] obtain w where
    w: "modPow e g x N = Some (True, w)" "bn_ok e w" "bn_val e w = v" unfolding assms(12) by blast
  define base1 where "base1 = bn_subtract e B (bn_multiply e k w)"
  define ex where "ex = bn_add e a (bn_multiply e U x)"
  have prod: "bn_ok e (bn_multiply e y z)" "bn_val e (bn_multiply e y z) = bn_val e y * bn_val e z" if "bn_ok e y" "bn_ok e z" for y z
    using multiplyTo_spec [OF that] by (simp_all add: bn_multiply_def)
  have base1: "bn_ok e base1" "bn_val e base1 = bn_val e B - bn_val e k * v"
    using subTo_spec [OF bn_ok_raw [OF assms(11)] bn_ok_raw [OF prod(1) [OF assms(8) w(2)]]] prod(2) [OF assms(8) w(2)] w(3)
    by (simp_all add: base1_def bn_subtract_def)
  have ex: "bn_ok e ex" "bn_val e ex = bn_val e a + bn_val e U * bn_val e x"
    using addTo_spec [OF bn_ok_raw [OF assms(4)] bn_ok_raw [OF prod(1) [OF assms(9,6)]]] prod(2) [OF assms(9,6)]
    by (simp_all add: ex_def bn_add_def)
  have "0 \<le> bn_val e U * bn_val e x" using assms(7,10) by simp
  then have pos: "0 < bn_val e ex" and n: "nat (bn_val e ex) = nat (bn_val e a) + nat (bn_val e U) * nat (bn_val e x)"
    using assms(5,10) by (simp_all add: ex(2) nat_add_distrib nat_mult_distrib)
  from modPow_spec [OF assms(1) base1(1) ex(1) pos assms(2)] obtain i where
    i: "modPow e base1 ex N = Some (True, i)" "bn_ok e i" "bn_val e i = bn_val e base1 ^ nat (bn_val e ex) mod bn_val e N" by blast
  from bn_mod_spec [OF assms(1) i(2) N(1,8)] obtain S where
    S: "bn_mod e i N = Some S" "bn_ok e S" "bn_val e S = bn_val e i mod bn_val e N" by blast
  have "calculateS e a g k x B N U = Some (Resolved S)"
    by (simp add: calculateS_def w(1) base1_def [symmetric] ex_def [symmetric] i(1) S(1))
  then show ?thesis using S(2,3) i(3) by (simp add: base1(2) n)
qed

text \<open>The modulus of the protocol is odd.\<close>

lemma intAt_upper:
  "intAt (CHR ''1'') = 1" "intAt (CHR ''2'') = 2" "intAt (CHR ''3'') = 3" "intAt (CHR ''4'') = 4" "intAt (CHR ''5'') = 5" "intAt (CHR ''6'') = 6"
  "intAt (CHR ''7'') = 7" "intAt (CHR ''8'') = 8" "intAt (CHR ''9'') = 9" "intAt (CHR ''A'') = 10" "intAt (CHR ''B'') = 11" "intAt (CHR ''C'') = 12"
  "intAt (CHR ''D'') = 13" "intAt (CHR ''E'') = 14" "intAt (CHR ''F'') = 15"
  by (simp_all add: intAt_def)

lemma digit_chars_Nil: "digit_chars k []"
  by (simp add: digit_chars_def)

lemma INIT_N_modulus: "modulus e (number_of_hex e INIT_N)"
proof -
  have ok: "digit_chars 4 INIT_N" unfolding INIT_N_def by (simp only: digit_chars_append) (simp add: intAt_upper digit_chars_Nil)
  have "suffix ''43DB5BFCE0FD108E4B82D120A93AD2CAFFFFFFFFFFFFFFFF'' INIT_N" unfolding INIT_N_def by (intro suffix_appendI suffix_order.refl)
  then obtain s where s: "INIT_N = s @ ''43DB5BFCE0FD108E4B82D120A93AD2CAFFFFFFFFFFFFFFFF''" by (auto simp: suffix_def)
  have "prefix ''FFFFFFFFFFFFFFFFC90FDAA22168C234C4C6628B80DC1CD1'' INIT_N" unfolding INIT_N_def by (rule prefixI) (rule refl)
  then obtain s' where s': "INIT_N = CHR ''F'' # s'" by (auto simp: prefix_def)
  have "odd (text_value 4 INIT_N)" unfolding s text_value_append by (simp add: hex_value_Cons intAt_upper)
  moreover have "0 < text_value 4 INIT_N"
  proof -
    have "digit_chars 4 s'" using ok unfolding s' by simp
    then have "0 \<le> text_value 4 s'" using text_value_bounds by blast
    moreover have "0 < intAt (CHR ''F'') * 16 ^ length s'" by (simp add: intAt_upper)
    ultimately show ?thesis unfolding s' hex_value_Cons by linarith
  qed
  ultimately show ?thesis using number_of_hex_spec [OF ok] by (simp add: modulus_def)
qed

end
