(* ===== verification/SrpProperties.thy ===== *)
theory SrpProperties
  imports SrpProofs
begin

text \<open>
  What the login protocol promises: client and server derive the same key, texts of numbers are unambiguous and read
  back, random bytes are kept; and where a promise is never settled.
\<close>

lemma small_hex_number:
  assumes "\<bar>i\<bar> < 2 ^ 26"
  shows "bn_ok e (nbv e i)" "bn_val e (nbv e i) = i"
  using assms base_bounds(1) [of e] by (intro val_nbv; simp)+

section \<open>Texts\<close>

text \<open>
  C19. The padded hexadecimal text of a number is its two's complement with whole bytes, so that it has one meaning only.
\<close>

theorem padded_hex_is_twos_complement:
  assumes "bn_ok e x"
  shows "twos_value (getPaddedHex e x) = bn_val e x \<and> even (length (getPaddedHex e x))"
  using getPaddedHex_spec [OF assms] by simp

theorem padded_hex_is_twos_complement_witness:
  "twos_value (getPaddedHex AM3 (nbv AM3 (- 236))) = - 236 \<and> even (length (getPaddedHex AM3 (nbv AM3 (- 236))))"
  using padded_hex_is_twos_complement [OF small_hex_number(1), of "- 236" AM3] small_hex_number(2) [of "- 236" AM3] by simp

text \<open>C30. The text of a number in radix 2, 4, 8, 16 or 32 is read back as the number.\<close>

theorem number_texts_are_read_back:
  assumes "bn_ok e x"
  shows "bn_equals (fromString e (bn_toString e b x) b r) x"
proof -
  note t = read_text [OF assms, of b r]
  show ?thesis using compareTo_spec [OF t(1) assms] t(2) by (simp add: bn_equals_def sgn_0_0)
qed

theorem number_texts_are_read_back_witness:
  "bn_equals (fromString AM2 (bn_toString AM2 Radix8 (nbv AM2 (- 123456))) Radix8 nbi) (nbv AM2 (- 123456))"
  using number_texts_are_read_back [OF small_hex_number(1), of "- 123456" AM2 Radix8 nbi] by simp

text \<open>The comment of \<open>getPaddedHex\<close> says \<open>FF14\<close> for -236.\<close>

lemma negative_text_is_lower_case: "getPaddedHex AM3 (nbv AM3 (- 236)) = ''ff14''"
  by code_simp

section \<open>The key\<close>

lemma hash_digits:
  assumes "getHashFromData sha256 d = Inr h"
  shows "digit_chars 4 h"
proof -
  have "digit_chars 4 (encodedByte i)" if "i < 256" for i
  proof -
    have nth: "intAt (hex_digits ! n) = int n" if "n < 16" for n
    proof -
      have "map intAt hex_digits = map int [0..<16]" "length hex_digits = 16" by (simp_all add: hex_digits_def intAt_def upt_rec)
      then have "intAt (hex_digits ! n) = map int [0..<16] ! n" using that by (metis nth_map)
      then show ?thesis using that by simp
    qed
    have "i div 16 < 16" "i mod 16 < 16" using that by simp_all
    then show ?thesis unfolding encodedByte_def by (simp add: nth digit_chars_Nil)
  qed
  moreover have "unat w < 256" for w :: "8 word" using unsigned_less [of w] by simp
  ultimately have "digit_chars 4 (getHexFromBytes ws)" for ws
    by (auto simp: getHexFromBytes_def digit_chars_def)
  then show ?thesis using assms by (auto simp: getHashFromData_def Let_def digit_chars_def split: if_splits)
qed

lemma hash_number:
  assumes "getHashFromHex sha256 t = Inr h"
  shows "bn_ok e (number_of_hex e h)" "0 \<le> bn_val e (number_of_hex e h)"
proof -
  have "digit_chars 4 h" using assms hash_digits by (auto simp: getHashFromHex_def sbind_def split: sum.splits)
  then show "bn_ok e (number_of_hex e h)" "0 \<le> bn_val e (number_of_hex e h)" using number_of_hex_spec [of h e] text_value_bounds by simp_all
qed

text \<open>
  C2. The key of a login is derived from the power the server computes from the verifier: with the password's number \<open>x\<close>,
  the verifier \<open>v\<close> and the server's secret \<open>b\<close>, both hold \<open>(A * v ^ U) ^ b\<close>.
\<close>

theorem client_and_server_share_key:
  assumes "e \<noteq> AM1" "bn_ok e (ah_N h)" "0 < bn_val e (ah_N h)" "odd (bn_val e (ah_N h))"
    "bn_ok e (ah_g h)" "bn_ok e (ah_a h)" "0 < bn_val e (ah_a h)"
    "bn_val e (ah_A h) = bn_val e (ah_g h) ^ nat (bn_val e (ah_a h)) mod bn_val e (ah_N h)" "bn_ok e (ah_k h)"
    "calculateU e sha256 (ah_A h) B = Inr U" "getHashFromData sha256 (Text (ah_userPoolName h @ username @ '':'' @ password)) = Inr uph"
    "getHashFromHex sha256 (getPaddedHex e salt @ uph) = Inr xh" "x = bn_val e (number_of_hex e xh)" "x \<noteq> 0"
    "v = bn_val e (ah_g h) ^ nat x mod bn_val e (ah_N h)" "bn_ok e B"
    "bn_val e B = (bn_val e (ah_k h) * v + bn_val e (ah_g h) ^ b) mod bn_val e (ah_N h)" "bn_val e B \<noteq> 0"
  shows "\<exists>S ikm s. getPasswordAuthenticationKey e sha256 hmac encode h username password B salt =
      Some (Resolved (getHkdfKey hmac ikm s (encode ''Caldera Derived Key'' @ encode [CHR 0x01]))) \<and>
    bytesFromHex (getPaddedHex e S) = Inr ikm \<and> bytesFromHex (getPaddedHex e U) = Inr s \<and>
    bn_val e S = (bn_val e (ah_A h) * v ^ nat (bn_val e U)) ^ b mod bn_val e (ah_N h)"
proof -
  have N: "modulus e (ah_N h)" using assms(2-4) by (simp add: modulus_def)
  from assms(10) obtain uh where uh: "getHashFromHex sha256 (getPaddedHex e (ah_A h) @ getPaddedHex e B) = Inr uh" "U = number_of_hex e uh"
    by (auto simp: calculateU_def sbind_def Let_def split: sum.splits if_splits)
  note U = hash_number [OF uh(1), of e, folded uh(2)] and X = hash_number [OF assms(12), of e]
  have x: "0 < x" using X(2) assms(13,14) by simp
  from calculateS_spec [OF assms(1) N assms(5,6,7) X(1) _ assms(9) U assms(16) assms(15) [unfolded assms(13)]] x assms(13)
  obtain S where S: "calculateS e (ah_a h) (ah_g h) (ah_k h) (number_of_hex e xh) B (ah_N h) U = Some (Resolved S)" "bn_ok e S"
    "bn_val e S = (bn_val e B - bn_val e (ah_k h) * v) ^ (nat (bn_val e (ah_a h)) + nat (bn_val e U) * nat x) mod bn_val e (ah_N h)" by auto
  from bn_mod_spec [OF assms(1,16,2,3)] obtain r where r: "bn_mod e B (ah_N h) = Some r" "bn_ok e r" "bn_val e r = bn_val e B mod bn_val e (ah_N h)" by blast
  have "bn_val e r = bn_val e B" using r(3) assms(17) by simp
  then have nz: "\<not> bn_equals r (ZERO e)"
    using compareTo_spec [OF r(2) ZERO_spec(1)] assms(18) by (auto simp: bn_equals_def sgn_0_0)
  note padS = getPaddedHex_spec(2,3) [OF S(2)] and padU = getPaddedHex_spec(2,3) [OF U(1)]
  obtain ikm s where b: "bytesFromHex (getPaddedHex e S) = Inr ikm" "bytesFromHex (getPaddedHex e U) = Inr s"
    using bytesFromHex_ok [OF padS(2,1)] bytesFromHex_ok [OF padU(2,1)] by blast
  have run: "getPasswordAuthenticationKey e sha256 hmac encode h username password B salt =
      Some (Resolved (getHkdfKey hmac ikm s (encode ''Caldera Derived Key'' @ encode [CHR 0x01])))"
    unfolding getPasswordAuthenticationKey_def assms(11) by (simp add: r(1) nz assms(10,12) sbind_def S(1) b)
  have "bn_val e S = (bn_val e (ah_A h) * v ^ nat (bn_val e U)) ^ b mod bn_val e (ah_N h)"
    unfolding S(3) assms(8,15) by (rule same_secret) (use assms(15,17) in simp)
  then show ?thesis using run b by blast
qed

definition one_hash :: "source_data \<Rightarrow> octets" where
  "one_hash d = replicate 31 0 @ [1]"

definition demo_helper :: auth_helper where
  "demo_helper = \<lparr>ah_userPoolName = ''pool'', ah_randomPassword = None, ah_saltToHashDevices = None, ah_verifierDevices = None,
     ah_a = nbv AM3 6, ah_N = nbv AM3 23, ah_g = nbv AM3 5, ah_k = nbv AM3 1, ah_A = nbv AM3 8\<rparr>"

lemma one_hash_text: "getHashFromData one_hash d = Inr (replicate 63 CHR ''0'' @ ''1'')"
  by code_simp

lemma one_hash_hex:
  assumes "digit_chars 4 t" "even (length t)"
  shows "getHashFromHex one_hash t = Inr (replicate 63 CHR ''0'' @ ''1'')"
  using bytesFromHex_ok [OF assms] by (auto simp: getHashFromHex_def sbind_def one_hash_text)

lemma one_hash_number: "bn_ok e (number_of_hex e (replicate 63 CHR ''0'' @ ''1''))" "bn_val e (number_of_hex e (replicate 63 CHR ''0'' @ ''1'')) = 1"
proof -
  have z: "digit_chars 4 (replicate n CHR ''0'')" "text_value 4 (replicate n CHR ''0'') = 0" for n
    by (induction n) (simp_all add: digit_chars_Nil hex_value_Cons)
  have "digit_chars 4 (replicate 63 CHR ''0'' @ ''1'')" using z by (simp add: digit_chars_Nil intAt_upper)
  then show "bn_ok e (number_of_hex e (replicate 63 CHR ''0'' @ ''1''))" "bn_val e (number_of_hex e (replicate 63 CHR ''0'' @ ''1'')) = 1"
    using number_of_hex_spec [of "replicate 63 CHR ''0'' @ ''1''" e] z by (simp_all add: text_value_snoc intAt_upper)
qed

text \<open>The server of the example has the secret 15.\<close>

theorem client_and_server_share_key_witness:
  "\<exists>key. getPasswordAuthenticationKey AM3 one_hash (\<lambda>k d. k @ d) (map (\<lambda>c. of_nat (of_char c))) demo_helper ''user'' ''secret'' (nbv AM3 1) (nbv AM3 7) =
    Some (Resolved key)"
proof -
  note n = small_hex_number [of _ AM3]
  define u where "u = number_of_hex AM3 (replicate 63 CHR ''0'' @ ''1'')"
  note u = one_hash_number [of AM3, folded u_def]
  have "\<not> bn_equals u (ZERO AM3)" using compareTo_spec [OF u(1) ZERO_spec(1)] u(2) by (auto simp: bn_equals_def)
  moreover have pad: "digit_chars 4 (getPaddedHex AM3 (nbv AM3 i))" "even (length (getPaddedHex AM3 (nbv AM3 i)))" if "\<bar>i\<bar> < 2 ^ 26" for i
    using getPaddedHex_spec [OF n(1) [OF that]] by simp_all
  ultimately have U: "calculateU AM3 one_hash (ah_A demo_helper) (nbv AM3 1) = Inr u"
    by (simp add: calculateU_def demo_helper_def one_hash_hex sbind_def u_def [symmetric] Let_def)
  have "digit_chars 4 (replicate 63 CHR ''0'' @ ''1'')" using hash_digits [OF one_hash_text] .
  then have X: "getHashFromHex one_hash (getPaddedHex AM3 (nbv AM3 7) @ replicate 63 CHR ''0'' @ ''1'') = Inr (replicate 63 CHR ''0'' @ ''1'')"
    using pad [of 7] by (intro one_hash_hex) simp_all
  have v: "bn_val AM3 (ah_N demo_helper) = 23" "bn_val AM3 (ah_g demo_helper) = 5" "bn_val AM3 (ah_a demo_helper) = 6"
    "bn_val AM3 (ah_k demo_helper) = 1" "bn_val AM3 (ah_A demo_helper) = 8" "bn_val AM3 (nbv AM3 1) = 1"
    and ok: "bn_ok AM3 (ah_N demo_helper)" "bn_ok AM3 (ah_g demo_helper)" "bn_ok AM3 (ah_a demo_helper)" "bn_ok AM3 (ah_k demo_helper)"
      "bn_ok AM3 (nbv AM3 1)"
    by (simp_all add: demo_helper_def n)
  note share = client_and_server_share_key [of AM3 demo_helper one_hash "nbv AM3 1" u "''user''" "''secret''" _ "nbv AM3 7" _ 1 5 15
      "\<lambda>k d. k @ d" "map (\<lambda>c. of_nat (of_char c))", OF _ ok(1) _ _ ok(2) ok(3) _ _ ok(4) U one_hash_text X _ _ _ ok(5)]
  have "\<exists>S ikm s. getPasswordAuthenticationKey AM3 one_hash (\<lambda>k d. k @ d) (map (\<lambda>c. of_nat (of_char c))) demo_helper ''user'' ''secret'' (nbv AM3 1) (nbv AM3 7) =
      Some (Resolved (getHkdfKey (\<lambda>k d. k @ d) ikm s (map (\<lambda>c. of_nat (of_char c)) ''Caldera Derived Key'' @ map (\<lambda>c. of_nat (of_char c)) [CHR 0x01]))) \<and>
    bytesFromHex (getPaddedHex AM3 S) = Inr ikm \<and> bytesFromHex (getPaddedHex AM3 u) = Inr s \<and>
    bn_val AM3 S = (bn_val AM3 (ah_A demo_helper) * 5 ^ nat (bn_val AM3 u)) ^ 15 mod bn_val AM3 (ah_N demo_helper)"
    by (rule share) (simp_all add: v u(2) [unfolded u_def])
  then show ?thesis by blast
qed

section \<open>Refusals\<close>



text \<open>With the exponent 0 the promise is never settled.\<close>

lemma calculateA_never_settles: "bi_t a = 0 \<Longrightarrow> calculateA e a g N = Some Pending"
  by (simp add: calculateA_def modPow_def bitLength_def Let_def)

text \<open>The zeros before a text of a hash are one too few.\<close>

lemma short_hash_is_odd:
  assumes "length (sha256 d) = 31" "getHashFromData sha256 d = Inr h"
  shows "length h = 63"
  using assms by (auto simp: getHashFromData_def Let_def length_getHexFromBytes)

end
