(* ===== verification/Spec2Isabelle.thy ===== *)
theory Spec2Isabelle
  imports StorageCacheProofs PredicatesProofs DataStoreUtilProofs DataStoreKeysProofs OutboxProofs AsyncStorageDbProofs BackgroundProcessProofs
    QueuedStorageProofs RetryProofs RelationshipProofs FetchProofs
    StorageFacadeProofs QueryPitfalls Mutex MultipartUploadProofs MutationProcessorProofs SyncEngineProofs ModelClassProofs BigIntegerProperties SrpProperties
begin

text \<open>
  A verification library for Amplify JS (\<open>src/packages\<close>), the client library whose packages give web and
  React Native applications authentication, storage, APIs and an offline store on top of AWS services. The
  library models the parts with an own core logic and state: the offline store DataStore, and the
  key-value storages, caches, queues and retries of the core package it stands on, the uploads to S3, and the login
  with a password (SRP) with its arithmetic of big integers. Each component is two theories: one with its state and
  operations as the code has them, and one, \<open>...Proofs\<close>, with its lemmas.

  \<^bold>\<open>Values, errors, effects.\<close> \<open>Prelude\<close> has what all theories share: maps that keep the order of insertion
  (\<open>omap\<close>, JavaScript's objects and \<open>Map\<close>), a state and error monad for methods, the sum monad for pure
  functions that may throw, and facts on searching and joining lists. \<open>JsValue\<close> models JavaScript values with
  their comparison and conversion; the texts of numbers are the parameter \<open>js_env\<close>. An exception is the left
  side of a sum; every asynchronous operation runs to its end before the next one starts, except where
  interleaving is the point (\<open>BackgroundProcess\<close>, \<open>Mutex\<close>), which are step relations.

  \<^bold>\<open>Core.\<close> \<open>KeyValueStorage\<close>: the in-memory storage of \<open>core/src/storage\<close> and the one of DataStore, both instances
  of the interface \<open>kv_store\<close>. \<open>CacheHelpers\<close> and \<open>StorageCache\<close>: the persistent cache of \<open>core/src/Cache\<close> (byte
  lengths, configuration, expiry, eviction by priority); its size counter is exact after every session.
  \<open>QueuedStorage\<close>: the event queue of \<open>core/src/utils/queuedStorage\<close>. \<open>Retry\<close>: \<open>core/src/utils/retry\<close> and the
  retry middleware; loops run on the attempts left, or on \<open>fuel\<close> that the theorems bound.
  \<open>BackgroundProcess\<close>: \<open>core/src/BackgroundProcessManager\<close>. \<open>Mutex\<close>: \<open>core/src/Mutex\<close> with the callbacks that run
  under it: exclusion, order, and that everyone is served.

  \<^bold>\<open>DataStore.\<close> From the bottom:
  \<open>Predicates\<close> (\<open>datastore/src/predicates\<close>, \<open>util.ts\<close>): predicate trees, their evaluation and their translation from
  and to GraphQL filters. \<open>DataStoreUtil\<close> (\<open>util.ts\<close>): comparison of values, sorting, pagination.
  \<open>DataStoreKeys\<close> (\<open>util.ts\<close>): primary, composite and index keys of a schema. \<open>Relationship\<close>
  (\<open>storage/relationship.ts\<close>): the fields that join two models. \<open>Outbox\<close> (\<open>sync/outbox.ts\<close>, \<open>sync/merger.ts\<close>): the
  queue of mutations and the merging of records the service sends.
  \<open>AsyncStorageDb\<close> (\<open>storage/adapter/AsyncStorageDatabase.ts\<close>): records in a key-value store under ULIDs, which
  refine a map from identifiers to records.
  \<open>StorageAdapter\<close> (\<open>StorageAdapterBase.ts\<close>, \<open>AsyncStorageAdapter.ts\<close>): saving with conditions, queries by key or by
  predicate, and deletions that cascade over relationships, on that database; \<open>StorageAdapterProofs\<close> and
  \<open>CascadeProofs\<close> show what each leaves stored. The traversal of a cascade takes \<open>fuel\<close>; the number of
  stored records plus two is enough exactly when the records are not cyclic.
  \<open>Conditions\<close> (\<open>predicates/next.ts\<close>): the condition trees of queries, their evaluation on one item and
  \<open>fetch\<close>, which asks a storage, group by group; \<open>PredicateBuilder\<close>: the object a predicate is written with.
  \<open>FetchProofs\<close> proves \<open>fetch\<close> against the interface \<open>predicate_storage\<close> (a storage answers a predicate with the
  records that satisfy it), and \<open>StorageAdapterProofs\<close> interprets that interface on the adapter, so that a
  query through all layers returns what the condition says, for the conditions of \<open>cond_ok\<close>: no related records
  under \<open>not\<close>, no empty \<open>or\<close>, no missing field in a negated comparison, no \<open>or\<close> over the fields of a composite key.
  \<open>QueryPitfalls\<close> evaluates such cases, where the query and the evaluation differ.
  \<open>StorageFacade\<close> (\<open>storage/storage.ts\<close>): the storage the rest of DataStore uses, with the messages it publishes:
  which fields an update sends, one deletion message per record of a cascade, what observers receive.

  \<^bold>\<open>Models.\<close> \<open>ScalarTypes\<close> (\<open>util.ts\<close>, \<open>types.ts\<close>): the scalar types and the patterns of their texts, as regular
  expressions matched by derivatives. \<open>ModelValidation\<close> and \<open>ModelClass\<close> (\<open>datastore.ts\<close>): the check of a field
  against the schema, and the construction and copying of instances with the patches that record changes.
  Immer, the library that makes the drafts and the patches, is the parameter \<open>immer\<close>: a type of drafts with its operations, and
  patches with paths into nested values; the theorems assume what its documentation promises (\<open>immer_ok\<close>), which the instance
  \<open>diffing\<close> satisfies. \<open>ModelClassProofs\<close> shows that fields have their types, that the patches of a copy lead from the
  record that was read to the copy, and evaluates the cases in which the checks let a value pass that they mean to refuse.

  \<^bold>\<open>Synchronisation.\<close> \<open>SchemaOrder\<close> (\<open>initSchema\<close> in \<open>datastore.ts\<close>): the order in which models follow the models they
  belong to. \<open>SyncProcessor\<close> (\<open>sync/processors/sync.ts\<close>): requests with their retries and modes of authorization, the
  loop over the pages of a model, and all models side by side as a step relation; \<open>SyncProcessorProofs\<close> and
  \<open>SyncRunProofs\<close> show that a run ends, is never stuck, sends parents first and every record once.
  \<open>MutationProcessor\<close> (\<open>sync/processors/mutation.ts\<close>): the loop that sends the outbox, with conflicts, outages and the
  signals that restart it. \<open>SyncEngine\<close> (\<open>sync/index.ts\<close>): metadata of the models, the handler of a page, rounds, and
  local changes; \<open>SyncEngineProofs\<close> composes the engine with the processor, the outbox and the merger. The service,
  the random numbers and the waits are fields of \<open>sync_env\<close> and \<open>mp_env\<close>; loops that may not end are partial functions
  of which an end is a theorem.

  \<^bold>\<open>S3.\<close> \<open>MultipartUpload\<close> (\<open>storage/src/providers/s3\<close>, upload of data): cutting data into parts, the concurrent uploads
  as a step relation, the cache that lets an upload be resumed, and the states of a transfer task.

  \<^bold>\<open>SRP.\<close> (\<open>auth/src/providers/cognito/utils/srp\<close>) \<open>JsNumber\<close>: the numbers of JavaScript the arithmetic uses: exact
  integers rounded to 53 bits, and the 32-bit operators. \<open>BigInteger\<close>: the integers as lists of digits of 26, 28 or 30 bits with
  the three routines that multiply by a digit, sums, products, shifts and division; \<open>ModularArithmetic\<close>: the two
  reductions and \<open>modPow\<close> with its windows. Division is proved from the estimate of a digit upwards
  (\<open>BigIntegerSums\<close>, \<open>BigIntegerProducts\<close>, \<open>BigIntegerSquares\<close>, \<open>BigIntegerEstimate\<close>, \<open>BigIntegerDivision\<close>,
  \<open>DivisionProofs\<close>), for digits of 28 and 30 bits; \<open>MontgomeryProofs\<close> and \<open>ModPowProofs\<close> treat powers with an odd
  modulus, with Montgomery's reduction and with exponent 0; \<open>BigIntegerProperties\<close> states the results. The loops that end by the values of their numbers
  are partial functions, of which an end is a theorem. \<open>BigIntegerTexts\<close>: numbers are read back from their texts. \<open>Srp\<close>: texts of
  bytes, hashes of numbers, and the steps of a login; \<open>SrpProofs\<close> and \<open>SrpProperties\<close> show that the key of a login is derived from
  the power the server computes from the verifier, and which answers of a server are refused. Hash functions, encoders
  and random numbers are parameters; the native modules and the text of a date (\<open>getNowString.ts\<close>) are left out.

  \<^bold>\<open>Interfaces.\<close> \<open>kv_store\<close> and \<open>clearable_kv_store\<close> (storages), \<open>comparator\<close> (sorting), \<open>total_values\<close> (values that
  compare totally), \<open>predicate_storage\<close>, and \<open>sending_invariant\<close> (what every step of the mutation loop keeps); each is
  interpreted on the definitions of the component that provides it.

  \<^bold>\<open>Not modelled.\<close> Network clients, browser and React Native bindings, generated service types and the UI
  packages have no logic to state beyond their calls. Also left out: the processor of subscriptions and the wiring
  of the observables of the sync engine; the methods of the class \<open>DataStore\<close> that join its parts, and the lazy loading of
  related models; the IndexedDB and SQLite adapters; of authentication all but SRP; the API, analytics, geolocation and
  notification packages; and of S3 all but the upload. Time, random numbers, ULIDs and the platform's storage are
  parameters.
\<close>

end
